(* ===== verification/Log_Prelude.thy ===== *)
theory Log_Prelude
  imports Main "HOL-Library.Word"
begin

text \<open>
  Shared prelude of the development: the machine-integer type of the source, the
  collections of rewrite rules the component theories extend, and the generic facts on
  ring indices, lists and words that several components use.
\<close>

unbundle bit_operations_syntax

section \<open>Types\<close>

text \<open>\<open>std::size_t\<close> on the 64-bit targets of the library.\<close>

type_synonym size_t = "64 word"

text \<open>A C \<open>int\<close>.\<close>

type_synonym c_int = "32 word"

section \<open>Collections\<close>

named_theorems ring_simps \<open>index arithmetic of the circular buffer\<close>
named_theorems op_defs \<open>definitions of the operations, unfolded by the component proofs\<close>

section \<open>Ring indices\<close>

text \<open>
  A position of a ring of \<open>M\<close> slots is \<open>(H + i) mod M\<close>; two offsets below \<open>M\<close> from the
  same start never meet.
\<close>

lemma ring_inj:
  fixes H i j M :: nat
  assumes "i < M" and "j < M" and "(H + i) mod M = (H + j) mod M"
  shows "i = j"
proof -
  have step: "a = b" if le: "a \<le> b" and b: "b < M" and eq: "(H + a) mod M = (H + b) mod M" for a b
  proof -
    from eq have "M dvd (H + b) - (H + a)"
      by (metis mod_eq_dvd_iff_nat add_le_mono le order_refl)
    then have "M dvd b - a" by simp
    with b le show ?thesis by (metis diff_diff_cancel diff_is_0_eq' dvd_imp_le
          less_imp_diff_less linorder_not_le nat_dvd_not_less neq0_conv minus_nat.diff_0)
  qed
  show ?thesis
    using step [of i j] step [of j i] assms by (metis nat_le_linear)
qed

text \<open>The number of occupied slots between a head and a tail index.\<close>

definition ring_len :: "nat \<Rightarrow> nat \<Rightarrow> nat \<Rightarrow> nat" where
  "ring_len M H T = (T + M - H) mod M"

lemma ring_len_less [simp]: "0 < M \<Longrightarrow> ring_len M H T < M"
  by (simp add: ring_len_def)

lemma ring_len_tail:
  assumes "H < M" and "T < M"
  shows "(H + ring_len M H T) mod M = T"
proof -
  have "(H + ring_len M H T) mod M = (H + (T + M - H)) mod M"
    by (simp add: ring_len_def mod_add_right_eq)
  also have "H + (T + M - H) = T + M" using assms by simp
  finally show ?thesis using assms by simp
qed

lemma ring_len_unique:
  assumes "H < M" and "T < M" and "i < M" and "(H + i) mod M = T"
  shows "ring_len M H T = i"
  using assms ring_len_tail [of H M T] ring_len_less [of M H T] ring_inj [of "ring_len M H T" M i H]
  by simp

lemma ring_len_0_iff:
  assumes "H < M" and "T < M"
  shows "ring_len M H T = 0 \<longleftrightarrow> H = T"
  using assms ring_len_tail [of H M T] ring_len_unique [of H M T 0] by auto

lemma ring_len_Suc_tail:
  assumes "H < M" and "T < M" and "(T + 1) mod M \<noteq> H"
  shows "ring_len M H ((T + 1) mod M) = Suc (ring_len M H T)"
proof (rule ring_len_unique)
  have eq: "(H + Suc (ring_len M H T)) mod M = (T + 1) mod M"
    using ring_len_tail [OF assms(1,2)] by (metis add_Suc_right mod_Suc_eq Suc_eq_plus1)
  then show "(H + Suc (ring_len M H T)) mod M = (T + 1) mod M" .
  show "Suc (ring_len M H T) < M"
  proof (rule ccontr)
    assume "\<not> Suc (ring_len M H T) < M"
    moreover have "ring_len M H T < M" using assms(1) by (intro ring_len_less) simp
    ultimately have "Suc (ring_len M H T) = M" by simp
    with eq assms(1,3) show False by simp
  qed
qed (use assms in auto)

lemma ring_len_full:
  assumes "H < M" and "T < M"
  shows "(T + 1) mod M = H \<longleftrightarrow> Suc (ring_len M H T) = M"
proof
  assume "(T + 1) mod M = H"
  then have "(H + Suc (ring_len M H T)) mod M = H"
    using ring_len_tail [OF assms] by (metis add_Suc_right mod_Suc_eq Suc_eq_plus1)
  then have "\<not> Suc (ring_len M H T) < M"
    using ring_inj [of "Suc (ring_len M H T)" M 0 H] assms by auto
  moreover have "ring_len M H T < M" using assms(1) by (intro ring_len_less) simp
  ultimately show "Suc (ring_len M H T) = M" by simp
next
  assume "Suc (ring_len M H T) = M"
  then have "(H + Suc (ring_len M H T)) mod M = H" using assms by simp
  then show "(T + 1) mod M = H"
    using ring_len_tail [OF assms] by (metis add_Suc_right mod_Suc_eq Suc_eq_plus1)
qed

lemma ring_len_Suc_head:
  assumes "H < M" and "T < M" and "H \<noteq> T"
  shows "Suc (ring_len M ((H + 1) mod M) T) = ring_len M H T"
proof -
  from assms ring_len_0_iff obtain n where n: "ring_len M H T = Suc n"
    by (metis not0_implies_Suc)
  have "ring_len M ((H + 1) mod M) T = n"
  proof (rule ring_len_unique)
    show "((H + 1) mod M + n) mod M = T"
      using ring_len_tail [OF assms(1,2)] n by (simp add: mod_add_left_eq)
    show "n < M" using n ring_len_less [of M H T] assms(1) by simp
  qed (use assms in auto)
  with n show ?thesis by simp
qed

section \<open>Lists\<close>

lemma drop_append_last: "xs \<noteq> [] \<Longrightarrow> drop 1 (xs @ [x]) = drop 1 xs @ [x]"
  by (cases xs) simp_all

text \<open>The last \<open>n\<close> elements, the abstract content of a bounded log of recent entries.\<close>

definition last_n :: "nat \<Rightarrow> 'a list \<Rightarrow> 'a list" where
  "last_n n xs = drop (length xs - n) xs"

lemma length_last_n [simp]: "length (last_n n xs) = min n (length xs)"
  by (simp add: last_n_def)

lemma last_n_all [simp]: "length xs \<le> n \<Longrightarrow> last_n n xs = xs"
  by (simp add: last_n_def)

lemma last_n_0 [simp]: "last_n 0 xs = []"
  by (simp add: last_n_def)

lemma last_n_snoc:
  "last_n n (xs @ [x]) =
     (if length (last_n n xs) < n then last_n n xs @ [x] else drop 1 (last_n n xs @ [x]))"
  by (cases "length xs < n") (auto simp: last_n_def Suc_diff_le)

lemma last_n_last_n_append: "last_n n (last_n n xs @ ys) = last_n n (xs @ ys)"
proof (cases "length xs \<le> n")
  case False
  then have "last_n n xs = drop (length xs - n) xs" and "length (last_n n xs) = n"
    by (simp_all add: last_n_def)
  with False show ?thesis
    by (simp add: last_n_def add.commute)
qed simp

text \<open>
  A function with a state that may throw, run over a list: the elements it did not see, the
  state, and the exception.
\<close>

fun run_until :: "('a \<Rightarrow> 's \<Rightarrow> 's \<times> 'e option) \<Rightarrow> 'a list \<Rightarrow> 's \<Rightarrow> 'a list \<times> 's \<times> 'e option" where
  "run_until f [] s = ([], s, None)"
| "run_until f (x # xs) s =
     (case f x s of (s, Some e) \<Rightarrow> (xs, s, Some e) | (s, None) \<Rightarrow> run_until f xs s)"

lemma run_until_total:
  assumes "\<And>x s. x \<in> set xs \<Longrightarrow> snd (f x s) = None"
  shows "run_until f xs s = ([], fold (\<lambda>x s. fst (f x s)) xs s, None)"
  using assms
proof (induction xs arbitrary: s)
  case (Cons x xs)
  then show ?case by (cases "f x s") (metis (no_types, lifting) fold_simps(2) fst_conv list.set_intros
        old.prod.case option.simps(4) run_until.simps(2) snd_conv)
qed simp

lemma run_until_map: "run_until f (map g xs) s =
    (case run_until (\<lambda>x. f (g x)) xs s of (r, s) \<Rightarrow> (map g r, s))"
  by (induction xs arbitrary: s) (auto split: prod.split option.split)

section \<open>Words\<close>

lemma unat_Suc_mod:
  fixes t m :: size_t
  assumes "t < m"
  shows "unat ((t + 1) mod m) = (unat t + 1) mod unat m"
proof -
  from assms have "unat t + 1 < 2 ^ 64"
    using unsigned_less [of m, where 'a = nat] by (simp add: word_less_nat_alt)
  then have "unat (t + 1) = unat t + 1"
    by (simp add: unat_word_ariths)
  then show ?thesis by (simp add: unat_mod_distrib)
qed

lemma unat_add_mod:
  fixes h i m :: size_t
  assumes "h < m" and "i < m" and "unat m < 2 ^ 63"
  shows "unat ((h + i) mod m) = (unat h + unat i) mod unat m"
proof -
  from assms have "unat h + unat i < 2 ^ 64"
    by (simp add: word_less_nat_alt)
  then have "unat (h + i) = unat h + unat i"
    by (simp add: unat_word_ariths)
  then show ?thesis by (simp add: unat_mod_distrib)
qed

text \<open>
  \<open>tail - head + max\<close> may borrow below zero in its first step; the wrap-around of unsigned
  arithmetic undoes it in the second.
\<close>

lemma unat_ring_size:
  fixes h t m :: size_t
  assumes "h < m" and "t < m" and "unat m < 2 ^ 63"
  shows "unat ((t - h + m) mod m) = ring_len (unat m) (unat h) (unat t)"
proof -
  have "t - h + m = t + (m - h)" by simp
  moreover have "unat (m - h) = unat m - unat h"
    using assms(1) by (simp add: unat_sub less_imp_le)
  moreover have "unat t + (unat m - unat h) < 2 ^ 64"
    using assms by (simp add: word_less_nat_alt)
  moreover from calculation(2,3) have "unat (t + (m - h)) = unat t + unat (m - h)"
    by (intro unat_add_lem [THEN iffD1]) simp
  ultimately have "unat (t - h + m) = unat t + (unat m - unat h)"
    by metis
  then have "unat (t - h + m) = unat t + unat m - unat h"
    using assms(1) by (simp add: word_less_nat_alt)
  then show ?thesis by (simp add: unat_mod_distrib ring_len_def)
qed

end
