(* ===== verification/Fmt_Base.thy ===== *)
theory Fmt_Base
  imports Log_Prelude "HOL-Library.Signed_Division"
begin

text \<open>
  \<^verbatim>\<open>base/fmt_base.h\<close> and the parts of the bundled \<^verbatim>\<open>base/fmt/format.h\<close> it calls:
  decimal output of integers (\<open>format_decimal\<close>, \<open>format_int\<close>), digit counting
  (\<open>count_digits\<close> with its tables) and zero-padded fields (\<open>fill_uint\<close>). A buffer is the
  string written to it so far. Integer values are \<open>int\<close>s of the argument's range; where the
  code casts to an unsigned type the model goes through the word of that width. Division is
  the truncating one of C (\<open>sdiv\<close>).
\<close>

type_synonym fmt_buf = string

section \<open>Reference decimal notation\<close>

definition digit_char :: "nat \<Rightarrow> char" where
  "digit_char d = char_of (48 + d)"

fun dec :: "nat \<Rightarrow> string" where
  "dec n = (if n < 10 then [digit_char n] else dec (n div 10) @ [digit_char (n mod 10)])"

declare dec.simps [simp del]

definition dec_int :: "int \<Rightarrow> string" where
  "dec_int v = (if v < 0 then CHR ''-'' # dec (nat (- v)) else dec (nat v))"

text \<open>Reading decimal digits back, the left inverse of \<open>dec\<close> and of its zero-padded forms.\<close>

definition dec_value :: "string \<Rightarrow> nat" where
  "dec_value s = foldl (\<lambda>a c. a * 10 + (of_char c - 48)) 0 s"

lemma of_char_digit_char [simp]: "d < 10 \<Longrightarrow> of_char (digit_char d) = (48 + d :: nat)"
  by (simp add: digit_char_def)

lemma dec_value_snoc: "d < 10 \<Longrightarrow> dec_value (s @ [digit_char d]) = dec_value s * 10 + d"
  by (simp add: dec_value_def)

lemma dec_value_Nil [simp]: "dec_value [] = 0"
  by (simp add: dec_value_def)

lemma dec_value_dec [simp]: "dec_value (dec n) = n"
proof (induction n rule: dec.induct)
  case (1 n)
  then show ?case
    using dec_value_snoc [of "n" "[]"] dec_value_snoc [of "n mod 10"]
    by (subst dec.simps) (auto simp: div_mult_mod_eq)
qed

lemma dec_value_zeros [simp]: "dec_value (replicate k (CHR ''0'') @ s) = dec_value s"
proof (induction k)
  case (Suc k)
  have "dec_value (CHR ''0'' # t) = dec_value t" for t
    by (simp add: dec_value_def)
  with Suc show ?case by simp
qed simp

lemma dec_nonempty [simp]: "dec n \<noteq> []"
  by (subst dec.simps) simp

lemma length_dec_pos [simp]: "0 < length (dec n)"
  by (simp add: length_greater_0_conv)

text \<open>The length of the decimal notation is the exponent of the next power of ten.\<close>

lemma length_dec_bounds: "n < 10 ^ length (dec n) \<and> (10 \<le> n \<longrightarrow> 10 ^ (length (dec n) - 1) \<le> n)"
proof (induction n rule: dec.induct)
  case (1 n)
  show ?case
  proof (cases "n < 10")
    case True
    then show ?thesis by (simp add: dec.simps [of n])
  next
    case False
    define m where "m = n div 10"
    have len: "length (dec n) = Suc (length (dec m))"
      using False by (simp add: dec.simps [of n] m_def)
    have IH: "m < 10 ^ length (dec m)" "10 \<le> m \<Longrightarrow> 10 ^ (length (dec m) - 1) \<le> m"
      using "1.IH" False by (auto simp: m_def)
    have up: "n < 10 ^ Suc (length (dec m))"
    proof -
      have "n < 10 * K" if "n div 10 < K" for K using that by arith
      from this [OF IH(1) [unfolded m_def]] show ?thesis by (simp add: m_def)
    qed
    have lo: "10 ^ length (dec m) \<le> n"
    proof (cases "10 \<le> m")
      case True
      have "10 * 10 ^ (length (dec m) - 1) \<le> 10 * m" using IH(2) [OF True] by simp
      moreover have "10 * 10 ^ (length (dec m) - 1) = (10 ^ length (dec m) :: nat)"
        using length_dec_pos [of m] by (cases "length (dec m)") simp_all
      ultimately show ?thesis by (simp add: m_def)
    next
      case False
      then have "length (dec m) = 1" by (simp add: dec.simps [of m])
      with \<open>\<not> n < 10\<close> show ?thesis by simp
    qed
    with up len show ?thesis by simp
  qed
qed

lemma length_dec_eq:
  assumes "n < 10 ^ k" and "0 < k" and "k = 1 \<or> 10 ^ (k - 1) \<le> n"
  shows "length (dec n) = k"
proof (rule ccontr)
  assume "length (dec n) \<noteq> k"
  then consider "length (dec n) < k" | "k < length (dec n)" by linarith
  then show False
  proof cases
    case 1
    then have "k \<noteq> 1" using length_dec_pos [of n] by linarith
    have "(10::nat) ^ length (dec n) \<le> 10 ^ (k - 1)" using 1 by (intro power_increasing) auto
    then have "n < 10 ^ (k - 1)" using length_dec_bounds [of n] by linarith
    with \<open>k \<noteq> 1\<close> assms(3) show False by simp
  next
    case 2
    then have "1 < length (dec n)" using assms(2) by simp
    then have "10 \<le> n" by (cases "n < 10") (simp_all add: dec.simps [of n])
    with length_dec_bounds [of n] have "10 ^ (length (dec n) - 1) \<le> n" by simp
    moreover have "(10::nat) ^ k \<le> 10 ^ (length (dec n) - 1)" using 2 by (intro power_increasing) auto
    ultimately show False using assms(1) by linarith
  qed
qed

section \<open>\<open>format_decimal\<close>: two digits at a time\<close>

text \<open>\<open>digits2\<close>: a pointer into a table of all two-digit numbers; \<open>copy2\<close> copies two characters.\<close>

definition digits2_table :: string where
  "digits2_table =
     ''0001020304050607080910111213141516171819'' @
     ''2021222324252627282930313233343536373839'' @
     ''4041424344454647484950515253545556575859'' @
     ''6061626364656667686970717273747576777879'' @
     ''8081828384858687888990919293949596979899''"

definition digits2 :: "nat \<Rightarrow> string" where
  "digits2 value = take 2 (drop (value * 2) digits2_table)"

text \<open>
  The digits are written from the end of the buffer towards its start; \<open>acc\<close> is what has
  been written.
\<close>

fun format_decimal_loop :: "nat \<Rightarrow> string \<Rightarrow> string" where
  "format_decimal_loop value acc =
     (if value \<ge> 100 then format_decimal_loop (value div 100) (digits2 (value mod 100) @ acc)
      else if value < 10 then digit_char value # acc
      else digits2 value @ acc)"

declare format_decimal_loop.simps [simp del]

definition format_decimal :: "nat \<Rightarrow> string" where
  "format_decimal value = format_decimal_loop value []"

lemma digit_chars: "map digit_char [0..<10] = ''0123456789''"
  by (simp add: digit_char_def upt_rec char_of_eq_iff)

text \<open>A read inside one block of a table made of equally long blocks.\<close>

lemma take_drop_blocks:
  assumes "\<And>x. length (f x) = k" and "a < length xs" and "i + j \<le> k"
  shows "take j (drop (k * a + i) (concat (map f xs))) = take j (drop i (f (xs ! a)))"
  using assms(2)
proof (induction xs arbitrary: a)
  case (Cons x xs)
  show ?case
  proof (cases a)
    case 0
    then show ?thesis using assms(1,3) by simp
  next
    case (Suc a')
    then have "drop (k * a + i) (concat (map f (x # xs))) = drop (k * a' + i) (concat (map f xs))"
      using assms(1) by simp
    then show ?thesis using Cons.IH [of a'] Cons.prems Suc by simp
  qed
qed simp

lemma digits2_table_blocks:
  "digits2_table =
     concat (map (\<lambda>a. concat (map (\<lambda>b. [a, b]) ''0123456789'')) ''0123456789'')"
  by (simp add: digits2_table_def)

lemma digits2_eq:
  assumes "v < 100"
  shows "digits2 v = [digit_char (v div 10), digit_char (v mod 10)]"
proof -
  have digit: "''0123456789'' ! d = digit_char d" if "d < 10" for d
    using that by (simp add: digit_chars [symmetric])
  have "v = 10 * (v div 10) + v mod 10" by simp
  then have "v * 2 = 20 * (v div 10) + (2 * (v mod 10) + 0)" by linarith
  then have "digits2 v = take 2 (drop (20 * (v div 10) + (2 * (v mod 10) + 0)) digits2_table)"
    by (simp only: digits2_def)
  also have "\<dots> = take 2 (drop (2 * (v mod 10) + 0)
      (concat (map (\<lambda>b. [''0123456789'' ! (v div 10), b]) ''0123456789'')))"
    unfolding digits2_table_blocks using assms by (intro take_drop_blocks) auto
  also have "\<dots> = take 2 (drop 0 [''0123456789'' ! (v div 10), ''0123456789'' ! (v mod 10)])"
    by (intro take_drop_blocks) auto
  finally show ?thesis using assms by (simp add: digit)
qed

text \<open>The two low digits, as the loop splits them off.\<close>

lemma mod_100: "(n::nat) mod 100 = 10 * (n div 10 mod 10) + n mod 10"
  using mod_mult2_eq [of n 10 10] by simp

lemma format_decimal_loop_eq: "format_decimal_loop n acc = dec n @ acc"
proof (induction n acc rule: format_decimal_loop.induct)
  case (1 n acc)
  consider "n < 10" | "10 \<le> n" "n < 100" | "100 \<le> n" by linarith
  then show ?case
  proof cases
    case 1
    then show ?thesis by (simp add: format_decimal_loop.simps [of n] dec.simps [of n])
  next
    case 2
    then show ?thesis
      by (simp add: format_decimal_loop.simps [of n] dec.simps [of n] dec.simps [of "n div 10"]
          digits2_eq)
  next
    case 3
    have "n mod 100 div 10 = n div 10 mod 10" and "n mod 100 mod 10 = n mod 10"
      by (simp_all add: mod_100)
    moreover have "n div 10 div 10 = n div 100"
      by (simp add: div_mult2_eq [symmetric])
    moreover have "dec n = dec (n div 10 div 10) @ [digit_char (n div 10 mod 10), digit_char (n mod 10)]"
      using 3 by (simp add: dec.simps [of n] dec.simps [of "n div 10"])
    ultimately show ?thesis
      using 3 1 by (simp add: format_decimal_loop.simps [of n] digits2_eq)
  qed
qed

lemma format_decimal_eq: "format_decimal n = dec n"
  by (simp add: format_decimal_def format_decimal_loop_eq)

text \<open>
  \<open>format_int\<close> at the widest type: the value is cast to \<open>uint64_t\<close>, and negated there
  when it is negative.
\<close>

definition format_signed :: "int \<Rightarrow> string" where
  "format_signed value =
     (let abs_value = (word_of_int value :: 64 word);
          abs_value = (if value < 0 then 0 - abs_value else abs_value);
          begin_ptr = format_decimal (unat abs_value)
      in if value < 0 then CHR ''-'' # begin_ptr else begin_ptr)"

lemma format_signed_eq:
  assumes "- (2 ^ 63) \<le> v" and "v < 2 ^ 64"
  shows "format_signed v = dec_int v"
proof (cases "v < 0")
  case True
  have "unat (- word_of_int v :: 64 word) = nat (take_bit 64 (- v))"
    by (simp only: wi_hom_neg unsigned_of_int) simp
  also have "take_bit 64 (- v) = - v"
    using True assms by (intro take_bit_int_eq_self) simp_all
  finally show ?thesis
    using True by (simp add: format_signed_def dec_int_def format_decimal_eq)
next
  case False
  have "unat (word_of_int v :: 64 word) = nat (take_bit 64 v)"
    by (simp only: unsigned_of_int) simp
  also have "take_bit 64 v = v"
    using False assms by (intro take_bit_int_eq_self) simp_all
  finally show ?thesis
    using False by (simp add: format_signed_def dec_int_def format_decimal_eq)
qed

section \<open>\<open>count_digits\<close>\<close>

text \<open>Index of the highest set bit (0 for 0) and the compiler's count of leading zeros.\<close>

fun bsr :: "nat \<Rightarrow> nat" where
  "bsr n = (if n < 2 then 0 else Suc (bsr (n div 2)))"

declare bsr.simps [simp del]

definition builtin_clzll :: "64 word \<Rightarrow> nat" where
  "builtin_clzll n = 63 - bsr (unat n)"

definition builtin_clz :: "32 word \<Rightarrow> nat" where
  "builtin_clz n = 31 - bsr (unat n)"

definition bsr2log10 :: "nat list" where
  "bsr2log10 = [
      1,  1,  1,  2,  2,  2,  3,  3,  3,  4,  4,  4,  4,  5,  5,  5,
      6,  6,  6,  7,  7,  7,  7,  8,  8,  8,  9,  9,  9,  10, 10, 10,
      10, 11, 11, 11, 12, 12, 12, 13, 13, 13, 13, 14, 14, 14, 15, 15,
      15, 16, 16, 16, 16, 17, 17, 17, 18, 18, 18, 19, 19, 19, 19, 20]"

definition zero_or_powers_of_10 :: "nat list" where
  "zero_or_powers_of_10 = [0, 0,
     10, 100, 1000, 10000, 100000, 1000000, 10000000, 100000000, 1000000000,
     10000000000, 100000000000, 1000000000000, 10000000000000, 100000000000000,
     1000000000000000, 10000000000000000, 100000000000000000, 1000000000000000000,
     10000000000000000000]"

definition do_count_digits64 :: "64 word \<Rightarrow> nat" where
  "do_count_digits64 n =
     (let t = bsr2log10 ! (builtin_clzll (n OR 1) XOR 63)
      in t - (if unat n < zero_or_powers_of_10 ! t then 1 else 0))"

text \<open>\<open>FMT_INC(T)\<close>: \<open>sizeof(#T) - 1\<close> is the number of characters of the literal \<open>T\<close>.\<close>

definition FMT_INC :: "nat \<Rightarrow> 64 word" where
  "FMT_INC T = push_bit 32 (of_nat (length (dec T))) - of_nat T"

definition fmt_inc_args :: "nat list" where
  "fmt_inc_args = [
      0, 0, 0, 10, 10, 10, 100, 100, 100, 1000, 1000, 1000, 10000, 10000, 10000,
      100000, 100000, 100000, 1000000, 1000000, 1000000, 10000000, 10000000, 10000000,
      100000000, 100000000, 100000000, 1000000000, 1000000000, 1000000000,
      1000000000, 1000000000]"

definition fmt_inc_table :: "64 word list" where
  "fmt_inc_table = map FMT_INC fmt_inc_args"

definition do_count_digits32 :: "32 word \<Rightarrow> nat" where
  "do_count_digits32 n =
     unat (drop_bit 32 (ucast n + fmt_inc_table ! (builtin_clz (n OR 1) XOR 31)))"

text \<open>The portable loop, used where the compiler has no leading-zero count.\<close>

fun count_digits_fallback :: "nat \<Rightarrow> nat \<Rightarrow> nat" where
  "count_digits_fallback n count =
     (if n < 10 then count
      else if n < 100 then count + 1
      else if n < 1000 then count + 2
      else if n < 10000 then count + 3
      else count_digits_fallback (n div 10000) (count + 4))"

declare count_digits_fallback.simps [simp del]

lemma bsr_bounds: "0 < n \<Longrightarrow> 2 ^ bsr n \<le> n \<and> n < 2 ^ Suc (bsr n)"
proof (induction n rule: bsr.induct)
  case (1 n)
  show ?case
  proof (cases "n < 2")
    case False
    have "2 ^ k \<le> m \<and> m < 2 ^ Suc k \<Longrightarrow> m = n div 2 \<Longrightarrow> 2 ^ Suc k \<le> n \<and> n < 2 ^ Suc (Suc k)" for m k
      by auto
    with 1 False show ?thesis by (simp add: bsr.simps [of n])
  qed (use 1 in \<open>simp add: bsr.simps [of n]\<close>)
qed

lemma bsr_less: "0 < n \<Longrightarrow> n < 2 ^ k \<Longrightarrow> bsr n < k"
  using bsr_bounds [of n] by (metis le_less_trans nat_power_less_imp_less zero_less_numeral)


text \<open>Setting the lowest bit does not move the highest one.\<close>

lemma bsr_or_1:
  fixes n :: nat
  defines "k \<equiv> bsr (n OR 1)"
  shows "n < 2 ^ Suc k" and "k = 0 \<or> 2 ^ k \<le> n"
proof -
  have m: "n OR 1 = n + of_bool (even n)" by (rule or_one_eq)
  then have pos: "0 < n OR 1" and le: "n \<le> n OR 1"
    using odd_pos by (auto simp: gr0_conv_Suc)
  note b = bsr_bounds [OF pos]
  show "n < 2 ^ Suc k" using b le by (simp add: k_def)
  show "k = 0 \<or> 2 ^ k \<le> n"
  proof (cases "k = 0")
    case False
    then have "even (2 ^ k :: nat)" by simp
    with b m show ?thesis by (cases "even n") (auto simp: k_def even_iff_mod_2_eq_zero elim!: evenE)
  qed simp
qed

lemma bsr_or_1_less: "(n::nat) < 2 ^ k \<Longrightarrow> 0 < k \<Longrightarrow> bsr (n OR 1) < k"
  using bsr_or_1(2) [of n] by (metis le_less_trans nat_power_less_imp_less zero_less_numeral)

lemma xor_63: "k < 64 \<Longrightarrow> (63 - k) XOR 63 = (k::nat)"
proof -
  have "list_all (\<lambda>k::nat. (63 - k) XOR 63 = k) [0..<64]" by (simp add: upt_rec)
  then show "k < 64 \<Longrightarrow> (63 - k) XOR 63 = (k::nat)" by (simp add: list_all_iff)
qed

lemma xor_31: "k < 32 \<Longrightarrow> (31 - k) XOR 31 = (k::nat)"
proof -
  have "list_all (\<lambda>k::nat. (31 - k) XOR 31 = k) [0..<32]" by (simp add: upt_rec)
  then show "k < 32 \<Longrightarrow> (31 - k) XOR 31 = (k::nat)" by (simp add: list_all_iff)
qed

text \<open>Every entry of the table, against the powers of ten its row promises.\<close>

lemma bsr2log10_rows:
  "list_all (\<lambda>k. let t = bsr2log10 ! k in
      1 \<le> t \<and> 2 ^ Suc k \<le> (10 ^ t :: nat) \<and>
      zero_or_powers_of_10 ! t = (if t = 1 then 0 else 10 ^ (t - 1)) \<and>
      (t = 1 \<or> t = 2 \<or> 0 < k \<and> 10 ^ (t - 2) \<le> (2 ^ k :: nat))) [0..<64]"
  by (simp add: upt_rec bsr2log10_def zero_or_powers_of_10_def)

lemma do_count_digits64_eq: "do_count_digits64 n = length (dec (unat n))"
proof -
  let ?n = "unat n"
  define k where "k = bsr (?n OR 1)"
  have un: "unat (n OR 1) = ?n OR 1" by (simp add: unsigned_or_eq)
  have "?n < 2 ^ 64" using unsigned_less [of n, where 'a = nat] by simp
  then have k: "k < 64" using bsr_or_1_less [of ?n 64] by (simp add: k_def)
  have idx: "builtin_clzll (n OR 1) XOR 63 = k"
    using xor_63 [OF k] by (simp only: builtin_clzll_def un k_def)
  define t where "t = bsr2log10 ! k"
  have row: "1 \<le> t" "2 ^ Suc k \<le> (10 ^ t :: nat)"
    "zero_or_powers_of_10 ! t = (if t = 1 then 0 else 10 ^ (t - 1))"
    "t = 1 \<or> t = 2 \<or> 0 < k \<and> 10 ^ (t - 2) \<le> (2 ^ k :: nat)"
    using bsr2log10_rows k by (auto simp: list_all_iff Let_def t_def simp del: power_Suc)
  have n: "?n < 10 ^ t" and low: "k = 0 \<or> 2 ^ k \<le> ?n"
    using bsr_or_1 [of ?n] row(2) unfolding k_def [symmetric] by (auto intro: less_le_trans)
  have res: "do_count_digits64 n = t - (if ?n < zero_or_powers_of_10 ! t then 1 else 0)"
    by (simp only: do_count_digits64_def idx t_def Let_def)
  show ?thesis
  proof (cases "?n < zero_or_powers_of_10 ! t")
    case True
    then have t: "1 < t" "?n < 10 ^ (t - 1)" using row(1,3) by (auto split: if_splits)
    have "length (dec ?n) = t - 1"
    proof (rule length_dec_eq)
      show "t - 1 = 1 \<or> 10 ^ (t - 1 - 1) \<le> ?n"
        using row(4) low t(1) by (auto simp: numeral_2_eq_2)
    qed (use t in auto)
    with True res show ?thesis by simp
  next
    case False
    have "length (dec ?n) = t"
      by (rule length_dec_eq) (use False row n in \<open>auto split: if_splits\<close>)
    with False res show ?thesis by simp
  qed
qed

lemma length_fmt_inc_args [simp]: "length fmt_inc_args = 32"
  by (simp add: fmt_inc_args_def)

lemma fmt_inc_rows:
  "list_all (\<lambda>k. let T = fmt_inc_args ! k; L = length (dec T) in
      T < 2 ^ 32 \<and> L < 11 \<and> 1 \<le> L \<and> 2 ^ Suc k \<le> (10 ^ L :: nat) \<and>
      T = (if L = 1 then 0 else 10 ^ (L - 1)) \<and>
      (L = 1 \<or> L = 2 \<or> 0 < k \<and> 10 ^ (L - 2) \<le> (2 ^ k :: nat))) [0..<32]"
  by (simp add: upt_rec fmt_inc_args_def dec.simps)

lemma unat_FMT_INC_add:
  assumes "T < 2 ^ 32" and "length (dec T) < 11"
  shows "unat (ucast (n :: 32 word) + FMT_INC T) = length (dec T) * 2 ^ 32 + unat n - T"
proof -
  let ?L = "length (dec T)"
  have un: "unat n < 2 ^ 32" using unsigned_less [of n, where 'a = nat] by simp
  have T: "T \<le> ?L * 2 ^ 32 + unat n" using assms(1) length_dec_pos [of T]
    by (cases ?L) auto
  have "ucast n + FMT_INC T = (of_nat (?L * 2 ^ 32 + unat n - T) :: 64 word)"
    using T by (simp add: FMT_INC_def of_nat_diff push_bit_eq_mult of_nat_unat)
  moreover have "?L * 2 ^ 32 + unat n - T < 2 ^ 64"
    using un assms by simp
  ultimately show ?thesis by (simp add: unat_of_nat)
qed

lemma do_count_digits32_eq: "do_count_digits32 n = length (dec (unat n))"
proof -
  let ?n = "unat n"
  define k where "k = bsr (?n OR 1)"
  have un: "unat (n OR 1) = ?n OR 1" by (simp add: unsigned_or_eq)
  have n32: "?n < 2 ^ 32" using unsigned_less [of n, where 'a = nat] by simp
  then have k: "k < 32" using bsr_or_1_less [of ?n 32] by (simp add: k_def)
  have idx: "builtin_clz (n OR 1) XOR 31 = k"
    using xor_31 [OF k] by (simp only: builtin_clz_def un k_def)
  define T where "T = fmt_inc_args ! k"
  define L where "L = length (dec T)"
  have tab: "fmt_inc_table ! k = FMT_INC T" using k by (simp add: fmt_inc_table_def T_def)
  have T: "T < 2 ^ 32" "L < 11" "1 \<le> L" "2 ^ Suc k \<le> (10 ^ L :: nat)"
    "T = (if L = 1 then 0 else 10 ^ (L - 1))"
    "L = 1 \<or> L = 2 \<or> 0 < k \<and> 10 ^ (L - 2) \<le> (2 ^ k :: nat)"
    using bspec [OF fmt_inc_rows [unfolded list_all_iff Let_def], of k] k
    unfolding T_def [symmetric] L_def [symmetric] by (simp_all del: power_Suc One_nat_def)
  have low: "k = 0 \<or> 2 ^ k \<le> ?n" and up: "?n < 10 ^ L"
    using bsr_or_1 [of ?n] T(4) unfolding k_def [symmetric] by (auto intro: less_le_trans)
  have "do_count_digits32 n = (L * 2 ^ 32 + ?n - T) div 2 ^ 32"
    using unat_FMT_INC_add [of T n] T(1,2)
    by (simp add: do_count_digits32_def idx tab unat_drop_bit_eq drop_bit_eq_div
        unat_div_distrib flip: L_def)
  also have "\<dots> = L - (if ?n < T then 1 else 0)"
  proof (cases "?n < T")
    case True
    then have "L * 2 ^ 32 + ?n - T = (2 ^ 32 + ?n - T) + (L - 1) * 2 ^ 32"
      using T(1,3) by (cases L) auto
    moreover have "2 ^ 32 + ?n - T < 2 ^ 32" using True by simp
    ultimately show ?thesis using True by simp
  next
    case False
    then have "L * 2 ^ 32 + ?n - T = (?n - T) + L * 2 ^ 32" by simp
    moreover have "?n - T < 2 ^ 32" using n32 by simp
    ultimately show ?thesis using False by simp
  qed
  also have "\<dots> = length (dec ?n)"
  proof (cases "?n < T")
    case True
    then have t: "1 < L" "?n < 10 ^ (L - 1)" using T(3,5) by (auto split: if_splits)
    have "length (dec ?n) = L - 1"
    proof (rule length_dec_eq)
      show "L - 1 = 1 \<or> 10 ^ (L - 1 - 1) \<le> ?n"
        using T(6) low t(1) by (auto simp: numeral_2_eq_2)
    qed (use t in auto)
    with True show ?thesis by simp
  next
    case False
    have "length (dec ?n) = L"
      by (rule length_dec_eq) (use False T up in \<open>auto split: if_splits\<close>)
    with False show ?thesis by simp
  qed
  finally show ?thesis .
qed

lemma count_digits_fallback_eq: "count_digits_fallback n c + 1 = c + length (dec n)"
proof (induction n c rule: count_digits_fallback.induct)
  case (1 n c)
  consider "n < 10" | "10 \<le> n" "n < 100" | "100 \<le> n" "n < 1000"
    | "1000 \<le> n" "n < 10000" | "10000 \<le> n" by linarith
  then show ?case
  proof cases
    case 1
    then show ?thesis
      by (simp add: count_digits_fallback.simps [of n] length_dec_eq [of n 1])
  next
    case 2
    then show ?thesis
      by (simp add: count_digits_fallback.simps [of n] length_dec_eq [of n 2])
  next
    case 3
    then show ?thesis
      by (simp add: count_digits_fallback.simps [of n] length_dec_eq [of n 3])
  next
    case 4
    then show ?thesis
      by (simp add: count_digits_fallback.simps [of n] length_dec_eq [of n 4])
  next
    case 5
    have step: "length (dec m) = Suc (length (dec (m div 10)))" if "10 \<le> m" for m
      using that by (simp add: dec.simps [of m])
    have "length (dec n) = 4 + length (dec (n div 10 div 10 div 10 div 10))"
      using 5 step [of n] step [of "n div 10"] step [of "n div 10 div 10"]
        step [of "n div 10 div 10 div 10"] by linarith
    also have "n div 10 div 10 div 10 div 10 = n div 10000"
      by (simp add: div_mult2_eq [symmetric])
    finally show ?thesis
      using 5 1 by (simp add: count_digits_fallback.simps [of n])
  qed
qed

section \<open>\<open>fmt_base\<close>\<close>

text \<open>The integer types the templates of \<open>fmt_base\<close> are instantiated with.\<close>

datatype int_type = Int32 | UInt32 | Int64 | UInt64

fun sizeof :: "int_type \<Rightarrow> nat" where
  "sizeof Int32 = 4"
| "sizeof UInt32 = 4"
| "sizeof Int64 = 8"
| "sizeof UInt64 = 8"

fun in_type :: "int_type \<Rightarrow> int \<Rightarrow> bool" where
  "in_type Int32 n \<longleftrightarrow> - (2 ^ 31) \<le> n \<and> n < 2 ^ 31"
| "in_type UInt32 n \<longleftrightarrow> 0 \<le> n \<and> n < 2 ^ 32"
| "in_type Int64 n \<longleftrightarrow> - (2 ^ 63) \<le> n \<and> n < 2 ^ 63"
| "in_type UInt64 n \<longleftrightarrow> 0 \<le> n \<and> n < 2 ^ 64"

definition append_string_view :: "string \<Rightarrow> fmt_buf \<Rightarrow> fmt_buf" where
  "append_string_view str_view dest_buf = dest_buf @ str_view"

definition push_char :: "char \<Rightarrow> fmt_buf \<Rightarrow> fmt_buf" where
  "push_char c dest_buf = dest_buf @ [c]"

definition append_int :: "int \<Rightarrow> fmt_buf \<Rightarrow> fmt_buf" where
  "append_int n dest_buf = dest_buf @ format_signed n"

definition count_unsigned_digits :: "int_type \<Rightarrow> int \<Rightarrow> size_t" where
  "count_unsigned_digits T n =
     of_nat (if sizeof T > 4 then do_count_digits64 (word_of_int n)
             else do_count_digits32 (word_of_int n))"

text \<open>\<open>fill_uint_\<close> (the variant for any width); the loop counts \<open>i\<close> from \<open>n_len\<close> up to \<open>fill_len\<close>.\<close>

function fill_zeros :: "size_t \<Rightarrow> size_t \<Rightarrow> fmt_buf \<Rightarrow> fmt_buf" where
  "fill_zeros i fill_len dest_buf =
     (if i < fill_len then fill_zeros (i + 1) fill_len (push_char (CHR ''0'') dest_buf)
      else dest_buf)"
  by pat_completeness auto
termination
proof (relation "measure (\<lambda>(i, n, _). unat n - unat i)")
  fix i n :: size_t and b :: fmt_buf
  assume "i < n"
  then have "unat i + 1 < 2 ^ 64"
    using unsigned_less [of n, where 'a = nat] by (simp add: word_less_nat_alt)
  then have "unat (i + 1) = unat i + 1" by (simp add: unat_word_ariths)
  with \<open>i < n\<close> show "((i + 1, n, push_char (CHR ''0'') b), i, n, b)
      \<in> measure (\<lambda>(i, n, _). unat n - unat i)"
    by (simp add: word_less_nat_alt)
qed simp

declare fill_zeros.simps [simp del]

definition fill_uint_any :: "int \<Rightarrow> size_t \<Rightarrow> size_t \<Rightarrow> fmt_buf \<Rightarrow> fmt_buf" where
  "fill_uint_any n n_len fill_len dest_buf = append_int n (fill_zeros n_len fill_len dest_buf)"

text \<open>The cast of an integer to \<open>char\<close>.\<close>

definition to_char :: "int \<Rightarrow> char" where
  "to_char v = char_of v"

definition fill_uint :: "int_type \<Rightarrow> int \<Rightarrow> size_t \<Rightarrow> fmt_buf \<Rightarrow> fmt_buf" where
  "fill_uint T n fill_len dest_buf =
     (if fill_len = 2 then
        if n < 100 then
          push_char (to_char (n smod 10 + 48)) (push_char (to_char (n sdiv 10 + 48)) dest_buf)
        else append_int n dest_buf
      else if fill_len = 3 then
        if n < 1000 then
          (let dest_buf = push_char (to_char (n sdiv 100 + 48)) dest_buf;
               n = n smod 100
           in push_char (to_char (n smod 10 + 48)) (push_char (to_char (n sdiv 10 + 48)) dest_buf))
        else append_int n dest_buf
      else fill_uint_any n (count_unsigned_digits T n) fill_len dest_buf)"

text \<open>
  \<open>precise_time<Metric>\<close>: the system clock counts nanoseconds since the epoch; \<open>tick\<close> is the
  length of one tick of \<open>Metric\<close> in nanoseconds. \<open>duration_cast\<close> truncates towards zero.
\<close>

definition duration_cast :: "int \<Rightarrow> int \<Rightarrow> int" where
  "duration_cast tick duration = duration sdiv tick"

definition precise_time :: "int \<Rightarrow> int \<Rightarrow> int" where
  "precise_time tick tp =
     (let secs = duration_cast 1000000000 tp
      in duration_cast tick tp - duration_cast tick (secs * 1000000000))"

subsection \<open>Zero-padded fields\<close>

definition pad_dec :: "nat \<Rightarrow> nat \<Rightarrow> string" where
  "pad_dec k n = replicate (k - length (dec n)) (CHR ''0'') @ dec n"

lemma length_pad_dec: "length (pad_dec k n) = max k (length (dec n))"
  by (simp add: pad_dec_def)

lemma dec_value_pad_dec [simp]: "dec_value (pad_dec k n) = n"
  by (simp add: pad_dec_def)

lemma append_int_eq:
  assumes "in_type T n"
  shows "append_int n buf = buf @ dec_int n"
proof -
  have "- (2 ^ 63) \<le> n" and "n < 2 ^ 64" using assms by (cases T; simp)+
  then show ?thesis by (simp add: append_int_def format_signed_eq)
qed

lemma length_dec_less_20: "n < 2 ^ 64 \<Longrightarrow> length (dec n) \<le> 20"
proof (rule ccontr)
  assume n: "n < 2 ^ 64" and "\<not> length (dec n) \<le> 20"
  then have "(10::nat) ^ 20 \<le> 10 ^ (length (dec n) - 1)" by (intro power_increasing) auto
  moreover have "10 \<le> n" using \<open>\<not> length (dec n) \<le> 20\<close> by (cases "n < 10") (simp_all add: dec.simps [of n])
  ultimately show False using length_dec_bounds [of n] n by simp
qed

lemma count_unsigned_digits_eq:
  assumes "in_type T n" and "0 \<le> n"
  shows "unat (count_unsigned_digits T n) = length (dec (nat n))"
proof -
  have "unat (word_of_int n :: 64 word) = nat n" if "n < 2 ^ 64"
    using that assms(2) by (simp only: unsigned_of_int) (simp add: take_bit_int_eq_self)
  moreover have "unat (word_of_int n :: 32 word) = nat n" if "n < 2 ^ 32"
    using that assms(2) by (simp only: unsigned_of_int) (simp add: take_bit_int_eq_self)
  moreover have "length (dec (nat n)) \<le> 20"
  proof (rule length_dec_less_20)
    show "nat n < 2 ^ 64" using assms by (cases T) (simp_all add: nat_less_iff)
  qed
  ultimately show ?thesis
    using assms by (cases T)
      (simp_all add: count_unsigned_digits_def do_count_digits64_eq do_count_digits32_eq unat_of_nat)
qed

lemma fill_zeros_eq: "fill_zeros i n buf = buf @ replicate (unat n - unat i) (CHR ''0'')"
proof (induction i n buf rule: fill_zeros.induct)
  case (1 i n buf)
  show ?case
  proof (cases "i < n")
    case True
    then have "unat i + 1 < 2 ^ 64"
      using unsigned_less [of n, where 'a = nat] by (simp add: word_less_nat_alt)
    then have i: "unat (i + 1) = unat i + 1" by (simp add: unat_word_ariths)
    obtain k where k: "unat n - unat i = Suc k"
      using True by (metis Suc_diff_Suc word_less_nat_alt)
    then have "unat n - unat (i + 1) = k" using i by simp
    with 1 True k show ?thesis
      by (simp add: fill_zeros.simps [of i] push_char_def)
  next
    case False
    then show ?thesis by (simp add: fill_zeros.simps [of i] word_less_nat_alt)
  qed
qed

lemma to_char_digit: "0 \<le> d \<Longrightarrow> d < 10 \<Longrightarrow> to_char (d + 48) = digit_char (nat d)"
  using char_of_nat [where 'a = int, of "48 + nat d"]
  by (simp add: to_char_def digit_char_def add.commute)

lemma sdiv_nonneg: "0 \<le> (n::int) \<Longrightarrow> 0 < k \<Longrightarrow> n sdiv k = n div k"
  by (simp add: signed_divide_int_def sgn_if)

lemma smod_nonneg: "0 \<le> (n::int) \<Longrightarrow> 0 < k \<Longrightarrow> n smod k = n mod k"
  by (cases "n = 0") (simp_all add: signed_modulo_int_def sgn_if sdiv_nonneg minus_div_mult_eq_mod)

lemma digit_char_0: "CHR ''0'' = digit_char 0"
  by (simp add: digit_char_def char_of_eq_iff eq_commute [of "CHR ''0''"])

lemma pad_dec_2: "n < 100 \<Longrightarrow> pad_dec 2 n = [digit_char (n div 10), digit_char (n mod 10)]"
  by (cases "n < 10")
    (simp_all add: pad_dec_def dec.simps [of n] dec.simps [of "n div 10"] digit_char_0)

lemma pad_dec_3:
  assumes "n < 1000"
  shows "pad_dec 3 n =
     [digit_char (n div 100), digit_char (n mod 100 div 10), digit_char (n mod 100 mod 10)]"
proof -
  consider "n < 10" | "10 \<le> n" "n < 100" | "100 \<le> n" using assms by linarith
  then show ?thesis
  proof cases
    case 3
    then have "n div 100 < 10" "10 \<le> n div 10" "10 \<le> n" using assms by simp_all
    moreover have "n div 10 div 10 = n div 100" by (simp add: div_mult2_eq [symmetric])
    ultimately have "dec n = [digit_char (n div 100), digit_char (n div 10 mod 10), digit_char (n mod 10)]"
      by (simp add: dec.simps [of n] dec.simps [of "n div 10"] dec.simps [of "n div 100"])
    then show ?thesis by (simp add: pad_dec_def mod_100)
  next
    case 2
    then have "n div 10 < 10" by simp
    with 2 show ?thesis
      by (simp add: pad_dec_def dec.simps [of n] dec.simps [of "n div 10"] digit_char_0)
  qed (simp add: pad_dec_def dec.simps [of n] digit_char_0 numeral_3_eq_3)
qed

lemma length_dec_ge: "10 ^ k \<le> n \<Longrightarrow> k < length (dec n)"
proof (rule ccontr)
  assume "10 ^ k \<le> n" and "\<not> k < length (dec n)"
  then have "(10::nat) ^ length (dec n) \<le> 10 ^ k" by (intro power_increasing) auto
  with length_dec_bounds [of n] \<open>10 ^ k \<le> n\<close> show False by simp
qed

lemma pad_dec_wide: "k \<le> length (dec n) \<Longrightarrow> pad_dec k n = dec n"
  by (simp add: pad_dec_def)

lemma fill_uint_eq:
  assumes T: "in_type T n" and n: "0 \<le> n"
  shows "fill_uint T n fill_len buf = buf @ pad_dec (unat fill_len) (nat n)"
proof -
  have app: "append_int n b = b @ dec (nat n)" for b
    using append_int_eq [OF T] n by (simp add: dec_int_def)
  consider (two) "fill_len = 2" | (three) "fill_len = 3"
    | (other) "fill_len \<noteq> 2" "fill_len \<noteq> 3" by blast
  then show ?thesis
  proof cases
    case two
    show ?thesis
    proof (cases "n < 100")
      case True
      with n show ?thesis
        by (simp add: fill_uint_def two push_char_def sdiv_nonneg smod_nonneg to_char_digit
            pad_dec_2 nat_div_distrib nat_mod_distrib)
    next
      case False
      then have "1 < length (dec (nat n))" using length_dec_ge [of 1 "nat n"] by simp
      with False show ?thesis by (simp add: fill_uint_def two app pad_dec_wide)
    qed
  next
    case three
    show ?thesis
    proof (cases "n < 1000")
      case True
      with n show ?thesis
        by (simp add: fill_uint_def three push_char_def sdiv_nonneg smod_nonneg to_char_digit
            pad_dec_3 nat_div_distrib nat_mod_distrib Let_def)
    next
      case False
      then have "2 < length (dec (nat n))" using length_dec_ge [of 2 "nat n"] by simp
      with False show ?thesis by (simp add: fill_uint_def three app pad_dec_wide)
    qed
  next
    case other
    then show ?thesis
      using count_unsigned_digits_eq [OF T n]
      by (simp add: fill_uint_def fill_uint_any_def app fill_zeros_eq pad_dec_def)
  qed
qed

lemma precise_time_eq:
  assumes "0 \<le> tp" and "0 < tick" and "tick dvd 1000000000"
  shows "precise_time tick tp = tp mod 1000000000 div tick"
proof -
  obtain k where k: "1000000000 = tick * k" using assms(3) by (elim dvdE)
  have "tp div tick - tp div 1000000000 * 1000000000 div tick = tp mod 1000000000 div tick"
  proof -
    have "tp = tp mod 1000000000 + 1000000000 * (tp div 1000000000)" by simp
    also have "1000000000 * (tp div 1000000000) = tick * (k * (tp div 1000000000))"
      by (metis k mult.assoc)
    finally have "tp div tick = k * (tp div 1000000000) + tp mod 1000000000 div tick"
      using assms(2) by (metis div_mult_self2 add.commute less_irrefl)
    moreover have "tp div 1000000000 * 1000000000 div tick = k * (tp div 1000000000)"
      using assms(2) by (simp only: k mult.commute [of _ "tick * k"] mult.assoc) simp
    ultimately show ?thesis by simp
  qed
  with assms show ?thesis
    by (simp add: precise_time_def duration_cast_def sdiv_nonneg pos_imp_zdiv_nonneg_iff)
qed

section \<open>Properties\<close>

text \<open>
  C2: the three digit counters, the table lookup on 64 bits, the one-addition lookup on
  32 bits and the portable loop, all return the number of characters of the decimal notation,
  for every value of their type.
\<close>

theorem count_digits_exact:
  "do_count_digits64 n = length (dec (unat n)) \<and>
   do_count_digits32 k = length (dec (unat k)) \<and>
   count_digits_fallback m 1 = length (dec m)"
  using count_digits_fallback_eq [of m 1] by (simp add: do_count_digits64_eq do_count_digits32_eq)

text \<open>
  \<open>append_int\<close> leaves the buffer's content in place and adds a text that reads back as
  the integer, for every value of the four integer types; the most negative ones included.
\<close>

theorem append_int_parses_back:
  assumes "in_type T n"
  shows "\<exists>s. append_int n buf = buf @ s \<and> s \<noteq> [] \<and>
           (if n < 0 then hd s = CHR ''-'' \<and> - int (dec_value (tl s)) = n
            else int (dec_value s) = n)"
  using append_int_eq [OF assms, of buf] by (auto simp: dec_int_def)

theorem append_int_parses_back_witness:
  "int (dec_value (tl (append_int (- 9223372036854775808) []))) = 9223372036854775808"
proof -
  have T: "in_type Int64 (- 9223372036854775808)" by simp
  show ?thesis using append_int_parses_back [OF T, of "[]"] by auto
qed

text \<open>
  \<open>fill_uint\<close>, whichever of its three branches it takes, adds a field that reads back as
  the number and is as long as the width, or as the number's own digits when these are more.
\<close>

theorem fill_uint_field:
  assumes "in_type T n" and "0 \<le> n"
  shows "\<exists>s. fill_uint T n w buf = buf @ s \<and> int (dec_value s) = n \<and>
             length s = max (unat w) (length (dec (nat n)))"
  using fill_uint_eq [OF assms, of w buf] assms(2) by (auto simp: length_pad_dec)

theorem fill_uint_field_witness:
  "length (fill_uint UInt32 7 5 ''['') = 6 \<and> length (fill_uint Int32 1234 3 []) = 4"
proof -
  have T: "in_type UInt32 7" "in_type Int32 1234" by simp_all
  have "length (dec 7) = 1" "length (dec 1234) = 4"
    by (simp_all add: dec.simps [of 7] dec.simps [of 1234] dec.simps [of 123] dec.simps [of 12]
        dec.simps [of 1] dec.simps [of "Suc 0"])
  then show ?thesis
    using fill_uint_field [OF T(1), of 5 "''[''"] fill_uint_field [OF T(2), of 3 "[]"] by auto
qed

end
