(* ===== verification/Definitions.thy ===== *)
theory Definitions
  imports Fmt_Base
begin

text \<open>
  \<^verbatim>\<open>include/definitions.h\<close>, \<^verbatim>\<open>base/log_msg.h\<close> and \<^verbatim>\<open>base/exception.h\<close>: the level
  enumeration with its order, source locations, the message structure, and the exceptions
  with their reports. String views are the strings they show; a nullable \<open>const char*\<close> is
  an option.
\<close>

section \<open>Levels\<close>

datatype level_enum = Trace | Debug | Info | Warn | Error | Critical | Off

fun level_code :: "level_enum \<Rightarrow> int" where
  "level_code Trace = 0"
| "level_code Debug = 1"
| "level_code Info = 2"
| "level_code Warn = 3"
| "level_code Error = 4"
| "level_code Critical = 5"
| "level_code Off = 6"

definition level_name :: "string list" where
  "level_name = [''trace'', ''debug'', ''info'', ''warn'', ''error'', ''critical'', ''off'']"

lemma level_code_inj [simp]: "level_code a = level_code b \<longleftrightarrow> a = b"
  by (cases a; cases b; simp)

lemma level_code_range: "0 \<le> level_code l \<and> level_code l \<le> 6"
  by (cases l) simp_all

text \<open>The comparison of two enumerators is the comparison of their values.\<close>

instantiation level_enum :: linorder
begin

definition less_eq_level_enum :: "level_enum \<Rightarrow> level_enum \<Rightarrow> bool" where
  "less_eq_level_enum a b \<longleftrightarrow> level_code a \<le> level_code b"

definition less_level_enum :: "level_enum \<Rightarrow> level_enum \<Rightarrow> bool" where
  "less_level_enum a b \<longleftrightarrow> level_code a < level_code b"

instance
  by standard (auto simp: less_eq_level_enum_def less_level_enum_def)

end

lemma level_le_Off [simp]: "(l :: level_enum) \<le> Off"
  using level_code_range [of l] by (simp add: less_eq_level_enum_def)

lemma Trace_le [simp]: "Trace \<le> (l :: level_enum)"
  using level_code_range [of l] by (simp add: less_eq_level_enum_def)

text \<open>The name of a level, by the index the formatters use.\<close>

definition level_name_of :: "level_enum \<Rightarrow> string" where
  "level_name_of l = level_name ! nat (level_code l)"

lemma level_name_of_length: "4 \<le> length (level_name_of l) \<or> l = Off"
  by (cases l) (simp_all add: level_name_of_def level_name_def)

section \<open>Platform constants (Unix)\<close>

definition DEFAULT_EOL :: string where
  "DEFAULT_EOL = ''\<newline>''"

definition FOLDER_SPR :: char where
  "FOLDER_SPR = CHR ''/''"

definition MAX_SPACES_LEN :: nat where
  "MAX_SPACES_LEN = 64"

section \<open>Source locations\<close>

record source_loc =
  filename :: "string option"
  line :: int
  funcname :: "string option"

definition source_loc_default :: source_loc where
  "source_loc_default = \<lparr>filename = None, line = 0, funcname = None\<rparr>"

text \<open>The constructor; its third argument defaults to a null pointer.\<close>

definition mk_source_loc :: "string \<Rightarrow> int \<Rightarrow> string option \<Rightarrow> source_loc" where
  "mk_source_loc filename_in line_in funcname_in =
     \<lparr>filename = Some filename_in, line = line_in, funcname = funcname_in\<rparr>"

definition loc_empty :: "source_loc \<Rightarrow> bool" where
  "loc_empty loc \<longleftrightarrow> line loc \<le> 0"

section \<open>Messages\<close>

text \<open>
  \<open>color_index_start\<close> and \<open>color_index_end\<close> are \<open>mutable\<close>: formatting a message changes them
  although the message is passed by constant reference, so the formatters return them.
\<close>

record log_msg =
  logger_name :: string
  msg :: string
  level :: level_enum
  loc :: source_loc
  time :: int
  tid :: size_t
  color_index_start :: size_t
  color_index_end :: size_t

definition log_msg_default :: log_msg where
  "log_msg_default = \<lparr>logger_name = [], msg = [], level = Off, loc = source_loc_default,
     time = 0, tid = 0, color_index_start = 0, color_index_end = 0\<rparr>"

text \<open>The full constructor; the thread id comes from \<open>os::thread_id()\<close>.\<close>

definition mk_log_msg ::
  "size_t \<Rightarrow> int \<Rightarrow> source_loc \<Rightarrow> level_enum \<Rightarrow> string \<Rightarrow> string \<Rightarrow> log_msg" where
  "mk_log_msg thread_id time_in loc_in level_in msg_in logger_name_in =
     \<lparr>logger_name = logger_name_in, msg = msg_in, level = level_in, loc = loc_in,
      time = time_in, tid = thread_id, color_index_start = 0, color_index_end = 0\<rparr>"

section \<open>Exceptions\<close>

text \<open>
  What can be thrown: something derived from \<open>std::exception\<close>, with its \<open>what()\<close>, or
  anything else. A call that may throw returns a sum, \<open>Inl\<close> for the exception.
\<close>

datatype excpt = Std_exception string | Other_exception

text \<open>The three constructors of \<open>learnlog_excpt\<close>; \<open>strerror\<close> is the system's text of an errno.\<close>

definition learnlog_excpt :: "string \<Rightarrow> excpt" where
  "learnlog_excpt m = Std_exception m"

definition learnlog_excpt_errno :: "(int \<Rightarrow> string) \<Rightarrow> string \<Rightarrow> int \<Rightarrow> excpt" where
  "learnlog_excpt_errno strerror m last_errno =
     Std_exception (m @ '': '' @ strerror last_errno)"

definition learnlog_excpt_loc ::
  "(int \<Rightarrow> string) \<Rightarrow> string \<Rightarrow> int \<Rightarrow> string \<Rightarrow> int \<Rightarrow> string \<Rightarrow> excpt" where
  "learnlog_excpt_loc strerror m last_errno file ln func =
     Std_exception (m @ '': '' @ strerror last_errno @
       ''\<newline>[location: '' @ file @ '':'' @ dec_int ln @ '' - '' @ func @ '']'')"

text \<open>
  \<open>handle_excpt\<close>: the static counter and time of the last report, and what was printed to
  \<open>stderr\<close>. \<open>datetime\<close> is the text of a time point to the second. With assertions compiled in
  (\<open>ndebug = False\<close>) a report not later than the previous one aborts: \<open>None\<close>.
\<close>

record report_state =
  last_report_time :: int
  report_cnt :: size_t
  stderr_lines :: "string list"

definition report_init :: report_state where
  "report_init = \<lparr>last_report_time = 0, report_cnt = 1, stderr_lines = []\<rparr>"

definition handle_excpt ::
  "bool \<Rightarrow> (int \<Rightarrow> string) \<Rightarrow> int \<Rightarrow> string \<Rightarrow> report_state \<Rightarrow> report_state option" where
  "handle_excpt ndebug datetime now m r =
     (let lr_time = last_report_time r;
          cnt = report_cnt r;
          r = r\<lparr>report_cnt := cnt + 1\<rparr>
      in if \<not> ndebug \<and> \<not> now - lr_time > 1 then None
         else Some (r\<lparr>last_report_time := now,
                      stderr_lines := stderr_lines r @
                        [''[*** EXCEPTION #'' @ pad_dec 4 (unat cnt) @ '' ***] ['' @
                         datetime now @ ''] '' @ m @ ''\<newline>'']\<rparr>))"

text \<open>
  \<open>LEARNLOG_CATCH\<close> after a \<open>try\<close> block: a standard exception is reported and swallowed, any
  other is reported and thrown again. The block's outcome is \<open>None\<close> when nothing was thrown;
  the result says what leaves the handler. A report is the text given to \<open>handle_excpt\<close>.
\<close>

definition learnlog_catch :: "excpt option \<Rightarrow> string list \<times> excpt option" where
  "learnlog_catch thrown =
     (case thrown of
        None \<Rightarrow> ([], None)
      | Some (Std_exception what) \<Rightarrow> ([what], None)
      | Some Other_exception \<Rightarrow> ([''Unknown exception, rethrowing...''], Some Other_exception))"

lemma learnlog_catch_std [simp]: "learnlog_catch (Some (Std_exception w)) = ([w], None)"
  by (simp add: learnlog_catch_def)

lemma learnlog_catch_none [simp]: "learnlog_catch None = ([], None)"
  by (simp add: learnlog_catch_def)

lemma learnlog_catch_other:
  "snd (learnlog_catch t) = (if t = Some Other_exception then Some Other_exception else None)"
  by (cases t) (auto simp: learnlog_catch_def split: excpt.split)

end
