(* ===== verification/Filler.thy ===== *)
theory Filler
  imports Definitions "HOL-Library.Monad_Syntax"
begin

text \<open>
  \<^verbatim>\<open>sinks/formatters/filler.h\<close>: alignment of a formatted item. The constructor writes the
  spaces to the left of the item, the destructor those to the right, or cuts the item; the
  code between them writes the item. \<open>filler_scope\<close> is that life time. Lengths are the words
  of the source, the missing space count a signed 32-bit \<open>int\<close>. A read past the 64 spaces of
  \<open>spaces_\<close> and its terminating NUL, or a buffer resized below zero, is \<open>None\<close>.
\<close>

datatype fill_side = Left_side | Right_side | Center_side

record spaces_info =
  target_len :: size_t
  side :: fill_side
  truncated :: bool
  enabled :: bool

definition spaces_info_default :: spaces_info where
  "spaces_info_default = \<lparr>target_len = 0, side = Left_side, truncated = False, enabled = False\<rparr>"

definition mk_spaces_info :: "size_t \<Rightarrow> fill_side \<Rightarrow> bool \<Rightarrow> spaces_info" where
  "mk_spaces_info len s trunc = \<lparr>target_len = len, side = s, truncated = trunc, enabled = True\<rparr>"

text \<open>\<open>fill_spaces_\<close>: the first \<open>len\<close> characters of the C string of 64 spaces.\<close>

definition fill_spaces :: "size_t \<Rightarrow> fmt_buf \<Rightarrow> fmt_buf option" where
  "fill_spaces len dest_buf =
     (let spaces = replicate MAX_SPACES_LEN (CHR '' '') @ [CHR 0x00]
      in if unat len \<le> length spaces
         then Some (append_string_view (take (unat len) spaces) dest_buf)
         else None)"

text \<open>
  The constructor: the value of \<open>spaces_to_fill_\<close> it leaves and the buffer. Without spaces
  information \<open>spaces_to_fill_\<close> stays unset, and no one reads it.
\<close>

definition filler_ctor :: "size_t \<Rightarrow> spaces_info \<Rightarrow> fmt_buf \<Rightarrow> (c_int \<times> fmt_buf) option" where
  "filler_ctor msg_len info dest_buf =
     (if \<not> enabled info then Some (0, dest_buf)
      else let spaces_to_fill = (ucast (target_len info - msg_len) :: c_int) in
        if sint spaces_to_fill \<le> 0 then Some (spaces_to_fill, dest_buf)
        else (case side info of
            Left_side \<Rightarrow>
              do { b \<leftarrow> fill_spaces (scast spaces_to_fill) dest_buf; Some (0, b) }
          | Center_side \<Rightarrow>
              (let half_to_fill = (word_of_int (sint spaces_to_fill sdiv 2) :: size_t) in
               do { b \<leftarrow> fill_spaces half_to_fill dest_buf;
                    Some (ucast ((scast spaces_to_fill :: size_t) - half_to_fill), b) })
          | Right_side \<Rightarrow> Some (spaces_to_fill, dest_buf)))"

definition filler_dtor :: "spaces_info \<Rightarrow> c_int \<Rightarrow> fmt_buf \<Rightarrow> fmt_buf option" where
  "filler_dtor info spaces_to_fill dest_buf =
     (if \<not> enabled info then Some dest_buf
      else if sint spaces_to_fill > 0 then fill_spaces (scast spaces_to_fill) dest_buf
      else if sint spaces_to_fill < 0 \<and> truncated info then
        (let new_size = int (length dest_buf) + sint spaces_to_fill
         in if 0 \<le> new_size then Some (take (nat new_size) dest_buf) else None)
      else Some dest_buf)"

definition filler_scope ::
  "size_t \<Rightarrow> spaces_info \<Rightarrow> (fmt_buf \<Rightarrow> fmt_buf) \<Rightarrow> fmt_buf \<Rightarrow> fmt_buf option" where
  "filler_scope msg_len info body dest_buf =
     do { (k, b) \<leftarrow> filler_ctor msg_len info dest_buf; filler_dtor info k (body b) }"

text \<open>The three overloads of \<open>fill_msg\<close>.\<close>

definition fill_msg_str :: "string \<Rightarrow> fmt_buf \<Rightarrow> fmt_buf" where
  "fill_msg_str strview dest_buf = append_string_view strview dest_buf"

definition fill_msg_unsigned :: "int_type \<Rightarrow> size_t \<Rightarrow> int \<Rightarrow> fmt_buf \<Rightarrow> fmt_buf" where
  "fill_msg_unsigned T msg_len n dest_buf = fill_uint T n msg_len dest_buf"

definition fill_msg_signed :: "int \<Rightarrow> fmt_buf \<Rightarrow> fmt_buf" where
  "fill_msg_signed n dest_buf = append_int n dest_buf"

section \<open>What alignment means\<close>

definition spaces :: "nat \<Rightarrow> string" where
  "spaces k = replicate k (CHR '' '')"

definition align :: "spaces_info \<Rightarrow> string \<Rightarrow> string" where
  "align info t =
     (if \<not> enabled info then t
      else let n = length t; w = unat (target_len info) in
        if n \<le> w then
          (case side info of
             Left_side \<Rightarrow> spaces (w - n) @ t
           | Right_side \<Rightarrow> t @ spaces (w - n)
           | Center_side \<Rightarrow> spaces ((w - n) div 2) @ t @ spaces (w - n - (w - n) div 2))
        else if truncated info then take w t else t)"

text \<open>
  The same for an item whose announced length is \<open>n\<close>: the spaces that are missing and the characters that are cut are counted
  from \<open>n\<close>, whatever the item's own length.
\<close>

definition align_for :: "nat \<Rightarrow> spaces_info \<Rightarrow> string \<Rightarrow> string" where
  "align_for n info t =
     (if \<not> enabled info then t
      else let w = unat (target_len info) in
        if n \<le> w then
          (case side info of
             Left_side \<Rightarrow> spaces (w - n) @ t
           | Right_side \<Rightarrow> t @ spaces (w - n)
           | Center_side \<Rightarrow> spaces ((w - n) div 2) @ t @ spaces (w - n - (w - n) div 2))
        else if truncated info then take (length t - (n - w)) t else t)"

lemma align_for_length: "align_for (length t) info t = align info t"
  by (simp add: align_for_def align_def Let_def)

text \<open>The spaces informations a pattern can produce: widths are clamped to 64.\<close>

definition spaces_ok :: "spaces_info \<Rightarrow> bool" where
  "spaces_ok info \<longleftrightarrow> unat (target_len info) \<le> MAX_SPACES_LEN"

lemma length_spaces [simp]: "length (spaces k) = k"
  by (simp add: spaces_def)

lemma spaces_eval [simp]:
  shows "spaces 0 = []" and "spaces (Suc k) = CHR '' '' # spaces k"
    and "spaces (numeral j) = CHR '' '' # spaces (pred_numeral j)"
  by (simp_all add: spaces_def numeral_eq_Suc)

lemma length_align:
  "enabled info \<Longrightarrow> length (align info t) =
     (if length t \<le> unat (target_len info) then unat (target_len info)
      else if truncated info then unat (target_len info) else length t)"
  by (simp add: align_def Let_def split: fill_side.split)

lemma align_disabled [simp]: "\<not> enabled info \<Longrightarrow> align info t = t"
  by (simp add: align_def)

lemma fill_spaces_eq:
  "unat len \<le> MAX_SPACES_LEN \<Longrightarrow> fill_spaces len buf = Some (buf @ spaces (unat len))"
  by (simp add: fill_spaces_def append_string_view_def spaces_def Let_def min_def)

text \<open>The cast of the unsigned difference to \<open>int\<close> recovers the signed difference.\<close>

lemma sint_missing_spaces:
  fixes w n :: size_t
  assumes "unat w < 2 ^ 31" and "unat n < 2 ^ 31"
  shows "sint (ucast (w - n) :: c_int) = int (unat w) - int (unat n)"
proof -
  have "uint (ucast (w - n) :: c_int) = uint (word_of_int (int (unat w) - int (unat n)) :: c_int)"
    by (simp add: unsigned_ucast_eq uint_word_ariths unsigned_of_int take_bit_eq_mod mod_mod_cancel
        mod_diff_eq)
  then have "(ucast (w - n) :: c_int) = word_of_int (int (unat w) - int (unat n))"
    by (simp only: word_uint_eq_iff)
  moreover have "signed_take_bit 31 (int (unat w) - int (unat n)) = int (unat w) - int (unat n)"
  proof -
    have "signed_take_bit 31 (int a - int b) = int a - int b" if "a < 2 ^ 31" "b < 2 ^ 31" for a b
      using that by (intro signed_take_bit_int_eq_self) auto
    then show ?thesis using assms by blast
  qed
  ultimately show ?thesis by (simp only: sint_sbintrunc') simp
qed


section \<open>The filler aligns\<close>

lemma filler_scope_disabled:
  "\<not> enabled info \<Longrightarrow> filler_scope n info body buf = Some (body buf)"
  by (simp add: filler_scope_def filler_ctor_def filler_dtor_def)

lemma sint_nonneg_unat_scast:
  fixes k :: c_int
  assumes "0 \<le> sint k" shows "unat (scast k :: size_t) = nat (sint k)"
proof -
  have "sint k < 2 ^ 31" using sint_lt [of k] by simp
  then have "take_bit 64 (sint k) = sint k" using assms by (intro take_bit_int_eq_self) auto
  moreover have "unat (scast k :: size_t) = nat (take_bit 64 (sint k))"
    by (simp only: scast_eq unsigned_of_int) simp
  ultimately show ?thesis by simp
qed

lemma filler_scope_align_for:
  assumes body: "\<And>b. body b = b @ t"
    and len: "unat msg_len = n" "n \<le> length t" and short: "n < 2 ^ 31" and ok: "spaces_ok info"
  shows "filler_scope msg_len info body buf = Some (buf @ align_for n info t)"
proof (cases "enabled info")
  case False
  then show ?thesis by (simp add: filler_scope_disabled body align_for_def)
next
  case en: True
  define w where "w = unat (target_len info)"
  define k where "k = (ucast (target_len info - msg_len) :: c_int)"
  have w: "w \<le> 64" using ok by (simp add: spaces_ok_def w_def MAX_SPACES_LEN_def)
  have k: "sint k = int w - int n"
    using sint_missing_spaces [of "target_len info" msg_len] w len short
    by (simp add: k_def w_def)
  consider (zero) "w = n" | (less) "w < n" | (more) "n < w" by linarith
  then show ?thesis
  proof cases
    case zero
    then have "sint k = 0" using k by simp
    then show ?thesis using zero en
      by (simp add: filler_scope_def filler_ctor_def filler_dtor_def align_for_def body spaces_def
          flip: k_def w_def split: fill_side.split)
  next
    case less
    then have "sint k < 0" using k by simp
    moreover have "nat (int (length buf) + int (length t) + sint k) - length buf = length t - (n - w)"
      "0 \<le> int (length buf) + int (length t) + sint k"
      "length buf \<le> nat (int (length buf) + int (length t) + sint k)"
      using less k len(2) by linarith+
    ultimately show ?thesis using less en
      by (simp add: filler_scope_def filler_ctor_def filler_dtor_def align_for_def body
          flip: k_def w_def)
  next
    case more
    then have pos: "0 < sint k" and bound: "nat (sint k) \<le> 64" using k w by simp_all
    have full: "fill_spaces (scast k) b = Some (b @ spaces (w - n))" for b
      using fill_spaces_eq [of "scast k" b] sint_nonneg_unat_scast [of k] pos bound k
      by (simp add: MAX_SPACES_LEN_def nat_diff_distrib)
    show ?thesis
    proof (cases "side info")
      case Left_side
      then show ?thesis using more en pos full
        by (simp add: filler_scope_def filler_ctor_def filler_dtor_def align_for_def body
            flip: k_def w_def)
    next
      case Right_side
      then show ?thesis using more en pos full
        by (simp add: filler_scope_def filler_ctor_def filler_dtor_def align_for_def body
            flip: k_def w_def)
    next
      case Center_side
      define h where "h = (word_of_int (sint k sdiv 2) :: size_t)"
      define r where "r = (ucast ((scast k :: size_t) - h) :: c_int)"
      have "sint k sdiv 2 = int ((w - n) div 2)"
        using k pos by (simp add: sdiv_nonneg zdiv_int of_nat_diff)
      moreover have "take_bit 64 (int ((w - n) div 2)) = int ((w - n) div 2)"
        using w by (intro take_bit_int_eq_self) auto
      moreover have "unat h = nat (take_bit 64 (sint k sdiv 2))"
        unfolding h_def by (simp only: unsigned_of_int) simp
      ultimately have uh: "unat h = (w - n) div 2" by simp
      have us: "unat (scast k :: size_t) = w - n"
        using sint_nonneg_unat_scast [of k] pos k by simp
      have r: "sint r = int (w - n) - int ((w - n) div 2)"
        unfolding r_def using sint_missing_spaces [of "scast k" h] us uh w by simp
      then have r_pos: "0 < sint r" and "nat (sint r) = w - n - (w - n) div 2"
        using more by simp_all
      moreover have "w - n - (w - n) div 2 \<le> 64" using w by simp
      ultimately have rest: "fill_spaces (scast r) b = Some (b @ spaces (w - n - (w - n) div 2))" for b
        using fill_spaces_eq [of "scast r" b] sint_nonneg_unat_scast [of r]
        by (simp add: MAX_SPACES_LEN_def)
      have half: "fill_spaces h b = Some (b @ spaces ((w - n) div 2))" for b
        using fill_spaces_eq [of h b] uh w by (simp add: MAX_SPACES_LEN_def)
      show ?thesis using more en pos r_pos rest half Center_side
        by (simp add: filler_scope_def filler_ctor_def filler_dtor_def align_for_def body Let_def
            flip: k_def w_def h_def r_def)
    qed
  qed
qed

lemma filler_scope_align:
  assumes "\<And>b. body b = b @ t" and "unat msg_len = length t" and "length t < 2 ^ 31" and "spaces_ok info"
  shows "filler_scope msg_len info body buf = Some (buf @ align info t)"
  using filler_scope_align_for [OF assms(1,2) order_refl assms(3,4)] by (simp add: align_for_length)

section \<open>Properties\<close>

text \<open>
  For every width a pattern can ask for, the constructor and the destructor of the filler put
  the item into the buffer aligned: padded to exactly the width on the side that was asked
  for, cut to it when truncation is on, unchanged otherwise, with nothing read past the 64
  spaces and the earlier content of the buffer kept. The item's length has to be the length
  that was announced.
\<close>

theorem filler_aligns:
  assumes "\<And>b. body b = b @ t" and "unat msg_len = length t" and "length t < 2 ^ 31"
    and "unat (target_len info) \<le> MAX_SPACES_LEN"
  shows "\<exists>s. filler_scope msg_len info body buf = Some (buf @ s) \<and> s = align info t \<and>
     (enabled info \<and> (truncated info \<or> length t \<le> unat (target_len info)) \<longrightarrow>
        length s = unat (target_len info))"
  using filler_scope_align [of body t msg_len info buf] assms length_align [of info t]
  by (auto simp: spaces_ok_def)

theorem filler_aligns_witness:
  "filler_scope 3 \<lparr>target_len = 8, side = Center_side, truncated = False, enabled = True\<rparr>
     (\<lambda>b. b @ ''abc'') ''>'' = Some ''>  abc   ''"
  using filler_aligns [of "\<lambda>b. b @ ''abc''" "''abc''" 3
      "\<lparr>target_len = 8, side = Center_side, truncated = False, enabled = True\<rparr>" "''>''"]
  by (simp add: align_def MAX_SPACES_LEN_def)

end
