(* ===== verification/Flag_Formatters.thy ===== *)
theory Flag_Formatters
  imports Filler
begin

text \<open>
  \<^verbatim>\<open>sinks/formatters/flag_formatter.h\<close>: one formatter per format character. Each class is
  a constructor of \<open>flag_formatter\<close> holding its members, each \<open>format\<close> method a definition,
  and \<open>flag_format\<close> the virtual call. A formatter may change its own state (the duration and
  the full formatter) and the mutable colour range of the message, so a call returns all three.
  The interface \<open>formatting_env\<close> holds what is not in the repository: the process id, the
  local time of the C library and the user's custom formatters. Array reads out of bounds and
  uses of null pointers are \<open>None\<close>.
\<close>

section \<open>State\<close>

record tm =
  tm_year :: int
  tm_mon :: int
  tm_mday :: int
  tm_hour :: int
  tm_min :: int
  tm_sec :: int
  tm_wday :: int

text \<open>
  \<open>'c\<close> is the type of user-defined \<open>custom_flag_formatter\<close> objects, with their \<open>format\<close> and
  \<open>clone\<close> methods; \<open>local_tm\<close> is \<open>localtime_r\<close> on seconds since the epoch.
\<close>

record 'c formatting_env =
  env_pid :: int
  local_tm :: "int \<Rightarrow> tm"
  custom_format :: "'c \<Rightarrow> spaces_info \<Rightarrow> log_msg \<Rightarrow> tm \<Rightarrow> fmt_buf \<Rightarrow> ('c \<times> log_msg \<times> fmt_buf) option"
  custom_clone :: "'c \<Rightarrow> 'c"

datatype 'c flag_formatter =
    Name_formatter spaces_info
  | Level_formatter spaces_info
  | A_formatter spaces_info
  | B_formatter spaces_info
  | C_formatter spaces_info
  | Y_formatter spaces_info
  | Month_formatter spaces_info
  | D_formatter spaces_info
  | Hour_formatter spaces_info
  | Minute_formatter spaces_info
  | Second_formatter spaces_info
  | E_formatter spaces_info
  | F_formatter spaces_info
  | G_formatter spaces_info
  | T_formatter spaces_info
  | Duration_formatter int spaces_info int
  | P_formatter spaces_info
  | Tid_formatter spaces_info
  | V_formatter spaces_info
  | Aggregate_formatter string
  | Color_start_formatter spaces_info
  | Color_end_formatter spaces_info
  | Source_loc_formatter spaces_info
  | Source_filename_formatter spaces_info
  | Source_linenum_formatter spaces_info
  | Source_funcname_formatter spaces_info
  | Full_formatter spaces_info int fmt_buf
  | Char_formatter char
  | Custom_formatter 'c spaces_info

text \<open>Ticks of the clock units, in nanoseconds.\<close>

definition nanoseconds :: int where "nanoseconds = 1"
definition microseconds :: int where "microseconds = 1000"
definition milliseconds :: int where "milliseconds = 1000000"
definition seconds :: int where "seconds = 1000000000"

lemmas tick_defs = nanoseconds_def microseconds_def milliseconds_def seconds_def

section \<open>The \<open>format\<close> methods\<close>

definition array_at :: "'a list \<Rightarrow> int \<Rightarrow> 'a option" where
  "array_at xs i = (if 0 \<le> i \<and> i < int (length xs) then Some (xs ! nat i) else None)"

definition strlen :: "string \<Rightarrow> size_t" where
  "strlen s = of_nat (length s)"

definition name_format :: "spaces_info \<Rightarrow> log_msg \<Rightarrow> fmt_buf \<Rightarrow> fmt_buf option" where
  "name_format info m dest_buf =
     filler_scope (strlen (logger_name m)) info (fill_msg_str (logger_name m)) dest_buf"

definition level_format :: "spaces_info \<Rightarrow> log_msg \<Rightarrow> fmt_buf \<Rightarrow> fmt_buf option" where
  "level_format info m dest_buf =
     (let msg_level = level_name_of (level m)
      in filler_scope (strlen msg_level) info (fill_msg_str msg_level) dest_buf)"

definition weekday_name :: "string list" where
  "weekday_name = [''Sun'', ''Mon'', ''Tue'', ''Wed'', ''Thu'', ''Fri'', ''Sat'']"

definition month_name :: "string list" where
  "month_name = [''Jan'', ''Feb'', ''Mar'', ''Apr'', ''May'', ''Jun'', ''Jul'', ''Aug'',
     ''Sept'', ''Oct'', ''Nov'', ''Dec'']"

definition a_format :: "spaces_info \<Rightarrow> tm \<Rightarrow> fmt_buf \<Rightarrow> fmt_buf option" where
  "a_format info t dest_buf =
     do { d_name \<leftarrow> array_at weekday_name (tm_wday t);
          filler_scope (strlen d_name) info (fill_msg_str d_name) dest_buf }"

definition b_format :: "spaces_info \<Rightarrow> tm \<Rightarrow> fmt_buf \<Rightarrow> fmt_buf option" where
  "b_format info t dest_buf =
     do { m_name \<leftarrow> array_at month_name (tm_mon t);
          filler_scope (strlen m_name) info (fill_msg_str m_name) dest_buf }"

definition c_format :: "spaces_info \<Rightarrow> tm \<Rightarrow> fmt_buf \<Rightarrow> fmt_buf option" where
  "c_format info t dest_buf =
     do { d_name \<leftarrow> array_at weekday_name (tm_wday t);
          m_name \<leftarrow> array_at month_name (tm_mon t);
          filler_scope 24 info
            (\<lambda>b. let b = append_string_view d_name b;
                     b = push_char (CHR '' '') b;
                     b = append_string_view m_name b;
                     b = push_char (CHR '' '') b;
                     b = fill_uint Int32 (tm_mday t) 2 b;
                     b = push_char (CHR '' '') b;
                     b = fill_uint Int32 (tm_hour t) 2 b;
                     b = push_char (CHR '':'') b;
                     b = fill_uint Int32 (tm_min t) 2 b;
                     b = push_char (CHR '':'') b;
                     b = fill_uint Int32 (tm_sec t) 2 b;
                     b = push_char (CHR '' '') b
                 in fill_uint Int32 (tm_year t + 1900) 4 b) dest_buf }"

definition y_format :: "spaces_info \<Rightarrow> tm \<Rightarrow> fmt_buf \<Rightarrow> fmt_buf option" where
  "y_format info t dest_buf = filler_scope 4 info (fill_msg_signed (tm_year t + 1900)) dest_buf"

text \<open>\<open>static_cast<unsigned>\<close>.\<close>

definition to_unsigned :: "int \<Rightarrow> int" where
  "to_unsigned v = uint (word_of_int v :: 32 word)"

definition m_format :: "spaces_info \<Rightarrow> tm \<Rightarrow> fmt_buf \<Rightarrow> fmt_buf option" where
  "m_format info t dest_buf =
     filler_scope 2 info (fill_msg_unsigned UInt32 2 (to_unsigned (tm_mon t + 1))) dest_buf"

definition d_format :: "spaces_info \<Rightarrow> tm \<Rightarrow> fmt_buf \<Rightarrow> fmt_buf option" where
  "d_format info t dest_buf =
     filler_scope 2 info (fill_msg_unsigned UInt32 2 (to_unsigned (tm_mday t))) dest_buf"

definition H_format :: "spaces_info \<Rightarrow> tm \<Rightarrow> fmt_buf \<Rightarrow> fmt_buf option" where
  "H_format info t dest_buf =
     filler_scope 2 info (fill_msg_unsigned UInt32 2 (to_unsigned (tm_hour t))) dest_buf"

definition M_format :: "spaces_info \<Rightarrow> tm \<Rightarrow> fmt_buf \<Rightarrow> fmt_buf option" where
  "M_format info t dest_buf =
     filler_scope 2 info (fill_msg_unsigned UInt32 2 (to_unsigned (tm_min t))) dest_buf"

definition S_format :: "spaces_info \<Rightarrow> tm \<Rightarrow> fmt_buf \<Rightarrow> fmt_buf option" where
  "S_format info t dest_buf =
     filler_scope 2 info (fill_msg_unsigned UInt32 2 (to_unsigned (tm_sec t))) dest_buf"

definition E_format :: "spaces_info \<Rightarrow> log_msg \<Rightarrow> fmt_buf \<Rightarrow> fmt_buf option" where
  "E_format info m dest_buf =
     (let milli_sec = precise_time milliseconds (time m)
      in filler_scope 3 info (fill_msg_unsigned UInt32 3 (to_unsigned milli_sec)) dest_buf)"

definition F_format :: "spaces_info \<Rightarrow> log_msg \<Rightarrow> fmt_buf \<Rightarrow> fmt_buf option" where
  "F_format info m dest_buf =
     (let micro_sec = precise_time microseconds (time m)
      in filler_scope 6 info (fill_msg_unsigned UInt32 6 (to_unsigned micro_sec)) dest_buf)"

definition G_format :: "spaces_info \<Rightarrow> log_msg \<Rightarrow> fmt_buf \<Rightarrow> fmt_buf option" where
  "G_format info m dest_buf =
     (let nano_sec = precise_time nanoseconds (time m)
      in filler_scope 9 info (fill_msg_unsigned UInt32 9 (to_unsigned nano_sec)) dest_buf)"

definition T_format :: "spaces_info \<Rightarrow> tm \<Rightarrow> fmt_buf \<Rightarrow> fmt_buf option" where
  "T_format info t dest_buf =
     filler_scope 8 info
       (\<lambda>b. let b = fill_uint Int32 (tm_hour t) 2 b;
                b = push_char (CHR '':'') b;
                b = fill_uint Int32 (tm_min t) 2 b;
                b = push_char (CHR '':'') b
            in fill_uint Int32 (tm_sec t) 2 b) dest_buf"

text \<open>The second component is the new \<open>last_msg_time_\<close>.\<close>

definition duration_format ::
  "int \<Rightarrow> spaces_info \<Rightarrow> int \<Rightarrow> log_msg \<Rightarrow> fmt_buf \<Rightarrow> (int \<times> fmt_buf) option" where
  "duration_format metric info last_msg_time m dest_buf =
     (let delta = max (time m - last_msg_time) 0;
          duration = duration_cast metric delta;
          last_msg_time = time m;
          duration_cnt = uint (word_of_int duration :: size_t);
          text_len = count_unsigned_digits UInt64 duration_cnt
      in do { b \<leftarrow> filler_scope text_len info (append_int duration_cnt) dest_buf;
              Some (last_msg_time, b) })"

definition p_format :: "'c formatting_env \<Rightarrow> spaces_info \<Rightarrow> fmt_buf \<Rightarrow> fmt_buf option" where
  "p_format env info dest_buf =
     (let p_len = count_unsigned_digits UInt64 (env_pid env)
      in filler_scope p_len info (append_int (env_pid env)) dest_buf)"

definition t_format :: "spaces_info \<Rightarrow> log_msg \<Rightarrow> fmt_buf \<Rightarrow> fmt_buf option" where
  "t_format info m dest_buf =
     (let t_len = count_unsigned_digits UInt64 (uint (tid m))
      in filler_scope t_len info (append_int (uint (tid m))) dest_buf)"

definition v_format :: "spaces_info \<Rightarrow> log_msg \<Rightarrow> fmt_buf \<Rightarrow> fmt_buf option" where
  "v_format info m dest_buf =
     filler_scope (strlen (msg m)) info (fill_msg_str (msg m)) dest_buf"

definition aggregate_add_ch :: "char \<Rightarrow> string \<Rightarrow> string" where
  "aggregate_add_ch ch str = str @ [ch]"

definition aggregate_format :: "string \<Rightarrow> fmt_buf \<Rightarrow> fmt_buf" where
  "aggregate_format str dest_buf = append_string_view str dest_buf"

definition color_start_format :: "log_msg \<Rightarrow> fmt_buf \<Rightarrow> log_msg" where
  "color_start_format m dest_buf = m\<lparr>color_index_start := of_nat (length dest_buf)\<rparr>"

definition color_end_format :: "log_msg \<Rightarrow> fmt_buf \<Rightarrow> log_msg" where
  "color_end_format m dest_buf = m\<lparr>color_index_end := of_nat (length dest_buf)\<rparr>"

definition source_loc_format :: "spaces_info \<Rightarrow> log_msg \<Rightarrow> fmt_buf \<Rightarrow> fmt_buf option" where
  "source_loc_format info m dest_buf =
     (if loc_empty (loc m) then filler_scope 0 info id dest_buf
      else do { file \<leftarrow> filename (loc m);
        let text_len = strlen file + count_unsigned_digits Int32 (line (loc m)) + 1;
        filler_scope text_len info
          (\<lambda>b. append_int (line (loc m)) (push_char (CHR '':'') (append_string_view file b)))
          dest_buf })"

definition source_filename_format :: "spaces_info \<Rightarrow> log_msg \<Rightarrow> fmt_buf \<Rightarrow> fmt_buf option" where
  "source_filename_format info m dest_buf =
     (if loc_empty (loc m) then filler_scope 0 info id dest_buf
      else do { file \<leftarrow> filename (loc m);
                filler_scope (strlen file) info (fill_msg_str file) dest_buf })"

definition source_linenum_format :: "spaces_info \<Rightarrow> log_msg \<Rightarrow> fmt_buf \<Rightarrow> fmt_buf option" where
  "source_linenum_format info m dest_buf =
     (if loc_empty (loc m) then filler_scope 0 info id dest_buf
      else let text_len = count_unsigned_digits Int32 (line (loc m))
           in filler_scope text_len info (fill_msg_signed (line (loc m))) dest_buf)"

definition source_funcname_format :: "spaces_info \<Rightarrow> log_msg \<Rightarrow> fmt_buf \<Rightarrow> fmt_buf option" where
  "source_funcname_format info m dest_buf =
     (if loc_empty (loc m) then filler_scope 0 info id dest_buf
      else do { func \<leftarrow> funcname (loc m);
                filler_scope (strlen func) info (fill_msg_str func) dest_buf })"

text \<open>
  The full formatter. \<open>datetime_fill\<close> is the branch that renders the date and time into the
  cache; the cached text is reused while the second of the message does not change.
\<close>

definition datetime_fill :: "tm \<Rightarrow> fmt_buf" where
  "datetime_fill t =
     (let b = push_char (CHR ''['') [];
          b = fill_uint Int32 (tm_year t + 1900) 4 b;
          b = push_char (CHR ''-'') b;
          b = fill_uint Int32 (tm_mon t + 1) 2 b;
          b = push_char (CHR ''-'') b;
          b = fill_uint Int32 (tm_mday t) 2 b;
          b = push_char (CHR '' '') b;
          b = fill_uint Int32 (tm_hour t) 2 b;
          b = push_char (CHR '':'') b;
          b = fill_uint Int32 (tm_min t) 2 b;
          b = push_char (CHR '':'') b;
          b = fill_uint Int32 (tm_sec t) 2 b
      in push_char (CHR ''.'') b)"


definition full_format ::
  "int \<Rightarrow> fmt_buf \<Rightarrow> log_msg \<Rightarrow> tm \<Rightarrow> fmt_buf \<Rightarrow> ((int \<times> fmt_buf) \<times> log_msg \<times> fmt_buf) option" where
  "full_format last_call_secs datetime_buf m t dest_buf =
     (let secs = duration_cast seconds (time m);
          stale = (secs \<noteq> last_call_secs \<or> length datetime_buf = 0);
          datetime_buf = (if stale then datetime_fill t else datetime_buf);
          last_call_secs = (if stale then secs else last_call_secs);
          b = dest_buf @ datetime_buf;
          ms = precise_time milliseconds (time m);
          b = fill_uint Int64 ms 3 b;
          b = push_char (CHR '']'') b;
          b = push_char (CHR '' '') b;
          b = (if length (logger_name m) > 0 then
                 let b = push_char (CHR ''['') b;
                     b = append_string_view (logger_name m) b;
                     b = push_char (CHR '']'') b
                 in push_char (CHR '' '') b
               else b);
          b = push_char (CHR ''['') b;
          m = m\<lparr>color_index_start := of_nat (length b)\<rparr>;
          b = append_string_view (level_name_of (level m)) b;
          m = m\<lparr>color_index_end := of_nat (length b)\<rparr>;
          b = push_char (CHR '']'') b;
          b = push_char (CHR '' '') b
      in do {
        b \<leftarrow> (if \<not> loc_empty (loc m) then
                do { file \<leftarrow> filename (loc m);
                  let b = push_char (CHR ''['') b;
                  let b = append_string_view file b;
                  let b = push_char (CHR '':'') b;
                  let b = fill_uint Int32 (line (loc m)) 5 b;
                  let b = push_char (CHR '']'') b;
                  Some (push_char (CHR '' '') b) }
              else Some b);
        Some ((last_call_secs, datetime_buf), m, append_string_view (msg m) b) })"

definition char_format :: "char \<Rightarrow> fmt_buf \<Rightarrow> fmt_buf" where
  "char_format ch dest_buf = push_char ch dest_buf"

text \<open>The virtual call \<open>f->format(msg, time_tm, dest_buf)\<close>.\<close>

fun flag_format ::
  "'c formatting_env \<Rightarrow> 'c flag_formatter \<Rightarrow> log_msg \<Rightarrow> tm \<Rightarrow> fmt_buf \<Rightarrow>
     ('c flag_formatter \<times> log_msg \<times> fmt_buf) option" where
  "flag_format env (Name_formatter i) m t b = map_option (\<lambda>b. (Name_formatter i, m, b)) (name_format i m b)"
| "flag_format env (Level_formatter i) m t b = map_option (\<lambda>b. (Level_formatter i, m, b)) (level_format i m b)"
| "flag_format env (A_formatter i) m t b = map_option (\<lambda>b. (A_formatter i, m, b)) (a_format i t b)"
| "flag_format env (B_formatter i) m t b = map_option (\<lambda>b. (B_formatter i, m, b)) (b_format i t b)"
| "flag_format env (C_formatter i) m t b = map_option (\<lambda>b. (C_formatter i, m, b)) (c_format i t b)"
| "flag_format env (Y_formatter i) m t b = map_option (\<lambda>b. (Y_formatter i, m, b)) (y_format i t b)"
| "flag_format env (Month_formatter i) m t b = map_option (\<lambda>b. (Month_formatter i, m, b)) (m_format i t b)"
| "flag_format env (D_formatter i) m t b = map_option (\<lambda>b. (D_formatter i, m, b)) (d_format i t b)"
| "flag_format env (Hour_formatter i) m t b = map_option (\<lambda>b. (Hour_formatter i, m, b)) (H_format i t b)"
| "flag_format env (Minute_formatter i) m t b = map_option (\<lambda>b. (Minute_formatter i, m, b)) (M_format i t b)"
| "flag_format env (Second_formatter i) m t b = map_option (\<lambda>b. (Second_formatter i, m, b)) (S_format i t b)"
| "flag_format env (E_formatter i) m t b = map_option (\<lambda>b. (E_formatter i, m, b)) (E_format i m b)"
| "flag_format env (F_formatter i) m t b = map_option (\<lambda>b. (F_formatter i, m, b)) (F_format i m b)"
| "flag_format env (G_formatter i) m t b = map_option (\<lambda>b. (G_formatter i, m, b)) (G_format i m b)"
| "flag_format env (T_formatter i) m t b = map_option (\<lambda>b. (T_formatter i, m, b)) (T_format i t b)"
| "flag_format env (Duration_formatter metric i l) m t b =
     map_option (\<lambda>(l, b). (Duration_formatter metric i l, m, b)) (duration_format metric i l m b)"
| "flag_format env (P_formatter i) m t b = map_option (\<lambda>b. (P_formatter i, m, b)) (p_format env i b)"
| "flag_format env (Tid_formatter i) m t b = map_option (\<lambda>b. (Tid_formatter i, m, b)) (t_format i m b)"
| "flag_format env (V_formatter i) m t b = map_option (\<lambda>b. (V_formatter i, m, b)) (v_format i m b)"
| "flag_format env (Aggregate_formatter s) m t b = Some (Aggregate_formatter s, m, aggregate_format s b)"
| "flag_format env (Color_start_formatter i) m t b = Some (Color_start_formatter i, color_start_format m b, b)"
| "flag_format env (Color_end_formatter i) m t b = Some (Color_end_formatter i, color_end_format m b, b)"
| "flag_format env (Source_loc_formatter i) m t b =
     map_option (\<lambda>b. (Source_loc_formatter i, m, b)) (source_loc_format i m b)"
| "flag_format env (Source_filename_formatter i) m t b =
     map_option (\<lambda>b. (Source_filename_formatter i, m, b)) (source_filename_format i m b)"
| "flag_format env (Source_linenum_formatter i) m t b =
     map_option (\<lambda>b. (Source_linenum_formatter i, m, b)) (source_linenum_format i m b)"
| "flag_format env (Source_funcname_formatter i) m t b =
     map_option (\<lambda>b. (Source_funcname_formatter i, m, b)) (source_funcname_format i m b)"
| "flag_format env (Full_formatter i s d) m t b =
     map_option (\<lambda>((s, d), m, b). (Full_formatter i s d, m, b)) (full_format s d m t b)"
| "flag_format env (Char_formatter c) m t b = Some (Char_formatter c, m, char_format c b)"
| "flag_format env (Custom_formatter c i) m t b =
     map_option (\<lambda>(c, m, b). (Custom_formatter c i, m, b)) (custom_format env c i m t b)"

section \<open>What the formatters write\<close>

text \<open>
  The fields of a broken-down time in their C ranges, with a four-digit year, and messages
  whose texts fit an \<open>int\<close> and whose location, if any, has its names.
\<close>

definition valid_tm :: "tm \<Rightarrow> bool" where
  "valid_tm t \<longleftrightarrow>
     0 \<le> tm_wday t \<and> tm_wday t \<le> 6 \<and> 0 \<le> tm_mon t \<and> tm_mon t \<le> 11 \<and>
     1 \<le> tm_mday t \<and> tm_mday t \<le> 31 \<and> 0 \<le> tm_hour t \<and> tm_hour t \<le> 23 \<and>
     0 \<le> tm_min t \<and> tm_min t \<le> 59 \<and> 0 \<le> tm_sec t \<and> tm_sec t \<le> 60 \<and>
     - 900 \<le> tm_year t \<and> tm_year t \<le> 8099"

definition valid_msg :: "log_msg \<Rightarrow> bool" where
  "valid_msg m \<longleftrightarrow>
     0 \<le> time m \<and> time m < 2 ^ 63 \<and>
     length (logger_name m) < 2 ^ 30 \<and> length (msg m) < 2 ^ 30 \<and>
     (loc_empty (loc m) \<or>
       line (loc m) < 2 ^ 31 \<and>
       (\<exists>file func. filename (loc m) = Some file \<and> funcname (loc m) = Some func \<and>
                    length file < 2 ^ 30 \<and> length func < 2 ^ 30))"

text \<open>The clock text \<open>HH:MM:SS\<close> and the date text of \<open>%c\<close>.\<close>

definition clock_text :: "tm \<Rightarrow> string" where
  "clock_text t = pad_dec 2 (nat (tm_hour t)) @ '':'' @ pad_dec 2 (nat (tm_min t)) @ '':'' @
     pad_dec 2 (nat (tm_sec t))"

definition date_text :: "tm \<Rightarrow> string" where
  "date_text t = weekday_name ! nat (tm_wday t) @ '' '' @ month_name ! nat (tm_mon t) @ '' '' @
     pad_dec 2 (nat (tm_mday t)) @ '' '' @ clock_text t @ '' '' @ pad_dec 4 (nat (tm_year t + 1900))"

definition datetime_text :: "tm \<Rightarrow> string" where
  "datetime_text t = ''['' @ pad_dec 4 (nat (tm_year t + 1900)) @ ''-'' @ pad_dec 2 (nat (tm_mon t + 1)) @
     ''-'' @ pad_dec 2 (nat (tm_mday t)) @ '' '' @ clock_text t @ ''.''"

text \<open>The part of \<open>%+\<close> in front of the level name, and the part behind it.\<close>

definition full_head :: "tm \<Rightarrow> log_msg \<Rightarrow> string" where
  "full_head t m = datetime_text t @ pad_dec 3 (nat (time m mod seconds div milliseconds)) @ ''] '' @
     (if logger_name m = [] then [] else ''['' @ logger_name m @ ''] '') @ ''[''"

definition full_tail :: "log_msg \<Rightarrow> string" where
  "full_tail m = ''] '' @
     (if loc_empty (loc m) then []
      else ''['' @ the (filename (loc m)) @ '':'' @ pad_dec 5 (nat (line (loc m))) @ ''] '') @ msg m"

definition full_text :: "tm \<Rightarrow> log_msg \<Rightarrow> string" where
  "full_text t m = full_head t m @ level_name_of (level m) @ full_tail m"

fun item_text :: "'c formatting_env \<Rightarrow> 'c flag_formatter \<Rightarrow> log_msg \<Rightarrow> tm \<Rightarrow> string" where
  "item_text env (Name_formatter i) m t = logger_name m"
| "item_text env (Level_formatter i) m t = level_name_of (level m)"
| "item_text env (A_formatter i) m t = weekday_name ! nat (tm_wday t)"
| "item_text env (B_formatter i) m t = month_name ! nat (tm_mon t)"
| "item_text env (C_formatter i) m t = date_text t"
| "item_text env (Y_formatter i) m t = dec (nat (tm_year t + 1900))"
| "item_text env (Month_formatter i) m t = pad_dec 2 (nat (tm_mon t + 1))"
| "item_text env (D_formatter i) m t = pad_dec 2 (nat (tm_mday t))"
| "item_text env (Hour_formatter i) m t = pad_dec 2 (nat (tm_hour t))"
| "item_text env (Minute_formatter i) m t = pad_dec 2 (nat (tm_min t))"
| "item_text env (Second_formatter i) m t = pad_dec 2 (nat (tm_sec t))"
| "item_text env (E_formatter i) m t = pad_dec 3 (nat (time m mod seconds div milliseconds))"
| "item_text env (F_formatter i) m t = pad_dec 6 (nat (time m mod seconds div microseconds))"
| "item_text env (G_formatter i) m t = pad_dec 9 (nat (time m mod seconds div nanoseconds))"
| "item_text env (T_formatter i) m t = clock_text t"
| "item_text env (Duration_formatter metric i l) m t = dec (nat (max (time m - l) 0 div metric))"
| "item_text env (P_formatter i) m t = dec (nat (env_pid env))"
| "item_text env (Tid_formatter i) m t = dec (unat (tid m))"
| "item_text env (V_formatter i) m t = msg m"
| "item_text env (Aggregate_formatter s) m t = s"
| "item_text env (Color_start_formatter i) m t = []"
| "item_text env (Color_end_formatter i) m t = []"
| "item_text env (Source_loc_formatter i) m t =
     (if loc_empty (loc m) then []
      else the (filename (loc m)) @ '':'' @ dec (nat (line (loc m))))"
| "item_text env (Source_filename_formatter i) m t =
     (if loc_empty (loc m) then [] else the (filename (loc m)))"
| "item_text env (Source_linenum_formatter i) m t =
     (if loc_empty (loc m) then [] else dec (nat (line (loc m))))"
| "item_text env (Source_funcname_formatter i) m t =
     (if loc_empty (loc m) then [] else the (funcname (loc m)))"
| "item_text env (Full_formatter i s d) m t = full_text t m"
| "item_text env (Char_formatter c) m t = [c]"
| "item_text env (Custom_formatter c i) m t = []"

text \<open>The alignment a formatter applies; the full, colour, literal formatters apply none.\<close>

fun item_info :: "'c flag_formatter \<Rightarrow> spaces_info" where
  "item_info (Name_formatter i) = i"
| "item_info (Level_formatter i) = i"
| "item_info (A_formatter i) = i"
| "item_info (B_formatter i) = i"
| "item_info (C_formatter i) = i"
| "item_info (Y_formatter i) = i"
| "item_info (Month_formatter i) = i"
| "item_info (D_formatter i) = i"
| "item_info (Hour_formatter i) = i"
| "item_info (Minute_formatter i) = i"
| "item_info (Second_formatter i) = i"
| "item_info (E_formatter i) = i"
| "item_info (F_formatter i) = i"
| "item_info (G_formatter i) = i"
| "item_info (T_formatter i) = i"
| "item_info (Duration_formatter metric i l) = i"
| "item_info (P_formatter i) = i"
| "item_info (Tid_formatter i) = i"
| "item_info (V_formatter i) = i"
| "item_info (Source_loc_formatter i) = i"
| "item_info (Source_filename_formatter i) = i"
| "item_info (Source_linenum_formatter i) = i"
| "item_info (Source_funcname_formatter i) = i"
| "item_info _ = spaces_info_default"

subsection \<open>One lemma per formatter\<close>

lemma align_default [simp]: "align spaces_info_default t = t"
  by (simp add: spaces_info_default_def)

lemma unat_strlen [simp]: "length s < 2 ^ 31 \<Longrightarrow> unat (strlen s) = length s"
  by (simp add: strlen_def unat_of_nat)

lemma str_scope:
  assumes "length s < 2 ^ 31" and "spaces_ok info"
  shows "filler_scope (strlen s) info (fill_msg_str s) b = Some (b @ align info s)"
  using assms by (intro filler_scope_align) (simp_all add: fill_msg_str_def append_string_view_def)

lemma empty_scope: "spaces_ok info \<Longrightarrow> filler_scope 0 info id b = Some (b @ align info [])"
  by (intro filler_scope_align) simp_all

text \<open>A zero-padded unsigned field no longer than its width.\<close>

lemma to_unsigned_id: "0 \<le> v \<Longrightarrow> v < 2 ^ 32 \<Longrightarrow> to_unsigned v = v"
  by (simp add: to_unsigned_def unsigned_of_int take_bit_int_eq_self)

lemma length_pad_dec_eq: "0 < k \<Longrightarrow> n < 10 ^ k \<Longrightarrow> length (pad_dec k n) = k"
proof -
  assume k: "0 < k" and n: "n < 10 ^ k"
  have "length (dec n) \<le> k"
  proof (rule ccontr)
    assume gt: "\<not> length (dec n) \<le> k"
    then have "10 \<le> n" using k by (cases "n < 10") (simp_all add: dec.simps [of n])
    moreover have "(10::nat) ^ k \<le> 10 ^ (length (dec n) - 1)"
      using gt by (intro power_increasing) auto
    ultimately show False using length_dec_bounds [of n] n by linarith
  qed
  then show ?thesis by (simp add: length_pad_dec)
qed

lemma length_pad_dec_2: "0 \<le> v \<Longrightarrow> v < 100 \<Longrightarrow> length (pad_dec 2 (nat v)) = 2"
  by (intro length_pad_dec_eq) (simp_all add: nat_less_iff)

lemma length_pad_dec_4: "0 \<le> v \<Longrightarrow> v < 10000 \<Longrightarrow> length (pad_dec 4 (nat v)) = 4"
  by (intro length_pad_dec_eq) (simp_all add: nat_less_iff)

lemma unsigned_scope:
  assumes "0 \<le> v" and "v < 10 ^ unat w" and "v < 2 ^ 32" and "0 < unat w" and "unat w < 2 ^ 31"
    and "spaces_ok info"
  shows "filler_scope w info (fill_msg_unsigned UInt32 w (to_unsigned v)) b =
           Some (b @ align info (pad_dec (unat w) (nat v)))"
proof (rule filler_scope_align)
  show "fill_msg_unsigned UInt32 w (to_unsigned v) b = b @ pad_dec (unat w) (nat v)" for b
    using assms by (simp add: fill_msg_unsigned_def to_unsigned_id fill_uint_eq)
  have "nat v < 10 ^ unat w" using assms(1,2) by (simp add: nat_less_iff)
  then show "unat w = length (pad_dec (unat w) (nat v))"
    using assms(4) by (simp add: length_pad_dec_eq)
  with assms show "length (pad_dec (unat w) (nat v)) < 2 ^ 31" by simp
qed (use assms in simp)

lemma signed_scope:
  assumes "in_type T n" and "0 \<le> n" and "unat w = length (dec (nat n))" and "spaces_ok info"
  shows "filler_scope w info (append_int n) b = Some (b @ align info (dec (nat n)))"
proof (rule filler_scope_align)
  show "append_int n b = b @ dec (nat n)" for b
    using assms by (simp add: append_int_eq dec_int_def)
  have "nat n < 2 ^ 64" using assms by (cases T) (simp_all add: nat_less_iff)
  then show "length (dec (nat n)) < 2 ^ 31" using length_dec_less_20 [of "nat n"] by simp
qed (use assms in simp_all)

lemma array_at_in: "0 \<le> i \<Longrightarrow> i < int (length xs) \<Longrightarrow> array_at xs i = Some (xs ! nat i)"
  by (simp add: array_at_def)

lemma weekday_name_props:
  assumes "valid_tm t"
  shows "array_at weekday_name (tm_wday t) = Some (weekday_name ! nat (tm_wday t))"
    and "length (weekday_name ! nat (tm_wday t)) = 3"
proof -
  show "array_at weekday_name (tm_wday t) = Some (weekday_name ! nat (tm_wday t))"
    using assms by (intro array_at_in) (simp_all add: valid_tm_def weekday_name_def)
  have "\<forall>s \<in> set weekday_name. length s = 3" by (simp add: weekday_name_def)
  moreover have "nat (tm_wday t) < length weekday_name"
    using assms by (auto simp: valid_tm_def weekday_name_def nat_less_iff)
  ultimately show "length (weekday_name ! nat (tm_wday t)) = 3" by simp
qed

lemma month_name_props:
  assumes "valid_tm t"
  shows "array_at month_name (tm_mon t) = Some (month_name ! nat (tm_mon t))"
    and "length (month_name ! nat (tm_mon t)) = (if tm_mon t = 8 then 4 else 3)"
proof -
  show "array_at month_name (tm_mon t) = Some (month_name ! nat (tm_mon t))"
    using assms by (intro array_at_in) (simp_all add: valid_tm_def month_name_def)
  have "list_all (\<lambda>i. length (month_name ! i) = (if i = 8 then 4 else 3)) [0..<12]"
    by (simp add: month_name_def upt_rec)
  moreover have "nat (tm_mon t) < 12" and "nat (tm_mon t) = 8 \<longleftrightarrow> tm_mon t = 8"
    using assms by (auto simp: valid_tm_def)
  ultimately show "length (month_name ! nat (tm_mon t)) = (if tm_mon t = 8 then 4 else 3)"
    by (simp add: list_all_iff)
qed

lemma tm_field: "0 \<le> v \<Longrightarrow> v < 2 ^ 31 \<Longrightarrow> fill_uint Int32 v w b = b @ pad_dec (unat w) (nat v)"
  by (simp add: fill_uint_eq)

lemma clock_fields:
  assumes "valid_tm t"
  shows "fill_uint Int32 (tm_hour t) 2 b = b @ pad_dec 2 (nat (tm_hour t))"
    and "fill_uint Int32 (tm_min t) 2 b = b @ pad_dec 2 (nat (tm_min t))"
    and "fill_uint Int32 (tm_sec t) 2 b = b @ pad_dec 2 (nat (tm_sec t))"
    and "fill_uint Int32 (tm_mday t) 2 b = b @ pad_dec 2 (nat (tm_mday t))"
    and "fill_uint Int32 (tm_mon t + 1) 2 b = b @ pad_dec 2 (nat (tm_mon t + 1))"
    and "fill_uint Int32 (tm_year t + 1900) 4 b = b @ pad_dec 4 (nat (tm_year t + 1900))"
  using assms by (simp_all add: valid_tm_def tm_field)

lemma length_clock_text: "valid_tm t \<Longrightarrow> length (clock_text t) = 8"
  by (auto simp: clock_text_def valid_tm_def length_pad_dec_2)

lemma length_date_text:
  "valid_tm t \<Longrightarrow> length (date_text t) = (if tm_mon t = 8 then 25 else 24)"
  by (simp add: date_text_def length_clock_text weekday_name_props month_name_props)
    (auto simp: valid_tm_def length_pad_dec_2 length_pad_dec_4)

lemma datetime_fill_eq: "valid_tm t \<Longrightarrow> datetime_fill t = datetime_text t"
  by (simp add: datetime_fill_def datetime_text_def clock_text_def clock_fields push_char_def Let_def)

subsection \<open>All formatters at once\<close>

text \<open>
  The invariant of a formatter object: its width is one a pattern can produce, and the cache of
  a full formatter is empty or renders the second it is labelled with.
\<close>

fun formatter_ok :: "'c formatting_env \<Rightarrow> 'c flag_formatter \<Rightarrow> bool" where
  "formatter_ok env (Duration_formatter metric i l) \<longleftrightarrow> spaces_ok i \<and> 0 < metric \<and> 0 \<le> l"
| "formatter_ok env (Full_formatter i s d) \<longleftrightarrow> d = [] \<or> d = datetime_fill (local_tm env s)"
| "formatter_ok env (Custom_formatter c i) \<longleftrightarrow> False"
| "formatter_ok env f \<longleftrightarrow> spaces_ok (item_info f)"

text \<open>The message and its broken-down local time, as \<open>pattern_formatter::format\<close> computes it.\<close>

definition valid_call :: "'c formatting_env \<Rightarrow> log_msg \<Rightarrow> tm \<Rightarrow> bool" where
  "valid_call env m t \<longleftrightarrow>
     valid_msg m \<and> valid_tm t \<and> t = local_tm env (duration_cast seconds (time m)) \<and>
     0 \<le> env_pid env \<and> env_pid env < 2 ^ 32"

fun item_next :: "'c flag_formatter \<Rightarrow> log_msg \<Rightarrow> tm \<Rightarrow> 'c flag_formatter" where
  "item_next (Duration_formatter metric i l) m t = Duration_formatter metric i (time m)"
| "item_next (Full_formatter i s d) m t =
     Full_formatter i (duration_cast seconds (time m)) (datetime_fill t)"
| "item_next f m t = f"

fun item_colour :: "'c flag_formatter \<Rightarrow> log_msg \<Rightarrow> tm \<Rightarrow> fmt_buf \<Rightarrow> log_msg" where
  "item_colour (Color_start_formatter i) m t b = m\<lparr>color_index_start := of_nat (length b)\<rparr>"
| "item_colour (Color_end_formatter i) m t b = m\<lparr>color_index_end := of_nat (length b)\<rparr>"
| "item_colour (Full_formatter i s d) m t b =
     m\<lparr>color_index_start := of_nat (length (b @ full_head t m)),
       color_index_end := of_nat (length (b @ full_head t m @ level_name_of (level m)))\<rparr>"
| "item_colour f m t b = m"

lemma full_format_eq:
  assumes "valid_msg m" and "valid_tm t" and "t = local_tm env (duration_cast seconds (time m))"
    and "d = [] \<or> d = datetime_fill (local_tm env s)"
  shows "full_format s d m t b =
     Some ((duration_cast seconds (time m), datetime_fill t),
           item_colour (Full_formatter i s d) m t b, b @ full_text t m)"
proof -
  have cache: "(if duration_cast seconds (time m) \<noteq> s \<or> length d = 0 then datetime_fill t else d) = datetime_fill t"
    and secs: "(if duration_cast seconds (time m) \<noteq> s \<or> length d = 0 then duration_cast seconds (time m) else s)
      = duration_cast seconds (time m)"
    using assms(3,4) by auto
  have ms: "precise_time milliseconds (time m) = time m mod seconds div milliseconds"
    using assms(1) by (simp add: precise_time_eq tick_defs valid_msg_def)
  have msb: "0 \<le> time m mod seconds div milliseconds" "time m mod seconds div milliseconds < 1000"
    using pos_mod_bound [of 1000000000 "time m"]
    by (simp_all add: tick_defs pos_imp_zdiv_nonneg_iff)
  have msf: "fill_uint Int64 (time m mod seconds div milliseconds) 3 c =
      c @ pad_dec 3 (nat (time m mod seconds div milliseconds))" for c
    using msb by (simp add: fill_uint_eq)
  have line5: "\<not> loc_empty (loc m) \<Longrightarrow> fill_uint Int32 (line (loc m)) 5 c = c @ pad_dec 5 (nat (line (loc m)))" for c
    using assms(1) by (simp add: fill_uint_eq valid_msg_def loc_empty_def)
  show ?thesis
    unfolding full_format_def Let_def cache secs ms
    using assms(1) datetime_fill_eq [OF assms(2)]
    by (cases "loc_empty (loc m)")
      (auto simp: full_text_def full_head_def full_tail_def push_char_def append_string_view_def
        msf line5 valid_msg_def)
qed

lemma c_format_announced:
  assumes "valid_tm t" and "spaces_ok i"
  shows "c_format i t b = Some (b @ align_for 24 i (date_text t))"
  unfolding c_format_def weekday_name_props(1) [OF assms(1)] month_name_props(1) [OF assms(1)]
    Option.bind.bind_lunit
proof (rule filler_scope_align_for)
  show "24 \<le> length (date_text t)" using assms by (simp add: length_date_text)
qed (use assms in \<open>simp_all add: Let_def push_char_def append_string_view_def clock_fields date_text_def
      clock_text_def\<close>)

lemma c_format_eq:
  assumes "valid_tm t" and "spaces_ok i" and "tm_mon t \<noteq> 8"
  shows "c_format i t b = Some (b @ align i (date_text t))"
  using c_format_announced [OF assms(1,2)] align_for_length [of "date_text t" i] assms(3)
  by (simp add: length_date_text [OF assms(1)])

lemma y_format_eq:
  assumes "valid_tm t" and "spaces_ok i"
  shows "y_format i t b = Some (b @ align i (dec (nat (tm_year t + 1900))))"
  unfolding y_format_def fill_msg_signed_def
proof (rule signed_scope)
  show "unat (4 :: size_t) = length (dec (nat (tm_year t + 1900)))"
    using assms(1) by (subst length_dec_eq [of _ 4]) (auto simp: valid_tm_def nat_less_iff)
  show "in_type Int32 (tm_year t + 1900)" using assms(1) by (auto simp: valid_tm_def)
qed (use assms in \<open>auto simp: valid_tm_def\<close>)

lemma T_format_eq:
  assumes "valid_tm t" and "spaces_ok i"
  shows "T_format i t b = Some (b @ align i (clock_text t))"
  unfolding T_format_def
  by (rule filler_scope_align)
    (use assms in \<open>simp_all add: Let_def push_char_def clock_fields clock_text_def [symmetric]
      length_clock_text, simp_all add: clock_text_def\<close>)

lemma duration_format_eq:
  assumes "valid_msg m" and "spaces_ok i" and "0 < metric" and "0 \<le> l"
  shows "duration_format metric i l m b =
     Some (time m, b @ align i (dec (nat (max (time m - l) 0 div metric))))"
proof -
  define v where "v = max (time m - l) 0 div metric"
  have v0: "0 \<le> v" using assms(3) by (simp add: v_def pos_imp_zdiv_nonneg_iff)
  have "v \<le> max (time m - l) 0"
    using assms(3) zdiv_mono2 [of "max (time m - l) 0" 1 metric] by (simp add: v_def)
  then have v63: "v < 2 ^ 63" using assms(1,4) by (auto simp: valid_msg_def)
  have cast: "uint (word_of_int (duration_cast metric (max (time m - l) 0)) :: size_t) = v"
    using v0 v63 assms(3)
    by (simp add: duration_cast_def sdiv_nonneg unsigned_of_int flip: v_def)
      (intro take_bit_int_eq_self, auto)
  have "filler_scope (count_unsigned_digits UInt64 v) i (append_int v) b
      = Some (b @ align i (dec (nat v)))"
    using v0 v63 assms(2) by (intro signed_scope [of UInt64]) (simp_all add: count_unsigned_digits_eq)
  then show ?thesis unfolding duration_format_def Let_def cast v_def by simp
qed

lemma p_format_eq:
  "0 \<le> env_pid env \<Longrightarrow> env_pid env < 2 ^ 32 \<Longrightarrow> spaces_ok i \<Longrightarrow>
     p_format env i b = Some (b @ align i (dec (nat (env_pid env))))"
  unfolding p_format_def Let_def
  by (intro signed_scope [of UInt64]) (simp_all add: count_unsigned_digits_eq)

lemma t_format_eq: "spaces_ok i \<Longrightarrow> t_format i m b = Some (b @ align i (dec (unat (tid m))))"
proof -
  assume i: "spaces_ok i"
  have T: "in_type UInt64 (uint (tid m))" using uint_lt2p [of "tid m"] by simp
  have "t_format i m b = Some (b @ align i (dec (nat (uint (tid m)))))"
    unfolding t_format_def Let_def
    by (rule signed_scope [OF T _ count_unsigned_digits_eq [OF T] i]) simp_all
  then show ?thesis by simp
qed

lemma precise_fields:
  assumes "valid_msg m" and "0 < w" and "tick * 10 ^ w = 1000000000" and "w < 10"
  shows "to_unsigned (precise_time tick (time m)) = time m mod seconds div tick"
    and "0 \<le> time m mod seconds div tick" and "time m mod seconds div tick < 10 ^ w"
    and "time m mod seconds div tick < 2 ^ 32"
proof -
  have tick: "0 < tick" using assms(3) by (metis zero_less_mult_pos2 zero_less_numeral zero_less_power)
  have dvd: "tick dvd 1000000000" by (metis assms(3) dvd_triv_left)
  have nonneg: "0 \<le> time m mod 1000000000" by simp
  have less: "time m mod 1000000000 < tick * 10 ^ w" by (simp add: assms(3))
  moreover have "tick * (x div tick) \<le> x" for x
    using mult_div_mod_eq [of tick x] pos_mod_sign [OF tick, of x] by linarith
  ultimately have "tick * (time m mod 1000000000 div tick) < tick * 10 ^ w"
    by (rule le_less_trans [rotated])
  then show 10: "time m mod seconds div tick < 10 ^ w"
    using tick by (simp only: seconds_def mult_less_cancel_left_pos)
  show 0: "0 \<le> time m mod seconds div tick"
    using tick by (simp add: seconds_def pos_imp_zdiv_nonneg_iff)
  have "(10::int) ^ w \<le> 10 ^ 9" using assms(4) by (intro power_increasing) auto
  with 10 show 32: "time m mod seconds div tick < 2 ^ 32" by simp
  show "to_unsigned (precise_time tick (time m)) = time m mod seconds div tick"
    using assms(1) tick dvd 0 32
    by (simp add: precise_time_eq valid_msg_def to_unsigned_id seconds_def)
qed


lemma unsigned_fields:
  assumes "valid_tm t" and "spaces_ok i"
  shows "m_format i t b = Some (b @ align i (pad_dec 2 (nat (tm_mon t + 1))))"
    and "d_format i t b = Some (b @ align i (pad_dec 2 (nat (tm_mday t))))"
    and "H_format i t b = Some (b @ align i (pad_dec 2 (nat (tm_hour t))))"
    and "M_format i t b = Some (b @ align i (pad_dec 2 (nat (tm_min t))))"
    and "S_format i t b = Some (b @ align i (pad_dec 2 (nat (tm_sec t))))"
  using assms unsigned_scope [of _ 2 i b]
  by (auto simp: m_format_def d_format_def H_format_def M_format_def S_format_def valid_tm_def)

lemma fraction_fields:
  assumes "valid_msg m" and "spaces_ok i"
  shows "E_format i m b = Some (b @ align i (pad_dec 3 (nat (time m mod seconds div milliseconds))))"
    and "F_format i m b = Some (b @ align i (pad_dec 6 (nat (time m mod seconds div microseconds))))"
    and "G_format i m b = Some (b @ align i (pad_dec 9 (nat (time m mod seconds div nanoseconds))))"
proof -
  note E = precise_fields [OF assms(1), of 3 milliseconds]
    and F = precise_fields [OF assms(1), of 6 microseconds]
    and G = precise_fields [OF assms(1), of 9 nanoseconds]
  show "E_format i m b = Some (b @ align i (pad_dec 3 (nat (time m mod seconds div milliseconds))))"
    using unsigned_scope [of "time m mod seconds div milliseconds" 3 i b] E assms(2)
    by (simp add: E_format_def to_unsigned_id tick_defs)
  show "F_format i m b = Some (b @ align i (pad_dec 6 (nat (time m mod seconds div microseconds))))"
    using unsigned_scope [of "time m mod seconds div microseconds" 6 i b] F assms(2)
    by (simp add: F_format_def to_unsigned_id tick_defs)
  show "G_format i m b = Some (b @ align i (pad_dec 9 (nat (time m mod seconds div nanoseconds))))"
    using unsigned_scope [of "time m mod seconds div nanoseconds" 9 i b] G assms(2)
    by (simp add: G_format_def to_unsigned_id tick_defs)
qed

lemma loc_fields:
  assumes "valid_msg m" and "spaces_ok i"
  shows "source_loc_format i m b = Some (b @ align i (item_text env (Source_loc_formatter i) m t))"
    and "source_filename_format i m b = Some (b @ align i (item_text env (Source_filename_formatter i) m t))"
    and "source_linenum_format i m b = Some (b @ align i (item_text env (Source_linenum_formatter i) m t))"
    and "source_funcname_format i m b = Some (b @ align i (item_text env (Source_funcname_formatter i) m t))"
proof -
  have "source_loc_format i m b = Some (b @ align i (item_text env (Source_loc_formatter i) m t)) \<and>
    source_filename_format i m b = Some (b @ align i (item_text env (Source_filename_formatter i) m t)) \<and>
    source_linenum_format i m b = Some (b @ align i (item_text env (Source_linenum_formatter i) m t)) \<and>
    source_funcname_format i m b = Some (b @ align i (item_text env (Source_funcname_formatter i) m t))"
  proof (cases "loc_empty (loc m)")
    case True
    with assms(2) show ?thesis
      by (simp add: source_loc_format_def source_filename_format_def source_linenum_format_def
          source_funcname_format_def empty_scope)
  next
    case False
    then obtain fn fu where f: "filename (loc m) = Some fn" "funcname (loc m) = Some fu"
      "length fn < 2 ^ 30" "length fu < 2 ^ 30" and l: "line (loc m) < 2 ^ 31" "0 < line (loc m)"
      using assms(1) by (auto simp: valid_msg_def loc_empty_def)
    have T: "in_type Int32 (line (loc m))" using l by simp
    have c: "unat (count_unsigned_digits Int32 (line (loc m))) = length (dec (nat (line (loc m))))"
      using count_unsigned_digits_eq [OF T] l by simp
    have d20: "length (dec (nat (line (loc m)))) \<le> 20"
      using l by (intro length_dec_less_20) (simp add: nat_less_iff)
    have sum: "unat (strlen fn + count_unsigned_digits Int32 (line (loc m)) + 1)
        = length fn + length (dec (nat (line (loc m)))) + 1"
      using f(3) d20 c by (simp add: unat_word_ariths)
    have "filler_scope (strlen fn + count_unsigned_digits Int32 (line (loc m)) + 1) i
        (\<lambda>b. append_int (line (loc m)) (push_char CHR '':'' (append_string_view fn b))) b
      = Some (b @ align i (fn @ '':'' @ dec (nat (line (loc m)))))"
      by (rule filler_scope_align)
        (use f d20 l T assms(2) sum in \<open>simp_all add: append_int_eq push_char_def
          append_string_view_def dec_int_def del: in_type.simps\<close>)
    moreover have "fill_msg_signed (line (loc m)) = append_int (line (loc m))"
      by (rule ext) (simp add: fill_msg_signed_def)
    then have "filler_scope (count_unsigned_digits Int32 (line (loc m))) i
        (fill_msg_signed (line (loc m))) b = Some (b @ align i (dec (nat (line (loc m)))))"
      using signed_scope [OF T _ c assms(2)] l by simp
    ultimately show ?thesis
      using False f assms(2)
      by (simp add: source_loc_format_def source_filename_format_def source_linenum_format_def
          source_funcname_format_def str_scope)
  qed
  then show "source_loc_format i m b = Some (b @ align i (item_text env (Source_loc_formatter i) m t))"
    and "source_filename_format i m b = Some (b @ align i (item_text env (Source_filename_formatter i) m t))"
    and "source_linenum_format i m b = Some (b @ align i (item_text env (Source_linenum_formatter i) m t))"
    and "source_funcname_format i m b = Some (b @ align i (item_text env (Source_funcname_formatter i) m t))"
    by blast+
qed

lemma level_name_of_length_le: "length (level_name_of l) \<le> 8"
  by (cases l) (simp_all add: level_name_of_def level_name_def)

text \<open>
  A formatter in its invariant writes its text, aligned, behind what the buffer holds; it
  returns its next state and the message with the colour range it marked. The one exception is
  \<open>%c\<close> in September, whose text is longer than the 24 characters the code counts.
\<close>

lemma flag_format_eq:
  assumes "formatter_ok env f" and "valid_call env m t"
    and "\<And>i. f = C_formatter i \<Longrightarrow> tm_mon t \<noteq> 8"
  shows "flag_format env f m t b =
     Some (item_next f m t, item_colour f m t b, b @ align (item_info f) (item_text env f m t))"
proof -
  have m: "valid_msg m" and t: "valid_tm t" and lt: "t = local_tm env (duration_cast seconds (time m))"
    and pid: "0 \<le> env_pid env" "env_pid env < 2 ^ 32"
    using assms(2) by (auto simp: valid_call_def)
  have len: "length (logger_name m) < 2 ^ 31" "length (msg m) < 2 ^ 31"
    "length (level_name_of (level m)) < 2 ^ 31"
    using m by (auto simp: valid_msg_def level_name_of_length_le [THEN le_less_trans])
  show ?thesis
  proof (cases f)
    case (Full_formatter i s d)
    then show ?thesis
      using full_format_eq [OF m t lt, of d s b] assms(1) by simp
  qed (use assms(1,3) m t pid len in \<open>simp_all add: name_format_def level_format_def v_format_def
      a_format_def b_format_def Let_def str_scope weekday_name_props month_name_props c_format_eq
      y_format_eq T_format_eq unsigned_fields fraction_fields
      loc_fields [where env = env and t = t] duration_format_eq p_format_eq t_format_eq
      color_start_format_def color_end_format_def aggregate_format_def append_string_view_def
      char_format_def push_char_def\<close>)
qed

text \<open>The length a formatter announces to its filler: that of its text, but 24 for \<open>%c\<close>.\<close>

definition announced :: "'c flag_formatter \<Rightarrow> string \<Rightarrow> nat" where
  "announced f s = (case f of C_formatter i \<Rightarrow> 24 | _ \<Rightarrow> length s)"

lemma flag_format_announced:
  assumes "formatter_ok env f" and "valid_call env m t"
  shows "flag_format env f m t b =
     Some (item_next f m t, item_colour f m t b,
       b @ align_for (announced f (item_text env f m t)) (item_info f) (item_text env f m t))"
proof (cases "\<exists>i. f = C_formatter i")
  case True
  then show ?thesis
    using assms c_format_announced by (auto simp: announced_def valid_call_def)
next
  case False
  then have "announced f s = length s" for s by (cases f) (auto simp: announced_def)
  then show ?thesis using flag_format_eq [OF assms, of b] False by (simp add: align_for_length)
qed

lemma item_next_ok:
  "formatter_ok env f \<Longrightarrow> valid_call env m t \<Longrightarrow> formatter_ok env (item_next f m t)"
  by (cases f) (auto simp: valid_call_def valid_msg_def)

section \<open>A formatter over a sequence of messages\<close>

text \<open>
  The calls one formatter object receives: messages with their broken-down times, each into a
  buffer of its own. \<open>None\<close> as soon as one call fails.
\<close>

fun flag_format_all ::
  "'c formatting_env \<Rightarrow> 'c flag_formatter \<Rightarrow> (log_msg \<times> tm) list \<Rightarrow> fmt_buf list option" where
  "flag_format_all env f [] = Some []"
| "flag_format_all env f ((m, t) # ms) =
     do { (f', m', b) \<leftarrow> flag_format env f m t [];
          bs \<leftarrow> flag_format_all env f' ms;
          Some (b # bs) }"

lemma full_formatter_all:
  assumes "formatter_ok env (Full_formatter i s d)" and "\<forall>(m, t) \<in> set ms. valid_call env m t"
  shows "flag_format_all env (Full_formatter i s d) ms = Some (map (\<lambda>(m, t). full_text t m) ms)"
  using assms
proof (induction ms arbitrary: s d)
  case (Cons mt ms)
  obtain m t where mt: "mt = (m, t)" by (cases mt)
  have v: "valid_call env m t" using Cons.prems(2) mt by simp
  note step = flag_format_eq [OF Cons.prems(1) v, of "[]"]
  have "formatter_ok env (item_next (Full_formatter i s d) m t)"
    using item_next_ok [OF Cons.prems(1) v] .
  then have "flag_format_all env (item_next (Full_formatter i s d) m t) ms
      = Some (map (\<lambda>(m, t). full_text t m) ms)"
    using Cons.IH Cons.prems(2) by simp
  then show ?case using step mt by simp
qed simp

section \<open>Properties\<close>

text \<open>
  C17: every built-in formatter, in a state its invariant allows, appends the text its format
  character stands for, without reading out of bounds; it returns the next
  state its invariant allows and the message with the colour range marked at the right offsets. The text is aligned to the
  spaces information of the formatter as a text of the length it announces. That is the text's own length, which makes the
  field exactly as wide as asked for (\<open>align_for_length\<close>), but for \<open>%c\<close>: it announces 24, and its text has 25 characters
  in September, when the month of \<open>%b\<close> and \<open>%c\<close> is the table's \<open>Sept\<close>. \<open>%+\<close>, the colour marks and literal characters
  apply no alignment, whatever width the pattern gives (\<open>item_info\<close>).
\<close>

theorem formatter_writes:
  assumes "formatter_ok env f" and "valid_call env m t"
  shows "flag_format env f m t b =
           Some (item_next f m t, item_colour f m t b,
             b @ align_for (announced f (item_text env f m t)) (item_info f) (item_text env f m t)) \<and>
         formatter_ok env (item_next f m t)"
  using flag_format_announced [OF assms, of b] item_next_ok [OF assms] by simp

definition sample_tm :: tm where
  "sample_tm = \<lparr>tm_year = 124, tm_mon = 0, tm_mday = 5, tm_hour = 9, tm_min = 8, tm_sec = 7, tm_wday = 5\<rparr>"

definition sample_env :: "unit formatting_env" where
  "sample_env = \<lparr>env_pid = 42, local_tm = (\<lambda>_. sample_tm),
     custom_format = (\<lambda>c i m t b. Some (c, m, b)), custom_clone = id\<rparr>"

definition sample_msg :: log_msg where
  "sample_msg = \<lparr>logger_name = ''net'', msg = ''up'', level = Warn, loc = source_loc_default,
     time = 1704445687012345678, tid = 7, color_index_start = 0, color_index_end = 0\<rparr>"

lemma sample_valid: "valid_call sample_env sample_msg sample_tm"
  by (simp add: valid_call_def valid_msg_def valid_tm_def sample_msg_def sample_tm_def sample_env_def
      source_loc_default_def loc_empty_def)

lemma pad_dec_digit: "n < 10 \<Longrightarrow> pad_dec 2 n = [CHR ''0'', digit_char n]"
  by (simp add: pad_dec_def dec.simps [of n])

lemma sample_clock: "clock_text sample_tm = ''09:08:07''"
  by (simp add: clock_text_def sample_tm_def pad_dec_digit digit_char_def char_of_eq_iff)

theorem formatter_writes_witness:
  "map_option (\<lambda>(f, m, b). b) (flag_format sample_env
     (T_formatter \<lparr>target_len = 10, side = Right_side, truncated = False, enabled = True\<rparr>)
     sample_msg sample_tm ''<'') = Some ''<09:08:07  ''"
  using formatter_writes [OF _ sample_valid, of
      "T_formatter \<lparr>target_len = 10, side = Right_side, truncated = False, enabled = True\<rparr>" "''<''"]
  by (simp add: sample_clock announced_def align_for_def spaces_ok_def MAX_SPACES_LEN_def Let_def)

text \<open>
  The date cache of the full formatter never shows: over any sequence of messages, in any
  order of their times, the formatter writes for each the text it would write without a cache.
\<close>

theorem full_cache_transparent:
  assumes "\<forall>(m, t) \<in> set ms. valid_call env m t"
  shows "flag_format_all env (Full_formatter info 0 []) ms = Some (map (\<lambda>(m, t). full_text t m) ms)"
  using full_formatter_all [of env info 0 "[]" ms] assms by simp

theorem full_cache_transparent_witness:
  "map_option length (flag_format_all sample_env (Full_formatter spaces_info_default 0 [])
     [(sample_msg, sample_tm), (sample_msg, sample_tm)]) = Some 2"
  using full_cache_transparent [of "[(sample_msg, sample_tm), (sample_msg, sample_tm)]" sample_env
      spaces_info_default] sample_valid
  by simp

text \<open>
  In September the \<open>%c\<close> text has 25 characters while the formatter announces 24 to the
  filler: a field that should be right-aligned in a wider column comes out one character too
  wide.
\<close>

theorem september_misaligned:
  assumes "valid_tm t" and "tm_mon t = 8" and "enabled info" and "side info = Left_side"
    and "24 \<le> unat (target_len info)" and "unat (target_len info) \<le> MAX_SPACES_LEN"
  shows "c_format info t b = Some (b @ spaces (unat (target_len info) - 24) @ date_text t) \<and>
         length (spaces (unat (target_len info) - 24) @ date_text t) = Suc (unat (target_len info))"
  using c_format_announced [OF assms(1), of info b] assms length_date_text [OF assms(1)]
  by (simp add: spaces_ok_def align_for_def Let_def)

theorem september_misaligned_witness:
  "map_option length (c_format
     \<lparr>target_len = 30, side = Left_side, truncated = True, enabled = True\<rparr>
     (sample_tm\<lparr>tm_mon := 8\<rparr>) []) = Some 31"
proof -
  have "valid_tm (sample_tm\<lparr>tm_mon := 8\<rparr>)" by (simp add: sample_tm_def valid_tm_def)
  then show ?thesis
    using september_misaligned [of "sample_tm\<lparr>tm_mon := 8\<rparr>"
        "\<lparr>target_len = 30, side = Left_side, truncated = True, enabled = True\<rparr>" "[]"]
    by (auto simp: MAX_SPACES_LEN_def)
qed

end
