(* ===== verification/Pattern_Formatter.thy ===== *)
theory Pattern_Formatter
  imports Flag_Formatters
begin

text \<open>
  \<^verbatim>\<open>sinks/formatters/pattern_formatter.h\<close> and \<^verbatim>\<open>pattern_formatter.cpp\<close>: the parser of format
  patterns and the formatter that runs the parsed queue of flag formatters. An iterator into the
  pattern is the rest of the string it points to. The loop of \<open>analyse_pattern_\<close> increments its
  iterator once more when the pattern ends inside a \<open>%\<close> item; that step leaves the string, and
  is \<open>None\<close> here.
\<close>

section \<open>State\<close>

record 'c pattern_formatter =
  pattern :: string
  eol :: string
  formatters :: "'c flag_formatter list"
  custom_flags :: "char \<Rightarrow> 'c option"

section \<open>The parser\<close>

definition is_digit :: "char \<Rightarrow> bool" where
  "is_digit c \<longleftrightarrow> 48 \<le> (of_char c :: nat) \<and> of_char c \<le> (57 :: nat)"

definition char_size :: "char \<Rightarrow> size_t" where
  "char_size c = of_nat (of_char c)"

fun fill_len_loop :: "size_t \<Rightarrow> string \<Rightarrow> size_t \<times> string" where
  "fill_len_loop fill_len [] = (fill_len, [])"
| "fill_len_loop fill_len (c # it) =
     (if is_digit c then fill_len_loop (fill_len * 10 + char_size c - char_size (CHR ''0'')) it
      else (fill_len, c # it))"

text \<open>The alignment character, and what follows it: the width and the truncation mark.\<close>

fun parse_side :: "string \<Rightarrow> fill_side \<times> string" where
  "parse_side [] = (Left_side, [])"
| "parse_side (c # it) =
     (if c = CHR ''-'' then (Right_side, it)
      else if c = CHR ''='' then (Center_side, it)
      else (Left_side, c # it))"

fun parse_trunc :: "size_t \<Rightarrow> fill_side \<Rightarrow> string \<Rightarrow> spaces_info \<times> string" where
  "parse_trunc len sd [] = (mk_spaces_info len sd False, [])"
| "parse_trunc len sd (c # it) =
     (if c \<noteq> CHR ''!'' then (mk_spaces_info len sd False, c # it)
      else (mk_spaces_info len sd True, it))"

fun parse_width :: "fill_side \<Rightarrow> string \<Rightarrow> spaces_info \<times> string" where
  "parse_width sd [] = (spaces_info_default, [])"
| "parse_width sd (d # it) =
     (if \<not> is_digit d then (spaces_info_default, d # it)
      else let (fill_len, it) = fill_len_loop (char_size d - char_size (CHR ''0'')) it
           in parse_trunc (min fill_len (of_nat MAX_SPACES_LEN)) sd it)"

definition analyse_spaces_info :: "string \<Rightarrow> spaces_info \<times> string" where
  "analyse_spaces_info it =
     (if it = [] then (spaces_info_default, [])
      else let (sd, it) = parse_side it in parse_width sd it)"

text \<open>
  \<open>append_flag_formatter_\<close>: the formatter that is pushed for a format character. \<open>now\<close> is the
  clock when a duration formatter is constructed.
\<close>

definition append_flag_formatter ::
  "'c formatting_env \<Rightarrow> (char \<Rightarrow> 'c option) \<Rightarrow> int \<Rightarrow> char \<Rightarrow> spaces_info \<Rightarrow> 'c flag_formatter" where
  "append_flag_formatter env flags now flag sp_info =
     (case flags flag of
        Some c \<Rightarrow> Custom_formatter (custom_clone env c) sp_info
      | None \<Rightarrow>
        if flag = CHR ''+'' then Full_formatter sp_info 0 []
        else if flag = CHR ''n'' then Name_formatter sp_info
        else if flag = CHR ''l'' then Level_formatter sp_info
        else if flag = CHR ''a'' then A_formatter sp_info
        else if flag = CHR ''b'' then B_formatter sp_info
        else if flag = CHR ''c'' then C_formatter sp_info
        else if flag = CHR ''y'' then Y_formatter sp_info
        else if flag = CHR ''m'' then Month_formatter sp_info
        else if flag = CHR ''d'' then D_formatter sp_info
        else if flag = CHR ''H'' then Hour_formatter sp_info
        else if flag = CHR ''M'' then Minute_formatter sp_info
        else if flag = CHR ''S'' then Second_formatter sp_info
        else if flag = CHR ''E'' then E_formatter sp_info
        else if flag = CHR ''F'' then F_formatter sp_info
        else if flag = CHR ''G'' then G_formatter sp_info
        else if flag = CHR ''T'' then T_formatter sp_info
        else if flag = CHR ''W'' then Duration_formatter nanoseconds sp_info now
        else if flag = CHR ''X'' then Duration_formatter microseconds sp_info now
        else if flag = CHR ''Y'' then Duration_formatter milliseconds sp_info now
        else if flag = CHR ''Z'' then Duration_formatter seconds sp_info now
        else if flag = CHR ''p'' then P_formatter sp_info
        else if flag = CHR ''t'' then Tid_formatter sp_info
        else if flag = CHR ''v'' then V_formatter sp_info
        else if flag = CHR ''^'' then Color_start_formatter sp_info
        else if flag = CHR ''$'' then Color_end_formatter sp_info
        else if flag = CHR ''@'' then Source_loc_formatter sp_info
        else if flag = CHR ''A'' then Source_filename_formatter sp_info
        else if flag = CHR ''B'' then Source_linenum_formatter sp_info
        else if flag = CHR ''C'' then Source_funcname_formatter sp_info
        else if flag = CHR ''%'' then Char_formatter (CHR ''%'')
        else Aggregate_formatter (aggregate_add_ch flag (aggregate_add_ch (CHR ''%'') [])))"

text \<open>
  \<open>flush_as_is\<close> commits the literal text collected so far; \<open>now i\<close> is the clock when the \<open>i\<close>-th
  formatter is built.
\<close>

definition flush_as_is :: "string option \<Rightarrow> 'c flag_formatter list \<Rightarrow> 'c flag_formatter list" where
  "flush_as_is as_is fs =
     (case as_is of None \<Rightarrow> fs | Some str \<Rightarrow> fs @ [Aggregate_formatter str])"

lemma length_fill_len_loop: "length (snd (fill_len_loop n s)) \<le> length s"
  by (induction n s rule: fill_len_loop.induct) auto

lemma length_parse_side: "length (snd (parse_side s)) \<le> length s"
  by (cases s) auto

lemma length_parse_trunc: "length (snd (parse_trunc n sd s)) \<le> length s"
  by (cases s) auto

lemma length_parse_width: "length (snd (parse_width sd s)) \<le> length s"
proof (cases s)
  case (Cons d r)
  show ?thesis
  proof (cases "fill_len_loop (char_size d - char_size (CHR ''0'')) r")
    case (Pair n r')
    then have "length r' \<le> length r"
      using length_fill_len_loop [of "char_size d - char_size (CHR ''0'')" r] by simp
    then show ?thesis
      using Cons Pair length_parse_trunc [of "min n (of_nat MAX_SPACES_LEN)" sd r'] by simp
  qed
qed simp

lemma length_analyse_spaces_info: "length (snd (analyse_spaces_info s)) \<le> length s"
proof (cases "parse_side s")
  case (Pair sd r)
  then show ?thesis
    using length_parse_side [of s] length_parse_width [of sd r]
    by (simp add: analyse_spaces_info_def)
qed

lemma analyse_spaces_info_shorter:
  "analyse_spaces_info s = (i, c # r) \<Longrightarrow> length r < length s"
  using length_analyse_spaces_info [of s] by simp

function analyse_pattern_loop ::
  "'c formatting_env \<Rightarrow> (char \<Rightarrow> 'c option) \<Rightarrow> (nat \<Rightarrow> int) \<Rightarrow> string option \<Rightarrow> string \<Rightarrow>
     'c flag_formatter list \<Rightarrow> 'c flag_formatter list option" where
  "analyse_pattern_loop env flags now as_is [] fs = Some (flush_as_is as_is fs)"
| "analyse_pattern_loop env flags now as_is (c # it) fs =
     (if c = CHR ''%'' then
        let fs = flush_as_is as_is fs
        in case analyse_spaces_info it of
             (sp_info, []) \<Rightarrow> None
           | (sp_info, flag # it) \<Rightarrow>
               analyse_pattern_loop env flags now None it
                 (fs @ [append_flag_formatter env flags (now (length fs)) flag sp_info])
      else
        analyse_pattern_loop env flags now
          (Some (aggregate_add_ch c (case as_is of None \<Rightarrow> [] | Some str \<Rightarrow> str))) it fs)"
  by pat_completeness auto
termination
  by (relation "measure (\<lambda>(_, _, _, _, s, _). length s)")
    (auto dest: analyse_spaces_info_shorter [OF sym] less_trans [OF _ lessI])

definition analyse_pattern ::
  "'c formatting_env \<Rightarrow> (char \<Rightarrow> 'c option) \<Rightarrow> (nat \<Rightarrow> int) \<Rightarrow> string \<Rightarrow> 'c flag_formatter list option" where
  "analyse_pattern env flags now pat = analyse_pattern_loop env flags now None pat []"

section \<open>The formatter\<close>

definition pf_new ::
  "'c formatting_env \<Rightarrow> (nat \<Rightarrow> int) \<Rightarrow> string \<Rightarrow> string \<Rightarrow> (char \<Rightarrow> 'c option) \<Rightarrow>
     'c pattern_formatter option" where
  "pf_new env now pat e flags =
     do { fs \<leftarrow> analyse_pattern env flags now pat;
          Some \<lparr>pattern = pat, eol = e, formatters = fs, custom_flags = flags\<rparr> }"

definition pf_default :: "'c pattern_formatter" where
  "pf_default = \<lparr>pattern = ''%+'', eol = DEFAULT_EOL,
     formatters = [Full_formatter spaces_info_default 0 []], custom_flags = Map.empty\<rparr>"

text \<open>The loop of \<open>format\<close> over the queue of formatters.\<close>

fun run_formatters ::
  "'c formatting_env \<Rightarrow> 'c flag_formatter list \<Rightarrow> log_msg \<Rightarrow> tm \<Rightarrow> fmt_buf \<Rightarrow>
     ('c flag_formatter list \<times> log_msg \<times> fmt_buf) option" where
  "run_formatters env [] m t b = Some ([], m, b)"
| "run_formatters env (f # fs) m t b =
     do { (f, m, b) \<leftarrow> flag_format env f m t b;
          (fs, m, b) \<leftarrow> run_formatters env fs m t b;
          Some (f # fs, m, b) }"

definition time_point_to_tm :: "'c formatting_env \<Rightarrow> int \<Rightarrow> tm" where
  "time_point_to_tm env tp = local_tm env (duration_cast seconds tp)"

definition pf_format ::
  "'c formatting_env \<Rightarrow> 'c pattern_formatter \<Rightarrow> log_msg \<Rightarrow> fmt_buf \<Rightarrow>
     ('c pattern_formatter \<times> log_msg \<times> fmt_buf) option" where
  "pf_format env pf m dest_buf =
     (let msg_tm = time_point_to_tm env (time m)
      in do { (fs, m, b) \<leftarrow> run_formatters env (formatters pf) m msg_tm dest_buf;
              Some (pf\<lparr>formatters := fs\<rparr>, m, append_string_view (eol pf) b) })"

definition pf_clone ::
  "'c formatting_env \<Rightarrow> (nat \<Rightarrow> int) \<Rightarrow> 'c pattern_formatter \<Rightarrow> 'c pattern_formatter option" where
  "pf_clone env now pf =
     (let custom_flags_clone = (\<lambda>k. map_option (custom_clone env) (custom_flags pf k))
      in pf_new env now (pattern pf) (eol pf) custom_flags_clone)"

definition pf_set_pattern ::
  "'c formatting_env \<Rightarrow> (nat \<Rightarrow> int) \<Rightarrow> string \<Rightarrow> 'c pattern_formatter \<Rightarrow> 'c pattern_formatter option" where
  "pf_set_pattern env now pat pf =
     do { fs \<leftarrow> analyse_pattern env (custom_flags pf) now pat;
          Some (pf\<lparr>pattern := pat, formatters := fs\<rparr>) }"

definition pf_add_custom_flag :: "char \<Rightarrow> 'c \<Rightarrow> 'c pattern_formatter \<Rightarrow> 'c pattern_formatter" where
  "pf_add_custom_flag flag c pf = pf\<lparr>custom_flags := (custom_flags pf)(flag \<mapsto> c)\<rparr>"

section \<open>The grammar of patterns\<close>

text \<open>
  A pattern is a sequence of literal texts and format items; an item has an alignment, the
  digits of a width, a truncation mark and its format character. \<open>valid_spec\<close> says when the
  items can be told apart: what follows must not read as part of the item.
\<close>

datatype pattern_item = Text string | Flag fill_side string bool char

fun side_text :: "fill_side \<Rightarrow> string" where
  "side_text Left_side = []"
| "side_text Right_side = ''-''"
| "side_text Center_side = ''=''"

definition spec_text :: "fill_side \<Rightarrow> string \<Rightarrow> bool \<Rightarrow> string" where
  "spec_text sd ds tr = side_text sd @ ds @ (if tr then ''!'' else [])"

fun render_item :: "pattern_item \<Rightarrow> string" where
  "render_item (Text s) = s"
| "render_item (Flag sd ds tr c) = CHR ''%'' # spec_text sd ds tr @ [c]"

definition render_pattern :: "pattern_item list \<Rightarrow> string" where
  "render_pattern items = concat (map render_item items)"

definition spec_info :: "fill_side \<Rightarrow> string \<Rightarrow> bool \<Rightarrow> spaces_info" where
  "spec_info sd ds tr =
     (if ds = [] then spaces_info_default
      else mk_spaces_info (min (of_nat (dec_value ds)) (of_nat MAX_SPACES_LEN)) sd tr)"

definition spec_digits :: "string \<Rightarrow> bool \<Rightarrow> bool" where
  "spec_digits ds tr \<longleftrightarrow> list_all is_digit ds \<and> (ds = [] \<longrightarrow> \<not> tr)"

definition valid_spec :: "fill_side \<Rightarrow> string \<Rightarrow> bool \<Rightarrow> char \<Rightarrow> bool" where
  "valid_spec sd ds tr c \<longleftrightarrow>
     spec_digits ds tr \<and>
     (if ds = [] then \<not> is_digit c \<and> (sd = Left_side \<longrightarrow> c \<noteq> CHR ''-'' \<and> c \<noteq> CHR ''='')
      else \<not> tr \<longrightarrow> \<not> is_digit c \<and> c \<noteq> CHR ''!'')"

fun valid_items :: "pattern_item list \<Rightarrow> bool" where
  "valid_items [] \<longleftrightarrow> True"
| "valid_items (Text s # items) \<longleftrightarrow>
     s \<noteq> [] \<and> CHR ''%'' \<notin> set s \<and> (case items of Text _ # _ \<Rightarrow> False | _ \<Rightarrow> True) \<and> valid_items items"
| "valid_items (Flag sd ds tr c # items) \<longleftrightarrow> valid_spec sd ds tr c \<and> valid_items items"

fun item_formatter ::
  "'c formatting_env \<Rightarrow> (char \<Rightarrow> 'c option) \<Rightarrow> int \<Rightarrow> pattern_item \<Rightarrow> 'c flag_formatter" where
  "item_formatter env flags now (Text s) = Aggregate_formatter s"
| "item_formatter env flags now (Flag sd ds tr c) =
     append_flag_formatter env flags now c (spec_info sd ds tr)"

definition item_formatters ::
  "'c formatting_env \<Rightarrow> (char \<Rightarrow> 'c option) \<Rightarrow> (nat \<Rightarrow> int) \<Rightarrow> nat \<Rightarrow> pattern_item list \<Rightarrow>
     'c flag_formatter list" where
  "item_formatters env flags now k items =
     map (\<lambda>(i, item). item_formatter env flags (now i) item) (enumerate k items)"

text \<open>A tail of a pattern that starts an item and does not finish it.\<close>

definition unfinished :: "string \<Rightarrow> bool" where
  "unfinished u \<longleftrightarrow> (\<exists>sd ds tr. u = CHR ''%'' # spec_text sd ds tr \<and> spec_digits ds tr)"

subsection \<open>Parsing one item\<close>

lemma is_digit_marks [simp]:
  "\<not> is_digit (CHR ''!'')" "\<not> is_digit (CHR ''-'')" "\<not> is_digit (CHR ''='')" "\<not> is_digit (CHR ''%'')"
  by (simp_all add: is_digit_def)

lemma char_size_digit: "is_digit c \<Longrightarrow> char_size c - char_size (CHR ''0'') = of_nat (of_char c - 48)"
  by (simp add: char_size_def is_digit_def)

lemma fill_len_loop_eq:
  assumes "list_all is_digit ds" and "r = [] \<or> \<not> is_digit (hd r)"
  shows "fill_len_loop (of_nat n) (ds @ r) =
           (of_nat (foldl (\<lambda>n c. n * 10 + (of_char c - 48)) n ds), r)"
  using assms(1)
proof (induction ds arbitrary: n)
  case Nil
  then show ?case using assms(2) by (cases r) auto
next
  case (Cons d ds)
  have "of_nat n * 10 + char_size d - char_size (CHR ''0'') = of_nat (n * 10 + (of_char d - 48))"
    using Cons.prems by (simp add: char_size_digit [symmetric] algebra_simps)
  then show ?case
    using Cons.IH [of "n * 10 + (of_char d - 48)"] Cons.prems by (simp del: of_nat_add of_nat_mult)
qed

lemma parse_width_eq:
  assumes "spec_digits ds tr" and "ds \<noteq> []" and "tr \<or> r = [] \<or> \<not> is_digit (hd r) \<and> hd r \<noteq> CHR ''!''"
  shows "parse_width sd (ds @ (if tr then ''!'' else []) @ r) = (spec_info sd ds tr, r)"
proof -
  obtain d ds' where ds: "ds = d # ds'" using assms(2) by (cases ds) auto
  have d: "is_digit d" and ds': "list_all is_digit ds'"
    using assms(1) ds by (auto simp: spec_digits_def)
  have v: "foldl (\<lambda>n c. n * 10 + (of_char c - 48)) (of_char d - 48) ds' = dec_value ds"
    by (simp add: dec_value_def ds)
  let ?r = "(if tr then ''!'' else []) @ r"
  have "?r = [] \<or> \<not> is_digit (hd ?r)" using assms(3) by auto
  from fill_len_loop_eq [OF ds' this, of "of_char d - 48"]
  have loop: "fill_len_loop (char_size d - char_size (CHR ''0'')) (ds' @ ?r) = (of_nat (dec_value ds), ?r)"
    using d by (simp add: char_size_digit v)
  have "parse_trunc n sd ?r = (mk_spaces_info n sd tr, r)" for n
    using assms(3) by (cases r) auto
  then show ?thesis using d loop by (simp add: ds spec_info_def)
qed

lemma analyse_spaces_info_spec:
  assumes "valid_spec sd ds tr c"
  shows "analyse_spaces_info (spec_text sd ds tr @ c # r) = (spec_info sd ds tr, c # r)"
proof (cases "ds = []")
  case True
  with assms show ?thesis
    by (cases sd) (auto simp: analyse_spaces_info_def spec_text_def spec_info_def valid_spec_def
        spec_digits_def)
next
  case False
  then obtain d ds' where ds: "ds = d # ds'" by (cases ds) auto
  then have "d \<noteq> CHR ''-''" and "d \<noteq> CHR ''=''"
    using assms by (auto simp: valid_spec_def spec_digits_def)
  then have "parse_side (spec_text sd ds tr @ c # r) = (sd, ds @ (if tr then ''!'' else []) @ c # r)"
    by (cases sd) (simp_all add: spec_text_def ds)
  moreover have "parse_width sd (ds @ (if tr then ''!'' else []) @ c # r) = (spec_info sd ds tr, c # r)"
    using assms False by (intro parse_width_eq) (auto simp: valid_spec_def)
  ultimately show ?thesis by (simp add: analyse_spaces_info_def)
qed

lemma analyse_spaces_info_unfinished:
  assumes "spec_digits ds tr"
  shows "snd (analyse_spaces_info (spec_text sd ds tr)) = []"
proof (cases "ds = []")
  case True
  with assms show ?thesis
    by (cases sd) (auto simp: analyse_spaces_info_def spec_text_def spec_digits_def)
next
  case False
  then obtain d ds' where ds: "ds = d # ds'" by (cases ds) auto
  then have "d \<noteq> CHR ''-''" and "d \<noteq> CHR ''=''"
    using assms by (auto simp: spec_digits_def)
  then have "parse_side (spec_text sd ds tr) = (sd, ds @ (if tr then ''!'' else []) @ [])"
    by (cases sd) (simp_all add: spec_text_def ds)
  then show ?thesis
    using parse_width_eq [OF assms False, of "[]" sd] by (simp add: analyse_spaces_info_def)
qed

text \<open>What the parser consumed is an item, or the beginning of one.\<close>

lemma span_digits:
  obtains ds r where "s = ds @ r" and "list_all is_digit ds" and "r = [] \<or> \<not> is_digit (hd r)"
proof
  show "s = takeWhile is_digit s @ dropWhile is_digit s" by simp
  show "list_all is_digit (takeWhile is_digit s)" by (auto simp: list_all_iff dest: set_takeWhileD)
  show "dropWhile is_digit s = [] \<or> \<not> is_digit (hd (dropWhile is_digit s))"
    using hd_dropWhile by blast
qed

lemma item_decompose:
  obtains (finished) sd ds tr c r where "s = spec_text sd ds tr @ c # r" and "valid_spec sd ds tr c"
  | (unfinished) sd ds tr where "s = spec_text sd ds tr" and "spec_digits ds tr"
proof -
  obtain sd s' where s: "s = side_text sd @ s'"
    and left: "sd = Left_side \<longrightarrow> s' = [] \<or> hd s' \<noteq> CHR ''-'' \<and> hd s' \<noteq> CHR ''=''"
  proof -
    consider "s = []" | r where "s = CHR ''-'' # r" | r where "s = CHR ''='' # r"
      | "s \<noteq> []" "hd s \<noteq> CHR ''-''" "hd s \<noteq> CHR ''=''"
      by (cases s) auto
    then show ?thesis
      using that [of Left_side s] that [of Right_side] that [of Center_side] by cases auto
  qed
  obtain ds r where s': "s' = ds @ r" and ds: "list_all is_digit ds" and r: "r = [] \<or> \<not> is_digit (hd r)"
    by (rule span_digits)
  consider (nil) "r = []" | (empty) c r' where "r = c # r'" "ds = []"
    | (mark) r' where "r = CHR ''!'' # r'" "ds \<noteq> []" | (flag) c r' where "r = c # r'" "ds \<noteq> []" "c \<noteq> CHR ''!''"
    by (cases r) auto
  then show ?thesis
  proof cases
    case nil
    then show ?thesis using unfinished [of sd ds False] s s' ds by (simp add: spec_text_def spec_digits_def)
  next
    case (empty c r')
    then show ?thesis
      using finished [of sd "[]" False c r'] s s' r left
      by (auto simp: spec_text_def spec_digits_def valid_spec_def)
  next
    case (mark r')
    show ?thesis
    proof (cases r')
      case Nil
      then show ?thesis using unfinished [of sd ds True] s s' ds mark by (simp add: spec_text_def spec_digits_def)
    next
      case (Cons c r'')
      then show ?thesis
        using finished [of sd ds True c r''] s s' ds mark
        by (simp add: spec_text_def spec_digits_def valid_spec_def)
    qed
  next
    case (flag c r')
    then show ?thesis
      using finished [of sd ds False c r'] s s' ds r
      by (simp add: spec_text_def spec_digits_def valid_spec_def)
  qed
qed

subsection \<open>Parsing a pattern\<close>

definition as_is_text :: "string option \<Rightarrow> string" where
  "as_is_text as_is = (case as_is of None \<Rightarrow> [] | Some str \<Rightarrow> str)"

lemma text_run:
  assumes "CHR ''%'' \<notin> set s" and "s \<noteq> []"
  shows "analyse_pattern_loop env flags now a (s @ r) fs =
         analyse_pattern_loop env flags now (Some (as_is_text a @ s)) r fs"
  using assms
proof (induction s arbitrary: a)
  case (Cons c s)
  then show ?case
    by (cases "s = []") (auto simp: as_is_text_def aggregate_add_ch_def)
qed simp

text \<open>At the end of a literal text the loop goes on as if the text had been pushed before.\<close>

lemma text_flush:
  assumes "r = [] \<or> hd r = CHR ''%''"
  shows "analyse_pattern_loop env flags now (Some s) r fs =
         analyse_pattern_loop env flags now None r (fs @ [Aggregate_formatter s])"
  using assms by (cases r) (auto simp: flush_as_is_def)

lemma flag_step:
  assumes "valid_spec sd ds tr c"
  shows "analyse_pattern_loop env flags now None (render_item (Flag sd ds tr c) @ r) fs =
         analyse_pattern_loop env flags now None r
           (fs @ [append_flag_formatter env flags (now (length fs)) c (spec_info sd ds tr)])"
  using analyse_spaces_info_spec [OF assms, of r] by (simp add: flush_as_is_def)

lemma hd_render_rest:
  assumes "valid_items items" and "case items of Text _ # _ \<Rightarrow> False | _ \<Rightarrow> True"
    and "u = [] \<or> hd u = CHR ''%''"
  shows "render_pattern items @ u = [] \<or> hd (render_pattern items @ u) = CHR ''%''"
  using assms by (cases items rule: valid_items.cases) (auto simp: render_pattern_def)

lemma item_formatters_Cons [simp]:
  "item_formatters env flags now k (item # items) =
     item_formatter env flags (now k) item # item_formatters env flags now (Suc k) items"
  by (simp add: item_formatters_def)

lemma item_formatters_Nil [simp]: "item_formatters env flags now k [] = []"
  by (simp add: item_formatters_def)

lemma analyse_pattern_loop_items:
  assumes "valid_items items" and "u = [] \<or> unfinished u"
  shows "analyse_pattern_loop env flags now None (render_pattern items @ u) fs =
     (if u = [] then Some (fs @ item_formatters env flags now (length fs) items) else None)"
  using assms(1)
proof (induction items arbitrary: fs)
  case Nil
  show ?case
  proof (cases "u = []")
    case False
    then obtain sd ds tr where u: "u = CHR ''%'' # spec_text sd ds tr" and "spec_digits ds tr"
      using assms(2) by (auto simp: unfinished_def)
    then have "snd (analyse_spaces_info (spec_text sd ds tr)) = []"
      using analyse_spaces_info_unfinished by blast
    then show ?thesis
      using u by (cases "analyse_spaces_info (spec_text sd ds tr)") (simp add: render_pattern_def Let_def)
  qed (simp add: render_pattern_def flush_as_is_def)
next
  case (Cons item items)
  have items: "valid_items items" using Cons.prems by (cases item) auto
  show ?case
  proof (cases item)
    case (Text s)
    have "u = [] \<or> hd u = CHR ''%''" using assms(2) by (auto simp: unfinished_def)
    then have rest: "render_pattern items @ u = [] \<or> hd (render_pattern items @ u) = CHR ''%''"
      using Cons.prems Text items by (intro hd_render_rest) auto
    have s: "s \<noteq> []" "CHR ''%'' \<notin> set s" using Cons.prems Text by auto
    have "analyse_pattern_loop env flags now None (render_pattern (item # items) @ u) fs
        = analyse_pattern_loop env flags now None (render_pattern items @ u)
            (fs @ [Aggregate_formatter s])"
      using text_run [OF s(2,1), of env flags now None "render_pattern items @ u" fs]
        text_flush [OF rest, of env flags now s fs]
      by (simp add: render_pattern_def Text as_is_text_def)
    then show ?thesis using Cons.IH [OF items] Text by simp
  next
    case (Flag sd ds tr c)
    then have "valid_spec sd ds tr c" using Cons.prems by simp
    from flag_step [OF this, of env flags now "render_pattern items @ u" fs] show ?thesis
      using Cons.IH [OF items] Flag by (simp add: render_pattern_def del: render_item.simps)
  qed
qed

lemma analyse_pattern_items:
  "valid_items items \<Longrightarrow> analyse_pattern env flags now (render_pattern items) =
     Some (item_formatters env flags now 0 items)"
  using analyse_pattern_loop_items [of items "[]" env flags now "[]"] by (simp add: analyse_pattern_def)

lemma analyse_pattern_unfinished:
  "valid_items items \<Longrightarrow> unfinished u \<Longrightarrow> analyse_pattern env flags now (render_pattern items @ u) = None"
  using analyse_pattern_loop_items [of items u env flags now "[]"] by (auto simp: analyse_pattern_def unfinished_def)

text \<open>Every string is a sequence of items, possibly with an unfinished one at its end.\<close>

lemma pattern_decompose:
  "\<exists>items u. s = render_pattern items @ u \<and> valid_items items \<and> (u = [] \<or> unfinished u)"
proof (induction s rule: length_induct)
  case (1 s)
  consider (nil) "s = []" | (percent) r where "s = CHR ''%'' # r" | (literal) "s \<noteq> []" "hd s \<noteq> CHR ''%''"
    by (cases s) auto
  then show ?case
  proof cases
    case nil
    then show ?thesis by (intro exI [of _ "[]"]) (simp add: render_pattern_def)
  next
    case (percent r)
    show ?thesis
    proof (cases r rule: item_decompose)
      case (finished sd ds tr c r')
      then have "length r' < length s" using percent by (simp add: spec_text_def)
      then obtain items u where iu: "r' = render_pattern items @ u" "valid_items items" "u = [] \<or> unfinished u"
        using 1 by blast
      then show ?thesis using finished percent
        by (intro exI [of _ "Flag sd ds tr c # items"] exI [of _ u]) (simp add: render_pattern_def)
    next
      case (unfinished sd ds tr)
      then have "unfinished s" using percent by (auto simp: unfinished_def)
      then show ?thesis by (intro exI [of _ "[]"] exI [of _ s]) (simp add: render_pattern_def)
    qed
  next
    case literal
    let ?t = "takeWhile (\<lambda>c. c \<noteq> CHR ''%'') s" and ?r = "dropWhile (\<lambda>c. c \<noteq> CHR ''%'') s"
    have t: "?t \<noteq> []" using literal by (cases s) auto
    have nt: "CHR ''%'' \<notin> set ?t" by (auto dest: set_takeWhileD)
    have s: "s = ?t @ ?r" by simp
    then have "length s = length ?t + length ?r" by (metis length_append)
    then have "length ?r < length s" using t by simp
    then obtain items u where iu: "?r = render_pattern items @ u" "valid_items items" "u = [] \<or> unfinished u"
      using 1 by blast
    have r: "?r = [] \<or> hd ?r = CHR ''%''" using hd_dropWhile [of "\<lambda>c. c \<noteq> CHR ''%''" s] by auto
    have "case items of Text _ # _ \<Rightarrow> False | _ \<Rightarrow> True"
    proof (cases items)
      case (Cons item items')
      show ?thesis
      proof (cases item)
        case (Text x)
        then obtain c x' where "x = c # x'" and "c \<noteq> CHR ''%''"
          using iu(2) Cons by (cases x) auto
        then show ?thesis using iu(1) r Text Cons by (simp add: render_pattern_def)
      qed (use Cons in simp)
    qed simp
    then have "valid_items (Text ?t # items)" using t nt iu(2) by simp
    then show ?thesis
      using iu s by (intro exI [of _ "Text ?t # items"] exI [of _ u]) (simp add: render_pattern_def)
  qed
qed

section \<open>What the formatter writes\<close>

text \<open>
  Formatting only touches the colour range of the message, so no item sees what an earlier one
  did to it.
\<close>

definition same_msg :: "log_msg \<Rightarrow> log_msg \<Rightarrow> bool" where
  "same_msg m m' \<longleftrightarrow> (\<exists>a e. m' = m\<lparr>color_index_start := a, color_index_end := e\<rparr>)"

lemma same_msg_refl [simp]: "same_msg m m"
  unfolding same_msg_def by (rule exI [of _ "color_index_start m"], rule exI [of _ "color_index_end m"]) simp

lemma item_colour_same: "same_msg m (item_colour f m t b)"
proof -
  have "\<exists>a e. item_colour f m t b = m\<lparr>color_index_start := a, color_index_end := e\<rparr>"
    by (cases m; cases f) auto
  then show ?thesis by (simp add: same_msg_def)
qed

lemma same_msg_trans: "same_msg m m' \<Longrightarrow> same_msg m' m'' \<Longrightarrow> same_msg m m''"
  by (clarsimp simp: same_msg_def) (intro exI, rule refl)

lemma same_msg_fields:
  assumes "same_msg m m'"
  shows "item_text env f m' t = item_text env f m t" and "item_next f m' t = item_next f m t"
    and "valid_call env m' t = valid_call env m t" and "time m' = time m"
proof -
  obtain a e where m': "m' = m\<lparr>color_index_start := a, color_index_end := e\<rparr>"
    using assms by (auto simp: same_msg_def)
  show "item_text env f m' t = item_text env f m t"
    by (cases f) (simp_all add: m' full_text_def full_head_def full_tail_def)
  show "item_next f m' t = item_next f m t" by (cases f) (simp_all add: m')
  show "valid_call env m' t = valid_call env m t" by (simp add: m' valid_call_def valid_msg_def)
  show "time m' = time m" by (simp add: m')
qed

definition items_text :: "'c formatting_env \<Rightarrow> 'c flag_formatter list \<Rightarrow> log_msg \<Rightarrow> tm \<Rightarrow> string" where
  "items_text env fs m t = concat (map (\<lambda>f. align (item_info f) (item_text env f m t)) fs)"

text \<open>No \<open>%c\<close> is run in September.\<close>

definition no_sept :: "'c flag_formatter list \<Rightarrow> tm \<Rightarrow> bool" where
  "no_sept fs t \<longleftrightarrow> tm_mon t \<noteq> 8 \<or> (\<forall>i. C_formatter i \<notin> set fs)"

lemma run_formatters_eq:
  assumes "\<forall>f \<in> set fs. formatter_ok env f" and "valid_call env m t" and "no_sept fs t"
  shows "\<exists>m'. run_formatters env fs m t b =
           Some (map (\<lambda>f. item_next f m t) fs, m', b @ items_text env fs m t) \<and> same_msg m m'"
  using assms
proof (induction fs arbitrary: m b)
  case Nil
  then show ?case by (simp add: items_text_def)
next
  case (Cons f fs)
  let ?m = "item_colour f m t b"
  have same: "same_msg m ?m" by (rule item_colour_same)
  have step: "flag_format env f m t b =
      Some (item_next f m t, ?m, b @ align (item_info f) (item_text env f m t))"
    using Cons.prems by (intro flag_format_eq) (auto simp: no_sept_def)
  obtain m' where "run_formatters env fs ?m t (b @ align (item_info f) (item_text env f m t)) =
      Some (map (\<lambda>f. item_next f ?m t) fs, m',
        (b @ align (item_info f) (item_text env f m t)) @ items_text env fs ?m t)"
    and m': "same_msg ?m m'"
    using Cons.IH [of ?m "b @ align (item_info f) (item_text env f m t)"] Cons.prems
      same_msg_fields(3) [OF same, of env t]
    by (auto simp: no_sept_def)
  then show ?case
    using step same_msg_trans [OF same m']
    by (simp add: items_text_def same_msg_fields [OF same])
qed

text \<open>The formatters a parse makes are in their invariant; none of them is user-defined.\<close>

lemma spec_info_ok: "spaces_ok (spec_info sd ds tr)"
proof -
  have "unat (min a (64 :: size_t)) \<le> 64" for a
    by (simp add: min_def word_le_nat_alt)
  then show ?thesis
    by (simp add: spec_info_def spaces_ok_def spaces_info_default_def mk_spaces_info_def MAX_SPACES_LEN_def)
qed

lemma append_flag_formatter_ok:
  "spaces_ok i \<Longrightarrow> 0 \<le> now \<Longrightarrow> formatter_ok env (append_flag_formatter env Map.empty now c i)"
  by (simp add: append_flag_formatter_def tick_defs spaces_info_default_def spaces_ok_def)

lemma item_formatter_ok: "0 \<le> now \<Longrightarrow> formatter_ok env (item_formatter env Map.empty now item)"
  by (cases item)
    (simp_all add: append_flag_formatter_ok spec_info_ok, simp add: spaces_ok_def spaces_info_default_def)

lemma item_formatters_ok:
  assumes "\<And>k. 0 \<le> now k"
  shows "\<forall>f \<in> set (item_formatters env Map.empty now k items). formatter_ok env f"
  using assms by (induction items arbitrary: k) (simp_all add: item_formatter_ok)

definition pf_ok :: "'c formatting_env \<Rightarrow> 'c pattern_formatter \<Rightarrow> bool" where
  "pf_ok env pf \<longleftrightarrow> (\<forall>f \<in> set (formatters pf). formatter_ok env f)"

lemma pf_new_ok:
  assumes "pf_new env now pat e Map.empty = Some pf" and "\<And>k. 0 \<le> now k"
  shows "pf_ok env pf"
proof -
  obtain items u where p: "pat = render_pattern items @ u" "valid_items items" "u = [] \<or> unfinished u"
    using pattern_decompose by blast
  then have "formatters pf = item_formatters env Map.empty now 0 items"
    using assms(1) analyse_pattern_items [OF p(2), of env Map.empty now]
      analyse_pattern_unfinished [OF p(2), of u env Map.empty now]
    by (auto simp: pf_new_def split: Option.bind_splits)
  then show ?thesis using item_formatters_ok [of now env 0 items] assms(2) by (simp add: pf_ok_def)
qed

lemma pf_format_eq:
  assumes "pf_ok env pf" and "valid_call env m t" and "t = time_point_to_tm env (time m)"
    and "no_sept (formatters pf) t"
  shows "\<exists>m'. pf_format env pf m b =
      Some (pf\<lparr>formatters := map (\<lambda>f. item_next f m t) (formatters pf)\<rparr>, m',
            b @ items_text env (formatters pf) m t @ eol pf) \<and> same_msg m m'"
  using run_formatters_eq [of "formatters pf" env m t b] assms
  by (auto simp: pf_format_def pf_ok_def append_string_view_def)

lemma pf_ok_next:
  "pf_ok env pf \<Longrightarrow> valid_call env m t \<Longrightarrow>
     pf_ok env (pf\<lparr>formatters := map (\<lambda>f. item_next f m t) (formatters pf)\<rparr>)"
  by (auto simp: pf_ok_def item_next_ok)

section \<open>A formatter over a sequence of messages, and its clone\<close>

fun pf_run ::
  "'c formatting_env \<Rightarrow> 'c pattern_formatter \<Rightarrow> log_msg list \<Rightarrow>
     ('c pattern_formatter \<times> fmt_buf list) option" where
  "pf_run env pf [] = Some (pf, [])"
| "pf_run env pf (m # ms) =
     do { (pf, m', b) \<leftarrow> pf_format env pf m [];
          (pf, bs) \<leftarrow> pf_run env pf ms;
          Some (pf, b # bs) }"

fun is_duration :: "'c flag_formatter \<Rightarrow> bool" where
  "is_duration (Duration_formatter metric i l) \<longleftrightarrow> True"
| "is_duration f \<longleftrightarrow> False"

definition no_duration :: "'c pattern_formatter \<Rightarrow> bool" where
  "no_duration pf \<longleftrightarrow> (\<forall>f \<in> set (formatters pf). \<not> is_duration f)"

text \<open>A message the formatters can print: with its local time it is a valid call.\<close>

definition printable :: "'c formatting_env \<Rightarrow> 'c pattern_formatter \<Rightarrow> log_msg \<Rightarrow> bool" where
  "printable env pf m \<longleftrightarrow>
     valid_call env m (time_point_to_tm env (time m)) \<and>
     no_sept (formatters pf) (time_point_to_tm env (time m))"

definition line_text :: "'c formatting_env \<Rightarrow> 'c pattern_formatter \<Rightarrow> log_msg \<Rightarrow> string" where
  "line_text env pf m =
     items_text env (formatters pf) m (time_point_to_tm env (time m)) @ eol pf"

lemma item_next_stateless:
  assumes "\<not> is_duration f"
  shows "item_text env (item_next f m t) m' t' = item_text env f m' t'"
    and "item_info (item_next f m t) = item_info f" and "\<not> is_duration (item_next f m t)"
    and "(item_next f m t = C_formatter i) = (f = C_formatter i)"
  using assms by (cases f; simp)+

lemma pf_run_eq:
  assumes "pf_ok env pf" and "no_duration pf" and "\<forall>m \<in> set ms. printable env pf m"
  shows "\<exists>pf'. pf_run env pf ms = Some (pf', map (line_text env pf) ms) \<and>
           pf_ok env pf' \<and> no_duration pf' \<and> pattern pf' = pattern pf \<and> eol pf' = eol pf \<and>
           custom_flags pf' = custom_flags pf \<and>
           line_text env pf' = line_text env pf \<and> printable env pf' = printable env pf"
  using assms
proof (induction ms arbitrary: pf)
  case Nil
  then show ?case by simp
next
  case (Cons m ms)
  let ?t = "time_point_to_tm env (time m)"
  let ?pf = "pf\<lparr>formatters := map (\<lambda>f. item_next f m ?t) (formatters pf)\<rparr>"
  have v: "valid_call env m ?t" and ns: "no_sept (formatters pf) ?t"
    using Cons.prems(3) by (auto simp: printable_def)
  obtain m' where step: "pf_format env pf m [] = Some (?pf, m', line_text env pf m)"
    using pf_format_eq [OF Cons.prems(1) v refl ns, of "[]"] by (auto simp: line_text_def)
  have st: "\<not> is_duration f" if "f \<in> set (formatters pf)" for f
    using Cons.prems(2) that by (simp add: no_duration_def)
  have it: "items_text env (formatters ?pf) n t = items_text env (formatters pf) n t" for n t
    using st by (auto simp: items_text_def item_next_stateless intro!: arg_cong [where f = concat])
  have sept: "no_sept (formatters ?pf) t = no_sept (formatters pf) t" for t
  proof -
    have "C_formatter i \<in> set (formatters ?pf) \<longleftrightarrow> C_formatter i \<in> set (formatters pf)" for i
    proof
      assume "C_formatter i \<in> set (formatters ?pf)"
      then obtain f where f: "f \<in> set (formatters pf)" "item_next f m ?t = C_formatter i" by auto
      with item_next_stateless(4) [OF st [OF f(1)], of m ?t i] show "C_formatter i \<in> set (formatters pf)"
        by simp
    next
      assume "C_formatter i \<in> set (formatters pf)"
      then have "item_next (C_formatter i) m ?t \<in> (\<lambda>f. item_next f m ?t) ` set (formatters pf)"
        by (rule imageI)
      then show "C_formatter i \<in> set (formatters ?pf)" by simp
    qed
    then show ?thesis by (simp add: no_sept_def)
  qed
  have same: "line_text env ?pf = line_text env pf" "printable env ?pf = printable env pf"
    using it sept by (auto simp: line_text_def printable_def fun_eq_iff)
  have "no_duration ?pf" using st item_next_stateless(3) by (auto simp: no_duration_def)
  moreover have "pf_ok env ?pf" using pf_ok_next [OF Cons.prems(1) v] .
  ultimately obtain pf' where "pf_run env ?pf ms = Some (pf', map (line_text env pf) ms)"
    and "pf_ok env pf'" "no_duration pf'" "pattern pf' = pattern pf" "eol pf' = eol pf"
      "custom_flags pf' = custom_flags pf" "line_text env pf' = line_text env pf"
      "printable env pf' = printable env pf"
    using Cons.IH [of ?pf] Cons.prems(3) same by auto
  then show ?case using step by simp
qed

text \<open>
  The general case: a line consists of the texts as the formatters announce them, and what a formatter remembers of the messages
  before is at most the last one.
\<close>

definition written_text :: "'c formatting_env \<Rightarrow> 'c flag_formatter list \<Rightarrow> log_msg \<Rightarrow> tm \<Rightarrow> string" where
  "written_text env fs m t =
     concat (map (\<lambda>f. align_for (announced f (item_text env f m t)) (item_info f) (item_text env f m t)) fs)"

fun after :: "'c formatting_env \<Rightarrow> log_msg option \<Rightarrow> 'c flag_formatter \<Rightarrow> 'c flag_formatter" where
  "after env None f = f"
| "after env (Some m) f = item_next f m (time_point_to_tm env (time m))"

lemma item_next_twice: "item_next (item_next f m t) m' t' = item_next f m' t'"
  by (cases f) simp_all

lemma run_formatters_written:
  assumes "\<forall>f \<in> set fs. formatter_ok env f" and "valid_call env m t"
  shows "\<exists>m'. run_formatters env fs m t b =
           Some (map (\<lambda>f. item_next f m t) fs, m', b @ written_text env fs m t) \<and> same_msg m m'"
  using assms
proof (induction fs arbitrary: m b)
  case Nil
  then show ?case by (simp add: written_text_def)
next
  case (Cons f fs)
  let ?m = "item_colour f m t b"
  let ?w = "align_for (announced f (item_text env f m t)) (item_info f) (item_text env f m t)"
  have same: "same_msg m ?m" by (rule item_colour_same)
  have step: "flag_format env f m t b = Some (item_next f m t, ?m, b @ ?w)"
    using Cons.prems by (intro flag_format_announced) auto
  obtain m' where "run_formatters env fs ?m t (b @ ?w) =
      Some (map (\<lambda>f. item_next f ?m t) fs, m', (b @ ?w) @ written_text env fs ?m t)"
    and m': "same_msg ?m m'"
    using Cons.IH [of ?m "b @ ?w"] Cons.prems same_msg_fields(3) [OF same, of env t] by auto
  then show ?case
    using step same_msg_trans [OF same m'] by (simp add: written_text_def same_msg_fields [OF same])
qed

lemma pf_run_written:
  assumes "\<forall>f \<in> set fs. formatter_ok env f" and "formatters pf = map (after env prev) fs"
    and "prev = None \<or> (\<exists>p. prev = Some p \<and> valid_call env p (time_point_to_tm env (time p)))"
    and "\<forall>m \<in> set ms. valid_call env m (time_point_to_tm env (time m))"
  shows "map_option snd (pf_run env pf ms) =
     Some (map2 (\<lambda>prev m. written_text env (map (after env prev) fs) m (time_point_to_tm env (time m)) @ eol pf)
       (prev # map Some ms) ms)"
  using assms(2-4)
proof (induction ms arbitrary: pf prev)
  case (Cons m ms)
  let ?t = "time_point_to_tm env (time m)"
  let ?pf = "pf\<lparr>formatters := map (\<lambda>f. item_next f m ?t) (formatters pf)\<rparr>"
  have v: "valid_call env m ?t" using Cons.prems(3) by simp
  have "\<forall>f \<in> set (formatters pf). formatter_ok env f"
    using assms(1) Cons.prems(1,2) by (cases prev) (auto intro: item_next_ok)
  from run_formatters_written [OF this v, of "[]"] obtain m' where
    step: "pf_format env pf m [] = Some (?pf, m', written_text env (formatters pf) m ?t @ eol pf)"
    by (auto simp: pf_format_def append_string_view_def)
  have "formatters ?pf = map (after env (Some m)) fs"
    using Cons.prems(1) by (cases prev) (simp_all add: item_next_twice)
  then have "map_option snd (pf_run env ?pf ms) =
     Some (map2 (\<lambda>prev m. written_text env (map (after env prev) fs) m (time_point_to_tm env (time m)) @ eol ?pf)
       (Some m # map Some ms) ms)"
    using Cons.IH [of ?pf "Some m"] v Cons.prems(3) by simp
  then obtain pf' where "pf_run env ?pf ms = Some (pf',
      map2 (\<lambda>prev m. written_text env (map (after env prev) fs) m (time_point_to_tm env (time m)) @ eol pf)
       (Some m # map Some ms) ms)"
    by auto
  then show ?case using step Cons.prems(1) by simp
qed simp

text \<open>Only a duration flag tells one earlier message from another.\<close>

lemma written_after:
  assumes "\<forall>f \<in> set fs. \<not> is_duration f"
  shows "written_text env (map (after env prev) fs) m t = written_text env fs m t"
proof -
  have "align_for (announced (after env prev f) (item_text env (after env prev f) m t)) (item_info (after env prev f))
      (item_text env (after env prev f) m t) =
    align_for (announced f (item_text env f m t)) (item_info f) (item_text env f m t)" if "f \<in> set fs" for f
  proof -
    have "\<not> is_duration f" using that assms by blast
    then show ?thesis by (cases prev; cases f) (simp_all add: announced_def)
  qed
  then show ?thesis by (simp add: written_text_def cong: map_cong)
qed

lemma item_formatter_clock:
  assumes "\<not> is_duration (item_formatter env flags now item)"
  shows "item_formatter env flags now' item = item_formatter env flags now item"
  using assms by (cases item) (auto simp: append_flag_formatter_def split: option.splits if_splits)

lemma item_formatters_clock:
  assumes "\<forall>f \<in> set (item_formatters env flags now k items). \<not> is_duration f"
  shows "item_formatters env flags now' k items = item_formatters env flags now k items"
  using assms
proof (induction items arbitrary: k)
  case (Cons item items)
  then have "\<not> is_duration (item_formatter env flags (now k) item)" by simp
  then show ?case using Cons item_formatter_clock by fastforce
qed simp

lemma pf_new_items:
  assumes "pf_new env now pat e flags = Some pf"
  obtains items where "valid_items items" and "pat = render_pattern items"
    and "formatters pf = item_formatters env flags now 0 items"
    and "pattern pf = pat" and "eol pf = e" and "custom_flags pf = flags"
proof -
  obtain items u where p: "pat = render_pattern items @ u" "valid_items items" "u = [] \<or> unfinished u"
    using pattern_decompose by blast
  show ?thesis
    using assms p that [of items] analyse_pattern_items [OF p(2), of env flags now]
      analyse_pattern_unfinished [OF p(2), of u env flags now]
    by (auto simp: pf_new_def split: Option.bind_splits)
qed

text \<open>A clone of a formatter that was made from a pattern: it prints what the original prints.\<close>

lemma pf_clone_same:
  assumes "pf_new env now pat e Map.empty = Some pf" and "\<And>k. 0 \<le> now k" and "no_duration pf"
    and "pattern pf' = pat" and "eol pf' = e" and "custom_flags pf' = Map.empty"
  shows "pf_clone env now' pf' = Some pf"
proof -
  obtain items where items: "valid_items items" "pat = render_pattern items"
    "formatters pf = item_formatters env Map.empty now 0 items"
    and meta: "pattern pf = pat" "eol pf = e" "custom_flags pf = Map.empty"
    using pf_new_items [OF assms(1)] by metis
  have "\<forall>f \<in> set (item_formatters env Map.empty now 0 items). \<not> is_duration f"
    using assms(3) items(3) by (simp add: no_duration_def)
  then have "item_formatters env Map.empty now' 0 items = formatters pf"
    using item_formatters_clock items(3) by metis
  then show ?thesis
    using assms(4-6) meta items analyse_pattern_items [OF items(1), of env Map.empty now']
    by (cases pf) (simp add: pf_clone_def pf_new_def Let_def)
qed

section \<open>Properties\<close>

text \<open>
  C18: the parser accepts exactly the patterns that are a sequence of well-formed items, and
  makes the queue with the formatter of each item in order, literal texts as one formatter each
  and widths clamped to 64.
\<close>

theorem pattern_parse_items:
  "analyse_pattern env flags now p = Some fs \<longleftrightarrow>
     (\<exists>items. valid_items items \<and> p = render_pattern items \<and> fs = item_formatters env flags now 0 items)"
proof -
  obtain items u where p: "p = render_pattern items @ u" "valid_items items" "u = [] \<or> unfinished u"
    using pattern_decompose by blast
  show ?thesis
    using p analyse_pattern_items [of _ env flags now] analyse_pattern_unfinished [OF p(2), of u env flags now]
    by fastforce
qed

text \<open>
  C19: the parser runs past the end of the pattern exactly when the pattern ends inside an item, as
  \<open>%\<close>, \<open>%-\<close>, \<open>%10\<close> or \<open>%=10!\<close> do.
\<close>

theorem pattern_overrun:
  "analyse_pattern env flags now p = None \<longleftrightarrow>
     (\<exists>items u. valid_items items \<and> unfinished u \<and> p = render_pattern items @ u)"
proof -
  obtain items u where p: "p = render_pattern items @ u" "valid_items items" "u = [] \<or> unfinished u"
    using pattern_decompose by blast
  show ?thesis
    using p analyse_pattern_items [OF p(2), of env flags now] analyse_pattern_unfinished [of _ _ env flags now]
    by fastforce
qed

text \<open>
  C20: a formatter made from a pattern without user-defined flags prints, for every sequence of messages
  with sizes and times in range (\<open>valid_call\<close>), one line each: the texts of the pattern's items in order, each aligned as its formatter
  announces it, then the end of line. Of the earlier messages a line depends on the last one at most (\<open>after\<close>), by the time that the
  duration flags (\<open>%W %X %Y %Z\<close>) measure from; without these flags it depends on no earlier message.
\<close>

theorem pattern_lines:
  assumes "pf_new env now (render_pattern items) e Map.empty = Some pf" and "valid_items items"
    and "\<And>k. 0 \<le> now k" and "\<forall>m \<in> set ms. valid_call env m (time_point_to_tm env (time m))"
  shows "map_option snd (pf_run env pf ms) =
     Some (map2 (\<lambda>prev m. written_text env (map (after env prev) (item_formatters env Map.empty now 0 items)) m
                            (time_point_to_tm env (time m)) @ e) (None # map Some ms) ms) \<and>
    (no_duration pf \<longrightarrow> map_option snd (pf_run env pf ms) =
     Some (map (\<lambda>m. written_text env (item_formatters env Map.empty now 0 items) m (time_point_to_tm env (time m)) @ e) ms))"
proof -
  let ?fs = "item_formatters env Map.empty now 0 items"
  have f: "formatters pf = ?fs" "eol pf = e"
    using assms(1) analyse_pattern_items [OF assms(2), of env Map.empty now] by (auto simp: pf_new_def)
  have id: "?fs = map (after env None) ?fs" by (simp add: map_idI)
  have lines: "map_option snd (pf_run env pf ms) =
     Some (map2 (\<lambda>prev m. written_text env (map (after env prev) ?fs) m (time_point_to_tm env (time m)) @ e) (None # map Some ms) ms)"
    using pf_run_written [of ?fs env pf None ms] item_formatters_ok [OF assms(3), where env = env and k = 0 and items = items] f id assms(4) by simp
  have same: "map2 (\<lambda>prev m. written_text env (map (after env prev) ?fs) m (time_point_to_tm env (time m)) @ e) ps ms =
      map (\<lambda>m. written_text env ?fs m (time_point_to_tm env (time m)) @ e) ms"
    if "no_duration pf" "length ps \<ge> length ms" for ps
  proof -
    have "\<forall>f \<in> set ?fs. \<not> is_duration f" using that(1) f(1) by (simp add: no_duration_def)
    note w = written_after [OF this]
    show ?thesis using that(2) by (induction ms arbitrary: ps) (auto simp: w Suc_le_length_iff)
  qed
  have "length ms \<le> length (None # map Some ms)" by simp
  note same = same [OF _ this]
  show ?thesis by (intro conjI impI, rule lines) (simp only: lines same)
qed

text \<open>
  A clone taken at any moment, after any messages, prints every later message exactly as the
  original does, when the pattern has no user-defined and no duration flags.
\<close>

theorem clone_prints_same:
  assumes "pf_new env now pat e Map.empty = Some pf" and "\<And>k. 0 \<le> now k" and "\<And>k. 0 \<le> now' k"
    and "no_duration pf"
    and "\<forall>m \<in> set (ms @ ns). printable env pf m" and "pf_run env pf ms = Some (pf', outs)"
  shows "\<exists>pfc. pf_clone env now' pf' = Some pfc \<and>
           map_option snd (pf_run env pfc ns) = map_option snd (pf_run env pf' ns) \<and>
           map_option snd (pf_run env pf' ns) = Some (map (line_text env pf) ns)"
proof -
  have meta: "pattern pf = pat" "eol pf = e" "custom_flags pf = Map.empty"
    using pf_new_items [OF assms(1)] by metis+
  have ok: "pf_ok env pf" using pf_new_ok [OF assms(1,2)] .
  have pf': "pf_ok env pf'" "no_duration pf'" "pattern pf' = pat" "eol pf' = e"
    "custom_flags pf' = Map.empty" "line_text env pf' = line_text env pf"
    "printable env pf' = printable env pf"
    using pf_run_eq [OF ok assms(4), of ms] assms(5,6) meta by auto
  have "pf_clone env now' pf' = Some pf"
    using pf_clone_same [OF assms(1,2,4) pf'(3-5)] .
  moreover have "map_option snd (pf_run env pf ns) = Some (map (line_text env pf) ns)"
    using pf_run_eq [OF ok assms(4), of ns] assms(5) by auto
  moreover have "map_option snd (pf_run env pf' ns) = Some (map (line_text env pf) ns)"
    using pf_run_eq [OF pf'(1,2), of ns] pf'(6,7) assms(5) by auto
  ultimately show ?thesis by metis
qed

definition sample_pf :: "unit pattern_formatter" where
  "sample_pf = \<lparr>pattern = ''<%4n>'', eol = ''\<newline>'',
     formatters = [Aggregate_formatter ''<'',
       Name_formatter \<lparr>target_len = 4, side = Left_side, truncated = False, enabled = True\<rparr>,
       Aggregate_formatter ''>''], custom_flags = Map.empty\<rparr>"

lemma sample_items:
  "valid_items [Text ''<'', Flag Left_side ''4'' False (CHR ''n''), Text ''>'']"
  "render_pattern [Text ''<'', Flag Left_side ''4'' False (CHR ''n''), Text ''>''] = ''<%4n>''"
  "item_formatters sample_env Map.empty now 0 [Text ''<'', Flag Left_side ''4'' False (CHR ''n''), Text ''>'']
     = formatters sample_pf"
  by (simp_all add: valid_spec_def spec_digits_def is_digit_def render_pattern_def spec_text_def
      sample_pf_def append_flag_formatter_def spec_info_def dec_value_def mk_spaces_info_def
      MAX_SPACES_LEN_def)

lemma sample_pf_new: "pf_new sample_env now ''<%4n>'' ''\<newline>'' Map.empty = Some sample_pf"
proof -
  have "analyse_pattern sample_env Map.empty now ''<%4n>'' = Some (formatters sample_pf)"
    using analyse_pattern_items [OF sample_items(1), of sample_env Map.empty now]
    by (simp only: sample_items(2,3))
  then show ?thesis by (simp add: pf_new_def) (simp add: sample_pf_def)
qed

lemma sample_line: "items_text sample_env (formatters sample_pf) sample_msg t = ''< net>''"
proof -
  have "align \<lparr>target_len = 4, side = Left_side, truncated = False, enabled = True\<rparr> ''net'' = '' net''"
    by (simp add: align_def)
  then show ?thesis by (simp add: items_text_def sample_pf_def sample_msg_def)
qed

lemma sample_printable: "no_duration sample_pf" "printable sample_env sample_pf sample_msg"
  using sample_valid
  by (simp_all add: no_duration_def sample_pf_def printable_def no_sept_def time_point_to_tm_def
      sample_env_def)

lemma sample_written: "written_text sample_env (formatters sample_pf) sample_msg t = ''< net>''"
  by (simp add: written_text_def sample_pf_def sample_msg_def announced_def align_for_def spaces_info_default_def)

theorem pattern_lines_witness:
  "map_option snd (pf_run sample_env sample_pf [sample_msg, sample_msg]) =
     Some [''< net>\<newline>'', ''< net>\<newline>'']"
proof -
  let ?items = "[Text ''<'', Flag Left_side ''4'' False (CHR ''n''), Text ''>'']"
  have "pf_new sample_env (\<lambda>_. 0) (render_pattern ?items) ''\<newline>'' Map.empty = Some sample_pf"
    by (simp only: sample_items(2) sample_pf_new)
  note lines = pattern_lines [OF this sample_items(1), of "[sample_msg, sample_msg]"]
  have v: "\<forall>m \<in> set [sample_msg, sample_msg]. valid_call sample_env m (time_point_to_tm sample_env (time m))"
    using sample_printable(2) by (simp add: printable_def)
  have "map_option snd (pf_run sample_env sample_pf [sample_msg, sample_msg]) =
     Some (map (\<lambda>m. written_text sample_env (item_formatters sample_env Map.empty (\<lambda>_. 0) 0 ?items) m
        (time_point_to_tm sample_env (time m)) @ ''\<newline>'') [sample_msg, sample_msg])"
    using lines v sample_printable(1) by blast
  then show ?thesis by (simp only: sample_items(3) list.map sample_written) simp
qed

theorem clone_prints_same_witness:
  "\<exists>pfc. pf_clone sample_env (\<lambda>_. 9) sample_pf = Some pfc \<and>
     map_option snd (pf_run sample_env pfc [sample_msg]) = Some [''< net>\<newline>'']"
  using clone_prints_same [OF sample_pf_new [of "\<lambda>_. 0"], of "\<lambda>_. 9" "[]" "[sample_msg]" sample_pf "[]"]
    sample_printable
  by (auto simp: line_text_def sample_line) (simp add: sample_pf_def)

end
