(* ===== verification/Os_Files.thy ===== *)
theory Os_Files
  imports Definitions
begin

text \<open>
  \<^verbatim>\<open>base/os.h\<close> (files, terminal, sleeping) and \<^verbatim>\<open>base/file_base.h\<close>, in their Unix branches,
  over a small model of the C library's files: a tree of directories and files, streams with a
  buffer of bytes not yet written, and an oracle \<open>fault\<close> that may let any system call fail with an
  errno. \<open>spill\<close> says after which writes a stream hands its buffer to the system by itself. A
  stream used after it was closed sets \<open>bad_use\<close>.
\<close>

section \<open>Paths\<close>

text \<open>\<open>std::string::npos\<close> and the two searches for a character.\<close>

definition npos :: size_t where
  "npos = - 1"

definition find_first_of :: "char \<Rightarrow> string \<Rightarrow> nat \<Rightarrow> nat option" where
  "find_first_of c s off =
     (let k = off + length (takeWhile (\<lambda>x. x \<noteq> c) (drop off s))
      in if k < length s then Some k else None)"

definition find_last_of :: "char \<Rightarrow> string \<Rightarrow> nat option" where
  "find_last_of c s = map_option (\<lambda>k. length s - 1 - k) (find_first_of c (rev s) 0)"

definition pos_of :: "nat option \<Rightarrow> size_t" where
  "pos_of k = (case k of None \<Rightarrow> npos | Some k \<Rightarrow> of_nat k)"

text \<open>
  What a path names: whether it is absolute, and its components; repeated separators and the
  component \<open>.\<close> name nothing of their own. Links and \<open>..\<close> are not resolved.
\<close>

type_synonym file_key = "bool \<times> string list"

fun components :: "string \<Rightarrow> string \<Rightarrow> string list" where
  "components acc [] = (if acc = [] \<or> acc = ''.'' then [] else [acc])"
| "components acc (c # s) =
     (if c = FOLDER_SPR then (if acc = [] \<or> acc = ''.'' then [] else [acc]) @ components [] s
      else components (acc @ [c]) s)"

definition path_key :: "string \<Rightarrow> file_key" where
  "path_key path = (path \<noteq> [] \<and> hd path = FOLDER_SPR, components [] path)"

section \<open>The system\<close>

type_synonym fp = nat

record os_env =
  fault :: "nat \<Rightarrow> int option"
  spill :: "nat \<Rightarrow> bool"
  strerror :: "int \<Rightarrow> string"
  src_file :: string

record os_world =
  dirs :: "file_key \<Rightarrow> bool"
  files :: "file_key \<Rightarrow> string option"
  streams :: "fp \<Rightarrow> (file_key \<times> string) option"
  next_fp :: fp
  calls :: nat
  errno :: int
  slept_us :: nat
  bad_use :: bool

text \<open>One system call: whether it goes through, and the world with its errno.\<close>

definition syscall :: "os_env \<Rightarrow> os_world \<Rightarrow> bool \<times> os_world" where
  "syscall env w =
     (case fault env (calls w) of
        None \<Rightarrow> (True, w\<lparr>calls := calls w + 1\<rparr>)
      | Some e \<Rightarrow> (False, w\<lparr>calls := calls w + 1, errno := e\<rparr>))"

definition is_dir :: "os_world \<Rightarrow> file_key \<Rightarrow> bool" where
  "is_dir w key \<longleftrightarrow> snd key = [] \<or> dirs w key"

definition parent :: "file_key \<Rightarrow> file_key" where
  "parent key = (fst key, butlast (snd key))"

definition c_stat :: "os_env \<Rightarrow> string \<Rightarrow> os_world \<Rightarrow> bool \<times> os_world" where
  "c_stat env path w =
     (let (ok, w) = syscall env w
      in (ok \<and> path \<noteq> [] \<and> (is_dir w (path_key path) \<or> files w (path_key path) \<noteq> None), w))"

definition c_mkdir :: "os_env \<Rightarrow> string \<Rightarrow> os_world \<Rightarrow> bool \<times> os_world" where
  "c_mkdir env path w =
     (let (ok, w) = syscall env w; key = path_key path
      in if ok \<and> path \<noteq> [] \<and> \<not> is_dir w key \<and> files w key = None \<and> is_dir w (parent key)
         then (True, w\<lparr>dirs := (dirs w)(key := True)\<rparr>) else (False, w))"

text \<open>\<open>open(2)\<close> for writing, creating the file; \<open>trunc\<close> selects \<open>O_TRUNC\<close> or \<open>O_APPEND\<close>.\<close>

definition c_open :: "os_env \<Rightarrow> string \<Rightarrow> bool \<Rightarrow> os_world \<Rightarrow> bool \<times> os_world" where
  "c_open env path trunc w =
     (let (ok, w) = syscall env w; key = path_key path
      in if ok \<and> path \<noteq> [] \<and> \<not> is_dir w key \<and> is_dir w (parent key)
         then (True, w\<lparr>files := (files w)(key \<mapsto>
                 (if trunc then [] else case files w key of None \<Rightarrow> [] | Some s \<Rightarrow> s))\<rparr>)
         else (False, w))"

definition c_fdopen :: "os_env \<Rightarrow> string \<Rightarrow> os_world \<Rightarrow> fp option \<times> os_world" where
  "c_fdopen env path w =
     (let (ok, w) = syscall env w
      in if ok then (Some (next_fp w),
                     w\<lparr>streams := (streams w)(next_fp w \<mapsto> (path_key path, [])), next_fp := next_fp w + 1\<rparr>)
         else (None, w))"

text \<open>The bytes of a stream's buffer go to the end of its file.\<close>

definition write_out :: "fp \<Rightarrow> os_world \<Rightarrow> os_world" where
  "write_out p w =
     (case streams w p of
        None \<Rightarrow> w
      | Some (key, pending) \<Rightarrow>
          w\<lparr>streams := (streams w)(p \<mapsto> (key, [])),
            files := (files w)(key := map_option (\<lambda>s. s @ pending) (files w key))\<rparr>)"

definition c_fflush :: "os_env \<Rightarrow> fp \<Rightarrow> os_world \<Rightarrow> bool \<times> os_world" where
  "c_fflush env p w =
     (if streams w p = None then (False, w\<lparr>bad_use := True\<rparr>)
      else let (ok, w) = syscall env w in (ok, if ok then write_out p w else w))"

text \<open>\<open>fflush(nullptr)\<close> flushes every open stream; \<open>next_fp\<close> bounds them.\<close>

definition c_fflush_all :: "os_env \<Rightarrow> os_world \<Rightarrow> bool \<times> os_world" where
  "c_fflush_all env w =
     (let (ok, w) = syscall env w in (ok, if ok then fold write_out [0..<next_fp w] w else w))"

definition c_fclose :: "os_env \<Rightarrow> fp \<Rightarrow> os_world \<Rightarrow> bool \<times> os_world" where
  "c_fclose env p w =
     (if streams w p = None then (False, w\<lparr>bad_use := True\<rparr>)
      else let (ok, w) = syscall env w;
               w = (if ok then write_out p w else w)
           in (ok, w\<lparr>streams := (streams w)(p := None)\<rparr>))"

text \<open>\<open>fwrite\<close>: the number of bytes taken; a call that fails takes none.\<close>

definition c_fwrite :: "os_env \<Rightarrow> fp \<Rightarrow> string \<Rightarrow> os_world \<Rightarrow> nat \<times> os_world" where
  "c_fwrite env p s w =
     (case streams w p of
        None \<Rightarrow> (0, w\<lparr>bad_use := True\<rparr>)
      | Some (key, pending) \<Rightarrow>
          (case syscall env w of
             (False, w) \<Rightarrow> (0, w)
           | (True, w) \<Rightarrow>
               (let w = w\<lparr>streams := (streams w)(p \<mapsto> (key, pending @ s))\<rparr>
                in (length s, if spill env (calls w) then write_out p w else w))))"

text \<open>\<open>fstat\<close>: the size of the file on disk.\<close>

definition c_fstat_size :: "os_env \<Rightarrow> fp \<Rightarrow> os_world \<Rightarrow> nat option \<times> os_world" where
  "c_fstat_size env p w =
     (case streams w p of
        None \<Rightarrow> (None, w\<lparr>bad_use := True\<rparr>)
      | Some (key, pending) \<Rightarrow>
          (let (ok, w) = syscall env w
           in (if ok then Some (case files w key of None \<Rightarrow> 0 | Some s \<Rightarrow> length s) else None, w)))"

section \<open>\<open>base/os.h\<close>\<close>

definition dir_exist :: "os_env \<Rightarrow> string \<Rightarrow> os_world \<Rightarrow> bool \<times> os_world" where
  "dir_exist env path w = c_stat env path w"

definition os_mkdir :: "os_env \<Rightarrow> string \<Rightarrow> os_world \<Rightarrow> bool \<times> os_world" where
  "os_mkdir env path w = c_mkdir env path w"

lemma find_first_of_ge: "find_first_of c s off = Some k \<Longrightarrow> off \<le> k \<and> k < length s"
  by (auto simp: find_first_of_def Let_def split: if_splits)

function create_dir_loop :: "os_env \<Rightarrow> string \<Rightarrow> nat \<Rightarrow> os_world \<Rightarrow> bool \<times> os_world" where
  "create_dir_loop env path offset w =
     (if offset < length path then
        let spr_pos = (case find_first_of FOLDER_SPR path offset of None \<Rightarrow> length path | Some k \<Rightarrow> k);
            curr_dir = take spr_pos path
        in case dir_exist env curr_dir w of
             (True, w) \<Rightarrow> create_dir_loop env path (spr_pos + 1) w
           | (False, w) \<Rightarrow>
               (case os_mkdir env curr_dir w of
                  (False, w) \<Rightarrow> (False, w)
                | (True, w) \<Rightarrow> create_dir_loop env path (spr_pos + 1) w)
      else (True, w))"
  by pat_completeness auto
termination
  by (relation "measure (\<lambda>(_, path, offset, _). length path - offset)")
    (auto split: option.splits dest: find_first_of_ge)

declare create_dir_loop.simps [simp del]

definition create_dir :: "os_env \<Rightarrow> string \<Rightarrow> os_world \<Rightarrow> bool \<times> os_world" where
  "create_dir env path w =
     (case dir_exist env path w of
        (True, w) \<Rightarrow> (True, w)
      | (False, w) \<Rightarrow> if length path = 0 then (False, w) else create_dir_loop env path 0 w)"

definition get_dir :: "string \<Rightarrow> string" where
  "get_dir path = (case find_last_of FOLDER_SPR path of None \<Rightarrow> [] | Some k \<Rightarrow> take k path)"

text \<open>\<open>open_file\<close> returns the stream, or nothing; \<open>ab\<close> tells the mode \<open>ab\<close> from \<open>wb\<close>.\<close>

definition open_file :: "os_env \<Rightarrow> string \<Rightarrow> bool \<Rightarrow> os_world \<Rightarrow> fp option \<times> os_world" where
  "open_file env fname ab w =
     (case c_open env fname (\<not> ab) w of
        (False, w) \<Rightarrow> (None, w)
      | (True, w) \<Rightarrow> c_fdopen env fname w)"

definition remove_file :: "os_env \<Rightarrow> string \<Rightarrow> os_world \<Rightarrow> bool \<times> os_world" where
  "remove_file env fname w =
     (let (ok, w) = syscall env w; key = path_key fname
      in if ok \<and> fname \<noteq> [] \<and> files w key \<noteq> None then (True, w\<lparr>files := (files w)(key := None)\<rparr>)
         else (False, w))"

definition remove_file_if_exist :: "os_env \<Rightarrow> string \<Rightarrow> os_world \<Rightarrow> bool \<times> os_world" where
  "remove_file_if_exist env fname w =
     (case dir_exist env fname w of (True, w) \<Rightarrow> remove_file env fname w | (False, w) \<Rightarrow> (True, w))"

definition filesize :: "os_env \<Rightarrow> fp \<Rightarrow> os_world \<Rightarrow> int \<times> os_world" where
  "filesize env p w =
     (case c_fstat_size env p w of
        (Some n, w) \<Rightarrow> (int n, w)
      | (None, w) \<Rightarrow> (- 1, w))"

definition os_fsync :: "os_env \<Rightarrow> fp \<Rightarrow> os_world \<Rightarrow> bool \<times> os_world" where
  "os_fsync env p w =
     (if streams w p = None then (False, w\<lparr>bad_use := True\<rparr>) else syscall env w)"

text \<open>The Unix branch of \<open>sleep_for_ms\<close> sleeps for \<open>microseconds{ms}\<close>.\<close>

definition sleep_for_ms :: "nat \<Rightarrow> os_world \<Rightarrow> os_world" where
  "sleep_for_ms ms w = w\<lparr>slept_us := slept_us w + ms\<rparr>"

text \<open>
  The test that the lambda in \<open>is_color_terminal\<close> contains, on the two environment variables,
  and the function itself: the lambda is never called, its conversion to \<open>bool\<close> is true.
\<close>

definition strstr :: "string \<Rightarrow> string \<Rightarrow> bool" where
  "strstr s t \<longleftrightarrow> list_ex (\<lambda>k. take (length t) (drop k s) = t) [0..<length s + 1]"

definition color_terms :: "string list" where
  "color_terms = [''ansi'', ''color'', ''console'', ''cygwin'', ''gnome'', ''konsole'', ''kterm'',
     ''linux'', ''msys'', ''putty'', ''rxvt'', ''screen'', ''vt100'', ''xterm'', ''alacritty'', ''vt102'']"

definition color_terminal_test :: "string option \<Rightarrow> string option \<Rightarrow> bool" where
  "color_terminal_test env_colorterm env_term =
     (if env_colorterm \<noteq> None then True
      else case env_term of None \<Rightarrow> False | Some t \<Rightarrow> list_ex (strstr t) color_terms)"

definition is_color_terminal :: "string option \<Rightarrow> string option \<Rightarrow> bool" where
  "is_color_terminal env_colorterm env_term = True"

section \<open>\<open>base/file_base.h\<close>\<close>

definition quoted :: "string \<Rightarrow> string" where
  "quoted s = [CHR 0x27] @ s @ [CHR 0x27]"

definition fb_error :: "os_env \<Rightarrow> string \<Rightarrow> string \<Rightarrow> int \<Rightarrow> os_world \<Rightarrow> excpt" where
  "fb_error env func fname ln w =
     learnlog_excpt_loc (strerror env)
       (''learnlog::file_base::'' @ func @ ''() failed, filename: '' @ quoted fname)
       (errno w) (src_file env) ln func"

text \<open>
  \<open>close\<close>: the exception, if any, and \<open>*fpp\<close> afterwards. When \<open>fclose\<close> fails, the stream is
  gone but \<open>*fpp\<close> still points to it.
\<close>

definition file_close ::
  "os_env \<Rightarrow> fp option \<Rightarrow> string \<Rightarrow> os_world \<Rightarrow> excpt option \<times> fp option \<times> os_world" where
  "file_close env fpp fname w =
     (case fpp of
        None \<Rightarrow> (None, None, w)
      | Some p \<Rightarrow>
          (case c_fclose env p w of
             (False, w) \<Rightarrow> (Some (fb_error env ''close'' fname 14 w), Some p, w)
           | (True, w) \<Rightarrow> (None, None, w)))"

text \<open>
  The loop of \<open>open\<close> with the number of tries left. A truncating open that fails goes to the next
  try at once, without the sleep.
\<close>

fun open_tries ::
  "os_env \<Rightarrow> string \<Rightarrow> bool \<Rightarrow> nat \<Rightarrow> nat \<Rightarrow> os_world \<Rightarrow> fp option \<times> os_world" where
  "open_tries env fname trunc 0 ms w = (None, w)"
| "open_tries env fname trunc (Suc n) ms w =
     (let (_, w) = create_dir env (get_dir fname) w;
          (skip, w) =
            (if trunc then
               (case open_file env fname False w of
                  (None, w) \<Rightarrow> (True, w)
                | (Some fd_tmp, w) \<Rightarrow> (False, snd (c_fclose env fd_tmp w)))
             else (False, w))
      in if skip then open_tries env fname trunc n ms w
         else case open_file env fname True w of
                (Some p, w) \<Rightarrow> (Some p, w)
              | (None, w) \<Rightarrow> open_tries env fname trunc n ms (sleep_for_ms ms w))"

definition file_open ::
  "os_env \<Rightarrow> fp option \<Rightarrow> string \<Rightarrow> bool \<Rightarrow> nat \<Rightarrow> nat \<Rightarrow> os_world \<Rightarrow>
     excpt option \<times> fp option \<times> os_world" where
  "file_open env fpp fname trunc try_times try_every_ms w =
     (case file_close env fpp fname w of
        (Some e, fpp, w) \<Rightarrow> (Some e, fpp, w)
      | (None, fpp, w) \<Rightarrow>
          (case open_tries env fname trunc try_times try_every_ms w of
             (Some p, w) \<Rightarrow> (None, Some p, w)
           | (None, w) \<Rightarrow> (Some (fb_error env ''open'' fname 56 w), None, w)))"

definition file_flush :: "os_env \<Rightarrow> fp option \<Rightarrow> string \<Rightarrow> os_world \<Rightarrow> excpt option \<times> os_world" where
  "file_flush env fpp fname w =
     (case (case fpp of None \<Rightarrow> c_fflush_all env w | Some p \<Rightarrow> c_fflush env p w) of
        (False, w) \<Rightarrow> (Some (fb_error env ''flush'' fname 65 w), w)
      | (True, w) \<Rightarrow> (None, w))"

definition file_sync :: "os_env \<Rightarrow> fp option \<Rightarrow> string \<Rightarrow> os_world \<Rightarrow> excpt option \<times> os_world" where
  "file_sync env fpp fname w =
     (case fpp of
        None \<Rightarrow> (None, w\<lparr>bad_use := True\<rparr>)
      | Some p \<Rightarrow>
          (case os_fsync env p w of
             (False, w) \<Rightarrow> (Some (fb_error env ''sync'' fname 75 w), w)
           | (True, w) \<Rightarrow> (None, w)))"

definition file_write ::
  "os_env \<Rightarrow> fp option \<Rightarrow> string \<Rightarrow> fmt_buf \<Rightarrow> os_world \<Rightarrow> excpt option \<times> os_world" where
  "file_write env fpp fname b w =
     (case fpp of
        None \<Rightarrow> (None, w)
      | Some p \<Rightarrow>
          (case c_fwrite env p b w of
             (n, w) \<Rightarrow> if n \<noteq> length b then (Some (fb_error env ''write'' fname 87 w), w)
                       else (None, w)))"

definition file_size ::
  "os_env \<Rightarrow> fp option \<Rightarrow> string \<Rightarrow> os_world \<Rightarrow> (excpt + size_t) \<times> os_world" where
  "file_size env fpp fname w =
     (case fpp of
        None \<Rightarrow> (Inl (learnlog_excpt
                  (''learnlog::file_base::size() failed, fp == nullptr, filename: '' @ quoted fname)), w)
      | Some p \<Rightarrow>
          (case filesize env p w of
             (ret, w) \<Rightarrow> if ret = - 1 then (Inl (fb_error env ''size'' fname 106 w), w)
                         else (Inr (word_of_int ret), w)))"

definition suffix_pos :: "string \<Rightarrow> size_t" where
  "suffix_pos fname =
     (let file_idx = pos_of (find_last_of FOLDER_SPR fname);
          suf_idx = pos_of (find_last_of (CHR ''.'') fname)
      in if suf_idx \<le> file_idx + 1 \<or> suf_idx = npos then of_nat (length fname) else suf_idx)"

section \<open>Without faults\<close>

definition healthy :: "os_env \<Rightarrow> bool" where
  "healthy env \<longleftrightarrow> (\<forall>n. fault env n = None)"

lemma syscall_healthy: "healthy env \<Longrightarrow> syscall env w = (True, w\<lparr>calls := calls w + 1\<rparr>)"
  by (simp add: healthy_def syscall_def)

text \<open>What an open stream's file will hold once the buffer is written.\<close>

definition stream_text :: "os_world \<Rightarrow> fp \<Rightarrow> file_key \<Rightarrow> string \<Rightarrow> bool" where
  "stream_text w p key s \<longleftrightarrow>
     (\<exists>disk pending. streams w p = Some (key, pending) \<and> files w key = Some disk \<and> disk @ pending = s)"

text \<open>Only the file \<open>key\<close> and the stream \<open>p\<close> differ.\<close>

definition only_file :: "fp \<Rightarrow> file_key \<Rightarrow> os_world \<Rightarrow> os_world \<Rightarrow> bool" where
  "only_file p key w w' \<longleftrightarrow>
     dirs w' = dirs w \<and> bad_use w' = bad_use w \<and>
     (\<forall>k. k \<noteq> key \<longrightarrow> files w' k = files w k) \<and> (\<forall>q. q \<noteq> p \<longrightarrow> streams w' q = streams w q)"

lemma only_file_trans: "only_file p key w w' \<Longrightarrow> only_file p key w' w'' \<Longrightarrow> only_file p key w w''"
  by (simp add: only_file_def)

lemma only_file_is_dir: "only_file p key w w' \<Longrightarrow> is_dir w' = is_dir w"
  by (simp add: only_file_def is_dir_def fun_eq_iff)

lemma file_write_healthy:
  assumes "healthy env" and "stream_text w p key s"
  shows "\<exists>w'. file_write env (Some p) fname b w = (None, w') \<and> stream_text w' p key (s @ b) \<and>
           only_file p key w w' \<and> next_fp w' = next_fp w"
  using assms
  by (auto simp: file_write_def c_fwrite_def syscall_healthy stream_text_def write_out_def only_file_def
      Let_def)

lemma file_flush_healthy:
  assumes "healthy env" and "stream_text w p key s"
  shows "\<exists>w'. file_flush env (Some p) fname w = (None, w') \<and> stream_text w' p key s \<and>
           files w' key = Some s \<and> only_file p key w w' \<and> next_fp w' = next_fp w"
  using assms
  by (auto simp: file_flush_def c_fflush_def syscall_healthy stream_text_def write_out_def only_file_def
      Let_def)

lemma file_close_healthy:
  assumes "healthy env" and "stream_text w p key s"
  shows "\<exists>w'. file_close env (Some p) fname w = (None, None, w') \<and> streams w' p = None \<and>
           files w' key = Some s \<and> only_file p key w w' \<and> next_fp w' = next_fp w"
  using assms
  by (auto simp: file_close_def c_fclose_def syscall_healthy stream_text_def write_out_def only_file_def
      Let_def)

lemma file_size_healthy:
  assumes "healthy env" and "stream_text w p key s" and "files w key = Some s"
  shows "\<exists>w'. file_size env (Some p) fname w = (Inr (of_nat (length s)), w') \<and> stream_text w' p key s \<and>
           files w' key = Some s \<and> only_file p key w w' \<and> next_fp w' = next_fp w"
  using assms
  by (auto simp: file_size_def filesize_def c_fstat_size_def syscall_healthy stream_text_def
      only_file_def Let_def)

text \<open>A name that can be opened: its directory is there and it is not a directory itself.\<close>

definition openable :: "os_world \<Rightarrow> string \<Rightarrow> bool" where
  "openable w fname \<longleftrightarrow>
     fname \<noteq> [] \<and> \<not> is_dir w (path_key fname) \<and> is_dir w (parent (path_key fname)) \<and>
     (get_dir fname = [] \<or> is_dir w (path_key (get_dir fname)))"

lemma openable_cong: "only_file p key w w' \<Longrightarrow> openable w' fname = openable w fname"
  by (simp add: openable_def only_file_is_dir)

lemma create_dir_present:
  assumes "healthy env" and "d = [] \<or> is_dir w (path_key d)"
  shows "\<exists>ok. create_dir env d w = (ok, w\<lparr>calls := calls w + 1\<rparr>)"
  using assms by (auto simp: create_dir_def dir_exist_def c_stat_def syscall_healthy is_dir_def)

definition fresh_streams :: "os_world \<Rightarrow> bool" where
  "fresh_streams w \<longleftrightarrow> (\<forall>q \<ge> next_fp w. streams w q = None)"

lemma open_file_healthy:
  assumes "healthy env" and "openable w fname"
  shows "\<exists>w'. open_file env fname ab w = (Some (next_fp w), w') \<and>
     stream_text w' (next_fp w) (path_key fname)
       (if ab then (case files w (path_key fname) of None \<Rightarrow> [] | Some s \<Rightarrow> s) else []) \<and>
     only_file (next_fp w) (path_key fname) w w' \<and> next_fp w' = next_fp w + 1"
  using assms
  by (auto simp: open_file_def c_open_def c_fdopen_def syscall_healthy openable_def stream_text_def
      only_file_def is_dir_def Let_def split: option.split)

lemma only_file_fresh:
  assumes "only_file p key w w'" and "fresh_streams w" and "next_fp w' = next_fp w" and "p < next_fp w"
  shows "fresh_streams w'"
  using assms by (auto simp: only_file_def fresh_streams_def)

lemma stream_text_fresh: "stream_text w p key s \<Longrightarrow> fresh_streams w \<Longrightarrow> p < next_fp w"
  by (rule ccontr) (auto simp: stream_text_def fresh_streams_def)

lemma open_tries_healthy:
  assumes env: "healthy env" and ok: "openable w fname" and fresh: "fresh_streams w"
  shows "\<exists>p w'. open_tries env fname trunc (Suc n) ms w = (Some p, w') \<and>
     stream_text w' p (path_key fname)
       (if trunc then [] else (case files w (path_key fname) of None \<Rightarrow> [] | Some s \<Rightarrow> s)) \<and>
     only_file p (path_key fname) w w' \<and> fresh_streams w'"
proof -
  let ?key = "path_key fname"
  define w1 where "w1 = w\<lparr>calls := calls w + 1\<rparr>"
  obtain b where cd: "create_dir env (get_dir fname) w = (b, w1)"
    using create_dir_present [OF env, of "get_dir fname" w] ok by (auto simp: openable_def w1_def)
  have w1: "openable w1 fname" "fresh_streams w1" "next_fp w1 = next_fp w" "files w1 = files w"
    "streams w1 = streams w" "only_file p ?key w w1" for p
    using ok fresh by (simp_all add: w1_def openable_def is_dir_def fresh_streams_def only_file_def)
  show ?thesis
  proof (cases trunc)
    case False
    obtain w2 where w2: "open_file env fname True w1 = (Some (next_fp w1), w2)"
      "stream_text w2 (next_fp w1) ?key (case files w1 ?key of None \<Rightarrow> [] | Some s \<Rightarrow> s)"
      "only_file (next_fp w1) ?key w1 w2" "next_fp w2 = next_fp w1 + 1"
      using open_file_healthy [OF env w1(1), of True] by auto
    have "fresh_streams w2" using w2(3,4) w1(2) by (auto simp: fresh_streams_def only_file_def)
    then show ?thesis
      using False cd w2 w1 only_file_trans [OF w1(6) w2(3)] by (simp add: Let_def)
  next
    case True
    obtain w2 where w2: "open_file env fname False w1 = (Some (next_fp w1), w2)"
      "stream_text w2 (next_fp w1) ?key []" "only_file (next_fp w1) ?key w1 w2" "next_fp w2 = next_fp w1 + 1"
      using open_file_healthy [OF env w1(1), of False] by auto
    define w3 where "w3 = snd (c_fclose env (next_fp w1) w2)"
    have w3: "streams w3 (next_fp w1) = None" "files w3 ?key = Some []" "only_file (next_fp w1) ?key w2 w3"
      "next_fp w3 = next_fp w2"
      using env w2(2)
      by (auto simp: w3_def c_fclose_def syscall_healthy stream_text_def write_out_def only_file_def Let_def)
    have ok3: "openable w3 fname"
      using openable_cong [OF w3(3)] openable_cong [OF w2(3)] w1(1) by simp
    obtain w4 where w4: "open_file env fname True w3 = (Some (next_fp w3), w4)"
      "stream_text w4 (next_fp w3) ?key []" "only_file (next_fp w3) ?key w3 w4" "next_fp w4 = next_fp w3 + 1"
      using open_file_healthy [OF env ok3, of True] w3(2) by auto
    have f1: "streams w1 q = None" if "next_fp w \<le> q" for q
      using that w1(2,3) by (simp add: fresh_streams_def)
    have "only_file (next_fp w3) ?key w w4"
      using w1(6) [of 0] w2(3,4) w3 w4(3) f1 w1(3,5) unfolding only_file_def
      by (metis Suc_eq_plus1 dual_order.refl le_SucI)
    moreover have "fresh_streams w4"
      using w4(3,4) w3 w2(3,4) w1(2,3) by (auto simp: fresh_streams_def only_file_def)
    ultimately show ?thesis
      using True cd w2 w4 by (simp add: Let_def flip: w3_def)
  qed
qed

lemma file_open_healthy:
  assumes "healthy env" and "openable w fname" and "fresh_streams w" and "0 < n"
  shows "\<exists>p w'. file_open env None fname trunc n ms w = (None, Some p, w') \<and>
     stream_text w' p (path_key fname)
       (if trunc then [] else (case files w (path_key fname) of None \<Rightarrow> [] | Some s \<Rightarrow> s)) \<and>
     only_file p (path_key fname) w w' \<and> fresh_streams w'"
  using open_tries_healthy [OF assms(1-3), of trunc "n - 1" ms] assms(4)
  by (auto simp: file_open_def file_close_def)

section \<open>Names\<close>

lemma find_first_of_Some:
  assumes "find_first_of c s 0 = Some k"
  shows "k < length s" and "s ! k = c" and "c \<notin> set (take k s)"
proof -
  have k: "k = length (takeWhile (\<lambda>x. x \<noteq> c) s)" and "k < length s"
    using assms by (auto simp: find_first_of_def Let_def split: if_splits)
  then show "k < length s" and "s ! k = c" using nth_length_takeWhile [of "\<lambda>x. x \<noteq> c" s] by auto
  have "take k s = takeWhile (\<lambda>x. x \<noteq> c) s" by (metis k takeWhile_eq_take)
  then show "c \<notin> set (take k s)" by (metis set_takeWhileD)
qed

lemma find_first_of_None: "find_first_of c s 0 = None \<longleftrightarrow> c \<notin> set s"
proof
  assume "find_first_of c s 0 = None"
  then have "\<not> length (takeWhile (\<lambda>x. x \<noteq> c) s) < length s" by (auto simp: find_first_of_def Let_def split: if_splits)
  then have "takeWhile (\<lambda>x. x \<noteq> c) s = s"
    by (metis takeWhile_eq_take take_all linorder_not_less)
  then show "c \<notin> set s" by (metis set_takeWhileD)
next
  assume "c \<notin> set s"
  then have "length (takeWhile (\<lambda>x. x \<noteq> c) s) = length s"
    by (metis (mono_tags) takeWhile_eq_all_conv)
  then show "find_first_of c s 0 = None" unfolding find_first_of_def Let_def drop_0 by simp
qed

lemma find_last_of_Some:
  assumes "find_last_of c s = Some k"
  shows "k < length s" and "s ! k = c" and "c \<notin> set (drop (Suc k) s)"
proof -
  obtain j where j: "find_first_of c (rev s) 0 = Some j" and k: "k = length s - 1 - j"
    using assms by (auto simp: find_last_of_def)
  note f = find_first_of_Some [OF j]
  then show "k < length s" using k by simp
  show "s ! k = c" using f(1,2) k by (simp add: rev_nth)
  have "Suc k = length s - j" using f(1) k by simp
  then show "c \<notin> set (drop (Suc k) s)" using f(3) by (simp add: take_rev)
qed

lemma find_last_of_None: "find_last_of c s = None \<longleftrightarrow> c \<notin> set s"
  by (simp add: find_last_of_def find_first_of_None)

lemma unat_pos_of: "k < 2 ^ 63 \<Longrightarrow> unat (pos_of (Some k)) = k"
  by (simp add: pos_of_def unat_of_nat)

text \<open>The suffix starts at the last dot of the last component, unless that is its first character.\<close>

lemma suffix_pos_cases:
  assumes "length fname < 2 ^ 63"
  shows "unat (suffix_pos fname) = length fname \<or>
     (\<exists>k. unat (suffix_pos fname) = k \<and> 0 < k \<and> k < length fname \<and> fname ! k = CHR ''.'' \<and>
          CHR ''.'' \<notin> set (drop (Suc k) fname) \<and> FOLDER_SPR \<notin> set (drop k fname) \<and>
          fname ! (k - 1) \<noteq> FOLDER_SPR)"
proof (cases "find_last_of (CHR ''.'') fname")
  case None
  then have "suffix_pos fname = of_nat (length fname)"
    by (simp add: suffix_pos_def pos_of_def Let_def)
  then show ?thesis using assms by (simp add: unat_of_nat)
next
  case (Some k)
  note dot = find_last_of_Some [OF Some]
  have uk: "unat (pos_of (Some k)) = k" using dot(1) assms by (intro unat_pos_of) simp
  have "unat npos = 2 ^ 64 - 1"
    by (simp add: npos_def unsigned_minus_1_eq_mask mask_eq_exp_minus_1)
  then have nonpos: "pos_of (Some k) \<noteq> npos" using uk dot(1) assms by auto
  have whole: ?thesis if "suffix_pos fname = of_nat (length fname)"
    using that assms by (simp add: unat_of_nat)
  show ?thesis
  proof (cases "find_last_of FOLDER_SPR fname")
    case None
    then have no: "FOLDER_SPR \<notin> set fname" by (simp add: find_last_of_None)
    have cond: "pos_of (Some k) \<le> pos_of None + 1 \<longleftrightarrow> k = 0"
      using uk by (simp add: pos_of_def npos_def word_le_nat_alt)
    show ?thesis
    proof (cases "k = 0")
      case True
      then show ?thesis using whole cond Some None by (simp add: suffix_pos_def Let_def)
    next
      case False
      then have "suffix_pos fname = pos_of (Some k)"
        using cond Some None nonpos by (simp add: suffix_pos_def Let_def)
      moreover have "FOLDER_SPR \<notin> set (drop k fname)" using no by (meson in_set_dropD)
      moreover have "fname ! (k - 1) \<noteq> FOLDER_SPR" using no dot(1) by (metis less_imp_diff_less nth_mem)
      ultimately show ?thesis using False uk dot by auto
    qed
  next
    case slash: (Some j)
    note sl = find_last_of_Some [OF slash]
    have uj: "unat (pos_of (Some j)) = j" using sl(1) assms by (intro unat_pos_of) simp
    then have "unat (pos_of (Some j) + 1) = j + 1"
      using sl(1) assms by (simp add: unat_word_ariths)
    then have cond: "pos_of (Some k) \<le> pos_of (Some j) + 1 \<longleftrightarrow> k \<le> j + 1"
      using uk by (simp add: word_le_nat_alt)
    show ?thesis
    proof (cases "k \<le> j + 1")
      case True
      then show ?thesis using whole cond Some slash by (simp add: suffix_pos_def Let_def)
    next
      case False
      then have "suffix_pos fname = pos_of (Some k)"
        using cond Some slash nonpos by (simp add: suffix_pos_def Let_def)
      moreover have "set (drop k fname) \<subseteq> set (drop (Suc j) fname)"
        using False by (intro set_drop_subset_set_drop) simp
      moreover have "fname ! (k - 1) \<in> set (drop (Suc j) fname)"
      proof -
        have "Suc j + (k - 1 - Suc j) = k - 1" using False by arith
        moreover have "drop (Suc j) fname ! (k - 1 - Suc j) = fname ! (Suc j + (k - 1 - Suc j))"
          using False dot(1) by (intro nth_drop) arith
        ultimately have "drop (Suc j) fname ! (k - 1 - Suc j) = fname ! (k - 1)" by (simp only:)
        moreover have "k - 1 - Suc j < length (drop (Suc j) fname)" using False dot(1) by simp
        ultimately show ?thesis by (metis nth_mem)
      qed
      ultimately show ?thesis using False uk dot sl(3) by auto
    qed
  qed
qed

section \<open>Creating directories\<close>

lemma c_stat_healthy:
  "healthy env \<Longrightarrow> c_stat env path w =
     (path \<noteq> [] \<and> (is_dir w (path_key path) \<or> files w (path_key path) \<noteq> None), w\<lparr>calls := calls w + 1\<rparr>)"
  by (simp add: c_stat_def syscall_healthy is_dir_def)

lemma create_dir_loop_absolute:
  assumes "path \<noteq> []" and "hd path = FOLDER_SPR"
  shows "fst (create_dir_loop env path 0 w) = False"
proof -
  obtain r where path: "path = FOLDER_SPR # r" using assms by (cases path) auto
  have "find_first_of FOLDER_SPR path 0 = Some 0" by (simp add: path find_first_of_def)
  moreover have "fst (dir_exist env [] w) = False" for w
    by (simp add: dir_exist_def c_stat_def split: prod.split)
  moreover have "fst (os_mkdir env [] w) = False" for w
    by (simp add: os_mkdir_def c_mkdir_def Let_def split: prod.split)
  ultimately show ?thesis
    by (subst create_dir_loop.simps) (simp add: path Let_def split: prod.split bool.split, metis fst_conv)
qed

section \<open>Properties\<close>

text \<open>
  An absolute path that does not exist yet is never created, whatever the system
  does: the first component the loop looks at is the empty string in front of the leading
  separator, which neither exists nor can be made.
\<close>

theorem create_dir_absolute_fails:
  assumes "path \<noteq> []" and "hd path = FOLDER_SPR"
    and "\<not> is_dir w (path_key path)" and "files w (path_key path) = None"
  shows "\<not> fst (create_dir env path w)"
proof -
  have "\<not> fst (dir_exist env path w)"
    using assms(3,4)
    by (auto simp: dir_exist_def c_stat_def syscall_def is_dir_def Let_def split: option.splits)
  then show ?thesis
    using assms(1) create_dir_loop_absolute [OF assms(1,2), of env]
    by (auto simp: create_dir_def split: prod.split bool.split)
qed

definition sample_world :: os_world where
  "sample_world = \<lparr>dirs = (\<lambda>k. k = (False, [''log''])), files = Map.empty, streams = Map.empty,
     next_fp = 3, calls = 0, errno = 0, slept_us = 0, bad_use = False\<rparr>"

definition sample_os :: os_env where
  "sample_os = \<lparr>fault = (\<lambda>_. None), spill = (\<lambda>_. False), strerror = (\<lambda>_. ''error''),
     src_file = ''file_base.h''\<rparr>"

theorem create_dir_absolute_fails_witness:
  "\<not> fst (create_dir sample_os ''/var/app'' sample_world)"
  by (rule create_dir_absolute_fails)
    (simp_all add: FOLDER_SPR_def path_key_def is_dir_def sample_world_def)

text \<open>
  \<open>suffix_pos\<close> splits a name at the last dot of its last component, never at the first
  character of the component and never inside a directory name; without such a dot the suffix is
  empty. The search results \<open>npos\<close> and \<open>npos + 1 = 0\<close> that the comparison relies on do not
  disturb it.
\<close>

theorem suffix_pos_last_dot:
  assumes "length fname < 2 ^ 63"
  shows "\<exists>base suffix. fname = base @ suffix \<and> unat (suffix_pos fname) = length base \<and>
     FOLDER_SPR \<notin> set suffix \<and>
     (suffix = [] \<or> (\<exists>s. suffix = CHR ''.'' # s \<and> CHR ''.'' \<notin> set s) \<and> base \<noteq> [] \<and> last base \<noteq> FOLDER_SPR)"
proof -
  let ?k = "unat (suffix_pos fname)"
  from suffix_pos_cases [OF assms] show ?thesis
  proof (elim disjE exE conjE)
    assume "?k = length fname"
    then show ?thesis by (intro exI [of _ fname] exI [of _ "[]"]) simp
  next
    fix k
    assume k: "?k = k" "0 < k" "k < length fname" "fname ! k = CHR ''.''"
      "CHR ''.'' \<notin> set (drop (Suc k) fname)" "FOLDER_SPR \<notin> set (drop k fname)"
      "fname ! (k - 1) \<noteq> FOLDER_SPR"
    have "drop k fname = CHR ''.'' # drop (Suc k) fname" using k(3,4) by (simp add: Cons_nth_drop_Suc [symmetric])
    moreover have ne: "take k fname \<noteq> []" using k(2,3) by auto
    moreover have "last (take k fname) = fname ! (k - 1)"
      using k(2,3) ne by (simp add: last_conv_nth min_def)
    moreover have "fname = take k fname @ drop k fname" by simp
    moreover have "length (take k fname) = k" using k(3) by simp
    ultimately show ?thesis using k(1,5,6,7) by metis
  qed
qed

theorem suffix_pos_last_dot_witness:
  "\<exists>base suffix. ''logs.d/app.txt'' = base @ suffix \<and>
     unat (suffix_pos ''logs.d/app.txt'') = length base \<and> FOLDER_SPR \<notin> set suffix"
  using suffix_pos_last_dot [of "''logs.d/app.txt''"] by auto

end
