(* ===== verification/Rolling_File_Sink.thy ===== *)
theory Rolling_File_Sink
  imports Os_Files
begin

text \<open>
  \<^verbatim>\<open>sinks/rolling_file_sink.h\<close>: numbered log files of bounded size. The record has the members
  of the class (its formatter is that of the sink around it); the text that \<open>output_\<close> formats is
  an argument. Sizes and indices are 64-bit words. An operation returns the exception it throws,
  if any, the sink and the world.
\<close>

section \<open>State and operations\<close>

record rolling =
  r_file :: "fp option"
  base_fname :: string
  file_index :: size_t
  cur_file_size :: size_t
  max_file_size :: size_t
  max_file_num :: size_t

definition get_rolling_filename :: "string \<Rightarrow> size_t \<Rightarrow> size_t \<Rightarrow> string" where
  "get_rolling_filename base max_num roll_index =
     (let sp = unat (suffix_pos base);
          basename = take sp base;
          suffix = drop sp base;
          b = append_string_view basename [];
          b = append_string_view ''_'' b;
          index_len = count_unsigned_digits UInt64 (uint max_num);
          b = fill_uint UInt64 (uint roll_index) index_len b
      in append_string_view suffix b)"

text \<open>The search for a free index, as the constructor and \<open>roll_file_\<close> do it.\<close>

function find_index :: "os_env \<Rightarrow> string \<Rightarrow> size_t \<Rightarrow> size_t \<Rightarrow> os_world \<Rightarrow> size_t \<times> os_world" where
  "find_index env base max_num i w =
     (if i < max_num then
        (case dir_exist env (get_rolling_filename base max_num i) w of
           (False, w) \<Rightarrow> (i, w)
         | (True, w) \<Rightarrow> find_index env base max_num (i + 1) w)
      else (i, w))"
  by pat_completeness auto
termination
proof (relation "measure (\<lambda>(_, _, m, i, _). unat m - unat i)")
  fix env base and m i :: size_t and w r and b :: bool and w' b'
  assume "i < m"
  then have "unat i + 1 < 2 ^ 64"
    using unsigned_less [of m, where 'a = nat] by (simp add: word_less_nat_alt)
  then have "unat (i + 1) = unat i + 1" by (simp add: unat_word_ariths)
  then show "((env, base, m, i + 1, w'), env, base, m, i, w) \<in> measure (\<lambda>(_, _, m, i, _). unat m - unat i)"
    using \<open>i < m\<close> by (simp add: word_less_nat_alt)
qed simp

declare find_index.simps [simp del]

definition rolling_name :: "rolling \<Rightarrow> string" where
  "rolling_name r = get_rolling_filename (base_fname r) (max_file_num r) (file_index r)"

text \<open>\<open>file_base::open\<close> with its default number of tries and pause.\<close>

definition open_default ::
  "os_env \<Rightarrow> fp option \<Rightarrow> string \<Rightarrow> bool \<Rightarrow> os_world \<Rightarrow> excpt option \<times> fp option \<times> os_world" where
  "open_default env fpp fname trunc w = file_open env fpp fname trunc 5 10 w"

definition rolling_new ::
  "os_env \<Rightarrow> string \<Rightarrow> size_t \<Rightarrow> size_t \<Rightarrow> os_world \<Rightarrow> (excpt + rolling) \<times> os_world" where
  "rolling_new env base max_size max_num w =
     (if max_size = 0 then
        (Inl (learnlog_excpt ''learnlog::rolling_file_sink: max_file_size equals 0''), w)
      else if max_num > 10000 then
        (Inl (learnlog_excpt ''learnlog::rolling_file_sink: max_file_num_ exceeds 10000''), w)
      else
        (case find_index env base max_num 1 w of (i, w) \<Rightarrow>
           (case open_default env None (get_rolling_filename base max_num i) True w of
              (Some e, _, w) \<Rightarrow> (Inl e, w)
            | (None, fpp, w) \<Rightarrow>
                (Inr \<lparr>r_file = fpp, base_fname = base, file_index = i, cur_file_size = 0,
                      max_file_size = max_size, max_file_num = max_num\<rparr>, w))))"

definition rolling_flush :: "os_env \<Rightarrow> rolling \<Rightarrow> os_world \<Rightarrow> excpt option \<times> os_world" where
  "rolling_flush env r w = file_flush env (r_file r) (rolling_name r) w"

definition roll_file :: "os_env \<Rightarrow> rolling \<Rightarrow> os_world \<Rightarrow> excpt option \<times> rolling \<times> os_world" where
  "roll_file env r w =
     (case file_close env (r_file r) (rolling_name r) w of
        (Some e, fpp, w) \<Rightarrow> (Some e, r\<lparr>r_file := fpp\<rparr>, w)
      | (None, fpp, w) \<Rightarrow>
          (case find_index env (base_fname r) (max_file_num r) (file_index r) w of (i, w) \<Rightarrow>
             (let r = r\<lparr>r_file := fpp, file_index := i\<rparr>
              in case open_default env (r_file r) (rolling_name r) True w of
                   (e, fpp, w) \<Rightarrow> (e, r\<lparr>r_file := fpp\<rparr>, w))))"

text \<open>\<open>output_\<close>: first the branch that makes room, then the write.\<close>

definition make_room ::
  "os_env \<Rightarrow> rolling \<Rightarrow> size_t \<Rightarrow> os_world \<Rightarrow> excpt option \<times> rolling \<times> os_world" where
  "make_room env r len w =
     (if cur_file_size r + len > max_file_size r then
        (case rolling_flush env r w of
           (Some e, w) \<Rightarrow> (Some e, r, w)
         | (None, w) \<Rightarrow>
             (case file_size env (r_file r) (rolling_name r) w of
                (Inl e, w) \<Rightarrow> (Some e, r, w)
              | (Inr n, w) \<Rightarrow>
                  (case (if n > 0 then roll_file env r w else (None, r, w)) of
                     (Some e, r, w) \<Rightarrow> (Some e, r, w)
                   | (None, r, w) \<Rightarrow> (None, r\<lparr>cur_file_size := 0\<rparr>, w))))
      else (None, r, w))"

definition rolling_output ::
  "os_env \<Rightarrow> rolling \<Rightarrow> fmt_buf \<Rightarrow> os_world \<Rightarrow> excpt option \<times> rolling \<times> os_world" where
  "rolling_output env r b w =
     (case make_room env r (of_nat (length b)) w of
        (Some e, r, w) \<Rightarrow> (Some e, r, w)
      | (None, r, w) \<Rightarrow>
          (case file_write env (r_file r) (rolling_name r) b w of
             (Some e, w) \<Rightarrow> (Some e, r, w)
           | (None, w) \<Rightarrow> (None, r\<lparr>cur_file_size := cur_file_size r + of_nat (length b)\<rparr>, w)))"

text \<open>
  The destructor: a flush, then a close. An exception of either leaves the destructor, which is
  \<open>noexcept\<close>: the program is terminated, the first component of the result.
\<close>

definition rolling_dtor :: "os_env \<Rightarrow> rolling \<Rightarrow> os_world \<Rightarrow> bool \<times> os_world" where
  "rolling_dtor env r w =
     (case rolling_flush env r w of
        (Some e, w) \<Rightarrow> (True, w)
      | (None, w) \<Rightarrow>
          (case file_close env (r_file r) (rolling_name r) w of (e, fpp, w) \<Rightarrow> (e \<noteq> None, w)))"

section \<open>File names\<close>

lemma rolling_filename_eq:
  "get_rolling_filename base max_num i =
     take (unat (suffix_pos base)) base @ ''_'' @ pad_dec (length (dec (unat max_num))) (unat i) @
     drop (unat (suffix_pos base)) base"
proof -
  have T: "in_type UInt64 (uint x)" for x :: size_t using uint_lt2p [of x] by simp
  have "unat (count_unsigned_digits UInt64 (uint max_num)) = length (dec (unat max_num))"
    using count_unsigned_digits_eq [OF T, of max_num] by simp
  then show ?thesis
    unfolding get_rolling_filename_def Let_def append_string_view_def
    by (subst fill_uint_eq [OF T]) simp_all
qed

lemma pad_dec_inj: "pad_dec k a = pad_dec k b \<Longrightarrow> a = b"
  by (metis dec_value_pad_dec)

text \<open>A component changes with its characters, whatever is in front of it.\<close>

lemma components_append:
  "FOLDER_SPR \<notin> set s \<Longrightarrow> components acc s = (if acc @ s = [] \<or> acc @ s = ''.'' then [] else [acc @ s])"
  by (induction s arbitrary: acc) auto

lemma last_component:
  assumes "s \<noteq> []" and "FOLDER_SPR \<notin> set s" and "CHR ''_'' \<in> set s"
  shows "\<exists>cs stem. components acc (d @ s) = cs @ [stem @ s]"
    and "FOLDER_SPR \<notin> set s' \<Longrightarrow> CHR ''_'' \<in> set s' \<Longrightarrow>
       components acc (d @ s) = components acc (d @ s') \<Longrightarrow> s = s'"
proof -
  have last: "\<exists>cs stem. \<forall>t. FOLDER_SPR \<notin> set t \<and> CHR ''_'' \<in> set t \<longrightarrow> components acc (d @ t) = cs @ [stem @ t]"
    for acc
  proof (induction d arbitrary: acc)
    case Nil
    have "acc @ t \<noteq> [] \<and> acc @ t \<noteq> ''.''" if "CHR ''_'' \<in> set t" for t
      using that by (cases acc) (auto simp: append_eq_Cons_conv)
    then have "\<forall>t. FOLDER_SPR \<notin> set t \<and> CHR ''_'' \<in> set t \<longrightarrow> components acc ([] @ t) = [] @ [acc @ t]"
      by (auto simp: components_append)
    then show ?case by blast
  next
    case (Cons c d)
    show ?case
    proof (cases "c = FOLDER_SPR")
      case True
      obtain cs stem where "\<forall>t. FOLDER_SPR \<notin> set t \<and> CHR ''_'' \<in> set t \<longrightarrow> components [] (d @ t) = cs @ [stem @ t]"
        using Cons.IH by blast
      then have "\<forall>t. FOLDER_SPR \<notin> set t \<and> CHR ''_'' \<in> set t \<longrightarrow> components acc ((c # d) @ t) =
          ((if acc = [] \<or> acc = ''.'' then [] else [acc]) @ cs) @ [stem @ t]"
        using True by simp
      then show ?thesis by blast
    next
      case False
      then show ?thesis using Cons.IH [of "acc @ [c]"] by simp
    qed
  qed
  then obtain cs stem where cs: "\<And>t. FOLDER_SPR \<notin> set t \<Longrightarrow> CHR ''_'' \<in> set t \<Longrightarrow> components acc (d @ t) = cs @ [stem @ t]"
    by blast
  then show "\<exists>cs stem. components acc (d @ s) = cs @ [stem @ s]" using assms by blast
  show "s = s'" if "FOLDER_SPR \<notin> set s'" "CHR ''_'' \<in> set s'"
    "components acc (d @ s) = components acc (d @ s')"
  proof -
    have "cs @ [stem @ s] = cs @ [stem @ s']"
      using cs [OF assms(2,3)] cs [OF that(1,2)] that(3) by metis
    then show ?thesis by simp
  qed
qed

lemma set_dec: "c \<in> set (dec n) \<Longrightarrow> 48 \<le> (of_char c :: nat)"
proof (induction n rule: dec.induct)
  case (1 n)
  show ?case
  proof (cases "n < 10")
    case True
    then show ?thesis using 1 dec.simps [of n] by auto
  next
    case False
    then have "dec n = dec (n div 10) @ [digit_char (n mod 10)]" by (simp only: dec.simps [of n] if_False)
    then show ?thesis using 1 False by auto
  qed
qed

lemma digits_no_slash: "FOLDER_SPR \<notin> set (pad_dec k n)"
proof
  assume "FOLDER_SPR \<in> set (pad_dec k n)"
  then have "FOLDER_SPR \<in> set (dec n)" by (auto simp: pad_dec_def FOLDER_SPR_def)
  then show False using set_dec [of FOLDER_SPR n] by (simp add: FOLDER_SPR_def)
qed

lemma suffix_no_slash:
  assumes "length base < 2 ^ 63"
  shows "FOLDER_SPR \<notin> set (drop (unat (suffix_pos base)) base)"
  using suffix_pos_cases [OF assms] by auto

lemma rolling_key_inj:
  assumes "length base < 2 ^ 63"
    and "path_key (get_rolling_filename base m i) = path_key (get_rolling_filename base m j)"
  shows "i = j"
proof -
  let ?d = "take (unat (suffix_pos base)) base" and ?s = "drop (unat (suffix_pos base)) base"
  let ?p = "\<lambda>i. ''_'' @ pad_dec (length (dec (unat m))) (unat i) @ ?s"
  have p: "FOLDER_SPR \<notin> set (?p k)" "CHR ''_'' \<in> set (?p k)" "?p k \<noteq> []" for k
    using digits_no_slash suffix_no_slash [OF assms(1)] by (auto simp: FOLDER_SPR_def)
  have "components [] (?d @ ?p i) = components [] (?d @ ?p j)"
    using assms(2) by (simp only: path_key_def rolling_filename_eq prod.inject)
  then have "?p i = ?p j" by (rule last_component(2) [OF p(3,1,2) p(1,2)])
  then have "unat i = unat j" using pad_dec_inj by (metis append_same_eq same_append_eq)
  then show ?thesis by (simp add: word_unat_eq_iff)
qed

section \<open>Packing texts into files\<close>

text \<open>
  What the sink is meant to do: texts go to the current file while they fit; a text that does
  not fit starts a new file, unless the current one is empty. The state is the list of finished
  files and the current one.
\<close>

fun pack_step :: "nat \<Rightarrow> string \<Rightarrow> string list \<times> string \<Rightarrow> string list \<times> string" where
  "pack_step mx t (old, cur) =
     (if mx < length cur + length t \<and> cur \<noteq> [] then (old @ [cur], t) else (old, cur @ t))"

definition pack :: "nat \<Rightarrow> string list \<Rightarrow> string list \<times> string" where
  "pack mx ts = fold (pack_step mx) ts ([], [])"

lemma pack_snoc: "pack mx (ts @ [t]) = pack_step mx t (pack mx ts)"
  by (simp add: pack_def)

text \<open>Nothing is lost or reordered, and only a text longer than the limit makes a longer file.\<close>

lemma pack_content:
  "concat (fst (pack mx ts)) @ snd (pack mx ts) = concat ts \<and>
   (\<forall>f \<in> set (fst (pack mx ts) @ [snd (pack mx ts)]). length f \<le> mx \<or> f \<in> set ts)"
proof (induction ts rule: rev_induct)
  case Nil
  then show ?case by (simp add: pack_def)
next
  case (snoc t ts)
  obtain old cur where p: "pack mx ts = (old, cur)" by (cases "pack mx ts")
  show ?case
    using snoc unfolding pack_snoc p by (auto simp: not_less)
qed

section \<open>The sink packs\<close>

lemma world_calls [simp]:
  "is_dir (w\<lparr>calls := k\<rparr>) = is_dir w" "openable (w\<lparr>calls := k\<rparr>) = openable w"
  "stream_text (w\<lparr>calls := k\<rparr>) = stream_text w" "fresh_streams (w\<lparr>calls := k\<rparr>) = fresh_streams w"
  by (simp_all add: is_dir_def openable_def stream_text_def fresh_streams_def fun_eq_iff)

definition rkey :: "string \<Rightarrow> nat \<Rightarrow> nat \<Rightarrow> file_key" where
  "rkey base n i = path_key (get_rolling_filename base (of_nat n) (of_nat i))"

definition names_ok :: "string \<Rightarrow> nat \<Rightarrow> os_world \<Rightarrow> bool" where
  "names_ok base n w \<longleftrightarrow>
     (\<forall>i. 1 \<le> i \<and> i \<le> n \<longrightarrow> openable w (get_rolling_filename base (of_nat n) (of_nat i)))"

lemma rkey_inj:
  assumes "length base < 2 ^ 63" and "i \<le> 10000" and "j \<le> 10000" and "rkey base n i = rkey base n j"
  shows "i = j"
proof -
  have "(of_nat i :: size_t) = of_nat j" using rolling_key_inj [OF assms(1)] assms(4) by (simp add: rkey_def)
  moreover have "unat (of_nat i :: size_t) = i" "unat (of_nat j :: size_t) = j"
    using assms(2,3) by (simp_all add: unat_of_nat)
  ultimately show ?thesis by metis
qed

lemma exist_healthy:
  assumes "healthy env" and "openable w fname"
  shows "dir_exist env fname w = (files w (path_key fname) \<noteq> None, w\<lparr>calls := calls w + 1\<rparr>)"
  using assms by (simp add: dir_exist_def c_stat_healthy openable_def)

text \<open>The search stops at a free index, or at the last one.\<close>

lemma find_index_stop:
  assumes env: "healthy env" and names: "names_ok base n w" and i: "1 \<le> i" "i \<le> n" "n \<le> 10000"
    and free: "i < n \<Longrightarrow> files w (rkey base n i) = None"
  shows "\<exists>k. find_index env base (of_nat n) (of_nat i) w = (of_nat i, w\<lparr>calls := k\<rparr>)"
proof (cases "i < n")
  case True
  then have "(of_nat i :: size_t) < of_nat n" using i by (simp add: word_less_nat_alt unat_of_nat)
  moreover have "openable w (get_rolling_filename base (of_nat n) (of_nat i))"
    using names i by (simp add: names_ok_def)
  ultimately show ?thesis
    using exist_healthy [OF env] free [OF True] unfolding rkey_def
    by (subst find_index.simps) (auto intro!: exI [of _ "calls w + 1"])
next
  case False
  then have "i = n" using i by simp
  then show ?thesis by (subst find_index.simps) (auto intro!: exI [of _ "calls w"])
qed

lemma find_index_next:
  assumes env: "healthy env" and names: "names_ok base n w" and i: "1 \<le> i" "i < n" "n \<le> 10000"
    and used: "files w (rkey base n i) \<noteq> None"
    and free: "i + 1 < n \<Longrightarrow> files w (rkey base n (i + 1)) = None"
  shows "\<exists>k. find_index env base (of_nat n) (of_nat i) w = (of_nat (i + 1), w\<lparr>calls := k\<rparr>)"
proof -
  have lt: "(of_nat i :: size_t) < of_nat n" using i by (simp add: word_less_nat_alt unat_of_nat)
  have "openable w (get_rolling_filename base (of_nat n) (of_nat i))"
    using names i by (simp add: names_ok_def)
  then have "dir_exist env (get_rolling_filename base (of_nat n) (of_nat i)) w = (True, w\<lparr>calls := calls w + 1\<rparr>)"
    using exist_healthy [OF env] used by (auto simp: rkey_def)
  then have step: "find_index env base (of_nat n) (of_nat i) w =
      find_index env base (of_nat n) (of_nat (i + 1)) (w\<lparr>calls := calls w + 1\<rparr>)"
    using lt by (subst find_index.simps) (simp add: add.commute)
  have "names_ok base n (w\<lparr>calls := calls w + 1\<rparr>)" using names by (simp add: names_ok_def)
  then show ?thesis
    using find_index_stop [OF env, of base n "w\<lparr>calls := calls w + 1\<rparr>" "i + 1"] i free
    unfolding step by auto
qed

text \<open>The current index of the sink when \<open>m\<close> files are finished.\<close>

definition cur_index :: "nat \<Rightarrow> nat \<Rightarrow> nat" where
  "cur_index n m = min (m + 1) n"

definition rolling_inv ::
  "string \<Rightarrow> nat \<Rightarrow> size_t \<Rightarrow> string list \<times> string \<Rightarrow> rolling \<Rightarrow> os_world \<Rightarrow> bool" where
  "rolling_inv base n mx st r w \<longleftrightarrow>
     base_fname r = base \<and> max_file_num r = of_nat n \<and> max_file_size r = mx \<and>
     fresh_streams w \<and> names_ok base n w \<and>
     file_index r = of_nat (cur_index n (length (fst st))) \<and>
     cur_file_size r = of_nat (length (snd st)) \<and>
     (\<exists>p. r_file r = Some p \<and> stream_text w p (rkey base n (cur_index n (length (fst st)))) (snd st)) \<and>
     (\<forall>j. 1 \<le> j \<and> j < cur_index n (length (fst st)) \<longrightarrow> files w (rkey base n j) = Some (fst st ! (j - 1))) \<and>
     (\<forall>j. cur_index n (length (fst st)) < j \<and> j \<le> n \<longrightarrow> files w (rkey base n j) = None)"

lemma rolling_invI:
  assumes "base_fname r = base" "max_file_num r = of_nat n" "max_file_size r = mx"
    "fresh_streams w" "names_ok base n w"
    "file_index r = of_nat (cur_index n (length old))" "cur_file_size r = of_nat (length cur)"
    "r_file r = Some p" "stream_text w p (rkey base n (cur_index n (length old))) cur"
    "\<And>j. 1 \<le> j \<Longrightarrow> j < cur_index n (length old) \<Longrightarrow> files w (rkey base n j) = Some (old ! (j - 1))"
    "\<And>j. cur_index n (length old) < j \<Longrightarrow> j \<le> n \<Longrightarrow> files w (rkey base n j) = None"
  shows "rolling_inv base n mx (old, cur) r w"
  using assms by (simp add: rolling_inv_def)

lemma rolling_invD:
  assumes "rolling_inv base n mx (old, cur) r w"
  shows "base_fname r = base" "max_file_num r = of_nat n" "max_file_size r = mx"
    "fresh_streams w" "names_ok base n w"
    "file_index r = of_nat (cur_index n (length old))" "cur_file_size r = of_nat (length cur)"
    "\<exists>p. r_file r = Some p \<and> stream_text w p (rkey base n (cur_index n (length old))) cur"
    "1 \<le> j \<Longrightarrow> j < cur_index n (length old) \<Longrightarrow> files w (rkey base n j) = Some (old ! (j - 1))"
    "cur_index n (length old) < j \<Longrightarrow> j \<le> n \<Longrightarrow> files w (rkey base n j) = None"
  using assms by (auto simp: rolling_inv_def)

lemma names_ok_cong: "only_file p key w w' \<Longrightarrow> names_ok base n w' = names_ok base n w"
  by (simp add: names_ok_def openable_cong)

text \<open>Writing to the current file: only its text changes.\<close>

lemma rolling_inv_write:
  assumes inv: "rolling_inv base n mx (old, cur) r w" and base: "length base < 2 ^ 63" and n: "n \<le> 10000"
    and p: "r_file r = Some p" and only: "only_file p (rkey base n (cur_index n (length old))) w w'"
    and nfp: "next_fp w' = next_fp w"
    and new: "stream_text w' p (rkey base n (cur_index n (length old))) cur'"
  shows "rolling_inv base n mx (old, cur') (r\<lparr>cur_file_size := of_nat (length cur')\<rparr>) w'"
proof -
  note D = rolling_invD [OF inv]
  have le: "cur_index n k \<le> n" for k by (simp add: cur_index_def)
  have other: "files w' (rkey base n j) = files w (rkey base n j)"
    if "j \<noteq> cur_index n (length old)" "j \<le> n" for j
  proof -
    have "rkey base n j \<noteq> rkey base n (cur_index n (length old))"
      using that rkey_inj [OF base, of j "cur_index n (length old)" n] le [of "length old"] n by auto
    then show ?thesis using only unfolding only_file_def by blast
  qed
  have pf: "p < next_fp w" using D(4,8) p stream_text_fresh by auto
  show ?thesis
  proof (rule rolling_invI)
    show "fresh_streams w'" using only_file_fresh [OF only D(4) nfp pf] .
    show "names_ok base n w'" using D(5) names_ok_cong [OF only] by simp
    show "files w' (rkey base n j) = Some (old ! (j - 1))"
      if "1 \<le> j" "j < cur_index n (length old)" for j
      using that D(9) other [of j] le [of "length old"] by simp
    show "files w' (rkey base n j) = None" if "cur_index n (length old) < j" "j \<le> n" for j
      using that D(10) other [of j] by simp
  qed (use D p new in simp_all)
qed

text \<open>Rolling: the current file is finished, the next one, or the last one again, is empty.\<close>

lemma roll_file_inv:
  assumes env: "healthy env" and inv: "rolling_inv base n mx (old, cur) r w"
    and base: "length base < 2 ^ 63" and n: "1 \<le> n" "n \<le> 10000"
  shows "\<exists>r' w'. roll_file env r w = (None, r', w') \<and>
           rolling_inv base n mx (old @ [cur], []) (r'\<lparr>cur_file_size := 0\<rparr>) w'"
proof -
  note D = rolling_invD [OF inv]
  let ?i = "cur_index n (length old)" and ?i' = "cur_index n (length (old @ [cur]))"
  have idx: "1 \<le> ?i" "?i \<le> n" "1 \<le> ?i'" "?i' \<le> n" "?i' = (if ?i < n then ?i + 1 else n)"
    "?i \<le> length old + 1" "?i < n \<longrightarrow> ?i = length old + 1"
    using n by (auto simp: cur_index_def)
  have keys: "rkey base n j \<noteq> rkey base n k" if "j \<noteq> k" "j \<le> n" "k \<le> n" for j k
    using rkey_inj [OF base, of j k n] that n by auto
  obtain p where p: "r_file r = Some p" "stream_text w p (rkey base n ?i) cur" using D(8) by blast
  obtain w1 where w1: "file_close env (Some p) (rolling_name r) w = (None, None, w1)"
    "files w1 (rkey base n ?i) = Some cur" "only_file p (rkey base n ?i) w w1" "next_fp w1 = next_fp w"
    using file_close_healthy [OF env p(2)] by blast
  have names1: "names_ok base n w1" using D(5) names_ok_cong [OF w1(3)] by simp
  have fresh1: "fresh_streams w1"
    using only_file_fresh [OF w1(3) D(4) w1(4)] stream_text_fresh [OF p(2) D(4)] by simp
  have other1: "files w1 (rkey base n j) = files w (rkey base n j)" if "j \<noteq> ?i" "j \<le> n" for j
    using w1(3) keys [OF that idx(2)] unfolding only_file_def by blast
  have "\<exists>k. find_index env base (of_nat n) (of_nat ?i) w1 = (of_nat ?i', w1\<lparr>calls := k\<rparr>)"
  proof (cases "?i < n")
    case True
    have "?i + 1 < n \<Longrightarrow> files w1 (rkey base n (?i + 1)) = None"
      using other1 [of "?i + 1"] D(10) [of "?i + 1"] by simp
    then show ?thesis
      using find_index_next [OF env names1 idx(1) True n(2)] w1(2) idx(5) True by simp
  next
    case False
    then show ?thesis
      using find_index_stop [OF env names1 idx(1,2) n(2)] idx(2,5) by simp
  qed
  then obtain k where find: "find_index env base (of_nat n) (of_nat ?i) w1 = (of_nat ?i', w1\<lparr>calls := k\<rparr>)"
    by blast
  define w2 where "w2 = w1\<lparr>calls := k\<rparr>"
  define fname where "fname = get_rolling_filename base (of_nat n) (of_nat ?i')"
  have "openable w2 fname" using names1 idx(3,4) by (simp add: names_ok_def w2_def fname_def)
  moreover have "fresh_streams w2" using fresh1 by (simp add: w2_def)
  ultimately obtain q w3 where w3: "open_default env None fname True w2 = (None, Some q, w3)"
    "stream_text w3 q (rkey base n ?i') []" "only_file q (rkey base n ?i') w2 w3" "fresh_streams w3"
    using file_open_healthy [OF env, where fname = fname and w = w2 and n = 5 and trunc = True and ms = 10]
    by (auto simp: open_default_def fname_def rkey_def)
  define r1 where "r1 = r\<lparr>r_file := Some q, file_index := of_nat ?i'\<rparr>"
  have roll: "roll_file env r w = (None, r1, w3)"
    using p(1) w1(1) find w3(1) D(1,2,6)
    by (simp add: roll_file_def Let_def rolling_name_def r1_def fname_def flip: w2_def)
  have other3: "files w3 (rkey base n j) = files w1 (rkey base n j)" if "j \<noteq> ?i'" "j \<le> n" for j
    using w3(3) keys [OF that idx(4)] unfolding only_file_def w2_def by fastforce
  have "rolling_inv base n mx (old @ [cur], []) (r1\<lparr>cur_file_size := 0\<rparr>) w3"
  proof (rule rolling_invI)
    show "names_ok base n w3" using names1 names_ok_cong [OF w3(3)] by (simp add: names_ok_def w2_def)
    fix j
    show "files w3 (rkey base n j) = Some ((old @ [cur]) ! (j - 1))" if j: "1 \<le> j" "j < ?i'"
    proof (cases "j = ?i")
      case True
      then have "?i < n" using j(2) idx(2,5) by (auto split: if_splits)
      then have "j - 1 = length old" using True idx(7) by simp
      then show ?thesis using True other3 [of j] j idx(4) w1(2) by simp
    next
      case False
      then have "j < ?i" using j(2) idx(5) idx(2) by (auto split: if_splits)
      then have "files w3 (rkey base n j) = Some (old ! (j - 1))" and "j - 1 < length old"
        using other3 [of j] other1 [of j] D(9) [OF j(1)] j idx(2,4,6) by simp_all
      then show ?thesis by (simp add: nth_append)
    qed
    show "files w3 (rkey base n j) = None" if j: "?i' < j" "j \<le> n"
    proof -
      have "?i < j" using j idx(5) by (auto split: if_splits)
      then show ?thesis using other3 [of j] other1 [of j] D(10) j by simp
    qed
  qed (use D(1-3) w3(2,4) in \<open>simp_all add: r1_def\<close>)
  then show ?thesis using roll by blast
qed

lemma word_size_less:
  assumes "a < 2 ^ 62" and "b < 2 ^ 62"
  shows "(of_nat a + of_nat b > (m :: size_t)) = (unat m < a + b)"
proof -
  have "unat (of_nat a + of_nat b :: size_t) = a + b"
    using assms by (simp add: unat_of_nat unat_word_ariths)
  then show ?thesis by (simp add: word_less_nat_alt)
qed

lemma make_room_inv:
  assumes env: "healthy env" and inv: "rolling_inv base n mx (old, cur) r w"
    and base: "length base < 2 ^ 63" and n: "1 \<le> n" "n \<le> 10000"
    and len: "length cur < 2 ^ 62" "l < 2 ^ 62"
  shows "\<exists>r' w'. make_room env r (of_nat l) w = (None, r', w') \<and>
     rolling_inv base n mx (if unat mx < length cur + l \<and> cur \<noteq> [] then (old @ [cur], []) else (old, cur)) r' w'"
proof -
  note D = rolling_invD [OF inv]
  have big: "cur_file_size r + of_nat l > max_file_size r \<longleftrightarrow> unat mx < length cur + l"
    using word_size_less [OF len] D(3,7) by simp
  show ?thesis
  proof (cases "unat mx < length cur + l")
    case False
    then show ?thesis using inv big by (simp add: make_room_def)
  next
    case True
    obtain p where p: "r_file r = Some p" "stream_text w p (rkey base n (cur_index n (length old))) cur"
      using D(8) by blast
    let ?key = "rkey base n (cur_index n (length old))"
    obtain w1 where w1: "file_flush env (Some p) (rolling_name r) w = (None, w1)" "stream_text w1 p ?key cur"
      "files w1 ?key = Some cur" "only_file p ?key w w1" "next_fp w1 = next_fp w"
      using file_flush_healthy [OF env p(2)] by blast
    obtain w2 where w2: "file_size env (Some p) (rolling_name r) w1 = (Inr (of_nat (length cur)), w2)"
      "stream_text w2 p ?key cur" "files w2 ?key = Some cur" "only_file p ?key w1 w2" "next_fp w2 = next_fp w1"
      using file_size_healthy [OF env w1(2,3)] by blast
    have r_id: "r\<lparr>cur_file_size := of_nat (length cur)\<rparr> = r" using D(7) by simp
    have inv2: "rolling_inv base n mx (old, cur) r w2"
      using rolling_inv_write [OF inv base n(2) p(1) only_file_trans [OF w1(4) w2(4)] _ w2(2)] w1(5) w2(5)
      by (simp add: r_id)
    have pos: "(of_nat (length cur) > (0 :: size_t)) \<longleftrightarrow> cur \<noteq> []"
      using len(1) by (simp add: word_less_nat_alt unat_of_nat)
    show ?thesis
    proof (cases "cur = []")
      case True
      then have "r\<lparr>cur_file_size := 0\<rparr> = r" using D(7) by simp
      then show ?thesis
        using True \<open>unat mx < length cur + l\<close> big pos p(1) w1(1) w2(1) inv2
        by (simp add: make_room_def rolling_flush_def)
    next
      case False
      obtain r' w3 where "roll_file env r w2 = (None, r', w3)"
        and "rolling_inv base n mx (old @ [cur], []) (r'\<lparr>cur_file_size := 0\<rparr>) w3"
        using roll_file_inv [OF env inv2 base n] by blast
      then show ?thesis
        using False True big pos p(1) w1(1) w2(1) by (simp add: make_room_def rolling_flush_def)
    qed
  qed
qed

lemma rolling_output_inv:
  assumes env: "healthy env" and inv: "rolling_inv base n mx (old, cur) r w"
    and base: "length base < 2 ^ 63" and n: "1 \<le> n" "n \<le> 10000"
    and len: "length cur < 2 ^ 62" "length t < 2 ^ 62"
  shows "\<exists>r' w'. rolling_output env r t w = (None, r', w') \<and>
           rolling_inv base n mx (pack_step (unat mx) t (old, cur)) r' w'"
proof -
  obtain old1 cur1 where st: "(if unat mx < length cur + length t \<and> cur \<noteq> [] then (old @ [cur], []) else (old, cur))
      = (old1, cur1)" by fastforce
  then have step: "pack_step (unat mx) t (old, cur) = (old1, cur1 @ t)" by (auto split: if_splits)
  obtain r1 w1 where room: "make_room env r (of_nat (length t)) w = (None, r1, w1)"
    and inv1: "rolling_inv base n mx (old1, cur1) r1 w1"
    using make_room_inv [OF env inv base n len] unfolding st by blast
  note D = rolling_invD [OF inv1]
  obtain p where p: "r_file r1 = Some p" "stream_text w1 p (rkey base n (cur_index n (length old1))) cur1"
    using D(8) by blast
  obtain w2 where w2: "file_write env (Some p) (rolling_name r1) t w1 = (None, w2)"
    "stream_text w2 p (rkey base n (cur_index n (length old1))) (cur1 @ t)"
    "only_file p (rkey base n (cur_index n (length old1))) w1 w2" "next_fp w2 = next_fp w1"
    using file_write_healthy [OF env p(2)] by blast
  have "rolling_inv base n mx (old1, cur1 @ t) (r1\<lparr>cur_file_size := of_nat (length (cur1 @ t))\<rparr>) w2"
    by (rule rolling_inv_write [OF inv1 base n(2) p(1) w2(3,4,2)])
  then show ?thesis using room p(1) w2(1) D(7) step by (simp add: rolling_output_def)
qed

text \<open>The messages of a sink, until one of them throws.\<close>

fun rolling_run ::
  "os_env \<Rightarrow> rolling \<Rightarrow> string list \<Rightarrow> os_world \<Rightarrow> excpt option \<times> rolling \<times> os_world" where
  "rolling_run env r [] w = (None, r, w)"
| "rolling_run env r (t # ts) w =
     (case rolling_output env r t w of
        (Some e, r, w) \<Rightarrow> (Some e, r, w)
      | (None, r, w) \<Rightarrow> rolling_run env r ts w)"

lemma pack_step_length:
  "length (snd (pack_step mx t st)) \<le> length (snd st) + length t"
  by (cases st) simp

lemma rolling_run_inv:
  assumes env: "healthy env" and inv: "rolling_inv base n mx st r w"
    and base: "length base < 2 ^ 63" and n: "1 \<le> n" "n \<le> 10000"
    and len: "length (snd st) + length (concat ts) < 2 ^ 62"
  shows "\<exists>r' w'. rolling_run env r ts w = (None, r', w') \<and>
           rolling_inv base n mx (fold (pack_step (unat mx)) ts st) r' w'"
  using inv len
proof (induction ts arbitrary: st r w)
  case Nil
  then show ?case by simp
next
  case (Cons t ts)
  obtain old cur where st: "st = (old, cur)" by (cases st)
  have "length cur < 2 ^ 62" "length t < 2 ^ 62" using Cons.prems(2) st by auto
  then obtain r1 w1 where out: "rolling_output env r t w = (None, r1, w1)"
    and inv1: "rolling_inv base n mx (pack_step (unat mx) t st) r1 w1"
    using rolling_output_inv [OF env _ base n] Cons.prems(1) unfolding st by blast
  have "length (snd (pack_step (unat mx) t st)) + length (concat ts) < 2 ^ 62"
    using pack_step_length [of "unat mx" t st] Cons.prems(2) by simp
  from Cons.IH [OF inv1 this] out show ?case by simp
qed

lemma rolling_new_inv:
  assumes env: "healthy env" and fresh: "fresh_streams w" and names: "names_ok base n w"
    and none: "\<And>j. 1 \<le> j \<Longrightarrow> j \<le> n \<Longrightarrow> files w (rkey base n j) = None"
    and mx: "mx \<noteq> 0" and base: "length base < 2 ^ 63" and n: "1 \<le> n" "n \<le> 10000"
  shows "\<exists>r w'. rolling_new env base mx (of_nat n) w = (Inr r, w') \<and> rolling_inv base n mx ([], []) r w'"
proof -
  have one: "cur_index n 0 = 1" using n by (simp add: cur_index_def)
  have small: "\<not> (of_nat n :: size_t) > 10000" using n by (simp add: word_less_nat_alt unat_of_nat)
  obtain k where find: "find_index env base (of_nat n) 1 w = (1, w\<lparr>calls := k\<rparr>)"
    using find_index_stop [OF env names, of 1] n none [of 1] by auto
  define w1 where "w1 = w\<lparr>calls := k\<rparr>"
  define fname where "fname = get_rolling_filename base (of_nat n) (1 :: size_t)"
  have "openable w1 fname" using names n(1) by (auto simp: names_ok_def w1_def fname_def dest: spec [of _ 1])
  moreover have "fresh_streams w1" using fresh by (simp add: w1_def)
  ultimately obtain q w2 where w2: "open_default env None fname True w1 = (None, Some q, w2)"
    "stream_text w2 q (path_key fname) []" "only_file q (path_key fname) w1 w2" "fresh_streams w2"
    using file_open_healthy [OF env, where fname = fname and w = w1 and n = 5 and trunc = True and ms = 10]
    by (auto simp: open_default_def)
  define r where "r = \<lparr>r_file = Some q, base_fname = base, file_index = 1, cur_file_size = 0,
    max_file_size = mx, max_file_num = of_nat n\<rparr>"
  have new: "rolling_new env base mx (of_nat n) w = (Inr r, w2)"
    using mx small find w2(1) by (simp add: rolling_new_def r_def fname_def w1_def)
  have key: "path_key fname = rkey base n 1" by (simp add: fname_def rkey_def)
  have "rolling_inv base n mx ([], []) r w2"
  proof (rule rolling_invI)
    show "names_ok base n w2" using names names_ok_cong [OF w2(3)] by (simp add: names_ok_def w1_def)
    fix j
    show "files w2 (rkey base n j) = None" if j: "cur_index n (length ([] :: string list)) < j" "j \<le> n"
    proof -
      have "rkey base n j \<noteq> rkey base n 1" using rkey_inj [OF base, of j 1 n] j one n by auto
      then have "files w2 (rkey base n j) = files w1 (rkey base n j)"
        using w2(3) unfolding only_file_def key by blast
      then show ?thesis using none [of j] j one by (simp add: w1_def)
    qed
  qed (use w2(2,4) one key in \<open>simp_all add: r_def\<close>)
  then show ?thesis using new by blast
qed

text \<open>What the files hold: the finished files in their order, and the last index the current text.\<close>

definition packed_file :: "nat \<Rightarrow> string list \<times> string \<Rightarrow> nat \<Rightarrow> string option" where
  "packed_file n st j =
     (let i = cur_index n (length (fst st))
      in if j < i then Some (fst st ! (j - 1)) else if j = i then Some (snd st) else None)"

lemma packed_files_of_inv:
  assumes inv: "rolling_inv base n mx st r w" and n: "1 \<le> n"
    and cur: "files w (rkey base n (cur_index n (length (fst st)))) = Some (snd st)" and j: "1 \<le> j" "j \<le> n"
  shows "files w (rkey base n j) = packed_file n st j"
proof -
  obtain old c where st: "st = (old, c)" by (cases st)
  note D = rolling_invD [OF inv [unfolded st]]
  consider "j < cur_index n (length old)" | "j = cur_index n (length old)" | "cur_index n (length old) < j"
    by linarith
  then show ?thesis
    by cases (use D(9,10) cur j in \<open>simp_all add: packed_file_def st\<close>)
qed

lemma rolling_flush_inv:
  assumes env: "healthy env" and inv: "rolling_inv base n mx st r w"
    and base: "length base < 2 ^ 63" and n: "1 \<le> n" "n \<le> 10000"
  shows "\<exists>w'. rolling_flush env r w = (None, w') \<and> rolling_inv base n mx st r w' \<and>
           files w' (rkey base n (cur_index n (length (fst st)))) = Some (snd st)"
proof -
  obtain old cur where st: "st = (old, cur)" by (cases st)
  note D = rolling_invD [OF inv [unfolded st]]
  obtain p where p: "r_file r = Some p" "stream_text w p (rkey base n (cur_index n (length old))) cur"
    using D(8) by blast
  obtain w1 where w1: "file_flush env (Some p) (rolling_name r) w = (None, w1)"
    "stream_text w1 p (rkey base n (cur_index n (length old))) cur"
    "files w1 (rkey base n (cur_index n (length old))) = Some cur"
    "only_file p (rkey base n (cur_index n (length old))) w w1" "next_fp w1 = next_fp w"
    using file_flush_healthy [OF env p(2)] by blast
  have "r\<lparr>cur_file_size := of_nat (length cur)\<rparr> = r" using D(7) by simp
  then show ?thesis
    using rolling_inv_write [OF inv [unfolded st] base n(2) p(1) w1(4,5,2)] p(1) w1(1,3)
    by (simp add: rolling_flush_def st)
qed

lemma packed_file_limit:
  assumes "packed_file n (pack mx ts) j = Some f" and "1 \<le> j"
  shows "length f \<le> mx \<or> f \<in> set ts"
proof -
  let ?st = "pack mx ts"
  have "f \<in> set (fst ?st @ [snd ?st])"
  proof (cases "j < cur_index n (length (fst ?st))")
    case True
    have "cur_index n (length (fst ?st)) \<le> length (fst ?st) + 1" by (simp add: cur_index_def)
    then have "j - 1 < length (fst ?st)" using assms(2) True by linarith
    then show ?thesis using assms(1) True by (auto simp: packed_file_def dest: nth_mem)
  next
    case False
    then show ?thesis using assms(1) by (auto simp: packed_file_def Let_def split: if_splits)
  qed
  then show ?thesis using pack_content by blast
qed

section \<open>A sink that lost its file\<close>

lemma make_room_null:
  assumes "r_file r = None" and "make_room env r l w = (e, r', w')"
  shows "r' = r \<and> (e = None \<longrightarrow> w' = w)"
  using assms by (auto simp: make_room_def file_size_def rolling_flush_def split: if_splits prod.splits option.splits)

lemma rolling_output_null:
  assumes "r_file r = None" and "rolling_output env r b w = (e, r', w')"
  shows "r_file r' = None \<and> max_file_size r' = max_file_size r \<and>
         (e = None \<longrightarrow> w' = w) \<and>
         (cur_file_size r + of_nat (length b) > max_file_size r \<longrightarrow> e \<noteq> None \<and> r' = r)"
proof -
  obtain e1 r1 w1 where room: "make_room env r (of_nat (length b)) w = (e1, r1, w1)"
    by (cases "make_room env r (of_nat (length b)) w")
  note null = make_room_null [OF assms(1) room]
  have big: "e1 \<noteq> None" if "cur_file_size r + of_nat (length b) > max_file_size r"
    using room that assms(1)
    by (auto simp: make_room_def file_size_def split: prod.splits option.splits)
  show ?thesis
    using assms room null big
    by (cases e1) (auto simp: rolling_output_def file_write_def)
qed

section \<open>Properties\<close>

text \<open>
  C24: without faults and without files of its names, a sink for up to \<open>n\<close> files packs any sequence
  of texts as intended: after the last flush file 1, 2, ... hold the packed files in order, the
  last index holds the text currently written, the files behind it do not exist, and no
  message throws. The file size that the sink counts itself never drifts from the real one.
\<close>

theorem rolling_packs:
  assumes "healthy env" and "fresh_streams w" and "names_ok base n w"
    and "\<And>j. 1 \<le> j \<Longrightarrow> j \<le> n \<Longrightarrow> files w (rkey base n j) = None"
    and "mx \<noteq> 0" and "length base < 2 ^ 63" and "1 \<le> n" and "n \<le> 10000"
    and "length (concat ts) < 2 ^ 62"
  shows "\<exists>r r' w1 w2 w3.
     rolling_new env base mx (of_nat n) w = (Inr r, w1) \<and>
     rolling_run env r ts w1 = (None, r', w2) \<and> rolling_flush env r' w2 = (None, w3) \<and>
     (\<forall>j. 1 \<le> j \<and> j \<le> n \<longrightarrow> files w3 (rkey base n j) = packed_file n (pack (unat mx) ts) j)"
proof -
  obtain r w1 where new: "rolling_new env base mx (of_nat n) w = (Inr r, w1)"
    and inv1: "rolling_inv base n mx ([], []) r w1"
    using rolling_new_inv [OF assms(1-8)] by blast
  obtain r' w2 where run: "rolling_run env r ts w1 = (None, r', w2)"
    and inv2: "rolling_inv base n mx (pack (unat mx) ts) r' w2"
    using rolling_run_inv [OF assms(1) inv1 assms(6,7,8), of ts] assms(9) by (auto simp: pack_def)
  obtain w3 where flush: "rolling_flush env r' w2 = (None, w3)"
    and inv3: "rolling_inv base n mx (pack (unat mx) ts) r' w3"
    and cur: "files w3 (rkey base n (cur_index n (length (fst (pack (unat mx) ts))))) = Some (snd (pack (unat mx) ts))"
    using rolling_flush_inv [OF assms(1) inv2 assms(6,7,8)] by blast
  show ?thesis
    using new run flush packed_files_of_inv [OF inv3 assms(7) cur] by blast
qed

text \<open>
  C25: under the same conditions no file is longer than \<open>max_file_size\<close>, unless it holds a single
  message that is longer itself; and as long as the packed texts need at most \<open>n\<close> files, the
  files together hold every message, complete and in order.
\<close>

theorem rolling_limits:
  assumes "healthy env" and "fresh_streams w" and "names_ok base n w"
    and "\<And>j. 1 \<le> j \<Longrightarrow> j \<le> n \<Longrightarrow> files w (rkey base n j) = None"
    and "mx \<noteq> 0" and "length base < 2 ^ 63" and "1 \<le> n" and "n \<le> 10000"
    and "length (concat ts) < 2 ^ 62"
    and "rolling_new env base mx (of_nat n) w = (Inr r, w1)" and "rolling_run env r ts w1 = (e, r', w2)"
    and "rolling_flush env r' w2 = (e', w3)"
  shows "(1 \<le> j \<and> j \<le> n \<and> files w3 (rkey base n j) = Some f \<longrightarrow> length f \<le> unat mx \<or> f \<in> set ts) \<and>
     (length (fst (pack (unat mx) ts)) < n \<longrightarrow>
        concat (map (\<lambda>j. the (files w3 (rkey base n j))) [1..<length (fst (pack (unat mx) ts)) + 2]) = concat ts)"
proof -
  obtain r1 v1 where new: "rolling_new env base mx (of_nat n) w = (Inr r1, v1)"
    and inv1: "rolling_inv base n mx ([], []) r1 v1"
    using rolling_new_inv [OF assms(1-8)] by blast
  have inv1: "rolling_inv base n mx ([], []) r w1" using new inv1 assms(10) by simp
  have inv2: "rolling_inv base n mx (pack (unat mx) ts) r' w2"
    using rolling_run_inv [OF assms(1) inv1 assms(6,7,8), of ts] assms(9,11) by (auto simp: pack_def)
  have inv3: "rolling_inv base n mx (pack (unat mx) ts) r' w3"
    and cur: "files w3 (rkey base n (cur_index n (length (fst (pack (unat mx) ts))))) = Some (snd (pack (unat mx) ts))"
    using rolling_flush_inv [OF assms(1) inv2 assms(6,7,8)] assms(12) by auto
  have packed: "files w3 (rkey base n j) = packed_file n (pack (unat mx) ts) j" if "1 \<le> j" "j \<le> n" for j
    using packed_files_of_inv [OF inv3 assms(7) cur that] .
  define st where "st = pack (unat mx) ts"
  have "map (\<lambda>j. the (files w3 (rkey base n j))) [1..<length (fst st) + 2] = fst st @ [snd st]"
    if less: "length (fst st) < n"
  proof (rule nth_equalityI)
    fix i assume "i < length (map (\<lambda>j. the (files w3 (rkey base n j))) [1..<length (fst st) + 2])"
    then have i: "i < length (fst st) + 1" by (simp del: upt_Suc)
    have "files w3 (rkey base n (i + 1)) = packed_file n st (i + 1)"
      using packed [of "i + 1"] i less by (simp add: st_def)
    moreover have "packed_file n st (i + 1) = Some ((fst st @ [snd st]) ! i)"
      using i less by (auto simp: packed_file_def cur_index_def nth_append Let_def)
    moreover have "map (\<lambda>j. the (files w3 (rkey base n j))) [1..<length (fst st) + 2] ! i =
        the (files w3 (rkey base n (i + 1)))"
      using i by (simp del: upt_Suc)
    ultimately show "map (\<lambda>j. the (files w3 (rkey base n j))) [1..<length (fst st) + 2] ! i = (fst st @ [snd st]) ! i"
      by simp
  qed (simp del: upt_Suc)
  then show ?thesis
    using packed packed_file_limit [of n "unat mx" ts j f] pack_content [of "unat mx" ts]
    by (auto simp: st_def)
qed

text \<open>
  Once a failed roll has left the sink without a file, it never opens one again, however
  healthy the system is: a message that the size check passes is dropped without an error and
  leaves the world as it was, and every other message throws.
\<close>

theorem rolling_dead:
  assumes "r_file r = None" and "rolling_output env r b w = (e, r', w')"
  shows "r_file r' = None \<and> (e = None \<longrightarrow> w' = w) \<and>
     (cur_file_size r + of_nat (length b) > max_file_size r \<longrightarrow> e \<noteq> None \<and> r' = r)"
  using rolling_output_null [OF assms] by blast

lemma sample_names: "names_ok ''log/app.txt'' 2 sample_world"
proof -
  have "suffix_pos ''log/app.txt'' = 7"
    by (simp add: suffix_pos_def Let_def find_last_of_def find_first_of_def pos_of_def FOLDER_SPR_def npos_def)
  moreover have "dec 2 = ''2''" by (simp add: dec.simps [of 2] digit_char_def char_of_eq_iff)
  moreover have "dec (Suc 0) = ''1''" by (simp add: dec.simps [of "Suc 0"] digit_char_def char_of_eq_iff)
  ultimately have names: "get_rolling_filename ''log/app.txt'' 2 1 = ''log/app_1.txt''"
    "get_rolling_filename ''log/app.txt'' 2 2 = ''log/app_2.txt''"
    by (simp_all add: rolling_filename_eq pad_dec_def)
  have "openable sample_world ''log/app_1.txt''" "openable sample_world ''log/app_2.txt''"
    by (simp_all add: openable_def path_key_def parent_def FOLDER_SPR_def
        sample_world_def is_dir_def get_dir_def find_last_of_def find_first_of_def Let_def)
  moreover have "i = 1 \<or> i = 2" if "1 \<le> i" "i \<le> 2" for i :: nat using that by linarith
  ultimately show ?thesis unfolding names_ok_def using names by fastforce
qed

lemma sample_healthy: "healthy sample_os" "fresh_streams sample_world" "files sample_world k = None"
  by (simp_all add: healthy_def sample_os_def fresh_streams_def sample_world_def)

theorem rolling_packs_witness:
  "\<exists>r r' w1 w2 w3.
     rolling_new sample_os ''log/app.txt'' 4 2 sample_world = (Inr r, w1) \<and>
     rolling_run sample_os r [''abc'', ''de'', ''f''] w1 = (None, r', w2) \<and>
     rolling_flush sample_os r' w2 = (None, w3) \<and>
     files w3 (rkey ''log/app.txt'' 2 1) = Some ''abc'' \<and> files w3 (rkey ''log/app.txt'' 2 2) = Some ''def''"
proof -
  have "pack 4 [''abc'', ''de'', ''f''] = ([''abc''], ''def'')" by (simp add: pack_def)
  then have "packed_file 2 (pack (unat (4 :: size_t)) [''abc'', ''de'', ''f'']) 1 = Some ''abc''"
    "packed_file 2 (pack (unat (4 :: size_t)) [''abc'', ''de'', ''f'']) 2 = Some ''def''"
    by (simp_all add: packed_file_def cur_index_def)
  then show ?thesis
    using rolling_packs [OF sample_healthy(1,2) sample_names sample_healthy(3), of 4 "[''abc'', ''de'', ''f'']"]
    by fastforce
qed

theorem rolling_limits_witness:
  "\<exists>r r' w1 w2 w3.
     rolling_new sample_os ''log/app.txt'' 4 2 sample_world = (Inr r, w1) \<and>
     rolling_run sample_os r [''abc'', ''de'', ''f''] w1 = (None, r', w2) \<and>
     rolling_flush sample_os r' w2 = (None, w3) \<and>
     (\<forall>f. files w3 (rkey ''log/app.txt'' 2 1) = Some f \<longrightarrow> length f \<le> 4 \<or> f \<in> set [''abc'', ''de'', ''f''])"
proof -
  let ?ts = "[''abc'', ''de'', ''f'']"
  obtain r w1 where new: "rolling_new sample_os ''log/app.txt'' 4 (of_nat 2) sample_world = (Inr r, w1)"
    and inv1: "rolling_inv ''log/app.txt'' 2 4 ([], []) r w1"
    using rolling_new_inv [OF sample_healthy(1,2) sample_names sample_healthy(3), of 4] by auto
  obtain r' w2 where run: "rolling_run sample_os r ?ts w1 = (None, r', w2)"
    and inv2: "rolling_inv ''log/app.txt'' 2 4 (pack 4 ?ts) r' w2"
    using rolling_run_inv [OF sample_healthy(1) inv1, of ?ts] by (auto simp: pack_def)
  obtain w3 where flush: "rolling_flush sample_os r' w2 = (None, w3)"
    using rolling_flush_inv [OF sample_healthy(1) inv2] by auto
  note lim = rolling_limits [OF sample_healthy(1,2) sample_names sample_healthy(3) _ _ _ _ _ new run flush]
  have "\<forall>f. files w3 (rkey ''log/app.txt'' 2 1) = Some f \<longrightarrow> length f \<le> 4 \<or> f \<in> set ?ts"
    using lim [of 1] by auto
  then show ?thesis using new run flush by auto
qed

theorem rolling_dead_witness:
  "let r = \<lparr>r_file = None, base_fname = ''log/app.txt'', file_index = 1, cur_file_size = 3,
            max_file_size = 4, max_file_num = 2\<rparr>;
       (e, r', w') = rolling_output sample_os r ''ab'' sample_world
   in r_file r' = None \<and> e \<noteq> None \<and> r' = r"
proof -
  define r where "r = \<lparr>r_file = None, base_fname = ''log/app.txt'', file_index = 1, cur_file_size = 3,
     max_file_size = 4, max_file_num = (2 :: size_t)\<rparr>"
  obtain e r' w' where out: "rolling_output sample_os r ''ab'' sample_world = (e, r', w')"
    by (cases "rolling_output sample_os r ''ab'' sample_world")
  show ?thesis
    using rolling_dead [OF _ out] out unfolding Let_def r_def [symmetric] by (simp add: r_def)
qed

end
