(* ===== verification/Sinks.thy ===== *)
theory Sinks
  imports Pattern_Formatter Rolling_File_Sink
begin

text \<open>
  The sinks: \<^verbatim>\<open>sinks/sink.h\<close>, \<^verbatim>\<open>basic_sink.h\<close> and its subclasses (\<^verbatim>\<open>null_sink.h\<close>,
  \<^verbatim>\<open>ostream_sink.h\<close>, \<^verbatim>\<open>basic_file_sink.h\<close>, \<^verbatim>\<open>rolling_file_sink.h\<close>), \<^verbatim>\<open>std_sinks.h\<close> and
  \<^verbatim>\<open>ansicolor_sink.h\<close>. A sink is the record of its base class with a \<open>sink_kind\<close> that holds the
  members of its subclass; the virtual calls are cases on the kind. Every operation holds the
  sink's mutex for its whole body, so operations are atomic. Undefined behaviour while formatting
  is \<open>None\<close>; an exception is a value, returned with the state it leaves behind.
\<close>

section \<open>Environment and state\<close>

text \<open>
  \<open>clock\<close> is what \<open>sys_clock::now()\<close> returns at its n-th call, \<open>src_path\<close> the compiler's
  \<open>__FILE__\<close>, \<open>isatty\<close>, \<open>colorterm\<close> and \<open>term_name\<close> the terminal and its variables.
\<close>

record 'c sys_env =
  fenv :: "'c formatting_env"
  oenv :: os_env
  clock :: "nat \<Rightarrow> int"
  src_path :: "string \<Rightarrow> string"
  isatty :: "fp \<Rightarrow> bool"
  colorterm :: "string option"
  term_name :: "string option"

text \<open>A \<open>std::ostream\<close> that does not throw: once it is bad it ignores what is written.\<close>

record ostream =
  os_written :: string
  os_buffer :: string
  os_bad :: bool

record io_state =
  world :: os_world
  ostreams :: "nat \<Rightarrow> ostream"
  ticks :: nat

definition ostream_write :: "os_env \<Rightarrow> nat \<Rightarrow> fmt_buf \<Rightarrow> io_state \<Rightarrow> io_state" where
  "ostream_write env k b io =
     (let os = ostreams io k
      in if os_bad os then io
         else case syscall env (world io) of
                (False, w) \<Rightarrow> io\<lparr>world := w, ostreams := (ostreams io)(k := os\<lparr>os_bad := True\<rparr>)\<rparr>
              | (True, w) \<Rightarrow>
                  io\<lparr>world := w, ostreams := (ostreams io)(k :=
                    if spill env (calls w) then os\<lparr>os_written := os_written os @ os_buffer os @ b, os_buffer := []\<rparr>
                    else os\<lparr>os_buffer := os_buffer os @ b\<rparr>)\<rparr>)"

definition ostream_flush :: "os_env \<Rightarrow> nat \<Rightarrow> io_state \<Rightarrow> io_state" where
  "ostream_flush env k io =
     (let os = ostreams io k
      in if os_bad os then io
         else case syscall env (world io) of
                (False, w) \<Rightarrow> io\<lparr>world := w, ostreams := (ostreams io)(k := os\<lparr>os_bad := True\<rparr>)\<rparr>
              | (True, w) \<Rightarrow>
                  io\<lparr>world := w, ostreams := (ostreams io)(k :=
                    os\<lparr>os_written := os_written os @ os_buffer os, os_buffer := []\<rparr>)\<rparr>)"

datatype sink_kind =
    Null_sink
  | Ostream_sink nat bool
  | Basic_file_sink "fp option" string
  | Rolling_sink rolling
  | Std_sink fp
  | Ansicolor_sink fp bool "level_enum \<Rightarrow> string"

record 'c sink =
  sink_level :: level_enum
  formatter :: "'c pattern_formatter"
  kind :: sink_kind

section \<open>The base class\<close>

definition sink_set_level :: "level_enum \<Rightarrow> 'c sink \<Rightarrow> 'c sink" where
  "sink_set_level l s = s\<lparr>sink_level := l\<rparr>"

definition sink_get_level :: "'c sink \<Rightarrow> level_enum" where
  "sink_get_level s = sink_level s"

definition sink_should_log :: "level_enum \<Rightarrow> 'c sink \<Rightarrow> bool" where
  "sink_should_log msg_level s \<longleftrightarrow> msg_level \<ge> sink_level s"

text \<open>A new sink has the level \<open>trace\<close> and the default formatter.\<close>

definition basic_sink_new :: "sink_kind \<Rightarrow> 'c sink" where
  "basic_sink_new k = \<lparr>sink_level = Trace, formatter = pf_default, kind = k\<rparr>"

text \<open>A new pattern formatter; the clock readings its duration items take are numbered on.\<close>

definition make_formatter ::
  "'c sys_env \<Rightarrow> string \<Rightarrow> io_state \<Rightarrow> ('c pattern_formatter \<times> io_state) option" where
  "make_formatter env pat io =
     do { pf \<leftarrow> pf_new (fenv env) (\<lambda>k. clock env (ticks io + k)) pat DEFAULT_EOL Map.empty;
          Some (pf, io\<lparr>ticks := ticks io + length pat\<rparr>) }"

definition sink_set_pattern ::
  "'c sys_env \<Rightarrow> string \<Rightarrow> 'c sink \<Rightarrow> io_state \<Rightarrow> ('c sink \<times> io_state) option" where
  "sink_set_pattern env pat s io =
     do { (pf, io) \<leftarrow> make_formatter env pat io; Some (s\<lparr>formatter := pf\<rparr>, io) }"

definition sink_set_formatter :: "'c pattern_formatter \<Rightarrow> 'c sink \<Rightarrow> 'c sink" where
  "sink_set_formatter pf s = s\<lparr>formatter := pf\<rparr>"

section \<open>The kinds of sinks\<close>

text \<open>Each function below writes the formatted text of one message to its medium.\<close>

definition null_output :: "fmt_buf \<Rightarrow> io_state \<Rightarrow> excpt option \<times> io_state" where
  "null_output b io = (None, io)"

definition ostream_output ::
  "os_env \<Rightarrow> nat \<Rightarrow> bool \<Rightarrow> fmt_buf \<Rightarrow> io_state \<Rightarrow> excpt option \<times> io_state" where
  "ostream_output env k force_flush b io =
     (let io = ostream_write env k b io
      in (None, if force_flush then ostream_flush env k io else io))"

definition basic_file_new ::
  "os_env \<Rightarrow> string \<Rightarrow> bool \<Rightarrow> io_state \<Rightarrow> (excpt + sink_kind) \<times> io_state" where
  "basic_file_new env fname trunc io =
     (case file_open env None fname trunc 5 10 (world io) of
        (Some e, fpp, w) \<Rightarrow> (Inl e, io\<lparr>world := w\<rparr>)
      | (None, fpp, w) \<Rightarrow> (Inr (Basic_file_sink fpp fname), io\<lparr>world := w\<rparr>))"

definition basic_file_output ::
  "os_env \<Rightarrow> fp option \<Rightarrow> string \<Rightarrow> fmt_buf \<Rightarrow> io_state \<Rightarrow> excpt option \<times> io_state" where
  "basic_file_output env p fname b io =
     (case file_write env p fname b (world io) of (e, w) \<Rightarrow> (e, io\<lparr>world := w\<rparr>))"

definition basic_file_dtor :: "os_env \<Rightarrow> fp option \<Rightarrow> string \<Rightarrow> io_state \<Rightarrow> bool \<times> io_state" where
  "basic_file_dtor env p fname io =
     (case file_flush env p fname (world io) of
        (Some e, w) \<Rightarrow> (True, io\<lparr>world := w\<rparr>)
      | (None, w) \<Rightarrow>
          (case file_close env p fname w of (e, p, w) \<Rightarrow> (e \<noteq> None, io\<lparr>world := w\<rparr>)))"

text \<open>\<open>std_sink\<close>: an incomplete \<open>fwrite\<close> throws; the result of \<open>fflush\<close> is ignored.\<close>

definition std_output ::
  "'c sys_env \<Rightarrow> fp \<Rightarrow> fmt_buf \<Rightarrow> io_state \<Rightarrow> excpt option \<times> io_state" where
  "std_output env p b io =
     (case c_fwrite (oenv env) p b (world io) of
        (bytes_written, w) \<Rightarrow>
          if bytes_written \<noteq> length b then
            (Some (learnlog_excpt_loc (strerror (oenv env)) ''learnlog::std_sink: fwrite() failed''
                     (errno w) (src_path env ''std_sinks.h'') 82 ''log''), io\<lparr>world := w\<rparr>)
          else (None, io\<lparr>world := snd (c_fflush (oenv env) p w)\<rparr>))"

text \<open>\<open>ansicolor_sink\<close>: the ANSI sequences it uses, and the colour of each level.\<close>

definition esc :: "string \<Rightarrow> string" where
  "esc s = CHR 0x1B # CHR ''['' # s"

definition ansi_reset :: string where "ansi_reset = esc ''m''"

fun default_level_color :: "level_enum \<Rightarrow> string" where
  "default_level_color Trace = esc ''37m''"
| "default_level_color Debug = esc ''36m''"
| "default_level_color Info = esc ''32m''"
| "default_level_color Warn = esc ''33m'' @ esc ''1m''"
| "default_level_color Error = esc ''31m'' @ esc ''1m''"
| "default_level_color Critical = esc ''1m'' @ esc ''41m''"
| "default_level_color Off = ansi_reset"

definition ansicolor_new :: "'c sys_env \<Rightarrow> fp \<Rightarrow> sink_kind" where
  "ansicolor_new env p =
     Ansicolor_sink p (isatty env p \<and> is_color_terminal (colorterm env) (term_name env)) default_level_color"

definition set_level_color :: "level_enum \<Rightarrow> string \<Rightarrow> sink_kind \<Rightarrow> sink_kind" where
  "set_level_color l ansi_color k =
     (case k of Ansicolor_sink p on cols \<Rightarrow> Ansicolor_sink p on (cols(l := ansi_color)) | _ \<Rightarrow> k)"

text \<open>
  The writes of \<open>log\<close>; \<open>m\<close> is the message after formatting. A colour range that ends behind
  the text would read past the buffer: \<open>None\<close>.
\<close>

definition ansicolor_output ::
  "'c sys_env \<Rightarrow> fp \<Rightarrow> bool \<Rightarrow> (level_enum \<Rightarrow> string) \<Rightarrow> log_msg \<Rightarrow> fmt_buf \<Rightarrow> io_state \<Rightarrow>
     (excpt option \<times> io_state) option" where
  "ansicolor_output env p color_enabled cols m b io =
     (let level_color = cols (level m);
          first = unat (color_index_start m);
          last = unat (color_index_end m);
          check = (\<lambda>(bytes_written, w).
            (if bytes_written \<noteq> length b then
               Some (learnlog_excpt_loc (strerror (oenv env)) ''learnlog::ansicolor_sink: fwrite() failed''
                       (errno w) (src_path env ''ansicolor_sink.h'') 78 ''log'')
             else None, io\<lparr>world := w\<rparr>))
      in if color_enabled \<and> color_index_end m > color_index_start m then
           (if last > length b then None
            else
              let (n1, w) = c_fwrite (oenv env) p (take first b) (world io);
                  (_, w) = c_fwrite (oenv env) p level_color w;
                  (n2, w) = c_fwrite (oenv env) p (drop first (take last b)) w;
                  (_, w) = c_fwrite (oenv env) p ansi_reset w;
                  (n3, w) = c_fwrite (oenv env) p (drop last b) w
              in Some (check (n1 + n2 + n3, w)))
         else Some (check (c_fwrite (oenv env) p b (world io))))"

section \<open>Logging and flushing\<close>

text \<open>The text of a formatted message goes to the sink's medium.\<close>

fun sink_output ::
  "'c sys_env \<Rightarrow> sink_kind \<Rightarrow> log_msg \<Rightarrow> fmt_buf \<Rightarrow> io_state \<Rightarrow>
     (excpt option \<times> sink_kind \<times> io_state) option" where
  "sink_output env Null_sink m b io = (let (e, io) = null_output b io in Some (e, Null_sink, io))"
| "sink_output env (Ostream_sink k ff) m b io =
     (let (e, io) = ostream_output (oenv env) k ff b io in Some (e, Ostream_sink k ff, io))"
| "sink_output env (Basic_file_sink p fname) m b io =
     (let (e, io) = basic_file_output (oenv env) p fname b io in Some (e, Basic_file_sink p fname, io))"
| "sink_output env (Rolling_sink r) m b io =
     (let (e, r, w) = rolling_output (oenv env) r b (world io) in Some (e, Rolling_sink r, io\<lparr>world := w\<rparr>))"
| "sink_output env (Std_sink p) m b io =
     (let (e, io) = std_output env p b io in Some (e, Std_sink p, io))"
| "sink_output env (Ansicolor_sink p on cols) m b io =
     map_option (\<lambda>(e, io). (e, Ansicolor_sink p on cols, io)) (ansicolor_output env p on cols m b io)"

text \<open>
  \<open>log\<close>: the result is the exception it throws, if any, the sink, the message, whose colour range
  the formatter may have set, and the state. \<open>null_sink\<close> does not format; \<open>ansicolor_sink\<close>
  clears the range first.
\<close>

definition clear_range :: "sink_kind \<Rightarrow> log_msg \<Rightarrow> log_msg" where
  "clear_range k m =
     (case k of Ansicolor_sink p on cols \<Rightarrow> m\<lparr>color_index_start := 0, color_index_end := 0\<rparr> | _ \<Rightarrow> m)"

definition sink_log ::
  "'c sys_env \<Rightarrow> log_msg \<Rightarrow> 'c sink \<Rightarrow> io_state \<Rightarrow>
     (excpt option \<times> 'c sink \<times> log_msg \<times> io_state) option" where
  "sink_log env m s io =
     (case kind s of
        Null_sink \<Rightarrow> Some (None, s, m, snd (null_output [] io))
      | _ \<Rightarrow> do { (pf, m, b) \<leftarrow> pf_format (fenv env) (formatter s) (clear_range (kind s) m) [];
                 (e, k, io) \<leftarrow> sink_output env (kind s) m b io;
                 Some (e, s\<lparr>formatter := pf, kind := k\<rparr>, m, io) })"

fun sink_flush :: "'c sys_env \<Rightarrow> sink_kind \<Rightarrow> io_state \<Rightarrow> excpt option \<times> io_state" where
  "sink_flush env Null_sink io = (None, io)"
| "sink_flush env (Ostream_sink k ff) io = (None, ostream_flush (oenv env) k io)"
| "sink_flush env (Basic_file_sink p fname) io =
     (let (e, w) = file_flush (oenv env) p fname (world io) in (e, io\<lparr>world := w\<rparr>))"
| "sink_flush env (Rolling_sink r) io =
     (let (e, w) = rolling_flush (oenv env) r (world io) in (e, io\<lparr>world := w\<rparr>))"
| "sink_flush env (Std_sink p) io = (None, io\<lparr>world := snd (c_fflush (oenv env) p (world io))\<rparr>)"
| "sink_flush env (Ansicolor_sink p on cols) io =
     (None, io\<lparr>world := snd (c_fflush (oenv env) p (world io))\<rparr>)"

text \<open>The messages given to one sink, until it throws.\<close>

fun sink_run ::
  "'c sys_env \<Rightarrow> 'c sink \<Rightarrow> log_msg list \<Rightarrow> io_state \<Rightarrow> (excpt option \<times> 'c sink \<times> io_state) option" where
  "sink_run env s [] io = Some (None, s, io)"
| "sink_run env s (m # ms) io =
     do { (e, s, m, io) \<leftarrow> sink_log env m s io;
          case e of Some e \<Rightarrow> Some (Some e, s, io) | None \<Rightarrow> sink_run env s ms io }"

section \<open>Media that keep every text\<close>

text \<open>
  What a sink relies on: a medium that is ready takes a text, appends it to its contents and
  stays ready, and a flush delivers the contents to their destination.
\<close>

fun puts :: "(fmt_buf \<Rightarrow> 'w \<Rightarrow> excpt option \<times> 'w) \<Rightarrow> fmt_buf list \<Rightarrow> 'w \<Rightarrow> excpt option \<times> 'w" where
  "puts put [] w = (None, w)"
| "puts put (b # bs) w = (case put b w of (Some e, w) \<Rightarrow> (Some e, w) | (None, w) \<Rightarrow> puts put bs w)"

locale text_medium =
  fixes ready :: "'m \<Rightarrow> 'w \<Rightarrow> bool"
    and contents :: "'m \<Rightarrow> 'w \<Rightarrow> string"
    and delivered :: "'m \<Rightarrow> 'w \<Rightarrow> string"
    and put :: "'m \<Rightarrow> fmt_buf \<Rightarrow> 'w \<Rightarrow> excpt option \<times> 'w"
    and flush :: "'m \<Rightarrow> 'w \<Rightarrow> excpt option \<times> 'w"
  assumes put_ok: "ready k w \<Longrightarrow>
      \<exists>w'. put k b w = (None, w') \<and> ready k w' \<and> contents k w' = contents k w @ b"
    and flush_ok: "ready k w \<Longrightarrow>
      \<exists>w'. flush k w = (None, w') \<and> ready k w' \<and> contents k w' = contents k w \<and> delivered k w' = contents k w"
begin

lemma puts_append:
  assumes "ready k w"
  shows "\<exists>w'. puts (put k) bs w = (None, w') \<and> ready k w' \<and> contents k w' = contents k w @ concat bs"
  using assms
proof (induction bs arbitrary: w)
  case Nil
  then show ?case by simp
next
  case (Cons b bs)
  obtain w1 where "put k b w = (None, w1)" "ready k w1" "contents k w1 = contents k w @ b"
    using put_ok [OF Cons.prems] by blast
  then show ?case using Cons.IH [of w1] by auto
qed

lemma puts_then_flush:
  assumes "ready k w"
  shows "\<exists>w1 w2. puts (put k) bs w = (None, w1) \<and> flush k w1 = (None, w2) \<and> ready k w2 \<and>
           contents k w2 = contents k w @ concat bs \<and> delivered k w2 = contents k w @ concat bs"
proof -
  obtain w1 where "puts (put k) bs w = (None, w1)" "ready k w1" "contents k w1 = contents k w @ concat bs"
    using puts_append [OF assms] by blast
  then show ?thesis using flush_ok [of k w1] by auto
qed

end

text \<open>The contents of a stream: its file with the bytes that are still buffered.\<close>

definition stream_contents :: "os_world \<Rightarrow> fp \<Rightarrow> string" where
  "stream_contents w p =
     (case streams w p of
        None \<Rightarrow> []
      | Some (key, pending) \<Rightarrow> (case files w key of None \<Rightarrow> [] | Some disk \<Rightarrow> disk @ pending))"

definition stream_disk :: "os_world \<Rightarrow> fp \<Rightarrow> string" where
  "stream_disk w p =
     (case streams w p of
        None \<Rightarrow> []
      | Some (key, pending) \<Rightarrow> (case files w key of None \<Rightarrow> [] | Some disk \<Rightarrow> disk))"

definition stream_ready :: "os_world \<Rightarrow> fp \<Rightarrow> bool" where
  "stream_ready w p = (case streams w p of None \<Rightarrow> False | Some (key, pending) \<Rightarrow> files w key \<noteq> None)"

lemma stream_text_contents:
  "stream_text w p key s \<Longrightarrow> stream_ready w p \<and> stream_contents w p = s"
  by (auto simp: stream_text_def stream_ready_def stream_contents_def)

lemma stream_text_disk: "stream_text w p key s \<Longrightarrow> files w key = Some d \<Longrightarrow> stream_disk w p = d"
  by (auto simp: stream_text_def stream_disk_def)

lemma stream_readyE:
  assumes "stream_ready w p"
  obtains key where "stream_text w p key (stream_contents w p)"
  using assms by (auto simp: stream_text_def stream_ready_def stream_contents_def split: option.splits)

definition std_flush :: "os_env \<Rightarrow> fp \<Rightarrow> io_state \<Rightarrow> excpt option \<times> io_state" where
  "std_flush oe p io = (None, io\<lparr>world := snd (c_fflush oe p (world io))\<rparr>)"

definition file_flush_io :: "os_env \<Rightarrow> fp \<Rightarrow> string \<Rightarrow> io_state \<Rightarrow> excpt option \<times> io_state" where
  "file_flush_io oe p fname io = (let (e, w) = file_flush oe (Some p) fname (world io) in (e, io\<lparr>world := w\<rparr>))"

lemma file_medium_put:
  assumes "healthy oe" and "stream_ready (world io) p"
  shows "\<exists>io'. basic_file_output oe (Some p) fname b io = (None, io') \<and> stream_ready (world io') p \<and>
           stream_contents (world io') p = stream_contents (world io) p @ b"
proof -
  obtain key where "stream_text (world io) p key (stream_contents (world io) p)"
    using stream_readyE [OF assms(2)] .
  from file_write_healthy [OF assms(1) this, of fname b] show ?thesis
    by (auto simp: basic_file_output_def dest: stream_text_contents)
qed

lemma file_medium_flush:
  assumes "healthy oe" and "stream_ready (world io) p"
  shows "\<exists>io'. file_flush_io oe p fname io = (None, io') \<and> stream_ready (world io') p \<and>
           stream_contents (world io') p = stream_contents (world io) p \<and>
           stream_disk (world io') p = stream_contents (world io) p"
proof -
  obtain key where "stream_text (world io) p key (stream_contents (world io) p)"
    using stream_readyE [OF assms(2)] .
  from file_flush_healthy [OF assms(1) this, of fname] show ?thesis
    by (auto simp: file_flush_io_def dest: stream_text_contents stream_text_disk)
qed

interpretation file_medium: text_medium
  "\<lambda>(oe, p, fname) io. healthy oe \<and> stream_ready (world io) p"
  "\<lambda>(oe, p, fname) io. stream_contents (world io) p"
  "\<lambda>(oe, p, fname) io. stream_disk (world io) p"
  "\<lambda>(oe, p, fname). basic_file_output oe (Some p) fname"
  "\<lambda>(oe, p, fname). file_flush_io oe p fname"
  by unfold_locales (auto simp: file_medium_put file_medium_flush)

interpretation ostream_medium: text_medium
  "\<lambda>(oe, k, ff) io. healthy oe \<and> \<not> os_bad (ostreams io k)"
  "\<lambda>(oe, k, ff) io. os_written (ostreams io k) @ os_buffer (ostreams io k)"
  "\<lambda>(oe, k, ff) io. os_written (ostreams io k)"
  "\<lambda>(oe, k, ff). ostream_output oe k ff"
  "\<lambda>(oe, k, ff) io. (None, ostream_flush oe k io)"
  by unfold_locales
    (auto simp: ostream_output_def ostream_write_def ostream_flush_def syscall_healthy Let_def)

lemma std_put:
  assumes "healthy (oenv env)" and "stream_ready (world io) p"
  shows "\<exists>io'. std_output env p b io = (None, io') \<and> stream_ready (world io') p \<and>
           stream_contents (world io') p = stream_contents (world io) p @ b"
  using assms
  by (auto simp: std_output_def c_fwrite_def c_fflush_def syscall_healthy write_out_def stream_ready_def
      stream_contents_def Let_def split: option.splits)

lemma std_flush_ok:
  assumes "healthy oe" and "stream_ready (world io) p"
  shows "\<exists>io'. std_flush oe p io = (None, io') \<and> stream_ready (world io') p \<and>
           stream_contents (world io') p = stream_contents (world io) p \<and>
           stream_disk (world io') p = stream_contents (world io) p"
  using assms
  by (auto simp: std_flush_def c_fflush_def syscall_healthy write_out_def stream_ready_def
      stream_contents_def stream_disk_def Let_def split: option.splits)

interpretation std_medium: text_medium
  "\<lambda>(env, p) io. healthy (oenv env) \<and> stream_ready (world io) p"
  "\<lambda>(env, p) io. stream_contents (world io) p"
  "\<lambda>(env, p) io. stream_disk (world io) p"
  "\<lambda>(env, p). std_output env p"
  "\<lambda>(env, p). std_flush (oenv env) p"
  by unfold_locales (auto simp: std_put std_flush_ok)

section \<open>A sink over a sequence of messages\<close>

lemma pf_format_line:
  assumes "pf_ok env pf" and "no_duration pf" and "printable env pf m"
  shows "\<exists>pf' m'. pf_format env pf m [] = Some (pf', m', line_text env pf m) \<and> same_msg m m' \<and>
           pf_ok env pf' \<and> no_duration pf' \<and> line_text env pf' = line_text env pf \<and>
           printable env pf' = printable env pf"
proof -
  let ?t = "time_point_to_tm env (time m)"
  have v: "valid_call env m ?t" and ns: "no_sept (formatters pf) ?t"
    using assms(3) by (auto simp: printable_def)
  obtain pf1 m' where step: "pf_format env pf m [] = Some (pf1, m', line_text env pf m)" "same_msg m m'"
    using pf_format_eq [OF assms(1) v refl ns, of "[]"] by (auto simp: line_text_def)
  moreover have "pf_run env pf [m] = Some (pf1, [line_text env pf m])" using step by simp
  ultimately show ?thesis using pf_run_eq [OF assms(1,2), of "[m]"] assms(3) by auto
qed

text \<open>A sink whose kind writes with \<open>put\<close> writes the lines of the messages one after the other.\<close>

lemma sink_run_puts:
  assumes kind: "\<And>m b io. sink_output env k m b io = (let (e, io) = put b io in Some (e, k, io))"
    and plain: "k \<noteq> Null_sink" "\<And>m. clear_range k m = m"
    and pf: "pf_ok (fenv env) (formatter s)" "no_duration (formatter s)"
    and ms: "\<forall>m \<in> set ms. printable (fenv env) (formatter s) m"
    and k: "kind s = k"
    and puts: "puts put (map (line_text (fenv env) (formatter s)) ms) io = (None, io')"
  shows "\<exists>s'. sink_run env s ms io = Some (None, s', io') \<and> kind s' = k"
  using pf ms k puts
proof (induction ms arbitrary: s io)
  case Nil
  then show ?case by simp
next
  case (Cons m ms)
  obtain pf' m' where f: "pf_format (fenv env) (formatter s) m [] =
      Some (pf', m', line_text (fenv env) (formatter s) m)" "pf_ok (fenv env) pf'" "no_duration pf'"
      "line_text (fenv env) pf' = line_text (fenv env) (formatter s)"
      "printable (fenv env) pf' = printable (fenv env) (formatter s)"
    using pf_format_line [OF Cons.prems(1,2), of m] Cons.prems(3) by auto
  obtain io1 where p: "put (line_text (fenv env) (formatter s) m) io = (None, io1)"
    and rest: "puts put (map (line_text (fenv env) (formatter s)) ms) io1 = (None, io')"
    using Cons.prems(5) by (auto split: prod.splits option.splits)
  let ?s = "s\<lparr>formatter := pf', kind := k\<rparr>"
  have "sink_log env m s io = Some (None, ?s, m', io1)"
    using f(1) p plain kind Cons.prems(4) by (cases k) (simp_all add: sink_log_def)
  moreover have "\<exists>s'. sink_run env ?s ms io1 = Some (None, s', io') \<and> kind s' = k"
    by (rule Cons.IH) (use f rest Cons.prems(3) in simp_all)
  ultimately show ?case by simp
qed

text \<open>What a sink of one of the plain kinds has taken, and what reached its destination.\<close>

fun sink_ready :: "sink_kind \<Rightarrow> io_state \<Rightarrow> bool" where
  "sink_ready (Ostream_sink k ff) io \<longleftrightarrow> \<not> os_bad (ostreams io k)"
| "sink_ready (Basic_file_sink (Some p) fname) io \<longleftrightarrow> stream_ready (world io) p"
| "sink_ready (Std_sink p) io \<longleftrightarrow> stream_ready (world io) p"
| "sink_ready k io \<longleftrightarrow> False"

fun sink_text :: "sink_kind \<Rightarrow> io_state \<Rightarrow> string" where
  "sink_text (Ostream_sink k ff) io = os_written (ostreams io k) @ os_buffer (ostreams io k)"
| "sink_text (Basic_file_sink (Some p) fname) io = stream_contents (world io) p"
| "sink_text (Std_sink p) io = stream_contents (world io) p"
| "sink_text k io = []"

fun sink_delivered :: "sink_kind \<Rightarrow> io_state \<Rightarrow> string" where
  "sink_delivered (Ostream_sink k ff) io = os_written (ostreams io k)"
| "sink_delivered (Basic_file_sink (Some p) fname) io = stream_disk (world io) p"
| "sink_delivered (Std_sink p) io = stream_disk (world io) p"
| "sink_delivered k io = []"

lemma sink_puts:
  assumes "healthy (oenv env)" and "sink_ready (kind s) io"
    and "pf_ok (fenv env) (formatter s)" and "no_duration (formatter s)"
    and "\<forall>m \<in> set ms. printable (fenv env) (formatter s) m"
  shows "\<exists>s' io1 io2. sink_run env s ms io = Some (None, s', io1) \<and> kind s' = kind s \<and>
     sink_flush env (kind s) io1 = (None, io2) \<and> sink_ready (kind s) io2 \<and>
     sink_text (kind s) io2 = sink_delivered (kind s) io2 \<and>
     sink_delivered (kind s) io2 =
       sink_text (kind s) io @ concat (map (line_text (fenv env) (formatter s)) ms)"
proof -
  let ?bs = "map (line_text (fenv env) (formatter s)) ms"
  note run = sink_run_puts [OF _ _ _ assms(3-5) refl]
  show ?thesis
  proof (cases "kind s")
    case (Ostream_sink k ff)
    obtain io1 io2 where p: "puts (ostream_output (oenv env) k ff) ?bs io = (None, io1)"
      "ostream_flush (oenv env) k io1 = io2" "\<not> os_bad (ostreams io2 k)"
      "os_written (ostreams io2 k) @ os_buffer (ostreams io2 k) =
         (os_written (ostreams io k) @ os_buffer (ostreams io k)) @ concat ?bs"
      "os_written (ostreams io2 k) = (os_written (ostreams io k) @ os_buffer (ostreams io k)) @ concat ?bs"
      using ostream_medium.puts_then_flush [of "(oenv env, k, ff)" io ?bs] assms(1,2) Ostream_sink by auto
    obtain s' where "sink_run env s ms io = Some (None, s', io1)" "kind s' = kind s"
      using run [where put = "ostream_output (oenv env) k ff"] p(1) Ostream_sink by (auto simp: clear_range_def)
    then show ?thesis using p(2-5) Ostream_sink by simp
  next
    case (Basic_file_sink fpp fname)
    then obtain p where fpp: "fpp = Some p" using assms(2) by (cases fpp) auto
    obtain io1 io2 where p: "puts (basic_file_output (oenv env) (Some p) fname) ?bs io = (None, io1)"
      "file_flush_io (oenv env) p fname io1 = (None, io2)" "stream_ready (world io2) p"
      "stream_contents (world io2) p = stream_contents (world io) p @ concat ?bs"
      "stream_disk (world io2) p = stream_contents (world io) p @ concat ?bs"
      using file_medium.puts_then_flush [of "(oenv env, p, fname)" io ?bs] assms(1,2) Basic_file_sink fpp by auto
    obtain s' where "sink_run env s ms io = Some (None, s', io1)" "kind s' = kind s"
      using run [where put = "basic_file_output (oenv env) (Some p) fname"] p(1) Basic_file_sink fpp
      by (auto simp: clear_range_def)
    then show ?thesis using p(2-5) Basic_file_sink fpp by (simp add: file_flush_io_def)
  next
    case (Std_sink p)
    obtain io1 io2 where p: "puts (std_output env p) ?bs io = (None, io1)"
      "std_flush (oenv env) p io1 = (None, io2)" "stream_ready (world io2) p"
      "stream_contents (world io2) p = stream_contents (world io) p @ concat ?bs"
      "stream_disk (world io2) p = stream_contents (world io) p @ concat ?bs"
      using std_medium.puts_then_flush [of "(env, p)" io ?bs] assms(1,2) Std_sink by auto
    obtain s' where "sink_run env s ms io = Some (None, s', io1)" "kind s' = kind s"
      using run [where put = "std_output env p"] p(1) Std_sink by (auto simp: clear_range_def)
    then show ?thesis using p(2-5) Std_sink by (auto simp: std_flush_def)
  qed (use assms(2) in auto)
qed

section \<open>Sinks beside each other\<close>

text \<open>Two sinks write to different media: different streams of different files.\<close>

fun stream_of :: "sink_kind \<Rightarrow> fp option" where
  "stream_of (Basic_file_sink p fname) = p"
| "stream_of (Std_sink p) = Some p"
| "stream_of k = None"

fun ostream_of :: "sink_kind \<Rightarrow> nat option" where
  "ostream_of (Ostream_sink k ff) = Some k"
| "ostream_of k = None"

definition stream_key :: "io_state \<Rightarrow> fp \<Rightarrow> file_key option" where
  "stream_key w p = map_option fst (streams (world w) p)"

definition separate :: "io_state \<Rightarrow> sink_kind \<Rightarrow> sink_kind \<Rightarrow> bool" where
  "separate w k k' \<longleftrightarrow>
     (\<forall>a. ostream_of k = Some a \<longrightarrow> ostream_of k' \<noteq> Some a) \<and>
     (\<forall>p q. stream_of k = Some p \<and> stream_of k' = Some q \<longrightarrow> p \<noteq> q \<and> stream_key w p \<noteq> stream_key w q)"

text \<open>A step of the sink \<open>k\<close>: every separate sink keeps what it has.\<close>

definition only_medium :: "sink_kind \<Rightarrow> io_state \<Rightarrow> io_state \<Rightarrow> bool" where
  "only_medium k w w' \<longleftrightarrow>
     stream_key w' = stream_key w \<and> sink_ready k w' \<and>
     (\<forall>k'. separate w k k' \<and> sink_ready k' w \<longrightarrow> sink_ready k' w' \<and> sink_text k' w' = sink_text k' w)"

lemma separate_cong: "stream_key w' = stream_key w \<Longrightarrow> separate w' = separate w"
  by (simp add: separate_def fun_eq_iff)

lemma only_medium_ostream:
  assumes "os_bad (ostreams w' a) = False" and "\<And>b. b \<noteq> a \<Longrightarrow> ostreams w' b = ostreams w b"
    and "streams (world w') = streams (world w)" and "files (world w') = files (world w)"
  shows "only_medium (Ostream_sink a ff) w w'"
proof -
  have same: "stream_ready (world w') q = stream_ready (world w) q \<and>
      stream_contents (world w') q = stream_contents (world w) q" for q
    unfolding stream_ready_def stream_contents_def assms(3,4) by simp
  have "sink_ready k' w' \<and> sink_text k' w' = sink_text k' w"
    if "separate w (Ostream_sink a ff) k'" "sink_ready k' w" for k'
    using that assms(1,2) same
    by (cases "(k', w)" rule: sink_ready.cases) (auto simp: separate_def)
  then show ?thesis using assms by (simp add: only_medium_def stream_key_def fun_eq_iff)
qed

lemma only_medium_stream:
  assumes "stream_of k = Some p" and "sink_ready k w'"
    and key: "stream_key w p = Some key" "stream_key w' p = Some key" and "ostreams w' = ostreams w"
    and other: "\<And>q. q \<noteq> p \<Longrightarrow> streams (world w') q = streams (world w) q"
      "\<And>f. f \<noteq> key \<Longrightarrow> files (world w') f = files (world w) f"
  shows "only_medium k w w'"
proof -
  have q: "stream_ready (world w') q = stream_ready (world w) q \<and> stream_contents (world w') q = stream_contents (world w) q"
    if "p \<noteq> q" "stream_key w p \<noteq> stream_key w q" for q
    using that other key(1)
    by (auto simp: stream_ready_def stream_contents_def stream_key_def split: option.splits)
  have "sink_ready k' w' \<and> sink_text k' w' = sink_text k' w"
    if "separate w k k'" "sink_ready k' w" for k'
    using that assms(1,5) q
    by (cases "(k', w)" rule: sink_ready.cases) (auto simp: separate_def)
  moreover have "stream_key w' q = stream_key w q" for q
    using key other(1) [of q] by (cases "q = p") (simp, simp add: stream_key_def)
  then have "stream_key w' = stream_key w" by (rule ext)
  ultimately show ?thesis using assms(2) by (simp add: only_medium_def)
qed

lemma sink_output_ready:
  assumes env: "healthy (oenv env)" and ready: "sink_ready k w"
  shows "\<exists>w'. sink_output env k m b w = Some (None, k, w') \<and> only_medium k w w' \<and>
           sink_text k w' = sink_text k w @ b"
proof (cases "(k, w)" rule: sink_ready.cases)
  case (1 a ff w0)
  obtain w' where w': "ostream_output (oenv env) a ff b w = (None, w')" "\<not> os_bad (ostreams w' a)"
    "os_written (ostreams w' a) @ os_buffer (ostreams w' a) =
       (os_written (ostreams w a) @ os_buffer (ostreams w a)) @ b"
    using ostream_medium.put_ok [of "(oenv env, a, ff)" w b] env ready 1 by auto
  have "only_medium (Ostream_sink a ff) w w'"
    using w'(1,2) env
    by (intro only_medium_ostream)
      (auto simp: ostream_output_def ostream_write_def ostream_flush_def syscall_healthy Let_def split: if_splits)
  then show ?thesis using w' 1 by auto
next
  case (2 p fname w0)
  obtain key where t: "stream_text (world w) p key (stream_contents (world w) p)"
    using ready 2 by (auto elim: stream_readyE)
  obtain v where v: "file_write (oenv env) (Some p) fname b (world w) = (None, v)"
    "stream_text v p key (stream_contents (world w) p @ b)" "only_file p key (world w) v"
    using file_write_healthy [OF env t] by blast
  have "only_medium k w (w\<lparr>world := v\<rparr>)"
    using v(2,3) t 2 stream_text_contents [OF v(2)]
    by (intro only_medium_stream [of _ p _ _ key])
      (auto simp: stream_key_def stream_text_def only_file_def simp del: split_paired_All split_paired_Ex)
  then show ?thesis
    using v(1) stream_text_contents [OF v(2)] 2 by (auto simp: basic_file_output_def)
next
  case (3 p w0)
  obtain w' where w': "std_output env p b w = (None, w')" "stream_ready (world w') p"
    "stream_contents (world w') p = stream_contents (world w) p @ b"
    using std_medium.put_ok [of "(env, p)" w b] env ready 3 by auto
  obtain key where key: "stream_key w p = Some key" "files (world w) key \<noteq> None"
    using ready 3 by (auto simp: stream_ready_def stream_key_def split: option.splits)
  have "only_medium k w w'"
    using w'(1,2) key env 3
    by (intro only_medium_stream [of _ p _ _ key])
      (auto simp: std_output_def c_fwrite_def c_fflush_def syscall_healthy write_out_def stream_key_def Let_def
        split: option.splits if_splits)
  then show ?thesis using w' 3 by auto
qed (use ready in auto)

lemma sink_flush_ready:
  assumes env: "healthy (oenv env)" and ready: "sink_ready k w"
  shows "\<exists>w'. sink_flush env k w = (None, w') \<and> only_medium k w w' \<and> sink_text k w' = sink_text k w \<and>
           sink_delivered k w' = sink_text k w"
proof (cases "(k, w)" rule: sink_ready.cases)
  case (1 a ff w0)
  have "only_medium (Ostream_sink a ff) w (ostream_flush (oenv env) a w)"
    using ready env 1
    by (intro only_medium_ostream) (auto simp: ostream_flush_def syscall_healthy Let_def)
  then show ?thesis
    using ostream_medium.flush_ok [of "(oenv env, a, ff)" w] env ready 1 by auto
next
  case (2 p fname w0)
  obtain key where t: "stream_text (world w) p key (stream_contents (world w) p)"
    using ready 2 by (auto elim: stream_readyE)
  obtain v where v: "file_flush (oenv env) (Some p) fname (world w) = (None, v)"
    "stream_text v p key (stream_contents (world w) p)" "files v key = Some (stream_contents (world w) p)"
    "only_file p key (world w) v"
    using file_flush_healthy [OF env t] by blast
  have "only_medium k w (w\<lparr>world := v\<rparr>)"
    using v(2,4) t 2 stream_text_contents [OF v(2)]
    by (intro only_medium_stream [of _ p _ _ key])
      (auto simp: stream_key_def stream_text_def only_file_def simp del: split_paired_All split_paired_Ex)
  then show ?thesis
    using v(1) stream_text_contents [OF v(2)] stream_text_disk [OF v(2,3)] 2 by auto
next
  case (3 p w0)
  obtain w' where w': "std_flush (oenv env) p w = (None, w')" "stream_ready (world w') p"
    "stream_contents (world w') p = stream_contents (world w) p" "stream_disk (world w') p = stream_contents (world w) p"
    using std_medium.flush_ok [of "(env, p)" w] env ready 3 by auto
  obtain key where key: "stream_key w p = Some key" "files (world w) key \<noteq> None"
    using ready 3 by (auto simp: stream_ready_def stream_key_def split: option.splits)
  have "only_medium k w w'"
    using w'(1,2) key env 3
    by (intro only_medium_stream [of _ p _ _ key])
      (auto simp: std_flush_def c_fflush_def syscall_healthy write_out_def stream_key_def Let_def
        split: option.splits if_splits)
  then show ?thesis using w' 3 by (auto simp: std_flush_def)
qed (use ready in auto)

lemma sink_log_ready:
  assumes "healthy (oenv env)" and "sink_ready (kind s) w"
    and "pf_ok (fenv env) (formatter s)" and "no_duration (formatter s)"
    and "printable (fenv env) (formatter s) m"
  shows "\<exists>pf m' w'. sink_log env m s w = Some (None, s\<lparr>formatter := pf\<rparr>, m', w') \<and> same_msg m m' \<and>
           pf_ok (fenv env) pf \<and> no_duration pf \<and> line_text (fenv env) pf = line_text (fenv env) (formatter s) \<and>
           printable (fenv env) pf = printable (fenv env) (formatter s) \<and>
           only_medium (kind s) w w' \<and>
           sink_text (kind s) w' = sink_text (kind s) w @ line_text (fenv env) (formatter s) m"
proof -
  have plain: "clear_range (kind s) m = m" "kind s \<noteq> Null_sink"
    using assms(2) by (cases "kind s"; simp add: clear_range_def)+
  obtain pf m' where f: "pf_format (fenv env) (formatter s) m [] =
      Some (pf, m', line_text (fenv env) (formatter s) m)" "same_msg m m'"
      "pf_ok (fenv env) pf" "no_duration pf" "line_text (fenv env) pf = line_text (fenv env) (formatter s)"
      "printable (fenv env) pf = printable (fenv env) (formatter s)"
    using pf_format_line [OF assms(3-5)] by blast
  obtain w' where w': "sink_output env (kind s) m' (line_text (fenv env) (formatter s) m) w = Some (None, kind s, w')"
    "only_medium (kind s) w w'" "sink_text (kind s) w' = sink_text (kind s) w @ line_text (fenv env) (formatter s) m"
    using sink_output_ready [OF assms(1,2)] by blast
  have "sink_log env m s w = Some (None, s\<lparr>formatter := pf\<rparr>, m', w')"
    using f(1) w'(1) plain by (cases "kind s") (simp_all add: sink_log_def)
  then show ?thesis using f w' by blast
qed

section \<open>Colours\<close>

lemma length_full_head:
  assumes "valid_tm t" and "valid_msg m"
  shows "length (full_head t m) < 2 ^ 31" and "length (full_head t m @ level_name_of (level m)) < 2 ^ 32"
proof -
  have "length (datetime_text t) = 21"
    using assms(1) length_clock_text [OF assms(1)]
    by (simp add: datetime_text_def valid_tm_def length_pad_dec_2 length_pad_dec_4)
  moreover have "length (pad_dec 3 (nat (time m mod seconds div milliseconds))) = 3"
  proof (rule length_pad_dec_eq)
    show "nat (time m mod seconds div milliseconds) < 10 ^ 3"
      using pos_mod_bound [of 1000000000 "time m"] by (simp add: tick_defs nat_less_iff)
  qed simp
  ultimately have "length (full_head t m) \<le> 30 + length (logger_name m)" by (simp add: full_head_def)
  moreover have "length (level_name_of (level m)) \<le> 8" by (cases "level m") (simp_all add: level_name_of_def level_name_def)
  moreover have "length (logger_name m) < 2 ^ 30" using assms(2) by (simp add: valid_msg_def)
  ultimately show "length (full_head t m) < 2 ^ 31" "length (full_head t m @ level_name_of (level m)) < 2 ^ 32"
    by simp_all
qed

lemma level_name_not_empty: "level_name_of l \<noteq> []"
  by (cases l) (simp_all add: level_name_of_def level_name_def)

lemma c_fwrite_contents:
  assumes "healthy oe" and "stream_ready w p"
  shows "\<exists>w'. c_fwrite oe p b w = (length b, w') \<and> stream_ready w' p \<and>
           stream_contents w' p = stream_contents w p @ b"
  using assms
  by (auto simp: c_fwrite_def syscall_healthy write_out_def stream_ready_def
      stream_contents_def Let_def split: option.splits)

lemma ansicolor_output_plain:
  assumes "healthy (oenv env)" and "stream_ready (world io) p"
    and "\<not> (on \<and> color_index_end m > color_index_start m)"
  shows "\<exists>io'. ansicolor_output env p on cols m b io = Some (None, io') \<and> stream_ready (world io') p \<and>
           stream_contents (world io') p = stream_contents (world io) p @ b"
  using c_fwrite_contents [OF assms(1,2), of b] assms(3)
  by (auto simp: ansicolor_output_def)

lemma ansicolor_output_coloured:
  assumes env: "healthy (oenv env)" and ready: "stream_ready (world io) p"
    and range: "color_index_end m > color_index_start m" "unat (color_index_start m) = length x"
      "unat (color_index_end m) = length (x @ y)"
  shows "\<exists>io'. ansicolor_output env p True cols m (x @ y @ z) io = Some (None, io') \<and> stream_ready (world io') p \<and>
           stream_contents (world io') p =
             stream_contents (world io) p @ x @ cols (level m) @ y @ ansi_reset @ z"
proof -
  note put = c_fwrite_contents [OF env]
  obtain w1 where w1: "c_fwrite (oenv env) p x (world io) = (length x, w1)" "stream_ready w1 p"
    "stream_contents w1 p = stream_contents (world io) p @ x" using put [OF ready] by blast
  obtain w2 where w2: "c_fwrite (oenv env) p (cols (level m)) w1 = (length (cols (level m)), w2)" "stream_ready w2 p"
    "stream_contents w2 p = stream_contents w1 p @ cols (level m)" using put [OF w1(2)] by blast
  obtain w3 where w3: "c_fwrite (oenv env) p y w2 = (length y, w3)" "stream_ready w3 p"
    "stream_contents w3 p = stream_contents w2 p @ y" using put [OF w2(2)] by blast
  obtain w4 where w4: "c_fwrite (oenv env) p ansi_reset w3 = (length ansi_reset, w4)" "stream_ready w4 p"
    "stream_contents w4 p = stream_contents w3 p @ ansi_reset" using put [OF w3(2)] by blast
  obtain w5 where w5: "c_fwrite (oenv env) p z w4 = (length z, w5)" "stream_ready w5 p"
    "stream_contents w5 p = stream_contents w4 p @ z" using put [OF w4(2)] by blast
  show ?thesis
    using range w1 w2 w3 w4 w5 by (simp add: ansicolor_output_def Let_def)
qed

section \<open>Properties\<close>

text \<open>
  C26: on a system where no system call fails, an ostream, file or standard stream sink that is ready (its stream is
  open or good) takes any sequence of messages that its formatter can print (sizes and times in range, no \<open>%c\<close> in September) without
  throwing, and after a flush its destination holds what the sink had taken before followed by the line of each message, in order.
  The formatter has neither duration flags nor user-defined ones. What happens when a system call fails is not part of this property.
\<close>

theorem sink_keeps_lines:
  assumes "healthy (oenv env)" and "sink_ready (kind s) io"
    and "pf_ok (fenv env) (formatter s)" and "no_duration (formatter s)"
    and "\<forall>m \<in> set ms. printable (fenv env) (formatter s) m"
  shows "\<exists>s' io1 io2. sink_run env s ms io = Some (None, s', io1) \<and>
     sink_flush env (kind s') io1 = (None, io2) \<and>
     sink_delivered (kind s') io2 =
       sink_text (kind s) io @ concat (map (line_text (fenv env) (formatter s)) ms)"
  using sink_puts [OF assms] by metis

text \<open>
  A file sink from its constructor to its destructor: the file ends up with the old
  content, unless it was truncated, followed by the line of each message; the stream is closed
  and nothing escapes the destructor.
\<close>

theorem file_sink_writes_file:
  assumes "healthy (oenv env)" and "openable (world io) fname" and "fresh_streams (world io)"
    and "pf_ok (fenv env) pf" and "no_duration pf" and "\<forall>m \<in> set ms. printable (fenv env) pf m"
  shows "\<exists>p io1 s' io2 io3.
     basic_file_new (oenv env) fname trunc io = (Inr (Basic_file_sink (Some p) fname), io1) \<and>
     sink_run env (sink_set_formatter pf (basic_sink_new (Basic_file_sink (Some p) fname))) ms io1 = Some (None, s', io2) \<and>
     basic_file_dtor (oenv env) (Some p) fname io2 = (False, io3) \<and>
     streams (world io3) p = None \<and>
     files (world io3) (path_key fname) =
       Some ((if trunc then [] else case files (world io) (path_key fname) of None \<Rightarrow> [] | Some old \<Rightarrow> old) @
             concat (map (line_text (fenv env) pf) ms))"
proof -
  let ?old = "if trunc then [] else case files (world io) (path_key fname) of None \<Rightarrow> [] | Some old \<Rightarrow> old"
  let ?bs = "map (line_text (fenv env) pf) ms"
  obtain p w where open': "file_open (oenv env) None fname trunc 5 10 (world io) = (None, Some p, w)"
    and t: "stream_text w p (path_key fname) ?old"
    using file_open_healthy [OF assms(1-3), of 5 trunc 10] by auto
  define io1 where "io1 = io\<lparr>world := w\<rparr>"
  have new: "basic_file_new (oenv env) fname trunc io = (Inr (Basic_file_sink (Some p) fname), io1)"
    using open' by (simp add: basic_file_new_def io1_def)
  let ?s = "sink_set_formatter pf (basic_sink_new (Basic_file_sink (Some p) fname))"
  have puts: "\<exists>io2. puts (basic_file_output (oenv env) (Some p) fname) bs io1 = (None, io2) \<and>
      stream_text (world io2) p (path_key fname) (s @ concat bs)"
    if "stream_text (world io1) p (path_key fname) s" for bs s io1
    using that
  proof (induction bs arbitrary: s io1)
    case (Cons b bs)
    obtain w' where "file_write (oenv env) (Some p) fname b (world io1) = (None, w')"
      "stream_text w' p (path_key fname) (s @ b)"
      using file_write_healthy [OF assms(1) Cons.prems] by blast
    then show ?case using Cons.IH [of "io1\<lparr>world := w'\<rparr>" "s @ b"] by (auto simp: basic_file_output_def)
  qed simp
  obtain io2 where io2: "puts (basic_file_output (oenv env) (Some p) fname) ?bs io1 = (None, io2)"
    "stream_text (world io2) p (path_key fname) (?old @ concat ?bs)"
    using puts [of io1 ?old ?bs] t by (auto simp: io1_def)
  obtain s' where run: "sink_run env ?s ms io1 = Some (None, s', io2)"
    using sink_run_puts [where s = ?s and k = "Basic_file_sink (Some p) fname" and ms = ms and io = io1 and io' = io2
        and put = "basic_file_output (oenv env) (Some p) fname"] assms(4-6) io2(1)
    by (auto simp: sink_set_formatter_def basic_sink_new_def clear_range_def)
  obtain w3 where f: "file_flush (oenv env) (Some p) fname (world io2) = (None, w3)"
    "stream_text w3 p (path_key fname) (?old @ concat ?bs)"
    using file_flush_healthy [OF assms(1) io2(2)] by blast
  obtain w4 where c: "file_close (oenv env) (Some p) fname w3 = (None, None, w4)"
    "streams w4 p = None" "files w4 (path_key fname) = Some (?old @ concat ?bs)"
    using file_close_healthy [OF assms(1) f(2)] by blast
  have "basic_file_dtor (oenv env) (Some p) fname io2 = (False, io2\<lparr>world := w4\<rparr>)"
    using f(1) c(1) by (simp add: basic_file_dtor_def)
  then show ?thesis using new run c(2,3) by force
qed

text \<open>
  A colour sink on a terminal whose formatter is the default pattern \<open>%+\<close> writes exactly the
  level name of each message in the colour of its level and resets the colour behind it; the text
  around it is that of an uncoloured sink.
\<close>

theorem ansicolor_paints_level:
  assumes "healthy (oenv env)" and "stream_ready (world io) p"
    and "kind s = Ansicolor_sink p True cols" and "formatters (formatter s) = [Full_formatter i sec d]"
    and "pf_ok (fenv env) (formatter s)"
    and "valid_call (fenv env) m t" and "t = time_point_to_tm (fenv env) (time m)"
  shows "\<exists>s' m' io'. sink_log env m s io = Some (None, s', m', io') \<and>
     stream_contents (world io') p = stream_contents (world io) p @ full_head t m @ cols (level m) @
       level_name_of (level m) @ ansi_reset @ full_tail m @ eol (formatter s)"
proof -
  let ?m = "m\<lparr>color_index_start := 0, color_index_end := 0\<rparr>"
  have parts: "valid_msg m" "valid_tm t" "t = local_tm (fenv env) (duration_cast seconds (time m))"
    using assms(6) by (auto simp: valid_call_def)
  have same: "full_head t ?m = full_head t m" "full_tail ?m = full_tail m" "full_text t ?m = full_text t m"
    by (simp_all add: full_head_def full_tail_def full_text_def)
  define m' where "m' = item_colour (Full_formatter i sec d) ?m t []"
  have d: "d = [] \<or> d = datetime_fill (local_tm (fenv env) sec)"
    using assms(4,5) by (simp add: pf_ok_def)
  have v: "valid_msg ?m" using parts(1) by (simp add: valid_msg_def)
  have full: "full_format sec d ?m t [] =
      Some ((duration_cast seconds (time m), datetime_fill t), m', full_text t m)"
    using full_format_eq [where m = ?m and t = t and env = "fenv env" and d = d and s = sec and i = i and b = "[]"] v parts(2,3) d same(3) by (simp add: m'_def)
  have fmt: "\<exists>pf'. pf_format (fenv env) (formatter s) ?m [] = Some (pf', m', full_text t m @ eol (formatter s))"
    using full assms(4,7) by (simp add: pf_format_def append_string_view_def Let_def)
  have range: "unat (color_index_start m') = length (full_head t m)"
    "unat (color_index_end m') = length (full_head t m @ level_name_of (level m))" "level m' = level m"
    using length_full_head [OF parts(2,1)] same(1) by (simp_all add: m'_def unat_of_nat flip: of_nat_add)
  then have "color_index_end m' > color_index_start m'"
    using level_name_not_empty [of "level m"] by (simp add: word_less_nat_alt)
  from ansicolor_output_coloured [OF assms(1,2) this range(1,2), of cols "full_tail m @ eol (formatter s)"]
  obtain io' where "ansicolor_output env p True cols m' (full_text t m @ eol (formatter s)) io = Some (None, io')"
    "stream_contents (world io') p = stream_contents (world io) p @ full_head t m @ cols (level m) @
       level_name_of (level m) @ ansi_reset @ full_tail m @ eol (formatter s)"
    using range(3) by (auto simp: full_text_def)
  then show ?thesis using fmt assms(3) by (auto simp: sink_log_def clear_range_def)
qed

definition sample_sys :: "unit sys_env" where
  "sample_sys = \<lparr>fenv = sample_env, oenv = sample_os, clock = (\<lambda>_. 9), src_path = id, isatty = (\<lambda>_. True),
     colorterm = None, term_name = None\<rparr>"

definition sample_io :: io_state where
  "sample_io = \<lparr>world = sample_world, ostreams = (\<lambda>_. \<lparr>os_written = [], os_buffer = [], os_bad = False\<rparr>), ticks = 0\<rparr>"

lemma sample_sys_simps [simp]:
  "fenv sample_sys = sample_env" "oenv sample_sys = sample_os" "world sample_io = sample_world"
  by (simp_all add: sample_sys_def sample_io_def)

lemma sample_pf_ok: "pf_ok sample_env sample_pf"
  using pf_new_ok [OF sample_pf_new [of "\<lambda>_. 0"]] by simp

lemma sample_line_text: "line_text sample_env sample_pf sample_msg = ''< net>\<newline>''"
  by (simp add: line_text_def sample_line) (simp add: sample_pf_def)

theorem sink_keeps_lines_witness:
  "let s = sink_set_formatter sample_pf (basic_sink_new (Ostream_sink 0 False))
   in \<exists>s' io1 io2. sink_run sample_sys s [sample_msg, sample_msg] sample_io = Some (None, s', io1) \<and>
        sink_flush sample_sys (kind s') io1 = (None, io2) \<and>
        sink_delivered (kind s') io2 = ''< net>\<newline>< net>\<newline>''"
  unfolding Let_def
  using sink_keeps_lines [of sample_sys "sink_set_formatter sample_pf (basic_sink_new (Ostream_sink 0 False))"
      sample_io "[sample_msg, sample_msg]"] sample_healthy(1) sample_pf_ok sample_printable
  by (simp add: sink_set_formatter_def basic_sink_new_def sample_line_text) (simp add: sample_io_def)

lemma sample_openable: "openable sample_world ''log/app.txt''"
  by (simp add: openable_def path_key_def parent_def FOLDER_SPR_def
      sample_world_def is_dir_def get_dir_def find_last_of_def find_first_of_def Let_def)

theorem file_sink_writes_file_witness:
  "\<exists>p io1 s' io2 io3.
     basic_file_new sample_os ''log/app.txt'' True sample_io = (Inr (Basic_file_sink (Some p) ''log/app.txt''), io1) \<and>
     sink_run sample_sys (sink_set_formatter sample_pf (basic_sink_new (Basic_file_sink (Some p) ''log/app.txt'')))
       [sample_msg] io1 = Some (None, s', io2) \<and>
     basic_file_dtor sample_os (Some p) ''log/app.txt'' io2 = (False, io3) \<and>
     files (world io3) (path_key ''log/app.txt'') = Some ''< net>\<newline>''"
  using file_sink_writes_file [of sample_sys sample_io "''log/app.txt''" sample_pf "[sample_msg]" True]
    sample_healthy(1,2) sample_openable sample_pf_ok sample_printable
  by (simp add: sample_line_text) blast

definition sample_tty :: io_state where
  "sample_tty = sample_io\<lparr>world := sample_world\<lparr>files := [(True, [''dev'', ''tty'']) \<mapsto> []],
     streams := [1 \<mapsto> ((True, [''dev'', ''tty'']), [])]\<rparr>\<rparr>"

theorem ansicolor_paints_level_witness:
  "let s = basic_sink_new (ansicolor_new sample_sys 1); t = time_point_to_tm sample_env (time sample_msg)
   in \<exists>s' m' io'. sink_log sample_sys sample_msg s sample_tty = Some (None, s', m', io') \<and>
        stream_contents (world io') 1 = full_head t sample_msg @ default_level_color (level sample_msg) @
          level_name_of (level sample_msg) @ ansi_reset @ full_tail sample_msg @ DEFAULT_EOL"
proof -
  let ?s = "basic_sink_new (ansicolor_new sample_sys 1) :: unit sink"
  have "stream_ready (world sample_tty) 1" "stream_contents (world sample_tty) 1 = []"
    by (simp_all add: stream_ready_def stream_contents_def sample_tty_def)
  moreover have "kind ?s = Ansicolor_sink 1 True default_level_color"
    by (simp add: basic_sink_new_def ansicolor_new_def is_color_terminal_def) (simp add: sample_sys_def)
  moreover have "formatters (formatter ?s) = [Full_formatter spaces_info_default 0 []]" "eol (formatter ?s) = DEFAULT_EOL"
    "pf_ok (fenv sample_sys) (formatter ?s)"
    by (simp_all add: basic_sink_new_def pf_default_def pf_ok_def)
  moreover have "valid_call (fenv sample_sys) sample_msg (time_point_to_tm sample_env (time sample_msg))"
    using sample_printable(2) by (simp add: printable_def)
  ultimately show ?thesis
    unfolding Let_def
    using ansicolor_paints_level [of sample_sys sample_tty 1 ?s] sample_healthy(1) by (metis append_Nil sample_sys_simps(1,2))
qed

end
