(* ===== verification/Circular_Queue.thy ===== *)
theory Circular_Queue
  imports Log_Prelude
begin

text \<open>
  \<^verbatim>\<open>base/circular_queue.h\<close>: the ring buffer over a \<open>std::vector\<close>. The state is a record
  with the members of the class; every index is a 64-bit word, so the borrow in \<open>size()\<close> and
  the overflow of \<open>max_items + 1\<close> are part of the model. A value outside the contract of
  \<open>vector\<close> or of an \<open>assert\<close> (a failed assertion, a remainder by zero, an index past the end)
  is \<open>None\<close>. The interface of a bounded overwriting queue is the locale \<open>ring_interface\<close>;
  the ring buffer interprets it at the end of the theory.
\<close>

section \<open>State\<close>

record 'a circular_queue =
  max_size :: size_t
  head :: size_t
  tail :: size_t
  override_cnt :: size_t
  vec :: "'a list"

text \<open>The result of a constructor that may throw \<open>std::length_error\<close>.\<close>

datatype queue_error = Length_error

text \<open>\<open>std::vector\<close> never holds more than \<open>PTRDIFF_MAX\<close> elements.\<close>

definition vector_max :: nat where
  "vector_max = 2 ^ 63 - 1"

section \<open>Operations\<close>

text \<open>The default constructor: an invalid queue.\<close>

definition cq_invalid :: "'a circular_queue" where
  "cq_invalid = \<lparr>max_size = 0, head = 0, tail = 0, override_cnt = 0, vec = []\<rparr>"

text \<open>
  The sized constructor; \<open>d\<close> is the default-constructed element that \<open>vec_(max_size_)\<close> fills
  the vector with.
\<close>

definition cq_new :: "'a \<Rightarrow> size_t \<Rightarrow> queue_error + 'a circular_queue" where
  "cq_new d max_items =
     (let m = max_items + 1 in
      if unat m > vector_max then Inl Length_error
      else Inr \<lparr>max_size = m, head = 0, tail = 0, override_cnt = 0,
                vec = replicate (unat m) d\<rparr>)"

definition cq_size :: "'a circular_queue \<Rightarrow> size_t option" where
  "cq_size q =
     (if max_size q = 0 then None
      else Some ((tail q - head q + max_size q) mod max_size q))"

definition cq_vec_size :: "'a circular_queue \<Rightarrow> size_t" where
  "cq_vec_size q = max_size q"

definition cq_empty :: "'a circular_queue \<Rightarrow> bool" where
  "cq_empty q \<longleftrightarrow> head q = tail q"

definition cq_full :: "'a circular_queue \<Rightarrow> bool" where
  "cq_full q \<longleftrightarrow> (if max_size q > 0 then (tail q + 1) mod max_size q = head q else False)"

definition vec_at :: "'a list \<Rightarrow> size_t \<Rightarrow> 'a option" where
  "vec_at xs i = (if unat i < length xs then Some (xs ! unat i) else None)"

definition cq_at :: "'a circular_queue \<Rightarrow> size_t \<Rightarrow> 'a option" where
  "cq_at q i =
     (case cq_size q of
        None \<Rightarrow> None
      | Some n \<Rightarrow> if i < n then vec_at (vec q) ((head q + i) mod max_size q) else None)"

definition cq_push_back :: "'a \<Rightarrow> 'a circular_queue \<Rightarrow> 'a circular_queue" where
  "cq_push_back item q =
     (if max_size q > 0
      then let q1 = q\<lparr>vec := (vec q)[unat (tail q) := item],
                      tail := (tail q + 1) mod max_size q\<rparr>
           in if tail q1 = head q1
              then q1\<lparr>head := (head q1 + 1) mod max_size q1,
                      override_cnt := override_cnt q1 + 1\<rparr>
              else q1
      else q)"

definition cq_pop_front :: "'a circular_queue \<Rightarrow> 'a circular_queue" where
  "cq_pop_front q =
     (if max_size q > 0 then q\<lparr>head := (head q + 1) mod max_size q\<rparr> else q)"

definition cq_clear :: "'a circular_queue \<Rightarrow> 'a circular_queue" where
  "cq_clear q = q\<lparr>head := 0, tail := 0, override_cnt := 0, max_size := 0, vec := []\<rparr>"

definition cq_front :: "'a circular_queue \<Rightarrow> 'a option" where
  "cq_front q = (if cq_empty q then None else vec_at (vec q) (head q))"

definition cq_override_count :: "'a circular_queue \<Rightarrow> size_t" where
  "cq_override_count q = override_cnt q"

definition cq_reset_override_count :: "'a circular_queue \<Rightarrow> 'a circular_queue" where
  "cq_reset_override_count q = q\<lparr>override_cnt := 0\<rparr>"

text \<open>
  \<open>move_queue\<close>, the body of the move constructor and of the move assignment: the new value of
  \<open>*this\<close> and what is left of \<open>other\<close> (a moved-from vector is empty).
\<close>

definition cq_move :: "'a circular_queue \<Rightarrow> 'a circular_queue \<times> 'a circular_queue" where
  "cq_move other =
     (\<lparr>max_size = max_size other, head = head other, tail = tail other,
       override_cnt = override_cnt other, vec = vec other\<rparr>,
      other\<lparr>max_size := 0, head := 0, tail := 0, override_cnt := 0, vec := []\<rparr>)"

lemmas cq_op_defs [op_defs] =
  cq_invalid_def cq_new_def cq_size_def cq_vec_size_def cq_empty_def cq_full_def cq_at_def
  vec_at_def cq_push_back_def cq_pop_front_def cq_clear_def cq_front_def
  cq_override_count_def cq_reset_override_count_def cq_move_def

section \<open>Invariant and abstraction\<close>

definition cq_invar :: "'a circular_queue \<Rightarrow> bool" where
  "cq_invar q \<longleftrightarrow>
     length (vec q) = unat (max_size q) \<and> unat (max_size q) \<le> vector_max \<and>
     (if max_size q = 0 then head q = 0 \<and> tail q = 0
      else head q < max_size q \<and> tail q < max_size q)"

definition cq_len :: "'a circular_queue \<Rightarrow> nat" where
  "cq_len q = ring_len (unat (max_size q)) (unat (head q)) (unat (tail q))"

definition cq_list :: "'a circular_queue \<Rightarrow> 'a list" where
  "cq_list q =
     map (\<lambda>i. vec q ! ((unat (head q) + i) mod unat (max_size q))) [0..<cq_len q]"

text \<open>How many elements the queue can hold: one slot of the vector stays free.\<close>

definition cq_capacity :: "'a circular_queue \<Rightarrow> nat" where
  "cq_capacity q = unat (max_size q) - 1"

lemma vector_max_bound [ring_simps]: "n \<le> vector_max \<longleftrightarrow> n < 2 ^ 63"
  by (simp add: vector_max_def less_eq_Suc_le)

lemma length_cq_list [simp]: "length (cq_list q) = cq_len q"
  by (simp add: cq_list_def)

lemma cq_list_nth:
  "i < cq_len q \<Longrightarrow> cq_list q ! i = vec q ! ((unat (head q) + i) mod unat (max_size q))"
  by (simp add: cq_list_def)

text \<open>The natural-number facts that the invariant of a valid queue gives.\<close>

lemma cq_invar_valid:
  assumes "cq_invar q" and "max_size q \<noteq> 0"
  shows "unat (head q) < unat (max_size q)" and "unat (tail q) < unat (max_size q)"
    and "length (vec q) = unat (max_size q)" and "unat (max_size q) < 2 ^ 63"
    and "head q < max_size q" and "tail q < max_size q"
  using assms by (auto simp: cq_invar_def vector_max_bound word_less_nat_alt)

lemma cq_invar_invalid:
  assumes "cq_invar q" and "max_size q = 0"
  shows "head q = 0" and "tail q = 0" and "vec q = []" and "cq_list q = []" and "cq_len q = 0"
  using assms by (auto simp: cq_invar_def cq_list_def cq_len_def ring_len_def)

lemma cq_len_le_capacity:
  assumes "cq_invar q" shows "cq_len q \<le> cq_capacity q"
proof (cases "max_size q = 0")
  case True
  with assms show ?thesis by (simp add: cq_invar_invalid)
next
  case False
  then have "0 < unat (max_size q)" by (simp add: unat_gt_0)
  then have "cq_len q < unat (max_size q)" by (simp add: cq_len_def)
  then show ?thesis by (simp add: cq_capacity_def)
qed

section \<open>Each operation against the abstraction\<close>

lemma cq_new_invar: "cq_new d n = Inr q \<Longrightarrow> cq_invar q"
  by (auto simp: cq_new_def cq_invar_def Let_def word_less_nat_alt unat_gt_0 split: if_splits)

lemma cq_new_list: "cq_new d n = Inr q \<Longrightarrow> cq_list q = []"
  by (auto simp: cq_new_def cq_list_def cq_len_def ring_len_def Let_def split: if_splits)

lemma cq_new_capacity:
  assumes "cq_new d n = Inr q"
  shows "cq_capacity q = (if n = - 1 then 0 else unat n)"
proof -
  from assms have m: "max_size q = n + 1"
    by (auto simp: cq_new_def Let_def split: if_splits)
  show ?thesis
  proof (cases "n = - 1")
    case False
    then have "unat (n + 1) = unat n + 1"
      by (metis add.commute unatSuc add_eq_0_iff Suc_eq_plus1 neg_eq_iff_add_eq_0 add.inverse_inverse)
    with m False show ?thesis by (simp add: cq_capacity_def)
  qed (use m in \<open>simp add: cq_capacity_def\<close>)
qed

lemma cq_size_len:
  assumes "cq_invar q" and "max_size q \<noteq> 0"
  shows "\<exists>n. cq_size q = Some n \<and> unat n = cq_len q"
  using assms cq_invar_valid [OF assms]
  by (simp add: cq_size_def cq_len_def unat_ring_size)

lemma cq_empty_iff:
  assumes "cq_invar q"
  shows "cq_empty q \<longleftrightarrow> cq_list q = []"
proof (cases "max_size q = 0")
  case True
  with assms show ?thesis by (simp add: cq_invar_invalid cq_empty_def)
next
  case False
  then have "cq_len q = 0 \<longleftrightarrow> unat (head q) = unat (tail q)"
    using cq_invar_valid [OF assms] by (simp add: cq_len_def ring_len_0_iff)
  then show ?thesis
    by (metis cq_empty_def length_0_conv length_cq_list word_unat_eq_iff)
qed

lemma cq_full_iff:
  assumes "cq_invar q"
  shows "cq_full q \<longleftrightarrow> max_size q \<noteq> 0 \<and> cq_len q = cq_capacity q"
proof (cases "max_size q = 0")
  case False
  then have "cq_full q \<longleftrightarrow> (unat (tail q) + 1) mod unat (max_size q) = unat (head q)"
    using cq_invar_valid [OF assms]
    by (simp add: cq_full_def word_gt_0 word_unat_eq_iff unat_Suc_mod)
  also have "\<dots> \<longleftrightarrow> Suc (cq_len q) = unat (max_size q)"
    using cq_invar_valid [OF assms False] by (simp only: cq_len_def ring_len_full)
  also have "\<dots> \<longleftrightarrow> cq_len q = cq_capacity q"
    using False by (auto simp: cq_capacity_def unat_gt_0)
  finally show ?thesis using False by simp
qed (simp add: cq_full_def)

lemma cq_at_nth:
  assumes "cq_invar q" and "max_size q \<noteq> 0" and "unat i < cq_len q"
  shows "cq_at q i = Some (cq_list q ! unat i)"
proof -
  note v = cq_invar_valid [OF assms(1,2)]
  obtain n where n: "cq_size q = Some n" "unat n = cq_len q"
    using cq_size_len [OF assms(1,2)] by blast
  have "cq_len q < unat (max_size q)"
    using v by (simp add: cq_len_def)
  then have "i < max_size q" and "i < n"
    using assms(3) n by (simp_all add: word_less_nat_alt)
  moreover from this v have "unat ((head q + i) mod max_size q)
      = (unat (head q) + unat i) mod unat (max_size q)"
    by (simp add: unat_add_mod)
  moreover from v have "(unat (head q) + unat i) mod unat (max_size q) < length (vec q)"
    by simp
  ultimately show ?thesis
    using assms(3) n by (simp add: cq_at_def vec_at_def cq_list_nth)
qed

lemma cq_front_list:
  assumes "cq_invar q" and "cq_list q \<noteq> []"
  shows "cq_front q = Some (hd (cq_list q))"
proof -
  from assms have ms: "max_size q \<noteq> 0" using cq_invar_invalid by blast
  note v = cq_invar_valid [OF assms(1) ms]
  from assms(2) have "0 < cq_len q" by (metis length_cq_list length_greater_0_conv)
  then have "hd (cq_list q) = vec q ! unat (head q)"
    using v assms(2) by (simp add: hd_conv_nth cq_list_nth)
  moreover have "\<not> cq_empty q" using assms by (simp add: cq_empty_iff)
  ultimately show ?thesis using v by (simp add: cq_front_def vec_at_def)
qed

lemma cq_pop_front_spec:
  assumes "cq_invar q" and "cq_list q \<noteq> []"
  shows "cq_invar (cq_pop_front q)" and "cq_list (cq_pop_front q) = tl (cq_list q)"
proof -
  from assms have ms: "max_size q \<noteq> 0" using cq_invar_invalid by blast
  note v = cq_invar_valid [OF assms(1) ms]
  let ?M = "unat (max_size q)" and ?H = "unat (head q)" and ?T = "unat (tail q)"
  have uh: "unat ((head q + 1) mod max_size q) = (?H + 1) mod ?M"
    using v by (simp add: unat_Suc_mod)
  show "cq_invar (cq_pop_front q)"
    using assms(1) ms v by (auto simp: cq_invar_def cq_pop_front_def word_mod_less_divisor word_gt_0)
  have "?H \<noteq> ?T"
    using cq_empty_iff [OF assms(1)] assms(2) by (simp add: cq_empty_def word_unat_eq_iff)
  then have len: "Suc (cq_len (cq_pop_front q)) = cq_len q"
    using ring_len_Suc_head [OF v(1,2)] ms uh by (simp add: cq_len_def cq_pop_front_def word_gt_0)
  show "cq_list (cq_pop_front q) = tl (cq_list q)"
  proof (rule nth_equalityI)
    fix i assume "i < length (cq_list (cq_pop_front q))"
    then have i: "i < cq_len (cq_pop_front q)" by simp
    have "cq_list (cq_pop_front q) ! i = vec q ! (((?H + 1) mod ?M + i) mod ?M)"
      using i ms uh by (simp add: cq_list_nth, simp add: cq_pop_front_def word_gt_0)
    also have "((?H + 1) mod ?M + i) mod ?M = (?H + Suc i) mod ?M"
      by (simp add: mod_add_left_eq)
    also have "vec q ! ((?H + Suc i) mod ?M) = tl (cq_list q) ! i"
      using i len by (simp add: nth_tl cq_list_nth)
    finally show "cq_list (cq_pop_front q) ! i = tl (cq_list q) ! i" .
  qed (use len in simp)
qed

lemma cq_push_back_spec:
  assumes "cq_invar q"
  shows "cq_invar (cq_push_back x q)"
    and "cq_list (cq_push_back x q) = last_n (cq_capacity q) (cq_list q @ [x])"
    and "cq_capacity (cq_push_back x q) = cq_capacity q"
proof -
  let ?M = "unat (max_size q)" and ?H = "unat (head q)" and ?T = "unat (tail q)"
  let ?p = "cq_push_back x q"
  show "cq_capacity ?p = cq_capacity q"
    by (simp add: cq_capacity_def cq_push_back_def Let_def)
  have "cq_invar ?p \<and> cq_list ?p = last_n (cq_capacity q) (cq_list q @ [x])"
  proof (cases "max_size q = 0")
    case True
    with assms show ?thesis
      by (simp add: cq_push_back_def cq_capacity_def cq_invar_invalid)
  next
    case ms: False
    note v = cq_invar_valid [OF assms ms]
    have ut: "unat ((tail q + 1) mod max_size q) = (?T + 1) mod ?M"
      and uh: "unat ((head q + 1) mod max_size q) = (?H + 1) mod ?M"
      using v by (simp_all add: unat_Suc_mod)
    have inv: "cq_invar ?p"
      using assms ms v
      by (auto simp: cq_invar_def cq_push_back_def Let_def word_mod_less_divisor word_gt_0)
    have free: "(?H + i) mod ?M \<noteq> ?T" if "i < cq_len q" for i
    proof
      assume "(?H + i) mod ?M = ?T"
      moreover have "i < ?M"
        using that ring_len_less [OF le_less_trans [OF le0 v(1)], of ?H ?T]
        unfolding cq_len_def by (rule less_trans)
      ultimately have "cq_len q = i"
        using ring_len_unique [OF v(1,2)] by (simp add: cq_len_def)
      with that show False by simp
    qed
    have old: "vec ?p ! ((?H + i) mod ?M) = cq_list q ! i" if "i < cq_len q" for i
      using that free [OF that] ms
      by (simp add: cq_push_back_def Let_def word_gt_0 cq_list_nth)
    have new: "vec ?p ! ((?H + cq_len q) mod ?M) = x"
      using v ms ring_len_tail [OF v(1,2)]
      by (simp add: cq_push_back_def Let_def word_gt_0 cq_len_def)
    show ?thesis
    proof (cases "(?T + 1) mod ?M = ?H")
      case False
      then have ne: "(tail q + 1) mod max_size q \<noteq> head q"
        using ut by auto
      have p: "head ?p = head q" "max_size ?p = max_size q"
        "tail ?p = (tail q + 1) mod max_size q"
        using ms ne by (simp_all add: cq_push_back_def Let_def word_gt_0)
      then have len: "cq_len ?p = Suc (cq_len q)"
        using ring_len_Suc_tail [OF v(1,2) False] ut by (simp add: cq_len_def)
      have "cq_list ?p = cq_list q @ [x]"
      proof (rule nth_equalityI)
        fix i assume "i < length (cq_list ?p)"
        then have "i < Suc (cq_len q)" using len by simp
        then show "cq_list ?p ! i = (cq_list q @ [x]) ! i"
          using p len old new by (cases "i < cq_len q") (auto simp: cq_list_nth nth_append less_Suc_eq)
      qed (use len in simp)
      moreover have "length (cq_list q @ [x]) \<le> cq_capacity q"
        using cq_len_le_capacity [OF inv] len by (simp add: cq_capacity_def p)
      ultimately show ?thesis using inv by simp
    next
      case True
      then have eq: "(tail q + 1) mod max_size q = head q"
        using ut by (simp add: word_unat_eq_iff)
      have p: "head ?p = (head q + 1) mod max_size q" "max_size ?p = max_size q"
        "tail ?p = head q"
        using ms eq by (simp_all add: cq_push_back_def Let_def word_gt_0)
      have lenq: "Suc (cq_len q) = ?M"
        using True ring_len_full [OF v(1,2)] by (simp add: cq_len_def)
      have len: "cq_len ?p = cq_len q"
      proof -
        have "ring_len ?M ((?H + 1) mod ?M) ?H = cq_len q"
        proof (rule ring_len_unique)
          have "((?H + 1) mod ?M + cq_len q) mod ?M = (?H + Suc (cq_len q)) mod ?M"
            by (simp add: mod_add_left_eq)
          then show "((?H + 1) mod ?M + cq_len q) mod ?M = ?H"
            using lenq v by simp
        qed (use v lenq in auto)
        then show ?thesis using p uh by (simp add: cq_len_def)
      qed
      have "cq_list ?p = drop 1 (cq_list q @ [x])"
      proof (rule nth_equalityI)
        fix i assume "i < length (cq_list ?p)"
        then have i: "i < cq_len q" using len by simp
        have "cq_list ?p ! i = vec ?p ! (((?H + 1) mod ?M + i) mod ?M)"
          using i len p uh by (simp add: cq_list_nth)
        also have "((?H + 1) mod ?M + i) mod ?M = (?H + Suc i) mod ?M"
          by (simp add: mod_add_left_eq)
        also have "vec ?p ! ((?H + Suc i) mod ?M) = (cq_list q @ [x]) ! Suc i"
        proof (cases "Suc i < cq_len q")
          case True
          then show ?thesis by (simp only: old) (simp add: nth_append)
        next
          case False
          with i have "Suc i = cq_len q" by simp
          then show ?thesis by (simp only: new) (simp add: nth_append)
        qed
        also have "\<dots> = drop 1 (cq_list q @ [x]) ! i"
          using i by (simp del: drop_append)
        finally show "cq_list ?p ! i = drop 1 (cq_list q @ [x]) ! i" .
      qed (use len in simp)
      moreover have "cq_capacity q = cq_len q"
        using lenq by (simp add: cq_capacity_def)
      ultimately show ?thesis using inv by (simp add: last_n_def)
    qed
  qed
  then show "cq_invar ?p" and "cq_list ?p = last_n (cq_capacity q) (cq_list q @ [x])"
    by simp_all
qed

lemma cq_pop_front_capacity [simp]: "cq_capacity (cq_pop_front q) = cq_capacity q"
  by (simp add: cq_capacity_def cq_pop_front_def)

text \<open>The override counter counts exactly the elements a push threw away.\<close>

lemma cq_push_back_override:
  assumes "cq_invar q"
  shows "override_cnt (cq_push_back x q) = override_cnt q + (if cq_full q then 1 else 0)"
  using assms by (auto simp: cq_push_back_def cq_full_def Let_def word_gt_0)

lemma cq_clear_spec:
  shows "cq_invar (cq_clear q)" and "cq_list (cq_clear q) = []" and "cq_capacity (cq_clear q) = 0"
  by (simp_all add: cq_clear_def cq_invar_def cq_list_def cq_len_def ring_len_def cq_capacity_def
      vector_max_def)

section \<open>The interface of an overwriting ring\<close>

text \<open>
  What the clients of the ring (the blocking queue, the backtracer) rely on. The laws are stated
  over an abstraction to lists: a push keeps the last \<open>cap\<close> elements, a pop removes the first.
\<close>

locale ring_interface =
  fixes push :: "'a \<Rightarrow> 'q \<Rightarrow> 'q"
    and pop :: "'q \<Rightarrow> 'q"
    and front :: "'q \<Rightarrow> 'a option"
    and is_empty :: "'q \<Rightarrow> bool"
    and content :: "'q \<Rightarrow> 'a list"
    and cap :: "'q \<Rightarrow> nat"
    and invar :: "'q \<Rightarrow> bool"
  assumes invar_push: "invar q \<Longrightarrow> invar (push x q)"
    and content_push: "invar q \<Longrightarrow> content (push x q) = last_n (cap q) (content q @ [x])"
    and cap_push: "invar q \<Longrightarrow> cap (push x q) = cap q"
    and invar_pop: "invar q \<Longrightarrow> content q \<noteq> [] \<Longrightarrow> invar (pop q)"
    and content_pop: "invar q \<Longrightarrow> content q \<noteq> [] \<Longrightarrow> content (pop q) = tl (content q)"
    and cap_pop: "cap (pop q) = cap q"
    and front_content: "invar q \<Longrightarrow> content q \<noteq> [] \<Longrightarrow> front q = Some (hd (content q))"
    and empty_content: "invar q \<Longrightarrow> is_empty q \<longleftrightarrow> content q = []"
    and content_cap: "invar q \<Longrightarrow> length (content q) \<le> cap q"
begin

lemma push_all:
  assumes "invar q"
  shows "invar (fold push xs q) \<and> cap (fold push xs q) = cap q \<and>
         content (fold push xs q) = last_n (cap q) (content q @ xs)"
  using assms
proof (induction xs arbitrary: q)
  case Nil
  then show ?case by (simp add: content_cap)
next
  case (Cons x xs)
  then show ?case
    using last_n_last_n_append [of "cap q" "content q @ [x]" xs]
    by (simp add: invar_push cap_push content_push)
qed

lemma push_room:
  assumes "invar q" and "length (content q) < cap q"
  shows "content (push x q) = content q @ [x]"
  using assms by (simp add: content_push)

text \<open>
  A loop that takes the front element, removes it and hands it to \<open>f\<close> until the ring is empty
  or \<open>f\<close> throws: it returns, \<open>f\<close> has run over the content in order, and what \<open>f\<close> did not see is
  still there.
\<close>

lemma drain_until:
  assumes loop: "\<And>q s. loop q s =
      (if is_empty q then Some (q, s, None)
       else case front q of None \<Rightarrow> None
            | Some x \<Rightarrow> (case f x s of (s, Some e) \<Rightarrow> Some (pop q, s, Some e)
                         | (s, None) \<Rightarrow> loop (pop q) s))"
    and "invar q"
  shows "\<exists>q'. loop q s = Some (q', snd (run_until f (content q) s)) \<and>
              invar q' \<and> content q' = fst (run_until f (content q) s) \<and> cap q' = cap q"
  using assms(2)
proof (induction "content q" arbitrary: q s)
  case Nil
  then have "content q = []" by simp
  with Nil.prems have "loop q s = Some (q, s, None)" by (subst loop) (simp add: empty_content)
  with \<open>content q = []\<close> Nil.prems show ?case by simp
next
  case (Cons x xs)
  then have ne: "content q \<noteq> []" and x: "x = hd (content q)" and xs: "xs = tl (content q)"
    by (metis list.distinct(1), metis list.sel(1), metis list.sel(3))
  obtain s' e where f: "f x s = (s', e)" by (cases "f x s")
  have step: "loop q s = (case f x s of (s, Some e) \<Rightarrow> Some (pop q, s, Some e)
                         | (s, None) \<Rightarrow> loop (pop q) s)"
    using ne Cons.prems x by (subst loop) (simp add: empty_content front_content)
  from ne Cons.prems have pop: "invar (pop q)" "content (pop q) = xs" "cap (pop q) = cap q"
    using invar_pop content_pop cap_pop xs by auto
  show ?case
  proof (cases e)
    case None
    then show ?thesis
      using Cons.hyps(1) [of "pop q" s'] Cons.hyps(2) [symmetric] pop step f by auto
  next
    case (Some e')
    then show ?thesis using Cons.hyps(2) [symmetric] pop step f by simp
  qed
qed

end

interpretation cq: ring_interface cq_push_back cq_pop_front cq_front cq_empty cq_list cq_capacity
  cq_invar
  by unfold_locales
    (simp_all add: cq_push_back_spec cq_pop_front_spec cq_front_list cq_empty_iff cq_len_le_capacity)

section \<open>Sequences of calls\<close>

text \<open>
  The calls that change a ring, and their meaning on the abstract state: the content, the
  capacity (\<open>None\<close> for an invalid ring) and the override counter.
\<close>

datatype 'a cq_call = Push_back 'a | Pop_front | Clear | Reset_override

fun cq_call_run :: "'a cq_call \<Rightarrow> 'a circular_queue \<Rightarrow> 'a circular_queue" where
  "cq_call_run (Push_back x) q = cq_push_back x q"
| "cq_call_run Pop_front q = cq_pop_front q"
| "cq_call_run Clear q = cq_clear q"
| "cq_call_run Reset_override q = cq_reset_override_count q"

type_synonym 'a ring_spec = "'a list \<times> nat option \<times> size_t"

fun ring_spec_call :: "'a cq_call \<Rightarrow> 'a ring_spec \<Rightarrow> 'a ring_spec" where
  "ring_spec_call (Push_back x) (xs, None, n) = (xs, None, n)"
| "ring_spec_call (Push_back x) (xs, Some c, n) =
     (last_n c (xs @ [x]), Some c, n + (if length xs = c then 1 else 0))"
| "ring_spec_call Pop_front (xs, c, n) = (tl xs, c, n)"
| "ring_spec_call Clear (xs, c, n) = ([], None, 0)"
| "ring_spec_call Reset_override (xs, c, n) = (xs, c, 0)"

text \<open>A caller never pops an empty ring, as the code of all clients guarantees.\<close>

fun ring_legal :: "'a cq_call list \<Rightarrow> 'a ring_spec \<Rightarrow> bool" where
  "ring_legal [] s \<longleftrightarrow> True"
| "ring_legal (c # cs) s \<longleftrightarrow>
     (c = Pop_front \<longrightarrow> fst s \<noteq> []) \<and> ring_legal cs (ring_spec_call c s)"

definition cq_abs :: "'a circular_queue \<Rightarrow> 'a ring_spec" where
  "cq_abs q =
     (cq_list q, if max_size q = 0 then None else Some (cq_capacity q), override_cnt q)"

lemma max_size_ops [simp]:
  "max_size (cq_push_back x q) = max_size q" "max_size (cq_pop_front q) = max_size q"
  "max_size (cq_clear q) = 0" "override_cnt (cq_clear q) = 0"
  by (simp_all add: cq_push_back_def cq_pop_front_def cq_clear_def Let_def)

lemma cq_call_step:
  assumes "cq_invar q" and "c = Pop_front \<Longrightarrow> cq_list q \<noteq> []"
  shows "cq_invar (cq_call_run c q) \<and> cq_abs (cq_call_run c q) = ring_spec_call c (cq_abs q)"
proof (cases c)
  case (Push_back x)
  show ?thesis
  proof (cases "max_size q = 0")
    case True
    then have "cq_push_back x q = q" by (simp add: cq_push_back_def)
    with True Push_back assms(1) show ?thesis by (simp add: cq_abs_def)
  next
    case False
    with Push_back assms(1) show ?thesis
      by (simp add: cq_abs_def cq_push_back_spec cq_push_back_override cq_full_iff)
  qed
next
  case Pop_front
  then show ?thesis
    using assms cq_pop_front_spec [OF assms(1)] by (simp add: cq_abs_def) (simp add: cq_pop_front_def)
next
  case Clear
  then show ?thesis by (simp add: cq_abs_def cq_clear_spec)
next
  case Reset_override
  then show ?thesis using assms(1)
    by (simp add: cq_abs_def cq_reset_override_count_def cq_invar_def cq_list_def cq_len_def
        cq_capacity_def)
qed

lemma cq_calls_step:
  "cq_invar q \<Longrightarrow> ring_legal cs (cq_abs q) \<Longrightarrow>
     cq_invar (fold cq_call_run cs q) \<and> cq_abs (fold cq_call_run cs q) = fold ring_spec_call cs (cq_abs q)"
proof (induction cs arbitrary: q)
  case (Cons c cs)
  have "c = Pop_front \<Longrightarrow> cq_list q \<noteq> []" and "ring_legal cs (ring_spec_call c (cq_abs q))"
    using Cons.prems(2) by (auto simp: cq_abs_def)
  then show ?case using Cons.IH [of "cq_call_run c q"] cq_call_step [OF Cons.prems(1)] by simp
qed simp

lemma cq_new_abs:
  assumes "cq_new d n = Inr q"
  shows "cq_abs q = ([], if n = - 1 then None else Some (unat n), 0)"
proof -
  have "max_size q = n + 1" and "override_cnt q = 0"
    using assms by (auto simp: cq_new_def Let_def split: if_splits)
  moreover have "n + 1 = 0 \<longleftrightarrow> n = - 1" by (rule eq_neg_iff_add_eq_0 [symmetric])
  ultimately show ?thesis
    using cq_new_list [OF assms] cq_new_capacity [OF assms] by (simp add: cq_abs_def)
qed

section \<open>Properties\<close>

text \<open>
  C1: a ring constructed for \<open>n\<close> elements behaves, over every legal sequence of calls, as the
  list of the last \<open>n\<close> elements pushed and not popped; its override counter counts, modulo
  \<open>2 ^ 64\<close>, the elements that were pushed out since the last reset.
\<close>

theorem cq_calls_refine:
  assumes "cq_new d n = Inr q"
    and "ring_legal cs ([], if n = - 1 then None else Some (unat n), 0)"
  shows "cq_abs (fold cq_call_run cs q) =
           fold ring_spec_call cs ([], if n = - 1 then None else Some (unat n), 0)"
  using cq_calls_step [of q cs] cq_new_invar [OF assms(1)] cq_new_abs [OF assms(1)] assms(2) by simp

theorem cq_calls_refine_witness:
  "fst (cq_abs (fold cq_call_run
     [Push_back 1, Push_back 2, Push_back 3, Pop_front, Push_back (4::nat)]
     \<lparr>max_size = 3, head = 0, tail = 0, override_cnt = 0, vec = [0, 0, 0]\<rparr>)) = [3, 4]"
proof -
  have new: "cq_new (0::nat) 2 = Inr \<lparr>max_size = 3, head = 0, tail = 0, override_cnt = 0, vec = [0, 0, 0]\<rparr>"
    by (simp add: cq_new_def vector_max_def) (simp add: numeral_3_eq_3)
  have "ring_legal [Push_back 1, Push_back 2, Push_back 3, Pop_front, Push_back (4::nat)]
      ([], if (2::size_t) = - 1 then None else Some (unat (2::size_t)), 0)"
    by (simp add: last_n_def)
  from cq_calls_refine [OF new this] show ?thesis by (simp add: last_n_def)
qed

text \<open>
  On a valid ring \<open>size()\<close> returns the number of elements in spite of the borrow in
  \<open>tail - head\<close>, every index below it is read without an error and gives the element at that
  place, and every other index fails the assertion.
\<close>

theorem cq_index_size:
  assumes "cq_invar q" and "max_size q \<noteq> 0"
  shows "map_option unat (cq_size q) = Some (length (cq_list q)) \<and>
         cq_at q i = (if unat i < length (cq_list q) then Some (cq_list q ! unat i) else None)"
proof -
  obtain n where n: "cq_size q = Some n" "unat n = cq_len q"
    using cq_size_len [OF assms] by blast
  have "cq_at q i = None" if "\<not> unat i < cq_len q"
    using that n by (simp add: cq_at_def word_less_nat_alt)
  then show ?thesis using n cq_at_nth [OF assms] by simp
qed

theorem cq_index_size_witness:
  "cq_at \<lparr>max_size = 4, head = 3, tail = 1, override_cnt = 0, vec = [7, 8, 9, 6::nat]\<rparr> 1 = Some 7"
proof -
  let ?q = "\<lparr>max_size = 4, head = 3, tail = 1, override_cnt = 0, vec = [7, 8, 9, 6::nat]\<rparr>"
  have "cq_invar ?q" and "cq_list ?q = [6, 7]"
    by (simp_all add: cq_invar_def vector_max_def cq_list_def cq_len_def ring_len_def upt_rec [of 0]
        upt_rec [of "Suc 0"])
  then show ?thesis using cq_index_size [of ?q 1] by simp
qed

text \<open>
  There is no test for emptiness in \<open>pop_front\<close>: on an empty valid ring it moves the head past
  the tail, and \<open>size()\<close> then reports a full ring.
\<close>

theorem cq_pop_front_unguarded:
  assumes "cq_invar q" and "max_size q \<noteq> 0" and "cq_empty q"
  shows "map_option unat (cq_size (cq_pop_front q)) = Some (cq_capacity q)"
proof -
  note v = cq_invar_valid [OF assms(1,2)]
  let ?M = "unat (max_size q)" and ?H = "unat (head q)"
  have uh: "unat ((head q + 1) mod max_size q) = (?H + 1) mod ?M"
    using v by (simp add: unat_Suc_mod)
  have inv: "cq_invar (cq_pop_front q)"
    using assms v by (auto simp: cq_invar_def cq_pop_front_def word_mod_less_divisor word_gt_0)
  have "((?H + 1) mod ?M + (?M - 1)) mod ?M = (?H + 1 + (?M - 1)) mod ?M"
    by (simp only: mod_add_left_eq)
  also have "?H + 1 + (?M - 1) = ?H + ?M" using v(1) by simp
  also have "(?H + ?M) mod ?M = ?H" using v(1) by simp
  finally have "((?H + 1) mod ?M + (?M - 1)) mod ?M = ?H" .
  then have "ring_len ?M ((?H + 1) mod ?M) ?H = ?M - 1"
    using v(1) by (intro ring_len_unique) auto
  moreover have "cq_len (cq_pop_front q) = ring_len ?M ((?H + 1) mod ?M) ?H"
    using assms(2,3) uh by (simp add: cq_len_def cq_pop_front_def cq_empty_def word_gt_0)
  ultimately show ?thesis
    using cq_size_len [OF inv] assms(2) by (auto simp: cq_capacity_def)
qed

theorem cq_pop_front_unguarded_witness:
  "cq_size (cq_pop_front
     \<lparr>max_size = 3, head = 0, tail = 0, override_cnt = 0, vec = [0, 0, 0::nat]\<rparr>) = Some 2"
proof -
  let ?q = "\<lparr>max_size = 3, head = 0, tail = 0, override_cnt = 0, vec = [0, 0, 0::nat]\<rparr>"
  have "cq_invar ?q" and "cq_empty ?q" by (simp_all add: cq_invar_def cq_empty_def vector_max_def)
  then have "map_option unat (cq_size (cq_pop_front ?q)) = Some (cq_capacity ?q)"
    by (intro cq_pop_front_unguarded) simp_all
  then obtain n where n: "cq_size (cq_pop_front ?q) = Some n" and "unat n = cq_capacity ?q" by auto
  moreover have "cq_capacity ?q = unat (2 :: size_t)" by (simp add: cq_capacity_def)
  ultimately show ?thesis by (simp only: word_unat_eq_iff [symmetric])
qed

end
