(* ===== verification/Backtracer.thy ===== *)
theory Backtracer
  imports Definitions Circular_Queue
begin

text \<open>
  \<^verbatim>\<open>base/log_msg_buf.h\<close>, the message that owns its text, and \<^verbatim>\<open>base/backtracer.h\<close>, the ring
  of the last messages of a logger. The two string views of a \<open>log_msg_buf\<close> point into its own
  buffer: \<open>logger_name\<close> at its start, \<open>msg\<close> behind the name; the model keeps the buffer and the
  lengths of the views, and \<open>lmb_msg\<close> is the message a reader sees through them. The ring is used
  through its interface.
\<close>

section \<open>\<open>log_msg_buf\<close>\<close>

record log_msg_buf =
  base_msg :: log_msg
  name_len :: nat
  text_len :: nat
  buf :: fmt_buf

definition lmb_msg :: "log_msg_buf \<Rightarrow> log_msg" where
  "lmb_msg b = (base_msg b)\<lparr>logger_name := take (name_len b) (buf b),
     msg := take (text_len b) (drop (name_len b) (buf b))\<rparr>"

definition lmb_default :: log_msg_buf where
  "lmb_default = \<lparr>base_msg = log_msg_default, name_len = 0, text_len = 0, buf = []\<rparr>"

definition lmb_new :: "log_msg \<Rightarrow> log_msg_buf" where
  "lmb_new m =
     (let b = append_string_view (msg m) (append_string_view (logger_name m) [])
      in \<lparr>base_msg = m, name_len = length (logger_name m), text_len = length (msg m), buf = b\<rparr>)"

text \<open>The copy constructor appends what the views of \<open>other\<close> show.\<close>

definition lmb_copy :: "log_msg_buf \<Rightarrow> log_msg_buf" where
  "lmb_copy other =
     (let b = append_string_view (msg (lmb_msg other)) (append_string_view (logger_name (lmb_msg other)) [])
      in \<lparr>base_msg = base_msg other, name_len = name_len other, text_len = text_len other, buf = b\<rparr>)"

text \<open>The copy assignment takes the whole buffer of \<open>other\<close>.\<close>

definition lmb_assign :: "log_msg_buf \<Rightarrow> log_msg_buf \<Rightarrow> log_msg_buf" where
  "lmb_assign this other =
     this\<lparr>base_msg := base_msg other, name_len := name_len other, text_len := text_len other,
          buf := append_string_view (buf other) []\<rparr>"

text \<open>
  The move constructor and the move assignment: the new value of \<open>*this\<close> and the moved-from
  object, whose buffer is empty and whose views keep their lengths.
\<close>

definition lmb_move :: "log_msg_buf \<Rightarrow> log_msg_buf \<times> log_msg_buf" where
  "lmb_move other =
     (\<lparr>base_msg = base_msg other, name_len = name_len other, text_len = text_len other, buf = buf other\<rparr>,
      other\<lparr>buf := []\<rparr>)"

definition lmb_move_assign :: "log_msg_buf \<Rightarrow> log_msg_buf \<Rightarrow> log_msg_buf \<times> log_msg_buf" where
  "lmb_move_assign this other =
     (this\<lparr>base_msg := base_msg other, name_len := name_len other, text_len := text_len other,
           buf := buf other\<rparr>, other\<lparr>buf := []\<rparr>)"

text \<open>The views lie in the buffer.\<close>

definition lmb_ok :: "log_msg_buf \<Rightarrow> bool" where
  "lmb_ok b \<longleftrightarrow> length (buf b) = name_len b + text_len b"

lemma lmb_new_msg [simp]: "lmb_msg (lmb_new m) = m" "lmb_ok (lmb_new m)"
  by (simp_all add: lmb_msg_def lmb_new_def lmb_ok_def append_string_view_def)

lemma lmb_copy_msg [simp]: "lmb_ok b \<Longrightarrow> lmb_msg (lmb_copy b) = lmb_msg b" "lmb_ok b \<Longrightarrow> lmb_ok (lmb_copy b)"
  by (simp_all add: lmb_msg_def lmb_copy_def lmb_ok_def append_string_view_def)

lemma lmb_assign_msg [simp]: "lmb_msg (lmb_assign this b) = lmb_msg b" "lmb_ok b \<Longrightarrow> lmb_ok (lmb_assign this b)"
  by (simp_all add: lmb_msg_def lmb_assign_def lmb_ok_def append_string_view_def)

lemma lmb_move_msg [simp]:
  "lmb_msg (fst (lmb_move b)) = lmb_msg b" "lmb_ok b \<Longrightarrow> lmb_ok (fst (lmb_move b))"
  "lmb_msg (fst (lmb_move_assign this b)) = lmb_msg b" "lmb_ok b \<Longrightarrow> lmb_ok (fst (lmb_move_assign this b))"
  by (simp_all add: lmb_msg_def lmb_move_def lmb_move_assign_def lmb_ok_def)

text \<open>Whatever is done with a message on its way: copied, assigned, moved, in any number.\<close>

datatype lmb_hop = Copied | Assigned_to log_msg_buf | Moved | Move_assigned_to log_msg_buf

fun lmb_hop_run :: "lmb_hop \<Rightarrow> log_msg_buf \<Rightarrow> log_msg_buf" where
  "lmb_hop_run Copied b = lmb_copy b"
| "lmb_hop_run (Assigned_to this) b = lmb_assign this b"
| "lmb_hop_run Moved b = fst (lmb_move b)"
| "lmb_hop_run (Move_assigned_to this) b = fst (lmb_move_assign this b)"

lemma lmb_hops:
  "lmb_ok b \<Longrightarrow> lmb_ok (fold lmb_hop_run hs b) \<and> lmb_msg (fold lmb_hop_run hs b) = lmb_msg b"
proof (induction hs arbitrary: b)
  case (Cons h hs)
  have "lmb_ok (lmb_hop_run h b) \<and> lmb_msg (lmb_hop_run h b) = lmb_msg b"
    using Cons.prems by (cases h) auto
  then show ?case using Cons.IH [of "lmb_hop_run h b"] by simp
qed simp

section \<open>The backtracer\<close>

record backtracer =
  bt_enabled :: bool
  log_msgs :: "log_msg_buf circular_queue"

definition bt_default :: backtracer where
  "bt_default = \<lparr>bt_enabled = False, log_msgs = cq_invalid\<rparr>"

text \<open>Copying the ring copies the elements of its vector.\<close>

definition bt_copy :: "backtracer \<Rightarrow> backtracer" where
  "bt_copy other = \<lparr>bt_enabled = bt_enabled other,
     log_msgs = (log_msgs other)\<lparr>vec := map lmb_copy (vec (log_msgs other))\<rparr>\<rparr>"

definition bt_move :: "backtracer \<Rightarrow> backtracer \<times> backtracer" where
  "bt_move other =
     (let (q, q') = cq_move (log_msgs other)
      in (\<lparr>bt_enabled = bt_enabled other, log_msgs = q\<rparr>, other\<lparr>log_msgs := q'\<rparr>))"

definition bt_is_enabled :: "backtracer \<Rightarrow> bool" where
  "bt_is_enabled bt = bt_enabled bt"

text \<open>
  \<open>enable_with_size\<close>: a ring that cannot be allocated throws after \<open>bt_enabled\<close> has been set.
\<close>

definition bt_enable_with_size :: "size_t \<Rightarrow> backtracer \<Rightarrow> backtracer \<times> queue_error option" where
  "bt_enable_with_size n bt =
     (let bt = bt\<lparr>bt_enabled := True\<rparr>
      in case cq_new lmb_default n of
           Inl e \<Rightarrow> (bt, Some e)
         | Inr q \<Rightarrow> (bt\<lparr>log_msgs := fst (cq_move q)\<rparr>, None))"

definition bt_disable :: "backtracer \<Rightarrow> backtracer" where
  "bt_disable bt = bt\<lparr>bt_enabled := False, log_msgs := cq_clear (log_msgs bt)\<rparr>"

definition bt_push_back :: "log_msg \<Rightarrow> backtracer \<Rightarrow> backtracer" where
  "bt_push_back m bt = bt\<lparr>log_msgs := cq_push_back (lmb_new m) (log_msgs bt)\<rparr>"

text \<open>
  The loop of \<open>foreach_do\<close>. The message is removed before \<open>func\<close> is called, which may throw; the
  reference to it stays valid because only the head index moved.
\<close>

partial_function (option) foreach_loop ::
  "(log_msg \<Rightarrow> 's \<Rightarrow> 's \<times> excpt option) \<Rightarrow> log_msg_buf circular_queue \<Rightarrow> 's \<Rightarrow>
     (log_msg_buf circular_queue \<times> 's \<times> excpt option) option" where
  "foreach_loop func q s =
     (if cq_empty q then Some (q, s, None)
      else case cq_front q of
        None \<Rightarrow> None
      | Some msg_buf \<Rightarrow>
          (case func (lmb_msg msg_buf) s of
             (s, Some e) \<Rightarrow> Some (cq_pop_front q, s, Some e)
           | (s, None) \<Rightarrow> foreach_loop func (cq_pop_front q) s))"

declare foreach_loop.simps [code]

definition bt_foreach_do ::
  "(log_msg \<Rightarrow> 's \<Rightarrow> 's \<times> excpt option) \<Rightarrow> backtracer \<Rightarrow> 's \<Rightarrow>
     (backtracer \<times> 's \<times> excpt option) option" where
  "bt_foreach_do func bt s =
     map_option (\<lambda>(q, s, e). (bt\<lparr>log_msgs := q\<rparr>, s, e)) (foreach_loop func (log_msgs bt) s)"

section \<open>What the backtracer holds\<close>

definition bt_ok :: "backtracer \<Rightarrow> bool" where
  "bt_ok bt \<longleftrightarrow> cq_invar (log_msgs bt)"

definition bt_msgs :: "backtracer \<Rightarrow> log_msg list" where
  "bt_msgs bt = map lmb_msg (cq_list (log_msgs bt))"

definition bt_size :: "backtracer \<Rightarrow> nat" where
  "bt_size bt = cq_capacity (log_msgs bt)"

lemma last_n_map: "last_n n (map f xs) = map f (last_n n xs)"
  by (simp add: last_n_def drop_map)

lemma bt_push_spec:
  assumes "bt_ok bt"
  shows "bt_ok (bt_push_back m bt)" and "bt_size (bt_push_back m bt) = bt_size bt"
    and "bt_msgs (bt_push_back m bt) = last_n (bt_size bt) (bt_msgs bt @ [m])"
    and "bt_enabled (bt_push_back m bt) = bt_enabled bt"
  using assms cq.invar_push cq.cap_push cq.content_push [of "log_msgs bt" "lmb_new m"]
  by (simp_all add: bt_ok_def bt_size_def bt_msgs_def bt_push_back_def flip: last_n_map)

lemma bt_push_all:
  assumes "bt_ok bt"
  shows "bt_ok (fold bt_push_back ms bt) \<and> bt_size (fold bt_push_back ms bt) = bt_size bt \<and>
         bt_msgs (fold bt_push_back ms bt) = last_n (bt_size bt) (bt_msgs bt @ ms)"
proof -
  have "log_msgs (fold bt_push_back ms bt) = fold cq_push_back (map lmb_new ms) (log_msgs bt)"
    by (induction ms arbitrary: bt) (simp_all add: bt_push_back_def)
  moreover have "map lmb_msg (map lmb_new ms) = ms" by (simp add: map_idI)
  ultimately show ?thesis
    using cq.push_all [of "log_msgs bt" "map lmb_new ms"] assms
    by (simp add: bt_ok_def bt_size_def bt_msgs_def flip: last_n_map)
qed

lemma bt_enable_spec:
  assumes "bt_enable_with_size n bt = (bt', None)" and "n \<noteq> - 1"
  shows "bt_ok bt'" and "bt_msgs bt' = []" and "bt_size bt' = unat n" and "bt_is_enabled bt'"
proof -
  obtain q where q: "cq_new lmb_default n = Inr q" and bt': "log_msgs bt' = q" "bt_enabled bt'"
    using assms(1) by (auto simp: bt_enable_with_size_def cq_move_def Let_def split: sum.splits)
  show "bt_ok bt'" "bt_msgs bt' = []" "bt_size bt' = unat n" "bt_is_enabled bt'"
    using cq_new_invar [OF q] cq_new_list [OF q] cq_new_capacity [OF q] bt' assms(2)
    by (simp_all add: bt_ok_def bt_msgs_def bt_size_def bt_is_enabled_def)
qed

lemma bt_foreach_spec:
  assumes "bt_ok bt"
  shows "\<exists>bt'. bt_foreach_do func bt s = Some (bt', snd (run_until func (bt_msgs bt) s)) \<and>
           bt_ok bt' \<and> bt_msgs bt' = fst (run_until func (bt_msgs bt) s) \<and> bt_size bt' = bt_size bt \<and>
           bt_enabled bt' = bt_enabled bt"
proof -
  obtain q' where "foreach_loop func (log_msgs bt) s =
      Some (q', snd (run_until (\<lambda>x. func (lmb_msg x)) (cq_list (log_msgs bt)) s))"
    and "cq_invar q'" "cq_capacity q' = cq_capacity (log_msgs bt)"
      "cq_list q' = fst (run_until (\<lambda>x. func (lmb_msg x)) (cq_list (log_msgs bt)) s)"
    using cq.drain_until [of "foreach_loop func" "\<lambda>x. func (lmb_msg x)" "log_msgs bt" s]
      foreach_loop.simps [of func] assms
    by (auto simp: bt_ok_def)
  then show ?thesis
    by (auto simp: bt_foreach_do_def bt_msgs_def bt_ok_def bt_size_def run_until_map split: prod.split)
qed

section \<open>Properties\<close>

text \<open>
  A message stored in a \<open>log_msg_buf\<close> and then copied, assigned and moved any number of
  times, over whatever the targets held before, still reads as the original message.
\<close>

theorem lmb_text_survives: "lmb_msg (fold lmb_hop_run hops (lmb_new m)) = m"
  using lmb_hops [of "lmb_new m" hops] by simp

text \<open>
  After \<open>enable_with_size(n)\<close> and any messages, \<open>foreach_do\<close> returns and has called the
  function on the last \<open>n\<close> messages, oldest first; what it did not reach because the function
  threw is kept, without the message it threw on, and nothing else is.
\<close>

theorem bt_replays_last:
  assumes "bt_enable_with_size n bt = (bt', None)" and "n \<noteq> - 1"
  shows "\<exists>bt''. bt_foreach_do func (fold bt_push_back ms bt') s =
           Some (bt'', snd (run_until func (last_n (unat n) ms) s)) \<and>
         bt_msgs bt'' = fst (run_until func (last_n (unat n) ms) s) \<and> bt_is_enabled bt''"
proof -
  note e = bt_enable_spec [OF assms]
  have "bt_enabled (fold bt_push_back ms b) = bt_enabled b" for b
    by (induction ms arbitrary: b) (simp_all add: bt_push_back_def)
  then show ?thesis
    using bt_push_all [OF e(1), of ms] e bt_foreach_spec [of "fold bt_push_back ms bt'" func s]
    by (auto simp: bt_is_enabled_def)
qed

definition text_msg :: "string \<Rightarrow> log_msg" where
  "text_msg t = log_msg_default\<lparr>msg := t\<rparr>"

theorem bt_replays_last_witness:
  "\<exists>bt. map_option snd (bt_foreach_do (\<lambda>m out. (out @ [msg m], None))
     (fold bt_push_back [text_msg ''a'', text_msg ''b'', text_msg ''c''] bt) []) =
     Some ([''b'', ''c''], None)"
proof -
  have "snd (bt_enable_with_size 2 bt_default) = None"
    by (simp add: bt_enable_with_size_def cq_new_def vector_max_def)
  then obtain bt where bt: "bt_enable_with_size 2 bt_default = (bt, None)"
    by (metis prod.collapse)
  show ?thesis
    using bt_replays_last [OF bt, of "\<lambda>m out. (out @ [msg m], None)"
        "[text_msg ''a'', text_msg ''b'', text_msg ''c'']" "[]"]
    by (intro exI [of _ bt]) (auto simp: last_n_def text_msg_def)
qed

end
