(* ===== verification/Loggers.thy ===== *)
theory Loggers
  imports Sinks Backtracer
begin

text \<open>
  \<^verbatim>\<open>include/logger.h\<close> and \<^verbatim>\<open>src/logger.cpp\<close>. Sinks and backtracers are shared objects, so they
  live in a store and a logger holds their addresses: a clone shares both with the original. An
  operation that may throw returns the exception; \<open>None\<close> is undefined behaviour. The functions
  that call the virtual \<open>sink_log_\<close> and \<open>flush_sink_\<close> take them as arguments, since the
  asynchronous logger overrides both. The text that \<open>vformat_to\<close> makes of a format string and
  its arguments, or the exception it throws, is an argument.
\<close>

section \<open>State\<close>

record logger =
  lg_name :: string
  lg_sinks :: "nat list"
  lg_tracer :: "nat option"
  log_level :: level_enum
  flush_level :: level_enum
  lg_pattern :: string
  is_async :: bool

record 'c heap =
  sink_at :: "nat \<Rightarrow> 'c sink"
  tracer_at :: "nat \<Rightarrow> backtracer"
  next_tracer :: nat
  io :: io_state
  reports :: "string list"

definition logger_new :: "string \<Rightarrow> nat list \<Rightarrow> logger" where
  "logger_new n sinks = \<lparr>lg_name = n, lg_sinks = sinks, lg_tracer = None, log_level = Info,
     flush_level = Off, lg_pattern = ''%+'', is_async = False\<rparr>"

text \<open>\<open>LEARNLOG_CATCH\<close> with its report.\<close>

definition caught :: "excpt option \<Rightarrow> 'c heap \<Rightarrow> excpt option \<times> 'c heap" where
  "caught e h = (let (rs, e) = learnlog_catch e in (e, h\<lparr>reports := reports h @ rs\<rparr>))"

section \<open>Writing to the sinks\<close>

text \<open>\<open>try { sink->log(msg); } LEARNLOG_CATCH\<close>\<close>

definition try_sink_log ::
  "'c sys_env \<Rightarrow> nat \<Rightarrow> log_msg \<Rightarrow> 'c heap \<Rightarrow> (excpt option \<times> log_msg \<times> 'c heap) option" where
  "try_sink_log env i m h =
     do { (e, s, m, w) \<leftarrow> sink_log env m (sink_at h i) (io h);
          let (e, h) = caught e (h\<lparr>sink_at := (sink_at h)(i := s), io := w\<rparr>);
          Some (e, m, h) }"

fun sinks_log ::
  "'c sys_env \<Rightarrow> nat list \<Rightarrow> log_msg \<Rightarrow> 'c heap \<Rightarrow> (excpt option \<times> log_msg \<times> 'c heap) option" where
  "sinks_log env [] m h = Some (None, m, h)"
| "sinks_log env (i # is) m h =
     (if sink_should_log (level m) (sink_at h i) then
        do { (e, m, h) \<leftarrow> try_sink_log env i m h;
             case e of Some e \<Rightarrow> Some (Some e, m, h) | None \<Rightarrow> sinks_log env is m h }
      else sinks_log env is m h)"

definition try_sink_flush :: "'c sys_env \<Rightarrow> nat \<Rightarrow> 'c heap \<Rightarrow> excpt option \<times> 'c heap" where
  "try_sink_flush env i h =
     (let (e, w) = sink_flush env (kind (sink_at h i)) (io h) in caught e (h\<lparr>io := w\<rparr>))"

fun sinks_flush :: "'c sys_env \<Rightarrow> nat list \<Rightarrow> 'c heap \<Rightarrow> excpt option \<times> 'c heap" where
  "sinks_flush env [] h = (None, h)"
| "sinks_flush env (i # is) h =
     (case try_sink_flush env i h of
        (Some e, h) \<Rightarrow> (Some e, h)
      | (None, h) \<Rightarrow> sinks_flush env is h)"

definition should_log :: "logger \<Rightarrow> level_enum \<Rightarrow> bool" where
  "should_log lg msg_level \<longleftrightarrow> msg_level \<ge> log_level lg"

definition should_flush :: "logger \<Rightarrow> level_enum \<Rightarrow> bool" where
  "should_flush lg msg_level \<longleftrightarrow> msg_level \<ge> flush_level lg \<and> msg_level \<noteq> Off"

text \<open>The members \<open>flush_sink_\<close> and \<open>sink_log_\<close> of the synchronous logger.\<close>

definition flush_sink :: "'c sys_env \<Rightarrow> logger \<Rightarrow> 'c heap \<Rightarrow> excpt option \<times> 'c heap" where
  "flush_sink env lg h = sinks_flush env (lg_sinks lg) h"

definition logger_sink_log ::
  "'c sys_env \<Rightarrow> logger \<Rightarrow> log_msg \<Rightarrow> 'c heap \<Rightarrow> (excpt option \<times> log_msg \<times> 'c heap) option" where
  "logger_sink_log env lg m h =
     do { (e, m, h) \<leftarrow> sinks_log env (lg_sinks lg) m h;
          if e = None \<and> should_flush lg (level m)
          then (case flush_sink env lg h of (e, h) \<Rightarrow> Some (e, m, h))
          else Some (e, m, h) }"

section \<open>Logging\<close>

definition backtrace_enabled :: "logger \<Rightarrow> 'c heap \<Rightarrow> bool" where
  "backtrace_enabled lg h = (case lg_tracer lg of None \<Rightarrow> False | Some t \<Rightarrow> bt_is_enabled (tracer_at h t))"

definition tracer_push :: "logger \<Rightarrow> log_msg \<Rightarrow> 'c heap \<Rightarrow> 'c heap option" where
  "tracer_push lg m h =
     (case lg_tracer lg of
        None \<Rightarrow> None
      | Some t \<Rightarrow> Some (h\<lparr>tracer_at := (tracer_at h)(t := bt_push_back m (tracer_at h t))\<rparr>))"

type_synonym 'h log_fun = "log_msg \<Rightarrow> 'h \<Rightarrow> (excpt option \<times> log_msg \<times> 'h) option"

definition do_log ::
  "'c heap log_fun \<Rightarrow> logger \<Rightarrow> log_msg \<Rightarrow> bool \<Rightarrow> bool \<Rightarrow> 'c heap \<Rightarrow> (excpt option \<times> 'c heap) option" where
  "do_log slog lg m log_enabled traceback_enabled h =
     do { (e, m, h) \<leftarrow> (if log_enabled then slog m h else Some (None, m, h));
          if e = None \<and> traceback_enabled
          then do { h \<leftarrow> tracer_push lg m h; Some (e, h) }
          else Some (e, h) }"

text \<open>The public \<open>log\<close> with a time point; without one the clock is read first.\<close>

definition log_at ::
  "'c heap log_fun \<Rightarrow> size_t \<Rightarrow> logger \<Rightarrow> int \<Rightarrow> source_loc \<Rightarrow> level_enum \<Rightarrow> string \<Rightarrow> 'c heap \<Rightarrow>
     (excpt option \<times> 'c heap) option" where
  "log_at slog thread_id lg tm l lv text h =
     (let log_enabled = should_log lg lv; bt_on = backtrace_enabled lg h
      in if \<not> log_enabled \<and> \<not> bt_on then Some (None, h)
         else do_log slog lg (mk_log_msg thread_id tm l lv text (lg_name lg)) log_enabled bt_on h)"

definition read_clock :: "'c sys_env \<Rightarrow> 'c heap \<Rightarrow> int \<times> 'c heap" where
  "read_clock env h = (clock env (ticks (io h)), h\<lparr>io := (io h)\<lparr>ticks := ticks (io h) + 1\<rparr>\<rparr>)"

definition log_text ::
  "'c sys_env \<Rightarrow> 'c heap log_fun \<Rightarrow> size_t \<Rightarrow> logger \<Rightarrow> source_loc \<Rightarrow> level_enum \<Rightarrow> string \<Rightarrow> 'c heap \<Rightarrow>
     (excpt option \<times> 'c heap) option" where
  "log_text env slog thread_id lg l lv text h =
     (let log_enabled = should_log lg lv; bt_on = backtrace_enabled lg h
      in if \<not> log_enabled \<and> \<not> bt_on then Some (None, h)
         else (case read_clock env h of (now, h) \<Rightarrow>
           do_log slog lg (mk_log_msg thread_id now l lv text (lg_name lg)) log_enabled bt_on h))"

text \<open>
  The template \<open>log_\<close>: formatting and logging are inside a \<open>try\<close> block. \<open>formatted\<close> is what
  \<open>vformat_to\<close> does.
\<close>

definition log_formatted ::
  "'c sys_env \<Rightarrow> 'c heap log_fun \<Rightarrow> size_t \<Rightarrow> logger \<Rightarrow> source_loc \<Rightarrow> level_enum \<Rightarrow> excpt + string \<Rightarrow> 'c heap \<Rightarrow>
     (excpt option \<times> 'c heap) option" where
  "log_formatted env slog thread_id lg l lv formatted h =
     (let log_enabled = should_log lg lv; bt_on = backtrace_enabled lg h
      in if \<not> log_enabled \<and> \<not> bt_on then Some (None, h)
         else do { (e, h) \<leftarrow>
                     (case formatted of
                        Inl e \<Rightarrow> Some (Some e, h)
                      | Inr text \<Rightarrow> (case read_clock env h of (now, h) \<Rightarrow>
                          do_log slog lg (mk_log_msg thread_id now l lv text (lg_name lg)) log_enabled bt_on h));
                   Some (caught e h) })"

section \<open>Settings\<close>

definition set_log_level :: "level_enum \<Rightarrow> logger \<Rightarrow> logger" where
  "set_log_level l lg = lg\<lparr>log_level := l\<rparr>"

definition set_flush_level :: "level_enum \<Rightarrow> logger \<Rightarrow> logger" where
  "set_flush_level l lg = lg\<lparr>flush_level := l\<rparr>"

definition clone_formatter ::
  "'c sys_env \<Rightarrow> 'c pattern_formatter \<Rightarrow> io_state \<Rightarrow> ('c pattern_formatter \<times> io_state) option" where
  "clone_formatter env pf w =
     do { pf' \<leftarrow> pf_clone (fenv env) (\<lambda>k. clock env (ticks w + k)) pf;
          Some (pf', w\<lparr>ticks := ticks w + length (pattern pf)\<rparr>) }"

text \<open>\<open>set_formatter\<close>: the last sink gets the formatter itself, the others clones of it.\<close>

fun set_formatters ::
  "'c sys_env \<Rightarrow> nat list \<Rightarrow> 'c pattern_formatter \<Rightarrow> 'c heap \<Rightarrow> 'c heap option" where
  "set_formatters env [] pf h = Some h"
| "set_formatters env [i] pf h =
     Some (h\<lparr>sink_at := (sink_at h)(i := sink_set_formatter pf (sink_at h i))\<rparr>)"
| "set_formatters env (i # j # is) pf h =
     do { (pf', w) \<leftarrow> clone_formatter env pf (io h);
          set_formatters env (j # is) pf
            (h\<lparr>sink_at := (sink_at h)(i := sink_set_formatter pf' (sink_at h i)), io := w\<rparr>) }"

definition logger_set_formatter ::
  "'c sys_env \<Rightarrow> logger \<Rightarrow> 'c pattern_formatter \<Rightarrow> 'c heap \<Rightarrow> 'c heap option" where
  "logger_set_formatter env lg pf h = set_formatters env (lg_sinks lg) pf h"

definition logger_set_pattern ::
  "'c sys_env \<Rightarrow> logger \<Rightarrow> string \<Rightarrow> 'c heap \<Rightarrow> (logger \<times> 'c heap) option" where
  "logger_set_pattern env lg pat h =
     do { (pf, w) \<leftarrow> make_formatter env pat (io h);
          h \<leftarrow> logger_set_formatter env lg pf (h\<lparr>io := w\<rparr>);
          Some (lg\<lparr>lg_pattern := pat\<rparr>, h) }"

section \<open>Backtrace\<close>

text \<open>\<open>enable_backtrace_n\<close>: the first call makes the backtracer; its ring may be too large.\<close>

definition enable_backtrace_n :: "size_t \<Rightarrow> logger \<Rightarrow> 'c heap \<Rightarrow> excpt option \<times> logger \<times> 'c heap" where
  "enable_backtrace_n n lg h =
     (let (t, lg, h) = (case lg_tracer lg of
            Some t \<Rightarrow> (t, lg, h)
          | None \<Rightarrow> (next_tracer h, lg\<lparr>lg_tracer := Some (next_tracer h)\<rparr>,
                     h\<lparr>tracer_at := (tracer_at h)(next_tracer h := bt_default), next_tracer := next_tracer h + 1\<rparr>));
          (bt, e) = bt_enable_with_size n (tracer_at h t)
      in (map_option (\<lambda>_. Std_exception ''cannot create std::vector larger than max_size()'') e, lg,
          h\<lparr>tracer_at := (tracer_at h)(t := bt)\<rparr>))"

text \<open>\<open>disable_backtrace\<close> follows the pointer without looking at it.\<close>

definition disable_backtrace :: "logger \<Rightarrow> 'c heap \<Rightarrow> 'c heap option" where
  "disable_backtrace lg h =
     (case lg_tracer lg of
        None \<Rightarrow> None
      | Some t \<Rightarrow> Some (h\<lparr>tracer_at := (tracer_at h)(t := bt_disable (tracer_at h t))\<rparr>))"

definition backtrace_start :: string where
  "backtrace_start = ''*********************** Backtrace Start ***********************''"

definition backtrace_end :: string where
  "backtrace_end = ''************************ Backtrace End ************************''"

text \<open>
  The function given to \<open>foreach_do\<close>, over a state that is lost once something undefined
  happened.
\<close>

definition replay_fun :: "'c heap log_fun \<Rightarrow> log_msg \<Rightarrow> 'c heap option \<Rightarrow> 'c heap option \<times> excpt option" where
  "replay_fun slog m h =
     (case h of
        None \<Rightarrow> (None, None)
      | Some h \<Rightarrow> (case slog m h of None \<Rightarrow> (None, None) | Some (e, m, h) \<Rightarrow> (Some h, e)))"

definition banner ::
  "'c sys_env \<Rightarrow> size_t \<Rightarrow> logger \<Rightarrow> string \<Rightarrow> 'c heap \<Rightarrow> log_msg \<times> 'c heap" where
  "banner env thread_id lg text h =
     (let (now, h) = read_clock env h
      in (mk_log_msg thread_id now source_loc_default Info text (lg_name lg), h))"

definition dump_backtrace ::
  "'c sys_env \<Rightarrow> 'c heap log_fun \<Rightarrow> size_t \<Rightarrow> logger \<Rightarrow> 'c heap \<Rightarrow> (excpt option \<times> 'c heap) option" where
  "dump_backtrace env slog thread_id lg h =
     (case lg_tracer lg of
        None \<Rightarrow> Some (None, h)
      | Some t \<Rightarrow>
          if \<not> bt_is_enabled (tracer_at h t) then Some (None, h)
          else let (s, h) = banner env thread_id lg backtrace_start h in
            do { (e, s, h) \<leftarrow> slog s h;
                 if e \<noteq> None then Some (e, h)
                 else do { (bt, h, e) \<leftarrow> bt_foreach_do (replay_fun slog) (tracer_at h t) (Some h);
                           h \<leftarrow> h;
                           let h = h\<lparr>tracer_at := (tracer_at h)(t := bt)\<rparr>;
                           if e \<noteq> None then Some (e, h)
                           else let (f, h) = banner env thread_id lg backtrace_end h in
                             do { (e, f, h) \<leftarrow> slog f h; Some (e, h) } } })"

section \<open>Copies\<close>

definition logger_clone :: "string \<Rightarrow> logger \<Rightarrow> logger" where
  "logger_clone new_name lg = lg\<lparr>lg_name := new_name\<rparr>"

text \<open>\<open>swap\<close> leaves the pattern and the asynchronous flag where they are.\<close>

definition logger_swap :: "logger \<Rightarrow> logger \<Rightarrow> logger \<times> logger" where
  "logger_swap a b =
     (a\<lparr>lg_name := lg_name b, lg_sinks := lg_sinks b, log_level := log_level b,
        flush_level := flush_level b, lg_tracer := lg_tracer b\<rparr>,
      b\<lparr>lg_name := lg_name a, lg_sinks := lg_sinks a, log_level := log_level a,
        flush_level := flush_level a, lg_tracer := lg_tracer a\<rparr>)"

section \<open>Faults stay inside\<close>

text \<open>Everything the sinks throw is derived from \<open>std::exception\<close>.\<close>

definition only_std :: "excpt option \<Rightarrow> bool" where
  "only_std e \<longleftrightarrow> e \<noteq> Some Other_exception"

lemma only_std_simps [simp]: "only_std None" "only_std (Some (Std_exception t))" "\<not> only_std (Some Other_exception)"
  by (simp_all add: only_std_def)

lemma excpt_std [simp]:
  "only_std (Some (fb_error oe f n l w))" "only_std (Some (learnlog_excpt t))"
  "only_std (Some (learnlog_excpt_loc g t k src ln fn))"
  by (simp_all add: fb_error_def learnlog_excpt_loc_def learnlog_excpt_def)

lemma file_ops_std:
  "file_write oe p n b w = (e, w') \<Longrightarrow> only_std e"
  "file_flush oe p n w = (e, w') \<Longrightarrow> only_std e"
  "file_close oe p n w = (e, q, w') \<Longrightarrow> only_std e"
  "file_open oe p n tr k ms w = (e, q, w') \<Longrightarrow> only_std e"
  "file_size oe p n w = (Inl x, w') \<Longrightarrow> only_std (Some x)"
proof -
  show "file_write oe p n b w = (e, w') \<Longrightarrow> only_std e"
    by (auto simp: file_write_def split: option.splits prod.splits if_splits)
  show "file_flush oe p n w = (e, w') \<Longrightarrow> only_std e"
    by (auto simp: file_flush_def split: option.splits prod.splits bool.splits)
  show close: "file_close oe p n w = (e, q, w') \<Longrightarrow> only_std e" for p q e w w'
    by (auto simp: file_close_def split: option.splits prod.splits bool.splits)
  show "file_open oe p n tr k ms w = (e, q, w') \<Longrightarrow> only_std e"
    by (auto simp: file_open_def split: option.splits prod.splits dest: close)
  show "file_size oe p n w = (Inl x, w') \<Longrightarrow> only_std (Some x)"
    by (auto simp: file_size_def split: option.splits prod.splits if_splits)
qed

lemma rolling_output_std: "rolling_output oe r b w = (e, r', w') \<Longrightarrow> only_std e"
  by (auto simp: rolling_output_def make_room_def rolling_flush_def roll_file_def open_default_def Let_def
      split: option.splits prod.splits sum.splits if_splits dest: file_ops_std)

lemma sink_log_std: "sink_log env m s w = Some (e, s', m', w') \<Longrightarrow> only_std e"
  by (cases "kind s")
    (auto simp: sink_log_def null_output_def ostream_output_def basic_file_output_def std_output_def
      ansicolor_output_def Let_def
      split: Option.bind_splits prod.splits if_splits dest: file_ops_std rolling_output_std)

lemma sink_flush_std: "sink_flush env k w = (e, w') \<Longrightarrow> only_std e"
  by (cases k) (auto simp: rolling_flush_def split: prod.splits dest: file_ops_std)

lemma caught_std:
  "only_std e \<Longrightarrow> \<exists>rs. caught e h = (None, h\<lparr>reports := reports h @ rs\<rparr>) \<and> length rs \<le> 1"
  by (intro exI [of _ "fst (learnlog_catch e)"])
    (auto simp: caught_def learnlog_catch_def only_std_def Let_def split: option.split excpt.split)

lemma try_sink_log_std:
  assumes "try_sink_log env i m h = Some (e, m', h')"
  shows "e = None \<and> (\<exists>rs. reports h' = reports h @ rs \<and> length rs \<le> 1)"
proof -
  obtain e1 s w where l: "sink_log env m (sink_at h i) (io h) = Some (e1, s, m', w)"
    and c: "caught e1 (h\<lparr>sink_at := (sink_at h)(i := s), io := w\<rparr>) = (e, h')"
    using assms by (auto simp: try_sink_log_def split: Option.bind_splits prod.splits)
  show ?thesis using caught_std [OF sink_log_std [OF l], of "h\<lparr>sink_at := (sink_at h)(i := s), io := w\<rparr>"] c by auto
qed

lemma sinks_log_std:
  assumes "sinks_log env is m h = Some (e, m', h')"
  shows "e = None \<and> (\<exists>rs. reports h' = reports h @ rs \<and> length rs \<le> length is)"
  using assms
proof (induction "is" arbitrary: m h)
  case (Cons i "is")
  show ?case
  proof (cases "sink_should_log (level m) (sink_at h i)")
    case True
    then obtain e1 m1 h1 where t: "try_sink_log env i m h = Some (e1, m1, h1)"
      using Cons.prems by (auto split: Option.bind_splits)
    note t1 = try_sink_log_std [OF t]
    then have "sinks_log env is m1 h1 = Some (e, m', h')" using Cons.prems t True by simp
    from Cons.IH [OF this] t1 show ?thesis by (auto; (rule exI, rule conjI, rule refl)?; simp)
  next
    case False
    then show ?thesis using Cons.IH [of m h] Cons.prems by fastforce
  qed
qed simp

lemma sinks_log_append:
  "sinks_log env (is @ js) m h =
     do { (e, m, h) \<leftarrow> sinks_log env is m h; sinks_log env js m h }"
proof (induction "is" arbitrary: m h)
  case (Cons i "is")
  then show ?case
    by (auto split: Option.bind_splits prod.splits option.splits dest: try_sink_log_std)
qed simp

lemma sinks_flush_std:
  "fst (sinks_flush env is h) = None \<and> (\<exists>rs. reports (snd (sinks_flush env is h)) = reports h @ rs \<and> length rs \<le> length is)"
proof (induction "is" arbitrary: h)
  case (Cons i "is")
  obtain e w where f: "sink_flush env (kind (sink_at h i)) (io h) = (e, w)" by fastforce
  obtain rs where "caught e (h\<lparr>io := w\<rparr>) = (None, h\<lparr>io := w, reports := reports h @ rs\<rparr>)" "length rs \<le> 1"
    using caught_std [OF sink_flush_std [OF f], of "h\<lparr>io := w\<rparr>"] by auto
  then show ?case
    using Cons.IH [of "h\<lparr>io := w, reports := reports h @ rs\<rparr>"] f
    by (auto simp: try_sink_flush_def; (rule exI, rule conjI, rule refl)?; simp)
qed simp

lemma logger_sink_log_std:
  assumes "logger_sink_log env lg m h = Some (e, m', h')"
  shows "e = None"
  using assms sinks_flush_std [of env "lg_sinks lg"]
  by (auto simp: logger_sink_log_def flush_sink_def split: Option.bind_splits prod.splits if_splits
      dest!: sinks_log_std) (metis fst_conv)

section \<open>Every sink gets its lines\<close>

text \<open>The sinks of a logger are ready, separate, and have formatters in their invariant.\<close>

definition heap_ok :: "'c sys_env \<Rightarrow> nat list \<Rightarrow> 'c heap \<Rightarrow> bool" where
  "heap_ok env all h \<longleftrightarrow>
     (\<forall>i \<in> set all. sink_ready (kind (sink_at h i)) (io h) \<and> pf_ok (fenv env) (formatter (sink_at h i)) \<and>
        no_duration (formatter (sink_at h i)) \<and>
        (\<forall>j \<in> set all. i \<noteq> j \<longrightarrow> separate (io h) (kind (sink_at h i)) (kind (sink_at h j))))"

definition line_at :: "'c sys_env \<Rightarrow> 'c heap \<Rightarrow> nat \<Rightarrow> log_msg \<Rightarrow> string" where
  "line_at env h i = line_text (fenv env) (formatter (sink_at h i))"

definition text_at :: "'c heap \<Rightarrow> nat \<Rightarrow> string" where
  "text_at h i = sink_text (kind (sink_at h i)) (io h)"

definition printable_at :: "'c sys_env \<Rightarrow> 'c heap \<Rightarrow> nat list \<Rightarrow> log_msg \<Rightarrow> bool" where
  "printable_at env h all m \<longleftrightarrow> (\<forall>i \<in> set all. printable (fenv env) (formatter (sink_at h i)) m)"

text \<open>What logging does not change: how the sinks print, their levels, backtracers, reports.\<close>

definition same_setup :: "'c sys_env \<Rightarrow> nat list \<Rightarrow> 'c heap \<Rightarrow> 'c heap \<Rightarrow> bool" where
  "same_setup env all h h' \<longleftrightarrow>
     (\<forall>i \<in> set all. line_at env h' i = line_at env h i \<and> sink_level (sink_at h' i) = sink_level (sink_at h i) \<and>
        printable (fenv env) (formatter (sink_at h' i)) = printable (fenv env) (formatter (sink_at h i))) \<and>
     tracer_at h' = tracer_at h \<and> next_tracer h' = next_tracer h \<and> reports h' = reports h"

lemma same_setup_refl [simp]: "same_setup env all h h"
  by (simp add: same_setup_def)

lemma same_setup_trans:
  "same_setup env all h h' \<Longrightarrow> same_setup env all h' h'' \<Longrightarrow> same_setup env all h h''"
  by (simp add: same_setup_def)

lemma same_setup_printable:
  "same_setup env all h h' \<Longrightarrow> printable_at env h' all m = printable_at env h all m"
  by (simp add: same_setup_def printable_at_def)

lemma same_msg_line:
  assumes "same_msg m m'"
  shows "line_text env pf m' = line_text env pf m" and "printable env pf m' = printable env pf m"
    and "level m' = level m"
proof -
  show "line_text env pf m' = line_text env pf m" "printable env pf m' = printable env pf m"
    by (simp_all add: line_text_def items_text_def printable_def same_msg_fields [OF assms])
  show "level m' = level m" using assms by (auto simp: same_msg_def)
qed

lemma same_msg_printable: "same_msg m m' \<Longrightarrow> printable_at env h all m' = printable_at env h all m"
  by (simp add: printable_at_def same_msg_line)

lemma heap_ok_step:
  assumes ok: "heap_ok env all h" and i: "i \<in> set all"
    and only: "only_medium (kind (sink_at h i)) (io h) w'"
    and pf: "pf_ok (fenv env) pf" "no_duration pf"
  shows "heap_ok env all (h\<lparr>sink_at := (sink_at h)(i := (sink_at h i)\<lparr>formatter := pf\<rparr>), io := w'\<rparr>)"
    and "j \<in> set all \<Longrightarrow> j \<noteq> i \<Longrightarrow> sink_text (kind (sink_at h j)) w' = text_at h j"
proof -
  have sep: "separate w' = separate (io h)" using only by (intro separate_cong) (simp add: only_medium_def)
  have ready_i: "sink_ready (kind (sink_at h i)) w'" using only by (simp add: only_medium_def)
  have other: "sink_ready (kind (sink_at h j)) w' \<and> sink_text (kind (sink_at h j)) w' = sink_text (kind (sink_at h j)) (io h)"
    if "j \<in> set all" "j \<noteq> i" for j
  proof -
    have "separate (io h) (kind (sink_at h i)) (kind (sink_at h j))" "sink_ready (kind (sink_at h j)) (io h)"
      using ok i that by (simp_all add: heap_ok_def)
    then show ?thesis using only by (simp add: only_medium_def)
  qed
  have ready: "sink_ready (kind (sink_at h j)) w'" if "j \<in> set all" for j
    using that other ready_i by (cases "j = i") simp_all
  let ?h = "h\<lparr>sink_at := (sink_at h)(i := (sink_at h i)\<lparr>formatter := pf\<rparr>), io := w'\<rparr>"
  have kind: "kind (sink_at ?h j) = kind (sink_at h j)" and io: "io ?h = w'" for j by simp_all
  have pfs: "formatter (sink_at ?h j) = (if j = i then pf else formatter (sink_at h j))" for j by simp
  have "pf_ok (fenv env) (formatter (sink_at ?h j)) \<and> no_duration (formatter (sink_at ?h j))" if "j \<in> set all" for j
    using that ok pf unfolding pfs heap_ok_def by auto
  then show "heap_ok env all ?h"
    using ok ready by (simp only: heap_ok_def kind io sep) simp
  show "sink_text (kind (sink_at h j)) w' = text_at h j" if "j \<in> set all" "j \<noteq> i"
    using other [OF that] by (simp add: text_at_def)
qed

lemma try_sink_log_ok:
  assumes env: "healthy (oenv env)" and ok: "heap_ok env all h" and i: "i \<in> set all"
    and p: "printable_at env h all m"
  shows "\<exists>m' h'. try_sink_log env i m h = Some (None, m', h') \<and> same_msg m m' \<and> heap_ok env all h' \<and>
     same_setup env all h h' \<and>
     (\<forall>j \<in> set all. text_at h' j = text_at h j @ (if j = i then line_at env h i m else []))"
proof -
  have pi: "printable (fenv env) (formatter (sink_at h i)) m" using p i by (simp add: printable_at_def)
  obtain pf m' w' where s: "sink_log env m (sink_at h i) (io h) = Some (None, (sink_at h i)\<lparr>formatter := pf\<rparr>, m', w')"
    "same_msg m m'" "pf_ok (fenv env) pf" "no_duration pf"
    "line_text (fenv env) pf = line_text (fenv env) (formatter (sink_at h i))"
    "printable (fenv env) pf = printable (fenv env) (formatter (sink_at h i))"
    "only_medium (kind (sink_at h i)) (io h) w'"
    "sink_text (kind (sink_at h i)) w' = sink_text (kind (sink_at h i)) (io h) @ line_text (fenv env) (formatter (sink_at h i)) m"
    using sink_log_ready [OF env _ _ _ pi, of "io h"] ok i by (auto simp: heap_ok_def)
  let ?h = "h\<lparr>sink_at := (sink_at h)(i := (sink_at h i)\<lparr>formatter := pf\<rparr>), io := w'\<rparr>"
  have "try_sink_log env i m h = Some (None, m', ?h)"
    using s(1) by (simp add: try_sink_log_def caught_def)
  moreover have "same_setup env all h ?h" using s(5,6) by (auto simp: same_setup_def line_at_def)
  moreover have "\<forall>j \<in> set all. text_at ?h j = text_at h j @ (if j = i then line_at env h i m else [])"
    using heap_ok_step(2) [OF ok i s(7,3,4)] s(8) by (auto simp: text_at_def line_at_def)
  ultimately show ?thesis using s(2) heap_ok_step(1) [OF ok i s(7,3,4)] by blast
qed

text \<open>What one message adds to the sink \<open>j\<close>.\<close>

definition added :: "'c sys_env \<Rightarrow> 'c heap \<Rightarrow> nat \<Rightarrow> log_msg \<Rightarrow> string" where
  "added env h j m = (if sink_should_log (level m) (sink_at h j) then line_at env h j m else [])"

lemma same_setup_added:
  "same_setup env all h h' \<Longrightarrow> j \<in> set all \<Longrightarrow> added env h' j = added env h j"
  by (auto simp: same_setup_def added_def sink_should_log_def fun_eq_iff)

lemma same_msg_added: "same_msg m m' \<Longrightarrow> added env h j m' = added env h j m"
  by (simp add: added_def line_at_def same_msg_line)

lemma sinks_log_ok:
  assumes env: "healthy (oenv env)" and "heap_ok env all h" and "set is \<subseteq> set all" and "distinct is"
    and "printable_at env h all m"
  shows "\<exists>m' h'. sinks_log env is m h = Some (None, m', h') \<and> same_msg m m' \<and> heap_ok env all h' \<and>
     same_setup env all h h' \<and>
     (\<forall>j \<in> set all. text_at h' j = text_at h j @ (if j \<in> set is then added env h j m else []))"
  using assms(2-)
proof (induction "is" arbitrary: m h)
  case Nil
  then show ?case by simp
next
  case (Cons i "is")
  note ok = Cons.prems(1) and p = Cons.prems(4)
  show ?case
  proof (cases "sink_should_log (level m) (sink_at h i)")
    case False
    then show ?thesis using Cons.IH [OF ok _ _ p] Cons.prems(2,3) by (auto simp: added_def)
  next
    case True
    obtain m1 h1 where one: "try_sink_log env i m h = Some (None, m1, h1)" "same_msg m m1" "heap_ok env all h1"
      "same_setup env all h h1"
      "\<forall>j \<in> set all. text_at h1 j = text_at h j @ (if j = i then line_at env h i m else [])"
      using try_sink_log_ok [OF env ok _ p, of i] Cons.prems(2) by auto
    have "printable_at env h1 all m1"
      using p by (simp add: same_msg_printable [OF one(2)] same_setup_printable [OF one(4)])
    then obtain m2 h2 where two: "sinks_log env is m1 h1 = Some (None, m2, h2)" "same_msg m1 m2" "heap_ok env all h2"
      "same_setup env all h1 h2"
      "\<forall>j \<in> set all. text_at h2 j = text_at h1 j @ (if j \<in> set is then added env h1 j m1 else [])"
      using Cons.IH [OF one(3), of m1] Cons.prems(2,3) by auto
    have "text_at h2 j = text_at h j @ (if j \<in> set (i # is) then added env h j m else [])" if "j \<in> set all" for j
      using that one(5) two(5) True Cons.prems(3)
      by (auto simp: same_setup_added [OF one(4)] same_msg_added [OF one(2)]) (simp_all add: added_def)
    then show ?thesis
      using one(1) two(1,3) True same_msg_trans [OF one(2) two(2)] same_setup_trans [OF one(4) two(4)] by auto
  qed
qed

lemma sinks_flush_ok:
  assumes env: "healthy (oenv env)" and "heap_ok env all h" and "set is \<subseteq> set all"
  shows "\<exists>h'. sinks_flush env is h = (None, h') \<and> heap_ok env all h' \<and> same_setup env all h h' \<and>
     (\<forall>j \<in> set all. text_at h' j = text_at h j)"
  using assms(2-)
proof (induction "is" arbitrary: h)
  case Nil
  then show ?case by simp
next
  case (Cons i "is")
  note ok = Cons.prems(1)
  have i: "i \<in> set all" using Cons.prems(2) by simp
  obtain w' where f: "sink_flush env (kind (sink_at h i)) (io h) = (None, w')"
    "only_medium (kind (sink_at h i)) (io h) w'"
    "sink_text (kind (sink_at h i)) w' = sink_text (kind (sink_at h i)) (io h)"
    using sink_flush_ready [OF env, of "kind (sink_at h i)" "io h"] ok i by (auto simp: heap_ok_def)
  have pf: "pf_ok (fenv env) (formatter (sink_at h i))" "no_duration (formatter (sink_at h i))"
    using ok i by (auto simp: heap_ok_def)
  have same: "(sink_at h)(i := (sink_at h i)\<lparr>formatter := formatter (sink_at h i)\<rparr>) = sink_at h" by simp
  let ?h = "h\<lparr>io := w'\<rparr>"
  have one: "try_sink_flush env i h = (None, ?h)" using f(1) by (simp add: try_sink_flush_def caught_def)
  have ok1: "heap_ok env all ?h" using heap_ok_step(1) [OF ok i f(2) pf] unfolding same by simp
  have set1: "same_setup env all h ?h" by (simp add: same_setup_def line_at_def)
  have same_text: "\<forall>j \<in> set all. text_at ?h j = text_at h j"
    using heap_ok_step(2) [OF ok i f(2) pf] f(3) by (auto simp: text_at_def)
  obtain h' where "sinks_flush env is ?h = (None, h')" "heap_ok env all h'" "same_setup env all ?h h'"
    "\<forall>j \<in> set all. text_at h' j = text_at ?h j"
    using Cons.IH [OF ok1] Cons.prems(2) by auto
  then show ?case using one same_text same_setup_trans [OF set1] by auto
qed

lemma logger_sink_log_ok:
  assumes env: "healthy (oenv env)" and ok: "heap_ok env (lg_sinks lg) h" and d: "distinct (lg_sinks lg)"
    and p: "printable_at env h (lg_sinks lg) m"
  shows "\<exists>m' h'. logger_sink_log env lg m h = Some (None, m', h') \<and> same_msg m m' \<and>
     heap_ok env (lg_sinks lg) h' \<and> same_setup env (lg_sinks lg) h h' \<and>
     (\<forall>j \<in> set (lg_sinks lg). text_at h' j = text_at h j @ added env h j m)"
proof -
  obtain m1 h1 where one: "sinks_log env (lg_sinks lg) m h = Some (None, m1, h1)" "same_msg m m1"
    "heap_ok env (lg_sinks lg) h1" "same_setup env (lg_sinks lg) h h1"
    "\<forall>j \<in> set (lg_sinks lg). text_at h1 j = text_at h j @ added env h j m"
    using sinks_log_ok [OF env ok order_refl d p] by auto
  obtain h2 where two: "sinks_flush env (lg_sinks lg) h1 = (None, h2)" "heap_ok env (lg_sinks lg) h2"
    "same_setup env (lg_sinks lg) h1 h2" "\<forall>j \<in> set (lg_sinks lg). text_at h2 j = text_at h1 j"
    using sinks_flush_ok [OF env one(3) order_refl] by blast
  show ?thesis
  proof (cases "should_flush lg (level m1)")
    case True
    then show ?thesis
      using one two same_setup_trans [OF one(4) two(3)] by (auto simp: logger_sink_log_def flush_sink_def)
  next
    case False
    then show ?thesis using one by (auto simp: logger_sink_log_def)
  qed
qed

section \<open>A logger and its clones over a sequence of calls\<close>

text \<open>Each call goes through a clone of the logger with a name of its own.\<close>

type_synonym request = "int \<times> source_loc \<times> level_enum \<times> string"

fun request_msg :: "size_t \<Rightarrow> string \<times> request \<Rightarrow> log_msg" where
  "request_msg thread_id (nm, tm, l, lv, text) = mk_log_msg thread_id tm l lv text nm"

fun clones_log ::
  "'c sys_env \<Rightarrow> size_t \<Rightarrow> logger \<Rightarrow> (string \<times> request) list \<Rightarrow> 'c heap \<Rightarrow> (excpt option \<times> 'c heap) option" where
  "clones_log env thread_id lg [] h = Some (None, h)"
| "clones_log env thread_id lg ((nm, tm, l, lv, text) # rs) h =
     (let c = logger_clone nm lg
      in do { (e, h) \<leftarrow> log_at (logger_sink_log env c) thread_id c tm l lv text h;
              if e = None then clones_log env thread_id lg rs h else Some (e, h) })"

text \<open>What a call leaves alone, and what it does to the shared backtracer.\<close>

definition kept :: "'c sys_env \<Rightarrow> logger \<Rightarrow> 'c heap \<Rightarrow> 'c heap \<Rightarrow> bool" where
  "kept env lg h h' \<longleftrightarrow>
     (\<forall>i \<in> set (lg_sinks lg). line_at env h' i = line_at env h i \<and> sink_level (sink_at h' i) = sink_level (sink_at h i) \<and>
        printable (fenv env) (formatter (sink_at h' i)) = printable (fenv env) (formatter (sink_at h i))) \<and>
     reports h' = reports h \<and> (\<forall>t. lg_tracer lg = Some t \<longrightarrow> bt_enabled (tracer_at h' t) = bt_enabled (tracer_at h t))"

definition traced :: "logger \<Rightarrow> log_msg list \<Rightarrow> 'c heap \<Rightarrow> 'c heap \<Rightarrow> bool" where
  "traced lg ms h h' \<longleftrightarrow>
     (\<forall>t. lg_tracer lg = Some t \<and> bt_ok (tracer_at h t) \<and> bt_enabled (tracer_at h t) \<longrightarrow>
        bt_ok (tracer_at h' t) \<and> bt_enabled (tracer_at h' t) \<and> bt_size (tracer_at h' t) = bt_size (tracer_at h t) \<and>
        list_all2 same_msg (last_n (bt_size (tracer_at h t)) (bt_msgs (tracer_at h t) @ ms)) (bt_msgs (tracer_at h' t)))"

lemma kept_trans: "kept env lg h h' \<Longrightarrow> kept env lg h' h'' \<Longrightarrow> kept env lg h h''"
  by (simp add: kept_def)

lemma kept_printable: "kept env lg h h' \<Longrightarrow> printable_at env h' (lg_sinks lg) m = printable_at env h (lg_sinks lg) m"
  by (simp add: kept_def printable_at_def)

lemma kept_added: "kept env lg h h' \<Longrightarrow> j \<in> set (lg_sinks lg) \<Longrightarrow> added env h' j = added env h j"
  by (auto simp: kept_def added_def sink_should_log_def fun_eq_iff)

lemma same_setup_kept: "same_setup env (lg_sinks lg) h h' \<Longrightarrow> kept env lg h h'"
  by (simp add: kept_def same_setup_def)

lemma list_all2_last_n: "list_all2 P xs ys \<Longrightarrow> list_all2 P (last_n n xs) (last_n n ys)"
  by (simp add: last_n_def list_all2_lengthD list_all2_dropI)

lemma same_msgs_refl: "list_all2 same_msg xs xs"
  by (rule list_all2_refl) simp

lemma traced_trans:
  assumes "traced lg ms h h1" and "traced lg ns h1 h2"
  shows "traced lg (ms @ ns) h h2"
  unfolding traced_def
proof (intro allI impI)
  fix t
  let ?k = "bt_size (tracer_at h t)"
  assume t: "lg_tracer lg = Some t \<and> bt_ok (tracer_at h t) \<and> bt_enabled (tracer_at h t)"
  then have one: "bt_ok (tracer_at h1 t)" "bt_enabled (tracer_at h1 t)" "bt_size (tracer_at h1 t) = ?k"
    "list_all2 same_msg (last_n ?k (bt_msgs (tracer_at h t) @ ms)) (bt_msgs (tracer_at h1 t))"
    using assms(1) by (auto simp: traced_def)
  then have two: "bt_ok (tracer_at h2 t)" "bt_enabled (tracer_at h2 t)" "bt_size (tracer_at h2 t) = ?k"
    "list_all2 same_msg (last_n ?k (bt_msgs (tracer_at h1 t) @ ns)) (bt_msgs (tracer_at h2 t))"
    using assms(2) t by (auto simp: traced_def)
  have "list_all2 same_msg (last_n ?k (last_n ?k (bt_msgs (tracer_at h t) @ ms) @ ns))
      (last_n ?k (bt_msgs (tracer_at h1 t) @ ns))"
    by (intro list_all2_last_n list_all2_appendI one(4) same_msgs_refl)
  then have "list_all2 same_msg (last_n ?k (bt_msgs (tracer_at h t) @ ms @ ns)) (bt_msgs (tracer_at h2 t))"
    unfolding last_n_last_n_append append_assoc
    by (rule list_all2_trans [rotated 1, OF _ two(4)]) (rule same_msg_trans)
  then show "bt_ok (tracer_at h2 t) \<and> bt_enabled (tracer_at h2 t) \<and> bt_size (tracer_at h2 t) = ?k \<and>
      list_all2 same_msg (last_n ?k (bt_msgs (tracer_at h t) @ ms @ ns)) (bt_msgs (tracer_at h2 t))"
    using two by blast
qed

lemma traced_same:
  assumes "\<And>t. lg_tracer lg = Some t \<Longrightarrow> bt_ok (tracer_at h t) \<Longrightarrow> bt_enabled (tracer_at h t) \<Longrightarrow> False"
  shows "traced lg ms h h'"
  using assms by (auto simp: traced_def)

lemma heap_tracer [simp]:
  "heap_ok env all (h\<lparr>tracer_at := f\<rparr>) = heap_ok env all h" "text_at (h\<lparr>tracer_at := f\<rparr>) = text_at h"
  "line_at env (h\<lparr>tracer_at := f\<rparr>) = line_at env h" "added env (h\<lparr>tracer_at := f\<rparr>) = added env h"
  "printable_at env (h\<lparr>tracer_at := f\<rparr>) = printable_at env h"
  by (simp_all add: heap_ok_def text_at_def line_at_def added_def printable_at_def fun_eq_iff)

lemma heap_next_tracer [simp]:
  "heap_ok env all (h\<lparr>next_tracer := n\<rparr>) = heap_ok env all h" "text_at (h\<lparr>next_tracer := n\<rparr>) = text_at h"
  "added env (h\<lparr>next_tracer := n\<rparr>) = added env h" "printable_at env (h\<lparr>next_tracer := n\<rparr>) = printable_at env h"
  by (simp_all add: heap_ok_def text_at_def line_at_def added_def printable_at_def fun_eq_iff)

lemma clone_simps [simp]:
  "lg_sinks (logger_clone nm lg) = lg_sinks lg" "lg_tracer (logger_clone nm lg) = lg_tracer lg"
  "lg_name (logger_clone nm lg) = nm" "should_log (logger_clone nm lg) = should_log lg"
  "backtrace_enabled (logger_clone nm lg) = backtrace_enabled lg" "kept env (logger_clone nm lg) = kept env lg"
  "traced (logger_clone nm lg) = traced lg"
  by (simp_all add: logger_clone_def should_log_def backtrace_enabled_def kept_def traced_def fun_eq_iff)

lemma tracer_push_traced:
  assumes "backtrace_enabled lg h" and "same_msg m m'" and "tracer_at h1 = tracer_at h"
  shows "\<exists>h2. tracer_push lg m' h1 = Some h2 \<and> (\<exists>f. h2 = h1\<lparr>tracer_at := f\<rparr>) \<and> traced lg [m] h h2 \<and>
           (\<forall>t. lg_tracer lg = Some t \<longrightarrow> bt_enabled (tracer_at h2 t) = bt_enabled (tracer_at h t))"
proof -
  obtain t where t: "lg_tracer lg = Some t" using assms(1) by (auto simp: backtrace_enabled_def split: option.splits)
  have "list_all2 same_msg (xs @ [m]) (xs @ [m'])" for xs
    using assms(2) by (simp add: list_all2_append same_msgs_refl)
  moreover have "bt_enabled (bt_push_back m' b) = bt_enabled b" for b by (simp add: bt_push_back_def)
  ultimately show ?thesis
    using t assms(3) bt_push_spec [of "tracer_at h t" m']
    by (auto simp: tracer_push_def traced_def list_all2_last_n)
qed

lemma log_at_ok:
  assumes env: "healthy (oenv env)" and ok: "heap_ok env (lg_sinks lg) h" and d: "distinct (lg_sinks lg)"
    and m: "m = mk_log_msg thread_id tm l lv text (lg_name lg)" and p: "printable_at env h (lg_sinks lg) m"
  shows "\<exists>h'. log_at (logger_sink_log env lg) thread_id lg tm l lv text h = Some (None, h') \<and>
     heap_ok env (lg_sinks lg) h' \<and> kept env lg h h' \<and> traced lg [m] h h' \<and>
     (\<forall>j \<in> set (lg_sinks lg). text_at h' j = text_at h j @ (if should_log lg (level m) then added env h j m else []))"
proof -
  have lv: "level m = lv" by (simp add: m mk_log_msg_def)
  have off: "traced lg [m] h h'" if "\<not> backtrace_enabled lg h" for h'
    using that by (intro traced_same) (auto simp: backtrace_enabled_def bt_is_enabled_def)
  have written: "\<exists>m' h'. (if should_log lg lv then logger_sink_log env lg m h else Some (None, m, h)) = Some (None, m', h') \<and>
      same_msg m m' \<and> heap_ok env (lg_sinks lg) h' \<and> same_setup env (lg_sinks lg) h h' \<and>
      (\<forall>j \<in> set (lg_sinks lg). text_at h' j = text_at h j @ (if should_log lg lv then added env h j m else []))"
    using logger_sink_log_ok [OF env ok d p] ok by auto
  then obtain m1 h1 where w: "(if should_log lg lv then logger_sink_log env lg m h else Some (None, m, h)) = Some (None, m1, h1)"
      "same_msg m m1" "heap_ok env (lg_sinks lg) h1" "same_setup env (lg_sinks lg) h h1"
      "\<forall>j \<in> set (lg_sinks lg). text_at h1 j = text_at h j @ (if should_log lg lv then added env h j m else [])"
    by blast
  note k = same_setup_kept [OF w(4)]
  show ?thesis
  proof (cases "backtrace_enabled lg h")
    case False
    have "log_at (logger_sink_log env lg) thread_id lg tm l lv text h = Some (None, h1)"
      using w(1) False by (auto simp: log_at_def do_log_def Let_def simp flip: m split: if_splits)
    then show ?thesis using w k off [OF False] by (auto simp: lv)
  next
    case True
    have "tracer_at h1 = tracer_at h" using w(4) by (simp add: same_setup_def)
    then obtain h2 f where h2: "tracer_push lg m1 h1 = Some h2" "h2 = h1\<lparr>tracer_at := f\<rparr>" "traced lg [m] h h2"
      "\<forall>t. lg_tracer lg = Some t \<longrightarrow> bt_enabled (tracer_at h2 t) = bt_enabled (tracer_at h t)"
      using tracer_push_traced [OF True w(2)] by blast
    have "log_at (logger_sink_log env lg) thread_id lg tm l lv text h = Some (None, h2)"
      using w(1) True h2(1) by (simp add: log_at_def do_log_def Let_def flip: m)
    moreover have "kept env lg h h2" using k h2(2,4) by (simp add: kept_def)
    ultimately show ?thesis using w(3,5) h2(2,3) by (auto simp: lv)
  qed
qed

lemma clones_log_ok:
  assumes env: "healthy (oenv env)" and d: "distinct (lg_sinks lg)" and "heap_ok env (lg_sinks lg) h"
    and "\<forall>m \<in> set (map (request_msg thread_id) rs). printable_at env h (lg_sinks lg) m"
  shows "\<exists>h'. clones_log env thread_id lg rs h = Some (None, h') \<and>
     heap_ok env (lg_sinks lg) h' \<and> kept env lg h h' \<and> traced lg (map (request_msg thread_id) rs) h h' \<and>
     (\<forall>j \<in> set (lg_sinks lg). text_at h' j = text_at h j @
        concat (map (added env h j) (filter (\<lambda>m. should_log lg (level m)) (map (request_msg thread_id) rs))))"
  using assms(3-)
proof (induction rs arbitrary: h)
  case Nil
  have "traced lg [] h h"
    using same_msgs_refl by (auto simp: traced_def bt_msgs_def bt_ok_def)
      (metis bt_ok_def bt_push_all fold_simps(1) append_Nil2 bt_msgs_def)
  then show ?case using Nil by (simp add: kept_def)
next
  case (Cons r rs)
  obtain nm tm l lv tx where r: "r = (nm, tm, l, lv, tx)" by (cases r)
  let ?c = "logger_clone nm lg" and ?m = "mk_log_msg thread_id tm l lv tx nm"
  have req: "request_msg thread_id r = ?m" by (simp add: r)
  obtain h1 where one: "log_at (logger_sink_log env ?c) thread_id ?c tm l lv tx h = Some (None, h1)"
    "heap_ok env (lg_sinks lg) h1" "kept env lg h h1" "traced lg [?m] h h1"
    "\<forall>j \<in> set (lg_sinks lg). text_at h1 j = text_at h j @ (if should_log lg (level ?m) then added env h j ?m else [])"
    using log_at_ok [OF env, of ?c h ?m thread_id tm l lv tx] d Cons.prems req by auto
  obtain h2 where two: "clones_log env thread_id lg rs h1 = Some (None, h2)" "heap_ok env (lg_sinks lg) h2"
    "kept env lg h1 h2" "traced lg (map (request_msg thread_id) rs) h1 h2"
    "\<forall>j \<in> set (lg_sinks lg). text_at h2 j = text_at h1 j @
        concat (map (added env h1 j) (filter (\<lambda>m. should_log lg (level m)) (map (request_msg thread_id) rs)))"
    using Cons.IH [OF one(2)] Cons.prems(2) by (auto simp: kept_printable [OF one(3)])
  have "traced lg (map (request_msg thread_id) (r # rs)) h h2"
    using traced_trans [OF one(4) two(4)] by (simp add: req)
  then show ?case
    using one two kept_trans [OF one(3) two(3)]
    by (auto simp: r Let_def kept_added [OF one(3)] simp del: request_msg.simps) (auto simp: r)
qed

section \<open>Replaying the backtrace\<close>

lemma replay_ok:
  assumes env: "healthy (oenv env)" and d: "distinct (lg_sinks lg)" and "heap_ok env (lg_sinks lg) h"
    and "\<forall>m \<in> set ms. printable_at env h (lg_sinks lg) m"
  shows "\<exists>h'. run_until (replay_fun (logger_sink_log env lg)) ms (Some h) = ([], Some h', None) \<and>
     heap_ok env (lg_sinks lg) h' \<and> same_setup env (lg_sinks lg) h h' \<and>
     (\<forall>j \<in> set (lg_sinks lg). text_at h' j = text_at h j @ concat (map (added env h j) ms))"
  using assms(3-)
proof (induction ms arbitrary: h)
  case Nil
  then show ?case by simp
next
  case (Cons m ms)
  obtain m1 h1 where one: "logger_sink_log env lg m h = Some (None, m1, h1)" "heap_ok env (lg_sinks lg) h1"
    "same_setup env (lg_sinks lg) h h1"
    "\<forall>j \<in> set (lg_sinks lg). text_at h1 j = text_at h j @ added env h j m"
    using logger_sink_log_ok [OF env Cons.prems(1) d, of m] Cons.prems(2) by auto
  obtain h2 where two: "run_until (replay_fun (logger_sink_log env lg)) ms (Some h1) = ([], Some h2, None)"
    "heap_ok env (lg_sinks lg) h2" "same_setup env (lg_sinks lg) h1 h2"
    "\<forall>j \<in> set (lg_sinks lg). text_at h2 j = text_at h1 j @ concat (map (added env h1 j) ms)"
    using Cons.IH [OF one(2)] Cons.prems(2) by (auto simp: same_setup_printable [OF one(3)])
  have "replay_fun (logger_sink_log env lg) m (Some h) = (Some h1, None)"
    using one(1) by (simp add: replay_fun_def)
  then show ?case
    using one two same_setup_trans [OF one(3) two(3)] by (auto simp: same_setup_added [OF one(3)])
qed

lemma list_all2_added:
  "list_all2 same_msg xs ys \<Longrightarrow> map (added env h j) ys = map (added env h j) xs"
  "list_all2 same_msg xs ys \<Longrightarrow> (\<forall>m \<in> set ys. printable_at env h all m) = (\<forall>m \<in> set xs. printable_at env h all m)"
  by (induction xs ys rule: list_all2_induct) (simp_all add: same_msg_added same_msg_printable)

lemma heap_ticks [simp]:
  "heap_ok env all (h\<lparr>io := (io h)\<lparr>ticks := n\<rparr>\<rparr>) = heap_ok env all h"
  "text_at (h\<lparr>io := (io h)\<lparr>ticks := n\<rparr>\<rparr>) = text_at h"
  "added env (h\<lparr>io := (io h)\<lparr>ticks := n\<rparr>\<rparr>) = added env h"
  "printable_at env (h\<lparr>io := (io h)\<lparr>ticks := n\<rparr>\<rparr>) = printable_at env h"
  "same_setup env all (h\<lparr>io := (io h)\<lparr>ticks := n\<rparr>\<rparr>) = same_setup env all h"
proof -
  have r: "sink_ready k (w\<lparr>ticks := n\<rparr>) = sink_ready k w" "sink_text k (w\<lparr>ticks := n\<rparr>) = sink_text k w" for k w
    by (cases "(k, w)" rule: sink_ready.cases; simp)+
  have s: "separate (w\<lparr>ticks := n\<rparr>) = separate w" for w by (rule separate_cong) (simp add: stream_key_def fun_eq_iff)
  show "heap_ok env all (h\<lparr>io := (io h)\<lparr>ticks := n\<rparr>\<rparr>) = heap_ok env all h"
    by (simp add: heap_ok_def r s)
  show "text_at (h\<lparr>io := (io h)\<lparr>ticks := n\<rparr>\<rparr>) = text_at h"
    "added env (h\<lparr>io := (io h)\<lparr>ticks := n\<rparr>\<rparr>) = added env h"
    "printable_at env (h\<lparr>io := (io h)\<lparr>ticks := n\<rparr>\<rparr>) = printable_at env h"
    "same_setup env all (h\<lparr>io := (io h)\<lparr>ticks := n\<rparr>\<rparr>) = same_setup env all h"
    by (simp_all add: text_at_def r added_def line_at_def printable_at_def same_setup_def fun_eq_iff)
qed

definition banner_at :: "'c sys_env \<Rightarrow> size_t \<Rightarrow> logger \<Rightarrow> string \<Rightarrow> int \<Rightarrow> log_msg" where
  "banner_at env thread_id lg text tm = mk_log_msg thread_id tm source_loc_default Info text (lg_name lg)"

lemma dump_ok:
  assumes env: "healthy (oenv env)" and d: "distinct (lg_sinks lg)" and ok: "heap_ok env (lg_sinks lg) h"
    and t: "lg_tracer lg = Some t" "bt_ok (tracer_at h t)" "bt_enabled (tracer_at h t)"
    and ms: "\<forall>m \<in> set (bt_msgs (tracer_at h t)). printable_at env h (lg_sinks lg) m"
    and banners: "\<And>tm tx. tx = backtrace_start \<or> tx = backtrace_end \<Longrightarrow>
      printable_at env h (lg_sinks lg) (banner_at env thread_id lg tx (clock env tm))"
  shows "\<exists>a b h'. dump_backtrace env (logger_sink_log env lg) thread_id lg h = Some (None, h') \<and>
     bt_msgs (tracer_at h' t) = [] \<and> reports h' = reports h \<and>
     (\<forall>j \<in> set (lg_sinks lg). text_at h' j = text_at h j @
        added env h j (banner_at env thread_id lg backtrace_start a) @
        concat (map (added env h j) (bt_msgs (tracer_at h t))) @
        added env h j (banner_at env thread_id lg backtrace_end b))"
proof -
  let ?slog = "logger_sink_log env lg" and ?k = "ticks (io h)" and ?bt = "tracer_at h t"
  let ?s = "banner_at env thread_id lg backtrace_start (clock env ?k)"
  let ?h0 = "h\<lparr>io := (io h)\<lparr>ticks := ?k + 1\<rparr>\<rparr>"
  have start: "banner env thread_id lg backtrace_start h = (?s, ?h0)"
    by (simp add: banner_def read_clock_def banner_at_def)
  obtain m1 h1 where one: "?slog ?s ?h0 = Some (None, m1, h1)" "heap_ok env (lg_sinks lg) h1"
    "same_setup env (lg_sinks lg) h h1" "\<forall>j \<in> set (lg_sinks lg). text_at h1 j = text_at h j @ added env h j ?s"
    using logger_sink_log_ok [OF env _ d, of ?h0 ?s] ok banners [of backtrace_start ?k] by auto
  have same_bt: "tracer_at h1 t = ?bt" using one(3) by (simp add: same_setup_def)
  obtain h2 where two: "run_until (replay_fun ?slog) (bt_msgs ?bt) (Some h1) = ([], Some h2, None)"
    "heap_ok env (lg_sinks lg) h2" "same_setup env (lg_sinks lg) h1 h2"
    "\<forall>j \<in> set (lg_sinks lg). text_at h2 j = text_at h1 j @ concat (map (added env h1 j) (bt_msgs ?bt))"
    using replay_ok [OF env d one(2), of "bt_msgs ?bt"] ms by (auto simp: same_setup_printable [OF one(3)])
  obtain bt where bt: "bt_foreach_do (replay_fun ?slog) ?bt (Some h1) = Some (bt, Some h2, None)" "bt_msgs bt = []"
    using bt_foreach_spec [OF t(2), of "replay_fun ?slog" "Some h1"] two(1) by auto
  let ?h3 = "h2\<lparr>tracer_at := (tracer_at h2)(t := bt)\<rparr>" and ?k3 = "ticks (io h2)"
  let ?e = "banner_at env thread_id lg backtrace_end (clock env ?k3)"
  let ?h4 = "?h3\<lparr>io := (io ?h3)\<lparr>ticks := ?k3 + 1\<rparr>\<rparr>"
  have finish: "banner env thread_id lg backtrace_end ?h3 = (?e, ?h4)"
    by (simp add: banner_def read_clock_def banner_at_def)
  have ok4: "heap_ok env (lg_sinks lg) ?h4" unfolding heap_ticks using two(2) by simp
  note set02 = same_setup_trans [OF one(3) two(3)]
  have p4: "printable_at env ?h4 (lg_sinks lg) ?e"
    unfolding heap_ticks using banners [of backtrace_end ?k3] by (simp add: same_setup_printable [OF set02])
  obtain m5 h5 where five: "?slog ?e ?h4 = Some (None, m5, h5)" "same_setup env (lg_sinks lg) ?h4 h5"
    "\<forall>j \<in> set (lg_sinks lg). text_at h5 j = text_at h2 j @ added env h2 j ?e"
    using logger_sink_log_ok [OF env ok4 d p4] unfolding heap_ticks heap_tracer by blast
  have "dump_backtrace env ?slog thread_id lg h = Some (None, h5)"
    using t(1,3) start one(1) bt(1) same_bt five(1)
    by (simp add: dump_backtrace_def bt_is_enabled_def Let_def finish)
  moreover have "bt_msgs (tracer_at h5 t) = []" "reports h5 = reports h"
    using five(2) bt(2) set02 by (simp_all add: same_setup_def)
  moreover have "text_at h5 j = text_at h j @ added env h j ?s @
      concat (map (added env h j) (bt_msgs ?bt)) @ added env h j ?e" if "j \<in> set (lg_sinks lg)" for j
    using that one(4) two(4) five(3) by (simp add: same_setup_added [OF one(3)] same_setup_added [OF set02])
  ultimately show ?thesis by blast
qed

section \<open>Formatters of all sinks\<close>

lemma set_formatters_same:
  assumes new: "pf_new (fenv env) now pat e Map.empty = Some pf" and now: "\<And>k. 0 \<le> now k" and nd: "no_duration pf"
  shows "\<exists>h'. set_formatters env is pf h = Some h' \<and>
     (\<forall>i. sink_at h' i = (if i \<in> set is then sink_set_formatter pf (sink_at h i) else sink_at h i)) \<and>
     world (io h') = world (io h) \<and> ostreams (io h') = ostreams (io h)"
proof (induction "is" arbitrary: h rule: induct_list012)
  case (3 i j "is")
  have "pattern pf = pat" "eol pf = e" "custom_flags pf = Map.empty"
    using pf_new_items [OF new] by metis+
  then have "pf_clone (fenv env) now' pf = Some pf" for now'
    using pf_clone_same [OF new now nd] by blast
  then have c: "clone_formatter env pf (io h) = Some (pf, (io h)\<lparr>ticks := ticks (io h) + length (pattern pf)\<rparr>)"
    by (simp add: clone_formatter_def)
  show ?case
    using 3(2) [of "h\<lparr>sink_at := (sink_at h)(i := sink_set_formatter pf (sink_at h i)),
        io := (io h)\<lparr>ticks := ticks (io h) + length (pattern pf)\<rparr>\<rparr>"] c
    by (auto simp: sink_set_formatter_def)
qed (auto simp: sink_set_formatter_def)

lemma do_log_std: "do_log (logger_sink_log env lg) lg m a b h = Some (e, h') \<Longrightarrow> e = None"
  by (auto simp: do_log_def split: Option.bind_splits prod.splits if_splits dest: logger_sink_log_std)

lemma log_formatted_std:
  assumes "formatted \<noteq> Inl Other_exception"
    and "log_formatted env (logger_sink_log env lg) thr lg l lv formatted h = Some (e, h')"
  shows "e = None"
proof (cases formatted)
  case (Inl x)
  then show ?thesis
    using assms
    by (cases x) (auto simp: log_formatted_def caught_def learnlog_catch_def Let_def split: if_splits)
next
  case (Inr tx)
  then show ?thesis
    using assms(2)
    by (auto simp: log_formatted_def caught_def Let_def split: Option.bind_splits prod.splits if_splits
        dest!: do_log_std)
qed

lemma enable_backtraceE:
  assumes "enable_backtrace_n n lg h = (None, lg1, h1)"
  obtains t f k bt0 where "lg_tracer lg1 = Some t" and "lg1 = lg\<lparr>lg_tracer := Some t\<rparr>"
    and "h1 = h\<lparr>tracer_at := f, next_tracer := k\<rparr>" and "bt_enable_with_size n bt0 = (tracer_at h1 t, None)"
proof (cases "lg_tracer lg")
  case None
  obtain bt e where e: "bt_enable_with_size n bt_default = (bt, e)" by fastforce
  then show ?thesis
    using assms None by (intro that [of "next_tracer h" "next_tracer h + 1" "(tracer_at h)(next_tracer h := bt)" bt_default])
      (auto simp: enable_backtrace_n_def Let_def)
next
  case (Some t)
  obtain bt e where e: "bt_enable_with_size n (tracer_at h t) = (bt, e)" by fastforce
  have "lg\<lparr>lg_tracer := Some t\<rparr> = lg" using Some by (metis logger.surjective logger.update_convs(3))
  then show ?thesis
    using assms Some e by (intro that [of t "next_tracer h" "(tracer_at h)(t := bt)" "tracer_at h t"])
      (auto simp: enable_backtrace_n_def Let_def)
qed

section \<open>Properties\<close>

text \<open>
  C27: whatever the system calls do, nothing that a sink throws leaves a synchronous logger:
  writing to the sinks returns normally with at most one report per sink, the sinks behind a
  failing one are served as if it had not failed, and a call of \<open>log\<close> returns normally unless the
  formatting of the user's arguments itself throws something foreign.
\<close>

theorem logger_contains_faults:
  "sinks_log env (front @ back) m h =
      (case sinks_log env front m h of None \<Rightarrow> None | Some (e, m, h) \<Rightarrow> sinks_log env back m h) \<and>
   (\<forall>e m' h'. sinks_log env front m h = Some (e, m', h') \<longrightarrow>
      e = None \<and> (\<exists>rs. reports h' = reports h @ rs \<and> length rs \<le> length front)) \<and>
   (\<forall>e h'. formatted \<noteq> Inl Other_exception \<longrightarrow>
      log_formatted env (logger_sink_log env lg) thr lg l lv formatted h = Some (e, h') \<longrightarrow> e = None)"
proof -
  have "sinks_log env (front @ back) m h =
      (case sinks_log env front m h of None \<Rightarrow> None | Some (e, m, h) \<Rightarrow> sinks_log env back m h)"
    unfolding sinks_log_append by (cases "sinks_log env front m h") auto
  moreover have "\<forall>e h'. formatted \<noteq> Inl Other_exception \<longrightarrow>
      log_formatted env (logger_sink_log env lg) thr lg l lv formatted h = Some (e, h') \<longrightarrow> e = None"
    using log_formatted_std by blast
  ultimately show ?thesis using sinks_log_std by blast
qed

text \<open>
  C28: on a system without faults every call made on a logger and its clones reaches every
  shared sink whose level admits it, if the logger's level admits it, in the order of the calls and
  exactly once; every other sink keeps its text, and nothing is reported.
\<close>

theorem logger_delivers:
  assumes "healthy (oenv env)" and "distinct (lg_sinks lg)" and "heap_ok env (lg_sinks lg) h"
    and "\<forall>m \<in> set (map (request_msg thr) rs). printable_at env h (lg_sinks lg) m"
  shows "\<exists>h'. clones_log env thr lg rs h = Some (None, h') \<and> reports h' = reports h \<and>
     (\<forall>j \<in> set (lg_sinks lg). text_at h' j = text_at h j @
        concat (map (line_at env h j)
          (filter (\<lambda>m. log_level lg \<le> level m \<and> sink_level (sink_at h j) \<le> level m) (map (request_msg thr) rs))))"
proof -
  have "concat (map (added env h j) (filter (\<lambda>m. should_log lg (level m)) ms)) =
      concat (map (line_at env h j) (filter (\<lambda>m. log_level lg \<le> level m \<and> sink_level (sink_at h j) \<le> level m) ms))"
    for j ms
    by (induction ms) (simp_all add: added_def should_log_def sink_should_log_def)
  then show ?thesis using clones_log_ok [OF assms] by (auto simp: kept_def)
qed

text \<open>
  After \<open>enable_backtrace_n(n)\<close> and any calls on the logger and its clones, of any level,
  \<open>dump_backtrace\<close> writes the start banner, the last \<open>n\<close> messages oldest first, and the end banner
  to each sink, subject to the sink's level only; afterwards the backtracer is empty.
\<close>

theorem backtrace_replays_last:
  assumes "healthy (oenv env)" and "distinct (lg_sinks lg)" and "heap_ok env (lg_sinks lg) h"
    and "\<forall>m \<in> set (map (request_msg thr) rs). printable_at env h (lg_sinks lg) m"
    and "\<And>tm tx. tx = backtrace_start \<or> tx = backtrace_end \<Longrightarrow>
      printable_at env h (lg_sinks lg) (banner_at env thr lg tx (clock env tm))"
    and "enable_backtrace_n n lg h = (None, lg1, h1)" and "n \<noteq> - 1"
  shows "\<exists>h2 a b h3. clones_log env thr lg1 rs h1 = Some (None, h2) \<and>
     dump_backtrace env (logger_sink_log env lg1) thr lg1 h2 = Some (None, h3) \<and>
     (\<forall>t. lg_tracer lg1 = Some t \<longrightarrow> bt_msgs (tracer_at h3 t) = []) \<and>
     (\<forall>j \<in> set (lg_sinks lg). text_at h3 j = text_at h2 j @
        concat (map (added env h j) (banner_at env thr lg backtrace_start a #
          last_n (unat n) (map (request_msg thr) rs) @ [banner_at env thr lg backtrace_end b])))"
proof -
  let ?ms = "map (request_msg thr) rs"
  obtain t f k bt0 where t: "lg_tracer lg1 = Some t" and lg1: "lg1 = lg\<lparr>lg_tracer := Some t\<rparr>"
    and h1: "h1 = h\<lparr>tracer_at := f, next_tracer := k\<rparr>" and bt0: "bt_enable_with_size n bt0 = (tracer_at h1 t, None)"
    using enable_backtraceE [OF assms(6)] .
  have sinks: "lg_sinks lg1 = lg_sinks lg" "lg_name lg1 = lg_name lg" by (simp_all add: lg1)
  note e = bt_enable_spec [OF bt0 assms(7)]
  have ok1: "heap_ok env (lg_sinks lg1) h1" using assms(3) by (simp add: h1 sinks)
  have add1: "added env h1 = added env h" "printable_at env h1 = printable_at env h"
    by (simp_all add: h1)
  obtain h2 where two: "clones_log env thr lg1 rs h1 = Some (None, h2)" "heap_ok env (lg_sinks lg1) h2"
    "kept env lg1 h1 h2" "traced lg1 ?ms h1 h2"
    using clones_log_ok [OF assms(1) _ ok1, of thr rs] assms(2,4) by (auto simp: sinks add1)
  have bt2: "bt_ok (tracer_at h2 t)" "bt_enabled (tracer_at h2 t)"
    and msgs: "list_all2 same_msg (last_n (unat n) ?ms) (bt_msgs (tracer_at h2 t))"
    using two(4) t e by (auto simp: traced_def bt_is_enabled_def)
  have p2: "printable_at env h2 (lg_sinks lg1) = printable_at env h (lg_sinks lg)"
    using kept_printable [OF two(3)] add1(2) sinks(1) by (simp add: fun_eq_iff)
  have "set (last_n (unat n) ?ms) \<subseteq> set ?ms" by (simp only: last_n_def set_drop_subset)
  then have pm: "\<forall>m \<in> set (bt_msgs (tracer_at h2 t)). printable_at env h2 (lg_sinks lg1) m"
    using assms(4) unfolding p2 list_all2_added(2) [OF msgs] by blast
  have pb: "printable_at env h2 (lg_sinks lg1) (banner_at env thr lg1 tx (clock env tm))"
    if "tx = backtrace_start \<or> tx = backtrace_end" for tx tm
    using assms(5) [OF that] unfolding p2 by (simp add: banner_at_def sinks)
  obtain a b h3 where three: "dump_backtrace env (logger_sink_log env lg1) thr lg1 h2 = Some (None, h3)"
    "bt_msgs (tracer_at h3 t) = []"
    "\<forall>j \<in> set (lg_sinks lg1). text_at h3 j = text_at h2 j @
        added env h2 j (banner_at env thr lg1 backtrace_start a) @
        concat (map (added env h2 j) (bt_msgs (tracer_at h2 t))) @
        added env h2 j (banner_at env thr lg1 backtrace_end b)"
    using dump_ok [OF assms(1) _ two(2) t bt2 pm pb] assms(2) by (auto simp: sinks)
  have "banner_at env thr lg1 = banner_at env thr lg" by (simp add: banner_at_def sinks fun_eq_iff)
  then have "\<forall>j \<in> set (lg_sinks lg). text_at h3 j = text_at h2 j @
        concat (map (added env h j) (banner_at env thr lg backtrace_start a #
          last_n (unat n) ?ms @ [banner_at env thr lg backtrace_end b]))"
    using three(3) kept_added [OF two(3)] by (auto simp: sinks add1(1) list_all2_added(1) [OF msgs])
  then show ?thesis using two(1) three(1,2) t by (intro exI [of _ h2] exI [of _ a] exI [of _ b] exI [of _ h3]) simp
qed

text \<open>
  After \<open>set_pattern\<close> every sink of a logger prints with a formatter of that pattern, the
  last one with the formatter made first and the others with clones of it, which print the same;
  sinks of other loggers keep theirs.
\<close>

theorem set_pattern_reaches_sinks:
  assumes "logger_set_pattern env lg pat h = Some (lg', h')"
    and "pf_new (fenv env) (\<lambda>k. clock env (ticks (io h) + k)) pat DEFAULT_EOL Map.empty = Some pf"
    and "\<And>k. 0 \<le> clock env k" and "no_duration pf"
  shows "lg_pattern lg' = pat \<and> lg_sinks lg' = lg_sinks lg \<and>
     (\<forall>i \<in> set (lg_sinks lg). formatter (sink_at h' i) = pf \<and> sink_level (sink_at h' i) = sink_level (sink_at h i) \<and>
        kind (sink_at h' i) = kind (sink_at h i)) \<and>
     (\<forall>i. i \<notin> set (lg_sinks lg) \<longrightarrow> sink_at h' i = sink_at h i)"
proof -
  note set = set_formatters_same [OF assms(2) assms(3) assms(4)]
  show ?thesis
    using assms(1,2) set [of "lg_sinks lg" "h\<lparr>io := (io h)\<lparr>ticks := ticks (io h) + length pat\<rparr>\<rparr>"]
    by (auto simp: logger_set_pattern_def make_formatter_def logger_set_formatter_def sink_set_formatter_def
        split: Option.bind_splits)
qed

text \<open>A store with a sink per ostream, the second for warnings only, and a sink that lost its file.\<close>

definition sample_heap :: "unit heap" where
  "sample_heap = \<lparr>sink_at = (\<lambda>i. \<lparr>sink_level = (if i = 3 then Warn else Trace), formatter = sample_pf,
       kind = (if i = 2 then Basic_file_sink (Some 9) ''app.txt'' else Ostream_sink i False)\<rparr>),
     tracer_at = (\<lambda>_. bt_default), next_tracer = 0, io = sample_io, reports = []\<rparr>"

definition sample_logger :: logger where
  "sample_logger = logger_new ''net'' [0, 3]"

definition sample_requests :: "(string \<times> request) list" where
  "sample_requests = [(''net'', 5, source_loc_default, Debug, ''a''), (''db'', 6, source_loc_default, Info, ''b''),
     (''net'', 7, source_loc_default, Warn, ''c'')]"

lemma sample_heap_ok: "heap_ok sample_sys [0, 3] sample_heap"
  using sample_pf_ok sample_printable(1)
  by (simp add: heap_ok_def sample_heap_def separate_def sample_io_def)

lemma sample_name_line:
  assumes "valid_msg m"
  shows "printable_at sample_sys sample_heap [0, 3] m"
    and "line_at sample_sys sample_heap i m =
      ''<'' @ align \<lparr>target_len = 4, side = Left_side, truncated = False, enabled = True\<rparr> (logger_name m) @ ''>\<newline>''"
  using assms sample_valid
  by (auto simp: printable_at_def sample_heap_def printable_def no_sept_def valid_call_def time_point_to_tm_def
      sample_env_def sample_pf_def line_at_def line_text_def items_text_def)

lemma sample_aligned:
  "align \<lparr>target_len = 4, side = Left_side, truncated = False, enabled = True\<rparr> ''net'' = '' net''"
  "align \<lparr>target_len = 4, side = Left_side, truncated = False, enabled = True\<rparr> ''db'' = ''  db''"
  by (simp_all add: align_def)

lemma sample_valid_msgs:
  "nm = ''net'' \<or> nm = ''db'' \<Longrightarrow> length tx < 100 \<Longrightarrow> 0 \<le> tm \<Longrightarrow> tm < 100 \<Longrightarrow>
     valid_msg (mk_log_msg thr tm source_loc_default lv tx nm)"
  by (auto simp: valid_msg_def mk_log_msg_def loc_empty_def source_loc_default_def)

lemma sample_requests_printable:
  "\<forall>m \<in> set (map (request_msg 7) sample_requests). printable_at sample_sys sample_heap [0, 3] m"
  by (auto simp: sample_requests_def intro!: sample_name_line sample_valid_msgs)

lemma sample_request_lines:
  "line_at sample_sys sample_heap i (mk_log_msg 7 6 source_loc_default Info ''b'' ''db'') = ''<  db>\<newline>''"
  "line_at sample_sys sample_heap i (mk_log_msg 7 7 source_loc_default Warn ''c'' ''net'') = ''< net>\<newline>''"
  by (simp_all add: sample_name_line sample_valid_msgs) (simp_all add: mk_log_msg_def sample_aligned)

theorem logger_delivers_witness:
  "\<exists>h'. clones_log sample_sys 7 sample_logger sample_requests sample_heap = Some (None, h') \<and>
     text_at h' 0 = ''<  db>\<newline>< net>\<newline>'' \<and> text_at h' 3 = ''< net>\<newline>''"
proof -
  have ms: "map (request_msg 7) sample_requests = [mk_log_msg 7 5 source_loc_default Debug ''a'' ''net'',
      mk_log_msg 7 6 source_loc_default Info ''b'' ''db'', mk_log_msg 7 7 source_loc_default Warn ''c'' ''net'']"
    by (simp add: sample_requests_def)
  have sel: "level (mk_log_msg thr tm l lv tx nm) = lv" for thr tm l lv tx nm by (simp add: mk_log_msg_def)
  have old: "text_at sample_heap 0 = []" "text_at sample_heap 3 = []" "sink_level (sink_at sample_heap 0) = Trace"
    "sink_level (sink_at sample_heap 3) = Warn"
    by (simp_all add: text_at_def sample_heap_def sample_io_def)
  show ?thesis
    using logger_delivers [of sample_sys sample_logger sample_heap 7 sample_requests]
      sample_healthy(1) sample_heap_ok sample_requests_printable
    unfolding ms
    by (auto simp: sample_logger_def logger_new_def sel old less_eq_level_enum_def sample_request_lines)
qed

theorem backtrace_replays_last_witness:
  "\<exists>lg1 h1 h2 h3. enable_backtrace_n 2 sample_logger sample_heap = (None, lg1, h1) \<and>
     clones_log sample_sys 7 lg1 sample_requests h1 = Some (None, h2) \<and>
     dump_backtrace sample_sys (logger_sink_log sample_sys lg1) 7 lg1 h2 = Some (None, h3) \<and>
     text_at h3 0 = text_at h2 0 @ ''< net>\<newline><  db>\<newline>< net>\<newline>< net>\<newline>''"
proof -
  have "snd (bt_enable_with_size 2 bt_default) = None"
    by (simp add: bt_enable_with_size_def cq_new_def vector_max_def)
  then have "fst (enable_backtrace_n 2 sample_logger sample_heap) = None"
    by (simp add: enable_backtrace_n_def sample_logger_def logger_new_def sample_heap_def Let_def case_prod_beta)
  then obtain lg1 h1 where en: "enable_backtrace_n 2 sample_logger sample_heap = (None, lg1, h1)"
    by (metis prod.collapse)
  have sel: "level (mk_log_msg thr tm l lv tx nm) = lv" for thr tm l lv tx nm by (simp add: mk_log_msg_def)
  have bv: "valid_msg (mk_log_msg 7 tm source_loc_default Info tx ''net'')"
    if "tx = backtrace_start \<or> tx = backtrace_end" "tm = 9" for tx tm
    using that by (intro sample_valid_msgs) (auto simp: backtrace_start_def backtrace_end_def)
  have banner: "printable_at sample_sys sample_heap (lg_sinks sample_logger) (banner_at sample_sys 7 sample_logger tx (clock sample_sys tm))"
    if "tx = backtrace_start \<or> tx = backtrace_end" for tm tx
    using sample_name_line(1) [OF bv [OF that refl]]
    by (simp add: banner_at_def sample_logger_def logger_new_def sample_sys_def)
  have tail: "last_n 2 (map (request_msg 7) sample_requests) =
      [mk_log_msg 7 6 source_loc_default Info ''b'' ''db'', mk_log_msg 7 7 source_loc_default Warn ''c'' ''net'']"
    by (simp add: last_n_def sample_requests_def)
  have added: "added sample_sys sample_heap 0 m = line_at sample_sys sample_heap 0 m" for m
    by (simp add: added_def sink_should_log_def sample_heap_def)
  have bline: "line_at sample_sys sample_heap 0 (banner_at sample_sys 7 sample_logger tx tm) = ''< net>\<newline>''" for tx tm
  proof -
    have "line_at sample_sys sample_heap 0 m = ''< net>\<newline>''" if "logger_name m = ''net''" for m
      using that by (simp add: line_at_def sample_heap_def line_text_def items_text_def sample_pf_def sample_aligned)
    then show ?thesis by (simp add: banner_at_def mk_log_msg_def sample_logger_def logger_new_def)
  qed
  show ?thesis
    using backtrace_replays_last [of sample_sys sample_logger sample_heap 7 sample_requests, OF _ _ _ _ banner en]
      sample_healthy(1) sample_heap_ok sample_requests_printable en
    by (simp add: sample_logger_def [THEN arg_cong [of _ _ lg_sinks]] logger_new_def added bline tail sample_request_lines) blast
qed

theorem logger_contains_faults_witness:
  "\<exists>m' h'. sinks_log sample_sys [2, 0] sample_msg sample_heap = Some (None, m', h') \<and> length (reports h') \<le> 2"
proof -
  obtain pf m' where f: "pf_format sample_env sample_pf sample_msg [] = Some (pf, m', line_text sample_env sample_pf sample_msg)"
    "same_msg sample_msg m'"
    using pf_format_line [OF sample_pf_ok sample_printable] by blast
  have "\<exists>r. sinks_log sample_sys [2, 0] sample_msg sample_heap = Some r"
  proof -
    obtain e1 s1 m1 w1 where l: "sink_log sample_sys sample_msg (sink_at sample_heap 2) (io sample_heap) = Some (e1, s1, m1, w1)"
      "same_msg sample_msg m1" "ostreams w1 = ostreams sample_io"
      using f that by (simp add: sink_log_def sample_heap_def clear_range_def basic_file_output_def file_write_def
          c_fwrite_def sample_world_def sample_line_text)
    obtain rs where c: "caught e1 (sample_heap\<lparr>sink_at := (sink_at sample_heap)(2 := s1), io := w1\<rparr>) =
        (None, sample_heap\<lparr>sink_at := (sink_at sample_heap)(2 := s1), io := w1, reports := rs\<rparr>)"
      using caught_std [OF sink_log_std [OF l(1)]] by fastforce
    let ?h1 = "sample_heap\<lparr>sink_at := (sink_at sample_heap)(2 := s1), io := w1, reports := rs\<rparr>"
    have one: "try_sink_log sample_sys 2 sample_msg sample_heap = Some (None, m1, ?h1)"
      using l(1) c by (simp add: try_sink_log_def)
    have "\<exists>x. try_sink_log sample_sys 0 m1 ?h1 = Some (None, x)"
      using sink_log_ready [of sample_sys "sink_at sample_heap 0" w1 m1] sample_healthy(1) sample_pf_ok sample_printable l(3)
      by (auto simp: try_sink_log_def caught_def sample_heap_def same_msg_line [OF l(2)] sample_io_def)
    then show ?thesis
      using one by (auto simp: sink_should_log_def sample_heap_def split: if_splits)
  qed
  then obtain e m2 h2 where run: "sinks_log sample_sys [2, 0] sample_msg sample_heap = Some (e, m2, h2)" by auto
  then have "e = None \<and> (\<exists>rs. reports h2 = reports sample_heap @ rs \<and> length rs \<le> length [2, 0 :: nat])"
    using logger_contains_faults by blast
  then show ?thesis using run by (auto simp: sample_heap_def)
qed

theorem set_pattern_reaches_sinks_witness:
  "\<exists>lg' h'. logger_set_pattern sample_sys sample_logger ''<%4n>'' sample_heap = Some (lg', h') \<and>
     (\<forall>i \<in> {0, 3}. formatter (sink_at h' i) = sample_pf)"
proof -
  have new: "pf_new (fenv sample_sys) now ''<%4n>'' DEFAULT_EOL Map.empty = Some sample_pf" for now
    using sample_pf_new by (simp add: DEFAULT_EOL_def)
  obtain lg' h' where s: "logger_set_pattern sample_sys sample_logger ''<%4n>'' sample_heap = Some (lg', h')"
    using set_formatters_same [OF new _ sample_printable(1), of "\<lambda>_. 0" "lg_sinks sample_logger"
        "sample_heap\<lparr>io := (io sample_heap)\<lparr>ticks := ticks (io sample_heap) + length ''<%4n>''\<rparr>\<rparr>"] new
    by (auto simp: logger_set_pattern_def make_formatter_def logger_set_formatter_def)
  show ?thesis
    using set_pattern_reaches_sinks [OF s new _ sample_printable(1)] s
    by (auto simp: sample_logger_def logger_new_def sample_sys_def)
qed

end
