(* ===== verification/Registry.thy ===== *)
theory Registry
  imports Loggers "HOL-Library.AList"
begin

text \<open>
  \<^verbatim>\<open>base/registry.{h,cpp}\<close>, the interface in \<^verbatim>\<open>include/learnlog.h\<close> and \<^verbatim>\<open>src/learnlog.cpp\<close>, and
  the factories. Loggers are shared objects in a store; the registry holds their addresses by
  name. The mutexes of the registry are not in the model: its operations are called one after the
  other. (Most hold one mutex for their whole body; \<open>set_global_pattern\<close>, \<open>register_thread_pool\<close>,
  \<open>close_registry\<close> and the factories take mutexes one by one, so calls of other threads can come between.)
  The map is unordered: \<open>order\<close> says in which order an iteration meets the names.
\<close>

section \<open>State\<close>

datatype msg_queue_type = Lock | Lockfree | Lockfree_concurrent

record pool_info =
  msg_q_size :: size_t
  msg_q_type :: msg_queue_type
  threads_num :: size_t

record 'c registry =
  global_formatter :: "'c pattern_formatter"
  global_pattern :: string
  global_log_level :: level_enum
  global_flush_level :: level_enum
  auto_register_logger :: bool
  default_logger :: "nat option"
  loggers :: "(string \<times> nat) list"
  global_flusher :: "int option"
  reg_thread_pool :: "nat option"

text \<open>
  The library: the registry and the objects it shares with the user. \<open>pool_of\<close> is the weak
  pointer of an asynchronous logger.
\<close>

record 'c lib =
  reg :: "'c registry"
  logger_at :: "nat \<Rightarrow> logger"
  pool_of :: "nat \<Rightarrow> nat option"
  pool_at :: "nat \<Rightarrow> pool_info"
  store :: "'c heap"
  next_logger :: nat
  next_sink :: nat
  next_pool :: nat

type_synonym umap_order = "string list \<Rightarrow> string list"

definition umap_iter :: "umap_order \<Rightarrow> (string \<times> nat) list \<Rightarrow> nat list" where
  "umap_iter order m = List.map_filter (map_of m) (order (map fst m))"

definition upd_reg :: "('c registry \<Rightarrow> 'c registry) \<Rightarrow> 'c lib \<Rightarrow> 'c lib" where
  "upd_reg f s = s\<lparr>reg := f (reg s)\<rparr>"

definition upd_logger :: "nat \<Rightarrow> (logger \<Rightarrow> logger) \<Rightarrow> 'c lib \<Rightarrow> 'c lib" where
  "upd_logger l f s = s\<lparr>logger_at := (logger_at s)(l := f (logger_at s l))\<rparr>"

section \<open>The registry\<close>

definition registry_init :: "'c sys_env \<Rightarrow> 'c heap \<Rightarrow> 'c lib" where
  "registry_init env h =
     \<lparr>reg = \<lparr>global_formatter = pf_default, global_pattern = ''%+'', global_log_level = Info,
         global_flush_level = Off, auto_register_logger = True, default_logger = Some 0,
         loggers = [(''default_logger'', 0)], global_flusher = None, reg_thread_pool = None\<rparr>,
      logger_at = (\<lambda>_. logger_new ''default_logger'' [0]), pool_of = (\<lambda>_. None),
      pool_at = (\<lambda>_. \<lparr>msg_q_size = 0, msg_q_type = Lock, threads_num = 0\<rparr>),
      store = h\<lparr>sink_at := (sink_at h)(0 := basic_sink_new (ansicolor_new env 1))\<rparr>,
      next_logger = 1, next_sink = 1, next_pool = 0\<rparr>"

definition excpt_exists :: "string \<Rightarrow> excpt" where
  "excpt_exists n = learnlog_excpt (''learnlog::registry: register_logger_() failed: '' @
     ''logger with name '' @ quoted n @ '' already exists'')"

definition excpt_missing :: "string \<Rightarrow> string \<Rightarrow> excpt" where
  "excpt_missing func n = learnlog_excpt (''learnlog::registry: '' @ func @ ''() failed: '' @
     ''logger with name '' @ quoted n @ '' does not exist'')"

text \<open>\<open>register_logger_\<close>\<close>

definition register_logger_locked :: "nat \<Rightarrow> 'c lib \<Rightarrow> excpt option \<times> 'c lib" where
  "register_logger_locked l s =
     (let n = lg_name (logger_at s l)
      in if map_of (loggers (reg s)) n \<noteq> None then (Some (excpt_exists n), s)
         else (None, upd_reg (\<lambda>r. r\<lparr>loggers := AList.update n l (loggers r)\<rparr>) s))"

definition register_logger :: "nat \<Rightarrow> 'c lib \<Rightarrow> excpt option \<times> 'c lib" where
  "register_logger l s = register_logger_locked l s"

text \<open>A logger's \<open>set_formatter\<close> and \<open>set_pattern\<close> on the store.\<close>

definition lib_set_formatter :: "'c sys_env \<Rightarrow> nat \<Rightarrow> 'c pattern_formatter \<Rightarrow> 'c lib \<Rightarrow> 'c lib option" where
  "lib_set_formatter env l pf s =
     do { h \<leftarrow> logger_set_formatter env (logger_at s l) pf (store s); Some (s\<lparr>store := h\<rparr>) }"

definition lib_set_pattern :: "'c sys_env \<Rightarrow> nat \<Rightarrow> string \<Rightarrow> 'c lib \<Rightarrow> 'c lib option" where
  "lib_set_pattern env l pat s =
     do { (lg, h) \<leftarrow> logger_set_pattern env (logger_at s l) pat (store s);
          Some (upd_logger l (\<lambda>_. lg) (s\<lparr>store := h\<rparr>)) }"

definition clone_global :: "'c sys_env \<Rightarrow> 'c lib \<Rightarrow> ('c pattern_formatter \<times> 'c lib) option" where
  "clone_global env s =
     do { (pf, w) \<leftarrow> clone_formatter env (global_formatter (reg s)) (io (store s));
          Some (pf, s\<lparr>store := (store s)\<lparr>io := w\<rparr>\<rparr>) }"

definition initialize_logger :: "'c sys_env \<Rightarrow> nat \<Rightarrow> 'c lib \<Rightarrow> (excpt option \<times> 'c lib) option" where
  "initialize_logger env l s =
     do { (pf, s) \<leftarrow> clone_global env s;
          s \<leftarrow> lib_set_formatter env l pf s;
          s \<leftarrow> lib_set_pattern env l (global_pattern (reg s)) s;
          let s = upd_logger l (set_log_level (global_log_level (reg s))) s;
          let s = upd_logger l (set_flush_level (global_flush_level (reg s))) s;
          if auto_register_logger (reg s) then Some (register_logger_locked l s) else Some (None, s) }"

definition set_auto_register_logger :: "bool \<Rightarrow> 'c lib \<Rightarrow> 'c lib" where
  "set_auto_register_logger flag = upd_reg (\<lambda>r. r\<lparr>auto_register_logger := flag\<rparr>)"

definition get_logger :: "string \<Rightarrow> 'c lib \<Rightarrow> nat option" where
  "get_logger n s = map_of (loggers (reg s)) n"

definition remove_logger :: "string \<Rightarrow> 'c lib \<Rightarrow> 'c lib" where
  "remove_logger n s =
     (let s = upd_reg (\<lambda>r. r\<lparr>loggers := AList.delete n (loggers r)\<rparr>) s
      in case default_logger (reg s) of
           None \<Rightarrow> s
         | Some d \<Rightarrow> if lg_name (logger_at s d) = n then upd_reg (\<lambda>r. r\<lparr>default_logger := None\<rparr>) s else s)"

definition get_default_logger :: "'c lib \<Rightarrow> nat option" where
  "get_default_logger s = default_logger (reg s)"

definition set_default_logger :: "nat option \<Rightarrow> 'c lib \<Rightarrow> 'c lib" where
  "set_default_logger new s =
     (let s = (case new of
                 None \<Rightarrow> s
               | Some l \<Rightarrow> upd_reg (\<lambda>r. r\<lparr>loggers := AList.update (lg_name (logger_at s l)) l (loggers r)\<rparr>) s)
      in upd_reg (\<lambda>r. r\<lparr>default_logger := new\<rparr>) s)"

text \<open>The loop of \<open>set_global_formatter\<close>: every registered logger gets a clone.\<close>

fun set_formatter_all :: "'c sys_env \<Rightarrow> nat list \<Rightarrow> 'c lib \<Rightarrow> 'c lib option" where
  "set_formatter_all env [] s = Some s"
| "set_formatter_all env (l # ls) s =
     do { (pf, s) \<leftarrow> clone_global env s; s \<leftarrow> lib_set_formatter env l pf s; set_formatter_all env ls s }"

definition set_global_formatter ::
  "umap_order \<Rightarrow> 'c sys_env \<Rightarrow> 'c pattern_formatter \<Rightarrow> 'c lib \<Rightarrow> 'c lib option" where
  "set_global_formatter order env pf s =
     (let s = upd_reg (\<lambda>r. r\<lparr>global_formatter := pf\<rparr>) s
      in set_formatter_all env (umap_iter order (loggers (reg s))) s)"

definition set_global_pattern :: "umap_order \<Rightarrow> 'c sys_env \<Rightarrow> string \<Rightarrow> 'c lib \<Rightarrow> 'c lib option" where
  "set_global_pattern order env pat s =
     (let s = upd_reg (\<lambda>r. r\<lparr>global_pattern := pat\<rparr>) s
      in do { (pf, w) \<leftarrow> make_formatter env pat (io (store s));
              set_global_formatter order env pf (s\<lparr>store := (store s)\<lparr>io := w\<rparr>\<rparr>) })"

definition registry_set_pattern ::
  "'c sys_env \<Rightarrow> string \<Rightarrow> string \<Rightarrow> 'c lib \<Rightarrow> (excpt option \<times> 'c lib) option" where
  "registry_set_pattern env n pat s =
     (case get_logger n s of
        None \<Rightarrow> Some (Some (excpt_missing ''set_logger_pattern'' n), s)
      | Some l \<Rightarrow> do { s \<leftarrow> lib_set_pattern env l pat s; Some (None, s) })"

definition registry_set_log_level :: "string \<Rightarrow> level_enum \<Rightarrow> 'c lib \<Rightarrow> excpt option \<times> 'c lib" where
  "registry_set_log_level n lv s =
     (case get_logger n s of
        None \<Rightarrow> (Some (excpt_missing ''set_log_level'' n), s)
      | Some l \<Rightarrow> (None, upd_logger l (set_log_level lv) s))"

definition registry_set_flush_level :: "string \<Rightarrow> level_enum \<Rightarrow> 'c lib \<Rightarrow> excpt option \<times> 'c lib" where
  "registry_set_flush_level n lv s =
     (case get_logger n s of
        None \<Rightarrow> (Some (excpt_missing ''set_flush_level'' n), s)
      | Some l \<Rightarrow> (None, upd_logger l (set_flush_level lv) s))"

definition set_global_log_level :: "umap_order \<Rightarrow> level_enum \<Rightarrow> 'c lib \<Rightarrow> 'c lib" where
  "set_global_log_level order lv s =
     (let s = upd_reg (\<lambda>r. r\<lparr>global_log_level := lv\<rparr>) s
      in fold (\<lambda>l. upd_logger l (set_log_level lv)) (umap_iter order (loggers (reg s))) s)"

definition set_global_flush_level :: "umap_order \<Rightarrow> level_enum \<Rightarrow> 'c lib \<Rightarrow> 'c lib" where
  "set_global_flush_level order lv s =
     (let s = upd_reg (\<lambda>r. r\<lparr>global_flush_level := lv\<rparr>) s
      in fold (\<lambda>l. upd_logger l (set_flush_level lv)) (umap_iter order (loggers (reg s))) s)"

text \<open>
  \<open>exec_all\<close> stops at the first call that throws. \<open>flush_all\<close> calls \<open>flush\<close> on each logger; \<open>vflush\<close>
  is its virtual \<open>flush_sink_\<close>.
\<close>

definition exec_all ::
  "umap_order \<Rightarrow> (nat \<Rightarrow> 'c lib \<Rightarrow> 'c lib \<times> excpt option) \<Rightarrow> 'c lib \<Rightarrow> 'c lib \<times> excpt option" where
  "exec_all order func s = snd (run_until func (umap_iter order (loggers (reg s))) s)"

definition flush_all ::
  "umap_order \<Rightarrow> (nat \<Rightarrow> 'c lib \<Rightarrow> 'c lib \<times> excpt option) \<Rightarrow> 'c lib \<Rightarrow> 'c lib \<times> excpt option" where
  "flush_all order vflush s = snd (run_until vflush (umap_iter order (loggers (reg s))) s)"

definition sync_flush :: "'c sys_env \<Rightarrow> nat \<Rightarrow> 'c lib \<Rightarrow> 'c lib \<times> excpt option" where
  "sync_flush env l s = (let (e, h) = flush_sink env (logger_at s l) (store s) in (s\<lparr>store := h\<rparr>, e))"

definition remove_all :: "'c lib \<Rightarrow> 'c lib" where
  "remove_all = upd_reg (\<lambda>r. r\<lparr>loggers := [], default_logger := None\<rparr>)"

text \<open>\<open>flush_every\<close>: a positive interval starts a thread, any other only stops the old one.\<close>

definition flush_every :: "int \<Rightarrow> 'c lib \<Rightarrow> 'c lib" where
  "flush_every interval = upd_reg (\<lambda>r. r\<lparr>global_flusher := (if interval > 0 then Some interval else None)\<rparr>)"

definition remove_async_loggers :: "umap_order \<Rightarrow> 'c lib \<Rightarrow> 'c lib" where
  "remove_async_loggers order s =
     (let async_names = filter (\<lambda>n. case get_logger n s of None \<Rightarrow> False | Some l \<Rightarrow> is_async (logger_at s l))
            (order (map fst (loggers (reg s))));
          s = upd_reg (\<lambda>r. r\<lparr>loggers := fold AList.delete async_names (loggers r)\<rparr>) s
      in case default_logger (reg s) of
           None \<Rightarrow> s
         | Some d \<Rightarrow> if is_async (logger_at s d) then upd_reg (\<lambda>r. r\<lparr>default_logger := None\<rparr>) s else s)"

definition register_thread_pool :: "umap_order \<Rightarrow> nat option \<Rightarrow> 'c lib \<Rightarrow> 'c lib" where
  "register_thread_pool order p s =
     upd_reg (\<lambda>r. r\<lparr>reg_thread_pool := p\<rparr>)
       (remove_async_loggers order (upd_reg (\<lambda>r. r\<lparr>reg_thread_pool := None\<rparr>) s))"

definition get_thread_pool :: "'c lib \<Rightarrow> nat option" where
  "get_thread_pool s = reg_thread_pool (reg s)"

definition close_registry :: "'c lib \<Rightarrow> 'c lib" where
  "close_registry s =
     upd_reg (\<lambda>r. r\<lparr>reg_thread_pool := None\<rparr>) (remove_all (upd_reg (\<lambda>r. r\<lparr>global_flusher := None\<rparr>) s))"

section \<open>Factories\<close>

text \<open>\<open>thread_pool::thread_pool\<close>: the check of the number of threads, and the three sizes kept.\<close>

definition default_queue_size :: size_t where "default_queue_size = 8192"
definition default_threads_num :: size_t where "default_threads_num = 1"

definition pool_new :: "msg_queue_type \<Rightarrow> size_t \<Rightarrow> size_t \<Rightarrow> excpt + pool_info" where
  "pool_new t queue_size num =
     (if num \<le> 0 \<or> num > 1024 then
        Inl (learnlog_excpt (''learnlog::thread_pool(): invalid threads_num '' @ dec (unat num) @
               '' (valid range is 1-1024)''))
      else Inr \<lparr>msg_q_size = queue_size, msg_q_type = t, threads_num = num\<rparr>)"

definition add_pool :: "pool_info \<Rightarrow> 'c lib \<Rightarrow> nat \<times> 'c lib" where
  "add_pool p s =
     (next_pool s, s\<lparr>pool_at := (pool_at s)(next_pool s := p), next_pool := next_pool s + 1\<rparr>)"

definition initialize_thread_pool ::
  "umap_order \<Rightarrow> msg_queue_type \<Rightarrow> size_t \<Rightarrow> size_t \<Rightarrow> 'c lib \<Rightarrow> excpt option \<times> 'c lib" where
  "initialize_thread_pool order t queue_size num s =
     (case pool_new t queue_size num of
        Inl e \<Rightarrow> (Some e, s)
      | Inr p \<Rightarrow> (let (k, s) = add_pool p s in (None, register_thread_pool order (Some k) s)))"

text \<open>\<open>make_shared\<close> of a sink, whose constructor may throw, and of a logger.\<close>

type_synonym sink_ctor = "io_state \<Rightarrow> (excpt + sink_kind) \<times> io_state"

definition add_sink :: "sink_ctor \<Rightarrow> 'c lib \<Rightarrow> (excpt + nat) \<times> 'c lib" where
  "add_sink ctor s =
     (case ctor (io (store s)) of
        (Inl e, w) \<Rightarrow> (Inl e, s\<lparr>store := (store s)\<lparr>io := w\<rparr>\<rparr>)
      | (Inr k, w) \<Rightarrow>
          (Inr (next_sink s),
           s\<lparr>store := (store s)\<lparr>sink_at := (sink_at (store s))(next_sink s := basic_sink_new k), io := w\<rparr>,
             next_sink := next_sink s + 1\<rparr>))"

definition add_logger :: "logger \<Rightarrow> nat option \<Rightarrow> 'c lib \<Rightarrow> nat \<times> 'c lib" where
  "add_logger lg p s =
     (next_logger s,
      s\<lparr>logger_at := (logger_at s)(next_logger s := lg), pool_of := (pool_of s)(next_logger s := p),
        next_logger := next_logger s + 1\<rparr>)"

definition caught_lib :: "excpt option \<times> 'c lib \<Rightarrow> excpt option \<times> 'c lib" where
  "caught_lib r = (let (e, s) = r; (e, h) = caught e (store s) in (e, s\<lparr>store := h\<rparr>))"

definition sync_create ::
  "'c sys_env \<Rightarrow> sink_ctor \<Rightarrow> string \<Rightarrow> 'c lib \<Rightarrow> (excpt option \<times> nat option \<times> 'c lib) option" where
  "sync_create env ctor n s =
     (case add_sink ctor s of
        (Inl e, s) \<Rightarrow> Some (Some e, None, s)
      | (Inr i, s) \<Rightarrow>
          (let (l, s) = add_logger (logger_new n [i]) None s
           in do { r \<leftarrow> initialize_logger env l s;
                   let (e, s) = caught_lib r;
                   Some (e, (if e = None then Some l else None), s) }))"

text \<open>
  The pool that \<open>async_factory_template::create\<close> uses. With a pool registered it makes one of
  its own type first, to compare the types, and keeps it only when they differ.
\<close>

definition factory_pool ::
  "umap_order \<Rightarrow> msg_queue_type \<Rightarrow> 'c lib \<Rightarrow> (excpt + nat) \<times> 'c lib" where
  "factory_pool order t s =
     (case get_thread_pool s of
        None \<Rightarrow>
          (case pool_new t default_queue_size default_threads_num of
             Inl e \<Rightarrow> (Inl e, s)
           | Inr p \<Rightarrow> (let (k, s) = add_pool p s in (Inr k, register_thread_pool order (Some k) s)))
      | Some tp \<Rightarrow>
          (case pool_new t (msg_q_size (pool_at s tp)) (threads_num (pool_at s tp)) of
             Inl e \<Rightarrow> (Inl e, s)
           | Inr p \<Rightarrow>
               if msg_q_type p \<noteq> msg_q_type (pool_at s tp)
               then (let (k, s) = add_pool p s in (Inr k, register_thread_pool order (Some k) s))
               else (Inr tp, s)))"

definition async_logger_new :: "string \<Rightarrow> nat list \<Rightarrow> logger" where
  "async_logger_new n sinks = (logger_new n sinks)\<lparr>is_async := True\<rparr>"

definition async_create ::
  "umap_order \<Rightarrow> 'c sys_env \<Rightarrow> msg_queue_type \<Rightarrow> sink_ctor \<Rightarrow> string \<Rightarrow> 'c lib \<Rightarrow>
     (excpt option \<times> nat option \<times> 'c lib) option" where
  "async_create order env t ctor n s =
     (case factory_pool order t s of
        (Inl e, s) \<Rightarrow> Some (Some e, None, s)
      | (Inr tp, s) \<Rightarrow>
          (case add_sink ctor s of
             (Inl e, s) \<Rightarrow> Some (Some e, None, s)
           | (Inr i, s) \<Rightarrow>
               (let (l, s) = add_logger (async_logger_new n [i]) (Some tp) s
                in do { r \<leftarrow> initialize_logger env l s;
                        let (e, s) = caught_lib r;
                        Some (e, (if e = None then Some l else None), s) })))"

section \<open>The interface of the library\<close>

text \<open>
  The functions of \<^verbatim>\<open>src/learnlog.cpp\<close> that change something, and the templates beside them; a
  user can also make loggers, and clones of them, without registering them.
\<close>

datatype 'c api_op =
    Initialize_logger nat
  | Register_logger nat
  | Set_auto_register_logger bool
  | Remove_logger string
  | Set_default_logger "nat option"
  | Set_global_pattern string
  | Set_global_formatter "'c pattern_formatter"
  | Set_pattern string string
  | Set_global_log_level level_enum
  | Set_log_level string level_enum
  | Set_global_flush_level level_enum
  | Set_flush_level string level_enum
  | Remove_all
  | Initialize_thread_pool msg_queue_type size_t size_t
  | Register_thread_pool "nat option"
  | Close
  | Flush_every int
  | Create sink_ctor string
  | Create_async msg_queue_type sink_ctor string
  | Make_logger string "nat list"
  | Make_async_logger string "nat list" "nat option"
  | Clone_logger nat string

fun api_call ::
  "umap_order \<Rightarrow> 'c sys_env \<Rightarrow> 'c api_op \<Rightarrow> 'c lib \<Rightarrow> (excpt option \<times> 'c lib) option" where
  "api_call order env (Initialize_logger l) s = map_option caught_lib (initialize_logger env l s)"
| "api_call order env (Register_logger l) s = Some (caught_lib (register_logger l s))"
| "api_call order env (Set_auto_register_logger flag) s = Some (None, set_auto_register_logger flag s)"
| "api_call order env (Remove_logger n) s = Some (None, remove_logger n s)"
| "api_call order env (Set_default_logger l) s = Some (None, set_default_logger l s)"
| "api_call order env (Set_global_pattern pat) s = map_option (Pair None) (set_global_pattern order env pat s)"
| "api_call order env (Set_global_formatter pf) s = map_option (Pair None) (set_global_formatter order env pf s)"
| "api_call order env (Set_pattern n pat) s = map_option caught_lib (registry_set_pattern env n pat s)"
| "api_call order env (Set_global_log_level lv) s = Some (None, set_global_log_level order lv s)"
| "api_call order env (Set_log_level n lv) s = Some (caught_lib (registry_set_log_level n lv s))"
| "api_call order env (Set_global_flush_level lv) s = Some (None, set_global_flush_level order lv s)"
| "api_call order env (Set_flush_level n lv) s = Some (caught_lib (registry_set_flush_level n lv s))"
| "api_call order env Remove_all s = Some (None, remove_all s)"
| "api_call order env (Initialize_thread_pool t q k) s = Some (initialize_thread_pool order t q k s)"
| "api_call order env (Register_thread_pool p) s = Some (None, register_thread_pool order p s)"
| "api_call order env Close s = Some (None, close_registry s)"
| "api_call order env (Flush_every interval) s = Some (None, flush_every interval s)"
| "api_call order env (Create ctor n) s = map_option (\<lambda>(e, l, s). (e, s)) (sync_create env ctor n s)"
| "api_call order env (Create_async t ctor n) s = map_option (\<lambda>(e, l, s). (e, s)) (async_create order env t ctor n s)"
| "api_call order env (Make_logger n sinks) s = Some (None, snd (add_logger (logger_new n sinks) None s))"
| "api_call order env (Make_async_logger n sinks tp) s = Some (None, snd (add_logger (async_logger_new n sinks) tp s))"
| "api_call order env (Clone_logger l n) s =
     Some (None, snd (add_logger (logger_clone n (logger_at s l)) (pool_of s l) s))"

text \<open>
  Logging through the default logger: the pointer is not looked at. \<open>slog\<close> is the virtual
  \<open>sink_log_\<close> of a logger.
\<close>

definition default_log ::
  "'c sys_env \<Rightarrow> (nat \<Rightarrow> 'c heap log_fun) \<Rightarrow> size_t \<Rightarrow> source_loc \<Rightarrow> level_enum \<Rightarrow> excpt + string \<Rightarrow> 'c lib \<Rightarrow>
     (excpt option \<times> 'c lib) option" where
  "default_log env slog thread_id l lv formatted s =
     (case get_default_logger s of
        None \<Rightarrow> None
      | Some d \<Rightarrow>
          do { (e, h) \<leftarrow> log_formatted env (slog d) thread_id (logger_at s d) l lv formatted (store s);
               Some (e, s\<lparr>store := h\<rparr>) })"

section \<open>The invariant of the registry\<close>

text \<open>
  Names are unique and are those of the loggers, the default logger is registered, and every
  registered asynchronous logger uses the registered thread pool, unless it is one of \<open>F\<close>: loggers that the program itself has
  handed over although they use another pool, which the registry does not check.
\<close>

definition entry_ok :: "nat set \<Rightarrow> 'c lib \<Rightarrow> nat \<Rightarrow> bool" where
  "entry_ok F s l \<longleftrightarrow> l < next_logger s \<and>
     (is_async (logger_at s l) \<and> l \<notin> F \<longrightarrow> reg_thread_pool (reg s) \<noteq> None \<and> pool_of s l = reg_thread_pool (reg s))"

definition reg_inv :: "nat set \<Rightarrow> 'c lib \<Rightarrow> bool" where
  "reg_inv F s \<longleftrightarrow>
     distinct (map fst (loggers (reg s))) \<and>
     (\<forall>(n, l) \<in> set (loggers (reg s)). lg_name (logger_at s l) = n \<and> entry_ok F s l) \<and>
     (\<forall>d. default_logger (reg s) = Some d \<longrightarrow> map_of (loggers (reg s)) (lg_name (logger_at s d)) = Some d)"

text \<open>What the setting operations leave alone.\<close>

definition same_entries :: "'c lib \<Rightarrow> 'c lib \<Rightarrow> bool" where
  "same_entries s s' \<longleftrightarrow>
     loggers (reg s') = loggers (reg s) \<and> default_logger (reg s') = default_logger (reg s) \<and>
     reg_thread_pool (reg s') = reg_thread_pool (reg s) \<and> pool_of s' = pool_of s \<and>
     next_logger s' = next_logger s \<and>
     (\<forall>l. lg_name (logger_at s' l) = lg_name (logger_at s l) \<and> is_async (logger_at s' l) = is_async (logger_at s l))"

lemma same_entries_refl [simp]: "same_entries s s"
  by (simp add: same_entries_def)

lemma same_entries_trans [trans]: "same_entries s s' \<Longrightarrow> same_entries s' s'' \<Longrightarrow> same_entries s s''"
  by (simp add: same_entries_def)

lemma same_entries_store [simp]: "same_entries s (s'\<lparr>store := h\<rparr>) = same_entries s s'"
  by (simp add: same_entries_def)

lemma reg_inv_same: "same_entries s s' \<Longrightarrow> reg_inv F s \<Longrightarrow> reg_inv F s'"
  by (simp add: same_entries_def reg_inv_def entry_ok_def)

lemma entry_ok_same: "same_entries s s' \<Longrightarrow> entry_ok F s' l = entry_ok F s l"
  by (simp add: same_entries_def entry_ok_def)

lemma same_entries_upd_logger:
  "(\<And>lg. lg_name (f lg) = lg_name lg \<and> is_async (f lg) = is_async lg) \<Longrightarrow> same_entries s (upd_logger l f s)"
  by (simp add: same_entries_def upd_logger_def)

lemma set_levels_same [simp]:
  "same_entries s (upd_logger l (set_log_level lv) s)" "same_entries s (upd_logger l (set_flush_level lv) s)"
  by (rule same_entries_upd_logger, simp add: set_log_level_def set_flush_level_def)+

lemma fold_upd_logger_same:
  "(\<And>lg. lg_name (f lg) = lg_name lg \<and> is_async (f lg) = is_async lg) \<Longrightarrow>
     same_entries s (fold (\<lambda>l. upd_logger l f) ls s)"
proof (induction ls arbitrary: s)
  case (Cons l ls)
  show ?case
    using same_entries_trans [OF same_entries_upd_logger [OF Cons.prems] Cons.IH [OF Cons.prems]] by simp
qed simp

lemma same_entries_upd_reg:
  "(\<And>r. loggers (f r) = loggers r \<and> default_logger (f r) = default_logger r \<and> reg_thread_pool (f r) = reg_thread_pool r) \<Longrightarrow>
     same_entries s (upd_reg f s)"
  by (simp add: same_entries_def upd_reg_def)

lemma lib_set_formatter_same: "lib_set_formatter env l pf s = Some s' \<Longrightarrow> same_entries s s'"
  by (auto simp: lib_set_formatter_def split: Option.bind_splits)

lemma lib_set_pattern_same:
  assumes "lib_set_pattern env l pat s = Some s'"
  shows "same_entries s s'"
proof -
  obtain lg h where "logger_set_pattern env (logger_at s l) pat (store s) = Some (lg, h)"
    and s': "s' = upd_logger l (\<lambda>_. lg) (s\<lparr>store := h\<rparr>)"
    using assms by (auto simp: lib_set_pattern_def split: Option.bind_splits)
  then have "lg_name lg = lg_name (logger_at s l) \<and> is_async lg = is_async (logger_at s l)"
    by (auto simp: logger_set_pattern_def split: Option.bind_splits)
  then show ?thesis by (simp add: s' same_entries_def upd_logger_def)
qed

lemma clone_global_same: "clone_global env s = Some (pf, s') \<Longrightarrow> same_entries s s'"
  by (auto simp: clone_global_def split: Option.bind_splits)

lemma set_formatter_all_same: "set_formatter_all env ls s = Some s' \<Longrightarrow> same_entries s s'"
proof (induction ls arbitrary: s)
  case (Cons l ls)
  obtain pf s1 s2 where "clone_global env s = Some (pf, s1)" "lib_set_formatter env l pf s1 = Some s2"
    and rest: "set_formatter_all env ls s2 = Some s'"
    using Cons.prems by (auto split: Option.bind_splits)
  then have "same_entries s s2" by (blast intro: same_entries_trans clone_global_same lib_set_formatter_same)
  then show ?case using Cons.IH [OF rest] by (rule same_entries_trans)
qed simp

lemma caught_lib_same: "caught_lib (e, s) = (e', s') \<Longrightarrow> same_entries s s'"
  by (auto simp: caught_lib_def split: prod.splits)

lemma upd_reg_simps [simp]:
  "reg (upd_reg f s) = f (reg s)" "logger_at (upd_reg f s) = logger_at s" "pool_of (upd_reg f s) = pool_of s"
  "next_logger (upd_reg f s) = next_logger s" "store (upd_reg f s) = store s"
  by (simp_all add: upd_reg_def)

lemma entry_ok_upd_reg [simp]:
  "reg_thread_pool (f (reg s)) = reg_thread_pool (reg s) \<Longrightarrow> entry_ok F (upd_reg f s) l = entry_ok F s l"
  by (simp add: entry_ok_def)

lemma reg_invD:
  assumes "reg_inv F s"
  shows "distinct (map fst (loggers (reg s)))"
    and "map_of (loggers (reg s)) n = Some l \<Longrightarrow> lg_name (logger_at s l) = n"
    and "map_of (loggers (reg s)) n = Some l \<Longrightarrow> entry_ok F s l"
    and "default_logger (reg s) = Some d \<Longrightarrow> map_of (loggers (reg s)) (lg_name (logger_at s d)) = Some d"
proof -
  show "distinct (map fst (loggers (reg s)))" using assms by (simp add: reg_inv_def)
  show "default_logger (reg s) = Some d \<Longrightarrow> map_of (loggers (reg s)) (lg_name (logger_at s d)) = Some d"
    using assms by (simp add: reg_inv_def)
  assume "map_of (loggers (reg s)) n = Some l"
  then have "(n, l) \<in> set (loggers (reg s))" by (rule map_of_SomeD)
  then show "lg_name (logger_at s l) = n" "entry_ok F s l" using assms by (auto simp: reg_inv_def)
qed

lemma reg_invI:
  assumes "distinct (map fst (loggers (reg s)))"
    and "\<And>n l. map_of (loggers (reg s)) n = Some l \<Longrightarrow> lg_name (logger_at s l) = n"
    and "\<And>n l. map_of (loggers (reg s)) n = Some l \<Longrightarrow> entry_ok F s l"
    and "\<And>d. default_logger (reg s) = Some d \<Longrightarrow> map_of (loggers (reg s)) (lg_name (logger_at s d)) = Some d"
  shows "reg_inv F s"
  unfolding reg_inv_def
proof (intro conjI ballI allI impI assms(1,4); clarify)
  fix n l
  assume "(n, l) \<in> set (loggers (reg s))"
  then have "map_of (loggers (reg s)) n = Some l" using assms(1) by (simp only: map_of_eq_Some_iff)
  then show "lg_name (logger_at s l) = n \<and> entry_ok F s l" using assms(2,3) by blast
qed

lemma put_logger_inv:
  assumes inv: "reg_inv F s" and l: "entry_ok F s l"
    and d: "\<And>d. default_logger (reg s) = Some d \<Longrightarrow> lg_name (logger_at s d) \<noteq> lg_name (logger_at s l)"
  shows "reg_inv F (upd_reg (\<lambda>r. r\<lparr>loggers := AList.update (lg_name (logger_at s l)) l (loggers r)\<rparr>) s)"
    (is "reg_inv F ?s")
proof (rule reg_invI)
  show "distinct (map fst (loggers (reg ?s)))" using reg_invD(1) [OF inv] by (simp add: distinct_update)
  show "lg_name (logger_at ?s k) = n" if "map_of (loggers (reg ?s)) n = Some k" for n k
    using that reg_invD(2) [OF inv, of n k] by (simp add: update_conv split: if_splits)
  show "entry_ok F ?s k" if "map_of (loggers (reg ?s)) n = Some k" for n k
    using that reg_invD(3) [OF inv, of n k] l by (simp add: update_conv split: if_splits)
  show "map_of (loggers (reg ?s)) (lg_name (logger_at ?s e)) = Some e" if "default_logger (reg ?s) = Some e" for e
    using that reg_invD(4) [OF inv, of e] d [of e] by (simp add: update_conv)
qed

lemma register_logger_inv:
  assumes inv: "reg_inv F s" and l: "entry_ok F s l" and r: "register_logger_locked l s = (e, s')"
  shows "reg_inv F s'"
proof (cases "map_of (loggers (reg s)) (lg_name (logger_at s l)) = None")
  case False
  then show ?thesis using r inv by (auto simp: register_logger_locked_def Let_def)
next
  case True
  then have "s' = upd_reg (\<lambda>r. r\<lparr>loggers := AList.update (lg_name (logger_at s l)) l (loggers r)\<rparr>) s"
    using r by (simp add: register_logger_locked_def)
  moreover have "lg_name (logger_at s d) \<noteq> lg_name (logger_at s l)" if "default_logger (reg s) = Some d" for d
    using reg_invD(4) [OF inv that] True by auto
  ultimately show ?thesis using put_logger_inv [OF inv l] by simp
qed

text \<open>Entries only disappear, and the default logger stays registered or is dropped.\<close>

lemma reg_inv_shrink:
  assumes inv: "reg_inv F s" and same: "logger_at s' = logger_at s" "pool_of s' = pool_of s" "next_logger s' = next_logger s"
    and d: "distinct (map fst (loggers (reg s')))"
    and sub: "\<And>n l. map_of (loggers (reg s')) n = Some l \<Longrightarrow> map_of (loggers (reg s)) n = Some l"
    and pool: "\<And>n l. map_of (loggers (reg s')) n = Some l \<Longrightarrow> is_async (logger_at s l) \<Longrightarrow>
      reg_thread_pool (reg s') = reg_thread_pool (reg s)"
    and def: "\<And>e. default_logger (reg s') = Some e \<Longrightarrow>
      default_logger (reg s) = Some e \<and> map_of (loggers (reg s')) (lg_name (logger_at s e)) \<noteq> None"
  shows "reg_inv F s'"
proof (rule reg_invI [OF d])
  fix n l
  assume n: "map_of (loggers (reg s')) n = Some l"
  show "lg_name (logger_at s' l) = n" using reg_invD(2) [OF inv sub [OF n]] same by simp
  show "entry_ok F s' l" using reg_invD(3) [OF inv sub [OF n]] pool [OF n] same by (auto simp: entry_ok_def)
next
  fix e
  assume e: "default_logger (reg s') = Some e"
  obtain k where k: "map_of (loggers (reg s')) (lg_name (logger_at s e)) = Some k" using def [OF e] by auto
  then have "k = e" using sub [OF k] reg_invD(4) [OF inv] def [OF e] by simp
  then show "map_of (loggers (reg s')) (lg_name (logger_at s' e)) = Some e" using k same by simp
qed

lemma initialize_logger_inv:
  assumes inv: "reg_inv F s" and l: "entry_ok F s l" and i: "initialize_logger env l s = Some (e, s')"
  shows "reg_inv F s'"
proof -
  obtain pf s1 s2 s3 where 1: "clone_global env s = Some (pf, s1)" "lib_set_formatter env l pf s1 = Some s2"
      "lib_set_pattern env l (global_pattern (reg s2)) s2 = Some s3"
    and i3: "(let s = upd_logger l (set_log_level (global_log_level (reg s3))) s3;
              s = upd_logger l (set_flush_level (global_flush_level (reg s))) s
          in if auto_register_logger (reg s) then Some (register_logger_locked l s) else Some (None, s)) = Some (e, s')"
    using i by (auto simp: initialize_logger_def split: Option.bind_splits)
  define s4 where "s4 = upd_logger l (set_log_level (global_log_level (reg s3))) s3"
  define s5 where "s5 = upd_logger l (set_flush_level (global_flush_level (reg s4))) s4"
  have "same_entries s s3"
    using same_entries_trans [OF clone_global_same [OF 1(1)] same_entries_trans [OF lib_set_formatter_same [OF 1(2)]
          lib_set_pattern_same [OF 1(3)]]] .
  moreover have "same_entries s3 s5"
    unfolding s5_def s4_def by (rule same_entries_trans [OF set_levels_same(1) set_levels_same(2)])
  ultimately have same: "same_entries s s5" by (rule same_entries_trans)
  have "(if auto_register_logger (reg s5) then register_logger_locked l s5 else (None, s5)) = (e, s')"
    using i3 by (simp add: s4_def s5_def Let_def split: if_splits)
  then show ?thesis
    using reg_inv_same [OF same inv] l entry_ok_same [OF same]
      register_logger_inv [of F s5 l e s'] by (auto split: if_splits)
qed

lemma remove_logger_inv:
  assumes inv: "reg_inv F s"
  shows "reg_inv F (remove_logger n s)"
proof (rule reg_inv_shrink [OF inv])
  show "distinct (map fst (loggers (reg (remove_logger n s))))"
    using reg_invD(1) [OF inv] by (auto simp: remove_logger_def Let_def distinct_delete split: option.split)
  show "map_of (loggers (reg s)) k = Some l" if "map_of (loggers (reg (remove_logger n s))) k = Some l" for k l
    using that by (auto simp: remove_logger_def Let_def delete_conv split: option.splits if_splits)
  show "default_logger (reg s) = Some e \<and> map_of (loggers (reg (remove_logger n s))) (lg_name (logger_at s e)) \<noteq> None"
    if "default_logger (reg (remove_logger n s)) = Some e" for e
    using that reg_invD(4) [OF inv, of e] by (auto simp: remove_logger_def Let_def delete_conv split: option.splits if_splits)
qed (auto simp: remove_logger_def Let_def split: option.split)

lemma set_default_logger_inv:
  assumes inv: "reg_inv F s" and ok: "\<And>l. new = Some l \<Longrightarrow> entry_ok F s l"
  shows "reg_inv F (set_default_logger new s)"
proof -
  have none: "reg_inv F (upd_reg (\<lambda>r. r\<lparr>default_logger := None\<rparr>) s)"
    by (rule reg_inv_shrink [OF inv]) (use reg_invD(1) [OF inv] in simp_all)
  show ?thesis
  proof (cases new)
    case None
    then show ?thesis using none by (simp add: set_default_logger_def)
  next
    case (Some l)
    let ?s = "upd_reg (\<lambda>r. r\<lparr>default_logger := None\<rparr>) s" and ?n = "lg_name (logger_at s l)"
    let ?s1 = "upd_reg (\<lambda>r. r\<lparr>loggers := AList.update ?n l (loggers r)\<rparr>) ?s"
    have s1: "reg_inv F ?s1" using put_logger_inv [OF none, of l] ok [OF Some] by simp
    have eq: "set_default_logger new s = upd_reg (\<lambda>r. r\<lparr>default_logger := Some l\<rparr>) ?s1"
      by (simp add: set_default_logger_def Some upd_reg_def)
    let ?s2 = "upd_reg (\<lambda>r. r\<lparr>default_logger := Some l\<rparr>) ?s1"
    have "reg_inv F ?s2"
    proof (rule reg_invI)
      show "distinct (map fst (loggers (reg ?s2)))" using reg_invD(1) [OF s1] by simp
      show "lg_name (logger_at ?s2 k) = n" "entry_ok F ?s2 k" if "map_of (loggers (reg ?s2)) n = Some k" for n k
        using that reg_invD(2,3) [OF s1, of n k] by simp_all
      show "map_of (loggers (reg ?s2)) (lg_name (logger_at ?s2 d)) = Some d" if "default_logger (reg ?s2) = Some d" for d
        using that by (simp add: update_conv)
    qed
    then show ?thesis by (simp only: eq)
  qed
qed

lemma map_of_fold_delete:
  "map_of (fold AList.delete ns al) k = (if k \<in> set ns then None else map_of al k)"
  "distinct (map fst al) \<Longrightarrow> distinct (map fst (fold AList.delete ns al))"
  by (induction ns arbitrary: al) (auto simp: delete_conv distinct_delete)

lemma register_thread_pool_spec:
  assumes inv: "reg_inv F s" and order: "\<And>ks. set (order ks) = set ks"
  shows "reg_inv F (register_thread_pool order p s)"
    and "get_logger n (register_thread_pool order p s) =
      (case get_logger n s of None \<Rightarrow> None | Some l \<Rightarrow> if is_async (logger_at s l) then None else Some l)"
    and "logger_at (register_thread_pool order p s) = logger_at s"
    and "pool_of (register_thread_pool order p s) = pool_of s"
    and "next_logger (register_thread_pool order p s) = next_logger s"
    and "reg_thread_pool (reg (register_thread_pool order p s)) = p"
proof -
  define names where "names = filter (\<lambda>n. case map_of (loggers (reg s)) n of None \<Rightarrow> False | Some l \<Rightarrow> is_async (logger_at s l))
      (order (map fst (loggers (reg s))))"
  let ?s = "register_thread_pool order p s"
  have in_names: "n \<in> set names \<longleftrightarrow> (\<exists>l. map_of (loggers (reg s)) n = Some l \<and> is_async (logger_at s l))" for n
    by (auto simp: names_def order split: option.splits dest: map_of_SomeD) (force dest: map_of_SomeD)
  have objs: "logger_at ?s = logger_at s" "pool_of ?s = pool_of s" "next_logger ?s = next_logger s"
    "reg_thread_pool (reg ?s) = p"
    by (auto simp: register_thread_pool_def remove_async_loggers_def Let_def split: option.split)
  have lgs: "loggers (reg ?s) = fold AList.delete names (loggers (reg s))"
    by (auto simp: register_thread_pool_def remove_async_loggers_def Let_def get_logger_def names_def split: option.split)
  have def: "default_logger (reg ?s) =
      (case default_logger (reg s) of None \<Rightarrow> None | Some d \<Rightarrow> if is_async (logger_at s d) then None else Some d)"
    by (auto simp: register_thread_pool_def remove_async_loggers_def Let_def split: option.split)
  have look: "map_of (loggers (reg ?s)) n = (case map_of (loggers (reg s)) n of None \<Rightarrow> None
      | Some l \<Rightarrow> if is_async (logger_at s l) then None else Some l)" for n
    by (auto simp: lgs map_of_fold_delete in_names split: option.split)
  then show "get_logger n ?s =
      (case get_logger n s of None \<Rightarrow> None | Some l \<Rightarrow> if is_async (logger_at s l) then None else Some l)"
    by (simp add: get_logger_def)
  show "reg_inv F ?s"
  proof (rule reg_inv_shrink [OF inv objs(1-3)])
    show "distinct (map fst (loggers (reg ?s)))"
      using reg_invD(1) [OF inv] by (simp add: lgs map_of_fold_delete(2))
    show "map_of (loggers (reg s)) n = Some l" if "map_of (loggers (reg ?s)) n = Some l" for n l
      using that by (auto simp: look split: option.splits if_splits)
    show "reg_thread_pool (reg ?s) = reg_thread_pool (reg s)"
      if "map_of (loggers (reg ?s)) n = Some l" "is_async (logger_at s l)" for n l
      using that by (auto simp: look split: option.splits if_splits)
    show "default_logger (reg s) = Some e \<and> map_of (loggers (reg ?s)) (lg_name (logger_at s e)) \<noteq> None"
      if "default_logger (reg ?s) = Some e" for e
      using that reg_invD(4) [OF inv, of e] by (auto simp: def look split: option.splits if_splits)
  qed
qed (auto simp: register_thread_pool_def remove_async_loggers_def Let_def split: option.split)

lemma reg_inv_objects:
  assumes "reg_inv F s" and "reg s' = reg s" and "next_logger s \<le> next_logger s'"
    and "\<And>l. l < next_logger s \<Longrightarrow> logger_at s' l = logger_at s l \<and> pool_of s' l = pool_of s l"
  shows "reg_inv F s'"
proof (rule reg_invI)
  have lt: "l < next_logger s" if "map_of (loggers (reg s)) n = Some l" for n l
    using reg_invD(3) [OF assms(1) that] by (simp add: entry_ok_def)
  show "distinct (map fst (loggers (reg s')))" using reg_invD(1) [OF assms(1)] assms(2) by simp
  show "lg_name (logger_at s' l) = n" "entry_ok F s' l" if "map_of (loggers (reg s')) n = Some l" for n l
    using that reg_invD(2,3) [OF assms(1), of n l] lt [of n l] assms(2,3) assms(4) [of l]
    by (simp_all add: entry_ok_def)
  show "map_of (loggers (reg s')) (lg_name (logger_at s' d)) = Some d" if "default_logger (reg s') = Some d" for d
    using that reg_invD(4) [OF assms(1), of d] lt assms by (metis assms(4))
qed

lemma add_logger_inv:
  assumes "reg_inv F s" and "add_logger lg p s = (l, s')"
  shows "reg_inv F s'" and "logger_at s' l = lg" and "pool_of s' l = p" and "l < next_logger s'" and "reg s' = reg s"
  using assms(2) reg_inv_objects [OF assms(1), of s'] by (auto simp: add_logger_def)

lemma add_sink_same: "add_sink ctor s = (r, s') \<Longrightarrow> same_entries s s'"
  by (auto simp: add_sink_def same_entries_def split: prod.splits sum.splits)

lemma add_pool_same: "add_pool p s = (k, s') \<Longrightarrow> same_entries s s'"
  by (auto simp: add_pool_def same_entries_def)

lemma caught_inv: "caught_lib r = (e, s') \<Longrightarrow> reg_inv F (snd r) \<Longrightarrow> reg_inv F s'"
  using caught_lib_same [of "fst r" "snd r" e s'] reg_inv_same by auto

lemma set_global_formatter_same: "set_global_formatter order env pf s = Some s' \<Longrightarrow> same_entries s s'"
  unfolding set_global_formatter_def Let_def
  by (erule same_entries_trans [OF same_entries_upd_reg set_formatter_all_same, rotated]) simp

lemma set_global_pattern_same:
  assumes "set_global_pattern order env pat s = Some s'"
  shows "same_entries s s'"
proof -
  let ?s = "upd_reg (\<lambda>r. r\<lparr>global_pattern := pat\<rparr>) s"
  obtain pf w where "set_global_formatter order env pf (?s\<lparr>store := (store ?s)\<lparr>io := w\<rparr>\<rparr>) = Some s'"
    using assms by (auto simp: set_global_pattern_def Let_def split: Option.bind_splits)
  then have "same_entries (?s\<lparr>store := (store ?s)\<lparr>io := w\<rparr>\<rparr>) s'" by (rule set_global_formatter_same)
  moreover have "same_entries s (?s\<lparr>store := (store ?s)\<lparr>io := w\<rparr>\<rparr>)"
    by (simp add: same_entries_upd_reg)
  ultimately show ?thesis by (rule same_entries_trans [rotated])
qed

lemma settings_same:
  "registry_set_pattern env n pat s = Some (e, s') \<Longrightarrow> same_entries s s'"
  "registry_set_log_level n lv s = (e, s') \<Longrightarrow> same_entries s s'"
  "registry_set_flush_level n lv s = (e, s') \<Longrightarrow> same_entries s s'"
  "same_entries s (set_global_log_level order lv s)" "same_entries s (set_global_flush_level order lv s)"
  "same_entries s (set_auto_register_logger flag s)" "same_entries s (flush_every interval s)"
proof -
  show "registry_set_pattern env n pat s = Some (e, s') \<Longrightarrow> same_entries s s'"
    by (auto simp: registry_set_pattern_def split: option.splits Option.bind_splits dest: lib_set_pattern_same)
  show "registry_set_log_level n lv s = (e, s') \<Longrightarrow> same_entries s s'"
    "registry_set_flush_level n lv s = (e, s') \<Longrightarrow> same_entries s s'"
    by (auto simp: registry_set_log_level_def registry_set_flush_level_def split: option.splits)
  show "same_entries s (set_global_log_level order lv s)" "same_entries s (set_global_flush_level order lv s)"
    unfolding set_global_log_level_def set_global_flush_level_def Let_def
    by (rule same_entries_trans [OF same_entries_upd_reg fold_upd_logger_same];
        simp add: set_log_level_def set_flush_level_def)+
  show "same_entries s (set_auto_register_logger flag s)" "same_entries s (flush_every interval s)"
    by (simp_all add: set_auto_register_logger_def flush_every_def same_entries_upd_reg)
qed

lemma remove_all_inv: "reg_inv F (remove_all s)"
  by (rule reg_invI) (simp_all add: remove_all_def)

lemma close_registry_inv: "reg_inv F (close_registry s)"
  by (rule reg_invI) (simp_all add: close_registry_def remove_all_def)

lemma initialize_thread_pool_inv:
  assumes "reg_inv F s" and "\<And>ks. set (order ks) = set ks" and "initialize_thread_pool order t q k s = (e, s')"
  shows "reg_inv F s'"
  using assms reg_inv_same [OF add_pool_same]
  by (auto simp: initialize_thread_pool_def split: sum.splits prod.splits
      intro!: register_thread_pool_spec(1))

lemma create_inv:
  assumes inv: "reg_inv F s" and lg: "add_logger lg p s1 = (l, s2)" and sink: "add_sink ctor s = (r, s1)"
    and ok: "is_async lg \<Longrightarrow> reg_thread_pool (reg s) \<noteq> None \<and> p = reg_thread_pool (reg s)"
    and i: "initialize_logger env l s2 = Some (e, s3)" and c: "caught_lib (e, s3) = (e', s4)"
  shows "reg_inv F s4"
proof -
  note inv1 = reg_inv_same [OF add_sink_same [OF sink] inv]
  note a = add_logger_inv [OF inv1 lg]
  have "reg_thread_pool (reg s1) = reg_thread_pool (reg s)"
    using add_sink_same [OF sink] by (simp add: same_entries_def)
  then have "entry_ok F s2 l" using a ok by (auto simp: entry_ok_def)
  then have "reg_inv F s3" using initialize_logger_inv [OF a(1) _ i] by blast
  then show ?thesis using caught_inv [OF c] by simp
qed

lemma factory_pool_spec:
  assumes "reg_inv F s" and "\<And>ks. set (order ks) = set ks" and "factory_pool order t s = (r, s')"
  shows "reg_inv F s'" and "r = Inr k \<Longrightarrow> reg_thread_pool (reg s') = Some k"
proof -
  have reg: "reg_inv F (register_thread_pool order (Some k) s1) \<and> reg_thread_pool (reg (register_thread_pool order (Some k) s1)) = Some k"
    if "add_pool p s = (k, s1)" for k p s1
    using register_thread_pool_spec(1,6) [OF reg_inv_same [OF add_pool_same [OF that] assms(1)] assms(2)] by blast
  show "reg_inv F s'" "r = Inr k \<Longrightarrow> reg_thread_pool (reg s') = Some k"
    using assms reg
    by (auto simp: factory_pool_def get_thread_pool_def Let_def split: option.splits sum.splits if_splits prod.splits)
qed

text \<open>
  The loggers a program hands over exist. An asynchronous one may use any pool, as the code does not look; those
  that do not use the registered pool when they are handed over are collected beside the state of the library.
\<close>

fun handed_over :: "'c api_op \<Rightarrow> nat option" where
  "handed_over (Initialize_logger l) = Some l"
| "handed_over (Register_logger l) = Some l"
| "handed_over (Set_default_logger new) = new"
| "handed_over c = None"

definition foreign :: "'c api_op \<Rightarrow> 'c lib \<Rightarrow> nat set" where
  "foreign c s =
     (case handed_over c of
        None \<Rightarrow> {}
      | Some l \<Rightarrow> if is_async (logger_at s l) \<and> (reg_thread_pool (reg s) = None \<or> pool_of s l \<noteq> reg_thread_pool (reg s)) then {l} else {})"

definition call_ok :: "'c api_op \<Rightarrow> 'c lib \<Rightarrow> bool" where
  "call_ok c s \<longleftrightarrow> (\<forall>l. handed_over c = Some l \<longrightarrow> l < next_logger s)"

inductive reg_reach :: "umap_order \<Rightarrow> 'c sys_env \<Rightarrow> 'c heap \<Rightarrow> nat set \<Rightarrow> 'c lib \<Rightarrow> bool" for order env h where
  start: "reg_reach order env h {} (registry_init env h)"
| call: "reg_reach order env h F s \<Longrightarrow> call_ok c s \<Longrightarrow> api_call order env c s = Some (e, s') \<Longrightarrow>
    reg_reach order env h (F \<union> foreign c s) s'"

lemma reg_inv_mono: "reg_inv F s \<Longrightarrow> F \<subseteq> F' \<Longrightarrow> reg_inv F' s"
  by (auto simp: reg_inv_def entry_ok_def)

lemma handed_over_ok:
  "call_ok c s \<Longrightarrow> foreign c s \<subseteq> F \<Longrightarrow> handed_over c = Some l \<Longrightarrow> entry_ok F s l"
  by (auto simp: call_ok_def foreign_def entry_ok_def split: if_splits)

lemma registry_init_inv: "reg_inv F (registry_init env h)"
  by (simp add: registry_init_def reg_inv_def entry_ok_def logger_new_def)

lemma api_call_inv:
  assumes inv: "reg_inv F s" and ok: "\<And>l. handed_over c = Some l \<Longrightarrow> entry_ok F s l" and order: "\<And>ks. set (order ks) = set ks"
    and call: "api_call order env c s = Some (e, s')"
  shows "reg_inv F s'"
proof (cases c)
  case (Initialize_logger l)
  then obtain r where "initialize_logger env l s = Some r" "caught_lib r = (e, s')" using call by auto
  then show ?thesis using initialize_logger_inv [OF inv, of l env] ok Initialize_logger caught_inv by (cases r) force
next
  case (Register_logger l)
  obtain e1 s1 where "register_logger_locked l s = (e1, s1)" by fastforce
  then show ?thesis
    using register_logger_inv [OF inv] ok call Register_logger caught_inv [of "(e1, s1)"]
    by (simp add: register_logger_def)
next
  case (Set_default_logger l)
  then show ?thesis using set_default_logger_inv [OF inv] ok call by (cases l) auto
next
  case (Set_pattern n pat)
  then obtain r where "registry_set_pattern env n pat s = Some r" "caught_lib r = (e, s')" using call by auto
  then show ?thesis using settings_same(1) reg_inv_same [OF _ inv] caught_inv by (cases r) force
next
  case (Set_log_level n lv)
  then have "caught_lib (registry_set_log_level n lv s) = (e, s')" using call by simp
  then show ?thesis using settings_same(2) reg_inv_same [OF _ inv] caught_inv by (metis prod.collapse)
next
  case (Set_flush_level n lv)
  then have "caught_lib (registry_set_flush_level n lv s) = (e, s')" using call by simp
  then show ?thesis using settings_same(3) reg_inv_same [OF _ inv] caught_inv by (metis prod.collapse)
next
  case (Create ctor n)
  then obtain l' where cr: "sync_create env ctor n s = Some (e, l', s')" using call by auto
  obtain r s1 where sk: "add_sink ctor s = (r, s1)" by fastforce
  show ?thesis
  proof (cases r)
    case (Inl x)
    then show ?thesis using cr sk reg_inv_same [OF add_sink_same [OF sk] inv] by (simp add: sync_create_def)
  next
    case (Inr i)
    obtain l s2 where lg: "add_logger (logger_new n [i]) None s1 = (l, s2)" by fastforce
    then obtain r3 s4 where "initialize_logger env l s2 = Some r3" "caught_lib r3 = (e, s')"
      using cr sk Inr by (auto simp: sync_create_def split: Option.bind_splits prod.splits)
    then show ?thesis using create_inv [OF inv lg sk] by (cases r3) (auto simp: logger_new_def)
  qed
next
  case (Create_async t ctor n)
  then obtain l' where cr: "async_create order env t ctor n s = Some (e, l', s')" using call by auto
  obtain q s0 where fp: "factory_pool order t s = (q, s0)" by fastforce
  note f = factory_pool_spec [OF inv order fp]
  obtain r s1 where sk: "add_sink ctor s0 = (r, s1)" by fastforce
  show ?thesis
  proof (cases q)
    case (Inl x)
    then show ?thesis using cr fp f(1) by (simp add: async_create_def)
  next
    case q: (Inr tp)
    show ?thesis
    proof (cases r)
      case (Inl x)
      then show ?thesis using cr fp q sk reg_inv_same [OF add_sink_same [OF sk] f(1)] by (simp add: async_create_def)
    next
      case (Inr i)
      obtain l s2 where lg: "add_logger (async_logger_new n [i]) (Some tp) s1 = (l, s2)" by fastforce
      then obtain r3 s4 where "initialize_logger env l s2 = Some r3" "caught_lib r3 = (e, s')"
        using cr fp q sk Inr by (auto simp: async_create_def split: Option.bind_splits prod.splits)
      then show ?thesis using create_inv [OF f(1) lg sk] f(2) [OF q] by (cases r3) auto
    qed
  qed
next
  case (Make_logger n sinks)
  then show ?thesis using call add_logger_inv(1) [OF inv] by (metis api_call.simps(20) option.inject prod.collapse snd_conv)
next
  case (Make_async_logger n sinks tp)
  then show ?thesis using call add_logger_inv(1) [OF inv] by (metis api_call.simps(21) option.inject prod.collapse snd_conv)
next
  case (Clone_logger l n)
  then show ?thesis using call add_logger_inv(1) [OF inv] by (metis api_call.simps(22) option.inject prod.collapse snd_conv)
next
  case (Initialize_thread_pool t q k)
  then show ?thesis using call initialize_thread_pool_inv [OF inv order] by auto
qed (use call inv order reg_inv_same [OF _ inv] in \<open>auto simp: remove_logger_inv remove_all_inv close_registry_inv
      settings_same register_thread_pool_spec dest: set_global_formatter_same set_global_pattern_same\<close>)


lemma pf_new_any_time:
  assumes "pf_new env now pat e Map.empty = Some pf" and "\<And>k. 0 \<le> now k" and "no_duration pf"
  shows "pf_new env now' pat e Map.empty = Some pf"
proof -
  have "pattern pf = pat" "eol pf = e" "custom_flags pf = Map.empty" using pf_new_items [OF assms(1)] by metis+
  then show ?thesis using pf_clone_same [OF assms, of pf now'] by (simp add: pf_clone_def)
qed

text \<open>\<open>initialize_logger\<close> as the settings it makes and the registration after them.\<close>

lemma initialize_logger_settings:
  assumes i: "initialize_logger env l s = Some (e, s')"
    and new: "pf_new (fenv env) now (global_pattern (reg s)) DEFAULT_EOL Map.empty = Some pf"
    and now: "\<And>k. 0 \<le> now k" and nd: "no_duration pf"
  shows "\<exists>s4. reg s4 = reg s \<and> lg_name (logger_at s4 l) = lg_name (logger_at s l) \<and>
    (e, s') = (if auto_register_logger (reg s) then register_logger_locked l s4 else (None, s4)) \<and>
    lg_sinks (logger_at s4 l) = lg_sinks (logger_at s l) \<and> lg_pattern (logger_at s4 l) = global_pattern (reg s) \<and>
    log_level (logger_at s4 l) = global_log_level (reg s) \<and> flush_level (logger_at s4 l) = global_flush_level (reg s) \<and>
    (\<forall>k. k \<noteq> l \<longrightarrow> logger_at s4 k = logger_at s k) \<and>
    (\<forall>i \<in> set (lg_sinks (logger_at s l)). formatter (sink_at (store s4) i) = pf)"
proof -
  obtain g s1 h2 where s1: "clone_global env s = Some (g, s1)"
    and s2: "logger_set_formatter env (logger_at s1 l) g (store s1) = Some h2"
    and r: "do { s \<leftarrow> lib_set_pattern env l (global_pattern (reg s1)) (s1\<lparr>store := h2\<rparr>);
          let s = upd_logger l (set_log_level (global_log_level (reg s))) s;
          let s = upd_logger l (set_flush_level (global_flush_level (reg s))) s;
          if auto_register_logger (reg s) then Some (register_logger_locked l s) else Some (None, s) } = Some (e, s')"
    using i by (auto simp: initialize_logger_def lib_set_formatter_def split: Option.bind_splits)
  have same: "reg s1 = reg s" "logger_at s1 = logger_at s"
    using s1 by (auto simp: clone_global_def split: Option.bind_splits)
  let ?lg = "logger_at s l" and ?pat = "global_pattern (reg s)"
  obtain h3 where h3: "logger_set_pattern env ?lg ?pat h2 = Some (?lg\<lparr>lg_pattern := ?pat\<rparr>, h3)"
    and f: "\<And>i. i \<in> set (lg_sinks ?lg) \<Longrightarrow> formatter (sink_at h3 i) = pf"
    using set_formatters_same [OF new now nd, of "lg_sinks ?lg" "h2\<lparr>io := (io h2)\<lparr>ticks := ticks (io h2) + length ?pat\<rparr>\<rparr>"]
      pf_new_any_time [OF new now nd]
    by (auto simp: logger_set_pattern_def make_formatter_def logger_set_formatter_def sink_set_formatter_def)
  show ?thesis
    using r h3 f
    by (intro exI [of _ "upd_logger l (\<lambda>_. set_flush_level (global_flush_level (reg s)) (set_log_level (global_log_level (reg s))
          (?lg\<lparr>lg_pattern := ?pat\<rparr>))) (s1\<lparr>store := h3\<rparr>)"])
      (auto simp: lib_set_pattern_def same upd_logger_def set_log_level_def set_flush_level_def Let_def split: if_splits)
qed

lemma reg_reach_inv:
  assumes "reg_reach order env h F s" and "\<And>ks. set (order ks) = set ks"
  shows "reg_inv F s"
  using assms(1)
proof (induction rule: reg_reach.induct)
  case start
  show ?case by (rule registry_init_inv)
next
  case (call F s c e s')
  have "reg_inv (F \<union> foreign c s) s" using call.IH by (rule reg_inv_mono) simp
  then show ?case using api_call_inv [OF _ handed_over_ok [OF call.hyps(2)] assms(2) call.hyps(3)] by blast
qed

section \<open>Properties\<close>

text \<open>
  C30: whatever calls a program makes on the library, in any order and however they end, every
  registered logger is registered under its own name and once, the default logger is registered,
  and every registered asynchronous logger uses the registered thread pool, so its pool is alive; the only exceptions are the loggers in \<open>F\<close>,
  which the program itself handed over (to \<open>register_logger\<close>, \<open>initialize_logger\<close> or \<open>set_default_logger\<close>) while they used another
  pool. All that is assumed of the calls is that the loggers handed over exist.
\<close>

theorem registry_invariant:
  assumes "reg_reach order env h F s" and "\<And>ks. set (order ks) = set ks"
  shows "distinct (map fst (loggers (reg s))) \<and>
     (\<forall>(n, l) \<in> set (loggers (reg s)). lg_name (logger_at s l) = n \<and> l < next_logger s \<and>
        (is_async (logger_at s l) \<and> l \<notin> F \<longrightarrow> reg_thread_pool (reg s) \<noteq> None \<and> pool_of s l = reg_thread_pool (reg s))) \<and>
     (\<forall>d. default_logger (reg s) = Some d \<longrightarrow> map_of (loggers (reg s)) (lg_name (logger_at s d)) = Some d)"
  using reg_reach_inv [OF assms] unfolding reg_inv_def entry_ok_def .

text \<open>
  Registering a thread pool removes from the registry exactly the asynchronous
  loggers, whichever order the map is walked in, and drops the default logger when it is one of them;
  then logging through the default logger dereferences a null pointer.
\<close>

theorem register_thread_pool_swaps:
  assumes "reg_reach order env h F s" and "\<And>ks. set (order ks) = set ks"
  shows "let s' = register_thread_pool order p s in
    get_thread_pool s' = p \<and>
    (\<forall>n l. get_logger n s' = Some l \<longleftrightarrow> get_logger n s = Some l \<and> \<not> is_async (logger_at s l)) \<and>
    (\<forall>d. get_default_logger s = Some d \<longrightarrow>
       get_default_logger s' = (if is_async (logger_at s d) then None else Some d) \<and>
       (is_async (logger_at s d) \<longrightarrow> default_log env slog t sl lv f s' = None))"
proof -
  have inv: "reg_inv F s"
    by (rule reg_reach_inv [OF assms])
  note spec = register_thread_pool_spec [OF inv assms(2), where p = p]
  have "get_default_logger (register_thread_pool order p s) =
      (case get_default_logger s of None \<Rightarrow> None | Some d \<Rightarrow> if is_async (logger_at s d) then None else Some d)"
    by (auto simp: get_default_logger_def register_thread_pool_def remove_async_loggers_def Let_def split: option.split)
  then show ?thesis
    using spec(2,6) by (auto simp: Let_def get_thread_pool_def default_log_def split: option.splits if_splits)
qed

text \<open>
  \<open>initialize_logger\<close> gives a logger the global levels and makes all of its sinks print
  with the global pattern, whatever the global formatter is; then it registers it, unless that is
  switched off, or fails and leaves the map alone when the name is taken.
\<close>

theorem new_logger_follows_globals:
  assumes "initialize_logger env l s = Some (e, s')"
    and "pf_new (fenv env) now (global_pattern (reg s)) DEFAULT_EOL Map.empty = Some pf"
    and "\<And>k. 0 \<le> now k" and "no_duration pf"
  shows "let lg = logger_at s' l; n = lg_name (logger_at s l);
      new = auto_register_logger (reg s) \<and> get_logger n s = None in
    lg_name lg = n \<and> lg_sinks lg = lg_sinks (logger_at s l) \<and>
    log_level lg = global_log_level (reg s) \<and> flush_level lg = global_flush_level (reg s) \<and>
    lg_pattern lg = global_pattern (reg s) \<and> (\<forall>i \<in> set (lg_sinks lg). formatter (sink_at (store s') i) = pf) \<and>
    (\<forall>k. k \<noteq> l \<longrightarrow> logger_at s' k = logger_at s k) \<and>
    (\<forall>k. get_logger k s' = (if new \<and> k = n then Some l else get_logger k s)) \<and>
    e = (if auto_register_logger (reg s) \<and> get_logger n s \<noteq> None then Some (excpt_exists n) else None)"
proof -
  obtain s4 where s4: "reg s4 = reg s" "lg_name (logger_at s4 l) = lg_name (logger_at s l)"
    and s': "(e, s') = (if auto_register_logger (reg s) then register_logger_locked l s4 else (None, s4))"
    and rest: "lg_sinks (logger_at s4 l) = lg_sinks (logger_at s l)" "lg_pattern (logger_at s4 l) = global_pattern (reg s)"
      "log_level (logger_at s4 l) = global_log_level (reg s)" "flush_level (logger_at s4 l) = global_flush_level (reg s)"
      "\<forall>k. k \<noteq> l \<longrightarrow> logger_at s4 k = logger_at s k"
      "\<forall>i \<in> set (lg_sinks (logger_at s l)). formatter (sink_at (store s4) i) = pf"
    using initialize_logger_settings [OF assms] by blast
  have "logger_at s' = logger_at s4 \<and> store s' = store s4"
    using s' by (auto simp: register_logger_locked_def Let_def split: if_splits)
  then show ?thesis
    using s' s4 rest
    by (auto simp: register_logger_locked_def get_logger_def Let_def update_conv split: if_splits)
qed


section \<open>Witnesses\<close>

text \<open>A thread pool is made, then an asynchronous logger on it, which becomes the default logger.\<close>

definition sample_init :: "unit lib" where
  "sample_init = registry_init sample_sys sample_heap"

definition sample_pool :: "unit lib" where
  "sample_pool = snd (initialize_thread_pool id Lock 8 1 sample_init)"

definition sample_made :: "unit lib" where
  "sample_made = snd (add_logger (async_logger_new ''net'' [0]) (Some 0) sample_pool)"

definition sample_lib :: "unit lib" where
  "sample_lib = set_default_logger (Some 1) sample_made"

lemmas sample_lib_defs = sample_lib_def sample_made_def sample_pool_def sample_init_def registry_init_def
  initialize_thread_pool_def pool_new_def add_pool_def register_thread_pool_def remove_async_loggers_def
  get_logger_def add_logger_def async_logger_new_def logger_new_def set_default_logger_def upd_reg_def Let_def

lemma sample_made_reach: "reg_reach id sample_sys sample_heap {} sample_made"
proof -
  have "reg_reach id sample_sys sample_heap {} sample_init" unfolding sample_init_def by (rule start)
  then have "reg_reach id sample_sys sample_heap ({} \<union> foreign (Initialize_thread_pool Lock 8 1) sample_init) sample_pool"
    by (rule call [where e = None])
      (simp_all add: sample_pool_def initialize_thread_pool_def pool_new_def add_pool_def call_ok_def)
  then have "reg_reach id sample_sys sample_heap {} sample_pool" by (simp add: foreign_def)
  then have "reg_reach id sample_sys sample_heap ({} \<union> foreign (Make_async_logger ''net'' [0] (Some 0)) sample_pool) sample_made"
    by (rule call [where e = None]) (simp_all add: sample_made_def call_ok_def)
  then show ?thesis by (simp add: foreign_def)
qed

lemma sample_reach: "reg_reach id sample_sys sample_heap {} sample_lib"
proof -
  have "reg_reach id sample_sys sample_heap ({} \<union> foreign (Set_default_logger (Some 1)) sample_made) sample_lib"
    by (rule call [OF sample_made_reach, where e = None]) (simp_all add: sample_lib_defs call_ok_def)
  moreover have "foreign (Set_default_logger (Some 1)) sample_made = {}" by (simp add: foreign_def sample_lib_defs)
  ultimately show ?thesis by simp
qed

text \<open>An asynchronous logger of a pool that has been replaced is registered all the same.\<close>

definition sample_swapped :: "unit lib" where
  "sample_swapped = snd (initialize_thread_pool id Lock 8 1 sample_made)"

definition sample_far :: "unit lib" where
  "sample_far = snd (register_logger_locked 1 sample_swapped)"

lemma sample_far_reach: "reg_reach id sample_sys sample_heap {1} sample_far"
proof -
  have "reg_reach id sample_sys sample_heap ({} \<union> foreign (Initialize_thread_pool Lock 8 1) sample_made) sample_swapped"
    by (rule call [OF sample_made_reach, where e = None]) (simp_all add: call_ok_def sample_swapped_def sample_lib_defs)
  then have "reg_reach id sample_sys sample_heap {} sample_swapped" by (simp add: foreign_def)
  then have "reg_reach id sample_sys sample_heap ({} \<union> foreign (Register_logger 1) sample_swapped) sample_far"
    by (rule call [where e = None])
      (simp_all add: call_ok_def sample_far_def sample_swapped_def register_logger_def register_logger_locked_def caught_lib_def caught_def sample_lib_defs)
  then show ?thesis by (simp add: foreign_def) (simp add: sample_swapped_def sample_lib_defs)
qed

theorem registry_invariant_witness:
  "distinct (map fst (loggers (reg sample_far))) \<and> get_logger ''net'' sample_far = Some 1 \<and> pool_of sample_far 1 = Some 0 \<and>
    get_thread_pool sample_far = Some 1"
  using registry_invariant [OF sample_far_reach]
  by (simp add: sample_far_def sample_swapped_def register_logger_locked_def get_thread_pool_def sample_lib_defs)

theorem register_thread_pool_swaps_witness:
  "let s' = register_thread_pool id None sample_lib in
     get_logger ''net'' s' = None \<and> get_logger ''default_logger'' s' = Some 0 \<and> get_default_logger s' = None \<and>
     default_log sample_sys (\<lambda>_ m h. None) 7 source_loc_default Info (Inr ''hi'') s' = None"
proof -
  have l: "get_logger ''net'' sample_lib = Some 1" "get_logger ''default_logger'' sample_lib = Some 0"
    "get_default_logger sample_lib = Some 1" "is_async (logger_at sample_lib 1)" "\<not> is_async (logger_at sample_lib 0)"
    by (simp_all add: sample_lib_defs get_default_logger_def)
  show ?thesis
    using register_thread_pool_swaps [OF sample_reach, where p = None and slog = "\<lambda>_ m h. None"
        and t = 7 and sl = source_loc_default and lv = Info and f = "Inr ''hi''"] l
    by (auto simp: Let_def) (metis not_None_eq option.inject)
qed

theorem new_logger_follows_globals_witness:
  "\<exists>e s'. initialize_logger sample_sys 1
       (upd_reg (\<lambda>r. r\<lparr>global_formatter := sample_pf, global_pattern := ''<%4n>'', global_log_level := Warn\<rparr>) sample_made) =
       Some (e, s') \<and> e = None \<and> get_logger ''net'' s' = Some 1 \<and> log_level (logger_at s' 1) = Warn \<and>
       formatter (sink_at (store s') 0) = sample_pf"
proof -
  let ?s = "upd_reg (\<lambda>r. r\<lparr>global_formatter := sample_pf, global_pattern := ''<%4n>'', global_log_level := Warn\<rparr>) sample_made"
  have new: "pf_new (fenv sample_sys) now ''<%4n>'' DEFAULT_EOL Map.empty = Some sample_pf" for now
    using sample_pf_new by (simp add: DEFAULT_EOL_def)
  have clone: "pf_clone (fenv sample_sys) now sample_pf = Some sample_pf" for now
    using new [of now] by (simp add: pf_clone_def sample_pf_def DEFAULT_EOL_def)
  have "\<exists>e s'. initialize_logger sample_sys 1 ?s = Some (e, s')"
    using new clone
    by (simp add: initialize_logger_def clone_global_def clone_formatter_def lib_set_formatter_def lib_set_pattern_def
        logger_set_formatter_def logger_set_pattern_def make_formatter_def sample_lib_defs)
  then obtain e s' where i: "initialize_logger sample_sys 1 ?s = Some (e, s')" by blast
  show ?thesis
    using new_logger_follows_globals [OF i, of "\<lambda>_. 0" sample_pf] new sample_printable(1) i
    by (auto simp: sample_lib_defs)
qed

end
