(* ===== verification/Block_Queue.thy ===== *)
theory Block_Queue
  imports Circular_Queue
begin

text \<open>
  \<^verbatim>\<open>base/block_queue.h\<close>: the blocking queue that several producers and consumers share. The
  sections that hold \<open>queue_mutex_\<close> are single steps; a thread's program counter says where it is
  between them: about to lock, blocked on a condition variable, or about to notify. A blocked
  thread may also wake up spuriously or by its timeout. The two versions of the code, which
  notify after the lock is released or (MinGW) while it is held, are one relation with a flag:
  with the flag set the mutex stays owned until the notification is done.
\<close>

section \<open>State\<close>

text \<open>
  \<open>Enqueue x\<close> is a producer about to lock and test \<open>full()\<close>, \<open>Wait_pop_cv x\<close> one blocked in
  \<open>pop_cv_.wait\<close>; \<open>Dequeue_last\<close> is a \<open>dequeue_for\<close> whose time is over, about to test a last time.
\<close>

datatype 'a pc = Idle
  | Try_enqueue 'a | Discarding
  | Enqueue 'a | Wait_pop_cv 'a | Enqueue_nowait 'a | Notify_push
  | Dequeue | Wait_push_cv | Dequeue_for | Wait_push_cv_for | Dequeue_last | Notify_pop

record 'a block_queue =
  ring :: "'a circular_queue"
  discard_count :: size_t
  owner :: "nat option"
  pcs :: "'a pc list"

datatype 'a bq_event = Pushed 'a | Popped 'a | Overridden 'a | Discarded | Timed_out

definition at_pc :: "'a block_queue \<Rightarrow> nat \<Rightarrow> 'a pc \<Rightarrow> bool" where
  "at_pc s t p \<longleftrightarrow> t < length (pcs s) \<and> pcs s ! t = p"

definition set_pc :: "nat \<Rightarrow> 'a pc \<Rightarrow> 'a block_queue \<Rightarrow> 'a block_queue" where
  "set_pc t p s = s\<lparr>pcs := (pcs s)[t := p]\<rparr>"

section \<open>Operations without blocking\<close>

definition bq_new :: "'a \<Rightarrow> size_t \<Rightarrow> nat \<Rightarrow> queue_error + 'a block_queue" where
  "bq_new d max_items nthreads =
     (case cq_new d max_items of
        Inl e \<Rightarrow> Inl e
      | Inr q \<Rightarrow> Inr \<lparr>ring = q, discard_count = 0, owner = None, pcs = replicate nthreads Idle\<rparr>)"

definition bq_size :: "'a block_queue \<Rightarrow> size_t option" where
  "bq_size s = cq_size (ring s)"

definition bq_get_override_count :: "'a block_queue \<Rightarrow> size_t" where
  "bq_get_override_count s = cq_override_count (ring s)"

definition bq_reset_override_count :: "'a block_queue \<Rightarrow> 'a block_queue" where
  "bq_reset_override_count s = s\<lparr>ring := cq_reset_override_count (ring s)\<rparr>"

definition bq_get_discard_count :: "'a block_queue \<Rightarrow> size_t" where
  "bq_get_discard_count s = discard_count s"

definition bq_reset_discard_count :: "'a block_queue \<Rightarrow> 'a block_queue" where
  "bq_reset_discard_count s = s\<lparr>discard_count := 0\<rparr>"

section \<open>Steps\<close>

text \<open>What happens to the mutex at the end of a locked section, and at the end of a call.\<close>

definition keep_lock :: "bool \<Rightarrow> nat \<Rightarrow> 'a block_queue \<Rightarrow> 'a block_queue" where
  "keep_lock mingw t s = s\<lparr>owner := if mingw then Some t else None\<rparr>"

definition release :: "bool \<Rightarrow> 'a block_queue \<Rightarrow> 'a block_queue" where
  "release mingw s = s\<lparr>owner := if mingw then None else owner s\<rparr>"

definition do_push :: "bool \<Rightarrow> nat \<Rightarrow> 'a \<Rightarrow> 'a block_queue \<Rightarrow> 'a block_queue" where
  "do_push mingw t x s = set_pc t Notify_push (keep_lock mingw t (s\<lparr>ring := cq_push_back x (ring s)\<rparr>))"

definition do_pop :: "bool \<Rightarrow> nat \<Rightarrow> 'a block_queue \<Rightarrow> 'a block_queue" where
  "do_pop mingw t s = set_pc t Notify_pop (keep_lock mingw t (s\<lparr>ring := cq_pop_front (ring s)\<rparr>))"

text \<open>An element that a push into a full ring throws away: the oldest, or itself without room at all.\<close>

definition push_events :: "'a \<Rightarrow> 'a circular_queue \<Rightarrow> 'a bq_event list" where
  "push_events x q =
     Pushed x # (if cq_full q then [Overridden (hd (cq_list q @ [x]))] else [])"

fun consumer_wait :: "'a pc \<Rightarrow> bool" where
  "consumer_wait Wait_push_cv \<longleftrightarrow> True"
| "consumer_wait Wait_push_cv_for \<longleftrightarrow> True"
| "consumer_wait _ \<longleftrightarrow> False"

fun producer_wait :: "'a pc \<Rightarrow> bool" where
  "producer_wait (Wait_pop_cv x) \<longleftrightarrow> True"
| "producer_wait _ \<longleftrightarrow> False"

text \<open>A notified thread goes back to lock the mutex and to test its condition again.\<close>

fun woken :: "'a pc \<Rightarrow> 'a pc" where
  "woken Wait_push_cv = Dequeue"
| "woken Wait_push_cv_for = Dequeue_for"
| "woken (Wait_pop_cv x) = Enqueue x"
| "woken p = p"

text \<open>The steps of the code. The second argument of the relation lists what happened.\<close>

inductive bq_step :: "bool \<Rightarrow> 'a block_queue \<Rightarrow> 'a bq_event list \<Rightarrow> 'a block_queue \<Rightarrow> bool"
  for mingw :: bool where
  try_push: "at_pc s t (Try_enqueue x) \<Longrightarrow> owner s = None \<Longrightarrow> \<not> cq_full (ring s) \<Longrightarrow>
     bq_step mingw s [Pushed x] (do_push mingw t x s)"
| try_discard: "at_pc s t (Try_enqueue x) \<Longrightarrow> owner s = None \<Longrightarrow> cq_full (ring s) \<Longrightarrow>
     bq_step mingw s [] (set_pc t Discarding (keep_lock mingw t s))"
| discard: "at_pc s t Discarding \<Longrightarrow>
     bq_step mingw s [Discarded] (set_pc t Idle (release mingw (s\<lparr>discard_count := discard_count s + 1\<rparr>)))"
| enqueue_push: "at_pc s t (Enqueue x) \<Longrightarrow> owner s = None \<Longrightarrow> \<not> cq_full (ring s) \<Longrightarrow>
     bq_step mingw s [Pushed x] (do_push mingw t x s)"
| enqueue_wait: "at_pc s t (Enqueue x) \<Longrightarrow> owner s = None \<Longrightarrow> cq_full (ring s) \<Longrightarrow>
     bq_step mingw s [] (set_pc t (Wait_pop_cv x) s)"
| nowait_push: "at_pc s t (Enqueue_nowait x) \<Longrightarrow> owner s = None \<Longrightarrow>
     bq_step mingw s (push_events x (ring s)) (do_push mingw t x s)"
| notify_push: "at_pc s t Notify_push \<Longrightarrow> at_pc s w p \<Longrightarrow> consumer_wait p \<Longrightarrow>
     bq_step mingw s [] (set_pc w (woken p) (set_pc t Idle (release mingw s)))"
| notify_push_none: "at_pc s t Notify_push \<Longrightarrow> \<forall>p \<in> set (pcs s). \<not> consumer_wait p \<Longrightarrow>
     bq_step mingw s [] (set_pc t Idle (release mingw s))"
| dequeue_pop: "at_pc s t p \<Longrightarrow> p \<in> {Dequeue, Dequeue_for, Dequeue_last} \<Longrightarrow> owner s = None \<Longrightarrow>
     \<not> cq_empty (ring s) \<Longrightarrow> cq_front (ring s) = Some x \<Longrightarrow>
     bq_step mingw s [Popped x] (do_pop mingw t s)"
| dequeue_wait: "at_pc s t Dequeue \<Longrightarrow> owner s = None \<Longrightarrow> cq_empty (ring s) \<Longrightarrow>
     bq_step mingw s [] (set_pc t Wait_push_cv s)"
| dequeue_for_wait: "at_pc s t Dequeue_for \<Longrightarrow> owner s = None \<Longrightarrow> cq_empty (ring s) \<Longrightarrow>
     bq_step mingw s [] (set_pc t Wait_push_cv_for s)"
| dequeue_for_fail: "at_pc s t Dequeue_last \<Longrightarrow> owner s = None \<Longrightarrow> cq_empty (ring s) \<Longrightarrow>
     bq_step mingw s [Timed_out] (set_pc t Idle s)"
| notify_pop: "at_pc s t Notify_pop \<Longrightarrow> at_pc s w p \<Longrightarrow> producer_wait p \<Longrightarrow>
     bq_step mingw s [] (set_pc w (woken p) (set_pc t Idle (release mingw s)))"
| notify_pop_none: "at_pc s t Notify_pop \<Longrightarrow> \<forall>p \<in> set (pcs s). \<not> producer_wait p \<Longrightarrow>
     bq_step mingw s [] (set_pc t Idle (release mingw s))"

text \<open>What the environment does: new calls, spurious wake-ups and time-outs.\<close>

inductive bq_env :: "'a block_queue \<Rightarrow> 'a block_queue \<Rightarrow> bool" where
  call: "at_pc s t Idle \<Longrightarrow>
     p \<in> {Try_enqueue x, Enqueue x, Enqueue_nowait x, Dequeue, Dequeue_for} \<Longrightarrow> bq_env s (set_pc t p s)"
| spurious: "at_pc s w p \<Longrightarrow> consumer_wait p \<or> producer_wait p \<Longrightarrow> bq_env s (set_pc w (woken p) s)"
| timeout: "at_pc s w Wait_push_cv_for \<Longrightarrow> bq_env s (set_pc w Dequeue_last s)"

inductive bq_run :: "bool \<Rightarrow> 'a block_queue \<Rightarrow> 'a bq_event list \<Rightarrow> 'a block_queue \<Rightarrow> bool"
  for mingw :: bool and s0 :: "'a block_queue" where
  start: "bq_run mingw s0 [] s0"
| code: "bq_run mingw s0 es s \<Longrightarrow> bq_step mingw s es' s' \<Longrightarrow> bq_run mingw s0 (es @ es') s'"
| env: "bq_run mingw s0 es s \<Longrightarrow> bq_env s s' \<Longrightarrow> bq_run mingw s0 es s'"

section \<open>Counting threads\<close>

definition num :: "('a pc \<Rightarrow> bool) \<Rightarrow> 'a block_queue \<Rightarrow> nat" where
  "num P s = length (filter P (pcs s))"

lemma num_set_pc:
  assumes "at_pc s t p"
  shows "num P (set_pc t p' s) + (if P p then 1 else 0) = num P s + (if P p' then 1 else 0)"
proof -
  have t: "t < length (pcs s)" and p: "pcs s ! t = p" using assms by (auto simp: at_pc_def)
  have "filter P (pcs s) = filter P (take t (pcs s) @ p # drop (Suc t) (pcs s))"
    using id_take_nth_drop [OF t] p by simp
  then show ?thesis
    using t by (simp add: num_def set_pc_def upd_conv_take_nth_drop)
qed

lemma num_pos: "at_pc s t p \<Longrightarrow> P p \<Longrightarrow> 0 < num P s"
  by (auto simp: num_def at_pc_def filter_empty_conv dest: nth_mem)

lemma num_0_iff: "num P s = 0 \<longleftrightarrow> (\<forall>p \<in> set (pcs s). \<not> P p)"
  by (simp add: num_def filter_empty_conv)

lemma num_set_pc_less:
  "at_pc s t p \<Longrightarrow> P p \<Longrightarrow> \<not> P p' \<Longrightarrow> num P (set_pc t p' s) < num P s"
  using num_set_pc [of s t p P p'] by simp

lemma num_set_pc_same:
  "at_pc s t p \<Longrightarrow> P p = P p' \<Longrightarrow> num P (set_pc t p' s) = num P s"
  using num_set_pc [of s t p P p'] by simp

lemma at_pc_set_pc [simp]:
  "at_pc (set_pc t p s) t' p' \<longleftrightarrow> (if t' = t then t < length (pcs s) \<and> p' = p else at_pc s t' p')"
  by (auto simp: at_pc_def set_pc_def nth_list_update)

lemma set_pc_fields [simp]:
  "ring (set_pc t p s) = ring s" "owner (set_pc t p s) = owner s"
  "discard_count (set_pc t p s) = discard_count s" "length (pcs (set_pc t p s)) = length (pcs s)"
  by (simp_all add: set_pc_def)

lemma num_fields [simp]:
  "num P (keep_lock mingw t s) = num P s" "num P (release mingw s) = num P s"
  "num P (s\<lparr>ring := q\<rparr>) = num P s" "num P (s\<lparr>discard_count := n\<rparr>) = num P s"
  "num P (set_pc u p (keep_lock mingw t s)) = num P (set_pc u p s)"
  "num P (set_pc u p (release mingw s)) = num P (set_pc u p s)"
  "num P (set_pc u p (s\<lparr>discard_count := n\<rparr>)) = num P (set_pc u p s)"
  by (simp_all add: num_def keep_lock_def release_def set_pc_def)

lemma at_pc_fields [simp]:
  "at_pc (keep_lock mingw t s) = at_pc s" "at_pc (release mingw s) = at_pc s"
  "at_pc (s\<lparr>ring := q\<rparr>) = at_pc s" "at_pc (s\<lparr>discard_count := n\<rparr>) = at_pc s"
  by (simp_all add: at_pc_def keep_lock_def release_def fun_eq_iff)

lemma lock_fields [simp]:
  "ring (keep_lock mingw t s) = ring s" "ring (release mingw s) = ring s"
  "discard_count (keep_lock mingw t s) = discard_count s"
  "discard_count (release mingw s) = discard_count s"
  "owner (keep_lock mingw t s) = (if mingw then Some t else None)"
  "owner (release mingw s) = (if mingw then None else owner s)"
  "pcs (keep_lock mingw t s) = pcs s" "pcs (release mingw s) = pcs s"
  by (simp_all add: keep_lock_def release_def)

fun awake_consumer :: "'a pc \<Rightarrow> bool" where
  "awake_consumer Dequeue \<longleftrightarrow> True"
| "awake_consumer Dequeue_for \<longleftrightarrow> True"
| "awake_consumer Dequeue_last \<longleftrightarrow> True"
| "awake_consumer _ \<longleftrightarrow> False"

fun awake_producer :: "'a pc \<Rightarrow> bool" where
  "awake_producer (Enqueue x) \<longleftrightarrow> True"
| "awake_producer _ \<longleftrightarrow> False"

fun notifying :: "'a pc \<Rightarrow> bool" where
  "notifying Notify_push \<longleftrightarrow> True"
| "notifying Notify_pop \<longleftrightarrow> True"
| "notifying Discarding \<longleftrightarrow> True"
| "notifying _ \<longleftrightarrow> False"

section \<open>Invariant\<close>

text \<open>
  While a consumer is blocked, every element in the ring has a pending notification or an awake
  consumer of its own; while a producer is blocked, so has every free place.
\<close>

definition no_lost_push :: "'a block_queue \<Rightarrow> bool" where
  "no_lost_push s \<longleftrightarrow>
     (num consumer_wait s = 0 \<or>
      cq_len (ring s) \<le> num (\<lambda>p. p = Notify_push) s + num awake_consumer s)"

definition no_lost_pop :: "'a block_queue \<Rightarrow> bool" where
  "no_lost_pop s \<longleftrightarrow>
     (num producer_wait s = 0 \<or>
      cq_capacity (ring s) - cq_len (ring s) \<le> num (\<lambda>p. p = Notify_pop) s + num awake_producer s)"

definition owner_ok :: "bool \<Rightarrow> 'a block_queue \<Rightarrow> bool" where
  "owner_ok mingw s \<longleftrightarrow>
     (case owner s of None \<Rightarrow> True | Some t \<Rightarrow> \<exists>p. at_pc s t p \<and> notifying p)"

definition bq_inv :: "bool \<Rightarrow> nat \<Rightarrow> 'a block_queue \<Rightarrow> bool" where
  "bq_inv mingw c s \<longleftrightarrow>
     cq_invar (ring s) \<and> max_size (ring s) \<noteq> 0 \<and> cq_capacity (ring s) = c \<and>
     no_lost_push s \<and> no_lost_pop s \<and> owner_ok mingw s \<and> (mingw \<or> owner s = None)"

lemma bq_invD:
  assumes "bq_inv mingw c s"
  shows "cq_invar (ring s)" and "max_size (ring s) \<noteq> 0" and "cq_capacity (ring s) = c"
    and "cq_full (ring s) \<longleftrightarrow> cq_len (ring s) = c"
    and "cq_empty (ring s) \<longleftrightarrow> cq_len (ring s) = 0" and "cq_len (ring s) \<le> c"
  using assms cq_full_iff [of "ring s"] cq_empty_iff [of "ring s"] cq_len_le_capacity [of "ring s"]
    length_cq_list [of "ring s"]
  by (auto simp: bq_inv_def simp del: length_cq_list)

lemma cq_len_push:
  "cq_invar q \<Longrightarrow> cq_len (cq_push_back x q) = min (cq_capacity q) (Suc (cq_len q))"
  using cq_push_back_spec(2) [of q x] by (metis length_last_n length_append_singleton length_cq_list)

lemma cq_len_pop:
  "cq_invar q \<Longrightarrow> \<not> cq_empty q \<Longrightarrow> cq_len (cq_pop_front q) = cq_len q - 1"
  using cq_pop_front_spec(2) [of q] by (metis cq_empty_iff length_cq_list length_tl)

text \<open>A thread that is not notifying does not own the mutex, and keeps the owner's place.\<close>

lemma owner_ok_set_pc:
  assumes "owner_ok mingw s" and "at_pc s t p" and "\<not> notifying p"
  shows "owner_ok mingw (set_pc t p' s)"
  using assms by (auto simp: owner_ok_def at_pc_def set_pc_def nth_list_update split: option.splits)

lemma do_push_inv:
  assumes inv: "bq_inv mingw c s" and t: "at_pc s t p" and own: "owner s = None"
    and p: "p \<in> {Try_enqueue x, Enqueue x, Enqueue_nowait x}"
    and room: "p = Enqueue_nowait x \<or> \<not> cq_full (ring s)"
  shows "bq_inv mingw c (do_push mingw t x s)"
proof -
  note D = bq_invD [OF inv]
  let ?s = "do_push mingw t x s"
  have num: "num P ?s + (if P p then 1 else 0) = num P s + (if P Notify_push then 1 else 0)" for P
    using num_set_pc [of "keep_lock mingw t (s\<lparr>ring := cq_push_back x (ring s)\<rparr>)" t p P Notify_push] t
    by (simp add: do_push_def)
  have ring: "ring ?s = cq_push_back x (ring s)" by (simp add: do_push_def)
  have len: "cq_len (ring ?s) = min c (Suc (cq_len (ring s)))"
    using D by (simp add: ring cq_len_push)
  have "no_lost_push ?s"
    using inv num [of consumer_wait] num [of "\<lambda>p. p = Notify_push"] num [of awake_consumer] p len
    by (auto simp: bq_inv_def no_lost_push_def)
  moreover have "no_lost_pop ?s"
    using inv num [of producer_wait] num [of "\<lambda>p. p = Notify_pop"] num [of awake_producer] p len room D
    by (auto simp: bq_inv_def no_lost_pop_def ring cq_push_back_spec)
  moreover have "owner_ok mingw ?s"
    using t by (auto simp: owner_ok_def do_push_def at_pc_def set_pc_def)
  ultimately show ?thesis
    using D by (simp add: bq_inv_def ring cq_push_back_spec) (simp add: do_push_def)
qed

lemma do_pop_inv:
  assumes inv: "bq_inv mingw c s" and t: "at_pc s t p" and own: "owner s = None"
    and p: "p \<in> {Dequeue, Dequeue_for, Dequeue_last}" and ne: "\<not> cq_empty (ring s)"
  shows "bq_inv mingw c (do_pop mingw t s)"
proof -
  note D = bq_invD [OF inv]
  let ?s = "do_pop mingw t s"
  have num: "num P ?s + (if P p then 1 else 0) = num P s + (if P Notify_pop then 1 else 0)" for P
    using num_set_pc [of "keep_lock mingw t (s\<lparr>ring := cq_pop_front (ring s)\<rparr>)" t p P Notify_pop] t
    by (simp add: do_pop_def)
  have ring: "ring ?s = cq_pop_front (ring s)" by (simp add: do_pop_def)
  have len: "Suc (cq_len (ring ?s)) = cq_len (ring s)"
    using D ne by (simp add: ring cq_len_pop)
  have list: "cq_list (ring s) \<noteq> []" using D ne by (simp add: cq_empty_iff)
  have "no_lost_push ?s"
    using inv num [of consumer_wait] num [of "\<lambda>p. p = Notify_push"] num [of awake_consumer] p len
    by (auto simp: bq_inv_def no_lost_push_def)
  moreover have "no_lost_pop ?s"
    using inv num [of producer_wait] num [of "\<lambda>p. p = Notify_pop"] num [of awake_producer] p len
    by (auto simp: bq_inv_def no_lost_pop_def ring)
  moreover have "owner_ok mingw ?s"
    using t by (auto simp: owner_ok_def do_pop_def at_pc_def set_pc_def)
  ultimately show ?thesis
    using D list by (simp add: bq_inv_def ring cq_pop_front_spec) (simp add: do_pop_def)
qed

text \<open>A thread that changes its place without touching the ring.\<close>

lemma move_inv:
  assumes inv: "bq_inv mingw c s" and t: "at_pc s t p"
    and ring: "ring s' = ring s" and pcs: "\<And>P. num P s' = num P (set_pc t p' s)"
    and own: "owner_ok mingw s'" "mingw \<or> owner s' = None"
    and push: "consumer_wait p' \<Longrightarrow> cq_empty (ring s)"
    and pop: "producer_wait p' \<Longrightarrow> cq_full (ring s)"
    and keep: "awake_consumer p \<Longrightarrow> awake_consumer p' \<or> cq_empty (ring s)"
      "awake_producer p \<Longrightarrow> awake_producer p' \<or> cq_full (ring s)"
      "p = Notify_push \<Longrightarrow> p' = Notify_push \<or> num consumer_wait s = 0 \<and> \<not> consumer_wait p'"
      "p = Notify_pop \<Longrightarrow> p' = Notify_pop \<or> num producer_wait s = 0 \<and> \<not> producer_wait p'"
  shows "bq_inv mingw c s'"
proof -
  note D = bq_invD [OF inv]
  have num: "num P s' + (if P p then 1 else 0) = num P s + (if P p' then 1 else 0)" for P
    using num_set_pc [OF t] pcs by simp
  have "no_lost_push s'"
    using inv num [of consumer_wait] num [of "\<lambda>p. p = Notify_push"] num [of awake_consumer] push keep D
    by (auto simp: bq_inv_def no_lost_push_def ring split: if_splits)
  moreover have "no_lost_pop s'"
    using inv num [of producer_wait] num [of "\<lambda>p. p = Notify_pop"] num [of awake_producer] pop keep D
    by (auto simp: bq_inv_def no_lost_pop_def ring split: if_splits)
  ultimately show ?thesis using D own by (simp add: bq_inv_def ring)
qed

text \<open>A notification that wakes a thread: the notifier is done, the other is awake.\<close>

lemma wake_num:
  assumes "at_pc s t n" and "at_pc s w p" and "n \<noteq> p"
  shows "num P (set_pc w p' (set_pc t Idle s)) + (if P n then 1 else 0) + (if P p then 1 else 0) =
         num P s + (if P Idle then 1 else 0) + (if P p' then 1 else 0)"
proof -
  have "w \<noteq> t" using assms by (auto simp: at_pc_def)
  then have "at_pc (set_pc t Idle s) w p" using assms by simp
  then show ?thesis
    using num_set_pc [of "set_pc t Idle s" w p P p'] num_set_pc [OF assms(1), of P Idle] by linarith
qed

lemma notify_inv:
  assumes inv: "bq_inv mingw c s" and t: "at_pc s t n" and w: "at_pc s w p"
    and n: "n = Notify_push \<and> consumer_wait p \<or> n = Notify_pop \<and> producer_wait p"
  shows "bq_inv mingw c (set_pc w (woken p) (set_pc t Idle (release mingw s)))"
proof -
  note D = bq_invD [OF inv]
  let ?s = "set_pc w (woken p) (set_pc t Idle (release mingw s))"
  have np: "n \<noteq> p" using n by auto
  have num: "num P ?s + (if P n then 1 else 0) + (if P p then 1 else 0) =
      num P s + (if P Idle then 1 else 0) + (if P (woken p) then 1 else 0)" for P
    using wake_num [of "release mingw s" t n w p P "woken p"] t w np by simp
  have kinds: "consumer_wait p \<Longrightarrow> awake_consumer (woken p) \<and> \<not> producer_wait p \<and> \<not> awake_consumer p
      \<and> \<not> consumer_wait (woken p) \<and> \<not> producer_wait (woken p) \<and> p \<noteq> Notify_push
      \<and> p \<noteq> Notify_pop \<and> \<not> awake_producer p"
    "producer_wait p \<Longrightarrow> awake_producer (woken p) \<and> \<not> consumer_wait p \<and> \<not> awake_producer p
      \<and> \<not> consumer_wait (woken p) \<and> \<not> producer_wait (woken p) \<and> p \<noteq> Notify_push
      \<and> p \<noteq> Notify_pop \<and> \<not> awake_consumer p" for p :: "'a pc"
    by (cases p; simp)+
  have "no_lost_push ?s"
    using inv num [of consumer_wait] num [of "\<lambda>p. p = Notify_push"] num [of awake_consumer] n kinds [of p]
    by (auto simp: bq_inv_def no_lost_push_def)
  moreover have "no_lost_pop ?s"
    using inv num [of producer_wait] num [of "\<lambda>p. p = Notify_pop"] num [of awake_producer] n kinds [of p]
    by (auto simp: bq_inv_def no_lost_pop_def)
  moreover have "mingw \<or> owner s = None" using inv by (simp add: bq_inv_def)
  ultimately show ?thesis using D by (auto simp: bq_inv_def owner_ok_def)
qed

lemma pc_not_notifying:
  "consumer_wait p \<Longrightarrow> \<not> notifying p" "producer_wait p \<Longrightarrow> \<not> notifying p"
  by (cases p; simp)+

lemma bq_step_inv:
  assumes "bq_step mingw s es s'" and inv: "bq_inv mingw c s"
  shows "bq_inv mingw c s'"
proof -
  have own: "owner_ok mingw s" "mingw \<or> owner s = None" using inv by (auto simp: bq_inv_def)
  have rel: "owner_ok mingw (set_pc t Idle (release mingw s))" "mingw \<or> owner (set_pc t Idle (release mingw s)) = None" for t
    using own by (auto simp: owner_ok_def)
  from assms(1) show ?thesis
  proof cases
    case (try_push t x)
    then show ?thesis using do_push_inv [OF inv, of t "Try_enqueue x" x] by simp
  next
    case (try_discard t x)
    have "owner_ok mingw s'"
      using try_discard by (auto simp: owner_ok_def at_pc_def set_pc_def)
    with try_discard show ?thesis
      by (intro move_inv [OF inv, of t "Try_enqueue x" s' Discarding]) simp_all
  next
    case (discard t)
    have "owner_ok mingw s'" using own discard by (auto simp: owner_ok_def)
    with discard own show ?thesis
      by (intro move_inv [OF inv, of t Discarding s' Idle]) auto
  next
    case (enqueue_push t x)
    then show ?thesis using do_push_inv [OF inv, of t "Enqueue x" x] by simp
  next
    case (enqueue_wait t x)
    with own show ?thesis
      by (intro move_inv [OF inv, of t "Enqueue x" s' "Wait_pop_cv x"]) (auto intro: owner_ok_set_pc)
  next
    case (nowait_push t x)
    then show ?thesis using do_push_inv [OF inv, of t "Enqueue_nowait x" x] by simp
  next
    case (notify_push t w p)
    then show ?thesis using notify_inv [OF inv, of t Notify_push w p] by simp
  next
    case (notify_push_none t)
    then have "num consumer_wait s = 0" by (simp add: num_0_iff)
    with notify_push_none rel show ?thesis
      by (intro move_inv [OF inv, of t Notify_push s' Idle])
        (auto simp: num_def set_pc_def)
  next
    case (dequeue_pop t p x)
    then show ?thesis using do_pop_inv [OF inv, of t p] by simp
  next
    case (dequeue_wait t)
    with own show ?thesis
      by (intro move_inv [OF inv, of t Dequeue s' Wait_push_cv]) (auto intro: owner_ok_set_pc)
  next
    case (dequeue_for_wait t)
    with own show ?thesis
      by (intro move_inv [OF inv, of t Dequeue_for s' Wait_push_cv_for]) (auto intro: owner_ok_set_pc)
  next
    case (dequeue_for_fail t)
    with own show ?thesis
      by (intro move_inv [OF inv, of t Dequeue_last s' Idle]) (auto intro: owner_ok_set_pc)
  next
    case (notify_pop t w p)
    then show ?thesis using notify_inv [OF inv, of t Notify_pop w p] by simp
  next
    case (notify_pop_none t)
    then have "num producer_wait s = 0" by (simp add: num_0_iff)
    with notify_pop_none rel show ?thesis
      by (intro move_inv [OF inv, of t Notify_pop s' Idle])
        (auto simp: num_def set_pc_def)
  qed
qed

text \<open>A wake-up without a notification only adds an awake thread.\<close>

lemma wake_inv:
  assumes inv: "bq_inv mingw c s" and w: "at_pc s w p"
    and p: "consumer_wait p \<and> awake_consumer p' \<or> producer_wait p \<and> awake_producer p'"
  shows "bq_inv mingw c (set_pc w p' s)"
proof -
  have own: "owner_ok mingw (set_pc w p' s)"
    using inv w p pc_not_notifying [of p] by (auto simp: bq_inv_def intro: owner_ok_set_pc)
  have kinds: "\<not> (consumer_wait q \<and> awake_producer q')" if "awake_consumer q'" for q q' :: "'a pc"
    using that by (cases q') auto
  have "p \<noteq> Notify_push" "p \<noteq> Notify_pop" "\<not> awake_consumer p" "\<not> awake_producer p"
    "\<not> consumer_wait p'" "\<not> producer_wait p'"
    using p by (cases p; cases p'; simp)+
  then show ?thesis
    using inv own by (intro move_inv [OF inv w, of "set_pc w p' s" p']) (auto simp: bq_inv_def)
qed

lemma bq_env_inv:
  assumes "bq_env s s'" and inv: "bq_inv mingw c s"
  shows "bq_inv mingw c s'"
  using assms(1)
proof cases
  case (call t p x)
  then show ?thesis using inv
    by (intro move_inv [OF inv, of t Idle s' p]) (auto simp: bq_inv_def intro: owner_ok_set_pc)
next
  case (spurious w p)
  then have "consumer_wait p \<and> awake_consumer (woken p) \<or> producer_wait p \<and> awake_producer (woken p)"
    by (cases p) auto
  then show ?thesis using wake_inv [OF inv] spurious by simp
next
  case (timeout w)
  then show ?thesis using wake_inv [OF inv timeout(2), of Dequeue_last] by simp
qed

lemma bq_new_inv:
  assumes "bq_new d n k = Inr s" and "n \<noteq> - 1"
  shows "bq_inv mingw (unat n) s"
proof -
  obtain q where q: "cq_new d n = Inr q" and s: "s = \<lparr>ring = q, discard_count = 0, owner = None, pcs = replicate k Idle\<rparr>"
    using assms(1) by (auto simp: bq_new_def split: sum.splits)
  have "max_size q \<noteq> 0"
    using cq_new_abs [OF q] assms(2) by (auto simp: cq_abs_def split: if_splits)
  then show ?thesis
    using cq_new_invar [OF q] cq_new_capacity [OF q] assms(2)
    by (simp add: bq_inv_def s no_lost_push_def no_lost_pop_def owner_ok_def num_def)
qed

lemma bq_run_inv:
  assumes "bq_run mingw s0 es s" and "bq_inv mingw c s0"
  shows "bq_inv mingw c s"
  using assms by induction (auto intro: bq_step_inv bq_env_inv)

section \<open>Order of the elements\<close>

fun pushed :: "'a bq_event list \<Rightarrow> 'a list" where
  "pushed [] = []"
| "pushed (Pushed x # es) = x # pushed es"
| "pushed (_ # es) = pushed es"

fun removed :: "'a bq_event list \<Rightarrow> 'a list" where
  "removed [] = []"
| "removed (Popped x # es) = x # removed es"
| "removed (Overridden x # es) = x # removed es"
| "removed (_ # es) = removed es"

fun overridden :: "'a bq_event list \<Rightarrow> 'a list" where
  "overridden [] = []"
| "overridden (Overridden x # es) = x # overridden es"
| "overridden (_ # es) = overridden es"

fun discards :: "'a bq_event list \<Rightarrow> nat" where
  "discards [] = 0"
| "discards (Discarded # es) = Suc (discards es)"
| "discards (_ # es) = discards es"

lemma pushed_append [simp]: "pushed (es @ es') = pushed es @ pushed es'"
  by (induction es rule: pushed.induct) simp_all

lemma removed_append [simp]: "removed (es @ es') = removed es @ removed es'"
  by (induction es rule: removed.induct) simp_all

lemma overridden_append [simp]: "overridden (es @ es') = overridden es @ overridden es'"
  by (induction es rule: overridden.induct) simp_all

lemma discards_append [simp]: "discards (es @ es') = discards es + discards es'"
  by (induction es rule: discards.induct) simp_all

lemma push_events_spec:
  assumes "cq_invar q" and "max_size q \<noteq> 0"
  shows "removed (push_events x q) @ cq_list (cq_push_back x q) = cq_list q @ [x]"
    and "pushed (push_events x q) = [x]" and "discards (push_events x q) = 0"
    and "override_cnt (cq_push_back x q) = override_cnt q + of_nat (length (overridden (push_events x q)))"
proof -
  have len: "length (cq_list q) \<le> cq_capacity q" "cq_full q \<longleftrightarrow> length (cq_list q) = cq_capacity q"
    using assms cq_full_iff [OF assms(1)] cq_len_le_capacity [OF assms(1)] by auto
  have tail: "hd (xs @ [x]) # last_n (length xs) (xs @ [x]) = xs @ [x]" for xs
    by (cases xs) (simp_all add: last_n_def)
  show "removed (push_events x q) @ cq_list (cq_push_back x q) = cq_list q @ [x]"
  proof (cases "cq_full q")
    case True
    then have "cq_capacity q = length (cq_list q)" using len by simp
    then show ?thesis
      using True assms(1) tail [of "cq_list q"]
      by (simp add: push_events_def cq_push_back_spec del: length_cq_list)
  next
    case False
    then show ?thesis using assms(1) len by (simp add: push_events_def cq_push_back_spec)
  qed
  show "pushed (push_events x q) = [x]" and "discards (push_events x q) = 0"
    by (simp_all add: push_events_def)
  show "override_cnt (cq_push_back x q) = override_cnt q + of_nat (length (overridden (push_events x q)))"
    using assms by (simp add: push_events_def cq_push_back_override)
qed

lemma push_events_room:
  assumes "cq_invar q" and "max_size q \<noteq> 0" and "\<not> cq_full q"
  shows "push_events x q = [Pushed x]" using assms by (simp add: push_events_def)

lemma do_push_ring: "ring (do_push mingw t x s) = cq_push_back x (ring s)"
  "discard_count (do_push mingw t x s) = discard_count s"
  by (simp_all add: do_push_def)

lemma do_pop_ring: "ring (do_pop mingw t s) = cq_pop_front (ring s)"
  "discard_count (do_pop mingw t s) = discard_count s"
  by (simp_all add: do_pop_def)

lemma bq_step_order:
  assumes "bq_step mingw s es s'" and inv: "bq_inv mingw c s"
  shows "removed es @ cq_list (ring s') = cq_list (ring s) @ pushed es \<and>
         discard_count s' = discard_count s + of_nat (discards es) \<and>
         override_cnt (ring s') = override_cnt (ring s) + of_nat (length (overridden es))"
  using assms(1)
proof cases
  case (try_push t x)
  then show ?thesis
    using push_events_spec [of "ring s" x] push_events_room [of "ring s" x] bq_invD(1,2) [OF inv]
    by (simp add: do_push_ring)
next
  case (enqueue_push t x)
  then show ?thesis
    using push_events_spec [of "ring s" x] push_events_room [of "ring s" x] bq_invD(1,2) [OF inv]
    by (simp add: do_push_ring)
next
  case (nowait_push t x)
  then show ?thesis
    using push_events_spec [of "ring s" x] bq_invD(1,2) [OF inv] by (simp add: do_push_ring)
next
  case (dequeue_pop t p x)
  then have "cq_list (ring s) \<noteq> []" using bq_invD(1) [OF inv] by (simp add: cq_empty_iff)
  then show ?thesis
    using dequeue_pop bq_invD(1) [OF inv] cq_front_list [of "ring s"] cq_pop_front_spec [of "ring s"]
    by (auto simp: do_pop_ring) (simp_all add: cq_pop_front_def)
qed simp_all

lemma bq_run_order:
  assumes "bq_run mingw s0 es s" and "bq_inv mingw c s0"
  shows "removed es @ cq_list (ring s) = cq_list (ring s0) @ pushed es \<and>
         discard_count s = discard_count s0 + of_nat (discards es) \<and>
         override_cnt (ring s) = override_cnt (ring s0) + of_nat (length (overridden es))"
  using assms
proof induction
  case (code es s es' s')
  have "bq_inv mingw c s" using bq_run_inv [OF code.hyps(1) code.prems] .
  note step = bq_step_order [OF code.hyps(2) this] and IH = code.IH [OF code.prems]
  have "removed (es @ es') @ cq_list (ring s') = removed es @ cq_list (ring s) @ pushed es'"
    using step by simp
  also have "\<dots> = cq_list (ring s0) @ pushed (es @ es')" using IH by (metis append_assoc pushed_append)
  finally show ?case using step IH by simp
next
  case (env es s s')
  from env.hyps(2) have "ring s' = ring s \<and> discard_count s' = discard_count s" by cases auto
  with env show ?case by simp
qed simp

section \<open>Progress\<close>

text \<open>
  Three counts that no step of the code lets grow in lexicographic order: calls that have not
  passed their locked section, notifications to make, threads about to lock.
\<close>

fun active :: "'a pc \<Rightarrow> bool" where
  "active Idle \<longleftrightarrow> False"
| "active p \<longleftrightarrow> \<not> notifying p"

definition locking :: "'a pc \<Rightarrow> bool" where
  "locking p \<longleftrightarrow> active p \<and> \<not> consumer_wait p \<and> \<not> producer_wait p"

lemma pc_kinds:
  "consumer_wait p \<Longrightarrow> active p \<and> \<not> locking p \<and> active (woken p) \<and> \<not> notifying p \<and> \<not> notifying (woken p)"
  "producer_wait p \<Longrightarrow> active p \<and> \<not> locking p \<and> active (woken p) \<and> \<not> notifying p \<and> \<not> notifying (woken p)"
  by (cases p; simp add: locking_def)+

definition rest_measure :: "('a block_queue \<times> 'a block_queue) set" where
  "rest_measure = measures [num active, num notifying, num locking]"

lemma wake_progress:
  assumes t: "at_pc s t n" and n: "n = Notify_push \<or> n = Notify_pop" and w: "at_pc s w p"
    and p: "consumer_wait p \<or> producer_wait p"
  shows "(set_pc w (woken p) (set_pc t Idle (release mingw s)), s) \<in> rest_measure"
proof -
  have np: "n \<noteq> p" using n p by auto
  have num: "num P (set_pc w (woken p) (set_pc t Idle (release mingw s))) + (if P n then 1 else 0) +
      (if P p then 1 else 0) = num P s + (if P Idle then 1 else 0) + (if P (woken p) then 1 else 0)" for P
    using wake_num [of "release mingw s" t n w p P "woken p"] t w np by simp
  have "active p" "active (woken p)" "\<not> notifying p" "\<not> notifying (woken p)"
    using pc_kinds [of p] p by auto
  then show ?thesis
    using num [of active] num [of notifying] n by (auto simp: rest_measure_def)
qed

lemma bq_step_progress:
  assumes "bq_step mingw s es s'"
  shows "(s', s) \<in> rest_measure"
  using assms
proof cases
  case (try_push t x)
  then show ?thesis
    using num_set_pc_less [of s t "Try_enqueue x" active Notify_push]
    by (simp add: rest_measure_def do_push_def num_def set_pc_def)
next
  case (try_discard t x)
  then show ?thesis
    using num_set_pc_less [of s t "Try_enqueue x" active Discarding] by (simp add: rest_measure_def)
next
  case (discard t)
  then show ?thesis
    using num_set_pc_same [of s t Discarding active Idle] num_set_pc_less [of s t Discarding notifying Idle]
    by (simp add: rest_measure_def)
next
  case (enqueue_push t x)
  then show ?thesis
    using num_set_pc_less [of s t "Enqueue x" active Notify_push]
    by (simp add: rest_measure_def do_push_def num_def set_pc_def)
next
  case (enqueue_wait t x)
  then show ?thesis
    using num_set_pc_same [of s t "Enqueue x" active "Wait_pop_cv x"]
      num_set_pc_same [of s t "Enqueue x" notifying "Wait_pop_cv x"]
      num_set_pc_less [of s t "Enqueue x" locking "Wait_pop_cv x"]
    by (simp add: rest_measure_def locking_def)
next
  case (nowait_push t x)
  then show ?thesis
    using num_set_pc_less [of s t "Enqueue_nowait x" active Notify_push]
    by (simp add: rest_measure_def do_push_def num_def set_pc_def)
next
  case (notify_push t w p)
  then show ?thesis using wake_progress [of s t Notify_push w p] by simp
next
  case (notify_push_none t)
  then show ?thesis
    using num_set_pc_same [of s t Notify_push active Idle] num_set_pc_less [of s t Notify_push notifying Idle]
    by (simp add: rest_measure_def)
next
  case (dequeue_pop t p x)
  then show ?thesis
    using num_set_pc_less [of s t p active Notify_pop]
    by (auto simp: rest_measure_def do_pop_def num_def set_pc_def)
next
  case (dequeue_wait t)
  then show ?thesis
    using num_set_pc_same [of s t Dequeue active Wait_push_cv]
      num_set_pc_same [of s t Dequeue notifying Wait_push_cv]
      num_set_pc_less [of s t Dequeue locking Wait_push_cv]
    by (simp add: rest_measure_def locking_def)
next
  case (dequeue_for_wait t)
  then show ?thesis
    using num_set_pc_same [of s t Dequeue_for active Wait_push_cv_for]
      num_set_pc_same [of s t Dequeue_for notifying Wait_push_cv_for]
      num_set_pc_less [of s t Dequeue_for locking Wait_push_cv_for]
    by (simp add: rest_measure_def locking_def)
next
  case (dequeue_for_fail t)
  then show ?thesis
    using num_set_pc_less [of s t Dequeue_last active Idle] by (simp add: rest_measure_def)
next
  case (notify_pop t w p)
  then show ?thesis using wake_progress [of s t Notify_pop w p] by simp
next
  case (notify_pop_none t)
  then show ?thesis
    using num_set_pc_same [of s t Notify_pop active Idle] num_set_pc_less [of s t Notify_pop notifying Idle]
    by (simp add: rest_measure_def)
qed

text \<open>A thread that is neither idle nor blocked lets the code make a step.\<close>

lemma some_step:
  assumes inv: "bq_inv mingw c s" and t: "at_pc s t p"
    and p: "p \<noteq> Idle" "\<not> consumer_wait p" "\<not> producer_wait p"
  shows "\<exists>es s'. bq_step mingw s es s'"
proof -
  have note_steps: "\<exists>es s'. bq_step mingw s es s'" if u: "at_pc s u n" and n: "notifying n" for u n
  proof -
    from n consider "n = Notify_push" | "n = Notify_pop" | "n = Discarding" by (cases n) auto
    then show ?thesis
    proof cases
      case 1
      show ?thesis
      proof (cases "\<exists>q \<in> set (pcs s). consumer_wait q")
        case True
        then obtain w q where "at_pc s w q" "consumer_wait q" by (auto simp: at_pc_def in_set_conv_nth)
        then show ?thesis using bq_step.notify_push u 1 by blast
      qed (use bq_step.notify_push_none u 1 in blast)
    next
      case 2
      show ?thesis
      proof (cases "\<exists>q \<in> set (pcs s). producer_wait q")
        case True
        then obtain w q where "at_pc s w q" "producer_wait q" by (auto simp: at_pc_def in_set_conv_nth)
        then show ?thesis using bq_step.notify_pop u 2 by blast
      qed (use bq_step.notify_pop_none u 2 in blast)
    qed (use bq_step.discard u in blast)
  qed
  show ?thesis
  proof (cases "owner s")
    case (Some u)
    then show ?thesis using inv note_steps by (auto simp: bq_inv_def owner_ok_def)
  next
    case own: None
    have front: "\<exists>x. cq_front (ring s) = Some x" if "\<not> cq_empty (ring s)"
      using that cq_front_list [of "ring s"] bq_invD(1) [OF inv] by (auto simp: cq_empty_iff)
    have pop: "\<exists>es s'. bq_step mingw s es s'"
      if "\<not> cq_empty (ring s)" and "p \<in> {Dequeue, Dequeue_for, Dequeue_last}"
      using front [OF that(1)] bq_step.dequeue_pop [OF t that(2) own that(1)] by blast
    show ?thesis
    proof (cases p)
      case (Try_enqueue x)
      then show ?thesis using t own bq_step.try_push [of s t x mingw] bq_step.try_discard [of s t x mingw] by blast
    next
      case (Enqueue x)
      then show ?thesis using t own bq_step.enqueue_push [of s t x mingw] bq_step.enqueue_wait [of s t x mingw] by blast
    next
      case (Enqueue_nowait x)
      then show ?thesis using t own bq_step.nowait_push [of s t x mingw] by blast
    next
      case Dequeue
      then show ?thesis
        using pop t own bq_step.dequeue_wait [of s t mingw] by (cases "cq_empty (ring s)") auto
    next
      case Dequeue_for
      then show ?thesis
        using pop t own bq_step.dequeue_for_wait [of s t mingw] by (cases "cq_empty (ring s)") auto
    next
      case Dequeue_last
      then show ?thesis
        using pop t own bq_step.dequeue_for_fail [of s t mingw] by (cases "cq_empty (ring s)") auto
    next
      case Notify_push
      then show ?thesis using note_steps [OF t] by simp
    next
      case Notify_pop
      then show ?thesis using note_steps [OF t] by simp
    next
      case Discarding
      then show ?thesis using note_steps [OF t] by simp
    qed (use p in simp_all)
  qed
qed

section \<open>Properties\<close>

text \<open>
  C21: for every interleaving of any number of producers and consumers, in both versions of the code,
  the elements leave the queue in the order in which they entered it and none is lost: what was
  pushed is what was popped or overwritten, followed by what the ring holds. At most \<open>n\<close> are
  held, and the two counters are the numbers of discarded and of overwritten elements.
\<close>

theorem bq_fifo:
  assumes "bq_new d n k = Inr s0" and "n \<noteq> - 1" and "bq_run mingw s0 es s"
  shows "pushed es = removed es @ cq_list (ring s) \<and> length (cq_list (ring s)) \<le> unat n \<and>
         bq_get_discard_count s = of_nat (discards es) \<and>
         bq_get_override_count s = of_nat (length (overridden es))"
proof -
  note inv0 = bq_new_inv [OF assms(1,2), of mingw]
  obtain q where q: "cq_new d n = Inr q" and s0: "ring s0 = q" "discard_count s0 = 0"
    using assms(1) by (auto simp: bq_new_def split: sum.splits)
  have "cq_list (ring s0) = []" and "override_cnt (ring s0) = 0"
    using cq_new_abs [OF q] s0 by (simp_all add: cq_abs_def)
  then show ?thesis
    using bq_run_order [OF assms(3) inv0] bq_invD(6) [OF bq_run_inv [OF assms(3) inv0]] s0
    by (simp add: bq_get_discard_count_def bq_get_override_count_def cq_override_count_def)
qed

text \<open>
  C22: wherever the code comes to a halt, no thread is stuck between two of its steps, a consumer
  is left waiting only while the queue is empty, and a producer only while it is full: no
  notification is lost, although the lock is released before it is sent.
\<close>

theorem bq_no_lost_wakeup:
  assumes "bq_new d n k = Inr s0" and "n \<noteq> - 1" and "bq_run mingw s0 es s"
    and "\<And>es' s'. \<not> bq_step mingw s es' s'" and "at_pc s t p"
  shows "p = Idle \<or> consumer_wait p \<and> cq_empty (ring s) \<or> producer_wait p \<and> cq_full (ring s)"
proof -
  have inv: "bq_inv mingw (unat n) s"
    using bq_run_inv [OF assms(3) bq_new_inv [OF assms(1,2)]] .
  have rest: "q = Idle \<or> consumer_wait q \<or> producer_wait q" if "at_pc s u q" for u q
    using some_step [OF inv that] assms(4) by blast
  have zero: "num P s = 0" if "\<And>q. P q \<Longrightarrow> q \<noteq> Idle \<and> \<not> consumer_wait q \<and> \<not> producer_wait q" for P
  proof -
    have "\<not> P q" if "q \<in> set (pcs s)" for q
      using that rest \<open>\<And>q. P q \<Longrightarrow> q \<noteq> Idle \<and> \<not> consumer_wait q \<and> \<not> producer_wait q\<close>
      by (auto simp: in_set_conv_nth at_pc_def)
    then show ?thesis by (simp add: num_0_iff)
  qed
  have kinds: "awake_consumer q \<Longrightarrow> q \<noteq> Idle \<and> \<not> consumer_wait q \<and> \<not> producer_wait q"
    "awake_producer q \<Longrightarrow> q \<noteq> Idle \<and> \<not> consumer_wait q \<and> \<not> producer_wait q" for q :: "'a pc"
    by (cases q; simp)+
  have none: "num (\<lambda>q. q = Notify_push) s = 0" "num (\<lambda>q. q = Notify_pop) s = 0"
    "num awake_consumer s = 0" "num awake_producer s = 0"
    using kinds by (intro zero; simp)+
  have push: "consumer_wait p \<Longrightarrow> cq_empty (ring s)"
    using none inv bq_invD(5) [OF inv] num_pos [OF assms(5), of consumer_wait]
    by (simp add: bq_inv_def no_lost_push_def)
  have pop: "producer_wait p \<Longrightarrow> cq_full (ring s)"
    using none inv bq_invD(3,4,6) [OF inv] num_pos [OF assms(5), of producer_wait]
    by (simp add: bq_inv_def no_lost_pop_def)
  show ?thesis using rest [OF assms(5)] push pop by blast
qed

text \<open>
  C23: without new calls, time-outs and spurious wake-ups the code always comes to a halt: its steps
  are well-founded, so threads do not wake each other for ever.
\<close>

theorem bq_comes_to_rest: "wf {(s', s). \<exists>es. bq_step mingw s es s'}"
proof (rule wf_subset)
  show "wf (rest_measure :: ('a block_queue \<times> 'a block_queue) set)" by (simp add: rest_measure_def)
  show "{(s', s). \<exists>es. bq_step mingw s es s'} \<subseteq> rest_measure" using bq_step_progress by blast
qed

text \<open>A concrete run: a consumer blocks, a producer pushes and wakes it, and it takes the element.\<close>

definition sample_ring :: "size_t \<Rightarrow> size_t \<Rightarrow> nat list \<Rightarrow> nat circular_queue" where
  "sample_ring h t xs = \<lparr>max_size = 2, head = h, tail = t, override_cnt = 0, vec = xs\<rparr>"

definition sample_bq :: "nat circular_queue \<Rightarrow> nat pc list \<Rightarrow> nat block_queue" where
  "sample_bq q ps = \<lparr>ring = q, discard_count = 0, owner = None, pcs = ps\<rparr>"

lemma sample_bq_new: "bq_new 0 1 2 = Inr (sample_bq (sample_ring 0 0 [0, 0]) [Idle, Idle])"
  by (simp add: bq_new_def cq_new_def vector_max_def sample_bq_def sample_ring_def)
    (simp add: numeral_2_eq_2)

lemma sample_run_wait:
  "bq_run False (sample_bq (sample_ring 0 0 [0, 0]) [Idle, Idle]) []
     (sample_bq (sample_ring 0 0 [0, 0]) [Wait_push_cv, Idle])"
proof -
  let ?q = "sample_ring 0 0 [0, 0]"
  have "bq_env (sample_bq ?q [Idle, Idle]) (set_pc 0 Dequeue (sample_bq ?q [Idle, Idle]))"
    by (rule bq_env.call [where x = 0]) (simp_all add: at_pc_def sample_bq_def)
  then have "bq_run False (sample_bq ?q [Idle, Idle]) [] (sample_bq ?q [Dequeue, Idle])"
    using bq_run.env [OF bq_run.start] by (simp add: set_pc_def sample_bq_def)
  moreover have "bq_step False (sample_bq ?q [Dequeue, Idle]) []
      (set_pc 0 Wait_push_cv (sample_bq ?q [Dequeue, Idle]))"
    by (rule bq_step.dequeue_wait)
      (simp_all add: at_pc_def sample_bq_def sample_ring_def cq_empty_def)
  ultimately show ?thesis using bq_run.code by (fastforce simp: set_pc_def sample_bq_def)
qed

lemma sample_run_push:
  "bq_run False (sample_bq (sample_ring 0 0 [0, 0]) [Idle, Idle]) [Pushed 5]
     (sample_bq (sample_ring 0 1 [5, 0]) [Wait_push_cv, Notify_push])"
proof -
  let ?q = "sample_ring 0 0 [0, 0]"
  have "bq_env (sample_bq ?q [Wait_push_cv, Idle])
      (set_pc 1 (Enqueue 5) (sample_bq ?q [Wait_push_cv, Idle]))"
    by (rule bq_env.call [where x = 5]) (simp_all add: at_pc_def sample_bq_def)
  then have "bq_run False (sample_bq ?q [Idle, Idle]) [] (sample_bq ?q [Wait_push_cv, Enqueue 5])"
    using bq_run.env [OF sample_run_wait] by (simp add: set_pc_def sample_bq_def)
  moreover have "bq_step False (sample_bq ?q [Wait_push_cv, Enqueue 5]) [Pushed 5]
      (do_push False 1 5 (sample_bq ?q [Wait_push_cv, Enqueue 5]))"
    by (rule bq_step.enqueue_push)
      (simp_all add: at_pc_def sample_bq_def sample_ring_def cq_full_def)
  moreover have "do_push False 1 5 (sample_bq ?q [Wait_push_cv, Enqueue 5])
      = sample_bq (sample_ring 0 1 [5, 0]) [Wait_push_cv, Notify_push]"
    by (simp add: do_push_def set_pc_def keep_lock_def sample_bq_def sample_ring_def cq_push_back_def)
  ultimately show ?thesis using bq_run.code by fastforce
qed

theorem bq_fifo_witness:
  "cq_list (ring (sample_bq (sample_ring 0 1 [5, 0]) [Wait_push_cv, Notify_push])) = [5]"
  using bq_fifo [OF sample_bq_new _ sample_run_push] by simp

theorem bq_no_lost_wakeup_witness:
  "cq_empty (ring (sample_bq (sample_ring 0 0 [0, 0]) [Wait_push_cv, Idle]))"
proof -
  let ?s = "sample_bq (sample_ring 0 0 [0, 0]) [Wait_push_cv, Idle]"
  have pcs: "at_pc ?s t p \<Longrightarrow> p = Idle \<or> p = Wait_push_cv" for t p
    by (auto simp: at_pc_def sample_bq_def less_Suc_eq numeral_2_eq_2)
  have "\<not> bq_step False ?s es' s'" for es' s'
    by (auto elim!: bq_step.cases dest!: pcs)
  from bq_no_lost_wakeup [OF sample_bq_new _ sample_run_wait this, of 0 Wait_push_cv]
  show ?thesis by (simp add: at_pc_def sample_bq_def)
qed

end
