(* ===== verification/Thread_Pools.thy ===== *)
theory Thread_Pools
  imports Registry Block_Queue "HOL-Library.Multiset"
begin

text \<open>
  \<^verbatim>\<open>base/async_msg.h\<close>, \<^verbatim>\<open>include/async_logger.h\<close>, \<^verbatim>\<open>base/thread_pool.{h,cpp}\<close> and
  \<^verbatim>\<open>base/lock_thread_pool.h\<close>: loggers whose calls put messages into the queue of a thread pool,
  and the worker threads that take them out. The operations on the queue are atomic steps
  (for the blocking queue the theory \<^verbatim>\<open>Block_Queue\<close> has what is inside them); one call
  on one sink is a step too, since a sink holds its own mutex. The functions that run when a worker
  starts and stops are not in the model, and the settings of loggers do not change during a run.
\<close>

section \<open>Messages\<close>

datatype async_msg_type = Log_type | Flush_type | Terminate_type

text \<open>The promise of a flush message, which somebody waits for, has a number.\<close>

record async_msg =
  am_buf :: log_msg_buf
  am_logger :: "nat option"
  msg_type :: async_msg_type
  flush_promise :: "nat option"

definition async_msg_default :: async_msg where
  "async_msg_default = \<lparr>am_buf = lmb_default, am_logger = None, msg_type = Log_type, flush_promise = None\<rparr>"

definition async_log_msg :: "nat \<Rightarrow> log_msg \<Rightarrow> async_msg" where
  "async_log_msg l m = \<lparr>am_buf = lmb_new m, am_logger = Some l, msg_type = Log_type, flush_promise = None\<rparr>"

definition async_flush_msg :: "nat \<Rightarrow> nat \<Rightarrow> async_msg" where
  "async_flush_msg l p = \<lparr>am_buf = lmb_default, am_logger = Some l, msg_type = Flush_type, flush_promise = Some p\<rparr>"

definition async_terminate_msg :: async_msg where
  "async_terminate_msg = \<lparr>am_buf = lmb_default, am_logger = None, msg_type = Terminate_type, flush_promise = None\<rparr>"

section \<open>Workers and pools\<close>

text \<open>
  Where a worker is: before its loop; about to dequeue; in the loop of \<open>do_sink_log_\<close>; about to
  lock the weak pointer of the logger in \<open>flush_sink_\<close>, about to enqueue the flush message, and in
  \<open>future.get()\<close>, where the locked pointer keeps the pool alive; in the loop of \<open>do_flush_sink_\<close>; out
  of its loop; in the destructor of the pool, having dropped the last pointer to it; or stopped
  at a null logger.
\<close>

datatype worker = Starting | Popping
  | Logging nat log_msg "nat list"
  | Flush_call nat | Flush_send nat | Awaiting nat
  | Flushing "nat option" "nat list"
  | Exited | Self_destroy | Crashed

record ('q, 'c) pool =
  queue :: 'q
  workers :: "worker list"
  mem :: "'c heap"
  fulfilled :: "nat list"
  next_promise :: nat
  alive :: bool
  stops :: nat

text \<open>
  The queue of a pool: what a worker does before its loop, \<open>enqueue_async_msg_\<close> of a thread,
  \<open>dequeue_async_msg_\<close> of a worker from one of the lanes of the queue, and how the destructor
  enqueues its next terminate message. \<open>None\<close> is a call that does not come through, for now.
\<close>

record 'q queue_ops =
  q_start :: "nat \<Rightarrow> 'q \<Rightarrow> 'q option"
  q_enq :: "nat \<Rightarrow> async_msg \<Rightarrow> 'q \<Rightarrow> (nat \<times> 'q) option"
  q_deq :: "nat \<Rightarrow> nat \<Rightarrow> 'q \<Rightarrow> (async_msg \<times> 'q) option"
  q_stop :: "nat \<Rightarrow> async_msg \<Rightarrow> 'q \<Rightarrow> (nat \<times> 'q) option"

datatype pool_event = Enqueued nat nat async_msg | Dequeued nat nat async_msg | Wrote nat nat string

definition worker_at :: "('q, 'c) pool \<Rightarrow> nat \<Rightarrow> worker \<Rightarrow> bool" where
  "worker_at s w p \<longleftrightarrow> w < length (workers s) \<and> workers s ! w = p"

definition set_worker :: "nat \<Rightarrow> worker \<Rightarrow> ('q, 'c) pool \<Rightarrow> ('q, 'c) pool" where
  "set_worker w p s = s\<lparr>workers := (workers s)[w := p]\<rparr>"

fun holds_pool :: "worker \<Rightarrow> bool" where
  "holds_pool (Flush_send l) \<longleftrightarrow> True"
| "holds_pool (Awaiting p) \<longleftrightarrow> True"
| "holds_pool _ \<longleftrightarrow> False"

text \<open>\<open>thread_pool_.lock()\<close> gives the pool while anybody holds it.\<close>

definition lockable :: "('q, 'c) pool \<Rightarrow> bool" where
  "lockable s \<longleftrightarrow> alive s \<or> (\<exists>p \<in> set (workers s). holds_pool p)"

text \<open>The switch of \<open>process_async_msg_\<close>.\<close>

definition begin_msg :: "(nat \<Rightarrow> logger) \<Rightarrow> async_msg \<Rightarrow> worker" where
  "begin_msg lgs am =
     (case msg_type am of
        Log_type \<Rightarrow> (case am_logger am of None \<Rightarrow> Crashed
                      | Some l \<Rightarrow> Logging l (lmb_msg (am_buf am)) (lg_sinks (lgs l)))
      | Flush_type \<Rightarrow> (case am_logger am of None \<Rightarrow> Crashed
                      | Some l \<Rightarrow> Flushing (flush_promise am) (lg_sinks (lgs l)))
      | Terminate_type \<Rightarrow> Exited)"

definition excpt_no_pool :: "string \<Rightarrow> excpt" where
  "excpt_no_pool func = learnlog_excpt (''learnlog::async_logger: '' @ func @ ''() failed: thread pool does not exist'')"

text \<open>
  What a call on a logger does when the weak pointer cannot be locked: a report, and nothing else.
\<close>

definition async_call_dead :: "string \<Rightarrow> 'c heap \<Rightarrow> excpt option \<times> 'c heap" where
  "async_call_dead func h = caught (Some (excpt_no_pool func)) h"

section \<open>Steps\<close>

inductive pool_step ::
  "'q queue_ops \<Rightarrow> 'c sys_env \<Rightarrow> (nat \<Rightarrow> logger) \<Rightarrow> ('q, 'c) pool \<Rightarrow> pool_event list \<Rightarrow> ('q, 'c) pool \<Rightarrow> bool"
  for ops env lgs where
  begin_loop: "worker_at s w Starting \<Longrightarrow> q_start ops w (queue s) = Some q \<Longrightarrow>
     pool_step ops env lgs s [] (set_worker w Popping (s\<lparr>queue := q\<rparr>))"
| pop: "worker_at s w Popping \<Longrightarrow> q_deq ops w l (queue s) = Some (am, q) \<Longrightarrow>
     pool_step ops env lgs s [Dequeued w l am] (set_worker w (begin_msg lgs am) (s\<lparr>queue := q\<rparr>))"
| log_sink: "worker_at s w (Logging l m (i # is)) \<Longrightarrow> sink_should_log (level m) (sink_at (mem s) i) \<Longrightarrow>
     try_sink_log env i m (mem s) = Some (None, m', h) \<Longrightarrow>
     pool_step ops env lgs s [Wrote w i (line_at env (mem s) i m)] (set_worker w (Logging l m' is) (s\<lparr>mem := h\<rparr>))"
| skip_sink: "worker_at s w (Logging l m (i # is)) \<Longrightarrow> \<not> sink_should_log (level m) (sink_at (mem s) i) \<Longrightarrow>
     pool_step ops env lgs s [] (set_worker w (Logging l m is) s)"
| logged: "worker_at s w (Logging l m []) \<Longrightarrow>
     pool_step ops env lgs s [] (set_worker w (if should_flush (lgs l) (level m) then Flush_call l else Popping) s)"
| flush_lock: "worker_at s w (Flush_call l) \<Longrightarrow> lockable s \<Longrightarrow>
     pool_step ops env lgs s [] (set_worker w (Flush_send l) s)"
| flush_dead: "worker_at s w (Flush_call l) \<Longrightarrow> \<not> lockable s \<Longrightarrow>
     async_call_dead ''flush_sink_'' (mem s) = (None, h) \<Longrightarrow>
     pool_step ops env lgs s [] (set_worker w Popping (s\<lparr>mem := h\<rparr>))"
| flush_send: "worker_at s w (Flush_send l) \<Longrightarrow> p = next_promise s \<Longrightarrow>
     q_enq ops w (async_flush_msg l p) (queue s) = Some (ln, q) \<Longrightarrow>
     pool_step ops env lgs s [Enqueued w ln (async_flush_msg l p)]
       (set_worker w (Awaiting p) (s\<lparr>queue := q, next_promise := p + 1\<rparr>))"
| awaited: "worker_at s w (Awaiting p) \<Longrightarrow> p \<in> set (fulfilled s) \<Longrightarrow>
     pool_step ops env lgs s [] (set_worker w (if lockable (set_worker w Popping s) then Popping else Self_destroy) s)"
| flush_one: "worker_at s w (Flushing p (i # is)) \<Longrightarrow> try_sink_flush env i (mem s) = (None, h) \<Longrightarrow>
     pool_step ops env lgs s [] (set_worker w (Flushing p is) (s\<lparr>mem := h\<rparr>))"
| flushed: "worker_at s w (Flushing p []) \<Longrightarrow>
     pool_step ops env lgs s []
       (set_worker w Popping (s\<lparr>fulfilled := (case p of None \<Rightarrow> fulfilled s | Some p \<Rightarrow> p # fulfilled s)\<rparr>))"
| stop_worker: "\<not> lockable s \<Longrightarrow> stops s < length (workers s) \<Longrightarrow>
     q_stop ops (stops s) async_terminate_msg (queue s) = Some (ln, q) \<Longrightarrow>
     pool_step ops env lgs s [Enqueued (length (workers s)) ln async_terminate_msg] (s\<lparr>queue := q, stops := stops s + 1\<rparr>)"

text \<open>
  The users of the pool: \<open>sink_log_\<close> and \<open>flush_sink_\<close> of the loggers, on threads that are not
  workers, and the end of the last pointer to the pool that is not a worker's.
\<close>

inductive pool_env :: "'q queue_ops \<Rightarrow> ('q, 'c) pool \<Rightarrow> pool_event list \<Rightarrow> ('q, 'c) pool \<Rightarrow> bool"
  for ops where
  log_call: "lockable s \<Longrightarrow> length (workers s) \<le> t \<Longrightarrow> q_enq ops t (async_log_msg l m) (queue s) = Some (ln, q) \<Longrightarrow>
     pool_env ops s [Enqueued t ln (async_log_msg l m)] (s\<lparr>queue := q\<rparr>)"
| flush_call: "lockable s \<Longrightarrow> length (workers s) \<le> t \<Longrightarrow> p = next_promise s \<Longrightarrow>
     q_enq ops t (async_flush_msg l p) (queue s) = Some (ln, q) \<Longrightarrow>
     pool_env ops s [Enqueued t ln (async_flush_msg l p)] (s\<lparr>queue := q, next_promise := p + 1\<rparr>)"
| dead_call: "\<not> lockable s \<Longrightarrow> func = ''sink_log_'' \<or> func = ''flush_sink_'' \<Longrightarrow> async_call_dead func (mem s) = (None, h) \<Longrightarrow>
     pool_env ops s [] (s\<lparr>mem := h\<rparr>)"
| drop_pool: "alive s \<Longrightarrow> pool_env ops s [] (s\<lparr>alive := False\<rparr>)"

inductive pool_run ::
  "'q queue_ops \<Rightarrow> 'c sys_env \<Rightarrow> (nat \<Rightarrow> logger) \<Rightarrow> ('q, 'c) pool \<Rightarrow> pool_event list \<Rightarrow> ('q, 'c) pool \<Rightarrow> bool"
  for ops env lgs s0 where
  start: "pool_run ops env lgs s0 [] s0"
| code: "pool_run ops env lgs s0 es s \<Longrightarrow> pool_step ops env lgs s es' s' \<Longrightarrow> pool_run ops env lgs s0 (es @ es') s'"
| client: "pool_run ops env lgs s0 es s \<Longrightarrow> pool_env ops s es' s' \<Longrightarrow> pool_run ops env lgs s0 (es @ es') s'"

definition pool_start :: "nat \<Rightarrow> 'q \<Rightarrow> 'c heap \<Rightarrow> ('q, 'c) pool" where
  "pool_start n q h = \<lparr>queue = q, workers = replicate n Starting, mem = h, fulfilled = [], next_promise = 0,
     alive = True, stops = 0\<rparr>"

section \<open>The pool with the blocking queue\<close>

type_synonym lock_queue = "async_msg circular_queue"

definition lock_enq :: "async_msg \<Rightarrow> lock_queue \<Rightarrow> (nat \<times> lock_queue) option" where
  "lock_enq am q = (if cq_full q then None else Some (0, cq_push_back am q))"

definition lock_deq :: "nat \<Rightarrow> lock_queue \<Rightarrow> (async_msg \<times> lock_queue) option" where
  "lock_deq l q =
     (if l \<noteq> 0 \<or> cq_empty q then None
      else case cq_front q of None \<Rightarrow> None | Some am \<Rightarrow> Some (am, cq_pop_front q))"

definition lock_ops :: "lock_queue queue_ops" where
  "lock_ops = \<lparr>q_start = (\<lambda>w q. Some q), q_enq = (\<lambda>t. lock_enq), q_deq = (\<lambda>w. lock_deq), q_stop = (\<lambda>k. lock_enq)\<rparr>"

definition lock_pool_new ::
  "size_t \<Rightarrow> size_t \<Rightarrow> 'c heap \<Rightarrow> (excpt + queue_error) + (lock_queue, 'c) pool" where
  "lock_pool_new queue_size k h =
     (case pool_new Lock queue_size k of
        Inl e \<Rightarrow> Inl (Inl e)
      | Inr p \<Rightarrow> (case cq_new async_msg_default (msg_q_size p) of
                    Inl e \<Rightarrow> Inl (Inr e)
                  | Inr q \<Rightarrow> Inr (pool_start (unat (threads_num p)) q h)))"


section \<open>What happened\<close>

fun event_worker :: "pool_event \<Rightarrow> nat option" where
  "event_worker (Enqueued t l am) = None"
| "event_worker (Dequeued w l am) = Some w"
| "event_worker (Wrote w j x) = Some w"

fun enq_msg :: "pool_event \<Rightarrow> (nat \<times> nat \<times> async_msg) option" where
  "enq_msg (Enqueued t l am) = Some (t, l, am)" | "enq_msg e = None"

fun deq_msg :: "pool_event \<Rightarrow> (nat \<times> nat \<times> async_msg) option" where
  "deq_msg (Dequeued w l am) = Some (w, l, am)" | "deq_msg e = None"

fun wrote_line :: "pool_event \<Rightarrow> (nat \<times> nat \<times> string) option" where
  "wrote_line (Wrote w j x) = Some (w, j, x)" | "wrote_line e = None"

abbreviation enqs :: "pool_event list \<Rightarrow> (nat \<times> nat \<times> async_msg) list" where
  "enqs es \<equiv> List.map_filter enq_msg es"

abbreviation deqs :: "pool_event list \<Rightarrow> (nat \<times> nat \<times> async_msg) list" where
  "deqs es \<equiv> List.map_filter deq_msg es"

abbreviation wrotes :: "pool_event list \<Rightarrow> (nat \<times> nat \<times> string) list" where
  "wrotes es \<equiv> List.map_filter wrote_line es"

definition enqueued :: "pool_event list \<Rightarrow> async_msg list" where
  "enqueued es = map (snd \<circ> snd) (enqs es)"

definition enqueued_on :: "nat \<Rightarrow> pool_event list \<Rightarrow> async_msg list" where
  "enqueued_on l es = map (snd \<circ> snd) (filter (\<lambda>(t, k, am). k = l) (enqs es))"

definition dequeued :: "pool_event list \<Rightarrow> async_msg list" where
  "dequeued es = map (snd \<circ> snd) (deqs es)"

definition dequeued_on :: "nat \<Rightarrow> pool_event list \<Rightarrow> async_msg list" where
  "dequeued_on l es = map (snd \<circ> snd) (filter (\<lambda>(w, k, am). k = l) (deqs es))"

definition dequeued_by :: "nat \<Rightarrow> pool_event list \<Rightarrow> async_msg list" where
  "dequeued_by w es = map (snd \<circ> snd) (filter (\<lambda>(v, k, am). v = w) (deqs es))"

definition written :: "nat \<Rightarrow> pool_event list \<Rightarrow> string list" where
  "written j es = map (snd \<circ> snd) (filter (\<lambda>(w, i, x). i = j) (wrotes es))"

definition written_by :: "nat \<Rightarrow> nat \<Rightarrow> pool_event list \<Rightarrow> string list" where
  "written_by w j es = map (snd \<circ> snd) (filter (\<lambda>(v, i, x). v = w \<and> i = j) (wrotes es))"

named_theorems trace

lemma map_filter_app: "List.map_filter f (xs @ ys) = List.map_filter f xs @ List.map_filter f ys"
  by (simp add: List.map_filter_def)

lemma trace_append [trace]:
  "enqueued (es @ es') = enqueued es @ enqueued es'" "enqueued_on l (es @ es') = enqueued_on l es @ enqueued_on l es'"
  "dequeued (es @ es') = dequeued es @ dequeued es'" "dequeued_on l (es @ es') = dequeued_on l es @ dequeued_on l es'"
  "dequeued_by w (es @ es') = dequeued_by w es @ dequeued_by w es'"
  "written j (es @ es') = written j es @ written j es'" "written_by w j (es @ es') = written_by w j es @ written_by w j es'"
  by (simp_all add: enqueued_def enqueued_on_def dequeued_def dequeued_on_def dequeued_by_def written_def
      written_by_def map_filter_app)

lemma trace_simps [trace]:
  "enqueued [] = []" "enqueued (Enqueued t l am # es) = am # enqueued es"
  "enqueued (Dequeued w l am # es) = enqueued es" "enqueued (Wrote w j x # es) = enqueued es"
  "enqueued_on k [] = []" "enqueued_on k (Enqueued t l am # es) = (if l = k then [am] else []) @ enqueued_on k es"
  "enqueued_on k (Dequeued w l am # es) = enqueued_on k es" "enqueued_on k (Wrote w j x # es) = enqueued_on k es"
  "dequeued [] = []" "dequeued (Dequeued w l am # es) = am # dequeued es"
  "dequeued (Enqueued t l am # es) = dequeued es" "dequeued (Wrote w j x # es) = dequeued es"
  "dequeued_on k [] = []" "dequeued_on k (Dequeued w l am # es) = (if l = k then [am] else []) @ dequeued_on k es"
  "dequeued_on k (Enqueued t l am # es) = dequeued_on k es" "dequeued_on k (Wrote w j x # es) = dequeued_on k es"
  "dequeued_by v [] = []" "dequeued_by v (Dequeued w l am # es) = (if w = v then [am] else []) @ dequeued_by v es"
  "dequeued_by v (Enqueued t l am # es) = dequeued_by v es" "dequeued_by v (Wrote w j x # es) = dequeued_by v es"
  "written i [] = []" "written i (Wrote w j x # es) = (if j = i then [x] else []) @ written i es"
  "written i (Enqueued t l am # es) = written i es" "written i (Dequeued w l am # es) = written i es"
  "written_by v i [] = []" "written_by v i (Wrote w j x # es) = (if w = v \<and> j = i then [x] else []) @ written_by v i es"
  "written_by v i (Enqueued t l am # es) = written_by v i es" "written_by v i (Dequeued w l am # es) = written_by v i es"
  by (simp_all add: enqueued_def enqueued_on_def dequeued_def dequeued_on_def dequeued_by_def written_def
      written_by_def map_filter_simps)

lemma worker_at_set [simp]:
  "worker_at (set_worker w p s) v p' \<longleftrightarrow> (if v = w then w < length (workers s) \<and> p' = p else worker_at s v p')"
  by (auto simp: worker_at_def set_worker_def nth_list_update)

lemma set_worker_fields [simp]:
  "queue (set_worker w p s) = queue s" "mem (set_worker w p s) = mem s" "alive (set_worker w p s) = alive s"
  "fulfilled (set_worker w p s) = fulfilled s" "next_promise (set_worker w p s) = next_promise s"
  "stops (set_worker w p s) = stops s" "length (workers (set_worker w p s)) = length (workers s)"
  by (simp_all add: set_worker_def)

lemma worker_at_fields [simp]:
  "worker_at (s\<lparr>queue := q\<rparr>) = worker_at s" "worker_at (s\<lparr>mem := h\<rparr>) = worker_at s"
  "worker_at (s\<lparr>alive := a\<rparr>) = worker_at s" "worker_at (s\<lparr>fulfilled := f\<rparr>) = worker_at s"
  "worker_at (s\<lparr>next_promise := n\<rparr>) = worker_at s" "worker_at (s\<lparr>stops := n\<rparr>) = worker_at s"
  by (simp_all add: worker_at_def fun_eq_iff)

lemma worker_at_length: "worker_at s w p \<Longrightarrow> w < length (workers s)"
  by (simp add: worker_at_def)

lemma worker_at_unique: "worker_at s w p \<Longrightarrow> worker_at s w p' \<Longrightarrow> p' = p"
  by (simp add: worker_at_def)

lemma pool_run_trans:
  "pool_run ops env lgs s0 es s \<Longrightarrow> pool_run ops env lgs s es' s' \<Longrightarrow> pool_run ops env lgs s0 (es @ es') s'"
proof (rotate_tac, induction rule: pool_run.induct)
  case (code es' s1 es2 s2)
  then show ?case using pool_run.code [of ops env lgs s0 "es @ es'" s1 es2 s2] by simp
next
  case (client es' s1 es2 s2)
  then show ?case using pool_run.client [of ops env lgs s0 "es @ es'" s1 es2 s2] by simp
qed simp

lemma step_workers:
  "pool_step ops env lgs s es s' \<Longrightarrow> length (workers s') = length (workers s) \<and>
     (\<forall>e \<in> set es. \<forall>w. event_worker e = Some w \<longrightarrow> w < length (workers s))"
  by (induction rule: pool_step.induct) (auto simp: worker_at_length)

lemma env_workers:
  "pool_env ops s es s' \<Longrightarrow> workers s' = workers s \<and> (\<forall>e \<in> set es. event_worker e = None)"
  by (induction rule: pool_env.induct) auto

lemma run_workers:
  "pool_run ops env lgs s0 es s \<Longrightarrow> length (workers s) = length (workers s0) \<and>
     (\<forall>e \<in> set es. \<forall>w. event_worker e = Some w \<longrightarrow> w < length (workers s0))"
  by (induction rule: pool_run.induct) (auto dest!: step_workers env_workers)

section \<open>Queues of lanes\<close>

text \<open>
  What the pools rely on: a queue is a number of lanes; a message is put at the end of one lane,
  and taken from the front of one.
\<close>

locale lane_queue =
  fixes ops :: "'q queue_ops"
    and lanes :: "'q \<Rightarrow> nat \<Rightarrow> async_msg list"
    and ok :: "'q \<Rightarrow> bool"
  assumes start_lanes: "ok q \<Longrightarrow> q_start ops w q = Some q' \<Longrightarrow> ok q' \<and> lanes q' = lanes q"
    and enq_lanes: "ok q \<Longrightarrow> q_enq ops t am q = Some (l, q') \<Longrightarrow> ok q' \<and> lanes q' = (lanes q)(l := lanes q l @ [am])"
    and deq_lanes: "ok q \<Longrightarrow> q_deq ops w l q = Some (am, q') \<Longrightarrow> ok q' \<and> lanes q l = am # lanes q' l \<and> lanes q' = (lanes q)(l := lanes q' l)"
    and stop_lanes: "ok q \<Longrightarrow> q_stop ops k am q = Some (l, q') \<Longrightarrow> ok q' \<and> lanes q' = (lanes q)(l := lanes q l @ [am])"
begin

lemma step_lanes:
  "pool_step ops env lgs s es s' \<Longrightarrow> ok (queue s) \<Longrightarrow>
     ok (queue s') \<and> lanes (queue s) l @ enqueued_on l es = dequeued_on l es @ lanes (queue s') l"
proof (induction rule: pool_step.induct)
  case (begin_loop s w q)
  then show ?case using start_lanes [OF begin_loop.prems begin_loop.hyps(2)] by (simp add: trace)
next
  case (pop s w k am q)
  note d = deq_lanes [OF pop.prems pop.hyps(2)]
  then have "lanes q l = lanes (queue s) l" if "l \<noteq> k" using that by (metis fun_upd_other)
  then show ?case using d by (auto simp: trace)
next
  case (flush_send s w k p ln q)
  then show ?case using enq_lanes [OF flush_send.prems flush_send.hyps(3)] by (simp add: trace)
next
  case (stop_worker s ln q)
  then show ?case using stop_lanes [OF stop_worker.prems stop_worker.hyps(3)] by (simp add: trace)
qed (simp_all add: trace)

lemma env_lanes:
  "pool_env ops s es s' \<Longrightarrow> ok (queue s) \<Longrightarrow>
     ok (queue s') \<and> lanes (queue s) l @ enqueued_on l es = dequeued_on l es @ lanes (queue s') l"
proof (induction rule: pool_env.induct)
  case (log_call s t k m ln q)
  then show ?case using enq_lanes [OF log_call.prems log_call.hyps(3)] by (simp add: trace)
next
  case (flush_call s t p k ln q)
  then show ?case using enq_lanes [OF flush_call.prems flush_call.hyps(4)] by (simp add: trace)
qed (simp_all add: trace)

lemma run_lanes:
  assumes "pool_run ops env lgs s0 es s" and "ok (queue s0)"
  shows "ok (queue s) \<and> lanes (queue s0) l @ enqueued_on l es = dequeued_on l es @ lanes (queue s) l"
  using assms
proof (induction rule: pool_run.induct)
  case start
  then show ?case by (simp add: trace)
next
  case (code es s es' s')
  then show ?case using step_lanes [OF code.hyps(2), of l] by (metis trace_append(2,4) append_assoc)
next
  case (client es s es' s')
  then show ?case using env_lanes [OF client.hyps(2), of l] by (metis trace_append(2,4) append_assoc)
qed

end

text \<open>The blocking queue has one lane.\<close>

definition lock_lanes :: "lock_queue \<Rightarrow> nat \<Rightarrow> async_msg list" where
  "lock_lanes q = (\<lambda>l. if l = 0 then cq_list q else [])"

lemma lock_enq_list:
  assumes "cq_invar q" and "max_size q \<noteq> 0" and "lock_enq am q = Some (l, q')"
  shows "cq_invar q'" and "max_size q' \<noteq> 0" and "cq_capacity q' = cq_capacity q" and "l = 0" and "cq_list q' = cq_list q @ [am]"
proof -
  have full: "\<not> cq_full q" and q': "q' = cq_push_back am q" and "l = 0"
    using assms(3) by (auto simp: lock_enq_def split: if_splits)
  then show "l = 0" by simp
  show "cq_invar q'" "cq_capacity q' = cq_capacity q" by (simp_all add: q' cq_push_back_spec assms(1))
  show "max_size q' \<noteq> 0" using assms(2) by (simp add: q' cq_push_back_def Let_def)
  have "length (cq_list q) < cq_capacity q"
    using full assms(1,2) cq_len_le_capacity [OF assms(1)] by (simp add: cq_full_iff) 
  then show "cq_list q' = cq_list q @ [am]" using cq.push_room [OF assms(1)] by (simp add: q')
qed

lemma lock_deq_list:
  assumes "cq_invar q" and "max_size q \<noteq> 0" and "lock_deq l q = Some (am, q')"
  shows "cq_invar q'" and "max_size q' \<noteq> 0" and "cq_capacity q' = cq_capacity q" and "l = 0" and "cq_list q = am # cq_list q'"
proof -
  have l: "l = 0" "\<not> cq_empty q" "cq_front q = Some am" "q' = cq_pop_front q"
    using assms(3) by (auto simp: lock_deq_def split: if_splits option.splits)
  then have ne: "cq_list q \<noteq> []" using cq_empty_iff [OF assms(1)] by simp
  show "l = 0" by (rule l)
  show "cq_invar q'" using cq_pop_front_spec(1) [OF assms(1) ne] by (simp add: l)
  show "max_size q' \<noteq> 0" "cq_capacity q' = cq_capacity q"
    using assms(2) by (simp_all add: l cq_pop_front_def cq_capacity_def Let_def)
  show "cq_list q = am # cq_list q'"
    using cq_front_list [OF assms(1) ne] cq_pop_front_spec(2) [OF assms(1) ne] l ne by simp
qed

lemma lock_lanes_simps: "lock_lanes q 0 = cq_list q" "l \<noteq> 0 \<Longrightarrow> lock_lanes q l = []"
  by (simp_all add: lock_lanes_def)

lemma lock_lanes_upd:
  "l = 0 \<Longrightarrow> lock_lanes q' = (lock_lanes q)(l := cq_list q')"
  by (simp add: lock_lanes_def fun_eq_iff)

definition lock_ok :: "nat \<Rightarrow> lock_queue \<Rightarrow> bool" where
  "lock_ok c q \<longleftrightarrow> cq_invar q \<and> max_size q \<noteq> 0 \<and> cq_capacity q = c"

interpretation lq: lane_queue lock_ops lock_lanes "lock_ok c" for c
proof unfold_locales
  fix q q' :: lock_queue and am l w t k
  assume ok: "lock_ok c q"
  then have ok1: "cq_invar q" "max_size q \<noteq> 0" by (simp_all add: lock_ok_def)
  { assume "q_start lock_ops w q = Some q'"
    then show "lock_ok c q' \<and> lock_lanes q' = lock_lanes q"
      using ok by (simp add: lock_ops_def) }
  { assume "q_deq lock_ops w l q = Some (am, q')"
    then have "lock_deq l q = Some (am, q')" by (simp add: lock_ops_def)
    note d = lock_deq_list [OF ok1 this]
    show "lock_ok c q' \<and> lock_lanes q l = am # lock_lanes q' l \<and> lock_lanes q' = (lock_lanes q)(l := lock_lanes q' l)"
      using d ok lock_lanes_upd [OF d(4), of q' q] by (simp add: lock_lanes_simps lock_ok_def) }
  have enq: "lock_ok c q' \<and> lock_lanes q' = (lock_lanes q)(l := lock_lanes q l @ [am])"
    if "lock_enq am q = Some (l, q')"
  proof -
    note e = lock_enq_list [OF ok1 that]
    show ?thesis using e ok lock_lanes_upd [OF e(4), of q' q] by (simp add: lock_lanes_simps lock_ok_def)
  qed
  { assume "q_enq lock_ops t am q = Some (l, q')"
    then show "lock_ok c q' \<and> lock_lanes q' = (lock_lanes q)(l := lock_lanes q l @ [am])"
      using enq by (simp add: lock_ops_def) }
  { assume "q_stop lock_ops k am q = Some (l, q')"
    then show "lock_ok c q' \<and> lock_lanes q' = (lock_lanes q)(l := lock_lanes q l @ [am])"
      using enq by (simp add: lock_ops_def) }
qed

section \<open>Every sink gets its lines\<close>

definition same_lines :: "'c sys_env \<Rightarrow> nat list \<Rightarrow> 'c heap \<Rightarrow> 'c heap \<Rightarrow> bool" where
  "same_lines env all h h' \<longleftrightarrow>
     (\<forall>i \<in> set all. line_at env h' i = line_at env h i \<and> sink_level (sink_at h' i) = sink_level (sink_at h i) \<and>
        printable (fenv env) (formatter (sink_at h' i)) = printable (fenv env) (formatter (sink_at h i)))"

lemma same_lines_refl [simp]: "same_lines env all h h"
  by (simp add: same_lines_def)

lemma same_lines_trans: "same_lines env all h h' \<Longrightarrow> same_lines env all h' h'' \<Longrightarrow> same_lines env all h h''"
  by (simp add: same_lines_def)

lemma same_setup_lines: "same_setup env all h h' \<Longrightarrow> same_lines env all h h'"
  by (simp add: same_setup_def same_lines_def)

lemma same_lines_printable: "same_lines env all h h' \<Longrightarrow> printable_at env h' all m = printable_at env h all m"
  by (simp add: same_lines_def printable_at_def)

lemma same_lines_sink:
  "same_lines env all h h' \<Longrightarrow> j \<in> set all \<Longrightarrow> line_at env h' j = line_at env h j"
  "same_lines env all h h' \<Longrightarrow> j \<in> set all \<Longrightarrow> sink_should_log lv (sink_at h' j) = sink_should_log lv (sink_at h j)"
  by (simp_all add: same_lines_def sink_should_log_def)

lemma reports_irrelevant [simp]:
  "heap_ok env all (h\<lparr>reports := r\<rparr>) = heap_ok env all h" "text_at (h\<lparr>reports := r\<rparr>) = text_at h"
  "same_lines env all h' (h\<lparr>reports := r\<rparr>) = same_lines env all h' h"
  by (simp_all add: heap_ok_def text_at_def line_at_def same_lines_def fun_eq_iff)

text \<open>The line a message is due to leave in a sink, and the one its worker has not written yet.\<close>

definition due :: "'c sys_env \<Rightarrow> (nat \<Rightarrow> logger) \<Rightarrow> 'c heap \<Rightarrow> nat \<Rightarrow> async_msg \<Rightarrow> string list" where
  "due env lgs h j am =
     (case am_logger am of
        None \<Rightarrow> []
      | Some l \<Rightarrow>
          if msg_type am = Log_type \<and> j \<in> set (lg_sinks (lgs l)) \<and> sink_should_log (level (lmb_msg (am_buf am))) (sink_at h j)
          then [line_at env h j (lmb_msg (am_buf am))] else [])"

fun pending :: "'c sys_env \<Rightarrow> 'c heap \<Rightarrow> nat \<Rightarrow> worker \<Rightarrow> string list" where
  "pending env h j (Logging l m is) = (if j \<in> set is \<and> sink_should_log (level m) (sink_at h j) then [line_at env h j m] else [])"
| "pending env h j _ = []"

fun busy_ok :: "'c sys_env \<Rightarrow> nat list \<Rightarrow> 'c heap \<Rightarrow> worker \<Rightarrow> bool" where
  "busy_ok env all h (Logging l m is) \<longleftrightarrow> set is \<subseteq> set all \<and> distinct is \<and> printable_at env h all m"
| "busy_ok env all h (Flushing p is) \<longleftrightarrow> set is \<subseteq> set all"
| "busy_ok env all h _ \<longleftrightarrow> True"

definition msg_ok :: "'c sys_env \<Rightarrow> nat list \<Rightarrow> 'c heap \<Rightarrow> async_msg \<Rightarrow> bool" where
  "msg_ok env all h am \<longleftrightarrow> (msg_type am = Log_type \<longrightarrow> printable_at env h all (lmb_msg (am_buf am)))"

definition loggers_ok :: "nat list \<Rightarrow> (nat \<Rightarrow> logger) \<Rightarrow> bool" where
  "loggers_ok all lgs \<longleftrightarrow> (\<forall>l. set (lg_sinks (lgs l)) \<subseteq> set all \<and> distinct (lg_sinks (lgs l)))"

definition write_inv ::
  "'c sys_env \<Rightarrow> (nat \<Rightarrow> logger) \<Rightarrow> nat list \<Rightarrow> 'c heap \<Rightarrow> pool_event list \<Rightarrow> ('q, 'c) pool \<Rightarrow> bool" where
  "write_inv env lgs all h es s \<longleftrightarrow>
     heap_ok env all (mem s) \<and> same_lines env all h (mem s) \<and>
     (\<forall>j \<in> set all. text_at (mem s) j = text_at h j @ concat (written j es)) \<and>
     (\<forall>w < length (workers s). busy_ok env all h (workers s ! w) \<and>
        (\<forall>j \<in> set all. concat (map (due env lgs h j) (dequeued_by w es)) =
           written_by w j es @ pending env h j (workers s ! w)))"

lemma write_invD:
  assumes "write_inv env lgs all h es s"
  shows "heap_ok env all (mem s)" and "same_lines env all h (mem s)"
    and "j \<in> set all \<Longrightarrow> text_at (mem s) j = text_at h j @ concat (written j es)"
    and "worker_at s w p \<Longrightarrow> busy_ok env all h p"
    and "worker_at s w p \<Longrightarrow> j \<in> set all \<Longrightarrow>
      concat (map (due env lgs h j) (dequeued_by w es)) = written_by w j es @ pending env h j p"
  using assms by (auto simp: write_inv_def worker_at_def)

lemma write_inv_move:
  assumes inv: "write_inv env lgs all h es s" and w: "worker_at s w p"
    and s': "workers s' = (workers s)[w := p']" and ok: "heap_ok env all (mem s')" "same_lines env all (mem s) (mem s')"
    and texts: "\<And>j. j \<in> set all \<Longrightarrow> text_at (mem s') j = text_at (mem s) j @ concat (written j es')"
    and busy: "busy_ok env all h p'"
    and mine: "\<And>j. j \<in> set all \<Longrightarrow>
      pending env h j p @ concat (map (due env lgs h j) (dequeued_by w es')) = written_by w j es' @ pending env h j p'"
    and others: "\<And>v j. v \<noteq> w \<Longrightarrow> dequeued_by v es' = [] \<and> written_by v j es' = []"
  shows "write_inv env lgs all h (es @ es') s'"
  unfolding write_inv_def
proof (intro conjI ballI allI impI)
  show "heap_ok env all (mem s')" by (rule ok)
  show "same_lines env all h (mem s')" using same_lines_trans [OF write_invD(2) [OF inv] ok(2)] .
  show "text_at (mem s') j = text_at h j @ concat (written j (es @ es'))" if "j \<in> set all" for j
    using that texts write_invD(3) [OF inv] by (simp add: trace)
  fix v
  assume v: "v < length (workers s')"
  then have v': "v \<noteq> w \<Longrightarrow> worker_at s v (workers s' ! v)" using s' by (simp add: worker_at_def)
  have here: "workers s' ! w = p'" using s' w by (simp add: worker_at_def)
  show "busy_ok env all h (workers s' ! v)"
    using busy here write_invD(4) [OF inv v'] by (cases "v = w") simp_all
  show "concat (map (due env lgs h j) (dequeued_by v (es @ es'))) =
      written_by v j (es @ es') @ pending env h j (workers s' ! v)" if j: "j \<in> set all" for j
  proof (cases "v = w")
    case True
    have "concat (map (due env lgs h j) (dequeued_by w (es @ es'))) =
        written_by w j es @ pending env h j p @ concat (map (due env lgs h j) (dequeued_by w es'))"
      using write_invD(5) [OF inv w j] by (simp add: trace)
    then show ?thesis using mine [OF j] here True by (simp add: trace)
  next
    case False
    then show ?thesis using write_invD(5) [OF inv v' j] others [OF False] by (simp add: trace)
  qed
qed

lemma try_sink_flush_ok:
  assumes "healthy (oenv env)" and "heap_ok env all h" and "i \<in> set all"
  shows "\<exists>h'. try_sink_flush env i h = (None, h') \<and> heap_ok env all h' \<and> same_setup env all h h' \<and>
     (\<forall>j \<in> set all. text_at h' j = text_at h j)"
  using sinks_flush_ok [OF assms(1,2), of "[i]"] assms(3)
  by (auto split: prod.splits option.splits)

lemma begin_msg_ok:
  assumes "loggers_ok all lgs" and "msg_ok env all h am"
  shows "busy_ok env all h (begin_msg lgs am)" and "pending env h j (begin_msg lgs am) = due env lgs h j am"
  using assms
  by (auto simp: begin_msg_def loggers_ok_def msg_ok_def due_def split: async_msg_type.split option.split)

lemma dead_reports: "async_call_dead func h = (e, h') \<Longrightarrow> \<exists>r. h' = h\<lparr>reports := r\<rparr>"
  by (auto simp: async_call_dead_def caught_def split: prod.splits)

lemma step_write_inv:
  assumes step: "pool_step ops env lgs s es' s'" and env: "healthy (oenv env)" and lgs: "loggers_ok all lgs"
    and inv: "write_inv env lgs all h es s" and msgs: "\<forall>am \<in> set (dequeued es'). msg_ok env all h am"
  shows "write_inv env lgs all h (es @ es') s'"
  using step
proof cases
  case (begin_loop w q)
  then show ?thesis using write_invD(1) [OF inv]
    by (intro write_inv_move [OF inv begin_loop(3)]) (auto simp: trace set_worker_def)
next
  case (pop w l am q)
  have "msg_ok env all h am" using msgs pop(1) by (simp add: trace)
  note b = begin_msg_ok [OF lgs this]
  show ?thesis using pop write_invD(1) [OF inv] b
    by (intro write_inv_move [OF inv pop(3)]) (auto simp: trace set_worker_def)
next
  case (log_sink w l m i "is" m' g)
  note busy = write_invD(4) [OF inv log_sink(3)]
  have i: "i \<in> set all" and p: "printable_at env (mem s) all m"
    using busy same_lines_printable [OF write_invD(2) [OF inv]] by auto
  have t: "same_msg m m'" "heap_ok env all g" "same_setup env all (mem s) g"
    "\<forall>j \<in> set all. text_at g j = text_at (mem s) j @ (if j = i then line_at env (mem s) i m else [])"
    using try_sink_log_ok [OF env write_invD(1) [OF inv] i p] log_sink(5) by auto
  have line: "line_at env (mem s) i m = line_at env h i m" "sink_should_log (level m) (sink_at h i)"
    using same_lines_sink [OF write_invD(2) [OF inv] i] log_sink(4) by simp_all
  have m': "level m' = level m" "line_at env h j m' = line_at env h j m" "printable_at env h all m' = printable_at env h all m" for j
    by (simp_all add: line_at_def same_msg_line [OF t(1)] same_msg_printable [OF t(1)])
  show ?thesis using log_sink(1,2) t busy line m' same_setup_lines [OF t(3)]
    by (intro write_inv_move [OF inv log_sink(3)]) (auto simp: trace set_worker_def)
next
  case (skip_sink w l m i "is")
  note busy = write_invD(4) [OF inv skip_sink(3)]
  have "\<not> sink_should_log (level m) (sink_at h i)"
    using same_lines_sink(2) [OF write_invD(2) [OF inv], of i] busy skip_sink(4) by simp
  then show ?thesis using skip_sink(1,2) busy write_invD(1) [OF inv]
    by (intro write_inv_move [OF inv skip_sink(3)]) (auto simp: trace set_worker_def)
next
  case (logged w l m)
  then show ?thesis using write_invD(1) [OF inv]
    by (intro write_inv_move [OF inv logged(3)]) (auto simp: trace set_worker_def)
next
  case (flush_lock w l)
  then show ?thesis using write_invD(1) [OF inv]
    by (intro write_inv_move [OF inv flush_lock(3)]) (auto simp: trace set_worker_def)
next
  case (flush_dead w l g)
  then obtain r where "g = (mem s)\<lparr>reports := r\<rparr>" using dead_reports by blast
  then show ?thesis using flush_dead write_invD(1) [OF inv]
    by (intro write_inv_move [OF inv flush_dead(3)]) (auto simp: trace set_worker_def)
next
  case (flush_send w l p ln q)
  then show ?thesis using write_invD(1) [OF inv]
    by (intro write_inv_move [OF inv flush_send(3)]) (auto simp: trace set_worker_def)
next
  case (awaited w p)
  then show ?thesis using write_invD(1) [OF inv]
    by (intro write_inv_move [OF inv awaited(3)]) (auto simp: trace set_worker_def)
next
  case (flush_one w p i "is" g)
  have "i \<in> set all" using write_invD(4) [OF inv flush_one(3)] by simp
  then have "heap_ok env all g \<and> same_setup env all (mem s) g \<and> (\<forall>j \<in> set all. text_at g j = text_at (mem s) j)"
    using try_sink_flush_ok [OF env write_invD(1) [OF inv]] flush_one(4) by fastforce
  then show ?thesis using flush_one write_invD(4) [OF inv flush_one(3)] same_setup_lines
    by (intro write_inv_move [OF inv flush_one(3)]) (auto simp: trace set_worker_def)
next
  case (flushed w p)
  then show ?thesis using write_invD(1) [OF inv]
    by (intro write_inv_move [OF inv flushed(3)]) (auto simp: trace set_worker_def)
next
  case (stop_worker ln q)
  then show ?thesis using inv by (simp add: write_inv_def trace)
qed

lemma env_write_inv:
  "pool_env ops s es' s' \<Longrightarrow> write_inv env lgs all h es s \<Longrightarrow> write_inv env lgs all h (es @ es') s'"
  by (induction rule: pool_env.induct) (auto simp: write_inv_def trace dest!: dead_reports)

lemma run_write_inv:
  assumes run: "pool_run ops env lgs (pool_start k q h) es s" and env: "healthy (oenv env)" and lgs: "loggers_ok all lgs"
    and h: "heap_ok env all h" and msgs: "\<forall>am \<in> set (dequeued es). msg_ok env all h am"
  shows "write_inv env lgs all h es s"
  using run msgs
proof (induction rule: pool_run.induct)
  case start
  show ?case using h by (simp add: write_inv_def pool_start_def trace)
next
  case (code es s es' s')
  then show ?case using step_write_inv [OF code.hyps(2) env lgs code.IH] by (auto simp: trace)
next
  case (client es s es' s')
  then show ?case using env_write_inv [OF client.hyps(2) client.IH] by (auto simp: trace)
qed


section \<open>The order of the blocking queue\<close>

lemma lock_pool_newE:
  assumes "lock_pool_new n k h = Inr s0" and "n \<noteq> - 1"
  obtains q where "s0 = pool_start (unat k) q h" and "lock_ok (unat n) q" and "cq_list q = []" and "0 < unat k"
proof -
  obtain p where p: "pool_new Lock n k = Inr p" using assms(1) by (auto simp: lock_pool_new_def split: sum.splits)
  then have pf: "msg_q_size p = n" "threads_num p = k" and k: "0 < unat k"
    by (auto simp: pool_new_def unat_gt_0 split: if_splits)
  then obtain q where q: "cq_new async_msg_default n = Inr q" and s0: "s0 = pool_start (unat k) q h"
    using assms(1) p by (auto simp: lock_pool_new_def split: sum.splits)
  have "max_size q \<noteq> 0" using cq_new_abs [OF q] assms(2) by (auto simp: cq_abs_def split: if_splits)
  then show thesis
    using that [OF s0] cq_new_invar [OF q] cq_new_capacity [OF q] cq_new_list [OF q] assms(2) k
    by (simp add: lock_ok_def)
qed

lemma lock_enq_0: "lock_enq am q = Some (l, q') \<Longrightarrow> l = 0"
  by (simp add: lock_enq_def split: if_splits)

lemma lock_deq_0: "lock_deq l q = Some (am, q') \<Longrightarrow> l = 0"
  by (simp add: lock_deq_def split: if_splits)

lemma lock_step_lane:
  "pool_step lock_ops env lgs s es s' \<Longrightarrow> enqueued_on 0 es = enqueued es \<and> dequeued_on 0 es = dequeued es"
  by (induction rule: pool_step.induct) (auto simp: trace lock_ops_def dest!: lock_enq_0 lock_deq_0)

lemma lock_env_lane:
  "pool_env lock_ops s es s' \<Longrightarrow> enqueued_on 0 es = enqueued es \<and> dequeued_on 0 es = dequeued es"
  by (induction rule: pool_env.induct) (auto simp: trace lock_ops_def dest!: lock_enq_0)

lemma lock_run_lane:
  "pool_run lock_ops env lgs s0 es s \<Longrightarrow> enqueued_on 0 es = enqueued es \<and> dequeued_on 0 es = dequeued es"
  by (induction rule: pool_run.induct) (auto simp: trace dest!: lock_step_lane lock_env_lane)

lemma lock_run_queue:
  assumes "pool_run lock_ops env lgs (pool_start k q h) es s" and "lock_ok c q" and "cq_list q = []"
  shows "lock_ok c (queue s)" and "enqueued es = dequeued es @ cq_list (queue s)"
  using lq.run_lanes [OF assms(1), of c 0] assms(2,3) lock_run_lane [OF assms(1)]
  by (simp_all add: pool_start_def lock_lanes_simps)

section \<open>Adding up the workers\<close>

lemma mset_by_worker:
  assumes "\<forall>e \<in> set es. \<forall>w. event_worker e = Some w \<longrightarrow> w < n"
  shows "mset (written j es) = (\<Sum>w<n. mset (written_by w j es))"
    and "mset (dequeued es) = (\<Sum>w<n. mset (dequeued_by w es))"
proof -
  have "mset (written j es) = (\<Sum>w<n. mset (written_by w j es)) \<and> mset (dequeued es) = (\<Sum>w<n. mset (dequeued_by w es))"
    using assms
  proof (induction es)
    case (Cons e es)
    have one: "(\<Sum>v<n. mset (if w = v then xs else [])) = mset xs" if "w < n" for w and xs :: "'b list"
      using that sum.delta' [of "{..<n}" w "\<lambda>_. mset xs"] by (simp add: if_distrib [of mset] cong: if_cong)
    show ?case
    proof (cases e)
      case (Dequeued w l am)
      then have "w < n" using Cons.prems by simp
      then show ?thesis using Cons Dequeued one [of w "[am]"] by (simp add: trace sum.distrib)
    next
      case (Wrote w i x)
      then have "w < n" using Cons.prems by simp
      have "(\<Sum>v<n. mset (if w = v \<and> i = j then [x] else [])) = mset (if i = j then [x] else [])"
        using one [OF \<open>w < n\<close>, of "[x]"] by (cases "i = j") simp_all
      then show ?thesis using Cons Wrote by (simp add: trace sum.distrib)
    qed (use Cons in \<open>simp add: trace\<close>)
  qed (simp add: trace)
  then show "mset (written j es) = (\<Sum>w<n. mset (written_by w j es))"
    "mset (dequeued es) = (\<Sum>w<n. mset (dequeued_by w es))" by simp_all
qed

lemma mset_concat_map: "mset (concat (map f xs)) = (\<Sum>x\<in>#mset xs. mset (f x))"
  by (induction xs) simp_all

lemma sum_workers: "(\<Sum>w<length ws. f (ws ! w)) = (\<Sum>p\<in>#mset ws. f p)"
  by (induction ws rule: rev_induct) (simp_all add: nth_append ac_simps)

lemma write_inv_total:
  assumes inv: "write_inv env lgs all h es s" and n: "length (workers s) = n"
    and ev: "\<forall>e \<in> set es. \<forall>w. event_worker e = Some w \<longrightarrow> w < n" and j: "j \<in> set all"
  shows "mset (written j es) + (\<Sum>p\<in>#mset (workers s). mset (pending env h j p)) =
    mset (concat (map (due env lgs h j) (dequeued es)))"
proof -
  let ?f = "due env lgs h j"
  have by_w: "mset (concat (map ?f (dequeued_by w es))) = mset (written_by w j es) + mset (pending env h j (workers s ! w))"
    if "w < n" for w
    using write_invD(5) [OF inv _ j, of w "workers s ! w"] that n by (simp add: worker_at_def)
  have "(\<Sum>x\<in>#(\<Sum>w<m. M w). mset (?f x)) = (\<Sum>w<m. \<Sum>x\<in>#M w. mset (?f x))" for m :: nat and M
    by (induction m) simp_all
  then have "mset (concat (map ?f (dequeued es))) = (\<Sum>w<n. mset (concat (map ?f (dequeued_by w es))))"
    by (simp add: mset_concat_map mset_by_worker(2) [OF ev])
  also have "\<dots> = (\<Sum>w<n. mset (written_by w j es)) + (\<Sum>w<n. mset (pending env h j (workers s ! w)))"
    using by_w by (simp add: sum.distrib)
  finally show ?thesis
    using mset_by_worker(1) [OF ev, of j] sum_workers [of "\<lambda>p. mset (pending env h j p)" "workers s"] n by simp
qed


section \<open>Promises and terminate messages\<close>

text \<open>Messages as the pool makes them, and workers that came from such messages.\<close>

definition made_msg :: "nat \<Rightarrow> async_msg \<Rightarrow> bool" where
  "made_msg n am \<longleftrightarrow> (msg_type am \<noteq> Terminate_type \<longrightarrow> am_logger am \<noteq> None) \<and>
     (msg_type am = Flush_type \<longrightarrow> flush_promise am \<noteq> None) \<and> (\<forall>p. flush_promise am = Some p \<longrightarrow> p < n)"

fun made_worker :: "nat \<Rightarrow> worker \<Rightarrow> bool" where
  "made_worker n (Flushing p is) \<longleftrightarrow> p \<noteq> None \<and> the p < n"
| "made_worker n Crashed \<longleftrightarrow> False"
| "made_worker n _ \<longleftrightarrow> True"

text \<open>The flush messages that were taken out are done or at work.\<close>

definition promise_inv :: "pool_event list \<Rightarrow> ('q, 'c) pool \<Rightarrow> bool" where
  "promise_inv es s \<longleftrightarrow>
     (\<forall>am \<in> set (enqueued es). made_msg (next_promise s) am) \<and> (\<forall>p \<in> set (fulfilled s). p < next_promise s) \<and>
     (\<forall>p \<in> set (workers s). made_worker (next_promise s) p) \<and>
     (\<forall>am \<in> set (dequeued es). \<forall>p. msg_type am = Flush_type \<and> flush_promise am = Some p \<longrightarrow>
        p \<in> set (fulfilled s) \<or> (\<exists>is. Flushing (Some p) is \<in> set (workers s)))"

lemma made_mono: "made_msg n am \<Longrightarrow> n \<le> n' \<Longrightarrow> made_msg n' am" "made_worker n p \<Longrightarrow> n \<le> n' \<Longrightarrow> made_worker n' p"
  by (auto simp: made_msg_def elim!: made_worker.elims)

lemma made_msg_new [simp]:
  "made_msg n (async_log_msg l m)" "made_msg (Suc n) (async_flush_msg l n)" "made_msg n async_terminate_msg"
  by (simp_all add: made_msg_def async_log_msg_def async_flush_msg_def async_terminate_msg_def)

lemma made_begin: "made_msg n am \<Longrightarrow> made_worker n (begin_msg lgs am)"
  by (auto simp: made_msg_def begin_msg_def split: async_msg_type.split option.split)

lemma set_worker_set: "worker_at s w p \<Longrightarrow> x \<in> set (workers s) \<Longrightarrow> x \<noteq> p \<Longrightarrow> x \<in> set ((workers s)[w := p'])"
  by (metis in_set_conv_nth length_list_update nth_list_update_neq worker_at_def)

lemma promise_inv_move:
  assumes inv: "promise_inv es s" and w: "worker_at s w p" and s': "workers s' = (workers s)[w := p']"
    and n: "next_promise s \<le> next_promise s'" and ms: "\<forall>am \<in> set (enqueued es'). made_msg (next_promise s') am"
    and made: "made_worker (next_promise s') p'" and full: "set (fulfilled s) \<subseteq> set (fulfilled s')"
    and new: "\<forall>k \<in> set (fulfilled s'). k \<in> set (fulfilled s) \<or> (\<exists>is. p = Flushing (Some k) is)"
    and flush: "\<And>k is. p = Flushing (Some k) is \<Longrightarrow> k \<in> set (fulfilled s') \<or> (\<exists>js. p' = Flushing (Some k) js)"
    and deq: "\<And>am k. am \<in> set (dequeued es') \<Longrightarrow> msg_type am = Flush_type \<Longrightarrow> flush_promise am = Some k \<Longrightarrow>
      \<exists>is. p' = Flushing (Some k) is"
  shows "promise_inv (es @ es') s'"
proof -
  have p: "p \<in> set (workers s)" "w < length (workers s)" using w by (auto simp: worker_at_def)
  have here: "p' \<in> set (workers s')" using s' p(2) by (simp add: set_update_memI)
  have pending: "k \<in> set (fulfilled s') \<or> (\<exists>is. Flushing (Some k) is \<in> set (workers s'))"
    if "Flushing (Some k) is \<in> set (workers s)" for k "is"
  proof (cases "Flushing (Some k) is = p")
    case True
    then show ?thesis using flush [of k "is"] here by auto
  next
    case False
    then show ?thesis using set_worker_set [OF w that] s' by auto
  qed
  have "made_worker (next_promise s') x" if "x \<in> set (workers s')" for x
    using that made made_mono(2) [OF _ n] inv set_update_subset_insert [of "workers s" w p'] s'
    by (auto simp: promise_inv_def)
  moreover have "k < next_promise s'" if k: "k \<in> set (fulfilled s')" for k
  proof -
    consider "k \<in> set (fulfilled s)" | "is" where "p = Flushing (Some k) is" using new k by blast
    then have "k < next_promise s" using inv p(1) by cases (auto simp: promise_inv_def)
    then show ?thesis using n by simp
  qed
  moreover have "made_msg (next_promise s') am" if "am \<in> set (enqueued (es @ es'))" for am
    using that ms inv made_mono(1) [OF _ n] by (auto simp: promise_inv_def trace)
  moreover have "k \<in> set (fulfilled s') \<or> (\<exists>is. Flushing (Some k) is \<in> set (workers s'))"
    if am: "am \<in> set (dequeued (es @ es'))" "msg_type am = Flush_type" "flush_promise am = Some k" for am k
  proof (cases "am \<in> set (dequeued es)")
    case True
    then have "k \<in> set (fulfilled s) \<or> (\<exists>is. Flushing (Some k) is \<in> set (workers s))"
      using inv am by (auto simp: promise_inv_def)
    then show ?thesis using full pending by blast
  next
    case False
    then show ?thesis using deq [of am k] am here by (auto simp: trace)
  qed
  ultimately show ?thesis by (auto simp: promise_inv_def)
qed

lemma step_promise_inv:
  assumes step: "pool_step ops env lgs s es' s'" and inv: "promise_inv es s"
    and sub: "set (dequeued es') \<subseteq> set (enqueued es)"
  shows "promise_inv (es @ es') s'"
proof -
  have w_made: "made_worker (next_promise s) p" if "worker_at s w p" for w p
    using that inv by (auto simp: promise_inv_def worker_at_def)
  show ?thesis
    using step
  proof cases
    case (pop w l am q)
    have made: "made_msg (next_promise s) am" using sub pop(1) inv by (auto simp: promise_inv_def trace)
    then have "\<exists>is. begin_msg lgs am = Flushing (Some k) is" if "msg_type am = Flush_type" "flush_promise am = Some k" for k
      using that by (auto simp: begin_msg_def made_msg_def split: option.split)
    then show ?thesis using pop made_begin [OF made]
      by (intro promise_inv_move [OF inv pop(3)]) (auto simp: trace set_worker_def)
  next
    case (flush_send w l p ln q)
    then show ?thesis by (intro promise_inv_move [OF inv flush_send(3)]) (auto simp: trace set_worker_def)
  next
    case (flush_one w p i "is" g)
    then show ?thesis using w_made [OF flush_one(3)]
      by (intro promise_inv_move [OF inv flush_one(3)]) (auto simp: trace set_worker_def)
  next
    case (flushed w p)
    then show ?thesis using w_made [OF flushed(3)]
      by (intro promise_inv_move [OF inv flushed(3)]) (auto simp: trace set_worker_def)
  next
    case (stop_worker ln q)
    then show ?thesis using inv by (simp add: promise_inv_def trace)
  next
    case (begin_loop w q)
    then show ?thesis by (intro promise_inv_move [OF inv begin_loop(3)]) (auto simp: trace set_worker_def)
  next
    case (log_sink w l m i "is" m' g)
    then show ?thesis by (intro promise_inv_move [OF inv log_sink(3)]) (auto simp: trace set_worker_def)
  next
    case (skip_sink w l m i "is")
    then show ?thesis by (intro promise_inv_move [OF inv skip_sink(3)]) (auto simp: trace set_worker_def)
  next
    case (logged w l m)
    then show ?thesis by (intro promise_inv_move [OF inv logged(3)]) (auto simp: trace set_worker_def)
  next
    case (flush_lock w l)
    then show ?thesis by (intro promise_inv_move [OF inv flush_lock(3)]) (auto simp: trace set_worker_def)
  next
    case (flush_dead w l g)
    then show ?thesis by (intro promise_inv_move [OF inv flush_dead(3)]) (auto simp: trace set_worker_def)
  next
    case (awaited w p)
    then show ?thesis by (intro promise_inv_move [OF inv awaited(3)]) (auto simp: trace set_worker_def)
  qed
qed

lemma env_promise_inv:
  assumes "pool_env ops s es' s'" and inv: "promise_inv es s"
  shows "promise_inv (es @ es') s'"
  using assms(1)
proof cases
  case (log_call t l m ln q)
  then show ?thesis using inv by (simp add: promise_inv_def trace)
next
  case (flush_call t p l ln q)
  then show ?thesis
    using inv made_mono [of "next_promise s" _ "Suc (next_promise s)"]
    by (auto simp: promise_inv_def trace less_Suc_eq)
next
  case drop_pool
  then show ?thesis using inv by (simp add: promise_inv_def)
next
  case (dead_call func g)
  then show ?thesis using inv by (simp add: promise_inv_def)
qed


lemma step_one_event: "pool_step ops env lgs s es s' \<Longrightarrow> dequeued es = [] \<or> enqueued es = []"
  by (induction rule: pool_step.induct) (simp_all add: trace)

lemma lock_step_sub:
  assumes run: "pool_run lock_ops env lgs (pool_start k q h) es s" and q: "lock_ok c q" "cq_list q = []"
    and step: "pool_step lock_ops env lgs s es' s'"
  shows "set (dequeued es') \<subseteq> set (enqueued es)"
proof -
  have "enqueued (es @ es') = dequeued (es @ es') @ cq_list (queue s')"
    using lock_run_queue(2) [OF pool_run.code [OF run step] q] .
  then show ?thesis using step_one_event [OF step] lock_run_queue(2) [OF run q]
    by (auto simp: trace)
qed

lemma lock_run_promise:
  assumes run: "pool_run lock_ops env lgs (pool_start k q h) es s" and q: "lock_ok c q" "cq_list q = []"
  shows "promise_inv es s"
  using run
proof (induction rule: pool_run.induct)
  case start
  show ?case by (simp add: promise_inv_def pool_start_def trace)
next
  case (code es s es' s')
  show ?case using step_promise_inv [OF code.hyps(2) code.IH lock_step_sub [OF code.hyps(1) q code.hyps(2)]] .
next
  case (client es s es' s')
  show ?case using env_promise_inv [OF client.hyps(2) client.IH] .
qed

text \<open>
  Terminate messages come last, and each one taken out has ended a worker. Nothing is said to
  wait for ever here: that is so if no message reaches the flush level of its logger.
\<close>

definition quiet_msg :: "(nat \<Rightarrow> logger) \<Rightarrow> async_msg \<Rightarrow> bool" where
  "quiet_msg lgs am \<longleftrightarrow>
     (\<forall>l. msg_type am = Log_type \<and> am_logger am = Some l \<longrightarrow> \<not> should_flush (lgs l) (level (lmb_msg (am_buf am))))"

fun quiet_worker :: "(nat \<Rightarrow> logger) \<Rightarrow> worker \<Rightarrow> bool" where
  "quiet_worker lgs (Logging l m is) \<longleftrightarrow> \<not> should_flush (lgs l) (level m)"
| "quiet_worker lgs (Flush_call l) \<longleftrightarrow> False"
| "quiet_worker lgs (Flush_send l) \<longleftrightarrow> False"
| "quiet_worker lgs (Awaiting p) \<longleftrightarrow> False"
| "quiet_worker lgs Self_destroy \<longleftrightarrow> False"
| "quiet_worker lgs _ \<longleftrightarrow> True"

definition exits :: "worker list \<Rightarrow> nat" where
  "exits ws = length (filter (\<lambda>p. p = Exited) ws)"

definition is_stop :: "async_msg \<Rightarrow> bool" where
  "is_stop am \<longleftrightarrow> msg_type am = Terminate_type"

definition stop_inv :: "(nat \<Rightarrow> logger) \<Rightarrow> pool_event list \<Rightarrow> ('q, 'c) pool \<Rightarrow> bool" where
  "stop_inv lgs es s \<longleftrightarrow>
     (\<forall>p \<in> set (workers s). quiet_worker lgs p) \<and> stops s \<le> length (workers s) \<and> (alive s \<longrightarrow> stops s = 0) \<and>
     (\<exists>as. enqueued es = as @ replicate (stops s) async_terminate_msg \<and> (\<forall>am \<in> set as. \<not> is_stop am)) \<and>
     exits (workers s) = length (filter is_stop (dequeued es))"

lemma exits_upd:
  assumes "worker_at s w p"
  shows "exits ((workers s)[w := p']) + (if p = Exited then 1 else 0) = exits (workers s) + (if p' = Exited then 1 else 0)"
proof -
  have w: "w < length (workers s)" and p: "workers s ! w = p" using assms by (auto simp: worker_at_def)
  have "filter (\<lambda>p. p = Exited) (workers s) =
      filter (\<lambda>p. p = Exited) (take w (workers s) @ p # drop (Suc w) (workers s))"
    using id_take_nth_drop [OF w] p by simp
  then show ?thesis using w by (simp add: exits_def upd_conv_take_nth_drop)
qed

lemma exits_all:
  assumes "exits ws = length ws" and "p \<in> set ws"
  shows "p = Exited"
  using length_filter_less [of p ws "\<lambda>p. p = Exited"] assms by (auto simp: exits_def)

lemma stop_inv_move:
  assumes inv: "stop_inv lgs es s" and w: "worker_at s w p" and s': "workers s' = (workers s)[w := p']"
    and same: "stops s' = stops s" "alive s' = alive s" and e: "enqueued es' = []"
    and p: "p \<noteq> Exited" and quiet: "quiet_worker lgs p'"
    and d: "length (filter is_stop (dequeued es')) = (if p' = Exited then 1 else 0)"
  shows "stop_inv lgs (es @ es') s'"
  using assms exits_upd [OF w, of p'] set_update_subset_insert [of "workers s" w p']
  by (auto simp: stop_inv_def trace)

lemma begin_quiet:
  assumes "quiet_msg lgs am" and "made_msg n am"
  shows "quiet_worker lgs (begin_msg lgs am)" and "begin_msg lgs am = Exited \<longleftrightarrow> is_stop am"
  using assms
  by (auto simp: quiet_msg_def made_msg_def begin_msg_def is_stop_def split: async_msg_type.split option.split)

lemma step_stop_inv:
  assumes step: "pool_step ops env lgs s es' s'" and inv: "stop_inv lgs es s"
    and wr: "healthy (oenv env)" "write_inv env lgs all h es s"
    and msgs: "\<forall>am \<in> set (dequeued es'). quiet_msg lgs am \<and> made_msg n am"
  shows "stop_inv lgs (es @ es') s'"
proof -
  have quiet: "quiet_worker lgs p" if "worker_at s w p" for w p
    using that inv by (auto simp: stop_inv_def worker_at_def)
  show ?thesis
    using step
  proof cases
    case (begin_loop w q)
    then show ?thesis by (intro stop_inv_move [OF inv begin_loop(3)]) (auto simp: trace set_worker_def)
  next
    case (pop w l am q)
    have "quiet_msg lgs am" "made_msg n am" using msgs pop(1) by (simp_all add: trace)
    note b = begin_quiet [OF this]
    show ?thesis using pop b by (intro stop_inv_move [OF inv pop(3)]) (auto simp: trace set_worker_def)
  next
    case (log_sink w l m i "is" m' g)
    have i: "i \<in> set all" and p: "printable_at env (mem s) all m"
      using write_invD(4) [OF wr(2) log_sink(3)] same_lines_printable [OF write_invD(2) [OF wr(2)]] by auto
    have "same_msg m m'" using try_sink_log_ok [OF wr(1) write_invD(1) [OF wr(2)] i p] log_sink(5) by auto
    then have "level m' = level m" by (rule same_msg_line(3))
    then show ?thesis using log_sink quiet [OF log_sink(3)]
      by (intro stop_inv_move [OF inv log_sink(3)]) (auto simp: trace set_worker_def)
  next
    case (skip_sink w l m i "is")
    then show ?thesis using quiet [OF skip_sink(3)]
      by (intro stop_inv_move [OF inv skip_sink(3)]) (auto simp: trace set_worker_def)
  next
    case (logged w l m)
    then show ?thesis using quiet [OF logged(3)]
      by (intro stop_inv_move [OF inv logged(3)]) (auto simp: trace set_worker_def)
  next
    case (flush_one w p i "is" g)
    then show ?thesis by (intro stop_inv_move [OF inv flush_one(3)]) (auto simp: trace set_worker_def)
  next
    case (flushed w p)
    then show ?thesis by (intro stop_inv_move [OF inv flushed(3)]) (auto simp: trace set_worker_def)
  next
    case (stop_worker ln q)
    then have "enqueued es @ [async_terminate_msg] = as @ replicate (Suc (stops s)) async_terminate_msg"
      if "enqueued es = as @ replicate (stops s) async_terminate_msg" for as
      using that by (simp flip: replicate_append_same)
    then show ?thesis using stop_worker inv by (auto simp: stop_inv_def trace lockable_def)
  qed (use quiet in force)+
qed

lemma quiet_lockable: "stop_inv lgs es s \<Longrightarrow> lockable s = alive s"
  by (auto simp: stop_inv_def lockable_def elim!: holds_pool.elims)

lemma env_stop_inv:
  "pool_env ops s es' s' \<Longrightarrow> stop_inv lgs es s \<Longrightarrow> stop_inv lgs (es @ es') s'"
  by (induction rule: pool_env.induct)
    (auto simp: stop_inv_def trace is_stop_def async_log_msg_def async_flush_msg_def dest!: quiet_lockable [THEN iffD1, rotated])

lemma lock_run_stop:
  assumes run: "pool_run lock_ops env lgs (pool_start k q h) es s" and q: "lock_ok c q" "cq_list q = []"
    and env: "healthy (oenv env)" and lgs: "loggers_ok all lgs" and h: "heap_ok env all h"
    and msgs: "\<forall>am \<in> set (enqueued es). msg_ok env all h am \<and> quiet_msg lgs am"
  shows "stop_inv lgs es s"
  using run msgs
proof (induction rule: pool_run.induct)
  case start
  show ?case by (simp add: stop_inv_def pool_start_def trace exits_def)
next
  case (code es s es' s')
  have msgs: "\<forall>am \<in> set (enqueued es). msg_ok env all h am \<and> quiet_msg lgs am" using code.prems by (simp add: trace)
  have "set (dequeued es) \<subseteq> set (enqueued es)" using lock_run_queue(2) [OF code.hyps(1) q] by simp
  then have "write_inv env lgs all h es s"
    using run_write_inv [OF code.hyps(1) env lgs h] msgs by blast
  moreover have "\<forall>am \<in> set (dequeued es'). quiet_msg lgs am \<and> made_msg (next_promise s) am"
    using lock_step_sub [OF code.hyps(1) q code.hyps(2)] msgs lock_run_promise [OF code.hyps(1) q]
    by (auto simp: promise_inv_def)
  ultimately show ?case using step_stop_inv [OF code.hyps(2) code.IH [OF msgs] env] by blast
next
  case (client es s es' s')
  then show ?case using env_stop_inv [OF client.hyps(2)] by (simp add: trace)
qed


section \<open>Rest\<close>

text \<open>How many steps of the code are left, at most, without new calls.\<close>

definition flush_cost :: "(nat \<Rightarrow> logger) \<Rightarrow> nat \<Rightarrow> nat" where
  "flush_cost lgs l = length (lg_sinks (lgs l)) + 4"

fun worker_cost :: "(nat \<Rightarrow> logger) \<Rightarrow> worker \<Rightarrow> nat" where
  "worker_cost lgs Starting = 1"
| "worker_cost lgs (Logging l m is) = length is + 3 + flush_cost lgs l"
| "worker_cost lgs (Flush_call l) = 2 + flush_cost lgs l"
| "worker_cost lgs (Flush_send l) = 1 + flush_cost lgs l"
| "worker_cost lgs (Awaiting p) = 1"
| "worker_cost lgs (Flushing p is) = length is + 1"
| "worker_cost lgs _ = 0"

definition msg_cost :: "(nat \<Rightarrow> logger) \<Rightarrow> async_msg \<Rightarrow> nat" where
  "msg_cost lgs am = 1 + worker_cost lgs (begin_msg lgs am)"

definition pool_cost :: "(nat \<Rightarrow> logger) \<Rightarrow> (lock_queue, 'c) pool \<Rightarrow> nat" where
  "pool_cost lgs s = sum_list (map (worker_cost lgs) (workers s)) + sum_list (map (msg_cost lgs) (cq_list (queue s))) +
     2 * (length (workers s) - stops s)"

lemma sum_list_upd:
  "worker_at s w p \<Longrightarrow> sum_list (map f ((workers s)[w := p'])) + f p = sum_list (map f (workers s)) + (f p' :: nat)"
  using sum_list_update [of w "map f (workers s)" "f p'"] member_le_sum_list [of "f p" "map f (workers s)"]
  by (auto simp: worker_at_def map_update)

lemma pool_cost_less:
  assumes "worker_at s w p" and "workers s' = (workers s)[w := p']" and "stops s' = stops s"
    and "worker_cost lgs p' + sum_list (map (msg_cost lgs) (cq_list (queue s'))) <
      worker_cost lgs p + sum_list (map (msg_cost lgs) (cq_list (queue s)))"
  shows "pool_cost lgs s' < pool_cost lgs s"
  using assms sum_list_upd [OF assms(1), of "worker_cost lgs" p'] by (simp add: pool_cost_def)

lemma lock_step_cost:
  assumes step: "pool_step lock_ops env lgs s es s'" and ok: "lock_ok c (queue s)"
  shows "pool_cost lgs s' < pool_cost lgs s"
proof -
  have q: "cq_invar (queue s)" "max_size (queue s) \<noteq> 0" using ok by (simp_all add: lock_ok_def)
  show ?thesis
    using step
  proof cases
    case (begin_loop w q)
    then show ?thesis by (intro pool_cost_less [OF begin_loop(3)]) (auto simp: set_worker_def lock_ops_def)
  next
    case (pop w l am q)
    then have "lock_deq l (queue s) = Some (am, q)" by (simp add: lock_ops_def)
    note d = lock_deq_list(5) [OF assms(2)[unfolded lock_ok_def, THEN conjunct1] _ this]
    show ?thesis using pop d q by (intro pool_cost_less [OF pop(3)]) (auto simp: set_worker_def msg_cost_def)
  next
    case (log_sink w l m i "is" m' g)
    then show ?thesis by (intro pool_cost_less [OF log_sink(3)]) (auto simp: set_worker_def)
  next
    case (skip_sink w l m i "is")
    then show ?thesis by (intro pool_cost_less [OF skip_sink(3)]) (auto simp: set_worker_def)
  next
    case (logged w l m)
    then show ?thesis by (intro pool_cost_less [OF logged(3)]) (auto simp: set_worker_def)
  next
    case (flush_lock w l)
    then show ?thesis by (intro pool_cost_less [OF flush_lock(3)]) (auto simp: set_worker_def)
  next
    case (flush_dead w l g)
    then show ?thesis by (intro pool_cost_less [OF flush_dead(3)]) (auto simp: set_worker_def)
  next
    case (flush_send w l p ln q)
    then have "lock_enq (async_flush_msg l p) (queue s) = Some (ln, q)" by (simp add: lock_ops_def)
    note e = lock_enq_list(5) [OF q this]
    have "msg_cost lgs (async_flush_msg l p) + 2 = flush_cost lgs l"
      by (simp add: msg_cost_def begin_msg_def async_flush_msg_def flush_cost_def)
    then show ?thesis using flush_send e by (intro pool_cost_less [OF flush_send(3)]) (auto simp: set_worker_def)
  next
    case (awaited w p)
    then show ?thesis by (intro pool_cost_less [OF awaited(3)]) (auto simp: set_worker_def)
  next
    case (flush_one w p i "is" g)
    then show ?thesis by (intro pool_cost_less [OF flush_one(3)]) (auto simp: set_worker_def)
  next
    case (flushed w p)
    then show ?thesis by (intro pool_cost_less [OF flushed(3)]) (auto simp: set_worker_def)
  next
    case (stop_worker ln q)
    then have "lock_enq async_terminate_msg (queue s) = Some (ln, q)" by (simp add: lock_ops_def)
    note e = lock_enq_list(5) [OF q this]
    have "msg_cost lgs async_terminate_msg = 1" by (simp add: msg_cost_def begin_msg_def async_terminate_msg_def)
    then show ?thesis using stop_worker e by (simp add: pool_cost_def)
  qed
qed

text \<open>Where the pool stands when no step of the code is left, after the last pointer is gone.\<close>

lemma lock_at_rest:
  assumes run: "pool_run lock_ops env lgs (pool_start k q h) es s" and q: "lock_ok c q" "cq_list q = []"
    and c: "0 < c" and k: "0 < k"
    and env: "healthy (oenv env)" and lgs: "loggers_ok all lgs" and h: "heap_ok env all h"
    and msgs: "\<forall>am \<in> set (enqueued es). msg_ok env all h am \<and> quiet_msg lgs am"
    and dead: "\<not> alive s" and rest: "\<And>es' s'. \<not> pool_step lock_ops env lgs s es' s'"
  shows "\<forall>p \<in> set (workers s). p = Exited" and "cq_list (queue s) = []"
proof -
  note stop = lock_run_stop [OF run q env lgs h msgs] and lq = lock_run_queue [OF run q]
  have "set (dequeued es) \<subseteq> set (enqueued es)" using lq(2) by simp
  then have wr: "write_inv env lgs all h es s" using run_write_inv [OF run env lgs h] msgs by blast
  have n: "length (workers s) = k" using run_workers [OF run] by (simp add: pool_start_def)
  have ok: "cq_invar (queue s)" "max_size (queue s) \<noteq> 0" "cq_capacity (queue s) = c"
    using lq(1) by (simp_all add: lock_ok_def)
  have kinds: "p = Popping \<and> cq_list (queue s) = [] \<or> p = Exited" if w: "worker_at s w p" for w p
  proof (cases p)
    case Starting
    then show ?thesis using rest pool_step.begin_loop [of s w lock_ops "queue s"] w by (auto simp: lock_ops_def)
  next
    case Popping
    have "cq_empty (queue s)"
    proof (rule ccontr)
      assume ne: "\<not> cq_empty (queue s)"
      then have "cq_list (queue s) \<noteq> []" using cq_empty_iff [OF ok(1)] by simp
      then have "q_deq lock_ops w 0 (queue s) = Some (hd (cq_list (queue s)), cq_pop_front (queue s))"
        using cq_front_list [OF ok(1)] ne by (simp add: lock_deq_def lock_ops_def)
      then show False using rest pool_step.pop [of s w lock_ops 0] w Popping by blast
    qed
    then show ?thesis using Popping cq_empty_iff [OF ok(1)] by simp
  next
    case (Logging l m "is")
    show ?thesis
    proof (cases "is")
      case Nil
      then show ?thesis using rest pool_step.logged [of s w l m] w Logging by blast
    next
      case (Cons i js)
      show ?thesis
      proof (cases "sink_should_log (level m) (sink_at (mem s) i)")
        case False
        then show ?thesis using rest pool_step.skip_sink [of s w l m i js] w Logging Cons by blast
      next
        case True
        have "i \<in> set all" "printable_at env (mem s) all m"
          using write_invD(4) [OF wr w] same_lines_printable [OF write_invD(2) [OF wr]] Logging Cons by auto
        then obtain m' g where "try_sink_log env i m (mem s) = Some (None, m', g)"
          using try_sink_log_ok [OF env write_invD(1) [OF wr]] by blast
        then show ?thesis using rest pool_step.log_sink [of s w l m i js env m' g] True w Logging Cons by blast
      qed
    qed
  next
    case (Flushing p "is")
    show ?thesis
    proof (cases "is")
      case Nil
      then show ?thesis using rest pool_step.flushed [of s w p] w Flushing by blast
    next
      case (Cons i js)
      then have "i \<in> set all" using write_invD(4) [OF wr w] Flushing by simp
      then obtain g where "try_sink_flush env i (mem s) = (None, g)"
        using try_sink_flush_ok [OF env write_invD(1) [OF wr]] by blast
      then show ?thesis using rest pool_step.flush_one [of s w p i js env g] w Flushing Cons by blast
    qed
  next
    case Crashed
    then show ?thesis using lock_run_promise [OF run q] w nth_mem [of w "workers s"]
      by (auto simp: promise_inv_def worker_at_def)
  qed (use stop w nth_mem [of w "workers s"] in \<open>auto simp: stop_inv_def worker_at_def\<close>)
  have "\<not> holds_pool p" if p: "p \<in> set (workers s)" for p
  proof -
    obtain w where "worker_at s w p" using p by (auto simp: in_set_conv_nth worker_at_def)
    from kinds [OF this] show ?thesis by auto
  qed
  then have free: "\<not> lockable s" using dead by (auto simp: lockable_def)
  have T: "filter is_stop (enqueued es) = replicate (stops s) async_terminate_msg" and le: "stops s \<le> k"
    and ex: "exits (workers s) = length (filter is_stop (dequeued es))"
    using stop n by (auto simp: stop_inv_def filter_empty_conv is_stop_def async_terminate_msg_def)
  have all_exit: "p = Exited" if w: "worker_at s w p" for w p
  proof (rule ccontr)
    assume "p \<noteq> Exited"
    then have e: "cq_list (queue s) = []" and p: "p = Popping" using kinds [OF w] by auto
    then have "\<not> cq_full (queue s)" using cq_full_iff [OF ok(1)] ok c by (metis length_0_conv length_cq_list less_irrefl)
    then have "q_stop lock_ops (stops s) async_terminate_msg (queue s) = Some (0, cq_push_back async_terminate_msg (queue s))"
      by (simp add: lock_ops_def lock_enq_def)
    then have "stops s = k" using rest pool_step.stop_worker [OF free] le n by (metis le_neq_implies_less)
    then have "exits (workers s) = length (workers s)" using T lq(2) ex e n by simp
    then show False using w \<open>p \<noteq> Exited\<close> exits_all [of "workers s"] by (auto simp: worker_at_def)
  qed
  then show exited: "\<forall>p \<in> set (workers s). p = Exited" by (auto simp: in_set_conv_nth worker_at_def)
  have "exits (workers s) = k" using exited n by (simp add: exits_def)
  then have count: "length (filter is_stop (dequeued es)) = k" using ex by simp
  moreover have "length (filter is_stop (dequeued es)) + length (filter is_stop (cq_list (queue s))) = stops s"
    using T lq(2) by (metis filter_append length_append length_replicate)
  ultimately have sk: "stops s = k" and "length (filter is_stop (cq_list (queue s))) = 0" using le by linarith+
  then have none: "filter is_stop (cq_list (queue s)) = []" by simp
  from sk have "last (enqueued es) = async_terminate_msg"
    using stop k by (auto simp: stop_inv_def)
  then show "cq_list (queue s) = []"
    using none lq(2) by (metis (mono_tags, lifting) async_msg.select_convs(3) async_terminate_msg_def filter_empty_conv
        is_stop_def last_appendR last_in_set)
qed


section \<open>A single worker that waits for itself\<close>

text \<open>The only worker waits for a promise only it could fulfil, or for room only it could make.\<close>

definition stuck :: "(lock_queue, 'c) pool \<Rightarrow> bool" where
  "stuck s \<longleftrightarrow> length (workers s) = 1 \<and>
     ((\<exists>p. worker_at s 0 (Awaiting p) \<and> p \<notin> set (fulfilled s)) \<or>
      (\<exists>l. worker_at s 0 (Flush_send l) \<and> cq_full (queue s)))"

lemma stuck_lockable: "stuck s \<Longrightarrow> lockable s"
  by (cases "workers s") (auto simp: stuck_def lockable_def worker_at_def)

lemma stuck_no_step:
  assumes "stuck s"
  shows "\<not> pool_step lock_ops env lgs s es s'"
proof
  assume step: "pool_step lock_ops env lgs s es s'"
  have only: "w = 0" if "worker_at s w p" for w p using assms that by (auto simp: stuck_def worker_at_def)
  note held = stuck_lockable [OF assms]
  show False
    using step
  proof cases
    case (flush_send w l p ln q)
    then have "w = 0" "\<not> cq_full (queue s)" using only by (auto simp: lock_ops_def lock_enq_def split: if_splits)
    then show False using flush_send(3) assms by (auto simp: stuck_def worker_at_def)
  qed (use assms only held in \<open>fastforce simp: stuck_def worker_at_def\<close>)+
qed

lemma stuck_env:
  "pool_env lock_ops s es s' \<Longrightarrow> stuck s \<Longrightarrow> stuck s' \<and> deqs es = [] \<and> wrotes es = []"
  by (induction rule: pool_env.induct) (auto simp: stuck_def map_filter_simps lock_ops_def lock_enq_def split: if_splits)

lemma stuck_run:
  "pool_run lock_ops env lgs s0 es s \<Longrightarrow> stuck s0 \<Longrightarrow> stuck s \<and> deqs es = [] \<and> wrotes es = []"
proof (induction rule: pool_run.induct)
  case start
  then show ?case by (simp add: map_filter_simps)
next
  case (code es s es' s')
  then show ?case using stuck_no_step by blast
next
  case (client es s es' s')
  then show ?case using stuck_env [OF client.hyps(2)] by (simp add: map_filter_app)
qed

section \<open>Properties\<close>

text \<open>
  C31: with any number of workers, in any interleaving, a sink holds whole lines only, one for
  each message enqueued for it, once, except for those that are still in the queue or that a worker
  has taken and not yet written to that sink.
\<close>

theorem pool_writes_once:
  assumes "lock_pool_new n k h = Inr s0" and "n \<noteq> - 1" and "pool_run lock_ops env lgs s0 es s"
    and "healthy (oenv env)" and "loggers_ok all lgs" and "heap_ok env all h"
    and "\<forall>am \<in> set (enqueued es). msg_ok env all h am" and "j \<in> set all"
  shows "\<exists>ls. text_at (mem s) j = text_at h j @ concat ls \<and>
     mset ls + (\<Sum>p\<in>#mset (workers s). mset (pending env h j p)) +
       mset (concat (map (due env lgs h j) (cq_list (queue s)))) =
     mset (concat (map (due env lgs h j) (enqueued es)))"
proof -
  obtain q where s0: "s0 = pool_start (unat k) q h" and q: "lock_ok (unat n) q" "cq_list q = []"
    using lock_pool_newE [OF assms(1,2)] by metis
  note run = assms(3) [unfolded s0] and eq = lock_run_queue(2) [OF assms(3) [unfolded s0] q]
  have inv: "write_inv env lgs all h es s" using run_write_inv [OF run assms(4-6)] assms(7) eq by simp
  note workers = run_workers [OF run]
  have "mset (written j es) + (\<Sum>p\<in>#mset (workers s). mset (pending env h j p)) =
      mset (concat (map (due env lgs h j) (dequeued es)))"
    using write_inv_total [OF inv _ _ assms(8), of "unat k"] workers by (simp add: pool_start_def)
  then show ?thesis using write_invD(3) [OF inv assms(8)] eq by auto
qed

text \<open>
  C32: with one worker the text of a sink is exactly what a synchronous logger would have
  written: the lines of the enqueued messages in the order in which they were enqueued, up to the one the
  worker is at.
\<close>

theorem single_worker_in_order:
  assumes "lock_pool_new n 1 h = Inr s0" and "n \<noteq> - 1" and "pool_run lock_ops env lgs s0 es s"
    and "healthy (oenv env)" and "loggers_ok all lgs" and "heap_ok env all h"
    and "\<forall>am \<in> set (enqueued es). msg_ok env all h am" and "j \<in> set all"
  shows "text_at h j @ concat (concat (map (due env lgs h j) (enqueued es))) =
     text_at (mem s) j @ concat (pending env h j (hd (workers s))) @
       concat (concat (map (due env lgs h j) (cq_list (queue s))))"
proof -
  obtain q where s0: "s0 = pool_start 1 q h" and q: "lock_ok (unat n) q" "cq_list q = []"
    using lock_pool_newE [OF assms(1,2)] by (metis unat_1)
  note run = assms(3) [unfolded s0] and eq = lock_run_queue(2) [OF assms(3) [unfolded s0] q]
  have inv: "write_inv env lgs all h es s" using run_write_inv [OF run assms(4-6)] assms(7) eq by simp
  have len: "length (workers s) = 1" and ev: "\<forall>e \<in> set es. \<forall>w. event_worker e = Some w \<longrightarrow> w = 0"
    using run_workers [OF run] by (auto simp: pool_start_def)
  have "dequeued_by 0 es = dequeued es \<and> written_by 0 j es = written j es"
    using ev
  proof (induction es)
    case (Cons e es)
    then show ?case by (cases e) (auto simp: trace)
  qed (simp add: trace)
  moreover have "workers s ! 0 = hd (workers s)" using len by (cases "workers s") auto
  ultimately have "concat (map (due env lgs h j) (dequeued es)) = written j es @ pending env h j (hd (workers s))"
    using write_invD(5) [OF inv _ assms(8), of 0] len by (simp add: worker_at_def)
  then show ?thesis using write_invD(3) [OF inv assms(8)] eq by simp
qed

text \<open>
  Without new calls the workers and the destructor take finitely many steps, whatever
  the interleaving, and flush messages that workers send themselves included.
\<close>

theorem lock_pool_comes_to_rest:
  assumes "lock_pool_new n k h = Inr s0" and "n \<noteq> - 1"
  shows "wf {(s', s). (\<exists>es. pool_run lock_ops env lgs s0 es s) \<and> (\<exists>es. pool_step lock_ops env lgs s es s')}"
proof (rule wf_subset [OF wf_measure [of "pool_cost lgs"]])
  obtain q where s0: "s0 = pool_start (unat k) q h" and q: "lock_ok (unat n) q" "cq_list q = []"
    using lock_pool_newE [OF assms] by metis
  show "{(s', s). (\<exists>es. pool_run lock_ops env lgs s0 es s) \<and> (\<exists>es. pool_step lock_ops env lgs s es s')}
      \<subseteq> measure (pool_cost lgs)"
    using lock_step_cost [OF _ lock_run_queue(1) [OF _ q]] s0 by auto
qed

text \<open>
  When the last pointer to a pool is gone and no message reached the flush level of its
  logger, the pool can only come to rest with every worker out of its loop and the queue empty; every
  sink then has a line for each message enqueued for it, once, and every promise of a flush is fulfilled.
\<close>

theorem lock_pool_shutdown:
  assumes "lock_pool_new n k h = Inr s0" and "n \<noteq> - 1" and "n \<noteq> 0" and "pool_run lock_ops env lgs s0 es s"
    and "healthy (oenv env)" and "loggers_ok all lgs" and "heap_ok env all h"
    and "\<forall>am \<in> set (enqueued es). msg_ok env all h am \<and> quiet_msg lgs am"
    and "\<not> alive s" and "\<And>es' s'. \<not> pool_step lock_ops env lgs s es' s'"
  shows "(\<forall>p \<in> set (workers s). p = Exited) \<and> cq_list (queue s) = [] \<and>
     (\<forall>j \<in> set all. \<exists>ls. text_at (mem s) j = text_at h j @ concat ls \<and>
        mset ls = mset (concat (map (due env lgs h j) (enqueued es)))) \<and>
     (\<forall>am \<in> set (enqueued es). msg_type am = Flush_type \<longrightarrow> (\<exists>p \<in> set (fulfilled s). flush_promise am = Some p))"
proof -
  obtain q where s0: "s0 = pool_start (unat k) q h" and q: "lock_ok (unat n) q" "cq_list q = []" and k: "0 < unat k"
    using lock_pool_newE [OF assms(1,2)] by metis
  note run = assms(4) [unfolded s0] and eq = lock_run_queue(2) [OF assms(4) [unfolded s0] q]
  have n: "0 < unat n" using assms(3) by (simp add: unat_gt_0)
  note rest = lock_at_rest [OF run q n k assms(5-10)]
  have inv: "write_inv env lgs all h es s" using run_write_inv [OF run assms(5-7)] assms(8) eq by simp
  have "\<exists>ls. text_at (mem s) j = text_at h j @ concat ls \<and> mset ls = mset (concat (map (due env lgs h j) (enqueued es)))"
    if j: "j \<in> set all" for j
  proof -
    have none: "(\<Sum>p\<in>#mset ws. mset (pending env h j p)) = {#}" if "\<forall>p \<in> set ws. p = Exited" for ws
      using that by (induction ws) auto
    have "mset (written j es) + (\<Sum>p\<in>#mset (workers s). mset (pending env h j p)) =
        mset (concat (map (due env lgs h j) (dequeued es)))"
      using write_inv_total [OF inv _ _ j, of "unat k"] run_workers [OF run] by (simp add: pool_start_def)
    then have "mset (written j es) = mset (concat (map (due env lgs h j) (enqueued es)))"
      unfolding none [OF rest(1)] using eq rest(2) by simp
    then show ?thesis using write_invD(3) [OF inv j] by blast
  qed
  moreover have "\<exists>p \<in> set (fulfilled s). flush_promise am = Some p"
    if "am \<in> set (enqueued es)" "msg_type am = Flush_type" for am
    using lock_run_promise [OF run q] that eq rest by (fastforce simp: promise_inv_def made_msg_def)
  ultimately show ?thesis using rest by blast
qed

text \<open>
  C33: with one worker, the default, a message that reaches the flush level of its asynchronous
  logger blocks the pool for ever: the worker sends a flush message to its own queue and waits for it.
  From then on no message is taken out or written, whatever users do, and the pool is never destroyed.
\<close>

theorem flush_level_deadlock:
  assumes "lock_pool_new n 1 h = Inr s0" and "n \<noteq> - 1" and "pool_run lock_ops env lgs s0 es s"
    and "worker_at s 0 (Logging l m [])" and "should_flush (lgs l) (level m)" and "alive s"
  shows "\<exists>es1 s1. pool_run lock_ops env lgs s es1 s1 \<and>
     (\<forall>es2 s2. pool_run lock_ops env lgs s1 es2 s2 \<longrightarrow>
        deqs es2 = [] \<and> wrotes es2 = [] \<and> lockable s2 \<and> (\<forall>es3 s3. \<not> pool_step lock_ops env lgs s2 es3 s3))"
proof -
  obtain q where s0: "s0 = pool_start 1 q h" and q: "lock_ok (unat n) q" "cq_list q = []"
    using lock_pool_newE [OF assms(1,2)] by (metis unat_1)
  note run = assms(3) [unfolded s0]
  have len: "length (workers s) = 1" using run_workers [OF run] by (simp add: pool_start_def)
  have fresh: "next_promise s \<notin> set (fulfilled s)" using lock_run_promise [OF run q] by (auto simp: promise_inv_def)
  let ?a = "set_worker 0 (Flush_call l) s" let ?b = "set_worker 0 (Flush_send l) ?a"
  have a: "pool_step lock_ops env lgs s [] ?a" using pool_step.logged [OF assms(4), of lock_ops env lgs] assms(5) by simp
  have b: "pool_step lock_ops env lgs ?a [] ?b"
    using pool_step.flush_lock [of ?a 0 l] assms(6) len by (simp add: lockable_def)
  have to_b: "pool_run lock_ops env lgs s ([] @ [] @ []) ?b"
    using pool_run.code [OF pool_run.code [OF pool_run.start a] b] by simp
  have "\<exists>es1 s1. pool_run lock_ops env lgs s es1 s1 \<and> stuck s1"
  proof (cases "cq_full (queue s)")
    case True
    then have "stuck ?b" using len by (simp add: stuck_def)
    then show ?thesis using to_b by blast
  next
    case False
    let ?am = "async_flush_msg l (next_promise s)" and ?q = "cq_push_back (async_flush_msg l (next_promise s)) (queue s)"
    let ?c = "set_worker 0 (Awaiting (next_promise s)) (?b\<lparr>queue := ?q, next_promise := next_promise s + 1\<rparr>)"
    have "pool_step lock_ops env lgs ?b [Enqueued 0 0 ?am] ?c"
      using pool_step.flush_send [of ?b 0 l "next_promise s" lock_ops 0 ?q] False len
      by (simp add: lock_ops_def lock_enq_def)
    then have "pool_run lock_ops env lgs s (([] @ [] @ []) @ [Enqueued 0 0 ?am]) ?c" by (rule pool_run.code [OF to_b])
    moreover have "stuck ?c" using fresh len by (simp add: stuck_def)
    ultimately show ?thesis by blast
  qed
  then obtain es1 s1 where s1: "pool_run lock_ops env lgs s es1 s1" "stuck s1" by blast
  then show ?thesis using stuck_run stuck_no_step stuck_lockable by blast
qed


section \<open>Witnesses\<close>

text \<open>A message goes through a pool with one worker to two sinks.\<close>

definition sample_lgs :: "level_enum \<Rightarrow> nat \<Rightarrow> logger" where
  "sample_lgs f l = (async_logger_new ''net'' [0, 3])\<lparr>flush_level := f\<rparr>"

definition sample_async :: log_msg where
  "sample_async = mk_log_msg 7 7 source_loc_default Warn ''c'' ''net''"

lemma lock_enq_room:
  assumes "lock_ok c q" and "length (cq_list q) < c"
  obtains q' where "lock_enq am q = Some (0, q')" and "lock_ok c q'" and "cq_list q' = cq_list q @ [am]"
proof -
  have ok: "cq_invar q" "max_size q \<noteq> 0" "cq_capacity q = c" using assms(1) by (simp_all add: lock_ok_def)
  have e: "lock_enq am q = Some (0, cq_push_back am q)" using assms(2) ok by (simp add: lock_enq_def cq_full_iff)
  show thesis using that [OF e] lock_enq_list [OF ok(1,2) e] ok(3) by (simp add: lock_ok_def)
qed

lemma lock_deq_some:
  assumes "lock_ok c q" and "cq_list q = am # as"
  obtains q' where "lock_deq 0 q = Some (am, q')" and "lock_ok c q'" and "cq_list q' = as"
proof -
  have ok: "cq_invar q" "max_size q \<noteq> 0" "cq_capacity q = c" using assms(1) by (simp_all add: lock_ok_def)
  have d: "lock_deq 0 q = Some (am, cq_pop_front q)"
    using assms(2) cq_front_list [OF ok(1)] cq_empty_iff [OF ok(1)] by (simp add: lock_deq_def)
  show thesis using that [OF d] lock_deq_list [OF ok(1,2) d] ok(3) assms(2) by (simp add: lock_ok_def)
qed

lemma sample_pool: "\<exists>s0. lock_pool_new 2 1 sample_heap = Inr s0"
  by (simp add: lock_pool_new_def pool_new_def cq_new_def vector_max_def Let_def)

lemma sample_async_ok:
  "msg_ok sample_sys [0, 3] sample_heap (async_log_msg 0 sample_async)" "level sample_async = Warn"
  "printable_at sample_sys sample_heap [0, 3] sample_async"
  "loggers_ok [0, 3] (sample_lgs f)"
  "sink_should_log Warn (sink_at sample_heap 0)" "sink_should_log Warn (sink_at sample_heap 3)"
proof -
  show p: "printable_at sample_sys sample_heap [0, 3] sample_async"
    unfolding sample_async_def by (intro sample_name_line sample_valid_msgs) simp_all
  show "msg_ok sample_sys [0, 3] sample_heap (async_log_msg 0 sample_async)"
    using p by (simp add: msg_ok_def async_log_msg_def)
  show "level sample_async = Warn" by (simp add: sample_async_def mk_log_msg_def)
  show "loggers_ok [0, 3] (sample_lgs f)"
    by (simp add: loggers_ok_def sample_lgs_def async_logger_new_def logger_new_def)
  show "sink_should_log Warn (sink_at sample_heap 0)" "sink_should_log Warn (sink_at sample_heap 3)"
    by (simp_all add: sink_should_log_def sample_heap_def less_eq_level_enum_def)
qed

lemma sample_due:
  "due sample_sys (sample_lgs f) sample_heap 3 (async_log_msg 0 sample_async) = [''< net>\<newline>'']"
  using sample_request_lines(2) sample_async_ok(2,6)
  by (simp add: due_def async_log_msg_def sample_lgs_def async_logger_new_def logger_new_def) (simp add: sample_async_def)

lemma sample_ops_run:
  assumes q: "q_enq ops 5 (async_log_msg 0 sample_async) q = Some (ln, q0)" "q_start ops 0 q0 = Some q1"
    "q_deq ops 0 ln q1 = Some (async_log_msg 0 sample_async, q2)"
  shows "\<exists>wx jx tx wy jy ty s m. pool_run ops sample_sys (sample_lgs f) (pool_start 1 q sample_heap)
      [Enqueued 5 ln (async_log_msg 0 sample_async), Dequeued 0 ln (async_log_msg 0 sample_async), Wrote wx jx tx, Wrote wy jy ty] s \<and>
    workers s = [Logging 0 m []] \<and> level m = Warn \<and> alive s \<and> stops s = 0 \<and> queue s = q2"
proof -
  let ?s0 = "pool_start 1 q sample_heap" and ?step = "pool_step ops sample_sys (sample_lgs f)"
    and ?run = "pool_run ops sample_sys (sample_lgs f) (pool_start 1 q sample_heap)" and ?am = "async_log_msg 0 sample_async"
  note s0 = pool_start_def
  let ?b = "begin_msg (sample_lgs f) ?am"
  let ?s1 = "?s0\<lparr>queue := q0\<rparr>" let ?s2 = "set_worker 0 Popping (?s1\<lparr>queue := q1\<rparr>)"
  let ?s3 = "set_worker 0 ?b (?s2\<lparr>queue := q2\<rparr>)"
  have "pool_env ops ?s0 [Enqueued 5 ln ?am] ?s1"
    by (rule log_call) (simp_all add: s0 lockable_def q)
  then have r1: "?run ([] @ [Enqueued 5 ln ?am]) ?s1" by (rule pool_run.client [OF pool_run.start])
  have "?step ?s1 [] ?s2" by (rule begin_loop) (simp_all add: s0 worker_at_def q)
  then have r2: "?run (([] @ [Enqueued 5 ln ?am]) @ []) ?s2" by (rule pool_run.code [OF r1])
  have "?step ?s2 [Dequeued 0 ln ?am] ?s3" by (rule pop) (simp_all add: s0 worker_at_def set_worker_def q)
  then have r3: "?run ((([] @ [Enqueued 5 ln ?am]) @ []) @ [Dequeued 0 ln ?am]) ?s3" by (rule pool_run.code [OF r2])
  have b: "?b = Logging 0 sample_async [0, 3]" and mem3: "mem ?s3 = sample_heap"
    by (simp_all add: begin_msg_def async_log_msg_def sample_lgs_def async_logger_new_def logger_new_def s0)
  have env: "healthy (oenv sample_sys)" using sample_healthy(1) by simp
  obtain m1 h1 where one: "try_sink_log sample_sys 0 sample_async sample_heap = Some (None, m1, h1)" "same_msg sample_async m1"
    "heap_ok sample_sys [0, 3] h1" "same_setup sample_sys [0, 3] sample_heap h1"
    using try_sink_log_ok [OF env sample_heap_ok _ sample_async_ok(3), of 0] by auto
  note lv1 = same_msg_line(3) [OF one(2)] and p1 = same_msg_printable [OF one(2)] same_setup_printable [OF one(4)]
  obtain m2 h2 where two: "try_sink_log sample_sys 3 m1 h1 = Some (None, m2, h2)" "same_msg m1 m2"
    using try_sink_log_ok [OF env one(3), of 3 m1] sample_async_ok(3) by (auto simp: p1)
  let ?s4 = "set_worker 0 (Logging 0 m1 [3]) (?s3\<lparr>mem := h1\<rparr>)" let ?s5 = "set_worker 0 (Logging 0 m2 []) (?s4\<lparr>mem := h2\<rparr>)"
  have "\<exists>w j t. ?step ?s3 [Wrote w j t] ?s4"
    by (intro exI, rule log_sink) (use one(1) mem3 sample_async_ok(2,5) in \<open>simp_all add: b s0\<close>)
  then obtain wx jx tx where x: "?step ?s3 [Wrote wx jx tx] ?s4" by blast
  have adm: "sink_should_log (level m1) (sink_at h1 3)"
    using same_lines_sink(2) [OF same_setup_lines [OF one(4)]] sample_async_ok(2,6) lv1 by simp
  have "\<exists>w j t. ?step ?s4 [Wrote w j t] ?s5"
    by (intro exI, rule log_sink) (use two(1) adm in \<open>simp_all add: s0\<close>)
  then obtain wy jy ty where y: "?step ?s4 [Wrote wy jy ty] ?s5" by blast
  have r5: "?run [Enqueued 5 ln ?am, Dequeued 0 ln ?am, Wrote wx jx tx, Wrote wy jy ty] ?s5"
    using pool_run.code [OF pool_run.code [OF r3 x] y] by simp
  have fields: "workers ?s5 = [Logging 0 m2 []]" "alive ?s5" "stops ?s5 = 0" "queue ?s5 = q2"
    by (simp_all add: s0 set_worker_def)
  have lv2: "level m2 = Warn" using same_msg_line(3) [OF two(2)] lv1 sample_async_ok(2) by simp
  have put: "?thesis" if "?run [Enqueued 5 ln ?am, Dequeued 0 ln ?am, Wrote wx jx tx, Wrote wy jy ty] S"
    "workers S = [Logging 0 m2 []]" "alive S" "stops S = 0" "queue S = q2" for S
    using that lv2 by blast
  show ?thesis by (rule put [OF r5 fields])
qed

lemma sample_pool_run:
  assumes "lock_pool_new 2 1 sample_heap = Inr s0"
  shows "\<exists>es s m. pool_run lock_ops sample_sys (sample_lgs f) s0 es s \<and> enqueued es = [async_log_msg 0 sample_async] \<and>
    dequeued es = [async_log_msg 0 sample_async] \<and> workers s = [Logging 0 m []] \<and> level m = Warn \<and> alive s \<and>
    stops s = 0 \<and> cq_list (queue s) = [] \<and> lock_ok 2 (queue s)"
proof -
  let ?am = "async_log_msg 0 sample_async"
  obtain q where s0: "s0 = pool_start 1 q sample_heap" and q: "lock_ok 2 q" "cq_list q = []"
    using lock_pool_newE [OF assms] by auto
  obtain q1 where q1: "lock_enq ?am q = Some (0, q1)" "lock_ok 2 q1" "cq_list q1 = [?am]"
    using lock_enq_room [OF q(1), of ?am] q(2) by auto
  obtain q2 where q2: "lock_deq 0 q1 = Some (?am, q2)" "lock_ok 2 q2" "cq_list q2 = []"
    using lock_deq_some [OF q1(2,3)] by auto
  obtain wx jx tx wy jy ty s m where run: "pool_run lock_ops sample_sys (sample_lgs f) s0
      [Enqueued 5 0 ?am, Dequeued 0 0 ?am, Wrote wx jx tx, Wrote wy jy ty] s"
    and s: "workers s = [Logging 0 m []]" "level m = Warn" "alive s" "stops s = 0" "queue s = q2"
    using sample_ops_run [of lock_ops q 0 q1 q1 q2 f] q1(1) q2(1) unfolding s0 by (auto simp: lock_ops_def)
  have "enqueued [Enqueued 5 0 ?am, Dequeued 0 0 ?am, Wrote wx jx tx, Wrote wy jy ty] = [?am]"
    "dequeued [Enqueued 5 0 ?am, Dequeued 0 0 ?am, Wrote wx jx tx, Wrote wy jy ty] = [?am]"
    by (simp_all add: trace)
  then show ?thesis using run s q2(2,3) by blast
qed

theorem pool_writes_once_witness:
  "\<exists>s0 es s. lock_pool_new 2 1 sample_heap = Inr s0 \<and> pool_run lock_ops sample_sys (sample_lgs Off) s0 es s \<and>
     enqueued es = [async_log_msg 0 sample_async] \<and> text_at (mem s) 3 = text_at sample_heap 3 @ ''< net>\<newline>''"
proof -
  obtain s0 :: "(lock_queue, unit) pool" where s0: "lock_pool_new 2 1 sample_heap = Inr s0" using sample_pool by blast
  obtain es s m where run: "pool_run lock_ops sample_sys (sample_lgs Off) s0 es s"
    and s: "enqueued es = [async_log_msg 0 sample_async]" "workers s = [Logging 0 m []]" "cq_list (queue s) = []"
    using sample_pool_run [OF s0] by metis
  have "\<exists>ls. text_at (mem s) 3 = text_at sample_heap 3 @ concat ls \<and> mset ls = {#''< net>\<newline>''#}"
    using pool_writes_once [OF s0 _ run, of "[0, 3]" 3] sample_healthy(1) sample_heap_ok sample_async_ok(1,4) s sample_due
    by simp
  then show ?thesis using s0 run s(1) by auto
qed

theorem single_worker_in_order_witness:
  "\<exists>s0 es s. lock_pool_new 2 1 sample_heap = Inr s0 \<and> pool_run lock_ops sample_sys (sample_lgs Warn) s0 es s \<and>
     text_at (mem s) 3 = text_at sample_heap 3 @ ''< net>\<newline>''"
proof -
  obtain s0 :: "(lock_queue, unit) pool" where s0: "lock_pool_new 2 1 sample_heap = Inr s0" using sample_pool by blast
  obtain es s m where run: "pool_run lock_ops sample_sys (sample_lgs Warn) s0 es s"
    and s: "enqueued es = [async_log_msg 0 sample_async]" "workers s = [Logging 0 m []]" "cq_list (queue s) = []"
    using sample_pool_run [OF s0] by metis
  have "text_at (mem s) 3 = text_at sample_heap 3 @ ''< net>\<newline>''"
    using single_worker_in_order [OF s0 _ run, of "[0, 3]" 3] sample_healthy(1) sample_heap_ok sample_async_ok(1,4) s sample_due
    by simp
  then show ?thesis using s0 run by blast
qed

theorem lock_pool_comes_to_rest_witness:
  "\<exists>s0. lock_pool_new 2 1 sample_heap = Inr s0 \<and>
     wf {(s', s). (\<exists>es. pool_run lock_ops sample_sys (sample_lgs Warn) s0 es s) \<and>
       (\<exists>es. pool_step lock_ops sample_sys (sample_lgs Warn) s es s')}"
proof -
  obtain s0 :: "(lock_queue, unit) pool" where s0: "lock_pool_new 2 1 sample_heap = Inr s0" using sample_pool by blast
  then show ?thesis using lock_pool_comes_to_rest [OF s0, of sample_sys "sample_lgs Warn"] by auto
qed

theorem flush_level_deadlock_witness:
  "\<exists>s0 es1 s1. lock_pool_new 2 1 sample_heap = Inr s0 \<and> pool_run lock_ops sample_sys (sample_lgs Warn) s0 es1 s1 \<and>
     lockable s1 \<and> \<not> (\<exists>es2 s2. pool_step lock_ops sample_sys (sample_lgs Warn) s1 es2 s2)"
proof -
  obtain s0 :: "(lock_queue, unit) pool" where s0: "lock_pool_new 2 1 sample_heap = Inr s0" using sample_pool by blast
  obtain es s m where run: "pool_run lock_ops sample_sys (sample_lgs Warn) s0 es s"
    and s: "workers s = [Logging 0 m []]" "level m = Warn" "alive s"
    using sample_pool_run [OF s0] by metis
  have w: "worker_at s 0 (Logging 0 m [])" using s by (simp add: worker_at_def)
  have f: "should_flush (sample_lgs Warn 0) (level m)"
    using s by (simp add: should_flush_def sample_lgs_def less_eq_level_enum_def)
  have n: "(2 :: size_t) \<noteq> - 1" by simp
  obtain es1 s1 where r: "pool_run lock_ops sample_sys (sample_lgs Warn) s es1 s1"
    and d: "\<forall>es2 s2. pool_run lock_ops sample_sys (sample_lgs Warn) s1 es2 s2 \<longrightarrow>
        deqs es2 = [] \<and> wrotes es2 = [] \<and> lockable s2 \<and> (\<forall>es3 s3. \<not> pool_step lock_ops sample_sys (sample_lgs Warn) s2 es3 s3)"
    using flush_level_deadlock [OF s0 n run w f s(3)] by blast
  have "pool_run lock_ops sample_sys (sample_lgs Warn) s0 (es @ es1) s1" by (rule pool_run_trans [OF run r])
  then show ?thesis using s0 d pool_run.start by blast
qed

theorem lock_pool_shutdown_witness:
  "\<exists>s0 es s. lock_pool_new 2 1 sample_heap = Inr s0 \<and> pool_run lock_ops sample_sys (sample_lgs Off) s0 es s \<and>
     \<not> alive s \<and> workers s = [Exited] \<and> text_at (mem s) 3 = text_at sample_heap 3 @ ''< net>\<newline>''"
proof -
  let ?lgs = "sample_lgs Off"
  let ?run = "pool_run lock_ops sample_sys ?lgs" and ?step = "pool_step lock_ops sample_sys ?lgs"
  obtain s0 :: "(lock_queue, unit) pool" where s0: "lock_pool_new 2 1 sample_heap = Inr s0" using sample_pool by blast
  obtain es s m where run: "?run s0 es s"
    and s: "enqueued es = [async_log_msg 0 sample_async]" "workers s = [Logging 0 m []]" "level m = Warn" "stops s = 0"
      "cq_list (queue s) = []" "lock_ok 2 (queue s)" "alive s"
    using sample_pool_run [OF s0] by metis
  obtain q1 where q1: "lock_enq async_terminate_msg (queue s) = Some (0, q1)" "lock_ok 2 q1" "cq_list q1 = [async_terminate_msg]"
    using lock_enq_room [OF s(6), of async_terminate_msg] s(5) by auto
  obtain q2 where q2: "lock_deq 0 q1 = Some (async_terminate_msg, q2)" "lock_ok 2 q2" "cq_list q2 = []"
    using lock_deq_some [OF q1(2,3)] by auto
  let ?a = "set_worker 0 Popping s" and ?b = "set_worker 0 Popping s\<lparr>alive := False\<rparr>"
  let ?c = "?b\<lparr>queue := q1, stops := 1\<rparr>" let ?d = "set_worker 0 Exited (?c\<lparr>queue := q2\<rparr>)"
  have w: "worker_at s 0 (Logging 0 m [])" using s by (simp add: worker_at_def)
  have "\<not> should_flush (?lgs 0) (level m)" using s by (simp add: should_flush_def sample_lgs_def less_eq_level_enum_def)
  then have a: "?step s [] ?a" using logged [OF w, of lock_ops sample_sys ?lgs] by simp
  have b: "pool_env lock_ops ?a [] ?b" by (rule drop_pool) (simp add: s)
  have c: "?step ?b [Enqueued 1 0 async_terminate_msg] ?c"
    using stop_worker [of ?b lock_ops 0 q1 sample_sys ?lgs] s q1(1)
    by (simp add: lockable_def set_worker_def lock_ops_def)
  have d: "?step ?c [Dequeued 0 0 async_terminate_msg] ?d"
    using pop [of ?c 0 lock_ops 0 async_terminate_msg q2 sample_sys ?lgs] s q2(1)
    by (simp add: worker_at_def set_worker_def lock_ops_def begin_msg_def async_terminate_msg_def)
  let ?es = "(((es @ []) @ []) @ [Enqueued 1 0 async_terminate_msg]) @ [Dequeued 0 0 async_terminate_msg]"
  have all: "?run s0 ?es ?d"
    by (rule pool_run.code [OF pool_run.code [OF pool_run.client [OF pool_run.code [OF run a] b] c] d])
  have fields: "workers ?d = [Exited]" "\<not> alive ?d" "stops ?d = 1" using s by (simp_all add: set_worker_def)
  have rest: "\<not> ?step ?d es' s'" for es' s'
    using fields by (auto elim!: pool_step.cases simp: worker_at_def)
  have enq: "enqueued ?es = [async_log_msg 0 sample_async, async_terminate_msg]" using s(1) by (simp add: trace)
  have msgs: "\<forall>am \<in> set (enqueued ?es). msg_ok sample_sys [0, 3] sample_heap am \<and> quiet_msg ?lgs am"
    using sample_async_ok(1,2) unfolding enq
    by (simp add: msg_ok_def quiet_msg_def async_terminate_msg_def async_log_msg_def should_flush_def sample_lgs_def
        less_eq_level_enum_def)
  have env: "healthy (oenv sample_sys)" using sample_healthy(1) by simp
  have "\<exists>ls. text_at (mem ?d) 3 = text_at sample_heap 3 @ concat ls \<and>
      mset ls = mset (concat (map (due sample_sys ?lgs sample_heap 3) (enqueued ?es)))"
    using lock_pool_shutdown [OF s0 _ _ all env sample_async_ok(4) sample_heap_ok msgs fields(2) rest] by simp
  moreover have "due sample_sys ?lgs sample_heap 3 async_terminate_msg = []" by (simp add: due_def async_terminate_msg_def)
  ultimately have "text_at (mem ?d) 3 = text_at sample_heap 3 @ ''< net>\<newline>''" using sample_due unfolding enq by auto
  then show ?thesis using s0 all fields by blast
qed

end
