(* ===== verification/Lockfree_Pools.thy ===== *)
theory Lockfree_Pools
  imports Thread_Pools
begin

text \<open>
  \<^verbatim>\<open>base/lockfree_thread_pool.h\<close> and \<^verbatim>\<open>base/lockfree_concurrent_thread_pool.h\<close>: the pools whose
  queues are the vendored \<^verbatim>\<open>concurrentqueue\<close>. That library is a parameter; what the pools rely on is
  its documented promise that the elements of one producer come out in the order in which they
  went in. The token of a thread is the index of an \<open>atomic_token\<close>; taking a token and the
  enqueue after it are one step, as is an enqueue between \<open>enqueue_lock\<close> and \<open>release\<close>.
\<close>

section \<open>The queue library\<close>

text \<open>
  Producers are numbered: by their threads, or by their tokens. \<open>mc_wait_dequeue\<close> is given the
  consumer, and the producer whose element it happens to take.
\<close>

record 'mc mc_ops =
  mc_try_enqueue :: "nat \<Rightarrow> async_msg \<Rightarrow> 'mc \<Rightarrow> 'mc option"
  mc_enqueue :: "nat \<Rightarrow> async_msg \<Rightarrow> 'mc \<Rightarrow> 'mc option"
  mc_try_dequeue_from_producer :: "nat \<Rightarrow> 'mc \<Rightarrow> (async_msg \<times> 'mc) option"
  mc_wait_dequeue :: "nat \<Rightarrow> nat \<Rightarrow> 'mc \<Rightarrow> (async_msg \<times> 'mc) option"
  mc_size_approx :: "'mc \<Rightarrow> nat"

definition put_last :: "('mc \<Rightarrow> nat \<Rightarrow> async_msg list) \<Rightarrow> nat \<Rightarrow> async_msg \<Rightarrow> 'mc \<Rightarrow> 'mc \<Rightarrow> bool" where
  "put_last lanes p am q q' \<longleftrightarrow> lanes q' = (lanes q)(p := lanes q p @ [am])"

definition took_first :: "('mc \<Rightarrow> nat \<Rightarrow> async_msg list) \<Rightarrow> nat \<Rightarrow> async_msg \<Rightarrow> 'mc \<Rightarrow> 'mc \<Rightarrow> bool" where
  "took_first lanes p am q q' \<longleftrightarrow> lanes q p = am # lanes q' p \<and> lanes q' = (lanes q)(p := lanes q' p)"

definition mc_fifo :: "'mc mc_ops \<Rightarrow> ('mc \<Rightarrow> nat \<Rightarrow> async_msg list) \<Rightarrow> bool" where
  "mc_fifo mc lanes \<longleftrightarrow>
     (\<forall>p am q q'. mc_try_enqueue mc p am q = Some q' \<longrightarrow> put_last lanes p am q q') \<and>
     (\<forall>p am q q'. mc_enqueue mc p am q = Some q' \<longrightarrow> put_last lanes p am q q') \<and>
     (\<forall>p am q q'. mc_try_dequeue_from_producer mc p q = Some (am, q') \<longrightarrow> took_first lanes p am q q') \<and>
     (\<forall>c p am q q'. mc_wait_dequeue mc c p q = Some (am, q') \<longrightarrow> took_first lanes p am q q')"

section \<open>\<open>lockfree_thread_pool\<close>\<close>

definition lockfree_enq :: "'mc mc_ops \<Rightarrow> nat \<Rightarrow> async_msg \<Rightarrow> 'mc \<Rightarrow> (nat \<times> 'mc) option" where
  "lockfree_enq mc t am q = map_option (Pair t) (mc_try_enqueue mc t am q)"

text \<open>The destructor, on the thread \<open>d\<close>, first waits until the queue looks empty.\<close>

definition lockfree_stop :: "'mc mc_ops \<Rightarrow> nat \<Rightarrow> nat \<Rightarrow> async_msg \<Rightarrow> 'mc \<Rightarrow> (nat \<times> 'mc) option" where
  "lockfree_stop mc d k am q = (if k = 0 \<and> mc_size_approx mc q \<noteq> 0 then None else lockfree_enq mc d am q)"

definition lockfree_ops :: "'mc mc_ops \<Rightarrow> nat \<Rightarrow> 'mc queue_ops" where
  "lockfree_ops mc d = \<lparr>q_start = (\<lambda>w q. Some q), q_enq = lockfree_enq mc, q_deq = mc_wait_dequeue mc,
     q_stop = lockfree_stop mc d\<rparr>"

section \<open>\<open>lockfree_concurrent_thread_pool\<close>\<close>

text \<open>
  With thread-local storage (\<open>tls\<close>) the one \<open>token_\<close> of a thread is its token as producer and as
  worker; it is kept in \<open>producer_tokens\<close>. Without, there are two maps.
\<close>

record 'mc conc_queue =
  msg_q :: 'mc
  producer_cnt :: size_t
  consumer_cnt :: size_t
  producer_sema :: nat
  producer_tokens :: "nat \<Rightarrow> nat option"
  consumer_tokens :: "nat \<Rightarrow> nat option"

definition conc_new :: "'mc \<Rightarrow> 'mc conc_queue" where
  "conc_new m = \<lparr>msg_q = m, producer_cnt = 0, consumer_cnt = 0, producer_sema = 0,
     producer_tokens = (\<lambda>_. None), consumer_tokens = (\<lambda>_. None)\<rparr>"

text \<open>What a worker does before its loop; an index outside \<open>atomic_tokens_\<close> would be undefined.\<close>

definition conc_start :: "bool \<Rightarrow> size_t \<Rightarrow> nat \<Rightarrow> 'mc conc_queue \<Rightarrow> 'mc conc_queue option" where
  "conc_start tls n w q =
     (if producer_sema q = 0 then None
      else let idx = consumer_cnt q; q = q\<lparr>producer_sema := producer_sema q - 1, consumer_cnt := idx + 1\<rparr>
           in if idx \<ge> n then None
              else if tls then Some (q\<lparr>producer_tokens := (producer_tokens q)(w := Some (unat idx))\<rparr>)
              else Some (q\<lparr>consumer_tokens := (consumer_tokens q)(w := Some (unat idx))\<rparr>))"

text \<open>The token of a producer; a new producer also wakes up a worker.\<close>

definition conc_token :: "size_t \<Rightarrow> nat \<Rightarrow> 'mc conc_queue \<Rightarrow> nat \<times> 'mc conc_queue" where
  "conc_token n t q =
     (case producer_tokens q t of
        Some l \<Rightarrow> (l, q)
      | None \<Rightarrow> (let l = unat (producer_cnt q mod n)
                 in (l, q\<lparr>producer_cnt := producer_cnt q + 1, producer_tokens := (producer_tokens q)(t := Some l),
                          producer_sema := producer_sema q + 1\<rparr>)))"

definition conc_enq :: "'mc mc_ops \<Rightarrow> size_t \<Rightarrow> nat \<Rightarrow> async_msg \<Rightarrow> 'mc conc_queue \<Rightarrow> (nat \<times> 'mc conc_queue) option" where
  "conc_enq mc n t am q =
     (let (l, q) = conc_token n t q
      in case mc_try_enqueue mc l am (msg_q q) of
           Some m \<Rightarrow> Some (l, q\<lparr>msg_q := m\<rparr>)
         | None \<Rightarrow> (case mc_enqueue mc l am (msg_q q) of
                      Some m \<Rightarrow> Some (l, q\<lparr>msg_q := m\<rparr>)
                    | None \<Rightarrow> None))"

definition tok :: "bool \<Rightarrow> 'mc conc_queue \<Rightarrow> nat \<Rightarrow> nat option" where
  "tok tls q w = (if tls then producer_tokens q w else consumer_tokens q w)"

definition conc_deq ::
  "bool \<Rightarrow> 'mc mc_ops \<Rightarrow> nat \<Rightarrow> nat \<Rightarrow> 'mc conc_queue \<Rightarrow> (async_msg \<times> 'mc conc_queue) option" where
  "conc_deq tls mc w l q =
     (if tok tls q w \<noteq> Some l then None
      else case mc_try_dequeue_from_producer mc l (msg_q q) of
             None \<Rightarrow> None
           | Some (am, m) \<Rightarrow> Some (am, q\<lparr>msg_q := m\<rparr>))"

text \<open>The destructor wakes up a worker and enqueues a terminate message with the token \<open>k\<close>.\<close>

definition conc_stop :: "'mc mc_ops \<Rightarrow> nat \<Rightarrow> async_msg \<Rightarrow> 'mc conc_queue \<Rightarrow> (nat \<times> 'mc conc_queue) option" where
  "conc_stop mc k am q =
     (case mc_enqueue mc k am (msg_q q) of
        None \<Rightarrow> None
      | Some m \<Rightarrow> Some (k, q\<lparr>msg_q := m, producer_sema := producer_sema q + 1\<rparr>))"

definition conc_ops :: "bool \<Rightarrow> 'mc mc_ops \<Rightarrow> size_t \<Rightarrow> 'mc conc_queue queue_ops" where
  "conc_ops tls mc n = \<lparr>q_start = conc_start tls n, q_enq = conc_enq mc n, q_deq = conc_deq tls mc,
     q_stop = conc_stop mc\<rparr>"

section \<open>Both are queues of lanes\<close>

lemma mc_fifoD:
  assumes "mc_fifo mc lanes"
  shows "mc_try_enqueue mc p am q = Some q' \<Longrightarrow> lanes q' = (lanes q)(p := lanes q p @ [am])"
    and "mc_enqueue mc p am q = Some q' \<Longrightarrow> lanes q' = (lanes q)(p := lanes q p @ [am])"
    and "mc_try_dequeue_from_producer mc p q = Some (am, q') \<Longrightarrow>
      lanes q p = am # lanes q' p \<and> lanes q' = (lanes q)(p := lanes q' p)"
    and "mc_wait_dequeue mc c p q = Some (am, q') \<Longrightarrow> lanes q p = am # lanes q' p \<and> lanes q' = (lanes q)(p := lanes q' p)"
  using assms unfolding mc_fifo_def put_last_def took_first_def by blast+

lemma lockfree_lanes:
  assumes "mc_fifo mc lanes"
  shows "lane_queue (lockfree_ops mc d) lanes (\<lambda>_. True)"
proof unfold_locales
  note D = mc_fifoD [OF assms]
  fix q q' w t l k am
  { assume "q_start (lockfree_ops mc d) w q = Some q'"
    then show "True \<and> lanes q' = lanes q" by (simp add: lockfree_ops_def) }
  { assume "q_enq (lockfree_ops mc d) t am q = Some (l, q')"
    then have "mc_try_enqueue mc l am q = Some q'" by (auto simp: lockfree_ops_def lockfree_enq_def)
    from D(1) [OF this] show "True \<and> lanes q' = (lanes q)(l := lanes q l @ [am])" by simp }
  { assume "q_deq (lockfree_ops mc d) w l q = Some (am, q')"
    then have "mc_wait_dequeue mc w l q = Some (am, q')" by (simp add: lockfree_ops_def)
    from D(4) [OF this]
    show "True \<and> lanes q l = am # lanes q' l \<and> lanes q' = (lanes q)(l := lanes q' l)" by blast }
  { assume "q_stop (lockfree_ops mc d) k am q = Some (l, q')"
    then have "mc_try_enqueue mc l am q = Some q'"
      by (auto simp: lockfree_ops_def lockfree_stop_def lockfree_enq_def split: if_splits)
    from D(1) [OF this] show "True \<and> lanes q' = (lanes q)(l := lanes q l @ [am])" by simp }
qed

lemma conc_token_fields:
  assumes "conc_token n t q = (l, q')"
  shows "msg_q q' = msg_q q" and "consumer_tokens q' = consumer_tokens q" and "consumer_cnt q' = consumer_cnt q"
    and "producer_tokens q' = (producer_tokens q)(t := Some l)"
    and "producer_tokens q t = Some l \<and> producer_cnt q' = producer_cnt q \<and> producer_sema q' = producer_sema q \<or>
      producer_tokens q t = None \<and> l = unat (producer_cnt q mod n) \<and> producer_cnt q' = producer_cnt q + 1 \<and>
      producer_sema q' = producer_sema q + 1"
  using assms by (auto simp: conc_token_def Let_def split: option.splits)

lemma conc_enq_fields:
  assumes "conc_enq mc n t am q = Some (l, q')"
  shows "mc_try_enqueue mc l am (msg_q q) = Some (msg_q q') \<or> mc_enqueue mc l am (msg_q q) = Some (msg_q q')"
    and "consumer_tokens q' = consumer_tokens q" and "consumer_cnt q' = consumer_cnt q"
    and "producer_tokens q' = (producer_tokens q)(t := Some l)"
    and "producer_tokens q t = Some l \<and> producer_cnt q' = producer_cnt q \<and> producer_sema q' = producer_sema q \<or>
      producer_tokens q t = None \<and> l = unat (producer_cnt q mod n) \<and> producer_cnt q' = producer_cnt q + 1 \<and>
      producer_sema q' = producer_sema q + 1"
proof -
  obtain l1 q1 where c: "conc_token n t q = (l1, q1)" by fastforce
  have "\<exists>m. (mc_try_enqueue mc l1 am (msg_q q1) = Some m \<or> mc_enqueue mc l1 am (msg_q q1) = Some m) \<and>
      l = l1 \<and> q' = q1\<lparr>msg_q := m\<rparr>"
    using assms c
    by (cases "mc_try_enqueue mc l1 am (msg_q q1)"; cases "mc_enqueue mc l1 am (msg_q q1)") (auto simp: conc_enq_def)
  then obtain m where m: "mc_try_enqueue mc l1 am (msg_q q1) = Some m \<or> mc_enqueue mc l1 am (msg_q q1) = Some m"
    and eq: "l = l1" "q' = q1\<lparr>msg_q := m\<rparr>"
    by blast
  note f = conc_token_fields [OF c]
  show "mc_try_enqueue mc l am (msg_q q) = Some (msg_q q') \<or> mc_enqueue mc l am (msg_q q) = Some (msg_q q')"
    using m f(1) eq by simp
  show "consumer_tokens q' = consumer_tokens q" "consumer_cnt q' = consumer_cnt q"
    "producer_tokens q' = (producer_tokens q)(t := Some l)"
    using f eq by simp_all
  show "producer_tokens q t = Some l \<and> producer_cnt q' = producer_cnt q \<and> producer_sema q' = producer_sema q \<or>
      producer_tokens q t = None \<and> l = unat (producer_cnt q mod n) \<and> producer_cnt q' = producer_cnt q + 1 \<and>
      producer_sema q' = producer_sema q + 1"
    using f(5) eq by simp
qed

lemma conc_lanes:
  assumes "mc_fifo mc lanes"
  shows "lane_queue (conc_ops tls mc n) (\<lambda>q. lanes (msg_q q)) (\<lambda>_. True)"
proof unfold_locales
  note D = mc_fifoD [OF assms]
  fix q q' :: "'a conc_queue" and w t l k am
  { assume "q_start (conc_ops tls mc n) w q = Some q'"
    then have "msg_q q' = msg_q q" by (auto simp: conc_ops_def conc_start_def Let_def split: if_splits)
    then show "True \<and> lanes (msg_q q') = lanes (msg_q q)" by simp }
  { assume "q_enq (conc_ops tls mc n) t am q = Some (l, q')"
    then have "conc_enq mc n t am q = Some (l, q')" by (simp add: conc_ops_def)
    from conc_enq_fields(1) [OF this]
    show "True \<and> lanes (msg_q q') = (lanes (msg_q q))(l := lanes (msg_q q) l @ [am])" using D(1,2) by blast }
  { assume "q_deq (conc_ops tls mc n) w l q = Some (am, q')"
    then have "mc_try_dequeue_from_producer mc l (msg_q q) = Some (am, msg_q q')"
      by (auto simp: conc_ops_def conc_deq_def split: if_splits option.splits)
    from D(3) [OF this]
    show "True \<and> lanes (msg_q q) l = am # lanes (msg_q q') l \<and> lanes (msg_q q') = (lanes (msg_q q))(l := lanes (msg_q q') l)"
      by blast }
  { assume "q_stop (conc_ops tls mc n) k am q = Some (l, q')"
    then have "mc_enqueue mc l am (msg_q q) = Some (msg_q q')"
      by (auto simp: conc_ops_def conc_stop_def split: option.splits)
    from D(2) [OF this]
    show "True \<and> lanes (msg_q q') = (lanes (msg_q q))(l := lanes (msg_q q) l @ [am])" by simp }
qed


section \<open>Tokens\<close>

text \<open>
  The workers that are past their start have the indices below \<open>consumer_cnt\<close>, each its own; a
  worker takes messages from its lane only, and a producer puts all of its messages into one lane.
\<close>

definition token_inv :: "bool \<Rightarrow> size_t \<Rightarrow> pool_event list \<Rightarrow> ('mc conc_queue, 'c) pool \<Rightarrow> bool" where
  "token_inv tls n es s \<longleftrightarrow>
     length (workers s) = unat n \<and>
     (\<forall>w. worker_at s w Starting \<longrightarrow> tok tls (queue s) w = None) \<and>
     (\<forall>w < unat n. \<not> worker_at s w Starting \<longrightarrow> tok tls (queue s) w \<noteq> None) \<and>
     (\<forall>w < unat n. \<forall>l. tok tls (queue s) w = Some l \<longrightarrow> l < unat (consumer_cnt (queue s))) \<and>
     (\<forall>v < unat n. \<forall>w < unat n. \<forall>l. tok tls (queue s) v = Some l \<and> tok tls (queue s) w = Some l \<longrightarrow> v = w) \<and>
     (\<forall>l < unat (consumer_cnt (queue s)). \<exists>w < unat n. tok tls (queue s) w = Some l) \<and>
     consumer_cnt (queue s) \<le> n \<and>
     (\<forall>w l am. Dequeued w l am \<in> set es \<longrightarrow> w < unat n \<and> tok tls (queue s) w = Some l) \<and>
     (\<forall>t l am. Enqueued t l am \<in> set es \<and> \<not> is_stop am \<longrightarrow> producer_tokens (queue s) t = Some l) \<and>
     (\<forall>t l. producer_tokens (queue s) t = Some l \<longrightarrow> l < unat n)"

lemma token_invD:
  assumes "token_inv tls n es s"
  shows "length (workers s) = unat n"
    and "worker_at s w Starting \<Longrightarrow> tok tls (queue s) w = None"
    and "w < unat n \<Longrightarrow> \<not> worker_at s w Starting \<Longrightarrow> tok tls (queue s) w \<noteq> None"
    and "w < unat n \<Longrightarrow> tok tls (queue s) w = Some l \<Longrightarrow> l < unat (consumer_cnt (queue s))"
    and "v < unat n \<Longrightarrow> w < unat n \<Longrightarrow> tok tls (queue s) v = Some l \<Longrightarrow> tok tls (queue s) w = Some l \<Longrightarrow> v = w"
    and "l < unat (consumer_cnt (queue s)) \<Longrightarrow> \<exists>w < unat n. tok tls (queue s) w = Some l"
    and "consumer_cnt (queue s) \<le> n"
    and "Dequeued w l am \<in> set es \<Longrightarrow> w < unat n \<and> tok tls (queue s) w = Some l"
    and "Enqueued t l am \<in> set es \<Longrightarrow> \<not> is_stop am \<Longrightarrow> producer_tokens (queue s) t = Some l"
    and "producer_tokens (queue s) t = Some l \<Longrightarrow> l < unat n"
  using assms unfolding token_inv_def by blast+

text \<open>Steps that leave the tokens of the workers alone.\<close>

lemma token_inv_keep:
  assumes inv: "token_inv tls n es s" and len: "length (workers s') = length (workers s)"
    and start: "\<And>w. worker_at s' w Starting = worker_at s w Starting"
    and tok: "\<And>w. w < unat n \<Longrightarrow> tok tls (queue s') w = tok tls (queue s) w"
    and cnt: "consumer_cnt (queue s') = consumer_cnt (queue s)"
    and deq: "\<And>w l am. Dequeued w l am \<in> set es' \<Longrightarrow> w < unat n \<and> tok tls (queue s) w = Some l"
    and enq: "\<And>t l am. Enqueued t l am \<in> set es' \<Longrightarrow> \<not> is_stop am \<Longrightarrow> producer_tokens (queue s') t = Some l"
    and prod: "\<And>t l. producer_tokens (queue s) t = Some l \<Longrightarrow> producer_tokens (queue s') t = Some l"
    and range: "\<And>t l. producer_tokens (queue s') t = Some l \<Longrightarrow> l < unat n"
  shows "token_inv tls n (es @ es') s'"
  unfolding token_inv_def
proof (intro conjI allI impI)
  note D = token_invD [OF inv]
  show "length (workers s') = unat n" using D(1) len by simp
  show "tok tls (queue s') w = None" if "worker_at s' w Starting" for w
  proof -
    have w: "worker_at s w Starting" using that start by simp
    then have "w < unat n" using D(1) by (simp add: worker_at_def)
    then show ?thesis using D(2) [OF w] tok by simp
  qed
  show "tok tls (queue s') w \<noteq> None" if "w < unat n" "\<not> worker_at s' w Starting" for w
    using that D(3) [of w] start tok by simp
  show "l < unat (consumer_cnt (queue s'))" if "w < unat n" "tok tls (queue s') w = Some l" for w l
    using that D(4) [of w l] tok cnt by simp
  show "v = w" if "v < unat n" "w < unat n" "tok tls (queue s') v = Some l \<and> tok tls (queue s') w = Some l" for v w l
    using that D(5) [of v w l] tok by simp
  show "\<exists>w < unat n. tok tls (queue s') w = Some l" if "l < unat (consumer_cnt (queue s'))" for l
    using that D(6) [of l] tok cnt by auto
  show "consumer_cnt (queue s') \<le> n" using D(7) cnt by simp
  show "w < unat n" "tok tls (queue s') w = Some l" if "Dequeued w l am \<in> set (es @ es')" for w l am
    using that D(8) [of w l am] deq [of w l am] tok by auto
  show "producer_tokens (queue s') t = Some l" if "Enqueued t l am \<in> set (es @ es') \<and> \<not> is_stop am" for t l am
    using that D(9) [of t l am] enq [of t l am] prod by auto
  show "l < unat n" if "producer_tokens (queue s') t = Some l" for t l
    using that by (rule range)
qed

lemma conc_start_token:
  assumes inv: "token_inv tls n es s" and w: "worker_at s w Starting"
    and q: "conc_start tls n w (queue s) = Some q"
  shows "token_inv tls n es (set_worker w Popping (s\<lparr>queue := q\<rparr>))"
proof -
  note D = token_invD [OF inv]
  let ?c = "consumer_cnt (queue s)"
  have c: "?c < n" and q': "consumer_cnt q = ?c + 1"
    and t: "tok tls q = (tok tls (queue s))(w := Some (unat ?c))"
    and p: "producer_tokens q = (if tls then (producer_tokens (queue s))(w := Some (unat ?c)) else producer_tokens (queue s))"
    using q by (auto simp: conc_start_def Let_def tok_def fun_eq_iff split: if_splits)
  have "?c \<noteq> - 1" using c by (metis leD word_order.extremum)
  then have "?c + 1 \<noteq> 0" by (simp add: eq_neg_iff_add_eq_0)
  then have up: "unat (consumer_cnt q) = unat ?c + 1" using q' unatSuc [of ?c] by (simp add: add.commute)
  have c': "unat ?c < unat n" using c by (simp add: word_less_nat_alt)
  have wn: "w < unat n" using w D(1) by (simp add: worker_at_def)
  have none: "tok tls (queue s) w = None" by (rule D(2) [OF w])
  show ?thesis
    unfolding token_inv_def
  proof (intro conjI allI impI)
    show "length (workers (set_worker w Popping (s\<lparr>queue := q\<rparr>))) = unat n" using D(1) by simp
    show "tok tls (queue (set_worker w Popping (s\<lparr>queue := q\<rparr>))) v = None"
      if "worker_at (set_worker w Popping (s\<lparr>queue := q\<rparr>)) v Starting" for v
      using that D(2) [of v] by (auto simp: t split: if_splits)
    show "tok tls (queue (set_worker w Popping (s\<lparr>queue := q\<rparr>))) v \<noteq> None"
      if "v < unat n" "\<not> worker_at (set_worker w Popping (s\<lparr>queue := q\<rparr>)) v Starting" for v
      using that D(3) [of v] by (auto simp: t split: if_splits)
    show "l < unat (consumer_cnt (queue (set_worker w Popping (s\<lparr>queue := q\<rparr>))))"
      if "v < unat n" "tok tls (queue (set_worker w Popping (s\<lparr>queue := q\<rparr>))) v = Some l" for v l
      using that D(4) [of v l] by (auto simp: t up split: if_splits)
    show "u = v" if "u < unat n" "v < unat n" "tok tls (queue (set_worker w Popping (s\<lparr>queue := q\<rparr>))) u = Some l \<and>
        tok tls (queue (set_worker w Popping (s\<lparr>queue := q\<rparr>))) v = Some l" for u v l
      using that D(4) [of u l] D(4) [of v l] D(5) [of u v l] by (auto simp: t split: if_splits)
    show "\<exists>v < unat n. tok tls (queue (set_worker w Popping (s\<lparr>queue := q\<rparr>))) v = Some l"
      if l: "l < unat (consumer_cnt (queue (set_worker w Popping (s\<lparr>queue := q\<rparr>))))" for l
    proof (cases "l = unat ?c")
      case True
      then show ?thesis using wn by (auto simp: t)
    next
      case False
      then obtain v where "v < unat n" "tok tls (queue s) v = Some l" using l D(6) [of l] by (auto simp: up)
      then show ?thesis using none by (intro exI [of _ v]) (auto simp: t)
    qed
    show "consumer_cnt (queue (set_worker w Popping (s\<lparr>queue := q\<rparr>))) \<le> n"
      using c' up by (simp add: word_le_nat_alt)
    show "v < unat n" "tok tls (queue (set_worker w Popping (s\<lparr>queue := q\<rparr>))) v = Some l"
      if "Dequeued v l am \<in> set es" for v l am
      using D(8) [OF that] none by (auto simp: t)
    show "producer_tokens (queue (set_worker w Popping (s\<lparr>queue := q\<rparr>))) u = Some l"
      if "Enqueued u l am \<in> set es \<and> \<not> is_stop am" for u l am
      using D(9) [of u l am] that none by (auto simp: p tok_def)
    show "l < unat n" if "producer_tokens (queue (set_worker w Popping (s\<lparr>queue := q\<rparr>))) u = Some l" for u l
      using that D(10) [of u l] c' by (auto simp: p split: if_splits)
  qed
qed

lemma conc_enq_token:
  assumes inv: "token_inv tls n es s" and n: "0 < n" and q: "conc_enq mc n t am (queue s) = Some (l, q)"
    and t: "tls \<Longrightarrow> t < unat n \<Longrightarrow> \<not> worker_at s t Starting"
  shows "\<And>w. w < unat n \<Longrightarrow> tok tls q w = tok tls (queue s) w" and "consumer_cnt q = consumer_cnt (queue s)"
    and "producer_tokens q t = Some l" and "\<And>u k. producer_tokens (queue s) u = Some k \<Longrightarrow> producer_tokens q u = Some k"
    and "\<And>u k. producer_tokens q u = Some k \<Longrightarrow> k < unat n"
proof -
  note f = conc_enq_fields [OF q] and D = token_invD [OF inv]
  have old: "producer_tokens (queue s) t \<noteq> None" if "tls" "t < unat n"
    using D(3) [OF that(2) t [OF that]] that(1) by (simp add: tok_def)
  show "tok tls q w = tok tls (queue s) w" if "w < unat n" for w
    using f(2,4,5) old that by (auto simp: tok_def)
  show "consumer_cnt q = consumer_cnt (queue s)" "producer_tokens q t = Some l" using f(3,4) by simp_all
  show "producer_tokens q u = Some k" if "producer_tokens (queue s) u = Some k" for u k
    using f(4,5) that by auto
  have "unat (producer_cnt (queue s) mod n) < unat n" using n by (simp add: unat_mod word_less_nat_alt)
  then have "l < unat n" using f(5) D(10) [of t l] by auto
  then show "k < unat n" if "producer_tokens q u = Some k" for u k
    using that D(10) [of u k] f(4) by (auto split: if_splits)
qed


lemma conc_fields [simp]:
  "q_start (conc_ops tls mc n) = conc_start tls n" "q_enq (conc_ops tls mc n) = conc_enq mc n"
  "q_deq (conc_ops tls mc n) = conc_deq tls mc" "q_stop (conc_ops tls mc n) = conc_stop mc"
  by (simp_all add: conc_ops_def)

lemma not_Starting:
  assumes "worker_at s w p" and "p \<noteq> Starting" and "p' \<noteq> Starting" and "workers s' = (workers s)[w := p']"
  shows "worker_at s' v Starting = worker_at s v Starting"
  using assms by (auto simp: worker_at_def nth_list_update)

text \<open>Steps of a worker that do not touch the queue.\<close>

lemma token_inv_move:
  assumes inv: "token_inv tls n es s" and w: "worker_at s w p" "p \<noteq> Starting" "p' \<noteq> Starting"
    and s': "workers s' = (workers s)[w := p']" "queue s' = queue s"
    and ev: "\<And>e. e \<in> set es' \<Longrightarrow> \<exists>v j x. e = Wrote v j x"
  shows "token_inv tls n (es @ es') s'"
  using token_invD(10) [OF inv] ev s'
  by (intro token_inv_keep [OF inv]) (auto simp: not_Starting [OF w s'(1)] dest!: ev)

lemma begin_msg_not_Starting: "begin_msg lgs am \<noteq> Starting"
  by (simp add: begin_msg_def split: async_msg_type.split option.split)

lemma step_token_inv:
  assumes step: "pool_step (conc_ops tls mc n) env lgs s es' s'" and n: "0 < n" and inv: "token_inv tls n es s"
  shows "token_inv tls n (es @ es') s'"
  using step
proof cases
  case (begin_loop w q)
  then show ?thesis using conc_start_token [OF inv begin_loop(3), of q] by simp
next
  case (pop w l am q)
  then have t: "tok tls (queue s) w = Some l" and q: "\<exists>m. q = (queue s)\<lparr>msg_q := m\<rparr>"
    by (auto simp: conc_deq_def split: if_splits option.splits)
  have w: "w < unat n" using pop(3) token_invD(1) [OF inv] by (simp add: worker_at_def)
  show ?thesis
    using pop q t w token_invD(10) [OF inv] begin_msg_not_Starting
    by (intro token_inv_keep [OF inv]) (auto simp: tok_def worker_at_def set_worker_def nth_list_update)
next
  case (flush_send w l p ln q)
  then have e: "conc_enq mc n w (async_flush_msg l p) (queue s) = Some (ln, q)" by simp
  have "\<not> worker_at s w Starting" using flush_send(3) by (auto simp: worker_at_def)
  note E = conc_enq_token [OF inv n e this]
  show ?thesis
    using flush_send E by (intro token_inv_keep [OF inv]) (auto simp: worker_at_def set_worker_def nth_list_update)
next
  case (stop_worker ln q)
  then have q: "\<exists>m. q = (queue s)\<lparr>msg_q := m, producer_sema := producer_sema (queue s) + 1\<rparr>"
    by (auto simp: conc_stop_def split: option.splits)
  have "is_stop async_terminate_msg" by (simp add: is_stop_def async_terminate_msg_def)
  then show ?thesis
    using stop_worker q token_invD(10) [OF inv] by (intro token_inv_keep [OF inv]) (auto simp: tok_def)
next
  case (log_sink w l m i "is" m' g)
  then show ?thesis by (intro token_inv_move [OF inv log_sink(3)]) (auto simp: set_worker_def)
next
  case (skip_sink w l m i "is")
  then show ?thesis by (intro token_inv_move [OF inv skip_sink(3)]) (auto simp: set_worker_def)
next
  case (logged w l m)
  then show ?thesis by (intro token_inv_move [OF inv logged(3)]) (auto simp: set_worker_def)
next
  case (flush_lock w l)
  then show ?thesis by (intro token_inv_move [OF inv flush_lock(3)]) (auto simp: set_worker_def)
next
  case (flush_dead w l g)
  then show ?thesis by (intro token_inv_move [OF inv flush_dead(3)]) (auto simp: set_worker_def)
next
  case (awaited w p)
  then show ?thesis by (intro token_inv_move [OF inv awaited(3)]) (auto simp: set_worker_def)
next
  case (flush_one w p i "is" g)
  then show ?thesis by (intro token_inv_move [OF inv flush_one(3)]) (auto simp: set_worker_def)
next
  case (flushed w p)
  then show ?thesis by (intro token_inv_move [OF inv flushed(3)]) (auto simp: set_worker_def)
qed

lemma env_token_inv:
  assumes step: "pool_env (conc_ops tls mc n) s es' s'" and n: "0 < n" and inv: "token_inv tls n es s"
  shows "token_inv tls n (es @ es') s'"
  using step
proof cases
  case (log_call t l m ln q)
  then have e: "conc_enq mc n t (async_log_msg l m) (queue s) = Some (ln, q)" by simp
  have "\<not> t < unat n" using log_call(4) token_invD(1) [OF inv] by simp
  note E = conc_enq_token [OF inv n e] this
  then show ?thesis using log_call by (intro token_inv_keep [OF inv]) auto
next
  case (flush_call t p l ln q)
  then have e: "conc_enq mc n t (async_flush_msg l p) (queue s) = Some (ln, q)" by simp
  have "\<not> t < unat n" using flush_call(4) token_invD(1) [OF inv] by simp
  note E = conc_enq_token [OF inv n e] this
  then show ?thesis using flush_call by (intro token_inv_keep [OF inv]) auto
next
  case (dead_call func g)
  then show ?thesis using inv by (simp add: token_inv_def)
next
  case drop_pool
  then show ?thesis using inv by (simp add: token_inv_def)
qed

lemma run_token_inv:
  assumes "pool_run (conc_ops tls mc n) env lgs (pool_start (unat n) (conc_new m) h) es s" and "0 < n"
  shows "token_inv tls n es s"
  using assms(1)
proof (induction rule: pool_run.induct)
  case start
  show ?case by (auto simp: token_inv_def pool_start_def conc_new_def tok_def worker_at_def)
next
  case (code es s es' s')
  then show ?case using step_token_inv [OF code.hyps(2) assms(2)] by blast
next
  case (client es s es' s')
  then show ?case using env_token_inv [OF client.hyps(2) assms(2)] by blast
qed


section \<open>Counting signals\<close>

text \<open>
  Signals and what became of them. \<open>producer_cnt\<close> is an atomic word, which wraps after \<open>2 ^ 64\<close>
  producers; the count is exact as long as there are fewer messages than that.
\<close>

definition signal_inv :: "pool_event list \<Rightarrow> ('mc conc_queue, 'c) pool \<Rightarrow> bool" where
  "signal_inv es s \<longleftrightarrow>
     unat (consumer_cnt (queue s)) + producer_sema (queue s) = unat (producer_cnt (queue s)) + stops s \<and>
     unat (producer_cnt (queue s)) \<le> length es \<and> stops s \<le> length (workers s) \<and>
     (\<forall>t l. producer_tokens (queue s) t = Some l \<longrightarrow>
        l < unat (producer_cnt (queue s)) \<or> l < unat (consumer_cnt (queue s))) \<and>
     (\<forall>t l am. Enqueued t l am \<in> set es \<longrightarrow>
        l < unat (producer_cnt (queue s)) \<or> l < unat (consumer_cnt (queue s)) \<or> l < stops s)"

lemma signal_inv_same:
  assumes "signal_inv es s" and "length (workers s') = length (workers s)" and "stops s' = stops s"
    and "consumer_cnt (queue s') = consumer_cnt (queue s)" and "producer_sema (queue s') = producer_sema (queue s)"
    and "producer_cnt (queue s') = producer_cnt (queue s)" and "producer_tokens (queue s') = producer_tokens (queue s)"
    and "\<And>t l am. Enqueued t l am \<notin> set es'"
  shows "signal_inv (es @ es') s'"
  using assms by (auto simp: signal_inv_def)

lemma conc_enq_signal:
  assumes inv: "signal_inv es s" and q: "conc_enq mc n t am (queue s) = Some (l, q)"
    and len: "length es < 2 ^ 64 - 1" and s': "queue s' = q" "stops s' = stops s" "length (workers s') = length (workers s)"
  shows "signal_inv (es @ [Enqueued t l am]) s'"
proof -
  note f = conc_enq_fields [OF q]
  let ?p = "producer_cnt (queue s)"
  have le: "unat ?p \<le> length es" using inv by (simp add: signal_inv_def)
  have "unat ?p + 1 < 2 ^ 64" using le len by simp
  then have up: "unat (?p + 1) = unat ?p + 1" by (simp add: unat_word_ariths)
  from f(5) show ?thesis
  proof
    assume "producer_tokens (queue s) t = Some l \<and> producer_cnt q = ?p \<and> producer_sema q = producer_sema (queue s)"
    then show ?thesis using inv f(3,4) s' by (auto simp: signal_inv_def; blast)
  next
    assume new: "producer_tokens (queue s) t = None \<and> l = unat (?p mod n) \<and> producer_cnt q = ?p + 1 \<and>
      producer_sema q = producer_sema (queue s) + 1"
    have "unat (?p mod n) \<le> unat ?p" by (simp add: unat_mod)
    then show ?thesis using inv f(3,4) s' new up by (auto simp: signal_inv_def less_Suc_eq_le le_Suc_eq; blast intro: less_imp_le)
  qed
qed

lemma conc_start_signal:
  assumes inv: "signal_inv es s" and q: "conc_start tls n w (queue s) = Some q"
    and s': "queue s' = q" "stops s' = stops s" "length (workers s') = length (workers s)"
  shows "signal_inv es s'"
proof -
  let ?c = "consumer_cnt (queue s)"
  have c: "?c < n" "producer_sema (queue s) \<noteq> 0" and f: "consumer_cnt q = ?c + 1" "producer_cnt q = producer_cnt (queue s)"
    "producer_sema q = producer_sema (queue s) - 1"
    "producer_tokens q = (if tls then (producer_tokens (queue s))(w := Some (unat ?c)) else producer_tokens (queue s))"
    using q by (auto simp: conc_start_def Let_def split: if_splits)
  have "?c \<noteq> - 1" using c by (metis leD word_order.extremum)
  then have "?c + 1 \<noteq> 0" by (simp add: eq_neg_iff_add_eq_0)
  then have up: "unat (consumer_cnt q) = unat ?c + 1" using f unatSuc [of ?c] by (simp add: add.commute)
  show ?thesis using inv c f(2-4) up s' by (fastforce simp: signal_inv_def)
qed

lemma step_signal_inv:
  assumes step: "pool_step (conc_ops tls mc n) env lgs s es' s'" and inv: "signal_inv es s"
    and len: "es' \<noteq> [] \<Longrightarrow> length es < 2 ^ 64 - 1"
  shows "signal_inv (es @ es') s'"
  using step
proof cases
  case (begin_loop w q)
  then show ?thesis using conc_start_signal [OF inv, of tls n w q s'] by simp
next
  case (pop w l am q)
  then have "\<exists>m. q = (queue s)\<lparr>msg_q := m\<rparr>" by (auto simp: conc_deq_def split: if_splits option.splits)
  then show ?thesis using pop by (intro signal_inv_same [OF inv]) auto
next
  case (flush_send w l p ln q)
  then show ?thesis using conc_enq_signal [OF inv, of mc n w _ ln q s'] len by simp
next
  case (stop_worker ln q)
  then obtain m where q: "q = (queue s)\<lparr>msg_q := m, producer_sema := producer_sema (queue s) + 1\<rparr>" and ln: "ln = stops s"
    by (auto simp: conc_stop_def split: option.splits)
  have "l < unat (producer_cnt (queue s)) \<or> l < unat (consumer_cnt (queue s)) \<or> l < Suc (stops s)"
    if "Enqueued t l am \<in> set es \<or> l = stops s" for t l am
    using that inv unfolding signal_inv_def by (metis less_Suc_eq)
  then show ?thesis using stop_worker(1,2,4) q ln inv unfolding signal_inv_def by auto
qed (intro signal_inv_same [OF inv]; simp)+

lemma env_signal_inv:
  assumes step: "pool_env (conc_ops tls mc n) s es' s'" and inv: "signal_inv es s" and len: "es' \<noteq> [] \<Longrightarrow> length es < 2 ^ 64 - 1"
  shows "signal_inv (es @ es') s'"
  using step
proof cases
  case (log_call t l m ln q)
  then show ?thesis using conc_enq_signal [OF inv, of mc n t _ ln q s'] len by simp
next
  case (flush_call t p l ln q)
  then show ?thesis using conc_enq_signal [OF inv, of mc n t _ ln q s'] len by simp
qed (intro signal_inv_same [OF inv]; simp)+

lemma run_signal_inv:
  assumes "pool_run (conc_ops tls mc n) env lgs (pool_start (unat n) (conc_new m) h) es s" and "length es < 2 ^ 64"
  shows "signal_inv es s"
  using assms
proof (induction rule: pool_run.induct)
  case start
  show ?case by (simp add: signal_inv_def pool_start_def conc_new_def)
next
  case (code es s es' s')
  then have "signal_inv es s" and "es' \<noteq> [] \<Longrightarrow> length es < 2 ^ 64 - 1" by (auto simp: neq_Nil_conv)
  then show ?case by (rule step_signal_inv [OF code.hyps(2)])
next
  case (client es s es' s')
  then have "signal_inv es s" and "es' \<noteq> [] \<Longrightarrow> length es < 2 ^ 64 - 1" by (auto simp: neq_Nil_conv)
  then show ?case by (rule env_signal_inv [OF client.hyps(2)])
qed


fun stop_lane :: "nat \<Rightarrow> pool_event \<Rightarrow> bool" where
  "stop_lane k (Enqueued t l am) \<longleftrightarrow> (is_stop am \<longrightarrow> l < k)"
| "stop_lane k _ \<longleftrightarrow> True"

lemma not_stop [simp]: "\<not> is_stop (async_log_msg a b)" "\<not> is_stop (async_flush_msg a c)"
  by (simp_all add: is_stop_def async_log_msg_def async_flush_msg_def)

lemma stop_lane_Suc: "stop_lane k e \<Longrightarrow> stop_lane (Suc k) e"
  by (cases e) auto

lemma conc_stop_lane:
  assumes "pool_run (conc_ops tls mc n) env lgs (pool_start k (conc_new m) h) es s"
    and e: "Enqueued t l am \<in> set es" and stop: "is_stop am"
  shows "l < stops s \<and> stops s \<le> length (workers s)"
proof -
  have "stops s \<le> length (workers s) \<and> (\<forall>e \<in> set es. stop_lane (stops s) e)"
    using assms(1)
  proof (induction rule: pool_run.induct)
    case start
    show ?case by (simp add: pool_start_def)
  next
    case (code es s es' s')
    from code.hyps(2) code.IH show ?case
      by cases (auto simp: conc_stop_def intro: stop_lane_Suc split: option.splits)
  next
    case (client es s es' s')
    from client.hyps(2) client.IH show ?case by cases auto
  qed
  then show ?thesis using e stop by force
qed

section \<open>Messages over all lanes\<close>

lemma enqs_event: "(t, l, am) \<in> set (enqs es) \<Longrightarrow> Enqueued t l am \<in> set es"
  by (induction es) (auto simp: map_filter_simps elim: enq_msg.elims split: option.splits)

lemma deqs_event: "(w, l, am) \<in> set (deqs es) \<Longrightarrow> Dequeued w l am \<in> set es"
  by (induction es) (auto simp: map_filter_simps elim: deq_msg.elims split: option.splits)

lemma wrotes_event: "(w, j, x) \<in> set (wrotes es) \<Longrightarrow> Wrote w j x \<in> set es"
  by (induction es) (auto simp: map_filter_simps elim: wrote_line.elims split: option.splits)

lemma mset_by_key:
  assumes "finite L" and "k ` set xs \<subseteq> L"
  shows "mset (map g xs) = (\<Sum>l\<in>L. mset (map g (filter (\<lambda>x. k x = l) xs)))"
  using assms(2)
proof (induction xs)
  case (Cons x xs)
  have "(\<Sum>l\<in>L. mset (map g (filter (\<lambda>x. k x = l) (x # xs)))) =
      (\<Sum>l\<in>L. (if k x = l then {#g x#} else {#}) + mset (map g (filter (\<lambda>x. k x = l) xs)))"
    by (rule sum.cong) auto
  also have "\<dots> = {#g x#} + mset (map g xs)"
    using Cons sum.delta' [OF assms(1), of "k x" "\<lambda>_. {#g x#}"] by (simp add: sum.distrib)
  finally show ?case by simp
qed simp

lemma mset_lanes:
  assumes "\<And>l. enqueued_on l es = dequeued_on l es"
  shows "mset (enqueued es) = mset (dequeued es)"
proof -
  let ?L = "(fst \<circ> snd) ` (set (enqs es) \<union> set (deqs es))" and ?k = "fst \<circ> snd"
  have "mset (enqueued es) = (\<Sum>l\<in>?L. mset (enqueued_on l es))"
    using mset_by_key [of ?L ?k "enqs es" "snd \<circ> snd"]
    by (simp add: enqueued_def enqueued_on_def case_prod_beta comp_def image_Un)
  also have "\<dots> = (\<Sum>l\<in>?L. mset (dequeued_on l es))" by (simp only: assms)
  also have "\<dots> = mset (dequeued es)"
    using mset_by_key [of ?L ?k "deqs es" "snd \<circ> snd"]
    by (simp add: dequeued_def dequeued_on_def case_prod_beta comp_def image_Un)
  finally show ?thesis .
qed

lemma in_lane:
  "am \<in> set (dequeued es) \<longleftrightarrow> (\<exists>l. am \<in> set (dequeued_on l es))"
  "am \<in> set (enqueued es) \<longleftrightarrow> (\<exists>l. am \<in> set (enqueued_on l es))"
  by (auto simp: dequeued_def dequeued_on_def enqueued_def enqueued_on_def image_iff) force+


context lane_queue
begin

lemma run_write:
  assumes run: "pool_run ops env lgs (pool_start k q h) es s" and q: "ok q" "\<And>l. lanes q l = []"
    and env: "healthy (oenv env)" "loggers_ok all lgs" "heap_ok env all h"
    and msgs: "\<forall>am \<in> set (enqueued es). msg_ok env all h am"
  shows "write_inv env lgs all h es s" and "enqueued_on l es = dequeued_on l es @ lanes (queue s) l"
proof -
  show l: "enqueued_on l es = dequeued_on l es @ lanes (queue s) l" for l
    using run_lanes [OF run, of l] q by (simp add: pool_start_def)
  then have "set (dequeued es) \<subseteq> set (enqueued es)" by (auto simp: in_lane)
  then show "write_inv env lgs all h es s" using run_write_inv [OF run env] msgs by blast
qed

lemma rest_writes_once:
  assumes run: "pool_run ops env lgs (pool_start k q h) es s" and q: "ok q" "\<And>l. lanes q l = []"
    and env: "healthy (oenv env)" "loggers_ok all lgs" "heap_ok env all h"
    and msgs: "\<forall>am \<in> set (enqueued es). msg_ok env all h am"
    and rest: "\<And>l. lanes (queue s) l = []" "\<forall>p \<in> set (workers s). p = Popping \<or> p = Exited" and j: "j \<in> set all"
  shows "\<exists>ls. text_at (mem s) j = text_at h j @ concat ls \<and> mset ls = mset (concat (map (due env lgs h j) (enqueued es)))"
proof -
  note inv = run_write(1) [OF run q env msgs]
  have "enqueued_on l es = dequeued_on l es" for l using run_write(2) [OF run q env msgs] rest(1) by simp
  then have same: "mset (enqueued es) = mset (dequeued es)" by (rule mset_lanes)
  have none: "(\<Sum>p\<in>#mset ws. mset (pending env h j p)) = {#}" if "\<forall>p \<in> set ws. p = Popping \<or> p = Exited" for ws
    using that by (induction ws) auto
  have "mset (written j es) + (\<Sum>p\<in>#mset (workers s). mset (pending env h j p)) =
      mset (concat (map (due env lgs h j) (dequeued es)))"
    using write_inv_total [OF inv _ _ j, of k] run_workers [OF run] by (simp add: pool_start_def)
  then have "mset (written j es) = mset (concat (map (due env lgs h j) (enqueued es)))"
    unfolding none [OF rest(2)] using same by (simp only: mset_concat_map) simp
  then show ?thesis using write_invD(3) [OF inv j] by blast
qed

end

section \<open>Properties\<close>

text \<open>
  The lines of the simple pool, for any queue that keeps the order of each producer: at rest,
  with every lane empty and every worker in its loop or stopped, each sink holds one whole line for
  each message enqueued for it.
\<close>

lemma lockfree_rest_writes_once:
  assumes "mc_fifo mc lanes" and "\<And>l. lanes m l = []"
    and "pool_run (lockfree_ops mc d) env lgs (pool_start k m h) es s"
    and "healthy (oenv env)" and "loggers_ok all lgs" and "heap_ok env all h"
    and "\<forall>am \<in> set (enqueued es). msg_ok env all h am"
    and "\<And>l. lanes (queue s) l = []" and "\<forall>p \<in> set (workers s). p = Popping \<or> p = Exited" and "j \<in> set all"
  shows "\<exists>ls. text_at (mem s) j = text_at h j @ concat ls \<and> mset ls = mset (concat (map (due env lgs h j) (enqueued es)))"
  by (rule lane_queue.rest_writes_once [OF lockfree_lanes [OF assms(1)] assms(3) TrueI assms(2,4-)])

text \<open>
  C34: with \<open>lockfree_concurrent_thread_pool\<close> each producer thread puts all of its messages
  into one lane, and each lane is emptied by one worker, which writes what is due from it to every
  sink in the order of the lane: the lines of one producer never overtake each other in a sink.
\<close>

theorem conc_keeps_producer_order:
  assumes "mc_fifo mc lanes" and "\<And>l. lanes m l = []" and "0 < n"
    and "pool_run (conc_ops tls mc n) env lgs (pool_start (unat n) (conc_new m) h) es s"
    and "healthy (oenv env)" and "loggers_ok all lgs" and "heap_ok env all h"
    and "\<forall>am \<in> set (enqueued es). msg_ok env all h am"
  shows "(\<forall>t. \<exists>l. \<forall>k am. Enqueued t k am \<in> set es \<and> \<not> is_stop am \<longrightarrow> k = l) \<and>
     (\<forall>l. \<exists>w. dequeued_on l es = dequeued_by w es \<and>
        (\<forall>j \<in> set all. \<exists>rest. concat (map (due env lgs h j) (enqueued_on l es)) = written_by w j es @ rest))"
proof -
  note lane = conc_lanes [OF assms(1), of tls n] and D = token_invD [OF run_token_inv [OF assms(4,3)]]
  have q0: "\<And>l. lanes (msg_q (conc_new m)) l = []" using assms(2) by (simp add: conc_new_def)
  note inv = lane_queue.run_write(1) [OF lane assms(4) TrueI q0 assms(5-8)]
    and split = lane_queue.run_write(2) [OF lane assms(4) TrueI q0 assms(5-8)]
  have "\<exists>l. \<forall>k am. Enqueued t k am \<in> set es \<and> \<not> is_stop am \<longrightarrow> k = l" for t
    using D(9) [of t] by (cases "producer_tokens (queue s) t") (fastforce+)
  moreover have "\<exists>w. dequeued_on l es = dequeued_by w es \<and>
      (\<forall>j \<in> set all. \<exists>rest. concat (map (due env lgs h j) (enqueued_on l es)) = written_by w j es @ rest)" for l
  proof (cases "\<exists>w < unat n. tok tls (queue s) w = Some l")
    case True
    then obtain w where w: "w < unat n" "tok tls (queue s) w = Some l" by blast
    have "k = l \<longleftrightarrow> v = w" if "(v, k, am) \<in> set (deqs es)" for v k am
    proof -
      have "Dequeued v k am \<in> set es" using that by (rule deqs_event)
      then have v: "v < unat n" "tok tls (queue s) v = Some k" using D(8) by blast+
      then show ?thesis using D(5) [OF v(1) w(1), of l] w(2) by auto
    qed
    then have eq: "dequeued_on l es = dequeued_by w es"
      unfolding dequeued_on_def dequeued_by_def by (intro arg_cong [where f = "map (snd \<circ> snd)"] filter_cong) auto
    have "worker_at s w (workers s ! w)" using w(1) D(1) by (simp add: worker_at_def)
    then have "concat (map (due env lgs h j) (dequeued_by w es)) = written_by w j es @ pending env h j (workers s ! w)"
      if "j \<in> set all" for j
      using write_invD(5) [OF inv _ that] by blast
    then show ?thesis using eq split [of l] by auto
  next
    case False
    have none: "k \<noteq> l \<and> v \<noteq> unat n" if "(v, k, am) \<in> set (deqs es)" for v k am
      using D(8) [OF deqs_event [OF that]] False by auto
    have "e \<noteq> Wrote (unat n) j x" if "e \<in> set es" for e j x
      using run_workers [OF assms(4)] that by (auto simp: pool_start_def)
    then have "(unat n, j, x) \<notin> set (wrotes es)" for j x using wrotes_event by blast
    then have "written_by (unat n) j es = []" for j by (auto simp: written_by_def filter_empty_conv)
    moreover have "dequeued_on l es = []" "dequeued_by (unat n) es = []"
      using none by (auto simp: dequeued_on_def dequeued_by_def filter_empty_conv)
    ultimately show ?thesis by (intro exI [of _ "unat n"]) simp
  qed
  ultimately show ?thesis by blast
qed

text \<open>
  No lane is forgotten: while a lane of \<open>lockfree_concurrent_thread_pool\<close> has a message, it
  has a worker, or a worker that has not begun yet can pass the semaphore and take the next lane.
\<close>

theorem conc_lane_served:
  assumes "mc_fifo mc lanes" and "\<And>l. lanes m l = []" and "0 < n"
    and "pool_run (conc_ops tls mc n) env lgs (pool_start (unat n) (conc_new m) h) es s"
    and "length es < 2 ^ 64" and "lanes (msg_q (queue s)) l \<noteq> []"
  shows "l < unat n \<and> ((\<exists>w < unat n. tok tls (queue s) w = Some l) \<or>
     (\<exists>w. worker_at s w Starting \<and> conc_start tls n w (queue s) \<noteq> None))"
proof -
  note lane = conc_lanes [OF assms(1), of tls n] and D = token_invD [OF run_token_inv [OF assms(4,3)]]
  have sig: "signal_inv es s" by (rule run_signal_inv [OF assms(4,5)])
  have "enqueued_on l es = dequeued_on l es @ lanes (msg_q (queue s)) l"
    using lane_queue.run_lanes [OF lane assms(4) TrueI, of l] assms(2) by (simp add: pool_start_def conc_new_def)
  then have "enqueued_on l es \<noteq> []" using assms(6) by simp
  then obtain t am where "(t, l, am) \<in> set (enqs es)" by (auto simp: enqueued_on_def filter_empty_conv)
  then have e: "Enqueued t l am \<in> set es" by (rule enqs_event)
  have l: "l < unat n"
  proof (cases "is_stop am")
    case True
    then show ?thesis using conc_stop_lane [OF assms(4) e] D(1) by simp
  next
    case False
    then show ?thesis using D(9) [OF e] D(10) by blast
  qed
  show ?thesis
  proof (cases "\<exists>w < unat n. tok tls (queue s) w = Some l")
    case False
    let ?c = "consumer_cnt (queue s)"
    have c: "unat ?c \<le> l" using False D(6) [of l] by (meson not_less)
    have "l < unat (producer_cnt (queue s)) \<or> l < stops s"
      using sig e c unfolding signal_inv_def by (metis not_less)
    then have sema: "producer_sema (queue s) \<noteq> 0" using sig c by (auto simp: signal_inv_def)
    have room: "\<not> n \<le> ?c" using c l by (simp add: word_le_nat_alt)
    have "\<exists>w. worker_at s w Starting"
    proof (rule ccontr)
      assume "\<nexists>w. worker_at s w Starting"
      then have all: "\<exists>k. tok tls (queue s) w = Some k \<and> k < unat ?c" if "w < unat n" for w
        using that D(3,4) [of w] by fastforce
      let ?f = "\<lambda>w. the (tok tls (queue s) w)"
      have "inj_on ?f {..<unat n}" using all D(5) by (intro inj_onI) (metis lessThan_iff option.sel)
      moreover have "?f ` {..<unat n} \<subseteq> {..<unat ?c}" using all by fastforce
      ultimately have "card {..<unat n} \<le> card {..<unat ?c}" using card_inj_on_le finite_lessThan by blast
      then show False using c l by simp
    qed
    then show ?thesis using l sema room by (auto simp: conc_start_def Let_def)
  qed (use l in blast)
qed


section \<open>Witnesses\<close>

text \<open>A queue library with a list for each producer.\<close>

definition sample_mc :: "(nat \<Rightarrow> async_msg list) mc_ops" where
  "sample_mc = \<lparr>mc_try_enqueue = (\<lambda>p am q. Some (q(p := q p @ [am]))), mc_enqueue = (\<lambda>p am q. Some (q(p := q p @ [am]))),
     mc_try_dequeue_from_producer = (\<lambda>p q. case q p of [] \<Rightarrow> None | am # as \<Rightarrow> Some (am, q(p := as))),
     mc_wait_dequeue = (\<lambda>c p q. case q p of [] \<Rightarrow> None | am # as \<Rightarrow> Some (am, q(p := as))), mc_size_approx = (\<lambda>q. 0)\<rparr>"

lemma sample_mc_simps [simp]:
  "mc_try_enqueue sample_mc p am q = Some (q(p := q p @ [am]))" "mc_size_approx sample_mc q = 0"
  "mc_wait_dequeue sample_mc c p (q(p := am # as)) = Some (am, q(p := as))"
  "mc_try_dequeue_from_producer sample_mc p (q(p := am # as)) = Some (am, q(p := as))"
  by (simp_all add: sample_mc_def)

lemma sample_conc_enq:
  "producer_cnt q = 0 \<Longrightarrow> producer_tokens q t = None \<Longrightarrow>
     conc_enq sample_mc n t am q = Some (0, q\<lparr>producer_cnt := 1, producer_tokens := (producer_tokens q)(t := Some 0),
       producer_sema := producer_sema q + 1, msg_q := (msg_q q)(0 := msg_q q 0 @ [am])\<rparr>)"
  by (simp add: conc_enq_def conc_token_def)

lemma sample_mc_fifo: "mc_fifo sample_mc (\<lambda>q. q)"
  by (auto simp: mc_fifo_def sample_mc_def put_last_def took_first_def split: list.splits)

abbreviation sample_am :: async_msg where
  "sample_am \<equiv> async_log_msg 0 sample_async"

lemma sample_empty: "(\<lambda>_. [])(p := [x], p := []) = (\<lambda>_. [])"
  by auto

lemma sample_conc_run:
  "\<exists>es s. pool_run (conc_ops False sample_mc 1) sample_sys (sample_lgs Off) (pool_start 1 (conc_new (\<lambda>_. [])) sample_heap) es s \<and>
     enqueued es = [sample_am] \<and> enqueued_on 0 es = [sample_am]"
proof -
  let ?fresh = "conc_new (\<lambda>_. []) :: (nat \<Rightarrow> async_msg list) conc_queue"
  let ?enqd = "?fresh\<lparr>producer_cnt := 1, producer_tokens := (producer_tokens ?fresh)(5 := Some 0), producer_sema := 1,
      msg_q := (\<lambda>_. [])(0 := [sample_am])\<rparr>"
  let ?started = "?enqd\<lparr>producer_sema := 0, consumer_cnt := 1, consumer_tokens := (consumer_tokens ?fresh)(0 := Some 0)\<rparr>"
  have "conc_enq sample_mc 1 5 sample_am ?fresh = Some (0, ?enqd)"
    by (simp add: sample_conc_enq conc_new_def)
  moreover have "conc_start False 1 0 ?enqd = Some ?started" by (simp add: conc_start_def conc_new_def Let_def)
  moreover have "conc_deq False sample_mc 0 0 ?started = Some (sample_am, ?started\<lparr>msg_q := (\<lambda>_. [])\<rparr>)"
    by (simp add: conc_deq_def tok_def sample_empty conc_new_def fun_upd_idem)
  ultimately obtain wx jx tx wy jy ty s m where
    "pool_run (conc_ops False sample_mc 1) sample_sys (sample_lgs Off) (pool_start 1 ?fresh sample_heap)
      [Enqueued 5 0 sample_am, Dequeued 0 0 sample_am, Wrote wx jx tx, Wrote wy jy ty] s"
    using sample_ops_run [of "conc_ops False sample_mc 1" ?fresh 0 ?enqd ?started _ Off] by auto
  moreover have "enqueued [Enqueued 5 0 sample_am, Dequeued 0 0 sample_am, Wrote wx jx tx, Wrote wy jy ty] = [sample_am] \<and>
      enqueued_on 0 [Enqueued 5 0 sample_am, Dequeued 0 0 sample_am, Wrote wx jx tx, Wrote wy jy ty] = [sample_am]"
    by (simp add: trace)
  ultimately show ?thesis by simp blast
qed

theorem conc_keeps_producer_order_witness:
  "\<exists>es s w. pool_run (conc_ops False sample_mc 1) sample_sys (sample_lgs Off) (pool_start 1 (conc_new (\<lambda>_. [])) sample_heap) es s \<and>
     enqueued es = [sample_am] \<and> (\<exists>rest. [''< net>\<newline>''] = written_by w 3 es @ rest)"
proof -
  obtain es s where run: "pool_run (conc_ops False sample_mc 1) sample_sys (sample_lgs Off)
      (pool_start (unat (1 :: size_t)) (conc_new (\<lambda>_. [])) sample_heap) es s"
    and e: "enqueued es = [sample_am]" "enqueued_on 0 es = [sample_am]"
    using sample_conc_run by auto
  have env: "healthy (oenv sample_sys)" using sample_healthy(1) by simp
  have msgs: "\<forall>am \<in> set (enqueued es). msg_ok sample_sys [0, 3] sample_heap am" using sample_async_ok(1) e by simp
  have "\<exists>w. dequeued_on 0 es = dequeued_by w es \<and> (\<forall>j \<in> set [0, 3]. \<exists>rest.
      concat (map (due sample_sys (sample_lgs Off) sample_heap j) (enqueued_on 0 es)) = written_by w j es @ rest)"
    using conc_keeps_producer_order [OF sample_mc_fifo _ _ run env sample_async_ok(4) sample_heap_ok msgs]
    by simp
  then obtain w where "\<exists>rest. concat (map (due sample_sys (sample_lgs Off) sample_heap 3) (enqueued_on 0 es)) =
      written_by w 3 es @ rest"
    by auto
  then show ?thesis using run e sample_due by auto
qed

theorem conc_lane_served_witness:
  "\<exists>es s. pool_run (conc_ops True sample_mc 2) sample_sys (sample_lgs Off) (pool_start 2 (conc_new (\<lambda>_. [])) sample_heap) es s \<and>
     (\<exists>w. worker_at s w Starting \<and> conc_start True 2 w (queue s) \<noteq> None)"
proof -
  let ?fresh = "conc_new (\<lambda>_. []) :: (nat \<Rightarrow> async_msg list) conc_queue"
  let ?enqd = "?fresh\<lparr>producer_cnt := 1, producer_tokens := (producer_tokens ?fresh)(2 := Some 0), producer_sema := 1,
      msg_q := (\<lambda>_. [])(0 := [sample_am])\<rparr>"
  let ?start = "pool_start (unat (2 :: size_t)) ?fresh sample_heap"
  have "pool_env (conc_ops True sample_mc 2) ?start [Enqueued 2 0 sample_am] (?start\<lparr>queue := ?enqd\<rparr>)"
    by (rule log_call) (simp_all add: pool_start_def lockable_def sample_conc_enq conc_new_def)
  then have run: "pool_run (conc_ops True sample_mc 2) sample_sys (sample_lgs Off) ?start ([] @ [Enqueued 2 0 sample_am]) (?start\<lparr>queue := ?enqd\<rparr>)"
    by (rule pool_run.client [OF pool_run.start])
  have "0 < unat (2 :: size_t) \<and> ((\<exists>w < unat (2 :: size_t). tok True ?enqd w = Some 0) \<or>
      (\<exists>w. worker_at (?start\<lparr>queue := ?enqd\<rparr>) w Starting \<and> conc_start True 2 w ?enqd \<noteq> None))"
    using conc_lane_served [OF sample_mc_fifo _ _ run, of 0] by simp
  moreover have "tok True ?enqd w \<noteq> Some 0" if "w < unat (2 :: size_t)" for w
    using that by (simp add: tok_def conc_new_def)
  ultimately obtain w where
    "worker_at (?start\<lparr>queue := ?enqd\<rparr>) w Starting \<and> conc_start True 2 w (queue (?start\<lparr>queue := ?enqd\<rparr>)) \<noteq> None"
    by auto
  moreover have "pool_run (conc_ops True sample_mc 2) sample_sys (sample_lgs Off) (pool_start 2 (conc_new (\<lambda>_. [])) sample_heap)
      [Enqueued 2 0 sample_am] (?start\<lparr>queue := ?enqd\<rparr>)"
    using run by simp
  ultimately show ?thesis by blast
qed

end
