(* ===== verification/Light_Semaphore.thy ===== *)
theory Light_Semaphore
  imports Log_Prelude
begin

text \<open>
  \<^verbatim>\<open>base/concurrentqueue/lightweightsemaphore.h\<close>: the semaphore the workers of
  \<open>lockfree_concurrent_thread_pool\<close> wait at. A counter that is changed with atomic operations stands in
  front of the semaphore of the system, which is a number here. Every atomic operation is a step, so
  the threads interleave between a load and the exchange that follows it; the atomic operations are
  taken to be sequentially consistent. The counter is an \<open>int\<close>: \<open>sem_count_range\<close> bounds it by the
  number of threads and of permits.
\<close>

section \<open>The system semaphore\<close>

text \<open>The absolute deadline of \<open>timed_wait\<close>, from the clock in seconds and nanoseconds.\<close>

definition deadline :: "nat \<times> nat \<Rightarrow> nat \<Rightarrow> nat \<times> nat" where
  "deadline now usecs =
     (let sec = fst now + usecs div 1000000; nsec = snd now + (usecs mod 1000000) * 1000
      in if nsec \<ge> 1000000000 then (sec + 1, nsec - 1000000000) else (sec, nsec))"

lemma deadline_exact:
  assumes "snd now < 1000000000"
  shows "snd (deadline now usecs) < 1000000000 \<and>
     fst (deadline now usecs) * 1000000000 + snd (deadline now usecs) =
       fst now * 1000000000 + snd now + usecs * 1000"
proof -
  define d m where "d = usecs div 1000000" and "m = usecs mod 1000000"
  have "m < 1000000" "usecs = d * 1000000 + m" by (simp_all add: d_def m_def)
  moreover have "deadline now usecs =
      (if snd now + m * 1000 \<ge> 1000000000 then (fst now + d + 1, snd now + m * 1000 - 1000000000)
       else (fst now + d, snd now + m * 1000))"
    by (simp add: deadline_def d_def m_def)
  ultimately show ?thesis using assms by (simp split: if_split) linarith
qed

section \<open>The steps of a thread\<close>

text \<open>
  \<open>want\<close> is the \<open>max\<close> of the operations for many permits; those for one permit are the same
  code with \<open>max\<close> 1 (\<open>oldCount > 1 ? oldCount - 1 : 0\<close> is \<open>oldCount - 1\<close> there) and return whether
  the result is positive. \<open>held\<close> is the permit that \<open>waitManyWithPartialSpinning\<close> adds to the result
  of its \<open>tryWaitMany\<close>, and \<open>tmo\<close> the time-out in microseconds, negative for none.
\<close>

datatype sem_pc =
    Idle
  | Load int int "int option"
  | Try int int int "int option"
  | Spin nat int int
  | Spin_cas int nat int int
  | Sub int int
  | In_sema int int
  | Fix_load int
  | Fix_sema int
  | Fix_cas int int
  | Add int
  | Post nat

datatype sem_event = Call | Step | Gave_up | Got int | Signalled int

text \<open>\<open>newCount\<close>, and what \<open>tryWaitMany\<close> returns with the result \<open>r\<close> to its caller.\<close>

definition remaining :: "int \<Rightarrow> int \<Rightarrow> int" where
  "remaining old want = (if old > want then old - want else 0)"

definition tried :: "nat \<Rightarrow> int \<Rightarrow> int \<Rightarrow> int option \<Rightarrow> int \<Rightarrow> sem_event \<times> sem_pc" where
  "tried spins want held tmo r =
     (case tmo of
        Some us \<Rightarrow> if r = 0 \<and> want > 0 then (Step, Spin spins want us) else (Got r, Idle)
      | None \<Rightarrow> (Got (held + r), Idle))"

text \<open>The end of \<open>waitManyWithPartialSpinning\<close>, with one permit.\<close>

definition one_taken :: "int \<Rightarrow> sem_event \<times> sem_pc" where
  "one_taken want = (if want > 1 then (Step, Load (want - 1) 1 None) else (Got 1, Idle))"

text \<open>How many waiting threads \<open>signal\<close> has to release.\<close>

definition to_release :: "int \<Rightarrow> int \<Rightarrow> nat" where
  "to_release old n = nat (if - old < n then - old else n)"

inductive acts :: "nat \<Rightarrow> int \<times> nat \<times> sem_pc \<Rightarrow> sem_event \<Rightarrow> int \<times> nat \<times> sem_pc \<Rightarrow> bool" for spins where
  call_try: "0 \<le> w \<Longrightarrow> acts spins (c, k, Idle) Call (c, k, Load w 0 None)"
| call_wait: "0 \<le> w \<Longrightarrow> acts spins (c, k, Idle) Call (c, k, Load w 0 (Some us))"
| call_signal: "0 \<le> n \<Longrightarrow> acts spins (c, k, Idle) Call (c, k, Add n)"
| load: "acts spins (c, k, Load w h tmo) Step (c, k, Try c w h tmo)"
| try_none: "old \<le> 0 \<Longrightarrow> tried spins w h tmo 0 = (e, p) \<Longrightarrow> acts spins (c, k, Try old w h tmo) e (c, k, p)"
| try_again: "old > 0 \<Longrightarrow> acts spins (c, k, Try old w h tmo) Step (c, k, Try c w h tmo)"
| try_take: "c > 0 \<Longrightarrow> tried spins w h tmo (c - remaining c w) = (e, p) \<Longrightarrow>
    acts spins (c, k, Try c w h tmo) e (remaining c w, k, p)"
| spin_over: "acts spins (c, k, Spin 0 w us) Step (c, k, Sub w us)"
| spin_miss: "c \<le> 0 \<Longrightarrow> acts spins (c, k, Spin (Suc n) w us) Step (c, k, Spin n w us)"
| spin_look: "c > 0 \<Longrightarrow> acts spins (c, k, Spin (Suc n) w us) Step (c, k, Spin_cas c n w us)"
| spin_take: "acts spins (c, k, Spin_cas c n w us) (Got (c - remaining c w)) (remaining c w, k, Idle)"
| spin_again: "c \<noteq> old \<Longrightarrow> acts spins (c, k, Spin_cas old n w us) Step (c, k, Spin n w us)"
| sub_take: "c > 0 \<Longrightarrow> one_taken w = (e, p) \<Longrightarrow> acts spins (c, k, Sub w us) e (c - 1, k, p)"
| sub_block: "c \<le> 0 \<Longrightarrow> acts spins (c, k, Sub w us) Step (c - 1, k, if us = 0 then Fix_load w else In_sema w us)"
| released: "one_taken w = (e, p) \<Longrightarrow> acts spins (c, Suc k, In_sema w us) e (c, k, p)"
| give_up: "acts spins (c, k, In_sema w us) Gave_up (c, k, Fix_load w)"
| fix_load: "acts spins (c, k, Fix_load w) Step (c, k, if c \<ge> 0 then Fix_sema w else Fix_cas c w)"
| fix_released: "one_taken w = (e, p) \<Longrightarrow> acts spins (c, Suc k, Fix_sema w) e (c, k, p)"
| fix_again: "acts spins (c, 0, Fix_sema w) Step (c, 0, Fix_load w)"
| fix_return: "acts spins (c, k, Fix_cas c w) (Got 0) (c + 1, k, Idle)"
| fix_retry: "c \<noteq> old \<Longrightarrow> acts spins (c, k, Fix_cas old w) Step (c, k, Fix_load w)"
| add: "acts spins (c, k, Add n) (Signalled n) (c + n, k, Post (to_release c n))"
| post: "acts spins (c, k, Post (Suc n)) Step (c, Suc k, Post n)"
| posted: "acts spins (c, k, Post 0) Step (c, k, Idle)"

section \<open>The semaphore\<close>

record sem =
  m_count :: int
  m_sema :: nat
  threads :: "sem_pc list"

definition sem_new :: "int \<Rightarrow> nat \<Rightarrow> sem" where
  "sem_new initial n = \<lparr>m_count = initial, m_sema = 0, threads = replicate n Idle\<rparr>"

inductive sem_step :: "nat \<Rightarrow> sem \<Rightarrow> sem_event \<Rightarrow> sem \<Rightarrow> bool" for spins where
  thread: "t < length (threads s) \<Longrightarrow> acts spins (m_count s, m_sema s, threads s ! t) e (c, k, p) \<Longrightarrow>
    sem_step spins s e \<lparr>m_count = c, m_sema = k, threads = (threads s)[t := p]\<rparr>"

inductive sem_run :: "nat \<Rightarrow> sem \<Rightarrow> sem_event list \<Rightarrow> sem \<Rightarrow> bool" for spins s where
  start: "sem_run spins s [] s"
| more: "sem_run spins s es t \<Longrightarrow> sem_step spins t e u \<Longrightarrow> sem_run spins s (es @ [e]) u"

definition available_approx :: "sem \<Rightarrow> nat" where
  "available_approx s = (if m_count s > 0 then nat (m_count s) else 0)"

section \<open>The specification\<close>

text \<open>A counting semaphore: what is taken is there.\<close>

fun counting :: "int \<Rightarrow> sem_event list \<Rightarrow> bool" where
  "counting n [] = True"
| "counting n (Got r # es) = (0 \<le> r \<and> r \<le> n \<and> counting (n - r) es)"
| "counting n (Signalled r # es) = (0 \<le> r \<and> counting (n + r) es)"
| "counting n (_ # es) = counting n es"

fun gain :: "sem_event \<Rightarrow> int" where
  "gain (Got r) = - r"
| "gain (Signalled r) = r"
| "gain _ = 0"

definition left :: "int \<Rightarrow> sem_event list \<Rightarrow> int" where
  "left n es = n + (\<Sum>e\<leftarrow>es. gain e)"

lemma left_snoc: "left n (es @ [e]) = left n es + gain e"
  by (simp add: left_def)

lemma left_Nil: "left n [] = n"
  by (simp add: left_def)

lemma left_Cons: "left n (e # es) = left (n + gain e) es"
  by (simp add: left_def)

lemma counting_snoc:
  "counting n (es @ [e]) \<longleftrightarrow> counting n es \<and> (\<forall>r. e = Got r \<longrightarrow> 0 \<le> r \<and> r \<le> left n es) \<and>
     (\<forall>r. e = Signalled r \<longrightarrow> 0 \<le> r)"
proof (induction n es rule: counting.induct)
  case (1 n)
  then show ?case by (cases e) (auto simp: left_def)
qed (auto simp: left_Cons)

section \<open>The balance of the counter\<close>

text \<open>
  What a thread holds but has not returned, whether it is counted as waiting, and how many releases it
  still has to post.
\<close>

fun holds :: "sem_pc \<Rightarrow> int" where
  "holds (Load w h tmo) = h"
| "holds (Try old w h tmo) = h"
| "holds _ = 0"

fun waits :: "sem_pc \<Rightarrow> int" where
  "waits (In_sema w us) = 1"
| "waits (Fix_load w) = 1"
| "waits (Fix_sema w) = 1"
| "waits (Fix_cas old w) = 1"
| "waits _ = 0"

fun posts :: "sem_pc \<Rightarrow> int" where
  "posts (Post n) = int n"
| "posts _ = 0"

text \<open>The values a thread may carry.\<close>

fun pc_ok :: "sem_pc \<Rightarrow> bool" where
  "pc_ok (Load w h tmo) = (0 \<le> w \<and> 0 \<le> h \<and> (tmo \<noteq> None \<longrightarrow> h = 0))"
| "pc_ok (Try old w h tmo) = (0 \<le> w \<and> 0 \<le> h \<and> (tmo \<noteq> None \<longrightarrow> h = 0))"
| "pc_ok (Spin n w us) = (0 < w)"
| "pc_ok (Spin_cas old n w us) = (0 < w \<and> 0 < old)"
| "pc_ok (Sub w us) = (0 < w)"
| "pc_ok (In_sema w us) = (0 < w)"
| "pc_ok (Fix_load w) = (0 < w)"
| "pc_ok (Fix_sema w) = (0 < w)"
| "pc_ok (Fix_cas old w) = (0 < w \<and> old < 0)"
| "pc_ok (Add n) = (0 \<le> n)"
| "pc_ok _ = True"

lemmas act_defs = remaining_def tried_def one_taken_def to_release_def

lemma acts_pc_ok: "acts spins x e y \<Longrightarrow> pc_ok (snd (snd x)) \<Longrightarrow> pc_ok (snd (snd y))"
  by (induction rule: acts.induct) (auto simp: act_defs split: if_splits option.splits)

lemma acts_event_ok: "acts spins x e y \<Longrightarrow> pc_ok (snd (snd x)) \<Longrightarrow> e = Got r \<or> e = Signalled r \<Longrightarrow> 0 \<le> r"
  by (induction rule: acts.induct) (auto simp: act_defs split: if_splits option.splits)

lemma acts_balance:
  "acts spins x e y \<Longrightarrow> pc_ok (snd (snd x)) \<Longrightarrow>
     fst y + holds (snd (snd y)) + waits (snd (snd y)) = fst x + holds (snd (snd x)) + waits (snd (snd x)) + gain e"
  by (induction rule: acts.induct) (auto simp: act_defs split: if_splits option.splits)

text \<open>The waiting threads are those released already, those being released and those the counter owes.\<close>

definition owed :: "int \<Rightarrow> int" where
  "owed c = (if c < 0 then - c else 0)"

lemma acts_owed:
  "acts spins x e y \<Longrightarrow> pc_ok (snd (snd x)) \<Longrightarrow>
     waits (snd (snd y)) - posts (snd (snd y)) - int (fst (snd y)) - owed (fst y) =
     waits (snd (snd x)) - posts (snd (snd x)) - int (fst (snd x)) - owed (fst x)"
  by (induction rule: acts.induct) (auto simp: act_defs owed_def split: if_splits option.splits)

text \<open>Sums over the threads.\<close>

lemma sum_threads:
  fixes f :: "sem_pc \<Rightarrow> int"
  assumes "t < length ps"
  shows "(\<Sum>p\<leftarrow>ps[t := q]. f p) = (\<Sum>p\<leftarrow>ps. f p) - f (ps ! t) + f q"
  using assms by (induction ps arbitrary: t) (auto split: nat.split)

definition sem_inv :: "int \<Rightarrow> sem \<Rightarrow> bool" where
  "sem_inv free s \<longleftrightarrow>
     (\<forall>p \<in> set (threads s). pc_ok p) \<and>
     m_count s + (\<Sum>p\<leftarrow>threads s. holds p) + (\<Sum>p\<leftarrow>threads s. waits p) = free \<and>
     (\<Sum>p\<leftarrow>threads s. waits p) = (\<Sum>p\<leftarrow>threads s. posts p) + int (m_sema s) + owed (m_count s)"

lemma sem_inv_new: "0 \<le> n \<Longrightarrow> sem_inv n (sem_new n k)"
  by (simp add: sem_inv_def sem_new_def owed_def sum_list_replicate)

lemma sem_inv_step:
  assumes "sem_step spins s e s'" and "sem_inv free s"
  shows "sem_inv (free + gain e) s'" and "e = Got r \<or> e = Signalled r \<Longrightarrow> 0 \<le> r"
proof -
  obtain t c k p where t: "t < length (threads s)"
    and a: "acts spins (m_count s, m_sema s, threads s ! t) e (c, k, p)"
    and s': "s' = \<lparr>m_count = c, m_sema = k, threads = (threads s)[t := p]\<rparr>"
    using assms(1) by (auto elim: sem_step.cases)
  have ok: "pc_ok (threads s ! t)" using assms(2) t by (simp add: sem_inv_def)
  then have "pc_ok p" using acts_pc_ok [OF a] by simp
  then have "\<forall>q \<in> set ((threads s)[t := p]). pc_ok q"
    using assms(2) set_update_subset_insert [of "threads s" t p] by (auto simp: sem_inv_def)
  moreover have "c + holds p + waits p = m_count s + holds (threads s ! t) + waits (threads s ! t) + gain e"
    and "waits p - posts p - int k - owed c =
      waits (threads s ! t) - posts (threads s ! t) - int (m_sema s) - owed (m_count s)"
    using acts_balance [OF a] acts_owed [OF a] ok by simp_all
  ultimately show "sem_inv (free + gain e) s'"
    using assms(2) unfolding sem_inv_def s' sem.simps sum_threads [OF t] by (intro conjI) linarith+
  show "e = Got r \<or> e = Signalled r \<Longrightarrow> 0 \<le> r" using acts_event_ok [OF a] ok by simp
qed

lemma sem_run_inv:
  assumes "sem_run spins (sem_new n k) es s" and "0 \<le> n"
  shows "sem_inv (left n es) s"
  using assms
proof (induction rule: sem_run.induct)
  case start
  then show ?case by (simp add: sem_inv_new left_Nil)
next
  case (more es t e u)
  then show ?case by (simp add: left_snoc sem_inv_step(1))
qed

lemma sum_zero: "(\<And>p. p \<in> set ps \<Longrightarrow> f p = 0) \<Longrightarrow> (\<Sum>p\<leftarrow>ps. f p :: int) = 0"
  by (induction ps) auto

lemma sum_nonneg: "(\<And>p. p \<in> set ps \<Longrightarrow> 0 \<le> f p) \<Longrightarrow> 0 \<le> (\<Sum>p\<leftarrow>ps. f p :: int)"
  by (induction ps) auto

lemma sum_pos: "(\<And>p. 0 \<le> f p) \<Longrightarrow> p \<in> set ps \<Longrightarrow> 0 < f p \<Longrightarrow> 0 < (\<Sum>p\<leftarrow>ps. f p :: int)"
proof (induction ps)
  case (Cons q ps)
  then show ?case using sum_nonneg [of ps f] by (auto simp: add_nonneg_pos add_pos_nonneg)
qed simp

lemma sum_bounded: "(\<And>p. f p \<le> 1) \<Longrightarrow> (\<Sum>p\<leftarrow>ps. f p :: int) \<le> int (length ps)"
  by (induction ps) (auto simp: add_mono)

lemma pc_nonneg: "pc_ok p \<Longrightarrow> 0 \<le> holds p" "0 \<le> waits p" "waits p \<le> 1" "0 \<le> posts p"
  by (cases p; simp)+

lemma sem_inv_free:
  assumes "sem_inv free s"
  shows "0 \<le> free" and "m_count s \<le> free" and "- int (length (threads s)) \<le> m_count s"
proof -
  let ?H = "\<Sum>p\<leftarrow>threads s. holds p" and ?W = "\<Sum>p\<leftarrow>threads s. waits p" and ?P = "\<Sum>p\<leftarrow>threads s. posts p"
  have "0 \<le> ?H" using assms by (intro sum_nonneg) (simp add: pc_nonneg sem_inv_def)
  moreover have "0 \<le> ?W" "0 \<le> ?P" by (rule sum_nonneg, rule pc_nonneg)+
  moreover have "?W \<le> int (length (threads s))"
    by (rule sum_bounded) (rule pc_nonneg)
  moreover have "m_count s + ?H + ?W = free" "?W = ?P + int (m_sema s) + owed (m_count s)"
    using assms by (simp_all add: sem_inv_def)
  ultimately show "0 \<le> free" "m_count s \<le> free" "- int (length (threads s)) \<le> m_count s"
    by (auto simp: owed_def split: if_splits)
qed

text \<open>The counter stays far from the limits of \<open>ssize_t\<close>, and the number given to \<open>(int)\<close> in \<open>signal\<close> too.\<close>

lemma sem_count_range:
  assumes "sem_run spins (sem_new n k) es s" and "0 \<le> n"
  shows "- int (length (threads s)) \<le> m_count s \<and> m_count s \<le> left n es"
  using sem_inv_free [OF sem_run_inv [OF assms]] by simp

section \<open>Properties\<close>

text \<open>
  C38: the lightweight semaphore is a counting semaphore, however its threads interleave: the
  permits that \<open>tryWait\<close>, \<open>wait\<close> and their variants for many permits return never exceed those there
  at the start and those signalled before.
\<close>

theorem semaphore_counts:
  assumes "sem_run spins (sem_new n k) es s" and "0 \<le> n"
  shows "counting n es"
  using assms
proof (induction rule: sem_run.induct)
  case (more es t e u)
  have inv: "sem_inv (left n es) t" by (rule sem_run_inv [OF more(1,4)])
  have "0 \<le> left n es + gain e" using sem_inv_free(1) [OF sem_inv_step(1) [OF more(2) inv]] .
  then have "r \<le> left n es" if "e = Got r" for r using that by simp
  then show ?case using more sem_inv_step(2) [OF more(2) inv] by (auto simp: counting_snoc)
qed simp

text \<open>What stands still without new calls and without time-outs.\<close>

lemma acts_enabled:
  assumes "p \<noteq> Idle" and "\<And>w us. p = In_sema w us \<Longrightarrow> 0 < k"
  shows "\<exists>e y. acts spins (c, k, p) e y \<and> e \<noteq> Call \<and> e \<noteq> Gave_up"
proof -
  have t: "fst (tried spins w h tmo r) \<noteq> Call \<and> fst (tried spins w h tmo r) \<noteq> Gave_up" for w h tmo r
    by (simp add: tried_def split: option.split)
  have o: "fst (one_taken w) \<noteq> Call \<and> fst (one_taken w) \<noteq> Gave_up" for w by (simp add: one_taken_def)
  show ?thesis
  proof (cases p)
    case (Load w h tmo)
    then show ?thesis using load by blast
  next
    case (Try old w h tmo)
    show ?thesis
    proof (cases "old \<le> 0")
      case True
      then show ?thesis using try_none [of old spins w h tmo _ _ c k] t [of w h tmo 0] Try by (metis prod.collapse)
    next
      case False
      then show ?thesis using try_again [of old spins c k w h tmo] Try by (metis not_le sem_event.distinct(1,9))
    qed
  next
    case (Spin n w us)
    have "\<exists>y. acts spins (c, k, Spin n w us) Step y"
    proof (cases n)
      case (Suc m)
      then show ?thesis using spin_miss [of c spins k m w us] spin_look [of c spins k m w us] by (meson not_le)
    qed (use spin_over in blast)
    then show ?thesis using Spin by blast
  next
    case (Spin_cas old n w us)
    then show ?thesis using spin_take [of spins c k] spin_again [of c old] by (cases "c = old") blast+
  next
    case (Sub w us)
    show ?thesis
    proof (cases "c \<le> 0")
      case True
      then show ?thesis using sub_block [of c spins k w us] Sub by blast
    next
      case False
      then show ?thesis using sub_take [of c w _ _ spins k us] o [of w] Sub by (metis not_le prod.collapse)
    qed
  next
    case (In_sema w us)
    then obtain j where "k = Suc j" using assms(2) gr0_implies_Suc by blast
    then show ?thesis using released [of w _ _ spins c j us] o [of w] In_sema by (metis prod.collapse)
  next
    case (Fix_load w)
    then show ?thesis using fix_load by blast
  next
    case (Fix_sema w)
    then show ?thesis
      using fix_again fix_released [of w _ _ spins c] o [of w] by (cases k) (blast, metis prod.collapse)
  next
    case (Fix_cas old w)
    then show ?thesis using fix_return [of spins c k w] fix_retry [of c old] by (cases "c = old") blast+
  next
    case (Add n)
    then show ?thesis using add by blast
  next
    case (Post n)
    then show ?thesis using post posted by (cases n) blast+
  qed (use assms in simp)
qed

text \<open>
  C39: when nothing but a new call or a time-out can happen, every thread is outside of the
  semaphore or asleep in the system semaphore, and while one sleeps every permit is taken.
\<close>

theorem semaphore_no_lost_wakeup:
  assumes "sem_run spins (sem_new n k) es s" and "0 \<le> n"
    and "\<And>e u. sem_step spins s e u \<Longrightarrow> e = Call \<or> e = Gave_up"
  shows "\<forall>p \<in> set (threads s). p = Idle \<or> ((\<exists>w us. p = In_sema w us) \<and> left n es = 0)"
proof -
  have inv: "sem_inv (left n es) s" by (rule sem_run_inv [OF assms(1,2)])
  have pc: "p = Idle \<or> (\<exists>w us. p = In_sema w us) \<and> m_sema s = 0" if p: "p \<in> set (threads s)" for p
  proof (rule ccontr)
    assume "\<not> ?thesis"
    moreover obtain t where t: "t < length (threads s)" "threads s ! t = p" using p by (auto simp: in_set_conv_nth)
    ultimately obtain e y where "acts spins (m_count s, m_sema s, threads s ! t) e y" "e \<noteq> Call" "e \<noteq> Gave_up"
      using acts_enabled [of p "m_sema s" spins "m_count s"] by fastforce
    then show False using assms(3) [OF thread [OF t(1)]] by (metis prod.collapse)
  qed
  have "(\<Sum>p\<leftarrow>threads s. posts p) = 0" "(\<Sum>p\<leftarrow>threads s. holds p) = 0"
    using pc by (intro sum_zero; force)+
  then have bal: "m_count s + W = left n es \<and> W = int (m_sema s) + owed (m_count s)"
    if "W = (\<Sum>p\<leftarrow>threads s. waits p)" for W
    using inv that by (simp add: sem_inv_def)
  have "left n es = 0" if p: "p \<in> set (threads s)" "p = In_sema w us" for p w us
  proof -
    have "0 < (\<Sum>p\<leftarrow>threads s. waits p)"
      using p by (intro sum_pos [of waits, OF pc_nonneg(2) p(1)]) simp
    then show ?thesis using bal [OF refl] pc [OF p(1)] p(2) by (auto simp: owed_def split: if_splits)
  qed
  then show ?thesis using pc by blast
qed

text \<open>A thread signals once, with nobody waiting; another one waits in vain.\<close>

lemma sem_stepI:
  "t < length ps \<Longrightarrow> acts spins (c, k, ps ! t) e (c', k', p) \<Longrightarrow> ps' = ps[t := p] \<Longrightarrow>
     sem_step spins \<lparr>m_count = c, m_sema = k, threads = ps\<rparr> e \<lparr>m_count = c', m_sema = k', threads = ps'\<rparr>"
  using sem_step.thread [of t "\<lparr>m_count = c, m_sema = k, threads = ps\<rparr>" spins e c' k' p] by simp

lemma sem_run_Cons:
  assumes "sem_run spins t es u" and "sem_step spins s e t"
  shows "sem_run spins s (e # es) u"
  using assms
proof (induction rule: sem_run.induct)
  case start
  then show ?case using sem_run.more [OF sem_run.start] by fastforce
next
  case (more es t' e' u)
  then show ?case using sem_run.more [of spins s "e # es"] by auto
qed

text \<open>Two permits are signalled and one is taken.\<close>

theorem semaphore_counts_witness:
  "counting 0 [Call, Signalled 2, Call, Step, Got 1]"
proof -
  have "sem_step 3 \<lparr>m_count = 0, m_sema = 0, threads = [Idle, Idle]\<rparr> Call
      \<lparr>m_count = 0, m_sema = 0, threads = [Add 2, Idle]\<rparr>"
    by (rule sem_stepI [of 0]) (simp_all add: call_signal)
  moreover have "sem_step 3 \<lparr>m_count = 0, m_sema = 0, threads = [Add 2, Idle]\<rparr> (Signalled 2)
      \<lparr>m_count = 2, m_sema = 0, threads = [Post 0, Idle]\<rparr>"
    using add [of 3 0 0 2] by (intro sem_stepI [of 0]) (simp_all add: to_release_def)
  moreover have "sem_step 3 \<lparr>m_count = 2, m_sema = 0, threads = [Post 0, Idle]\<rparr> Call
      \<lparr>m_count = 2, m_sema = 0, threads = [Post 0, Load 1 0 None]\<rparr>"
    by (rule sem_stepI [of 1]) (simp_all add: call_try)
  moreover have "sem_step 3 \<lparr>m_count = 2, m_sema = 0, threads = [Post 0, Load 1 0 None]\<rparr> Step
      \<lparr>m_count = 2, m_sema = 0, threads = [Post 0, Try 2 1 0 None]\<rparr>"
    by (rule sem_stepI [of 1]) (simp_all add: load)
  moreover have "sem_step 3 \<lparr>m_count = 2, m_sema = 0, threads = [Post 0, Try 2 1 0 None]\<rparr> (Got 1)
      \<lparr>m_count = 1, m_sema = 0, threads = [Post 0, Idle]\<rparr>"
    using try_take [of 2 3 1 0 None "Got 1" Idle 0] by (intro sem_stepI [of 1]) (simp_all add: act_defs)
  ultimately have "sem_run 3 \<lparr>m_count = 0, m_sema = 0, threads = [Idle, Idle]\<rparr> [Call, Signalled 2, Call, Step, Got 1]
      \<lparr>m_count = 1, m_sema = 0, threads = [Post 0, Idle]\<rparr>"
    by (blast intro: sem_run_Cons sem_run.start)
  moreover have "sem_new 0 2 = \<lparr>m_count = 0, m_sema = 0, threads = [Idle, Idle]\<rparr>"
    by (simp add: sem_new_def numeral_2_eq_2)
  ultimately show ?thesis using semaphore_counts [of 3 0 2] by simp
qed

text \<open>A thread waits for ever for a permit that nobody gives.\<close>

theorem semaphore_no_lost_wakeup_witness:
  "\<exists>es s. sem_run 0 (sem_new 0 1) es s \<and> threads s = [In_sema 1 (- 1)] \<and> left 0 es = 0"
proof -
  let ?st = "\<lambda>c p. \<lparr>m_count = c, m_sema = 0, threads = [p]\<rparr>"
  have "sem_step 0 (?st 0 Idle) Call (?st 0 (Load 1 0 (Some (- 1))))"
    by (rule sem_stepI [of 0]) (simp_all add: call_wait)
  moreover have "sem_step 0 (?st 0 (Load 1 0 (Some (- 1)))) Step (?st 0 (Try 0 1 0 (Some (- 1))))"
    by (rule sem_stepI [of 0]) (simp_all add: load)
  moreover have "sem_step 0 (?st 0 (Try 0 1 0 (Some (- 1)))) Step (?st 0 (Spin 0 1 (- 1)))"
    by (rule sem_stepI [of 0]) (simp_all add: try_none act_defs)
  moreover have "sem_step 0 (?st 0 (Spin 0 1 (- 1))) Step (?st 0 (Sub 1 (- 1)))"
    by (rule sem_stepI [of 0]) (simp_all add: spin_over)
  moreover have "sem_step 0 (?st 0 (Sub 1 (- 1))) Step (?st (- 1) (In_sema 1 (- 1)))"
    using sub_block [of 0 0 0 1 "- 1"] by (intro sem_stepI [of 0]) simp_all
  ultimately have "sem_run 0 (?st 0 Idle) [Call, Step, Step, Step, Step] (?st (- 1) (In_sema 1 (- 1)))"
    by (blast intro: sem_run_Cons sem_run.start)
  then have run: "sem_run 0 (sem_new 0 1) [Call, Step, Step, Step, Step] (?st (- 1) (In_sema 1 (- 1)))"
    by (simp add: sem_new_def)
  have "e = Call \<or> e = Gave_up" if "sem_step 0 (?st (- 1) (In_sema 1 (- 1))) e u" for e u
    using that by (auto elim!: sem_step.cases elim: acts.cases)
  from semaphore_no_lost_wakeup [OF run _ this] show ?thesis using run
    by (intro exI [of _ "[Call, Step, Step, Step, Step]"] exI [of _ "?st (- 1) (In_sema 1 (- 1))"]) simp
qed

end
