(* ===== verification/Periodic_Function.thy ===== *)
theory Periodic_Function
  imports Log_Prelude
begin

text \<open>
  \<^verbatim>\<open>base/periodic_function.h\<close>: the thread that calls a function at intervals, and the destructor that
  stops it. \<open>wait_for\<close> with a predicate is spelled out: it tests the predicate, then waits until it
  is notified, times out or wakes up for no reason, and tests again. The mutex is only ever taken by
  the thread itself, so it orders nothing; the destructor stores \<open>active_\<close> without it. The called
  function is assumed to return.
\<close>

section \<open>The thread and its owner\<close>

datatype looper = At_check | To_wait | Waiting | Last_check | To_call | Calling | Ended

datatype owner = Living | Stored | Notified | Destroyed

text \<open>\<open>joinable\<close> is the thread of \<open>thread_\<close>, \<open>None\<close> when there is none.\<close>

record periodic =
  active :: bool
  joinable :: "looper option"
  holder :: owner

definition periodic_new :: "int \<Rightarrow> periodic" where
  "periodic_new interval =
     (if interval > 0 then \<lparr>active = True, joinable = Some At_check, holder = Living\<rparr>
      else \<lparr>active = False, joinable = None, holder = Living\<rparr>)"

datatype pf_event = Tick | Called | Timeout | Spurious

inductive pf_step :: "periodic \<Rightarrow> pf_event \<Rightarrow> periodic \<Rightarrow> bool" where
  check_stop: "joinable s = Some At_check \<Longrightarrow> \<not> active s \<Longrightarrow> pf_step s Tick (s\<lparr>joinable := Some Ended\<rparr>)"
| check_go_on: "joinable s = Some At_check \<Longrightarrow> active s \<Longrightarrow> pf_step s Tick (s\<lparr>joinable := Some To_wait\<rparr>)"
| begin_wait: "joinable s = Some To_wait \<Longrightarrow> pf_step s Tick (s\<lparr>joinable := Some Waiting\<rparr>)"
| wake_up: "joinable s = Some Waiting \<Longrightarrow> pf_step s Spurious (s\<lparr>joinable := Some At_check\<rparr>)"
| time_out: "joinable s = Some Waiting \<Longrightarrow> pf_step s Timeout (s\<lparr>joinable := Some Last_check\<rparr>)"
| last_stop: "joinable s = Some Last_check \<Longrightarrow> \<not> active s \<Longrightarrow> pf_step s Tick (s\<lparr>joinable := Some Ended\<rparr>)"
| last_go_on: "joinable s = Some Last_check \<Longrightarrow> active s \<Longrightarrow> pf_step s Tick (s\<lparr>joinable := Some To_call\<rparr>)"
| call_func: "joinable s = Some To_call \<Longrightarrow> pf_step s Called (s\<lparr>joinable := Some Calling\<rparr>)"
| func_returns: "joinable s = Some Calling \<Longrightarrow> pf_step s Tick (s\<lparr>joinable := Some At_check\<rparr>)"
| no_thread: "holder s = Living \<Longrightarrow> joinable s = None \<Longrightarrow> pf_step s Tick (s\<lparr>holder := Destroyed\<rparr>)"
| store: "holder s = Living \<Longrightarrow> joinable s \<noteq> None \<Longrightarrow> pf_step s Tick (s\<lparr>active := False, holder := Stored\<rparr>)"
| notify: "holder s = Stored \<Longrightarrow>
    pf_step s Tick (s\<lparr>holder := Notified,
      joinable := (if joinable s = Some Waiting then Some At_check else joinable s)\<rparr>)"
| join: "holder s = Notified \<Longrightarrow> joinable s = Some Ended \<Longrightarrow> pf_step s Tick (s\<lparr>joinable := None, holder := Destroyed\<rparr>)"

inductive pf_run :: "periodic \<Rightarrow> pf_event list \<Rightarrow> periodic \<Rightarrow> bool" for s where
  here: "pf_run s [] s"
| further: "pf_run s es t \<Longrightarrow> pf_step t e u \<Longrightarrow> pf_run s (es @ [e]) u"

declare pf_step.intros [intro]

section \<open>What every reachable state satisfies\<close>

definition pf_inv :: "periodic \<Rightarrow> bool" where
  "pf_inv s \<longleftrightarrow>
     (active s \<longleftrightarrow> holder s = Living \<and> joinable s \<noteq> None) \<and>
     (holder s = Destroyed \<longrightarrow> joinable s = None) \<and>
     (joinable s = None \<longrightarrow> holder s = Living \<or> holder s = Destroyed) \<and>
     (holder s = Living \<longrightarrow> joinable s \<noteq> Some Ended)"

lemma pf_inv_new: "pf_inv (periodic_new i)"
  by (simp add: pf_inv_def periodic_new_def)

lemma pf_inv_step: "pf_step s e t \<Longrightarrow> pf_inv s \<Longrightarrow> pf_inv t"
  by (induction rule: pf_step.induct) (auto simp: pf_inv_def)

lemma pf_inv_run: "pf_run s es t \<Longrightarrow> pf_inv s \<Longrightarrow> pf_inv t"
  by (induction rule: pf_run.induct) (auto dest: pf_inv_step)

text \<open>Only a destroyed object has come to rest.\<close>

lemma pf_rest:
  assumes "pf_inv s" and "\<And>e t. \<not> pf_step s e t"
  shows "holder s = Destroyed \<and> joinable s = None"
proof -
  have "holder s \<noteq> Living" using assms(2) by (cases "joinable s = None") blast+
  moreover have "holder s \<noteq> Stored" using assms(2) by blast
  moreover have "holder s \<noteq> Notified"
  proof
    assume n: "holder s = Notified"
    then obtain l where l: "joinable s = Some l" and "\<not> active s" using assms(1) by (auto simp: pf_inv_def)
    then show False using assms(2) n by (cases l) blast+
  qed
  ultimately show ?thesis using assms(1) by (cases "holder s") (auto simp: pf_inv_def)
qed

section \<open>After the store every step brings the end nearer\<close>

primrec looper_left :: "looper \<Rightarrow> nat" where
  "looper_left Ended = 0"
| "looper_left Last_check = 1"
| "looper_left At_check = 1"
| "looper_left Waiting = 2"
| "looper_left Calling = 2"
| "looper_left To_wait = 3"
| "looper_left To_call = 3"

primrec holder_left :: "owner \<Rightarrow> nat" where
  "holder_left Destroyed = 0"
| "holder_left Notified = 1"
| "holder_left Stored = 2"
| "holder_left Living = 3"

definition pf_left :: "periodic \<Rightarrow> nat" where
  "pf_left s = holder_left (holder s) + (case joinable s of None \<Rightarrow> 0 | Some l \<Rightarrow> looper_left l)"

lemma pf_left_step: "pf_step s e t \<Longrightarrow> pf_inv s \<Longrightarrow> holder s \<noteq> Living \<Longrightarrow> pf_left t < pf_left s \<and> holder t \<noteq> Living"
  by (induction rule: pf_step.induct) (auto simp: pf_left_def pf_inv_def)

definition may_call :: "periodic \<Rightarrow> nat" where
  "may_call s = (if joinable s = Some To_call then 1 else 0)"

lemma may_call_step:
  "pf_step s e t \<Longrightarrow> pf_inv s \<Longrightarrow> holder s \<noteq> Living \<Longrightarrow> may_call t + count_list [e] Called \<le> may_call s"
  by (induction rule: pf_step.induct) (auto simp: may_call_def pf_inv_def)

lemma pf_run_ending:
  assumes "pf_run s es t" and "pf_inv s" and "holder s \<noteq> Living"
  shows "pf_left t + length es \<le> pf_left s \<and> may_call t + count_list es Called \<le> may_call s \<and> holder t \<noteq> Living \<and> pf_inv t"
  using assms
proof (induction rule: pf_run.induct)
  case (further es t e u)
  then have "pf_inv t" "holder t \<noteq> Living" by blast+
  then show ?case
    using further pf_left_step [OF further(2)] may_call_step [OF further(2)] pf_inv_step [OF further(2)] by auto
qed simp

lemma pf_left_bound: "holder s \<noteq> Living \<Longrightarrow> pf_left s \<le> 5"
proof -
  have "looper_left l \<le> 3" for l by (cases l) simp_all
  then have "(case joinable s of None \<Rightarrow> 0 | Some l \<Rightarrow> looper_left l) \<le> 3" by (simp split: option.split)
  moreover assume "holder s \<noteq> Living"
  then have "holder_left (holder s) \<le> 2" by (cases "holder s") simp_all
  ultimately show ?thesis unfolding pf_left_def by linarith
qed

section \<open>Properties\<close>

text \<open>
  C40: once the destructor of a \<open>periodic_function\<close> has cleared \<open>active_\<close>, the thread and the
  destructor take at most five more steps together in any order, call the function at most once more,
  and only if the thread had already decided to, and come to rest only with the thread joined.
\<close>

theorem periodic_stops:
  assumes "pf_run (periodic_new interval) es s" and "holder s \<noteq> Living" and "pf_run s es' t"
  shows "length es' \<le> 5 \<and> count_list es' Called \<le> (if joinable s = Some To_call then 1 else 0) \<and>
     ((\<forall>e u. \<not> pf_step t e u) \<longrightarrow> holder t = Destroyed \<and> joinable t = None)"
proof -
  have inv: "pf_inv s" by (rule pf_inv_run [OF assms(1) pf_inv_new])
  note e = pf_run_ending [OF assms(3) inv assms(2)]
  have "length es' \<le> 5" using e pf_left_bound [OF assms(2)] by linarith
  moreover have "count_list es' Called \<le> (if joinable s = Some To_call then 1 else 0)"
    using e by (simp add: may_call_def)
  moreover have "holder t = Destroyed \<and> joinable t = None" if "\<forall>e u. \<not> pf_step t e u"
    using pf_rest [of t] e that by blast
  ultimately show ?thesis by blast
qed

lemma pf_run_store:
  "pf_run (periodic_new 5) [Tick, Tick] \<lparr>active = False, joinable = Some To_wait, holder = Stored\<rparr>"
proof -
  let ?at = "\<lparr>active = True, joinable = Some At_check, holder = Living\<rparr>"
  let ?to = "\<lparr>active = True, joinable = Some To_wait, holder = Living\<rparr>"
  have "pf_step ?at Tick ?to" using check_go_on [of ?at] by simp
  moreover have "pf_step ?to Tick \<lparr>active = False, joinable = Some To_wait, holder = Stored\<rparr>" using store [of ?to] by simp
  moreover have "periodic_new 5 = ?at" by (simp add: periodic_new_def)
  ultimately show ?thesis using further [OF further [OF here]] by (metis append_Cons append_Nil)
qed

text \<open>
  The wake-up can be lost: the destructor stores and notifies between the test of the thread and its
  wait, because it does not hold the mutex. Then only the end of the interval, or a spurious wake-up,
  lets the thread and the destructor go on.
\<close>

lemma periodic_lost_wakeup:
  "\<exists>es s. pf_run (periodic_new 5) es s \<and> \<not> active s \<and> holder s = Notified \<and>
     (\<forall>e t. pf_step s e t \<longrightarrow> e = Timeout \<or> e = Spurious)"
proof -
  let ?st = "\<lparr>active = False, joinable = Some To_wait, holder = Stored\<rparr>"
  let ?no = "\<lparr>active = False, joinable = Some To_wait, holder = Notified\<rparr>"
  let ?wa = "\<lparr>active = False, joinable = Some Waiting, holder = Notified\<rparr>"
  have "pf_step ?st Tick ?no" using notify [of ?st] by simp
  moreover have "pf_step ?no Tick ?wa" using begin_wait [of ?no] by simp
  ultimately have "pf_run (periodic_new 5) (([Tick, Tick] @ [Tick]) @ [Tick]) ?wa"
    using pf_run_store by (blast intro: further)
  moreover have "pf_step ?wa e t \<Longrightarrow> e = Timeout \<or> e = Spurious" for e t
    by (erule pf_step.cases) simp_all
  ultimately show ?thesis by (intro exI [of _ "([Tick, Tick] @ [Tick]) @ [Tick]"] exI [of _ ?wa]) auto
qed

theorem periodic_stops_witness:
  "\<exists>t. pf_run \<lparr>active = False, joinable = Some To_wait, holder = Stored\<rparr> [Tick] t \<and>
     count_list [Tick] Called \<le> 0 \<and> ((\<forall>e u. \<not> pf_step t e u) \<longrightarrow> holder t = Destroyed)"
proof -
  let ?st = "\<lparr>active = False, joinable = Some To_wait, holder = Stored\<rparr>"
  have "pf_step ?st Tick (?st\<lparr>joinable := Some Waiting\<rparr>)" using begin_wait [of ?st] by simp
  then have r: "pf_run ?st [Tick] (?st\<lparr>joinable := Some Waiting\<rparr>)" using further [OF here] by fastforce
  show ?thesis using r periodic_stops [OF pf_run_store _ r] by auto
qed

end
