(* ===== verification/Fmt_Utf8.thy ===== *)
theory Fmt_Utf8
  imports Fmt_Base
begin

text \<open>
  The UTF-8 part of the bundled \<^verbatim>\<open>fmt/format.h\<close> and \<^verbatim>\<open>fmt/format-inl.h\<close>: decoding, the display width
  of a text, cutting a text at a code point, and which code points are printable. Strings are
  sequences of bytes; the C integers here never leave 32 bits and are natural numbers.
\<close>

section \<open>Decoding\<close>

abbreviation uchar :: "char \<Rightarrow> nat" where
  "uchar c \<equiv> of_char c"

definition utf8_lengths :: "nat list" where
  "utf8_lengths = replicate 16 1 @ replicate 8 0 @ [2, 2, 2, 2, 3, 3, 4, 0]"

definition utf8_masks :: "nat list" where
  "utf8_masks = [0x00, 0x7f, 0x1f, 0x0f, 0x07]"

definition utf8_mins :: "nat list" where
  "utf8_mins = [4194304, 0, 128, 2048, 65536]"

definition utf8_shiftc :: "nat list" where
  "utf8_shiftc = [0, 18, 12, 6, 0]"

definition utf8_shifte :: "nat list" where
  "utf8_shifte = [0, 6, 4, 2, 0]"

lemmas utf8_tables = utf8_lengths_def utf8_masks_def utf8_mins_def utf8_shiftc_def utf8_shifte_def

text \<open>
  The code point, the error and the number of bytes to advance, from a block of four bytes. The last
  entry of \<open>utf8_lengths\<close> is the zero that ends the string literal.
\<close>

definition utf8_decode :: "nat \<Rightarrow> nat \<Rightarrow> nat \<Rightarrow> nat \<Rightarrow> nat \<times> nat \<times> nat" where
  "utf8_decode b0 b1 b2 b3 =
     (let len = utf8_lengths ! drop_bit 3 b0;
          c = push_bit 18 (b0 AND utf8_masks ! len) OR push_bit 12 (b1 AND 0x3f) OR
              push_bit 6 (b2 AND 0x3f) OR (b3 AND 0x3f);
          c = drop_bit (utf8_shiftc ! len) c;
          e = push_bit 6 (if c < utf8_mins ! len then 1 else 0);
          e = e OR push_bit 7 (if drop_bit 11 c = 0x1b then 1 else 0);
          e = e OR push_bit 8 (if c > 0x10FFFF then 1 else 0);
          e = e OR drop_bit 2 (b1 AND 0xc0);
          e = e OR drop_bit 4 (b2 AND 0xc0);
          e = e OR drop_bit 6 b3;
          e = e XOR 0x2a;
          e = drop_bit (utf8_shifte ! len) e
      in (c, e, len + (if len = 0 then 1 else 0)))"

definition invalid_code_point :: nat where
  "invalid_code_point = 2 ^ 32 - 1"

text \<open>
  What \<open>for_each_codepoint\<close> calls its function with, in order. Up to the last three bytes it reads from
  the string, then from a copy of the rest followed by zeros; both are the bytes of the string with
  zeros after its end. It does not go on where its function returns false; the callers below stop
  there.
\<close>

definition byte_at :: "string \<Rightarrow> nat \<Rightarrow> nat" where
  "byte_at s i = (if i < length s then uchar (s ! i) else 0)"

definition decode_first :: "string \<Rightarrow> nat \<times> nat" where
  "decode_first s =
     (let (c, e, n) = utf8_decode (byte_at s 0) (byte_at s 1) (byte_at s 2) (byte_at s 3)
      in if e \<noteq> 0 then (invalid_code_point, 1) else (c, n))"

lemma decode_first_advances: "0 < snd (decode_first s)"
  by (simp add: decode_first_def utf8_decode_def Let_def)

function for_each_codepoint :: "string \<Rightarrow> (nat \<times> string) list" where
  "for_each_codepoint s =
     (if s = [] then []
      else let (cp, n) = decode_first s in (cp, take n s) # for_each_codepoint (drop n s))"
  by pat_completeness auto
termination
proof (relation "measure length")
  fix s :: string and x cp n
  assume "s \<noteq> []" and "x = decode_first s" and "(cp, n) = x"
  then have "0 < n" using decode_first_advances [of s] by (metis snd_conv)
  then show "(drop n s, s) \<in> measure length" using \<open>s \<noteq> []\<close> by simp
qed simp

declare for_each_codepoint.simps [simp del]

lemma for_each_Nil [simp]: "for_each_codepoint [] = []"
  by (simp add: for_each_codepoint.simps)

lemma for_each_first:
  "decode_first s = (cp, n) \<Longrightarrow> s \<noteq> [] \<Longrightarrow> for_each_codepoint s = (cp, take n s) # for_each_codepoint (drop n s)"
  by (subst for_each_codepoint.simps) simp

text \<open>The pieces make up the string.\<close>

lemma for_each_concat: "concat (map snd (for_each_codepoint s)) = s"
proof (induction s rule: for_each_codepoint.induct)
  case (1 s)
  show ?case
  proof (cases "s = []")
    case False
    obtain cp n where d: "decode_first s = (cp, n)" by fastforce
    then show ?thesis using 1 [OF False refl] for_each_first [OF d False] by simp
  qed simp
qed

section \<open>The width of a text\<close>

definition wide :: "nat \<Rightarrow> bool" where
  "wide cp \<longleftrightarrow>
     cp \<ge> 0x1100 \<and>
      (cp \<le> 0x115f \<or>
       cp = 0x2329 \<or>
       cp = 0x232a \<or>
       (cp \<ge> 0x2e80 \<and> cp \<le> 0xa4cf \<and> cp \<noteq> 0x303f) \<or>
       (cp \<ge> 0xac00 \<and> cp \<le> 0xd7a3) \<or>
       (cp \<ge> 0xf900 \<and> cp \<le> 0xfaff) \<or>
       (cp \<ge> 0xfe10 \<and> cp \<le> 0xfe19) \<or>
       (cp \<ge> 0xfe30 \<and> cp \<le> 0xfe6f) \<or>
       (cp \<ge> 0xff00 \<and> cp \<le> 0xff60) \<or>
       (cp \<ge> 0xffe0 \<and> cp \<le> 0xffe6) \<or>
       (cp \<ge> 0x20000 \<and> cp \<le> 0x2fffd) \<or>
       (cp \<ge> 0x30000 \<and> cp \<le> 0x3fffd) \<or>
       (cp \<ge> 0x1f300 \<and> cp \<le> 0x1f64f) \<or>
       (cp \<ge> 0x1f900 \<and> cp \<le> 0x1f9ff))"

definition compute_width :: "string \<Rightarrow> nat" where
  "compute_width s = (\<Sum>(cp, sv)\<leftarrow>for_each_codepoint s. 1 + (if wide cp then 1 else 0))"

text \<open>The index of the code point number \<open>n\<close>, the size when there are fewer.\<close>

fun index_loop :: "nat \<Rightarrow> nat \<Rightarrow> (nat \<times> string) list \<Rightarrow> nat option" where
  "index_loop n i [] = None"
| "index_loop n i ((cp, sv) # cs) = (if n \<noteq> 0 then index_loop (n - 1) (i + length sv) cs else Some i)"

definition code_point_index :: "string \<Rightarrow> nat \<Rightarrow> nat" where
  "code_point_index s n = (case index_loop n 0 (for_each_codepoint s) of None \<Rightarrow> length s | Some i \<Rightarrow> i)"

text \<open>The length of the fill character of a format specification.\<close>

definition code_point_length :: "char \<Rightarrow> nat" where
  "code_point_length c = (drop_bit (2 * drop_bit 3 (uchar c)) 0x3a55000000000000 AND 0x3) + 1"

section \<open>Encoding, the specification\<close>

text \<open>A Unicode scalar value, and its UTF-8 bytes.\<close>

definition scalar :: "nat \<Rightarrow> bool" where
  "scalar cp \<longleftrightarrow> cp < 0x110000 \<and> \<not> (0xd800 \<le> cp \<and> cp < 0xe000)"

definition utf8 :: "nat \<Rightarrow> string" where
  "utf8 cp = map char_of
     (if cp < 0x80 then [cp]
      else if cp < 0x800 then [0xc0 + cp div 64, 0x80 + cp mod 64]
      else if cp < 0x10000 then [0xe0 + cp div 4096, 0x80 + cp div 64 mod 64, 0x80 + cp mod 64]
      else [0xf0 + cp div 262144, 0x80 + cp div 4096 mod 64, 0x80 + cp div 64 mod 64, 0x80 + cp mod 64])"

text \<open>Bit operations on bytes as arithmetic.\<close>

lemma or_shifted:
  fixes x y :: nat
  assumes "y < 2 ^ k"
  shows "push_bit k x OR y = x * 2 ^ k + y"
proof -
  have low: "bit y n \<Longrightarrow> n < k" for n
    using assms by (metis bit_take_bit_iff take_bit_nat_eq_self)
  have "push_bit k x + y = push_bit k x OR y"
    by (rule disjunctive_add) (auto simp: bit_push_bit_iff dest: low)
  then show ?thesis by (simp add: push_bit_eq_mult)
qed

lemma and_mask: "(x::nat) AND (2 ^ k - 1) = x mod 2 ^ k"
  by (metis mask_eq_exp_minus_1 take_bit_eq_mask take_bit_eq_mod)

lemma and_low:
  fixes x :: nat
  shows "x AND 0x3f = x mod 64" "x AND 0x7f = x mod 128" "x AND 0x1f = x mod 32" "x AND 0x0f = x mod 16"
    "x AND 0x07 = x mod 8" "x AND 0x03 = x mod 4"
  using and_mask [of x 6] and_mask [of x 7] and_mask [of x 5] and_mask [of x 4] and_mask [of x 3] and_mask [of x 2]
  by simp_all

lemma and_or: "(x AND a) OR (x AND b) = (x::nat) AND (a OR b)"
  by (rule bit_eqI) (auto simp: bit_and_iff bit_or_iff)

lemma and_high: "(x::nat) < 256 \<Longrightarrow> x AND 0xc0 = x div 64 * 64"
proof -
  assume x: "x < 256"
  have "\<not> bit (192::nat) n \<or> \<not> bit (63::nat) n" for n
  proof -
    have "(192::nat) AND 63 = 0" by simp
    then show ?thesis by (metis bit_0_eq bit_and_iff bot_apply bot_bool_def)
  qed
  then have "(x AND 0xc0) + (x AND 0x3f) = (x AND 0xc0) OR (x AND 0x3f)"
    by (intro disjunctive_add) (auto simp: bit_and_iff)
  also have "\<dots> = x AND (0xc0 OR 0x3f)" by (rule and_or)
  also have "\<dots> = x" using x and_mask [of x 8] by simp
  finally show ?thesis using and_low(1) [of x] by (metis add_right_imp_eq div_mult_mod_eq)
qed

lemma join_sextets:
  fixes a b c d :: nat
  assumes "b < 64" and "c < 64" and "d < 64"
  shows "push_bit 18 a OR push_bit 12 b OR push_bit 6 c OR d = ((a * 64 + b) * 64 + c) * 64 + d"
proof -
  have 6: "push_bit 6 c OR d = c * 64 + d" using or_shifted [of d 6 c] assms by simp
  have 12: "push_bit 12 b OR (c * 64 + d) = b * 4096 + (c * 64 + d)" using or_shifted [of "c * 64 + d" 12 b] assms by simp
  have "push_bit 18 a OR (b * 4096 + (c * 64 + d)) = a * 262144 + (b * 4096 + (c * 64 + d))"
    using or_shifted [of "b * 4096 + (c * 64 + d)" 18 a] assms by simp
  then show ?thesis by (simp add: or.assoc 6 12)
qed

text \<open>The error is zero exactly when the top bits of the bytes that count are right.\<close>

lemma tail_bits:
  fixes x y z :: nat
  assumes "x < 4" and "y < 4" and "z < 4"
  shows "drop_bit 6 ((x * 16 OR y * 4 OR z) XOR 0x2a) = 0"
    and "drop_bit 4 ((x * 16 OR y * 4 OR z) XOR 0x2a) = 0 \<longleftrightarrow> x = 2"
    and "drop_bit 2 ((x * 16 OR y * 4 OR z) XOR 0x2a) = 0 \<longleftrightarrow> x = 2 \<and> y = 2"
    and "(x * 16 OR y * 4 OR z) XOR 0x2a = 0 \<longleftrightarrow> x = 2 \<and> y = 2 \<and> z = 2"
proof -
  have "x \<in> {0, 1, 2, 3}" "y \<in> {0, 1, 2, 3}" "z \<in> {0, 1, 2, 3}" using assms by auto
  then show "drop_bit 6 ((x * 16 OR y * 4 OR z) XOR 0x2a) = 0"
    and "drop_bit 4 ((x * 16 OR y * 4 OR z) XOR 0x2a) = 0 \<longleftrightarrow> x = 2"
    and "drop_bit 2 ((x * 16 OR y * 4 OR z) XOR 0x2a) = 0 \<longleftrightarrow> x = 2 \<and> y = 2"
    and "(x * 16 OR y * 4 OR z) XOR 0x2a = 0 \<longleftrightarrow> x = 2 \<and> y = 2 \<and> z = 2"
    by (elim insertE emptyE; hypsubst; simp add: drop_bit_eq_div del: One_nat_def)+
qed

text \<open>A scalar value whose bytes are well formed is decoded without an error.\<close>

lemma utf8_decode_ok:
  assumes "b1 < 256" and "b2 < 256" and "b3 < 256"
    and "utf8_lengths ! drop_bit 3 b0 = len"
    and "c = drop_bit (utf8_shiftc ! len) ((((b0 AND utf8_masks ! len) * 64 + b1 mod 64) * 64 + b2 mod 64) * 64 + b3 mod 64)"
    and "scalar c" and "utf8_mins ! len \<le> c"
    and "len = 1 \<or> len = 2 \<and> b1 div 64 = 2 \<or> len = 3 \<and> b1 div 64 = 2 \<and> b2 div 64 = 2 \<or>
      len = 4 \<and> b1 div 64 = 2 \<and> b2 div 64 = 2 \<and> b3 div 64 = 2"
  shows "utf8_decode b0 b1 b2 b3 = (c, 0, len)"
proof -
  have cp: "drop_bit (utf8_shiftc ! len) (push_bit 18 (b0 AND utf8_masks ! len) OR push_bit 12 (b1 AND 0x3f) OR
      push_bit 6 (b2 AND 0x3f) OR (b3 AND 0x3f)) = c"
    unfolding and_low assms(5) by (subst join_sextets) simp_all
  have div: "b1 div 64 < 4" "b2 div 64 < 4" "b3 div 64 < 4" using assms(1-3) by auto
  have tail: "drop_bit 2 (b1 AND 0xc0) OR drop_bit 4 (b2 AND 0xc0) OR drop_bit 6 b3 =
      b1 div 64 * 16 OR b2 div 64 * 4 OR b3 div 64"
    using assms(1,2) by (simp add: and_high drop_bit_eq_div mult.commute)
  have sur: "drop_bit 11 c \<noteq> 0x1b" using assms(6) by (auto simp: scalar_def drop_bit_eq_div)
  have "c \<le> 0x10FFFF" "\<not> c < utf8_mins ! len" using assms(6,7) by (auto simp: scalar_def)
  then have "utf8_decode b0 b1 b2 b3 =
      (c, drop_bit (utf8_shifte ! len) ((b1 div 64 * 16 OR b2 div 64 * 4 OR b3 div 64) XOR 0x2a), len + (if len = 0 then 1 else 0))"
    unfolding utf8_decode_def Let_def assms(4) cp using sur tail by (simp add: or.assoc)
  then show ?thesis using assms(8) tail_bits [OF div] by (auto simp: utf8_shifte_def)
qed

text \<open>The code of a byte, and the blocks that the decoder reads.\<close>

lemma uchar_char_of: "uchar (char_of n) = n mod 256"
  by simp

lemma byte_at_less: "byte_at s i < 256"
  using mod_less_divisor [of 256 "uchar (s ! i)"] by (simp add: byte_at_def)

lemma byte_at_Cons: "byte_at (c # s) (Suc i) = byte_at s i" "byte_at (c # s) 0 = uchar c"
  by (simp_all add: byte_at_def)

lemma byte_at_map:
  "byte_at (map char_of (b # bs) @ s) 0 = b mod 256"
  "byte_at (map char_of (b # bs) @ s) (Suc i) = byte_at (map char_of bs @ s) i"
  by (simp_all add: byte_at_Cons)

lemma lead_byte:
  "q < 128 \<Longrightarrow> utf8_lengths ! drop_bit 3 q = 1"
  "q < 32 \<Longrightarrow> utf8_lengths ! drop_bit 3 (192 + q) = 2"
  "q < 16 \<Longrightarrow> utf8_lengths ! drop_bit 3 (224 + q) = 3"
  "q < 8 \<Longrightarrow> utf8_lengths ! drop_bit 3 (240 + q) = 4"
proof -
  have "i < 16 \<Longrightarrow> utf8_lengths ! i = 1" for i by (simp add: utf8_lengths_def nth_append)
  then show "q < 128 \<Longrightarrow> utf8_lengths ! drop_bit 3 q = 1" by (simp add: drop_bit_eq_div)
  have two: "i \<in> {24, 25, 26, 27} \<Longrightarrow> utf8_lengths ! i = 2" for i by (auto simp: utf8_lengths_def nth_append)
  have three: "i \<in> {28, 29} \<Longrightarrow> utf8_lengths ! i = 3" for i by (auto simp: utf8_lengths_def nth_append)
  have four: "utf8_lengths ! 30 = 4" by (simp add: utf8_lengths_def nth_append)
  have "q < 32 \<Longrightarrow> (192 + q) div 8 \<in> {24, 25, 26, 27}" "q < 16 \<Longrightarrow> (224 + q) div 8 \<in> {28, 29}"
    "q < 8 \<Longrightarrow> (240 + q) div 8 = 30"
    by auto
  then show "q < 32 \<Longrightarrow> utf8_lengths ! drop_bit 3 (192 + q) = 2"
    "q < 16 \<Longrightarrow> utf8_lengths ! drop_bit 3 (224 + q) = 3" "q < 8 \<Longrightarrow> utf8_lengths ! drop_bit 3 (240 + q) = 4"
    using two three four by (simp_all add: drop_bit_eq_div)
qed

lemma masked: "utf8_masks ! 1 = 0x7f" "utf8_masks ! 2 = 0x1f" "utf8_masks ! 3 = 0x0f" "utf8_masks ! 4 = 0x07"
  by (simp_all add: utf8_masks_def)

lemma least: "utf8_mins ! 1 = 0" "utf8_mins ! 2 = 128" "utf8_mins ! 3 = 2048" "utf8_mins ! 4 = 65536"
  by (simp_all add: utf8_mins_def)

lemma shifted: "utf8_shiftc ! 1 = 18" "utf8_shiftc ! 2 = 12" "utf8_shiftc ! 3 = 6" "utf8_shiftc ! 4 = 0"
  by (simp_all add: utf8_shiftc_def)

text \<open>The payload of a byte, and what is left after the bytes that do not count are shifted out.\<close>

lemma payload:
  "q < 32 \<Longrightarrow> (192 + q) mod 32 = (q :: nat)" "q < 16 \<Longrightarrow> (224 + q) mod 16 = (q :: nat)"
  "q < 8 \<Longrightarrow> (240 + q) mod 8 = (q :: nat)" "q < 64 \<Longrightarrow> (128 + q) mod 64 = (q :: nat)"
  by (subst mod_add_left_eq [symmetric], simp)+

lemma follow_byte: "r < 64 \<Longrightarrow> (128 + r) div 64 = (2 :: nat)"
  by (rule div_nat_eqI) simp_all

lemma shifted_out:
  fixes x y :: nat
  shows "(262144 * q + 4096 * r + x mod 64 * 64 + y mod 64) div 4096 = q * 64 + r"
    and "(262144 * q + 4096 * r + t * 64 + y mod 64) div 64 = (q * 64 + r) * 64 + t"
proof -
  have "x mod 64 * 64 + y mod 64 < 4096" using mod_less_divisor [of 64 x] mod_less_divisor [of 64 y] by linarith
  then show "(262144 * q + 4096 * r + x mod 64 * 64 + y mod 64) div 4096 = q * 64 + r" by (intro div_nat_eqI) simp_all
  have "y mod 64 < 64" by simp
  then show "(262144 * q + 4096 * r + t * 64 + y mod 64) div 64 = (q * 64 + r) * 64 + t" by (intro div_nat_eqI) simp_all
qed

lemma sextets:
  fixes n :: nat
  shows "(n div 4096 * 64 + n div 64 mod 64) * 64 + n mod 64 = n"
    and "((n div 262144 * 64 + n div 4096 mod 64) * 64 + n div 64 mod 64) * 64 + n mod 64 = n"
proof -
  have d: "n div 4096 = n div 64 div 64" "n div 262144 = n div 4096 div 64" by (simp_all flip: div_mult2_eq)
  show *: "(n div 4096 * 64 + n div 64 mod 64) * 64 + n mod 64 = n" unfolding d(1) by (simp only: div_mult_mod_eq)
  show "((n div 262144 * 64 + n div 4096 mod 64) * 64 + n div 64 mod 64) * 64 + n mod 64 = n"
    unfolding d(2) div_mult_mod_eq by (rule *)
qed

lemma decode_utf8:
  assumes "scalar cp"
  shows "decode_first (utf8 cp @ s) = (cp, length (utf8 cp))"
proof -
  let ?s = "utf8 cp @ s"
  note bounds = byte_at_less [of ?s 1] byte_at_less [of ?s 2] byte_at_less [of ?s 3]
  consider "cp < 0x80" | "0x80 \<le> cp" "cp < 0x800" | "0x800 \<le> cp" "cp < 0x10000" | "0x10000 \<le> cp" "cp < 0x110000"
    using assms unfolding scalar_def by linarith
  then have "utf8_decode (byte_at ?s 0) (byte_at ?s 1) (byte_at ?s 2) (byte_at ?s 3) = (cp, 0, length (utf8 cp))"
  proof cases
    case 1
    then have u: "utf8 cp = map char_of [cp]" by (simp add: utf8_def)
    have "byte_at ?s 0 = cp" using 1 unfolding u byte_at_map by simp
    moreover have "utf8_decode cp (byte_at ?s 1) (byte_at ?s 2) (byte_at ?s 3) = (cp, 0, 1)"
      using 1 assms lead_byte(1) [OF 1]
      by (intro utf8_decode_ok [where len = 1] bounds) (simp_all add: masked least shifted and_low drop_bit_eq_div del: One_nat_def)
    ultimately show ?thesis by (simp add: u)
  next
    case 2
    define q r where "q = cp div 64" and "r = cp mod 64"
    have u: "utf8 cp = map char_of [192 + q, 128 + r]" using 2 by (simp add: utf8_def q_def r_def)
    have c: "q < 32" "r < 64" "cp = q * 64 + r" using 2 by (auto simp: q_def r_def)
    have b: "byte_at ?s 0 = 192 + q" "byte_at ?s 1 = 128 + r"
      using c unfolding u byte_at_map One_nat_def by simp_all
    have "utf8_decode (192 + q) (128 + r) (byte_at ?s 2) (byte_at ?s 3) = (cp, 0, 2)"
      using 2 assms c lead_byte(2) [OF c(1)]
      by (intro utf8_decode_ok [where len = 2] bounds) (simp_all add: masked least shifted and_low drop_bit_eq_div payload follow_byte shifted_out)
    moreover have "length (utf8 cp) = 2" by (simp add: u)
    ultimately show ?thesis by (simp only: b)
  next
    case 3
    define q r t where "q = cp div 4096" and "r = cp div 64 mod 64" and "t = cp mod 64"
    have u: "utf8 cp = map char_of [224 + q, 128 + r, 128 + t]" using 3 by (simp add: utf8_def q_def r_def t_def)
    have c: "q < 16" "r < 64" "t < 64" "cp = (q * 64 + r) * 64 + t"
      using 3 by (auto simp: q_def r_def t_def sextets simp del: distrib_right_numeral add_mult_distrib)
    have b: "byte_at ?s 0 = 224 + q" "byte_at ?s 1 = 128 + r" "byte_at ?s 2 = 128 + t"
      using c unfolding u byte_at_map One_nat_def numeral_2_eq_2 by simp_all
    have "utf8_decode (224 + q) (128 + r) (128 + t) (byte_at ?s 3) = (cp, 0, 3)"
      using 3 assms c lead_byte(3) [OF c(1)]
      by (intro utf8_decode_ok [where len = 3] bounds) (simp_all add: masked least shifted and_low drop_bit_eq_div payload follow_byte shifted_out)
    moreover have "length (utf8 cp) = 3" by (simp add: u)
    ultimately show ?thesis by (simp only: b)
  next
    case 4
    define q r t v where "q = cp div 262144" and "r = cp div 4096 mod 64" and "t = cp div 64 mod 64" and "v = cp mod 64"
    have u: "utf8 cp = map char_of [240 + q, 128 + r, 128 + t, 128 + v]"
      using 4 by (simp add: utf8_def q_def r_def t_def v_def)
    have c: "q < 8" "r < 64" "t < 64" "v < 64" "cp = ((q * 64 + r) * 64 + t) * 64 + v"
      using 4 by (auto simp: q_def r_def t_def v_def sextets simp del: distrib_right_numeral add_mult_distrib)
    have b: "byte_at ?s 0 = 240 + q" "byte_at ?s 1 = 128 + r" "byte_at ?s 2 = 128 + t" "byte_at ?s 3 = 128 + v"
      using c unfolding u byte_at_map One_nat_def numeral_2_eq_2 numeral_3_eq_3 by simp_all
    have "utf8_decode (240 + q) (128 + r) (128 + t) (128 + v) = (cp, 0, 4)"
      using 4 assms c lead_byte(4) [OF c(1)]
      by (intro utf8_decode_ok [where len = 4] bounds) (simp_all add: masked least shifted and_low drop_bit_eq_div payload follow_byte shifted_out)
    moreover have "length (utf8 cp) = 4" by (simp add: u)
    ultimately show ?thesis by (simp only: b)
  qed
  then show ?thesis by (simp add: decode_first_def)
qed

lemma utf8_not_Nil [simp]: "utf8 cp \<noteq> []"
  by (simp add: utf8_def)

lemma for_each_utf8:
  assumes "scalar cp"
  shows "for_each_codepoint (utf8 cp @ s) = (cp, utf8 cp) # for_each_codepoint s"
  using for_each_first [OF decode_utf8 [OF assms]] by simp

text \<open>An ASCII byte is a code point of width 1.\<close>

lemma for_each_ascii:
  assumes "\<forall>c \<in> set s. uchar c < 128"
  shows "for_each_codepoint s = map (\<lambda>c. (uchar c, [c])) s"
  using assms
proof (induction s)
  case (Cons c s)
  then have "scalar (uchar c)" "utf8 (uchar c) = [c]" by (simp_all add: scalar_def utf8_def)
  then show ?case using for_each_utf8 [of "uchar c" s] Cons by simp
qed simp

lemma compute_width_ascii: "\<forall>c \<in> set s. uchar c < 128 \<Longrightarrow> compute_width s = length s"
proof (induction s)
  case (Cons c s)
  then have "\<not> wide (uchar c)" by (simp add: wide_def)
  then show ?case using Cons by (simp add: compute_width_def for_each_ascii)
qed (simp add: compute_width_def)

lemma index_loop_ascii: "index_loop n i (map (\<lambda>c. (f c, [c])) s) = (if n < length s then Some (i + n) else None)"
  by (induction s arbitrary: n i) auto

lemma code_point_index_ascii: "\<forall>c \<in> set s. uchar c < 128 \<Longrightarrow> code_point_index s n = min n (length s)"
  by (simp add: code_point_index_def for_each_ascii index_loop_ascii split: option.split)

lemma code_point_length_ascii: "uchar c < 128 \<Longrightarrow> code_point_length c = 1"
proof -
  assume "uchar c < 128"
  then have "uchar c div 8 \<in> {..<16}" by simp
  then have "uchar c div 8 \<in> set [0..<16]" by auto
  then show ?thesis
    by (auto simp: code_point_length_def drop_bit_eq_div upt_rec [of _ 16] simp del: upt_Suc)
qed

section \<open>Printable code points\<close>

text \<open>The generated tables of \<open>is_printable\<close>, and the two loops over them.\<close>

definition singletons0 :: "(nat \<times> nat) list" where
  "singletons0 = [
    (0x00, 1), (0x03, 5), (0x05, 6), (0x06, 3), (0x07, 6), (0x08, 8), (0x09, 17), (0x0a, 28), (0x0b, 25),
    (0x0c, 20), (0x0d, 16), (0x0e, 13), (0x0f, 4), (0x10, 3), (0x12, 18), (0x13, 9), (0x16, 1), (0x17, 5),
    (0x18, 2), (0x19, 3), (0x1a, 7), (0x1c, 2), (0x1d, 1), (0x1f, 22), (0x20, 3), (0x2b, 3), (0x2c, 2),
    (0x2d, 11), (0x2e, 1), (0x30, 3), (0x31, 2), (0x32, 1), (0xa7, 2), (0xa9, 2), (0xaa, 4), (0xab, 8),
    (0xfa, 2), (0xfb, 5), (0xfd, 4), (0xfe, 3), (0xff, 9)]"

definition singletons0_lower :: "nat list" where
  "singletons0_lower = [
    0xad, 0x78, 0x79, 0x8b, 0x8d, 0xa2, 0x30, 0x57, 0x58, 0x8b, 0x8c, 0x90, 0x1c, 0x1d, 0xdd, 0x0e, 0x0f,
    0x4b, 0x4c, 0xfb, 0xfc, 0x2e, 0x2f, 0x3f, 0x5c, 0x5d, 0x5f, 0xb5, 0xe2, 0x84, 0x8d, 0x8e, 0x91, 0x92,
    0xa9, 0xb1, 0xba, 0xbb, 0xc5, 0xc6, 0xc9, 0xca, 0xde, 0xe4, 0xe5, 0xff, 0x00, 0x04, 0x11, 0x12, 0x29,
    0x31, 0x34, 0x37, 0x3a, 0x3b, 0x3d, 0x49, 0x4a, 0x5d, 0x84, 0x8e, 0x92, 0xa9, 0xb1, 0xb4, 0xba, 0xbb,
    0xc6, 0xca, 0xce, 0xcf, 0xe4, 0xe5, 0x00, 0x04, 0x0d, 0x0e, 0x11, 0x12, 0x29, 0x31, 0x34, 0x3a, 0x3b,
    0x45, 0x46, 0x49, 0x4a, 0x5e, 0x64, 0x65, 0x84, 0x91, 0x9b, 0x9d, 0xc9, 0xce, 0xcf, 0x0d, 0x11, 0x29,
    0x45, 0x49, 0x57, 0x64, 0x65, 0x8d, 0x91, 0xa9, 0xb4, 0xba, 0xbb, 0xc5, 0xc9, 0xdf, 0xe4, 0xe5, 0xf0,
    0x0d, 0x11, 0x45, 0x49, 0x64, 0x65, 0x80, 0x84, 0xb2, 0xbc, 0xbe, 0xbf, 0xd5, 0xd7, 0xf0, 0xf1, 0x83,
    0x85, 0x8b, 0xa4, 0xa6, 0xbe, 0xbf, 0xc5, 0xc7, 0xce, 0xcf, 0xda, 0xdb, 0x48, 0x98, 0xbd, 0xcd, 0xc6,
    0xce, 0xcf, 0x49, 0x4e, 0x4f, 0x57, 0x59, 0x5e, 0x5f, 0x89, 0x8e, 0x8f, 0xb1, 0xb6, 0xb7, 0xbf, 0xc1,
    0xc6, 0xc7, 0xd7, 0x11, 0x16, 0x17, 0x5b, 0x5c, 0xf6, 0xf7, 0xfe, 0xff, 0x80, 0x0d, 0x6d, 0x71, 0xde,
    0xdf, 0x0e, 0x0f, 0x1f, 0x6e, 0x6f, 0x1c, 0x1d, 0x5f, 0x7d, 0x7e, 0xae, 0xaf, 0xbb, 0xbc, 0xfa, 0x16,
    0x17, 0x1e, 0x1f, 0x46, 0x47, 0x4e, 0x4f, 0x58, 0x5a, 0x5c, 0x5e, 0x7e, 0x7f, 0xb5, 0xc5, 0xd4, 0xd5,
    0xdc, 0xf0, 0xf1, 0xf5, 0x72, 0x73, 0x8f, 0x74, 0x75, 0x96, 0x2f, 0x5f, 0x26, 0x2e, 0x2f, 0xa7, 0xaf,
    0xb7, 0xbf, 0xc7, 0xcf, 0xd7, 0xdf, 0x9a, 0x40, 0x97, 0x98, 0x30, 0x8f, 0x1f, 0xc0, 0xc1, 0xce, 0xff,
    0x4e, 0x4f, 0x5a, 0x5b, 0x07, 0x08, 0x0f, 0x10, 0x27, 0x2f, 0xee, 0xef, 0x6e, 0x6f, 0x37, 0x3d, 0x3f,
    0x42, 0x45, 0x90, 0x91, 0xfe, 0xff, 0x53, 0x67, 0x75, 0xc8, 0xc9, 0xd0, 0xd1, 0xd8, 0xd9, 0xe7, 0xfe,
    0xff]"

definition singletons1 :: "(nat \<times> nat) list" where
  "singletons1 = [
    (0x00, 6), (0x01, 1), (0x03, 1), (0x04, 2), (0x08, 8), (0x09, 2), (0x0a, 5), (0x0b, 2), (0x0e, 4),
    (0x10, 1), (0x11, 2), (0x12, 5), (0x13, 17), (0x14, 1), (0x15, 2), (0x17, 2), (0x19, 13), (0x1c, 5),
    (0x1d, 8), (0x24, 1), (0x6a, 3), (0x6b, 2), (0xbc, 2), (0xd1, 2), (0xd4, 12), (0xd5, 9), (0xd6, 2),
    (0xd7, 2), (0xda, 1), (0xe0, 5), (0xe1, 2), (0xe8, 2), (0xee, 32), (0xf0, 4), (0xf8, 2), (0xf9, 2),
    (0xfa, 2), (0xfb, 1)]"

definition singletons1_lower :: "nat list" where
  "singletons1_lower = [
    0x0c, 0x27, 0x3b, 0x3e, 0x4e, 0x4f, 0x8f, 0x9e, 0x9e, 0x9f, 0x06, 0x07, 0x09, 0x36, 0x3d, 0x3e, 0x56,
    0xf3, 0xd0, 0xd1, 0x04, 0x14, 0x18, 0x36, 0x37, 0x56, 0x57, 0x7f, 0xaa, 0xae, 0xaf, 0xbd, 0x35, 0xe0,
    0x12, 0x87, 0x89, 0x8e, 0x9e, 0x04, 0x0d, 0x0e, 0x11, 0x12, 0x29, 0x31, 0x34, 0x3a, 0x45, 0x46, 0x49,
    0x4a, 0x4e, 0x4f, 0x64, 0x65, 0x5c, 0xb6, 0xb7, 0x1b, 0x1c, 0x07, 0x08, 0x0a, 0x0b, 0x14, 0x17, 0x36,
    0x39, 0x3a, 0xa8, 0xa9, 0xd8, 0xd9, 0x09, 0x37, 0x90, 0x91, 0xa8, 0x07, 0x0a, 0x3b, 0x3e, 0x66, 0x69,
    0x8f, 0x92, 0x6f, 0x5f, 0xee, 0xef, 0x5a, 0x62, 0x9a, 0x9b, 0x27, 0x28, 0x55, 0x9d, 0xa0, 0xa1, 0xa3,
    0xa4, 0xa7, 0xa8, 0xad, 0xba, 0xbc, 0xc4, 0x06, 0x0b, 0x0c, 0x15, 0x1d, 0x3a, 0x3f, 0x45, 0x51, 0xa6,
    0xa7, 0xcc, 0xcd, 0xa0, 0x07, 0x19, 0x1a, 0x22, 0x25, 0x3e, 0x3f, 0xc5, 0xc6, 0x04, 0x20, 0x23, 0x25,
    0x26, 0x28, 0x33, 0x38, 0x3a, 0x48, 0x4a, 0x4c, 0x50, 0x53, 0x55, 0x56, 0x58, 0x5a, 0x5c, 0x5e, 0x60,
    0x63, 0x65, 0x66, 0x6b, 0x73, 0x78, 0x7d, 0x7f, 0x8a, 0xa4, 0xaa, 0xaf, 0xb0, 0xc0, 0xd0, 0xae, 0xaf,
    0x79, 0xcc, 0x6e, 0x6f, 0x93]"

definition normal0 :: "nat list" where
  "normal0 = [
    0x00, 0x20, 0x5f, 0x22, 0x82, 0xdf, 0x04, 0x82, 0x44, 0x08, 0x1b, 0x04, 0x06, 0x11, 0x81, 0xac, 0x0e,
    0x80, 0xab, 0x35, 0x28, 0x0b, 0x80, 0xe0, 0x03, 0x19, 0x08, 0x01, 0x04, 0x2f, 0x04, 0x34, 0x04, 0x07,
    0x03, 0x01, 0x07, 0x06, 0x07, 0x11, 0x0a, 0x50, 0x0f, 0x12, 0x07, 0x55, 0x07, 0x03, 0x04, 0x1c, 0x0a,
    0x09, 0x03, 0x08, 0x03, 0x07, 0x03, 0x02, 0x03, 0x03, 0x03, 0x0c, 0x04, 0x05, 0x03, 0x0b, 0x06, 0x01,
    0x0e, 0x15, 0x05, 0x3a, 0x03, 0x11, 0x07, 0x06, 0x05, 0x10, 0x07, 0x57, 0x07, 0x02, 0x07, 0x15, 0x0d,
    0x50, 0x04, 0x43, 0x03, 0x2d, 0x03, 0x01, 0x04, 0x11, 0x06, 0x0f, 0x0c, 0x3a, 0x04, 0x1d, 0x25, 0x5f,
    0x20, 0x6d, 0x04, 0x6a, 0x25, 0x80, 0xc8, 0x05, 0x82, 0xb0, 0x03, 0x1a, 0x06, 0x82, 0xfd, 0x03, 0x59,
    0x07, 0x15, 0x0b, 0x17, 0x09, 0x14, 0x0c, 0x14, 0x0c, 0x6a, 0x06, 0x0a, 0x06, 0x1a, 0x06, 0x59, 0x07,
    0x2b, 0x05, 0x46, 0x0a, 0x2c, 0x04, 0x0c, 0x04, 0x01, 0x03, 0x31, 0x0b, 0x2c, 0x04, 0x1a, 0x06, 0x0b,
    0x03, 0x80, 0xac, 0x06, 0x0a, 0x06, 0x21, 0x3f, 0x4c, 0x04, 0x2d, 0x03, 0x74, 0x08, 0x3c, 0x03, 0x0f,
    0x03, 0x3c, 0x07, 0x38, 0x08, 0x2b, 0x05, 0x82, 0xff, 0x11, 0x18, 0x08, 0x2f, 0x11, 0x2d, 0x03, 0x20,
    0x10, 0x21, 0x0f, 0x80, 0x8c, 0x04, 0x82, 0x97, 0x19, 0x0b, 0x15, 0x88, 0x94, 0x05, 0x2f, 0x05, 0x3b,
    0x07, 0x02, 0x0e, 0x18, 0x09, 0x80, 0xb3, 0x2d, 0x74, 0x0c, 0x80, 0xd6, 0x1a, 0x0c, 0x05, 0x80, 0xff,
    0x05, 0x80, 0xdf, 0x0c, 0xee, 0x0d, 0x03, 0x84, 0x8d, 0x03, 0x37, 0x09, 0x81, 0x5c, 0x14, 0x80, 0xb8,
    0x08, 0x80, 0xcb, 0x2a, 0x38, 0x03, 0x0a, 0x06, 0x38, 0x08, 0x46, 0x08, 0x0c, 0x06, 0x74, 0x0b, 0x1e,
    0x03, 0x5a, 0x04, 0x59, 0x09, 0x80, 0x83, 0x18, 0x1c, 0x0a, 0x16, 0x09, 0x4c, 0x04, 0x80, 0x8a, 0x06,
    0xab, 0xa4, 0x0c, 0x17, 0x04, 0x31, 0xa1, 0x04, 0x81, 0xda, 0x26, 0x07, 0x0c, 0x05, 0x05, 0x80, 0xa5,
    0x11, 0x81, 0x6d, 0x10, 0x78, 0x28, 0x2a, 0x06, 0x4c, 0x04, 0x80, 0x8d, 0x04, 0x80, 0xbe, 0x03, 0x1b,
    0x03, 0x0f, 0x0d]"

definition normal1 :: "nat list" where
  "normal1 = [
    0x5e, 0x22, 0x7b, 0x05, 0x03, 0x04, 0x2d, 0x03, 0x66, 0x03, 0x01, 0x2f, 0x2e, 0x80, 0x82, 0x1d, 0x03,
    0x31, 0x0f, 0x1c, 0x04, 0x24, 0x09, 0x1e, 0x05, 0x2b, 0x05, 0x44, 0x04, 0x0e, 0x2a, 0x80, 0xaa, 0x06,
    0x24, 0x04, 0x24, 0x04, 0x28, 0x08, 0x34, 0x0b, 0x01, 0x80, 0x90, 0x81, 0x37, 0x09, 0x16, 0x0a, 0x08,
    0x80, 0x98, 0x39, 0x03, 0x63, 0x08, 0x09, 0x30, 0x16, 0x05, 0x21, 0x03, 0x1b, 0x05, 0x01, 0x40, 0x38,
    0x04, 0x4b, 0x05, 0x2f, 0x04, 0x0a, 0x07, 0x09, 0x07, 0x40, 0x20, 0x27, 0x04, 0x0c, 0x09, 0x36, 0x03,
    0x3a, 0x05, 0x1a, 0x07, 0x04, 0x0c, 0x07, 0x50, 0x49, 0x37, 0x33, 0x0d, 0x33, 0x07, 0x2e, 0x08, 0x0a,
    0x81, 0x26, 0x52, 0x4e, 0x28, 0x08, 0x2a, 0x56, 0x1c, 0x14, 0x17, 0x09, 0x4e, 0x04, 0x1e, 0x0f, 0x43,
    0x0e, 0x19, 0x07, 0x0a, 0x06, 0x48, 0x08, 0x27, 0x09, 0x75, 0x0b, 0x3f, 0x41, 0x2a, 0x06, 0x3b, 0x05,
    0x0a, 0x06, 0x51, 0x06, 0x01, 0x05, 0x10, 0x03, 0x05, 0x80, 0x8b, 0x62, 0x1e, 0x48, 0x08, 0x0a, 0x80,
    0xa6, 0x5e, 0x22, 0x45, 0x0b, 0x0a, 0x06, 0x0d, 0x13, 0x39, 0x07, 0x0a, 0x36, 0x2c, 0x04, 0x10, 0x80,
    0xc0, 0x3c, 0x64, 0x53, 0x0c, 0x48, 0x09, 0x0a, 0x46, 0x45, 0x1b, 0x48, 0x08, 0x53, 0x1d, 0x39, 0x81,
    0x07, 0x46, 0x0a, 0x1d, 0x03, 0x47, 0x49, 0x37, 0x03, 0x0e, 0x08, 0x0a, 0x06, 0x39, 0x07, 0x0a, 0x81,
    0x36, 0x19, 0x80, 0xb7, 0x01, 0x0f, 0x32, 0x0d, 0x83, 0x9b, 0x66, 0x75, 0x0b, 0x80, 0xc4, 0x8a, 0xbc,
    0x84, 0x2f, 0x8f, 0xd1, 0x82, 0x47, 0xa1, 0xb9, 0x82, 0x39, 0x07, 0x2a, 0x04, 0x02, 0x60, 0x26, 0x0a,
    0x46, 0x0a, 0x28, 0x05, 0x13, 0x82, 0xb0, 0x5b, 0x65, 0x4b, 0x04, 0x39, 0x07, 0x11, 0x40, 0x05, 0x0b,
    0x02, 0x0e, 0x97, 0xf8, 0x08, 0x84, 0xd6, 0x2a, 0x09, 0xa2, 0xf7, 0x81, 0x1f, 0x31, 0x03, 0x11, 0x04,
    0x08, 0x81, 0x8c, 0x89, 0x04, 0x6b, 0x05, 0x0d, 0x03, 0x09, 0x07, 0x10, 0x93, 0x60, 0x80, 0xf6, 0x0a,
    0x73, 0x08, 0x6e, 0x17, 0x46, 0x80, 0x9a, 0x14, 0x0c, 0x57, 0x09, 0x19, 0x80, 0x87, 0x81, 0x47, 0x03,
    0x85, 0x42, 0x0f, 0x15, 0x85, 0x50, 0x2b, 0x80, 0xd5, 0x2d, 0x03, 0x1a, 0x04, 0x02, 0x81, 0x70, 0x3a,
    0x05, 0x01, 0x85, 0x00, 0x80, 0xd7, 0x29, 0x4c, 0x04, 0x0a, 0x04, 0x02, 0x83, 0x11, 0x44, 0x4c, 0x3d,
    0x80, 0xc2, 0x3c, 0x06, 0x01, 0x04, 0x55, 0x05, 0x1b, 0x34, 0x02, 0x81, 0x0e, 0x2c, 0x04, 0x64, 0x0c,
    0x56, 0x0a, 0x80, 0xae, 0x38, 0x1d, 0x0d, 0x2c, 0x04, 0x09, 0x07, 0x02, 0x0e, 0x06, 0x80, 0x9a, 0x83,
    0xd8, 0x08, 0x0d, 0x03, 0x0d, 0x03, 0x74, 0x0c, 0x59, 0x07, 0x0c, 0x14, 0x0c, 0x04, 0x38, 0x08, 0x0a,
    0x06, 0x28, 0x08, 0x22, 0x4e, 0x81, 0x54, 0x0c, 0x15, 0x03, 0x03, 0x05, 0x07, 0x09, 0x19, 0x07, 0x07,
    0x09, 0x03, 0x0d, 0x07, 0x29, 0x80, 0xcb, 0x25, 0x0a, 0x84, 0x06]"

fun singleton_hit :: "nat \<Rightarrow> (nat \<times> nat) list \<Rightarrow> nat list \<Rightarrow> nat \<Rightarrow> bool" where
  "singleton_hit x [] lowers lower_start = False"
| "singleton_hit x ((upper, lower_count) # ss) lowers lower_start =
     (if drop_bit 8 x < upper then False
      else if drop_bit 8 x = upper \<and> list_ex (\<lambda>l. l = x AND 0xff) (take lower_count (drop lower_start lowers)) then True
      else singleton_hit x ss lowers (lower_start + lower_count))"

text \<open>A length of two bytes has the top bit of the first one set; no table ends within one.\<close>

fun normal_loop :: "int \<Rightarrow> bool \<Rightarrow> nat list \<Rightarrow> bool" where
  "normal_loop x current [] = current"
| "normal_loop x current [v] = (if v AND 0x80 \<noteq> 0 \<or> x - int v < 0 then current else \<not> current)"
| "normal_loop x current (v # w # vs) =
     (if v AND 0x80 \<noteq> 0
      then (let x = x - int (push_bit 8 (v AND 0x7f) OR w) in if x < 0 then current else normal_loop x (\<not> current) vs)
      else (let x = x - int v in if x < 0 then current else normal_loop x (\<not> current) (w # vs)))"

definition is_printable16 :: "nat \<Rightarrow> (nat \<times> nat) list \<Rightarrow> nat list \<Rightarrow> nat list \<Rightarrow> bool" where
  "is_printable16 x singletons lowers normal =
     (if singleton_hit x singletons lowers 0 then False else normal_loop (int x) True normal)"

definition is_printable :: "nat \<Rightarrow> bool" where
  "is_printable cp =
     (let lower = cp mod 65536
      in if cp < 0x10000 then is_printable16 lower singletons0 singletons0_lower normal0
         else if cp < 0x20000 then is_printable16 lower singletons1 singletons1_lower normal1
         else if 0x2a6de \<le> cp \<and> cp < 0x2a700 then False
         else if 0x2b735 \<le> cp \<and> cp < 0x2b740 then False
         else if 0x2b81e \<le> cp \<and> cp < 0x2b820 then False
         else if 0x2cea2 \<le> cp \<and> cp < 0x2ceb0 then False
         else if 0x2ebe1 \<le> cp \<and> cp < 0x2f800 then False
         else if 0x2fa1e \<le> cp \<and> cp < 0x30000 then False
         else if 0x3134b \<le> cp \<and> cp < 0xe0100 then False
         else if 0xe01f0 \<le> cp \<and> cp < 0x110000 then False
         else cp < 0x110000)"

definition needs_escape :: "nat \<Rightarrow> bool" where
  "needs_escape cp \<longleftrightarrow> cp < 0x20 \<or> cp = 0x7f \<or> cp = 0x22 \<or> cp = 0x5c \<or> \<not> is_printable cp"

text \<open>ASCII from the space to the tilde is printable.\<close>

lemma is_printable_ascii: "0x20 \<le> cp \<Longrightarrow> cp < 0x7f \<Longrightarrow> is_printable cp"
proof -
  assume cp: "0x20 \<le> cp" "cp < 0x7f"
  have "cp AND 0xff \<noteq> 0xad" using cp and_mask [of cp 8] by simp
  then have "\<not> singleton_hit cp singletons0 singletons0_lower 0"
    using cp unfolding singletons0_def singletons0_lower_def by (simp add: drop_bit_eq_div)
  moreover have "normal_loop (int cp) True normal0" using cp unfolding normal0_def by simp
  ultimately show ?thesis using cp by (simp add: is_printable_def is_printable16_def)
qed

section \<open>Properties\<close>

text \<open>
  C16: the branch-free decoder finds in the UTF-8 text of any sequence of Unicode scalar values exactly
  these values, each with its bytes, whatever invalid bytes follow; and on any bytes at all the
  pieces handed out make up the input.
\<close>

theorem utf8_decodes:
  assumes "\<forall>cp \<in> set cps. scalar cp"
  shows "for_each_codepoint (concat (map utf8 cps) @ s) = map (\<lambda>cp. (cp, utf8 cp)) cps @ for_each_codepoint s \<and>
     concat (map snd (for_each_codepoint s)) = s"
  using assms for_each_concat [of s] by (induction cps) (simp_all add: for_each_utf8)

theorem utf8_decodes_witness:
  "map fst (for_each_codepoint (concat (map utf8 [0x41, 0x4e2d, 0x1f600]) @ [])) = [0x41, 0x4e2d, 0x1f600]"
proof -
  have "\<forall>cp \<in> set [0x41, 0x4e2d, 0x1f600]. scalar cp" by (simp add: scalar_def)
  from utf8_decodes [OF this, of "[]"] show ?thesis by simp
qed

end
