(* ===== verification/Fmt_Specs.thy ===== *)
theory Fmt_Specs
  imports Fmt_Utf8
begin

text \<open>
  Format specifications of the bundled \<^verbatim>\<open>fmt/base.h\<close>: the part of a replacement field after the
  colon. A pair of pointers \<open>begin\<close>, \<open>end\<close> is the rest of the string; \<open>report_error\<close> throws, so
  a function that may call it returns \<open>Inl\<close> and the message.
\<close>

section \<open>Errors\<close>

type_synonym 'a fmt_result = "string + 'a"

definition and_then :: "'a fmt_result \<Rightarrow> ('a \<Rightarrow> 'b fmt_result) \<Rightarrow> 'b fmt_result" where
  "and_then r f = (case r of Inl e \<Rightarrow> Inl e | Inr x \<Rightarrow> f x)"

lemma and_then_simps [simp]: "and_then (Inl e) f = Inl e" "and_then (Inr x) f = f x"
  by (simp_all add: and_then_def)

lemma and_then_Inr: "and_then r f = Inr y \<longleftrightarrow> (\<exists>x. r = Inr x \<and> f x = Inr y)"
  by (cases r) simp_all

section \<open>Types of arguments\<close>

datatype fmt_type = None_type | Int_type | UInt_type | Long_long_type | ULong_long_type | Int128_type | UInt128_type
  | Bool_type | Char_type | Float_type | Double_type | Long_double_type | Cstring_type | String_type | Pointer_type
  | Custom_type

fun type_index :: "fmt_type \<Rightarrow> nat" where
  "type_index None_type = 0"
| "type_index Int_type = 1"
| "type_index UInt_type = 2"
| "type_index Long_long_type = 3"
| "type_index ULong_long_type = 4"
| "type_index Int128_type = 5"
| "type_index UInt128_type = 6"
| "type_index Bool_type = 7"
| "type_index Char_type = 8"
| "type_index Float_type = 9"
| "type_index Double_type = 10"
| "type_index Long_double_type = 11"
| "type_index Cstring_type = 12"
| "type_index String_type = 13"
| "type_index Pointer_type = 14"
| "type_index Custom_type = 15"

definition is_integral_type :: "fmt_type \<Rightarrow> bool" where
  "is_integral_type t \<longleftrightarrow> type_index t > type_index None_type \<and> type_index t \<le> type_index Char_type"

definition is_arithmetic_type :: "fmt_type \<Rightarrow> bool" where
  "is_arithmetic_type t \<longleftrightarrow> type_index t > type_index None_type \<and> type_index t \<le> type_index Long_double_type"

definition type_set :: "fmt_type \<Rightarrow> nat" where
  "type_set t = push_bit (type_index t) 1"

definition in_types :: "fmt_type \<Rightarrow> nat \<Rightarrow> bool" where
  "in_types t types \<longleftrightarrow> drop_bit (type_index t) types AND 1 \<noteq> 0"

definition sint_set :: nat where
  "sint_set = type_set Int_type OR type_set Long_long_type OR type_set Int128_type"

definition uint_set :: nat where
  "uint_set = type_set UInt_type OR type_set ULong_long_type OR type_set UInt128_type"

definition bool_set :: nat where "bool_set = type_set Bool_type"
definition char_set :: nat where "char_set = type_set Char_type"

definition float_set :: nat where
  "float_set = type_set Float_type OR type_set Double_type OR type_set Long_double_type"

definition string_set :: nat where "string_set = type_set String_type"
definition cstring_set :: nat where "cstring_set = type_set Cstring_type"
definition pointer_set :: nat where "pointer_set = type_set Pointer_type"

lemma in_types_bit: "in_types t s \<longleftrightarrow> bit s (type_index t)"
  by (simp add: in_types_def bit_iff_odd_drop_bit and_one_eq odd_iff_mod_2_eq_one)

lemma in_types_or [simp]: "in_types t (a OR b) \<longleftrightarrow> in_types t a \<or> in_types t b"
  by (simp add: in_types_bit bit_or_iff)

lemma in_types_set [simp]: "in_types t (type_set u) \<longleftrightarrow> t = u"
  by (cases t; cases u) (simp_all add: in_types_def type_set_def)

lemmas set_defs = sint_set_def uint_set_def bool_set_def char_set_def float_set_def string_set_def cstring_set_def
  pointer_set_def

section \<open>Specifications\<close>

datatype align_t = No_align | Align_left | Align_right | Align_center | Align_numeric

datatype sign = No_sign | Minus | Plus | Space

text \<open>\<open>presentation_type\<close>; its enumerators share values.\<close>

type_synonym pres_type = nat

abbreviation (input) "pres_none \<equiv> 0 :: pres_type"
abbreviation (input) "pres_debug \<equiv> 1 :: pres_type"
abbreviation (input) "pres_string \<equiv> 2 :: pres_type"
abbreviation (input) "pres_dec \<equiv> 3 :: pres_type"
abbreviation (input) "pres_hex \<equiv> 4 :: pres_type"
abbreviation (input) "pres_oct \<equiv> 5 :: pres_type"
abbreviation (input) "pres_bin \<equiv> 6 :: pres_type"
abbreviation (input) "pres_chr \<equiv> 7 :: pres_type"
abbreviation (input) "pres_pointer \<equiv> 3 :: pres_type"
abbreviation (input) "pres_exp \<equiv> 1 :: pres_type"
abbreviation (input) "pres_fixed \<equiv> 2 :: pres_type"
abbreviation (input) "pres_general \<equiv> 3 :: pres_type"
abbreviation (input) "pres_hexfloat \<equiv> 4 :: pres_type"

datatype arg_ref = No_ref | Index_ref int | Name_ref string

record format_specs =
  sp_width :: int
  sp_precision :: int
  sp_type :: pres_type
  sp_align :: align_t
  sp_sign :: sign
  sp_upper :: bool
  sp_alt :: bool
  sp_localized :: bool
  sp_fill :: string
  sp_width_ref :: arg_ref
  sp_precision_ref :: arg_ref

definition default_specs :: format_specs where
  "default_specs = \<lparr>sp_width = 0, sp_precision = - 1, sp_type = pres_none, sp_align = No_align, sp_sign = No_sign,
     sp_upper = False, sp_alt = False, sp_localized = False, sp_fill = '' '',
     sp_width_ref = No_ref, sp_precision_ref = No_ref\<rparr>"

section \<open>Numbers and argument identifiers\<close>

definition ascii_digit :: "char \<Rightarrow> bool" where
  "ascii_digit c \<longleftrightarrow> 48 \<le> uchar c \<and> uchar c \<le> 57"

definition is_name_start :: "char \<Rightarrow> bool" where
  "is_name_start c \<longleftrightarrow> (97 \<le> uchar c \<and> uchar c \<le> 122) \<or> (65 \<le> uchar c \<and> uchar c \<le> 90) \<or> c = CHR ''_''"

text \<open>\<open>value\<close>, \<open>prev\<close>, the number of digits and the last of them; \<open>unsigned\<close> wraps around.\<close>

fun nonneg_loop :: "string \<Rightarrow> 32 word \<Rightarrow> 32 word \<Rightarrow> nat \<Rightarrow> char \<Rightarrow> 32 word \<times> 32 word \<times> nat \<times> char \<times> string" where
  "nonneg_loop [] val prev n d = (val, prev, n, d, [])"
| "nonneg_loop (c # s) val prev n d =
     (if ascii_digit c then nonneg_loop s (val * 10 + word_of_nat (uchar c - 48)) val (n + 1) c
      else (val, prev, n, d, c # s))"

definition INT_MAX :: int where "INT_MAX = 2147483647"

definition parse_nonnegative_int :: "string \<Rightarrow> int \<Rightarrow> int \<times> string" where
  "parse_nonnegative_int s error_value =
     (let (val, prev, num_digits, d, rest) = nonneg_loop s 0 0 0 (CHR ''0'');
          digits10 = 4 * 8 * 3 div 10
      in (if num_digits \<le> digits10 then sint val
          else if num_digits = digits10 + 1 \<and> (ucast prev :: 64 word) * 10 + word_of_nat (uchar d - 48) \<le> word_of_int INT_MAX
          then sint val
          else error_value, rest))"

datatype arg_id = Auto_id | Index_id int | Name_id string

fun take_name :: "string \<Rightarrow> string \<times> string" where
  "take_name [] = ([], [])"
| "take_name (c # s) =
     (if is_name_start c \<or> ascii_digit c then (let (n, rest) = take_name s in (c # n, rest)) else ([], c # s))"

definition do_parse_arg_id :: "string \<Rightarrow> (arg_id \<times> string) fmt_result" where
  "do_parse_arg_id s =
     (let c = hd s
      in if ascii_digit c
         then (let (index, rest) = (if c \<noteq> CHR ''0'' then parse_nonnegative_int s INT_MAX else (0, tl s))
               in if rest = [] \<or> (hd rest \<noteq> CHR ''}'' \<and> hd rest \<noteq> CHR '':'') then Inl ''invalid format string''
                  else Inr (Index_id index, rest))
         else if \<not> is_name_start c then Inl ''invalid format string''
         else (let (n, rest) = take_name (tl s) in Inr (Name_id (c # n), rest)))"

definition parse_arg_id :: "string \<Rightarrow> (arg_id \<times> string) fmt_result" where
  "parse_arg_id s = (if hd s \<noteq> CHR ''}'' \<and> hd s \<noteq> CHR '':'' then do_parse_arg_id s else Inr (Auto_id, s))"

text \<open>
  The parse context: \<open>next_arg_id_\<close>, negative after an explicit index, and, when a format string is checked at
  compile time, the types of the arguments (\<open>compile_parse_context\<close>; at run time \<open>None\<close>).
\<close>

record parse_context =
  pc_next :: int
  pc_types :: "fmt_type list option"

definition do_check_arg_id :: "int \<Rightarrow> parse_context \<Rightarrow> parse_context fmt_result" where
  "do_check_arg_id i ctx =
     (case pc_types ctx of
        None \<Rightarrow> Inr ctx
      | Some types \<Rightarrow> if i \<ge> int (length types) then Inl ''argument not found'' else Inr ctx)"

definition next_arg_id :: "parse_context \<Rightarrow> (int \<times> parse_context) fmt_result" where
  "next_arg_id ctx =
     (if pc_next ctx < 0 then Inl ''cannot switch from manual to automatic argument indexing''
      else and_then (do_check_arg_id (pc_next ctx) (ctx\<lparr>pc_next := pc_next ctx + 1\<rparr>)) (\<lambda>ctx'. Inr (pc_next ctx, ctx')))"

definition check_arg_id :: "int \<Rightarrow> parse_context \<Rightarrow> parse_context fmt_result" where
  "check_arg_id i ctx =
     (if pc_next ctx > 0 then Inl ''cannot switch from automatic to manual argument indexing''
      else do_check_arg_id i (ctx\<lparr>pc_next := - 1\<rparr>))"

definition check_arg_name :: "parse_context \<Rightarrow> parse_context" where
  "check_arg_name ctx = ctx\<lparr>pc_next := - 1\<rparr>"

definition check_dynamic_spec :: "int \<Rightarrow> parse_context \<Rightarrow> parse_context fmt_result" where
  "check_dynamic_spec i ctx =
     (case pc_types ctx of
        None \<Rightarrow> Inr ctx
      | Some types \<Rightarrow>
          if i < int (length types) \<and> \<not> is_integral_type (types ! nat i) then Inl ''width/precision is not integer''
          else Inr ctx)"

definition dynamic_ref :: "arg_id \<Rightarrow> parse_context \<Rightarrow> (arg_ref \<times> parse_context) fmt_result" where
  "dynamic_ref i ctx =
     (case i of
        Auto_id \<Rightarrow> and_then (next_arg_id ctx) (\<lambda>(n, ctx). and_then (check_dynamic_spec n ctx) (\<lambda>ctx. Inr (Index_ref n, ctx)))
      | Index_id n \<Rightarrow> and_then (check_arg_id n ctx) (\<lambda>ctx. and_then (check_dynamic_spec n ctx) (\<lambda>ctx. Inr (Index_ref n, ctx)))
      | Name_id n \<Rightarrow> Inr (Name_ref n, check_arg_name ctx))"

definition parse_dynamic_spec ::
  "string \<Rightarrow> int \<Rightarrow> arg_ref \<Rightarrow> parse_context \<Rightarrow> (int \<times> arg_ref \<times> string \<times> parse_context) fmt_result" where
  "parse_dynamic_spec s val ref ctx =
     (if ascii_digit (hd s)
      then (let (v, rest) = parse_nonnegative_int s (- 1)
            in if v \<noteq> - 1 then Inr (v, ref, rest, ctx) else Inl ''number is too big'')
      else if hd s = CHR ''{''
      then (let s = tl s
            in if s = [] then Inl ''invalid format string''
               else and_then (parse_arg_id s) (\<lambda>(i, rest).
                      and_then (dynamic_ref i ctx) (\<lambda>(ref, ctx).
                        if rest \<noteq> [] \<and> hd rest = CHR ''}'' then Inr (val, ref, tl rest, ctx)
                        else Inl ''invalid format string'')))
      else Inr (val, ref, s, ctx))"

definition parse_precision ::
  "string \<Rightarrow> int \<Rightarrow> arg_ref \<Rightarrow> parse_context \<Rightarrow> (int \<times> arg_ref \<times> string \<times> parse_context) fmt_result" where
  "parse_precision s val ref ctx =
     (let s = tl s
      in if s = [] \<or> hd s = CHR ''}'' then Inl ''invalid precision'' else parse_dynamic_spec s val ref ctx)"

section \<open>The state machine of \<open>parse_format_specs\<close>\<close>

fun parse_align :: "char \<Rightarrow> align_t" where
  "parse_align c =
     (if c = CHR ''<'' then Align_left else if c = CHR ''>'' then Align_right
      else if c = CHR ''^'' then Align_center else No_align)"

text \<open>\<open>enum class state\<close>, and \<open>enter_state\<close>.\<close>

abbreviation (input) "st_start \<equiv> 0 :: nat"
abbreviation (input) "st_align \<equiv> 1 :: nat"
abbreviation (input) "st_sign \<equiv> 2 :: nat"
abbreviation (input) "st_hash \<equiv> 3 :: nat"
abbreviation (input) "st_zero \<equiv> 4 :: nat"
abbreviation (input) "st_width \<equiv> 5 :: nat"
abbreviation (input) "st_precision \<equiv> 6 :: nat"
abbreviation (input) "st_locale \<equiv> 7 :: nat"

definition enter_state :: "nat \<Rightarrow> nat \<Rightarrow> bool \<Rightarrow> nat fmt_result" where
  "enter_state current s valid = (if current \<ge> s \<or> \<not> valid then Inl ''invalid format specifier'' else Inr s)"

text \<open>One round of the loop either returns or goes on after the characters it has read.\<close>

datatype round =
    Return string format_specs parse_context
  | Go_on nat string format_specs parse_context

definition integral_set :: nat where
  "integral_set = sint_set OR uint_set OR bool_set OR char_set"

definition parse_presentation_type ::
  "fmt_type \<Rightarrow> pres_type \<Rightarrow> nat \<Rightarrow> string \<Rightarrow> format_specs \<Rightarrow> parse_context \<Rightarrow> round fmt_result" where
  "parse_presentation_type arg_type pres types s specs ctx =
     (if \<not> in_types arg_type types
      then (if arg_type = None_type then Inr (Return s specs ctx) else Inl ''invalid format specifier'')
      else Inr (Return (tl s) (specs\<lparr>sp_type := pres\<rparr>) ctx))"

definition parse_sign :: "char \<Rightarrow> sign" where
  "parse_sign c = (if c = CHR ''+'' then Plus else if c = CHR ''-'' then Minus else Space)"

definition parse_fill :: "nat \<Rightarrow> string \<Rightarrow> format_specs \<Rightarrow> parse_context \<Rightarrow> round fmt_result" where
  "parse_fill st s specs ctx =
     (if hd s = CHR ''}'' then Inr (Return s specs ctx)
      else let n = code_point_length (hd s)
           in if length s \<le> n then Inl ''invalid format specifier''
              else if hd s = CHR ''{'' then Inl (''invalid fill character '' @ [CHR 0x27, CHR ''{'', CHR 0x27])
              else let align = parse_align (s ! n)
                   in and_then (enter_state st st_align (align \<noteq> No_align)) (\<lambda>st.
                        Inr (Go_on st (drop (n + 1) s) (specs\<lparr>sp_fill := take n s, sp_align := align\<rparr>) ctx)))"

definition specs_round :: "fmt_type \<Rightarrow> char \<Rightarrow> nat \<Rightarrow> string \<Rightarrow> format_specs \<Rightarrow> parse_context \<Rightarrow> round fmt_result" where
  "specs_round arg_type c st s specs ctx =
     (let pres = (\<lambda>p types specs. parse_presentation_type arg_type p types s specs ctx);
          up = specs\<lparr>sp_upper := True\<rparr>
      in if c \<in> set ''<>^'' then
           and_then (enter_state st st_align True) (\<lambda>st. Inr (Go_on st (tl s) (specs\<lparr>sp_align := parse_align c\<rparr>) ctx))
         else if c \<in> set ''+- '' then
           (if arg_type = None_type then Inr (Return s specs ctx)
            else and_then (enter_state st st_sign (in_types arg_type (sint_set OR float_set))) (\<lambda>st.
                   Inr (Go_on st (tl s) (specs\<lparr>sp_sign := parse_sign c\<rparr>) ctx)))
         else if c = CHR ''#'' then
           (if arg_type = None_type then Inr (Return s specs ctx)
            else and_then (enter_state st st_hash (is_arithmetic_type arg_type)) (\<lambda>st.
                   Inr (Go_on st (tl s) (specs\<lparr>sp_alt := True\<rparr>) ctx)))
         else if c = CHR ''0'' then
           and_then (enter_state st st_zero True) (\<lambda>st.
             if \<not> is_arithmetic_type arg_type
             then (if arg_type = None_type then Inr (Return s specs ctx)
                   else Inl ''format specifier requires numeric argument'')
             else Inr (Go_on st (tl s)
                    (if sp_align specs = No_align then specs\<lparr>sp_align := Align_numeric, sp_fill := ''0''\<rparr> else specs) ctx))
         else if c \<in> set ''123456789{'' then
           and_then (enter_state st st_width True) (\<lambda>st.
             and_then (parse_dynamic_spec s (sp_width specs) (sp_width_ref specs) ctx) (\<lambda>(v, ref, rest, ctx).
               Inr (Go_on st rest (specs\<lparr>sp_width := v, sp_width_ref := ref\<rparr>) ctx)))
         else if c = CHR ''.'' then
           (if arg_type = None_type then Inr (Return s specs ctx)
            else and_then (enter_state st st_precision (in_types arg_type (float_set OR string_set OR cstring_set))) (\<lambda>st.
                   and_then (parse_precision s (sp_precision specs) (sp_precision_ref specs) ctx) (\<lambda>(v, ref, rest, ctx).
                     Inr (Go_on st rest (specs\<lparr>sp_precision := v, sp_precision_ref := ref\<rparr>) ctx))))
         else if c = CHR ''L'' then
           (if arg_type = None_type then Inr (Return s specs ctx)
            else and_then (enter_state st st_locale (is_arithmetic_type arg_type)) (\<lambda>st.
                   Inr (Go_on st (tl s) (specs\<lparr>sp_localized := True\<rparr>) ctx)))
         else if c = CHR ''d'' then pres pres_dec integral_set specs
         else if c = CHR ''X'' then pres pres_hex integral_set up
         else if c = CHR ''x'' then pres pres_hex integral_set specs
         else if c = CHR ''o'' then pres pres_oct integral_set specs
         else if c = CHR ''B'' then pres pres_bin integral_set up
         else if c = CHR ''b'' then pres pres_bin integral_set specs
         else if c = CHR ''E'' then pres pres_exp float_set up
         else if c = CHR ''e'' then pres pres_exp float_set specs
         else if c = CHR ''F'' then pres pres_fixed float_set up
         else if c = CHR ''f'' then pres pres_fixed float_set specs
         else if c = CHR ''G'' then pres pres_general float_set up
         else if c = CHR ''g'' then pres pres_general float_set specs
         else if c = CHR ''A'' then pres pres_hexfloat float_set up
         else if c = CHR ''a'' then pres pres_hexfloat float_set specs
         else if c = CHR ''c'' then
           (if arg_type = Bool_type then Inl ''invalid format specifier'' else pres pres_chr integral_set specs)
         else if c = CHR ''s'' then pres pres_string (bool_set OR string_set OR cstring_set) specs
         else if c = CHR ''p'' then pres pres_pointer (pointer_set OR cstring_set) specs
         else if c = CHR ''?'' then pres pres_debug (char_set OR string_set OR cstring_set) specs
         else if c = CHR ''}'' then Inr (Return s specs ctx)
         else parse_fill st s specs ctx)"

text \<open>Every round that goes on has read something.\<close>

lemma nonneg_loop_rest: "nonneg_loop s v p n d = (v', p', n', d', rest) \<Longrightarrow> length rest \<le> length s"
  by (induction s arbitrary: v p n d) (auto split: if_splits simp: le_SucI)

lemma parse_int_rest: "ascii_digit c \<Longrightarrow> parse_nonnegative_int (c # s) e = (v, rest) \<Longrightarrow> length rest \<le> length s"
  by (auto simp: parse_nonnegative_int_def Let_def dest: nonneg_loop_rest split: prod.splits)

lemma take_name_rest: "take_name s = (n, rest) \<Longrightarrow> length rest \<le> length s"
  by (induction s arbitrary: n) (auto simp: le_SucI split: if_splits prod.splits)

lemma parse_arg_id_rest: "parse_arg_id s = Inr (i, rest) \<Longrightarrow> s \<noteq> [] \<Longrightarrow> length rest \<le> length s"
  by (cases s)
    (auto simp: parse_arg_id_def do_parse_arg_id_def Let_def le_SucI dest!: parse_int_rest take_name_rest
       split: if_splits prod.splits)

lemma parse_dynamic_rest:
  "parse_dynamic_spec s v ref ctx = Inr (v', ref', rest, ctx') \<Longrightarrow> s \<noteq> [] \<Longrightarrow>
     length rest \<le> length s \<and> (ascii_digit (hd s) \<or> hd s = CHR ''{'' \<longrightarrow> length rest < length s)"
  by (cases s)
    (auto simp: parse_dynamic_spec_def Let_def and_then_Inr dest!: parse_int_rest parse_arg_id_rest
       split: if_splits prod.splits)

lemma specs_round_rest:
  assumes "specs_round arg_type c st s specs ctx = Inr (Go_on st' rest specs' ctx')" and "s \<noteq> []"
    and "c = hd s \<or> c = CHR 0x00"
  shows "length rest < length s"
proof -
  have "length (tl s) < length s" using assms(2) by simp
  moreover have "parse_presentation_type arg_type p types s sp ctx \<noteq> Inr (Go_on st' rest specs' ctx')" for p types sp
    by (simp add: parse_presentation_type_def)
  moreover have "parse_fill st s specs ctx = Inr (Go_on st' rest specs' ctx') \<Longrightarrow> length rest < length s"
    using assms(2) by (auto simp: parse_fill_def Let_def and_then_Inr split: if_splits)
  moreover have "parse_dynamic_spec s v ref ctx = Inr (v', ref', rest, ctx'') \<Longrightarrow> c \<in> set ''123456789{'' \<Longrightarrow>
      length rest < length s" for v ref v' ref' ctx''
    using parse_dynamic_rest [of s] assms(2,3) by (cases s) (fastforce simp: ascii_digit_def)+
  moreover have "parse_precision s v ref ctx = Inr (v', ref', rest, ctx'') \<Longrightarrow> length rest < length s" for v ref v' ref' ctx''
    using parse_dynamic_rest [of "tl s"] assms(2)
    by (cases s) (auto simp: parse_precision_def Let_def less_Suc_eq_le split: if_splits)
  ultimately show ?thesis
    using assms(1) unfolding specs_round_def Let_def
    by (auto simp del: set_simps simp: and_then_Inr split: if_splits)
qed

text \<open>The loop after the first round; there \<open>c\<close> is the character at \<open>begin\<close>.\<close>

lemma and_then_cong [fundef_cong]:
  "r = r' \<Longrightarrow> (\<And>x. r' = Inr x \<Longrightarrow> f x = g x) \<Longrightarrow> and_then r f = and_then r' g"
  by (cases r') simp_all

function specs_loop ::
  "fmt_type \<Rightarrow> nat \<Rightarrow> string \<Rightarrow> format_specs \<Rightarrow> parse_context \<Rightarrow> (string \<times> format_specs \<times> parse_context) fmt_result" where
  "specs_loop arg_type st s specs ctx =
     (if s = [] then Inr (s, specs, ctx)
      else and_then (specs_round arg_type (hd s) st s specs ctx) (\<lambda>r.
             case r of
               Return rest specs ctx \<Rightarrow> Inr (rest, specs, ctx)
             | Go_on st rest specs ctx \<Rightarrow> specs_loop arg_type st rest specs ctx))"
  by pat_completeness auto
termination
  by (relation "measure (\<lambda>(t, st, s, sp, ctx). length s)") (auto dest: specs_round_rest)

declare specs_loop.simps [simp del]

text \<open>The first \<open>c\<close> is a zero when an alignment follows, so that a fill is not taken for anything else.\<close>

definition first_char :: "string \<Rightarrow> char" where
  "first_char s = (if length s > 1 then (if parse_align (s ! 1) = No_align then hd s else CHR 0x00) else hd s)"

definition parse_format_specs ::
  "string \<Rightarrow> fmt_type \<Rightarrow> parse_context \<Rightarrow> (string \<times> format_specs \<times> parse_context) fmt_result" where
  "parse_format_specs s arg_type ctx =
     (if s = [] then Inr (s, default_specs, ctx)
      else and_then (specs_round arg_type (first_char s) st_start s default_specs ctx) (\<lambda>r.
             case r of
               Return rest specs ctx \<Rightarrow> Inr (rest, specs, ctx)
             | Go_on st rest specs ctx \<Rightarrow> specs_loop arg_type st rest specs ctx))"

section \<open>Numbers are read exactly\<close>

lemma dec_value_append_char: "dec_value (s @ [c]) = dec_value s * 10 + (uchar c - 48)"
  by (simp add: dec_value_def)

lemma dec_value_bound: "\<forall>c \<in> set s. ascii_digit c \<Longrightarrow> dec_value s < 10 ^ length s"
proof (induction s rule: rev_induct)
  case (snoc c s)
  then have "uchar c - 48 < 10" "dec_value s < 10 ^ length s" by (auto simp: ascii_digit_def)
  then show ?case by (simp add: dec_value_append_char)
qed simp

lemma nonneg_loop_digits:
  assumes "\<forall>c \<in> set ds. ascii_digit c"
  shows "nonneg_loop (ds @ rest) (word_of_nat (dec_value s)) p n d =
     nonneg_loop rest (word_of_nat (dec_value (s @ ds))) (if ds = [] then p else word_of_nat (dec_value (s @ butlast ds)))
       (n + length ds) (if ds = [] then d else last ds)"
  using assms
proof (induction ds arbitrary: s p n d)
  case (Cons c ds)
  have "word_of_nat (dec_value s) * 10 + word_of_nat (uchar c - 48) = (word_of_nat (dec_value (s @ [c])) :: 32 word)"
    by (simp add: dec_value_append_char)
  then show ?case using Cons.prems Cons.IH [of "s @ [c]" "word_of_nat (dec_value s)" "n + 1" c] by simp
qed simp

lemma nonneg_loop_stop: "rest = [] \<or> \<not> ascii_digit (hd rest) \<Longrightarrow> nonneg_loop rest v p n d = (v, p, n, d, rest)"
  by (cases rest) simp_all

lemma sint_small: "n \<le> 2147483647 \<Longrightarrow> sint (word_of_nat n :: 32 word) = int n"
  by (simp add: sint_uint uint_nat unat_of_nat signed_take_bit_int_eq_self)

lemma parse_int_exact:
  assumes "\<forall>c \<in> set ds. ascii_digit c" and "ds \<noteq> []" and "rest = [] \<or> \<not> ascii_digit (hd rest)"
  shows "parse_nonnegative_int (ds @ rest) e =
     (if length ds \<le> 10 \<and> int (dec_value ds) \<le> INT_MAX then int (dec_value ds) else e, rest)"
proof -
  let ?n = "dec_value ds" and ?p = "dec_value (butlast ds)" and ?l = "uchar (last ds) - 48"
  have loop: "nonneg_loop (ds @ rest) 0 0 0 (CHR ''0'') = (word_of_nat ?n, word_of_nat ?p, length ds, last ds, rest)"
    using nonneg_loop_digits [OF assms(1), of rest "[]" 0 0] nonneg_loop_stop [OF assms(3)] assms(2) by simp
  have n: "?n = ?p * 10 + ?l" using dec_value_append_char [of "butlast ds" "last ds"] assms(2) by simp
  have bound: "?n < 10 ^ length ds" by (rule dec_value_bound [OF assms(1)])
  have "ascii_digit (last ds)" using assms(1,2) by simp
  then have l: "?l < 10" unfolding ascii_digit_def by linarith
  consider "length ds \<le> 9" | "length ds = 10" | "length ds > 10" by linarith
  then show ?thesis
  proof cases
    case 1
    then have "(10::nat) ^ length ds \<le> 10 ^ 9" by (intro power_increasing) simp_all
    then have "?n < 10 ^ 9" using bound by linarith
    then show ?thesis using 1 loop by (simp add: parse_nonnegative_int_def INT_MAX_def sint_small)
  next
    case 2
    have "\<forall>c \<in> set (butlast ds). ascii_digit c" using assms(1) in_set_butlastD by fast
    from dec_value_bound [OF this] have "?p < 10 ^ 9" using 2 by simp
    then have p: "?p < 2 ^ 32" by simp
    have "(ucast (word_of_nat ?p :: 32 word) :: 64 word) = word_of_nat ?p"
      using p by (simp add: unsigned_of_nat take_bit_nat_eq_self)
    then have "(ucast (word_of_nat ?p :: 32 word) :: 64 word) * 10 + word_of_nat ?l = word_of_nat ?n"
      by (simp add: n)
    moreover have "(word_of_nat ?n :: 64 word) \<le> word_of_int INT_MAX \<longleftrightarrow> int ?n \<le> INT_MAX"
      using bound 2 by (simp add: word_le_nat_alt unat_of_nat INT_MAX_def)
    ultimately show ?thesis using 2 loop by (simp add: parse_nonnegative_int_def Let_def sint_small INT_MAX_def)
  next
    case 3
    then show ?thesis using loop by (simp add: parse_nonnegative_int_def)
  qed
qed

lemma dec_digits: "\<forall>c \<in> set (dec n). ascii_digit c"
proof (induction n rule: dec.induct)
  case (1 n)
  have d: "d < 10 \<Longrightarrow> ascii_digit (digit_char d)" for d by (simp add: ascii_digit_def)
  show ?case using 1 d by (subst dec.simps) auto
qed

lemma hd_dec: "ascii_digit (hd (dec n))" "0 < n \<Longrightarrow> hd (dec n) \<noteq> CHR ''0''"
proof -
  show "ascii_digit (hd (dec n))" using dec_digits [of n] by simp
  show "0 < n \<Longrightarrow> hd (dec n) \<noteq> CHR ''0''"
  proof (induction n rule: dec.induct)
    case (1 n)
    have "digit_char d \<noteq> CHR ''0''" if "0 < d" "d < 10" for d
    proof
      assume "digit_char d = CHR ''0''"
      then have "uchar (digit_char d) = 48" by simp
      then show False using that by simp
    qed
    then show ?case using 1 by (subst dec.simps) (auto simp: hd_append)
  qed
qed

text \<open>A decimal number that fits into an \<open>int\<close> is read back.\<close>

lemma parse_int_dec:
  assumes "int n \<le> INT_MAX" and "rest = [] \<or> \<not> ascii_digit (hd rest)"
  shows "parse_nonnegative_int (dec n @ rest) e = (int n, rest)"
proof -
  have "length (dec n) \<le> 10"
  proof (rule ccontr)
    assume long: "\<not> ?thesis"
    then have "10 ^ 10 \<le> (10::nat) ^ (length (dec n) - 1)" by (intro power_increasing) simp_all
    moreover have "10 ^ (length (dec n) - 1) \<le> n"
      using length_dec_bounds [of n] long by (cases "10 \<le> n") (auto simp: dec.simps [of n])
    ultimately show False using assms(1) by (simp add: INT_MAX_def)
  qed
  then show ?thesis using parse_int_exact [OF dec_digits _ assms(2), of n e] assms(1) by simp
qed

section \<open>Printing a specification\<close>

text \<open>
  The specifications in the grammar \<open>[[fill]align][sign]["#"]["0"][width]["." precision]["L"][type]\<close>, without
  references to arguments. \<open>type_char\<close> is the letter of a presentation type.
\<close>

definition type_char :: "fmt_type \<Rightarrow> pres_type \<Rightarrow> bool \<Rightarrow> string" where
  "type_char t p up =
     (if p = 0 then []
      else if is_integral_type t then
        (if p = pres_dec then ''d'' else if p = pres_hex then (if up then ''X'' else ''x'') else if p = pres_oct then ''o''
         else if p = pres_bin then (if up then ''B'' else ''b'') else if p = pres_chr then ''c''
         else if p = pres_string then ''s'' else ''?'')
      else if is_arithmetic_type t then
        (if p = pres_exp then (if up then ''E'' else ''e'') else if p = pres_fixed then (if up then ''F'' else ''f'')
         else if p = pres_general then (if up then ''G'' else ''g'') else (if up then ''A'' else ''a''))
      else if p = pres_debug then ''?'' else if p = pres_string then ''s'' else ''p'')"

text \<open>Which presentation types, with which upper case, a type of arguments has.\<close>

definition pres_ok :: "fmt_type \<Rightarrow> pres_type \<Rightarrow> bool \<Rightarrow> bool" where
  "pres_ok t p up \<longleftrightarrow>
     (if is_integral_type t then
        (p = 0 \<and> \<not> up \<or> p \<in> {pres_dec, pres_oct} \<and> \<not> up \<or> p \<in> {pres_hex, pres_bin} \<or>
         p = pres_chr \<and> \<not> up \<and> t \<noteq> Bool_type \<or> p = pres_string \<and> \<not> up \<and> t = Bool_type \<or>
         p = pres_debug \<and> \<not> up \<and> t = Char_type)
      else if is_arithmetic_type t then p = 0 \<and> \<not> up \<or> p \<in> {pres_exp, pres_fixed, pres_general, pres_hexfloat}
      else \<not> up \<and> (p = 0 \<or> t \<in> {Cstring_type, String_type} \<and> p \<in> {pres_string, pres_debug} \<or>
             t \<in> {Cstring_type, Pointer_type} \<and> p = pres_pointer))"

definition align_char :: "align_t \<Rightarrow> char" where
  "align_char a = (case a of Align_left \<Rightarrow> CHR ''<'' | Align_right \<Rightarrow> CHR ''>'' | _ \<Rightarrow> CHR ''^'')"

definition show_align :: "format_specs \<Rightarrow> string" where
  "show_align sp = (if sp_align sp \<in> {No_align, Align_numeric} then [] else sp_fill sp @ [align_char (sp_align sp)])"

definition show_sign :: "sign \<Rightarrow> string" where
  "show_sign sg = (case sg of No_sign \<Rightarrow> [] | Minus \<Rightarrow> ''-'' | Plus \<Rightarrow> ''+'' | Space \<Rightarrow> '' '')"

definition show_rest :: "fmt_type \<Rightarrow> format_specs \<Rightarrow> string" where
  "show_rest t sp =
     show_sign (sp_sign sp) @
     (if sp_alt sp then ''#'' else []) @
     (if sp_align sp = Align_numeric then ''0'' else []) @
     (if sp_width sp = 0 then [] else dec (nat (sp_width sp))) @
     (if sp_precision sp = - 1 then [] else CHR ''.'' # dec (nat (sp_precision sp))) @
     (if sp_localized sp then ''L'' else []) @
     type_char t (sp_type sp) (sp_upper sp)"

definition show_specs :: "fmt_type \<Rightarrow> format_specs \<Rightarrow> string" where
  "show_specs t sp = show_align sp @ show_rest t sp"

text \<open>What each type of arguments allows.\<close>

definition fill_ok :: "string \<Rightarrow> bool" where
  "fill_ok f \<longleftrightarrow> (\<exists>cp. scalar cp \<and> f = utf8 cp \<and> cp \<noteq> 0x7b \<and> cp \<noteq> 0x7d)"

definition specs_ok :: "fmt_type \<Rightarrow> format_specs \<Rightarrow> bool" where
  "specs_ok t sp \<longleftrightarrow>
     t \<noteq> None_type \<and>
     (case sp_align sp of
        No_align \<Rightarrow> sp_fill sp = '' '' | Align_numeric \<Rightarrow> sp_fill sp = ''0'' \<and> is_arithmetic_type t | _ \<Rightarrow> fill_ok (sp_fill sp)) \<and>
     (sp_sign sp \<noteq> No_sign \<longrightarrow> in_types t (sint_set OR float_set)) \<and>
     (sp_alt sp \<or> sp_localized sp \<longrightarrow> is_arithmetic_type t) \<and>
     0 \<le> sp_width sp \<and> sp_width sp \<le> INT_MAX \<and>
     - 1 \<le> sp_precision sp \<and> sp_precision sp \<le> INT_MAX \<and>
     (sp_precision sp \<noteq> - 1 \<longrightarrow> in_types t (float_set OR string_set OR cstring_set)) \<and>
     sp_width_ref sp = No_ref \<and> sp_precision_ref sp = No_ref \<and>
     pres_ok t (sp_type sp) (sp_upper sp)"

section \<open>Reading it back, piece by piece\<close>

lemma specs_loop_Cons:
  "specs_loop t st (c # s) sp ctx =
     and_then (specs_round t c st (c # s) sp ctx) (\<lambda>r.
       case r of Return rest sp ctx \<Rightarrow> Inr (rest, sp, ctx) | Go_on st rest sp ctx \<Rightarrow> specs_loop t st rest sp ctx)"
  by (subst specs_loop.simps) simp

lemma loop_sign:
  "st < st_sign \<Longrightarrow> t \<noteq> None_type \<Longrightarrow> sg \<noteq> No_sign \<Longrightarrow> in_types t (sint_set OR float_set) \<Longrightarrow>
     specs_loop t st (show_sign sg @ s) sp ctx = specs_loop t st_sign s (sp\<lparr>sp_sign := sg\<rparr>) ctx"
  by (cases sg) (simp_all add: show_sign_def specs_loop_Cons specs_round_def enter_state_def parse_sign_def)

lemma loop_hash:
  "st < st_hash \<Longrightarrow> t \<noteq> None_type \<Longrightarrow> is_arithmetic_type t \<Longrightarrow>
     specs_loop t st (CHR ''#'' # s) sp ctx = specs_loop t st_hash s (sp\<lparr>sp_alt := True\<rparr>) ctx"
  by (simp add: specs_loop_Cons specs_round_def enter_state_def)

lemma loop_zero:
  "st < st_zero \<Longrightarrow> is_arithmetic_type t \<Longrightarrow> sp_align sp = No_align \<Longrightarrow>
     specs_loop t st (CHR ''0'' # s) sp ctx = specs_loop t st_zero s (sp\<lparr>sp_align := Align_numeric, sp_fill := ''0''\<rparr>) ctx"
  by (simp add: specs_loop_Cons specs_round_def enter_state_def)

lemma digit_cases:
  assumes "ascii_digit c"
  shows "c = CHR ''0'' \<or> c \<in> set ''123456789''"
proof -
  have "{48..<58} = {48, 49, 50, 51, 52, 53, 54, 55, 56, 57 :: nat}"
    by (simp add: upt_rec del: set_upt flip: set_upt)
  moreover have "uchar c \<in> {48..<58}" using assms by (simp add: ascii_digit_def)
  ultimately have "char_of (uchar c) \<in> char_of ` {48, 49, 50, 51, 52, 53, 54, 55, 56, 57 :: nat}" by blast
  then have "c \<in> char_of ` {48, 49, 50, 51, 52, 53, 54, 55, 56, 57 :: nat}" by (simp only: char_of_char)
  then show ?thesis by (simp add: char_of_def bit_0)
qed

lemma loop_width:
  assumes "st < st_width" and "0 < n" and "int n \<le> INT_MAX" and "s = [] \<or> \<not> ascii_digit (hd s)"
  shows "specs_loop t st (dec n @ s) sp ctx = specs_loop t st_width s (sp\<lparr>sp_width := int n\<rparr>) ctx"
proof -
  have d: "parse_dynamic_spec (dec n @ s) (sp_width sp) (sp_width_ref sp) ctx = Inr (int n, sp_width_ref sp, s, ctx)"
    using hd_dec(1) [of n] parse_int_dec [OF assms(3,4), of "- 1"] by (simp add: parse_dynamic_spec_def)
  have h: "hd (dec n @ s) \<in> set ''123456789''" using digit_cases [OF hd_dec(1) [of n]] hd_dec(2) [OF assms(2)] by simp
  have "specs_round t (hd (dec n @ s)) st (dec n @ s) sp ctx = Inr (Go_on st_width s (sp\<lparr>sp_width := int n\<rparr>) ctx)"
  proof -
    have "specs_round t c st (dec n @ s) sp ctx = Inr (Go_on st_width s (sp\<lparr>sp_width := int n\<rparr>) ctx)"
      if "c \<in> set ''123456789''" for c
      using that unfolding list.set by (elim insertE emptyE; simp add: specs_round_def enter_state_def d not_le [THEN iffD2, OF assms(1)])
    from this [OF h] show ?thesis .
  qed
  then show ?thesis by (subst specs_loop.simps) simp
qed

lemma loop_precision:
  assumes "st < st_precision" and "t \<noteq> None_type" and "in_types t (float_set OR string_set OR cstring_set)"
    and "int n \<le> INT_MAX" and "s = [] \<or> \<not> ascii_digit (hd s)"
  shows "specs_loop t st (CHR ''.'' # dec n @ s) sp ctx = specs_loop t st_precision s (sp\<lparr>sp_precision := int n\<rparr>) ctx"
proof -
  have "hd (dec n @ s) \<noteq> CHR ''}''" using hd_dec(1) [of n] by (auto simp: ascii_digit_def)
  then have "parse_precision (CHR ''.'' # dec n @ s) (sp_precision sp) (sp_precision_ref sp) ctx =
      Inr (int n, sp_precision_ref sp, s, ctx)"
    using hd_dec(1) [of n] parse_int_dec [OF assms(4,5), of "- 1"] by (simp add: parse_precision_def parse_dynamic_spec_def)
  then show ?thesis using assms(1-3) by (simp add: specs_loop_Cons specs_round_def enter_state_def)
qed

lemma loop_locale:
  "st < st_locale \<Longrightarrow> t \<noteq> None_type \<Longrightarrow> is_arithmetic_type t \<Longrightarrow>
     specs_loop t st (CHR ''L'' # s) sp ctx = specs_loop t st_locale s (sp\<lparr>sp_localized := True\<rparr>) ctx"
  by (simp add: specs_loop_Cons specs_round_def enter_state_def)

lemma in_integral: "in_types t integral_set \<longleftrightarrow> is_integral_type t"
  by (cases t) (simp_all add: integral_set_def set_defs is_integral_type_def)

lemma in_float: "in_types t float_set \<longleftrightarrow> is_arithmetic_type t \<and> \<not> is_integral_type t"
  by (cases t) (simp_all add: set_defs is_integral_type_def is_arithmetic_type_def)

text \<open>The rounds that read a presentation type.\<close>

lemma specs_round_type:
  "specs_round t (CHR ''d'') st s sp ctx = parse_presentation_type t pres_dec integral_set s sp ctx"
  "specs_round t (CHR ''X'') st s sp ctx = parse_presentation_type t pres_hex integral_set s (sp\<lparr>sp_upper := True\<rparr>) ctx"
  "specs_round t (CHR ''x'') st s sp ctx = parse_presentation_type t pres_hex integral_set s sp ctx"
  "specs_round t (CHR ''o'') st s sp ctx = parse_presentation_type t pres_oct integral_set s sp ctx"
  "specs_round t (CHR ''B'') st s sp ctx = parse_presentation_type t pres_bin integral_set s (sp\<lparr>sp_upper := True\<rparr>) ctx"
  "specs_round t (CHR ''b'') st s sp ctx = parse_presentation_type t pres_bin integral_set s sp ctx"
  "specs_round t (CHR ''E'') st s sp ctx = parse_presentation_type t pres_exp float_set s (sp\<lparr>sp_upper := True\<rparr>) ctx"
  "specs_round t (CHR ''e'') st s sp ctx = parse_presentation_type t pres_exp float_set s sp ctx"
  "specs_round t (CHR ''F'') st s sp ctx = parse_presentation_type t pres_fixed float_set s (sp\<lparr>sp_upper := True\<rparr>) ctx"
  "specs_round t (CHR ''f'') st s sp ctx = parse_presentation_type t pres_fixed float_set s sp ctx"
  "specs_round t (CHR ''G'') st s sp ctx = parse_presentation_type t pres_general float_set s (sp\<lparr>sp_upper := True\<rparr>) ctx"
  "specs_round t (CHR ''g'') st s sp ctx = parse_presentation_type t pres_general float_set s sp ctx"
  "specs_round t (CHR ''A'') st s sp ctx = parse_presentation_type t pres_hexfloat float_set s (sp\<lparr>sp_upper := True\<rparr>) ctx"
  "specs_round t (CHR ''a'') st s sp ctx = parse_presentation_type t pres_hexfloat float_set s sp ctx"
  "specs_round t (CHR ''s'') st s sp ctx = parse_presentation_type t pres_string (bool_set OR string_set OR cstring_set) s sp ctx"
  "specs_round t (CHR ''p'') st s sp ctx = parse_presentation_type t pres_pointer (pointer_set OR cstring_set) s sp ctx"
  "specs_round t (CHR ''?'') st s sp ctx = parse_presentation_type t pres_debug (char_set OR string_set OR cstring_set) s sp ctx"
  "specs_round t (CHR ''c'') st s sp ctx =
     (if t = Bool_type then Inl ''invalid format specifier'' else parse_presentation_type t pres_chr integral_set s sp ctx)"
  "specs_round t (CHR ''}'') st s sp ctx = Inr (Return s sp ctx)"
  by (simp_all add: specs_round_def)

lemma loop_type:
  assumes "pres_ok t p up" and "t \<noteq> None_type" and "sp_type sp = 0" and "\<not> sp_upper sp"
  shows "specs_loop t st (type_char t p up @ CHR ''}'' # s) sp ctx = Inr (CHR ''}'' # s, sp\<lparr>sp_type := p, sp_upper := up\<rparr>, ctx)"
proof -
  note defs = type_char_def specs_loop_Cons specs_round_type parse_presentation_type_def
  have z: "sp\<lparr>sp_type := 0, sp_upper := False\<rparr> = sp" using assms(3,4) by simp
  consider "p = 0" "\<not> up" | "p \<noteq> 0" "is_integral_type t" | "p \<noteq> 0" "\<not> is_integral_type t" "is_arithmetic_type t"
    | "p \<noteq> 0" "\<not> is_integral_type t" "\<not> is_arithmetic_type t"
    using assms(1) by (cases "p = 0") (auto simp: pres_ok_def split: if_splits)
  then show ?thesis
  proof cases
    case 1
    then show ?thesis using z by (simp add: defs)
  next
    case 2
    then have "p \<in> {pres_dec, pres_oct} \<and> \<not> up \<or> p \<in> {pres_hex, pres_bin} \<or> p = pres_chr \<and> \<not> up \<and> t \<noteq> Bool_type \<or>
        p = pres_string \<and> \<not> up \<and> t = Bool_type \<or> p = pres_debug \<and> \<not> up \<and> t = Char_type"
      using assms(1) by (simp add: pres_ok_def)
    then show ?thesis using 2 assms(4)
      by (elim disjE conjE insertE emptyE; cases up; simp add: defs in_integral; simp add: set_defs)
  next
    case 3
    then have "p \<in> {pres_exp, pres_fixed, pres_general, pres_hexfloat}" using assms(1) by (simp add: pres_ok_def)
    then show ?thesis using 3 assms(4)
      by (elim insertE emptyE; cases up; simp add: defs in_float)
  next
    case 4
    then have "\<not> up \<and> (t \<in> {Cstring_type, String_type} \<and> p \<in> {pres_string, pres_debug} \<or>
        t \<in> {Cstring_type, Pointer_type} \<and> p = pres_pointer)"
      using assms(1) by (simp add: pres_ok_def)
    then show ?thesis using 4 assms(4)
      by (elim disjE conjE insertE emptyE; simp add: defs; simp add: set_defs)
  qed
qed

text \<open>A piece that may be missing; \<open>k\<close> is its state.\<close>

lemma step_sign:
  assumes "st < st_sign" and "t \<noteq> None_type" and "sg \<noteq> No_sign \<longrightarrow> in_types t (sint_set OR float_set)" and "sp_sign sp = No_sign"
  shows "\<exists>st' < st_hash. specs_loop t st (show_sign sg @ s) sp ctx = specs_loop t st' s (sp\<lparr>sp_sign := sg\<rparr>) ctx"
proof (cases "sg = No_sign")
  case True
  then have "sp\<lparr>sp_sign := sg\<rparr> = sp" using assms(4) by simp
  then show ?thesis using True assms(1) by (intro exI [of _ st]) (simp add: show_sign_def)
next
  case False
  then show ?thesis using loop_sign [of st t sg s sp ctx] assms by (intro exI [of _ st_sign]) simp
qed

lemma step_hash:
  assumes "st < st_hash" and "t \<noteq> None_type" and "b \<longrightarrow> is_arithmetic_type t" and "\<not> sp_alt sp"
  shows "\<exists>st' < st_zero. specs_loop t st ((if b then ''#'' else []) @ s) sp ctx = specs_loop t st' s (sp\<lparr>sp_alt := b\<rparr>) ctx"
proof (cases b)
  case True
  then show ?thesis using loop_hash [of st t s sp ctx] assms by (intro exI [of _ st_hash]) simp
next
  case False
  then have "sp\<lparr>sp_alt := b\<rparr> = sp" using assms(4) by simp
  then show ?thesis using False assms(1) by (intro exI [of _ st]) simp
qed

lemma step_zero:
  assumes "st < st_zero" and "a = Align_numeric \<longrightarrow> is_arithmetic_type t \<and> sp_align sp = No_align"
  shows "\<exists>st' < st_width. specs_loop t st ((if a = Align_numeric then ''0'' else []) @ s) sp ctx =
     specs_loop t st' s (if a = Align_numeric then sp\<lparr>sp_align := Align_numeric, sp_fill := ''0''\<rparr> else sp) ctx"
  using loop_zero [of st t sp s ctx] assms by (cases "a = Align_numeric") (auto intro: exI [of _ st_zero] exI [of _ st])

lemma step_width:
  assumes "st < st_width" and "0 \<le> w" and "w \<le> INT_MAX" and "sp_width sp = 0" and "s = [] \<or> \<not> ascii_digit (hd s)"
  shows "\<exists>st' < st_precision. specs_loop t st ((if w = 0 then [] else dec (nat w)) @ s) sp ctx =
     specs_loop t st' s (sp\<lparr>sp_width := w\<rparr>) ctx"
proof (cases "w = 0")
  case True
  then have "sp\<lparr>sp_width := w\<rparr> = sp" using assms(4) by simp
  then show ?thesis using True assms(1) by (intro exI [of _ st]) simp
next
  case False
  then show ?thesis using loop_width [of st "nat w" s t sp ctx] assms by (intro exI [of _ st_width]) simp
qed

lemma step_precision:
  assumes "st < st_precision" and "t \<noteq> None_type" and "p \<noteq> - 1 \<longrightarrow> in_types t (float_set OR string_set OR cstring_set)"
    and "- 1 \<le> p" and "p \<le> INT_MAX" and "sp_precision sp = - 1" and "s = [] \<or> \<not> ascii_digit (hd s)"
  shows "\<exists>st' < st_locale. specs_loop t st ((if p = - 1 then [] else CHR ''.'' # dec (nat p)) @ s) sp ctx =
     specs_loop t st' s (sp\<lparr>sp_precision := p\<rparr>) ctx"
proof (cases "p = - 1")
  case True
  then have "sp\<lparr>sp_precision := p\<rparr> = sp" using assms(6) by simp
  then show ?thesis using True assms(1) by (intro exI [of _ st]) simp
next
  case False
  then show ?thesis using loop_precision [of st t "nat p" s sp ctx] assms by (intro exI [of _ st_precision]) simp
qed

lemma step_locale:
  assumes "st < st_locale" and "t \<noteq> None_type" and "b \<longrightarrow> is_arithmetic_type t" and "\<not> sp_localized sp"
  shows "\<exists>st'. specs_loop t st ((if b then ''L'' else []) @ s) sp ctx = specs_loop t st' s (sp\<lparr>sp_localized := b\<rparr>) ctx"
proof (cases b)
  case True
  then show ?thesis using loop_locale [of st t s sp ctx] assms by (intro exI [of _ st_locale]) simp
next
  case False
  then have "sp\<lparr>sp_localized := b\<rparr> = sp" using assms(4) by simp
  then show ?thesis using False by (intro exI [of _ st]) simp
qed

lemma type_char_head: "\<not> ascii_digit (hd (type_char t p up @ CHR ''}'' # s))"
  by (auto simp: type_char_def ascii_digit_def)

lemma show_tail_head:
  "\<not> ascii_digit (hd ((if b then ''L'' else []) @ type_char t p up @ CHR ''}'' # s))"
  "\<not> ascii_digit (hd ((if q = - 1 then [] else CHR ''.'' # ds) @ (if b then ''L'' else []) @ type_char t p up @ CHR ''}'' # s))"
  using type_char_head [of t p up s] by (auto simp: ascii_digit_def)

text \<open>Everything after the alignment is read back.\<close>

lemma loop_rest:
  assumes ok: "specs_ok t sp" and st: "st < st_sign"
    and sp0: "sp0 = default_specs\<lparr>sp_fill := f, sp_align := a\<rparr>"
    and a: "if sp_align sp = Align_numeric then a = No_align else a = sp_align sp \<and> f = sp_fill sp"
  shows "specs_loop t st (show_rest t sp @ CHR ''}'' # s) sp0 ctx = Inr (CHR ''}'' # s, sp, ctx)"
proof -
  have t: "t \<noteq> None_type" using ok by (simp add: specs_ok_def)
  let ?ty = "type_char t (sp_type sp) (sp_upper sp) @ CHR ''}'' # s"
  let ?l = "(if sp_localized sp then ''L'' else []) @ ?ty"
  let ?p = "(if sp_precision sp = - 1 then [] else CHR ''.'' # dec (nat (sp_precision sp))) @ ?l"
  let ?w = "(if sp_width sp = 0 then [] else dec (nat (sp_width sp))) @ ?p"
  let ?z = "(if sp_align sp = Align_numeric then ''0'' else []) @ ?w"
  let ?h = "(if sp_alt sp then ''#'' else []) @ ?z"
  let ?s1 = "sp0\<lparr>sp_sign := sp_sign sp\<rparr>"
  let ?s2 = "?s1\<lparr>sp_alt := sp_alt sp\<rparr>"
  let ?s3 = "if sp_align sp = Align_numeric then ?s2\<lparr>sp_align := Align_numeric, sp_fill := ''0''\<rparr> else ?s2"
  let ?s4 = "?s3\<lparr>sp_width := sp_width sp\<rparr>"
  let ?s5 = "?s4\<lparr>sp_precision := sp_precision sp\<rparr>"
  let ?s6 = "?s5\<lparr>sp_localized := sp_localized sp\<rparr>"
  have o: "sp_sign sp \<noteq> No_sign \<longrightarrow> in_types t (sint_set OR float_set)" "sp_alt sp \<longrightarrow> is_arithmetic_type t"
    "sp_localized sp \<longrightarrow> is_arithmetic_type t" "0 \<le> sp_width sp" "sp_width sp \<le> INT_MAX"
    "sp_precision sp \<noteq> - 1 \<longrightarrow> in_types t (float_set OR string_set OR cstring_set)"
    "- 1 \<le> sp_precision sp" "sp_precision sp \<le> INT_MAX"
    using ok unfolding specs_ok_def by blast+
  have z: "sp_align sp = Align_numeric \<longrightarrow> is_arithmetic_type t \<and> sp_align ?s2 = No_align"
    using ok a by (cases "sp_align sp") (simp_all add: specs_ok_def sp0)
  have d: "sp_sign sp0 = No_sign" "\<not> sp_alt ?s1" "sp_width ?s3 = 0" "sp_precision ?s4 = - 1" "\<not> sp_localized ?s5"
    by (simp_all add: sp0 default_specs_def)
  obtain i where i: "i < st_hash" "specs_loop t st (show_sign (sp_sign sp) @ ?h) sp0 ctx = specs_loop t i ?h ?s1 ctx"
    using step_sign [OF st t o(1) d(1)] by blast
  obtain j where j: "j < st_zero" "specs_loop t i ?h ?s1 ctx = specs_loop t j ?z ?s2 ctx"
    using step_hash [OF i(1) t o(2) d(2)] by blast
  obtain k where k: "k < st_width" "specs_loop t j ?z ?s2 ctx = specs_loop t k ?w ?s3 ctx"
    using step_zero [OF j(1) z] by blast
  obtain l where l: "l < st_precision" "specs_loop t k ?w ?s3 ctx = specs_loop t l ?p ?s4 ctx"
    using step_width [OF k(1) o(4,5) d(3) disjI2 [OF show_tail_head(2)]] by blast
  obtain m where m: "m < st_locale" "specs_loop t l ?p ?s4 ctx = specs_loop t m ?l ?s5 ctx"
    using step_precision [OF l(1) t o(6-8) d(4) disjI2 [OF show_tail_head(1)]] by blast
  obtain n where n: "specs_loop t m ?l ?s5 ctx = specs_loop t n ?ty ?s6 ctx"
    using step_locale [OF m(1) t o(3) d(5)] by blast
  have "specs_loop t n ?ty ?s6 ctx = Inr (CHR ''}'' # s, ?s6\<lparr>sp_type := sp_type sp, sp_upper := sp_upper sp\<rparr>, ctx)"
    using ok by (intro loop_type t) (auto simp: specs_ok_def sp0 default_specs_def)
  moreover have "?s6\<lparr>sp_type := sp_type sp, sp_upper := sp_upper sp\<rparr> = sp"
    using ok a by (cases sp) (auto simp: specs_ok_def sp0 default_specs_def)
  ultimately show ?thesis using i(2) j(2) k(2) l(2) m(2) n by (simp add: show_rest_def)
qed

section \<open>The alignment\<close>

lemma specs_round_high:
  assumes "128 \<le> uchar c \<or> c = CHR 0x00"
  shows "specs_round t c st s sp ctx = parse_fill st s sp ctx"
proof -
  have "c \<noteq> d" if "0 < uchar d \<and> uchar d < 128" for d using assms that by auto
  then have "c \<notin> set ''<>^+- #0123456789{.LdXxoBbEeFfGgAacsp?}''" by auto
  then show ?thesis unfolding specs_round_def Let_def by simp
qed

lemma length_utf8_lead:
  assumes "scalar cp"
  shows "code_point_length (hd (utf8 cp)) = length (utf8 cp)" and "cp < 128 \<or> 128 \<le> uchar (hd (utf8 cp))"
    and "length (utf8 cp) = 1 \<longleftrightarrow> cp < 128"
proof -
  have two: "i \<in> {24, 25, 26, 27} \<Longrightarrow> drop_bit (2 * i) 0x3a55000000000000 AND 0x3 = (1 :: nat)" for i
    by (auto simp: drop_bit_eq_div and_low)
  have three: "i \<in> {28, 29} \<Longrightarrow> drop_bit (2 * i) 0x3a55000000000000 AND 0x3 = (2 :: nat)" for i
    by (auto simp: drop_bit_eq_div and_low)
  have four: "drop_bit (2 * 30) 0x3a55000000000000 AND 0x3 = (3 :: nat)" by (simp add: drop_bit_eq_div and_low)
  consider "cp < 0x80" | "0x80 \<le> cp" "cp < 0x800" | "0x800 \<le> cp" "cp < 0x10000" | "0x10000 \<le> cp" "cp < 0x110000"
    using assms unfolding scalar_def by linarith
  then have "code_point_length (hd (utf8 cp)) = length (utf8 cp) \<and> (cp < 128 \<or> 128 \<le> uchar (hd (utf8 cp))) \<and>
      (length (utf8 cp) = 1 \<longleftrightarrow> cp < 128)"
  proof cases
    case 1
    then show ?thesis using code_point_length_ascii [of "char_of cp"] by (simp add: utf8_def)
  next
    case 2
    then have u: "uchar (hd (utf8 cp)) = 192 + cp div 64" and l: "length (utf8 cp) = 2" by (auto simp: utf8_def)
    have "(192 + cp div 64) div 8 \<in> {24, 25, 26, 27}" using 2 by auto
    from two [OF this] show ?thesis using 2 l by (simp add: code_point_length_def u drop_bit_eq_div [of 3])
  next
    case 3
    then have u: "uchar (hd (utf8 cp)) = 224 + cp div 4096" and l: "length (utf8 cp) = 3" by (auto simp: utf8_def)
    have "(224 + cp div 4096) div 8 \<in> {28, 29}" using 3 by auto
    from three [OF this] show ?thesis using 3 l by (simp add: code_point_length_def u drop_bit_eq_div [of 3])
  next
    case 4
    then have u: "uchar (hd (utf8 cp)) = 240 + cp div 262144" and l: "length (utf8 cp) = 4" by (auto simp: utf8_def)
    have "(240 + cp div 262144) div 8 = 30" using 4 by auto
    with four show ?thesis using 4 l by (simp add: code_point_length_def u drop_bit_eq_div [of 3])
  qed
  then show "code_point_length (hd (utf8 cp)) = length (utf8 cp)" "cp < 128 \<or> 128 \<le> uchar (hd (utf8 cp))"
    "length (utf8 cp) = 1 \<longleftrightarrow> cp < 128"
    by blast+
qed

lemma parse_align_char: "a \<notin> {No_align, Align_numeric} \<Longrightarrow> parse_align (align_char a) = a"
  by (cases a) (simp_all add: align_char_def)

text \<open>An explicit alignment: the first round reads the fill and the alignment.\<close>

lemma first_round_fill:
  assumes "fill_ok f" and "a \<notin> {No_align, Align_numeric}"
  shows "parse_format_specs (f @ align_char a # s) t ctx =
     specs_loop t st_align s (default_specs\<lparr>sp_fill := f, sp_align := a\<rparr>) ctx"
proof -
  obtain cp where cp: "scalar cp" "f = utf8 cp" "cp \<noteq> 0x7b" "cp \<noteq> 0x7d" using assms(1) by (auto simp: fill_ok_def)
  have len: "code_point_length (hd f) = length f" "f \<noteq> []" using length_utf8_lead(1) [OF cp(1)] cp(2) by simp_all
  have c: "128 \<le> uchar (first_char (f @ align_char a # s)) \<or> first_char (f @ align_char a # s) = CHR 0x00"
  proof (cases "cp < 128")
    case True
    then have "length f = 1" using length_utf8_lead(3) [OF cp(1)] cp(2) by simp
    then show ?thesis using parse_align_char [OF assms(2)] assms(2) by (auto simp: first_char_def nth_append)
  next
    case False
    then have "128 \<le> uchar (hd f)" using length_utf8_lead(2) [OF cp(1)] cp(2) by simp
    then show ?thesis using len(2) by (simp add: first_char_def)
  qed
  have hd: "hd f \<noteq> CHR ''}''" "hd f \<noteq> CHR ''{''"
  proof -
    have "uchar (hd f) = cp" if "cp < 128" using that cp(2) by (simp add: utf8_def)
    then have "uchar (hd f) \<noteq> 0x7b" "uchar (hd f) \<noteq> 0x7d" using length_utf8_lead(2) [OF cp(1)] cp(2-4) by auto
    then show "hd f \<noteq> CHR ''}''" "hd f \<noteq> CHR ''{''" by auto
  qed
  have "parse_fill st_start (f @ align_char a # s) default_specs ctx =
      Inr (Go_on st_align s (default_specs\<lparr>sp_fill := f, sp_align := a\<rparr>) ctx)"
    using len hd parse_align_char [OF assms(2)] assms(2) by (auto simp: parse_fill_def enter_state_def Let_def)
  then show ?thesis using specs_round_high [OF c] by (simp add: parse_format_specs_def)
qed

text \<open>No explicit alignment: the first round is one of the loop.\<close>

lemma dec_no_align: "set (dec n) \<inter> set ''<>^'' = {}"
  using dec_digits [of n] by (auto simp: ascii_digit_def)

lemma show_rest_no_align: "c \<in> set (show_rest t sp) \<Longrightarrow> c \<notin> set ''<>^''"
proof -
  let ?a = "set ''<>^''"
  have "set (type_char t (sp_type sp) (sp_upper sp)) \<inter> ?a = {}" by (simp add: type_char_def)
  moreover have "set (show_sign (sp_sign sp)) \<inter> ?a = {}" by (simp add: show_sign_def split: sign.split)
  moreover have "set (if sp_alt sp then ''#'' else []) \<inter> ?a = {}" by simp
  moreover have "set (if sp_align sp = Align_numeric then ''0'' else []) \<inter> ?a = {}" by simp
  moreover have "set (if sp_width sp = 0 then [] else dec (nat (sp_width sp))) \<inter> ?a = {}" using dec_no_align by simp
  moreover have "set (if sp_precision sp = - 1 then [] else CHR ''.'' # dec (nat (sp_precision sp))) \<inter> ?a = {}"
    using dec_no_align [of "nat (sp_precision sp)"] by simp
  moreover have "set (if sp_localized sp then ''L'' else []) \<inter> ?a = {}" by simp
  ultimately have "set (show_rest t sp) \<inter> ?a = {}" unfolding show_rest_def set_append Int_Un_distrib2 by blast
  then show "c \<in> set (show_rest t sp) \<Longrightarrow> c \<notin> ?a" by blast
qed

lemma first_round_none:
  assumes "\<And>c. c \<in> set r \<Longrightarrow> c \<notin> set ''<>^''"
  shows "parse_format_specs (r @ CHR ''}'' # s) t ctx = specs_loop t st_start (r @ CHR ''}'' # s) default_specs ctx"
proof (cases r)
  case Nil
  have "specs_round t c st_start (CHR ''}'' # s) default_specs ctx = Inr (Return (CHR ''}'' # s) default_specs ctx)"
    if "c = CHR ''}'' \<or> c = CHR 0x00" for c
    using that specs_round_high [of c] by (elim disjE) (simp_all add: specs_round_type parse_fill_def)
  then show ?thesis using Nil by (simp add: parse_format_specs_def specs_loop_Cons first_char_def)
next
  case (Cons c cs)
  have "parse_align ((r @ CHR ''}'' # s) ! 1) = No_align"
  proof (cases cs)
    case Nil
    then show ?thesis using Cons by simp
  next
    case (Cons d ds)
    then have "d \<notin> set ''<>^''" using assms [of d] \<open>r = c # cs\<close> by simp
    then show ?thesis using Cons \<open>r = c # cs\<close> by simp
  qed
  then have "first_char (r @ CHR ''}'' # s) = c" using Cons by (simp add: first_char_def)
  then show ?thesis using Cons by (simp add: parse_format_specs_def specs_loop_Cons)
qed

section \<open>Round trip\<close>

text \<open>
  Every format specification a type of arguments allows, with any Unicode character but a brace as
  its fill and any width and precision of type \<open>int\<close>, is read back from its text exactly, up to the
  closing brace, whatever follows it.
\<close>

lemma specs_roundtrip:
  assumes "specs_ok t sp"
  shows "parse_format_specs (show_specs t sp @ CHR ''}'' # s) t ctx = Inr (CHR ''}'' # s, sp, ctx)"
proof (cases "sp_align sp \<in> {No_align, Align_numeric}")
  case True
  have d: "default_specs = default_specs\<lparr>sp_fill := '' '', sp_align := No_align\<rparr>" by (simp add: default_specs_def)
  have "specs_loop t st_start (show_rest t sp @ CHR ''}'' # s) default_specs ctx = Inr (CHR ''}'' # s, sp, ctx)"
    using True assms by (intro loop_rest [OF assms _ d]) (auto simp: specs_ok_def)
  then show ?thesis using True first_round_none [OF show_rest_no_align] by (simp add: show_specs_def show_align_def)
next
  case False
  then have f: "fill_ok (sp_fill sp)" using assms by (auto simp: specs_ok_def split: align_t.splits)
  have "specs_loop t st_align (show_rest t sp @ CHR ''}'' # s) (default_specs\<lparr>sp_fill := sp_fill sp, sp_align := sp_align sp\<rparr>) ctx =
      Inr (CHR ''}'' # s, sp, ctx)"
    using False by (intro loop_rest [OF assms _ refl]) auto
  then show ?thesis using False first_round_fill [OF f] by (simp add: show_specs_def show_align_def)
qed

end
