(* ===== verification/Fmt_Write.thy ===== *)
theory Fmt_Write
  imports Fmt_Specs
begin

text \<open>
  Writing integers, booleans, characters, strings and pointers according to a format specification:
  the \<open>write\<close> functions of the bundled \<^verbatim>\<open>fmt/format.h\<close>. They append to the output; here they give
  the text that is appended. Widths and sizes are natural numbers below \<open>2 ^ 32\<close>.
\<close>

section \<open>Padding\<close>

text \<open>The tables of shifts; the entry of \<open>Align_numeric\<close> is the zero that ends the string literal.\<close>

fun align_index :: "align_t \<Rightarrow> nat" where
  "align_index No_align = 0"
| "align_index Align_left = 1"
| "align_index Align_right = 2"
| "align_index Align_center = 3"
| "align_index Align_numeric = 4"

definition shifts :: "align_t \<Rightarrow> nat list" where
  "shifts dflt = (if dflt = Align_left then [0x1f, 0x1f, 0x00, 0x01, 0x00] else [0x00, 0x1f, 0x00, 0x01, 0x00])"

definition fill_n :: "nat \<Rightarrow> string \<Rightarrow> string" where
  "fill_n n f = concat (replicate n f)"

definition write_padded :: "align_t \<Rightarrow> format_specs \<Rightarrow> nat \<Rightarrow> string \<Rightarrow> string" where
  "write_padded dflt specs width text =
     (let spec_width = nat (sp_width specs);
          padding = (if spec_width > width then spec_width - width else 0);
          left_padding = drop_bit (shifts dflt ! align_index (sp_align specs)) padding;
          right_padding = padding - left_padding
      in fill_n left_padding (sp_fill specs) @ text @ fill_n right_padding (sp_fill specs))"

definition write_bytes :: "string \<Rightarrow> format_specs \<Rightarrow> string" where
  "write_bytes bytes specs = write_padded Align_left specs (length bytes) bytes"

section \<open>Digits\<close>

lemma drop_bit_smaller: "0 < k \<Longrightarrow> drop_bit k n \<noteq> 0 \<Longrightarrow> drop_bit k n < (n :: nat)"
proof -
  assume k: "0 < k" "drop_bit k n \<noteq> 0"
  then have "0 < n" "1 < (2::nat) ^ k" using one_less_power [of "2::nat" k] by (auto simp: drop_bit_eq_div intro: gr0I)
  then show ?thesis by (simp add: drop_bit_eq_div)
qed

text \<open>\<open>BASE_BITS\<close> is 1, 3 or 4.\<close>

definition base_digit :: "nat \<Rightarrow> bool \<Rightarrow> nat \<Rightarrow> char" where
  "base_digit bits upper d =
     (if bits < 4 then char_of (48 + d)
      else (if upper then ''0123456789ABCDEF'' else ''0123456789abcdef'') ! d)"

function format_uint_loop :: "nat \<Rightarrow> bool \<Rightarrow> nat \<Rightarrow> string \<Rightarrow> string" where
  "format_uint_loop bits upper val buffer =
     (let buffer = base_digit bits upper (val AND (2 ^ bits - 1)) # buffer; val' = drop_bit bits val
      in if bits = 0 \<or> val' = 0 then buffer else format_uint_loop bits upper val' buffer)"
  by pat_completeness auto
termination
  by (relation "measure (\<lambda>(bits, upper, val, buffer). val)") (auto simp: drop_bit_smaller)

declare format_uint_loop.simps [simp del]

text \<open>The digits are written from the end of a zeroed buffer of \<open>num_digits\<close> characters.\<close>

definition format_uint :: "nat \<Rightarrow> nat \<Rightarrow> nat \<Rightarrow> bool \<Rightarrow> string" where
  "format_uint bits val num_digits upper =
     (let digits = format_uint_loop bits upper val []
      in replicate (num_digits - length digits) (CHR 0x00) @ digits)"

function count_loop :: "nat \<Rightarrow> nat \<Rightarrow> nat \<Rightarrow> nat" where
  "count_loop bits m num_digits =
     (let m' = drop_bit bits m in if bits = 0 \<or> m' = 0 then num_digits + 1 else count_loop bits m' (num_digits + 1))"
  by pat_completeness auto
termination
  by (relation "measure (\<lambda>(bits, m, n). m)") (auto simp: drop_bit_smaller)

declare count_loop.simps [simp del]

text \<open>\<open>count_digits<BITS>\<close> on an unsigned type of \<open>w\<close> bits.\<close>

definition count_digits_base :: "nat \<Rightarrow> nat \<Rightarrow> nat \<Rightarrow> nat" where
  "count_digits_base bits w n =
     (if w = 32 then (builtin_clz (word_of_nat n OR 1) XOR 31) div bits + 1 else count_loop bits n 0)"

definition count_digits :: "nat \<Rightarrow> nat \<Rightarrow> nat" where
  "count_digits w n =
     (if w = 32 then do_count_digits32 (word_of_nat n) else do_count_digits64 (word_of_nat n))"

section \<open>Prefixes\<close>

text \<open>A prefix has up to three characters in its lower bytes and their number in the highest.\<close>

definition prefix_append :: "32 word \<Rightarrow> 32 word \<Rightarrow> 32 word" where
  "prefix_append prefix val =
     (let prefix = prefix OR (if prefix \<noteq> 0 then push_bit 8 val else val)
      in prefix + push_bit 24 (1 + (if val > 0xff then 1 else 0)))"

function prefix_loop :: "nat \<Rightarrow> string" where
  "prefix_loop p = (if p = 0 then [] else char_of (p AND 0xff) # prefix_loop (drop_bit 8 p))"
  by pat_completeness auto
termination
  by (relation "measure id") (auto simp: drop_bit_eq_div)

declare prefix_loop.simps [simp del]

definition prefix_text :: "32 word \<Rightarrow> string" where
  "prefix_text prefix = prefix_loop (unat (prefix AND 0xffffff))"

definition prefix_size :: "32 word \<Rightarrow> nat" where
  "prefix_size prefix = unat (drop_bit 24 prefix)"

fun sign_index :: "sign \<Rightarrow> nat" where
  "sign_index No_sign = 0"
| "sign_index Minus = 1"
| "sign_index Plus = 2"
| "sign_index Space = 3"

text \<open>The absolute value in the unsigned type of \<open>w\<close> bits, which wraps around, and the prefix.\<close>

definition make_write_int_arg :: "nat \<Rightarrow> int \<Rightarrow> sign \<Rightarrow> nat \<times> 32 word" where
  "make_write_int_arg w val sign =
     (let abs_value = val mod 2 ^ w
      in if val < 0 then (nat ((0 - abs_value) mod 2 ^ w), 0x01000000 OR 0x2d)
         else (nat abs_value, [0, 0, 0x1000000 OR 0x2b, 0x1000000 OR 0x20] ! sign_index sign))"

section \<open>Integers\<close>

text \<open>\<open>write_int_data\<close>: the size and the number of zeros.\<close>

definition write_int_data :: "nat \<Rightarrow> 32 word \<Rightarrow> format_specs \<Rightarrow> nat \<times> nat" where
  "write_int_data num_digits prefix specs =
     (let size = prefix_size prefix + num_digits
      in if sp_align specs = Align_numeric
         then (let width = nat (sp_width specs) in if width > size then (width, width - size) else (size, 0))
         else if sp_precision specs > int num_digits
         then (prefix_size prefix + nat (sp_precision specs), nat (sp_precision specs - int num_digits))
         else (size, 0))"

definition write_digits :: "nat \<Rightarrow> 32 word \<Rightarrow> format_specs \<Rightarrow> string \<Rightarrow> string" where
  "write_digits num_digits prefix specs digits =
     (if sp_width specs OR (sp_precision specs + 1) = 0
      then (if prefix \<noteq> 0 then prefix_text prefix else []) @ digits
      else let (size, padding) = write_int_data num_digits prefix specs
           in write_padded Align_right specs size (prefix_text prefix @ replicate padding (CHR ''0'') @ digits))"

section \<open>Escapes\<close>

definition write_codepoint :: "nat \<Rightarrow> char \<Rightarrow> nat \<Rightarrow> string" where
  "write_codepoint width prefix cp =
     (let digits = format_uint_loop 4 False cp []
      in CHR 0x5c # prefix # replicate (width - length digits) (CHR ''0'') @ digits)"

text \<open>A code point with its bytes.\<close>

definition write_escaped_cp :: "nat \<Rightarrow> string \<Rightarrow> string" where
  "write_escaped_cp cp sv =
     (if cp = 0x0a then [CHR 0x5c, CHR ''n'']
      else if cp = 0x0d then [CHR 0x5c, CHR ''r'']
      else if cp = 0x09 then [CHR 0x5c, CHR ''t'']
      else if cp = 0x22 \<or> cp = 0x27 \<or> cp = 0x5c then [CHR 0x5c, char_of cp]
      else if cp < 0x100 then write_codepoint 2 (CHR ''x'') cp
      else if cp < 0x10000 then write_codepoint 4 (CHR ''u'') cp
      else if cp < 0x110000 then write_codepoint 8 (CHR ''U'') cp
      else concat (map (\<lambda>c. write_codepoint 2 (CHR ''x'') (uchar c AND 0xff)) sv))"

text \<open>
  \<open>find_escape\<close> looks for the next code point to be escaped; \<open>write_escaped_string\<close> copies what is before it
  and goes on after it.
\<close>

fun find_escape :: "(nat \<times> string) list \<Rightarrow> string \<times> ((nat \<times> string) \<times> (nat \<times> string) list) option" where
  "find_escape [] = ([], None)"
| "find_escape ((cp, sv) # cs) =
     (if needs_escape cp then ([], Some ((cp, sv), cs)) else (let (before, r) = find_escape cs in (sv @ before, r)))"

lemma find_escape_rest: "find_escape cs = (before, Some (x, rest)) \<Longrightarrow> length rest < length cs"
  by (induction cs arbitrary: before) (auto simp: less_SucI split: if_splits prod.splits)

function escaped_loop :: "(nat \<times> string) list \<Rightarrow> string" where
  "escaped_loop cs =
     (case find_escape cs of
        (before, None) \<Rightarrow> before
      | (before, Some ((cp, sv), rest)) \<Rightarrow> before @ write_escaped_cp cp sv @ (if rest = [] then [] else escaped_loop rest))"
  by pat_completeness auto
termination
  by (relation "measure length") (auto dest: find_escape_rest [OF sym])

declare escaped_loop.simps [simp del]

definition write_escaped_string :: "string \<Rightarrow> string" where
  "write_escaped_string str = CHR 0x22 # escaped_loop (for_each_codepoint str) @ [CHR 0x22]"

text \<open>A \<open>char\<close> is signed: its conversion to \<open>uint32_t\<close> extends the sign.\<close>

definition char_code_point :: "char \<Rightarrow> nat" where
  "char_code_point c = (if uchar c < 128 then uchar c else 2 ^ 32 - 256 + uchar c)"

definition write_escaped_char :: "char \<Rightarrow> string" where
  "write_escaped_char v =
     CHR 0x27 #
     (if needs_escape (char_code_point v) \<and> v \<noteq> CHR 0x22 \<or> v = CHR 0x27
      then write_escaped_cp (char_code_point v) [v] else [v]) @
     [CHR 0x27]"

definition write_char :: "char \<Rightarrow> format_specs \<Rightarrow> string" where
  "write_char val specs =
     write_padded Align_left specs 1 (if sp_type specs = pres_debug then write_escaped_char val else [val])"

section \<open>The overloads of \<open>write\<close>\<close>

text \<open>Signs and alternate forms make no sense for a character.\<close>

definition check_char_specs :: "format_specs \<Rightarrow> bool fmt_result" where
  "check_char_specs specs =
     (if sp_type specs \<noteq> pres_none \<and> sp_type specs \<noteq> pres_chr \<and> sp_type specs \<noteq> pres_debug then Inr False
      else if sp_align specs = Align_numeric \<or> sp_sign specs \<noteq> No_sign \<or> sp_alt specs
      then Inl ''invalid format specifier for char''
      else Inr True)"

text \<open>
  The prefix of the presentation types. A type that is none of an integer's would fail an assertion,
  which without assertions is the decimal case.
\<close>

definition int_prefix :: "32 word \<Rightarrow> nat \<Rightarrow> nat \<Rightarrow> format_specs \<Rightarrow> 32 word" where
  "int_prefix prefix abs_value num_digits specs =
     (if sp_type specs = pres_hex
      then (if sp_alt specs then prefix_append prefix (push_bit 8 (if sp_upper specs then 0x58 else 0x78) OR 0x30) else prefix)
      else if sp_type specs = pres_oct
      then (if sp_alt specs \<and> sp_precision specs \<le> int num_digits \<and> abs_value \<noteq> 0 then prefix_append prefix 0x30 else prefix)
      else if sp_type specs = pres_bin
      then (if sp_alt specs then prefix_append prefix (push_bit 8 (if sp_upper specs then 0x42 else 0x62) OR 0x30) else prefix)
      else prefix)"

definition int_digits :: "nat \<Rightarrow> nat \<Rightarrow> format_specs \<Rightarrow> nat \<times> string" where
  "int_digits w abs_value specs =
     (if sp_type specs = pres_hex
      then (let n = count_digits_base 4 w abs_value in (n, format_uint 4 abs_value n (sp_upper specs)))
      else if sp_type specs = pres_oct
      then (let n = count_digits_base 3 w abs_value in (n, format_uint 3 abs_value n False))
      else if sp_type specs = pres_bin
      then (let n = count_digits_base 1 w abs_value in (n, format_uint 1 abs_value n False))
      else (count_digits w abs_value, format_decimal abs_value))"

definition write_int :: "nat \<Rightarrow> nat \<times> 32 word \<Rightarrow> format_specs \<Rightarrow> string" where
  "write_int w arg specs =
     (case arg of (abs_value, prefix) \<Rightarrow>
        if sp_type specs = pres_chr then write_char (char_of (abs_value mod 256)) specs
        else (let (n, digits) = int_digits w abs_value specs
              in write_digits n (int_prefix prefix abs_value n specs) specs digits))"

text \<open>
  Digit grouping. \<open>numpunct\<close> is the facet of the standard library, with the sizes of the groups from
  the right. When all sizes are used up the last one is repeated; it was positive then.
\<close>

record numpunct =
  np_grouping :: "int list"
  np_sep :: string

definition next_separator :: "numpunct \<Rightarrow> int list \<times> int \<Rightarrow> int \<times> (int list \<times> int)" where
  "next_separator np st =
     (case st of (gs, pos) \<Rightarrow>
        if np_sep np = [] then (INT_MAX, st)
        else if gs = []
        then (if np_grouping np = [] \<or> last (np_grouping np) \<le> 0 then (INT_MAX, st)
              else (pos + last (np_grouping np), [], pos + last (np_grouping np)))
        else if hd gs \<le> 0 \<or> hd gs = 127 then (INT_MAX, st)
        else (pos + hd gs, tl gs, pos + hd gs))"

lemma next_separator_grows: "next_separator np st = (p, st') \<Longrightarrow> p \<noteq> INT_MAX \<Longrightarrow> snd st < p \<and> snd st' = p"
  by (auto simp: next_separator_def split: if_splits prod.splits)

text \<open>The positions of the separators below \<open>num_digits\<close>, from the right.\<close>

function separators :: "numpunct \<Rightarrow> int \<Rightarrow> int list \<times> int \<Rightarrow> int list" where
  "separators np num_digits st =
     (let (p, st') = next_separator np st
      in if p \<ge> num_digits \<or> p = INT_MAX then [] else p # separators np num_digits st')"
  by pat_completeness auto
termination
proof (relation "measure (\<lambda>(np, n, st). nat (n - snd st))")
  fix np :: numpunct and num_digits p :: int and st st' x
  assume "x = next_separator np st" "(p, st') = x" "\<not> (p \<ge> num_digits \<or> p = INT_MAX)"
  then have "snd st < snd st'" "snd st' < num_digits" using next_separator_grows [of np st p st'] by auto
  then show "((np, num_digits, st'), (np, num_digits, st)) \<in> measure (\<lambda>(np, n, st). nat (n - snd st))" by simp
qed simp

declare separators.simps [simp del]

definition count_separators :: "numpunct \<Rightarrow> nat \<Rightarrow> nat" where
  "count_separators np num_digits = length (separators np (int num_digits) (np_grouping np, 0))"

text \<open>\<open>apply\<close> writes a separator before the digit that has as many digits from it on.\<close>

fun grouping_loop :: "string \<Rightarrow> int list \<Rightarrow> string \<Rightarrow> string" where
  "grouping_loop sep ps [] = []"
| "grouping_loop sep ps (d # ds) =
     (if ps \<noteq> [] \<and> hd ps = int (length (d # ds)) then sep @ d # grouping_loop sep (tl ps) ds
      else d # grouping_loop sep ps ds)"

definition grouping_apply :: "numpunct \<Rightarrow> string \<Rightarrow> string" where
  "grouping_apply np digits =
     grouping_loop (np_sep np) (rev (separators np (int (length digits)) (np_grouping np, 0))) digits"

text \<open>\<open>loc_writer\<close>: the value as \<open>uint64_t\<close>, without zeros for numeric alignment or precision.\<close>

definition write_int_grouped :: "numpunct \<Rightarrow> nat \<times> 32 word \<Rightarrow> format_specs \<Rightarrow> string" where
  "write_int_grouped np arg specs =
     (case arg of (abs_value, prefix) \<Rightarrow>
        if sp_type specs = pres_chr then write_char (char_of (abs_value mod 256)) specs
        else (let (n, digits) = int_digits 64 abs_value specs;
                  prefix = int_prefix prefix abs_value n specs;
                  size = prefix_size prefix + n + count_separators np n
              in write_padded Align_right specs size (prefix_text prefix @ grouping_apply np digits)))"

text \<open>An integer of a type of \<open>w\<close> bits.\<close>

definition write_integral :: "numpunct \<Rightarrow> nat \<Rightarrow> int \<Rightarrow> format_specs \<Rightarrow> string" where
  "write_integral np w val specs =
     (let arg = make_write_int_arg w val (sp_sign specs)
      in if sp_localized specs then write_int_grouped np arg specs else write_int w arg specs)"

text \<open>A boolean passes on an empty \<open>locale_ref\<close>, which stands for the global locale as everywhere here.\<close>

definition write_bool :: "numpunct \<Rightarrow> bool \<Rightarrow> format_specs \<Rightarrow> string" where
  "write_bool np val specs =
     (if sp_type specs \<noteq> pres_none \<and> sp_type specs \<noteq> pres_string
      then write_integral np 32 (if val then 1 else 0) specs
      else write_bytes (if val then ''true'' else ''false'') specs)"

text \<open>A \<open>char\<close> that is not written as a character is written as an \<open>unsigned char\<close>.\<close>

definition write_char_arg :: "numpunct \<Rightarrow> char \<Rightarrow> format_specs \<Rightarrow> string fmt_result" where
  "write_char_arg np val specs =
     and_then (check_char_specs specs) (\<lambda>b.
       if b then Inr (write_char val specs) else Inr (write_integral np 32 (int (uchar val)) specs))"

definition write_string :: "string \<Rightarrow> format_specs \<Rightarrow> string" where
  "write_string s specs =
     (let size = length s;
          size = (if sp_precision specs \<ge> 0 \<and> nat (sp_precision specs) < size
                  then code_point_index s (nat (sp_precision specs)) else size);
          is_debug = (sp_type specs = pres_debug);
          size = (if is_debug then length (write_escaped_string s) else size);
          width = (if sp_width specs \<noteq> 0 then (if is_debug then size else compute_width (take size s)) else 0)
      in write_padded Align_left specs width (if is_debug then write_escaped_string s else take size s))"

text \<open>An address is 64 bits wide.\<close>

definition write_ptr :: "nat \<Rightarrow> format_specs option \<Rightarrow> string" where
  "write_ptr addr specs =
     (let num_digits = count_digits_base 4 64 addr;
          text = ''0x'' @ format_uint 4 addr num_digits False
      in case specs of Some specs \<Rightarrow> write_padded Align_right specs (num_digits + 2) text | None \<Rightarrow> text)"

text \<open>A C string at an address; at 0 there is none.\<close>

definition write_cstring :: "nat \<Rightarrow> string \<Rightarrow> format_specs \<Rightarrow> string fmt_result" where
  "write_cstring addr s specs =
     (if sp_type specs = pres_pointer then Inr (write_ptr addr (Some specs))
      else if addr = 0 then Inl ''string pointer is null'' else Inr (write_string s specs))"

text \<open>\<open>write\<close> of an integer without a specification.\<close>

definition write_int_default :: "nat \<Rightarrow> int \<Rightarrow> string" where
  "write_int_default w val =
     (let abs_value = val mod 2 ^ w; negative = val < 0;
          abs_value = (if negative then ((2 ^ w - 1 - abs_value) + 1) mod 2 ^ w else abs_value)
      in (if negative then ''-'' else []) @ format_decimal (nat abs_value))"

section \<open>Digits in a base, and how many\<close>

text \<open>The digits of a number, the most significant first.\<close>

definition digit_of :: "bool \<Rightarrow> nat \<Rightarrow> char" where
  "digit_of upper d = (if upper then ''0123456789ABCDEF'' else ''0123456789abcdef'') ! d"

fun to_base :: "nat \<Rightarrow> bool \<Rightarrow> nat \<Rightarrow> string" where
  "to_base b upper n =
     (if b < 2 \<or> n < b then [digit_of upper n] else to_base b upper (n div b) @ [digit_of upper (n mod b)])"

declare to_base.simps [simp del]

lemma upto_16: "d < 16 \<Longrightarrow> d \<in> {0, 1, 2, 3, 4, 5, 6, 7, 8, 9, 10, 11, 12, 13, 14, 15 :: nat}"
proof -
  assume "d < 16"
  moreover have "{..<16} = {0, 1, 2, 3, 4, 5, 6, 7, 8, 9, 10, 11, 12, 13, 14, 15 :: nat}"
    by (auto simp: lessThan_nat_numeral lessThan_Suc)
  ultimately show ?thesis by blast
qed

lemma digit_of_decimal: "d < 10 \<Longrightarrow> digit_of upper d = digit_char d"
proof -
  assume "d < 10"
  then have "d \<in> {0, 1, 2, 3, 4, 5, 6, 7, 8, 9}" using upto_16 [of d] by auto
  then show ?thesis
    by (elim insertE emptyE; simp add: digit_of_def digit_char_def nth_Cons' char_of_def bit_0)
qed

lemma to_base_dec: "to_base 10 upper n = dec n"
proof (induction n rule: dec.induct)
  case (1 n)
  then show ?case by (subst to_base.simps, subst dec.simps) (simp add: digit_of_decimal)
qed

lemma base_digit_of: "bits \<in> {1, 3, 4} \<Longrightarrow> d < 2 ^ bits \<Longrightarrow> base_digit bits upper d = digit_of upper d"
proof (cases "bits = 4")
  case False
  assume "bits \<in> {1, 3, 4}" "d < 2 ^ bits"
  with False have "d < 10" "bits < 4" by auto
  then show ?thesis by (simp add: digit_of_decimal base_digit_def digit_char_def)
qed (simp add: base_digit_def digit_of_def)

lemma format_uint_loop_eq:
  assumes "bits \<in> {1, 3, 4}"
  shows "format_uint_loop bits upper n acc = to_base (2 ^ bits) upper n @ acc"
  using assms
proof (induction bits upper n acc rule: format_uint_loop.induct)
  case (1 bits upper n acc)
  have d: "base_digit bits upper (n mod 2 ^ bits) = digit_of upper (n mod 2 ^ bits)"
    by (rule base_digit_of [OF 1(2)]) simp
  have b: "\<not> (2 :: nat) ^ bits < 2" "bits \<noteq> 0" using 1(2) by auto
  note mask = and_mask [unfolded One_nat_def]
  show ?case
  proof (cases "drop_bit bits n = 0")
    case True
    then have "n < 2 ^ bits" by (simp add: drop_bit_eq_div div_eq_0_iff)
    then show ?thesis using True d by (subst format_uint_loop.simps, subst to_base.simps) (simp add: Let_def mask)
  next
    case False
    then have c: "\<not> (bits = 0 \<or> drop_bit bits n = 0)" "\<not> n < 2 ^ bits" using b by (auto simp: drop_bit_eq_div)
    show ?thesis using c b d 1(1) [OF refl refl c(1) 1(2)]
      by (subst format_uint_loop.simps, subst to_base.simps) (simp add: Let_def mask drop_bit_eq_div)
  qed
qed

lemma format_uint_loop_length:
  "length (format_uint_loop bits upper n acc) + k = count_loop bits n k + length acc"
proof (induction bits upper n acc arbitrary: k rule: format_uint_loop.induct)
  case (1 bits upper n acc)
  show ?case
  proof (cases "bits = 0 \<or> drop_bit bits n = 0")
    case True
    then show ?thesis by (subst format_uint_loop.simps, subst count_loop.simps) (auto simp: Let_def)
  next
    case False
    let ?d = "base_digit bits upper (n AND (2 ^ bits - 1))"
    have "length (format_uint_loop bits upper (drop_bit bits n) (?d # acc)) + (k + 1) =
        count_loop bits (drop_bit bits n) (k + 1) + length (?d # acc)"
      by (rule 1 [OF refl refl False])
    then show ?thesis using False by (subst format_uint_loop.simps, subst count_loop.simps) (simp add: Let_def)
  qed
qed

lemma count_loop_bounds:
  assumes "0 < bits"
  shows "\<exists>c. count_loop bits n k = k + c \<and> 0 < c \<and> n < 2 ^ (bits * c) \<and> (c = 1 \<or> 2 ^ (bits * (c - 1)) \<le> n)"
  using assms
proof (induction bits n k rule: count_loop.induct)
  case (1 bits n k)
  show ?case
  proof (cases "drop_bit bits n = 0")
    case True
    then have "count_loop bits n k = k + 1" by (subst count_loop.simps) simp
    moreover have "n < 2 ^ bits" using True by (simp add: drop_bit_eq_div div_eq_0_iff)
    ultimately show ?thesis by (intro exI [of _ 1]) simp
  next
    case False
    then have "\<not> (bits = 0 \<or> drop_bit bits n = 0)" using 1(2) by simp
    from 1(1) [OF refl this 1(2)]
    obtain c where c: "count_loop bits (drop_bit bits n) (k + 1) = k + 1 + c" "0 < c" "drop_bit bits n < 2 ^ (bits * c)"
      "c = 1 \<or> 2 ^ (bits * (c - 1)) \<le> drop_bit bits n"
      by (elim exE conjE) (rule that)
    have "count_loop bits n k = k + (c + 1)" using False c(1) 1(2) by (subst count_loop.simps) simp
    moreover have "n < 2 ^ (bits * (c + 1))"
    proof -
      have "n < 2 ^ (bits * c) * 2 ^ bits" using c(3) unfolding drop_bit_eq_div by (subst (asm) div_less_iff_less_mult) simp_all
      moreover have "bits * (c + 1) = bits * c + bits" by simp
      ultimately show ?thesis by (simp only: power_add)
    qed
    moreover have "2 ^ (bits * c) \<le> n"
    proof -
      have "2 ^ (bits * (c - 1)) \<le> n div 2 ^ bits"
        using c(2,4) False by (auto simp: drop_bit_eq_div Suc_le_eq)
      then have "2 ^ (bits * (c - 1)) * 2 ^ bits \<le> n" by (simp add: less_eq_div_iff_mult_less_eq)
      moreover have "bits * (c - 1) + bits = bits * c" using c(2) by (cases c) simp_all
      ultimately show ?thesis by (simp flip: power_add)
    qed
    ultimately show ?thesis by (intro exI [of _ "c + 1"]) simp
  qed
qed

text \<open>Both versions of \<open>count_digits<BITS>\<close> count the digits that \<open>format_uint\<close> writes.\<close>

lemma count_digits_base_eq:
  assumes "w \<in> {32, 64}" and "n < 2 ^ w" and "0 < bits"
  shows "count_digits_base bits w n = length (format_uint_loop bits upper n [])"
proof -
  obtain c where c: "count_loop bits n 0 = c" "0 < c" "n < 2 ^ (bits * c)" "c = 1 \<or> 2 ^ (bits * (c - 1)) \<le> n"
    using count_loop_bounds [OF assms(3), of n 0] by auto
  have len: "length (format_uint_loop bits upper n []) = c" using format_uint_loop_length [of bits upper n "[]" 0] c(1) by simp
  show ?thesis
  proof (cases "w = 32")
    case False
    then show ?thesis using len c(1) assms(1) by (simp add: count_digits_base_def)
  next
    case True
    define k where "k = bsr (n OR 1)"
    have n: "unat (word_of_nat n OR 1 :: 32 word) = n OR 1"
      using assms(2) True by (simp add: unsigned_or_eq unat_of_nat)
    have k: "n < 2 ^ Suc k" "k = 0 \<or> 2 ^ k \<le> n" using bsr_or_1 [of n] by (simp_all add: k_def)
    have "k < 32" using bsr_or_1_less [of n 32] assms(2) True by (simp add: k_def)
    then have "builtin_clz (word_of_nat n OR 1) XOR 31 = k" using xor_31 by (simp add: builtin_clz_def n k_def)
    moreover have "k div bits + 1 = c"
    proof -
      have "k < bits * c"
      proof (cases "k = 0")
        case False
        then have "(2::nat) ^ k < 2 ^ (bits * c)" using k(2) c(3) by (blast intro: le_less_trans)
        then show ?thesis by simp
      qed (use assms(3) c(2) in simp)
      then have "k div bits < c" using assms(3) by (simp add: div_less_iff_less_mult mult.commute)
      moreover have "c - 1 \<le> k div bits"
      proof (cases "c = 1")
        case False
        then have "(2::nat) ^ (bits * (c - 1)) < 2 ^ Suc k" using k(1) c(4) by (blast intro: le_less_trans)
        then have "bits * (c - 1) \<le> k" by (simp only: power_strict_increasing_iff one_less_numeral_iff semiring_norm less_Suc_eq_le)
        then show ?thesis using assms(3) by (simp add: less_eq_div_iff_mult_less_eq mult.commute)
      qed simp
      ultimately show ?thesis using c(2) by simp
    qed
    ultimately show ?thesis using True len by (simp add: count_digits_base_def)
  qed
qed

lemma count_digits_eq: "w \<in> {32, 64} \<Longrightarrow> n < 2 ^ w \<Longrightarrow> count_digits w n = length (format_decimal n)"
  by (auto simp: count_digits_def do_count_digits32_eq do_count_digits64_eq format_decimal_eq unat_of_nat)

section \<open>What is written for an integer\<close>

definition sign_text :: "int \<Rightarrow> sign \<Rightarrow> string" where
  "sign_text v sg = (if v < 0 then ''-'' else case sg of Plus \<Rightarrow> ''+'' | Space \<Rightarrow> '' '' | _ \<Rightarrow> [])"

text \<open>The prefix of the alternate form; the zero of an octal number counts as a digit.\<close>

definition base_text :: "format_specs \<Rightarrow> nat \<Rightarrow> nat \<Rightarrow> string" where
  "base_text specs v n =
     (if \<not> sp_alt specs then []
      else if sp_type specs = pres_hex then (if sp_upper specs then ''0X'' else ''0x'')
      else if sp_type specs = pres_bin then (if sp_upper specs then ''0B'' else ''0b'')
      else if sp_type specs = pres_oct \<and> sp_precision specs \<le> int n \<and> v \<noteq> 0 then ''0'' else [])"

definition digits_text :: "format_specs \<Rightarrow> nat \<Rightarrow> string" where
  "digits_text specs n =
     (if sp_type specs = pres_hex then to_base 16 (sp_upper specs) n
      else to_base (if sp_type specs = pres_oct then 8 else if sp_type specs = pres_bin then 2 else 10) False n)"

text \<open>How padding is split.\<close>

definition sides :: "align_t \<Rightarrow> align_t \<Rightarrow> nat \<Rightarrow> nat \<Rightarrow> bool" where
  "sides dflt a l r =
     (case a of
        No_align \<Rightarrow> (if dflt = Align_left then l = 0 else r = 0)
      | Align_left \<Rightarrow> l = 0
      | Align_right \<Rightarrow> r = 0
      | Align_center \<Rightarrow> l = (l + r) div 2
      | Align_numeric \<Rightarrow> r = 0)"

lemma split_sides:
  fixes p :: nat and a :: align_t
  assumes "p < 2 ^ 31" and "dflt \<in> {Align_left, Align_right}"
  defines "l \<equiv> drop_bit (shifts dflt ! align_index a) p"
  shows "l + (p - l) = p" and "sides dflt a l (p - l)"
proof -
  show "l + (p - l) = p" by (simp add: l_def drop_bit_eq_div)
  have "p div 2 + (p - p div 2) = p" by simp
  then show "sides dflt a l (p - l)" unfolding l_def using assms(1,2) by (cases a) (auto simp: sides_def shifts_def drop_bit_eq_div)
qed

lemma write_padded_sides:
  assumes "sp_width specs \<le> INT_MAX" and "dflt \<in> {Align_left, Align_right}"
  shows "\<exists>l r. write_padded dflt specs width text = fill_n l (sp_fill specs) @ text @ fill_n r (sp_fill specs) \<and>
     l + r = nat (sp_width specs) - width \<and> sides dflt (sp_align specs) l r"
proof -
  let ?p = "nat (sp_width specs) - width"
  let ?l = "drop_bit (shifts dflt ! align_index (sp_align specs)) ?p"
  have "?p < 2 ^ 31" using assms by (simp add: INT_MAX_def)
  then have "?l + (?p - ?l) = ?p" "sides dflt (sp_align specs) ?l (?p - ?l)" using split_sides assms(2) by blast+
  moreover have "write_padded dflt specs width text = fill_n ?l (sp_fill specs) @ text @ fill_n (?p - ?l) (sp_fill specs)"
    by (simp add: write_padded_def Let_def)
  ultimately show ?thesis by blast
qed

text \<open>Every prefix that can be built, and its text.\<close>

definition prefix_for :: "string \<Rightarrow> 32 word \<Rightarrow> bool" where
  "prefix_for s p \<longleftrightarrow> prefix_text p = s \<and> prefix_size p = length s \<and> (p = 0 \<longleftrightarrow> s = [])"

definition sign_prefixes :: "(string \<times> 32 word) set" where
  "sign_prefixes = {([], 0), (''-'', 0x0100002d), (''+'', 0x0100002b), ('' '', 0x01000020)}"

definition base_prefixes :: "(string \<times> 32 word) set" where
  "base_prefixes = {(''0'', 0x30), (''0x'', 0x7830), (''0X'', 0x5830), (''0b'', 0x6230), (''0B'', 0x4230)}"

lemma prefix_for_sign: "(s, p) \<in> sign_prefixes \<Longrightarrow> prefix_for s p"
  unfolding sign_prefixes_def prefix_for_def
  by (elim insertE emptyE Pair_inject; hypsubst)
    (simp_all add: prefix_text_def prefix_size_def prefix_loop.simps char_of_def bit_0)

lemma prefix_for_append: "(s, p) \<in> sign_prefixes \<Longrightarrow> (b, v) \<in> base_prefixes \<Longrightarrow> prefix_for (s @ b) (prefix_append p v)"
  unfolding sign_prefixes_def base_prefixes_def prefix_for_def
  by (elim insertE emptyE Pair_inject; hypsubst)
    (simp_all add: prefix_append_def prefix_text_def prefix_size_def prefix_loop.simps char_of_def bit_0)

lemma make_write_int_arg_eq:
  assumes "w \<in> {32, 64}" and "- (2 ^ (w - 1)) \<le> v" and "v < 2 ^ w"
  shows "\<exists>p. make_write_int_arg w v sg = (nat \<bar>v\<bar>, p) \<and> (sign_text v sg, p) \<in> sign_prefixes"
proof (cases "v < 0")
  case True
  have "(0 - v mod 2 ^ w) mod 2 ^ w = (- v) mod 2 ^ w" by (simp add: mod_minus_eq)
  also have "\<dots> = - v" using assms True by (intro mod_pos_pos_trivial) auto
  finally show ?thesis using True by (simp add: make_write_int_arg_def sign_text_def sign_prefixes_def Let_def)
next
  case False
  then have "v mod 2 ^ w = v" using assms(3) by simp
  then show ?thesis using False
    by (cases sg) (simp_all add: make_write_int_arg_def sign_text_def sign_prefixes_def Let_def)
qed

abbreviation (input) "int_pres \<equiv> {pres_none, pres_dec, pres_hex, pres_oct, pres_bin}"

lemma int_digits_eq:
  assumes "w \<in> {32, 64}" and "n < 2 ^ w"
  shows "int_digits w n specs = (length (digits_text specs n), digits_text specs n)"
proof -
  have base: "count_digits_base bits w n = length (to_base (2 ^ bits) upper n)"
    "format_uint bits n (length (to_base (2 ^ bits) upper n)) upper = to_base (2 ^ bits) upper n"
    if "bits \<in> {1, 3, 4}" for bits upper
    using count_digits_base_eq [OF assms, of bits upper] format_uint_loop_eq [OF that] that by (auto simp: format_uint_def)
  show ?thesis
    using base [of 4 "sp_upper specs"] base [of 3 False] base [of 1 False] count_digits_eq [OF assms]
    by (simp add: int_digits_def digits_text_def Let_def format_decimal_eq to_base_dec)
qed

lemma int_prefix_for:
  assumes "(s, p) \<in> sign_prefixes" and "(n = 0) = (v = 0)"
  shows "prefix_for (s @ base_text specs v k) (int_prefix p n k specs)"
proof -
  have "\<exists>b q. base_text specs v k = b \<and> (b = [] \<and> int_prefix p n k specs = p \<or>
      (b, q) \<in> base_prefixes \<and> int_prefix p n k specs = prefix_append p q)"
    using assms(2) by (auto simp: base_text_def int_prefix_def base_prefixes_def)
  then show ?thesis using prefix_for_sign [OF assms(1)] prefix_for_append [OF assms(1)] by auto
qed

text \<open>The zeros between the prefix and the digits.\<close>

definition zeros :: "format_specs \<Rightarrow> nat \<Rightarrow> nat \<Rightarrow> nat" where
  "zeros specs prefix_length digits =
     (if sp_align specs = Align_numeric then nat (sp_width specs) - (prefix_length + digits)
      else nat (sp_precision specs) - digits)"

lemma or_zero: "0 \<le> x \<Longrightarrow> 0 \<le> y \<Longrightarrow> x OR y = 0 \<longleftrightarrow> x = 0 \<and> y = (0 :: int)"
  by (metis or_eq_0_iff)

lemma write_digits_eq:
  assumes "prefix_for s p" and "0 \<le> sp_width specs" "sp_width specs \<le> INT_MAX" "- 1 \<le> sp_precision specs"
  shows "\<exists>l r. write_digits (length ds) p specs ds =
       fill_n l (sp_fill specs) @ s @ replicate (zeros specs (length s) (length ds)) (CHR ''0'') @ ds @ fill_n r (sp_fill specs) \<and>
     l + r = nat (sp_width specs) - (length s + zeros specs (length s) (length ds) + length ds) \<and>
     sides Align_right (sp_align specs) l r"
proof (cases "sp_width specs OR (sp_precision specs + 1) = 0")
  case True
  then have "sp_width specs = 0" "sp_precision specs = - 1" using or_zero [of "sp_width specs" "sp_precision specs + 1"] assms by auto
  moreover have "(if p \<noteq> 0 then prefix_text p else []) = s" using assms(1) by (auto simp: prefix_for_def)
  ultimately show ?thesis using True
    by (intro exI [of _ 0]) (auto simp: write_digits_def zeros_def fill_n_def sides_def split: align_t.splits)
next
  case False
  let ?z = "zeros specs (length s) (length ds)"
  have "write_int_data (length ds) p specs = (length s + ?z + length ds, ?z)"
    using assms by (auto simp: write_int_data_def zeros_def prefix_for_def Let_def)
  then have "write_digits (length ds) p specs ds =
      write_padded Align_right specs (length s + ?z + length ds) (s @ replicate ?z (CHR ''0'') @ ds)"
    using False assms(1) by (simp add: write_digits_def prefix_for_def)
  moreover obtain l r where "write_padded Align_right specs (length s + ?z + length ds) (s @ replicate ?z (CHR ''0'') @ ds) =
      fill_n l (sp_fill specs) @ (s @ replicate ?z (CHR ''0'') @ ds) @ fill_n r (sp_fill specs)"
    "l + r = nat (sp_width specs) - (length s + ?z + length ds)" "sides Align_right (sp_align specs) l r"
    using write_padded_sides [OF assms(3), of Align_right] by blast
  ultimately show ?thesis by (intro exI [of _ l] exI [of _ r]) simp
qed


section \<open>Properties\<close>

text \<open>
  C8: an integer of a 32- or 64-bit type, signed or not, is written as its sign, the prefix of
  its base, zeros, and its digits in that base, without leading zeros of their own. The zeros fill the width when the alignment is
  numeric and the precision otherwise, and the fill makes up the width on the sides the alignment says.
\<close>

theorem write_int_field:
  assumes "w \<in> {32, 64}" and "- (2 ^ (w - 1)) \<le> v" "v < 2 ^ w"
    and "0 \<le> sp_width specs" "sp_width specs \<le> INT_MAX" "- 1 \<le> sp_precision specs"
    and "sp_type specs \<noteq> pres_chr" and "\<not> sp_localized specs"
  shows "\<exists>l r. let ds = digits_text specs (nat \<bar>v\<bar>);
          prefix = sign_text v (sp_sign specs) @ base_text specs (nat \<bar>v\<bar>) (length ds);
          core = prefix @ replicate (zeros specs (length prefix) (length ds)) (CHR ''0'') @ ds
      in write_integral np w v specs = fill_n l (sp_fill specs) @ core @ fill_n r (sp_fill specs) \<and>
         l + r = nat (sp_width specs) - length core \<and> sides Align_right (sp_align specs) l r"
proof -
  let ?ds = "digits_text specs (nat \<bar>v\<bar>)"
  let ?s = "sign_text v (sp_sign specs) @ base_text specs (nat \<bar>v\<bar>) (length ?ds)"
  obtain p where p: "make_write_int_arg w v (sp_sign specs) = (nat \<bar>v\<bar>, p)" "(sign_text v (sp_sign specs), p) \<in> sign_prefixes"
    using make_write_int_arg_eq [OF assms(1-3)] by blast
  have "nat \<bar>v\<bar> < 2 ^ w" using assms(1-3) by (auto simp: nat_less_iff)
  then have "int_digits w (nat \<bar>v\<bar>) specs = (length ?ds, ?ds)" by (rule int_digits_eq [OF assms(1)])
  then have eq: "write_integral np w v specs = write_digits (length ?ds) (int_prefix p (nat \<bar>v\<bar>) (length ?ds) specs) specs ?ds"
    using assms(7,8) p(1) by (simp add: write_integral_def write_int_def)
  have "prefix_for ?s (int_prefix p (nat \<bar>v\<bar>) (length ?ds) specs)" by (rule int_prefix_for [OF p(2)]) simp
  from write_digits_eq [OF this assms(4-6), of ?ds] show ?thesis
    unfolding eq by (elim exE conjE) (intro exI, simp add: Let_def add.assoc)
qed

text \<open>The classic locale groups no digits.\<close>

definition classic :: numpunct where
  "classic = \<lparr>np_grouping = [], np_sep = []\<rparr>"

theorem write_int_field_witness:
  "write_integral classic 32 (- 42) (default_specs\<lparr>sp_width := 8, sp_align := Align_numeric, sp_fill := ''0'', sp_alt := True,
       sp_type := pres_hex\<rparr>) = ''-0x0002a''"
proof -
  let ?sp = "default_specs\<lparr>sp_width := 8, sp_align := Align_numeric, sp_fill := ''0'', sp_alt := True, sp_type := pres_hex\<rparr>"
  have d: "digits_text sp 42 = ''2a''" if "sp_type sp = 4" "\<not> sp_upper sp" for sp
    using that by (simp add: digits_text_def to_base.simps digit_of_def)
  obtain l r where "write_integral classic 32 (- 42) ?sp = fill_n l ''0'' @ ''-0x0002a'' @ fill_n r ''0''" "l + r = 0"
    using write_int_field [of 32 "- 42" ?sp classic]
    by (auto simp: d default_specs_def INT_MAX_def sign_text_def base_text_def zeros_def numeral_2_eq_2 numeral_3_eq_3 Let_def)
  then show ?thesis by (simp add: fill_n_def)
qed

end
