(* ===== verification/Fmt_Format.thy ===== *)
theory Fmt_Format
  imports Fmt_Write "HOL-Library.Sublist"
begin

text \<open>
  Format strings of the bundled \<^verbatim>\<open>fmt\<close>: the arguments, the two loops of \<open>parse_format_string\<close>, the handler
  that formats (\<open>vformat_to\<close>) and the one that checks a format string against the types of its
  arguments (\<open>format_string_checker\<close>). Arguments of floating-point, 128-bit and user-defined types are not
  modelled. A loop that would not end has the value \<open>None\<close>.
\<close>

section \<open>Arguments\<close>

text \<open>A C string and a pointer have an address; at 0 there is no string.\<close>

datatype fmt_arg =
    Int_arg int | UInt_arg int | Long_long_arg int | ULong_long_arg int | Bool_arg bool | Char_arg char
  | Cstring_arg nat string | String_arg string | Pointer_arg nat

fun arg_type :: "fmt_arg \<Rightarrow> fmt_type" where
  "arg_type (Int_arg v) = Int_type"
| "arg_type (UInt_arg v) = UInt_type"
| "arg_type (Long_long_arg v) = Long_long_type"
| "arg_type (ULong_long_arg v) = ULong_long_type"
| "arg_type (Bool_arg b) = Bool_type"
| "arg_type (Char_arg c) = Char_type"
| "arg_type (Cstring_arg a s) = Cstring_type"
| "arg_type (String_arg s) = String_type"
| "arg_type (Pointer_arg a) = Pointer_type"

abbreviation (input) "packed_arg_bits \<equiv> 4 :: nat"
abbreviation (input) "max_packed_args \<equiv> 15 :: nat"
abbreviation (input) "is_unpacked_bit \<equiv> 2 ^ 63 :: nat"
abbreviation (input) "has_named_args_bit \<equiv> 2 ^ 62 :: nat"

fun encode_types :: "fmt_type list \<Rightarrow> nat" where
  "encode_types [] = 0"
| "encode_types (t # ts) = type_index t OR push_bit packed_arg_bits (encode_types ts)"

definition make_descriptor :: "fmt_type list \<Rightarrow> nat" where
  "make_descriptor ts = (if length ts \<le> max_packed_args then encode_types ts else is_unpacked_bit OR length ts)"

record fmt_args =
  fa_desc :: nat
  fa_args :: "fmt_arg list"
  fa_named :: "(string \<times> int) list"

text \<open>\<open>init_named_arg\<close> for every argument; an argument comes with its name, if it has one.\<close>

fun init_named_args :: "int \<Rightarrow> (string option \<times> 'a) list \<Rightarrow> (string \<times> int) list" where
  "init_named_args i [] = []"
| "init_named_args i ((None, a) # xs) = init_named_args (i + 1) xs"
| "init_named_args i ((Some n, a) # xs) = (n, i) # init_named_args (i + 1) xs"

definition make_format_args :: "(string option \<times> fmt_arg) list \<Rightarrow> fmt_args" where
  "make_format_args xs =
     (let named = init_named_args 0 xs
      in \<lparr>fa_desc = make_descriptor (map (arg_type \<circ> snd) xs) OR (if named \<noteq> [] then has_named_args_bit else 0),
          fa_args = map snd xs, fa_named = named\<rparr>)"

definition is_packed :: "fmt_args \<Rightarrow> bool" where
  "is_packed args \<longleftrightarrow> fa_desc args AND is_unpacked_bit = 0"

definition has_named_args :: "fmt_args \<Rightarrow> bool" where
  "has_named_args args \<longleftrightarrow> fa_desc args AND has_named_args_bit \<noteq> 0"

definition max_size :: "fmt_args \<Rightarrow> int" where
  "max_size args =
     (if is_packed args then int max_packed_args
      else sint (word_of_nat (fa_desc args AND (2 ^ 63 - 1)) :: 32 word))"

definition args_get :: "fmt_args \<Rightarrow> int \<Rightarrow> fmt_arg option" where
  "args_get args i =
     (if \<not> is_packed args then (if i < max_size args then Some (fa_args args ! nat i) else None)
      else if i < 0 \<or> i \<ge> int max_packed_args then None
      else if drop_bit (nat i * packed_arg_bits) (fa_desc args) AND 15 = type_index None_type then None
      else Some (fa_args args ! nat i))"

fun find_name :: "(string \<times> int) list \<Rightarrow> string \<Rightarrow> int" where
  "find_name [] n = - 1"
| "find_name ((m, i) # xs) n = (if m = n then i else find_name xs n)"

definition get_id :: "fmt_args \<Rightarrow> string \<Rightarrow> int" where
  "get_id args n = (if has_named_args args then find_name (fa_named args) n else - 1)"

definition args_get_name :: "fmt_args \<Rightarrow> string \<Rightarrow> fmt_arg option" where
  "args_get_name args n = (let i = get_id args n in if i \<ge> 0 then args_get args i else None)"

section \<open>Handlers and the parser of replacement fields\<close>

record 's handler =
  on_text :: "string \<Rightarrow> 's \<Rightarrow> 's"
  on_auto :: "'s \<Rightarrow> (int \<times> 's) fmt_result"
  on_index :: "int \<Rightarrow> 's \<Rightarrow> (int \<times> 's) fmt_result"
  on_name :: "string \<Rightarrow> 's \<Rightarrow> (int \<times> 's) fmt_result"
  on_field :: "int \<Rightarrow> string \<Rightarrow> 's \<Rightarrow> 's fmt_result"
  on_specs :: "int \<Rightarrow> string \<Rightarrow> 's \<Rightarrow> (string \<times> 's) fmt_result"

definition on_arg_id :: "'s handler \<Rightarrow> arg_id \<Rightarrow> 's \<Rightarrow> (int \<times> 's) fmt_result" where
  "on_arg_id h i st = (case i of Auto_id \<Rightarrow> on_auto h st | Index_id n \<Rightarrow> on_index h n st | Name_id n \<Rightarrow> on_name h n st)"

abbreviation (input) "missing_brace \<equiv> ''missing '' @ [CHR 0x27, CHR ''}'', CHR 0x27] @ '' in format string''"
abbreviation (input) "unmatched_brace \<equiv> ''unmatched '' @ [CHR 0x27, CHR ''}'', CHR 0x27] @ '' in format string''"

text \<open>Called at an opening brace.\<close>

definition parse_replacement_field :: "'s handler \<Rightarrow> string \<Rightarrow> 's \<Rightarrow> (string \<times> 's) fmt_result" where
  "parse_replacement_field h s st =
     (let s = tl s
      in if s = [] then Inl ''invalid format string''
         else if hd s = CHR ''}'' then
           and_then (on_auto h st) (\<lambda>(i, st). and_then (on_field h i s st) (\<lambda>st. Inr (tl s, st)))
         else if hd s = CHR ''{'' then Inr (tl s, on_text h [hd s] st)
         else and_then (parse_arg_id s) (\<lambda>(i, s). and_then (on_arg_id h i st) (\<lambda>(i, st).
           if s \<noteq> [] \<and> hd s = CHR ''}'' then and_then (on_field h i s st) (\<lambda>st. Inr (tl s, st))
           else if s \<noteq> [] \<and> hd s = CHR '':'' then
             and_then (on_specs h i (tl s) st) (\<lambda>(s, st).
               if s = [] \<or> hd s \<noteq> CHR ''}'' then Inl ''unknown format specifier'' else Inr (tl s, st))
           else Inl missing_brace)))"

section \<open>The two loops\<close>

text \<open>The loop for short strings; \<open>text\<close> is what lies between \<open>begin\<close> and \<open>p\<close>.\<close>

partial_function (option) small_loop :: "'s handler \<Rightarrow> string \<Rightarrow> string \<Rightarrow> 's \<Rightarrow> 's fmt_result option" where
  "small_loop h tx s st =
     (if s = [] then Some (Inr (on_text h tx st))
      else if hd s = CHR ''{'' then
        (case parse_replacement_field h s (on_text h tx st) of
           Inl e \<Rightarrow> Some (Inl e)
         | Inr x \<Rightarrow> small_loop h [] (fst x) (snd x))
      else if hd s = CHR ''}'' then
        (if tl s = [] \<or> hd (tl s) \<noteq> CHR ''}'' then Some (Inl unmatched_brace)
         else small_loop h [] (tl (tl s)) (on_text h (tx @ [hd s]) st))
      else small_loop h (tx @ [hd s]) (tl s) st)"

lemma small_loop_end: "small_loop h tx [] st = Some (Inr (on_text h tx st))"
  by (simp add: small_loop.simps)

lemma small_loop_open:
  "small_loop h tx (CHR ''{'' # s) st =
     (case parse_replacement_field h (CHR ''{'' # s) (on_text h tx st) of
        Inl e \<Rightarrow> Some (Inl e)
      | Inr x \<Rightarrow> small_loop h [] (fst x) (snd x))"
  by (subst small_loop.simps) simp

lemma small_loop_close:
  "small_loop h tx (CHR ''}'' # s) st =
     (if s = [] \<or> hd s \<noteq> CHR ''}'' then Some (Inl unmatched_brace) else small_loop h [] (tl s) (on_text h (tx @ ''}'') st))"
  by (subst small_loop.simps) simp

lemma small_loop_char: "c \<notin> {CHR ''{'', CHR ''}''} \<Longrightarrow> small_loop h tx (c # s) st = small_loop h (tx @ [c]) s st"
  by (subst small_loop.simps) simp

text \<open>The \<open>writer\<close> of the loop for long strings: text without an opening brace.\<close>

function write_loop :: "'s handler \<Rightarrow> string \<Rightarrow> 's \<Rightarrow> 's fmt_result" where
  "write_loop h s st =
     (let before = takeWhile (\<lambda>c. c \<noteq> CHR ''}'') s; p = dropWhile (\<lambda>c. c \<noteq> CHR ''}'') s
      in if p = [] then Inr (on_text h s st)
         else if tl p = [] \<or> hd (tl p) \<noteq> CHR ''}'' then Inl unmatched_brace
         else write_loop h (tl (tl p)) (on_text h (before @ [hd p]) st))"
  by pat_completeness auto
termination
proof (relation "measure (\<lambda>(h, s, st). length s)")
  fix h :: "'s handler" and s p :: string and st :: 's and before
  assume "p = dropWhile (\<lambda>c. c \<noteq> CHR ''}'') s" "\<not> p = []"
  then have "length p \<le> length s" "p \<noteq> []" by (simp_all add: length_dropWhile_le)
  then have "length (tl (tl p)) < length s" by (cases p) auto
  then show "((h, tl (tl p), on_text h (before @ [hd p]) st), (h, s, st)) \<in> measure (\<lambda>(h, s, st). length s)" by simp
qed simp

declare write_loop.simps [simp del]

definition write_text :: "'s handler \<Rightarrow> string \<Rightarrow> 's \<Rightarrow> 's fmt_result" where
  "write_text h s st = (if s = [] then Inr st else write_loop h s st)"

partial_function (option) big_loop :: "'s handler \<Rightarrow> string \<Rightarrow> 's \<Rightarrow> 's fmt_result option" where
  "big_loop h s st =
     (if s = [] then Some (Inr st)
      else let before = takeWhile (\<lambda>c. c \<noteq> CHR ''{'') s; p = dropWhile (\<lambda>c. c \<noteq> CHR ''{'') s
           in if p = [] then Some (write_text h s st)
              else case and_then (write_text h before st) (parse_replacement_field h p) of
                     Inl e \<Rightarrow> Some (Inl e)
                   | Inr x \<Rightarrow> big_loop h (fst x) (snd x))"

definition parse_format_string :: "'s handler \<Rightarrow> string \<Rightarrow> 's \<Rightarrow> 's fmt_result option" where
  "parse_format_string h s st = (if length s < 32 then small_loop h [] s st else big_loop h s st)"

section \<open>Formatting\<close>

definition default_write :: "numpunct \<Rightarrow> fmt_arg \<Rightarrow> string fmt_result" where
  "default_write np arg =
     (case arg of
        Int_arg v \<Rightarrow> Inr (write_int_default 32 v)
      | UInt_arg v \<Rightarrow> Inr (write_int_default 32 v)
      | Long_long_arg v \<Rightarrow> Inr (write_int_default 64 v)
      | ULong_long_arg v \<Rightarrow> Inr (write_int_default 64 v)
      | Bool_arg b \<Rightarrow> Inr (write_bool np b default_specs)
      | Char_arg c \<Rightarrow> Inr [c]
      | Cstring_arg a s \<Rightarrow> if a = 0 then Inl ''string pointer is null'' else Inr s
      | String_arg s \<Rightarrow> Inr s
      | Pointer_arg a \<Rightarrow> Inr (write_ptr a (Some default_specs)))"

definition specs_write :: "numpunct \<Rightarrow> format_specs \<Rightarrow> fmt_arg \<Rightarrow> string fmt_result" where
  "specs_write np specs arg =
     (case arg of
        Int_arg v \<Rightarrow> Inr (write_integral np 32 v specs)
      | UInt_arg v \<Rightarrow> Inr (write_integral np 32 v specs)
      | Long_long_arg v \<Rightarrow> Inr (write_integral np 64 v specs)
      | ULong_long_arg v \<Rightarrow> Inr (write_integral np 64 v specs)
      | Bool_arg b \<Rightarrow> Inr (write_bool np b specs)
      | Char_arg c \<Rightarrow> write_char_arg np c specs
      | Cstring_arg a s \<Rightarrow> write_cstring a s specs
      | String_arg s \<Rightarrow> Inr (write_string s specs)
      | Pointer_arg a \<Rightarrow> Inr (write_ptr a (Some specs)))"

text \<open>\<open>width_checker\<close> and \<open>precision_checker\<close> differ in their messages. A boolean or a character is no integer to them.\<close>

definition spec_checker :: "string \<Rightarrow> fmt_arg \<Rightarrow> int fmt_result" where
  "spec_checker what arg =
     (let integer = (\<lambda>v. if v < 0 then Inl (''negative '' @ what) else Inr v)
      in case arg of
           Int_arg v \<Rightarrow> integer v
         | UInt_arg v \<Rightarrow> integer v
         | Long_long_arg v \<Rightarrow> integer v
         | ULong_long_arg v \<Rightarrow> integer v
         | _ \<Rightarrow> Inl (what @ '' is not integer''))"

definition get_dynamic_spec :: "string \<Rightarrow> fmt_arg \<Rightarrow> int fmt_result" where
  "get_dynamic_spec what arg =
     and_then (spec_checker what arg) (\<lambda>v. if v > INT_MAX then Inl ''number is too big'' else Inr v)"

definition get_arg :: "fmt_arg option \<Rightarrow> fmt_arg fmt_result" where
  "get_arg arg = (case arg of None \<Rightarrow> Inl ''argument not found'' | Some a \<Rightarrow> Inr a)"

definition handle_dynamic_spec :: "string \<Rightarrow> int \<Rightarrow> arg_ref \<Rightarrow> fmt_args \<Rightarrow> int fmt_result" where
  "handle_dynamic_spec what val ref args =
     (case ref of
        No_ref \<Rightarrow> Inr val
      | Index_ref i \<Rightarrow> and_then (get_arg (args_get args i)) (get_dynamic_spec what)
      | Name_ref n \<Rightarrow> and_then (get_arg (args_get_name args n)) (get_dynamic_spec what))"

text \<open>\<open>format_handler\<close>: what has been written, and the parse context.\<close>

type_synonym format_state = "string \<times> parse_context"

definition format_text :: "string \<Rightarrow> format_state \<Rightarrow> format_state" where
  "format_text tx st = (fst st @ tx, snd st)"

definition format_on_auto :: "format_state \<Rightarrow> (int \<times> format_state) fmt_result" where
  "format_on_auto st = and_then (next_arg_id (snd st)) (\<lambda>(i, ctx). Inr (i, fst st, ctx))"

definition format_on_index :: "int \<Rightarrow> format_state \<Rightarrow> (int \<times> format_state) fmt_result" where
  "format_on_index i st = and_then (check_arg_id i (snd st)) (\<lambda>ctx. Inr (i, fst st, ctx))"

definition format_on_name :: "fmt_args \<Rightarrow> string \<Rightarrow> format_state \<Rightarrow> (int \<times> format_state) fmt_result" where
  "format_on_name args n st =
     (let ctx = check_arg_name (snd st); i = get_id args n
      in if i < 0 then Inl ''argument not found'' else Inr (i, fst st, ctx))"

definition format_on_field :: "numpunct \<Rightarrow> fmt_args \<Rightarrow> int \<Rightarrow> format_state \<Rightarrow> format_state fmt_result" where
  "format_on_field np args i st =
     and_then (get_arg (args_get args i)) (\<lambda>arg. and_then (default_write np arg) (\<lambda>tx. Inr (format_text tx st)))"

definition format_on_specs :: "numpunct \<Rightarrow> fmt_args \<Rightarrow> int \<Rightarrow> string \<Rightarrow> format_state \<Rightarrow> (string \<times> format_state) fmt_result" where
  "format_on_specs np args i s st =
     and_then (get_arg (args_get args i)) (\<lambda>arg.
     and_then (parse_format_specs s (arg_type arg) (snd st)) (\<lambda>(s, specs, ctx).
     and_then (handle_dynamic_spec ''width'' (sp_width specs) (sp_width_ref specs) args) (\<lambda>w.
     and_then (handle_dynamic_spec ''precision'' (sp_precision specs) (sp_precision_ref specs) args) (\<lambda>p.
       if s = [] \<or> hd s \<noteq> CHR ''}'' then Inl missing_brace
       else and_then (specs_write np (specs\<lparr>sp_width := w, sp_precision := p\<rparr>) arg) (\<lambda>tx.
              Inr (s, format_text tx (fst st, ctx)))))))"

definition format_handler :: "numpunct \<Rightarrow> fmt_args \<Rightarrow> format_state handler" where
  "format_handler np args =
     \<lparr>on_text = format_text, on_auto = format_on_auto, on_index = format_on_index, on_name = format_on_name args,
      on_field = (\<lambda>i s. format_on_field np args i), on_specs = format_on_specs np args\<rparr>"

definition run_context :: parse_context where
  "run_context = \<lparr>pc_next = 0, pc_types = None\<rparr>"

text \<open>What is written, or the message of the \<open>format_error\<close> that is thrown.\<close>

definition vformat_to :: "numpunct \<Rightarrow> fmt_args \<Rightarrow> string \<Rightarrow> string fmt_result option" where
  "vformat_to np args fmt =
     (if fmt = ''{}'' then Some (and_then (get_arg (args_get args 0)) (default_write np))
      else map_option (\<lambda>r. and_then r (\<lambda>st. Inr (fst st)))
             (parse_format_string (format_handler np args) fmt ([], run_context)))"

section \<open>Checking at compile time\<close>

text \<open>The arguments of a checked format string: their types, with the names known at compile time.\<close>

type_synonym fmt_sig = "(string option \<times> fmt_type) list"

text \<open>\<open>next_arg_id\<close> and \<open>check_arg_id\<close> of \<open>compile_parse_context\<close> check after those of its base.\<close>

definition compile_next_arg_id :: "fmt_sig \<Rightarrow> parse_context \<Rightarrow> (int \<times> parse_context) fmt_result" where
  "compile_next_arg_id sg ctx =
     and_then (next_arg_id ctx) (\<lambda>(i, ctx). if i \<ge> int (length sg) then Inl ''argument not found'' else Inr (i, ctx))"

definition compile_check_arg_id :: "fmt_sig \<Rightarrow> int \<Rightarrow> parse_context \<Rightarrow> (int \<times> parse_context) fmt_result" where
  "compile_check_arg_id sg i ctx =
     and_then (check_arg_id i ctx) (\<lambda>ctx. if i \<ge> int (length sg) then Inl ''argument not found'' else Inr (i, ctx))"

fun get_arg_index_by_name :: "int \<Rightarrow> fmt_sig \<Rightarrow> string \<Rightarrow> int" where
  "get_arg_index_by_name i [] n = - 1"
| "get_arg_index_by_name i ((m, t) # xs) n = (if m = Some n then i else get_arg_index_by_name (i + 1) xs n)"

definition check_on_name :: "fmt_sig \<Rightarrow> string \<Rightarrow> parse_context \<Rightarrow> (int \<times> parse_context) fmt_result" where
  "check_on_name sg n ctx =
     (let i = get_arg_index_by_name 0 sg n in if i < 0 then Inl ''named argument is not found'' else Inr (i, ctx))"

text \<open>\<open>parse\<close> of \<open>native_formatter\<close>.\<close>

definition native_parse :: "fmt_type \<Rightarrow> string \<Rightarrow> parse_context \<Rightarrow> (string \<times> parse_context) fmt_result" where
  "native_parse t s ctx =
     (if s = [] \<or> hd s = CHR ''}'' then Inr (s, ctx)
      else and_then (parse_format_specs s t ctx) (\<lambda>(s, specs, ctx).
             if t = Char_type then and_then (check_char_specs specs) (\<lambda>b. Inr (s, ctx)) else Inr (s, ctx)))"

definition check_on_specs :: "fmt_sig \<Rightarrow> int \<Rightarrow> string \<Rightarrow> parse_context \<Rightarrow> (string \<times> parse_context) fmt_result" where
  "check_on_specs sg i s ctx =
     (if i \<ge> 0 \<and> i < int (length sg) then native_parse (snd (sg ! nat i)) s ctx else Inr (s, ctx))"

definition check_on_field :: "fmt_sig \<Rightarrow> int \<Rightarrow> string \<Rightarrow> parse_context \<Rightarrow> parse_context fmt_result" where
  "check_on_field sg i s ctx = and_then (check_on_specs sg i s ctx) (\<lambda>(s, ctx). Inr ctx)"

definition checker_handler :: "fmt_sig \<Rightarrow> parse_context handler" where
  "checker_handler sg =
     \<lparr>on_text = (\<lambda>tx ctx. ctx), on_auto = compile_next_arg_id sg, on_index = compile_check_arg_id sg,
      on_name = check_on_name sg, on_field = check_on_field sg, on_specs = check_on_specs sg\<rparr>"

definition check_format_string :: "fmt_sig \<Rightarrow> string \<Rightarrow> parse_context fmt_result option" where
  "check_format_string sg fmt =
     parse_format_string (checker_handler sg) fmt \<lparr>pc_next = 0, pc_types = Some (map snd sg)\<rparr>"

section \<open>Reading on\<close>

lemma suffix_tl_trans: "suffix rest (tl s) \<Longrightarrow> suffix rest s"
  using suffix_order.trans [OF _ suffix_tl] .

lemma suffix_tl_left: "suffix rest s \<Longrightarrow> suffix (tl rest) s"
  using suffix_order.trans [OF suffix_tl] .

lemma nonneg_loop_suffix: "nonneg_loop s v p n d = (v', p', n', d', rest) \<Longrightarrow> suffix rest s"
  by (induction s arbitrary: v p n d) (auto split: if_splits simp: suffix_Cons)

lemma parse_int_suffix: "parse_nonnegative_int s e = (v, rest) \<Longrightarrow> suffix rest s"
  by (auto simp: parse_nonnegative_int_def Let_def dest: nonneg_loop_suffix split: prod.splits)

lemma take_name_suffix: "take_name s = (n, rest) \<Longrightarrow> suffix rest s"
  by (induction s arbitrary: n) (auto simp: suffix_Cons split: if_splits prod.splits)

lemma parse_arg_id_suffix: "parse_arg_id s = Inr (i, rest) \<Longrightarrow> suffix rest s"
  by (auto simp: parse_arg_id_def do_parse_arg_id_def Let_def dest!: parse_int_suffix take_name_suffix
       intro: suffix_tl_trans split: if_splits prod.splits)

lemma parse_dynamic_suffix: "parse_dynamic_spec s v ref ctx = Inr (v', ref', rest, ctx') \<Longrightarrow> suffix rest s"
  by (auto simp: parse_dynamic_spec_def Let_def and_then_Inr dest!: parse_int_suffix parse_arg_id_suffix
       intro: suffix_tl_trans suffix_tl_left split: if_splits prod.splits)

fun round_rest :: "round \<Rightarrow> string" where
  "round_rest (Return rest specs ctx) = rest"
| "round_rest (Go_on st rest specs ctx) = rest"

lemma specs_round_suffix: "specs_round t c st s specs ctx = Inr r \<Longrightarrow> suffix (round_rest r) s"
proof -
  assume r: "specs_round t c st s specs ctx = Inr r"
  have "parse_presentation_type t p types s sp ctx = Inr r \<Longrightarrow> suffix (round_rest r) s" for p types sp
    by (auto simp: parse_presentation_type_def split: if_splits)
  moreover have "parse_fill st s specs ctx = Inr r \<Longrightarrow> suffix (round_rest r) s"
    by (auto simp: parse_fill_def Let_def and_then_Inr suffix_drop split: if_splits)
  moreover have "parse_precision s v ref ctx = Inr (v', ref', rest, ctx'') \<Longrightarrow> suffix rest s" for v ref v' ref' ctx'' rest
    by (auto simp: parse_precision_def Let_def dest!: parse_dynamic_suffix intro: suffix_tl_trans split: if_splits)
  ultimately show ?thesis
    using r parse_dynamic_suffix unfolding specs_round_def Let_def
    by (auto simp del: set_simps simp: and_then_Inr split: if_splits)
qed

lemma and_then_round:
  "and_then q (\<lambda>r. case r of Return a b c \<Rightarrow> f a b c | Go_on k a b c \<Rightarrow> g k a b c) = Inr y \<longleftrightarrow>
     (\<exists>a b c. q = Inr (Return a b c) \<and> f a b c = Inr y) \<or> (\<exists>k a b c. q = Inr (Go_on k a b c) \<and> g k a b c = Inr y)"
  unfolding and_then_Inr by (rule iffI; elim exE conjE disjE; (split round.split_asm)?; fastforce)

lemma specs_loop_suffix: "specs_loop t st s specs ctx = Inr (rest, specs', ctx') \<Longrightarrow> suffix rest s"
proof (induction t st s specs ctx rule: specs_loop.induct)
  case (1 t st s specs ctx)
  show ?case
  proof (cases "s = []")
    case False
    with 1(2) consider (ret) "specs_round t (hd s) st s specs ctx = Inr (Return rest specs' ctx')"
      | (go) k a b c where "specs_round t (hd s) st s specs ctx = Inr (Go_on k a b c)" "specs_loop t k a b c = Inr (rest, specs', ctx')"
      by (subst (asm) specs_loop.simps) (auto simp: and_then_round)
    then show ?thesis
    proof cases
      case ret
      from specs_round_suffix [OF ret] show ?thesis by simp
    next
      case go
      from 1(1) [OF False go(1) refl go(2)] specs_round_suffix [OF go(1)] show ?thesis by (auto intro: suffix_order.trans)
    qed
  qed (use 1(2) in \<open>simp add: specs_loop.simps\<close>)
qed

lemma parse_format_specs_suffix: "parse_format_specs s t ctx = Inr (rest, specs, ctx') \<Longrightarrow> suffix rest s"
  by (auto simp: parse_format_specs_def and_then_round dest!: specs_round_suffix specs_loop_suffix
      intro: suffix_order.trans split: if_splits)

section \<open>Both loops end, with the same result\<close>

text \<open>What the loops rely on: a handler reads on, and writing nothing changes nothing.\<close>

locale text_handler =
  fixes h :: "'s handler"
  assumes text_Nil: "on_text h [] st = st"
    and specs_suffix: "on_specs h i s st = Inr (rest, st') \<Longrightarrow> suffix rest s"
begin

lemma field_suffix: "parse_replacement_field h s st = Inr (rest, st') \<Longrightarrow> suffix rest (tl s)"
  by (auto simp: parse_replacement_field_def Let_def and_then_Inr dest!: parse_arg_id_suffix specs_suffix
      intro: suffix_tl_left suffix_order.trans [of "tl _" "tl _"] suffix_order.trans [OF suffix_tl_left] split: if_splits)

lemma field_shorter: "s \<noteq> [] \<Longrightarrow> parse_replacement_field h s st = Inr x \<Longrightarrow> length (fst x) < length s"
  using field_suffix [of s st "fst x" "snd x"] by (cases s) (auto dest: suffix_length_le)

lemma small_loop_total: "\<exists>r. small_loop h tx s st = Some r"
proof (induction "length s" arbitrary: tx s st rule: less_induct)
  case less
  show ?case
  proof (cases s)
    case (Cons c cs)
    have rec: "\<exists>r. small_loop h tx' s' st' = Some r" if "length s' < length s" for tx' s' st'
      using less that by simp
    show ?thesis
    proof (cases "c \<in> {CHR ''{'', CHR ''}''}")
      case True
      then show ?thesis
        using rec field_shorter [of s] Cons by (auto simp: small_loop_open small_loop_close split: sum.split)
    qed (use rec Cons in \<open>simp add: small_loop_char\<close>)
  qed (simp add: small_loop_end)
qed

text \<open>A piece of text without an opening brace, before the end or an opening brace.\<close>

lemma small_loop_text:
  assumes "CHR ''}'' \<notin> set tx" and "CHR ''{'' \<notin> set u" and "rest = [] \<or> hd rest = CHR ''{''"
  shows "small_loop h tx (u @ rest) st =
     (case write_loop h (tx @ u) st of Inl e \<Rightarrow> Some (Inl e) | Inr st' \<Rightarrow> small_loop h [] rest st')"
  using assms(1,2)
proof (induction "length u" arbitrary: tx u st rule: less_induct)
  case less
  have takes: "takeWhile (\<lambda>c. c \<noteq> CHR ''}'') (tx @ v) = tx @ takeWhile (\<lambda>c. c \<noteq> CHR ''}'') v"
    "dropWhile (\<lambda>c. c \<noteq> CHR ''}'') (tx @ v) = dropWhile (\<lambda>c. c \<noteq> CHR ''}'') v" for v
    using less.prems(1) by (auto intro!: takeWhile_append2 dropWhile_append2)
  show ?case
  proof (cases u)
    case Nil
    have "write_loop h tx st = Inr (on_text h tx st)"
      using takes [of "[]"] by (subst write_loop.simps) (simp add: Let_def)
    then show ?thesis using Nil assms(3)
      by (cases rest) (auto simp: text_Nil small_loop_end small_loop_open)
  next
    case (Cons c v)
    show ?thesis
    proof (cases "c = CHR ''}''")
      case False
      then have "small_loop h tx (u @ rest) st = small_loop h (tx @ [c]) (v @ rest) st"
        using Cons less.prems(2) by (auto simp: small_loop_char)
      then show ?thesis using less.hyps [of v "tx @ [c]"] Cons False less.prems by simp
    next
      case True
      have w: "write_loop h (tx @ u) st =
          (if v = [] \<or> hd v \<noteq> CHR ''}'' then Inl unmatched_brace else write_loop h (tl v) (on_text h (tx @ [c]) st))"
        using takes [of u] Cons True by (subst write_loop.simps) (simp add: Let_def)
      have bad: "v @ rest = [] \<or> hd (v @ rest) \<noteq> CHR ''}'' \<longleftrightarrow> v = [] \<or> hd v \<noteq> CHR ''}''" using assms(3) by (cases v) auto
      show ?thesis
      proof (cases "v = [] \<or> hd v \<noteq> CHR ''}''")
        case True
        then show ?thesis using w bad Cons \<open>c = CHR ''}''\<close> by (simp add: small_loop_close)
      next
        case False
        then have "small_loop h tx (u @ rest) st = small_loop h [] (tl v @ rest) (on_text h (tx @ [c]) st)"
          using Cons \<open>c = CHR ''}''\<close> bad by (simp add: small_loop_close)
        moreover have "CHR ''{'' \<notin> set (tl v)" "length (tl v) < length u"
          using less.prems(2) Cons by (cases v; auto)+
        ultimately show ?thesis using less.hyps [of "tl v" "[]"] w False by simp
      qed
    qed
  qed
qed

lemma loops_agree: "big_loop h s st = small_loop h [] s st"
proof (induction "length s" arbitrary: s st rule: less_induct)
  case less
  let ?u = "takeWhile (\<lambda>c. c \<noteq> CHR ''{'') s" and ?p = "dropWhile (\<lambda>c. c \<noteq> CHR ''{'') s"
  have u: "CHR ''{'' \<notin> set ?u" by (auto dest: set_takeWhileD)
  have p: "?p = [] \<or> hd ?p = CHR ''{''" using hd_dropWhile [of "\<lambda>c. c \<noteq> CHR ''{''" s] by auto
  have wt: "write_text h v st = write_loop h v st" for v
    by (simp add: write_text_def write_loop.simps [of h "[]"] text_Nil)
  have small: "small_loop h [] s st = (case write_text h ?u st of Inl e \<Rightarrow> Some (Inl e) | Inr st' \<Rightarrow> small_loop h [] ?p st')"
    using small_loop_text [OF _ u p, of "[]" st] by (simp add: wt)
  show ?case
  proof (cases "?p = []")
    case True
    have "?u @ ?p = s" by (rule takeWhile_dropWhile_id)
    then have us: "?u = s" unfolding True by simp
    have "small_loop h [] s st = Some (write_text h s st)"
      using small unfolding us True by (cases "write_text h s st") (simp_all add: small_loop_end text_Nil)
    moreover have "big_loop h s st = Some (write_text h s st)"
      using True by (subst big_loop.simps) (simp add: Let_def write_text_def)
    ultimately show ?thesis by simp
  next
    case False
    then have "hd ?p = CHR ''{''" using p by blast
    have "length ?p \<le> length s" by (rule length_dropWhile_le)
    then have rec: "big_loop h (fst x) (snd x) = small_loop h [] (fst x) (snd x)"
      if "parse_replacement_field h ?p st' = Inr x" for st' x
      using less [of "fst x" "snd x"] field_shorter [OF False that] by simp
    have "small_loop h [] ?p st' =
        (case parse_replacement_field h ?p st' of Inl e \<Rightarrow> Some (Inl e) | Inr x \<Rightarrow> small_loop h [] (fst x) (snd x))" for st'
      using False \<open>hd ?p = CHR ''{''\<close> small_loop_open [of h "[]" "tl ?p" st'] by (cases ?p) (simp_all add: text_Nil)
    then show ?thesis using small False rec
      by (subst big_loop.simps) (auto simp: Let_def split: sum.split)
  qed
qed

lemma parse_small: "parse_format_string h s st = small_loop h [] s st"
  by (simp add: parse_format_string_def loops_agree)

end

interpretation formatting: text_handler "format_handler np args" for np args
  by unfold_locales
    (auto simp: format_handler_def format_text_def format_on_specs_def and_then_Inr dest: parse_format_specs_suffix
       split: if_splits)

interpretation checker: text_handler "checker_handler sg" for sg
  by unfold_locales
    (auto simp: checker_handler_def check_on_specs_def native_parse_def and_then_Inr dest: parse_format_specs_suffix
       split: if_splits)


text \<open>The shortcut for \<open>{}\<close> and the choice of the loop change nothing.\<close>

lemma vformat_small:
  "vformat_to np args s =
     map_option (\<lambda>r. and_then r (\<lambda>st. Inr (fst st))) (small_loop (format_handler np args) [] s ([], run_context))"
proof (cases "s = ''{}''")
  case True
  have "parse_replacement_field (format_handler np args) ''{}'' ([], run_context) =
      and_then (get_arg (args_get args 0)) (\<lambda>a. and_then (default_write np a) (\<lambda>x. Inr ([], x, run_context\<lparr>pc_next := 1\<rparr>)))"
    by (cases "get_arg (args_get args 0)"; cases "default_write np (the (args_get args 0))")
      (auto simp: parse_replacement_field_def format_handler_def format_on_auto_def next_arg_id_def do_check_arg_id_def
         run_context_def format_on_field_def format_text_def and_then_def get_arg_def split: sum.splits option.splits)
  then show ?thesis unfolding True
    by (cases "get_arg (args_get args 0)"; cases "default_write np (the (args_get args 0))")
      (auto simp: vformat_to_def small_loop_open small_loop_end format_handler_def format_text_def get_arg_def
        and_then_def split: option.splits sum.splits)
qed (simp add: vformat_to_def formatting.parse_small)

section \<open>Looking up arguments\<close>

lemma type_index_less: "type_index t < 16"
  by (cases t) simp_all

lemma type_index_bit: "bit (type_index t) k \<Longrightarrow> k < 4"
proof (rule ccontr)
  assume "bit (type_index t) k" "\<not> k < 4"
  then have "(2::nat) ^ 4 \<le> 2 ^ k" by (intro power_increasing) simp_all
  then have "type_index t div 2 ^ k = 0" using type_index_less [of t] by simp
  then show False using \<open>bit (type_index t) k\<close> by (simp add: bit_iff_odd)
qed

lemma bit_encode_types: "bit (encode_types ts) k \<longleftrightarrow> k div 4 < length ts \<and> bit (type_index (ts ! (k div 4))) (k mod 4)"
proof (induction ts arbitrary: k)
  case (Cons t ts)
  show ?case
  proof (cases "k < 4")
    case False
    then have "k div 4 = Suc ((k - 4) div 4)" "k mod 4 = (k - 4) mod 4" using le_div_geq [of 4 k] le_mod_geq [of 4 k] by simp_all
    moreover have "\<not> bit (type_index t) k" using type_index_bit False by blast
    ultimately show ?thesis using Cons [of "k - 4"] False by (simp add: bit_or_iff bit_push_bit_iff)
  qed (simp add: bit_or_iff bit_push_bit_iff)
qed simp

lemma packed_type:
  assumes "i < 15" and "length ts \<le> 15"
  shows "drop_bit (i * 4) (encode_types ts OR (if b then 2 ^ 62 else 0)) AND 15 = (if i < length ts then type_index (ts ! i) else 0)"
proof -
  have "bit (drop_bit (i * 4) (encode_types ts OR (if b then 2 ^ 62 else 0)) AND 15) j \<longleftrightarrow>
      bit (if i < length ts then type_index (ts ! i) else 0) j" for j
  proof -
    have "bit (15 :: nat) j \<longleftrightarrow> j < 4" using bit_mask_iff [of 4 j, where 'a = nat] by (simp add: mask_eq_exp_minus_1)
    moreover have "\<not> bit (if b then 2 ^ 62 else 0 :: nat) (i * 4 + j)" if "j < 4"
    proof -
      have "i * 4 + j \<noteq> 62" using that assms(1) by linarith
      then show ?thesis by (cases b) (simp_all only: if_True if_False bit_exp_iff bit_0_eq bot_fun_def bot_bool_def simp_thms)
    qed
    ultimately show ?thesis using type_index_bit by (auto simp: bit_and_iff bit_drop_bit_eq bit_or_iff bit_encode_types)
  qed
  then show ?thesis by (intro bit_eqI) simp
qed

lemma type_index_pos: "type_index (arg_type a) \<noteq> 0"
  by (cases a) simp_all

text \<open>The descriptor of \<open>make_format_args\<close> leads to every argument, packed or not, and to no other.\<close>

lemma args_get_eq:
  assumes "int (length xs) \<le> INT_MAX" and "0 \<le> i"
  shows "args_get (make_format_args xs) i = (if i < int (length xs) then Some (snd (xs ! nat i)) else None)"
proof -
  let ?ts = "map (arg_type \<circ> snd) xs" and ?b = "init_named_args 0 xs \<noteq> []"
  let ?d = "make_descriptor ?ts OR (if ?b then 2 ^ 62 else 0)"
  have desc: "fa_desc (make_format_args xs) = ?d" "fa_args (make_format_args xs) = map snd xs"
    by (simp_all add: make_format_args_def Let_def)
  show ?thesis
  proof (cases "length xs \<le> 15")
    case True
    have "\<not> bit ?d 63" using True by (simp add: make_descriptor_def bit_or_iff bit_encode_types bit_exp_iff)
    then have packed: "is_packed (make_format_args xs)"
      by (simp add: is_packed_def desc bit_iff_and_push_bit_not_eq_0 push_bit_eq_mult)
    show ?thesis
    proof (cases "i < 15")
      case True
      then have "drop_bit (nat i * 4) ?d AND 15 = (if nat i < length xs then type_index (?ts ! nat i) else 0)"
        using packed_type [of "nat i" ?ts ?b] \<open>length xs \<le> 15\<close> assms(2) by (simp add: make_descriptor_def)
      moreover have "type_index (?ts ! nat i) \<noteq> 0" if "nat i < length xs" using that type_index_pos by simp
      ultimately show ?thesis using True packed assms(2) unfolding args_get_def desc by (auto simp: nat_less_iff)
    qed (use True packed in \<open>auto simp: args_get_def\<close>)
  next
    case False
    have "bit ?d 63" using False by (simp add: make_descriptor_def bit_or_iff bit_exp_iff bit_0)
    then have packed: "\<not> is_packed (make_format_args xs)"
      by (simp add: is_packed_def desc bit_iff_and_push_bit_not_eq_0 push_bit_eq_mult)
    have "word_of_nat (?d AND (2 ^ 63 - 1)) = (word_of_nat (length xs) :: 32 word)"
    proof -
      have "take_bit 63 (length xs) = length xs" using assms(1) by (intro take_bit_nat_eq_self) (simp add: INT_MAX_def)
      then have "?d AND (2 ^ 63 - 1) = length xs OR (if ?b then 2 ^ 62 else 0)"
        using False unfolding mask_eq_exp_minus_1 [symmetric] take_bit_eq_mask [symmetric] by (simp add: make_descriptor_def)
      moreover have "word_of_nat (if ?b then 2 ^ 62 else 0) = (0 :: 32 word)" by simp
      ultimately show ?thesis by (simp only: of_nat_or_eq or.right_neutral)
    qed
    then have "max_size (make_format_args xs) = int (length xs)"
      using packed assms(1) by (simp add: max_size_def desc sint_small INT_MAX_def)
    then show ?thesis using packed assms(2) by (auto simp: args_get_def desc)
  qed
qed

lemma find_named: "get_arg_index_by_name i (map (map_prod id arg_type) xs) n = find_name (init_named_args i xs) n"
  by (induction i xs rule: init_named_args.induct) auto

lemma get_id_eq: "get_id (make_format_args xs) n = find_name (init_named_args 0 xs) n"
proof -
  let ?e = "make_descriptor (map (arg_type \<circ> snd) xs)"
  have "bit (?e OR 2 ^ 62) 62" by (simp add: bit_or_iff bit_exp_iff bit_0)
  then have "(?e OR 2 ^ 62) AND 2 ^ 62 \<noteq> 0" by (simp add: bit_iff_and_push_bit_not_eq_0 push_bit_eq_mult)
  then show ?thesis by (auto simp: get_id_def has_named_args_def make_format_args_def Let_def)
qed

lemma find_name_index: "0 \<le> i \<Longrightarrow> find_name (init_named_args i xs) n < i + int (length xs)"
  by (induction i xs rule: init_named_args.induct) auto

section \<open>What the checker has seen is so at run time\<close>

definition forget :: "parse_context \<Rightarrow> parse_context" where
  "forget c = c\<lparr>pc_types := None\<rparr>"

lemma forget_simps [simp]: "pc_types (forget c) = None" "pc_next (forget c) = pc_next c"
  by (simp_all add: forget_def)

lemma next_arg_id_sim:
  assumes "next_arg_id c = Inr (i, c')" and "pc_types c = Some ts"
  shows "next_arg_id (forget c) = Inr (i, forget c')" and "0 \<le> i" "i < int (length ts)" "pc_types c' = Some ts"
  using assms by (auto simp: next_arg_id_def do_check_arg_id_def and_then_Inr forget_def split: if_splits)

lemma check_arg_id_sim:
  assumes "check_arg_id i c = Inr c'" and "pc_types c = Some ts"
  shows "check_arg_id i (forget c) = Inr (forget c')" and "i < int (length ts)" "pc_types c' = Some ts"
  using assms by (auto simp: check_arg_id_def do_check_arg_id_def forget_def split: if_splits)

lemma check_dynamic_sim:
  assumes "check_dynamic_spec i c = Inr c'" and "pc_types c = Some ts" "0 \<le> i" "i < int (length ts)"
  shows "check_dynamic_spec i (forget c) = Inr (forget c')" and "is_integral_type (ts ! nat i)" "c' = c"
  using assms by (auto simp: check_dynamic_spec_def split: if_splits)

text \<open>Every name that follows a brace is the name of an argument.\<close>

fun names_known :: "string set \<Rightarrow> string \<Rightarrow> bool" where
  "names_known names [] = True"
| "names_known names (c # s) =
     ((c = CHR ''{'' \<and> s \<noteq> [] \<and> is_name_start (hd s) \<longrightarrow> fst (take_name s) \<in> names) \<and> names_known names s)"

lemma names_known_suffix: "suffix t s \<Longrightarrow> names_known names s \<Longrightarrow> names_known names t"
  by (induction s) (auto simp: suffix_Cons)

fun ref_ok :: "fmt_type list \<Rightarrow> string set \<Rightarrow> arg_ref \<Rightarrow> bool" where
  "ref_ok ts names No_ref = True"
| "ref_ok ts names (Index_ref i) \<longleftrightarrow> 0 \<le> i \<and> i < int (length ts) \<and> is_integral_type (ts ! nat i)"
| "ref_ok ts names (Name_ref n) \<longleftrightarrow> n \<in> names"

lemma parse_int_nonneg:
  assumes "s \<noteq> []" and "ascii_digit (hd s)" and "parse_nonnegative_int s INT_MAX = (v, rest)"
  shows "0 \<le> v"
proof -
  let ?ds = "takeWhile ascii_digit s" and ?r = "dropWhile ascii_digit s"
  have "\<forall>c \<in> set ?ds. ascii_digit c" by (auto dest: set_takeWhileD)
  moreover have "?ds \<noteq> []" using assms(1,2) by (cases s) auto
  moreover have "?r = [] \<or> \<not> ascii_digit (hd ?r)" using hd_dropWhile by blast
  ultimately have "v = (if length ?ds \<le> 10 \<and> int (dec_value ?ds) \<le> INT_MAX then int (dec_value ?ds) else INT_MAX)"
    using parse_int_exact [of ?ds ?r INT_MAX] assms(3) by simp
  then show ?thesis by (simp add: INT_MAX_def)
qed

lemma parse_arg_id_ok:
  assumes "parse_arg_id s = Inr (i, rest)" and "s \<noteq> []"
  shows "i = Index_id n \<Longrightarrow> 0 \<le> n" and "i = Name_id m \<Longrightarrow> is_name_start (hd s) \<and> m = fst (take_name s)"
  using assms parse_int_nonneg [of s] by (cases s; auto simp: parse_arg_id_def do_parse_arg_id_def Let_def split: if_splits prod.splits)+

lemma dynamic_ref_sim:
  assumes "dynamic_ref i c = Inr (r, c')" and "pc_types c = Some ts"
    and "\<And>n. i = Index_id n \<Longrightarrow> 0 \<le> n" and "\<And>n. i = Name_id n \<Longrightarrow> n \<in> names"
  shows "dynamic_ref i (forget c) = Inr (r, forget c') \<and> pc_types c' = Some ts \<and> ref_ok ts names r"
proof (cases i)
  case Auto_id
  then obtain n c1 where "next_arg_id c = Inr (n, c1)" "check_dynamic_spec n c1 = Inr c'" "r = Index_ref n"
    using assms(1) by (auto simp: dynamic_ref_def and_then_Inr)
  then show ?thesis
    using next_arg_id_sim [of c n c1 ts] check_dynamic_sim [of n c1 c' ts] assms(2) Auto_id by (simp add: dynamic_ref_def)
next
  case (Index_id n)
  then obtain c1 where "check_arg_id n c = Inr c1" "check_dynamic_spec n c1 = Inr c'" "r = Index_ref n" "0 \<le> n"
    using assms(1,3) by (auto simp: dynamic_ref_def and_then_Inr)
  then show ?thesis
    using check_arg_id_sim [of n c c1 ts] check_dynamic_sim [of n c1 c' ts] assms(2) Index_id by (simp add: dynamic_ref_def)
next
  case (Name_id n)
  then show ?thesis using assms by (auto simp: dynamic_ref_def check_arg_name_def forget_def)
qed

lemma parse_dynamic_sim:
  assumes "parse_dynamic_spec s v r c = Inr (v', r', rest, c')" and "pc_types c = Some ts"
    and "names_known names s" "ref_ok ts names r"
  shows "parse_dynamic_spec s v r (forget c) = Inr (v', r', rest, forget c') \<and> pc_types c' = Some ts \<and> ref_ok ts names r'"
proof (cases "hd s = CHR ''{'' \<and> s \<noteq> []")
  case True
  then obtain u where u: "s = CHR ''{'' # u" by (cases s) auto
  then obtain i rest1 where i: "parse_arg_id u = Inr (i, rest1)" "u \<noteq> []" "dynamic_ref i c = Inr (r', c')"
    "rest1 \<noteq> []" "hd rest1 = CHR ''}''" "rest = tl rest1" "v' = v"
    using assms(1) by (auto simp: parse_dynamic_spec_def ascii_digit_def Let_def and_then_Inr split: if_splits)
  have "n \<in> names" if "i = Name_id n" for n
    using parse_arg_id_ok(2) [OF i(1,2) that] assms(3) u i(2) by simp
  from dynamic_ref_sim [OF i(3) assms(2) _ this] parse_arg_id_ok(1) [OF i(1,2)]
  show ?thesis using i u by (simp add: parse_dynamic_spec_def ascii_digit_def)
next
  case False
  then show ?thesis using assms by (cases s) (auto simp: parse_dynamic_spec_def Let_def split: if_splits prod.splits)
qed

lemma parse_precision_sim:
  assumes "parse_precision s v r c = Inr (v', r', rest, c')" and "pc_types c = Some ts"
    and "names_known names s" "ref_ok ts names r"
  shows "parse_precision s v r (forget c) = Inr (v', r', rest, forget c') \<and> pc_types c' = Some ts \<and> ref_ok ts names r'"
  using assms parse_dynamic_sim [of "tl s" v r c v' r' rest c' ts names] names_known_suffix [OF suffix_tl, of names s]
  by (auto simp: parse_precision_def Let_def split: if_splits)

definition refs_ok :: "fmt_type list \<Rightarrow> string set \<Rightarrow> format_specs \<Rightarrow> bool" where
  "refs_ok ts names sp \<longleftrightarrow> ref_ok ts names (sp_width_ref sp) \<and> ref_ok ts names (sp_precision_ref sp)"

lemma refs_ok_update [simp]:
  "refs_ok ts names (sp\<lparr>sp_type := p\<rparr>) = refs_ok ts names sp" "refs_ok ts names (sp\<lparr>sp_align := a\<rparr>) = refs_ok ts names sp"
  "refs_ok ts names (sp\<lparr>sp_sign := g\<rparr>) = refs_ok ts names sp" "refs_ok ts names (sp\<lparr>sp_upper := b\<rparr>) = refs_ok ts names sp"
  "refs_ok ts names (sp\<lparr>sp_alt := b\<rparr>) = refs_ok ts names sp" "refs_ok ts names (sp\<lparr>sp_localized := b\<rparr>) = refs_ok ts names sp"
  "refs_ok ts names (sp\<lparr>sp_fill := f\<rparr>) = refs_ok ts names sp" "refs_ok ts names (sp\<lparr>sp_width := w\<rparr>) = refs_ok ts names sp"
  "refs_ok ts names (sp\<lparr>sp_precision := w\<rparr>) = refs_ok ts names sp"
  "refs_ok ts names (sp\<lparr>sp_width_ref := r\<rparr>) \<longleftrightarrow> ref_ok ts names r \<and> ref_ok ts names (sp_precision_ref sp)"
  "refs_ok ts names (sp\<lparr>sp_precision_ref := r\<rparr>) \<longleftrightarrow> ref_ok ts names (sp_width_ref sp) \<and> ref_ok ts names r"
  by (simp_all add: refs_ok_def)

fun round_sim :: "fmt_type list \<Rightarrow> string set \<Rightarrow> round fmt_result \<Rightarrow> round fmt_result \<Rightarrow> bool" where
  "round_sim ts names (Inl e) q = True"
| "round_sim ts names (Inr (Return rest sp c)) q \<longleftrightarrow>
     q = Inr (Return rest sp (forget c)) \<and> pc_types c = Some ts \<and> refs_ok ts names sp"
| "round_sim ts names (Inr (Go_on k rest sp c)) q \<longleftrightarrow>
     q = Inr (Go_on k rest sp (forget c)) \<and> pc_types c = Some ts \<and> refs_ok ts names sp"

lemma round_sim_and_then:
  "(\<And>x. r = Inr x \<Longrightarrow> round_sim ts names (f x) (g x)) \<Longrightarrow> round_sim ts names (and_then r f) (and_then r g)"
  by (cases r) simp_all

lemma round_sim_if:
  "(b \<Longrightarrow> round_sim ts names x x') \<Longrightarrow> (\<not> b \<Longrightarrow> round_sim ts names y y') \<Longrightarrow>
   round_sim ts names (if b then x else y) (if b then x' else y')"
  by simp

lemma round_sim_width:
  assumes "pc_types c = Some ts" "names_known names s" "refs_ok ts names sp"
  shows "round_sim ts names
     (and_then (parse_dynamic_spec s (sp_width sp) (sp_width_ref sp) c) (\<lambda>(v, ref, rest, c).
        Inr (Go_on k rest (sp\<lparr>sp_width := v, sp_width_ref := ref\<rparr>) c)))
     (and_then (parse_dynamic_spec s (sp_width sp) (sp_width_ref sp) (forget c)) (\<lambda>(v, ref, rest, c).
        Inr (Go_on k rest (sp\<lparr>sp_width := v, sp_width_ref := ref\<rparr>) c)))"
  using parse_dynamic_sim [OF _ assms(1,2), of "sp_width sp" "sp_width_ref sp"] assms(3)
  by (cases "parse_dynamic_spec s (sp_width sp) (sp_width_ref sp) c") (auto simp: refs_ok_def)

lemma round_sim_precision:
  assumes "pc_types c = Some ts" "names_known names s" "refs_ok ts names sp"
  shows "round_sim ts names
     (and_then (parse_precision s (sp_precision sp) (sp_precision_ref sp) c) (\<lambda>(v, ref, rest, c).
        Inr (Go_on k rest (sp\<lparr>sp_precision := v, sp_precision_ref := ref\<rparr>) c)))
     (and_then (parse_precision s (sp_precision sp) (sp_precision_ref sp) (forget c)) (\<lambda>(v, ref, rest, c).
        Inr (Go_on k rest (sp\<lparr>sp_precision := v, sp_precision_ref := ref\<rparr>) c)))"
  using parse_precision_sim [OF _ assms(1,2), of "sp_precision sp" "sp_precision_ref sp"] assms(3)
  by (cases "parse_precision s (sp_precision sp) (sp_precision_ref sp) c") (auto simp: refs_ok_def)

lemma round_sim_presentation:
  assumes "pc_types c = Some ts" "refs_ok ts names sp"
  shows "round_sim ts names (parse_presentation_type t p types s sp c) (parse_presentation_type t p types s sp (forget c))"
  using assms by (auto simp: parse_presentation_type_def)

lemma round_sim_fill:
  assumes "pc_types c = Some ts" "refs_ok ts names sp"
  shows "round_sim ts names (parse_fill st s sp c) (parse_fill st s sp (forget c))"
  using assms unfolding parse_fill_def Let_def by (auto intro!: round_sim_if round_sim_and_then)

lemma specs_round_sim:
  assumes "pc_types c = Some ts" "names_known names s" "refs_ok ts names sp"
  shows "round_sim ts names (specs_round t ch st s sp c) (specs_round t ch st s sp (forget c))"
  unfolding specs_round_def Let_def
  using assms
  by (intro round_sim_if round_sim_and_then round_sim_width round_sim_precision round_sim_presentation round_sim_fill)
    (simp_all add: refs_ok_def)

lemma specs_loop_sim:
  assumes "specs_loop t st s sp c = Inr (rest, sp', c')" and "pc_types c = Some ts" "names_known names s" "refs_ok ts names sp"
  shows "specs_loop t st s sp (forget c) = Inr (rest, sp', forget c') \<and> pc_types c' = Some ts \<and> refs_ok ts names sp'"
  using assms
proof (induction t st s sp c rule: specs_loop.induct)
  case (1 t st s sp c)
  show ?case
  proof (cases "s = []")
    case True
    then show ?thesis using 1(2-) by (simp add: specs_loop.simps)
  next
    case False
    note sim = specs_round_sim [OF 1(3-5), of t "hd s" st]
    from 1(2) False consider (ret) "specs_round t (hd s) st s sp c = Inr (Return rest sp' c')"
      | (go) k u sp1 c1 where "specs_round t (hd s) st s sp c = Inr (Go_on k u sp1 c1)" "specs_loop t k u sp1 c1 = Inr (rest, sp', c')"
      by (subst (asm) specs_loop.simps) (auto simp: and_then_round)
    then show ?thesis
    proof cases
      case ret
      then show ?thesis using sim False by (subst specs_loop.simps) simp
    next
      case go
      have "names_known names u" using specs_round_suffix [OF go(1)] names_known_suffix 1(4) by simp
      then show ?thesis using 1(1) [OF False go(1) refl go(2)] sim go(1) False by (subst specs_loop.simps) simp
    qed
  qed
qed

lemma parse_format_specs_sim:
  assumes "parse_format_specs s t c = Inr (rest, sp, c')" and "pc_types c = Some ts" "names_known names s"
  shows "parse_format_specs s t (forget c) = Inr (rest, sp, forget c') \<and> pc_types c' = Some ts \<and> refs_ok ts names sp"
proof -
  have d: "refs_ok ts names default_specs" by (simp add: refs_ok_def default_specs_def)
  note sim = specs_round_sim [OF assms(2,3) d, of t "first_char s" st_start]
  show ?thesis
  proof (cases "s = []")
    case False
    with assms(1) consider (ret) "specs_round t (first_char s) st_start s default_specs c = Inr (Return rest sp c')"
      | (go) k u sp1 c1 where "specs_round t (first_char s) st_start s default_specs c = Inr (Go_on k u sp1 c1)"
        "specs_loop t k u sp1 c1 = Inr (rest, sp, c')"
      by (auto simp: parse_format_specs_def and_then_round)
    then show ?thesis
    proof cases
      case ret
      then show ?thesis using sim False by (simp add: parse_format_specs_def)
    next
      case go
      have "names_known names u" using specs_round_suffix [OF go(1)] names_known_suffix assms(3) by simp
      then show ?thesis using specs_loop_sim [OF go(2)] sim go(1) False by (simp add: parse_format_specs_def)
    qed
  qed (use assms(1,2) d in \<open>auto simp: parse_format_specs_def\<close>)
qed

section \<open>Checked format strings\<close>

text \<open>What depends on the values of the arguments.\<close>

definition value_error :: "string \<Rightarrow> bool" where
  "value_error e \<longleftrightarrow>
     e \<in> {''negative width'', ''width is not integer'', ''negative precision'', ''precision is not integer'',
          ''number is too big'', ''string pointer is null''}"

definition positional :: "'a list \<Rightarrow> (string option \<times> 'a) list" where
  "positional = map (Pair None)"

lemma positional_simps [simp]:
  "length (positional xs) = length xs" "map snd (positional xs) = xs" "i < length xs \<Longrightarrow> positional xs ! i = (None, xs ! i)"
  by (simp_all add: positional_def o_def)

lemma positional_names: "init_named_args k (positional xs) = []"
  by (induction xs arbitrary: k) (simp_all add: positional_def)

lemma positional_get:
  "int (length args) \<le> INT_MAX \<Longrightarrow> 0 \<le> i \<Longrightarrow> i < int (length args) \<Longrightarrow>
     args_get (make_format_args (positional args)) i = Some (args ! nat i)"
  using args_get_eq [of "positional args" i] by simp

lemma dynamic_error:
  assumes "ref_ok (map arg_type args) {} r" and "int (length args) \<le> INT_MAX" and "what \<in> {''width'', ''precision''}"
    and "handle_dynamic_spec what v r (make_format_args (positional args)) = Inl e"
  shows "value_error e"
  using assms
  by (cases r)
    (auto simp: handle_dynamic_spec_def positional_get get_arg_def get_dynamic_spec_def spec_checker_def value_error_def Let_def
      and_then_def split: fmt_arg.splits if_splits sum.splits)

lemma default_write_error: "default_write np a = Inl e \<Longrightarrow> value_error e"
  by (auto simp: default_write_def value_error_def split: fmt_arg.splits if_splits)

lemma specs_write_error:
  assumes "specs_write np sp a = Inl e" and "arg_type a = Char_type \<longrightarrow> check_char_specs sp = Inr b"
  shows "value_error e"
  using assms
  by (cases a) (auto simp: specs_write_def write_char_arg_def write_cstring_def value_error_def split: if_splits)

lemma parse_format_specs_close: "parse_format_specs (CHR ''}'' # s) t ctx = Inr (CHR ''}'' # s, default_specs, ctx)"
  using first_round_none [of "[]" s t ctx] by (simp add: specs_loop_Cons specs_round_type)

text \<open>How a result of the checker bounds one at run time.\<close>

fun field_sim :: "parse_context \<Rightarrow> string \<Rightarrow> (string \<times> format_state) fmt_result \<Rightarrow> bool" where
  "field_sim c rest (Inl e) = value_error e"
| "field_sim c rest (Inr (rest', out, d)) \<longleftrightarrow> rest' = rest \<and> d = forget c"

lemma on_arg_id_sim:
  assumes "on_arg_id (checker_handler (positional ts)) i c = Inr (k, c')" and "pc_types c = Some ts"
    and "\<And>n. i = Index_id n \<Longrightarrow> 0 \<le> n"
  shows "on_arg_id (format_handler np args) i (out, forget c) = Inr (k, out, forget c')"
    and "0 \<le> k" "k < int (length ts)" "pc_types c' = Some ts"
proof -
  have "get_arg_index_by_name j (positional ts) n = - 1" for j n
    by (induction ts arbitrary: j) (simp_all add: positional_def)
  then show "on_arg_id (format_handler np args) i (out, forget c) = Inr (k, out, forget c')"
      "0 \<le> k" "k < int (length ts)" "pc_types c' = Some ts"
    using assms next_arg_id_sim [of c k c' ts] check_arg_id_sim [of k c c' ts]
    by (cases i; auto simp: on_arg_id_def checker_handler_def format_handler_def compile_next_arg_id_def
      compile_check_arg_id_def check_on_name_def format_on_auto_def format_on_index_def and_then_Inr Let_def split: if_splits)+
qed

lemma on_specs_sim:
  assumes "check_on_specs (positional (map arg_type args)) k s c = Inr (rest, c')" and "rest \<noteq> []" "hd rest = CHR ''}''"
    and "pc_types c = Some (map arg_type args)" "names_known {} s" "int (length args) \<le> INT_MAX" "0 \<le> k" "k < int (length args)"
  shows "field_sim c' rest (format_on_specs np (make_format_args (positional args)) k s (out, forget c))"
    and "pc_types c' = Some (map arg_type args)"
proof -
  let ?a = "args ! nat k"
  let ?t = "arg_type ?a"
  have get: "args_get (make_format_args (positional args)) k = Some ?a" using positional_get assms(6-8) by blast
  have "nat k < length args" using assms(7,8) by linarith
  then have "native_parse ?t s c = Inr (rest, c')" using assms(1,7,8) by (simp add: check_on_specs_def)
  moreover have "parse_format_specs s ?t c = Inr (s, default_specs, c) \<and> check_char_specs default_specs = Inr True"
    if "s \<noteq> []" "hd s = CHR ''}''"
    using that parse_format_specs_close [of "tl s" ?t c] by (cases s) (simp_all add: check_char_specs_def default_specs_def)
  ultimately obtain sp b where p: "parse_format_specs s ?t c = Inr (rest, sp, c')" "?t = Char_type \<longrightarrow> check_char_specs sp = Inr b"
    using assms(2) by (auto simp: native_parse_def and_then_Inr split: if_splits)
  note sim = parse_format_specs_sim [OF p(1) assms(4,5)]
  then show "pc_types c' = Some (map arg_type args)" by blast
  have refs: "ref_ok (map arg_type args) {} (sp_width_ref sp)" "ref_ok (map arg_type args) {} (sp_precision_ref sp)"
    using sim by (simp_all add: refs_ok_def)
  note dyn = dynamic_error [OF refs(1) assms(6), of "''width''" "sp_width sp"] dynamic_error [OF refs(2) assms(6), of "''precision''" "sp_precision sp"]
  have char: "check_char_specs (sp\<lparr>sp_width := w, sp_precision := q\<rparr>) = check_char_specs sp" for w q
    by (simp add: check_char_specs_def)
  show "field_sim c' rest (format_on_specs np (make_format_args (positional args)) k s (out, forget c))"
    using sim dyn specs_write_error [of np "sp\<lparr>sp_width := w, sp_precision := q\<rparr>" ?a _ b for w q] p(2) assms(2,3)
    by (auto simp: format_on_specs_def get get_arg_def char format_text_def and_then_def split: sum.splits)
qed

lemma on_field_sim:
  assumes "check_on_field (positional (map arg_type args)) k s c = Inr c'" and "hd s = CHR ''}''"
    and "int (length args) \<le> INT_MAX" "0 \<le> k" "k < int (length args)"
  shows "c' = c"
    and "case format_on_field np (make_format_args (positional args)) k st of Inl e \<Rightarrow> value_error e | Inr st' \<Rightarrow> snd st' = snd st"
proof -
  show "c' = c" using assms by (auto simp: check_on_field_def check_on_specs_def native_parse_def)
  show "case format_on_field np (make_format_args (positional args)) k st of Inl e \<Rightarrow> value_error e | Inr st' \<Rightarrow> snd st' = snd st"
    using default_write_error [of np "args ! nat k"] positional_get [OF assms(3-5)]
    by (auto simp: format_on_field_def get_arg_def and_then_def format_text_def split: sum.split)
qed

lemma handler_simps [simp]:
  "on_text (checker_handler sg) = (\<lambda>tx c. c)" "on_field (checker_handler sg) = check_on_field sg"
  "on_specs (checker_handler sg) = check_on_specs sg" "on_auto (checker_handler sg) c = on_arg_id (checker_handler sg) Auto_id c"
  "on_text (format_handler np args) = format_text" "on_field (format_handler np args) = (\<lambda>i s. format_on_field np args i)"
  "on_specs (format_handler np args) = format_on_specs np args"
  "on_auto (format_handler np args) st = on_arg_id (format_handler np args) Auto_id st"
  by (simp_all add: checker_handler_def format_handler_def on_arg_id_def)

lemma close_sim:
  assumes "on_arg_id (checker_handler (positional (map arg_type args))) i c = Inr (k, c1)"
    and "check_on_field (positional (map arg_type args)) k s c1 = Inr c'" and "hd s = CHR ''}''"
    and "pc_types c = Some (map arg_type args)" "int (length args) \<le> INT_MAX" "\<And>n. i = Index_id n \<Longrightarrow> 0 \<le> n"
  shows "field_sim c' (tl s)
      (and_then (on_arg_id (format_handler np (make_format_args (positional args))) i (out, forget c)) (\<lambda>(k, st).
         and_then (format_on_field np (make_format_args (positional args)) k st) (\<lambda>st. Inr (tl s, st))))"
    and "pc_types c' = Some (map arg_type args)"
proof -
  note id = on_arg_id_sim [OF assms(1,4,6)]
  have k: "k < int (length args)" using id(3) by simp
  have eq: "c' = c1" by (rule on_field_sim(1) [OF assms(2,3,5) id(2) k])
  then show "pc_types c' = Some (map arg_type args)" using id(4) by simp
  show "field_sim c' (tl s)
      (and_then (on_arg_id (format_handler np (make_format_args (positional args))) i (out, forget c)) (\<lambda>(k, st).
         and_then (format_on_field np (make_format_args (positional args)) k st) (\<lambda>st. Inr (tl s, st))))"
    using on_field_sim(2) [OF assms(2,3,5) id(2) k, where np = np and st = "(out, forget c1)"] id(1) eq
    by (auto simp: and_then_def split: sum.splits)
qed

lemma parse_field_sim:
  assumes "parse_replacement_field (checker_handler (positional (map arg_type args))) s c = Inr (rest, c')"
    and "pc_types c = Some (map arg_type args)" "names_known {} s" "int (length args) \<le> INT_MAX"
  shows "field_sim c' rest (parse_replacement_field (format_handler np (make_format_args (positional args))) s (out, forget c)) \<and>
     pc_types c' = Some (map arg_type args)"
proof -
  let ?chk = "checker_handler (positional (map arg_type args))"
  let ?run = "format_handler np (make_format_args (positional args))"
  define u where "u = tl s"
  have u: "u \<noteq> []" using assms(1) by (auto simp: parse_replacement_field_def u_def)
  consider (close) "hd u = CHR ''}''" | (brace) "hd u = CHR ''{''" | (id) "hd u \<noteq> CHR ''}''" "hd u \<noteq> CHR ''{''" by blast
  then show ?thesis
  proof cases
    case close
    then obtain k c1 where "on_arg_id ?chk Auto_id c = Inr (k, c1)" "check_on_field (positional (map arg_type args)) k u c1 = Inr c'"
      "rest = tl u"
      using assms(1) u by (auto simp: parse_replacement_field_def u_def Let_def and_then_Inr)
    then show ?thesis using close_sim [of args Auto_id c k c1 u c'] close u assms(2,4)
      by (simp add: parse_replacement_field_def u_def)
  next
    case brace
    then show ?thesis using assms(1,2) u by (auto simp: parse_replacement_field_def u_def format_text_def)
  next
    case id
    then obtain i v where v: "parse_arg_id u = Inr (i, v)" using assms(1) u
      by (auto simp: parse_replacement_field_def u_def Let_def and_then_Inr)
    have pos: "0 \<le> n" if "i = Index_id n" for n by (rule parse_arg_id_ok(1) [OF v u that])
    have run: "parse_replacement_field h s st = and_then (on_arg_id h i st) (\<lambda>(i, st).
           if v \<noteq> [] \<and> hd v = CHR ''}'' then and_then (on_field h i v st) (\<lambda>st. Inr (tl v, st))
           else if v \<noteq> [] \<and> hd v = CHR '':'' then
             and_then (on_specs h i (tl v) st) (\<lambda>(s, st).
               if s = [] \<or> hd s \<noteq> CHR ''}'' then Inl ''unknown format specifier'' else Inr (tl s, st))
           else Inl missing_brace)" for h :: "'a handler" and st
      using id u v by (simp add: parse_replacement_field_def u_def)
    obtain k c1 where k: "on_arg_id ?chk i c = Inr (k, c1)" using assms(1) unfolding run by (auto simp: and_then_Inr)
    show ?thesis
    proof (cases "v \<noteq> [] \<and> hd v = CHR ''}''")
      case True
      then have "check_on_field (positional (map arg_type args)) k v c1 = Inr c'" "rest = tl v"
        using assms(1) k unfolding run by (auto simp: and_then_Inr)
      then show ?thesis using close_sim [OF k _ _ assms(2,4) pos] True unfolding run by simp
    next
      case False
      then obtain w where w: "check_on_specs (positional (map arg_type args)) k (tl v) c1 = Inr (w, c')" "w \<noteq> []" "hd w = CHR ''}''"
        "rest = tl w" "v \<noteq> []" "hd v = CHR '':''"
        using assms(1) k unfolding run by (auto simp: and_then_Inr split: if_splits)
      note kk = on_arg_id_sim [OF k assms(2) pos]
      have "suffix (tl v) s"
        using parse_arg_id_suffix [OF v] by (auto simp: u_def intro: suffix_tl_left suffix_tl_trans)
      then have "names_known {} (tl v)" using names_known_suffix assms(3) by blast
      then show ?thesis
        using on_specs_sim(1) [OF w(1-3) kk(4) _ assms(4) kk(2), of np out] on_specs_sim(2) [OF w(1-3) kk(4) _ assms(4) kk(2)]
          kk(1,3) w(2-6)
        unfolding run by (auto simp: and_then_def split: sum.splits)
    qed
  qed
qed

lemma checked_loop:
  assumes "small_loop (checker_handler (positional (map arg_type args))) tx s c = Some (Inr c')"
    and "pc_types c = Some (map arg_type args)" "names_known {} s" "int (length args) \<le> INT_MAX"
    and "small_loop (format_handler np (make_format_args (positional args))) tx s (out, forget c) = Some (Inl e)"
  shows "value_error e"
  using assms(1-3,5)
proof (induction "length s" arbitrary: tx s c out rule: less_induct)
  case less
  let ?chk = "checker_handler (positional (map arg_type args))"
  let ?run = "format_handler np (make_format_args (positional args))"
  show ?case
  proof (cases s)
    case Nil
    then show ?thesis using less.prems(4) by (simp add: small_loop_end)
  next
    case (Cons a u)
    consider (brace) "a = CHR ''{''" | (close) "a = CHR ''}''" | (char) "a \<notin> {CHR ''{'', CHR ''}''}" by blast
    then show ?thesis
    proof cases
      case brace
      then obtain rest c1 where f: "parse_replacement_field ?chk s c = Inr (rest, c1)" "small_loop ?chk [] rest c1 = Some (Inr c')"
        using less.prems(1) Cons by (auto simp: small_loop_open split: sum.splits)
      note sim = parse_field_sim [OF f(1) less.prems(2,3) assms(4), of np "out @ tx"]
      have rest: "suffix rest s" "length rest < length s"
        using checker.field_suffix [OF f(1)] checker.field_shorter [OF _ f(1)] Cons by (auto simp: suffix_Cons)
      show ?thesis
      proof (cases "parse_replacement_field ?run s (out @ tx, forget c)")
        case (Inl e')
        then show ?thesis using sim less.prems(4) brace Cons by (simp add: small_loop_open format_text_def)
      next
        case (Inr x)
        then obtain out' where "x = (rest, out', forget c1)" using sim by (cases x) auto
        then have "small_loop ?run [] rest (out', forget c1) = Some (Inl e)"
          using less.prems(4) brace Cons Inr by (simp add: small_loop_open format_text_def)
        then show ?thesis using less.hyps [OF rest(2) f(2)] sim names_known_suffix [OF rest(1) less.prems(3)] by blast
      qed
    next
      case close
      then have "small_loop ?chk [] (tl u) c = Some (Inr c')" "small_loop ?run [] (tl u) (out @ tx @ ''}'', forget c) = Some (Inl e)"
        using less.prems(1,4) Cons by (auto simp: small_loop_close format_text_def split: if_splits)
      moreover have "names_known {} (tl u)" using names_known_suffix [OF suffix_tl] less.prems(3) Cons by simp
      ultimately show ?thesis using less.hyps [of "tl u" "[]" c] less.prems(2) Cons by simp
    next
      case char
      then show ?thesis using less.hyps [of u "tx @ [a]" c out] less.prems Cons by (simp add: small_loop_char)
    qed
  qed
qed

section \<open>Rendering\<close>

text \<open>A format string as pieces: text, \<open>{}\<close>, and a field with a specification for the next argument.\<close>

datatype piece = Text string | Plain | Spec format_specs

definition escape :: "string \<Rightarrow> string" where
  "escape s = concat (map (\<lambda>c. if c \<in> {CHR ''{'', CHR ''}''} then [c, c] else [c]) s)"

fun show_pieces :: "piece list \<Rightarrow> fmt_arg list \<Rightarrow> string" where
  "show_pieces [] args = []"
| "show_pieces (Text s # ps) args = escape s @ show_pieces ps args"
| "show_pieces (Plain # ps) args = ''{}'' @ show_pieces ps (tl args)"
| "show_pieces (Spec sp # ps) args = ''{:'' @ show_specs (arg_type (hd args)) sp @ ''}'' @ show_pieces ps (tl args)"

fun pieces_ok :: "piece list \<Rightarrow> fmt_arg list \<Rightarrow> bool" where
  "pieces_ok [] args \<longleftrightarrow> True"
| "pieces_ok (Text s # ps) args \<longleftrightarrow> pieces_ok ps args"
| "pieces_ok (Plain # ps) args \<longleftrightarrow> args \<noteq> [] \<and> pieces_ok ps (tl args)"
| "pieces_ok (Spec sp # ps) args \<longleftrightarrow> args \<noteq> [] \<and> specs_ok (arg_type (hd args)) sp \<and> pieces_ok ps (tl args)"

text \<open>What should be written: every piece in turn, up to the first error.\<close>

fun render :: "numpunct \<Rightarrow> piece list \<Rightarrow> fmt_arg list \<Rightarrow> string fmt_result" where
  "render np [] args = Inr []"
| "render np (Text s # ps) args = and_then (render np ps args) (\<lambda>y. Inr (s @ y))"
| "render np (Plain # ps) args =
     and_then (default_write np (hd args)) (\<lambda>x. and_then (render np ps (tl args)) (\<lambda>y. Inr (x @ y)))"
| "render np (Spec sp # ps) args =
     and_then (specs_write np sp (hd args)) (\<lambda>x. and_then (render np ps (tl args)) (\<lambda>y. Inr (x @ y)))"

lemma and_then_assoc: "and_then (and_then r f) g = and_then r (\<lambda>x. and_then (f x) g)"
  by (cases r) simp_all

lemma small_loop_escape:
  "\<exists>tx' out'. small_loop (format_handler np fa) tx (escape t @ s) (out, c) = small_loop (format_handler np fa) tx' s (out', c) \<and>
     out' @ tx' = out @ tx @ t"
proof (induction t arbitrary: tx out)
  case (Cons a t)
  consider "a = CHR ''{''" | "a = CHR ''}''" | "a \<notin> {CHR ''{'', CHR ''}''}" by blast
  then show ?case
  proof cases
    case 1
    then have "small_loop (format_handler np fa) tx (escape (a # t) @ s) (out, c) =
        small_loop (format_handler np fa) [] (escape t @ s) (out @ tx @ [a], c)"
      by (simp add: escape_def small_loop_open parse_replacement_field_def format_text_def)
    then show ?thesis using Cons [of "[]" "out @ tx @ [a]"] by simp
  next
    case 2
    then have "small_loop (format_handler np fa) tx (escape (a # t) @ s) (out, c) =
        small_loop (format_handler np fa) [] (escape t @ s) (out @ tx @ [a], c)"
      by (simp add: escape_def small_loop_close format_text_def)
    then show ?thesis using Cons [of "[]" "out @ tx @ [a]"] by simp
  next
    case 3
    then have "small_loop (format_handler np fa) tx (escape (a # t) @ s) (out, c) =
        small_loop (format_handler np fa) (tx @ [a]) (escape t @ s) (out, c)"
      by (simp add: escape_def small_loop_char)
    then show ?thesis using Cons [of "tx @ [a]" out] by simp
  qed
qed (auto simp: escape_def)

definition auto_context :: "nat \<Rightarrow> parse_context" where
  "auto_context n = \<lparr>pc_next = int n, pc_types = None\<rparr>"

lemma auto_next: "on_arg_id (format_handler np fa) Auto_id (out, auto_context n) = Inr (int n, out, auto_context (Suc n))"
  by (simp add: on_arg_id_def format_handler_def format_on_auto_def next_arg_id_def do_check_arg_id_def auto_context_def)

fun count_fields :: "piece list \<Rightarrow> nat" where
  "count_fields [] = 0"
| "count_fields (Text s # ps) = count_fields ps"
| "count_fields (Plain # ps) = Suc (count_fields ps)"
| "count_fields (Spec sp # ps) = Suc (count_fields ps)"

lemma small_loop_pieces:
  assumes "int (length xs) \<le> INT_MAX"
  shows "pieces_ok ps (drop n (map snd xs)) \<Longrightarrow>
     small_loop (format_handler np (make_format_args xs)) tx (show_pieces ps (drop n (map snd xs))) (out, auto_context n) =
       Some (and_then (render np ps (drop n (map snd xs))) (\<lambda>y. Inr (out @ tx @ y, auto_context (n + count_fields ps))))"
proof (induction ps arbitrary: n tx out)
  case Nil
  then show ?case by (simp add: small_loop_end format_text_def)
next
  case (Cons p ps)
  let ?run = "format_handler np (make_format_args xs)" and ?a = "snd (xs ! n)"
  let ?s = "show_pieces ps (drop (Suc n) (map snd xs))"
  have arg: "hd (drop n (map snd xs)) = ?a" "tl (drop n (map snd xs)) = drop (Suc n) (map snd xs)"
    "args_get (make_format_args xs) (int n) = Some ?a" if "drop n (map snd xs) \<noteq> []"
    using that args_get_eq [OF assms, of "int n"] by (simp_all add: hd_drop_conv_nth drop_Suc tl_drop)
  have rest: "(case and_then r (\<lambda>x. Inr (?s, out @ tx @ x, auto_context (Suc n))) of
        Inl e \<Rightarrow> Some (Inl e)
      | Inr x \<Rightarrow> small_loop ?run [] (fst x) (snd x)) =
      Some (and_then (and_then r (\<lambda>x. and_then (render np ps (drop (Suc n) (map snd xs))) (\<lambda>y. Inr (x @ y))))
        (\<lambda>y. Inr (out @ tx @ y, auto_context (n + Suc (count_fields ps)))))"
    if "pieces_ok ps (drop (Suc n) (map snd xs))" for r
    using Cons.IH [OF that, of "[]"] by (cases r) (simp_all add: and_then_assoc)
  show ?case
  proof (cases p)
    case (Text s)
    obtain tx' out' where t: "small_loop ?run tx (escape s @ show_pieces ps (drop n (map snd xs))) (out, auto_context n) =
        small_loop ?run tx' (show_pieces ps (drop n (map snd xs))) (out', auto_context n)" "out' @ tx' = out @ tx @ s"
      using small_loop_escape by blast
    have eq: "out' @ tx' @ y = out @ tx @ s @ y" for y using t(2) by (metis append.assoc)
    show ?thesis using Text t(1) Cons by (simp add: and_then_assoc eq)
  next
    case Plain
    then have a: "drop n (map snd xs) \<noteq> []" "pieces_ok ps (drop (Suc n) (map snd xs))" using Cons.prems arg by auto
    have "parse_replacement_field ?run (''{}'' @ ?s) (out @ tx, auto_context n) =
        and_then (default_write np ?a) (\<lambda>x. Inr (?s, out @ tx @ x, auto_context (Suc n)))"
      using arg(3) [OF a(1)]
      by (simp add: parse_replacement_field_def auto_next format_on_field_def get_arg_def format_text_def and_then_assoc)
    then show ?thesis using Plain arg(1,2) [OF a(1)] rest [OF a(2), of "default_write np ?a"]
      by (simp add: small_loop_open format_text_def)
  next
    case (Spec sp)
    then have a: "drop n (map snd xs) \<noteq> []" "pieces_ok ps (drop (Suc n) (map snd xs))" "specs_ok (arg_type ?a) sp"
      using Cons.prems arg by auto
    let ?f = "show_specs (arg_type ?a) sp @ CHR ''}'' # ?s"
    have refs: "sp_width_ref sp = No_ref" "sp_precision_ref sp = No_ref" "sp\<lparr>sp_width := sp_width sp, sp_precision := sp_precision sp\<rparr> = sp"
      using a(3) by (simp_all add: specs_ok_def)
    have "format_on_specs np (make_format_args xs) (int n) ?f (out @ tx, auto_context (Suc n)) =
        and_then (specs_write np sp ?a) (\<lambda>x. Inr (CHR ''}'' # ?s, out @ tx @ x, auto_context (Suc n)))"
      using arg(3) [OF a(1)] specs_roundtrip [OF a(3)] refs
      by (simp add: format_on_specs_def get_arg_def handle_dynamic_spec_def format_text_def)
    moreover have "parse_arg_id (CHR '':'' # v) = Inr (Auto_id, CHR '':'' # v)" for v
      by (simp add: parse_arg_id_def)
    ultimately have "parse_replacement_field ?run (''{:'' @ ?f) (out @ tx, auto_context n) =
        and_then (specs_write np sp ?a) (\<lambda>x. Inr (?s, out @ tx @ x, auto_context (Suc n)))"
      by (simp add: parse_replacement_field_def auto_next and_then_assoc)
    then show ?thesis using Spec arg(1,2) [OF a(1)] rest [OF a(2), of "specs_write np sp ?a"]
      by (simp add: small_loop_open format_text_def)
  qed
qed

lemma vformat_pieces:
  assumes "pieces_ok ps (map snd xs)" and "int (length xs) \<le> INT_MAX"
  shows "vformat_to np (make_format_args xs) (show_pieces ps (map snd xs)) = Some (render np ps (map snd xs))"
proof -
  have "run_context = auto_context 0" by (simp add: run_context_def auto_context_def)
  then show ?thesis using small_loop_pieces [OF assms(2), of ps 0 np "[]" "[]"] assms(1)
    by (cases "render np ps (map snd xs)") (simp_all add: vformat_small)
qed

section \<open>Corners\<close>

lemmas parse_evals = small_loop_open small_loop_end parse_replacement_field_def parse_arg_id_def do_parse_arg_id_def on_arg_id_def
  checker_handler_def format_handler_def compile_next_arg_id_def compile_check_arg_id_def check_on_name_def next_arg_id_def
  do_check_arg_id_def check_on_specs_def check_on_field_def native_parse_def parse_format_specs_def first_char_def
  specs_round_def enter_state_def parse_dynamic_spec_def dynamic_ref_def check_dynamic_spec_def is_integral_type_def
  ascii_digit_def is_name_start_def run_context_def format_on_auto_def format_on_name_def format_on_field_def
  format_on_specs_def format_text_def get_arg_def handle_dynamic_spec_def get_dynamic_spec_def spec_checker_def check_arg_name_def
  default_specs_def

lemma loop_close: "specs_loop t st (CHR ''}'' # s) sp c = Inr (CHR ''}'' # s, sp, c)"
  by (simp add: specs_loop_Cons specs_round_type)

text \<open>A boolean is an integral type for the checker, but no width for \<open>width_checker\<close>.\<close>

lemma bool_width:
  "\<exists>c. check_format_string [(None, Int_type), (None, Bool_type)] ''{:{}}'' = Some (Inr c)"
  "vformat_to np (make_format_args [(None, Int_arg 1), (None, Bool_arg True)]) ''{:{}}'' = Some (Inl ''width is not integer'')"
  subgoal
    unfolding check_format_string_def checker.parse_small by (simp add: parse_evals loop_close del: handler_simps)
  subgoal
    unfolding vformat_small using args_get_eq [of "[(None, Int_arg 1), (None, Bool_arg True)]"]
    by (simp add: parse_evals loop_close INT_MAX_def nth_Cons' del: handler_simps)
  done

text \<open>After a named field the checker accepts an automatic one; at run time the indexing has become manual.\<close>

lemma named_then_automatic:
  "\<exists>c. check_format_string [(Some ''a'', Int_type), (None, Bool_type)] ''{a}{}'' = Some (Inr c)"
  "vformat_to np (make_format_args [(Some ''a'', Int_arg 1), (None, Bool_arg True)]) ''{a}{}'' =
     Some (Inl ''cannot switch from manual to automatic argument indexing'')"
  subgoal
    unfolding check_format_string_def checker.parse_small by (simp add: parse_evals loop_close del: handler_simps)
  subgoal
    unfolding vformat_small using args_get_eq [of "[(Some ''a'', Int_arg 1), (None, Bool_arg True)]"]
    by (simp add: parse_evals loop_close INT_MAX_def nth_Cons' get_id_eq default_write_def del: handler_simps)
  done

text \<open>A precision without digits is accepted, as no precision.\<close>

lemma empty_precision: "parse_format_specs ''.s}'' String_type c = Inr (''}'', default_specs\<lparr>sp_type := pres_string\<rparr>, c)"
  by (simp add: parse_format_specs_def first_char_def specs_round_def enter_state_def set_defs parse_precision_def
      parse_dynamic_spec_def ascii_digit_def default_specs_def specs_loop_Cons parse_presentation_type_def)

text \<open>With a locale, zero padding is a fill like any other: it comes before the sign.\<close>

lemma localized_zeros:
  "write_integral \<lparr>np_grouping = [], np_sep = []\<rparr> 32 1
     (default_specs\<lparr>sp_sign := Plus, sp_width := 5, sp_align := Align_numeric, sp_fill := ''0'', sp_localized := True\<rparr>) = ''000+1''"
proof -
  have d: "int_digits 64 1 sp = (1, ''1'')" if "sp_type sp = 0" for sp
    using int_digits_eq [of 64 1 sp] that by (simp add: digits_text_def to_base.simps digit_of_def)
  have p: "prefix_for ''+'' 0x0100002b" using prefix_for_sign [of "''+''"] by (simp add: sign_prefixes_def)
  show ?thesis
    using p by (simp add: write_integral_def make_write_int_arg_def write_int_grouped_def default_specs_def d [unfolded One_nat_def] int_prefix_def
        count_separators_def grouping_apply_def separators.simps next_separator_def write_padded_def shifts_def fill_n_def
        prefix_for_def numeral_3_eq_3 INT_MAX_def)
qed

section \<open>Properties\<close>

text \<open>
  C3: a format string made of escaped text, of \<open>{}\<close> and of fields with any specification their
  argument's type allows is formatted piece by piece: text as it is, every field as its argument is
  written with exactly that specification, the arguments in order, whether they are packed or not.
\<close>

theorem format_renders:
  assumes "pieces_ok ps (map snd xs)" and "int (length xs) \<le> INT_MAX"
  shows "vformat_to np (make_format_args xs) (show_pieces ps (map snd xs)) = Some (render np ps (map snd xs))"
  using assms by (rule vformat_pieces)

definition sample_width :: format_specs where
  "sample_width = default_specs\<lparr>sp_fill := ''*'', sp_align := Align_right, sp_width := 6\<rparr>"

theorem format_renders_witness:
  "show_pieces [Text ''{a} '', Plain, Text '' '', Spec sample_width] [String_arg ''x'', Bool_arg True] = ''{{a}} {} {:*>6}'' \<and>
   vformat_to classic (make_format_args [(None, String_arg ''x''), (None, Bool_arg True)]) ''{{a}} {} {:*>6}'' = Some (Inr ''{a} x **true'')"
proof -
  let ?ps = "[Text ''{a} '', Plain, Text '' '', Spec sample_width]" and ?xs = "[(None, String_arg ''x''), (None, Bool_arg True)]"
  have d: "dec 6 = ''6''" by (simp add: dec.simps digit_char_def char_of_def bit_0)
  have shown: "show_pieces ?ps [String_arg ''x'', Bool_arg True] = ''{{a}} {} {:*>6}''"
    by (simp add: escape_def show_specs_def show_align_def align_char_def show_rest_def show_sign_def type_char_def
        is_integral_type_def sample_width_def default_specs_def d)
  have star: "fill_ok ''*''" unfolding fill_ok_def by (rule exI [where x = 42]) (simp add: scalar_def utf8_def char_of_def bit_0)
  then have "pieces_ok ?ps (map snd ?xs)"
    by (simp add: specs_ok_def sample_width_def default_specs_def set_defs pres_ok_def INT_MAX_def)
  from format_renders [OF this, of classic]
  have "vformat_to classic (make_format_args ?xs) ''{{a}} {} {:*>6}'' = Some (render classic ?ps [String_arg ''x'', Bool_arg True])"
    unfolding list.map snd_conv shown by (simp add: INT_MAX_def)
  then show ?thesis unfolding shown
    by (simp add: default_write_def specs_write_def write_bool_def write_bytes_def write_padded_def shifts_def
        sample_width_def default_specs_def fill_n_def numeral_2_eq_2)
qed

text \<open>
  Whatever the format string and its arguments, both loops of \<open>parse_format_string\<close> end with
  the same output or the same error, so that the choice by the length of the string and the
  shortcut for \<open>{}\<close> change nothing.
\<close>

theorem format_one_loop:
  "big_loop (format_handler np args) s st = small_loop (format_handler np args) [] s st \<and>
   small_loop (format_handler np args) [] s st \<noteq> None \<and>
   vformat_to np args s =
     map_option (\<lambda>r. and_then r (\<lambda>st. Inr (fst st))) (small_loop (format_handler np args) [] s ([], run_context))"
proof -
  obtain r where "small_loop (format_handler np args) [] s st = Some r" using formatting.small_loop_total by blast
  then show ?thesis by (simp add: formatting.loops_agree vformat_small)
qed

text \<open>
  C4: a format string that the checker accepts for the types of the arguments, at most \<open>INT_MAX\<close> and none of them named, and
  that uses no names, can only fail at run time for the value of a dynamic width or precision
  or a null C string. All other errors are ruled out, an argument that is missing as well as a specification that
  does not fit its type.
\<close>

theorem checked_formats:
  assumes "check_format_string (positional (map arg_type args)) s = Some (Inr c)"
    and "names_known {} s" and "int (length args) \<le> INT_MAX"
    and "vformat_to np (make_format_args (positional args)) s = Some (Inl e)"
  shows "value_error e"
proof -
  let ?c = "\<lparr>pc_next = 0, pc_types = Some (map arg_type args)\<rparr>"
  have f: "forget ?c = run_context" by (simp add: forget_def run_context_def)
  have "small_loop (format_handler np (make_format_args (positional args))) [] s ([], forget ?c) = Some (Inl e)"
    using assms(4) unfolding f vformat_small map_option_eq_Some and_then_def
    by (elim exE conjE) (auto split: sum.split_asm)
  moreover have "small_loop (checker_handler (positional (map arg_type args))) [] s ?c = Some (Inr c)"
    using assms(1) by (simp add: check_format_string_def checker.parse_small)
  ultimately show ?thesis using checked_loop [OF _ _ assms(2,3)] by simp
qed


theorem checked_formats_witness:
  "check_format_string (positional [Int_type, Int_type]) ''{:{}}'' = Some (Inr \<lparr>pc_next = 2, pc_types = Some [Int_type, Int_type]\<rparr>) \<and>
   vformat_to classic (make_format_args (positional [Int_arg 1, Int_arg (- 5)])) ''{:{}}'' = Some (Inl ''negative width'') \<and>
   value_error ''negative width''"
proof -
  have c: "check_format_string (positional (map arg_type [Int_arg 1, Int_arg (- 5)])) ''{:{}}'' =
      Some (Inr \<lparr>pc_next = 2, pc_types = Some [Int_type, Int_type]\<rparr>)"
    unfolding check_format_string_def checker.parse_small
    by (simp add: parse_evals loop_close positional_def del: handler_simps)
  moreover have r: "vformat_to classic (make_format_args (positional [Int_arg 1, Int_arg (- 5)])) ''{:{}}'' = Some (Inl ''negative width'')"
    unfolding vformat_small using args_get_eq [of "positional [Int_arg 1, Int_arg (- 5)]"]
    by (simp add: parse_evals loop_close INT_MAX_def positional_def nth_Cons' del: handler_simps)
  moreover have "value_error ''negative width''"
    by (rule checked_formats [OF c _ _ r]) (simp_all add: INT_MAX_def is_name_start_def)
  ultimately show ?thesis by simp
qed

end
