(* ===== verification/Log_Calls.thy ===== *)
theory Log_Calls
  imports Loggers Fmt_Format
begin

text \<open>
  A call \<open>log(level, fmt, args...)\<close> of \<^verbatim>\<open>include/logger.h\<close> from its format string to the sinks: \<open>log_\<close> with
  the \<open>vformat_to\<close> of the bundled \<^verbatim>\<open>fmt\<close>. The error of a format string is a \<open>std::runtime_error\<close>.
\<close>

definition formatted_text :: "string fmt_result \<Rightarrow> excpt + string" where
  "formatted_text r = (case r of Inl e \<Rightarrow> Inl (Std_exception e) | Inr tx \<Rightarrow> Inr tx)"

text \<open>Formatting depends on nothing but the call, so that it does not matter that a call that is not logged skips it.\<close>

definition log_call ::
  "'c sys_env \<Rightarrow> 'c heap log_fun \<Rightarrow> size_t \<Rightarrow> logger \<Rightarrow> source_loc \<Rightarrow> level_enum \<Rightarrow> numpunct \<Rightarrow> string \<Rightarrow>
     (string option \<times> fmt_arg) list \<Rightarrow> 'c heap \<Rightarrow> (excpt option \<times> 'c heap) option" where
  "log_call env slog thread_id lg l lv np fmt xs h =
     do { r \<leftarrow> vformat_to np (make_format_args xs) fmt;
          log_formatted env slog thread_id lg l lv (formatted_text r) h }"

text \<open>A call with a time point gives the clock's time.\<close>

lemma log_formatted_at:
  assumes "log_at slog thread_id lg (clock env (ticks (io h))) l lv tx (h\<lparr>io := (io h)\<lparr>ticks := ticks (io h) + 1\<rparr>\<rparr>) = Some (None, h1)"
  shows "\<exists>h'. log_formatted env slog thread_id lg l lv (Inr tx) h = Some (None, h') \<and>
     (should_log lg lv \<or> backtrace_enabled lg h \<longrightarrow> h' = h1) \<and> (\<not> should_log lg lv \<and> \<not> backtrace_enabled lg h \<longrightarrow> h' = h)"
proof -
  have "backtrace_enabled lg (h\<lparr>io := w\<rparr>) = backtrace_enabled lg h" for w
    by (simp add: backtrace_enabled_def split: option.split)
  moreover have "caught None h1 = (None, h1)" for h1 :: "'a heap" by (simp add: caught_def)
  ultimately show ?thesis
    using assms by (auto simp: log_formatted_def log_at_def read_clock_def Let_def split: if_splits)
qed

section \<open>Properties\<close>

text \<open>
  C29: a call with a format string of escaped text and fields that fit their arguments always returns
  normally. If an argument cannot be written, no sink changes and the error is reported, when
  the call would have been logged at all; otherwise every sink whose level and whose logger's level admit the
  message gets one line for the rendered text, at the end, and the others keep their text.
\<close>

theorem log_call_writes:
  assumes "healthy (oenv env)" and "distinct (lg_sinks lg)" and "heap_ok env (lg_sinks lg) h"
    and "pieces_ok ps (map snd xs)" and "int (length xs) \<le> INT_MAX"
    and "\<And>tx. render np ps (map snd xs) = Inr tx \<Longrightarrow>
      printable_at env h (lg_sinks lg) (mk_log_msg thr (clock env (ticks (io h))) l lv tx (lg_name lg))"
  shows "\<exists>h'. log_call env (logger_sink_log env lg) thr lg l lv np (show_pieces ps (map snd xs)) xs h = Some (None, h') \<and>
     (case render np ps (map snd xs) of
        Inl e \<Rightarrow> h' = h\<lparr>reports := reports h @ (if log_level lg \<le> lv \<or> backtrace_enabled lg h then [e] else [])\<rparr>
      | Inr tx \<Rightarrow> reports h' = reports h \<and>
          (\<forall>j \<in> set (lg_sinks lg). text_at h' j = text_at h j @
             (if log_level lg \<le> lv \<and> sink_level (sink_at h j) \<le> lv
              then line_at env h j (mk_log_msg thr (clock env (ticks (io h))) l lv tx (lg_name lg)) else [])))"
proof (cases "render np ps (map snd xs)")
  case (Inl e)
  have "vformat_to np (make_format_args xs) (show_pieces ps (map snd xs)) = Some (Inl e)"
    using vformat_pieces [OF assms(4,5)] Inl by simp
  then show ?thesis
    using Inl by (simp add: log_call_def formatted_text_def log_formatted_def should_log_def caught_def Let_def)
next
  case (Inr tx)
  let ?m = "mk_log_msg thr (clock env (ticks (io h))) l lv tx (lg_name lg)"
  let ?h = "h\<lparr>io := (io h)\<lparr>ticks := ticks (io h) + 1\<rparr>\<rparr>"
  have lv: "level ?m = lv" by (simp add: mk_log_msg_def)
  have ok: "heap_ok env (lg_sinks lg) ?h" "printable_at env ?h (lg_sinks lg) ?m" using assms(3,6) Inr by simp_all
  obtain h1 where h1: "log_at (logger_sink_log env lg) thr lg (clock env (ticks (io h))) l lv tx ?h = Some (None, h1)"
    "kept env lg ?h h1"
    "\<forall>j \<in> set (lg_sinks lg). text_at h1 j = text_at h j @ (if should_log lg lv then added env h j ?m else [])"
    using log_at_ok [OF assms(1) ok(1) assms(2) refl ok(2)] by (auto simp: lv)
  obtain h' where h': "log_formatted env (logger_sink_log env lg) thr lg l lv (Inr tx) h = Some (None, h')"
    "should_log lg lv \<or> backtrace_enabled lg h \<longrightarrow> h' = h1" "\<not> should_log lg lv \<and> \<not> backtrace_enabled lg h \<longrightarrow> h' = h"
    using log_formatted_at [OF h1(1)] by blast
  have "log_call env (logger_sink_log env lg) thr lg l lv np (show_pieces ps (map snd xs)) xs h = Some (None, h')"
    using vformat_pieces [OF assms(4,5)] Inr h'(1) by (simp add: log_call_def formatted_text_def)
  moreover have "reports h' = reports h" using h'(2,3) h1(2) by (cases "should_log lg lv \<or> backtrace_enabled lg h") (auto simp: kept_def)
  moreover have "\<forall>j \<in> set (lg_sinks lg). text_at h' j = text_at h j @ (if should_log lg lv then added env h j ?m else [])"
    using h'(2,3) h1(3) by (cases "should_log lg lv \<or> backtrace_enabled lg h") auto
  ultimately show ?thesis using Inr by (auto simp: added_def should_log_def sink_should_log_def lv)
qed

theorem log_call_writes_witness:
  "\<exists>h'. log_call sample_sys (logger_sink_log sample_sys sample_logger) 7 sample_logger source_loc_default Warn classic ''{{{}}}''
       [(None, String_arg ''x'')] sample_heap = Some (None, h') \<and>
     text_at h' 0 = ''< net>\<newline>'' \<and> text_at h' 3 = ''< net>\<newline>''"
proof -
  let ?ps = "[Text ''{'', Plain, Text ''}'']" and ?xs = "[(None :: string option, String_arg ''x'')]"
  have shown: "show_pieces ?ps (map snd ?xs) = ''{{{}}}''" by (simp add: escape_def)
  have rn: "render classic ?ps (map snd ?xs) = Inr ''{x}''" by (simp add: default_write_def)
  let ?m = "mk_log_msg 7 (clock sample_sys (ticks (io sample_heap))) source_loc_default Warn ''{x}'' (lg_name sample_logger)"
  have name: "lg_name sample_logger = ''net''" "lg_sinks sample_logger = [0, 3]" "log_level sample_logger = Info"
    by (simp_all add: sample_logger_def logger_new_def)
  have clock: "0 \<le> clock sample_sys t \<and> clock sample_sys t < 100" for t by (simp add: sample_sys_def)
  have m: "valid_msg ?m" unfolding name using clock by (intro sample_valid_msgs) simp_all
  have line: "line_at sample_sys sample_heap i ?m = ''< net>\<newline>''" for i
    using sample_name_line(2) [OF m] by (simp add: name mk_log_msg_def sample_aligned)
  have "text_at sample_heap 0 = []" "text_at sample_heap 3 = []" "sink_level (sink_at sample_heap 0) = Trace"
    "sink_level (sink_at sample_heap 3) = Warn"
    by (simp_all add: text_at_def sample_heap_def sample_io_def)
  then show ?thesis
    using log_call_writes [of sample_sys sample_logger sample_heap ?ps ?xs classic 7 source_loc_default Warn]
      sample_healthy(1) sample_heap_ok sample_name_line(1) [OF m]
    unfolding shown rn by (auto simp: name line [unfolded name] less_eq_level_enum_def INT_MAX_def)
qed

end
