(* ===== verification/Explicit_Producer.thy ===== *)
theory Explicit_Producer
  imports Log_Prelude "HOL-Library.Signed_Division"
begin

text \<open>
  The sub-queue of one producer with a token in \<^verbatim>\<open>base/concurrentqueue/concurrentqueue.h\<close> (\<open>ExplicitProducer\<close>): one
  thread enqueues, any number of threads dequeue. Every access to shared memory is a step, sequentially
  consistent; a run of accesses that are not atomic joins the next step. The traits are the default ones (\<open>BLOCK_SIZE\<close> 32, flags for
  empty blocks, no size limit), the elements are moved without exceptions (as \<open>async_msg\<close> is), and the allocation in the
  constructor succeeds. Blocks and block indices have addresses; a fresh index has unspecified entries, here
  zeros. What the pool of blocks promises is that a block it hands out belongs to no producer.
\<close>

section \<open>Indices\<close>

type_synonym index_t = "64 word"

abbreviation (input) "BLOCK_SIZE \<equiv> 32 :: 64 word"
abbreviation (input) "EXPLICIT_INITIAL_INDEX_SIZE \<equiv> 32 :: 64 word"

definition circular_less_than :: "index_t \<Rightarrow> index_t \<Rightarrow> bool" where
  "circular_less_than a b \<longleftrightarrow> a - b > push_bit 63 1"

text \<open>\<open>ceil_to_pow_2\<close> on 64 bits.\<close>

definition ceil_to_pow_2 :: "64 word \<Rightarrow> 64 word" where
  "ceil_to_pow_2 x =
     (let x = x - 1;
          x = x OR drop_bit 1 x; x = x OR drop_bit 2 x; x = x OR drop_bit 4 x;
          x = x OR drop_bit 8 x; x = x OR drop_bit 16 x; x = x OR drop_bit 32 x
      in x + 1)"

section \<open>Blocks\<close>

record 'a block =
  bl_next :: nat
  bl_flags :: "bool list"
  bl_elems :: "nat \<Rightarrow> 'a option"

definition cell :: "index_t \<Rightarrow> nat" where
  "cell i = unat (i AND (BLOCK_SIZE - 1))"

definition flag_of :: "index_t \<Rightarrow> nat" where
  "flag_of i = unat (BLOCK_SIZE - 1 - (i AND (BLOCK_SIZE - 1)))"

definition is_empty :: "'a block \<Rightarrow> bool" where
  "is_empty b = list_all (\<lambda>f. f) (bl_flags b)"

definition set_empty :: "index_t \<Rightarrow> 'a block \<Rightarrow> 'a block" where
  "set_empty i b = b\<lparr>bl_flags := (bl_flags b)[flag_of i := True]\<rparr>"

definition reset_empty :: "'a block \<Rightarrow> 'a block" where
  "reset_empty b = b\<lparr>bl_flags := replicate 32 False\<rparr>"

definition put_elem :: "index_t \<Rightarrow> 'a option \<Rightarrow> 'a block \<Rightarrow> 'a block" where
  "put_elem i x b = b\<lparr>bl_elems := (bl_elems b)(cell i := x)\<rparr>"

section \<open>The block index\<close>

record index_header =
  ih_size :: "64 word"
  ih_front :: "64 word"
  ih_entries :: "nat \<Rightarrow> index_t \<times> nat"

record 'a producer =
  tail_index :: index_t
  head_index :: index_t
  optimistic :: index_t
  overcommit :: index_t
  tail_block :: "nat option"
  block_at :: "nat \<Rightarrow> 'a block"
  owned :: "nat set"
  block_index :: nat
  header_at :: "nat \<Rightarrow> index_header"
  slots_used :: "64 word"
  index_size :: "64 word"
  index_front :: "64 word"

text \<open>\<open>new_block_index\<close>: the loop that copies the old entries, with one round for each of them.\<close>

type_synonym entries = "nat \<Rightarrow> index_t \<times> nat"

fun copy_entries ::
  "nat \<Rightarrow> 64 word \<Rightarrow> 64 word \<Rightarrow> 64 word \<Rightarrow> entries \<Rightarrow> nat \<Rightarrow> entries \<Rightarrow> (nat \<times> entries) option" where
  "copy_entries 0 i fr msk old j new = None"
| "copy_entries (Suc fuel) i fr msk old j new =
     (let new' = new(j := old (unat i)); i' = (i + 1) AND msk
      in if i' \<noteq> fr then copy_entries fuel i' fr msk old (Suc j) new' else Some (Suc j, new'))"

definition new_block_index :: "64 word \<Rightarrow> 'a producer \<Rightarrow> 'a producer option" where
  "new_block_index filled p =
     (let msk = index_size p - 1;
          size = push_bit 1 (index_size p);
          copied = (if slots_used p \<noteq> 0
                    then copy_entries (unat (index_size p)) ((index_front p - slots_used p) AND msk) (index_front p) msk
                           (ih_entries (header_at p (block_index p))) 0 (\<lambda>_. (0, 0))
                    else Some (0, \<lambda>_. (0, 0)))
      in map_option (\<lambda>(j, new).
           p\<lparr>index_size := size, index_front := word_of_nat j, block_index := block_index p + 1,
             header_at := (header_at p)(block_index p + 1 := \<lparr>ih_size = size, ih_front = filled - 1, ih_entries = new\<rparr>)\<rparr>) copied)"

text \<open>The constructor with an initial pool of \<open>n\<close> blocks; its index is the second one.\<close>

definition producer_new :: "64 word \<Rightarrow> 'a producer option" where
  "producer_new n =
     (let size = drop_bit 1 EXPLICIT_INITIAL_INDEX_SIZE;
          pool = drop_bit 1 (ceil_to_pow_2 n);
          size = (if pool > size then pool else size)
      in new_block_index 0
           \<lparr>tail_index = 0, head_index = 0, optimistic = 0, overcommit = 0, tail_block = None,
            block_at = (\<lambda>_. \<lparr>bl_next = 0, bl_flags = replicate 32 False, bl_elems = (\<lambda>_. None)\<rparr>), owned = {},
            block_index = 0, header_at = (\<lambda>_. \<lparr>ih_size = 0, ih_front = 0, ih_entries = (\<lambda>_. (0, 0))\<rparr>),
            slots_used = 0, index_size = size, index_front = 0\<rparr>)"

definition block_of :: "index_header \<Rightarrow> 64 word \<Rightarrow> index_t \<Rightarrow> nat" where
  "block_of h front i =
     (let head_base = fst (ih_entries h (unat front));
          block_base = i AND NOT (BLOCK_SIZE - 1);
          offset = word_of_int (sint (block_base - head_base) sdiv sint BLOCK_SIZE)
      in snd (ih_entries h (unat ((front + offset) AND (ih_size h - 1)))))"

definition size_approx :: "'a producer \<Rightarrow> 64 word" where
  "size_approx p = (if circular_less_than (head_index p) (tail_index p) then tail_index p - head_index p else 0)"

section \<open>The steps\<close>

datatype 'a event = Internal | Enqueued 'a | Enqueue_failed | Dequeued index_t 'a | Dequeue_failed | Undefined

text \<open>The producer, in \<open>enqueue\<close>.\<close>

datatype 'a enq_pc =
    E_idle | E_need 'a | E_head 'a | E_grow 'a | E_block 'a | E_entry 'a | E_front 'a | E_elem 'a | E_tail 'a

definition reusable :: "'a producer \<Rightarrow> nat \<Rightarrow> bool" where
  "reusable p b \<longleftrightarrow> (\<exists>t. tail_block p = Some t \<and> b = bl_next (block_at p t) \<and> is_empty (block_at p b))"

definition reuse_block :: "nat \<Rightarrow> 'a producer \<Rightarrow> 'a producer" where
  "reuse_block b p = p\<lparr>tail_block := Some b, block_at := (block_at p)(b := reset_empty (block_at p b))\<rparr>"

definition link_block :: "nat \<Rightarrow> 'a producer \<Rightarrow> 'a producer" where
  "link_block b p =
     (case tail_block p of
        None \<Rightarrow> p\<lparr>block_at := (block_at p)(b := (block_at p b)\<lparr>bl_next := b\<rparr>)\<rparr>
      | Some t \<Rightarrow> p\<lparr>block_at := (block_at p)(b := (block_at p b)\<lparr>bl_next := bl_next (block_at p t)\<rparr>,
                                            t := (block_at p t)\<lparr>bl_next := b\<rparr>)\<rparr>)"

definition insert_block :: "nat \<Rightarrow> 'a producer \<Rightarrow> 'a producer" where
  "insert_block b p =
     (let p = p\<lparr>block_at := (block_at p)(b := reset_empty (block_at p b)), owned := insert b (owned p)\<rparr>;
          p = link_block b p
      in p\<lparr>tail_block := Some b, slots_used := slots_used p + 1\<rparr>)"

definition upd_header :: "(index_header \<Rightarrow> index_header) \<Rightarrow> 'a producer \<Rightarrow> 'a producer" where
  "upd_header f p = p\<lparr>header_at := (header_at p)(block_index p := f (header_at p (block_index p)))\<rparr>"

definition add_entry :: "'a producer \<Rightarrow> 'a producer" where
  "add_entry p =
     upd_header (\<lambda>h. h\<lparr>ih_entries := (ih_entries h)(unat (index_front p) := (tail_index p, the (tail_block p)))\<rparr>) p"

definition publish_front :: "'a producer \<Rightarrow> 'a producer" where
  "publish_front p =
     (upd_header (\<lambda>h. h\<lparr>ih_front := index_front p\<rparr>) p)\<lparr>index_front := (index_front p + 1) AND (index_size p - 1)\<rparr>"

definition put_at :: "nat \<Rightarrow> index_t \<Rightarrow> 'a option \<Rightarrow> 'a producer \<Rightarrow> 'a producer" where
  "put_at b i x p = p\<lparr>block_at := (block_at p)(b := put_elem i x (block_at p b))\<rparr>"

inductive enq_step :: "'a producer \<times> 'a enq_pc \<Rightarrow> 'a event \<Rightarrow> 'a producer \<times> 'a enq_pc \<Rightarrow> bool" where
  e_call: "enq_step (p, E_idle) Internal (p, if tail_index p AND (BLOCK_SIZE - 1) = 0 then E_need x else E_elem x)"
| e_reuse: "reusable p b \<Longrightarrow> enq_step (p, E_need x) Internal (reuse_block b p, E_entry x)"
| e_new: "(\<And>b. \<not> reusable p b) \<Longrightarrow> enq_step (p, E_need x) Internal (p, E_head x)"
| e_no_room: "\<not> circular_less_than (head_index p) (tail_index p + BLOCK_SIZE) \<Longrightarrow>
    enq_step (p, E_head x) Enqueue_failed (p, E_idle)"
| e_room: "circular_less_than (head_index p) (tail_index p + BLOCK_SIZE) \<Longrightarrow>
    enq_step (p, E_head x) Internal (p, if slots_used p = index_size p then E_grow x else E_block x)"
| e_no_index: "enq_step (p, E_grow x) Enqueue_failed (p, E_idle)"
| e_grow: "new_block_index (slots_used p) p = Some p' \<Longrightarrow> enq_step (p, E_grow x) Internal (p', E_block x)"
| e_no_block: "enq_step (p, E_block x) Enqueue_failed (p, E_idle)"
| e_block: "b \<notin> owned p \<Longrightarrow> enq_step (p, E_block x) Internal (insert_block b p, E_entry x)"
| e_entry: "enq_step (p, E_entry x) Internal (add_entry p, E_front x)"
| e_front: "enq_step (p, E_front x) Internal (publish_front p, E_elem x)"
| e_elem: "tail_block p = Some b \<Longrightarrow> enq_step (p, E_elem x) Internal (put_at b (tail_index p) (Some x) p, E_tail x)"
| e_broken: "tail_block p = None \<Longrightarrow> enq_step (p, E_elem x) Undefined (p, E_idle)"
| e_tail: "enq_step (p, E_tail x) (Enqueued x) (p\<lparr>tail_index := tail_index p + 1\<rparr>, E_idle)"

text \<open>A consumer, in \<open>dequeue\<close>, with the local variables that are still in use.\<close>

datatype deq_pc =
    D_idle | D_overcommit index_t | D_optimistic index_t index_t | D_fetch index_t | D_tail index_t index_t
  | D_head index_t index_t | D_fail index_t index_t | D_index index_t | D_front index_t nat
  | D_entry index_t nat "64 word" | D_read index_t nat | D_set index_t nat

inductive deq_step :: "'a producer \<times> deq_pc \<Rightarrow> 'a event \<Rightarrow> 'a producer \<times> deq_pc \<Rightarrow> bool" where
  d_call: "deq_step (p, D_idle) Internal (p, D_overcommit (tail_index p))"
| d_overcommit: "deq_step (p, D_overcommit t) Internal (p, D_optimistic t (overcommit p))"
| d_empty: "\<not> circular_less_than (optimistic p - oc) t \<Longrightarrow> deq_step (p, D_optimistic t oc) Dequeue_failed (p, D_idle)"
| d_maybe: "circular_less_than (optimistic p - oc) t \<Longrightarrow> deq_step (p, D_optimistic t oc) Internal (p, D_fetch oc)"
| d_fetch: "deq_step (p, D_fetch oc) Internal (p\<lparr>optimistic := optimistic p + 1\<rparr>, D_tail oc (optimistic p))"
| d_there: "circular_less_than (c - oc) (tail_index p) \<Longrightarrow> deq_step (p, D_tail oc c) Internal (p, D_head oc c)"
| d_gone: "\<not> circular_less_than (c - oc) (tail_index p) \<Longrightarrow> deq_step (p, D_tail oc c) Internal (p, D_fail oc c)"
| d_fail: "deq_step (p, D_fail oc c) Dequeue_failed (p\<lparr>overcommit := overcommit p + 1\<rparr>, D_idle)"
| d_claim: "deq_step (p, D_head oc c) Internal (p\<lparr>head_index := head_index p + 1\<rparr>, D_index (head_index p))"
| d_index: "deq_step (p, D_index i) Internal (p, D_front i (block_index p))"
| d_front: "deq_step (p, D_front i g) Internal (p, D_entry i g (ih_front (header_at p g)))"
| d_entry: "deq_step (p, D_entry i g f) Internal (p, D_read i (block_of (header_at p g) f i))"
| d_read: "bl_elems (block_at p b) (cell i) = Some x \<Longrightarrow>
    deq_step (p, D_read i b) (Dequeued i x) (put_at b i None p, D_set i b)"
| d_broken: "bl_elems (block_at p b) (cell i) = None \<Longrightarrow> deq_step (p, D_read i b) Undefined (p, D_idle)"
| d_set: "deq_step (p, D_set i b) Internal (p\<lparr>block_at := (block_at p)(b := set_empty i (block_at p b))\<rparr>, D_idle)"

record 'a sub_queue =
  producer_of :: "'a producer"
  enqueuer :: "'a enq_pc"
  dequeuers :: "nat \<Rightarrow> deq_pc"

inductive sub_step :: "'a sub_queue \<Rightarrow> 'a event \<Rightarrow> 'a sub_queue \<Rightarrow> bool" where
  enq: "enq_step (producer_of s, enqueuer s) e (p, pc) \<Longrightarrow> sub_step s e (s\<lparr>producer_of := p, enqueuer := pc\<rparr>)"
| deq: "deq_step (producer_of s, dequeuers s t) e (p, pc) \<Longrightarrow>
    sub_step s e (s\<lparr>producer_of := p, dequeuers := (dequeuers s)(t := pc)\<rparr>)"

inductive sub_run :: "'a sub_queue \<Rightarrow> 'a event list \<Rightarrow> 'a sub_queue \<Rightarrow> bool" for s where
  start: "sub_run s [] s"
| more: "sub_run s es s' \<Longrightarrow> sub_step s' e s'' \<Longrightarrow> sub_run s (es @ [e]) s''"

definition sub_new :: "64 word \<Rightarrow> 'a sub_queue option" where
  "sub_new n = map_option (\<lambda>p. \<lparr>producer_of = p, enqueuer = E_idle, dequeuers = (\<lambda>_. D_idle)\<rparr>) (producer_new n)"

text \<open>What a run has enqueued and dequeued.\<close>

fun enq_list :: "'a event list \<Rightarrow> 'a list" where
  "enq_list [] = []"
| "enq_list (Enqueued x # es) = x # enq_list es"
| "enq_list (_ # es) = enq_list es"

fun deq_list :: "'a event list \<Rightarrow> (index_t \<times> 'a) list" where
  "deq_list [] = []"
| "deq_list (Dequeued i x # es) = (i, x) # deq_list es"
| "deq_list (_ # es) = deq_list es"

end
