(* ===== verification/Sub_Queue_Counters.thy ===== *)
theory Sub_Queue_Counters
  imports Explicit_Producer
begin

text \<open>
  Why a consumer of a sub-queue that passes the test on its count may claim an element. The ghosts are the set
  of the counts that were turned into an index and the set of those that were given back.
\<close>

section \<open>Words as numbers\<close>

lemma circular_less_unat:
  assumes "unat a < 2 ^ 62" "unat b < 2 ^ 62"
  shows "circular_less_than a b \<longleftrightarrow> unat a < unat b"
proof -
  have "unat (a - b) = (if unat b \<le> unat a then unat a - unat b else unat a + 2 ^ 64 - unat b)"
    by (simp add: unat_sub_if')
  then show ?thesis
    using assms by (auto simp: circular_less_than_def word_less_nat_alt push_bit_eq_mult)
qed

lemma unat_add_1:
  assumes "unat (a :: 64 word) < 2 ^ 63"
  shows "unat (a + 1) = Suc (unat a)"
  using assms by (simp add: unat_plus_if' del: One_nat_def)

lemma unat_add_32:
  assumes "unat (a :: 64 word) < 2 ^ 63"
  shows "unat (a + 32) = unat a + 32"
  using assms by (simp add: unat_plus_if')

lemma unat_minus:
  assumes "unat b \<le> unat (a :: 64 word)"
  shows "unat (a - b) = unat a - unat b"
  using assms by (simp add: unat_sub_if')

section \<open>What a step changes\<close>

lemma link_block_counters [simp]:
  "tail_index (link_block b p) = tail_index p" "head_index (link_block b p) = head_index p"
  "optimistic (link_block b p) = optimistic p" "overcommit (link_block b p) = overcommit p"
  by (auto simp: link_block_def split: option.splits)

lemma new_block_index_counters:
  assumes "new_block_index n p = Some p'"
  shows "tail_index p' = tail_index p" "head_index p' = head_index p" "optimistic p' = optimistic p"
    "overcommit p' = overcommit p" "block_at p' = block_at p" "owned p' = owned p" "tail_block p' = tail_block p"
    "slots_used p' = slots_used p"
  using assms by (auto simp: new_block_index_def Let_def)

lemma enq_step_counters:
  assumes "enq_step (p, pc) e (p', pc')"
  shows "head_index p' = head_index p" "optimistic p' = optimistic p" "overcommit p' = overcommit p"
    "tail_index p' = tail_index p + (if pc' = E_idle \<and> (\<exists>x. pc = E_tail x) then 1 else 0)"
  using assms
  by (induction "(p, pc)" e "(p', pc')" rule: enq_step.induct)
    (auto simp: reuse_block_def insert_block_def add_entry_def publish_front_def upd_header_def put_at_def Let_def
       dest: new_block_index_counters)

section \<open>The counts\<close>

definition count_of :: "deq_pc \<Rightarrow> nat option" where
  "count_of pc =
     (case pc of D_tail oc c \<Rightarrow> Some (unat c) | D_head oc c \<Rightarrow> Some (unat c) | D_fail oc c \<Rightarrow> Some (unat c) | _ \<Rightarrow> None)"

definition count_ok :: "nat \<Rightarrow> nat \<Rightarrow> nat set \<Rightarrow> nat set \<Rightarrow> deq_pc \<Rightarrow> bool" where
  "count_ok T P S F pc =
     ((\<forall>c. count_of pc = Some c \<longrightarrow> c < P \<and> c \<notin> S \<and> c \<notin> F) \<and>
      (case pc of
         D_optimistic t oc \<Rightarrow> unat oc \<le> card F
       | D_fetch oc \<Rightarrow> unat oc \<le> card F
       | D_tail oc c \<Rightarrow> unat oc \<le> card (F \<inter> {..<unat c})
       | D_head oc c \<Rightarrow> unat c < T + card (F \<inter> {..<unat c})
       | _ \<Rightarrow> True))"

definition in_flight :: "nat \<Rightarrow> nat \<Rightarrow> nat set \<Rightarrow> nat set \<Rightarrow> (nat \<Rightarrow> deq_pc) \<Rightarrow> bool" where
  "in_flight T P S F dq \<longleftrightarrow>
     (\<forall>t. count_ok T P S F (dq t)) \<and>
     (\<forall>t u c. count_of (dq t) = Some c \<longrightarrow> count_of (dq u) = Some c \<longrightarrow> t = u) \<and>
     (\<forall>c < P. c \<in> S \<or> c \<in> F \<or> (\<exists>t. count_of (dq t) = Some c))"

definition counts :: "nat \<Rightarrow> nat set \<Rightarrow> nat set \<Rightarrow> 'a producer \<Rightarrow> (nat \<Rightarrow> deq_pc) \<Rightarrow> bool" where
  "counts n S F p dq \<longleftrightarrow>
     unat (tail_index p) \<le> n \<and> unat (optimistic p) \<le> n \<and>
     S \<subseteq> {..<unat (optimistic p)} \<and> F \<subseteq> {..<unat (optimistic p)} \<and> S \<inter> F = {} \<and>
     unat (head_index p) = card S \<and> unat (overcommit p) = card F \<and>
     (\<forall>c \<in> S. c < unat (tail_index p) + card (F \<inter> {..<c})) \<and>
     in_flight (unat (tail_index p)) (unat (optimistic p)) S F dq"

text \<open>Everything claimed has been enqueued: consider the largest count that passed the test.\<close>

lemma passed_enqueued:
  assumes fin: "finite S" "finite F" and dis: "S \<inter> F = {}" and below: "\<forall>c \<in> S. c < T + card (F \<inter> {..<c})"
  shows "card S \<le> T"
proof (cases "S = {}")
  case False
  define c where "c = Max S"
  let ?F = "F \<inter> {..<c}"
  from False fin have c: "c \<in> S" and sub: "S \<subseteq> {..c} - ?F"
    using dis by (auto simp: c_def)
  have "card S \<le> card ({..c} - ?F)" by (rule card_mono [OF _ sub]) simp
  also have "\<dots> = Suc c - card ?F" by (subst card_Diff_subset) auto
  finally show ?thesis using below c by fastforce
qed simp

lemma counts_head:
  assumes "counts n S F p dq"
  shows "unat (head_index p) \<le> unat (tail_index p)"
proof -
  have "finite S" "finite F" using assms by (auto simp: counts_def intro: finite_subset)
  then show ?thesis using assms passed_enqueued [of S F "unat (tail_index p)"] by (auto simp: counts_def)
qed

lemma count_ok_mono:
  assumes "count_ok T P S F pc" "T \<le> T'" "P \<le> P'"
  shows "count_ok T' P' S F pc"
  using assms by (force simp: count_ok_def split: deq_pc.splits)

lemma count_ok_insert:
  assumes "count_ok T P S F pc" "count_of pc \<noteq> Some c" "finite F"
  shows "count_ok T P (insert c S) F pc" "count_ok T P S (insert c F) pc"
proof -
  have "card F \<le> card (insert c F)" "card (F \<inter> {..<k}) \<le> card (insert c F \<inter> {..<k})" for k
    using assms(3) by (auto intro!: card_mono)
  note m = this [THEN le_trans [rotated]] this [THEN add_mono [OF order_refl], THEN less_le_trans [rotated]]
  show "count_ok T P (insert c S) F pc" using assms by (auto simp: count_ok_def)
  show "count_ok T P S (insert c F) pc" using assms m by (auto simp: count_ok_def split: deq_pc.splits)
qed

lemma in_flight_mono:
  assumes "in_flight T P S F dq" "T \<le> T'"
  shows "in_flight T' P S F dq"
  using assms by (auto simp: in_flight_def intro: count_ok_mono)

lemma in_flight_same:
  assumes "in_flight T P S F dq" "count_of pc' = count_of (dq t)" "count_ok T P S F pc'"
  shows "in_flight T P S F (dq(t := pc'))"
proof -
  have "count_of ((dq(t := pc')) u) = count_of (dq u)" for u using assms(2) by simp
  then show ?thesis using assms(1,3) unfolding in_flight_def by simp
qed

lemma in_flight_fetch:
  assumes f: "in_flight T P S F dq" and t: "count_of (dq t) = None" and c: "count_of pc' = Some P"
    and ok: "count_ok T (Suc P) S F pc'"
  shows "in_flight T (Suc P) S F (dq(t := pc'))"
proof -
  have old: "count_of (dq u) \<noteq> Some P" for u using f by (auto simp: in_flight_def count_ok_def)
  have co: "count_of ((dq(t := pc')) u) = Some k \<longleftrightarrow> (if u = t then k = P else count_of (dq u) = Some k)" for u k
    using c by auto
  have cov: "k \<in> S \<or> k \<in> F \<or> (\<exists>u. if u = t then k = P else count_of (dq u) = Some k)" if k: "k < Suc P" for k
  proof (cases "k = P")
    case False
    then have "k \<in> S \<or> k \<in> F \<or> (\<exists>u. count_of (dq u) = Some k)" using k f by (simp add: in_flight_def)
    moreover have "u \<noteq> t" if "count_of (dq u) = Some k" for u using that t by auto
    ultimately show ?thesis by (metis (full_types))
  qed auto
  have "count_ok T (Suc P) S F ((dq(t := pc')) u)" for u
    using f ok by (auto simp: in_flight_def intro: count_ok_mono)
  moreover have "(if u = t then k = P else count_of (dq u) = Some k) \<Longrightarrow> (if v = t then k = P else count_of (dq v) = Some k) \<Longrightarrow> u = v"
    for u v k using f old by (auto simp: in_flight_def split: if_splits)
  ultimately show ?thesis unfolding in_flight_def co using cov by blast
qed

text \<open>The end of a count, in one of the two sets.\<close>

lemma in_flight_end:
  assumes f: "in_flight T P S F dq" and t: "count_of (dq t) = Some k" and pc: "count_of pc' = None"
    and ok: "\<And>S F. count_ok T P S F pc'" and fin: "finite F"
  shows "in_flight T P (insert k S) F (dq(t := pc'))" "in_flight T P S (insert k F) (dq(t := pc'))"
    and "k < P" "k \<notin> S" "k \<notin> F"
proof -
  show "k < P" "k \<notin> S" "k \<notin> F" using f t by (auto simp: in_flight_def count_ok_def)
  have co: "count_of ((dq(t := pc')) u) = Some j \<longleftrightarrow> u \<noteq> t \<and> count_of (dq u) = Some j" for u j using pc by auto
  have other: "count_of (dq u) \<noteq> Some k" if "u \<noteq> t" for u using f t that unfolding in_flight_def by blast
  have "count_ok T P S F (dq u)" for u using f by (simp add: in_flight_def)
  then have oks: "count_ok T P (insert k S) F ((dq(t := pc')) u)" "count_ok T P S (insert k F) ((dq(t := pc')) u)" for u
    using count_ok_insert [OF _ other fin] ok by auto
  have apart: "\<forall>u v j. u \<noteq> t \<and> count_of (dq u) = Some j \<longrightarrow> v \<noteq> t \<and> count_of (dq v) = Some j \<longrightarrow> u = v"
    using f unfolding in_flight_def by blast
  have cov: "\<forall>j < P. j = k \<or> j \<in> S \<or> j \<in> F \<or> (\<exists>u. u \<noteq> t \<and> count_of (dq u) = Some j)"
    using f t unfolding in_flight_def by (metis option.inject)
  show "in_flight T P (insert k S) F (dq(t := pc'))" "in_flight T P S (insert k F) (dq(t := pc'))"
    unfolding in_flight_def co using oks apart cov by blast+
qed

section \<open>The steps\<close>

lemma counts_enq:
  assumes c: "counts n S F p dq" and st: "enq_step (p, pc) e (p', pc')" and n: "n < 2 ^ 62"
  shows "counts (Suc n) S F p' dq"
proof -
  note f = enq_step_counters [OF st]
  have "unat (tail_index p) < 2 ^ 63" using c n by (auto simp: counts_def)
  then have t: "unat (tail_index p') = unat (tail_index p) \<or> unat (tail_index p') = Suc (unat (tail_index p))"
    by (simp add: f unat_add_1)
  then have le: "unat (tail_index p) \<le> unat (tail_index p')" by auto
  have "\<forall>k \<in> S. k < unat (tail_index p') + card (F \<inter> {..<k})" using c le by (fastforce simp: counts_def)
  then show ?thesis
    using c t le unfolding counts_def f(1-3) by (auto intro: in_flight_mono)
qed

lemma counts_same:
  assumes c: "counts n S F p dq"
    and same: "tail_index p' = tail_index p" "head_index p' = head_index p" "optimistic p' = optimistic p"
      "overcommit p' = overcommit p"
    and pc: "count_of pc' = count_of (dq t)"
    and ok: "count_ok (unat (tail_index p)) (unat (optimistic p)) S F pc'"
  shows "counts (Suc n) S F p' (dq(t := pc'))"
proof -
  have "in_flight (unat (tail_index p)) (unat (optimistic p)) S F (dq(t := pc'))"
    using c pc ok by (intro in_flight_same) (auto simp: counts_def)
  then show ?thesis using c unfolding counts_def same by auto
qed

lemma counts_deq:
  assumes c: "counts n S F p dq" and st: "deq_step (p, dq t) e (p', pc')" and n: "n < 2 ^ 62"
  shows "\<exists>S' F'. counts (Suc n) S' F' p' (dq(t := pc'))"
proof -
  let ?T = "unat (tail_index p)" and ?P = "unat (optimistic p)"
  have fl: "in_flight ?T ?P S F dq" and fin: "finite S" "finite F"
    using c by (auto simp: counts_def intro: finite_subset)
  then have ok: "count_ok ?T ?P S F (dq t)" by (simp add: in_flight_def)
  have "S \<subseteq> {..<?P}" "F \<subseteq> {..<?P}" using c by (auto simp: counts_def)
  from this [THEN card_mono [OF finite_lessThan]] have small: "?T < 2 ^ 62" "?P < 2 ^ 62" "card S < 2 ^ 62" "card F < 2 ^ 62"
    using c n by (auto simp: counts_def)
  show ?thesis using st
  proof cases
    case (d_fetch oc)
    then have "F \<inter> {..<?P} = F" "unat (optimistic p + 1) = Suc ?P"
      using c small by (auto simp: counts_def unat_add_1)
    moreover from this have "in_flight ?T (Suc ?P) S F (dq(t := pc'))"
      using d_fetch ok by (intro in_flight_fetch [OF fl]) (use c in \<open>auto simp: count_of_def count_ok_def counts_def\<close>)
    ultimately have "counts (Suc n) S F p' (dq(t := pc'))"
      using c d_fetch by (auto simp: counts_def simp del: fun_upd_apply)
    then show ?thesis by blast
  next
    case (d_fail oc k)
    then have k: "count_of (dq t) = Some (unat k)" by (simp add: count_of_def)
    have idle: "count_of D_idle = None" "count_ok T P S F D_idle" for T P S F by (simp_all add: count_of_def count_ok_def)
    note e = in_flight_end [OF fl k idle fin(2)]
    have le: "card (F \<inter> {..<j}) \<le> card (insert (unat k) F \<inter> {..<j})" for j using fin by (auto intro!: card_mono)
    have "\<forall>j \<in> S. j < ?T + card (F \<inter> {..<j})" using c by (simp add: counts_def)
    then have below: "\<forall>j \<in> S. j < ?T + card (insert (unat k) F \<inter> {..<j})"
      using le by (meson add_le_cancel_left less_le_trans)
    have "unat (overcommit p + 1) = card (insert (unat k) F)"
      using c small fin e(5) by (simp add: counts_def unat_add_1)
    then have "counts (Suc n) S (insert (unat k) F) p' (dq(t := pc'))"
      using c below e(2-4) unfolding counts_def d_fail by (simp del: fun_upd_apply)
    then show ?thesis by blast
  next
    case (d_claim oc k)
    then have k: "count_of (dq t) = Some (unat k)" by (simp add: count_of_def)
    have idx: "count_of (D_index i) = None" "count_ok T P S F (D_index i)" for T P S F i by (simp_all add: count_of_def count_ok_def)
    note e = in_flight_end [OF fl k idx fin(2)]
    have below: "unat k < ?T + card (F \<inter> {..<unat k})" using ok d_claim by (simp add: count_ok_def)
    have "unat (head_index p + 1) = card (insert (unat k) S)"
      using c small fin e(4) by (simp add: counts_def unat_add_1)
    then have "counts (Suc n) (insert (unat k) S) F p' (dq(t := pc'))"
      using c below e(1,3,5) unfolding counts_def d_claim by (simp del: fun_upd_apply)
    then show ?thesis by blast
  next
    case (d_there k oc)
    have "unat oc \<le> card (F \<inter> {..<unat k})" "unat k < ?P" using ok d_there by (auto simp: count_ok_def count_of_def)
    moreover have "card (F \<inter> {..<unat k}) \<le> unat k" by (metis card_lessThan card_mono finite_lessThan inf_le2)
    ultimately have "unat k < ?T + card (F \<inter> {..<unat k})"
      using d_there small by (auto simp: circular_less_unat unat_minus)
    then have "counts (Suc n) S F p' (dq(t := pc'))"
      using d_there ok by (intro counts_same [OF c]) (auto simp: count_ok_def count_of_def)
    then show ?thesis by blast
  qed (rule exI [of _ S], rule exI [of _ F], rule counts_same [OF c];
      use ok in \<open>simp add: count_ok_def count_of_def put_at_def; use c in \<open>simp add: counts_def\<close>\<close>)+
qed

end
