(* ===== verification/Sub_Queue_Places.thy ===== *)
theory Sub_Queue_Places
  imports Sub_Queue_Counters
begin

text \<open>
  The blocks and the index of a sub-queue: every claimed index is found in its block, its element is the one
  enqueued at that position, and no block is used again before its last element was taken. The ghosts are the
  ring of blocks from the oldest to the newest, the number of blocks started, the positions emptied and read,
  and for every index the number of blocks added and published and the block of its first slot.
\<close>

section \<open>Words as numbers\<close>

lemma mask_31: "(31 :: 64 word) = mask 5"
  by (simp add: mask_eq_exp_minus_1)

lemma and_31: "unat ((i :: 64 word) AND 31) = unat i mod 32"
proof -
  have "unat (take_bit 5 i) = take_bit 5 (unat i)" by (rule unsigned_take_bit_eq)
  then show ?thesis by (simp only: mask_31 take_bit_eq_mask [symmetric]) (simp add: take_bit_eq_mod)
qed

lemma cell_unat: "cell i = unat i mod 32"
  by (simp add: cell_def and_31)

lemma flag_unat: "flag_of i = 31 - unat i mod 32"
  by (simp add: flag_of_def unat_minus and_31)

lemma and_31_zero: "(i :: 64 word) AND 31 = 0 \<longleftrightarrow> unat i mod 32 = 0"
  by (metis and_31 unsigned_0 unsigned_eq_0_iff)

lemma and_not_31: "(i :: 64 word) AND NOT 31 = word_of_nat (32 * (unat i div 32))"
proof -
  have "i AND NOT 31 = push_bit 5 (drop_bit 5 i)"
    unfolding mask_31 by (rule bit_eqI) (auto simp: bit_simps simp del: push_bit_numeral)
  also have "\<dots> = word_of_nat (32 * (unat i div 32))"
    by (simp add: push_bit_eq_mult drop_bit_eq_div word_arith_nat_div)
  finally show ?thesis .
qed

lemma unat_of_int_and_mask:
  assumes "k < 64"
  shows "unat ((word_of_int a :: 64 word) AND mask k) = nat (a mod 2 ^ k)"
proof -
  have "uint (take_bit k (word_of_int a :: 64 word)) = take_bit k a"
    using assms by (simp only: unsigned_take_bit_eq uint_word_of_int_eq take_bit_take_bit) (simp add: min_def)
  then show ?thesis by (simp add: take_bit_eq_mask unat_eq_nat_uint flip: take_bit_eq_mod)
qed

lemma slot_back:
  assumes "k < 64" "z \<le> x"
  shows "unat ((word_of_nat (x mod 2 ^ k) - word_of_nat z :: 64 word) AND mask k) = (x - z) mod 2 ^ k"
proof -
  have "word_of_nat (x mod 2 ^ k) - word_of_nat z = (word_of_int (int (x mod 2 ^ k) - int z) :: 64 word)" by simp
  then have "unat ((word_of_nat (x mod 2 ^ k) - word_of_nat z :: 64 word) AND mask k) = nat ((int (x mod 2 ^ k) - int z) mod 2 ^ k)"
    by (simp only: unat_of_int_and_mask [OF assms(1)])
  also have "(int (x mod 2 ^ k) - int z) mod 2 ^ k = int ((x - z) mod 2 ^ k)"
    using assms(2) by (simp add: zmod_int of_nat_diff mod_diff_left_eq)
  finally show ?thesis by simp
qed

text \<open>The lookup of a block: from the entry of block \<open>m\<close> back to that of block \<open>j\<close>.\<close>

lemma block_of_lookup:
  assumes k: "ih_size h = 2 ^ k" "k < 64"
    and f: "unat f = (m - z) mod 2 ^ k" and base: "fst (ih_entries h (unat f)) = word_of_nat (32 * m)"
    and j: "j = unat i div 32" "z \<le> j" "j \<le> m" and m: "m < 2 ^ 58"
  shows "block_of h f i = snd (ih_entries h ((j - z) mod 2 ^ k))"
proof -
  have diff: "word_of_nat (32 * j) - word_of_nat (32 * m) = (word_of_int (- (32 * int (m - j))) :: 64 word)"
    using j by (simp add: of_nat_diff algebra_simps)
  have "sint (word_of_int (- (32 * int (m - j))) :: 64 word) = - (32 * int (m - j))"
    using m j by (simp only: sint_sbintrunc') (simp add: signed_take_bit_int_eq_self)
  then have off: "word_of_int (sint (word_of_nat (32 * j) - word_of_nat (32 * m) :: 64 word) sdiv sint (32 :: 64 word)) =
      (- word_of_nat (m - j) :: 64 word)"
    unfolding diff by (cases "m = j") (use j in \<open>auto simp: signed_divide_int_def sgn_if\<close>)
  have "f = word_of_nat ((m - z) mod 2 ^ k)" unfolding f [symmetric] by simp
  then have "unat ((f + - word_of_nat (m - j)) AND mask k) = (j - z) mod 2 ^ k"
    using slot_back [OF k(2), of "m - j" "m - z"] j by (simp only: add_uminus_conv_diff) (auto simp del: of_nat_diff)
  then have "unat ((f + word_of_int (sint (word_of_nat (32 * j) - word_of_nat (32 * m) :: 64 word) sdiv sint (32 :: 64 word))) AND (2 ^ k - 1))
      = (j - z) mod 2 ^ k"
    unfolding off by (simp only: mask_eq_exp_minus_1)
  moreover have "i AND - 32 = 32 * word_of_nat j" using and_not_31 [of i] j(1) by simp
  ultimately show ?thesis by (simp add: block_of_def base k)
qed

lemma unat_2_power: "k < 64 \<Longrightarrow> unat (2 ^ k :: 64 word) = 2 ^ k"
  using power_strict_increasing [of k 64 "2 :: nat"] unat_of_nat [of "2 ^ k", where 'a = 64] by simp

section \<open>The invariant\<close>

record geo =
  g_ring :: "nat list"
  g_blocks :: nat
  g_done :: "nat set"
  g_read :: "nat set"
  g_added :: "nat \<Rightarrow> nat"
  g_pub :: "nat \<Rightarrow> nat"
  g_base :: "nat \<Rightarrow> nat"

definition g_old :: "geo \<Rightarrow> nat" where
  "g_old G = g_blocks G - length (g_ring G)"

definition blk :: "geo \<Rightarrow> nat \<Rightarrow> nat" where
  "blk G q = g_ring G ! (q - g_old G)"

definition ring_ok :: "geo \<Rightarrow> 'a producer \<Rightarrow> bool" where
  "ring_ok G p \<longleftrightarrow>
     distinct (g_ring G) \<and> length (g_ring G) \<le> g_blocks G \<and> (g_blocks G = 0 \<or> g_ring G \<noteq> []) \<and>
     owned p = set (g_ring G) \<and> unat (slots_used p) = length (g_ring G) \<and>
     tail_block p = (if g_ring G = [] then None else Some (last (g_ring G))) \<and>
     (\<forall>k < length (g_ring G). bl_next (block_at p (g_ring G ! k)) = g_ring G ! (Suc k mod length (g_ring G)))"

definition flags_ok :: "geo \<Rightarrow> (nat \<Rightarrow> 'a block) \<Rightarrow> bool" where
  "flags_ok G B \<longleftrightarrow>
     (\<forall>q. g_old G \<le> q \<and> q < g_blocks G \<longrightarrow> length (bl_flags (B (blk G q))) = 32 \<and>
        (\<forall>k < 32. bl_flags (B (blk G q)) ! (31 - k) \<longleftrightarrow> 32 * q + k \<in> g_done G))"

definition elems_ok :: "geo \<Rightarrow> 'a list \<Rightarrow> (nat \<Rightarrow> 'a block) \<Rightarrow> bool" where
  "elems_ok G xs B \<longleftrightarrow>
     (\<forall>i < length xs. i \<notin> g_read G \<longrightarrow> bl_elems (B (blk G (i div 32))) (i mod 32) = Some (xs ! i))"

definition header_ok :: "geo \<Rightarrow> nat \<Rightarrow> index_header \<Rightarrow> bool" where
  "header_ok G g h \<longleftrightarrow>
     (\<exists>k \<le> 62. ih_size h = 2 ^ k) \<and> g_base G g \<le> g_old G \<and> g_pub G g \<le> g_added G g \<and> g_added G g \<le> g_blocks G \<and>
     (\<forall>q. g_old G \<le> q \<and> q < g_added G g \<longrightarrow>
        ih_entries h ((q - g_base G g) mod unat (ih_size h)) = (word_of_nat (32 * q), blk G q)) \<and>
     (0 < g_pub G g \<longrightarrow> g_base G g < g_pub G g \<and> unat (ih_front h) = (g_pub G g - 1 - g_base G g) mod unat (ih_size h))"

definition index_ok :: "geo \<Rightarrow> 'a producer \<Rightarrow> bool" where
  "index_ok G p \<longleftrightarrow>
     0 < block_index p \<and> (\<forall>g. 0 < g \<and> g \<le> block_index p \<longrightarrow> header_ok G g (header_at p g)) \<and>
     index_size p = ih_size (header_at p (block_index p)) \<and>
     unat (index_front p) = (g_pub G (block_index p) - g_base G (block_index p)) mod unat (index_size p) \<and>
     length (g_ring G) \<le> unat (index_size p)"

definition enq_ok :: "geo \<Rightarrow> 'a producer \<Rightarrow> 'a enq_pc \<Rightarrow> bool" where
  "enq_ok G p pc =
     (let T = unat (tail_index p); Q = g_blocks G; a = g_added G (block_index p); b = g_pub G (block_index p) in
      T \<le> 32 * b \<and>
      (case pc of
         E_idle \<Rightarrow> 32 * Q < T + 32 \<and> a = Q \<and> b = Q
       | E_need x \<Rightarrow> T = 32 * Q \<and> a = Q \<and> b = Q
       | E_head x \<Rightarrow> T = 32 * Q \<and> a = Q \<and> b = Q
       | E_grow x \<Rightarrow> T = 32 * Q \<and> a = Q \<and> b = Q \<and> slots_used p = index_size p
       | E_block x \<Rightarrow> T = 32 * Q \<and> a = Q \<and> b = Q \<and> length (g_ring G) < unat (index_size p)
       | E_entry x \<Rightarrow> T + 32 = 32 * Q \<and> Suc a = Q \<and> Suc b = Q
       | E_front x \<Rightarrow> T + 32 = 32 * Q \<and> a = Q \<and> Suc b = Q
       | E_elem x \<Rightarrow> T < 32 * Q \<and> 32 * Q \<le> T + 32 \<and> a = Q \<and> b = Q
       | E_tail x \<Rightarrow> T < 32 * Q \<and> 32 * Q \<le> T + 32 \<and> a = Q \<and> b = Q \<and>
           bl_elems (block_at p (blk G (T div 32))) (T mod 32) = Some x))"

definition claimed :: "deq_pc \<Rightarrow> nat option" where
  "claimed pc =
     (case pc of D_index i \<Rightarrow> Some (unat i) | D_front i g \<Rightarrow> Some (unat i) | D_entry i g f \<Rightarrow> Some (unat i)
      | D_read i b \<Rightarrow> Some (unat i) | D_set i b \<Rightarrow> Some (unat i) | _ \<Rightarrow> None)"

definition deq_ok :: "geo \<Rightarrow> nat \<Rightarrow> nat \<Rightarrow> (nat \<Rightarrow> index_header) \<Rightarrow> deq_pc \<Rightarrow> bool" where
  "deq_ok G H cur I pc =
     (case pc of
        D_index i \<Rightarrow> unat i < H \<and> unat i \<notin> g_read G
      | D_front i g \<Rightarrow> unat i < H \<and> unat i \<notin> g_read G \<and> 0 < g \<and> g \<le> cur \<and> unat i div 32 < g_pub G g
      | D_entry i g f \<Rightarrow> unat i < H \<and> unat i \<notin> g_read G \<and> 0 < g \<and> g \<le> cur \<and>
          (\<exists>m. unat i div 32 \<le> m \<and> m < g_pub G g \<and> unat f = (m - g_base G g) mod unat (ih_size (I g)))
      | D_read i b \<Rightarrow> unat i < H \<and> unat i \<notin> g_read G \<and> b = blk G (unat i div 32)
      | D_set i b \<Rightarrow> unat i < H \<and> unat i \<in> g_read G \<and> unat i \<notin> g_done G \<and> b = blk G (unat i div 32)
      | _ \<Rightarrow> True)"

definition readers_ok :: "geo \<Rightarrow> 'a producer \<Rightarrow> (nat \<Rightarrow> deq_pc) \<Rightarrow> bool" where
  "readers_ok G p dq \<longleftrightarrow>
     (\<forall>t. deq_ok G (unat (head_index p)) (block_index p) (header_at p) (dq t)) \<and>
     (\<forall>t u i. claimed (dq t) = Some i \<longrightarrow> claimed (dq u) = Some i \<longrightarrow> t = u) \<and>
     (\<forall>i < unat (head_index p). i \<in> g_done G \<or> (\<exists>t. claimed (dq t) = Some i))"

definition places_ok :: "geo \<Rightarrow> 'a list \<Rightarrow> 'a producer \<Rightarrow> 'a enq_pc \<Rightarrow> (nat \<Rightarrow> deq_pc) \<Rightarrow> bool" where
  "places_ok G xs p pc dq \<longleftrightarrow>
     unat (tail_index p) = length xs \<and> g_done G \<subseteq> g_read G \<and> g_read G \<subseteq> {..<unat (head_index p)} \<and>
     {..<32 * g_old G} \<subseteq> g_done G \<and>
     ring_ok G p \<and> flags_ok G (block_at p) \<and> elems_ok G xs (block_at p) \<and> index_ok G p \<and> enq_ok G p pc \<and>
     readers_ok G p dq"

section \<open>Positions and blocks\<close>

lemma blk_in_ring:
  assumes "length (g_ring G) \<le> g_blocks G" "g_old G \<le> q" "q < g_blocks G"
  shows "q - g_old G < length (g_ring G)" "blk G q \<in> set (g_ring G)"
  using assms by (auto simp: g_old_def blk_def)

lemma blk_inj:
  assumes "distinct (g_ring G)" "length (g_ring G) \<le> g_blocks G"
    and "g_old G \<le> q" "q < g_blocks G" "g_old G \<le> r" "r < g_blocks G"
  shows "blk G q = blk G r \<longleftrightarrow> q = r"
  using assms blk_in_ring [of G q] blk_in_ring [of G r] by (auto simp: blk_def nth_eq_iff_index_eq)

text \<open>A position that is not done lies in a block of the ring.\<close>

lemma live_position:
  assumes "{..<32 * g_old G} \<subseteq> g_done G" "i \<notin> g_done G"
  shows "g_old G \<le> i div 32"
  using assms by (auto simp: less_eq_div_iff_mult_less_eq subset_iff) (metis leI mult.commute)

section \<open>The steps of a consumer\<close>

lemma counters_frame [simp]:
  "ring_ok G (p\<lparr>optimistic := c\<rparr>) = ring_ok G p" "ring_ok G (p\<lparr>overcommit := c\<rparr>) = ring_ok G p"
  "ring_ok G (p\<lparr>head_index := c\<rparr>) = ring_ok G p" "ring_ok G (p\<lparr>tail_index := c\<rparr>) = ring_ok G p"
  "index_ok G (p\<lparr>optimistic := c\<rparr>) = index_ok G p" "index_ok G (p\<lparr>overcommit := c\<rparr>) = index_ok G p"
  "index_ok G (p\<lparr>head_index := c\<rparr>) = index_ok G p" "index_ok G (p\<lparr>tail_index := c\<rparr>) = index_ok G p"
  "index_ok G (p\<lparr>block_at := B\<rparr>) = index_ok G p"
  by (simp_all add: ring_ok_def index_ok_def)

lemma enq_frame [simp]:
  "enq_ok G (p\<lparr>optimistic := c\<rparr>) pc = enq_ok G p pc" "enq_ok G (p\<lparr>overcommit := c\<rparr>) pc = enq_ok G p pc"
  "enq_ok G (p\<lparr>head_index := c\<rparr>) pc = enq_ok G p pc"
  by (simp_all add: enq_ok_def cong: enq_pc.case_cong)

lemma readers_frame [simp]:
  "readers_ok G (p\<lparr>optimistic := c\<rparr>) dq = readers_ok G p dq" "readers_ok G (p\<lparr>overcommit := c\<rparr>) dq = readers_ok G p dq"
  "readers_ok G (p\<lparr>tail_index := c\<rparr>) dq = readers_ok G p dq" "readers_ok G (p\<lparr>block_at := B\<rparr>) dq = readers_ok G p dq"
  by (simp_all add: readers_ok_def)

lemma places_counters [simp]:
  "places_ok G xs (p\<lparr>optimistic := c\<rparr>) pc dq = places_ok G xs p pc dq"
  "places_ok G xs (p\<lparr>overcommit := c\<rparr>) pc dq = places_ok G xs p pc dq"
  by (simp_all add: places_ok_def)

lemma readers_same:
  assumes "readers_ok G p dq" "claimed pc' = claimed (dq t)"
    and "deq_ok G (unat (head_index p)) (block_index p) (header_at p) pc'"
  shows "readers_ok G p (dq(t := pc'))"
proof -
  have "claimed ((dq(t := pc')) u) = claimed (dq u)" for u using assms(2) by simp
  then show ?thesis using assms(1,3) unfolding readers_ok_def by simp
qed

lemma places_same:
  assumes "places_ok G xs p pc dq" "claimed pc' = claimed (dq t)"
    and "deq_ok G (unat (head_index p)) (block_index p) (header_at p) pc'"
  shows "places_ok G xs p pc (dq(t := pc'))"
  using assms readers_same by (auto simp: places_ok_def)

text \<open>The position a thread works on.\<close>

lemma claimed_position:
  assumes p: "places_ok G xs p pc dq" and HT: "unat (head_index p) \<le> unat (tail_index p)"
    and c: "claimed (dq t) = Some i"
  shows "i < length xs" "i \<notin> g_done G" "g_old G \<le> i div 32" "i div 32 < g_blocks G"
    "i div 32 < g_pub G (block_index p)"
proof -
  have ok: "deq_ok G (unat (head_index p)) (block_index p) (header_at p) (dq t)"
    using p by (simp add: places_ok_def readers_ok_def)
  then have i: "i < unat (head_index p)" using c by (auto simp: deq_ok_def claimed_def split: deq_pc.splits)
  then show len: "i < length xs" using p HT by (simp add: places_ok_def)
  have sub: "g_done G \<subseteq> g_read G" using p by (simp add: places_ok_def)
  then show nd: "i \<notin> g_done G" using ok c by (auto simp: deq_ok_def claimed_def split: deq_pc.splits)
  show "g_old G \<le> i div 32" using p nd by (intro live_position) (auto simp: places_ok_def)
  have "unat (tail_index p) \<le> 32 * g_pub G (block_index p)" using p by (simp add: places_ok_def enq_ok_def Let_def)
  then show "i div 32 < g_pub G (block_index p)" using i HT by (simp add: less_mult_imp_div_less)
  moreover have "g_pub G (block_index p) \<le> g_blocks G" using p by (auto simp: places_ok_def index_ok_def header_ok_def)
  ultimately show "i div 32 < g_blocks G" by simp
qed

lemma places_claim:
  assumes p: "places_ok G xs p pc dq" and c: "claimed (dq t) = None" and H: "unat (head_index p) < 2 ^ 62"
  shows "places_ok G xs (p\<lparr>head_index := head_index p + 1\<rparr>) pc (dq(t := D_index (head_index p)))"
proof -
  let ?H = "unat (head_index p)" and ?pc = "D_index (head_index p)" and ?ok = "\<lambda>H. deq_ok G H (block_index p) (header_at p)"
  have r: "readers_ok G p dq" and Rd: "g_read G \<subseteq> {..<?H}" using p by (auto simp: places_ok_def)
  have S: "unat (head_index p + 1) = Suc ?H" using H by (simp add: unat_add_1)
  have up: "?ok (Suc ?H) k" if "?ok ?H k" for k using that by (auto simp: deq_ok_def split: deq_pc.splits)
  have lt: "i < ?H" if "claimed (dq u) = Some i" for u i
  proof -
    have "?ok ?H (dq u)" using r by (simp add: readers_ok_def)
    then show ?thesis using that by (auto simp: deq_ok_def claimed_def split: deq_pc.splits)
  qed
  have cl: "claimed ((dq(t := ?pc)) u) = Some i \<longleftrightarrow> (if u = t then i = ?H else claimed (dq u) = Some i)" for u i
    by (auto simp: claimed_def)
  have oks: "\<forall>u. ?ok (Suc ?H) ((dq(t := ?pc)) u)" using r Rd up by (auto simp: readers_ok_def deq_ok_def [of _ _ _ _ ?pc])
  have one: "\<forall>u v i. (if u = t then i = ?H else claimed (dq u) = Some i) \<longrightarrow> (if v = t then i = ?H else claimed (dq v) = Some i) \<longrightarrow> u = v"
    using r lt by (auto simp: readers_ok_def)
  have cov: "i \<in> g_done G \<or> (\<exists>u. if u = t then i = ?H else claimed (dq u) = Some i)" if "i < Suc ?H" for i
  proof (cases "i = ?H")
    case False
    then have "i \<in> g_done G \<or> (\<exists>u. claimed (dq u) = Some i)" using that r by (simp add: readers_ok_def)
    moreover have "u \<noteq> t" if "claimed (dq u) = Some i" for u using that c by auto
    ultimately show ?thesis by (metis (full_types))
  qed auto
  have "readers_ok G (p\<lparr>head_index := head_index p + 1\<rparr>) (dq(t := ?pc))"
    unfolding readers_ok_def cl
  proof (intro conjI)
    show "\<forall>u v i. (if u = t then i = ?H else claimed (dq u) = Some i) \<longrightarrow> (if v = t then i = ?H else claimed (dq v) = Some i) \<longrightarrow> u = v"
      by (rule one)
  qed (use oks cov S in \<open>simp_all del: fun_upd_apply\<close>)
  moreover have "g_read G \<subseteq> {..<Suc ?H}" using Rd by (auto intro: less_SucI)
  ultimately show ?thesis
    using p S by (simp add: places_ok_def del: fun_upd_apply)
qed

text \<open>The lookup of the block.\<close>

lemma places_entry:
  assumes p: "places_ok G xs p pc dq" and HT: "unat (head_index p) \<le> unat (tail_index p)" and T: "unat (tail_index p) < 2 ^ 62"
    and t: "dq t = D_entry i g f"
  shows "block_of (header_at p g) f i = blk G (unat i div 32)"
proof -
  let ?h = "header_at p g" and ?j = "unat i div 32"
  have ok: "deq_ok G (unat (head_index p)) (block_index p) (header_at p) (dq t)"
    using p by (simp add: places_ok_def readers_ok_def)
  then obtain m where g: "0 < g" "g \<le> block_index p" and m: "?j \<le> m" "m < g_pub G g"
    and f: "unat f = (m - g_base G g) mod unat (ih_size ?h)" by (auto simp: deq_ok_def t)
  have h: "header_ok G g ?h" using p g by (simp add: places_ok_def index_ok_def)
  then obtain k where k: "k \<le> 62" "ih_size ?h = 2 ^ k" by (auto simp: header_ok_def)
  then have size: "unat (ih_size ?h) = 2 ^ k" by (simp add: unat_2_power)
  have old: "g_old G \<le> ?j" using claimed_position(3) [OF p HT, of t] by (simp add: t claimed_def)
  have base: "g_base G g \<le> ?j" using h old by (auto simp: header_ok_def)
  have e: "ih_entries ?h ((q - g_base G g) mod 2 ^ k) = (word_of_nat (32 * q), blk G q)" if "?j \<le> q" "q \<le> m" for q
    using h that old m unfolding header_ok_def size by (auto dest!: spec [where x = q])
  have "32 * g_blocks G \<le> unat (tail_index p) + 32"
    using p by (auto simp: places_ok_def enq_ok_def Let_def split: enq_pc.splits)
  moreover have "m < g_blocks G" using h m by (auto simp: header_ok_def)
  ultimately have "m < 2 ^ 58" using T by simp
  then have "block_of ?h f i = snd (ih_entries ?h ((?j - g_base G g) mod 2 ^ k))"
    using f e [of m] m(1) k base by (intro block_of_lookup [where m = m]) (auto simp: size [unfolded k])
  then show ?thesis using e [of ?j] m(1) by simp
qed

text \<open>Positions in the blocks of the ring do not share a cell.\<close>

lemma other_cell:
  assumes p: "ring_ok G p" and i: "g_old G \<le> i div 32" "i div 32 < g_blocks G"
    and j: "g_old G \<le> j div 32" "j div 32 < g_blocks G" and ne: "i \<noteq> j"
  shows "blk G (i div 32) \<noteq> blk G (j div 32) \<or> i mod 32 \<noteq> j mod 32"
proof -
  have "blk G (i div 32) = blk G (j div 32) \<longleftrightarrow> i div 32 = j div 32"
    using p i j by (intro blk_inj) (auto simp: ring_ok_def)
  then show ?thesis using ne by (metis mult_div_mod_eq)
qed

lemma put_elem_simps [simp]:
  "bl_next (put_elem i x b) = bl_next b" "bl_flags (put_elem i x b) = bl_flags b"
  "bl_elems (put_elem i x b) = (bl_elems b)(cell i := x)"
  by (simp_all add: put_elem_def)

lemma set_empty_simps [simp]:
  "bl_next (set_empty i b) = bl_next b" "bl_flags (set_empty i b) = (bl_flags b)[flag_of i := True]"
  "bl_elems (set_empty i b) = bl_elems b"
  by (simp_all add: set_empty_def)

lemma reset_empty_simps [simp]:
  "bl_next (reset_empty b) = bl_next b" "bl_flags (reset_empty b) = replicate 32 False"
  "bl_elems (reset_empty b) = bl_elems b"
  by (simp_all add: reset_empty_def)

text \<open>Updates of a block that keep its link, its flags or its elements.\<close>

lemma ring_block:
  assumes "ring_ok G p" "bl_next B = bl_next (block_at p b)"
  shows "ring_ok G (p\<lparr>block_at := (block_at p)(b := B)\<rparr>)"
  using assms by (auto simp: ring_ok_def)

lemma flags_block:
  assumes "flags_ok G Bs" "bl_flags B = bl_flags (Bs b)"
  shows "flags_ok G (Bs(b := B))"
  using assms by (auto simp: flags_ok_def)

lemma elems_block:
  assumes "elems_ok G xs Bs" "bl_elems B = bl_elems (Bs b)"
  shows "elems_ok G xs (Bs(b := B))"
  using assms by (auto simp: elems_ok_def)

lemma enq_block:
  assumes "enq_ok G p pc" "bl_elems B = bl_elems (block_at p b)"
  shows "enq_ok G (p\<lparr>block_at := (block_at p)(b := B)\<rparr>) pc"
  using assms by (auto simp: enq_ok_def Let_def split: enq_pc.splits)

lemma ring_geo [simp]:
  "g_old (G\<lparr>g_read := R\<rparr>) = g_old G" "g_old (G\<lparr>g_done := D\<rparr>) = g_old G"
  "blk (G\<lparr>g_read := R\<rparr>) = blk G" "blk (G\<lparr>g_done := D\<rparr>) = blk G"
  "ring_ok (G\<lparr>g_read := R\<rparr>) = ring_ok G" "ring_ok (G\<lparr>g_done := D\<rparr>) = ring_ok G"
  "header_ok (G\<lparr>g_read := R\<rparr>) = header_ok G" "header_ok (G\<lparr>g_done := D\<rparr>) = header_ok G"
  "index_ok (G\<lparr>g_read := R\<rparr>) = index_ok G" "index_ok (G\<lparr>g_done := D\<rparr>) = index_ok G"
  "enq_ok (G\<lparr>g_read := R\<rparr>) = enq_ok G" "enq_ok (G\<lparr>g_done := D\<rparr>) = enq_ok G"
  "flags_ok (G\<lparr>g_read := R\<rparr>) = flags_ok G" "elems_ok (G\<lparr>g_done := D\<rparr>) = elems_ok G"
  by (auto simp: fun_eq_iff g_old_def blk_def ring_ok_def header_ok_def index_ok_def enq_ok_def flags_ok_def elems_ok_def Let_def
      split: enq_pc.splits)

lemma live_blocks:
  assumes p: "places_ok G xs p pc dq" and i: "i < 32 * g_blocks G" "i \<notin> g_done G"
  shows "g_old G \<le> i div 32" "i div 32 < g_blocks G"
  using p i by (auto simp: places_ok_def intro!: live_position)

lemma tail_in_blocks:
  assumes "places_ok G xs p pc dq"
  shows "length xs \<le> 32 * g_blocks G"
proof -
  have "unat (tail_index p) \<le> 32 * g_pub G (block_index p)" "g_pub G (block_index p) \<le> g_blocks G"
    using assms by (auto simp: places_ok_def enq_ok_def Let_def index_ok_def header_ok_def)
  then show ?thesis using assms by (simp add: places_ok_def)
qed

lemma places_read:
  assumes p: "places_ok G xs p pc dq" and HT: "unat (head_index p) \<le> unat (tail_index p)" and t: "dq t = D_read i b"
  shows "bl_elems (block_at p b) (cell i) = Some (xs ! unat i)"
    and "places_ok (G\<lparr>g_read := insert (unat i) (g_read G)\<rparr>) xs (put_at b i None p) pc (dq(t := D_set i b))"
proof -
  let ?j = "unat i" and ?G = "G\<lparr>g_read := insert (unat i) (g_read G)\<rparr>" and ?B = "put_elem i None (block_at p b)"
  have c: "claimed (dq t) = Some ?j" by (simp add: t claimed_def)
  note j = claimed_position [OF p HT c]
  have r: "readers_ok G p dq" and ring: "ring_ok G p" and sub: "g_done G \<subseteq> g_read G" and len: "unat (tail_index p) = length xs"
    using p by (auto simp: places_ok_def)
  have "deq_ok G (unat (head_index p)) (block_index p) (header_at p) (dq t)" using r by (simp add: readers_ok_def)
  then have new: "?j < unat (head_index p)" "?j \<notin> g_read G" and b: "b = blk G (?j div 32)" by (auto simp: deq_ok_def t)
  have e: "bl_elems (block_at p (blk G (k div 32))) (k mod 32) = Some (xs ! k)" if "k < length xs" "k \<notin> g_read G" for k
    using p that by (simp add: places_ok_def elems_ok_def)
  show "bl_elems (block_at p b) (cell i) = Some (xs ! ?j)" using e [OF j(1) new(2)] by (simp add: b cell_unat)
  have apart: "blk G (k div 32) \<noteq> b \<or> k mod 32 \<noteq> cell i" if "k < 32 * g_blocks G" "k \<notin> g_done G" "k \<noteq> ?j" for k
    using other_cell [OF ring live_blocks [OF p that(1,2)] j(3,4) that(3)] by (simp add: b cell_unat)
  have "elems_ok ?G xs ((block_at p)(b := ?B))"
    unfolding elems_ok_def
  proof (intro allI impI)
    fix k assume k: "k < length xs" "k \<notin> g_read ?G"
    then have "blk G (k div 32) \<noteq> b \<or> k mod 32 \<noteq> cell i" using tail_in_blocks [OF p] sub by (intro apart) auto
    then show "bl_elems (((block_at p)(b := ?B)) (blk ?G (k div 32))) (k mod 32) = Some (xs ! k)"
      using e [of k] k by auto
  qed
  moreover have "enq_ok ?G (put_at b i None p) pc"
  proof -
    have "length xs \<notin> g_done G" using sub p HT len by (auto simp: places_ok_def)
    then have "length xs < 32 * g_blocks G \<Longrightarrow> blk G (length xs div 32) \<noteq> b \<or> length xs mod 32 \<noteq> cell i"
      using apart j(1) by auto
    then show ?thesis using p len by (auto simp: places_ok_def enq_ok_def put_at_def Let_def split: enq_pc.splits)
  qed
  moreover have "readers_ok ?G p (dq(t := D_set i b))"
  proof -
    have "deq_ok ?G (unat (head_index p)) (block_index p) (header_at p) (dq u)" if "u \<noteq> t" for u
    proof -
      have "claimed (dq u) \<noteq> Some ?j" using r c that unfolding readers_ok_def by blast
      moreover have "deq_ok G (unat (head_index p)) (block_index p) (header_at p) (dq u)" using r by (simp add: readers_ok_def)
      ultimately show ?thesis by (auto simp: deq_ok_def claimed_def split: deq_pc.splits)
    qed
    moreover have "deq_ok ?G (unat (head_index p)) (block_index p) (header_at p) (D_set i b)"
      using new j(2) b by (simp add: deq_ok_def)
    moreover have "claimed ((dq(t := D_set i b)) u) = claimed (dq u)" for u using c by (simp add: claimed_def)
    ultimately show ?thesis using r unfolding readers_ok_def by simp
  qed
  moreover have "ring_ok G (put_at b i None p)" "flags_ok G (block_at (put_at b i None p))" "index_ok G (put_at b i None p)"
    using p by (auto simp: places_ok_def put_at_def intro!: ring_block flags_block)
  ultimately show "places_ok ?G xs (put_at b i None p) pc (dq(t := D_set i b))"
    using p new sub by (auto simp: places_ok_def put_at_def)
qed

lemma places_set:
  assumes p: "places_ok G xs p pc dq" and HT: "unat (head_index p) \<le> unat (tail_index p)" and t: "dq t = D_set i b"
  shows "places_ok (G\<lparr>g_done := insert (unat i) (g_done G)\<rparr>) xs
    (p\<lparr>block_at := (block_at p)(b := set_empty i (block_at p b))\<rparr>) pc (dq(t := D_idle))"
proof -
  let ?j = "unat i" and ?G = "G\<lparr>g_done := insert (unat i) (g_done G)\<rparr>" and ?B = "set_empty i (block_at p b)"
  have c: "claimed (dq t) = Some ?j" by (simp add: t claimed_def)
  note j = claimed_position [OF p HT c]
  have r: "readers_ok G p dq" and ring: "ring_ok G p" and fl: "flags_ok G (block_at p)" using p by (auto simp: places_ok_def)
  have "deq_ok G (unat (head_index p)) (block_index p) (header_at p) (dq t)" using r by (simp add: readers_ok_def)
  then have Rd: "?j \<in> g_read G" and b: "b = blk G (?j div 32)" by (auto simp: deq_ok_def t)
  have "flags_ok ?G ((block_at p)(b := ?B))"
    unfolding flags_ok_def
  proof (intro allI impI conjI)
    fix q assume "g_old ?G \<le> q \<and> q < g_blocks ?G"
    then have q: "g_old G \<le> q" "q < g_blocks G" by auto
    then have eq: "blk G q = b \<longleftrightarrow> q = ?j div 32" using ring j(3,4) unfolding b by (intro blk_inj) (auto simp: ring_ok_def)
    have f: "length (bl_flags (block_at p (blk G q))) = 32"
      "k < 32 \<Longrightarrow> bl_flags (block_at p (blk G q)) ! (31 - k) \<longleftrightarrow> 32 * q + k \<in> g_done G" for k
      using fl q by (auto simp: flags_ok_def)
    then show "length (bl_flags (((block_at p)(b := ?B)) (blk ?G q))) = 32" by (cases "blk G q = b") auto
    fix k :: nat assume k: "k < 32"
    show "bl_flags (((block_at p)(b := ?B)) (blk ?G q)) ! (31 - k) \<longleftrightarrow> 32 * q + k \<in> g_done ?G"
    proof (cases "q = ?j div 32")
      case True
      have "31 - k = 31 - ?j mod 32 \<longleftrightarrow> k = ?j mod 32" using k by auto
      also have "\<dots> \<longleftrightarrow> 32 * q + k = ?j" using mult_div_mod_eq [of 32 ?j] by (simp only: True) linarith
      finally have "31 - k = 31 - ?j mod 32 \<longleftrightarrow> 32 * q + k = ?j" .
      then show ?thesis using f k True eq by (auto simp: nth_list_update flag_unat)
    next
      case False
      then have "32 * q + k \<noteq> ?j" using k by auto
      then show ?thesis using f k False eq by auto
    qed
  qed
  moreover have "readers_ok ?G p (dq(t := D_idle))"
  proof -
    have other: "claimed (dq u) \<noteq> Some ?j" if "u \<noteq> t" for u using r c that unfolding readers_ok_def by blast
    have "deq_ok ?G (unat (head_index p)) (block_index p) (header_at p) (dq u)" if "u \<noteq> t" for u
    proof -
      have "deq_ok G (unat (head_index p)) (block_index p) (header_at p) (dq u)" using r by (simp add: readers_ok_def)
      then show ?thesis using other [OF that] by (auto simp: deq_ok_def claimed_def split: deq_pc.splits)
    qed
    moreover have "deq_ok ?G H cur I D_idle" for H cur I by (simp add: deq_ok_def)
    moreover have cl: "claimed ((dq(t := D_idle)) u) = Some k \<longleftrightarrow> u \<noteq> t \<and> claimed (dq u) = Some k" for u k
      by (simp add: claimed_def)
    moreover have "k \<in> insert ?j (g_done G) \<or> (\<exists>u. u \<noteq> t \<and> claimed (dq u) = Some k)" if "k < unat (head_index p)" for k
      using r c that unfolding readers_ok_def by (metis insert_iff option.inject)
    moreover have "\<forall>u v k. u \<noteq> t \<and> claimed (dq u) = Some k \<longrightarrow> v \<noteq> t \<and> claimed (dq v) = Some k \<longrightarrow> u = v"
      using r unfolding readers_ok_def by blast
    ultimately show ?thesis unfolding readers_ok_def cl by auto
  qed
  moreover have "ring_ok G (p\<lparr>block_at := (block_at p)(b := ?B)\<rparr>)" "elems_ok G xs ((block_at p)(b := ?B))"
    "enq_ok G (p\<lparr>block_at := (block_at p)(b := ?B)\<rparr>) pc"
    using p by (auto simp: places_ok_def intro!: ring_block elems_block enq_block)
  ultimately show ?thesis using p Rd by (auto simp: places_ok_def)
qed

definition read_after :: "'a event \<Rightarrow> nat set \<Rightarrow> nat set" where
  "read_after e R = (case e of Dequeued i x \<Rightarrow> insert (unat i) R | _ \<Rightarrow> R)"

definition dequeue_right :: "nat set \<Rightarrow> 'a list \<Rightarrow> 'a event \<Rightarrow> bool" where
  "dequeue_right R xs e =
     (case e of Dequeued i x \<Rightarrow> unat i \<notin> R \<and> unat i < length xs \<and> x = xs ! unat i | Undefined \<Rightarrow> False | _ \<Rightarrow> True)"

lemma places_deq:
  assumes p: "places_ok G xs p pc dq" and st: "deq_step (p, dq t) e (p', pc')"
    and HT: "unat (head_index p) \<le> unat (tail_index p)" and T: "unat (tail_index p) < 2 ^ 62"
  shows "dequeue_right (g_read G) xs e \<and>
    (\<exists>G'. places_ok G' xs p' pc (dq(t := pc')) \<and> g_read G' = read_after e (g_read G))"
proof -
  have ok: "deq_ok G (unat (head_index p)) (block_index p) (header_at p) (dq t)" and ix: "index_ok G p"
    using p by (auto simp: places_ok_def readers_ok_def)
  note same = places_same [OF p, of _ t]
  show ?thesis using st
  proof cases
    case (d_claim oc c)
    then show ?thesis using places_claim [OF p, of t] HT T
      by (auto simp: dequeue_right_def read_after_def claimed_def simp del: fun_upd_apply)
  next
    case (d_index i)
    have "unat i div 32 < g_pub G (block_index p)"
      using claimed_position(5) [OF p HT, of t] d_index by (simp add: claimed_def)
    then have "places_ok G xs p pc (dq(t := pc'))"
      using d_index ok ix by (intro same) (auto simp: claimed_def deq_ok_def index_ok_def)
    then show ?thesis using d_index by (auto simp: dequeue_right_def read_after_def)
  next
    case (d_front i g)
    then have g: "header_ok G g (header_at p g)" "unat i div 32 < g_pub G g" using ok ix by (auto simp: deq_ok_def index_ok_def)
    then have "unat (ih_front (header_at p g)) = (g_pub G g - 1 - g_base G g) mod unat (ih_size (header_at p g))"
      by (auto simp: header_ok_def)
    then have "places_ok G xs p pc (dq(t := pc'))"
      using d_front ok g(2) by (intro same) (auto simp: claimed_def deq_ok_def intro!: exI [of _ "g_pub G g - 1"])
    then show ?thesis using d_front by (auto simp: dequeue_right_def read_after_def)
  next
    case (d_entry i g f)
    then have "places_ok G xs p pc (dq(t := pc'))"
      using ok places_entry [OF p HT T, of t i g f] by (intro same) (auto simp: claimed_def deq_ok_def)
    then show ?thesis using d_entry by (auto simp: dequeue_right_def read_after_def)
  next
    case (d_read b i x)
    then have "x = xs ! unat i" using places_read(1) [OF p HT, of t i b] by simp
    moreover have "unat i < length xs" using claimed_position(1) [OF p HT, of t] d_read by (simp add: claimed_def)
    moreover have "unat i \<notin> g_read G" using ok d_read by (simp add: deq_ok_def)
    ultimately show ?thesis
      using d_read places_read(2) [OF p HT, of t i b]
      by (auto simp: dequeue_right_def read_after_def simp del: fun_upd_apply
          intro!: exI [of _ "G\<lparr>g_read := insert (unat i) (g_read G)\<rparr>"])
  next
    case (d_broken b i)
    then show ?thesis using places_read(1) [OF p HT, of t i b] by simp
  next
    case (d_set i b)
    then show ?thesis
      using places_set [OF p HT, of t i b]
      by (auto simp: dequeue_right_def read_after_def simp del: fun_upd_apply
          intro!: exI [of _ "G\<lparr>g_done := insert (unat i) (g_done G)\<rparr>"])
  qed (use p in \<open>auto simp: dequeue_right_def read_after_def claimed_def deq_ok_def intro!: exI [of _ G] places_same simp del: fun_upd_apply\<close>)
qed


end
