(* ===== verification/Sub_Queue_Producer.thy ===== *)
theory Sub_Queue_Producer
  imports Sub_Queue_Places
begin

text \<open>
  The steps of the producer of a sub-queue keep the invariant of the places: a block that is used again, a fresh
  block, a larger index with a copy of the entries, the entry of a block and its publication, the element.
\<close>

section \<open>A block more\<close>

definition block_more :: "geo \<Rightarrow> geo \<Rightarrow> bool" where
  "block_more G G' \<longleftrightarrow>
     g_blocks G' = Suc (g_blocks G) \<and> g_done G' = g_done G \<and> g_read G' = g_read G \<and> g_added G' = g_added G \<and>
     g_pub G' = g_pub G \<and> g_base G' = g_base G \<and> g_old G \<le> g_old G' \<and> g_old G' \<le> g_blocks G \<and>
     {..<32 * g_old G'} \<subseteq> g_done G \<and>
     (\<forall>q. g_old G' \<le> q \<longrightarrow> q < g_blocks G \<longrightarrow> blk G' q = blk G q)"

lemma header_more:
  assumes "block_more G G'" "header_ok G g h"
  shows "header_ok G' g h"
  using assms by (auto simp: block_more_def header_ok_def)

lemma deq_more:
  assumes m: "block_more G G'" and ok: "deq_ok G H cur I pc" and sub: "g_done G \<subseteq> g_read G"
    and c: "\<And>i. claimed pc = Some i \<Longrightarrow> i < 32 * g_blocks G"
  shows "deq_ok G' H cur I pc"
proof -
  have "blk G' (i div 32) = blk G (i div 32)" if "claimed pc = Some i" "i \<notin> g_done G" for i
    using m c [OF that(1)] that(2) live_position [of G' i] by (auto simp: block_more_def)
  then show ?thesis
    using ok m sub by (auto simp: deq_ok_def claimed_def block_more_def split: deq_pc.splits)
qed

lemma elems_more:
  assumes m: "block_more G G'" and e: "elems_ok G xs B" and sub: "g_done G \<subseteq> g_read G" and len: "length xs \<le> 32 * g_blocks G"
    and B: "\<And>b. bl_elems (B' b) = bl_elems (B b)"
  shows "elems_ok G' xs B'"
proof -
  have "blk G' (i div 32) = blk G (i div 32)" if "i < length xs" "i \<notin> g_read G" for i
    using m len that sub live_position [of G' i] by (auto simp: block_more_def)
  then show ?thesis using e m B by (auto simp: elems_ok_def block_more_def)
qed

text \<open>The new block is the last one, and its flags are reset.\<close>

lemma flags_more:
  assumes m: "block_more G G'" and f: "flags_ok G B" and len: "g_done G \<subseteq> {..<32 * g_blocks G}"
    and new: "bl_flags (B' (blk G' (g_blocks G))) = replicate 32 False"
    and B: "\<And>q. g_old G' \<le> q \<Longrightarrow> q < g_blocks G \<Longrightarrow> bl_flags (B' (blk G q)) = bl_flags (B (blk G q))"
  shows "flags_ok G' B'"
  unfolding flags_ok_def
proof (intro allI impI)
  fix q assume q: "g_old G' \<le> q \<and> q < g_blocks G'"
  show "length (bl_flags (B' (blk G' q))) = 32 \<and> (\<forall>k<32. bl_flags (B' (blk G' q)) ! (31 - k) \<longleftrightarrow> 32 * q + k \<in> g_done G')"
  proof (cases "q = g_blocks G")
    case True
    then show ?thesis using m len new by (auto simp: block_more_def)
  next
    case False
    then have "q < g_blocks G" using q m by (simp add: block_more_def)
    then show ?thesis using q m f B [of q] by (auto simp: block_more_def flags_ok_def)
  qed
qed

lemma places_more:
  assumes p: "places_ok G xs p pc dq" and m: "block_more G G'" and HT: "unat (head_index p) \<le> unat (tail_index p)"
    and T: "unat (tail_index p) = 32 * g_blocks G" and ab: "g_added G (block_index p) = g_blocks G" "g_pub G (block_index p) = g_blocks G"
    and len: "length (g_ring G') \<le> unat (index_size p)"
    and same: "tail_index p' = tail_index p" "head_index p' = head_index p" "block_index p' = block_index p"
      "header_at p' = header_at p" "index_size p' = index_size p" "index_front p' = index_front p"
    and ring: "ring_ok G' p'" and flags: "flags_ok G' (block_at p')"
    and elems: "\<And>b. bl_elems (block_at p' b) = bl_elems (block_at p b)"
  shows "places_ok G' xs p' (E_entry x) dq"
proof -
  have d: "g_done G \<subseteq> g_read G" "g_read G \<subseteq> {..<unat (head_index p)}" and r: "readers_ok G p dq"
    and ix: "index_ok G p" and el: "elems_ok G xs (block_at p)"
    using p by (auto simp: places_ok_def)
  have "deq_ok G' (unat (head_index p)) (block_index p) (header_at p) (dq t)" for t
  proof (rule deq_more [OF m])
    show "deq_ok G (unat (head_index p)) (block_index p) (header_at p) (dq t)" using r by (simp add: readers_ok_def)
    show "i < 32 * g_blocks G" if "claimed (dq t) = Some i" for i
      using claimed_position(1) [OF p HT that] tail_in_blocks [OF p] by simp
  qed (rule d)
  then have "readers_ok G' p' dq" using r m unfolding readers_ok_def same by (simp add: block_more_def)
  moreover have "elems_ok G' xs (block_at p')" by (rule elems_more [OF m el d(1) tail_in_blocks [OF p] elems])
  moreover have "index_ok G' p'"
    using ix len header_more [OF m] m unfolding index_ok_def same by (auto simp: block_more_def)
  moreover have "enq_ok G' p' (E_entry x)"
    using T ab m unfolding enq_ok_def same by (simp add: Let_def block_more_def)
  ultimately show ?thesis
    using p m ring flags unfolding places_ok_def same by (auto simp: block_more_def)
qed

text \<open>The oldest block is used again.\<close>

lemma reusable_block:
  assumes p: "places_ok G xs p pc dq" and r: "reusable p b"
  shows "g_ring G \<noteq> []" "b = g_ring G ! 0" "g_old G < g_blocks G" "{..<32 * Suc (g_old G)} \<subseteq> g_done G"
proof -
  have ring: "ring_ok G p" and fl: "flags_ok G (block_at p)" and old: "{..<32 * g_old G} \<subseteq> g_done G"
    using p by (auto simp: places_ok_def)
  show ne: "g_ring G \<noteq> []" using r ring by (auto simp: reusable_def ring_ok_def)
  let ?R = "length (g_ring G)"
  have "tail_block p = Some (g_ring G ! (?R - 1))" using ring ne by (simp add: ring_ok_def last_conv_nth)
  moreover have "bl_next (block_at p (g_ring G ! (?R - 1))) = g_ring G ! 0"
    using ring ne by (auto simp: ring_ok_def dest: spec [where x = "?R - 1"])
  ultimately show b: "b = g_ring G ! 0" using r by (simp add: reusable_def)
  show lt: "g_old G < g_blocks G" using ring ne length_greater_0_conv [of "g_ring G"] unfolding g_old_def ring_ok_def by linarith
  have "b = blk G (g_old G)" by (simp add: b blk_def)
  then have f: "length (bl_flags (block_at p b)) = 32" "k < 32 \<Longrightarrow> bl_flags (block_at p b) ! (31 - k) \<longleftrightarrow> 32 * g_old G + k \<in> g_done G" for k
    using fl lt by (auto simp: flags_ok_def)
  have "is_empty (block_at p b)" using r by (auto simp: reusable_def)
  then have "bl_flags (block_at p b) ! n" if "n < 32" for n using that f(1) by (auto simp: is_empty_def list_all_length)
  then have d: "32 * g_old G + k \<in> g_done G" if "k < 32" for k using f(2) that by simp
  show "{..<32 * Suc (g_old G)} \<subseteq> g_done G"
  proof
    fix i assume "i \<in> {..<32 * Suc (g_old G)}"
    then show "i \<in> g_done G" using old d [of "i - 32 * g_old G"] by (cases "i < 32 * g_old G") auto
  qed
qed

lemma places_reuse:
  assumes p: "places_ok G xs p (E_need x) dq" and HT: "unat (head_index p) \<le> unat (tail_index p)" and r: "reusable p b"
  shows "places_ok (G\<lparr>g_ring := rotate1 (g_ring G), g_blocks := Suc (g_blocks G)\<rparr>) xs (reuse_block b p) (E_entry x) dq"
proof -
  let ?G = "G\<lparr>g_ring := rotate1 (g_ring G), g_blocks := Suc (g_blocks G)\<rparr>" and ?R = "length (g_ring G)"
  note u = reusable_block [OF p r]
  have ring: "ring_ok G p" and T: "unat (tail_index p) = 32 * g_blocks G" and fl: "flags_ok G (block_at p)"
    and ab: "g_added G (block_index p) = g_blocks G" "g_pub G (block_index p) = g_blocks G"
    using p by (auto simp: places_ok_def enq_ok_def Let_def)
  have R: "0 < ?R" "?R \<le> g_blocks G" using ring u(1) by (auto simp: ring_ok_def)
  then have old: "g_old ?G = Suc (g_old G)" by (simp add: g_old_def)
  have blk: "blk ?G q = blk G q" if "Suc (g_old G) \<le> q" "q < g_blocks G" for q
  proof -
    have "q - Suc (g_old G) < ?R" "Suc (q - Suc (g_old G)) < ?R" "Suc (q - Suc (g_old G)) = q - g_old G"
      using that R by (auto simp: g_old_def)
    then show ?thesis using that by (simp add: blk_def old nth_rotate1)
  qed
  have more: "block_more G ?G" using u old blk by (auto simp: block_more_def)
  have lst: "blk ?G (g_blocks G) = b"
    using R by (simp add: blk_def old u(2) g_old_def nth_rotate1 Suc_diff_le)
  have other: "blk G q \<noteq> b" if "Suc (g_old G) \<le> q" "q < g_blocks G" for q
    using blk_inj [of G q "g_old G"] that ring u(3) by (auto simp: u(2) blk_def ring_ok_def)
  have "ring_ok ?G (reuse_block b p)"
  proof -
    have "bl_next (block_at p (rotate1 (g_ring G) ! k)) = rotate1 (g_ring G) ! (Suc k mod ?R)" if "k < ?R" for k
      using that R ring by (simp add: nth_rotate1 ring_ok_def)
    moreover have "last (rotate1 (g_ring G)) = b" using u(1,2) by (cases "g_ring G") auto
    moreover have "bl_next (block_at (reuse_block b p) c) = bl_next (block_at p c)" for c by (simp add: reuse_block_def)
    ultimately show ?thesis using ring u(1) by (simp add: ring_ok_def) (simp add: reuse_block_def)
  qed
  moreover have "flags_ok ?G (block_at (reuse_block b p))"
  proof (rule flags_more [OF more fl])
    show "g_done G \<subseteq> {..<32 * g_blocks G}" using p HT T by (auto simp: places_ok_def)
  qed (use other old lst in \<open>auto simp: reuse_block_def\<close>)
  moreover have "length (g_ring ?G) \<le> unat (index_size p)" using p by (auto simp: places_ok_def index_ok_def)
  ultimately show ?thesis
    by (intro places_more [OF p more HT T ab]) (auto simp: reuse_block_def)
qed

text \<open>A fresh block comes after the newest.\<close>

lemma insert_block_simps [simp]:
  "tail_index (insert_block b p) = tail_index p" "head_index (insert_block b p) = head_index p"
  "block_index (insert_block b p) = block_index p" "header_at (insert_block b p) = header_at p"
  "index_size (insert_block b p) = index_size p" "index_front (insert_block b p) = index_front p"
  "owned (insert_block b p) = insert b (owned p)" "slots_used (insert_block b p) = slots_used p + 1"
  "tail_block (insert_block b p) = Some b"
  by (auto simp: insert_block_def link_block_def Let_def split: option.splits)

lemma insert_block_elems: "bl_elems (block_at (insert_block b p) c) = bl_elems (block_at p c)"
  by (auto simp: insert_block_def link_block_def Let_def split: option.splits)

lemma insert_block_flags:
  assumes "tail_block p \<noteq> Some b"
  shows "bl_flags (block_at (insert_block b p) c) = (if c = b then replicate 32 False else bl_flags (block_at p c))"
  using assms by (auto simp: insert_block_def link_block_def Let_def split: option.splits)

lemma insert_block_next:
  assumes "tail_block p \<noteq> Some b"
  shows "bl_next (block_at (insert_block b p) c) =
    (if Some c = tail_block p then b
     else if c = b then (case tail_block p of None \<Rightarrow> b | Some t \<Rightarrow> bl_next (block_at p t)) else bl_next (block_at p c))"
  using assms by (auto simp: insert_block_def link_block_def Let_def split: option.splits)

lemma places_insert:
  assumes p: "places_ok G xs p (E_block x) dq" and HT: "unat (head_index p) \<le> unat (tail_index p)" and b: "b \<notin> owned p"
  shows "places_ok (G\<lparr>g_ring := g_ring G @ [b], g_blocks := Suc (g_blocks G)\<rparr>) xs (insert_block b p) (E_entry x) dq"
proof -
  let ?G = "G\<lparr>g_ring := g_ring G @ [b], g_blocks := Suc (g_blocks G)\<rparr>" and ?R = "length (g_ring G)"
  have ring: "ring_ok G p" and T: "unat (tail_index p) = 32 * g_blocks G" and fl: "flags_ok G (block_at p)"
    and ab: "g_added G (block_index p) = g_blocks G" "g_pub G (block_index p) = g_blocks G"
    and room: "?R < unat (index_size p)"
    using p by (auto simp: places_ok_def enq_ok_def Let_def)
  have R: "?R \<le> g_blocks G" and ne: "g_blocks G = 0 \<or> g_ring G \<noteq> []" and b': "b \<notin> set (g_ring G)"
    and tl: "tail_block p = (if g_ring G = [] then None else Some (last (g_ring G)))"
    using ring b by (auto simp: ring_ok_def)
  then have tb: "tail_block p \<noteq> Some b" by auto
  have old: "g_old ?G = g_old G" by (simp add: g_old_def)
  have blk: "blk ?G q = blk G q" if "g_old G \<le> q" "q < g_blocks G" for q
    using that R by (auto simp: blk_def old nth_append g_old_def)
  have more: "block_more G ?G" using p old blk by (auto simp: block_more_def places_ok_def g_old_def)
  have lst: "blk ?G (g_blocks G) = b" using R by (simp add: blk_def old g_old_def)
  have other: "blk G q \<noteq> b" if "g_old G \<le> q" "q < g_blocks G" for q using blk_in_ring(2) [OF R that] b' by auto
  have "ring_ok ?G (insert_block b p)"
  proof -
    have "bl_next (block_at (insert_block b p) ((g_ring G @ [b]) ! k)) = (g_ring G @ [b]) ! (Suc k mod Suc ?R)" if k: "k < Suc ?R" for k
    proof (cases "g_ring G = []")
      case True
      then show ?thesis using k tl by (simp add: insert_block_next)
    next
      case False
      then have tls: "tail_block p = Some (g_ring G ! (?R - 1))" "last (g_ring G) = g_ring G ! (?R - 1)" using tl by (auto simp: last_conv_nth)
      have nx: "j < ?R \<Longrightarrow> bl_next (block_at p (g_ring G ! j)) = g_ring G ! (Suc j mod ?R)" for j using ring by (simp add: ring_ok_def)
      consider "k = ?R" | "Suc k = ?R" | "Suc k < ?R" using k by linarith
      then show ?thesis
      proof cases
        case 1
        then show ?thesis using False tls nx [of "?R - 1"] tb by (auto simp: insert_block_next [OF tb] nth_append)
      next
        case 2
        then show ?thesis using tls by (auto simp: insert_block_next [OF tb] nth_append simp flip: 2)
      next
        case 3
        then have "g_ring G ! k \<noteq> g_ring G ! (?R - 1)" "g_ring G ! k \<noteq> b"
          using ring b' by (auto simp: ring_ok_def nth_eq_iff_index_eq dest: nth_mem [of k])
        then show ?thesis using 3 tls nx [of k] by (simp add: insert_block_next [OF tb] nth_append)
      qed
    qed
    moreover have "unat (slots_used p + 1) = Suc ?R" using ring R T HT unsigned_less [where 'a = nat, of "tail_index p"] by (simp add: unat_add_1 ring_ok_def)
    ultimately show ?thesis using ring R b' by (auto simp: ring_ok_def)
  qed
  moreover have "flags_ok ?G (block_at (insert_block b p))"
  proof (rule flags_more [OF more fl])
    show "g_done G \<subseteq> {..<32 * g_blocks G}" using p HT T by (auto simp: places_ok_def)
  qed (use other old lst in \<open>auto simp: insert_block_flags [OF tb]\<close>)
  moreover have "length (g_ring ?G) \<le> unat (index_size p)" using room by simp
  ultimately show ?thesis
    by (intro places_more [OF p more HT T ab]) (auto simp: insert_block_elems)
qed

section \<open>The index\<close>

lemma unat_next_slot:
  assumes "k < 64"
  shows "unat ((f + 1) AND ((2 :: 64 word) ^ k - 1)) = Suc (unat f) mod 2 ^ k"
proof -
  have "f + 1 = word_of_int (int (Suc (unat f)))" by (simp add: add.commute)
  then have "unat ((f + 1) AND mask k) = nat (int (Suc (unat f)) mod 2 ^ k)" by (simp only: unat_of_int_and_mask [OF assms])
  also have "int (Suc (unat f)) mod 2 ^ k = int (Suc (unat f) mod 2 ^ k)" by (simp only: zmod_int of_nat_power of_nat_numeral)
  finally show ?thesis by (simp only: mask_eq_exp_minus_1 nat_int)
qed

lemma copy_entries_copies:
  assumes "k < 64" "n \<le> fuel" "0 < n" "unat i = a mod 2 ^ k" "(a + n) mod 2 ^ k = unat fr"
    and "\<And>m. 0 < m \<Longrightarrow> m < n \<Longrightarrow> (a + m) mod 2 ^ k \<noteq> unat fr"
  shows "\<exists>new'. copy_entries fuel i fr (2 ^ k - 1) old j new = Some (j + n, new') \<and>
    (\<forall>m < n. new' (j + m) = old ((a + m) mod 2 ^ k)) \<and> (\<forall>x < j. new' x = new x)"
  using assms
proof (induction fuel arbitrary: n i a j new)
  case (Suc fuel)
  let ?i = "(i + 1) AND (2 ^ k - 1)" and ?new = "new(j := old (unat i))"
  have i: "unat ?i = Suc a mod 2 ^ k" by (simp add: unat_next_slot [OF Suc.prems(1)] Suc.prems(4) mod_Suc_eq)
  show ?case
  proof (cases "n = 1")
    case True
    then have "?i = fr" using Suc.prems(5) i by (simp add: unsigned_word_eqI)
    then show ?thesis using Suc.prems(4) True by simp
  next
    case False
    then have n: "0 < n - 1" "n - 1 \<le> fuel" "Suc a + (n - 1) = a + n" using Suc.prems(2,3) by auto
    have "Suc a mod 2 ^ k \<noteq> unat fr" using Suc.prems(6) [of 1] n by simp
    then have ne: "?i \<noteq> fr" using i by auto
    have "(Suc a + m) mod 2 ^ k \<noteq> unat fr" if "0 < m" "m < n - 1" for m using Suc.prems(6) [of "Suc m"] that by simp
    then obtain new' where new': "copy_entries fuel ?i fr (2 ^ k - 1) old (Suc j) ?new = Some (Suc j + (n - 1), new')"
      "\<forall>m < n - 1. new' (Suc j + m) = old ((Suc a + m) mod 2 ^ k)" "\<forall>x < Suc j. new' x = ?new x"
      using Suc.IH [of "n - 1" ?i "Suc a" "Suc j" ?new] Suc.prems(1,5) n i by (auto simp del: fun_upd_apply)
    have "new' (j + m) = old ((a + m) mod 2 ^ k)" if "m < n" for m
      using new'(2,3) that Suc.prems(4) by (cases m) auto
    then show ?thesis using new' ne n(1) by (auto simp: Let_def)
  qed
qed simp

text \<open>A full round of a ring of \<open>2 ^ k\<close> slots.\<close>

lemma copy_entries_round:
  assumes "k < 64" "unat fr < 2 ^ k"
  shows "\<exists>new'. copy_entries (2 ^ k) fr fr (2 ^ k - 1) old 0 new = Some (2 ^ k, new') \<and>
    (\<forall>m < 2 ^ k. new' m = old ((unat fr + m) mod 2 ^ k))"
proof -
  have "(unat fr + m) mod 2 ^ k \<noteq> unat fr" if "0 < m" "m < 2 ^ k" for m
    using that assms(2) by (cases "unat fr + m < 2 ^ k") (auto simp: le_mod_geq)
  then show ?thesis
    using copy_entries_copies [of k "2 ^ k" "2 ^ k" fr "unat fr" fr old 0 new] assms by simp
qed

text \<open>A larger index with the blocks of the ring in its first slots.\<close>

lemma new_block_index_grows:
  assumes ix: "index_ok G p" and ring: "ring_ok G p" and full: "slots_used p = index_size p"
    and ab: "g_pub G (block_index p) = g_blocks G" "g_added G (block_index p) = g_blocks G" and Q: "g_blocks G < 2 ^ 58"
    and p': "new_block_index (slots_used p) p = Some p'"
  shows "\<exists>G'. G' = G\<lparr>g_added := (g_added G)(Suc (block_index p) := g_blocks G), g_pub := (g_pub G)(Suc (block_index p) := g_blocks G),
      g_base := (g_base G)(Suc (block_index p) := g_old G)\<rparr> \<and>
    block_index p' = Suc (block_index p) \<and> (\<forall>g \<le> block_index p. header_at p' g = header_at p g) \<and>
    index_ok G' p' \<and> length (g_ring G) < unat (index_size p')"
proof -
  let ?c = "block_index p" and ?h = "header_at p (block_index p)" and ?R = "length (g_ring G)"
  have h: "header_ok G ?c ?h" and sz: "index_size p = ih_size ?h" using ix by (auto simp: index_ok_def)
  then obtain k where k: "k \<le> 62" "index_size p = 2 ^ k" by (auto simp: header_ok_def)
  then have k64: "k < 64" by simp
  have used: "slots_used p = 2 ^ k" "?R = 2 ^ k" and RQ: "?R \<le> g_blocks G"
    using ring full k unat_2_power [of k] by (auto simp: ring_ok_def)
  then have "(2 :: nat) ^ k < 2 ^ 58" using Q by simp
  then have k58: "k < 58" by (rule power_less_imp_less_exp [rotated]) simp
  have size: "unat (2 ^ k :: 64 word) = 2 ^ k" "unat (2 ^ Suc k :: 64 word) = 2 ^ Suc k" using k58 by (simp_all add: unat_2_power del: power_Suc)
  have base: "g_base G ?c \<le> g_old G" using h by (simp add: header_ok_def)
  have Qo: "g_blocks G = g_old G + 2 ^ k" using RQ used by (simp add: g_old_def)
  have fr: "unat (index_front p) = (g_old G - g_base G ?c) mod 2 ^ k"
  proof -
    have "unat (index_front p) = (g_blocks G - g_base G ?c) mod 2 ^ k" using ix ab k size by (simp add: index_ok_def)
    also have "g_blocks G - g_base G ?c = (g_old G - g_base G ?c) + 2 ^ k" using base Qo by simp
    finally show ?thesis by (simp only: mod_add_self2)
  qed
  then have fr': "unat (index_front p) < 2 ^ k" by simp
  have "unat ((index_front p - 2 ^ k) AND (2 ^ k - 1)) = unat (index_front p)"
  proof -
    have "index_front p - 2 ^ k = word_of_int (int (unat (index_front p)) - 2 ^ k)" by simp
    then have "unat ((index_front p - 2 ^ k) AND mask k) = nat ((int (unat (index_front p)) - 2 ^ k) mod 2 ^ k)"
      by (simp only: unat_of_int_and_mask [OF k64])
    also have "(int (unat (index_front p)) - 2 ^ k) mod 2 ^ k = int (unat (index_front p))"
    proof -
      have "int (unat (index_front p)) mod 2 ^ k = int (unat (index_front p) mod 2 ^ k)" by (simp only: zmod_int of_nat_power of_nat_numeral)
      also have "unat (index_front p) mod 2 ^ k = unat (index_front p)" using fr' by (rule mod_less)
      finally show ?thesis by (simp only: minus_mod_self2)
    qed
    finally show ?thesis by (simp only: mask_eq_exp_minus_1 nat_int)
  qed
  then have start: "(index_front p - 2 ^ k) AND (2 ^ k - 1) = index_front p" by (rule unsigned_word_eqI)
  obtain new where new: "copy_entries (2 ^ k) (index_front p) (index_front p) (2 ^ k - 1) (ih_entries ?h) 0 (\<lambda>_. (0, 0)) = Some (2 ^ k, new)"
    "\<And>m. m < 2 ^ k \<Longrightarrow> new m = ih_entries ?h ((unat (index_front p) + m) mod 2 ^ k)"
    using copy_entries_round [OF k64 fr'] by blast
  have nz: "(2 :: 64 word) ^ k \<noteq> 0" using size by (metis power_not_zero unsigned_0 zero_neq_numeral)
  have p'': "p' = p\<lparr>index_size := 2 ^ Suc k, index_front := 2 ^ k, block_index := Suc ?c,
      header_at := (header_at p)(Suc ?c := \<lparr>ih_size = 2 ^ Suc k, ih_front = 2 ^ k - 1, ih_entries = new\<rparr>)\<rparr>"
    using p' nz by (simp add: new_block_index_def Let_def k used start new size push_bit_eq_mult mult.commute)
  let ?G = "G\<lparr>g_added := (g_added G)(Suc ?c := g_blocks G), g_pub := (g_pub G)(Suc ?c := g_blocks G), g_base := (g_base G)(Suc ?c := g_old G)\<rparr>"
  have geo: "g_old ?G = g_old G" "blk ?G = blk G" by (auto simp: g_old_def blk_def fun_eq_iff)
  have "header_ok ?G g (header_at p' g)" if "0 < g" "g \<le> ?c" for g
    using ix that by (auto simp: index_ok_def header_ok_def geo p'')
  moreover have "header_ok ?G (Suc ?c) (header_at p' (Suc ?c))"
  proof -
    have "new (q - g_old G) = (word_of_nat (32 * q), blk G q)" if "g_old G \<le> q" "q < g_blocks G" for q
    proof -
      have m: "q - g_old G < 2 ^ k" using that Qo by simp
      have "(unat (index_front p) + (q - g_old G)) mod 2 ^ k = (q - g_base G ?c) mod 2 ^ k"
      proof -
        have "(unat (index_front p) + (q - g_old G)) mod 2 ^ k = ((g_old G - g_base G ?c) + (q - g_old G)) mod 2 ^ k"
          unfolding fr by (rule mod_add_left_eq)
        also have "(g_old G - g_base G ?c) + (q - g_old G) = q - g_base G ?c" using that base by simp
        finally show ?thesis .
      qed
      then show ?thesis using h that new(2) [OF m] ab k sz size by (simp add: header_ok_def)
    qed
    moreover have "q - g_old G < 2 ^ Suc k" if "q < g_blocks G" for q
    proof -
      have "q - g_old G < 2 ^ k"
      proof (cases "g_old G \<le> q")
        case True
        then show ?thesis using that Qo by simp
      qed simp
      also have "(2 :: nat) ^ k \<le> 2 ^ Suc k" by simp
      finally show ?thesis .
    qed
    moreover have "unat (2 ^ k - 1 :: 64 word) = g_blocks G - 1 - g_old G" using size(1) Qo by (subst unat_minus) auto
    moreover have pos: "g_old G < g_blocks G" using Qo by simp
    moreover have "g_blocks G - 1 - g_old G < 2 ^ Suc k"
    proof -
      have "g_blocks G - 1 - g_old G < 2 ^ k" using Qo by simp
      also have "(2 :: nat) ^ k \<le> 2 ^ Suc k" by simp
      finally show ?thesis .
    qed
    ultimately show ?thesis
      using k58 size(2) nz pos by (simp add: header_ok_def geo p'' del: power_Suc) (rule exI [of _ "Suc k"], simp)
  qed
  ultimately have "index_ok ?G p'"
    using size Qo used by (auto simp: index_ok_def p'' le_Suc_eq simp del: power_Suc)
  then show ?thesis using used size by (intro exI [of _ ?G]) (auto simp: p'')
qed

lemma blocks_small:
  assumes "enq_ok G p pc" "unat (tail_index p) < 2 ^ 62"
  shows "g_blocks G < 2 ^ 58"
  using assms by (auto simp: enq_ok_def Let_def split: enq_pc.splits)

lemma places_grow:
  assumes p: "places_ok G xs p (E_grow x) dq" and T: "unat (tail_index p) < 2 ^ 62"
    and p': "new_block_index (slots_used p) p = Some p'"
  shows "\<exists>G'. places_ok G' xs p' (E_block x) dq \<and> g_read G' = g_read G"
proof -
  let ?c = "block_index p"
  have eq: "enq_ok G p (E_grow x)" and ix: "index_ok G p" and ring: "ring_ok G p" and r: "readers_ok G p dq" using p by (auto simp: places_ok_def)
  note f = new_block_index_counters [OF p']
  from eq have e: "slots_used p = index_size p" "g_pub G ?c = g_blocks G" "g_added G ?c = g_blocks G"
    "unat (tail_index p) = 32 * g_blocks G" by (auto simp: enq_ok_def Let_def)
  obtain G' where G': "G' = G\<lparr>g_added := (g_added G)(Suc ?c := g_blocks G), g_pub := (g_pub G)(Suc ?c := g_blocks G),
      g_base := (g_base G)(Suc ?c := g_old G)\<rparr>"
    and n: "block_index p' = Suc ?c" "\<forall>g \<le> ?c. header_at p' g = header_at p g" "index_ok G' p'" "length (g_ring G) < unat (index_size p')"
    using new_block_index_grows [OF ix ring e(1-3) blocks_small [OF eq T] p'] by blast
  have geo: "g_old G' = g_old G" "blk G' = blk G" by (auto simp: G' g_old_def blk_def fun_eq_iff)
  have "deq_ok G' H (Suc ?c) (header_at p') pc" if "deq_ok G H ?c (header_at p) pc" for H pc
    using that n(2) by (auto simp: deq_ok_def G' blk_def g_old_def split: deq_pc.splits)
  then have "readers_ok G' p' dq" using r by (simp add: readers_ok_def f n(1)) (simp add: G')
  moreover have "ring_ok G' p'" using ring unfolding ring_ok_def f by (simp add: G')
  moreover have "flags_ok G' (block_at p')" "elems_ok G' xs (block_at p')"
    using p by (simp_all add: places_ok_def flags_ok_def elems_ok_def f geo) (simp_all add: G')
  moreover have "enq_ok G' p' (E_block x)" using e n(4) by (simp add: enq_ok_def f n(1)) (simp add: G')
  ultimately show ?thesis using p n(3) by (intro exI [of _ G']) (auto simp: places_ok_def f geo, auto simp: G')
qed

section \<open>The entry of a block\<close>

lemma add_entry_simps [simp]:
  "tail_index (add_entry p) = tail_index p" "head_index (add_entry p) = head_index p" "block_at (add_entry p) = block_at p"
  "block_index (add_entry p) = block_index p" "index_size (add_entry p) = index_size p" "index_front (add_entry p) = index_front p"
  "owned (add_entry p) = owned p" "slots_used (add_entry p) = slots_used p" "tail_block (add_entry p) = tail_block p"
  "ih_size (header_at (add_entry p) g) = ih_size (header_at p g)" "ih_front (header_at (add_entry p) g) = ih_front (header_at p g)"
  "g \<noteq> block_index p \<Longrightarrow> header_at (add_entry p) g = header_at p g"
  "ih_entries (header_at (add_entry p) (block_index p)) =
     (ih_entries (header_at p (block_index p)))(unat (index_front p) := (tail_index p, the (tail_block p)))"
  by (auto simp: add_entry_def upd_header_def)

lemma publish_front_simps [simp]:
  "tail_index (publish_front p) = tail_index p" "head_index (publish_front p) = head_index p"
  "block_at (publish_front p) = block_at p" "block_index (publish_front p) = block_index p"
  "index_size (publish_front p) = index_size p" "index_front (publish_front p) = (index_front p + 1) AND (index_size p - 1)"
  "owned (publish_front p) = owned p" "slots_used (publish_front p) = slots_used p" "tail_block (publish_front p) = tail_block p"
  "ih_size (header_at (publish_front p) g) = ih_size (header_at p g)"
  "ih_entries (header_at (publish_front p) g) = ih_entries (header_at p g)"
  "g \<noteq> block_index p \<Longrightarrow> header_at (publish_front p) g = header_at p g"
  "ih_front (header_at (publish_front p) (block_index p)) = index_front p"
  by (auto simp: publish_front_def upd_header_def)

lemma deq_mono:
  assumes ok: "deq_ok G H cur I pc" and g: "g_read G' = g_read G" "g_done G' = g_done G" "blk G' = blk G" "g_base G' = g_base G"
    and pub: "\<And>g. g_pub G g \<le> g_pub G' g" and size: "\<And>g. ih_size (I' g) = ih_size (I g)"
  shows "deq_ok G' H cur I' pc"
proof (cases pc)
  case (D_front i g)
  then show ?thesis using ok g less_le_trans [OF _ pub] by (auto simp: deq_ok_def)
next
  case (D_entry i g f)
  then show ?thesis using ok g size less_le_trans [OF _ pub] by (auto simp: deq_ok_def)
qed (use ok g in \<open>simp_all add: deq_ok_def\<close>)

lemma readers_mono:
  assumes "readers_ok G p dq" "g_read G' = g_read G" "g_done G' = g_done G" "blk G' = blk G" "g_base G' = g_base G"
    and "\<And>g. g_pub G g \<le> g_pub G' g" "\<And>g. ih_size (header_at p' g) = ih_size (header_at p g)"
    and "head_index p' = head_index p" "block_index p' = block_index p"
  shows "readers_ok G' p' dq"
proof -
  have "deq_ok G' H cur (header_at p') pc" if "deq_ok G H cur (header_at p) pc" for H cur pc
    by (rule deq_mono [OF that assms(2-7)])
  then show ?thesis using assms(1) unfolding readers_ok_def assms(3,8,9) by auto
qed

lemma newest_block:
  assumes "ring_ok G p" "0 < g_blocks G"
  shows "tail_block p = Some (blk G (g_blocks G - 1))" "g_old G < g_blocks G" "g_ring G \<noteq> []"
proof -
  have r: "g_ring G \<noteq> []" "length (g_ring G) \<le> g_blocks G" "tail_block p = Some (last (g_ring G))"
    using assms by (auto simp: ring_ok_def split: if_splits)
  then show "g_ring G \<noteq> []" "g_old G < g_blocks G" using length_greater_0_conv [of "g_ring G"] unfolding g_old_def by (blast, linarith)
  have "g_blocks G - 1 - g_old G = length (g_ring G) - 1" using r by (simp add: g_old_def)
  then show "tail_block p = Some (blk G (g_blocks G - 1))" using r by (simp add: blk_def last_conv_nth)
qed

lemma places_add_entry:
  assumes p: "places_ok G xs p (E_entry x) dq"
  shows "places_ok (G\<lparr>g_added := (g_added G)(block_index p := g_blocks G)\<rparr>) xs (add_entry p) (E_front x) dq"
proof -
  let ?c = "block_index p" and ?Q = "g_blocks G - 1" and ?G = "G\<lparr>g_added := (g_added G)(block_index p := g_blocks G)\<rparr>"
  let ?h = "header_at p ?c" and ?s = "unat (ih_size (header_at p ?c))"
  have eq: "enq_ok G p (E_entry x)" and ix: "index_ok G p" and ring: "ring_ok G p" and r: "readers_ok G p dq" using p by (auto simp: places_ok_def)
  from eq have e: "g_pub G ?c = ?Q" "g_added G ?c = ?Q" "unat (tail_index p) = 32 * ?Q" "0 < g_blocks G" by (auto simp: enq_ok_def Let_def)
  have geo: "g_old ?G = g_old G" "blk ?G = blk G" by (auto simp: g_old_def blk_def fun_eq_iff)
  have h: "header_ok G ?c ?h" and sz: "index_size p = ih_size ?h" and fr: "unat (index_front p) = (?Q - g_base G ?c) mod ?s"
    and len: "length (g_ring G) \<le> ?s" using ix e by (auto simp: index_ok_def)
  note nb = newest_block [OF ring e(4)]
  have "tail_index p = word_of_nat (32 * ?Q)" unfolding e(3) [symmetric] by simp
  then have new: "(tail_index p, the (tail_block p)) = (word_of_nat (32 * ?Q), blk G ?Q)" by (simp add: nb)
  have base: "g_base G ?c \<le> g_old G" using h by (simp add: header_ok_def)
  have ne: "(q - g_base G ?c) mod ?s \<noteq> (?Q - g_base G ?c) mod ?s" if q: "g_old G \<le> q" "q < ?Q" for q
  proof
    assume "(q - g_base G ?c) mod ?s = (?Q - g_base G ?c) mod ?s"
    then have "?s dvd (?Q - g_base G ?c) - (q - g_base G ?c)" by (metis mod_eq_dvd_iff_nat diff_le_mono less_imp_le q(2))
    then have "?s dvd ?Q - q" using q base by simp
    moreover have "0 < ?Q - q" "?Q - q < ?s" using q len by (auto simp: g_old_def)
    ultimately show False by (meson nat_dvd_not_less)
  qed
  have "header_ok ?G ?c (header_at (add_entry p) ?c)"
    unfolding header_ok_def
  proof (intro conjI allI impI)
    fix q assume "g_old ?G \<le> q \<and> q < g_added ?G ?c"
    then have q: "g_old G \<le> q" "q < g_blocks G" by (auto simp: geo)
    show "ih_entries (header_at (add_entry p) ?c) ((q - g_base ?G ?c) mod unat (ih_size (header_at (add_entry p) ?c))) = (word_of_nat (32 * q), blk ?G q)"
    proof (cases "q = ?Q")
      case True
      then show ?thesis using new fr by (simp add: geo)
    next
      case False
      then have "q < ?Q" using q by simp
      then show ?thesis using ne [OF q(1)] h q e fr by (simp add: geo header_ok_def)
    qed
  qed (use h e in \<open>auto simp: header_ok_def geo\<close>)
  moreover have "header_ok ?G g (header_at (add_entry p) g)" if "0 < g" "g \<le> ?c" "g \<noteq> ?c" for g
    using ix that by (auto simp: index_ok_def header_ok_def geo)
  ultimately have "\<forall>g. 0 < g \<and> g \<le> ?c \<longrightarrow> header_ok ?G g (header_at (add_entry p) g)" by blast
  then have "index_ok ?G (add_entry p)" using ix len sz unfolding index_ok_def by simp
  moreover have "readers_ok ?G (add_entry p) dq" using r by (rule readers_mono) (simp_all add: geo)
  moreover have "ring_ok ?G (add_entry p)" using ring by (simp add: ring_ok_def)
  moreover have "enq_ok ?G (add_entry p) (E_front x)" using e by (simp add: enq_ok_def Let_def)
  ultimately show ?thesis using p by (auto simp: places_ok_def flags_ok_def elems_ok_def geo)
qed

lemma places_publish:
  assumes p: "places_ok G xs p (E_front x) dq"
  shows "places_ok (G\<lparr>g_pub := (g_pub G)(block_index p := g_blocks G)\<rparr>) xs (publish_front p) (E_elem x) dq"
proof -
  let ?c = "block_index p" and ?Q = "g_blocks G - 1" and ?G = "G\<lparr>g_pub := (g_pub G)(block_index p := g_blocks G)\<rparr>"
  let ?h = "header_at p ?c"
  have eq: "enq_ok G p (E_front x)" and ix: "index_ok G p" and ring: "ring_ok G p" and r: "readers_ok G p dq" using p by (auto simp: places_ok_def)
  from eq have e: "g_pub G ?c = ?Q" "g_added G ?c = g_blocks G" "unat (tail_index p) = 32 * ?Q" "0 < g_blocks G" by (auto simp: enq_ok_def Let_def)
  have geo: "g_old ?G = g_old G" "blk ?G = blk G" by (auto simp: g_old_def blk_def fun_eq_iff)
  have h: "header_ok G ?c ?h" and sz: "index_size p = ih_size ?h" and fr: "unat (index_front p) = (?Q - g_base G ?c) mod unat (ih_size ?h)"
    using ix e by (auto simp: index_ok_def)
  then obtain k where k: "k \<le> 62" "ih_size ?h = 2 ^ k" by (auto simp: header_ok_def)
  then have s: "unat (ih_size ?h) = 2 ^ k" "k < 64" by (simp_all add: unat_2_power)
  note nb = newest_block [OF ring e(4)]
  have base: "g_base G ?c < g_blocks G" using h nb(2) by (auto simp: header_ok_def)
  then have step: "Suc (?Q - g_base G ?c) = g_blocks G - g_base G ?c" using e(4) by simp
  have "unat ((index_front p + 1) AND (index_size p - 1)) = (g_blocks G - g_base G ?c) mod 2 ^ k"
    unfolding sz k(2) unat_next_slot [OF s(2)] fr [unfolded s] mod_Suc_eq step ..
  moreover have "header_ok ?G ?c (header_at (publish_front p) ?c)"
    using h e fr base by (auto simp: header_ok_def geo)
  moreover have "header_ok ?G g (header_at (publish_front p) g)" if "0 < g" "g \<le> ?c" "g \<noteq> ?c" for g
    using ix that by (auto simp: index_ok_def header_ok_def geo)
  ultimately have "unat ((index_front p + 1) AND (index_size p - 1)) = (g_blocks G - g_base G ?c) mod 2 ^ k"
    and "\<forall>g. 0 < g \<and> g \<le> ?c \<longrightarrow> header_ok ?G g (header_at (publish_front p) g)" by blast+
  then have "index_ok ?G (publish_front p)" using ix s sz by (simp add: index_ok_def del: publish_front_simps(12))
  moreover have "readers_ok ?G (publish_front p) dq" using r by (rule readers_mono) (simp_all add: geo e)
  moreover have "ring_ok ?G (publish_front p)" using ring by (simp add: ring_ok_def)
  moreover have "enq_ok ?G (publish_front p) (E_elem x)" using e by (simp add: enq_ok_def Let_def)
  ultimately show ?thesis using p by (auto simp: places_ok_def flags_ok_def elems_ok_def geo)
qed

section \<open>The element\<close>

lemma places_elem:
  assumes p: "places_ok G xs p (E_elem x) dq" and HT: "unat (head_index p) \<le> unat (tail_index p)" and b: "tail_block p = Some b"
  shows "places_ok G xs (put_at b (tail_index p) (Some x) p) (E_tail x) dq"
proof -
  let ?T = "unat (tail_index p)"
  have eq: "enq_ok G p (E_elem x)" and ring: "ring_ok G p" and len: "length xs = ?T" and el: "elems_ok G xs (block_at p)"
    using p by (auto simp: places_ok_def)
  from eq have e: "?T < 32 * g_blocks G" "32 * g_blocks G \<le> ?T + 32" by (auto simp: enq_ok_def Let_def)
  then have q: "?T div 32 = g_blocks G - 1" by auto
  have nd: "i \<notin> g_done G" if "i \<notin> g_read G" for i using p that by (auto simp: places_ok_def)
  have T: "?T \<notin> g_done G" using p HT by (auto simp: places_ok_def)
  have bq: "b = blk G (?T div 32)" using newest_block(1) [OF ring] e(1) b by (simp add: q)
  have apart: "blk G (i div 32) \<noteq> b \<or> i mod 32 \<noteq> cell (tail_index p)" if "i < length xs" "i \<notin> g_read G" for i
    unfolding bq cell_unat using that len e(1) live_blocks [OF p e(1) T] nd
    by (intro other_cell [OF ring live_blocks [OF p]]) auto
  have "elems_ok G xs (block_at (put_at b (tail_index p) (Some x) p))"
    unfolding elems_ok_def
  proof (intro allI impI)
    fix i assume i: "i < length xs" "i \<notin> g_read G"
    then show "bl_elems (block_at (put_at b (tail_index p) (Some x) p) (blk G (i div 32))) (i mod 32) = Some (xs ! i)"
      using apart [OF i] el by (auto simp: elems_ok_def put_at_def)
  qed
  moreover have "ring_ok G (put_at b (tail_index p) (Some x) p)" "flags_ok G (block_at (put_at b (tail_index p) (Some x) p))"
    using p by (auto simp: places_ok_def put_at_def intro!: ring_block flags_block)
  moreover have "enq_ok G (put_at b (tail_index p) (Some x) p) (E_tail x)"
    using eq by (simp add: enq_ok_def Let_def put_at_def bq cell_unat)
  ultimately show ?thesis using p by (simp add: places_ok_def put_at_def)
qed

lemma places_tail:
  assumes p: "places_ok G xs p (E_tail x) dq" and T: "unat (tail_index p) < 2 ^ 62"
  shows "places_ok G (xs @ [x]) (p\<lparr>tail_index := tail_index p + 1\<rparr>) E_idle dq"
proof -
  have len: "length xs = unat (tail_index p)" and eq: "enq_ok G p (E_tail x)" and el: "elems_ok G xs (block_at p)"
    using p by (auto simp: places_ok_def)
  have S: "unat (tail_index p + 1) = Suc (unat (tail_index p))" using T by (simp add: unat_add_1)
  have "bl_elems (block_at p (blk G (length xs div 32))) (length xs mod 32) = Some x" using eq by (simp add: enq_ok_def Let_def len)
  then have "elems_ok G (xs @ [x]) (block_at p)" using el by (auto simp: elems_ok_def nth_append less_Suc_eq)
  moreover have "enq_ok G (p\<lparr>tail_index := tail_index p + 1\<rparr>) E_idle" using eq S by (simp add: enq_ok_def Let_def)
  ultimately show ?thesis using p S by (simp add: places_ok_def)
qed

lemma block_boundary:
  fixes T Q :: nat
  assumes "T \<le> 32 * Q" "32 * Q < T + 32"
  shows "T mod 32 = 0 \<Longrightarrow> T = 32 * Q" "0 < T mod 32 \<Longrightarrow> T < 32 * Q"
proof -
  obtain d r where T: "T = 32 * d + r" and r: "r < 32" using mult_div_mod_eq [of 32 T] mod_less_divisor [of 32 T] by (metis zero_less_numeral)
  then have m: "T mod 32 = r" by simp
  show "T = 32 * Q" if "T mod 32 = 0"
    using assms m that unfolding T by simp
  show "T < 32 * Q" if "0 < T mod 32"
  proof -
    have "0 < r" using that m by simp
    then have "32 * d < 32 * Q" using assms(1) unfolding T by linarith
    then have "Suc d \<le> Q" by simp
    then show ?thesis unfolding T using r by linarith
  qed
qed

definition enq_after :: "'a event \<Rightarrow> 'a list" where
  "enq_after e = (case e of Enqueued x \<Rightarrow> [x] | _ \<Rightarrow> [])"

lemma places_enq:
  assumes p: "places_ok G xs p pc dq" and st: "enq_step (p, pc) e (p', pc')"
    and HT: "unat (head_index p) \<le> unat (tail_index p)" and T: "unat (tail_index p) < 2 ^ 62"
  shows "e \<noteq> Undefined \<and> (\<forall>i x. e \<noteq> Dequeued i x) \<and> (\<exists>G'. places_ok G' (xs @ enq_after e) p' pc' dq \<and> g_read G' = g_read G)"
proof -
  have move: "places_ok G xs p pc' dq" if "enq_ok G p pc \<Longrightarrow> enq_ok G p pc'" for pc'
    using p that by (simp add: places_ok_def)
  show ?thesis using st
  proof cases
    case (e_call x)
    have "enq_ok G p pc \<Longrightarrow> enq_ok G p pc'"
      using e_call block_boundary [of "unat (tail_index p)" "g_blocks G"] by (simp add: enq_ok_def Let_def and_31_zero)
    then have "places_ok G xs p pc' dq" by (rule move)
    then show ?thesis using e_call by (auto simp: enq_after_def)
  next
    case (e_reuse b x)
    then show ?thesis using places_reuse [of G xs p x dq b] p HT
      by (auto simp: enq_after_def intro!: exI [of _ "G\<lparr>g_ring := rotate1 (g_ring G), g_blocks := Suc (g_blocks G)\<rparr>"])
  next
    case (e_room x)
    have "index_ok G p" "ring_ok G p" using p by (auto simp: places_ok_def)
    then have "slots_used p \<noteq> index_size p \<Longrightarrow> length (g_ring G) < unat (index_size p)"
      using unsigned_word_eqI [where 'a = nat, of "slots_used p" "index_size p"] by (auto simp: index_ok_def ring_ok_def le_less)
    then have "enq_ok G p pc \<Longrightarrow> enq_ok G p pc'" using e_room by (simp add: enq_ok_def Let_def)
    then have "places_ok G xs p pc' dq" by (rule move)
    then show ?thesis using e_room by (auto simp: enq_after_def)
  next
    case (e_grow x)
    then show ?thesis using places_grow [of G xs p x dq p'] p T by (auto simp: enq_after_def)
  next
    case (e_block b x)
    then show ?thesis using places_insert [of G xs p x dq b] p HT
      by (auto simp: enq_after_def intro!: exI [of _ "G\<lparr>g_ring := g_ring G @ [b], g_blocks := Suc (g_blocks G)\<rparr>"])
  next
    case (e_entry x)
    then show ?thesis using places_add_entry [of G xs p x dq] p
      by (auto simp: enq_after_def intro!: exI [of _ "G\<lparr>g_added := (g_added G)(block_index p := g_blocks G)\<rparr>"])
  next
    case (e_front x)
    then show ?thesis using places_publish [of G xs p x dq] p
      by (auto simp: enq_after_def intro!: exI [of _ "G\<lparr>g_pub := (g_pub G)(block_index p := g_blocks G)\<rparr>"])
  next
    case (e_elem b x)
    then show ?thesis using places_elem [of G xs p x dq b] p HT by (auto simp: enq_after_def)
  next
    case (e_broken x)
    have "ring_ok G p" "enq_ok G p pc" using p by (auto simp: places_ok_def)
    then show ?thesis using e_broken newest_block(1) [of G p] by (auto simp: enq_ok_def Let_def)
  next
    case (e_tail x)
    then show ?thesis using places_tail [of G xs p x dq] p T by (auto simp: enq_after_def)
  qed (auto simp: enq_after_def enq_ok_def Let_def intro!: exI [of _ G] move)
qed

end
