(* ===== verification/Sub_Queue_Fifo.thy ===== *)
theory Sub_Queue_Fifo
  imports Sub_Queue_Producer "HOL-Library.Multiset"
begin

text \<open>
  Runs of a sub-queue: what is dequeued at a position was enqueued there, no position is read twice, at rest
  exactly a prefix of the elements is gone, and a dequeue that runs alone takes the first element that is left.
\<close>

section \<open>The size of the first index\<close>

lemma smear_step:
  fixes x y :: "64 word"
  assumes "\<And>j. bit y j \<longleftrightarrow> (\<exists>d < m. bit x (j + d))"
  shows "bit (y OR drop_bit m y) j \<longleftrightarrow> (\<exists>d < 2 * m. bit x (j + d))"
proof
  assume "bit (y OR drop_bit m y) j"
  then consider d where "d < m" "bit x (j + d)" | d where "d < m" "bit x (m + j + d)" by (auto simp: bit_simps assms)
  then show "\<exists>d < 2 * m. bit x (j + d)"
  proof cases
    case (2 d)
    then show ?thesis by (intro exI [of _ "m + d"]) (simp add: ac_simps)
  next
    case (1 d)
    then show ?thesis by (intro exI [of _ d]) simp
  qed
next
  assume "\<exists>d < 2 * m. bit x (j + d)"
  then obtain d where d: "d < 2 * m" "bit x (j + d)" by blast
  show "bit (y OR drop_bit m y) j"
  proof (cases "d < m")
    case False
    then have "d - m < m" "bit x (m + j + (d - m))" using d by (auto simp: ac_simps)
    then show ?thesis by (auto simp: bit_simps assms)
  qed (use d in \<open>auto simp: bit_simps assms\<close>)
qed

lemma ceil_to_pow_2_bits:
  "\<exists>y. ceil_to_pow_2 n = y + 1 \<and> (\<forall>j. bit y j \<longleftrightarrow> (\<exists>d < 64. bit (n - 1) (j + d)))"
proof -
  let ?x = "n - 1"
  define a where "a = ?x OR drop_bit 1 ?x"
  define b where "b = a OR drop_bit 2 a"
  define c where "c = b OR drop_bit 4 b"
  define d where "d = c OR drop_bit 8 c"
  define e where "e = d OR drop_bit 16 d"
  define f where "f = e OR drop_bit 32 e"
  have "bit a j \<longleftrightarrow> (\<exists>i < 2. bit ?x (j + i))" for j using smear_step [of ?x 1 ?x j] by (simp add: a_def)
  then have "bit b j \<longleftrightarrow> (\<exists>i < 4. bit ?x (j + i))" for j using smear_step [of a 2 ?x j] by (simp add: b_def)
  then have "bit c j \<longleftrightarrow> (\<exists>i < 8. bit ?x (j + i))" for j using smear_step [of b 4 ?x j] by (simp add: c_def)
  then have "bit d j \<longleftrightarrow> (\<exists>i < 16. bit ?x (j + i))" for j using smear_step [of c 8 ?x j] by (simp add: d_def)
  then have "bit e j \<longleftrightarrow> (\<exists>i < 32. bit ?x (j + i))" for j using smear_step [of d 16 ?x j] by (simp add: e_def)
  then have "bit f j \<longleftrightarrow> (\<exists>i < 64. bit ?x (j + i))" for j using smear_step [of e 32 ?x j] by (simp add: f_def)
  moreover have "ceil_to_pow_2 n = f + 1"
    by (simp only: ceil_to_pow_2_def Let_def a_def b_def c_def d_def e_def f_def)
  ultimately show ?thesis by blast
qed

lemma top_bit:
  assumes "2 ^ k \<le> unat (x :: 64 word)" "unat x < 2 ^ Suc k"
  shows "bit x k" "\<And>j. k < j \<Longrightarrow> \<not> bit x j"
proof -
  have "unat x div 2 ^ k = 1" using assms by (intro div_nat_eqI) auto
  then have "bit (unat x) k" by (simp add: bit_iff_odd)
  then show "bit x k" by (simp add: bit_unsigned_iff)
  show "\<not> bit x j" if "k < j" for j
  proof -
    have "(2 :: nat) ^ Suc k \<le> 2 ^ j" using that by (intro power_increasing) auto
    then have "unat x div 2 ^ j = 0" using assms(2) by simp
    then have "\<not> bit (unat x) j" by (simp add: bit_iff_odd)
    then show ?thesis by (auto simp: bit_unsigned_iff dest: bit_imp_le_length)
  qed
qed

lemma ceil_to_pow_2_exact:
  assumes "2 ^ k < unat n" "unat n \<le> 2 ^ Suc k" "k < 63"
  shows "ceil_to_pow_2 n = 2 ^ Suc k"
proof -
  obtain y where y: "ceil_to_pow_2 n = y + 1" "\<And>j. bit y j \<longleftrightarrow> (\<exists>d < 64. bit (n - 1) (j + d))"
    using ceil_to_pow_2_bits by blast
  have "unat (n - 1) = unat n - 1" using assms(1) by (subst unat_minus) auto
  then have "2 ^ k \<le> unat (n - 1)" "unat (n - 1) < 2 ^ Suc k" using assms by auto
  note t = top_bit [OF this]
  have "y = mask (Suc k)"
  proof (rule bit_eqI)
    fix j assume "possible_bit TYPE(64 word) j"
    then have j: "j < 64" by simp
    show "bit y j \<longleftrightarrow> bit (mask (Suc k) :: 64 word) j"
    proof (cases "j \<le> k")
      case True
      then have "k - j < 64" "bit (n - 1) (j + (k - j))" using t(1) assms(3) by auto
      then show ?thesis using True j y(2) by (auto simp: bit_mask_iff)
    next
      case False
      then show ?thesis using t(2) y(2) by (auto simp: bit_mask_iff)
    qed
  qed
  then show ?thesis by (simp add: y(1) mask_eq_exp_minus_1)
qed

lemma ceil_to_pow_2_small: "ceil_to_pow_2 0 = 0" "ceil_to_pow_2 1 = 1"
  by (simp_all add: ceil_to_pow_2_def Let_def)

lemma ceil_to_pow_2_power:
  assumes "unat n \<le> 2 ^ 62"
  shows "ceil_to_pow_2 n = 0 \<or> (\<exists>k \<le> 62. ceil_to_pow_2 n = 2 ^ k)"
proof (cases "unat n \<le> 1")
  case True
  then have "n = 0 \<or> n = 1" by (metis le_antisym less_one linorder_not_le unsigned_0 unsigned_1 unsigned_word_eqI)
  then show ?thesis using ceil_to_pow_2_small by (metis power_0 zero_le)
next
  case False
  then have "\<exists>k. 2 ^ k < unat n \<and> unat n \<le> 2 ^ Suc k"
    using ex_power_ivl2 [of 2 "unat n"] by auto
  then obtain k where k: "2 ^ k < unat n" "unat n \<le> 2 ^ Suc k" by blast
  from k(1) assms have "(2 :: nat) ^ k < 2 ^ 62" by (rule less_le_trans)
  then have "k < 62" by (rule power_less_imp_less_exp [rotated]) simp
  then show ?thesis using ceil_to_pow_2_exact [OF k] by (intro disjI2 exI [of _ "Suc k"]) auto
qed

section \<open>Runs\<close>

lemma producer_new_fields:
  assumes "producer_new n = Some p" "unat n \<le> 2 ^ 62"
  shows "\<exists>k \<le> 61. block_index p = 1 \<and> header_at p 1 = \<lparr>ih_size = 2 ^ Suc k, ih_front = - 1, ih_entries = (\<lambda>_. (0, 0))\<rparr> \<and>
    index_size p = 2 ^ Suc k \<and> index_front p = 0 \<and> slots_used p = 0 \<and> owned p = {} \<and> tail_block p = None \<and>
    tail_index p = 0 \<and> head_index p = 0 \<and> optimistic p = 0 \<and> overcommit p = 0"
proof -
  define pool where "pool = drop_bit 1 (ceil_to_pow_2 n)"
  define size where "size = (if pool > 16 then pool else 16 :: 64 word)"
  have "\<exists>k \<le> 61. size = 2 ^ k"
  proof (cases "pool > 16")
    case True
    then obtain k where k: "k \<le> 62" "ceil_to_pow_2 n = 2 ^ k"
      using ceil_to_pow_2_power [OF assms(2)] by (auto simp: pool_def)
    then obtain j where "k = Suc j" using True by (cases k) (auto simp: pool_def)
    moreover have "unat (2 ^ k div 2 :: 64 word) = 2 ^ k div 2" using k by (simp add: unat_div_distrib unat_2_power)
    ultimately have "unat pool = unat (2 ^ j :: 64 word)" using k by (simp add: pool_def unat_2_power drop_bit_eq_div)
    then have "pool = 2 ^ j" by (rule unsigned_word_eqI)
    then show ?thesis using True k \<open>k = Suc j\<close> by (intro exI [of _ j]) (simp add: size_def)
  next
    case False
    then show ?thesis by (intro exI [of _ 4]) (simp add: size_def)
  qed
  then obtain k where k: "k \<le> 61" "size = 2 ^ k" by blast
  then show ?thesis
    using assms(1) by (auto simp: producer_new_def new_block_index_def Let_def push_bit_eq_mult size_def pool_def mult.commute split: if_splits)
qed

lemma producer_new_ok:
  assumes "producer_new n = Some p" "unat n \<le> 2 ^ 62"
  shows "counts 0 {} {} p (\<lambda>_. D_idle)"
    "\<exists>G. places_ok G [] p E_idle (\<lambda>_. D_idle) \<and> g_read G = {}"
proof -
  obtain k where k: "k \<le> 61" and p: "block_index p = 1" "header_at p 1 = \<lparr>ih_size = 2 ^ Suc k, ih_front = - 1, ih_entries = (\<lambda>_. (0, 0))\<rparr>"
    "index_size p = 2 ^ Suc k" "index_front p = 0" "slots_used p = 0" "owned p = {}" "tail_block p = None"
    "tail_index p = 0" "head_index p = 0" "optimistic p = 0" "overcommit p = 0"
    using producer_new_fields [OF assms] by blast
  show "counts 0 {} {} p (\<lambda>_. D_idle)"
    by (simp add: counts_def p in_flight_def count_ok_def count_of_def)
  let ?G = "\<lparr>g_ring = [], g_blocks = 0, g_done = {}, g_read = {}, g_added = (\<lambda>_. 0), g_pub = (\<lambda>_. 0), g_base = (\<lambda>_. 0)\<rparr>"
  have old: "g_old ?G = 0" by (simp add: g_old_def)
  have "header_ok ?G 1 (header_at p 1)"
    unfolding p header_ok_def old using k by (simp del: power_Suc) (rule exI [of _ "Suc k"], simp)
  then have "index_ok ?G p"
    using p(2) by (auto simp: index_ok_def p less_Suc_eq_le le_Suc_eq simp del: power_Suc)
  moreover have "ring_ok ?G p" "flags_ok ?G (block_at p)" "elems_ok ?G [] (block_at p)" "enq_ok ?G p E_idle"
    by (simp_all add: ring_ok_def flags_ok_def elems_ok_def enq_ok_def p Let_def)
  moreover have "readers_ok ?G p (\<lambda>_. D_idle)" by (simp add: readers_ok_def deq_ok_def claimed_def p)
  ultimately have "places_ok ?G [] p E_idle (\<lambda>_. D_idle)" by (simp add: places_ok_def p old)
  then show "\<exists>G. places_ok G [] p E_idle (\<lambda>_. D_idle) \<and> g_read G = {}" by force
qed

lemma enq_list_snoc: "enq_list (es @ [e]) = enq_list es @ enq_after e"
  by (induction es rule: enq_list.induct) (auto simp: enq_after_def split: event.splits)

lemma enq_list_append: "enq_list (es @ fs) = enq_list es @ enq_list fs"
  by (induction es rule: enq_list.induct) auto

lemma deq_list_snoc: "deq_list (es @ [e]) = deq_list es @ (case e of Dequeued i x \<Rightarrow> [(i, x)] | _ \<Rightarrow> [])"
  by (induction es rule: deq_list.induct) (auto split: event.splits)

definition in_order :: "'a event list \<Rightarrow> bool" where
  "in_order es \<longleftrightarrow>
     Undefined \<notin> set es \<and> distinct (map fst (deq_list es)) \<and>
     (\<forall>(i, x) \<in> set (deq_list es). unat i < length (enq_list es) \<and> x = enq_list es ! unat i)"

definition sub_inv :: "'a event list \<Rightarrow> 'a sub_queue \<Rightarrow> bool" where
  "sub_inv es s \<longleftrightarrow>
     in_order es \<and> (\<exists>S F. counts (length es) S F (producer_of s) (dequeuers s)) \<and>
     (\<exists>G. places_ok G (enq_list es) (producer_of s) (enqueuer s) (dequeuers s) \<and> g_read G = unat ` fst ` set (deq_list es))"

lemma in_order_enq:
  assumes "in_order es" "e \<noteq> Undefined" "\<And>i x. e \<noteq> Dequeued i x"
  shows "in_order (es @ [e])"
  using assms by (auto simp: in_order_def enq_list_snoc deq_list_snoc nth_append split: event.splits)

lemma in_order_deq:
  assumes "in_order es" "dequeue_right (unat ` fst ` set (deq_list es)) (enq_list es) e" "enq_after e = []"
  shows "in_order (es @ [e])"
  using assms by (auto simp: in_order_def enq_list_snoc deq_list_snoc dequeue_right_def split: event.splits)

lemma deq_step_no_enq: "deq_step a e b \<Longrightarrow> enq_after e = []"
  by (induction rule: deq_step.induct) (auto simp: enq_after_def)

lemma sub_inv_step:
  assumes inv: "sub_inv es s" and st: "sub_step s e s'" and n: "length es < 2 ^ 62"
  shows "sub_inv (es @ [e]) s'"
proof -
  let ?p = "producer_of s"
  obtain S F where c: "counts (length es) S F ?p (dequeuers s)" using inv by (auto simp: sub_inv_def)
  obtain G where G: "places_ok G (enq_list es) ?p (enqueuer s) (dequeuers s)" "g_read G = unat ` fst ` set (deq_list es)"
    using inv by (auto simp: sub_inv_def)
  have ord: "in_order es" using inv by (simp add: sub_inv_def)
  note HT = counts_head [OF c]
  have T: "unat (tail_index ?p) < 2 ^ 62" using c n by (auto simp: counts_def)
  show ?thesis using st
  proof cases
    case (enq p pc)
    from places_enq [OF G(1) enq(2) HT T]
    obtain G' where e: "e \<noteq> Undefined" "\<And>i x. e \<noteq> Dequeued i x" and G': "places_ok G' (enq_list es @ enq_after e) p pc (dequeuers s)" "g_read G' = g_read G"
      by blast
    have "deq_list (es @ [e]) = deq_list es" using e by (auto simp: deq_list_snoc split: event.splits)
    moreover have "\<exists>S F. counts (Suc (length es)) S F p (dequeuers s)" using counts_enq [OF c enq(2) n] by blast
    ultimately show ?thesis
      using in_order_enq [OF ord e] G' G(2) by (auto simp: sub_inv_def enq(1) enq_list_snoc)
  next
    case (deq t p pc)
    from places_deq [OF G(1) deq(2) HT T]
    obtain G' where e: "dequeue_right (g_read G) (enq_list es) e"
      and G': "places_ok G' (enq_list es) p (enqueuer s) ((dequeuers s)(t := pc))" "g_read G' = read_after e (g_read G)" by blast
    have no: "enq_after e = []" using deq(2) by (rule deq_step_no_enq)
    have "g_read G' = unat ` fst ` set (deq_list (es @ [e]))" using G' G(2) by (auto simp: deq_list_snoc read_after_def split: event.splits)
    moreover have "in_order (es @ [e])" using e no G(2) by (intro in_order_deq [OF ord]) auto
    ultimately show ?thesis
      using counts_deq [OF c deq(2) n] G'(1)
      by (auto simp: sub_inv_def deq(1) enq_list_snoc no simp del: fun_upd_apply)
  qed
qed

lemma sub_inv_run:
  assumes "sub_run s0 es s" "sub_new n = Some s0" "unat n \<le> 2 ^ 62" "length es \<le> 2 ^ 62"
  shows "sub_inv es s"
  using assms
proof (induction rule: sub_run.induct)
  case start
  then obtain p where "producer_new n = Some p" "s0 = \<lparr>producer_of = p, enqueuer = E_idle, dequeuers = (\<lambda>_. D_idle)\<rparr>"
    by (auto simp: sub_new_def)
  then show ?case using producer_new_ok [of n p] start by (auto simp: sub_inv_def in_order_def)
next
  case (more es s' e s'')
  then show ?case by (intro sub_inv_step [of es s']) auto
qed

section \<open>At rest\<close>

definition at_rest :: "'a sub_queue \<Rightarrow> bool" where
  "at_rest s \<longleftrightarrow> dequeuers s = (\<lambda>_. D_idle)"

lemma rest_counters:
  assumes c: "counts n S F p (\<lambda>_. D_idle)"
  shows "unat (optimistic p) = unat (head_index p) + unat (overcommit p)"
proof -
  have "finite S" "finite F" using c by (auto simp: counts_def intro: finite_subset)
  moreover have cov: "{..<unat (optimistic p)} = S \<union> F" using c by (auto simp: counts_def in_flight_def count_of_def)
  moreover have "S \<inter> F = {}" using c by (simp add: counts_def)
  ultimately have "card (S \<union> F) = card S + card F" by (intro card_Un_disjoint)
  moreover have "card (S \<union> F) = unat (optimistic p)" unfolding cov [symmetric] by simp
  ultimately have "unat (optimistic p) = card S + card F" by simp
  then show ?thesis using c unfolding counts_def by linarith
qed

lemma rest_read:
  assumes "sub_inv es s" "at_rest s"
  shows "unat ` fst ` set (deq_list es) = {..<unat (head_index (producer_of s))}"
proof -
  obtain G where G: "places_ok G (enq_list es) (producer_of s) (enqueuer s) (\<lambda>_. D_idle)" "g_read G = unat ` fst ` set (deq_list es)"
    using assms by (auto simp: sub_inv_def at_rest_def)
  then have "{..<unat (head_index (producer_of s))} \<subseteq> g_done G" by (auto simp: places_ok_def readers_ok_def claimed_def)
  then show ?thesis using G by (auto simp: places_ok_def)
qed

lemma rest_count:
  assumes "sub_inv es s" "at_rest s"
  shows "unat (head_index (producer_of s)) = length (deq_list es)" "unat (tail_index (producer_of s)) = length (enq_list es)"
proof -
  have d: "distinct (map fst (deq_list es))" using assms by (simp add: sub_inv_def in_order_def)
  have "inj_on unat (fst ` set (deq_list es))" by (auto intro!: inj_onI unsigned_word_eqI)
  then have "card (unat ` fst ` set (deq_list es)) = card (set (map fst (deq_list es)))" by (simp add: card_image)
  also have "\<dots> = length (deq_list es)" using distinct_card [OF d] by simp
  finally have "card (unat ` fst ` set (deq_list es)) = length (deq_list es)" .
  then show "unat (head_index (producer_of s)) = length (deq_list es)" using rest_read [OF assms] by simp
  show "unat (tail_index (producer_of s)) = length (enq_list es)" using assms(1) by (auto simp: sub_inv_def places_ok_def)
qed

lemma prefix_taken:
  assumes "distinct (map fst ds)" "unat ` fst ` set ds = {..<length ds}" "\<forall>(i, x) \<in> set ds. unat i < length xs \<and> x = xs ! unat i"
  shows "mset (map snd ds) = mset (take (length ds) xs)"
proof -
  let ?is = "map (unat \<circ> fst) ds"
  have "distinct ?is" using assms(1) by (auto simp: distinct_map inj_on_def unsigned_word_eqI comp_def)
  moreover have "set ?is = set [0..<length ds]" using assms(2) by (auto simp: image_comp)
  ultimately have m: "mset ?is = mset [0..<length ds]" using set_eq_iff_mset_eq_distinct [of ?is "[0..<length ds]"] by (simp only: distinct_upt)
  have "unat ` fst ` set ds \<subseteq> {..<length xs}" using assms(3) by auto
  then have len: "length ds \<le> length xs" using assms(2) by simp
  have "map snd ds = map ((!) xs) ?is" using assms(3) by (auto simp: comp_def)
  then have "mset (map snd ds) = image_mset ((!) xs) (mset [0..<length ds])"
    using mset_map [of "(!) xs" ?is] unfolding m by argo
  also have "\<dots> = mset (map ((!) xs) [0..<length ds])" by simp
  also have "map ((!) xs) [0..<length ds] = take (length ds) xs" using len by (intro nth_equalityI) auto
  finally show ?thesis .
qed

section \<open>A dequeue that runs alone\<close>

inductive solo :: "nat \<Rightarrow> 'a sub_queue \<Rightarrow> 'a event list \<Rightarrow> 'a sub_queue \<Rightarrow> bool" for t s where
  solo_nil: "solo t s [] s"
| solo_step: "solo t s es s' \<Longrightarrow> deq_step (producer_of s', dequeuers s' t) e (p, pc) \<Longrightarrow>
    solo t s (es @ [e]) (s'\<lparr>producer_of := p, dequeuers := (dequeuers s')(t := pc)\<rparr>)"

lemma solo_run: "solo t s es s' \<Longrightarrow> sub_run s0 es0 s \<Longrightarrow> sub_run s0 (es0 @ es) s'"
  by (induction rule: solo.induct) (auto intro: sub_run.more sub_step.deq simp flip: append_assoc)

inductive_cases deq_cases:
  "deq_step (p, D_idle) e q" "deq_step (p, D_overcommit t) e q" "deq_step (p, D_optimistic t oc) e q"
  "deq_step (p, D_fetch oc) e q" "deq_step (p, D_tail oc c) e q" "deq_step (p, D_head oc c) e q"
  "deq_step (p, D_fail oc c) e q" "deq_step (p, D_index i) e q" "deq_step (p, D_front i g) e q"
  "deq_step (p, D_entry i g f) e q" "deq_step (p, D_read i b) e q" "deq_step (p, D_set i b) e q"

text \<open>What a thread does next depends on the state alone.\<close>

lemma deq_step_unique:
  assumes "deq_step a e b" "deq_step a e' b'"
  shows "e = e' \<and> b = b'"
  using assms by (induction rule: deq_step.induct) (auto elim!: deq_cases)

inductive_cases solo_snoc: "solo t s (es @ [e]) s'"

lemma solo_unique:
  assumes "solo t s es s1" "solo t s es' s2" "length es = length es'"
  shows "es = es' \<and> s1 = s2"
  using assms
proof (induction arbitrary: es' s2 rule: solo.induct)
  case solo_nil
  then show ?case by (auto elim: solo.cases)
next
  case (solo_step es s' e p pc)
  from solo_step.prems obtain fs f where "es' = fs @ [f]" "length fs = length es" by (cases es' rule: rev_cases) auto
  with solo_step.prems obtain s3 p' pc' where s3: "solo t s fs s3" "deq_step (producer_of s3, dequeuers s3 t) f (p', pc')"
    "s2 = s3\<lparr>producer_of := p', dequeuers := (dequeuers s3)(t := pc')\<rparr>" by (auto elim!: solo_snoc)
  then have "es = fs" "s' = s3" using solo_step.IH [OF s3(1)] \<open>length fs = length es\<close> by auto
  then show ?case using deq_step_unique [OF solo_step.hyps(2)] s3 \<open>es' = fs @ [f]\<close> by auto
qed

text \<open>The run of a dequeue from a state at rest with elements left, and of one on an empty sub-queue.\<close>

lemma solo_one:
  "deq_step (producer_of s, dequeuers s t) e (p, pc) \<Longrightarrow> solo t s [e] (s\<lparr>producer_of := p, dequeuers := (dequeuers s)(t := pc)\<rparr>)"
  using solo_step [OF solo_nil, of s t e p pc] by simp

lemma solo_append: "solo t s' es' s'' \<Longrightarrow> solo t s es s' \<Longrightarrow> solo t s (es @ es') s''"
  by (induction rule: solo.induct) (auto intro: solo.intros simp flip: append_assoc)

lemma solo_cons:
  assumes "deq_step (producer_of s, dequeuers s t) e (p, pc)"
    and "solo t (s\<lparr>producer_of := p, dequeuers := (dequeuers s)(t := pc)\<rparr>) es s'"
  shows "solo t s (e # es) s'"
  using solo_append [OF assms(2) solo_one [OF assms(1)]] by simp

definition turn :: "'a sub_queue \<Rightarrow> nat \<Rightarrow> 'a producer \<Rightarrow> deq_pc \<Rightarrow> 'a sub_queue" where
  "turn s t p pc = s\<lparr>producer_of := p, dequeuers := (dequeuers s)(t := pc)\<rparr>"

lemma turn_simps [simp]:
  "producer_of (turn s t p pc) = p" "dequeuers (turn s t p pc) t = pc" "enqueuer (turn s t p pc) = enqueuer s"
  by (simp_all add: turn_def)

lemma solo_turn:
  assumes "deq_step (p, pc) e (p', pc')" "solo t (turn s t p' pc') es s'"
  shows "solo t (turn s t p pc) (e # es) s'"
proof (rule solo_cons)
  show "deq_step (producer_of (turn s t p pc), dequeuers (turn s t p pc) t) e (p', pc')" using assms(1) by simp
  show "solo t ((turn s t p pc)\<lparr>producer_of := p', dequeuers := (dequeuers (turn s t p pc))(t := pc')\<rparr>) es s'"
    using assms(2) by (simp add: turn_def)
qed

lemma turn_start: "dequeuers s t = D_idle \<Longrightarrow> turn s t (producer_of s) D_idle = s"
  by (simp add: turn_def fun_upd_idem)

lemma solo_claims:
  assumes dq: "dequeuers s t = D_idle"
    and P: "unat (optimistic (producer_of s)) = unat (head_index (producer_of s)) + unat (overcommit (producer_of s))"
    and less: "unat (head_index (producer_of s)) < unat (tail_index (producer_of s))"
    and small: "unat (tail_index (producer_of s)) < 2 ^ 62"
  shows "\<exists>p b. solo t s (replicate 9 Internal) (turn s t p (D_read (head_index (producer_of s)) b))"
proof -
  let ?p = "producer_of s"
  have opt: "unat (optimistic ?p - overcommit ?p) = unat (head_index ?p)" using P by (simp add: unat_minus)
  then have go: "circular_less_than (optimistic ?p - overcommit ?p) (tail_index ?p)"
    using less small by (simp add: circular_less_unat)
  define p1 where "p1 = ?p\<lparr>optimistic := optimistic ?p + 1\<rparr>"
  define p2 where "p2 = p1\<lparr>head_index := head_index p1 + 1\<rparr>"
  have f: "tail_index p1 = tail_index ?p" "head_index p1 = head_index ?p" by (simp_all add: p1_def)
  have end_run: "solo t (turn s t p2 pc) [] (turn s t p2 pc)" for pc by (rule solo_nil)
  note run = solo_turn [OF d_index [of p2] solo_turn [OF d_front solo_turn [OF d_entry end_run]]]
  have "solo t (turn s t p1 (D_tail (overcommit ?p) (optimistic ?p)))
      [Internal, Internal, Internal, Internal, Internal]
      (turn s t p2 (D_read (head_index ?p) (block_of (header_at p2 (block_index p2)) (ih_front (header_at p2 (block_index p2))) (head_index ?p))))"
    using go f by (intro solo_turn [OF d_there] solo_turn [OF d_claim [of p1, folded p2_def, unfolded f]] run) simp
  then have "solo t (turn s t ?p D_idle)
      [Internal, Internal, Internal, Internal, Internal, Internal, Internal, Internal, Internal]
      (turn s t p2 (D_read (head_index ?p) (block_of (header_at p2 (block_index p2)) (ih_front (header_at p2 (block_index p2))) (head_index ?p))))"
    using go
    by (intro solo_turn [OF d_call] solo_turn [OF d_overcommit] solo_turn [OF d_maybe] solo_turn [OF d_fetch [of ?p, folded p1_def]])
  then show ?thesis unfolding turn_start [OF dq] by (auto simp: numeral_eq_Suc)
qed

lemma solo_fails:
  assumes dq: "dequeuers s t = D_idle"
    and P: "unat (optimistic (producer_of s)) = unat (head_index (producer_of s)) + unat (overcommit (producer_of s))"
    and eq: "unat (head_index (producer_of s)) = unat (tail_index (producer_of s))"
    and small: "unat (tail_index (producer_of s)) < 2 ^ 62"
  shows "solo t s [Internal, Internal, Dequeue_failed] s"
proof -
  let ?p = "producer_of s"
  have opt: "unat (optimistic ?p - overcommit ?p) = unat (head_index ?p)" using P by (simp add: unat_minus)
  then have "\<not> circular_less_than (optimistic ?p - overcommit ?p) (tail_index ?p)"
    using eq small by (simp add: circular_less_unat)
  then have "solo t (turn s t ?p D_idle) [Internal, Internal, Dequeue_failed] (turn s t ?p D_idle)"
    by (intro solo_turn [OF d_call] solo_turn [OF d_overcommit] solo_turn [OF d_empty] solo_nil)
  then show ?thesis unfolding turn_start [OF dq] .
qed

text \<open>The first element of a new sub-queue.\<close>

lemma run_enq:
  assumes "sub_run s0 es (s\<lparr>producer_of := p, enqueuer := pc\<rparr>)" "enq_step (p, pc) e (p', pc')"
  shows "sub_run s0 (es @ [e]) (s\<lparr>producer_of := p', enqueuer := pc'\<rparr>)"
proof -
  let ?s = "s\<lparr>producer_of := p, enqueuer := pc\<rparr>"
  have "sub_step ?s e (?s\<lparr>producer_of := p', enqueuer := pc'\<rparr>)" using assms(2) by (intro sub_step.enq) simp
  then show ?thesis using more [OF assms(1)] by simp
qed

lemma first_enqueue:
  assumes new: "sub_new n = Some s" and n: "unat n \<le> 2 ^ 62"
  shows "\<exists>p. sub_run s (replicate 7 Internal @ [Enqueued x]) (s\<lparr>producer_of := p, enqueuer := E_idle\<rparr>)"
proof -
  obtain p where p: "producer_new n = Some p" "s = \<lparr>producer_of = p, enqueuer = E_idle, dequeuers = (\<lambda>_. D_idle)\<rparr>"
    using new by (auto simp: sub_new_def)
  obtain k where k: "k \<le> 61" and f: "index_size p = 2 ^ Suc k" "slots_used p = 0" "owned p = {}" "tail_block p = None"
    "tail_index p = 0" "head_index p = 0" using producer_new_fields [OF p(1) n] by blast
  have "unat (2 ^ Suc k :: 64 word) = 2 ^ Suc k" using k by (intro unat_2_power) simp
  then have "(2 :: 64 word) ^ Suc k \<noteq> 0" by (intro notI) (simp del: power_Suc)
  then have room: "slots_used p \<noteq> index_size p" by (simp add: f)
  have circ: "circular_less_than (head_index p) (tail_index p + 32)" by (simp add: f circular_less_than_def push_bit_eq_mult)
  have "sub_run s [] (s\<lparr>producer_of := p, enqueuer := E_idle\<rparr>)" using p(2) start [of s] by simp
  from run_enq [OF this e_call [of p x]] have "sub_run s [Internal] (s\<lparr>producer_of := p, enqueuer := E_need x\<rparr>)" by (simp add: f)
  from run_enq [OF this e_new] have "sub_run s [Internal, Internal] (s\<lparr>producer_of := p, enqueuer := E_head x\<rparr>)"
    by (simp add: reusable_def f)
  from run_enq [OF this e_room [OF circ]] have "sub_run s [Internal, Internal, Internal] (s\<lparr>producer_of := p, enqueuer := E_block x\<rparr>)"
    using room by simp
  from run_enq [OF this e_block [of 0]] have "sub_run s [Internal, Internal, Internal, Internal] (s\<lparr>producer_of := insert_block 0 p, enqueuer := E_entry x\<rparr>)"
    by (simp add: f)
  from run_enq [OF run_enq [OF this e_entry] e_front]
  have "sub_run s [Internal, Internal, Internal, Internal, Internal, Internal]
      (s\<lparr>producer_of := publish_front (add_entry (insert_block 0 p)), enqueuer := E_elem x\<rparr>)" by simp
  from run_enq [OF this e_elem [of _ 0]]
  have r: "sub_run s [Internal, Internal, Internal, Internal, Internal, Internal, Internal]
      (s\<lparr>producer_of := put_at 0 0 (Some x) (publish_front (add_entry (insert_block 0 p))), enqueuer := E_tail x\<rparr>)" by (simp add: f)
  show ?thesis using run_enq [OF r e_tail] by (auto simp: numeral_eq_Suc)
qed

lemma dequeue_alone_run:
  assumes inv: "sub_inv es s" and len: "length es + 9 < 2 ^ 62" and rest: "at_rest s" and run: "sub_run s0 es s"
    and new: "sub_new n = Some s0" "unat n \<le> 2 ^ 62"
  shows "if length (deq_list es) < length (enq_list es)
    then \<exists>p. solo t s (replicate 9 Internal @
        [Dequeued (word_of_nat (length (deq_list es))) (enq_list es ! length (deq_list es)), Internal]) (turn s t p D_idle)
    else solo t s [Internal, Internal, Dequeue_failed] s"
proof -
  obtain S F where c: "counts (length es) S F (producer_of s) (dequeuers s)" using inv by (auto simp: sub_inv_def)
  have dq: "dequeuers s t = D_idle" using rest by (simp add: at_rest_def)
  have P: "unat (optimistic (producer_of s)) = unat (head_index (producer_of s)) + unat (overcommit (producer_of s))"
    using rest_counters c rest by (auto simp: at_rest_def)
  note cnt = rest_count [OF inv rest]
  have small: "unat (tail_index (producer_of s)) < 2 ^ 62" using c len by (auto simp: counts_def)
  have HT: "unat (head_index (producer_of s)) \<le> unat (tail_index (producer_of s))" using counts_head [OF c] .
  have hd: "head_index (producer_of s) = word_of_nat (length (deq_list es))" unfolding cnt(1) [symmetric] by simp
  show ?thesis
  proof (cases "length (deq_list es) < length (enq_list es)")
    case True
    then obtain p b where r: "solo t s (replicate 9 Internal) (turn s t p (D_read (head_index (producer_of s)) b))"
      using solo_claims [OF dq P _ small] cnt by auto
    let ?s = "turn s t p (D_read (head_index (producer_of s)) b)" and ?i = "head_index (producer_of s)"
    have "sub_inv (es @ replicate 9 Internal) ?s"
      using len by (intro sub_inv_run [OF solo_run [OF r run] new]) auto
    then obtain S' F' G where c': "counts (length es + 9) S' F' p (dequeuers ?s)"
      and G: "places_ok G (enq_list (es @ replicate 9 Internal)) p (enqueuer ?s) (dequeuers ?s)" by (auto simp: sub_inv_def)
    have xs: "enq_list (es @ replicate m Internal) = enq_list es" for m
      by (induction m) (simp_all add: enq_list_append)
    have "bl_elems (block_at p b) (cell ?i) = Some (enq_list es ! unat ?i)"
      using places_read(1) [OF G counts_head [OF c'], of t ?i b] by (simp add: xs)
    from solo_append [OF solo_turn [OF d_read [OF this] solo_turn [OF d_set solo_nil]] r]
    show ?thesis using True cnt by (auto simp: hd)
  next
    case False
    then show ?thesis using solo_fails [OF dq P _ small] HT cnt by simp
  qed
qed

section \<open>A run with one element\<close>

definition one_element :: "bool event list" where
  "one_element = replicate 7 Internal @ [Enqueued True]"

definition one_round :: "bool event list" where
  "one_round = one_element @ replicate 9 Internal @ [Dequeued 0 True, Internal]"

lemma one_element_simps:
  "deq_list one_element = []" "enq_list one_element = [True]" "length one_element = 8"
  by (simp_all add: one_element_def numeral_eq_Suc)

lemma sub_new_some: "\<exists>s. sub_new n = Some s \<and> at_rest s"
  by (simp add: sub_new_def producer_new_def new_block_index_def Let_def at_rest_def)

lemma one_element_run: "\<exists>s0 s. sub_new 6 = Some s0 \<and> sub_run s0 one_element s \<and> at_rest s"
proof -
  obtain s0 :: "bool sub_queue" where s0: "sub_new 6 = Some s0" "at_rest s0" using sub_new_some by blast
  then obtain p where "sub_run s0 one_element (s0\<lparr>producer_of := p, enqueuer := E_idle\<rparr>)"
    using first_enqueue [of 6 s0 True] by (auto simp: one_element_def)
  then show ?thesis using s0 by (auto simp: at_rest_def)
qed

lemma one_round_run: "\<exists>s0 s. sub_new 6 = Some s0 \<and> sub_run s0 one_round s \<and> at_rest s"
proof -
  obtain s0 s where s: "sub_new 6 = Some s0" "sub_run s0 one_element s" "at_rest s" using one_element_run by blast
  have "sub_inv one_element s" by (rule sub_inv_run [OF s(2,1)]) (simp_all add: one_element_def)
  from dequeue_alone_run [OF this _ s(3,2,1), of 0]
  obtain p where r: "solo 0 s (replicate 9 Internal @ [Dequeued 0 True, Internal]) (turn s 0 p D_idle)"
    by (auto simp: one_element_simps)
  have "sub_run s0 one_round (turn s 0 p D_idle)" using solo_run [OF r s(2)] by (simp add: one_round_def)
  moreover have "at_rest (turn s 0 p D_idle)" using s(3) by (auto simp: at_rest_def turn_def)
  ultimately show ?thesis using s(1) by blast
qed

section \<open>The contract of a sub-queue\<close>

text \<open>C35: Along every run of fewer than \<open>2 ^ 62\<close> steps of one producer and any number of
  consumers of a sub-queue, however they interleave: no step reads an element that is not there or a block that
  does not exist, no position is dequeued twice, and what is dequeued at a position is what was enqueued there.
  The bound keeps the counters below the range in which their circular comparison turns over.\<close>

theorem sub_queue_in_order:
  assumes "sub_new n = Some s0" "unat n \<le> 2 ^ 62" "sub_run s0 es s" "length es \<le> 2 ^ 62"
  shows "Undefined \<notin> set es \<and> distinct (map fst (deq_list es)) \<and>
    (\<forall>(i, x) \<in> set (deq_list es). unat i < length (enq_list es) \<and> x = enq_list es ! unat i)"
  using sub_inv_run [OF assms(3,1,2,4)] by (simp add: sub_inv_def in_order_def)

theorem sub_queue_in_order_witness:
  "\<exists>s0 s. sub_new 6 = Some s0 \<and> sub_run s0 one_round s \<and> deq_list one_round = [(0, True)] \<and>
    Undefined \<notin> set one_round \<and> distinct (map fst (deq_list one_round)) \<and>
    (\<forall>(i, x) \<in> set (deq_list one_round). unat i < length (enq_list one_round) \<and> x = enq_list one_round ! unat i)"
proof -
  obtain s0 s where s: "sub_new 6 = Some s0" "sub_run s0 one_round s" using one_round_run by blast
  have "deq_list one_round = [(0, True)]" by (simp add: one_round_def one_element_def numeral_eq_Suc)
  moreover have "length one_round \<le> 2 ^ 62" by (simp add: one_round_def one_element_def)
  ultimately show ?thesis using s sub_queue_in_order [OF s(1) _ s(2)] by auto
qed

text \<open>C36: Whenever no dequeue is under way, the elements dequeued so far are exactly the first
  ones enqueued: nothing is lost, nothing is doubled, nothing is taken out of turn. Then \<open>size_approx\<close> is exact.\<close>

theorem sub_queue_at_rest:
  assumes "sub_new n = Some s0" "unat n \<le> 2 ^ 62" "sub_run s0 es s" "length es < 2 ^ 62" "at_rest s"
  shows "mset (map snd (deq_list es)) = mset (take (length (deq_list es)) (enq_list es)) \<and>
    length (enq_list es) = length (deq_list es) + unat (size_approx (producer_of s))"
proof -
  have inv: "sub_inv es s" using assms(4) by (intro sub_inv_run [OF assms(3,1,2)]) simp
  then obtain S F where c: "counts (length es) S F (producer_of s) (dequeuers s)" by (auto simp: sub_inv_def)
  note r = rest_read [OF inv assms(5)] rest_count [OF inv assms(5)]
  have HT: "unat (head_index (producer_of s)) \<le> unat (tail_index (producer_of s))" by (rule counts_head [OF c])
  have "in_order es" using inv by (simp add: sub_inv_def)
  then have "mset (map snd (deq_list es)) = mset (take (length (deq_list es)) (enq_list es))"
    using r HT by (intro prefix_taken) (auto simp: in_order_def)
  moreover have "unat (size_approx (producer_of s)) = unat (tail_index (producer_of s)) - unat (head_index (producer_of s))"
  proof -
    have "unat (tail_index (producer_of s)) < 2 ^ 62" using c assms(4) by (auto simp: counts_def)
    then show ?thesis using HT by (auto simp: size_approx_def circular_less_unat unat_minus)
  qed
  ultimately show ?thesis using r HT by simp
qed

theorem sub_queue_at_rest_witness:
  "\<exists>s0 s. sub_new 6 = Some s0 \<and> sub_run s0 one_round s \<and> at_rest s \<and>
    mset (map snd (deq_list one_round)) = mset (take (length (deq_list one_round)) (enq_list one_round)) \<and>
    length (enq_list one_round) = length (deq_list one_round) + unat (size_approx (producer_of s))"
proof -
  obtain s0 s where s: "sub_new 6 = Some s0" "sub_run s0 one_round s" "at_rest s" using one_round_run by blast
  have "length one_round < 2 ^ 62" by (simp add: one_round_def one_element_def)
  then show ?thesis using s sub_queue_at_rest [OF s(1) _ s(2) _ s(3)] by auto
qed

text \<open>C37: A dequeue that runs alone from a state in which no other is under way returns
  after eleven steps with the first element that is left, at its position; when nothing is left it fails after
  three. There is no other run of a dequeue alone.\<close>

theorem sub_queue_dequeue_alone:
  assumes "sub_new n = Some s0" "unat n \<le> 2 ^ 62" "sub_run s0 es s" "length es + 9 < 2 ^ 62" "at_rest s"
    and "r = (if length (deq_list es) < length (enq_list es)
      then replicate 9 Internal @ [Dequeued (word_of_nat (length (deq_list es))) (enq_list es ! length (deq_list es)), Internal]
      else [Internal, Internal, Dequeue_failed])"
  shows "(\<exists>s'. solo t s r s') \<and> (\<forall>r' s'. solo t s r' s' \<longrightarrow> length r' = length r \<longrightarrow> r' = r)"
proof -
  have "sub_inv es s" using assms(4) by (intro sub_inv_run [OF assms(3,1,2)]) simp
  from dequeue_alone_run [OF this assms(4,5,3,1,2), of t] have "\<exists>s'. solo t s r s'"
    unfolding assms(6) by (auto split: if_splits)
  then show ?thesis using solo_unique by metis
qed

theorem sub_queue_dequeue_alone_witness:
  "\<exists>s0 s. sub_new 6 = Some s0 \<and> sub_run s0 one_element s \<and> at_rest s \<and>
    (\<exists>s'. solo 3 s (replicate 9 Internal @ [Dequeued 0 True, Internal]) s')"
proof -
  obtain s0 s where s: "sub_new 6 = Some s0" "sub_run s0 one_element s" "at_rest s" using one_element_run by blast
  have "replicate 9 Internal @ [Dequeued 0 True, Internal] =
    (if length (deq_list one_element) < length (enq_list one_element)
      then replicate 9 Internal @ [Dequeued (word_of_nat (length (deq_list one_element))) (enq_list one_element ! length (deq_list one_element)), Internal]
      else [Internal, Internal, Dequeue_failed])"
    by (simp add: one_element_simps)
  from sub_queue_dequeue_alone [OF s(1) _ s(2) _ s(3) this, of 3] show ?thesis
    using s by (auto simp: one_element_simps)
qed

end
