(* ===== verification/Fmt_Buffer.thy ===== *)
theory Fmt_Buffer
  imports Log_Prelude
begin

text \<open>
  The buffers behind every output of \<^verbatim>\<open>base/fmt\<close> (\<open>buffer\<close> and its heirs in \<^verbatim>\<open>base/fmt/base.h\<close>, \<open>basic_memory_buffer\<close>
  in \<^verbatim>\<open>base/fmt/format.h\<close>): a window of storage with a size and a capacity, and one function that an heir supplies for
  the case that it is full. A locale states what this function has to keep; from it, appending is proved to return and to
  add exactly its argument. The storage that \<open>ptr_\<close> designates is a list; writing behind its end is undefined.
\<close>

section \<open>The buffer\<close>

datatype 'b outcome = Returns 'b | Throws | Undefined

record 'a buffer =
  buf_data :: "'a list"
  buf_size :: nat
  buf_capacity :: nat

type_synonym ('a, 'z) grow_fun = "('a, 'z) buffer_scheme \<Rightarrow> nat \<Rightarrow> ('a, 'z) buffer_scheme outcome"

definition buf_set :: "'a list \<Rightarrow> nat \<Rightarrow> ('a, 'z) buffer_scheme \<Rightarrow> ('a, 'z) buffer_scheme" where
  "buf_set d c b = b\<lparr>buf_data := d, buf_capacity := c\<rparr>"

definition buf_clear :: "('a, 'z) buffer_scheme \<Rightarrow> ('a, 'z) buffer_scheme" where
  "buf_clear b = b\<lparr>buf_size := 0\<rparr>"

definition contents :: "('a, 'z) buffer_scheme \<Rightarrow> 'a list" where
  "contents b = take (buf_size b) (buf_data b)"

definition try_reserve :: "('a, 'z) grow_fun \<Rightarrow> nat \<Rightarrow> ('a, 'z) buffer_scheme \<Rightarrow> ('a, 'z) buffer_scheme outcome" where
  "try_reserve grow c b = (if c > buf_capacity b then grow b c else Returns b)"

definition try_resize :: "('a, 'z) grow_fun \<Rightarrow> nat \<Rightarrow> ('a, 'z) buffer_scheme \<Rightarrow> ('a, 'z) buffer_scheme outcome" where
  "try_resize grow n b =
     (case try_reserve grow n b of
        Returns b' \<Rightarrow> Returns (b'\<lparr>buf_size := (if n \<le> buf_capacity b' then n else buf_capacity b')\<rparr>)
      | e \<Rightarrow> e)"

text \<open>The stores behind the elements in use.\<close>

definition buf_store :: "'a list \<Rightarrow> ('a, 'z) buffer_scheme \<Rightarrow> ('a, 'z) buffer_scheme outcome" where
  "buf_store xs b =
     (if buf_size b + length xs \<le> length (buf_data b)
      then Returns (b\<lparr>buf_data := take (buf_size b) (buf_data b) @ xs @ drop (buf_size b + length xs) (buf_data b),
                     buf_size := buf_size b + length xs\<rparr>)
      else Undefined)"

definition push_back :: "('a, 'z) grow_fun \<Rightarrow> 'a \<Rightarrow> ('a, 'z) buffer_scheme \<Rightarrow> ('a, 'z) buffer_scheme outcome" where
  "push_back grow x b =
     (case try_reserve grow (buf_size b + 1) b of Returns b' \<Rightarrow> buf_store [x] b' | e \<Rightarrow> e)"

text \<open>\<open>append\<close>: a chunk in every round; \<open>None\<close> is a loop that does not end.\<close>

partial_function (option) append_range ::
  "('a, 'z) grow_fun \<Rightarrow> 'a list \<Rightarrow> ('a, 'z) buffer_scheme \<Rightarrow> ('a, 'z) buffer_scheme outcome option" where
  "append_range grow xs b =
     (if xs = [] then Some (Returns b)
      else case try_reserve grow (buf_size b + length xs) b of
             Returns b1 \<Rightarrow>
               let free_cap = buf_capacity b1 - buf_size b1;
                   count = (if free_cap < length xs then free_cap else length xs)
               in (case buf_store (take count xs) b1 of
                     Returns b2 \<Rightarrow> append_range grow (drop count xs) b2
                   | e \<Rightarrow> Some e)
           | e \<Rightarrow> Some e)"

section \<open>What a buffer has to supply\<close>

locale growing_buffer =
  fixes grow :: "('a, 'z) grow_fun"
    and holds :: "('a, 'z) buffer_scheme \<Rightarrow> 'a list \<Rightarrow> bool"
  assumes holds_room: "holds b xs \<Longrightarrow> buf_size b \<le> buf_capacity b \<and> buf_capacity b \<le> length (buf_data b)"
    and holds_store: "holds b xs \<Longrightarrow> buf_size b + length ys \<le> buf_capacity b \<Longrightarrow> buf_store ys b = Returns b' \<Longrightarrow> holds b' (xs @ ys)"
    and holds_grow: "holds b xs \<Longrightarrow> buf_capacity b < c \<Longrightarrow>
      grow b c = Throws \<or> (\<exists>b'. grow b c = Returns b' \<and> holds b' xs \<and> buf_size b' < buf_capacity b')"
begin

lemma store_room:
  assumes "holds b xs" "buf_size b + length ys \<le> buf_capacity b"
  shows "\<exists>b'. buf_store ys b = Returns b' \<and> holds b' (xs @ ys)"
proof -
  have "buf_store ys b \<noteq> Undefined" "buf_store ys b \<noteq> Throws" using holds_room [OF assms(1)] assms(2) by (auto simp: buf_store_def)
  then obtain b' where "buf_store ys b = Returns b'" by (cases "buf_store ys b") auto
  then show ?thesis using holds_store [OF assms] by blast
qed

lemma reserve_room:
  assumes "holds b xs" "buf_size b < c"
  shows "try_reserve grow c b = Throws \<or> (\<exists>b'. try_reserve grow c b = Returns b' \<and> holds b' xs \<and> buf_size b' < buf_capacity b')"
  using assms holds_grow [OF assms(1), of c] by (auto simp: try_reserve_def)

lemma push_back_adds:
  assumes "holds b xs"
  shows "push_back grow x b = Throws \<or> (\<exists>b'. push_back grow x b = Returns b' \<and> holds b' (xs @ [x]))"
  using reserve_room [OF assms, of "buf_size b + 1"] store_room [of _ xs "[x]"] by (fastforce simp: push_back_def)

lemma append_adds:
  assumes "holds b xs"
  shows "\<exists>r. append_range grow ys b = Some r \<and> (r = Throws \<or> (\<exists>b'. r = Returns b' \<and> holds b' (xs @ ys)))"
  using assms
proof (induction "length ys" arbitrary: ys xs b rule: less_induct)
  case less
  show ?case
  proof (cases "ys = []")
    case True
    then show ?thesis using less.prems by (simp add: append_range.simps)
  next
    case False
    then have "buf_size b < buf_size b + length ys" by simp
    from reserve_room [OF less.prems this] show ?thesis
    proof
      assume "try_reserve grow (buf_size b + length ys) b = Throws"
      then show ?thesis using False by (simp add: append_range.simps)
    next
      assume "\<exists>b'. try_reserve grow (buf_size b + length ys) b = Returns b' \<and> holds b' xs \<and> buf_size b' < buf_capacity b'"
      then obtain b1 where b1: "try_reserve grow (buf_size b + length ys) b = Returns b1" "holds b1 xs" "buf_size b1 < buf_capacity b1" by blast
      define n where "n = (if buf_capacity b1 - buf_size b1 < length ys then buf_capacity b1 - buf_size b1 else length ys)"
      have n: "0 < n" "n \<le> length ys" "buf_size b1 + length (take n ys) \<le> buf_capacity b1"
        using b1(3) False by (auto simp: n_def)
      obtain b2 where b2: "buf_store (take n ys) b1 = Returns b2" "holds b2 (xs @ take n ys)" using store_room [OF b1(2) n(3)] by blast
      have "append_range grow ys b = append_range grow (drop n ys) b2"
        using False b1(1) b2(1) by (subst append_range.simps) (simp add: Let_def n_def)
      then show ?thesis using less.hyps [of "drop n ys" b2 "xs @ take n ys"] n b2(2) by simp
    qed
  qed
qed

end

text \<open>The pieces of an output, one after another.\<close>

fun append_all ::
  "('a, 'z) grow_fun \<Rightarrow> 'a list list \<Rightarrow> ('a, 'z) buffer_scheme \<Rightarrow> ('a, 'z) buffer_scheme outcome option" where
  "append_all grow [] b = Some (Returns b)"
| "append_all grow (p # ps) b =
     (case append_range grow p b of Some (Returns b') \<Rightarrow> append_all grow ps b' | e \<Rightarrow> e)"

context growing_buffer
begin

lemma append_all_adds:
  "holds b xs \<Longrightarrow>
    \<exists>r. append_all grow ps b = Some r \<and> (r = Throws \<or> (\<exists>b'. r = Returns b' \<and> holds b' (xs @ concat ps)))"
proof (induction ps arbitrary: b xs)
  case (Cons p ps)
  from append_adds [OF Cons.prems, of p] obtain r where r: "append_range grow p b = Some r"
    "r = Throws \<or> (\<exists>b'. r = Returns b' \<and> holds b' (xs @ p))" by blast
  then show ?case using Cons.IH [of _ "xs @ p"] by fastforce
qed simp

end

text \<open>A buffer whose function never throws.\<close>

locale flushing_buffer = growing_buffer +
  assumes grow_returns: "holds b xs \<Longrightarrow> grow b c \<noteq> Throws"
begin

lemma reserve_returns: "holds b xs \<Longrightarrow> try_reserve grow c b \<noteq> Throws"
  using grow_returns by (auto simp: try_reserve_def)

lemma push_back_returns:
  assumes "holds b xs"
  shows "\<exists>b'. push_back grow x b = Returns b' \<and> holds b' (xs @ [x])"
proof -
  have "push_back grow x b \<noteq> Throws"
    using reserve_returns [OF assms] by (auto simp: push_back_def buf_store_def split: outcome.splits if_splits)
  then show ?thesis using push_back_adds [OF assms, of x] by blast
qed

lemma append_returns:
  assumes "holds b xs"
  shows "\<exists>b'. append_range grow ys b = Some (Returns b') \<and> holds b' (xs @ ys)"
  using assms
proof (induction "length ys" arbitrary: ys xs b rule: less_induct)
  case less
  show ?case
  proof (cases "ys = []")
    case True
    then show ?thesis using less.prems by (simp add: append_range.simps)
  next
    case False
    then obtain b1 where b1: "try_reserve grow (buf_size b + length ys) b = Returns b1" "holds b1 xs" "buf_size b1 < buf_capacity b1"
      using reserve_room [OF less.prems, of "buf_size b + length ys"] reserve_returns [OF less.prems] by auto
    define n where "n = (if buf_capacity b1 - buf_size b1 < length ys then buf_capacity b1 - buf_size b1 else length ys)"
    have n: "0 < n" "n \<le> length ys" "buf_size b1 + length (take n ys) \<le> buf_capacity b1"
      using b1(3) False by (auto simp: n_def)
    obtain b2 where b2: "buf_store (take n ys) b1 = Returns b2" "holds b2 (xs @ take n ys)" using store_room [OF b1(2) n(3)] by blast
    have "append_range grow ys b = append_range grow (drop n ys) b2"
      using False b1(1) b2(1) by (subst append_range.simps) (simp add: Let_def n_def)
    then show ?thesis using less.hyps [of "drop n ys" b2 "xs @ take n ys"] n b2(2) by simp
  qed
qed

lemma append_all_returns: "holds b xs \<Longrightarrow> \<exists>b'. append_all grow ps b = Some (Returns b') \<and> holds b' (xs @ concat ps)"
proof (induction ps arbitrary: b xs)
  case (Cons p ps)
  from append_returns [OF Cons.prems, of p] obtain b1 where b1: "append_range grow p b = Some (Returns b1)" "holds b1 (xs @ p)" by blast
  then show ?case using Cons.IH [of b1 "xs @ p"] by simp
qed simp

end

section \<open>\<open>basic_memory_buffer\<close>\<close>

text \<open>
  The storage is the array in the object until it is too small, then memory from the allocator, a parameter: which sizes it
  grants and what the fresh memory contains. The array that is not in use is kept aside.
\<close>

definition allocate :: "(nat \<Rightarrow> bool) \<Rightarrow> (nat \<Rightarrow> 'a) \<Rightarrow> nat \<Rightarrow> 'a list option" where
  "allocate granted junk n = (if granted n then Some (map junk [0..<n]) else None)"

record 'a memory_buffer = "'a buffer" +
  mb_inline :: bool
  mb_store :: "'a list"

definition grown_capacity :: "nat \<Rightarrow> nat \<Rightarrow> nat \<Rightarrow> nat" where
  "grown_capacity max_size old_capacity sz =
     (let new_capacity = old_capacity + old_capacity div 2
      in if sz > new_capacity then sz
         else if new_capacity > max_size then (if sz > max_size then sz else max_size)
         else new_capacity)"

definition memory_grow :: "nat \<Rightarrow> (nat \<Rightarrow> bool) \<Rightarrow> (nat \<Rightarrow> 'a) \<Rightarrow> 'a memory_buffer \<Rightarrow> nat \<Rightarrow> 'a memory_buffer outcome" where
  "memory_grow max_size granted junk b sz =
     (let new_capacity = grown_capacity max_size (buf_capacity b) sz in
      case allocate granted junk new_capacity of
        None \<Rightarrow> Throws
      | Some d \<Rightarrow>
          Returns ((buf_set (take (buf_size b) (buf_data b) @ drop (buf_size b) d) new_capacity b)
            \<lparr>mb_inline := False, mb_store := (if mb_inline b then buf_data b else mb_store b)\<rparr>))"

definition memory_new :: "'a list \<Rightarrow> 'a memory_buffer" where
  "memory_new store = \<lparr>buf_data = store, buf_size = 0, buf_capacity = length store, mb_inline = True, mb_store = []\<rparr>"

text \<open>\<open>move\<close> into a buffer whose own memory has been released: the new target and what is left of the source.\<close>

definition memory_release :: "'a memory_buffer \<Rightarrow> 'a memory_buffer" where
  "memory_release b =
     (if mb_inline b then b else b\<lparr>buf_data := mb_store b, mb_inline := True, mb_store := []\<rparr>)"

definition memory_move :: "'a memory_buffer \<Rightarrow> 'a memory_buffer \<Rightarrow> 'a memory_buffer \<times> 'a memory_buffer" where
  "memory_move this other =
     (let data = buf_data other; sz = buf_size other; capacity = buf_capacity other in
      if mb_inline other
      then (this\<lparr>buf_data := take sz data @ drop sz (buf_data this), buf_capacity := capacity, buf_size := sz\<rparr>, other)
      else (this\<lparr>buf_data := data, buf_capacity := capacity, mb_inline := False, mb_store := buf_data this, buf_size := sz\<rparr>,
            buf_clear (other\<lparr>buf_data := mb_store other, buf_capacity := 0, mb_inline := True, mb_store := []\<rparr>)))"

definition memory_ok :: "nat \<Rightarrow> 'a memory_buffer \<Rightarrow> bool" where
  "memory_ok N b \<longleftrightarrow>
     buf_size b \<le> buf_capacity b \<and> buf_capacity b \<le> length (buf_data b) \<and> length (if mb_inline b then buf_data b else mb_store b) = N"

definition memory_holds :: "nat \<Rightarrow> 'a memory_buffer \<Rightarrow> 'a list \<Rightarrow> bool" where
  "memory_holds N b xs \<longleftrightarrow> memory_ok N b \<and> contents b = xs"

lemma grown_capacity_ge: "sz \<le> grown_capacity m c sz"
  by (auto simp: grown_capacity_def Let_def)

lemma contents_store:
  "buf_store ys b = Returns b' \<Longrightarrow> contents b' = contents b @ ys \<and> buf_size b' = buf_size b + length ys \<and>
    buf_capacity b' = buf_capacity b \<and> length (buf_data b') = length (buf_data b)"
  by (auto simp: buf_store_def contents_def split: if_splits)

lemma store_more:
  "buf_store ys b = Returns b' \<Longrightarrow> b' = b\<lparr>buf_data := buf_data b', buf_size := buf_size b'\<rparr>"
  by (auto simp: buf_store_def split: if_splits)

lemma memory_holds_grow:
  assumes "memory_holds N b xs" "buf_capacity b < c"
  shows "memory_grow m granted junk b c = Throws \<or>
    (\<exists>b'. memory_grow m granted junk b c = Returns b' \<and> memory_holds N b' xs \<and> buf_size b' < buf_capacity b')"
proof -
  let ?n = "grown_capacity m (buf_capacity b) c"
  have n: "buf_size b < ?n" using assms grown_capacity_ge [of c m "buf_capacity b"] by (simp add: memory_holds_def memory_ok_def)
  then show ?thesis
    using assms by (auto simp: memory_grow_def Let_def allocate_def buf_set_def memory_holds_def memory_ok_def contents_def)
qed

interpretation memory: growing_buffer "memory_grow m granted junk" "memory_holds N" for m granted junk N
proof
  fix b :: "'a memory_buffer" and xs
  assume h: "memory_holds N b xs"
  then show "buf_size b \<le> buf_capacity b \<and> buf_capacity b \<le> length (buf_data b)" by (simp add: memory_holds_def memory_ok_def)
  show "memory_holds N b' (xs @ ys)" if "buf_size b + length ys \<le> buf_capacity b" "buf_store ys b = Returns b'" for ys b'
  proof -
    from that(2) have "mb_inline b' = mb_inline b" "mb_store b' = mb_store b" by (auto simp: buf_store_def split: if_splits)
    then show ?thesis using h that contents_store [OF that(2)] by (auto simp: memory_holds_def memory_ok_def)
  qed
qed (rule memory_holds_grow)

lemma memory_new_holds: "memory_holds (length store) (memory_new store) []"
  by (simp add: memory_holds_def memory_ok_def memory_new_def contents_def)

lemma memory_release_holds:
  "memory_holds N b xs \<Longrightarrow> mb_inline (memory_release b) \<and> length (buf_data (memory_release b)) = N"
  by (auto simp: memory_holds_def memory_ok_def memory_release_def)

text \<open>A move hands the contents over, and what is left of the source can be used on.\<close>

lemma memory_move_holds:
  assumes other: "memory_holds N other ys" and this: "mb_inline this" "length (buf_data this) = N"
  shows "memory_holds N (fst (memory_move this other)) ys"
    "memory_holds N (snd (memory_move this other)) (if mb_inline other then ys else [])"
  using assms by (auto simp: memory_move_def Let_def memory_holds_def memory_ok_def contents_def buf_clear_def)

section \<open>\<open>iterator_buffer\<close>\<close>

text \<open>Traits: without a limit, or the count of what was flushed and the limit on it.\<close>

datatype traits = Plain | Fixed nat nat

definition traits_limit :: "nat \<Rightarrow> traits \<Rightarrow> nat \<times> traits" where
  "traits_limit sz tr =
     (case tr of
        Plain \<Rightarrow> (sz, Plain)
      | Fixed count limit \<Rightarrow>
          let n = (if limit > count then limit - count else 0); count = count + sz
          in (if sz < n then sz else n, Fixed count limit))"

definition traits_count :: "traits \<Rightarrow> nat" where
  "traits_count tr = (case tr of Plain \<Rightarrow> 0 | Fixed count limit \<Rightarrow> count)"

abbreviation (input) "buffer_size \<equiv> 256 :: nat"

text \<open>A buffer before an output iterator, which is what it has been given.\<close>

record 'a iterator_buffer = "'a buffer" +
  ib_out :: "'a list"
  ib_traits :: traits

definition iterator_flush :: "'a iterator_buffer \<Rightarrow> 'a iterator_buffer" where
  "iterator_flush b =
     (let (n, tr) = traits_limit (buf_size b) (ib_traits b)
      in (buf_clear b)\<lparr>ib_out := ib_out b @ take n (buf_data b), ib_traits := tr\<rparr>)"

definition iterator_grow :: "'a iterator_buffer \<Rightarrow> nat \<Rightarrow> 'a iterator_buffer outcome" where
  "iterator_grow b c = Returns (if buf_size b = buffer_size then iterator_flush b else b)"

definition iterator_new :: "'a list \<Rightarrow> traits \<Rightarrow> 'a iterator_buffer" where
  "iterator_new data tr = \<lparr>buf_data = data, buf_size = 0, buf_capacity = buffer_size, ib_out = [], ib_traits = tr\<rparr>"

definition iterator_out :: "'a iterator_buffer \<Rightarrow> 'a list \<times> nat" where
  "iterator_out b = (let b = iterator_flush b in (ib_out b, traits_count (ib_traits b) + buf_size b))"

definition flushed :: "nat option \<Rightarrow> traits \<Rightarrow> 'a list \<Rightarrow> 'a list \<Rightarrow> bool" where
  "flushed lim tr pre out \<longleftrightarrow>
     (case lim of None \<Rightarrow> tr = Plain \<and> out = pre | Some l \<Rightarrow> tr = Fixed (length pre) l \<and> out = take l pre)"

definition iterator_holds :: "nat option \<Rightarrow> 'a iterator_buffer \<Rightarrow> 'a list \<Rightarrow> bool" where
  "iterator_holds lim b xs \<longleftrightarrow>
     length (buf_data b) = buffer_size \<and> buf_capacity b = buffer_size \<and> buf_size b \<le> buffer_size \<and>
     (\<exists>pre. xs = pre @ contents b \<and> flushed lim (ib_traits b) pre (ib_out b))"

lemma traits_flush:
  assumes "traits_limit (length xs) tr = (n, tr')" "flushed lim tr pre out"
  shows "flushed lim tr' (pre @ xs) (out @ take n xs)"
  using assms by (auto simp: traits_limit_def flushed_def Let_def split: traits.splits if_splits option.splits)

lemma iterator_flush_holds:
  assumes "iterator_holds lim b xs"
  shows "iterator_holds lim (iterator_flush b) xs" "buf_size (iterator_flush b) = 0" "flushed lim (ib_traits (iterator_flush b)) xs (ib_out (iterator_flush b))"
proof -
  obtain pre where pre: "xs = pre @ contents b" "flushed lim (ib_traits b) pre (ib_out b)" using assms by (auto simp: iterator_holds_def)
  obtain n tr where l: "traits_limit (buf_size b) (ib_traits b) = (n, tr)" by fastforce
  have len: "length (contents b) = buf_size b" using assms by (simp add: iterator_holds_def contents_def)
  have "n \<le> buf_size b" using l by (auto simp: traits_limit_def Let_def split: traits.splits if_splits option.splits)
  then have "take n (contents b) = take n (buf_data b)" by (simp add: contents_def min_def)
  then have f: "flushed lim tr xs (ib_out b @ take n (buf_data b))"
    using traits_flush [OF _ pre(2), of "contents b" n tr] l pre len by simp
  then show "flushed lim (ib_traits (iterator_flush b)) xs (ib_out (iterator_flush b))" "buf_size (iterator_flush b) = 0"
    using l by (simp_all add: iterator_flush_def buf_clear_def)
  show "iterator_holds lim (iterator_flush b) xs"
    using assms f l by (auto simp: iterator_holds_def iterator_flush_def buf_clear_def contents_def)
qed

interpretation iterating: flushing_buffer "iterator_grow" "iterator_holds lim" for lim
proof
  fix b :: "'a iterator_buffer" and xs
  assume h: "iterator_holds lim b xs"
  then show "buf_size b \<le> buf_capacity b \<and> buf_capacity b \<le> length (buf_data b)" by (simp add: iterator_holds_def)
  show "iterator_holds lim b' (xs @ ys)" if "buf_size b + length ys \<le> buf_capacity b" "buf_store ys b = Returns b'" for ys b'
  proof -
    from that(2) have "ib_out b' = ib_out b" "ib_traits b' = ib_traits b" by (auto simp: buf_store_def split: if_splits)
    then show ?thesis using h that contents_store [OF that(2)] by (auto simp: iterator_holds_def)
  qed
  show "iterator_grow b c = Throws \<or> (\<exists>b'. iterator_grow b c = Returns b' \<and> iterator_holds lim b' xs \<and> buf_size b' < buf_capacity b')" for c
    using h iterator_flush_holds [OF h] by (auto simp: iterator_grow_def iterator_holds_def)
  show "iterator_grow b c \<noteq> Throws" for c by (simp add: iterator_grow_def)
qed

lemma iterator_out_holds:
  assumes "iterator_holds lim b xs"
  shows "iterator_out b = (case lim of None \<Rightarrow> (xs, 0) | Some l \<Rightarrow> (take l xs, length xs))"
  using iterator_flush_holds [OF assms]
  by (auto simp: iterator_out_def Let_def flushed_def traits_count_def iterator_flush_def traits_limit_def split: traits.splits option.splits)

text \<open>
  The buffer before a pointer, with a limit: it starts on the caller's array itself and moves to its own storage once the
  limit is reached.
\<close>

datatype place = In_array nat | Own_storage

record 'a fixed_buffer = "'a buffer" +
  fb_ptr :: place
  fb_out :: place
  fb_array :: "'a list"
  fb_storage :: "'a list"
  fb_traits :: traits

definition advance :: "nat \<Rightarrow> place \<Rightarrow> place" where
  "advance n q = (case q of In_array i \<Rightarrow> In_array (i + n) | Own_storage \<Rightarrow> Own_storage)"

definition fixed_flush :: "'a fixed_buffer \<Rightarrow> 'a fixed_buffer" where
  "fixed_flush b =
     (let (n, tr) = traits_limit (buf_size b) (fb_traits b);
          b = b\<lparr>fb_traits := tr\<rparr>;
          b = (if fb_ptr b = fb_out b
               then (buf_set (fb_storage b) buffer_size b)\<lparr>fb_out := advance n (fb_out b), fb_ptr := Own_storage, fb_array := buf_data b\<rparr>
               else b)
      in buf_clear b)"

definition fixed_grow :: "'a fixed_buffer \<Rightarrow> nat \<Rightarrow> 'a fixed_buffer outcome" where
  "fixed_grow b c = Returns (if buf_size b = buf_capacity b then fixed_flush b else b)"

definition fixed_new :: "'a list \<Rightarrow> 'a list \<Rightarrow> nat \<Rightarrow> 'a fixed_buffer" where
  "fixed_new data out n =
     \<lparr>buf_data = out, buf_size = 0, buf_capacity = n, fb_ptr = In_array 0, fb_out = In_array 0, fb_array = [], fb_storage = data,
      fb_traits = Fixed 0 n\<rparr>"

text \<open>\<open>out()\<close> and then \<open>count()\<close>: the array of the caller, the end of the output in it, the number of elements written.\<close>

definition fixed_out :: "'a fixed_buffer \<Rightarrow> 'a list \<times> place \<times> nat" where
  "fixed_out b =
     (let b = fixed_flush b
      in (fb_array b, fb_out b, traits_count (fb_traits b) + buf_size b))"

definition fixed_holds :: "nat \<Rightarrow> 'a list \<Rightarrow> 'a fixed_buffer \<Rightarrow> 'a list \<Rightarrow> bool" where
  "fixed_holds n arr b xs \<longleftrightarrow>
     buf_size b \<le> buf_capacity b \<and> buf_capacity b \<le> length (buf_data b) \<and>
     (if fb_ptr b = In_array 0
      then fb_out b = In_array 0 \<and> fb_traits b = Fixed 0 n \<and> buf_capacity b = n \<and> length (fb_storage b) = buffer_size \<and>
        length (buf_data b) = length arr \<and> drop (buf_size b) (buf_data b) = drop (buf_size b) arr \<and> contents b = xs
      else fb_ptr b = Own_storage \<and> fb_out b = In_array n \<and> buf_capacity b = buffer_size \<and>
        (\<exists>pre. xs = pre @ contents b \<and> fb_traits b = Fixed (length pre) n \<and> n \<le> length pre \<and>
           fb_array b = take n pre @ drop n arr))"

lemma fixed_flush_own:
  assumes h: "fixed_holds n arr b xs" and own: "fb_ptr b \<noteq> In_array 0"
  shows "fixed_holds n arr (fixed_flush b) xs" "buf_size (fixed_flush b) = 0" "buf_capacity (fixed_flush b) = buffer_size"
    "fixed_out b = (take n xs @ drop n arr, In_array n, length xs)"
proof -
  obtain pre where p: "fb_ptr b = Own_storage" "fb_out b = In_array n" "buf_capacity b = buffer_size" "xs = pre @ contents b"
    "fb_traits b = Fixed (length pre) n" "n \<le> length pre" "fb_array b = take n pre @ drop n arr" "buffer_size \<le> length (buf_data b)" "buf_size b \<le> buffer_size"
    using h own by (auto simp: fixed_holds_def)
  have len: "length (contents b) = buf_size b" using p by (simp add: contents_def)
  have l: "traits_limit (buf_size b) (Fixed (length pre) n) = (0, Fixed (length pre + buf_size b) n)" using p by (simp add: traits_limit_def)
  show "fixed_holds n arr (fixed_flush b) xs"
    using p len by (auto simp: fixed_flush_def l Let_def fixed_holds_def buf_clear_def contents_def intro!: exI [of _ xs])
  show "buf_size (fixed_flush b) = 0" "buf_capacity (fixed_flush b) = buffer_size"
    using p by (auto simp: fixed_flush_def l Let_def buf_clear_def)
  show "fixed_out b = (take n xs @ drop n arr, In_array n, length xs)"
    using p len by (auto simp: fixed_out_def fixed_flush_def l Let_def buf_clear_def traits_count_def)
qed

lemma fixed_flush_array:
  assumes h: "fixed_holds n arr b xs" and own: "fb_ptr b = In_array 0"
  shows "fixed_out b = (xs @ drop (length xs) arr, In_array (length xs), length xs)" "length xs \<le> n"
    and "buf_size b = n \<Longrightarrow> fixed_holds n arr (fixed_flush b) xs" "buf_size (fixed_flush b) = 0" "buf_capacity (fixed_flush b) = buffer_size"
proof -
  have p: "fb_out b = In_array 0" "fb_traits b = Fixed 0 n" "buf_capacity b = n" "length (fb_storage b) = buffer_size"
    "length (buf_data b) = length arr" "drop (buf_size b) (buf_data b) = drop (buf_size b) arr" "contents b = xs" "buf_size b \<le> n" "n \<le> length arr"
    using h own by (auto simp: fixed_holds_def)
  have len: "length xs = buf_size b" using p by (auto simp: contents_def)
  have split: "xs @ drop (length xs) arr = buf_data b" using p len by (metis append_take_drop_id contents_def)
  have l: "traits_limit (buf_size b) (Fixed 0 n) = (buf_size b, Fixed (buf_size b) n)" using p by (simp add: traits_limit_def)
  have fl: "fixed_flush b = b\<lparr>fb_traits := Fixed (buf_size b) n, buf_data := fb_storage b, buf_capacity := buffer_size,
      fb_out := In_array (buf_size b), fb_ptr := Own_storage, fb_array := buf_data b, buf_size := 0\<rparr>"
    using p(1,2) by (simp add: fixed_flush_def l Let_def buf_clear_def buf_set_def own advance_def)
  show "fixed_out b = (xs @ drop (length xs) arr, In_array (length xs), length xs)"
    using split len by (simp add: fixed_out_def fl traits_count_def)
  show "length xs \<le> n" using p len by simp
  show "buf_size (fixed_flush b) = 0" "buf_capacity (fixed_flush b) = buffer_size"
    by (simp_all add: fl)
  show "fixed_holds n arr (fixed_flush b) xs" if "buf_size b = n"
    using p(4) split len that by (auto simp: fl fixed_holds_def contents_def intro!: exI [of _ xs])
qed

interpretation limited: flushing_buffer "fixed_grow" "fixed_holds n arr" for n arr
proof
  fix b :: "'a fixed_buffer" and xs
  assume h: "fixed_holds n arr b xs"
  then show "buf_size b \<le> buf_capacity b \<and> buf_capacity b \<le> length (buf_data b)" by (simp add: fixed_holds_def)
  show "fixed_holds n arr b' (xs @ ys)" if "buf_size b + length ys \<le> buf_capacity b" "buf_store ys b = Returns b'" for ys b'
  proof -
    from that(2) have f: "fb_ptr b' = fb_ptr b" "fb_out b' = fb_out b" "fb_array b' = fb_array b" "fb_storage b' = fb_storage b" "fb_traits b' = fb_traits b"
      by (auto simp: buf_store_def split: if_splits)
    have "drop (buf_size b') (buf_data b') = drop (buf_size b') (buf_data b)"
      using that(2) by (auto simp: buf_store_def split: if_splits)
    moreover have "drop (buf_size b + length ys) (buf_data b) = drop (buf_size b + length ys) arr"
      if "drop (buf_size b) (buf_data b) = drop (buf_size b) arr" using that by (metis add.commute drop_drop)
    ultimately show ?thesis using h that(1) contents_store [OF that(2)] f by (auto simp: fixed_holds_def)
  qed
  show "fixed_grow b c = Throws \<or> (\<exists>b'. fixed_grow b c = Returns b' \<and> fixed_holds n arr b' xs \<and> buf_size b' < buf_capacity b')" for c
  proof (cases "buf_size b = buf_capacity b")
    case True
    have "fixed_holds n arr (fixed_flush b) xs \<and> buf_size (fixed_flush b) = 0 \<and> buf_capacity (fixed_flush b) = buffer_size"
    proof (cases "fb_ptr b = In_array 0")
      case ptr: True
      then have "buf_capacity b = n" using h by (simp add: fixed_holds_def)
      then show ?thesis using fixed_flush_array [OF h ptr] True by simp
    qed (use fixed_flush_own [OF h] in simp)
    then show ?thesis using True by (simp add: fixed_grow_def)
  qed (use h in \<open>auto simp: fixed_grow_def fixed_holds_def\<close>)
  show "fixed_grow b c \<noteq> Throws" for c by (simp add: fixed_grow_def)
qed

section \<open>\<open>counting_buffer\<close>\<close>

record 'a counting_buffer = "'a buffer" +
  cb_count :: nat

definition counting_grow :: "'a counting_buffer \<Rightarrow> nat \<Rightarrow> 'a counting_buffer outcome" where
  "counting_grow b c =
     Returns (if buf_size b \<noteq> buffer_size then b else buf_clear (b\<lparr>cb_count := cb_count b + buf_size b\<rparr>))"

definition counting_new :: "'a list \<Rightarrow> 'a counting_buffer" where
  "counting_new data = \<lparr>buf_data = data, buf_size = 0, buf_capacity = buffer_size, cb_count = 0\<rparr>"

definition counting_count :: "'a counting_buffer \<Rightarrow> nat" where
  "counting_count b = cb_count b + buf_size b"

definition counting_holds :: "'a counting_buffer \<Rightarrow> 'a list \<Rightarrow> bool" where
  "counting_holds b xs \<longleftrightarrow>
     buf_size b \<le> buffer_size \<and> buf_capacity b = buffer_size \<and> length (buf_data b) = buffer_size \<and> length xs = counting_count b"

interpretation counting: flushing_buffer "counting_grow" "counting_holds"
proof
  fix b :: "'a counting_buffer" and xs
  assume h: "counting_holds b xs"
  then show "buf_size b \<le> buf_capacity b \<and> buf_capacity b \<le> length (buf_data b)" by (simp add: counting_holds_def)
  show "counting_holds b' (xs @ ys)" if "buf_size b + length ys \<le> buf_capacity b" "buf_store ys b = Returns b'" for ys b'
  proof -
    from that(2) have "cb_count b' = cb_count b" by (auto simp: buf_store_def split: if_splits)
    then show ?thesis using h that(1) contents_store [OF that(2)] by (simp add: counting_holds_def counting_count_def)
  qed
  show "counting_grow b c = Throws \<or> (\<exists>b'. counting_grow b c = Returns b' \<and> counting_holds b' xs \<and> buf_size b' < buf_capacity b')" for c
    using h by (auto simp: counting_grow_def counting_holds_def counting_count_def buf_clear_def)
  show "counting_grow b c \<noteq> Throws" for c by (simp add: counting_grow_def)
qed

section \<open>Writing through a pointer\<close>

text \<open>\<open>to_pointer\<close>: room for \<open>n\<close> elements, and the position where they go, if the buffer has it in one piece.\<close>

definition to_pointer ::
  "('a, 'z) grow_fun \<Rightarrow> nat \<Rightarrow> ('a, 'z) buffer_scheme \<Rightarrow> (('a, 'z) buffer_scheme \<times> nat option) outcome" where
  "to_pointer grow n b =
     (let sz = buf_size b in
      case try_reserve grow (sz + n) b of
        Returns b1 \<Rightarrow>
          if buf_capacity b1 < sz + n then Returns (b1, None)
          else (case try_resize grow (sz + n) b1 of Returns b2 \<Rightarrow> Returns (b2, Some sz) | Throws \<Rightarrow> Throws | Undefined \<Rightarrow> Undefined)
      | Throws \<Rightarrow> Throws
      | Undefined \<Rightarrow> Undefined)"

text \<open>The digits of a number: through the pointer, or one by one.\<close>

definition write_number ::
  "('a, 'z) grow_fun \<Rightarrow> 'a list \<Rightarrow> ('a, 'z) buffer_scheme \<Rightarrow> ('a, 'z) buffer_scheme outcome option" where
  "write_number grow ds b =
     (case to_pointer grow (length ds) b of
        Returns (b', Some k) \<Rightarrow>
          Some (if k + length ds \<le> length (buf_data b')
                then Returns (b'\<lparr>buf_data := take k (buf_data b') @ ds @ drop (k + length ds) (buf_data b')\<rparr>) else Undefined)
      | Returns (b', None) \<Rightarrow> append_range grow ds b'
      | Throws \<Rightarrow> Some Throws
      | Undefined \<Rightarrow> Some Undefined)"

text \<open>What this needs: a reservation that flushes does not make enough room.\<close>

locale steady_buffer = growing_buffer +
  assumes grow_steady: "holds b xs \<Longrightarrow> buf_capacity b < c \<Longrightarrow> buf_size b < c \<Longrightarrow> grow b c = Returns b' \<Longrightarrow>
    buf_size b' = buf_size b \<or> buf_capacity b' < c"
begin

lemma write_number_adds:
  assumes h: "holds b xs" and ds: "ds \<noteq> []"
  shows "\<exists>r. write_number grow ds b = Some r \<and> (r = Throws \<or> (\<exists>b'. r = Returns b' \<and> holds b' (xs @ ds)))"
proof -
  let ?n = "buf_size b + length ds"
  have lt: "buf_size b < ?n" using ds by simp
  from reserve_room [OF h lt] consider "try_reserve grow ?n b = Throws"
    | b1 where "try_reserve grow ?n b = Returns b1" "holds b1 xs" by blast
  then show ?thesis
  proof cases
    case 1
    then show ?thesis by (simp add: write_number_def to_pointer_def)
  next
    case (2 b1)
    show ?thesis
    proof (cases "buf_capacity b1 < ?n")
      case True
      then have "write_number grow ds b = append_range grow ds b1" using 2 by (simp add: write_number_def to_pointer_def)
      then show ?thesis using append_adds [OF 2(2)] by simp
    next
      case False
      have "buf_size b1 = buf_size b"
      proof (cases "?n > buf_capacity b")
        case True
        then show ?thesis using grow_steady [OF h True lt, of b1] 2(1) False by (simp add: try_reserve_def)
      qed (use 2(1) in \<open>simp add: try_reserve_def\<close>)
      moreover have "?n \<le> length (buf_data b1)" using False holds_room [OF 2(2)] by simp
      ultimately have "write_number grow ds b = Some (buf_store ds b1)"
        using 2(1) False by (simp add: write_number_def to_pointer_def Let_def try_resize_def try_reserve_def buf_store_def)
      moreover have "buf_size b1 + length ds \<le> buf_capacity b1" using False \<open>buf_size b1 = buf_size b\<close> by simp
      ultimately show ?thesis using store_room [OF 2(2)] by auto
    qed
  qed
qed

end

interpretation memory_steady: steady_buffer "memory_grow m granted junk" "memory_holds N" for m granted junk N
  by unfold_locales (auto simp: memory_grow_def Let_def buf_set_def split: option.splits)

interpretation iterating_steady: steady_buffer "iterator_grow" "iterator_holds lim" for lim
  by unfold_locales (auto simp: iterator_grow_def iterator_holds_def iterator_flush_def buf_clear_def Let_def split: prod.splits)

interpretation counting_steady: steady_buffer "counting_grow" "counting_holds"
  by unfold_locales (auto simp: counting_grow_def counting_holds_def buf_clear_def)

interpretation granting: flushing_buffer "memory_grow m (\<lambda>_. True) junk" "memory_holds N" for m junk N
  by unfold_locales (simp add: memory_grow_def Let_def allocate_def)

section \<open>Outputs with a limit\<close>

text \<open>
  What a formatter asks of the buffer: to append a text, to write the digits of a number, which goes through \<open>to_pointer\<close>, and to
  reserve room (\<open>reserve\<close>, in \<open>write_padded\<close>), which stores nothing but may flush.
\<close>

datatype 'a piece = Text "'a list" | Digits "'a list" | Room nat

definition write_piece ::
  "('a, 'z) grow_fun \<Rightarrow> 'a piece \<Rightarrow> ('a, 'z) buffer_scheme \<Rightarrow> ('a, 'z) buffer_scheme outcome option" where
  "write_piece grow p b =
     (case p of
        Text xs \<Rightarrow> append_range grow xs b
      | Digits ds \<Rightarrow> write_number grow ds b
      | Room n \<Rightarrow> Some (try_reserve grow (buf_size b + n) b))"

fun write_all ::
  "('a, 'z) grow_fun \<Rightarrow> 'a piece list \<Rightarrow> ('a, 'z) buffer_scheme \<Rightarrow> ('a, 'z) buffer_scheme outcome option" where
  "write_all grow [] b = Some (Returns b)"
| "write_all grow (p # ps) b =
     (case write_piece grow p b of Some (Returns b') \<Rightarrow> write_all grow ps b' | e \<Rightarrow> e)"

fun piece_text :: "'a piece \<Rightarrow> 'a list" where
  "piece_text (Text xs) = xs"
| "piece_text (Digits ds) = ds"
| "piece_text (Room n) = []"

definition full_text :: "'a piece list \<Rightarrow> 'a list" where
  "full_text ps = concat (map piece_text ps)"

lemma full_text_simps [simp]: "full_text [] = []" "full_text (p # ps) = piece_text p @ full_text ps"
  by (simp_all add: full_text_def)

text \<open>\<open>vformat_to_n\<close> to an array and to an output iterator, and \<open>formatted_size\<close>, over the pieces the formatter writes.\<close>

definition format_to_n_array :: "'a list \<Rightarrow> 'a list \<Rightarrow> nat \<Rightarrow> 'a piece list \<Rightarrow> ('a list \<times> place \<times> nat) outcome option" where
  "format_to_n_array data out n pieces =
     (case write_all fixed_grow pieces (fixed_new data out n) of
        Some (Returns b) \<Rightarrow> Some (Returns (fixed_out b))
      | Some Throws \<Rightarrow> Some Throws
      | Some Undefined \<Rightarrow> Some Undefined
      | None \<Rightarrow> None)"

definition format_to_n_iterator :: "'a list \<Rightarrow> nat \<Rightarrow> 'a piece list \<Rightarrow> ('a list \<times> nat) outcome option" where
  "format_to_n_iterator data n pieces =
     (case write_all iterator_grow pieces (iterator_new data (Fixed 0 n)) of
        Some (Returns b) \<Rightarrow> Some (Returns (iterator_out b))
      | Some Throws \<Rightarrow> Some Throws
      | Some Undefined \<Rightarrow> Some Undefined
      | None \<Rightarrow> None)"

definition formatted_size :: "'a list \<Rightarrow> 'a piece list \<Rightarrow> nat outcome option" where
  "formatted_size data pieces =
     (case write_all counting_grow pieces (counting_new data) of
        Some (Returns b) \<Rightarrow> Some (Returns (counting_count b))
      | Some Throws \<Rightarrow> Some Throws
      | Some Undefined \<Rightarrow> Some Undefined
      | None \<Rightarrow> None)"

text \<open>What every piece does to a buffer that neither throws nor makes enough room by flushing.\<close>

locale steady_flushing_buffer = flushing_buffer + steady_buffer
begin

lemma write_number_returns:
  assumes "holds b xs"
  shows "\<exists>b'. write_number grow ds b = Some (Returns b') \<and> holds b' (xs @ ds)"
proof (cases "ds = []")
  case True
  have room: "buf_size b \<le> buf_capacity b" "buf_size b \<le> length (buf_data b)" using holds_room [OF assms] by auto
  then have "write_number grow [] b = Some (Returns b)"
    by (simp add: write_number_def to_pointer_def Let_def try_reserve_def try_resize_def)
  then show ?thesis using True assms by simp
next
  case False
  have "write_number grow ds b \<noteq> Some Throws"
  proof -
    from assms have r: "try_reserve grow (buf_size b + length ds) b \<noteq> Throws" by (rule reserve_returns)
    have lt: "buf_size b < buf_size b + length ds" using False by simp
    from reserve_room [OF assms lt] r obtain b1 where
      b1: "try_reserve grow (buf_size b + length ds) b = Returns b1" "holds b1 xs" by blast
    have a: "append_range grow ds b1 \<noteq> Some Throws" using append_returns [OF b1(2), of ds] by auto
    have "try_resize grow (buf_size b + length ds) b1 \<noteq> Throws"
      using reserve_returns [OF b1(2)] by (auto simp: try_resize_def split: outcome.splits)
    then show ?thesis using b1(1) a
      by (auto simp: write_number_def to_pointer_def Let_def split: outcome.splits)
  qed
  then show ?thesis using write_number_adds [OF assms False] by blast
qed

lemma write_piece_returns:
  assumes "holds b xs"
  shows "\<exists>b'. write_piece grow p b = Some (Returns b') \<and> holds b' (xs @ piece_text p)"
proof (cases p)
  case (Room n)
  show ?thesis
  proof (cases "n = 0")
    case True
    then show ?thesis using Room assms holds_room [OF assms] by (simp add: write_piece_def try_reserve_def)
  next
    case False
    then show ?thesis
      using reserve_room [OF assms, of "buf_size b + n"] reserve_returns [OF assms] Room by (auto simp: write_piece_def)
  qed
qed (use append_returns [OF assms] write_number_returns [OF assms] in \<open>auto simp: write_piece_def\<close>)

lemma write_all_returns:
  "holds b xs \<Longrightarrow> \<exists>b'. write_all grow ps b = Some (Returns b') \<and> holds b' (xs @ full_text ps)"
proof (induction ps arbitrary: b xs)
  case (Cons p ps)
  obtain b1 where b1: "write_piece grow p b = Some (Returns b1)" "holds b1 (xs @ piece_text p)"
    using write_piece_returns [OF Cons.prems] by blast
  then show ?case using Cons.IH [OF b1(2)] by simp
qed simp

end

interpretation iterating_pieces: steady_flushing_buffer "iterator_grow" "iterator_holds lim" for lim ..

interpretation counting_pieces: steady_flushing_buffer "counting_grow" "counting_holds" ..

lemma fixed_new_holds: "n \<le> length arr \<Longrightarrow> length data = buffer_size \<Longrightarrow> fixed_holds n arr (fixed_new data arr n) []"
  by (simp add: fixed_holds_def fixed_new_def contents_def)

lemma iterator_new_holds:
  "length data = buffer_size \<Longrightarrow> iterator_holds None (iterator_new data Plain) []"
  "length data = buffer_size \<Longrightarrow> iterator_holds (Some n) (iterator_new data (Fixed 0 n)) []"
  by (auto simp: iterator_holds_def iterator_new_def contents_def flushed_def)

lemma counting_new_holds: "length data = buffer_size \<Longrightarrow> counting_holds (counting_new data) []"
  by (simp add: counting_holds_def counting_new_def counting_count_def)

text \<open>The result for the caller's array, by the place the output has reached.\<close>

lemma fixed_out_holds:
  assumes h: "fixed_holds n arr b xs" and len: "n \<le> length arr"
  shows "fixed_out b = (take n xs @ drop (min n (length xs)) arr, In_array (min n (length xs)), length xs)"
proof (cases "fb_ptr b = In_array 0")
  case True
  then show ?thesis using fixed_flush_array(1,2) [OF h] by (simp add: min_def)
next
  case False
  then have "n \<le> length xs" using h by (auto simp: fixed_holds_def)
  then show ?thesis using fixed_flush_own(4) [OF h False] by (simp add: min_def)
qed

text \<open>
  The double count of \<open>to_pointer\<close> in the buffer before an array: \<open>k\<close> elements are in the array, none has been flushed. It happens
  when exactly \<open>n\<close> elements are there and the next piece to need room is a number that fits behind them in the 256 of the own storage.
\<close>

fun surplus :: "nat \<Rightarrow> nat \<Rightarrow> 'a piece list \<Rightarrow> nat" where
  "surplus n k [] = 0"
| "surplus n k (Text xs # ps) = (if k + length xs \<le> n then surplus n (k + length xs) ps else 0)"
| "surplus n k (Digits ds # ps) =
     (if k + length ds \<le> n then surplus n (k + length ds) ps else if k = n \<and> n + length ds \<le> buffer_size then n else 0)"
| "surplus n k (Room r # ps) = (if k = n \<and> 0 < r then 0 else surplus n k ps)"

text \<open>Once the buffer is on its own storage a reservation makes no room for a number, as for the other buffers.\<close>

lemma own_steady:
  assumes "fixed_holds n arr b xs" "fb_ptr b \<noteq> In_array 0" "buf_capacity b < c" "buf_size b < c" "fixed_grow b c = Returns b'"
  shows "buf_size b' = buf_size b \<or> buf_capacity b' < c"
  using assms fixed_flush_own(2,3) [OF assms(1,2)] by (auto simp: fixed_grow_def fixed_holds_def split: if_splits)

definition own_holds :: "nat \<Rightarrow> 'a list \<Rightarrow> 'a fixed_buffer \<Rightarrow> 'a list \<Rightarrow> bool" where
  "own_holds n arr b xs \<longleftrightarrow> fixed_holds n arr b xs \<and> fb_ptr b \<noteq> In_array 0"

lemma own_flush: "own_holds n arr b xs \<Longrightarrow> own_holds n arr (fixed_flush b) xs"
  using fixed_flush_own(1) [of n arr b xs]
  by (auto simp: own_holds_def fixed_flush_def Let_def buf_clear_def split: prod.splits)

interpretation own: steady_flushing_buffer "fixed_grow" "own_holds n arr" for n arr
proof
  fix b :: "'a fixed_buffer" and xs
  assume h: "own_holds n arr b xs"
  then have f: "fixed_holds n arr b xs" and o: "fb_ptr b \<noteq> In_array 0" by (simp_all add: own_holds_def)
  show "buf_size b \<le> buf_capacity b \<and> buf_capacity b \<le> length (buf_data b)" using limited.holds_room [OF f] .
  show "own_holds n arr b' (xs @ ys)" if "buf_size b + length ys \<le> buf_capacity b" "buf_store ys b = Returns b'" for ys b'
    using limited.holds_store [OF f that] o that(2) by (auto simp: own_holds_def buf_store_def split: if_splits)
  show "fixed_grow b c = Throws \<or> (\<exists>b'. fixed_grow b c = Returns b' \<and> own_holds n arr b' xs \<and> buf_size b' < buf_capacity b')"
    if "buf_capacity b < c" for c
    using limited.holds_grow [OF f that] own_flush [OF h] h by (auto simp: fixed_grow_def)
  show "fixed_grow b c \<noteq> Throws" for c by (simp add: fixed_grow_def)
  show "buf_size b' = buf_size b \<or> buf_capacity b' < c"
    if "buf_capacity b < c" "buf_size b < c" "fixed_grow b c = Returns b'" for c b'
    using own_steady [OF f o that] .
qed

definition array_holds :: "nat \<Rightarrow> 'a list \<Rightarrow> 'a fixed_buffer \<Rightarrow> 'a list \<Rightarrow> bool" where
  "array_holds n arr b xs \<longleftrightarrow> fixed_holds n arr b xs \<and> fb_ptr b = In_array 0"

lemma array_facts:
  assumes "array_holds n arr b xs"
  shows "buf_size b = length xs" "buf_capacity b = n" "length xs \<le> n" "n \<le> length (buf_data b)"
  using assms by (auto simp: array_holds_def fixed_holds_def contents_def)

lemma array_store:
  assumes "array_holds n arr b xs" "length xs + length ys \<le> n"
  shows "\<exists>b'. buf_store ys b = Returns b' \<and> array_holds n arr b' (xs @ ys)"
proof -
  have f: "fixed_holds n arr b xs" using assms(1) by (simp add: array_holds_def)
  have "buf_size b + length ys \<le> buf_capacity b" using array_facts [OF assms(1)] assms(2) by simp
  then obtain b' where b': "buf_store ys b = Returns b'" "fixed_holds n arr b' (xs @ ys)"
    using limited.store_room [OF f] by blast
  moreover have "fb_ptr b' = fb_ptr b" using b'(1) by (auto simp: buf_store_def split: if_splits)
  ultimately show ?thesis using assms(1) by (simp add: array_holds_def)
qed

text \<open>The flush of a full array.\<close>

lemma array_flush:
  assumes "array_holds n arr b xs" "length xs = n"
  shows "own_holds n arr (fixed_flush b) xs" "buf_size (fixed_flush b) = 0" "buf_capacity (fixed_flush b) = buffer_size"
proof -
  have f: "fixed_holds n arr b xs" and p: "fb_ptr b = In_array 0" using assms(1) by (simp_all add: array_holds_def)
  have "buf_size b = n" using array_facts [OF assms(1)] assms(2) by simp
  then have "fixed_holds n arr (fixed_flush b) xs" by (rule fixed_flush_array(3) [OF f p])
  moreover have "fb_ptr (fixed_flush b) = Own_storage"
    using f p by (simp add: fixed_holds_def fixed_flush_def Let_def buf_clear_def split: prod.splits)
  ultimately show "own_holds n arr (fixed_flush b) xs" by (simp add: own_holds_def)
  show "buf_size (fixed_flush b) = 0" "buf_capacity (fixed_flush b) = buffer_size" using fixed_flush_array(4,5) [OF f p] .
qed

lemma array_append:
  assumes "array_holds n arr b xs"
  shows "length xs + length ys \<le> n \<Longrightarrow> \<exists>b'. append_range fixed_grow ys b = Some (Returns b') \<and> array_holds n arr b' (xs @ ys)"
    and "n < length xs + length ys \<Longrightarrow> \<exists>b'. append_range fixed_grow ys b = Some (Returns b') \<and> own_holds n arr b' (xs @ ys)"
proof -
  note a = array_facts [OF assms]
  assume le: "length xs + length ys \<le> n"
  then obtain b' where b': "buf_store ys b = Returns b'" "array_holds n arr b' (xs @ ys)" using array_store [OF assms] by blast
  show "\<exists>b'. append_range fixed_grow ys b = Some (Returns b') \<and> array_holds n arr b' (xs @ ys)"
  proof (cases "ys = []")
    case False
    have "buf_capacity b - buf_size b \<ge> length ys" using a le by simp
    then have "append_range fixed_grow ys b = append_range fixed_grow [] b'"
      using False a le b'(1) by (subst append_range.simps) (simp add: try_reserve_def Let_def)
    then show ?thesis using b'(2) by (simp add: append_range.simps)
  qed (use assms in \<open>simp add: append_range.simps\<close>)
next
  assume gt: "n < length xs + length ys"
  have f: "fixed_holds n arr b xs" using assms by (simp add: array_holds_def)
  obtain b' where b': "append_range fixed_grow ys b = Some (Returns b')" "fixed_holds n arr b' (xs @ ys)"
    using limited.append_returns [OF f] by blast
  then have "fb_ptr b' \<noteq> In_array 0" using gt fixed_flush_array(2) [OF b'(2)] by auto
  then show "\<exists>b'. append_range fixed_grow ys b = Some (Returns b') \<and> own_holds n arr b' (xs @ ys)"
    using b' by (auto simp: own_holds_def)
qed

lemma array_number_fits:
  assumes "array_holds n arr b xs" "length xs + length ds \<le> n"
  shows "\<exists>b'. write_number fixed_grow ds b = Some (Returns b') \<and> array_holds n arr b' (xs @ ds)"
proof -
  note a = array_facts [OF assms(1)]
  have "write_number fixed_grow ds b = Some (buf_store ds b)"
    using a assms(2) by (simp add: write_number_def to_pointer_def Let_def try_reserve_def try_resize_def buf_store_def)
  then show ?thesis using array_store [OF assms] by auto
qed

lemma array_number_crosses:
  assumes "array_holds n arr b xs" "n < length xs + length ds" "length xs \<noteq> n"
  shows "\<exists>b'. write_number fixed_grow ds b = Some (Returns b') \<and> own_holds n arr b' (xs @ ds)"
proof -
  note a = array_facts [OF assms(1)]
  have "write_number fixed_grow ds b = append_range fixed_grow ds b"
    using a assms(2,3) by (simp add: write_number_def to_pointer_def Let_def try_reserve_def fixed_grow_def)
  then show ?thesis using array_append(2) [OF assms(1,2)] by simp
qed

lemma array_number_full:
  assumes "array_holds n arr b xs" "length xs = n" "ds \<noteq> []"
  shows "\<exists>b' junk. write_number fixed_grow ds b = Some (Returns b') \<and> own_holds n arr b' (xs @ junk @ ds) \<and>
    length junk = (if n + length ds \<le> buffer_size then n else 0)"
proof -
  note a = array_facts [OF assms(1)]
  let ?b = "fixed_flush b"
  note fl = array_flush [OF assms(1,2)]
  have data: "buffer_size \<le> length (buf_data ?b)" using own.holds_room [OF fl(1)] fl(3) by simp
  have r: "try_reserve fixed_grow (n + length ds) b = Returns ?b"
    using a assms(2,3) by (simp add: try_reserve_def fixed_grow_def)
  show ?thesis
  proof (cases "n + length ds \<le> buffer_size")
    case True
    then have "n < buffer_size" using assms(3) by (cases ds) auto
    then have "n < length (buf_data ?b)" using data by simp
    then have "write_number fixed_grow ds b = Some (buf_store (take n (buf_data ?b) @ ds) ?b)"
      using a(1) assms(2) r fl(2,3) data True
      by (simp add: write_number_def to_pointer_def Let_def try_resize_def try_reserve_def buf_store_def min_def)
    moreover have "buf_size ?b + length (take n (buf_data ?b) @ ds) \<le> buf_capacity ?b"
      using fl(2,3) data True by simp
    moreover have "length (take n (buf_data ?b)) = n" using data True by simp
    ultimately show ?thesis
      using own.store_room [OF fl(1), of "take n (buf_data ?b) @ ds"] True by fastforce
  next
    case False
    then have "write_number fixed_grow ds b = append_range fixed_grow ds ?b"
      using a(1) assms(2) r fl(3) by (simp add: write_number_def to_pointer_def Let_def)
    then show ?thesis using own.append_returns [OF fl(1), of ds] False by (auto intro!: exI [of _ "[]"])
  qed
qed

lemma array_room:
  assumes "array_holds n arr b xs"
  shows "\<exists>b'. try_reserve fixed_grow (buf_size b + r) b = Returns b' \<and>
    (if length xs = n \<and> 0 < r then own_holds n arr b' xs else b' = b)"
  using array_facts [OF assms] array_flush(1) [OF assms] by (auto simp: try_reserve_def fixed_grow_def)

lemma write_all_own:
  assumes "own_holds n arr b xs"
  shows "\<exists>b'. write_all fixed_grow ps b = Some (Returns b') \<and> fixed_holds n arr b' (xs @ full_text ps)"
  using own.write_all_returns [OF assms] by (auto simp: own_holds_def)

lemma write_all_array:
  assumes "array_holds n arr b xs"
  shows "\<exists>b' ys. write_all fixed_grow ps b = Some (Returns b') \<and> fixed_holds n arr b' ys \<and>
    take n ys = take n (xs @ full_text ps) \<and> length ys = length (xs @ full_text ps) + surplus n (length xs) ps"
  using assms
proof (induction ps arbitrary: b xs)
  case Nil
  then show ?case by (auto simp: array_holds_def)
next
  case (Cons p ps)
  have le: "length xs \<le> n" using array_facts [OF Cons.prems] by simp
  show ?case
  proof (cases p)
    case (Text ys)
    show ?thesis
    proof (cases "length xs + length ys \<le> n")
      case True
      from array_append(1) [OF Cons.prems True] obtain b1 where
        "append_range fixed_grow ys b = Some (Returns b1)" "array_holds n arr b1 (xs @ ys)" by blast
      then show ?thesis using Cons.IH [of b1 "xs @ ys"] True Text by (simp add: write_piece_def)
    next
      case False
      then obtain b1 where b1: "append_range fixed_grow ys b = Some (Returns b1)" "own_holds n arr b1 (xs @ ys)"
        using array_append(2) [OF Cons.prems, of ys] by auto
      then obtain b2 where "write_all fixed_grow ps b1 = Some (Returns b2)" "fixed_holds n arr b2 ((xs @ ys) @ full_text ps)"
        using write_all_own [OF b1(2), of ps] by blast
      then show ?thesis using b1 False Text
        by (intro exI [of _ b2] exI [of _ "(xs @ ys) @ full_text ps"]) (simp add: write_piece_def)
    qed
  next
    case (Digits ds)
    consider "length xs + length ds \<le> n" | "n < length xs + length ds" "length xs \<noteq> n"
      | "n < length xs + length ds" "length xs = n" by linarith
    then show ?thesis
    proof cases
      case 1
      from array_number_fits [OF Cons.prems 1] obtain b1 where
        "write_number fixed_grow ds b = Some (Returns b1)" "array_holds n arr b1 (xs @ ds)" by blast
      then show ?thesis using Cons.IH [of b1 "xs @ ds"] 1 Digits by (simp add: write_piece_def)
    next
      case 2
      from array_number_crosses [OF Cons.prems 2] obtain b1 where
        b1: "write_number fixed_grow ds b = Some (Returns b1)" "own_holds n arr b1 (xs @ ds)" by blast
      then obtain b2 where "write_all fixed_grow ps b1 = Some (Returns b2)" "fixed_holds n arr b2 ((xs @ ds) @ full_text ps)"
        using write_all_own [OF b1(2), of ps] by blast
      then show ?thesis using b1 2 Digits
        by (intro exI [of _ b2] exI [of _ "(xs @ ds) @ full_text ps"]) (simp add: write_piece_def)
    next
      case 3
      then have "ds \<noteq> []" by auto
      from array_number_full [OF Cons.prems 3(2) this] obtain b1 junk where
        b1: "write_number fixed_grow ds b = Some (Returns b1)" "own_holds n arr b1 (xs @ junk @ ds)"
          "length junk = (if n + length ds \<le> buffer_size then n else 0)" by blast
      then obtain b2 where "write_all fixed_grow ps b1 = Some (Returns b2)" "fixed_holds n arr b2 ((xs @ junk @ ds) @ full_text ps)"
        using write_all_own [OF b1(2), of ps] by blast
      then show ?thesis using b1 3 Digits
        by (intro exI [of _ b2] exI [of _ "(xs @ junk @ ds) @ full_text ps"]) (simp add: write_piece_def)
    qed
  next
    case (Room r)
    obtain b1 where b1: "try_reserve fixed_grow (buf_size b + r) b = Returns b1"
        "if length xs = n \<and> 0 < r then own_holds n arr b1 xs else b1 = b"
      using array_room [OF Cons.prems] by blast
    show ?thesis
    proof (cases "length xs = n \<and> 0 < r")
      case True
      then have "own_holds n arr b1 xs" using b1(2) by simp
      then obtain b2 where "write_all fixed_grow ps b1 = Some (Returns b2)" "fixed_holds n arr b2 (xs @ full_text ps)"
        using write_all_own by blast
      then show ?thesis using b1(1) True Room
        by (intro exI [of _ b2] exI [of _ "xs @ full_text ps"]) (simp add: write_piece_def)
    next
      case False
      then have "b1 = b" using b1(2) by auto
      then show ?thesis using Cons.IH [OF Cons.prems] False b1(1) Room by (auto simp: write_piece_def)
    qed
  qed
qed

text \<open>C6: Whatever the pieces of an output, texts, numbers and reservations of room: \<open>format_to_n\<close> to an
  array writes the first \<open>n\<close> elements of the output, leaves the rest of the array alone and returns the end of what it wrote; the
  size it returns is the length of the whole output, and \<open>n\<close> more when a number comes right when exactly \<open>n\<close> elements have been written
  and fits behind them in the own storage (\<open>surplus\<close>). To an output iterator it gives the same prefix and the exact length, and \<open>formatted_size\<close>
  is the exact length. None of them throws, writes out of bounds or fails to return.\<close>

theorem format_to_n_truncates:
  assumes "n \<le> length out" "length data = 256"
  shows "format_to_n_array data out n pieces =
      Some (Returns (let text = full_text pieces; k = min n (length text)
        in (take n text @ drop k out, In_array k, length text + surplus n 0 pieces))) \<and>
    format_to_n_iterator data n pieces = Some (Returns (take n (full_text pieces), length (full_text pieces))) \<and>
    formatted_size data pieces = Some (Returns (length (full_text pieces)))"
proof (intro conjI)
  have "array_holds n out (fixed_new data out n) []"
    using fixed_new_holds [OF assms] by (simp add: array_holds_def fixed_new_def)
  from write_all_array [OF this, of pieces] obtain b ys where
    b: "write_all fixed_grow pieces (fixed_new data out n) = Some (Returns b)" "fixed_holds n out b ys"
      "take n ys = take n (full_text pieces)" "length ys = length (full_text pieces) + surplus n 0 pieces" by auto
  have "min n (length ys) = min n (length (full_text pieces))" using b(3) by (metis length_take min.commute)
  then show "format_to_n_array data out n pieces =
      Some (Returns (let text = full_text pieces; k = min n (length text)
        in (take n text @ drop k out, In_array k, length text + surplus n 0 pieces)))"
    using b(1,3,4) fixed_out_holds [OF b(2) assms(1)] by (simp add: format_to_n_array_def Let_def)
  show "format_to_n_iterator data n pieces = Some (Returns (take n (full_text pieces), length (full_text pieces)))"
    using iterating_pieces.write_all_returns [OF iterator_new_holds(2) [OF assms(2), of n], of pieces] iterator_out_holds [of "Some n"]
    by (fastforce simp: format_to_n_iterator_def)
  show "formatted_size data pieces = Some (Returns (length (full_text pieces)))"
    using counting_pieces.write_all_returns [OF counting_new_holds [OF assms(2)], of pieces]
    by (auto simp: formatted_size_def counting_holds_def)
qed

theorem format_to_n_truncates_witness:
  "format_to_n_array (replicate 256 (0 :: int)) [7, 7, 7, 7] 3 [Text [1, 2], Digits [3], Digits [4]] = Some (Returns ([1, 2, 3, 7], In_array 3, 7)) \<and>
    format_to_n_iterator (replicate 256 (0 :: int)) 3 [Text [1, 2], Digits [3], Digits [4]] = Some (Returns ([1, 2, 3], 4)) \<and>
    formatted_size (replicate 256 (0 :: int)) [Text [1, 2], Digits [3], Digits [4]] = Some (Returns 4)"
  using format_to_n_truncates [of 3 "[7, 7, 7, 7 :: int]" "replicate 256 0" "[Text [1, 2], Digits [3], Digits [4]]"]
  by (simp add: Let_def)

text \<open>C5: On a \<open>memory_buffer\<close> with any contents, appending pieces returns, stays within the
  storage, and either throws because the allocator refuses or leaves the contents followed by the pieces; writing the
  digits of a number through a pointer does the same. With an allocator that grants every request nothing throws.\<close>

theorem memory_buffer_appends:
  assumes "memory_holds N b xs"
  shows "(\<exists>r. append_all (memory_grow m granted junk) pieces b = Some r \<and>
      (r = Throws \<or> (\<exists>b'. r = Returns b' \<and> memory_holds N b' (xs @ concat pieces)))) \<and>
    (ds = [] \<or> (\<exists>r. write_number (memory_grow m granted junk) ds b = Some r \<and>
      (r = Throws \<or> (\<exists>b'. r = Returns b' \<and> memory_holds N b' (xs @ ds))))) \<and>
    (\<exists>b'. append_all (memory_grow m (\<lambda>_. True) junk) pieces b = Some (Returns b') \<and> memory_holds N b' (xs @ concat pieces))"
proof (intro conjI)
  show "ds = [] \<or> (\<exists>r. write_number (memory_grow m granted junk) ds b = Some r \<and>
      (r = Throws \<or> (\<exists>b'. r = Returns b' \<and> memory_holds N b' (xs @ ds))))"
    using memory_steady.write_number_adds [OF assms] by blast
qed (use memory.append_all_adds [OF assms] granting.append_all_returns [OF assms] in auto)

theorem memory_buffer_appends_witness:
  "\<exists>b'. append_all (memory_grow 1000 (\<lambda>_. True) (\<lambda>_. 0)) [[1, 2], [3 :: int]] (memory_new [0, 0]) = Some (Returns b') \<and>
    memory_holds 2 b' [1, 2, 3]"
  using memory_buffer_appends [OF memory_new_holds [of "[0, 0 :: int]"], of 1000 "\<lambda>_. True" "\<lambda>_. 0" "[[1, 2], [3]]" "[]"]
  by (simp add: numeral_2_eq_2)

text \<open>
  C7: \<open>to_pointer\<close> reads the size before the reservation, which may flush. When the output of
  \<open>format_to_n\<close> to an array of fewer than 256 elements has just reached its limit, the next number is counted together
  with the elements that were flushed already: for every non-empty output of exactly \<open>n\<close> elements and a number of up to
  \<open>256 - n\<close> digits, the length returned is too large by \<open>n\<close>.
\<close>

theorem pointer_write_overcounts:
  assumes "length text = n" "length arr = n" "0 < n" "ds \<noteq> []" "n + length ds \<le> 256" "length data = 256"
  shows "\<exists>b b'. append_all fixed_grow [text] (fixed_new data arr n) = Some (Returns b) \<and>
    write_number fixed_grow ds b = Some (Returns b') \<and> snd (snd (fixed_out b')) = length (text @ ds) + n"
proof -
  let ?b = "(fixed_new data arr n)\<lparr>buf_data := text, buf_size := n\<rparr>"
  have "text \<noteq> []" using assms by auto
  then have "append_all fixed_grow [text] (fixed_new data arr n) = Some (Returns ?b)"
    using assms by (simp add: append_range.simps try_reserve_def fixed_new_def buf_store_def)
  moreover have "fixed_grow ?b c = Returns (?b\<lparr>fb_traits := Fixed n n, buf_data := data, buf_capacity := 256, fb_out := In_array n,
      fb_ptr := Own_storage, fb_array := text, buf_size := 0\<rparr>)" for c
    by (simp add: fixed_grow_def fixed_flush_def fixed_new_def traits_limit_def buf_clear_def buf_set_def advance_def)
  moreover from this have "write_number fixed_grow ds ?b = Some (Returns (?b\<lparr>fb_traits := Fixed n n,
      buf_data := take n data @ ds @ drop (n + length ds) data, buf_capacity := 256, fb_out := In_array n,
      fb_ptr := Own_storage, fb_array := text, buf_size := n + length ds\<rparr>))"
    using assms by (simp add: write_number_def to_pointer_def Let_def try_reserve_def try_resize_def) (simp add: fixed_new_def)
  ultimately show ?thesis
    using assms by (auto simp: fixed_out_def fixed_flush_def fixed_new_def traits_limit_def buf_clear_def traits_count_def)
qed

theorem pointer_write_overcounts_witness:
  "\<exists>b b'. append_all fixed_grow [''0123456789''] (fixed_new (replicate 256 CHR ''x'') ''----------'' 10) = Some (Returns b) \<and>
    write_number fixed_grow ''12345'' b = Some (Returns b') \<and> snd (snd (fixed_out b')) = 25"
  using pointer_write_overcounts [of "''0123456789''" 10 "''----------''" "''12345''" "replicate 256 CHR ''x''"] by simp

end
