(* ===== verification/Fmt_Uint128.thy ===== *)
theory Fmt_Uint128
  imports Log_Prelude
begin

text \<open>
  \<open>uint128_fallback\<close> of \<^verbatim>\<open>base/fmt/format.h\<close>: 128-bit numbers as two 64-bit halves, for compilers without a type of that
  width. Every operation is equal to the one on 128-bit words; an assertion that fails and a shift by the width of a half
  are \<open>None\<close>.
\<close>

record uint128 =
  lo :: "64 word"
  hi :: "64 word"

definition u128 :: "64 word \<Rightarrow> 64 word \<Rightarrow> uint128" where
  "u128 h l = \<lparr>lo = l, hi = h\<rparr>"

definition u128_of :: "uint128 \<Rightarrow> 128 word" where
  "u128_of x = push_bit 64 (ucast (hi x)) OR ucast (lo x)"

definition u128_eq :: "uint128 \<Rightarrow> uint128 \<Rightarrow> bool" where
  "u128_eq x y \<longleftrightarrow> hi x = hi y \<and> lo x = lo y"

definition u128_greater :: "uint128 \<Rightarrow> uint128 \<Rightarrow> bool" where
  "u128_greater x y \<longleftrightarrow> (if hi x \<noteq> hi y then hi x > hi y else lo x > lo y)"

definition u128_or :: "uint128 \<Rightarrow> uint128 \<Rightarrow> uint128" where
  "u128_or x y = u128 (hi x OR hi y) (lo x OR lo y)"

definition u128_and :: "uint128 \<Rightarrow> uint128 \<Rightarrow> uint128" where
  "u128_and x y = u128 (hi x AND hi y) (lo x AND lo y)"

definition u128_not :: "uint128 \<Rightarrow> uint128" where
  "u128_not x = u128 (NOT (hi x)) (NOT (lo x))"

definition u128_add :: "uint128 \<Rightarrow> uint128 \<Rightarrow> uint128 option" where
  "u128_add x y =
     (let new_lo = lo x + lo y;
          new_hi = hi x + hi y + (if new_lo < lo x then 1 else 0)
      in if new_hi \<ge> hi x then Some (u128 new_hi new_lo) else None)"

definition u128_add64 :: "uint128 \<Rightarrow> 64 word \<Rightarrow> uint128" where
  "u128_add64 x n =
     (let l = lo x + n in u128 (hi x + (if l < n then 1 else 0)) l)"

definition u128_mult :: "uint128 \<Rightarrow> 32 word \<Rightarrow> uint128 option" where
  "u128_mult x r =
     (if hi x = 0 then
        let h = drop_bit 32 (lo x) * ucast r;
            l = (lo x AND ucast (NOT 0 :: 32 word)) * ucast r;
            new_lo = push_bit 32 h + l
        in Some (u128 (drop_bit 32 h + (if new_lo < l then 1 else 0)) new_lo)
      else None)"

definition u128_sub64 :: "uint128 \<Rightarrow> 64 word \<Rightarrow> uint128" where
  "u128_sub64 x n = u128 (hi x - (if lo x < n then 1 else 0)) (lo x - n)"

text \<open>The shifts; the recursive call is on a smaller amount. A shift by 0 shifts a half by its whole width.\<close>

function u128_shr :: "uint128 \<Rightarrow> nat \<Rightarrow> uint128 option" where
  "u128_shr x s =
     (if s = 64 then Some (u128 0 (hi x))
      else if s > 64 then u128_shr (u128 0 (hi x)) (s - 64)
      else if s = 0 then None
      else Some (u128 (drop_bit s (hi x)) (push_bit (64 - s) (hi x) OR drop_bit s (lo x))))"
  by pat_completeness auto
termination by (relation "measure snd") auto

function u128_shl :: "uint128 \<Rightarrow> nat \<Rightarrow> uint128 option" where
  "u128_shl x s =
     (if s = 64 then Some (u128 (lo x) 0)
      else if s > 64 then u128_shl (u128 (lo x) 0) (s - 64)
      else if s = 0 then None
      else Some (u128 (push_bit s (hi x) OR drop_bit (64 - s) (lo x)) (push_bit s (lo x))))"
  by pat_completeness auto
termination by (relation "measure snd") auto

declare u128_shr.simps [simp del] u128_shl.simps [simp del]

section \<open>The value\<close>

lemma u128_simps [simp]: "lo (u128 h l) = l" "hi (u128 h l) = h"
  by (simp_all add: u128_def)

lemma bit_u128_of: "bit (u128_of x) i \<longleftrightarrow> (if i < 64 then bit (lo x) i else bit (hi x) (i - 64))"
  by (auto simp: u128_of_def bit_simps dest: bit_imp_le_length)

lemma unat_64: "unat (w :: 64 word) < 2 ^ 64"
  using unsigned_less [of w, where 'a = nat] by simp

lemma unat_u128_of: "unat (u128_of x) = 2 ^ 64 * unat (hi x) + unat (lo x)"
proof -
  have "u128_of x = push_bit 64 (ucast (hi x)) + ucast (lo x)"
    unfolding u128_of_def by (rule disjunctive_add [symmetric]) (auto simp: bit_simps dest: bit_imp_le_length)
  moreover have "unat (push_bit 64 (ucast (hi x)) :: 128 word) = 2 ^ 64 * unat (hi x)"
    using unat_64 [of "hi x"] by (simp add: push_bit_eq_mult unat_word_ariths unsigned_ucast_eq take_bit_eq_mod)
  ultimately show ?thesis
    using unat_64 [of "hi x"] unat_64 [of "lo x"] by (simp add: unat_word_ariths unsigned_ucast_eq take_bit_eq_mod)
qed

lemma u128_of_inj: "u128_of x = u128_of y \<longleftrightarrow> hi x = hi y \<and> lo x = lo y"
proof
  assume "u128_of x = u128_of y"
  then have b: "bit (u128_of x) i = bit (u128_of y) i" for i by simp
  have "bit (lo x) i = bit (lo y) i" if "i < 64" for i using b [of i] that by (simp add: bit_u128_of)
  moreover have "bit (hi x) i = bit (hi y) i" if "i < 64" for i using b [of "i + 64"] that by (simp add: bit_u128_of)
  ultimately show "hi x = hi y \<and> lo x = lo y" by (auto intro!: bit_word_eqI)
qed (simp add: u128_of_def)

lemma word_eq_by_unat: "unat v = unat w \<Longrightarrow> v = w"
  by (rule unsigned_word_eqI)

lemma u128_greater_value: "u128_greater x y \<longleftrightarrow> u128_of x > u128_of y"
proof (cases "hi x = hi y")
  case False
  then have "unat (hi x) \<noteq> unat (hi y)" using word_eq_by_unat by blast
  moreover have "2 ^ 64 * unat (hi v) + unat (lo v) < 2 ^ 64 * unat (hi w) + unat (lo w)" if "unat (hi v) < unat (hi w)" for v w
    using that unat_64 [of "lo v"] by (simp add: less_eq_Suc_le flip: Suc_le_eq)
  ultimately have "unat (hi y) < unat (hi x) \<longleftrightarrow> 2 ^ 64 * unat (hi y) + unat (lo y) < 2 ^ 64 * unat (hi x) + unat (lo x)"
    by (metis less_asym' linorder_neqE_nat)
  then show ?thesis using False by (simp add: u128_greater_def word_less_nat_alt unat_u128_of)
qed (simp add: u128_greater_def word_less_nat_alt unat_u128_of)

lemma u128_bits_value:
  "u128_of (u128_or x y) = u128_of x OR u128_of y"
  "u128_of (u128_and x y) = u128_of x AND u128_of y"
  "u128_of (u128_not x) = NOT (u128_of x)"
  by (auto intro!: bit_word_eqI simp: u128_or_def u128_and_def u128_not_def bit_simps bit_u128_of)

lemma top_half:
  fixes h l n :: nat
  assumes "2 ^ 128 \<le> 2 ^ 64 * h + l + n" "h < 2 ^ 64" "l < 2 ^ 64" "n < 2 ^ 64"
  shows "h = 2 ^ 64 - 1"
proof -
  have "2 ^ 64 * (2 ^ 64 :: nat) < 2 ^ 64 * (h + 2)" using assms by simp
  then have "2 ^ 64 < h + 2" by simp
  then show ?thesis using assms(2) by simp
qed

lemma u128_add64_value: "u128_of (u128_add64 x n) = u128_of x + ucast n"
proof (rule word_eq_by_unat)
  have c: "(lo x + n < n) \<longleftrightarrow> 2 ^ 64 \<le> unat (lo x) + unat n"
    using unat_64 [of "lo x"] unat_64 [of n] by (auto simp: word_less_nat_alt unat_plus_if')
  note u = unat_64 [of "hi x"] unat_64 [of "lo x"] unat_64 [of n]
  show "unat (u128_of (u128_add64 x n)) = unat (u128_of x + ucast n)"
  proof (cases "2 ^ 128 \<le> 2 ^ 64 * unat (hi x) + unat (lo x) + unat n")
    case True
    note h = top_half [OF True u]
    then show ?thesis
      using u(2,3) c True by (simp add: u128_add64_def Let_def unat_u128_of unat_plus_if' unsigned_ucast_eq take_bit_eq_mod)
  next
    case False
    then show ?thesis
      using u c by (auto simp: u128_add64_def Let_def unat_u128_of unat_plus_if' unsigned_ucast_eq take_bit_eq_mod)
  qed
qed

lemma u128_sub64_value: "u128_of (u128_sub64 x n) = u128_of x - ucast n"
proof (rule word_eq_by_unat)
  show "unat (u128_of (u128_sub64 x n)) = unat (u128_of x - ucast n)"
    using unat_64 [of "lo x"] unat_64 [of n] unat_64 [of "hi x"]
    by (auto simp: u128_sub64_def Let_def unat_u128_of unat_sub_if' unsigned_ucast_eq take_bit_eq_mod word_less_nat_alt)
qed

lemma big_halves: "l < 2 ^ 64 \<Longrightarrow> 2 ^ 128 \<le> 2 ^ 64 * h + l \<longleftrightarrow> 2 ^ 64 \<le> (h :: nat)"
proof
  assume "l < 2 ^ 64" "2 ^ 128 \<le> 2 ^ 64 * h + l"
  then have "2 ^ 64 * 2 ^ 64 < 2 ^ 64 * (h + 1)" by simp
  then show "2 ^ 64 \<le> h" by simp
qed simp

lemma halves_mod:
  fixes h l :: nat
  assumes "l < 2 ^ 64"
  shows "2 ^ 64 * (h mod 2 ^ 64) + l = (2 ^ 64 * h + l) mod 2 ^ 128"
proof -
  have "(2 ^ 64 * h + l) mod (2 ^ 64 * 2 ^ 64) = 2 ^ 64 * ((2 ^ 64 * h + l) div 2 ^ 64 mod 2 ^ 64) + (2 ^ 64 * h + l) mod 2 ^ 64"
    by (rule mod_mult2_eq)
  moreover have "(2 ^ 64 * h + l) div 2 ^ 64 = h" "(2 ^ 64 * h + l) mod 2 ^ 64 = l" using assms by simp_all
  ultimately show ?thesis by simp
qed

lemma halves_add:
  fixes l :: nat
  assumes "l + 2 ^ 64 * c = a + b"
  shows "2 ^ 64 * (h + k + c) + l = 2 ^ 64 * h + a + (2 ^ 64 * k + b)"
  using assms by simp

text \<open>The sum of the halves, with the carry, is the sum modulo the width, whether the assertion holds or not.\<close>

lemma u128_halves_add:
  fixes x y :: uint128
  defines "l \<equiv> lo x + lo y"
  shows "u128_of (u128 (hi x + hi y + (if l < lo x then 1 else 0)) l) = u128_of x + u128_of y"
proof (rule word_eq_by_unat)
  define c :: "64 word" where "c = (if l < lo x then 1 else 0)"
  have l: "unat l + 2 ^ 64 * unat c = unat (lo x) + unat (lo y)"
    using unat_64 [of "lo x"] unat_64 [of "lo y"] by (auto simp: c_def l_def word_less_nat_alt unat_plus_if')
  have h: "unat (hi x + hi y + c) = (unat (hi x) + unat (hi y) + unat c) mod 2 ^ 64"
    unfolding unat_word_ariths by (simp add: mod_simps)
  have s: "unat (u128_of x + u128_of y) = (unat (u128_of x) + unat (u128_of y)) mod 2 ^ 128"
    by (simp add: unat_word_ariths)
  have "unat (u128_of (u128 (hi x + hi y + c) l)) = 2 ^ 64 * ((unat (hi x) + unat (hi y) + unat c) mod 2 ^ 64) + unat l"
    unfolding unat_u128_of u128_simps h ..
  also have "\<dots> = unat (u128_of x + u128_of y)"
    unfolding s halves_mod [OF unat_64] unat_u128_of [of x] unat_u128_of [of y] halves_add [OF l] ..
  finally show "unat (u128_of (u128 (hi x + hi y + (if l < lo x then 1 else 0)) l)) = unat (u128_of x + u128_of y)"
    unfolding c_def .
qed

lemma wrapped_less: "k < W \<Longrightarrow> a \<le> (if a + k < W then a + k else a + k - W) \<longleftrightarrow> a + k < (W :: nat)"
  by simp linarith

lemma u128_add_some: "u128_add x y = Some z \<Longrightarrow> u128_of z = u128_of x + u128_of y"
  using u128_halves_add [of x y] by (auto simp: u128_add_def Let_def split: if_splits)

text \<open>The assertion sees an overflow of the high half, except when the carry makes the right operand wrap to 0.\<close>

lemma u128_add_None:
  "u128_add x y = None \<longleftrightarrow> 2 ^ 128 \<le> unat (u128_of x) + unat (u128_of y) \<and>
    \<not> (unat (hi y) = 2 ^ 64 - 1 \<and> 2 ^ 64 \<le> unat (lo x) + unat (lo y))"
proof -
  define c :: "64 word" where "c = (if lo x + lo y < lo x then 1 else 0)"
  note u = unat_64 [of "hi x"] unat_64 [of "lo x"] unat_64 [of "hi y"] unat_64 [of "lo y"]
  have c1: "unat c = (if 2 ^ 64 \<le> unat (lo x) + unat (lo y) then 1 else 0)"
    using u(2,4) by (auto simp: c_def word_less_nat_alt unat_plus_if')
  have l: "unat (lo x + lo y) + 2 ^ 64 * unat c = unat (lo x) + unat (lo y)"
    using u(2,4) by (auto simp: c_def word_less_nat_alt unat_plus_if')
  have "unat (u128_of x) + unat (u128_of y) = 2 ^ 64 * (unat (hi x) + unat (hi y) + unat c) + unat (lo x + lo y)"
    unfolding unat_u128_of by (rule halves_add [OF l, symmetric])
  then have big: "2 ^ 128 \<le> unat (u128_of x) + unat (u128_of y) \<longleftrightarrow> 2 ^ 64 \<le> unat (hi x) + unat (hi y) + unat c"
    using big_halves [OF unat_64] by (simp only:)
  have "u128_add x y = None \<longleftrightarrow> \<not> unat (hi x) \<le> unat (hi x + (hi y + c))"
    by (simp add: u128_add_def Let_def c_def word_le_nat_alt add.assoc)
  also have "\<dots> \<longleftrightarrow> 2 ^ 64 \<le> unat (hi x) + unat (hi y) + unat c \<and> \<not> (unat (hi y) = 2 ^ 64 - 1 \<and> unat c = 1)"
  proof (cases "unat (hi y) = 2 ^ 64 - 1 \<and> unat c = 1")
    case True
    then have "unat (hi y + c) = 0" by (simp add: unat_plus_if')
    then have "hi y + c = 0" by (simp add: unat_eq_zero)
    then show ?thesis using True by simp
  next
    case False
    then have "unat (hi y + c) = unat (hi y) + unat c" using u(3) c1 by (auto simp: unat_plus_if' split: if_splits)
    note k = this
    have lt: "unat (hi y) + unat c < 2 ^ 64" using k unat_64 [of "hi y + c"] by simp
    have "unat (hi x + (hi y + c)) =
      (if unat (hi x) + unat (hi y + c) < 2 ^ 64 then unat (hi x) + unat (hi y + c) else unat (hi x) + unat (hi y + c) - 2 ^ 64)"
      unfolding unat_plus_if' [of "hi x"] by simp
    then have "unat (hi x) \<le> unat (hi x + (hi y + c)) \<longleftrightarrow> unat (hi x) + (unat (hi y) + unat c) < 2 ^ 64"
      unfolding k by (simp only: wrapped_less [OF lt])
    then show ?thesis using False by (simp only: add.assoc linorder_not_le linorder_not_less) blast
  qed
  finally show ?thesis unfolding big c1 by auto
qed

lemma unat_32: "unat (w :: 32 word) < 2 ^ 32"
  using unsigned_less [of w, where 'a = nat] by simp

lemma unat_mult_32:
  fixes v w :: "64 word"
  assumes "unat v < 2 ^ 32" "unat w < 2 ^ 32"
  shows "unat (v * w) = unat v * unat w"
proof -
  have "unat v * unat w < 2 ^ 32 * 2 ^ 32" using assms by (intro mult_strict_mono) auto
  then show ?thesis by (simp add: unat_word_ariths)
qed

lemma unat_ucast_32: "unat (ucast (w :: 32 word) :: 64 word) = unat w"
  using unat_32 [of w] by (simp add: unsigned_ucast_eq take_bit_eq_mod)

lemma unat_drop_32: "unat (drop_bit 32 (w :: 64 word)) = unat w div 2 ^ 32"
proof -
  have "drop_bit 32 (unat w) < 2 ^ 64" using unat_64 [of w] by (simp add: drop_bit_eq_div)
  then have "take_bit LENGTH(64) (drop_bit 32 (unat w)) = drop_bit 32 (unat w)"
    by (intro take_bit_nat_eq_self) simp
  moreover have "unat (drop_bit 32 w) = drop_bit 32 (take_bit LENGTH(64) (unat w))" by (rule unsigned_drop_bit_eq)
  moreover have "take_bit LENGTH(64) (unat w) = unat w" using unat_64 [of w] by (intro take_bit_nat_eq_self) simp
  ultimately show ?thesis by (simp only: drop_bit_eq_div)
qed

lemma unat_push_32: "unat (push_bit 32 (w :: 64 word)) = 2 ^ 32 * unat w mod 2 ^ 64"
  by (simp add: push_bit_eq_mult unat_word_ariths mult.commute)

lemma u128_mult_value:
  assumes "hi x = 0"
  shows "\<exists>z. u128_mult x r = Some z \<and> u128_of z = u128_of x * ucast r"
proof -
  define a b where "a = unat (drop_bit 32 (lo x))" and "b = unat (lo x AND ucast (NOT 0 :: 32 word))"
  have ab: "a = unat (lo x) div 2 ^ 32" "b = unat (lo x) mod 2 ^ 32"
  proof -
    show "a = unat (lo x) div 2 ^ 32" unfolding a_def by (rule unat_drop_32)
    have "ucast (NOT 0 :: 32 word) = (mask 32 :: 64 word)" by (rule bit_word_eqI) (auto simp: bit_simps)
    then have "lo x AND ucast (NOT 0 :: 32 word) = take_bit 32 (lo x)" by (simp only: take_bit_eq_mask)
    moreover have "unat (take_bit 32 (lo x)) = take_bit 32 (unat (lo x))" by (rule unsigned_take_bit_eq)
    ultimately show "b = unat (lo x) mod 2 ^ 32" unfolding b_def by (simp only: take_bit_eq_mod)
  qed
  have ab32: "a < 2 ^ 32" "b < 2 ^ 32" using unat_64 [of "lo x"] by (auto simp: ab)
  let ?h = "drop_bit 32 (lo x) * ucast r" and ?l = "(lo x AND ucast (NOT 0 :: 32 word)) * ucast r"
  have hl: "unat ?h = a * unat r" "unat ?l = b * unat r"
    using ab32 unat_32 [of r] by (simp_all add: unat_mult_32 unat_ucast_32 a_def b_def)
  define hh hm where "hh = unat ?h div 2 ^ 32" and "hm = unat ?h mod 2 ^ 32"
  have hs: "unat ?h = 2 ^ 32 * hh + hm" "hm < 2 ^ 32" by (simp_all add: hh_def hm_def)
  have sh: "unat (push_bit 32 ?h) = 2 ^ 32 * hm"
  proof -
    have "unat (push_bit 32 ?h) = (2 ^ 32 * unat ?h) mod 2 ^ 64" by (rule unat_push_32)
    also have "\<dots> = (2 ^ 32 * hm + 2 ^ 64 * hh) mod 2 ^ 64" unfolding hs(1) by (simp only: distrib_left) simp
    also have "\<dots> = 2 ^ 32 * hm" using hs(2) by simp
    finally show ?thesis .
  qed
  have dh: "unat (drop_bit 32 ?h) = hh" unfolding hh_def by (rule unat_drop_32)
  let ?n = "push_bit 32 ?h + ?l"
  define c :: "64 word" where "c = (if ?n < ?l then 1 else 0)"
  have n: "unat ?n + 2 ^ 64 * unat c = 2 ^ 32 * hm + unat ?l"
    using unat_64 [of "push_bit 32 ?h"] unat_64 [of ?l] sh by (auto simp: c_def word_less_nat_alt unat_plus_if')
  have val: "2 ^ 64 * (hh + unat c) + unat ?n = unat (lo x) * unat r"
  proof -
    have "unat (lo x) = 2 ^ 32 * a + b" by (simp add: ab)
    then have "unat (lo x) * unat r = 2 ^ 32 * unat ?h + unat ?l" unfolding hl by (simp add: distrib_right)
    also have "\<dots> = 2 ^ 64 * hh + (2 ^ 32 * hm + unat ?l)" unfolding hs(1) by (simp add: algebra_simps)
    finally show ?thesis using n by (simp add: algebra_simps)
  qed
  have "unat (lo x) * unat r < 2 ^ 64 * 2 ^ 32" using unat_64 [of "lo x"] unat_32 [of r] by (intro mult_strict_mono) auto
  then have "2 ^ 64 * (hh + unat c) < 2 ^ 64 * 2 ^ 32" using val by linarith
  then have hc: "hh + unat c < 2 ^ 32" by simp
  then have "unat (drop_bit 32 ?h + c) = hh + unat c" using dh by (simp add: unat_plus_if')
  then have "unat (u128_of (u128 (drop_bit 32 ?h + c) ?n)) = unat (lo x) * unat r" using val by (simp add: unat_u128_of)
  also have "\<dots> = unat (u128_of x * ucast r)"
    using \<open>unat (lo x) * unat r < 2 ^ 64 * 2 ^ 32\<close> unat_32 [of r] assms
    by (simp add: unat_word_ariths unat_u128_of unsigned_ucast_eq take_bit_eq_mod)
  finally have "u128_of (u128 (drop_bit 32 ?h + c) ?n) = u128_of x * ucast r" by (rule word_eq_by_unat)
  then show ?thesis using assms by (simp add: u128_mult_def Let_def c_def)
qed

lemma u128_shr_value: "0 < s \<Longrightarrow> \<exists>z. u128_shr x s = Some z \<and> u128_of z = drop_bit s (u128_of x)"
proof (induction x s rule: u128_shr.induct)
  case (1 x s)
  consider "s = 64" | "s > 64" | "0 < s" "s < 64" using 1(2) by linarith
  then show ?case
  proof cases
    case 1
    have "u128_of (u128 0 (hi x)) = drop_bit 64 (u128_of x)"
      by (rule bit_word_eqI) (auto simp: bit_drop_bit_eq bit_u128_of dest: bit_imp_le_length)
    then show ?thesis using 1 by (simp add: u128_shr.simps [of x])
  next
    case 2
    then obtain z where z: "u128_shr (u128 0 (hi x)) (s - 64) = Some z" "u128_of z = drop_bit (s - 64) (u128_of (u128 0 (hi x)))"
      using 1(1) by auto
    have "drop_bit (s - 64) (u128_of (u128 0 (hi x))) = drop_bit s (u128_of x)"
    proof (rule bit_word_eqI)
      fix n
      have "bit (hi x) (s + n - 64) \<Longrightarrow> s + n - 64 < 64" using bit_imp_le_length by fastforce
      then show "bit (drop_bit (s - 64) (u128_of (u128 0 (hi x)))) n = bit (drop_bit s (u128_of x)) n"
        using 2 by (auto simp: bit_drop_bit_eq bit_u128_of)
    qed
    then show ?thesis using 2 z by (simp add: u128_shr.simps [of x])
  next
    case 3
    have "u128_of (u128 (drop_bit s (hi x)) (push_bit (64 - s) (hi x) OR drop_bit s (lo x))) = drop_bit s (u128_of x)"
      (is "?l = ?r")
    proof (rule bit_word_eqI)
      fix n
      have "\<not> bit (lo x) (s + n)" if "\<not> s + n < 64" using that bit_imp_le_length by fastforce
      moreover have "n - (64 - s) = s + n - 64" if "\<not> s + n < 64" using 3 that by linarith
      moreover have "s + (n - 64) = s + n - 64" if "\<not> n < 64" using that by linarith
      ultimately show "bit ?l n = bit ?r n"
        using 3 by (cases "s + n < 64"; cases "n < 64") (auto simp: bit_or_iff bit_push_bit_iff bit_drop_bit_eq bit_u128_of)
    qed
    then show ?thesis using 3 by (simp add: u128_shr.simps [of x])
  qed
qed

lemma u128_shl_value: "0 < s \<Longrightarrow> \<exists>z. u128_shl x s = Some z \<and> u128_of z = push_bit s (u128_of x)"
proof (induction x s rule: u128_shl.induct)
  case (1 x s)
  consider "s = 64" | "s > 64" | "0 < s" "s < 64" using 1(2) by linarith
  then show ?case
  proof cases
    case 1
    have "u128_of (u128 (lo x) 0) = push_bit 64 (u128_of x)"
      by (rule bit_word_eqI) (auto simp: bit_simps bit_u128_of)
    then show ?thesis using 1 by (simp add: u128_shl.simps [of x])
  next
    case 2
    then obtain z where z: "u128_shl (u128 (lo x) 0) (s - 64) = Some z" "u128_of z = push_bit (s - 64) (u128_of (u128 (lo x) 0))"
      using 1(1) by auto
    have "push_bit (s - 64) (u128_of (u128 (lo x) 0)) = push_bit s (u128_of x)"
    proof (rule bit_word_eqI)
      fix n assume "n < LENGTH(128)"
      then show "bit (push_bit (s - 64) (u128_of (u128 (lo x) 0))) n = bit (push_bit s (u128_of x)) n"
        using 2 by (cases "s \<le> n") (auto simp: bit_push_bit_iff bit_u128_of)
    qed
    then show ?thesis using 2 z by (simp add: u128_shl.simps [of x])
  next
    case 3
    have "u128_of (u128 (push_bit s (hi x) OR drop_bit (64 - s) (lo x)) (push_bit s (lo x))) = push_bit s (u128_of x)"
      (is "?l = ?r")
    proof (rule bit_word_eqI)
      fix n assume "n < LENGTH(128)"
      moreover have "\<not> bit (lo x) (64 - s + (n - 64))" if "64 \<le> n - s" using that bit_imp_le_length by fastforce
      moreover have "64 - s + (n - 64) = n - s" if "64 \<le> n" using 3 that by linarith
      ultimately show "bit ?l n = bit ?r n"
        using 3 by (cases "n < 64"; cases "n - s < 64") (auto simp: bit_or_iff bit_push_bit_iff bit_drop_bit_eq bit_u128_of add.commute)
    qed
    then show ?thesis using 3 by (simp add: u128_shl.simps [of x])
  qed
qed

section \<open>Equivalence with 128-bit words\<close>

text \<open>
  C9: Read as one 128-bit number, the pair of halves is compared, combined bit by bit, shifted (by
  any positive amount), multiplied by 32 bits (the high half being 0), and added to and subtracted from as a machine word of
  that width; an addition that returns a value returns the sum modulo the width. A shift by 0 has no defined result. The
  assertion of the addition fails exactly on an overflow, with one exception: when the high half of the right operand is all
  ones and the low halves carry, the overflow is not seen.
\<close>

theorem u128_is_word_arithmetic:
  "(u128_eq x y \<longleftrightarrow> u128_of x = u128_of y) \<and> (u128_greater x y \<longleftrightarrow> u128_of y < u128_of x) \<and>
   u128_of (u128_or x y) = u128_of x OR u128_of y \<and> u128_of (u128_and x y) = u128_of x AND u128_of y \<and>
   u128_of (u128_not x) = NOT (u128_of x) \<and>
   u128_of (u128_add64 x n) = u128_of x + ucast n \<and> u128_of (u128_sub64 x n) = u128_of x - ucast n \<and>
   map_option u128_of (u128_add x y) =
     (if 2 ^ 128 \<le> unat (u128_of x) + unat (u128_of y) \<and> \<not> (unat (hi y) = 2 ^ 64 - 1 \<and> 2 ^ 64 \<le> unat (lo x) + unat (lo y))
      then None else Some (u128_of x + u128_of y)) \<and>
   map_option u128_of (u128_mult x r) = (if hi x = 0 then Some (u128_of x * ucast r) else None) \<and>
   map_option u128_of (u128_shr x s) = (if s = 0 then None else Some (drop_bit s (u128_of x))) \<and>
   map_option u128_of (u128_shl x s) = (if s = 0 then None else Some (push_bit s (u128_of x)))"
proof (intro conjI)
  show "map_option u128_of (u128_add x y) =
     (if 2 ^ 128 \<le> unat (u128_of x) + unat (u128_of y) \<and> \<not> (unat (hi y) = 2 ^ 64 - 1 \<and> 2 ^ 64 \<le> unat (lo x) + unat (lo y))
      then None else Some (u128_of x + u128_of y))"
    unfolding u128_add_None [symmetric] by (auto dest: u128_add_some)
  show "map_option u128_of (u128_mult x r) = (if hi x = 0 then Some (u128_of x * ucast r) else None)"
    using u128_mult_value [of x r] by (cases "hi x = 0") (auto simp: u128_mult_def)
  show "map_option u128_of (u128_shr x s) = (if s = 0 then None else Some (drop_bit s (u128_of x)))"
    using u128_shr_value [of s x] by (cases "s = 0") (auto simp: u128_shr.simps [of x 0])
  show "map_option u128_of (u128_shl x s) = (if s = 0 then None else Some (push_bit s (u128_of x)))"
    using u128_shl_value [of s x] by (cases "s = 0") (auto simp: u128_shl.simps [of x 0])
qed (auto simp: u128_eq_def u128_of_inj u128_greater_value u128_bits_value u128_add64_value u128_sub64_value)

end
