(* ===== verification/Fmt_Bigint.thy ===== *)
theory Fmt_Bigint
  imports Log_Prelude
begin

text \<open>
  \<open>bigint\<close> of \<^verbatim>\<open>base/fmt/format.h\<close>: natural numbers of any size for the exact printing of floating-point numbers. A number is
  a list of 32-bit words, the least significant first, and the number of zero words below them. The lemmas give the value
  of every operation; \<open>None\<close> is an assertion that fails or an access outside the words. The storage is that of \<open>Fmt_Buffer\<close>,
  here a list; the words that a growing \<open>resize\<close> leaves uninitialised are written before they are read and are 0 here.
  The exponent and the sizes are natural numbers, no operation makes one negative.
\<close>

type_synonym bigit = "32 word"

record bigint =
  bigits :: "bigit list"
  bexp :: nat

section \<open>Sizes and comparison\<close>

definition num_bigits :: "bigint \<Rightarrow> nat" where
  "num_bigits b = length (bigits b) + bexp b"

function compare_loop :: "bigit list \<Rightarrow> bigit list \<Rightarrow> int \<Rightarrow> int \<Rightarrow> int \<Rightarrow> int" where
  "compare_loop lhs rhs i j e =
     (if i \<ge> e then
        (let lhs_bigit = lhs ! nat i; rhs_bigit = rhs ! nat j
         in if lhs_bigit \<noteq> rhs_bigit then (if lhs_bigit > rhs_bigit then 1 else -1) else compare_loop lhs rhs (i - 1) (j - 1) e)
      else if i \<noteq> j then (if i > j then 1 else -1)
      else 0)"
  by pat_completeness auto
termination by (relation "measure (\<lambda>(_, _, i, _, e). nat (i - e + 1))") auto

declare compare_loop.simps [simp del]

definition compare_big :: "bigint \<Rightarrow> bigint \<Rightarrow> int" where
  "compare_big lhs rhs =
     (if num_bigits lhs \<noteq> num_bigits rhs then (if num_bigits lhs > num_bigits rhs then 1 else -1)
      else
        let i = int (length (bigits lhs)) - 1; j = int (length (bigits rhs)) - 1; e = (if i - j < 0 then 0 else i - j)
        in compare_loop (bigits lhs) (bigits rhs) i j e)"

text \<open>\<open>add_compare\<close>: the sum of two numbers against a third, word by word from the top, without computing the sum.\<close>

definition get_bigit :: "bigint \<Rightarrow> nat \<Rightarrow> bigit" where
  "get_bigit n i = (if i \<ge> bexp n \<and> i < num_bigits n then bigits n ! (i - bexp n) else 0)"

text \<open>\<open>add_compare_loop \<dots> k borrow\<close> is the loop with \<open>i = k - 1\<close>.\<close>

fun add_compare_loop :: "bigint \<Rightarrow> bigint \<Rightarrow> bigint \<Rightarrow> nat \<Rightarrow> nat \<Rightarrow> 64 word \<Rightarrow> int" where
  "add_compare_loop lhs1 lhs2 rhs min_exp 0 borrow = (if borrow \<noteq> 0 then -1 else 0)"
| "add_compare_loop lhs1 lhs2 rhs min_exp (Suc i) borrow =
     (if i \<ge> min_exp then
        (let sum = (ucast (get_bigit lhs1 i) :: 64 word) + ucast (get_bigit lhs2 i);
             rhs_bigit = (ucast (get_bigit rhs i) :: 64 word)
         in if sum > rhs_bigit + borrow then 1
            else let borrow = rhs_bigit + borrow - sum
              in if borrow > 1 then -1 else add_compare_loop lhs1 lhs2 rhs min_exp i (push_bit 32 borrow))
      else if borrow \<noteq> 0 then -1 else 0)"

definition add_compare :: "bigint \<Rightarrow> bigint \<Rightarrow> bigint \<Rightarrow> int" where
  "add_compare lhs1 lhs2 rhs =
     (let max_lhs_bigits = max (num_bigits lhs1) (num_bigits lhs2);
          num_rhs_bigits = num_bigits rhs
      in if max_lhs_bigits + 1 < num_rhs_bigits then -1
         else if max_lhs_bigits > num_rhs_bigits then 1
         else add_compare_loop lhs1 lhs2 rhs (min (min (bexp lhs1) (bexp lhs2)) (bexp rhs)) num_rhs_bigits 0)"

section \<open>Subtraction\<close>

definition subtract_bigits :: "nat \<Rightarrow> bigit \<Rightarrow> bigit \<Rightarrow> bigit list \<Rightarrow> (bigit list \<times> bigit) option" where
  "subtract_bigits index other borrow bs =
     (if index < length bs then
        let result = (ucast (bs ! index) :: 64 word) - ucast other - ucast borrow
        in Some (bs[index := ucast result], ucast (drop_bit 63 result))
      else None)"

fun subtract_loop :: "nat \<Rightarrow> bigit list \<Rightarrow> bigit list \<Rightarrow> bigit \<Rightarrow> (nat \<times> bigit list \<times> bigit) option" where
  "subtract_loop i [] bs borrow = Some (i, bs, borrow)"
| "subtract_loop i (other # others) bs borrow =
     (case subtract_bigits i other borrow bs of
        None \<Rightarrow> None
      | Some (bs, borrow) \<Rightarrow> subtract_loop (Suc i) others bs borrow)"

lemma subtract_bigits_length: "subtract_bigits i x c bs = Some (bs', c') \<Longrightarrow> i < length bs \<and> length bs' = length bs"
  by (auto simp: subtract_bigits_def Let_def split: if_splits)

function borrow_loop :: "nat \<Rightarrow> bigit list \<Rightarrow> bigit \<Rightarrow> bigit list option" where
  "borrow_loop i bs borrow =
     (if borrow > 0 then
        (case subtract_bigits i 0 borrow bs of
           None \<Rightarrow> None
         | Some (bs, borrow) \<Rightarrow> borrow_loop (Suc i) bs borrow)
      else Some bs)"
  by pat_completeness auto
termination
  by (relation "measure (\<lambda>(i, bs, _). length bs - i)") (auto dest!: subtract_bigits_length)

declare borrow_loop.simps [simp del]

fun top_bigit :: "nat \<Rightarrow> bigit list \<Rightarrow> nat" where
  "top_bigit 0 bs = 0"
| "top_bigit (Suc n) bs = (if bs ! Suc n = 0 then top_bigit n bs else Suc n)"

definition remove_leading_zeros :: "bigit list \<Rightarrow> bigit list" where
  "remove_leading_zeros bs = (if bs = [] then [] else take (top_bigit (length bs - 1) bs + 1) bs)"

definition subtract_aligned :: "bigint \<Rightarrow> bigint \<Rightarrow> bigint option" where
  "subtract_aligned this other =
     (if bexp other \<ge> bexp this \<and> compare_big this other \<ge> 0 then
        (case subtract_loop (bexp other - bexp this) (bigits other) (bigits this) 0 of
           None \<Rightarrow> None
         | Some (i, bs, borrow) \<Rightarrow>
             map_option (\<lambda>bs. this\<lparr>bigits := remove_leading_zeros bs\<rparr>) (borrow_loop i bs borrow))
      else None)"

section \<open>Products and shifts\<close>

fun multiply_loop :: "64 word \<Rightarrow> bigit list \<Rightarrow> bigit \<Rightarrow> bigit list \<times> bigit" where
  "multiply_loop wide_value [] carry = ([], carry)"
| "multiply_loop wide_value (b # bs) carry =
     (let result = ucast b * wide_value + ucast carry;
          (bs, carry) = multiply_loop wide_value bs (ucast (drop_bit 32 result))
      in (ucast result # bs, carry))"

definition multiply32 :: "32 word \<Rightarrow> bigint \<Rightarrow> bigint" where
  "multiply32 v b =
     (let (bs, carry) = multiply_loop (ucast v) (bigits b) 0
      in b\<lparr>bigits := bs @ (if carry \<noteq> 0 then [carry] else [])\<rparr>)"

text \<open>The factor of 64 or 128 bits (\<open>UInt\<close>, here the length of the word), taken as two halves.\<close>

fun multiply_wide_loop :: "nat \<Rightarrow> 'u::len word \<Rightarrow> 'u word \<Rightarrow> bigit list \<Rightarrow> 'u word \<Rightarrow> bigit list \<times> 'u word" where
  "multiply_wide_loop shift lower upper [] carry = ([], carry)"
| "multiply_wide_loop shift lower upper (b # bs) carry =
     (let result = lower * ucast b + ucast (ucast carry :: bigit);
          (bs, carry) = multiply_wide_loop shift lower upper bs
            (push_bit shift (upper * ucast b) + drop_bit 32 result + drop_bit 32 carry)
      in (ucast result # bs, carry))"

lemma drop_32_smaller: "w \<noteq> 0 \<Longrightarrow> unat (drop_bit 32 (w :: 'u::len word)) < unat w"
proof -
  assume "w \<noteq> 0"
  then have "0 < unat w" by (simp add: unat_gt_0)
  moreover have "unat (drop_bit 32 w) = unat w div 2 ^ 32"
    using unat_drop_bit_eq [of 32 w] by (simp only: drop_bit_eq_div [where 'a = nat])
  ultimately show ?thesis by simp
qed

function push_carry :: "'u::len word \<Rightarrow> bigit list" where
  "push_carry carry = (if carry \<noteq> 0 then ucast carry # push_carry (drop_bit 32 carry) else [])"
  by pat_completeness auto
termination by (relation "measure unat") (auto simp: drop_32_smaller)

declare push_carry.simps [simp del]

definition multiply_wide :: "'u::len word \<Rightarrow> bigint \<Rightarrow> bigint" where
  "multiply_wide v b =
     (let half = LENGTH('u) div 2;
          (bs, carry) = multiply_wide_loop (half - 32) (take_bit half v) (drop_bit half v) (bigits b) 0
      in b\<lparr>bigits := bs @ push_carry carry\<rparr>)"

definition times32 :: "32 word \<Rightarrow> bigint \<Rightarrow> bigint option" where
  "times32 v b = (if v > 0 then Some (multiply32 v b) else None)"

definition times_wide :: "'u::len word \<Rightarrow> bigint \<Rightarrow> bigint option" where
  "times_wide v b = (if v > 0 then Some (multiply_wide v b) else None)"

function word_bigits :: "'u::len word \<Rightarrow> bigit list" where
  "word_bigits n = ucast n # (if drop_bit 32 n \<noteq> 0 then word_bigits (drop_bit 32 n) else [])"
  by pat_completeness auto
termination by (relation "measure unat") (auto intro!: drop_32_smaller)

declare word_bigits.simps [simp del]

definition assign_word :: "'u::len word \<Rightarrow> bigint" where
  "assign_word n = \<lparr>bigits = word_bigits n, bexp = 0\<rparr>"

definition set_bigint :: "'u::len word \<Rightarrow> bigint option" where
  "set_bigint n = (if n > 0 then Some (assign_word n) else None)"

fun shift_loop :: "nat \<Rightarrow> bigit list \<Rightarrow> bigit \<Rightarrow> bigit list \<times> bigit" where
  "shift_loop shift [] carry = ([], carry)"
| "shift_loop shift (b # bs) carry =
     (let (bs, c) = shift_loop shift bs (drop_bit (32 - shift) b)
      in ((push_bit shift b + carry) # bs, c))"

definition shift_left :: "nat \<Rightarrow> bigint \<Rightarrow> bigint" where
  "shift_left shift b =
     (let b = b\<lparr>bexp := bexp b + shift div 32\<rparr>; shift = shift mod 32
      in if shift = 0 then b
         else let (bs, carry) = shift_loop shift (bigits b) 0
           in b\<lparr>bigits := bs @ (if carry \<noteq> 0 then [carry] else [])\<rparr>)"

section \<open>Squares, powers of ten, division\<close>

text \<open>The inner loops of \<open>square\<close>: the products \<open>n[i] * n[j]\<close> for one \<open>i + j\<close>.\<close>

definition bigit_product :: "bigit list \<Rightarrow> nat \<Rightarrow> nat \<Rightarrow> 128 word" where
  "bigit_product n i j = ucast ((ucast (n ! i) :: 64 word) * ucast (n ! j))"

fun cross_low :: "bigit list \<Rightarrow> nat \<Rightarrow> nat \<Rightarrow> 128 word \<Rightarrow> 128 word" where
  "cross_low n i 0 acc = acc + bigit_product n i 0"
| "cross_low n i (Suc j) acc = cross_low n (Suc i) j (acc + bigit_product n i (Suc j))"

function cross_high :: "bigit list \<Rightarrow> nat \<Rightarrow> nat \<Rightarrow> 128 word \<Rightarrow> 128 word" where
  "cross_high n i j acc =
     (if i < length n then cross_high n (i + 1) (j - 1) (acc + bigit_product n i j) else acc)"
  by pat_completeness auto
termination by (relation "measure (\<lambda>(n, i, _, _). length n - i)") auto

declare cross_high.simps [simp del]

fun square_loop :: "bigit list \<Rightarrow> nat list \<Rightarrow> 128 word \<Rightarrow> bigit list" where
  "square_loop n [] acc = []"
| "square_loop n (k # ks) acc =
     (let acc = (if k < length n then cross_low n 0 k acc
                 else cross_high n (k - (length n - 1)) (length n - 1) acc)
      in ucast acc # square_loop n ks (drop_bit 32 acc))"

definition square :: "bigint \<Rightarrow> bigint" where
  "square b = \<lparr>bigits = remove_leading_zeros (square_loop (bigits b) [0..<2 * length (bigits b)] 0), bexp = bexp b * 2\<rparr>"

text \<open>The power of 10; the mask is an \<open>int\<close>, a shift past \<open>2 ^ 30\<close> is not defined.\<close>

function find_mask :: "nat \<Rightarrow> nat \<Rightarrow> nat option" where
  "find_mask e bitmask =
     (if e \<ge> bitmask then (if bitmask \<ge> 2 ^ 30 then None else if bitmask = 0 then None else find_mask e (bitmask * 2))
      else Some bitmask)"
  by pat_completeness auto
termination by (relation "measure (\<lambda>(e, bitmask). e + 1 - bitmask)") auto

declare find_mask.simps [simp del]

function power_loop :: "nat \<Rightarrow> nat \<Rightarrow> bigint \<Rightarrow> bigint option" where
  "power_loop e bitmask b =
     (if bitmask \<noteq> 0 then
        (case (if and e bitmask \<noteq> 0 then times32 5 (square b) else Some (square b)) of
           None \<Rightarrow> None
         | Some b \<Rightarrow> power_loop e (bitmask div 2) b)
      else Some b)"
  by pat_completeness auto
termination by (relation "measure (\<lambda>(_, bitmask, _). bitmask)") auto

declare power_loop.simps [simp del]

definition assign_pow10 :: "nat \<Rightarrow> bigint option" where
  "assign_pow10 e =
     (if e = 0 then set_bigint (1 :: 64 word)
      else case find_mask e 1 of
        None \<Rightarrow> None
      | Some bitmask \<Rightarrow>
          (case set_bigint (5 :: 64 word) of
             None \<Rightarrow> None
           | Some b \<Rightarrow> map_option (shift_left e) (power_loop e (bitmask div 2 div 2) b)))"

text \<open>\<open>align\<close>: the words move up from the top one, then the freed words are cleared.\<close>

fun move_up :: "nat \<Rightarrow> nat \<Rightarrow> bigit list \<Rightarrow> bigit list" where
  "move_up 0 d bs = bs"
| "move_up (Suc i) d bs = move_up i d (bs[i + d := bs ! i])"

definition align_to :: "bigint \<Rightarrow> bigint \<Rightarrow> bigint" where
  "align_to this other =
     (if bexp this \<le> bexp other then this
      else
        let exp_difference = bexp this - bexp other;
            num = length (bigits this);
            bs = move_up num exp_difference (bigits this @ replicate exp_difference 0)
        in this\<lparr>bigits := replicate exp_difference 0 @ drop exp_difference bs, bexp := bexp this - exp_difference\<rparr>)"

partial_function (option) divmod_loop :: "bigint \<Rightarrow> bigint \<Rightarrow> int \<Rightarrow> (bigint \<times> int) option" where
  "divmod_loop divisor this q =
     (case subtract_aligned this divisor of
        None \<Rightarrow> None
      | Some this \<Rightarrow>
          if compare_big this divisor \<ge> 0 then divmod_loop divisor this (q + 1) else Some (this, q + 1))"

definition divmod_assign :: "bigint \<Rightarrow> bigint \<Rightarrow> (bigint \<times> int) option" where
  "divmod_assign this divisor =
     (if compare_big this divisor < 0 then Some (this, 0)
      else if bigits divisor \<noteq> [] \<and> last (bigits divisor) \<noteq> 0 then divmod_loop divisor (align_to this divisor) 0
      else None)"

section \<open>The value of a list of words\<close>

definition bigit_base :: nat where
  "bigit_base = 2 ^ 32"

definition words_value :: "bigit list \<Rightarrow> nat" where
  "words_value bs = horner_sum unat bigit_base bs"

definition big_value :: "bigint \<Rightarrow> nat" where
  "big_value b = bigit_base ^ bexp b * words_value (bigits b)"

definition trimmed :: "bigint \<Rightarrow> bool" where
  "trimmed b \<longleftrightarrow> bigits b \<noteq> [] \<and> last (bigits b) \<noteq> 0"

lemma unat_bigit: "unat (w :: bigit) < bigit_base"
  using unsigned_less [of w, where 'a = nat] by (simp add: bigit_base_def)

lemma bigit_base_pos [simp]: "0 < bigit_base" "bigit_base \<noteq> 0"
  by (simp_all add: bigit_base_def)

lemma unat_64_less: "unat (w :: 64 word) < 2 ^ 64"
  using unsigned_less [of w, where 'a = nat] by simp

lemma words_value_simps [simp]:
  "words_value [] = 0"
  "words_value (b # bs) = unat b + bigit_base * words_value bs"
  by (simp_all add: words_value_def)

lemma words_value_append [simp]: "words_value (xs @ ys) = words_value xs + bigit_base ^ length xs * words_value ys"
  by (simp add: words_value_def horner_sum_append)

lemma words_value_zeros [simp]: "words_value (replicate n 0) = 0"
  by (induction n) simp_all

lemma words_value_less: "words_value bs < bigit_base ^ length bs"
proof (induction bs)
  case (Cons b bs)
  then have "words_value bs + 1 \<le> bigit_base ^ length bs" by simp
  then have "bigit_base * (words_value bs + 1) \<le> bigit_base * bigit_base ^ length bs" by (rule mult_le_mono2)
  then show ?case using unat_bigit [of b] by simp
qed simp

lemma words_value_take_drop: "words_value bs = words_value (take i bs) + bigit_base ^ min (length bs) i * words_value (drop i bs)"
  using words_value_append [of "take i bs" "drop i bs"] by simp

lemma words_value_Suc:
  "i < length bs \<Longrightarrow> words_value (take (Suc i) bs) = words_value (take i bs) + bigit_base ^ i * unat (bs ! i)"
  by (simp add: take_Suc_conv_app_nth)

lemma words_value_update:
  assumes "i < length bs"
  shows "words_value (bs[i := w]) + bigit_base ^ i * unat (bs ! i) = words_value bs + bigit_base ^ i * unat w"
proof -
  have "bs = take i bs @ bs ! i # drop (Suc i) bs" using assms by (rule id_take_nth_drop)
  moreover have "bs[i := w] = take i bs @ w # drop (Suc i) bs" using assms by (rule upd_conv_take_nth_drop)
  ultimately show ?thesis
    using assms words_value_append [of "take i bs" "bs ! i # drop (Suc i) bs"] words_value_append [of "take i bs" "w # drop (Suc i) bs"]
    by (simp add: algebra_simps)
qed

lemma words_value_last: "bs \<noteq> [] \<Longrightarrow> last bs \<noteq> 0 \<Longrightarrow> bigit_base ^ (length bs - 1) \<le> words_value bs"
proof -
  assume "bs \<noteq> []" "last bs \<noteq> 0"
  then have "words_value bs = words_value (butlast bs) + bigit_base ^ (length bs - 1) * unat (last bs)" "0 < unat (last bs)"
    using words_value_append [of "butlast bs" "[last bs]"] by (simp_all add: unat_gt_0)
  then show ?thesis by (simp add: trans_le_add2)
qed

lemma words_value_0: "words_value bs = 0 \<longleftrightarrow> (\<forall>b \<in> set bs. b = 0)"
  by (induction bs) (auto simp: unat_eq_zero)

lemma big_value_less: "big_value b < bigit_base ^ num_bigits b"
  using words_value_less [of "bigits b"] by (simp add: big_value_def num_bigits_def power_add mult.commute)

lemma one_le_bigit_base [simp]: "Suc 0 \<le> bigit_base" "1 \<le> bigit_base"
  by (simp_all add: bigit_base_def)

lemma big_value_below: "num_bigits b \<le> k \<Longrightarrow> big_value b < bigit_base ^ k"
  using big_value_less [of b] power_increasing [of "num_bigits b" k bigit_base] by simp

lemma big_value_ge: "trimmed b \<Longrightarrow> bigit_base ^ (num_bigits b - 1) \<le> big_value b"
proof -
  assume b: "trimmed b"
  then have "num_bigits b - 1 = bexp b + (length (bigits b) - 1)" by (cases "bigits b") (simp_all add: trimmed_def num_bigits_def)
  then show ?thesis
    using words_value_last [of "bigits b"] b by (simp add: trimmed_def big_value_def power_add)
qed

lemma big_value_pos: "trimmed b \<Longrightarrow> 0 < big_value b"
  using big_value_ge [of b] by (metis bigit_base_pos(1) less_le_trans zero_less_power)

section \<open>Comparing\<close>

definition sign :: "nat \<Rightarrow> nat \<Rightarrow> int" where
  "sign m n = (if m < n then -1 else if m > n then 1 else 0)"

lemma digits_decide:
  fixes x :: nat
  assumes "x < M" "v < w"
  shows "x + M * v < y + M * w"
proof -
  have "x + M * v < M * (v + 1)" using assms(1) by simp
  also have "\<dots> \<le> M * w" using assms(2) by (intro mult_le_mono2) simp
  finally show ?thesis by simp
qed

text \<open>The remaining words of two numbers of the same size compare by value; if these are equal, the longer list is greater.\<close>

lemma compare_loop_value:
  assumes "p \<le> length L" "q \<le> length R" "x + p = y + q"
  defines "v \<equiv> bigit_base ^ x * words_value (take p L)" and "w \<equiv> bigit_base ^ y * words_value (take q R)"
  shows "compare_loop L R (int p - 1) (int q - 1) (if int p - int q < 0 then 0 else int p - int q) =
    (if v = w then sign p q else sign v w)"
  using assms(1-3) unfolding v_def w_def
proof (induction "min p q" arbitrary: p q)
  case 0
  then consider "p = 0" "q = 0" | "p = 0" "0 < q" | "0 < p" "q = 0" by linarith
  then show ?case
    by cases (auto simp: compare_loop.simps [of L R] sign_def)
next
  case (Suc k)
  obtain p' q' where pq: "p = Suc p'" "q = Suc q'" using Suc(2) by (cases p; cases q) auto
  let ?e = "if int p - int q < 0 then 0 else int p - int q"
  let ?M = "bigit_base ^ (x + p')"
  have M: "?M = bigit_base ^ (y + q')" using Suc(5) pq by simp
  let ?v = "bigit_base ^ x * words_value (take p' L)" and ?w = "bigit_base ^ y * words_value (take q' R)"
  have "?v < ?M" using words_value_less [of "take p' L"] Suc(3) pq by (simp add: power_add)
  moreover have "?w < ?M" unfolding M using words_value_less [of "take q' R"] Suc(4) pq by (simp add: power_add)
  ultimately have small: "?v < ?M" "?w < ?M" by simp_all
  have "bigit_base ^ x * words_value (take p L) = ?v + ?M * unat (L ! p')"
    using Suc(3) pq by (simp add: words_value_Suc power_add distrib_left)
  moreover have "bigit_base ^ y * words_value (take q R) = ?w + ?M * unat (R ! q')"
    unfolding M using Suc(4) pq by (simp add: words_value_Suc power_add distrib_left)
  ultimately have split: "bigit_base ^ x * words_value (take p L) = ?v + ?M * unat (L ! p')"
    "bigit_base ^ y * words_value (take q R) = ?w + ?M * unat (R ! q')" by simp_all
  define e where "e = ?e"
  have e: "int p' \<ge> e" "e = (if int p' - int q' < 0 then 0 else int p' - int q')" using pq by (auto simp: e_def)
  have "compare_loop L R (int p') (int q') e =
      (if L ! p' \<noteq> R ! q' then (if L ! p' > R ! q' then 1 else -1) else compare_loop L R (int p' - 1) (int q' - 1) e)"
    by (subst compare_loop.simps) (use e(1) in simp)
  moreover have "int p - 1 = int p'" "int q - 1 = int q'" using pq by simp_all
  ultimately have step: "compare_loop L R (int p - 1) (int q - 1) ?e =
      (if L ! p' \<noteq> R ! q' then (if L ! p' > R ! q' then 1 else -1) else compare_loop L R (int p' - 1) (int q' - 1) e)"
    by (simp only: e_def)
  show ?case
  proof (cases "L ! p' = R ! q'")
    case True
    have "k = min p' q'" "p' \<le> length L" "q' \<le> length R" "x + p' = y + q'" using Suc(2-5) pq by simp_all
    from Suc(1) [OF this] have "compare_loop L R (int p' - 1) (int q' - 1) e = (if ?v = ?w then sign p' q' else sign ?v ?w)"
      unfolding e(2) .
    then have "compare_loop L R (int p - 1) (int q - 1) ?e = (if ?v = ?w then sign p' q' else sign ?v ?w)"
      unfolding step using True by simp
    then show ?thesis unfolding split using True pq by (auto simp: sign_def)
  next
    case False
    then have "unat (L ! p') \<noteq> unat (R ! q')" by (simp add: word_unat_eq_iff)
    then consider "unat (L ! p') < unat (R ! q')" | "unat (R ! q') < unat (L ! p')" by linarith
    then show ?thesis
    proof cases
      case 1
      have "bigit_base ^ x * words_value (take p L) < bigit_base ^ y * words_value (take q R)"
        unfolding split by (rule digits_decide [OF small(1) 1])
      then show ?thesis unfolding step using False 1 by (simp add: sign_def word_less_nat_alt)
    next
      case 2
      have "bigit_base ^ y * words_value (take q R) < bigit_base ^ x * words_value (take p L)"
        unfolding split by (rule digits_decide [OF small(2) 2])
      then show ?thesis unfolding step using False 2 by (simp add: sign_def word_less_nat_alt)
    qed
  qed
qed

lemma base_power_less: "m < n \<Longrightarrow> bigit_base ^ m \<le> bigit_base ^ (n - 1)"
  by (rule power_increasing) (simp_all add: bigit_base_def)

text \<open>A number that may be 0 has to be no longer than the other one.\<close>

lemma compare_big_value:
  assumes "trimmed rhs" "trimmed lhs \<or> num_bigits lhs \<le> num_bigits rhs"
  shows "compare_big lhs rhs =
    (if big_value lhs = big_value rhs then sign (length (bigits lhs)) (length (bigits rhs))
     else sign (big_value lhs) (big_value rhs))"
proof -
  consider "num_bigits lhs < num_bigits rhs" | "num_bigits lhs > num_bigits rhs" | "num_bigits lhs = num_bigits rhs" by linarith
  then show ?thesis
  proof cases
    case 1
    have "big_value lhs < big_value rhs"
      using big_value_less [of lhs] base_power_less [OF 1] big_value_ge [OF assms(1)] by linarith
    then show ?thesis using 1 by (simp add: compare_big_def sign_def)
  next
    case 2
    then have "trimmed lhs" using assms(2) by simp
    then have "big_value rhs < big_value lhs"
      using big_value_less [of rhs] base_power_less [OF 2] big_value_ge [of lhs] by linarith
    then show ?thesis using 2 by (simp add: compare_big_def sign_def)
  next
    case 3
    let ?p = "length (bigits lhs)" and ?q = "length (bigits rhs)"
    have "bexp lhs + ?p = bexp rhs + ?q" using 3 by (simp add: num_bigits_def)
    then have "compare_loop (bigits lhs) (bigits rhs) (int ?p - 1) (int ?q - 1) (if int ?p - int ?q < 0 then 0 else int ?p - int ?q) =
      (if big_value lhs = big_value rhs then sign ?p ?q else sign (big_value lhs) (big_value rhs))"
      using compare_loop_value [of ?p "bigits lhs" ?q "bigits rhs"] by (simp only: big_value_def take_all order_refl)
    moreover have "int ?p - 1 - (int ?q - 1) = int ?p - int ?q" by simp
    ultimately show ?thesis using 3 by (simp only: compare_big_def Let_def simp_thms if_False)
  qed
qed

lemma compare_big_nonneg:
  assumes "trimmed rhs" "trimmed lhs \<or> num_bigits lhs \<le> num_bigits rhs" "bexp lhs \<le> bexp rhs"
  shows "0 \<le> compare_big lhs rhs \<longleftrightarrow> big_value rhs \<le> big_value lhs"
proof (cases "big_value lhs = big_value rhs")
  case True
  have "num_bigits rhs \<le> num_bigits lhs"
    using big_value_less [of lhs] base_power_less [of "num_bigits lhs" "num_bigits rhs"] big_value_ge [OF assms(1)] True
    by linarith
  then show ?thesis using compare_big_value [OF assms(1,2)] True assms(3) by (simp add: sign_def num_bigits_def)
next
  case False
  then show ?thesis using compare_big_value [OF assms(1,2)] by (simp add: sign_def)
qed

lemma words_value_digit: "j < length bs \<Longrightarrow> words_value bs div bigit_base ^ j mod bigit_base = unat (bs ! j)"
proof -
  assume j: "j < length bs"
  then have "bs = take j bs @ bs ! j # drop (Suc j) bs" by (rule id_take_nth_drop)
  then have "words_value bs = words_value (take j bs) + bigit_base ^ j * (unat (bs ! j) + bigit_base * words_value (drop (Suc j) bs))"
    using words_value_append [of "take j bs" "bs ! j # drop (Suc j) bs"] j by simp
  moreover have "words_value (take j bs) < bigit_base ^ j" using words_value_less [of "take j bs"] j by simp
  ultimately have "words_value bs div bigit_base ^ j = unat (bs ! j) + bigit_base * words_value (drop (Suc j) bs)" by simp
  then show ?thesis using unat_bigit [of "bs ! j"] by simp
qed

lemma power_mult_div: "i \<le> k \<Longrightarrow> bigit_base ^ k * w div bigit_base ^ i = bigit_base ^ (k - i) * w"
proof -
  assume "i \<le> k"
  then have "bigit_base ^ k = bigit_base ^ i * bigit_base ^ (k - i)" by (simp flip: power_add)
  then show ?thesis by (simp add: mult.assoc)
qed

lemma power_div_power: "k \<le> i \<Longrightarrow> bigit_base ^ k * w div bigit_base ^ i = w div bigit_base ^ (i - k)"
proof -
  assume "k \<le> i"
  then have "bigit_base ^ i = bigit_base ^ k * bigit_base ^ (i - k)" by (simp flip: power_add)
  then show ?thesis by (simp add: div_mult2_eq)
qed

lemma get_bigit_value: "unat (get_bigit n i) = big_value n div bigit_base ^ i mod bigit_base"
proof -
  consider "i < bexp n" | "i \<ge> num_bigits n" | "i \<ge> bexp n" "i < num_bigits n" by linarith
  then show ?thesis
  proof cases
    case 1
    then have "big_value n div bigit_base ^ i = bigit_base ^ (bexp n - i) * words_value (bigits n)"
      unfolding big_value_def by (intro power_mult_div) simp
    moreover have "bigit_base dvd bigit_base ^ (bexp n - i)" using 1 by (intro dvd_power) auto
    ultimately show ?thesis using 1 by (simp add: get_bigit_def)
  next
    case 2
    then have "big_value n < bigit_base ^ i" by (rule big_value_below)
    then show ?thesis using 2 by (simp add: get_bigit_def)
  next
    case 3
    then have "big_value n div bigit_base ^ i = words_value (bigits n) div bigit_base ^ (i - bexp n)"
      unfolding big_value_def by (intro power_div_power) simp
    then show ?thesis
      using 3 words_value_digit [of "i - bexp n" "bigits n"] by (simp add: get_bigit_def num_bigits_def)
  qed
qed

lemma div_digit: "v div B ^ i = B * (v div B ^ Suc i) + v div B ^ i mod (B :: nat)"
proof -
  have "v div B ^ Suc i = v div B ^ i div B" by (simp only: power_Suc2 div_mult2_eq)
  then show ?thesis by simp
qed

lemma digits_balance:
  fixes B :: nat
  assumes "C = B * c1 + c0" "A = B * a1 + a0" "D = B * b1 + b0" "c1 = a1 + b1 + k"
  shows "C + (a0 + b0) = A + D + (c0 + B * k)"
  using assms by (simp add: distrib_left)

lemma sum_div_less:
  fixes a b c :: nat
  assumes "0 < m" "c div m < a div m + b div m"
  shows "c < a + b"
proof -
  have "c < m * (c div m + 1)" using assms(1) by (simp add: dividend_less_times_div)
  also have "\<dots> \<le> m * (a div m + b div m)" using assms(2) by (intro mult_le_mono2) simp
  also have "\<dots> \<le> a + b" by (simp add: distrib_left add_mono)
  finally show ?thesis .
qed

lemma less_sum_div:
  fixes a b c :: nat
  assumes "0 < m" "a div m + b div m + 2 \<le> c div m"
  shows "a + b < c"
proof -
  have "a < m * (a div m + 1)" "b < m * (b div m + 1)" using assms(1) by (simp_all add: dividend_less_times_div)
  then have "a + b < m * (a div m + b div m + 2)" by (simp add: algebra_simps)
  also have "\<dots> \<le> m * (c div m)" using assms(2) by (rule mult_le_mono2)
  also have "\<dots> \<le> c" by simp
  finally show ?thesis .
qed

lemma big_value_dvd: "k \<le> bexp n \<Longrightarrow> bigit_base ^ k dvd big_value n"
  by (simp add: big_value_def le_imp_power_dvd dvd_mult2)

lemma unat_wide: "unat (ucast (w :: bigit) :: 64 word) = unat w"
  using unsigned_less [of w, where 'a = nat] by (simp add: unsigned_ucast_eq take_bit_nat_eq_self)

lemma push_32_small: "unat (w :: 64 word) \<le> 1 \<Longrightarrow> unat (push_bit 32 w) = bigit_base * unat w"
proof -
  assume "unat w \<le> 1"
  then have "w = 0 \<or> w = 1"
    by (metis le_antisym le_zero_eq not_less_eq_eq One_nat_def unat_0 unat_1 word_unat_eq_iff)
  then show ?thesis by (auto simp: bigit_base_def)
qed

lemma add_compare_loop_value:
  assumes "big_value rhs div bigit_base ^ k = big_value lhs1 div bigit_base ^ k + big_value lhs2 div bigit_base ^ k + c"
    "c \<le> 1" "unat borrow = bigit_base * c" "m \<le> bexp lhs1" "m \<le> bexp lhs2" "m \<le> bexp rhs"
  shows "add_compare_loop lhs1 lhs2 rhs m k borrow = sign (big_value lhs1 + big_value lhs2) (big_value rhs)"
  using assms(1-3)
proof (induction k arbitrary: c borrow)
  case 0
  then have "borrow \<noteq> 0 \<longleftrightarrow> c \<noteq> 0" by (simp add: unat_eq_0 [symmetric] del: unat_eq_0)
  then show ?case using 0 by (auto simp: sign_def)
next
  case (Suc i)
  let ?m = "bigit_base ^ i" and ?a = "big_value lhs1" and ?b = "big_value lhs2" and ?c = "big_value rhs"
  have nz: "borrow \<noteq> 0 \<longleftrightarrow> c \<noteq> 0" using Suc(4) by (simp add: unat_eq_0 [symmetric] del: unat_eq_0)
  show ?case
  proof (cases "i \<ge> m")
    case False
    let ?M = "bigit_base ^ Suc i"
    have "?M dvd ?a" "?M dvd ?b" "?M dvd ?c" using False assms(4-6) by (auto intro!: big_value_dvd simp del: power_Suc)
    then have "?M * (?a div ?M) = ?a" "?M * (?b div ?M) = ?b" "?M * (?c div ?M) = ?c" by simp_all
    then have "?c = ?a + ?b + ?M * c" using Suc(2) by (metis distrib_left)
    then show ?thesis using False nz by (simp add: sign_def)
  next
    case True
    define s where "s = (ucast (get_bigit lhs1 i) :: 64 word) + ucast (get_bigit lhs2 i)"
    define r where "r = (ucast (get_bigit rhs i) :: 64 word) + borrow"
    have small: "unat (get_bigit n i) < 2 ^ 32" for n using unat_bigit [of "get_bigit n i"] by (simp add: bigit_base_def)
    have s: "unat s = ?a div ?m mod bigit_base + ?b div ?m mod bigit_base"
      using small [of lhs1] small [of lhs2] by (simp add: s_def unat_plus_if' unat_wide get_bigit_value)
    have "unat r = unat (get_bigit rhs i) + bigit_base * c"
      using small [of rhs] Suc(3,4) by (auto simp: r_def unat_plus_if' unat_wide bigit_base_def)
    then have r: "unat r = ?c div ?m mod bigit_base + bigit_base * c" by (simp only: get_bigit_value)
    have eq: "?c div ?m + unat s = ?a div ?m + ?b div ?m + unat r"
      unfolding s r by (rule digits_balance [OF div_digit div_digit div_digit Suc(2)])
    have m: "0 < ?m" by simp
    consider "r < s" | "s \<le> r" "1 < r - s" | "s \<le> r" "r - s \<le> 1" by fastforce
    then show ?thesis
    proof cases
      case 1
      then have "?c div ?m < ?a div ?m + ?b div ?m" using eq by (simp add: word_less_nat_alt)
      then have "?c < ?a + ?b" by (rule sum_div_less [OF m])
      then show ?thesis using 1 True by (simp add: s_def [symmetric] r_def [symmetric] sign_def Let_def)
    next
      case 2
      then have "unat (r - s) = unat r - unat s" by (simp add: unat_sub_if' word_le_nat_alt)
      then have "2 + unat s \<le> unat r" using 2(2) by (simp add: word_less_nat_alt)
      then have "?a div ?m + ?b div ?m + 2 \<le> ?c div ?m" using eq by linarith
      then have "?a + ?b < ?c" by (rule less_sum_div [OF m])
      then show ?thesis using 2 True by (auto simp: s_def [symmetric] r_def [symmetric] sign_def Let_def)
    next
      case 3
      have u: "unat (r - s) = unat r - unat s" using 3(1) by (simp add: unat_sub_if' word_le_nat_alt)
      then have le: "unat (r - s) \<le> 1" using 3(2) by (simp add: word_le_nat_alt)
      have "?c div ?m = ?a div ?m + ?b div ?m + unat (r - s)" using eq u 3(1) by (simp add: word_le_nat_alt)
      moreover have "unat (push_bit 32 (r - s)) = bigit_base * unat (r - s)"
        by (rule push_32_small [OF le])
      ultimately have "add_compare_loop lhs1 lhs2 rhs m i (push_bit 32 (r - s)) = sign (?a + ?b) ?c"
        using Suc(1) le by blast
      moreover have "\<not> r < s" "\<not> 1 < r - s" using 3 by (simp_all add: linorder_not_less)
      ultimately show ?thesis using True by (simp add: s_def [symmetric] r_def [symmetric] Let_def)
    qed
  qed
qed

lemma add_compare_value:
  assumes "trimmed rhs" "trimmed lhs1 \<or> num_bigits lhs1 \<le> num_bigits rhs" "trimmed lhs2 \<or> num_bigits lhs2 \<le> num_bigits rhs"
  shows "add_compare lhs1 lhs2 rhs = sign (big_value lhs1 + big_value lhs2) (big_value rhs)"
proof -
  let ?k = "max (num_bigits lhs1) (num_bigits lhs2)" and ?r = "num_bigits rhs"
  consider "?k + 1 < ?r" | "?k > ?r" | "?k + 1 \<ge> ?r" "?k \<le> ?r" by linarith
  then show ?thesis
  proof cases
    case 1
    have "big_value lhs1 < bigit_base ^ ?k" "big_value lhs2 < bigit_base ^ ?k" by (simp_all add: big_value_below)
    then have "big_value lhs1 + big_value lhs2 < 2 * bigit_base ^ ?k" by linarith
    also have "\<dots> \<le> bigit_base * bigit_base ^ ?k" by (rule mult_le_mono1) (simp add: bigit_base_def)
    also have "\<dots> \<le> bigit_base ^ (?r - 1)" using base_power_less [OF 1] by simp
    also have "\<dots> \<le> big_value rhs" by (rule big_value_ge [OF assms(1)])
    finally show ?thesis using 1 by (simp add: add_compare_def sign_def Let_def)
  next
    case 2
    then obtain n where n: "n = lhs1 \<or> n = lhs2" "num_bigits n > ?r" by (auto simp: less_max_iff_disj)
    then have "trimmed n" using assms(2,3) by auto
    then have "big_value rhs < big_value n"
      using big_value_less [of rhs] base_power_less [OF n(2)] big_value_ge [of n] by linarith
    then show ?thesis using 2 n(1) by (auto simp: add_compare_def sign_def Let_def)
  next
    case 3
    have "big_value n div bigit_base ^ ?r = 0" if "num_bigits n \<le> ?r" for n
      using big_value_below [OF that] by simp
    then have "add_compare_loop lhs1 lhs2 rhs (min (min (bexp lhs1) (bexp lhs2)) (bexp rhs)) ?r 0 =
      sign (big_value lhs1 + big_value lhs2) (big_value rhs)"
      using 3(2) by (intro add_compare_loop_value [where c = 0]) simp_all
    moreover have "\<not> ?k + 1 < ?r" "\<not> ?k > ?r" using 3 by linarith+
    ultimately show ?thesis by (simp only: add_compare_def Let_def if_False)
  qed
qed

section \<open>Subtracting\<close>

lemma subtract_bigits_value:
  assumes i: "i < length bs" and c: "unat c \<le> 1"
  shows "\<exists>w c'. subtract_bigits i x c bs = Some (bs[i := w], c') \<and> unat c' \<le> 1 \<and>
    unat w + unat x + unat c = unat (bs ! i) + bigit_base * unat c'"
proof -
  define d where "d = (ucast (bs ! i) :: 64 word) - ucast x - ucast c"
  have small: "unat (bs ! i) < 2 ^ 32" "unat x < 2 ^ 32"
    using unat_bigit [of "bs ! i"] unat_bigit [of x] by (simp_all add: bigit_base_def)
  have w: "unat (ucast d :: bigit) = unat d mod 2 ^ 32" by (simp add: unsigned_ucast_eq take_bit_eq_mod)
  have b: "unat (drop_bit 63 d) = unat d div 2 ^ 63" using unat_drop_bit_eq [of 63 d] by (simp only: drop_bit_eq_div [where 'a = nat])
  have sub: "subtract_bigits i x c bs = Some (bs[i := ucast d], ucast (drop_bit 63 d))"
    using i by (simp add: subtract_bigits_def Let_def d_def)
  have b32: "unat (ucast (drop_bit 63 d) :: bigit) = unat d div 2 ^ 63"
    using b unat_64_less [of d] by (simp add: unsigned_ucast_eq take_bit_nat_eq_self less_mult_imp_div_less)
  show ?thesis
  proof (cases "unat x + unat c \<le> unat (bs ! i)")
    case True
    then have "unat d = unat (bs ! i) - unat x - unat c"
      by (simp add: d_def unat_sub_if' unat_wide)
    then show ?thesis unfolding sub using True small w b32 by (auto simp: bigit_base_def)
  next
    case False
    then have d: "unat d = 2 ^ 64 + unat (bs ! i) - unat x - unat c"
      using small c by (auto simp: d_def unat_sub_if' unat_wide)
    then have "unat d div 2 ^ 63 = 1" using False small c by (auto intro: div_nat_eqI)
    moreover have "unat d mod 2 ^ 32 = 2 ^ 32 + unat (bs ! i) - unat x - unat c"
    proof -
      have "unat d = (2 ^ 32 - 1) * 2 ^ 32 + (2 ^ 32 + unat (bs ! i) - unat x - unat c)" using d small c by simp
      moreover have "2 ^ 32 + unat (bs ! i) - unat x - unat c < 2 ^ 32" using False by simp
      ultimately show ?thesis by (metis mod_less mod_mult_self3)
    qed
    ultimately show ?thesis unfolding sub using w b32 small c by (auto simp: bigit_base_def)
  qed
qed

lemma subtract_loop_value:
  assumes "i + length os \<le> length bs" "unat c \<le> 1"
  shows "\<exists>bs' c'. subtract_loop i os bs c = Some (i + length os, bs', c') \<and> length bs' = length bs \<and> unat c' \<le> 1 \<and>
    words_value bs' + bigit_base ^ i * (words_value os + unat c) = words_value bs + bigit_base ^ (i + length os) * unat c'"
  using assms
proof (induction os arbitrary: i bs c)
  case (Cons x os)
  obtain w c1 where w: "subtract_bigits i x c bs = Some (bs[i := w], c1)" "unat c1 \<le> 1"
      "unat w + unat x + unat c = unat (bs ! i) + bigit_base * unat c1"
    using subtract_bigits_value [of i bs c x] Cons.prems by auto
  obtain bs' c' where r: "subtract_loop (Suc i) os (bs[i := w]) c1 = Some (Suc i + length os, bs', c')" "length bs' = length bs"
      "unat c' \<le> 1" "words_value bs' + bigit_base ^ Suc i * (words_value os + unat c1) =
        words_value (bs[i := w]) + bigit_base ^ (Suc i + length os) * unat c'"
    using Cons.IH [of "Suc i" "bs[i := w]" c1] Cons.prems w(2) by auto
  have u: "words_value (bs[i := w]) + bigit_base ^ i * unat (bs ! i) = words_value bs + bigit_base ^ i * unat w"
    using Cons.prems by (intro words_value_update) simp
  have "bigit_base ^ i * (unat w + unat x + unat c) = bigit_base ^ i * (unat (bs ! i) + bigit_base * unat c1)" using w(3) by simp
  then have "words_value bs' + bigit_base ^ i * (words_value (x # os) + unat c) = words_value bs + bigit_base ^ (Suc i + length os) * unat c'"
    using r(4) u by (simp add: algebra_simps)
  then show ?case using w(1) r(1-3) by simp
qed simp

lemma borrow_loop_value:
  assumes "bigit_base ^ i * unat c \<le> words_value bs" "unat c \<le> 1" "i \<le> length bs"
  shows "\<exists>bs'. borrow_loop i bs c = Some bs' \<and> length bs' = length bs \<and> words_value bs' + bigit_base ^ i * unat c = words_value bs"
  using assms
proof (induction "length bs - i" arbitrary: i bs c)
  case 0
  have "c = 0"
  proof (rule ccontr)
    assume "c \<noteq> 0"
    then have "unat c \<noteq> 0" by (simp add: unat_eq_zero)
    then have "unat c = 1" using 0 by linarith
    then show False using 0 words_value_less [of bs] by simp
  qed
  then show ?case by (simp add: borrow_loop.simps)
next
  case (Suc k)
  show ?case
  proof (cases "c = 0")
    case False
    then have "unat c \<noteq> 0" by (simp add: unat_eq_zero)
    then have c: "unat c = 1" using Suc.prems(2) by linarith
    have i: "i < length bs" using Suc.hyps(2) by linarith
    obtain w c1 where w: "subtract_bigits i 0 c bs = Some (bs[i := w], c1)" "unat c1 \<le> 1"
        "unat w + unat c = unat (bs ! i) + bigit_base * unat c1"
      using subtract_bigits_value [OF i Suc.prems(2), of 0] by auto
    have u: "words_value (bs[i := w]) + bigit_base ^ i * unat c = words_value bs + bigit_base ^ Suc i * unat c1"
    proof -
      have "bigit_base ^ i * (unat w + unat c) = bigit_base ^ i * (unat (bs ! i) + bigit_base * unat c1)" using w(3) by simp
      then show ?thesis using words_value_update [OF i, of w] by (simp add: algebra_simps)
    qed
    have "bigit_base ^ Suc i * unat c1 \<le> words_value (bs[i := w])" using u Suc.prems(1) by linarith
    moreover have "k = length (bs[i := w]) - Suc i" "Suc i \<le> length (bs[i := w])" using Suc.hyps(2) i by simp_all
    ultimately obtain bs' where "borrow_loop (Suc i) (bs[i := w]) c1 = Some bs'" "length bs' = length bs"
        "words_value bs' + bigit_base ^ Suc i * unat c1 = words_value (bs[i := w])"
      using Suc.hyps(1) [of "bs[i := w]" "Suc i" c1] w(2) by auto
    then show ?thesis using False w(1) u by (simp add: borrow_loop.simps [of i] word_gt_0)
  qed (use Suc in \<open>simp add: borrow_loop.simps\<close>)
qed

lemma top_bigit_le: "top_bigit n bs \<le> n"
  by (induction n) auto

lemma top_bigit_value: "n < length bs \<Longrightarrow> words_value (take (Suc (top_bigit n bs)) bs) = words_value (take (Suc n) bs)"
  by (induction n) (simp_all add: words_value_Suc)

lemma top_bigit_nonzero: "0 < top_bigit n bs \<Longrightarrow> bs ! top_bigit n bs \<noteq> 0"
  by (induction n) (auto split: if_splits)

lemma remove_leading_zeros_value:
  "words_value (remove_leading_zeros bs) = words_value bs"
  "length (remove_leading_zeros bs) \<le> length bs"
  "bs \<noteq> [] \<Longrightarrow> remove_leading_zeros bs \<noteq> []"
proof -
  show "words_value (remove_leading_zeros bs) = words_value bs"
    using top_bigit_value [of "length bs - 1" bs] by (cases bs) (simp_all add: remove_leading_zeros_def)
  show "length (remove_leading_zeros bs) \<le> length bs" by (simp add: remove_leading_zeros_def)
  show "bs \<noteq> [] \<Longrightarrow> remove_leading_zeros bs \<noteq> []" by (simp add: remove_leading_zeros_def)
qed

lemma remove_leading_zeros_last:
  assumes "words_value bs \<noteq> 0"
  shows "last (remove_leading_zeros bs) \<noteq> 0"
proof -
  let ?t = "top_bigit (length bs - 1) bs"
  have ne: "bs \<noteq> []" using assms by auto
  then have t: "?t < length bs" using top_bigit_le [of "length bs - 1" bs] by (simp add: le_less_trans)
  then have l: "last (remove_leading_zeros bs) = bs ! ?t"
    using ne by (simp add: remove_leading_zeros_def take_Suc_conv_app_nth)
  show ?thesis
  proof (cases "?t = 0")
    case True
    then have "words_value (take 1 bs) = words_value bs"
      using remove_leading_zeros_value(1) [of bs] ne by (simp add: remove_leading_zeros_def)
    then show ?thesis using assms ne True l words_value_Suc [of 0 bs] by (auto simp: unat_eq_zero [symmetric])
  next
    case False
    then show ?thesis using top_bigit_nonzero [of "length bs - 1" bs] l by simp
  qed
qed

lemma remove_leading_zeros_zero:
  assumes "words_value bs = 0" "bs \<noteq> []"
  shows "remove_leading_zeros bs = [0]"
proof -
  have "bs ! i = 0" if "i < length bs" for i using assms(1) that by (simp add: words_value_0)
  then have "top_bigit n bs = 0" if "n < length bs" for n using that by (induction n) auto
  then show ?thesis using assms \<open>\<And>i. i < length bs \<Longrightarrow> bs ! i = 0\<close> [of 0] by (cases bs) (simp_all add: remove_leading_zeros_def)
qed

lemma num_bigits_le:
  assumes "trimmed other" "big_value other \<le> big_value this"
  shows "num_bigits other \<le> num_bigits this"
  using big_value_less [of this] base_power_less [of "num_bigits this" "num_bigits other"] big_value_ge [OF assms(1)] assms(2)
  by linarith

text \<open>What a subtraction leaves: 0 is a single word.\<close>

definition normal :: "bigint \<Rightarrow> bool" where
  "normal b \<longleftrightarrow> trimmed b \<or> bigits b = [0]"

lemma normal_zero: "normal b \<Longrightarrow> big_value b = 0 \<longleftrightarrow> bigits b = [0]"
  using big_value_pos [of b] by (auto simp: normal_def big_value_def trimmed_def)

lemma normal_short: "normal b \<Longrightarrow> trimmed d \<Longrightarrow> bexp b \<le> bexp d \<Longrightarrow> trimmed b \<or> num_bigits b \<le> num_bigits d"
  by (cases "bigits d") (auto simp: normal_def num_bigits_def trimmed_def)

lemma normal_removed: "bs \<noteq> [] \<Longrightarrow> normal \<lparr>bigits = remove_leading_zeros bs, bexp = e\<rparr>"
  using remove_leading_zeros_zero [of bs] remove_leading_zeros_last [of bs] remove_leading_zeros_value(3) [of bs]
  by (cases "words_value bs = 0") (simp_all add: normal_def trimmed_def)

lemma subtract_aligned_value:
  assumes d: "trimmed d" and n: "normal n" and e: "bexp n \<le> bexp d" and le: "big_value d \<le> big_value n"
  shows "\<exists>r. subtract_aligned n d = Some r \<and> bexp r = bexp n \<and> normal r \<and> big_value r = big_value n - big_value d"
proof -
  let ?i = "bexp d - bexp n" and ?k = "length (bigits d)"
  have cmp: "compare_big n d \<ge> 0" using compare_big_nonneg [OF d normal_short [OF n d e] e] le by simp
  have fits: "?i + ?k \<le> length (bigits n)" using num_bigits_le [OF d le] e by (simp add: num_bigits_def)
  obtain bs c where s: "subtract_loop ?i (bigits d) (bigits n) 0 = Some (?i + ?k, bs, c)" "length bs = length (bigits n)" "unat c \<le> 1"
      "words_value bs + bigit_base ^ ?i * words_value (bigits d) = words_value (bigits n) + bigit_base ^ (?i + ?k) * unat c"
    using subtract_loop_value [OF fits, of 0] by auto
  have "bigit_base ^ bexp n * (bigit_base ^ ?i * words_value (bigits d)) \<le> bigit_base ^ bexp n * words_value (bigits n)"
    using le e by (simp add: big_value_def power_add [symmetric] mult.assoc [symmetric])
  then have w: "bigit_base ^ ?i * words_value (bigits d) \<le> words_value (bigits n)" by simp
  then have "bigit_base ^ (?i + ?k) * unat c \<le> words_value bs" using s(4) by linarith
  then obtain bs' where b: "borrow_loop (?i + ?k) bs c = Some bs'" "length bs' = length (bigits n)"
      "words_value bs' + bigit_base ^ (?i + ?k) * unat c = words_value bs"
    using borrow_loop_value [of "?i + ?k" c bs] s(2,3) fits by auto
  let ?r = "n\<lparr>bigits := remove_leading_zeros bs'\<rparr>"
  have "subtract_aligned n d = Some ?r" using cmp e s(1) b(1) by (simp add: subtract_aligned_def)
  moreover have "bs' \<noteq> []" using n b(2) by (auto simp: normal_def trimmed_def)
  then have "normal ?r" using normal_removed [of bs' "bexp n"] by (simp add: normal_def trimmed_def)
  moreover have "big_value ?r = big_value n - big_value d"
  proof -
    have "words_value bs' = words_value (bigits n) - bigit_base ^ ?i * words_value (bigits d)" using b(3) s(4) by linarith
    then show ?thesis
      using e by (simp add: big_value_def remove_leading_zeros_value diff_mult_distrib2 power_add [symmetric] mult.assoc [symmetric])
  qed
  ultimately show ?thesis by auto
qed

section \<open>Aligning and dividing\<close>

lemma move_up_nth:
  "i + d \<le> length bs \<Longrightarrow> length (move_up i d bs) = length bs \<and>
    (\<forall>k < length bs. move_up i d bs ! k = (if d \<le> k \<and> k < i + d then bs ! (k - d) else bs ! k))"
proof (induction i arbitrary: bs)
  case (Suc i)
  show ?case
  proof (intro conjI allI impI)
    show "length (move_up (Suc i) d bs) = length bs" using Suc by simp
    fix k assume k: "k < length bs"
    then have "move_up (Suc i) d bs ! k =
        (if d \<le> k \<and> k < i + d then bs[i + d := bs ! i] ! (k - d) else bs[i + d := bs ! i] ! k)"
      using Suc by simp
    then show "move_up (Suc i) d bs ! k = (if d \<le> k \<and> k < Suc i + d then bs ! (k - d) else bs ! k)"
      using Suc.prems k by (auto simp: nth_list_update)
  qed
qed auto

lemma move_up_drop: "length ys = d \<Longrightarrow> drop d (move_up (length xs) d (xs @ ys)) = xs"
  using move_up_nth [of "length xs" d "xs @ ys"] by (auto intro!: nth_equalityI simp: nth_append)

lemma align_to_eq:
  "align_to n d = (if bexp n \<le> bexp d then n
    else \<lparr>bigits = replicate (bexp n - bexp d) 0 @ bigits n, bexp = bexp d\<rparr>)"
  by (cases n) (simp add: align_to_def Let_def move_up_drop)

lemma align_to_value:
  "big_value (align_to n d) = big_value n" "bexp (align_to n d) = min (bexp n) (bexp d)"
  "trimmed n \<Longrightarrow> trimmed (align_to n d)"
  by (simp_all add: align_to_eq big_value_def trimmed_def power_add [symmetric] mult.assoc [symmetric])

lemma divmod_loop_value:
  assumes "trimmed d" "normal n" "bexp n \<le> bexp d" "big_value d \<le> big_value n"
  shows "\<exists>r. divmod_loop d n q = Some (r, q + int (big_value n div big_value d)) \<and> normal r \<and> bexp r = bexp n \<and>
    big_value r = big_value n mod big_value d"
  using assms(2-4)
proof (induction "big_value n" arbitrary: n q rule: less_induct)
  case less
  have pos: "0 < big_value d" by (rule big_value_pos [OF assms(1)])
  obtain s where s: "subtract_aligned n d = Some s" "bexp s = bexp n" "normal s" "big_value s = big_value n - big_value d"
    using subtract_aligned_value [OF assms(1) less.prems] by auto
  have c: "0 \<le> compare_big s d \<longleftrightarrow> big_value d \<le> big_value s"
    using less.prems(2) s(2,3) by (intro compare_big_nonneg normal_short assms(1)) simp_all
  have dm: "big_value n div big_value d = Suc (big_value s div big_value d)" "big_value n mod big_value d = big_value s mod big_value d"
    using less.prems(3) pos s(4) by (simp_all add: le_div_geq le_mod_geq)
  show ?case
  proof (cases "big_value d \<le> big_value s")
    case True
    have "big_value s < big_value n" using s(4) pos less.prems(3) by simp
    then obtain r where "divmod_loop d s (q + 1) = Some (r, q + 1 + int (big_value s div big_value d))" "normal r" "bexp r = bexp s"
        "big_value r = big_value s mod big_value d"
      using less.hyps [of s "q + 1"] True s(2,3) less.prems(2) by auto
    then show ?thesis using s True c dm by (simp add: divmod_loop.simps [of d n])
  next
    case False
    then have "big_value s div big_value d = 0" "big_value s mod big_value d = big_value s" by simp_all
    then show ?thesis using s False c dm by (simp add: divmod_loop.simps [of d n])
  qed
qed

text \<open>
  Equal numbers compare by the number of their words: \<open>divmod_assign\<close> finds the quotient if the divisor has not more words
  below its first nonzero one than the dividend has.
\<close>

lemma divmod_assign_value:
  assumes d: "trimmed d" and n: "normal n" "trimmed n \<or> num_bigits n \<le> num_bigits d"
    and eq: "big_value n = big_value d \<Longrightarrow> bexp n \<le> bexp d"
  shows "\<exists>r. divmod_assign n d = Some (r, int (big_value n div big_value d)) \<and> normal r \<and> bexp r \<le> bexp n \<and>
    big_value r = big_value n mod big_value d \<and> (big_value d \<le> big_value n \<longrightarrow> bexp r \<le> bexp d)"
proof (cases "big_value d \<le> big_value n")
  case True
  then have "trimmed n" using n(1) normal_zero [OF n(1)] big_value_pos [OF d] by (auto simp: normal_def)
  have "compare_big n d \<ge> 0"
  proof (cases "big_value n = big_value d")
    case True
    then show ?thesis using compare_big_nonneg [OF d n(2) eq] by simp
  next
    case False
    then show ?thesis using compare_big_value [OF d n(2)] True by (simp add: sign_def)
  qed
  moreover have "\<exists>r. divmod_loop d (align_to n d) 0 = Some (r, 0 + int (big_value (align_to n d) div big_value d)) \<and> normal r \<and>
      bexp r = bexp (align_to n d) \<and> big_value r = big_value (align_to n d) mod big_value d"
    using align_to_value [of n d] \<open>trimmed n\<close> True by (intro divmod_loop_value d) (simp_all add: normal_def)
  ultimately show ?thesis using d by (auto simp: divmod_assign_def align_to_value trimmed_def)
next
  case False
  then have "compare_big n d < 0" using compare_big_value [OF d n(2)] by (simp add: sign_def)
  then show ?thesis using False n(1) by (simp add: divmod_assign_def)
qed

section \<open>Multiplying and shifting\<close>

lemma unat_low: "unat (ucast (w :: 64 word) :: bigit) = unat w mod bigit_base"
  by (simp add: unsigned_ucast_eq take_bit_eq_mod bigit_base_def)

lemma unat_high: "unat (ucast (drop_bit 32 (w :: 64 word)) :: bigit) = unat w div bigit_base"
proof -
  have "unat w div 2 ^ 32 < 2 ^ 32" using unat_64_less [of w] by (simp add: less_mult_imp_div_less)
  moreover have "unat (drop_bit 32 w) = unat w div 2 ^ 32"
    using unat_drop_bit_eq [of 32 w] by (simp only: drop_bit_eq_div [where 'a = nat])
  ultimately show ?thesis by (simp add: unsigned_ucast_eq take_bit_nat_eq_self bigit_base_def)
qed

lemma digit_carry: "x = y + r div B \<Longrightarrow> r mod B + B * x = B * y + (r :: nat)"
  by (simp add: distrib_left)

lemma multiply_loop_value:
  assumes "multiply_loop (ucast (v :: bigit)) bs c = (bs', c')"
  shows "length bs' = length bs \<and> words_value bs' + bigit_base ^ length bs * unat c' = words_value bs * unat v + unat c"
  using assms
proof (induction bs arbitrary: c bs' c')
  case (Cons b bs)
  let ?w = "ucast b * ucast v + ucast c :: 64 word"
  obtain bs1 where r: "multiply_loop (ucast v) bs (ucast (drop_bit 32 ?w)) = (bs1, c')" "bs' = ucast ?w # bs1"
    using Cons.prems by (auto simp: Let_def split: prod.splits)
  have "unat b * unat v \<le> (bigit_base - 1) * (bigit_base - 1)"
    using unat_bigit [of b] unat_bigit [of v] by (intro mult_le_mono) simp_all
  then have "unat b * unat v + unat c < 2 ^ 64" using unat_bigit [of c] by (simp add: bigit_base_def)
  then have w: "unat ?w = unat b * unat v + unat c" by (simp add: unat_word_ariths unat_wide)
  have "words_value bs' + bigit_base ^ length (b # bs) * unat c' =
      unat ?w mod bigit_base + bigit_base * (words_value bs1 + bigit_base ^ length bs * unat c')"
    using r(2) by (simp add: unat_low distrib_left mult.assoc)
  also have "\<dots> = bigit_base * (words_value bs * unat v) + unat ?w"
    using Cons.IH [OF r(1)] by (intro digit_carry) (simp add: unat_high)
  also have "\<dots> = words_value (b # bs) * unat v + unat c" unfolding w by (simp add: algebra_simps)
  finally show ?case using Cons.IH [OF r(1)] r(2) by simp
qed simp

lemma words_value_carry: "words_value (bs @ (if c \<noteq> 0 then [c] else [])) = words_value bs + bigit_base ^ length bs * unat c"
  by simp

lemma last_nonzero:
  assumes "bigit_base ^ (length bs - 1) \<le> words_value bs" "bs \<noteq> []"
  shows "last bs \<noteq> 0"
proof
  assume "last bs = 0"
  then have "words_value bs = words_value (butlast bs)"
    using assms(2) by (cases bs rule: rev_exhaust) simp_all
  then show False using words_value_less [of "butlast bs"] assms(1) by simp
qed

text \<open>A product by a number that is not 0 keeps the top word, or has a carry above it.\<close>

lemma trimmed_carry:
  assumes "trimmed b" "words_value (bigits b) \<le> words_value bs + bigit_base ^ length bs * unat c" "length bs = length (bigits b)"
  shows "trimmed (b\<lparr>bigits := bs @ (if c \<noteq> 0 then [c] else [])\<rparr>)"
proof (cases "c = 0")
  case True
  then have "bigit_base ^ (length bs - 1) \<le> words_value bs"
    using words_value_last [of "bigits b"] assms by (simp add: trimmed_def)
  moreover have "bs \<noteq> []" using assms(1,3) by (auto simp: trimmed_def)
  ultimately show ?thesis using True last_nonzero [of bs] by (simp add: trimmed_def)
qed (simp add: trimmed_def)

lemma multiply32_value:
  "big_value (multiply32 v b) = big_value b * unat v"
  "v \<noteq> 0 \<Longrightarrow> trimmed b \<Longrightarrow> trimmed (multiply32 v b)"
  "bexp (multiply32 v b) = bexp b"
proof -
  obtain bs c where m: "multiply_loop (ucast v) (bigits b) 0 = (bs, c)" by fastforce
  then have v: "length bs = length (bigits b)" "words_value bs + bigit_base ^ length bs * unat c = words_value (bigits b) * unat v"
    using multiply_loop_value [OF m] by simp_all
  then show "big_value (multiply32 v b) = big_value b * unat v"
    using m words_value_carry [of bs c] by (simp add: multiply32_def big_value_def mult.assoc)
  show "bexp (multiply32 v b) = bexp b" using m by (simp add: multiply32_def)
  assume "v \<noteq> 0" "trimmed b"
  then have "words_value (bigits b) \<le> words_value bs + bigit_base ^ length bs * unat c"
    using v(2) unat_eq_zero [of v] by simp
  then show "trimmed (multiply32 v b)"
    using trimmed_carry [OF \<open>trimmed b\<close> _ v(1)] m by (simp add: multiply32_def)
qed

lemma shift_word_value:
  fixes b c :: bigit
  assumes "s < 32" "unat c < 2 ^ s"
  shows "unat (push_bit s b + c) + bigit_base * unat (drop_bit (32 - s) b) = 2 ^ s * unat b + unat c"
    and "unat (drop_bit (32 - s) b) < 2 ^ s"
proof -
  have d: "unat (drop_bit (32 - s) b) = unat b div 2 ^ (32 - s)"
    using unat_drop_bit_eq [of "32 - s" b] by (simp only: drop_bit_eq_div [where 'a = nat])
  have B: "bigit_base = 2 ^ s * 2 ^ (32 - s)" using assms(1) by (simp add: bigit_base_def flip: power_add)
  have "unat (push_bit s b) = take_bit LENGTH(32) (push_bit s (unat b))" by (rule unsigned_push_bit_eq)
  then have "unat (push_bit s b) = 2 ^ s * unat b mod bigit_base"
    by (simp add: take_bit_eq_mod push_bit_eq_mult bigit_base_def mult.commute)
  then have p: "unat (push_bit s b) = 2 ^ s * (unat b mod 2 ^ (32 - s))" unfolding B by simp
  have "unat b mod 2 ^ (32 - s) + 1 \<le> 2 ^ (32 - s)" by (simp add: Suc_le_eq)
  then have "2 ^ s * (unat b mod 2 ^ (32 - s) + 1) \<le> bigit_base" unfolding B by (rule mult_le_mono2)
  then have "unat (push_bit s b) + unat c < 2 ^ 32" using assms(2) p by (simp add: bigit_base_def)
  then have "unat (push_bit s b + c) = unat (push_bit s b) + unat c" by (simp add: unat_plus_if')
  moreover have "2 ^ s * (unat b mod 2 ^ (32 - s)) + bigit_base * (unat b div 2 ^ (32 - s)) = 2 ^ s * unat b"
    unfolding B mult.assoc distrib_left [symmetric] by simp
  ultimately show "unat (push_bit s b + c) + bigit_base * unat (drop_bit (32 - s) b) = 2 ^ s * unat b + unat c"
    using d p by simp
  have "unat b div 2 ^ (32 - s) < 2 ^ s" using unat_bigit [of b] unfolding B by (intro less_mult_imp_div_less)
  then show "unat (drop_bit (32 - s) b) < 2 ^ s" unfolding d .
qed

lemma shift_loop_value:
  assumes "shift_loop s bs c = (bs', c')" "s < 32" "unat c < 2 ^ s"
  shows "length bs' = length bs \<and> words_value bs' + bigit_base ^ length bs * unat c' = 2 ^ s * words_value bs + unat c"
  using assms
proof (induction bs arbitrary: c bs' c')
  case (Cons b bs)
  note w = shift_word_value [OF Cons.prems(2,3), of b]
  obtain bs1 where r: "shift_loop s bs (drop_bit (32 - s) b) = (bs1, c')" "bs' = (push_bit s b + c) # bs1"
    using Cons.prems(1) by (auto split: prod.splits)
  note IH = Cons.IH [OF r(1) Cons.prems(2) w(2)]
  have "words_value bs' + bigit_base ^ length (b # bs) * unat c' =
      unat (push_bit s b + c) + bigit_base * (words_value bs1 + bigit_base ^ length bs * unat c')"
    using r(2) by (simp add: distrib_left mult.assoc)
  also have "\<dots> = unat (push_bit s b + c) + bigit_base * (2 ^ s * words_value bs + unat (drop_bit (32 - s) b))"
    using IH by simp
  also have "\<dots> = (unat (push_bit s b + c) + bigit_base * unat (drop_bit (32 - s) b)) + bigit_base * 2 ^ s * words_value bs"
    by (simp add: distrib_left mult.assoc)
  also have "\<dots> = 2 ^ s * words_value (b # bs) + unat c" unfolding w(1) by (simp add: distrib_left mult.left_commute mult.commute)
  finally show ?case using IH r(2) by simp
qed simp

lemma shift_left_value:
  "big_value (shift_left s b) = big_value b * 2 ^ s"
  "trimmed b \<Longrightarrow> trimmed (shift_left s b)"
  "bexp (shift_left s b) = bexp b + s div 32"
proof -
  let ?r = "s mod 32"
  have s: "(2 :: nat) ^ s = bigit_base ^ (s div 32) * 2 ^ ?r"
  proof -
    have "(2 :: nat) ^ s = 2 ^ (32 * (s div 32) + ?r)" by simp
    also have "\<dots> = (2 ^ 32) ^ (s div 32) * 2 ^ ?r" by (simp only: power_add power_mult)
    finally show ?thesis by (simp only: bigit_base_def)
  qed
  obtain bs c where l: "shift_loop ?r (bigits b) 0 = (bs, c)" by fastforce
  have v: "length bs = length (bigits b)" "words_value bs + bigit_base ^ length bs * unat c = 2 ^ ?r * words_value (bigits b)"
    using shift_loop_value [OF l] by simp_all
  show "big_value (shift_left s b) = big_value b * 2 ^ s"
    unfolding s using l v words_value_carry [of bs c]
    by (auto simp: shift_left_def Let_def big_value_def power_add)
  show "bexp (shift_left s b) = bexp b + s div 32" using l by (simp add: shift_left_def Let_def)
  assume b: "trimmed b"
  have "words_value (bigits b) \<le> words_value bs + bigit_base ^ length bs * unat c" using v(2) by simp
  then have "trimmed (b\<lparr>bigits := bs @ (if c \<noteq> 0 then [c] else [])\<rparr>)" by (rule trimmed_carry [OF b _ v(1)])
  then show "trimmed (shift_left s b)" using b l by (simp add: shift_left_def Let_def trimmed_def)
qed

text \<open>The wide product: the length of \<open>UInt\<close> is \<open>2 * h\<close>.\<close>

lemma wide_column:
  fixes L H h b c :: nat
  assumes "32 \<le> h" "L < 2 ^ h" "H < 2 ^ h" "b < bigit_base" "c < 2 ^ h * 2 ^ h"
  defines "r \<equiv> L * b + c mod bigit_base"
  defines "n \<equiv> 2 ^ (h - 32) * (H * b) + r div bigit_base + c div bigit_base"
  shows "r < 2 ^ h * 2 ^ h" "H * b < 2 ^ h * 2 ^ h" "n < 2 ^ h * 2 ^ h"
    and "r mod bigit_base + bigit_base * n = (L + 2 ^ h * H) * b + c"
proof -
  have h: "(2 :: nat) ^ h = 2 ^ (h - 32) * bigit_base"
    unfolding bigit_base_def power_add [symmetric] using assms(1) by simp
  have "1 * bigit_base \<le> 2 ^ (h - 32) * bigit_base" by (rule mult_le_mono1) simp
  then have B: "bigit_base \<le> 2 ^ h" unfolding h by simp
  have "L * b + c mod bigit_base < (L + 1) * bigit_base"
  proof -
    have "L * b + c mod bigit_base < L * b + bigit_base" by simp
    also have "\<dots> \<le> L * bigit_base + bigit_base" using assms(4) by (intro add_le_mono1 mult_le_mono2) simp
    finally show ?thesis by simp
  qed
  also have "\<dots> \<le> 2 ^ h * 2 ^ h" using assms(2) B by (intro mult_le_mono) simp_all
  finally show "r < 2 ^ h * 2 ^ h" unfolding r_def .
  show "H * b < 2 ^ h * 2 ^ h" using assms(3,4) B by (intro mult_strict_mono) simp_all
  have "bigit_base * n = 2 ^ h * (H * b) + bigit_base * (r div bigit_base) + bigit_base * (c div bigit_base)"
    unfolding n_def h by (simp add: distrib_left mult.assoc mult.left_commute)
  then have "r mod bigit_base + bigit_base * n = 2 ^ h * (H * b) + r + bigit_base * (c div bigit_base)" by simp
  then show eq: "r mod bigit_base + bigit_base * n = (L + 2 ^ h * H) * b + c"
    unfolding r_def by (simp add: distrib_right mult.assoc)
  have v: "L + 2 ^ h * H + 1 \<le> 2 ^ h * 2 ^ h"
  proof -
    have "L + 2 ^ h * H + 1 \<le> 2 ^ h * (H + 1)" using assms(2) by simp
    also have "\<dots> \<le> 2 ^ h * 2 ^ h" using assms(3) by (intro mult_le_mono2) simp
    finally show ?thesis .
  qed
  have "bigit_base * n \<le> (L + 2 ^ h * H) * b + c" using eq by linarith
  also have "\<dots> < (L + 2 ^ h * H) * b + 2 ^ h * 2 ^ h" using assms(5) by simp
  also have "\<dots> \<le> 2 ^ h * 2 ^ h * b + 2 ^ h * 2 ^ h" using v by (intro add_le_mono1 mult_le_mono1) simp
  also have "\<dots> = 2 ^ h * 2 ^ h * (b + 1)" by simp
  also have "\<dots> \<le> 2 ^ h * 2 ^ h * bigit_base" using assms(4) by (intro mult_le_mono2) simp
  finally show "n < 2 ^ h * 2 ^ h" by simp
qed

lemma unat_drop_bigit: "unat (drop_bit 32 (w :: 'u::len word)) = unat w div bigit_base"
  using unat_drop_bit_eq [of 32 w] by (simp only: drop_bit_eq_div [where 'a = nat] bigit_base_def)

lemma unat_to_bigit: "unat (ucast (w :: 'u::len word) :: bigit) = unat w mod bigit_base"
  by (simp add: unsigned_ucast_eq take_bit_eq_mod bigit_base_def)

lemma unat_from_bigit: "32 \<le> LENGTH('u) \<Longrightarrow> unat (ucast (b :: bigit) :: 'u::len word) = unat b"
proof -
  assume "32 \<le> LENGTH('u)"
  then have "(2 :: nat) ^ 32 \<le> 2 ^ LENGTH('u)" by (intro power_increasing) simp_all
  then have "unat b < 2 ^ LENGTH('u)" using unat_bigit [of b] unfolding bigit_base_def by linarith
  then show ?thesis by (simp add: unsigned_ucast_eq take_bit_nat_eq_self)
qed

lemma unat_mult_small: "unat v * unat w < 2 ^ LENGTH('u) \<Longrightarrow> unat (v * w :: 'u::len word) = unat v * unat w"
  by (simp add: unat_word_ariths)

lemma unat_add_small: "unat v + unat w < 2 ^ LENGTH('u) \<Longrightarrow> unat (v + w :: 'u::len word) = unat v + unat w"
  by (simp add: unat_word_ariths)

lemma unat_push_small: "2 ^ s * unat w < 2 ^ LENGTH('u) \<Longrightarrow> unat (push_bit s w :: 'u::len word) = 2 ^ s * unat w"
proof -
  assume "2 ^ s * unat w < 2 ^ LENGTH('u)"
  then have "take_bit LENGTH('u) (push_bit s (unat w)) = push_bit s (unat w)"
    by (intro take_bit_nat_eq_self) (simp add: push_bit_eq_mult mult.commute)
  moreover have "unat (push_bit s w) = take_bit LENGTH('u) (push_bit s (unat w))" by (rule unsigned_push_bit_eq)
  ultimately show ?thesis by (simp only: push_bit_eq_mult [where 'a = nat] mult.commute)
qed

lemma wide_step_value:
  fixes v c :: "'u::len word" and b :: bigit
  assumes "LENGTH('u) = 2 * h" "32 \<le> h"
  defines "r \<equiv> take_bit h v * ucast b + ucast (ucast c :: bigit)"
  shows "unat (ucast r :: bigit) + bigit_base * unat (push_bit (h - 32) (drop_bit h v * ucast b) + drop_bit 32 r + drop_bit 32 c) =
    unat v * unat b + unat c"
proof -
  have U: "(2 :: nat) ^ LENGTH('u) = 2 ^ h * 2 ^ h" unfolding assms(1) by (simp add: power_add mult_2)
  let ?L = "unat v mod 2 ^ h" and ?H = "unat v div 2 ^ h"
  have "unat (take_bit h v) = take_bit h (unat v)" by (rule unsigned_take_bit_eq)
  then have L: "unat (take_bit h v) = ?L" by (simp only: take_bit_eq_mod [where 'a = nat])
  have H: "unat (drop_bit h v) = ?H" using unat_drop_bit_eq [of h v] by (simp only: drop_bit_eq_div [where 'a = nat])
  have vU: "unat v < 2 ^ h * 2 ^ h" "unat c < 2 ^ h * 2 ^ h"
    using unsigned_less [of v, where 'a = nat] unsigned_less [of c, where 'a = nat] unfolding U by simp_all
  have Hs: "?H < 2 ^ h" using vU(1) by (intro less_mult_imp_div_less)
  have ub: "unat (ucast b :: 'u word) = unat b" using assms(1,2) by (intro unat_from_bigit) simp
  have uc: "unat (ucast (ucast c :: bigit) :: 'u word) = unat c mod bigit_base"
    using assms(1,2) by (simp add: unat_from_bigit unat_to_bigit)
  have Ls: "?L < 2 ^ h" by simp
  note col = wide_column [OF assms(2) Ls Hs unat_bigit [of b] vU(2)]
  have r: "unat r = ?L * unat b + unat c mod bigit_base"
  proof -
    have "unat (take_bit h v * ucast b :: 'u word) = ?L * unat b"
      using col(1) by (subst unat_mult_small) (simp_all only: L ub U)
    then show ?thesis unfolding r_def using col(1) by (subst unat_add_small) (simp_all only: U uc)
  qed
  have p: "unat (drop_bit h v * ucast b :: 'u word) = ?H * unat b"
    using col(2) by (subst unat_mult_small) (simp_all only: H ub U)
  have q: "unat (push_bit (h - 32) (drop_bit h v * ucast b) :: 'u word) = 2 ^ (h - 32) * (?H * unat b)"
    using col(3) by (subst unat_push_small) (simp_all only: p U)
  have "unat (push_bit (h - 32) (drop_bit h v * ucast b) + drop_bit 32 r) =
      2 ^ (h - 32) * (?H * unat b) + (?L * unat b + unat c mod bigit_base) div bigit_base"
    using col(3) by (subst unat_add_small) (simp_all only: q unat_drop_bigit r U)
  then have "unat (push_bit (h - 32) (drop_bit h v * ucast b) + drop_bit 32 r + drop_bit 32 c) =
      2 ^ (h - 32) * (?H * unat b) + (?L * unat b + unat c mod bigit_base) div bigit_base + unat c div bigit_base"
    using col(3) by (subst unat_add_small) (simp_all only: unat_drop_bigit U)
  then show ?thesis using col(4) unfolding unat_to_bigit r by simp
qed

lemma multiply_wide_loop_value:
  fixes v c :: "'u::len word"
  assumes "multiply_wide_loop (h - 32) (take_bit h v) (drop_bit h v) bs c = (bs', c')" "LENGTH('u) = 2 * h" "32 \<le> h"
  shows "length bs' = length bs \<and> words_value bs' + bigit_base ^ length bs * unat c' = words_value bs * unat v + unat c"
  using assms(1)
proof (induction bs arbitrary: c bs' c')
  case (Cons b bs)
  let ?r = "take_bit h v * ucast b + ucast (ucast c :: bigit)"
  let ?c = "push_bit (h - 32) (drop_bit h v * ucast b) + drop_bit 32 ?r + drop_bit 32 c"
  obtain bs1 where r: "multiply_wide_loop (h - 32) (take_bit h v) (drop_bit h v) bs ?c = (bs1, c')" "bs' = ucast ?r # bs1"
    using Cons.prems by (auto simp: Let_def split: prod.splits)
  have "words_value bs' + bigit_base ^ length (b # bs) * unat c' =
      unat (ucast ?r :: bigit) + bigit_base * (words_value bs1 + bigit_base ^ length bs * unat c')"
    using r(2) by (simp add: distrib_left mult.assoc)
  also have "\<dots> = (unat (ucast ?r :: bigit) + bigit_base * unat ?c) + bigit_base * (words_value bs * unat v)"
    using Cons.IH [OF r(1)] by (simp add: distrib_left)
  also have "\<dots> = words_value (b # bs) * unat v + unat c"
    unfolding wide_step_value [OF assms(2,3)] by (simp add: distrib_right mult.assoc)
  finally show ?case using Cons.IH [OF r(1)] r(2) by simp
qed simp

lemma push_carry_value: "words_value (push_carry c) = unat c"
proof (induction c rule: push_carry.induct)
  case (1 c)
  show ?case
  proof (cases "c = 0")
    case False
    then have "words_value (push_carry c) = unat c mod bigit_base + bigit_base * (unat c div bigit_base)"
      using 1 by (simp add: push_carry.simps [of c] unat_to_bigit unat_drop_bigit)
    then show ?thesis by simp
  qed (simp add: push_carry.simps)
qed

lemma push_carry_nil: "push_carry c = [] \<longleftrightarrow> c = 0"
  by (simp add: push_carry.simps [of c])

lemma carry_word: "w \<noteq> 0 \<Longrightarrow> drop_bit 32 w = 0 \<Longrightarrow> (ucast (w :: 'u::len word) :: bigit) \<noteq> 0"
  using unat_drop_bigit [of w] unat_to_bigit [of w] div_mult_mod_eq [of "unat w" bigit_base]
  by (metis add_0_left mult_is_0 unat_0 unat_eq_zero)

lemma push_carry_last: "c \<noteq> 0 \<Longrightarrow> last (push_carry c) \<noteq> 0"
proof (induction c rule: push_carry.induct)
  case (1 c)
  then show ?case using carry_word [of c] push_carry_nil [of "drop_bit 32 c"] by (auto simp: push_carry.simps [of c])
qed

lemma multiply_wide_value:
  fixes v :: "'u::len word"
  assumes "LENGTH('u) = 2 * h" "32 \<le> h"
  shows "big_value (multiply_wide v b) = big_value b * unat v"
    and "v \<noteq> 0 \<Longrightarrow> trimmed b \<Longrightarrow> trimmed (multiply_wide v b)"
    and "bexp (multiply_wide v b) = bexp b"
proof -
  have h: "LENGTH('u) div 2 = h" using assms(1) by simp
  obtain bs c where m: "multiply_wide_loop (h - 32) (take_bit h v) (drop_bit h v) (bigits b) 0 = (bs, c)" by fastforce
  then have v: "length bs = length (bigits b)" "words_value bs + bigit_base ^ length bs * unat c = words_value (bigits b) * unat v"
    using multiply_wide_loop_value [OF m assms] by simp_all
  have eq: "multiply_wide v b = b\<lparr>bigits := bs @ push_carry c\<rparr>" using m by (simp add: multiply_wide_def Let_def h)
  show "big_value (multiply_wide v b) = big_value b * unat v"
    using v(2) by (simp add: eq big_value_def push_carry_value mult.assoc)
  show "bexp (multiply_wide v b) = bexp b" by (simp add: eq)
  assume "v \<noteq> 0" "trimmed b"
  then have "bigits b \<noteq> []" "words_value (bigits b) \<le> words_value bs + bigit_base ^ length bs * unat c"
    using v(2) unat_eq_zero [of v] by (simp_all add: trimmed_def)
  then show "trimmed (multiply_wide v b)"
    using trimmed_carry [OF \<open>trimmed b\<close> _ v(1), of 0] push_carry_last [of c] push_carry_nil [of c]
    by (cases "c = 0") (simp_all add: eq trimmed_def)
qed

lemma word_bigits_value: "words_value (word_bigits n) = unat n \<and> (n \<noteq> 0 \<longrightarrow> last (word_bigits n) \<noteq> 0)"
proof (induction n rule: word_bigits.induct)
  case (1 n)
  show ?case
  proof (cases "drop_bit 32 n = 0")
    case True
    then show ?thesis
      using carry_word [of n] unat_drop_bigit [of n] div_mult_mod_eq [of "unat n" bigit_base]
      by (auto simp: word_bigits.simps [of n] unat_to_bigit)
  next
    case False
    then have "words_value (word_bigits n) = unat n mod bigit_base + bigit_base * (unat n div bigit_base)"
      using 1 by (simp add: word_bigits.simps [of n] unat_to_bigit unat_drop_bigit)
    then show ?thesis using 1 False by (auto simp: word_bigits.simps [of n] word_bigits.simps [of "drop_bit 32 n"])
  qed
qed

lemma set_bigint_value:
  "n \<noteq> 0 \<Longrightarrow> \<exists>b. set_bigint n = Some b \<and> big_value b = unat n \<and> trimmed b \<and> bexp b = 0"
  using word_bigits_value [of n] by (auto simp: set_bigint_def assign_word_def big_value_def trimmed_def word_gt_0 word_bigits.simps [of n])

section \<open>Squares and powers\<close>

definition products :: "bigit list \<Rightarrow> nat \<Rightarrow> nat \<Rightarrow> nat" where
  "products n i j = unat (n ! i) * unat (n ! j)"

definition column :: "bigit list \<Rightarrow> nat \<Rightarrow> nat" where
  "column n k = (\<Sum>(i, j) \<in> {(i, j). i < length n \<and> j < length n \<and> i + j = k}. products n i j)"

lemma bigit_product_value: "bigit_product n i j = of_nat (products n i j)"
proof -
  have "products n i j \<le> (bigit_base - 1) * (bigit_base - 1)"
    unfolding products_def using unat_bigit [of "n ! i"] unat_bigit [of "n ! j"] by (intro mult_le_mono) simp_all
  then have "products n i j < 2 ^ 64" by (simp add: bigit_base_def)
  then have "unat ((ucast (n ! i) :: 64 word) * ucast (n ! j)) = products n i j"
    by (simp add: products_def unat_word_ariths unat_wide)
  then show ?thesis unfolding bigit_product_def by (metis of_nat_unat)
qed

lemma cross_low_value: "cross_low n i j s = s + of_nat (\<Sum>t \<le> j. products n (i + t) (j - t))"
proof (induction j arbitrary: i s)
  case (Suc j)
  have "(\<Sum>t \<le> Suc j. products n (i + t) (Suc j - t)) = products n i (Suc j) + (\<Sum>t \<le> j. products n (Suc i + t) (j - t))"
    by (subst sum.atMost_Suc_shift) simp
  then show ?case using Suc [of "Suc i"] by (simp add: bigit_product_value)
qed (simp add: bigit_product_value)

lemma cross_high_value: "cross_high n i j s = s + of_nat (\<Sum>t < length n - i. products n (i + t) (j - t))"
proof (induction "length n - i" arbitrary: i j s)
  case 0
  then show ?case by (simp add: cross_high.simps)
next
  case (Suc m)
  then have m: "m = length n - (i + 1)" "i < length n" by simp_all
  have "(\<Sum>t < length n - i. products n (i + t) (j - t)) = (\<Sum>t < Suc m. products n (i + t) (j - t))"
    using Suc.hyps(2) by simp
  also have "\<dots> = products n i j + (\<Sum>t < m. products n (i + 1 + t) (j - 1 - t))"
    by (subst sum.lessThan_Suc_shift) simp
  finally show ?case using Suc.hyps(1) [OF m(1)] m by (simp add: cross_high.simps [of n i] bigit_product_value)
qed

lemma column_low: "k < length n \<Longrightarrow> (\<Sum>t \<le> k. products n (0 + t) (k - t)) = column n k"
  unfolding column_def
  by (rule sum.reindex_bij_witness [where i = fst and j = "\<lambda>t. (t, k - t)"]) auto

lemma column_high:
  assumes "length n \<le> k" "k < 2 * length n"
  shows "(\<Sum>t < length n - (k - (length n - 1)). products n (k - (length n - 1) + t) (length n - 1 - t)) = column n k"
  unfolding column_def
  by (rule sum.reindex_bij_witness [where i = "\<lambda>(i, j). length n - 1 - j" and j = "\<lambda>t. (k - (length n - 1) + t, length n - 1 - t)"])
    (use assms in auto)

lemma column_le: "column n k \<le> length n * (bigit_base - 1) ^ 2"
proof -
  let ?P = "{(i, j). i < length n \<and> j < length n \<and> i + j = k}"
  have sub: "?P \<subseteq> (\<lambda>i. (i, k - i)) ` {..<length n}" by force
  then have "finite ?P" by (rule finite_subset) simp
  have "card ?P \<le> length n" using card_mono [OF _ sub] card_image_le [of "{..<length n}" "\<lambda>i. (i, k - i)"] by simp
  have "products n i j \<le> (bigit_base - 1) ^ 2" for i j
    unfolding products_def power2_eq_square using unat_bigit [of "n ! i"] unat_bigit [of "n ! j"] by (intro mult_le_mono) simp_all
  then have "column n k \<le> of_nat (card ?P) * (bigit_base - 1) ^ 2"
    unfolding column_def by (intro sum_bounded_above) auto
  also have "\<dots> \<le> length n * (bigit_base - 1) ^ 2" using \<open>card ?P \<le> length n\<close> by (intro mult_le_mono1) simp
  finally show ?thesis .
qed

lemma square_columns: "(\<Sum>k < 2 * length n. bigit_base ^ k * column n k) = words_value n * words_value n"
proof -
  let ?I = "{..<length n}" and ?g = "\<lambda>(i, j). i + j"
  have w: "words_value n = (\<Sum>i < length n. unat (n ! i) * bigit_base ^ i)"
    unfolding words_value_def horner_sum_eq_sum by (simp add: lessThan_atLeast0)
  have "words_value n * words_value n = (\<Sum>i \<in> ?I. \<Sum>j \<in> ?I. unat (n ! i) * bigit_base ^ i * (unat (n ! j) * bigit_base ^ j))"
    unfolding w by (rule sum_product)
  also have "\<dots> = (\<Sum>(i, j) \<in> ?I \<times> ?I. unat (n ! i) * bigit_base ^ i * (unat (n ! j) * bigit_base ^ j))"
    by (rule sum.cartesian_product)
  also have "\<dots> = (\<Sum>(i, j) \<in> ?I \<times> ?I. bigit_base ^ (i + j) * products n i j)"
    by (intro sum.cong refl) (auto simp: products_def power_add)
  also have "\<dots> = (\<Sum>k < 2 * length n. \<Sum>p \<in> {p \<in> ?I \<times> ?I. ?g p = k}. case p of (i, j) \<Rightarrow> bigit_base ^ (i + j) * products n i j)"
    by (rule sum.group [symmetric]) auto
  also have "\<dots> = (\<Sum>k < 2 * length n. bigit_base ^ k * column n k)"
  proof (rule sum.cong [OF refl])
    fix k
    have set: "{p \<in> ?I \<times> ?I. ?g p = k} = {(i, j). i < length n \<and> j < length n \<and> i + j = k}" by auto
    show "(\<Sum>p \<in> {p \<in> ?I \<times> ?I. ?g p = k}. case p of (i, j) \<Rightarrow> bigit_base ^ (i + j) * products n i j) = bigit_base ^ k * column n k"
      unfolding set column_def sum_distrib_left by (intro sum.cong refl) auto
  qed
  finally show ?thesis ..
qed

lemma square_loop_value:
  assumes "length n \<le> 2 ^ 62" "a \<le> b" "b \<le> 2 * length n" "unat s < 2 ^ 96"
  shows "\<exists>C. words_value (square_loop n [a..<b] s) + bigit_base ^ (b - a) * C =
      (\<Sum>k \<in> {a..<b}. bigit_base ^ (k - a) * column n k) + unat s \<and> length (square_loop n [a..<b] s) = b - a"
  using assms(2-4)
proof (induction "b - a" arbitrary: a s)
  case (Suc m)
  have m: "m = b - Suc a" "Suc a \<le> b" "a < b" using Suc.hyps(2) by simp_all
  define t where "t = (if a < length n then cross_low n 0 a s else cross_high n (a - (length n - 1)) (length n - 1) s)"
  have t: "t = s + of_nat (column n a)"
    unfolding t_def using column_low [of a n] column_high [of n a] m(3) Suc.prems(2) by (simp add: cross_low_value cross_high_value)
  have "column n a \<le> 2 ^ 62 * (bigit_base - 1) ^ 2"
    using column_le [of n a] mult_le_mono1 [OF assms(1), of "(bigit_base - 1) ^ 2"] by linarith
  also have "\<dots> < 2 ^ 126" by (simp add: bigit_base_def)
  finally have ca: "column n a < 2 ^ 126" .
  then have "unat (of_nat (column n a) :: 128 word) = column n a" by (simp add: unat_of_nat take_bit_nat_eq_self)
  moreover have "unat s + column n a < 2 ^ 128" using ca Suc.prems(3) by simp
  ultimately have ut: "unat t = unat s + column n a" unfolding t by (subst unat_add_small) simp_all
  have eq: "square_loop n [a..<b] s = ucast t # square_loop n [Suc a..<b] (drop_bit 32 t)"
    using m(3) by (simp add: upt_conv_Cons t_def Let_def)
  have "unat t < 2 ^ 96 * bigit_base" using ut ca Suc.prems(3) by (simp add: bigit_base_def)
  then have "unat (drop_bit 32 t) < 2 ^ 96" unfolding unat_drop_bigit by (rule less_mult_imp_div_less)
  then obtain C where C: "words_value (square_loop n [Suc a..<b] (drop_bit 32 t)) + bigit_base ^ (b - Suc a) * C =
      (\<Sum>k \<in> {Suc a..<b}. bigit_base ^ (k - Suc a) * column n k) + unat t div bigit_base"
      "length (square_loop n [Suc a..<b] (drop_bit 32 t)) = b - Suc a"
    using Suc.hyps(1) [OF m(1,2) Suc.prems(2), of "drop_bit 32 t"] unat_drop_bigit [of t] by auto
  have "(\<Sum>k \<in> {a..<b}. bigit_base ^ (k - a) * column n k) = column n a + (\<Sum>k \<in> {Suc a..<b}. bigit_base ^ (k - a) * column n k)"
    using m(3) by (simp add: sum.atLeast_Suc_lessThan)
  also have "(\<Sum>k \<in> {Suc a..<b}. bigit_base ^ (k - a) * column n k) = bigit_base * (\<Sum>k \<in> {Suc a..<b}. bigit_base ^ (k - Suc a) * column n k)"
    unfolding sum_distrib_left by (intro sum.cong) (simp_all add: Suc_diff_Suc flip: power_Suc mult.assoc)
  finally have col: "(\<Sum>k \<in> {a..<b}. bigit_base ^ (k - a) * column n k) + unat s =
      bigit_base * (\<Sum>k \<in> {Suc a..<b}. bigit_base ^ (k - Suc a) * column n k) + unat t"
    using ut by simp
  have "words_value (square_loop n [a..<b] s) + bigit_base ^ (b - a) * C =
      unat t mod bigit_base + bigit_base * (words_value (square_loop n [Suc a..<b] (drop_bit 32 t)) + bigit_base ^ (b - Suc a) * C)"
    using m(3) by (simp add: eq unat_to_bigit distrib_left Suc_diff_Suc flip: power_Suc mult.assoc)
  also have "\<dots> = (\<Sum>k \<in> {a..<b}. bigit_base ^ (k - a) * column n k) + unat s"
    unfolding col by (rule digit_carry [OF C(1)])
  finally show ?case using C(2) m by (auto simp: eq)
qed simp

lemma square_value:
  assumes "length (bigits b) \<le> 2 ^ 62"
  shows "big_value (square b) = big_value b ^ 2" "trimmed b \<Longrightarrow> trimmed (square b)" "bexp (square b) = bexp b * 2"
proof -
  let ?n = "bigits b" and ?r = "square_loop (bigits b) [0..<2 * length (bigits b)] 0"
  obtain C where C: "words_value ?r + bigit_base ^ (2 * length ?n) * C = words_value ?n * words_value ?n" "length ?r = 2 * length ?n"
    using square_loop_value [OF assms, of 0 "2 * length ?n" 0] square_columns [of ?n] by (auto simp: lessThan_atLeast0)
  have "words_value ?n * words_value ?n < bigit_base ^ length ?n * bigit_base ^ length ?n"
    using words_value_less [of ?n] by (intro mult_strict_mono) simp_all
  also have "\<dots> = bigit_base ^ (2 * length ?n)" by (simp only: mult_2 power_add)
  finally have "bigit_base ^ (2 * length ?n) * C < bigit_base ^ (2 * length ?n) * 1" using C(1) by linarith
  then have "C = 0" unfolding mult_less_cancel1 by simp
  then have w: "words_value ?r = words_value ?n * words_value ?n" using C(1) by simp
  then show "big_value (square b) = big_value b ^ 2"
    by (simp add: square_def big_value_def remove_leading_zeros_value power2_eq_square power_mult mult.assoc mult.left_commute)
  show "bexp (square b) = bexp b * 2" by (simp add: square_def)
  assume "trimmed b"
  then have "words_value ?n \<noteq> 0" using big_value_pos [of b] by (auto simp: big_value_def)
  then have "words_value ?r \<noteq> 0" using w by simp
  then show "trimmed (square b)"
    using remove_leading_zeros_last [of ?r] remove_leading_zeros_value(3) [of ?r] by (cases "?r = []") (simp_all add: square_def trimmed_def)
qed

lemma find_mask_value:
  assumes "e < 2 ^ 30" "2 ^ k \<le> e + 1" "2 ^ k \<le> 2 * e"
  shows "\<exists>j. find_mask e (2 ^ k) = Some (2 ^ j) \<and> 2 ^ j \<le> 2 * e \<and> e < 2 ^ j"
  using assms(2,3)
proof (induction "e + 1 - 2 ^ k" arbitrary: k rule: less_induct)
  case less
  show ?case
  proof (cases "2 ^ k \<le> e")
    case True
    have step: "find_mask e (2 ^ k) = find_mask e (2 ^ Suc k)"
      using True assms(1) by (subst find_mask.simps) (simp add: mult.commute)
    show ?thesis
    proof (cases "2 ^ Suc k \<le> e + 1")
      case True
      moreover have "e + 1 - 2 ^ Suc k < e + 1 - 2 ^ k" "2 ^ Suc k \<le> 2 * e"
        using \<open>2 ^ k \<le> e\<close> by (simp_all add: diff_less_mono2)
      ultimately show ?thesis unfolding step by (intro less.hyps) simp_all
    next
      case False
      then have "e < 2 ^ Suc k" by simp
      then have "find_mask e (2 ^ Suc k) = Some (2 ^ Suc k)" by (subst find_mask.simps) simp
      then show ?thesis using step \<open>e < 2 ^ Suc k\<close> \<open>2 ^ k \<le> e\<close> by (intro exI [of _ "Suc k"]) simp
    qed
  next
    case False
    then show ?thesis using less.prems by (subst find_mask.simps) auto
  qed
qed

definition pow5 :: "nat \<Rightarrow> bigint \<Rightarrow> bool" where
  "pow5 m b \<longleftrightarrow> trimmed b \<and> bexp b = 0 \<and> big_value b = 5 ^ m"

lemma pow5_length: "pow5 m b \<Longrightarrow> m < 2 ^ 30 \<Longrightarrow> length (bigits b) \<le> 2 ^ 62"
proof -
  assume b: "pow5 m b" "m < 2 ^ 30"
  have "bigit_base ^ (length (bigits b) - 1) \<le> 5 ^ m"
    using big_value_ge [of b] b(1) by (simp add: pow5_def num_bigits_def)
  also have "(5 :: nat) ^ m \<le> bigit_base ^ m" by (rule power_mono) (simp_all add: bigit_base_def)
  finally have "length (bigits b) - 1 \<le> m" by (rule power_le_imp_le_exp [rotated]) (simp add: bigit_base_def)
  then show ?thesis using b(2) by simp
qed

lemma pow5_square: "pow5 m b \<Longrightarrow> m < 2 ^ 30 \<Longrightarrow> pow5 (2 * m) (square b)"
  using square_value [OF pow5_length] by (simp add: pow5_def power_mult [symmetric] mult.commute)

lemma pow5_times: "pow5 m b \<Longrightarrow> \<exists>b'. times32 5 b = Some b' \<and> pow5 (Suc m) b'"
  using multiply32_value [of 5 b] by (simp add: pow5_def times32_def)

lemma power_loop_value:
  assumes "e < 2 ^ 30" "pow5 (e div 2 ^ j) b"
  shows "\<exists>b'. power_loop e (2 ^ j div 2) b = Some b' \<and> pow5 e b'"
  using assms(2)
proof (induction j arbitrary: b)
  case (Suc j)
  let ?m = "e div 2 ^ Suc j"
  have half: "2 ^ Suc j div 2 = (2 :: nat) ^ j" by simp
  have m: "e div 2 ^ j = (if bit e j then Suc (2 * ?m) else 2 * ?m)"
  proof -
    have "?m = e div 2 ^ j div 2" by (simp only: power_Suc2 div_mult2_eq)
    then show ?thesis by (simp add: bit_iff_odd)
  qed
  have "?m < 2 ^ 30" using assms(1) by (meson div_le_dividend le_less_trans)
  then have sq: "pow5 (2 * ?m) (square b)" by (rule pow5_square [OF Suc.prems])
  have "\<exists>b1. (if and e (2 ^ j) \<noteq> 0 then times32 5 (square b) else Some (square b)) = Some b1 \<and> pow5 (e div 2 ^ j) b1"
    using pow5_times [OF sq] sq unfolding m and_exp_eq_0_iff_not_bit by simp
  then obtain b1 where b1: "(if and e (2 ^ j) \<noteq> 0 then times32 5 (square b) else Some (square b)) = Some b1" "pow5 (e div 2 ^ j) b1"
    by blast
  have "power_loop e (2 ^ j) b = power_loop e (2 ^ j div 2) b1"
    by (subst power_loop.simps, subst b1(1)) simp
  then show ?case unfolding half using Suc.IH [OF b1(2)] by simp
qed (simp add: power_loop.simps)

lemma assign_pow10_value:
  assumes "e < 2 ^ 30"
  shows "\<exists>b. assign_pow10 e = Some b \<and> big_value b = 10 ^ e \<and> trimmed b \<and> bexp b = e div 32"
proof (cases "e = 0")
  case True
  then show ?thesis using set_bigint_value [of "1 :: 64 word"] by (simp add: assign_pow10_def)
next
  case False
  obtain j where j: "find_mask e 1 = Some (2 ^ j)" "2 ^ j \<le> 2 * e" "e < 2 ^ j"
    using find_mask_value [OF assms, of 0] False by auto
  obtain i where i: "j = Suc i" using j(3) False by (cases j) auto
  have "e div 2 ^ i = 1" using j(2,3) i by (intro div_nat_eqI) simp_all
  moreover obtain b where b: "set_bigint (5 :: 64 word) = Some b" "big_value b = 5" "trimmed b" "bexp b = 0"
    using set_bigint_value [of "5 :: 64 word"] by auto
  ultimately have "pow5 (e div 2 ^ i) b" by (simp add: pow5_def)
  then obtain b' where b': "power_loop e (2 ^ i div 2) b = Some b'" "pow5 e b'" using power_loop_value [OF assms] by blast
  have "assign_pow10 e = Some (shift_left e b')" using False j(1) b(1) b'(1) i by (simp add: assign_pow10_def)
  moreover have "big_value (shift_left e b') = 10 ^ e"
    using b'(2) shift_left_value(1) [where s = e and b = b'] by (simp add: pow5_def flip: power_mult_distrib)
  ultimately show ?thesis using b'(2) by (simp add: pow5_def shift_left_value)
qed

section \<open>Properties\<close>

text \<open>
  C10: On the values, the operations are those of the natural numbers: products by 32, 64 and 128 bits,
  shifts, assignment, squares (up to \<open>2 ^ 62\<close> words), powers of ten (below \<open>2 ^ 30\<close>) and the subtraction of an aligned
  smaller number. A factor or a value of 0 violates an assertion; nothing else fails, no access leaves the words and no
  intermediate result overflows its machine word.
\<close>

theorem bigint_refines_nat:
  assumes "trimmed a" "trimmed b" "bexp a \<le> bexp b" "big_value b \<le> big_value a" "length (bigits b) \<le> 2 ^ 62" "e < 2 ^ 30"
  shows "map_option big_value (times32 v b) = (if v = 0 then None else Some (big_value b * unat v)) \<and>
    map_option big_value (times_wide (w :: 64 word) b) = (if w = 0 then None else Some (big_value b * unat w)) \<and>
    map_option big_value (times_wide (x :: 128 word) b) = (if x = 0 then None else Some (big_value b * unat x)) \<and>
    map_option big_value (set_bigint x) = (if x = 0 then None else Some (unat x)) \<and>
    big_value (shift_left s b) = big_value b * 2 ^ s \<and>
    big_value (square b) = big_value b ^ 2 \<and>
    map_option big_value (assign_pow10 e) = Some (10 ^ e) \<and>
    map_option big_value (subtract_aligned a b) = Some (big_value a - big_value b)"
proof (intro conjI)
  show "map_option big_value (times32 v b) = (if v = 0 then None else Some (big_value b * unat v))"
    by (simp add: times32_def multiply32_value word_gt_0)
  show "map_option big_value (times_wide w b) = (if w = 0 then None else Some (big_value b * unat w))"
    using multiply_wide_value(1) [of 32 w b] by (simp add: times_wide_def word_gt_0)
  show "map_option big_value (times_wide x b) = (if x = 0 then None else Some (big_value b * unat x))"
    using multiply_wide_value(1) [of 64 x b] by (simp add: times_wide_def word_gt_0)
  show "map_option big_value (set_bigint x) = (if x = 0 then None else Some (unat x))"
  proof (cases "x = 0")
    case False
    then show ?thesis using set_bigint_value [of x] by auto
  qed (simp add: set_bigint_def)
  show "map_option big_value (assign_pow10 e) = Some (10 ^ e)" using assign_pow10_value [OF assms(6)] by auto
  show "map_option big_value (subtract_aligned a b) = Some (big_value a - big_value b)"
    using subtract_aligned_value [OF assms(2) _ assms(3,4)] assms(1) by (auto simp: normal_def)
qed (use assms(5) in \<open>simp_all add: shift_left_value square_value\<close>)

theorem bigint_refines_nat_witness:
  "map_option big_value (subtract_aligned \<lparr>bigits = [0, 1], bexp = 0\<rparr> \<lparr>bigits = [1], bexp = 0\<rparr>) = Some 4294967295 \<and>
    map_option big_value (assign_pow10 30) = Some (10 ^ 30)"
  using bigint_refines_nat [of "\<lparr>bigits = [0, 1], bexp = 0\<rparr>" "\<lparr>bigits = [1], bexp = 0\<rparr>" 30]
  by (simp add: trimmed_def big_value_def bigit_base_def)

lemma equal_values:
  assumes "trimmed a" "trimmed b" "big_value a = big_value b"
  shows "num_bigits a \<le> num_bigits b"
  using big_value_less [of b] base_power_less [of "num_bigits b" "num_bigits a"] big_value_ge [OF assms(1)] assms(3) by linarith

text \<open>The case that \<open>divmod_assign_value\<close> leaves out: equal numbers, where the dividend has the larger exponent and so fewer words.\<close>

lemma divmod_assign_unequal:
  assumes d: "trimmed d" and n: "normal n" and eq: "big_value n = big_value d" "bexp d < bexp n"
  shows "divmod_assign n d = Some (n, 0)"
proof -
  have "0 < big_value n" using big_value_pos [OF d] eq(1) by simp
  then have t: "trimmed n" using n normal_zero [OF n] by (auto simp: normal_def)
  have "num_bigits n = num_bigits d"
    using equal_values [OF t d eq(1)] equal_values [OF d t eq(1) [symmetric]] by (rule order_antisym)
  then have "length (bigits n) < length (bigits d)" using eq(2) by (simp add: num_bigits_def)
  then have "compare_big n d = -1" using compare_big_value [OF d, of n] t eq(1) by (simp add: sign_def)
  then show ?thesis by (simp add: divmod_assign_def)
qed



text \<open>Two forms of one number: the comparison tells them apart, and the division finds the quotient 0.\<close>

lemma unequal_forms:
  "big_value \<lparr>bigits = [1], bexp = 1\<rparr> = big_value \<lparr>bigits = [0, 1], bexp = 0\<rparr>"
  "compare_big \<lparr>bigits = [1], bexp = 1\<rparr> \<lparr>bigits = [0, 1], bexp = 0\<rparr> = -1"
  "divmod_assign \<lparr>bigits = [1], bexp = 1\<rparr> \<lparr>bigits = [0, 1], bexp = 0\<rparr> = Some (\<lparr>bigits = [1], bexp = 1\<rparr>, 0)"
  by (simp_all add: divmod_assign_def compare_big_def num_bigits_def big_value_def compare_loop.simps Let_def)

end
