(* ===== verification/Fmt_Dragon.thy ===== *)
theory Fmt_Dragon
  imports Complex_Main Fmt_Base Fmt_Bigint "HOL-Library.Monad_Syntax"
begin

unbundle bit_operations_syntax

text \<open>
  \<open>format_dragon\<close> of \<^verbatim>\<open>base/fmt/format.h\<close>, the exact printing of a binary floating-point number \<open>f * 2 ^ e\<close> with the numbers of
  \<open>Fmt_Bigint\<close>: the shortest digits that lie between the neighbours, or a given number of digits, rounded half to even. \<open>None\<close> is an
  assertion of \<open>bigint\<close>, and for the shortest digits a loop without end. The buffer is the string in it.
\<close>

record basic_fp =
  fp_f :: "128 word"
  fp_e :: int

definition predecessor_closer :: "32 word" where "predecessor_closer = 1"
definition fixup :: "32 word" where "fixup = 2"
definition fixed :: "32 word" where "fixed = 4"

definition has_flag :: "32 word \<Rightarrow> 32 word \<Rightarrow> bool" where
  "has_flag flags flag \<longleftrightarrow> flags AND flag \<noteq> 0"

section \<open>The scaled numbers\<close>

text \<open>\<open>upper\<close> points to \<open>lower\<close> (\<open>None\<close>) unless the predecessor is closer.\<close>

record scaled =
  numerator :: bigint
  denominator :: bigint
  lower :: bigint
  upper_store :: "bigint option"

definition upper :: "scaled \<Rightarrow> bigint" where
  "upper s = (case upper_store s of None \<Rightarrow> lower s | Some u \<Rightarrow> u)"

definition scale :: "basic_fp \<Rightarrow> bool \<Rightarrow> int \<Rightarrow> scaled option" where
  "scale v is_predecessor_closer exp10 =
     (let shift = (if is_predecessor_closer then 2 else 1) :: nat
      in if fp_e v \<ge> 0 then do {
           n \<leftarrow> set_bigint (fp_f v);
           let n = shift_left (nat (fp_e v) + shift) n;
           l \<leftarrow> set_bigint (1 :: 64 word);
           let l = shift_left (nat (fp_e v)) l;
           u \<leftarrow> (if is_predecessor_closer
                then map_option (\<lambda>u. Some (shift_left (nat (fp_e v) + 1) u)) (set_bigint (1 :: 64 word))
                else Some None);
           d \<leftarrow> (if exp10 \<ge> 0 then assign_pow10 (nat exp10) else None);
           Some \<lparr>numerator = n, denominator = shift_left shift d, lower = l, upper_store = u\<rparr>
         }
         else if exp10 < 0 then do {
           n \<leftarrow> assign_pow10 (nat (- exp10));
           let l = n;
           let u = (if is_predecessor_closer then Some (shift_left 1 n) else None);
           n \<leftarrow> times_wide (fp_f v) n;
           let n = shift_left shift n;
           d \<leftarrow> set_bigint (1 :: 64 word);
           Some \<lparr>numerator = n, denominator = shift_left (nat (int shift - fp_e v)) d, lower = l, upper_store = u\<rparr>
         }
         else do {
           n \<leftarrow> set_bigint (fp_f v);
           let n = shift_left shift n;
           d \<leftarrow> assign_pow10 (nat exp10);
           let d = shift_left (nat (int shift - fp_e v)) d;
           l \<leftarrow> set_bigint (1 :: 64 word);
           u \<leftarrow> (if is_predecessor_closer then map_option Some (set_bigint (2 :: 64 word)) else Some None);
           Some \<lparr>numerator = n, denominator = d, lower = l, upper_store = u\<rparr>
         })"

definition times_ten :: "scaled \<Rightarrow> scaled option" where
  "times_ten s = do {
     n \<leftarrow> times32 10 (numerator s);
     l \<leftarrow> times32 10 (lower s);
     u \<leftarrow> (case upper_store s of None \<Rightarrow> Some None | Some u \<Rightarrow> map_option Some (times32 10 u));
     Some (s\<lparr>numerator := n, lower := l, upper_store := u\<rparr>)
   }"

text \<open>The correction of an estimate of \<open>exp10\<close> that may be too large by one.\<close>

definition fix_exponent :: "int \<Rightarrow> int \<Rightarrow> scaled \<Rightarrow> int \<Rightarrow> (scaled \<times> int) option" where
  "fix_exponent ev num_digits s exp10 =
     (if add_compare (numerator s) (upper s) (denominator s) + ev \<le> 0 then
        (if num_digits < 0 then map_option (\<lambda>s. (s, exp10 - 1)) (times_ten s)
         else map_option (\<lambda>n. (s\<lparr>numerator := n\<rparr>, exp10 - 1)) (times32 10 (numerator s)))
      else Some (s, exp10))"

text \<open>\<open>None\<close> is the exception for a precision that is too large.\<close>

definition adjust_precision :: "int \<Rightarrow> int \<Rightarrow> int option" where
  "adjust_precision precision exp10 =
     (if exp10 > 0 \<and> precision > 2 ^ 31 - 1 - exp10 then None else Some (precision + exp10))"

section \<open>The digits\<close>

definition bump :: "char \<Rightarrow> char" where
  "bump c = char_of (of_char c + 1 :: nat)"

partial_function (option) shortest_loop :: "int \<Rightarrow> scaled \<Rightarrow> string \<Rightarrow> string option" where
  "shortest_loop ev s data = do {
     (n, digit) \<leftarrow> divmod_assign (numerator s) (denominator s);
     let low = compare_big n (lower s) - ev < 0;
     let high = add_compare n (upper s) (denominator s) + ev > 0;
     let c = digit_char (nat digit);
     if low \<or> high then
       (if \<not> low then Some (data @ [bump c])
        else if high then
          (let result = add_compare n n (denominator s)
           in if result > 0 \<or> (result = 0 \<and> digit mod 2 \<noteq> 0) then Some (data @ [bump c]) else Some (data @ [c]))
        else Some (data @ [c]))
     else do {
       s \<leftarrow> times_ten (s\<lparr>numerator := n\<rparr>);
       shortest_loop ev s (data @ [c])
     }
   }"

fun digits_loop :: "nat \<Rightarrow> bigint \<Rightarrow> bigint \<Rightarrow> (string \<times> bigint) option" where
  "digits_loop 0 d n = Some ([], n)"
| "digits_loop (Suc k) d n = do {
     (n, digit) \<leftarrow> divmod_assign n d;
     n \<leftarrow> times32 10 n;
     (buf, n) \<leftarrow> digits_loop k d n;
     Some (digit_char (nat digit) # buf, n)
   }"

text \<open>A digit of ten, the character behind \<open>9\<close>, is carried to the left.\<close>

definition overflow :: char where
  "overflow = digit_char 10"

fun carry_loop :: "nat \<Rightarrow> string \<Rightarrow> string" where
  "carry_loop 0 buf = buf"
| "carry_loop (Suc i) buf =
     (if buf ! Suc i = overflow then carry_loop i (buf[Suc i := CHR ''0'', i := bump (buf ! i)]) else buf)"

definition round_up_nine :: "bool \<Rightarrow> string \<Rightarrow> int \<Rightarrow> string \<times> int" where
  "round_up_nine is_fixed buf exp10 =
     (let buf = carry_loop (length buf) (buf @ [overflow])
      in if buf ! 0 = overflow then
           (if is_fixed then (buf[0 := CHR ''1''] @ ''0'', exp10) else (buf[0 := CHR ''1''], exp10 + 1))
         else (buf, exp10))"

definition given_digits :: "bool \<Rightarrow> int \<Rightarrow> bigint \<Rightarrow> bigint \<Rightarrow> string \<Rightarrow> int \<Rightarrow> (string \<times> int) option" where
  "given_digits is_fixed num_digits n d buf exp10 =
     (let exp10 = exp10 - (num_digits - 1)
      in if num_digits \<le> 0 then
           (if num_digits = 0 then do {
              d \<leftarrow> times32 10 d;
              Some (buf @ [if add_compare n n d > 0 then CHR ''1'' else CHR ''0''], exp10)
            }
            else Some (buf @ ''0'', exp10))
         else do {
           (buf, n) \<leftarrow> digits_loop (nat (num_digits - 1)) d n;
           (n, digit) \<leftarrow> divmod_assign n d;
           let result = add_compare n n d;
           if result > 0 \<or> (result = 0 \<and> digit mod 2 \<noteq> 0) then
             (if digit = 9 then Some (round_up_nine is_fixed buf exp10)
              else Some (buf @ [digit_char (nat (digit + 1))], exp10))
           else Some (buf @ [digit_char (nat digit)], exp10)
         })"

section \<open>The function\<close>

datatype dragon_result = Number_too_big | Printed string int

definition format_dragon :: "basic_fp \<Rightarrow> 32 word \<Rightarrow> int \<Rightarrow> string \<Rightarrow> int \<Rightarrow> dragon_result option" where
  "format_dragon v flags num_digits buf exp10 = do {
     s \<leftarrow> scale v (has_flag flags predecessor_closer) exp10;
     let ev = (if fp_f v AND 1 = 0 then 1 else 0);
     let shortest = num_digits < 0;
     (s, exp10) \<leftarrow> (if has_flag flags fixup then fix_exponent ev num_digits s exp10 else Some (s, exp10));
     (case (if has_flag flags fixup \<and> has_flag flags fixed then adjust_precision num_digits (exp10 + 1) else Some num_digits) of
        None \<Rightarrow> Some Number_too_big
      | Some num_digits \<Rightarrow>
          if shortest then do {
            text \<leftarrow> shortest_loop ev s [];
            Some (Printed text (exp10 - (int (length text) - 1)))
          }
          else do {
            (text, exp10) \<leftarrow> given_digits (has_flag flags fixed) num_digits (numerator s) (denominator s) buf exp10;
            Some (Printed text exp10)
          })
   }"

section \<open>Loops over the digits\<close>

lemma normal_times: "normal n \<Longrightarrow> v \<noteq> 0 \<Longrightarrow>
  \<exists>m. times32 v n = Some m \<and> normal m \<and> bexp m = bexp n \<and> big_value m = unat v * big_value n"
  using multiply32_value [of v n]
  by (cases "trimmed n") (auto simp: normal_def times32_def word_gt_0 multiply32_def)

text \<open>
  The state of a loop over the digits: \<open>N\<close> is less than ten times the denominator, and if its exponent is larger, then it
  is not the denominator itself.
\<close>

definition ready :: "bigint \<Rightarrow> bigint \<Rightarrow> bool" where
  "ready n d \<longleftrightarrow> trimmed d \<and> normal n \<and> (trimmed n \<or> num_bigits n \<le> num_bigits d) \<and>
     (bexp n \<le> bexp d \<or> big_value d < big_value n) \<and> big_value n < 10 * big_value d"

lemma ready_divmod:
  assumes "ready n d"
  shows "\<exists>r. divmod_assign n d = Some (r, int (big_value n div big_value d)) \<and> big_value n div big_value d < 10 \<and>
    normal r \<and> bexp r \<le> bexp n \<and> bexp r \<le> bexp d \<and> big_value r = big_value n mod big_value d"
proof -
  have n: "trimmed d" "normal n" "trimmed n \<or> num_bigits n \<le> num_bigits d" "big_value n = big_value d \<Longrightarrow> bexp n \<le> bexp d"
    using assms by (auto simp: ready_def)
  obtain r where r: "divmod_assign n d = Some (r, int (big_value n div big_value d))" "normal r" "bexp r \<le> bexp n"
      "big_value r = big_value n mod big_value d" "big_value d \<le> big_value n \<longrightarrow> bexp r \<le> bexp d"
    using divmod_assign_value [OF n] by auto
  moreover have "bexp r \<le> bexp d" using r(3,5) assms by (auto simp: ready_def)
  moreover have "big_value n div big_value d < 10" using assms by (simp add: ready_def less_mult_imp_div_less)
  ultimately show ?thesis by blast
qed

lemma ready_times:
  assumes "trimmed d" "normal r" "bexp r \<le> bexp d" "big_value r < big_value d"
  shows "\<exists>m. times32 10 r = Some m \<and> ready m d \<and> bexp m = bexp r \<and> big_value m = 10 * big_value r"
  using normal_times [OF assms(2), of 10] assms normal_short [OF _ assms(1)] by (auto simp: ready_def)

lemma ready_step:
  assumes "ready n d"
  shows "\<exists>r m. divmod_assign n d = Some (r, int (big_value n div big_value d)) \<and> big_value n div big_value d < 10 \<and>
    times32 10 r = Some m \<and> ready m d \<and> bexp m \<le> bexp d \<and> big_value m = 10 * (big_value n mod big_value d)"
proof -
  obtain r where r: "divmod_assign n d = Some (r, int (big_value n div big_value d))" "big_value n div big_value d < 10"
      "normal r" "bexp r \<le> bexp d" "big_value r = big_value n mod big_value d"
    using ready_divmod [OF assms] by auto
  have d: "trimmed d" using assms by (simp add: ready_def)
  then have "big_value r < big_value d" using r(5) big_value_pos [OF d] by simp
  then show ?thesis using ready_times [OF d r(3,4)] r by auto
qed

definition all_digits :: "string \<Rightarrow> bool" where
  "all_digits s \<longleftrightarrow> (\<forall>c \<in> set s. \<exists>q < 10. c = digit_char q)"

lemma all_digits_simps [simp]:
  "all_digits []"
  "all_digits (c # s) \<longleftrightarrow> (\<exists>q < 10. c = digit_char q) \<and> all_digits s"
  "all_digits (s @ t) \<longleftrightarrow> all_digits s \<and> all_digits t"
  by (auto simp: all_digits_def)

lemma digit_char_ok [simp]: "q < 10 \<Longrightarrow> \<exists>p < 10. digit_char q = digit_char p"
  by blast

lemma all_digits_zeros [simp]: "all_digits (replicate k (CHR ''0''))"
  by (auto simp: all_digits_def digit_char_0)

lemma dec_value_Cons: "q < 10 \<Longrightarrow> dec_value (digit_char q # s) = q * 10 ^ length s + dec_value s"
proof (induction s rule: rev_induct)
  case (snoc c s)
  have "dec_value ((digit_char q # s) @ [c]) = dec_value (digit_char q # s) * 10 + (of_char c - 48)"
    "dec_value (s @ [c]) = dec_value s * 10 + (of_char c - 48)"
    by (simp_all add: dec_value_def)
  then show ?case using snoc by simp
qed (simp add: dec_value_def)

lemma ten_times_sum: "(a :: nat) = b + c \<Longrightarrow> 10 ^ Suc k * a = 10 ^ Suc k * b + 10 ^ k * (10 * c)"
  by (simp add: distrib_left)

lemma digits_loop_value:
  assumes "ready n d"
  shows "\<exists>buf m. digits_loop k d n = Some (buf, m) \<and> length buf = k \<and> all_digits buf \<and> ready m d \<and>
    10 ^ k * big_value n = 10 * dec_value buf * big_value d + big_value m"
  using assms
proof (induction k arbitrary: n)
  case (Suc k)
  let ?q = "big_value n div big_value d"
  obtain r m where r: "divmod_assign n d = Some (r, int ?q)" "?q < 10" "times32 10 r = Some m" "ready m d"
      "big_value m = 10 * (big_value n mod big_value d)"
    using ready_step [OF Suc.prems] by auto
  obtain buf m' where b: "digits_loop k d m = Some (buf, m')" "length buf = k" "all_digits buf" "ready m' d"
      "10 ^ k * big_value m = 10 * dec_value buf * big_value d + big_value m'"
    using Suc.IH [OF r(4)] by auto
  have "10 ^ Suc k * big_value n = 10 ^ Suc k * (big_value d * ?q) + 10 ^ k * big_value m"
    unfolding r(5) by (rule ten_times_sum) simp
  also have "\<dots> = 10 * dec_value (digit_char ?q # buf) * big_value d + big_value m'"
    unfolding b(5) dec_value_Cons [OF r(2)] b(2) by (simp add: distrib_left distrib_right mult.commute mult.left_commute)
  finally show ?case using r b by (auto simp: all_digits_def)
qed (simp add: all_digits_def)

section \<open>Carrying\<close>

lemma bump_digit: "q < 10 \<Longrightarrow> bump (digit_char q) = digit_char (Suc q)"
  by (simp add: bump_def digit_char_def)

lemma of_char_digit: "q \<le> 10 \<Longrightarrow> of_char (digit_char q) = (48 + q :: nat)"
  by (simp add: digit_char_def)

lemma digit_char_overflow: "q \<le> 10 \<Longrightarrow> digit_char q = overflow \<longleftrightarrow> q = 10"
proof
  assume "q \<le> 10" "digit_char q = overflow"
  then have "(48 + q :: nat) = 48 + 10" using of_char_digit [of q] of_char_digit [of 10] by (simp add: overflow_def)
  then show "q = 10" by simp
qed (simp add: overflow_def)

lemma dec_value_append: "dec_value (xs @ ys) = dec_value xs * 10 ^ length ys + dec_value ys"
proof (induction ys rule: rev_induct)
  case (snoc y ys)
  have "dec_value ((xs @ ys) @ [y]) = dec_value (xs @ ys) * 10 + (of_char y - 48)"
    "dec_value (ys @ [y]) = dec_value ys * 10 + (of_char y - 48)" by (simp_all only: dec_value_def foldl_append) simp_all
  then show ?case using snoc by simp
qed simp

lemma carry_loop_value:
  assumes "all_digits ds"
  shows "\<exists>buf. carry_loop (length ds) (ds @ overflow # replicate k (CHR ''0'')) = buf \<and> length buf = length ds + 1 + k \<and>
    ((all_digits buf \<and> dec_value buf = (dec_value ds + 1) * 10 ^ Suc k) \<or>
     (buf = overflow # replicate (length ds + k) (CHR ''0'') \<and> dec_value ds + 1 = 10 ^ length ds))"
  using assms
proof (induction ds arbitrary: k rule: rev_induct)
  case (snoc c ds)
  obtain q where q: "q < 10" "c = digit_char q" using snoc.prems by (auto simp: all_digits_def)
  have ds: "all_digits ds" using snoc.prems by (simp add: all_digits_def)
  have step: "carry_loop (length (ds @ [c])) ((ds @ [c]) @ overflow # replicate k (CHR ''0'')) =
      carry_loop (length ds) (ds @ digit_char (Suc q) # replicate (Suc k) (CHR ''0''))"
    using q by (simp add: nth_append list_update_append bump_digit)
  show ?case
  proof (cases "q = 9")
    case True
    then have "digit_char (Suc q) = overflow" by (simp add: overflow_def)
    moreover have "dec_value (ds @ [c]) + 1 = (dec_value ds + 1) * 10"
      using q True by (simp add: dec_value_snoc)
    ultimately show ?thesis using snoc.IH [OF ds, of "Suc k"] unfolding step by (auto simp: algebra_simps)
  next
    case False
    then have u: "digit_char (Suc q) \<noteq> overflow" "Suc q < 10" using q(1) digit_char_overflow [of "Suc q"] by auto
    let ?buf = "ds @ digit_char (Suc q) # replicate (Suc k) (CHR ''0'')"
    have "carry_loop (length ds) ?buf = ?buf"
      using u(1) by (cases "length ds") (simp_all add: nth_append)
    moreover have "all_digits ?buf" using ds u(2) by (simp del: replicate_Suc)
    moreover have "dec_value ?buf = (dec_value (ds @ [c]) + 1) * 10 ^ Suc k"
    proof -
      have "dec_value (digit_char (Suc q) # replicate (Suc k) (CHR ''0'')) = Suc q * 10 ^ Suc k"
        using dec_value_zeros [of "Suc k" "[]"] unfolding dec_value_Cons [OF u(2)] by simp
      then show ?thesis unfolding dec_value_append [of ds] q(2) dec_value_snoc [OF q(1)] by (simp add: distrib_right)
    qed
    ultimately show ?thesis unfolding step by (intro exI [of _ ?buf]) simp
  qed
qed (auto simp: all_digits_def)

section \<open>A given number of digits\<close>

text \<open>The multiple \<open>m\<close> of \<open>u\<close> that is nearest to \<open>v\<close>, the even one of two.\<close>

definition nearest :: "rat \<Rightarrow> rat \<Rightarrow> nat \<Rightarrow> bool" where
  "nearest v u m \<longleftrightarrow> 2 * \<bar>of_nat m * u - v\<bar> \<le> u \<and> (2 * \<bar>of_nat m * u - v\<bar> = u \<longrightarrow> even m)"

lemma nearest_scale: "0 < c \<Longrightarrow> nearest (v * c) (u * c) m \<longleftrightarrow> nearest v u m"
proof -
  assume c: "0 < c"
  have "of_nat m * (u * c) - v * c = (of_nat m * u - v) * c" by (simp add: algebra_simps)
  then have "2 * \<bar>of_nat m * (u * c) - v * c\<bar> = 2 * \<bar>of_nat m * u - v\<bar> * c" using c by (simp add: abs_mult)
  then show ?thesis using c unfolding nearest_def by simp
qed

lemma nearest_quotient:
  assumes "r < D"
  shows "nearest (of_nat (M * D + r)) (of_nat D) (if 2 * r > D \<or> (2 * r = D \<and> odd M) then M + 1 else M)"
proof -
  have le: "(2 * of_nat r :: rat) \<le> of_nat D \<longleftrightarrow> 2 * r \<le> D" "(of_nat D :: rat) \<le> 2 * of_nat r \<longleftrightarrow> D \<le> 2 * r"
    using of_nat_le_iff [of "2 * r" D, where 'a = rat] of_nat_le_iff [of D "2 * r", where 'a = rat] by simp_all
  have eq: "2 * of_nat r = (of_nat D :: rat) \<longleftrightarrow> 2 * r = D"
    using of_nat_eq_iff [of "2 * r" D, where 'a = rat] by simp
  have lt: "(of_nat r :: rat) < of_nat D" using assms by simp
  show ?thesis
  proof (cases "2 * r > D \<or> (2 * r = D \<and> odd M)")
    case True
    have "of_nat (M + 1) * of_nat D - of_nat (M * D + r) = (of_nat D - of_nat r :: rat)" by (simp add: algebra_simps)
    then have "2 * \<bar>of_nat (M + 1) * of_nat D - of_nat (M * D + r)\<bar> = (2 * (of_nat D - of_nat r) :: rat)" using lt by simp
    moreover have "(2 * (of_nat D - of_nat r) :: rat) \<le> of_nat D" 
    proof -
      have "D \<le> 2 * r" using True by linarith
      then show ?thesis using le(2) by (simp add: algebra_simps)
    qed
    moreover have "(2 * (of_nat D - of_nat r) :: rat) = of_nat D \<Longrightarrow> 2 * r = D" using eq by (simp add: algebra_simps)
    ultimately show ?thesis using True by (simp add: nearest_def) auto
  next
    case False
    have "of_nat M * of_nat D - of_nat (M * D + r) = (- of_nat r :: rat)" by simp
    then have "2 * \<bar>of_nat M * of_nat D - of_nat (M * D + r)\<bar> = (2 * of_nat r :: rat)" by simp
    moreover have "(2 * of_nat r :: rat) \<le> of_nat D" using le(1) False by simp
    ultimately show ?thesis unfolding if_not_P [OF False] nearest_def using False eq by auto
  qed
qed

lemma digit_value: "q < 10 \<Longrightarrow> dec_value [digit_char q] = q"
  by (simp add: dec_value_def)

lemma round_up_nine_value:
  assumes "all_digits ds"
  shows "\<exists>text e. round_up_nine is_fixed ds x = (text, e) \<and> all_digits text \<and> length ds < length text \<and> x \<le> e \<and>
    of_nat (dec_value text) * 10 powi e = (of_nat (10 * dec_value ds + 10) * 10 powi x :: rat)"
proof -
  obtain buf where b: "carry_loop (length ds) (ds @ [overflow]) = buf" "length buf = length ds + 1"
      "(all_digits buf \<and> dec_value buf = (dec_value ds + 1) * 10) \<or>
       (buf = overflow # replicate (length ds) (CHR ''0'') \<and> dec_value ds + 1 = 10 ^ length ds)"
    using carry_loop_value [OF assms, of 0] by auto
  from b(3) show ?thesis
  proof (elim disjE conjE)
    assume a: "all_digits buf" "dec_value buf = (dec_value ds + 1) * 10"
    have "buf ! 0 \<noteq> overflow"
    proof -
      obtain q where "q < 10" "buf ! 0 = digit_char q" using a(1) b(2) by (cases buf) auto
      then show ?thesis using digit_char_overflow [of q] by simp
    qed
    then show ?thesis using a b(1,2) by (simp add: round_up_nine_def)
  next
    assume o: "buf = overflow # replicate (length ds) (CHR ''0'')" "dec_value ds + 1 = 10 ^ length ds"
    let ?one = "CHR ''1'' # replicate (length ds) (CHR ''0'')"
    have one: "CHR ''1'' = digit_char 1" by (simp add: digit_char_def char_of_eq_iff eq_commute [of "CHR ''1''"])
    have v: "dec_value ?one = 10 ^ length ds"
      using dec_value_zeros [of "length ds" "[]"] dec_value_Cons [of 1 "replicate (length ds) (CHR ''0'')"] by (simp add: one)
    have ten: "10 * dec_value ds + 10 = 10 * 10 ^ length ds" using o(2) by simp
    have d: "all_digits ?one" "all_digits (?one @ ''0'')" using all_digits_zeros [of 1] by (auto simp: one)
    have v0: "dec_value (?one @ ''0'') = 10 * 10 ^ length ds"
      using dec_value_zeros [of 1 "[]"] unfolding dec_value_append v by simp
    show ?thesis
      using b(1) o(1) d v v0 unfolding ten
      by (cases is_fixed) (simp_all add: round_up_nine_def power_int_add)
  qed
qed

lemma given_digits_value:
  assumes "ready n d"
  shows "\<exists>text e M. given_digits is_fixed p n d [] x = Some (text, e) \<and> text \<noteq> [] \<and> all_digits text \<and> x - (p - 1) \<le> e \<and>
    of_nat (dec_value text) * 10 powi e = (of_nat M * 10 powi (x - (p - 1)) :: rat) \<and>
    nearest (of_nat (big_value n) / of_nat (big_value d) * 10 powi x) (10 powi (x - (p - 1))) M \<and>
    (1 \<le> p \<longrightarrow> nat p \<le> length text)"
proof -
  let ?N = "big_value n" and ?D = "big_value d"
  have d: "trimmed d" and n10: "?N < 10 * ?D" using assms by (simp_all add: ready_def)
  note D0 = big_value_pos [OF d]
  consider "p \<ge> 1" | "p = 0" | "p < 0" by linarith
  then show ?thesis
  proof cases
    case 1
    define k where "k = nat (p - 1)"
    have p: "p - 1 = int k" using 1 by (simp add: k_def)
    obtain buf m where b: "digits_loop k d n = Some (buf, m)" "length buf = k" "all_digits buf" "ready m d"
        "10 ^ k * ?N = 10 * dec_value buf * ?D + big_value m"
      using digits_loop_value [OF assms] by blast
    let ?q = "big_value m div ?D"
    obtain r where r: "divmod_assign m d = Some (r, int ?q)" "?q < 10" "normal r" "bexp r \<le> bexp d"
        "big_value r = big_value m mod ?D"
      using ready_divmod [OF b(4)] by auto
    have rD: "big_value r < ?D" using r(5) D0 by simp
    define M where "M = 10 * dec_value buf + ?q"
    have NM: "10 ^ k * ?N = M * ?D + big_value r" unfolding b(5) r(5) M_def by (simp add: distrib_right)
    have cmp: "add_compare r r d = sign (big_value r + big_value r) ?D"
      using normal_short [OF r(3) d r(4)] by (intro add_compare_value d)
    let ?up = "2 * big_value r > ?D \<or> (2 * big_value r = ?D \<and> odd M)"
    have up: "(add_compare r r d > 0 \<or> (add_compare r r d = 0 \<and> int ?q mod 2 \<noteq> 0)) \<longleftrightarrow> ?up"
    proof -
      have "odd M \<longleftrightarrow> odd ?q" by (simp add: M_def)
      then have "int ?q mod 2 \<noteq> 0 \<longleftrightarrow> odd M" by (simp add: even_of_nat flip: even_iff_mod_2_eq_zero)
      then show ?thesis unfolding cmp by (auto simp: sign_def)
    qed
    let ?u = "10 powi (x - (p - 1)) :: rat"
    have "nearest (of_nat (M * ?D + big_value r)) (of_nat ?D) (if ?up then M + 1 else M)" by (rule nearest_quotient [OF rD])
    moreover have "of_nat ?N / of_nat ?D * 10 powi x = of_nat (M * ?D + big_value r) * (?u / of_nat ?D)"
      unfolding NM [symmetric] p by (simp add: power_int_diff)
    moreover have "?u = of_nat ?D * (?u / of_nat ?D)" using D0 by simp
    moreover have "0 < ?u / of_nat ?D" using D0 by simp
    ultimately have near: "nearest (of_nat ?N / of_nat ?D * 10 powi x) ?u (if ?up then M + 1 else M)"
      by (metis nearest_scale)
    have one: "\<not> p \<le> 0" using 1 by simp
    show ?thesis
    proof (cases "?up \<and> ?q = 9")
      case True
      obtain str e where t: "round_up_nine is_fixed buf (x - (p - 1)) = (str, e)" "all_digits str" "length buf < length str" "x - (p - 1) \<le> e"
          "of_nat (dec_value str) * 10 powi e = (of_nat (10 * dec_value buf + 10) * ?u)"
        using round_up_nine_value [OF b(3)] by blast
      have "given_digits is_fixed p n d [] x = Some (str, e)"
        using b(1) r(1) up one True t(1) by (simp add: given_digits_def Let_def k_def)
      moreover have "10 * dec_value buf + 10 = M + 1" using True by (simp add: M_def)
      ultimately show ?thesis using t near True b(2) p by (intro exI [of _ str] exI [of _ e] exI [of _ "M + 1"]) auto
    next
      case False
      let ?c = "if ?up then ?q + 1 else ?q"
      have c: "?c < 10" using False r(2) by auto
      have "given_digits is_fixed p n d [] x = Some (buf @ [digit_char ?c], x - (p - 1))"
        using b(1) r(1) up one False by (auto simp: given_digits_def Let_def k_def nat_add_distrib)
      moreover have "dec_value (buf @ [digit_char ?c]) = (if ?up then M + 1 else M)"
        unfolding dec_value_snoc [OF c] by (simp add: M_def)
      ultimately show ?thesis using near b(2,3) c p
        by (intro exI [of _ "buf @ [digit_char ?c]"] exI [of _ "x - (p - 1)"] exI [of _ "if ?up then M + 1 else M"]) auto
    qed
  next
    case 2
    obtain d10 where d10: "times32 10 d = Some d10" "trimmed d10" "big_value d10 = 10 * ?D" "bexp d10 = bexp d"
      using multiply32_value [of 10 d] d by (auto simp: times32_def)
    have nb: "trimmed n \<or> num_bigits n \<le> num_bigits d10"
    proof -
      have "num_bigits d \<le> num_bigits d10" by (rule num_bigits_le [OF d]) (simp add: d10(3))
      then show ?thesis using assms by (auto simp: ready_def)
    qed
    have cmp: "add_compare n n d10 = sign (?N + ?N) (10 * ?D)" using add_compare_value [OF d10(2) nb nb] d10(3) by simp
    let ?M = "if 2 * ?N > 10 * ?D then 1 else 0 :: nat"
    have "nearest (of_nat (0 * (10 * ?D) + ?N)) (of_nat (10 * ?D)) (if 2 * ?N > 10 * ?D \<or> (2 * ?N = 10 * ?D \<and> odd (0 :: nat)) then 0 + 1 else 0)"
      using n10 by (rule nearest_quotient)
    then have "nearest (of_nat ?N) (of_nat (10 * ?D)) ?M" by (simp split: if_splits)
    moreover have "of_nat ?N / of_nat ?D * 10 powi x = of_nat ?N * (10 powi x / of_nat ?D :: rat)" by simp
    moreover have "10 powi (x + 1) = of_nat (10 * ?D) * (10 powi x / of_nat ?D :: rat)" using D0 by (simp add: power_int_add)
    moreover have "0 < (10 powi x / of_nat ?D :: rat)" using D0 by simp
    ultimately have near: "nearest (of_nat ?N / of_nat ?D * 10 powi x) (10 powi (x + 1)) ?M" by (metis nearest_scale)
    have one: "CHR ''1'' = digit_char 1" by (simp add: digit_char_def char_of_eq_iff eq_commute [of "CHR ''1''"])
    let ?t = "[if add_compare n n d10 > 0 then CHR ''1'' else CHR ''0'']"
    have t: "dec_value ?t = ?M" "all_digits ?t"
      unfolding cmp using digit_value [of 0] digit_value [of 1] by (auto simp: sign_def one digit_char_0)
    have "given_digits is_fixed p n d [] x = Some (?t, x + 1)" using 2 d10(1) by (simp add: given_digits_def)
    then show ?thesis using near t 2 by (intro exI [of _ ?t] exI [of _ "x + 1"] exI [of _ ?M]) simp
  next
    case 3
    have g: "given_digits is_fixed p n d [] x = Some (''0'', x - (p - 1))" using 3 by (simp add: given_digits_def)
    have "of_nat ?N / of_nat ?D < (10 :: rat)"
    proof -
      have "(of_nat ?N :: rat) < of_nat (10 * ?D)" unfolding of_nat_less_iff by (rule n10)
      then show ?thesis using D0 by (simp add: divide_less_eq)
    qed
    then have "of_nat ?N / of_nat ?D * 10 powi x < (10 * 10 powi x :: rat)" by (rule mult_strict_right_mono) simp
    also have "\<dots> = 10 powi (x + 1)" by (simp add: power_int_add)
    finally have small: "of_nat ?N / of_nat ?D * 10 powi x < (10 powi (x + 1) :: rat)" .
    have "(10 :: rat) powi (x + 2) \<le> 10 powi (x - (p - 1))" using 3 by (intro power_int_increasing) simp_all
    moreover have "(10 :: rat) powi (x + 2) = 10 * 10 powi (x + 1)" by (simp add: power_int_add)
    ultimately have lt: "2 * (of_nat ?N / of_nat ?D * 10 powi x) < (10 powi (x - (p - 1)) :: rat)"
      using small zero_less_power_int [of "10 :: rat" "x + 1"] by linarith
    have "nearest (of_nat ?N / of_nat ?D * 10 powi x) (10 powi (x - (p - 1))) 0"
      unfolding nearest_def using lt by simp
    then show ?thesis using g digit_value [of 0] by (intro exI [of _ "''0''"] exI [of _ "x - (p - 1)"] exI [of _ 0]) (use 3 in \<open>simp add: digit_char_0\<close>)
  qed
qed

section \<open>Scaling\<close>

text \<open>The number, half the gap to its successor, and half the gap to its predecessor.\<close>

definition exact :: "basic_fp \<Rightarrow> rat" where
  "exact v = of_nat (unat (fp_f v)) * 2 powi fp_e v"

definition half_above :: "basic_fp \<Rightarrow> rat" where
  "half_above v = 2 powi (fp_e v - 1)"

definition half_below :: "basic_fp \<Rightarrow> bool \<Rightarrow> rat" where
  "half_below v closer = 2 powi (fp_e v - (if closer then 2 else 1))"

definition scaled_ok :: "basic_fp \<Rightarrow> bool \<Rightarrow> int \<Rightarrow> scaled \<Rightarrow> bool" where
  "scaled_ok v closer x s \<longleftrightarrow>
     trimmed (numerator s) \<and> trimmed (denominator s) \<and> trimmed (lower s) \<and> trimmed (upper s) \<and>
     of_nat (big_value (numerator s)) * 10 powi x = of_nat (big_value (denominator s)) * exact v \<and>
     of_nat (big_value (lower s)) * 10 powi x = of_nat (big_value (denominator s)) * half_below v closer \<and>
     of_nat (big_value (upper s)) * 10 powi x = of_nat (big_value (denominator s)) * half_above v"

lemma powi_nonneg: "0 \<le> e \<Longrightarrow> (b :: rat) powi e = b ^ nat e"
  by (simp add: power_int_def)

lemma powi_neg: "e < 0 \<Longrightarrow> (b :: rat) powi e = 1 / b ^ nat (- e)"
  by (simp add: power_int_def field_simps power_inverse)

lemma one_word: "\<exists>b. set_bigint (1 :: 64 word) = Some b \<and> big_value b = 1 \<and> trimmed b \<and> bexp b = 0"
  "\<exists>b. set_bigint (2 :: 64 word) = Some b \<and> big_value b = 2 \<and> trimmed b \<and> bexp b = 0"
  using set_bigint_value [of "1 :: 64 word"] set_bigint_value [of "2 :: 64 word"] by simp_all

lemma scale_large:
  assumes "fp_f v \<noteq> 0" "0 \<le> fp_e v" "0 \<le> x" "x < 2 ^ 30"
  shows "\<exists>s. scale v closer x = Some s \<and> scaled_ok v closer x s \<and>
    bexp (numerator s) = (nat (fp_e v) + (if closer then 2 else 1)) div 32 \<and>
    bexp (denominator s) = nat x div 32 \<and> bexp (lower s) = nat (fp_e v) div 32"
proof -
  obtain n where n: "set_bigint (fp_f v) = Some n" "big_value n = unat (fp_f v)" "trimmed n" "bexp n = 0"
    using set_bigint_value [OF assms(1)] by auto
  obtain l where l: "set_bigint (1 :: 64 word) = Some l" "big_value l = 1" "trimmed l" "bexp l = 0"
    using one_word(1) by auto
  have "nat x < 2 ^ 30" using assms(3,4) by simp
  then obtain d where d: "assign_pow10 (nat x) = Some d" "big_value d = 10 ^ nat x" "trimmed d" "bexp d = nat x div 32"
    using assign_pow10_value by auto
  let ?k = "if closer then 2 else 1 :: nat"
  let ?s = "\<lparr>numerator = shift_left (nat (fp_e v) + ?k) n, denominator = shift_left ?k d, lower = shift_left (nat (fp_e v)) l,
    upper_store = (if closer then Some (shift_left (nat (fp_e v) + 1) l) else None)\<rparr>"
  have "scale v closer x = Some ?s" using assms(2,3) n(1) l(1) d(1) by (simp add: scale_def)
  moreover have "scaled_ok v closer x ?s"
    using n(2,3) l(2,3) d(2,3) assms(2,3)
    by (simp add: scaled_ok_def upper_def shift_left_value exact_def half_above_def half_below_def power_add
        power_int_diff powi_nonneg)
  ultimately show ?thesis using n(4) l(4) d(4) by (simp add: shift_left_value)
qed

lemma scale_small:
  assumes "fp_f v \<noteq> 0" "fp_e v < 0" "x < 0" "- (2 ^ 30) < x"
  shows "\<exists>s. scale v closer x = Some s \<and> scaled_ok v closer x s \<and>
    bexp (numerator s) = nat (- x) div 32 \<and>
    bexp (denominator s) = nat ((if closer then 2 else 1) - fp_e v) div 32 \<and> bexp (lower s) = nat (- x) div 32"
proof -
  have "nat (- x) < 2 ^ 30" using assms(3,4) by simp
  then obtain l where l: "assign_pow10 (nat (- x)) = Some l" "big_value l = 10 ^ nat (- x)" "trimmed l" "bexp l = nat (- x) div 32"
    using assign_pow10_value by auto
  obtain d where d: "set_bigint (1 :: 64 word) = Some d" "big_value d = 1" "trimmed d" "bexp d = 0"
    using one_word(1) by auto
  let ?n = "multiply_wide (fp_f v) l"
  have n: "times_wide (fp_f v) l = Some ?n" "big_value ?n = 10 ^ nat (- x) * unat (fp_f v)" "trimmed ?n" "bexp ?n = nat (- x) div 32"
    using assms(1) l multiply_wide_value [of 64 "fp_f v" l] by (simp_all add: times_wide_def word_gt_0)
  let ?k = "if closer then 2 else 1 :: nat"
  let ?s = "\<lparr>numerator = shift_left ?k ?n, denominator = shift_left (nat (int ?k - fp_e v)) d, lower = l,
    upper_store = (if closer then Some (shift_left 1 l) else None)\<rparr>"
  have k: "nat (int ?k - fp_e v) = ?k + nat (- fp_e v)" "nat (2 - fp_e v) = Suc (Suc (nat (- fp_e v)))"
    "nat (1 - fp_e v) = Suc (nat (- fp_e v))" using assms(2) by auto
  have "scale v closer x = Some ?s" using assms(2,3) n(1) l(1) d(1) by (simp add: scale_def Let_def)
  moreover have "scaled_ok v closer x ?s"
    using n(2,3) l(2,3) d(2,3) assms(2,3) unfolding k(1)
    by (simp add: scaled_ok_def upper_def shift_left_value exact_def half_above_def half_below_def power_add
        power_int_diff powi_neg k(2,3))
  ultimately show ?thesis using n(4) l(4) d(4) by (simp add: shift_left_value)
qed

lemma scale_middle:
  assumes "fp_f v \<noteq> 0" "fp_e v < 0" "0 \<le> x" "x < 2 ^ 30"
  shows "\<exists>s. scale v closer x = Some s \<and> scaled_ok v closer x s \<and> bexp (numerator s) = 0 \<and> bexp (lower s) = 0"
proof -
  obtain n where n: "set_bigint (fp_f v) = Some n" "big_value n = unat (fp_f v)" "trimmed n" "bexp n = 0"
    using set_bigint_value [OF assms(1)] by auto
  obtain l where l: "set_bigint (1 :: 64 word) = Some l" "big_value l = 1" "trimmed l" "bexp l = 0"
    using one_word(1) by auto
  obtain u where u: "set_bigint (2 :: 64 word) = Some u" "big_value u = 2" "trimmed u"
    using one_word(2) by auto
  have "nat x < 2 ^ 30" using assms(3,4) by simp
  then obtain d where d: "assign_pow10 (nat x) = Some d" "big_value d = 10 ^ nat x" "trimmed d"
    using assign_pow10_value by auto
  let ?k = "if closer then 2 else 1 :: nat"
  let ?s = "\<lparr>numerator = shift_left ?k n, denominator = shift_left (nat (int ?k - fp_e v)) d, lower = l,
    upper_store = (if closer then Some u else None)\<rparr>"
  have k: "nat (int ?k - fp_e v) = ?k + nat (- fp_e v)" "nat (2 - fp_e v) = Suc (Suc (nat (- fp_e v)))"
    "nat (1 - fp_e v) = Suc (nat (- fp_e v))" using assms(2) by auto
  have "scale v closer x = Some ?s" using assms(2,3) n(1) l(1) d(1) u(1) by (simp add: scale_def Let_def)
  moreover have "scaled_ok v closer x ?s"
    using n(2,3) l(2,3) d(2,3) u(2,3) assms(2,3) unfolding k(1)
    by (simp add: scaled_ok_def upper_def shift_left_value exact_def half_above_def half_below_def power_add
        power_int_diff powi_neg powi_nonneg k(2,3))
  ultimately show ?thesis using n(4) l(4) by (simp add: shift_left_value)
qed

lemma ratio_cmp:
  fixes T w :: rat
  assumes "of_nat a * T = of_nat D * w" "0 < D" "0 < T"
  shows "a < c * D \<longleftrightarrow> w < of_nat c * T" "a = c * D \<longleftrightarrow> w = of_nat c * T" "c * D < a \<longleftrightarrow> of_nat c * T < w"
proof -
  have w: "w = of_nat a * (T / of_nat D)" using assms(1,2) by (simp add: field_simps)
  have c: "of_nat c * T = of_nat (c * D) * (T / of_nat D)" using assms(2) by simp
  have p: "0 < T / of_nat D" using assms(2,3) by simp
  show "a < c * D \<longleftrightarrow> w < of_nat c * T" unfolding w c mult_less_cancel_right_pos [OF p] of_nat_less_iff ..
  show "c * D < a \<longleftrightarrow> of_nat c * T < w" unfolding w c mult_less_cancel_right_pos [OF p] of_nat_less_iff ..
  show "a = c * D \<longleftrightarrow> w = of_nat c * T" unfolding w c mult_right_cancel [OF less_imp_neq [OF p, symmetric]] of_nat_eq_iff ..
qed

text \<open>Whether a power of ten lies above the number and all that rounds to it.\<close>

definition below :: "basic_fp \<Rightarrow> rat \<Rightarrow> bool" where
  "below v b \<longleftrightarrow> exact v + half_above v < b \<or> (exact v + half_above v = b \<and> fp_f v AND 1 \<noteq> 0)"

lemma below_add_compare:
  assumes "scaled_ok v closer x s" "ev = (if fp_f v AND 1 = 0 then 1 else 0)"
  shows "add_compare (numerator s) (upper s) (denominator s) + ev \<le> 0 \<longleftrightarrow> below v (10 powi x)"
proof -
  let ?N = "big_value (numerator s)" and ?U = "big_value (upper s)" and ?D = "big_value (denominator s)"
  have t: "trimmed (numerator s)" "trimmed (denominator s)" "trimmed (upper s)" using assms(1) by (simp_all add: scaled_ok_def)
  have "of_nat (?N + ?U) * 10 powi x = of_nat ?D * (exact v + half_above v)"
    using assms(1) by (simp add: scaled_ok_def algebra_simps)
  note r = ratio_cmp [OF this big_value_pos [OF t(2)], where c = 1]
  have "add_compare (numerator s) (upper s) (denominator s) = sign (?N + ?U) ?D" using t by (simp add: add_compare_value)
  then show ?thesis using r assms(2) by (auto simp: below_def sign_def)
qed

definition corrected :: "basic_fp \<Rightarrow> 32 word \<Rightarrow> int \<Rightarrow> int" where
  "corrected v flags x = (if has_flag flags fixup \<and> below v (10 powi x) then x - 1 else x)"

definition low_bit :: "basic_fp \<Rightarrow> int" where
  "low_bit v = (if fp_f v AND 1 = 0 then 1 else 0)"

lemma trimmed_times_ten: "trimmed n \<Longrightarrow> \<exists>m. times32 10 n = Some m \<and> trimmed m \<and> bexp m = bexp n \<and> big_value m = 10 * big_value n"
  using multiply32_value [of 10 n] by (simp add: times32_def)

lemma times_ten_value:
  assumes "trimmed (numerator s) \<or> normal (numerator s)" "trimmed (lower s)" "trimmed (upper s)"
  shows "\<exists>t. times_ten s = Some t \<and> times32 10 (numerator s) = Some (numerator t) \<and> normal (numerator t) \<and> (trimmed (numerator s) \<longrightarrow> trimmed (numerator t)) \<and>
    trimmed (lower t) \<and> trimmed (upper t) \<and> denominator t = denominator s \<and>
    big_value (numerator t) = 10 * big_value (numerator s) \<and> big_value (lower t) = 10 * big_value (lower s) \<and>
    big_value (upper t) = 10 * big_value (upper s) \<and> bexp (numerator t) = bexp (numerator s) \<and> bexp (lower t) = bexp (lower s)"
proof -
  have "normal (numerator s)" using assms(1) by (auto simp: normal_def)
  then obtain n where n: "times32 10 (numerator s) = Some n" "normal n" "bexp n = bexp (numerator s)"
      "big_value n = 10 * big_value (numerator s)"
    using normal_times [of "numerator s" 10] by auto
  have nt: "trimmed (numerator s) \<Longrightarrow> trimmed n" using trimmed_times_ten [of "numerator s"] n(1) by auto
  obtain l where l: "times32 10 (lower s) = Some l" "trimmed l" "bexp l = bexp (lower s)" "big_value l = 10 * big_value (lower s)"
    using trimmed_times_ten [OF assms(2)] by auto
  show ?thesis
  proof (cases "upper_store s")
    case None
    then show ?thesis using n nt l by (simp add: times_ten_def upper_def)
  next
    case (Some u)
    then obtain u' where "times32 10 u = Some u'" "trimmed u'" "big_value u' = 10 * big_value u"
      using trimmed_times_ten [of u] assms(3) by (auto simp: upper_def)
    then show ?thesis using n nt l Some by (simp add: times_ten_def upper_def)
  qed
qed

lemma fix_exponent_value:
  assumes "scaled_ok v closer x s" "has_flag flags fixup"
  shows "\<exists>t. fix_exponent (low_bit v) p s x = Some (t, corrected v flags x) \<and>
    trimmed (numerator t) \<and> denominator t = denominator s \<and> bexp (numerator t) = bexp (numerator s) \<and>
    of_nat (big_value (numerator t)) * 10 powi corrected v flags x = of_nat (big_value (denominator s)) * exact v \<and>
    (p < 0 \<longrightarrow> scaled_ok v closer (corrected v flags x) t \<and> bexp (lower t) = bexp (lower s))"
proof (cases "below v (10 powi x)")
  case True
  have add: "add_compare (numerator s) (upper s) (denominator s) + low_bit v \<le> 0"
    using below_add_compare [OF assms(1) low_bit_def] True by simp
  have ten: "(10 :: rat) powi x = 10 * 10 powi (x - 1)" by (simp add: power_int_diff)
  have c: "corrected v flags x = x - 1" using True assms(2) by (simp add: corrected_def)
  have tr: "trimmed (numerator s)" "trimmed (lower s)" "trimmed (upper s)" using assms(1) by (simp_all add: scaled_ok_def)
  show ?thesis
  proof (cases "p < 0")
    case True
    then show ?thesis
      using times_ten_value [of s] tr add c assms(1) unfolding scaled_ok_def ten by (auto simp: fix_exponent_def)
  next
    case False
    then show ?thesis
      using trimmed_times_ten [OF tr(1)] add c assms(1) unfolding scaled_ok_def ten by (auto simp: fix_exponent_def)
  qed
next
  case False
  then have "\<not> add_compare (numerator s) (upper s) (denominator s) + low_bit v \<le> 0"
    using below_add_compare [OF assms(1) low_bit_def] by simp
  then show ?thesis using False assms by (simp add: fix_exponent_def corrected_def scaled_ok_def)
qed

lemma corrected_le: "corrected v flags x \<le> x"
  by (simp add: corrected_def)

lemma exact_ge: "fp_f v \<noteq> 0 \<Longrightarrow> 2 powi fp_e v \<le> exact v"
proof -
  assume "fp_f v \<noteq> 0"
  then have "1 \<le> unat (fp_f v)" by (simp add: Suc_le_eq unat_gt_0)
  then have "(1 :: rat) \<le> of_nat (unat (fp_f v))" by (metis of_nat_1 of_nat_le_iff)
  then have "1 * 2 powi fp_e v \<le> of_nat (unat (fp_f v)) * (2 powi fp_e v :: rat)" by (rule mult_right_mono) simp
  then show ?thesis by (simp add: exact_def)
qed

lemma powi_less: "(b :: rat) powi m < b powi n \<Longrightarrow> 1 \<le> b \<Longrightarrow> m < n"
  using power_int_increasing [of n m b] by (cases "m < n") auto

definition shift_bits :: "bool \<Rightarrow> int" where
  "shift_bits closer = (if closer then 2 else 1)"

lemma same_quotient: "m mod 32 + k < 32 \<Longrightarrow> (m + k) div 32 = m div (32 :: nat)"
proof -
  assume m: "m mod 32 + k < 32"
  have "(m + k) div 32 = (32 * (m div 32) + (m mod 32 + k)) div 32" by (simp only: add.assoc [symmetric] mult_div_mod_eq)
  also have "\<dots> = m div 32 + (m mod 32 + k) div 32" by (simp only: div_mult_self3 numeral_neq_zero not_False_eq_True)
  also have "(m mod 32 + k) div 32 = 0" using m by (intro div_less) simp
  finally show ?thesis by simp
qed

lemma prepared:
  assumes f: "fp_f v \<noteq> 0" and x: "\<bar>x\<bar> < 2 ^ 30" "x' \<le> x" and v: "exact v < 10 powi (x' + 1)"
    and H: "fp_e v + shift_bits closer < 32 \<or> 10 powi x' < exact v \<or> (fp_e v + shift_bits closer) div 32 \<le> x' div 32"
  shows "\<exists>s. scale v closer x = Some s \<and> scaled_ok v closer x s \<and>
    (bexp (numerator s) \<le> bexp (denominator s) \<or> 10 powi x' < exact v) \<and>
    (fp_e v < 0 \<or> fp_e v mod 32 + shift_bits closer < 32 \<or> (x \<le> fp_e v \<and> 10 powi x' < exact v) \<longrightarrow> bexp (numerator s) \<le> bexp (lower s) \<or>
      (bexp (denominator s) \<le> bexp (lower s) \<and> 10 powi x' < exact v))"
proof -
  have xs: "x < 2 ^ 30" "- (2 ^ 30) < x" using x(1) by (simp_all add: abs_less_iff)
  consider "0 \<le> fp_e v" | "fp_e v < 0" "x < 0" | "fp_e v < 0" "0 \<le> x" by linarith
  then show ?thesis
  proof cases
    case 1
    have "(1 :: rat) \<le> 2 powi fp_e v" using 1 by simp
    then have "(10 :: rat) powi 0 < 10 powi (x' + 1)" using exact_ge [OF f] v by simp
    then have "0 < x' + 1" by (rule powi_less) simp
    then have x0: "0 \<le> x'" "0 \<le> x" using x(2) by simp_all
    let ?k = "if closer then 2 else 1 :: nat"
    have small: "(nat (fp_e v) + ?k) div 32 = 0" if "fp_e v + shift_bits closer < 32" using that 1 by (auto simp: shift_bits_def)
    have le: "(nat (fp_e v) + ?k) div 32 \<le> nat x div 32" if "(fp_e v + shift_bits closer) div 32 \<le> x' div 32"
    proof -
      have "(nat (fp_e v) + ?k) div 32 \<le> nat (fp_e v + shift_bits closer) div 32"
        using 1 by (intro div_le_mono) (auto simp: shift_bits_def)
      also have "\<dots> \<le> nat x' div 32" 
      proof -
        have "nat ((fp_e v + shift_bits closer) div 32) = nat (fp_e v + shift_bits closer) div 32" "nat (x' div 32) = nat x' div 32"
          using 1 x0 by (simp_all add: nat_div_distrib shift_bits_def)
        then show ?thesis using nat_mono [OF that] by simp
      qed
      also have "\<dots> \<le> nat x div 32" using x(2) by (intro div_le_mono) simp
      finally show ?thesis .
    qed
    have below_l: "(nat (fp_e v) + ?k) div 32 = nat (fp_e v) div 32" if "fp_e v mod 32 + shift_bits closer < 32"
    proof -
      have "nat (fp_e v mod 32) = nat (fp_e v) mod 32" using 1 by (simp add: nat_mod_distrib)
      then have "int (nat (fp_e v) mod 32) + shift_bits closer < 32" using that 1 by simp
      then show ?thesis by (intro same_quotient) (auto simp: shift_bits_def split: if_splits)
    qed
    have dl: "nat x div 32 \<le> nat (fp_e v) div 32" if "x \<le> fp_e v" using that by (intro div_le_mono) simp
    obtain s where s: "scale v closer x = Some s" "scaled_ok v closer x s"
        "bexp (numerator s) = (nat (fp_e v) + ?k) div 32" "bexp (denominator s) = nat x div 32" "bexp (lower s) = nat (fp_e v) div 32"
      using scale_large [OF f 1 x0(2) xs(1), of closer] by auto
    have A: "bexp (numerator s) \<le> bexp (denominator s) \<or> 10 powi x' < exact v"
      using H unfolding s(3,4) by (elim disjE) (simp_all only: small le simp_thms zero_le)
    have B: "bexp (numerator s) \<le> bexp (lower s) \<or> (bexp (denominator s) \<le> bexp (lower s) \<and> 10 powi x' < exact v)"
      if "fp_e v < 0 \<or> fp_e v mod 32 + shift_bits closer < 32 \<or> (x \<le> fp_e v \<and> 10 powi x' < exact v)"
      using that 1 unfolding s(3,4,5) by (elim disjE conjE) (simp_all add: below_l dl)
    show ?thesis using s(1,2) A B by blast
  next
    case 2
    have "2 powi fp_e v < (10 :: rat) powi (x' + 1)" using exact_ge [OF f] v by (rule order.strict_trans1)
    also have "\<dots> \<le> 10 powi (x + 1)" using x(2) by (intro power_int_increasing) simp_all
    also have "\<dots> \<le> 2 powi (x + 1)"
    proof -
      have "(2 :: rat) ^ nat (- x - 1) \<le> 10 ^ nat (- x - 1)" by (rule power_mono) simp_all
      then show ?thesis using 2(2) by (cases "x = -1") (simp_all add: powi_neg frac_le)
    qed
    finally have "fp_e v < x + 1" by (rule powi_less) simp
    then have "nat (- x) div 32 \<le> nat ((if closer then 2 else 1) - fp_e v) div 32" by (intro div_le_mono) auto
    then show ?thesis using scale_small [OF f 2 xs(2), of closer] by fastforce
  next
    case 3
    then show ?thesis using scale_middle [OF f 3 xs(1), of closer] by fastforce
  qed
qed

section \<open>Rounding\<close>

lemma ready_scaled:
  assumes "trimmed n" "trimmed d" and eq: "of_nat (big_value n) * 10 powi x = of_nat (big_value d) * exact v"
    and "bexp n \<le> bexp d \<or> 10 powi x < exact v" "exact v < 10 powi (x + 1)"
  shows "ready n d \<and> of_nat (big_value n) / of_nat (big_value d) * 10 powi x = exact v"
proof -
  note D0 = big_value_pos [OF assms(2)]
  have "10 powi (x + 1) = of_nat 10 * (10 powi x :: rat)" by (simp add: power_int_add)
  then have "big_value n < 10 * big_value d" using ratio_cmp(1) [OF eq D0, of 10] assms(5) by simp
  moreover have "10 powi x < exact v \<longleftrightarrow> big_value d < big_value n" using ratio_cmp(3) [OF eq D0, of 1] by simp
  moreover have "of_nat (big_value n) / of_nat (big_value d) * 10 powi x = exact v" using eq D0 by (simp add: field_simps)
  ultimately show ?thesis using assms by (auto simp: ready_def normal_def)
qed

lemma dragon_state:
  assumes f: "fp_f v \<noteq> 0" "\<bar>exp10\<bar> < 2 ^ 30" and v: "exact v < 10 powi (corrected v flags exp10 + 1)"
    and H: "fp_e v + shift_bits closer < 32 \<or> 10 powi corrected v flags exp10 < exact v \<or>
      (fp_e v + shift_bits closer) div 32 \<le> corrected v flags exp10 div 32"
  shows "\<exists>s t. scale v closer exp10 = Some s \<and>
    (if has_flag flags fixup then fix_exponent (low_bit v) p s exp10 else Some (s, exp10)) = Some (t, corrected v flags exp10) \<and>
    ready (numerator t) (denominator t) \<and>
    of_nat (big_value (numerator t)) / of_nat (big_value (denominator t)) * 10 powi corrected v flags exp10 = exact v \<and>
    (p < 0 \<longrightarrow> scaled_ok v closer (corrected v flags exp10) t \<and>
      (fp_e v < 0 \<or> fp_e v mod 32 + shift_bits closer < 32 \<or> (exp10 \<le> fp_e v \<and> 10 powi corrected v flags exp10 < exact v) \<longrightarrow>
        bexp (numerator t) \<le> bexp (lower t) \<or> (bexp (denominator t) \<le> bexp (lower t) \<and> 10 powi corrected v flags exp10 < exact v)))"
proof -
  let ?x = "corrected v flags exp10"
  obtain s where s: "scale v closer exp10 = Some s" "scaled_ok v closer exp10 s"
      "bexp (numerator s) \<le> bexp (denominator s) \<or> 10 powi ?x < exact v"
      "fp_e v < 0 \<or> fp_e v mod 32 + shift_bits closer < 32 \<or> (exp10 \<le> fp_e v \<and> 10 powi ?x < exact v) \<longrightarrow> bexp (numerator s) \<le> bexp (lower s) \<or>
      (bexp (denominator s) \<le> bexp (lower s) \<and> 10 powi ?x < exact v)"
    using prepared [OF f corrected_le v H] by blast
  have td: "trimmed (denominator s)" "trimmed (numerator s)"
      "of_nat (big_value (numerator s)) * 10 powi exp10 = of_nat (big_value (denominator s)) * exact v"
    using s(2) by (simp_all add: scaled_ok_def)
  show ?thesis
  proof (cases "has_flag flags fixup")
    case True
    obtain t where t: "fix_exponent (low_bit v) p s exp10 = Some (t, ?x)" "trimmed (numerator t)" "denominator t = denominator s"
        "bexp (numerator t) = bexp (numerator s)"
        "of_nat (big_value (numerator t)) * 10 powi ?x = of_nat (big_value (denominator s)) * exact v"
        "p < 0 \<longrightarrow> scaled_ok v closer ?x t \<and> bexp (lower t) = bexp (lower s)"
      using fix_exponent_value [OF s(2) True, of p] by blast
    have "ready (numerator t) (denominator t) \<and>
        of_nat (big_value (numerator t)) / of_nat (big_value (denominator t)) * 10 powi ?x = exact v"
      unfolding t(3) using t(2,4,5) td(1) s(3) v by (intro ready_scaled) simp_all
    then show ?thesis using s(1,4) t True by auto
  next
    case False
    then have x: "?x = exp10" by (simp add: corrected_def)
    have "ready (numerator s) (denominator s) \<and>
        of_nat (big_value (numerator s)) / of_nat (big_value (denominator s)) * 10 powi exp10 = exact v"
      using td s(3) v unfolding x by (intro ready_scaled) simp_all
    then show ?thesis using s False unfolding x by auto
  qed
qed

text \<open>
  C12: Given digits: for a number \<open>v = f * 2 ^ e\<close> that is not 0 and an exponent whose power of ten is not
  reached ten times over (after the correction, when the flag asks for one), \<open>format_dragon\<close> returns a string of decimal digits
  which, with the exponent returned, is the multiple of the unit of the last digit that is nearest to \<open>v\<close>, the even one of
  two, whether the carry lengthens the number or not and for a negative precision too; or reports a precision that is too big.
  No assertion of the numbers fails. The exponents are below \<open>2 ^ 30\<close>; a number with \<open>e \<ge> 30\<close> is not the power of ten itself, or
  that power is large against \<open>e\<close>.
\<close>

theorem dragon_rounds:
  assumes "fp_f v \<noteq> 0" "\<bar>exp10\<bar> < 2 ^ 30" "0 \<le> num_digits"
    and "exact v < 10 powi (corrected v flags exp10 + 1)"
    and "fp_e v + shift_bits (has_flag flags predecessor_closer) < 32 \<or> 10 powi corrected v flags exp10 < exact v \<or>
      (fp_e v + shift_bits (has_flag flags predecessor_closer)) div 32 \<le> corrected v flags exp10 div 32"
  shows "case (if has_flag flags fixup \<and> has_flag flags fixed then adjust_precision num_digits (corrected v flags exp10 + 1)
      else Some num_digits) of
      None \<Rightarrow> format_dragon v flags num_digits [] exp10 = Some Number_too_big
    | Some p \<Rightarrow> \<exists>str e m. format_dragon v flags num_digits [] exp10 = Some (Printed str e) \<and> str \<noteq> [] \<and> all_digits str \<and>
        corrected v flags exp10 - (p - 1) \<le> e \<and> of_nat (dec_value str) * 10 powi e = (of_nat m * 10 powi (corrected v flags exp10 - (p - 1)) :: rat) \<and>
        nearest (exact v) (10 powi (corrected v flags exp10 - (p - 1))) m \<and> (1 \<le> p \<longrightarrow> nat p \<le> length str)"
proof -
  let ?x = "corrected v flags exp10"
  obtain s t where s: "scale v (has_flag flags predecessor_closer) exp10 = Some s"
      "(if has_flag flags fixup then fix_exponent (low_bit v) num_digits s exp10 else Some (s, exp10)) = Some (t, ?x)"
      "ready (numerator t) (denominator t)"
      "of_nat (big_value (numerator t)) / of_nat (big_value (denominator t)) * 10 powi ?x = exact v"
    using dragon_state [OF assms(1,2,4), of "has_flag flags predecessor_closer" num_digits] assms(5) by blast
  have fd: "format_dragon v flags num_digits [] exp10 =
      (case (if has_flag flags fixup \<and> has_flag flags fixed then adjust_precision num_digits (?x + 1) else Some num_digits) of
         None \<Rightarrow> Some Number_too_big
       | Some p \<Rightarrow> given_digits (has_flag flags fixed) p (numerator t) (denominator t) [] ?x \<bind> (\<lambda>(str, e). Some (Printed str e)))"
    using assms(3) s(1,2) by (simp add: format_dragon_def low_bit_def [symmetric] not_less split: option.split)
  have given: "\<exists>str e m. given_digits (has_flag flags fixed) p (numerator t) (denominator t) [] ?x \<bind>
        (\<lambda>(str, e). Some (Printed str e)) = Some (Printed str e) \<and> str \<noteq> [] \<and> all_digits str \<and> ?x - (p - 1) \<le> e \<and>
      of_nat (dec_value str) * 10 powi e = (of_nat m * 10 powi (?x - (p - 1)) :: rat) \<and>
      nearest (exact v) (10 powi (?x - (p - 1))) m \<and> (1 \<le> p \<longrightarrow> nat p \<le> length str)" for p
    using given_digits_value [OF s(3), where x = ?x, unfolded s(4)] by (metis bind.bind_lunit case_prod_conv)
  show ?thesis
    unfolding fd using given by (cases "if has_flag flags fixup \<and> has_flag flags fixed then adjust_precision num_digits (?x + 1) else Some num_digits") simp_all
qed

theorem dragon_rounds_witness:
  "\<exists>str e. format_dragon \<lparr>fp_f = 5, fp_e = -1\<rparr> 0 1 [] 0 = Some (Printed str e) \<and> of_nat (dec_value str) * 10 powi e = (2 :: rat)"
proof -
  have c: "corrected \<lparr>fp_f = 5, fp_e = -1\<rparr> 0 0 = 0" by (simp add: corrected_def has_flag_def)
  have x: "exact \<lparr>fp_f = 5, fp_e = -1\<rparr> = 5 / 2" by (simp add: exact_def)
  obtain str e m where m: "format_dragon \<lparr>fp_f = 5, fp_e = -1\<rparr> 0 1 [] 0 = Some (Printed str e)"
      "of_nat (dec_value str) * 10 powi e = (of_nat m :: rat)" "nearest (5 / 2) 1 m"
    using dragon_rounds [of "\<lparr>fp_f = 5, fp_e = -1\<rparr>" 0 1 0] by (auto simp: c x has_flag_def shift_bits_def)
  have "m = 2"
  proof -
    have "2 * \<bar>of_nat m - 5 / 2\<bar> \<le> (1 :: rat)" "2 * \<bar>of_nat m - 5 / 2\<bar> = (1 :: rat) \<longrightarrow> even m"
      using m(3) by (simp_all add: nearest_def)
    moreover from this have "of_nat 2 \<le> (of_nat m :: rat)" "(of_nat m :: rat) \<le> of_nat 3" by (simp_all add: abs_le_iff field_simps)
    then have "m = 2 \<or> m = 3" by (simp only: of_nat_le_iff) linarith
    ultimately show ?thesis by auto
  qed
  then show ?thesis using m(1,2) by auto
qed

text \<open>
  C14: The correction of the exponent counts half the gap above the number as if it were part of it, for the
  shortest digits and for given ones alike. A number below the estimated power of ten, but so close that the middle between it
  and its successor is not below it, keeps the estimate, and the string of given digits begins with 0, when the rounding
  leaves it below the power: one digit too few is printed.
\<close>

theorem dragon_leading_zero:
  assumes "fp_f v \<noteq> 0" "\<bar>exp10\<bar> < 2 ^ 30" "1 \<le> num_digits" "has_flag flags fixup" "\<not> has_flag flags fixed"
    and "\<not> below v (10 powi exp10)" "exact v + 10 powi (exp10 - num_digits + 1) \<le> 10 powi exp10"
    and "fp_e v + shift_bits (has_flag flags predecessor_closer) < 32 \<or>
      (fp_e v + shift_bits (has_flag flags predecessor_closer)) div 32 \<le> exp10 div 32"
  shows "\<exists>str e. format_dragon v flags num_digits [] exp10 = Some (Printed str e) \<and> hd str = CHR ''0'' \<and> nat num_digits \<le> length str"
proof -
  have c: "corrected v flags exp10 = exp10" using assms(6) by (simp add: corrected_def)
  have "exact v < 10 powi exp10" using assms(7) zero_less_power_int [of "10 :: rat" "exp10 - num_digits + 1"] by linarith
  also have "\<dots> \<le> (10 :: rat) powi (exp10 + 1)" by (intro power_int_increasing) simp_all
  finally have v: "exact v < 10 powi (exp10 + 1)" .
  let ?u = "10 powi (exp10 - (num_digits - 1)) :: rat"
  obtain str e m where r: "format_dragon v flags num_digits [] exp10 = Some (Printed str e)" "all_digits str"
      "exp10 - (num_digits - 1) \<le> e" "of_nat (dec_value str) * 10 powi e = of_nat m * ?u" "nearest (exact v) ?u m"
      "nat num_digits \<le> length str"
    using dragon_rounds [of v exp10 num_digits flags] assms(1-5,8) v unfolding c by auto
  have "2 * (of_nat m * ?u - exact v) \<le> 2 * \<bar>of_nat m * ?u - exact v\<bar>" by (intro mult_left_mono abs_ge_self) simp
  also have "\<dots> \<le> ?u" using r(5) by (simp only: nearest_def)
  finally have "2 * (of_nat m * ?u - exact v) \<le> ?u" .
  moreover have "exact v + ?u \<le> 10 powi exp10" using assms(7) by (simp add: algebra_simps)
  moreover have "(0 :: rat) < ?u" by simp
  ultimately have "of_nat m * ?u < 10 powi exp10" unfolding right_diff_distrib by linarith
  then have "of_nat (dec_value str) * 10 powi e < (10 :: rat) powi exp10" using r(4) by simp
  moreover have "?u \<le> 10 powi e" using r(3) by (intro power_int_increasing) simp_all
  then have "of_nat (dec_value str) * ?u \<le> of_nat (dec_value str) * 10 powi e" by (rule mult_left_mono) simp
  moreover have "(10 :: rat) powi exp10 = of_nat (10 ^ nat (num_digits - 1)) * ?u"
  proof -
    have "num_digits - 1 = int (nat (num_digits - 1))" using assms(3) by simp
    moreover have "(10 :: rat) powi exp10 = of_nat (10 ^ k) * 10 powi (exp10 - int k)" for k by (simp add: power_int_diff)
    ultimately show ?thesis by metis
  qed
  ultimately have "of_nat (dec_value str) * ?u < of_nat (10 ^ nat (num_digits - 1)) * ?u" by linarith
  then have small: "dec_value str < 10 ^ nat (num_digits - 1)" by (simp only: mult_less_cancel_right_pos zero_less_power_int zero_less_numeral of_nat_less_iff)
  obtain q ds where q: "str = digit_char q # ds" "q < 10" using r(2,6) assms(3) by (cases str) auto
  have "q = 0"
  proof (rule ccontr)
    assume "q \<noteq> 0"
    have "nat (num_digits - 1) \<le> length ds" using r(6) q(1) by auto
    then have "(10 :: nat) ^ nat (num_digits - 1) \<le> 10 ^ length ds" by (rule power_increasing) simp
    also have "\<dots> \<le> q * 10 ^ length ds" using \<open>q \<noteq> 0\<close> by simp
    also have "\<dots> \<le> dec_value str" unfolding q(1) dec_value_Cons [OF q(2)] by simp
    finally show False using small by simp
  qed
  then show ?thesis using r(1,6) q(1) by (simp add: digit_char_0)
qed

text \<open>The number nearest to \<open>10 ^ 28\<close> with 64 bits, with 21 digits: 0.99999999999999999997 times \<open>10 ^ 28\<close>.\<close>

theorem dragon_leading_zero_witness:
  "\<exists>str e. format_dragon \<lparr>fp_f = 9313225746154785156, fp_e = 30\<rparr> fixup 21 [] 28 = Some (Printed str e) \<and> hd str = CHR ''0''"
proof -
  let ?v = "\<lparr>fp_f = 9313225746154785156, fp_e = 30\<rparr>"
  have f: "has_flag fixup fixup" "\<not> has_flag fixup fixed" "\<not> has_flag fixup predecessor_closer"
    by (simp_all add: has_flag_def fixup_def fixed_def predecessor_closer_def)
  have "\<not> below ?v (10 powi 28)" "exact ?v + 10 powi (28 - 21 + 1) \<le> 10 powi 28"
    by (simp_all add: below_def exact_def half_above_def)
  then show ?thesis using dragon_leading_zero [of ?v 28 21 fixup] f by (auto simp: shift_bits_def)
qed

section \<open>The shortest digits\<close>

text \<open>The interval is closed for an even significand (\<open>ev = 1\<close>), to which its ends round.\<close>

definition up_to :: "int \<Rightarrow> nat \<Rightarrow> nat \<Rightarrow> bool" where
  "up_to ev a b \<longleftrightarrow> a < b \<or> (a = b \<and> ev = 1)"

definition shortest_inv :: "int \<Rightarrow> scaled \<Rightarrow> bool" where
  "shortest_inv ev s \<longleftrightarrow> (ev = 0 \<or> ev = 1) \<and> ready (numerator s) (denominator s) \<and> trimmed (lower s) \<and> trimmed (upper s) \<and>
     (bexp (numerator s) \<le> bexp (lower s) \<or>
       (bexp (denominator s) \<le> bexp (lower s) \<and> big_value (denominator s) < big_value (numerator s))) \<and>
     \<not> up_to ev (10 * big_value (denominator s)) (big_value (numerator s) + big_value (upper s))"

lemma digit_low:
  assumes "trimmed l" "normal r" "bexp r \<le> bexp l" "ev = 0 \<or> ev = 1"
  shows "compare_big r l - ev < 0 \<Longrightarrow> up_to ev (big_value r) (big_value l)"
    and "\<not> compare_big r l - ev < 0 \<Longrightarrow> big_value l \<le> big_value r"
  using compare_big_value [OF assms(1) normal_short [OF assms(2,1,3)]] compare_big_nonneg [OF assms(1) normal_short [OF assms(2,1,3)] assms(3)]
    assms(4) by (auto simp: up_to_def sign_def split: if_splits)

lemma digit_high:
  assumes "trimmed d" "trimmed u" "normal r" "bexp r \<le> bexp d" "ev = 0 \<or> ev = 1"
  shows "add_compare r u d + ev > 0 \<longleftrightarrow> up_to ev (big_value d) (big_value r + big_value u)"
  using add_compare_value [OF assms(1) normal_short [OF assms(3,1,4)] disjI1 [OF assms(2)]] assms(5)
  by (auto simp: up_to_def sign_def)

text \<open>The digit found, raised or not, when the loop stops.\<close>

lemma shortest_stop:
  assumes "up_to ev (q * D + r) (q * D + L) \<and> \<not> raise \<or> up_to ev D (r + U) \<and> raise" "0 < L" "0 < U" "r < D"
    "\<not> up_to ev (10 * D) (q * D + r + U)" "q < 10" "ev = 0 \<or> ev = 1"
  defines "x \<equiv> if raise then q + 1 else q"
  shows "x < 10 \<and> up_to ev (q * D + r) (x * D + L) \<and> up_to ev (x * D) (q * D + r + U)"
proof (cases raise)
  case True
  have "q \<noteq> 9" using assms(1,5,7) True by (auto simp: up_to_def)
  then show ?thesis using assms True by (auto simp: up_to_def)
next
  case False
  then show ?thesis using assms by (auto simp: up_to_def)
qed

lemma upper_numerator [simp]: "upper (s\<lparr>numerator := r\<rparr>) = upper s"
  by (simp add: upper_def split: option.split)

lemma shortest_loop_value:
  assumes "shortest_inv ev s" "D = big_value (denominator s)"
  shows "\<exists>ds. shortest_loop ev s data = Some (data @ ds) \<and> ds \<noteq> [] \<and> all_digits ds \<and>
    up_to ev (10 ^ (length ds - 1) * big_value (numerator s)) (dec_value ds * D + 10 ^ (length ds - 1) * big_value (lower s)) \<and>
    up_to ev (dec_value ds * D) (10 ^ (length ds - 1) * big_value (numerator s) + 10 ^ (length ds - 1) * big_value (upper s))"
  using assms
proof (induction "big_value (denominator s) - big_value (lower s)" arbitrary: s data D rule: less_induct)
  case less
  let ?n = "numerator s" and ?d = "denominator s" and ?N = "big_value (numerator s)" and ?D = "big_value (denominator s)"
  let ?L = "big_value (lower s)" and ?U = "big_value (upper s)"
  define q where "q = ?N div ?D"
  have ev: "ev = 0 \<or> ev = 1" and rd: "ready ?n ?d" and tl: "trimmed (lower s)" and tu: "trimmed (upper s)"
    and cap: "\<not> up_to ev (10 * ?D) (?N + ?U)" using less.prems by (simp_all add: shortest_inv_def)
  have td: "trimmed ?d" using rd by (simp add: ready_def)
  obtain r where r: "divmod_assign ?n ?d = Some (r, int q)" "q < 10" "normal r" "bexp r \<le> bexp ?n" "bexp r \<le> bexp ?d"
      "big_value r = ?N mod ?D"
    using ready_divmod [OF rd] unfolding q_def by auto
  have rD: "big_value r < ?D" and N: "?N = q * ?D + big_value r"
    using r(6) big_value_pos [OF td] by (simp_all add: q_def)
  have rl: "bexp r \<le> bexp (lower s)" using less.prems(1) r(4,5) by (auto simp: shortest_inv_def)
  define low high raise where "low = (compare_big r (lower s) - ev < 0)" and "high = (add_compare r (upper s) ?d + ev > 0)"
    and "raise = (\<not> low \<or> (high \<and> (add_compare r r ?d > 0 \<or> (add_compare r r ?d = 0 \<and> int q mod 2 \<noteq> 0))))"
  note low = digit_low [OF tl r(3) rl ev] and high = digit_high [OF td tu r(3,5) ev]
  note pos = big_value_pos [OF tl] big_value_pos [OF tu]
  have step: "shortest_loop ev s data =
      (if low \<or> high then
         (if \<not> low then Some (data @ [bump (digit_char q)])
          else if high then
            (if add_compare r r ?d > 0 \<or> (add_compare r r ?d = 0 \<and> int q mod 2 \<noteq> 0) then Some (data @ [bump (digit_char q)])
             else Some (data @ [digit_char q]))
          else Some (data @ [digit_char q]))
       else times_ten (s\<lparr>numerator := r\<rparr>) \<bind> (\<lambda>s. shortest_loop ev s (data @ [digit_char q])))"
    by (subst shortest_loop.simps) (simp only: r(1) bind.bind_lunit prod.case Let_def low_def high_def nat_int)
  show ?case
  proof (cases "low \<or> high")
    case True
    have "shortest_loop ev s data = Some (data @ [if raise then bump (digit_char q) else digit_char q])"
      unfolding step raise_def using True by auto
    moreover have "(if raise then bump (digit_char q) else digit_char q) = digit_char (if raise then q + 1 else q)"
      using r(2) by (simp add: bump_digit)
    moreover have "up_to ev (q * ?D + big_value r) (q * ?D + ?L) \<and> \<not> raise \<or> up_to ev ?D (big_value r + ?U) \<and> raise"
    proof (cases raise)
      case True
      then have "high" using \<open>low \<or> high\<close> by (auto simp: raise_def)
      then show ?thesis using True high by (simp add: high_def)
    next
      case False
      then have "low" by (simp add: raise_def)
      then have "up_to ev (big_value r) ?L" using low(1) by (simp add: low_def)
      then show ?thesis using False by (auto simp: up_to_def)
    qed
    note stop = shortest_stop [OF this pos rD cap [unfolded N] r(2) ev]
    ultimately show ?thesis
      using stop N less.prems(2) by (intro exI [of _ "[digit_char (if raise then q + 1 else q)]"]) (simp add: digit_value)
  next
    case False
    have Lr: "?L \<le> big_value r" using False low(2) by (simp add: low_def)
    obtain t where t: "times_ten (s\<lparr>numerator := r\<rparr>) = Some t" "times32 10 r = Some (numerator t)" "trimmed (lower t)" "trimmed (upper t)"
        "denominator t = ?d" "big_value (numerator t) = 10 * big_value r" "big_value (lower t) = 10 * ?L" "big_value (upper t) = 10 * ?U"
        "bexp (numerator t) = bexp r" "bexp (lower t) = bexp (lower s)"
      using times_ten_value [of "s\<lparr>numerator := r\<rparr>"] r(3) tl tu by auto
    have rt: "ready (numerator t) ?d" using ready_times [OF td r(3,5) rD] t(2) by auto
    have "\<not> up_to ev ?D (big_value r + ?U)" using False high by (simp add: high_def)
    then have inv: "shortest_inv ev t" using ev rt t rl by (auto simp: shortest_inv_def up_to_def)
    have "?D - 10 * ?L < ?D - ?L" using pos(1) Lr rD by linarith
    then obtain ds where ds: "shortest_loop ev t (data @ [digit_char q]) = Some ((data @ [digit_char q]) @ ds)" "ds \<noteq> []" "all_digits ds"
        "up_to ev (10 ^ (length ds - 1) * (10 * big_value r)) (dec_value ds * ?D + 10 ^ (length ds - 1) * (10 * ?L))"
        "up_to ev (dec_value ds * ?D) (10 ^ (length ds - 1) * (10 * big_value r) + 10 ^ (length ds - 1) * (10 * ?U))"
      using less.hyps [of t "big_value (denominator t)" "data @ [digit_char q]"] inv t(5-8) by auto
    have ten: "10 ^ (length ds - 1) * (10 * z) = 10 ^ length ds * z" for z :: nat using ds(2) by (cases ds) simp_all
    have "shortest_loop ev s data = shortest_loop ev t (data @ [digit_char q])"
      unfolding step using False t(1) by simp
    moreover have "dec_value (digit_char q # ds) * ?D = q * ?D * 10 ^ length ds + dec_value ds * ?D"
      unfolding dec_value_Cons [OF r(2)] by (simp add: distrib_right)
    moreover have "10 ^ length ds * ?N = q * ?D * 10 ^ length ds + 10 ^ length ds * big_value r"
      unfolding N by (simp add: distrib_left distrib_right mult.commute)
    ultimately show ?thesis
      using ds r(2) less.prems(2) unfolding ten by (intro exI [of _ "digit_char q # ds"]) (simp add: up_to_def)
  qed
qed

lemma up_to_rat:
  assumes "up_to ev a b" "0 < k" "of_nat a * k = A" "of_nat b * k = (B :: rat)"
  shows "A \<le> B \<and> (ev = 0 \<longrightarrow> A < B)"
proof -
  from assms(1) have "a \<le> b" "ev = 0 \<longrightarrow> a < b" by (auto simp: up_to_def)
  then have "(of_nat a :: rat) \<le> of_nat b" "ev = 0 \<longrightarrow> (of_nat a :: rat) < of_nat b" by simp_all
  then show ?thesis using assms(2) unfolding assms(3,4) [symmetric] by (auto intro: mult_right_mono mult_strict_right_mono)
qed

text \<open>
  C13: Shortest digits: the loop of \<open>format_dragon\<close> ends, each character it stores is a decimal digit, and the
  number that the digits and the exponent stand for lies between the middles to the neighbours of \<open>v\<close>, at a middle only if
  the significand is even: reading it gives \<open>v\<close> back.
\<close>

theorem dragon_shortest:
  assumes "fp_f v \<noteq> 0" "\<bar>exp10\<bar> < 2 ^ 30" "num_digits < 0"
    and "below v (10 powi (corrected v flags exp10 + 1))"
    and "fp_e v + shift_bits (has_flag flags predecessor_closer) < 32 \<or> 10 powi corrected v flags exp10 < exact v \<or>
      (fp_e v + shift_bits (has_flag flags predecessor_closer)) div 32 \<le> corrected v flags exp10 div 32"
    and "fp_e v < 0 \<or> fp_e v mod 32 + shift_bits (has_flag flags predecessor_closer) < 32 \<or>
      (exp10 \<le> fp_e v \<and> 10 powi corrected v flags exp10 < exact v)"
  shows "\<exists>str e y. format_dragon v flags num_digits [] exp10 = Some (Printed str e) \<and> str \<noteq> [] \<and> all_digits str \<and>
    y = of_nat (dec_value str) * 10 powi e \<and>
    exact v \<le> y + half_below v (has_flag flags predecessor_closer) \<and> y \<le> exact v + half_above v \<and>
    (fp_f v AND 1 = 0 \<or> (exact v < y + half_below v (has_flag flags predecessor_closer) \<and> y < exact v + half_above v))"
proof -
  let ?x = "corrected v flags exp10" and ?closer = "has_flag flags predecessor_closer"
  have h0: "0 < half_above v" by (simp add: half_above_def)
  have v: "exact v < 10 powi (?x + 1)" using assms(4) h0 by (auto simp: below_def)
  obtain s t where s: "scale v ?closer exp10 = Some s"
      "(if has_flag flags fixup then fix_exponent (low_bit v) num_digits s exp10 else Some (s, exp10)) = Some (t, ?x)"
      "ready (numerator t) (denominator t)" "scaled_ok v ?closer ?x t"
      "bexp (numerator t) \<le> bexp (lower t) \<or> (bexp (denominator t) \<le> bexp (lower t) \<and> 10 powi ?x < exact v)"
    using dragon_state [OF assms(1,2) v, of ?closer num_digits] assms(3,5,6) by blast
  let ?N = "big_value (numerator t)" and ?D = "big_value (denominator t)" and ?L = "big_value (lower t)" and ?U = "big_value (upper t)"
  have tr: "trimmed (denominator t)" "trimmed (lower t)" "trimmed (upper t)"
    and eq: "of_nat ?N * 10 powi ?x = of_nat ?D * exact v" "of_nat ?L * 10 powi ?x = of_nat ?D * half_below v ?closer"
      "of_nat ?U * 10 powi ?x = of_nat ?D * half_above v"
    using s(4) by (simp_all add: scaled_ok_def)
  note D0 = big_value_pos [OF tr(1)]
  have "of_nat (?N + ?U) * 10 powi ?x = of_nat ?D * (exact v + half_above v)" using eq by (simp add: algebra_simps)
  moreover have T0: "(0 :: rat) < 10 powi ?x" by simp
  ultimately have cap: "10 * ?D < ?N + ?U \<longleftrightarrow> of_nat 10 * 10 powi ?x < exact v + half_above v"
    "?N + ?U = 10 * ?D \<longleftrightarrow> exact v + half_above v = of_nat 10 * 10 powi ?x"
    using ratio_cmp(2,3) [OF _ D0 T0] by blast+
  have "(10 :: rat) powi (?x + 1) = of_nat 10 * 10 powi ?x" by (simp add: power_int_add)
  then have "\<not> (10 * ?D < ?N + ?U) \<and> (?N + ?U = 10 * ?D \<longrightarrow> fp_f v AND 1 \<noteq> 0)"
    using assms(4) unfolding cap below_def by auto
  then have "\<not> up_to (low_bit v) (10 * ?D) (?N + ?U)" by (auto simp: up_to_def low_bit_def)
  moreover have "10 powi ?x < exact v \<longleftrightarrow> ?D < ?N" using ratio_cmp(3) [OF eq(1) D0, of 1] by simp
  ultimately have inv: "shortest_inv (low_bit v) t"
    using s(3,5) tr by (auto simp: shortest_inv_def low_bit_def)
  obtain ds where ds: "shortest_loop (low_bit v) t [] = Some ds" "ds \<noteq> []" "all_digits ds"
      "up_to (low_bit v) (10 ^ (length ds - 1) * ?N) (dec_value ds * ?D + 10 ^ (length ds - 1) * ?L)"
      "up_to (low_bit v) (dec_value ds * ?D) (10 ^ (length ds - 1) * ?N + 10 ^ (length ds - 1) * ?U)"
    using shortest_loop_value [OF inv refl, of "[]"] by auto
  have "adjust_precision num_digits (?x + 1) \<noteq> None"
    using assms(2,3) corrected_le [of v flags exp10] by (auto simp: adjust_precision_def abs_less_iff)
  then obtain p where "(if has_flag flags fixup \<and> has_flag flags fixed then adjust_precision num_digits (?x + 1) else Some num_digits) = Some p"
    by (cases "has_flag flags fixup \<and> has_flag flags fixed") auto
  then have fd: "format_dragon v flags num_digits [] exp10 = Some (Printed ds (?x - (int (length ds) - 1)))"
    using assms(3) s(1,2) ds(1) by (simp add: format_dragon_def low_bit_def [symmetric])
  let ?P = "10 ^ (length ds - 1) :: rat"
  have e: "(10 :: rat) powi (?x - (int (length ds) - 1)) = 10 powi ?x / ?P"
    using ds(2) by (cases ds) (simp_all add: power_int_diff)
  let ?k = "10 powi ?x / (of_nat ?D * ?P) :: rat"
  have k: "0 < ?k" using D0 by simp
  have part: "of_nat (10 ^ (length ds - 1) * z) * ?k = w" if "of_nat z * 10 powi ?x = of_nat ?D * w" for z w
    using that D0 by (simp add: field_simps)
  have y: "of_nat (dec_value ds * ?D) * ?k = of_nat (dec_value ds) * 10 powi (?x - (int (length ds) - 1))"
    unfolding e using D0 by simp
  have lo: "of_nat (dec_value ds * ?D + 10 ^ (length ds - 1) * ?L) * ?k =
      of_nat (dec_value ds) * 10 powi (?x - (int (length ds) - 1)) + half_below v ?closer"
    unfolding of_nat_add distrib_right y part [OF eq(2)] ..
  have up: "of_nat (10 ^ (length ds - 1) * ?N + 10 ^ (length ds - 1) * ?U) * ?k = exact v + half_above v"
    unfolding of_nat_add distrib_right part [OF eq(1)] part [OF eq(3)] ..
  show ?thesis
    using fd ds(2,3) up_to_rat [OF ds(4) k part [OF eq(1)] lo] up_to_rat [OF ds(5) k y up]
    by (auto simp: low_bit_def)
qed

theorem dragon_shortest_witness:
  "\<exists>str e. format_dragon \<lparr>fp_f = 3, fp_e = -1\<rparr> 0 (-1) [] 0 = Some (Printed str e) \<and>
    5 / 4 < (of_nat (dec_value str) * 10 powi e :: rat) \<and> (of_nat (dec_value str) * 10 powi e :: rat) < 7 / 4"
proof -
  let ?v = "\<lparr>fp_f = 3, fp_e = -1\<rparr>"
  have c: "corrected ?v 0 0 = 0" "\<not> has_flag 0 predecessor_closer" by (simp_all add: corrected_def has_flag_def)
  have x: "exact ?v = 3 / 2" "half_above ?v = 1 / 4" "half_below ?v False = 1 / 4"
    by (simp_all add: exact_def half_above_def half_below_def)
  show ?thesis
    using dragon_shortest [of ?v 0 "-1" 0] by (auto simp: c x below_def shift_bits_def)
qed

end
