(* ===== verification/Fmt_Pow10.thy ===== *)
theory Fmt_Pow10
  imports Complex_Main Fmt_Uint128 "HOL-Library.Monad_Syntax"
begin

unbundle bit_operations_syntax

text \<open>
  The powers of ten of Dragonbox in \<^verbatim>\<open>base/fmt/format.h\<close> and \<^verbatim>\<open>base/fmt/format-inl.h\<close>: products of 64- and 128-bit numbers, the
  integer logarithm, and the table of 128-bit significands of \<open>10 ^ k\<close>, compressed to every 27th power as the
  default build has it. \<open>None\<close> is an assertion that fails.
\<close>

section \<open>Products\<close>

text \<open>The branch of \<open>umul128\<close> without a 128-bit type; the other branches are the product itself.\<close>

definition umul128 :: "64 word \<Rightarrow> 64 word \<Rightarrow> uint128" where
  "umul128 x y =
     (let m = ucast (NOT 0 :: 32 word);
          a = drop_bit 32 x; b = x AND m; c = drop_bit 32 y; d = y AND m;
          ac = a * c; bc = b * c; ad = a * d; bd = b * d;
          intermediate = drop_bit 32 bd + (ad AND m) + (bc AND m)
      in u128 (ac + drop_bit 32 intermediate + drop_bit 32 ad + drop_bit 32 bc)
           (push_bit 32 intermediate + (bd AND m)))"

definition umul128_upper64 :: "64 word \<Rightarrow> 64 word \<Rightarrow> 64 word" where
  "umul128_upper64 x y = hi (umul128 x y)"

definition umul192_upper128 :: "64 word \<Rightarrow> uint128 \<Rightarrow> uint128" where
  "umul192_upper128 x y = u128_add64 (umul128 x (hi y)) (umul128_upper64 x (lo y))"

definition umul192_lower128 :: "64 word \<Rightarrow> uint128 \<Rightarrow> uint128" where
  "umul192_lower128 x y =
     (let high = x * hi y; high_low = umul128 x (lo y)
      in u128 (high + hi high_low) (lo high_low))"

definition umul96_upper64 :: "32 word \<Rightarrow> 64 word \<Rightarrow> 64 word" where
  "umul96_upper64 x y = umul128_upper64 (push_bit 32 (ucast x)) y"

definition umul96_lower64 :: "32 word \<Rightarrow> 64 word \<Rightarrow> 64 word" where
  "umul96_lower64 x y = ucast x * y"

lemma unat_low_32: "unat (w AND ucast (NOT 0 :: 32 word) :: 64 word) = unat w mod 2 ^ 32"
proof -
  have "ucast (NOT 0 :: 32 word) = (mask 32 :: 64 word)" by (rule bit_word_eqI) (auto simp: bit_simps)
  then have "w AND ucast (NOT 0 :: 32 word) = take_bit 32 w" by (simp only: take_bit_eq_mask)
  moreover have "unat (take_bit 32 w) = take_bit 32 (unat w)" by (rule unsigned_take_bit_eq)
  ultimately show ?thesis by (simp only: take_bit_eq_mod)
qed

lemma unat_add_small64:
  fixes v w :: "64 word"
  assumes "unat v + unat w < 2 ^ 64"
  shows "unat (v + w) = unat v + unat w"
  using assms by (simp add: unat_plus_if')

lemma product_halves:
  fixes B :: nat
  assumes "a * d = B * p + q" "b * c = B * r + s" "b * d = B * t + u" "t + q + s = B * v + w"
  shows "(B * a + b) * (B * c + d) = B * B * (a * c + v + p + r) + (B * w + u)"
proof -
  have "(B * a + b) * (B * c + d) = B * B * (a * c) + B * (a * d) + B * (b * c) + b * d"
    by (simp add: algebra_simps)
  also have "\<dots> = B * B * (a * c) + B * B * p + B * B * r + B * (t + q + s) + u"
    unfolding assms(1-3) by (simp add: algebra_simps)
  also have "\<dots> = B * B * (a * c + v + p + r) + (B * w + u)"
    unfolding assms(4) by (simp add: algebra_simps)
  finally show ?thesis .
qed

lemma small_product: "(a :: nat) < 2 ^ 32 \<Longrightarrow> b < 2 ^ 32 \<Longrightarrow> a * b < 2 ^ 64"
  using mult_strict_mono [of a "2 ^ 32" b "2 ^ 32"] by simp

lemma umul128_value: "unat (u128_of (umul128 x y)) = unat x * unat y"
proof -
  let ?m = "ucast (NOT 0 :: 32 word) :: 64 word"
  define a b c d where d: "a = drop_bit 32 x" "b = x AND ?m" "c = drop_bit 32 y" "d = y AND ?m"
  define A B C D where D: "A = unat x div 2 ^ 32" "B = unat x mod 2 ^ 32" "C = unat y div 2 ^ 32" "D = unat y mod 2 ^ 32"
  have u: "unat a = A" "unat b = B" "unat c = C" "unat d = D" by (simp_all only: d D unat_drop_32 unat_low_32)
  have s: "A < 2 ^ 32" "B < 2 ^ 32" "C < 2 ^ 32" "D < 2 ^ 32" using unat_64 [of x] unat_64 [of y] by (auto simp: D)
  have p: "unat (a * c) = A * C" "unat (b * c) = B * C" "unat (a * d) = A * D" "unat (b * d) = B * D"
    using s by (simp_all add: unat_mult_32 u)
  define im where "im = drop_bit 32 (b * d) + (a * d AND ?m) + (b * c AND ?m)"
  define Im where "Im = B * D div 2 ^ 32 + A * D mod 2 ^ 32 + B * C mod 2 ^ 32"
  have parts: "unat (drop_bit 32 (b * d)) = B * D div 2 ^ 32" "unat (a * d AND ?m) = A * D mod 2 ^ 32"
      "unat (b * c AND ?m) = B * C mod 2 ^ 32"
    by (simp_all only: unat_drop_32 unat_low_32 p)
  have small: "B * D div 2 ^ 32 < 2 ^ 32" "A * D mod 2 ^ 32 < 2 ^ 32" "B * C mod 2 ^ 32 < 2 ^ 32"
    using small_product [OF s(2,4)] by auto
  have "unat (drop_bit 32 (b * d) + (a * d AND ?m)) = B * D div 2 ^ 32 + A * D mod 2 ^ 32"
    using small parts by (subst unat_add_small64) auto
  moreover have "B * D div 2 ^ 32 + A * D mod 2 ^ 32 + B * C mod 2 ^ 32 < 2 ^ 64" using small by simp
  ultimately have im: "unat im = Im"
    using parts(3) unat_add_small64 [of "drop_bit 32 (b * d) + (a * d AND ?m)" "b * c AND ?m"]
    by (simp only: im_def Im_def)
  let ?H = "A * C + Im div 2 ^ 32 + A * D div 2 ^ 32 + B * C div 2 ^ 32"
  let ?L = "2 ^ 32 * (Im mod 2 ^ 32) + B * D mod 2 ^ 32"
  have val: "unat x * unat y = 2 ^ 64 * ?H + ?L"
  proof -
    have "(2 ^ 32 * A + B) * (2 ^ 32 * C + D) = 2 ^ 32 * 2 ^ 32 * ?H + ?L"
      using Im_def by (intro product_halves) (simp_all del: power_numeral)
    then show ?thesis by (simp add: D)
  qed
  have "unat x * unat y < 2 ^ 64 * 2 ^ 64" using unat_64 [of x] unat_64 [of y] by (intro mult_strict_mono) auto
  then have "2 ^ 64 * ?H < 2 ^ 64 * (2 ^ 64 :: nat)" unfolding val by linarith
  then have H: "?H < 2 ^ 64" by simp
  have i: "unat (drop_bit 32 im) = Im div 2 ^ 32" "unat (drop_bit 32 (a * d)) = A * D div 2 ^ 32"
      "unat (drop_bit 32 (b * c)) = B * C div 2 ^ 32"
    by (simp_all only: unat_drop_32 im p)
  have "unat (a * c + drop_bit 32 im) = A * C + Im div 2 ^ 32" using H i p by (subst unat_add_small64) auto
  then have "unat (a * c + drop_bit 32 im + drop_bit 32 (a * d)) = A * C + Im div 2 ^ 32 + A * D div 2 ^ 32"
    using H i by (subst unat_add_small64) auto
  then have h: "unat (a * c + drop_bit 32 im + drop_bit 32 (a * d) + drop_bit 32 (b * c)) = ?H"
    using H i by (subst unat_add_small64) auto
  have "?L < 2 ^ 64" by simp
  moreover have "unat (push_bit 32 im) = 2 ^ 32 * (Im mod 2 ^ 32)"
    unfolding unat_push_32 im using mult_mod_right [of "2 ^ 32" Im "2 ^ 32"] by simp
  ultimately have l: "unat (push_bit 32 im + (b * d AND ?m)) = ?L"
    by (subst unat_add_small64) (simp_all only: unat_low_32 p)
  show ?thesis
    unfolding umul128_def Let_def d [symmetric] im_def [symmetric] unat_u128_of u128_simps h l val ..
qed

lemma umul128_upper64_value: "unat (umul128_upper64 x y) = unat x * unat y div 2 ^ 64"
  using umul128_value [of x y] unat_64 [of "lo (umul128 x y)"]
  by (simp add: umul128_upper64_def unat_u128_of flip: umul128_value)

lemma umul96_upper64_value: "unat (umul96_upper64 x y) = unat x * unat y div 2 ^ 32"
proof -
  have "unat (ucast x * 2 ^ 32 :: 64 word) = unat x * 2 ^ 32"
    using unsigned_less [of x, where 'a = nat] by (simp add: unat_word_ariths unsigned_ucast_eq take_bit_eq_mod)
  then have "unat (push_bit 32 (ucast x) :: 64 word) = unat x * 2 ^ 32" by (simp only: push_bit_eq_mult)
  then have "unat (umul96_upper64 x y) = (unat x * unat y) * 2 ^ 32 div (2 ^ 32 * 2 ^ 32)"
    by (simp add: umul96_upper64_def umul128_upper64_value ac_simps)
  then show ?thesis by (subst (asm) div_mult_mult2) simp_all
qed

lemma umul192_upper128_value:
  "unat (u128_of (umul192_upper128 x y)) = unat x * unat (u128_of y) div 2 ^ 64"
proof -
  let ?p = "unat x * unat (hi y)" and ?q = "unat x * unat (lo y)"
  have x: "unat x \<le> 2 ^ 64 - 1" "unat (hi y) \<le> 2 ^ 64 - 1" "unat (lo y) \<le> 2 ^ 64 - 1"
    using unat_64 [of x] unat_64 [of "hi y"] unat_64 [of "lo y"] by simp_all
  have "?p \<le> (2 ^ 64 - 1) * (2 ^ 64 - 1)" "?q \<le> (2 ^ 64 - 1) * (2 ^ 64 - 1)"
    using x by (auto intro: mult_mono simp del: power_numeral)
  then have "?p + ?q div 2 ^ 64 < 2 ^ 128" by simp
  then have "unat (u128_of (umul192_upper128 x y)) = ?p + ?q div 2 ^ 64"
    by (simp add: umul192_upper128_def u128_add64_value umul128_upper64_value umul128_value unat_plus_if'
        unsigned_ucast_eq take_bit_eq_mod)
  also have "\<dots> = (2 ^ 64 * ?p + ?q) div 2 ^ 64" by simp
  also have "2 ^ 64 * ?p + ?q = unat x * unat (u128_of y)" by (simp add: unat_u128_of algebra_simps)
  finally show ?thesis .
qed

lemma umul192_lower128_value: "u128_of (umul192_lower128 x y) = ucast x * u128_of y"
proof (rule word_eq_by_unat)
  let ?q = "umul128 x (lo y)"
  have "unat (u128_of (umul192_lower128 x y)) =
      2 ^ 64 * ((unat x * unat (hi y) + unat (hi ?q)) mod 2 ^ 64) + unat (lo ?q)"
    by (simp add: umul192_lower128_def Let_def unat_u128_of unat_word_ariths mod_simps)
  also have "\<dots> = (2 ^ 64 * (unat x * unat (hi y)) + unat (u128_of ?q)) mod 2 ^ 128"
    unfolding halves_mod [OF unat_64] unat_u128_of [of ?q] by (simp add: distrib_left add.assoc)
  also have "2 ^ 64 * (unat x * unat (hi y)) + unat (u128_of ?q) = unat x * unat (u128_of y)"
    unfolding umul128_value unat_u128_of [of y] by (simp only: distrib_left mult.left_commute)
  also have "unat x = unat (ucast x :: 128 word)"
    using unat_64 [of x] by (simp add: unsigned_ucast_eq take_bit_eq_mod)
  also have "unat (ucast x :: 128 word) * unat (u128_of y) mod 2 ^ 128 = unat (ucast x * u128_of y)"
    by (simp add: unat_word_ariths)
  finally show "unat (u128_of (umul192_lower128 x y)) = unat (ucast x * u128_of y)" .
qed

section \<open>The binary logarithm of a power of ten\<close>

definition floor_log2_pow10 :: "int \<Rightarrow> int option" where
  "floor_log2_pow10 e = (if e \<le> 1233 \<and> e \<ge> - 1233 then Some (drop_bit 19 (e * 1741647)) else None)"

section \<open>The table\<close>

abbreviation (input) "min_k \<equiv> - 292 :: int"
abbreviation (input) "max_k \<equiv> 341 :: int"

definition pow10_significands :: "uint128 list" where
  "pow10_significands =
    [u128 0xff77b1fcbebcdc4f 0x25e8e89c13bb0f7b,
     u128 0xce5d73ff402d98e3 0xfb0a3d212dc81290,
     u128 0xa6b34ad8c9dfc06f 0xf42faa48c0ea481f,
     u128 0x86a8d39ef77164bc 0xae5dff9c02033198,
     u128 0xd98ddaee19068c76 0x3badd624dd9b0958,
     u128 0xafbd2350644eeacf 0xe5d1929ef90898fb,
     u128 0x8df5efabc5979c8f 0xca8d3ffa1ef463c2,
     u128 0xe55990879ddcaabd 0xcc420a6a101d0516,
     u128 0xb94470938fa89bce 0xf808e40e8d5b3e6a,
     u128 0x95a8637627989aad 0xdde7001379a44aa9,
     u128 0xf1c90080baf72cb1 0x5324c68b12dd6339,
     u128 0xc350000000000000 0x0000000000000000,
     u128 0x9dc5ada82b70b59d 0xf020000000000000,
     u128 0xfee50b7025c36a08 0x02f236d04753d5b5,
     u128 0xcde6fd5e09abcf26 0xed4c0226b55e6f87,
     u128 0xa6539930bf6bff45 0x84db8346b786151d,
     u128 0x865b86925b9bc5c2 0x0b8a2392ba45a9b3,
     u128 0xd910f7ff28069da4 0x1b2ba1518094da05,
     u128 0xaf58416654a6babb 0x387ac8d1970027b3,
     u128 0x8da471a9de737e24 0x5ceaecfed289e5d3,
     u128 0xe4d5e82392a40515 0x0fabaf3feaa5334b,
     u128 0xb8da1662e7b00a17 0x3d6a751f3b936244,
     u128 0x95527a5202df0ccb 0x0f37801e0c43ebc9,
     u128 0xf13e34aabb430a15 0x647726b9e7c68ff0]"

definition powers_of_5_64 :: "64 word list" where
  "powers_of_5_64 =
    [0x0000000000000001, 0x0000000000000005, 0x0000000000000019,
     0x000000000000007d, 0x0000000000000271, 0x0000000000000c35,
     0x0000000000003d09, 0x000000000001312d, 0x000000000005f5e1,
     0x00000000001dcd65, 0x00000000009502f9, 0x0000000002e90edd,
     0x000000000e8d4a51, 0x0000000048c27395, 0x000000016bcc41e9,
     0x000000071afd498d, 0x0000002386f26fc1, 0x000000b1a2bc2ec5,
     0x000003782dace9d9, 0x00001158e460913d, 0x000056bc75e2d631,
     0x0001b1ae4d6e2ef5, 0x000878678326eac9, 0x002a5a058fc295ed,
     0x00d3c21bcecceda1, 0x0422ca8b0a00a425, 0x14adf4b7320334b9]"

definition compression_ratio :: int where "compression_ratio = 27"

definition recover :: "uint128 \<Rightarrow> 64 word \<Rightarrow> nat \<Rightarrow> uint128 option" where
  "recover base_cache pow5 alpha =
     (let recovered = umul128 (hi base_cache) pow5;
          middle_low = umul128 (lo base_cache) pow5;
          recovered = u128_add64 recovered (hi middle_low);
          high_to_middle = push_bit (64 - alpha) (hi recovered);
          middle_to_low = push_bit (64 - alpha) (lo recovered);
          recovered = u128 (drop_bit alpha (lo recovered) OR high_to_middle) (drop_bit alpha (lo middle_low) OR middle_to_low)
      in if lo recovered + 1 = 0 then None else Some (u128 (hi recovered) (lo recovered + 1)))"

definition get_cached_power :: "int \<Rightarrow> uint128 option" where
  "get_cached_power k =
     (if k \<ge> min_k \<and> k \<le> max_k then
        (let cache_index = (k - min_k) div compression_ratio;
             kb = cache_index * compression_ratio + min_k;
             offset = k - kb;
             base_cache = pow10_significands ! nat cache_index
         in if offset = 0 then Some base_cache
            else do {
              l \<leftarrow> floor_log2_pow10 (kb + offset);
              lb \<leftarrow> floor_log2_pow10 kb;
              let alpha = l - lb - offset;
              (if alpha > 0 \<and> alpha < 64 then recover base_cache (powers_of_5_64 ! nat offset) (nat alpha) else None)
            })
      else None)"

section \<open>Recovered entries\<close>

lemma lo_u128_shr:
  assumes "0 < a" "a < 64"
  shows "unat (drop_bit a (lo x) OR push_bit (64 - a) (hi x)) = unat (u128_of x) div 2 ^ a mod 2 ^ 64"
proof -
  obtain z where z: "u128_shr x a = Some z" "u128_of z = drop_bit a (u128_of x)"
    using u128_shr_value assms(1) by blast
  have "unat (drop_bit a (u128_of x)) = unat (u128_of x) div 2 ^ a"
    by (simp add: unat_drop_bit_eq drop_bit_eq_div [where 'a = nat])
  then have "unat (lo z) = unat (u128_of x) div 2 ^ a mod 2 ^ 64"
    using unat_u128_of [of z] unat_64 [of "lo z"] by (simp add: z(2))
  moreover have "lo z = drop_bit a (lo x) OR push_bit (64 - a) (hi x)"
    using z(1) assms by (auto simp: u128_shr.simps or.commute)
  ultimately show ?thesis by simp
qed

lemma lower_parts:
  fixes A B c R m :: nat
  assumes "A * c = B" "0 < A"
  shows "(B * (R mod B) + m) div A mod B = (B * R + m) div A mod B"
proof -
  have "B * R = B * (R mod B) + B * (B * (R div B))" by (metis distrib_left mod_mult_div_eq)
  also have "B * (B * (R div B)) = A * (B * (c * (R div B)))"
    using assms(1) by (metis mult.assoc mult.left_commute)
  finally have eq: "B * R + m = B * (R mod B) + m + A * (B * (c * (R div B)))" by simp
  have "(B * (R mod B) + m + A * (B * (c * (R div B)))) div A = B * (c * (R div B)) + (B * (R mod B) + m) div A"
    by (rule div_mult_self2) (use assms(2) in simp)
  then show ?thesis unfolding eq by simp
qed

lemma recover_value:
  fixes base_cache :: uint128 and pow5 :: "64 word" and a :: nat
  defines "v \<equiv> unat (u128_of base_cache) * unat pow5 div 2 ^ a"
  assumes a: "0 < a" "a < 64" and v: "v + 1 < 2 ^ 128" "(v + 1) mod 2 ^ 64 \<noteq> 0"
  shows "\<exists>r. recover base_cache pow5 a = Some r \<and> unat (u128_of r) = v + 1"
proof -
  let ?h = "umul128 (hi base_cache) pow5" and ?l = "umul128 (lo base_cache) pow5"
  let ?r = "u128_add64 ?h (hi ?l)"
  let ?H = "unat (hi base_cache) * unat pow5" and ?L = "unat (lo base_cache) * unat pow5"
  have l: "?L = 2 ^ 64 * unat (hi ?l) + unat (lo ?l)" unfolding unat_u128_of [symmetric] by (rule umul128_value [symmetric])
  have "?H \<le> (2 ^ 64 - 1) * (2 ^ 64 - 1)"
    using unat_64 [of "hi base_cache"] unat_64 [of pow5] by (intro mult_mono) auto
  then have "?H + unat (hi ?l) < 2 ^ 128" using unat_64 [of "hi ?l"] by simp
  then have r: "unat (u128_of ?r) = ?H + unat (hi ?l)"
    using unat_64 [of "hi ?l"]
    by (simp add: u128_add64_value umul128_value unat_plus_if' unsigned_ucast_eq take_bit_eq_mod)
  define R where "R = ?H + unat (hi ?l)"
  have P: "unat (u128_of base_cache) * unat pow5 = 2 ^ 64 * R + unat (lo ?l)"
    using l by (simp add: unat_u128_of R_def distrib_right distrib_left)
  define top where "top = drop_bit a (lo ?r) OR push_bit (64 - a) (hi ?r)"
  define low where "low = drop_bit a (lo ?l) OR push_bit (64 - a) (lo ?r)"
  have "unat top = R div 2 ^ a mod 2 ^ 64"
    unfolding top_def lo_u128_shr [OF a] r R_def ..
  also have "R div 2 ^ a = v div 2 ^ 64"
  proof -
    have "v div 2 ^ 64 = (2 ^ 64 * R + unat (lo ?l)) div 2 ^ 64 div 2 ^ a"
      unfolding v_def P by (simp only: div_mult2_eq [symmetric] mult.commute)
    also have "(2 ^ 64 * R + unat (lo ?l)) div 2 ^ 64 = R" using unat_64 [of "lo ?l"] by simp
    finally show ?thesis ..
  qed
  also have "v div 2 ^ 64 mod 2 ^ 64 = v div 2 ^ 64" using v(1) by simp
  finally have top: "unat top = v div 2 ^ 64" .
  have "unat (lo ?r) = R mod 2 ^ 64"
    using unat_u128_of [of ?r] unat_64 [of "lo ?r"] by (simp add: r R_def [symmetric])
  moreover have "v = (2 ^ 64 * R + unat (lo ?l)) div 2 ^ a" unfolding v_def P ..
  ultimately have low: "unat low = v mod 2 ^ 64"
    using lo_u128_shr [OF a, of "u128 (lo ?r) (lo ?l)"] lower_parts [of "2 ^ a" "2 ^ (64 - a)" "2 ^ 64" R "unat (lo ?l)"] a(2)
    by (simp add: low_def unat_u128_of flip: power_add)
  have "v mod 2 ^ 64 \<noteq> 2 ^ 64 - 1" using v(2) by (auto simp: mod_Suc)
  then have low1: "unat (low + 1) = v mod 2 ^ 64 + 1"
    using low mod_less_divisor [of "2 ^ 64" v] by (subst unat_add_small64) auto
  then have "low + 1 \<noteq> 0" by (metis Suc_eq_plus1 nat.simps(3) unsigned_0)
  then have "recover base_cache pow5 a = Some (u128 top (low + 1))"
    by (simp add: recover_def Let_def top_def low_def)
  moreover have "unat (u128_of (u128 top (low + 1))) = v + 1"
    unfolding unat_u128_of u128_simps top low1 by simp
  ultimately show ?thesis by blast
qed

text \<open>The check of the entries that are recovered from one of the table: \<open>b\<close> is the logarithm of the base without its power of two,
  \<open>P\<close> the base times the power \<open>p\<close> of 5. The shift is in range, the highest bit of the entry is set, and the assertion on its lower half holds.\<close>

definition log2_pow10 :: "int \<Rightarrow> int" where
  "log2_pow10 k = k * 1741647 div 2 ^ 19"

fun recovers :: "nat \<Rightarrow> int \<Rightarrow> int \<Rightarrow> int \<Rightarrow> int \<Rightarrow> bool" where
  "recovers 0 b k P p \<longleftrightarrow> True"
| "recovers (Suc n) b k P p \<longleftrightarrow>
     (let alpha = nat (log2_pow10 k - b - k);
          v = drop_bit alpha P + 1
      in 0 < alpha \<and> alpha < 64 \<and> drop_bit 127 v = 1 \<and> (drop_bit 2 (take_bit 127 v) \<noteq> 0 \<or> k = 0) \<and> take_bit 64 v \<noteq> 0 \<and> drop_bit (Suc alpha) p = 0 \<and>
         recovers n b (k + 1) (5 * P) (5 * p))"

lemmas recovers_numeral = recovers.simps(2) [where n = "pred_numeral n" for n, folded numeral_eq_Suc]

definition entry_recovers :: "int \<times> int \<Rightarrow> bool" where
  "entry_recovers e = recovers 26 (log2_pow10 (fst e) - fst e) (fst e + 1) (5 * snd e) 5"

text \<open>An entry of the table is the power of ten, scaled to 128 bits and rounded up.\<close>

definition entry_exact :: "int \<times> int \<Rightarrow> bool" where
  "entry_exact e =
     (let k = fst e; c = snd e; l = log2_pow10 k;
          d = 10 ^ nat (- k) * 2 ^ nat (l - 127);
          x = 10 ^ nat k * 2 ^ nat (127 - l)
      in x \<le> c * d \<and> c * d < x + d \<and> 2 ^ 127 + 1 \<le> c \<and> c < 2 ^ 128)"

definition entries_a :: "(int \<times> int) list" where
  "entries_a = [(- 292, 339574632262346462319337857089816694651),
      (- 265, 274306203439684434162796812559360463504),
      (- 238, 221582786512044528543660416923448526879),
      (- 211, 178993149490468507527617399585467740568),
      (- 184, 289179029371721471687588745441753893208),
      (- 157, 233596959622256395194427986211854915835)]"

lemma recovers_a: "list_all entry_recovers entries_a"
  unfolding entries_a_def by (simp add: entry_recovers_def log2_pow10_def recovers_numeral)

lemma exact_a: "list_all entry_exact entries_a"
  unfolding entries_a_def by (simp add: entry_exact_def log2_pow10_def)

definition entries_b :: "(int \<times> int) list" where
  "entries_b = [(- 130, 188698121241077067612077729049413444546),
      (- 103, 304858256866796116345859104471988897046),
      (- 76, 246262538727465495076744000625897586282),
      (- 49, 198929294563914656862152899258728336041),
      (- 22, 321387608851798055108392418468232520505),
      (5, 259614842926741381426524816461004800000)]"

lemma recovers_b: "list_all entry_recovers entries_b"
  unfolding entries_b_def by (simp add: entry_recovers_def log2_pow10_def recovers_numeral)

lemma exact_b: "list_all entry_exact entries_b"
  unfolding entries_b_def by (simp add: entry_exact_def log2_pow10_def)

definition entries_c :: "(int \<times> int) list" where
  "entries_c = [(32, 209715200000000000000000000000000000000),
      (59, 338813178901720135627329000271856784821),
      (86, 273691106313440834164790934236311744391),
      (113, 221085915010417782409890607687690229021),
      (140, 178591779887855465971216179422709524915),
      (167, 288530581805804243148716586328026044933)]"

lemma recovers_c: "list_all entry_recovers entries_c"
  unfolding entries_c_def by (simp add: entry_recovers_def log2_pow10_def recovers_numeral)

lemma exact_c: "list_all entry_exact entries_c"
  unfolding entries_c_def by (simp add: entry_exact_def log2_pow10_def)

definition entries_d :: "(int \<times> int) list" where
  "entries_d = [(194, 233073147850006460727842666108216682419),
      (221, 188274989461162821698496096461914760659),
      (248, 304174650607225571762411584933616497483),
      (275, 245710325988660175637322864660982227524),
      (302, 198483220665921913493274236659049950153),
      (329, 320666937601435644479377288216025927664)]"

lemma recovers_d: "list_all entry_recovers entries_d"
  unfolding entries_d_def by (simp add: entry_recovers_def log2_pow10_def recovers_numeral)

lemma exact_d: "list_all entry_exact entries_d"
  unfolding entries_d_def by (simp add: entry_exact_def log2_pow10_def)

definition entry :: "nat \<Rightarrow> int \<times> int" where
  "entry i = (int i * 27 - 292, int (unat (u128_of (pow10_significands ! i))))"

lemma entry_list: "entries_a @ entries_b @ entries_c @ entries_d = map entry [0..<24]"
  by (simp add: entries_a_def entries_b_def entries_c_def entries_d_def entry_def pow10_significands_def unat_u128_of
      upt_rec)

lemma entry_checks:
  assumes "i < 24"
  shows "entry_recovers (entry i)" "entry_exact (entry i)"
proof -
  have e: "entry i \<in> set (entries_a @ entries_b @ entries_c @ entries_d)" unfolding entry_list using assms by simp
  show "entry_recovers (entry i)" "entry_exact (entry i)"
    using e recovers_a recovers_b recovers_c recovers_d exact_a exact_b exact_c exact_d by (auto simp: list_all_iff)
qed

lemma recovers_nth:
  assumes "recovers n b k P p" "i < n"
  defines "alpha \<equiv> nat (log2_pow10 (k + int i) - b - (k + int i))"
  defines "v \<equiv> drop_bit alpha (P * 5 ^ i) + 1"
  shows "0 < alpha \<and> alpha < 64 \<and> drop_bit 127 v = 1 \<and> (drop_bit 2 (take_bit 127 v) \<noteq> 0 \<or> k + int i = 0) \<and> take_bit 64 v \<noteq> 0 \<and>
    drop_bit (Suc alpha) (p * 5 ^ i) = 0"
  using assms(1,2) unfolding v_def alpha_def
proof (induction n b k P p arbitrary: i rule: recovers.induct)
  case (2 n b k P p)
  then show ?case
  proof (cases i)
    case 0
    then show ?thesis using 2(2) by (simp add: Let_def)
  next
    case (Suc j)
    have "recovers n b (k + 1) (5 * P) (5 * p)" using 2(2) by (simp add: Let_def)
    from 2(1) [OF refl refl this, of j] show ?thesis
      using 2(3) Suc by (simp add: algebra_simps)
  qed
qed simp

definition scaled_power :: "int \<Rightarrow> real" where
  "scaled_power k = 10 powi k * 2 powi (127 - log2_pow10 k)"

lemma entry_scaled:
  assumes "entry_exact (k, c)"
  shows "scaled_power k \<le> c" "c < scaled_power k + 1" "2 ^ 127 + 1 \<le> c" "c < 2 ^ 128"
proof -
  let ?l = "log2_pow10 k"
  let ?d = "10 ^ nat (- k) * 2 ^ nat (?l - 127) :: int" and ?x = "10 ^ nat k * 2 ^ nat (127 - ?l) :: int"
  have c: "?x \<le> c * ?d" "c * ?d < ?x + ?d" "2 ^ 127 + 1 \<le> c" "c < 2 ^ 128"
    using assms by (simp_all add: entry_exact_def Let_def)
  have "10 powi k = (10 ^ nat k / 10 ^ nat (- k) :: real)"
    by (simp add: power_int_def field_simps)
  moreover have "2 powi (127 - ?l) = (2 ^ nat (127 - ?l) / 2 ^ nat (?l - 127) :: real)"
    by (simp add: power_int_def field_simps)
  ultimately have s: "scaled_power k * ?d = ?x" by (simp add: scaled_power_def)
  have d: "0 < (?d :: int)" by simp
  have "real_of_int ?x \<le> c * ?d" "real_of_int (c * ?d) < ?x + ?d" using c(1,2) by (simp_all only: of_int_le_iff of_int_less_iff)
  then have "scaled_power k * real_of_int ?d \<le> c * real_of_int ?d" "c * real_of_int ?d < (scaled_power k + 1) * real_of_int ?d"
    using s by (simp_all add: distrib_right)
  then show "scaled_power k \<le> c" "c < scaled_power k + 1"
    using d by (simp_all only: mult_le_cancel_right_pos mult_less_cancel_right_pos of_int_0_less_iff)
  show "2 ^ 127 + 1 \<le> c" "c < 2 ^ 128" using c(3,4) .
qed

lemma scaled_power_step:
  assumes "log2_pow10 (k + int i) = log2_pow10 k + int i + int a"
  shows "scaled_power (k + int i) = scaled_power k * (5 ^ i / 2 ^ a)"
proof -
  have pow: "2 powi (x + int n) = (2 powi x * 2 ^ n :: real)" for x n
    by (simp add: power_int_add)
  have "127 - log2_pow10 k = 127 - log2_pow10 (k + int i) + int (i + a)" using assms by simp
  then have "2 powi (127 - log2_pow10 k) = (2 powi (127 - log2_pow10 (k + int i)) * 2 ^ (i + a) :: real)"
    by (simp only: pow)
  moreover have "10 powi (k + int i) = (10 powi k * 10 ^ i :: real)"
    by (simp add: power_int_add)
  moreover have "(10 :: real) ^ i = 2 ^ i * 5 ^ i" by (simp flip: power_mult_distrib)
  ultimately show ?thesis by (simp add: scaled_power_def power_add field_simps)
qed

lemma recovered_close:
  fixes E c q :: real and m n :: int
  assumes "E \<le> c" "c < E + 1" "0 < q" "q < 2" "0 < n" "c * q = m / n"
  shows "E * q \<le> m div n + 1" "m div n + 1 < E * q + 3"
proof -
  have f: "real_of_int (m div n) \<le> m / n" "m / n < m div n + 1"
    using floor_correct [of "real_of_int m / n"] by (simp_all add: floor_divide_of_int_eq)
  have "E * q \<le> c * q" using assms(1,3) by (intro mult_right_mono) auto
  moreover have "c * q < (E + 1) * q" using assms(2,3) by (intro mult_strict_right_mono) auto
  ultimately show "E * q \<le> m div n + 1" "m div n + 1 < E * q + 3"
    using f assms(4,6) by (simp_all add: distrib_right)
qed


lemma real_of_nat_bounds:
  "2 ^ 127 + 1 \<le> int n \<Longrightarrow> (2 ^ 127 + 1 :: real) \<le> real n"
  "int n < 2 ^ 128 \<Longrightarrow> real n < (2 ^ 128 :: real)"
  using of_int_le_iff [of "2 ^ 127 + 1" "int n", where 'a = real] of_int_less_iff [of "int n" "2 ^ 128", where 'a = real]
  by simp_all

lemma real_above_bounds:
  "2 ^ 127 + 3 \<le> n \<Longrightarrow> (2 ^ 127 + 3 :: real) \<le> real n"
  "n < 2 ^ 128 \<Longrightarrow> real n < (2 ^ 128 :: real)"
  using of_nat_le_iff [of "2 ^ 127 + 3" n, where 'a = real] of_nat_less_iff [of n "2 ^ 128", where 'a = real]
  by simp_all

text \<open>The bits that the check looks at.\<close>

lemma div_one_split: "w div m = (1 :: nat) \<Longrightarrow> w = m + w mod m"
  by (metis div_mult_mod_eq mult_1)

lemma three_above: "w = m + r \<Longrightarrow> (3 :: nat) \<le> r \<Longrightarrow> m + 3 \<le> w"
  by simp

lemma entry_bits:
  fixes w :: nat
  assumes "drop_bit 127 (int w) = 1"
  shows "2 ^ 127 \<le> w" "w < 2 ^ 128" "take_bit 64 (int w) \<noteq> 0 \<Longrightarrow> w mod 2 ^ 64 \<noteq> 0"
    "drop_bit 2 (take_bit 127 (int w)) \<noteq> 0 \<Longrightarrow> 2 ^ 127 + 3 \<le> w"
proof -
  have "int (w div 2 ^ 127) = int 1" using assms by (simp add: drop_bit_eq_div zdiv_int)
  then have d: "w div 2 ^ 127 = 1" by (simp only: of_nat_eq_iff)
  then have s: "w = 2 ^ 127 + w mod 2 ^ 127" by (rule div_one_split)
  then show "2 ^ 127 \<le> w" by (metis le_add1)
  show "w < 2 ^ 128" using mod_less_divisor [of "2 ^ 127" w] s by simp
  show "take_bit 64 (int w) \<noteq> 0 \<Longrightarrow> w mod 2 ^ 64 \<noteq> 0"
    using zmod_int [of w "2 ^ 64"] by (auto simp: take_bit_eq_mod)
  assume "drop_bit 2 (take_bit 127 (int w)) \<noteq> 0"
  then have "int (w mod 2 ^ 127) div 4 \<noteq> 0" by (simp add: drop_bit_eq_div take_bit_eq_mod zmod_int)
  then have "3 \<le> w mod 2 ^ 127" by auto
  with s show "2 ^ 127 + 3 \<le> w" by (rule three_above)
qed

lemma drop_bit_0_less: "drop_bit n (x :: int) = 0 \<Longrightarrow> x < 2 ^ n"
  by (auto simp: drop_bit_eq_div zdiv_eq_0_iff intro: le_less_trans)

definition close :: "int \<Rightarrow> uint128 \<Rightarrow> bool" where
  "close k c \<longleftrightarrow> scaled_power k \<le> unat (u128_of c) \<and> unat (u128_of c) < scaled_power k + 3 \<and>
     2 ^ 127 \<le> scaled_power k \<and> scaled_power k < 2 ^ 128"

lemma floor_log2_pow10_eq: "- 1233 \<le> k \<Longrightarrow> k \<le> 1233 \<Longrightarrow> floor_log2_pow10 k = Some (log2_pow10 k)"
  by (simp add: floor_log2_pow10_def log2_pow10_def drop_bit_eq_div)

lemma powers_of_5_value: "i < 27 \<Longrightarrow> unat (powers_of_5_64 ! i) = 5 ^ i"
proof -
  have "list_all (\<lambda>i. unat (powers_of_5_64 ! i) = 5 ^ i) [0..<27]"
    by (simp add: powers_of_5_64_def upt_rec)
  then show "i < 27 \<Longrightarrow> unat (powers_of_5_64 ! i) = 5 ^ i" by (simp add: list_all_iff)
qed

lemma base_close:
  assumes "i < 24"
  shows "close (int i * 27 - 292) (pow10_significands ! i)"
proof -
  have "entry_exact (int i * 27 - 292, int (unat (u128_of (pow10_significands ! i))))"
    using entry_checks(2) [OF assms] by (simp add: entry_def)
  note e = entry_scaled [OF this]
  then have "(2 ^ 127 + 1 :: real) \<le> unat (u128_of (pow10_significands ! i))" "unat (u128_of (pow10_significands ! i)) < (2 ^ 128 :: real)"
    by (simp_all only: real_of_nat_bounds)
  then show ?thesis using e(1,2) by (auto simp: close_def)
qed

lemma recovered_entry:
  fixes i off :: nat
  assumes "i < 24" "0 < off" "off < 27"
  defines "kb \<equiv> int i * 27 - 292" and "b \<equiv> pow10_significands ! i"
  defines "alpha \<equiv> log2_pow10 (kb + int off) - log2_pow10 kb - int off"
  shows "0 < alpha \<and> alpha < 64 \<and>
    (\<exists>c. recover b (powers_of_5_64 ! off) (nat alpha) = Some c \<and> close (kb + int off) c)"
proof -
  let ?c = "unat (u128_of b)"
  have "recovers 26 (log2_pow10 kb - kb) (kb + 1) (5 * int ?c) 5"
    using entry_checks(1) [OF assms(1)] by (simp add: entry_recovers_def entry_def kb_def b_def)
  from recovers_nth [OF this, of "off - 1"] have r:
      "0 < nat alpha" "nat alpha < 64" "drop_bit 127 (drop_bit (nat alpha) (int ?c * 5 ^ off) + 1) = 1"
      "drop_bit 2 (take_bit 127 (drop_bit (nat alpha) (int ?c * 5 ^ off) + 1)) \<noteq> 0 \<or> kb + int off = 0"
      "take_bit 64 (drop_bit (nat alpha) (int ?c * 5 ^ off) + 1) \<noteq> 0" "drop_bit (Suc (nat alpha)) ((5 :: int) ^ off) = 0"
    using assms(2,3) by (auto simp: alpha_def of_nat_diff power_eq_if [of 5 off] algebra_simps)
  define a where "a = nat alpha"
  have a: "0 < a" "a < 64" "alpha = int a" using r(1,2) by (auto simp: a_def)
  define v where "v = ?c * 5 ^ off div 2 ^ a"
  have dv: "drop_bit a (int ?c * 5 ^ off) + 1 = int (v + 1)"
    by (simp add: v_def drop_bit_eq_div zdiv_int)
  have v: "2 ^ 127 \<le> v + 1" "v + 1 < 2 ^ 128" "(v + 1) mod 2 ^ 64 \<noteq> 0"
      "2 ^ 127 + 3 \<le> v + 1 \<or> kb + int off = 0"
    using entry_bits [of "v + 1"] r(3,4,5) unfolding a_def [symmetric] dv by blast+
  have q: "(5 :: int) ^ off < 2 ^ Suc a" using drop_bit_0_less [OF r(6)] by (simp only: a_def)
  obtain c where c: "recover b (powers_of_5_64 ! off) a = Some c" "unat (u128_of c) = v + 1"
    using recover_value [OF a(1,2), of b "powers_of_5_64 ! off"] v(2,3) powers_of_5_value [OF assms(3)] by (auto simp: v_def)
  have s: "scaled_power (kb + int off) = scaled_power kb * (5 ^ off / 2 ^ a)"
    using a(3) by (intro scaled_power_step) (simp add: alpha_def)
  have "real_of_int (5 ^ off) < real_of_int (2 ^ Suc a)" using q by (simp only: of_int_less_iff)
  then have q2: "(0 :: real) < 5 ^ off / 2 ^ a" "(5 :: real) ^ off / 2 ^ a < 2" by (simp_all add: field_simps)
  have e: "scaled_power kb \<le> ?c" "?c < scaled_power kb + 1"
    using entry_scaled(1,2) [of kb "int ?c"] entry_checks(2) [OF assms(1)] by (simp_all add: entry_def kb_def b_def)
  have "int (v + 1) = int ?c * 5 ^ off div 2 ^ a + 1" unfolding v_def by (simp add: zdiv_int)
  then have vi: "real (v + 1) = real_of_int (int ?c * 5 ^ off div 2 ^ a + 1)" by (metis of_int_of_nat_eq)
  have w: "scaled_power (kb + int off) \<le> real (v + 1)" "real (v + 1) < scaled_power (kb + int off) + 3"
    using recovered_close [OF e q2, of "2 ^ a" "int ?c * 5 ^ off"] unfolding s vi by simp_all
  have "2 ^ 127 \<le> scaled_power (kb + int off)"
  proof (cases "kb + int off = 0")
    case True
    then show ?thesis by (simp add: scaled_power_def log2_pow10_def)
  next
    case False
    then have "(2 ^ 127 + 3 :: real) \<le> real (v + 1)" using v(4) by (intro real_above_bounds) simp
    then show ?thesis using w(2) by linarith
  qed
  moreover have "real (v + 1) < 2 ^ 128" using v(2) by (rule real_above_bounds)
  ultimately have "close (kb + int off) c" using w c(2) by (simp add: close_def)
  then show ?thesis using a c(1) by simp
qed

text \<open>The index and the offset of a power, and what the function returns for them.\<close>

lemma get_cached_power_at:
  fixes i off :: nat
  defines "kb \<equiv> int i * 27 - 292"
  assumes "off < 27" "kb + int off \<le> 341"
  shows "get_cached_power (kb + int off) =
    (if off = 0 then Some (pow10_significands ! i)
     else (let alpha = log2_pow10 (kb + int off) - log2_pow10 kb - int off
           in if alpha > 0 \<and> alpha < 64 then recover (pow10_significands ! i) (powers_of_5_64 ! off) (nat alpha) else None))"
proof -
  let ?k = "kb + int off"
  have k: "- 292 \<le> ?k" by (simp add: kb_def)
  have d: "(?k - min_k) div compression_ratio = int i" using assms(2) by (simp add: kb_def compression_ratio_def)
  have l: "floor_log2_pow10 ?k = Some (log2_pow10 ?k)" "floor_log2_pow10 kb = Some (log2_pow10 kb)"
    using assms(2,3) by (simp_all add: floor_log2_pow10_eq kb_def)
  have b: "int i * compression_ratio + min_k = kb" by (simp add: kb_def compression_ratio_def)
  show ?thesis
    using k assms(3) unfolding get_cached_power_def Let_def d b
    by (simp add: l)
qed

lemma get_cached_power_close:
  assumes "- 292 \<le> k" "k \<le> 341"
  shows "\<exists>c. get_cached_power k = Some c \<and> close k c"
proof -
  define i where "i = nat ((k + 292) div 27)"
  define off where "off = nat ((k + 292) mod 27)"
  have k: "k = int i * 27 - 292 + int off"
  proof -
    have "int i = (k + 292) div 27" "int off = (k + 292) mod 27"
      using assms(1) by (simp_all add: i_def off_def pos_imp_zdiv_nonneg_iff)
    then show ?thesis using div_mult_mod_eq [of "k + 292" 27] by linarith
  qed
  have b: "i < 24" "off < 27" "int i * 27 - 292 + int off \<le> 341"
    using assms unfolding k [symmetric] by (auto simp: i_def off_def nat_less_iff)
  show ?thesis
  proof (cases "off = 0")
    case True
    then show ?thesis using base_close [OF b(1)] get_cached_power_at [OF b(2,3)] by (simp add: k)
  next
    case False
    then show ?thesis using recovered_entry [OF b(1) _ b(2)] unfolding k get_cached_power_at [OF b(2,3)] by (simp add: Let_def)
  qed
qed

lemma close_power:
  assumes "close k c"
  defines "l \<equiv> log2_pow10 k"
  shows "2 powi l \<le> (10 powi k :: real)" "(10 powi k :: real) < 2 powi (l + 1)"
    "10 powi k \<le> unat (u128_of c) * (2 powi (l - 127) :: real)"
    "unat (u128_of c) * (2 powi (l - 127) :: real) < 10 powi k + 3 * 2 powi (l - 127)"
proof -
  let ?q = "2 powi (l - 127) :: real"
  have q: "0 < ?q" by simp
  have e: "2 powi l = 2 ^ 127 * ?q" "2 powi (l + 1) = 2 ^ 128 * ?q"
    using power_int_add [of "2 :: real" 127 "l - 127"] power_int_add [of "2 :: real" 128 "l - 127"]
    by (simp_all add: algebra_simps)
  have p: "10 powi k = scaled_power k * ?q"
    using power_int_add [of "2 :: real" "127 - l" "l - 127"] by (simp add: scaled_power_def l_def)
  show "2 powi l \<le> (10 powi k :: real)" "(10 powi k :: real) < 2 powi (l + 1)"
    unfolding e p using assms(1) q by (simp_all only: close_def mult_le_cancel_right_pos mult_less_cancel_right_pos)
  show "10 powi k \<le> unat (u128_of c) * ?q"
    unfolding p using assms(1) q by (simp only: close_def mult_le_cancel_right_pos)
  have "unat (u128_of c) * ?q < (scaled_power k + 3) * ?q"
    using assms(1) q by (simp only: close_def mult_less_cancel_right_pos)
  then show "unat (u128_of c) * ?q < 10 powi k + 3 * ?q" unfolding p by (simp add: distrib_right)
qed

text \<open>C15: \<open>get_cached_power\<close> returns for every power \<open>10 ^ k\<close> in its range, and no assertion on the way fails. With
  \<open>l\<close> the value of \<open>floor_log2_pow10\<close>, which is the binary logarithm of the power rounded down, the entry \<open>c\<close> scaled by
  \<open>2 ^ (l - 127)\<close> is not below the power and less than three units of its last place above it, whether it stands in the table or is
  recovered from the entry below it.\<close>

theorem cached_power_close:
  assumes "- 292 \<le> k" "k \<le> 341"
  shows "\<exists>l c. floor_log2_pow10 k = Some l \<and> 2 powi l \<le> (10 powi k :: real) \<and> (10 powi k :: real) < 2 powi (l + 1) \<and>
    get_cached_power k = Some c \<and> 10 powi k \<le> unat (u128_of c) * (2 powi (l - 127) :: real) \<and>
    unat (u128_of c) * (2 powi (l - 127) :: real) < 10 powi k + 3 * 2 powi (l - 127)"
  using get_cached_power_close [OF assms] close_power floor_log2_pow10_eq [of k] assms by fastforce

theorem cached_power_close_witness:
  "\<exists>l c. floor_log2_pow10 (- 200) = Some l \<and> get_cached_power (- 200) = Some c \<and>
    10 powi (- 200) \<le> unat (u128_of c) * (2 powi (l - 127) :: real)"
  using cached_power_close [of "- 200"] by auto

end
