(* ===== verification/Spec2Isabelle.thy ===== *)
theory Spec2Isabelle
  imports Pattern_Formatter Lockfree_Pools Light_Semaphore Periodic_Function Log_Calls Sub_Queue_Fifo Fmt_Buffer Fmt_Uint128 Fmt_Dragon Fmt_Pow10
begin

text \<open>
  A verification development for the learnlog logging library, a C++ library in the style of spdlog
  with a bundled \<^verbatim>\<open>fmt\<close> and a bundled lock-free queue. Paths are relative to \<^verbatim>\<open>src/\<close>.

  \<^bold>\<open>The program.\<close> A call of \<open>log(level, fmt, args...)\<close> on a logger formats its arguments (\<^verbatim>\<open>base/fmt\<close>),
  makes a \<open>log_msg\<close>, hands it to every sink (\<^verbatim>\<open>sinks\<close>) whose level admits it, and stores it in a ring
  buffer when backtraces are on. A sink turns a message into a line with a pattern formatter
  (\<^verbatim>\<open>sinks/formatters\<close>) and writes it to a stream or a file (\<^verbatim>\<open>base/file_base.h\<close>, \<^verbatim>\<open>base/os.h\<close>). An asynchronous logger
  posts the message to a thread pool instead, whose workers call the sinks; there are pools over a blocking
  queue, over a lock-free queue, and over a lock-free queue with one lane for each producer. The registry
  (\<^verbatim>\<open>base/registry.cpp\<close>, \<^verbatim>\<open>src/learnlog.cpp\<close>) owns the named loggers, the default one, the global settings, the
  thread pool and the periodic flusher.

  \<^bold>\<open>Conventions.\<close> Undefined behaviour (an index out of bounds, an empty \<open>front\<close>) is \<open>None\<close> in an option type. An
  exception is a value of \<open>excpt\<close>, which records what a \<open>catch\<close> block can tell, or, in \<open>fmt\<close>, the message of a
  \<open>format_error\<close> in a sum type. \<open>size_t\<close> is a 64-bit word; other integers are words, or \<open>int\<close> with the conversion written
  out. The operating system, the clock and the thread library are parameters: functions of the environment or of a state of
  the world, which may fail at any call. Threads are interleaved step by step in inductive step relations; mutexes make
  steps atomic, and atomic operations are taken to be sequentially consistent.

  \<^bold>\<open>Theories, bottom up.\<close>

  \<^item> \<open>Log_Prelude\<close>: the type of sizes and the facts on ring indices, lists and words that components share.
  \<^item> \<open>Circular_Queue\<close> (\<^verbatim>\<open>base/circular_queue.h\<close>): every operation on the vector with its two indices. It refines a bounded
    list that drops its oldest element, and it is an interpretation of the locale for queues that overrun.
  \<^item> \<open>Fmt_Base\<close> (\<^verbatim>\<open>base/fmt_base.h\<close>, parts of \<^verbatim>\<open>base/fmt/format.h\<close>): decimal output and the digit counters, which are equal to the
    length of the decimal notation for every value.
  \<^item> \<open>Fmt_Utf8\<close>: the branchless UTF-8 decoder, iteration over code points, display widths, printable characters. Decoding is
    the left inverse of encoding.
  \<^item> \<open>Fmt_Specs\<close>: the state machine of \<open>parse_format_specs\<close>. Its lemma \<open>specs_roundtrip\<close> reads every specification back from its
    text. The loop ends because every round consumes a character.
  \<^item> \<open>Fmt_Write\<close>: the \<open>write\<close> functions for integers, booleans, characters, strings and pointers, with padding, prefixes,
    precision, digit grouping and escapes.
  \<^item> \<open>Fmt_Buffer\<close> (\<^verbatim>\<open>base/fmt/base.h\<close>, \<^verbatim>\<open>base/fmt/format.h\<close>): the buffers behind the output: memory that grows, iterators and arrays with and
    without a limit, the counter of \<open>formatted_size\<close>, and the shortcut that writes into a buffer through a pointer. Sizes are natural numbers.
  \<^item> \<open>Fmt_Uint128\<close>, \<open>Fmt_Bigint\<close>, \<open>Fmt_Dragon\<close> (\<^verbatim>\<open>base/fmt/format.h\<close>): the arithmetic behind exact floating-point output. The 128-bit fallback is
    the arithmetic of 128-bit words; \<open>bigint\<close> with its 32-bit digits and its exponent refines the natural numbers; \<open>format_dragon\<close> on it rounds to
    the nearest multiple of the last digit, and its shortest output reads back. The loops of the bigints recurse on lists or
    numbers; the loop of the shortest digits is a partial function, and that it ends is part of \<open>dragon_shortest\<close>.
  \<^item> \<open>Fmt_Pow10\<close> (\<^verbatim>\<open>base/fmt/format-inl.h\<close>): the 128-bit powers of ten for \<^verbatim>\<open>double\<close>. An entry of the compressed table and one recovered
    from it are close to the power they stand for. That all offsets are safe is evaluated once for each entry of the table.
  \<^item> \<open>Fmt_Format\<close>: arguments, packed and unpacked, both loops of \<open>parse_format_string\<close>, \<open>vformat_to\<close>, and the checker of format strings. The
    loops are proved in a locale of handlers that read on, which the formatting and the checking handler interpret; they
    are partial functions, and that they end is a theorem. What the checker accepts without naming an argument cannot fail
    at run time but for the values of dynamic widths and precisions and for null strings.
  \<^item> \<open>Definitions\<close> (\<^verbatim>\<open>include/definitions.h\<close>, \<^verbatim>\<open>base/log_msg.h\<close>, \<^verbatim>\<open>base/exception.h\<close>): levels, messages, exceptions, \<open>LEARNLOG_CATCH\<close>.
  \<^item> \<open>Filler\<close>, \<open>Flag_Formatters\<close>, \<open>Pattern_Formatter\<close>: alignment, one formatter for each flag with its caches, and the pattern
    parser. A pattern built from items is parsed into these items; one that ends inside a flag is read past its end.
  \<^item> \<open>Block_Queue\<close> (\<^verbatim>\<open>base/block_queue.h\<close>): threads with a mutex and two condition variables. The queue is first-in first-out, no
    wakeup is lost, and everything comes to rest.
  \<^item> \<open>Backtracer\<close> (\<^verbatim>\<open>base/log_msg_buf.h\<close>, \<^verbatim>\<open>base/backtracer.h\<close>): owned messages and the last \<open>n\<close> of them.
  \<^item> \<open>Os_Files\<close> (\<^verbatim>\<open>base/os.h\<close>, \<^verbatim>\<open>base/file_base.h\<close>): a file system with system calls that may fail, and the file object on it.
    The five tries of \<open>open\<close> are a recursion on the number of tries left.
  \<^item> \<open>Rolling_File_Sink\<close>, \<open>Sinks\<close>: all sinks, with the bound on the size of a rolled file and what becomes of it after a failure.
  \<^item> \<open>Loggers\<close> (\<^verbatim>\<open>include/logger.h\<close>): loggers and clones share sinks and backtracers in a store. Nothing a sink throws leaves a
    logger; without faults every message reaches every sink that admits it once, in order.
  \<^item> \<open>Log_Calls\<close>: a call from its format string to the lines in the sinks.
  \<^item> \<open>Registry\<close> (\<^verbatim>\<open>base/registry.cpp\<close>, \<^verbatim>\<open>src/learnlog.cpp\<close>, the factories): the invariant of the maps under every operation. Only
    loggers handed over from outside may hold a pool that is no longer the registered one.
  \<^item> \<open>Thread_Pools\<close> (\<^verbatim>\<open>base/async_msg.h\<close>, \<^verbatim>\<open>include/async_logger.h\<close>, \<^verbatim>\<open>base/thread_pool.cpp\<close>, \<^verbatim>\<open>base/lock_thread_pool.h\<close>): producers and workers over a queue
    given by its operations, and the pool over the blocking queue down to its shutdown.
  \<^item> \<open>Lockfree_Pools\<close> (\<^verbatim>\<open>base/lockfree_thread_pool.h\<close>, \<^verbatim>\<open>base/lockfree_concurrent_thread_pool.h\<close>): the pools over the lock-free queue, which
    is a parameter with the documented order of each producer's elements as its only law.
  \<^item> \<open>Explicit_Producer\<close> (\<^verbatim>\<open>base/concurrentqueue/concurrentqueue.h\<close>): the sub-queue of a producer token, \<open>enqueue\<close> and \<open>dequeue\<close> in atomic steps of one
    producer and any number of consumers, with blocks and block index. \<open>Sub_Queue_Counters\<close> bounds the three counters,
    \<open>Sub_Queue_Places\<close> shows that the places consumers claim are distinct and filled, \<open>Sub_Queue_Producer\<close> that the producer
    reuses only empty blocks, and \<open>Sub_Queue_Fifo\<close> concludes that elements come out once and in order. The history of elements
    enqueued and places taken is ghost state that no step reads. The runs have fewer than \<open>2 ^ 62\<close> steps, which keeps the
    differences of the wrapping counters below half of their range; no machine runs longer.
  \<^item> \<open>Light_Semaphore\<close> (\<^verbatim>\<open>base/concurrentqueue/lightweightsemaphore.h\<close>): permits are neither made up nor lost, and no waiter
    sleeps while there is a permit.
  \<^item> \<open>Periodic_Function\<close> (\<^verbatim>\<open>base/periodic_function.h\<close>): the destructor stops the thread.

  \<^bold>\<open>Not modelled.\<close> In \<^verbatim>\<open>base/fmt\<close>: of floating-point output the estimate of the exponent in \<open>format_float\<close>, Dragonbox but for its
  powers of ten, the hexadecimal form
  and the writing of the digits; user-defined formatters, wide characters and printing to streams, named-argument stores
  built at run time, compiled format strings. In \<^verbatim>\<open>base/concurrentqueue\<close>: the list of producers, the implicit producers and their hash
  table, the free list, the bulk operations, the tokens of consumers and the blocking wrapper. The Windows branches of \<^verbatim>\<open>base/os.h\<close>,
  \<^verbatim>\<open>sinks/wincolor_sink.h\<close>, \<^verbatim>\<open>include/win.h\<close> and \<^verbatim>\<open>base/wchar_support.h\<close>, which other platforms do not compile. The memory model: weaker orders of atomic
  operations are not distinguished. Tests, benchmarks and the example program.
\<close>

end
